(* ===== verification/Rmdb_Prelude.thy ===== *)
theory Rmdb_Prelude
  imports Main "HOL-Library.Word"
begin

text \<open>
  The shared layer of the development.

  It fixes the names of the machine types (\<open>byte\<close>, \<open>buf\<close>), the shape every fallible and
  state-changing operation of the C++ code takes here (\<open>sem\<close>: a state transformer whose result
  is an exception or a value, and which yields a state in \<^emph>\<open>both\<close> cases, because a C++ exception
  leaves the side effects made so far in place), and the byte-level primitives that
  \<^verbatim>\<open>memcpy\<close>, \<^verbatim>\<open>memset\<close> and the \<^verbatim>\<open>reinterpret_cast<int *>\<close> loads and stores of the sources
  amount to on a little-endian machine.
\<close>

section \<open>Collections of facts\<close>

named_theorems sem_simps \<open>unfolding of the sequencing operators\<close>
named_theorems keeps_intros \<open>rules that push an invariant through a computation\<close>
named_theorems byte_simps \<open>reads over byte-level writes\<close>

section \<open>Machine types\<close>

type_synonym byte = "8 word"

text \<open>
  A buffer is the contents of a \<^verbatim>\<open>char *\<close>: the byte at every offset. How many of its bytes are
  meaningful (\<open>PAGE_SIZE\<close>, the record size) is stated by the operations that use it.
\<close>

type_synonym buf = "nat \<Rightarrow> byte"

definition zero_buf :: buf where
  "zero_buf = (\<lambda>_. 0)"

text \<open>\<^verbatim>\<open>memcpy(dst + off, src, n)\<close> with the source given as the list of its \<open>n\<close> bytes.\<close>

definition put_bytes :: "buf \<Rightarrow> nat \<Rightarrow> byte list \<Rightarrow> buf" where
  "put_bytes d off bs = (\<lambda>i. if off \<le> i \<and> i < off + length bs then bs ! (i - off) else d i)"

text \<open>The \<open>n\<close> bytes from \<open>off\<close> on, as a copy out of the buffer reads them.\<close>

definition get_bytes :: "buf \<Rightarrow> nat \<Rightarrow> nat \<Rightarrow> byte list" where
  "get_bytes d off n = map (\<lambda>i. d (off + i)) [0..<n]"

lemma zero_buf_apply [simp]: "zero_buf i = 0"
  by (simp add: zero_buf_def)

lemma length_get_bytes [simp]: "length (get_bytes d off n) = n"
  by (simp add: get_bytes_def)

lemma nth_get_bytes [simp]: "i < n \<Longrightarrow> get_bytes d off n ! i = d (off + i)"
  by (simp add: get_bytes_def)

lemma put_bytes_Nil [simp]: "put_bytes d off [] = d"
  by (rule ext) (auto simp: put_bytes_def)

lemma put_bytes_outside [byte_simps]:
  "i < off \<or> off + length bs \<le> i \<Longrightarrow> put_bytes d off bs i = d i"
  by (auto simp: put_bytes_def)

lemma put_bytes_inside [byte_simps]:
  "off \<le> i \<Longrightarrow> i < off + length bs \<Longrightarrow> put_bytes d off bs i = bs ! (i - off)"
  by (simp add: put_bytes_def)

lemma get_put_same [byte_simps]:
  "n = length bs \<Longrightarrow> get_bytes (put_bytes d off bs) off n = bs"
  by (rule nth_equalityI) (auto simp: put_bytes_inside)

lemma get_put_disjoint [byte_simps]:
  "off' + n \<le> off \<or> off + length bs \<le> off' \<Longrightarrow>
     get_bytes (put_bytes d off bs) off' n = get_bytes d off' n"
  by (rule nth_equalityI) (auto simp: put_bytes_outside)

lemma get_bytes_cong:
  "(\<And>i. off \<le> i \<Longrightarrow> i < off + n \<Longrightarrow> d i = e i) \<Longrightarrow> get_bytes d off n = get_bytes e off n"
  by (rule nth_equalityI) auto

lemma put_get_id [simp]: "put_bytes d off (get_bytes d off n) = d"
  by (rule ext) (auto simp: put_bytes_def)

section \<open>Little-endian integers\<close>

text \<open>
  The unsigned value of the \<open>n\<close> bytes at \<open>off\<close>, least significant byte first, and the bytes
  of such a value. A C++ \<^verbatim>\<open>int\<close> is the 4-byte, an \<^verbatim>\<open>int64_t\<close> the 8-byte two's complement
  reading (\<open>get_i32\<close>, \<open>get_i64\<close>); the unsigned readings are \<open>le_nat\<close> themselves.
\<close>

fun le_val :: "byte list \<Rightarrow> nat" where
  "le_val [] = 0"
| "le_val (b # bs) = unat b + 256 * le_val bs"

fun le_bytes :: "nat \<Rightarrow> nat \<Rightarrow> byte list" where
  "le_bytes 0 v = []"
| "le_bytes (Suc n) v = word_of_nat (v mod 256) # le_bytes n (v div 256)"

definition signed_of :: "nat \<Rightarrow> nat \<Rightarrow> int" where
  "signed_of bits v = (if v < 2 ^ (bits - 1) then int v else int v - 2 ^ bits)"

definition unsigned_of :: "nat \<Rightarrow> int \<Rightarrow> nat" where
  "unsigned_of bits v = nat (v mod 2 ^ bits)"

lemma length_le_bytes [simp]: "length (le_bytes n v) = n"
  by (induction n arbitrary: v) auto

lemma le_val_bound: "le_val bs < 256 ^ length bs"
proof (induction bs)
  case Nil
  show ?case by simp
next
  case (Cons b bs)
  have "unat b < 256" by (rule order_less_le_trans [OF unsigned_less]) simp
  then have "unat b + 256 * le_val bs < 256 + 256 * le_val bs" by simp
  also have "\<dots> = 256 * (le_val bs + 1)" by simp
  also have "\<dots> \<le> 256 * 256 ^ length bs" using Cons.IH by (intro mult_le_mono2) simp
  finally show ?case by simp
qed

lemma le_val_le_bytes: "le_val (le_bytes n v) = v mod 256 ^ n"
proof (induction n arbitrary: v)
  case 0
  show ?case by simp
next
  case (Suc n)
  have "unat (word_of_nat (v mod 256) :: byte) = v mod 256"
    by (simp add: unat_of_nat)
  then have "le_val (le_bytes (Suc n) v) = v mod 256 + 256 * (v div 256 mod 256 ^ n)"
    by (simp add: Suc.IH)
  also have "\<dots> = v mod (256 * 256 ^ n)" by (simp add: mod_mult2_eq)
  finally show ?case by simp
qed

lemma le_bytes_le_val [simp]: "le_bytes (length bs) (le_val bs) = bs"
proof (induction bs)
  case Nil
  show ?case by simp
next
  case (Cons b bs)
  have b: "unat b < 256" by (rule order_less_le_trans [OF unsigned_less]) simp
  then have "(unat b + 256 * le_val bs) mod 256 = unat b"
    and "(unat b + 256 * le_val bs) div 256 = le_val bs" by auto
  with Cons.IH show ?case by simp
qed

lemma signed_unsigned:
  assumes "0 < bits" and "- (2 ^ (bits - 1)) \<le> v" and "v < 2 ^ (bits - 1)"
  shows "signed_of bits (unsigned_of bits v) = v"
proof -
  have p: "(2::int) ^ bits = 2 * 2 ^ (bits - 1)"
    using assms(1) by (cases bits) auto
  show ?thesis
  proof (cases "0 \<le> v")
    case True
    with assms(3) p have "v mod 2 ^ bits = v" by (intro mod_pos_pos_trivial) auto
    with True assms(3) show ?thesis
      by (simp add: signed_of_def unsigned_of_def nat_less_iff)
  next
    case False
    have "v mod 2 ^ bits = (v + 2 ^ bits) mod 2 ^ bits" by simp
    also have "\<dots> = v + 2 ^ bits"
      using False assms(2) p by (intro mod_pos_pos_trivial) auto
    finally have m: "v mod 2 ^ bits = v + 2 ^ bits" .
    have "\<not> v + 2 ^ bits < 2 ^ (bits - 1)" using assms(2) p by simp
    moreover have "0 \<le> v + 2 ^ bits"
      using assms(2) p zero_less_power [of "2::int" "bits - 1"] by linarith
    ultimately show ?thesis
      by (simp add: signed_of_def unsigned_of_def m nat_less_iff)
  qed
qed

lemma unsigned_of_bound: "unsigned_of bits v < 2 ^ bits"
  by (simp add: unsigned_of_def nat_less_iff)

definition int32_range :: "int \<Rightarrow> bool" where
  "int32_range v \<longleftrightarrow> - 2147483648 \<le> v \<and> v \<le> 2147483647"

definition int64_range :: "int \<Rightarrow> bool" where
  "int64_range v \<longleftrightarrow> - 9223372036854775808 \<le> v \<and> v \<le> 9223372036854775807"

definition i32_bytes :: "int \<Rightarrow> byte list" where
  "i32_bytes v = le_bytes 4 (unsigned_of 32 v)"

definition i64_bytes :: "int \<Rightarrow> byte list" where
  "i64_bytes v = le_bytes 8 (unsigned_of 64 v)"

definition get_i32 :: "buf \<Rightarrow> nat \<Rightarrow> int" where
  "get_i32 d off = signed_of 32 (le_val (get_bytes d off 4))"

definition get_i64 :: "buf \<Rightarrow> nat \<Rightarrow> int" where
  "get_i64 d off = signed_of 64 (le_val (get_bytes d off 8))"

definition put_i32 :: "buf \<Rightarrow> nat \<Rightarrow> int \<Rightarrow> buf" where
  "put_i32 d off v = put_bytes d off (i32_bytes v)"

definition put_i64 :: "buf \<Rightarrow> nat \<Rightarrow> int \<Rightarrow> buf" where
  "put_i64 d off v = put_bytes d off (i64_bytes v)"

lemma length_i32_bytes [simp]: "length (i32_bytes v) = 4"
  by (simp add: i32_bytes_def)

lemma length_i64_bytes [simp]: "length (i64_bytes v) = 8"
  by (simp add: i64_bytes_def)

lemma signed_i32_bytes:
  assumes "int32_range v"
  shows "signed_of 32 (le_val (i32_bytes v)) = v"
proof -
  have "unsigned_of 32 v mod 256 ^ 4 = unsigned_of 32 v"
    using unsigned_of_bound [of 32 v] by simp
  then show ?thesis
    using assms signed_unsigned [of 32 v]
    by (simp add: i32_bytes_def le_val_le_bytes int32_range_def)
qed

lemma signed_i64_bytes:
  assumes "int64_range v"
  shows "signed_of 64 (le_val (i64_bytes v)) = v"
proof -
  have "unsigned_of 64 v mod 256 ^ 8 = unsigned_of 64 v"
    using unsigned_of_bound [of 64 v] by simp
  then show ?thesis
    using assms signed_unsigned [of 64 v]
    by (simp add: i64_bytes_def le_val_le_bytes int64_range_def)
qed

lemma get_put_i32_same [byte_simps]: "int32_range v \<Longrightarrow> get_i32 (put_i32 d off v) off = v"
  by (simp add: get_i32_def put_i32_def get_put_same signed_i32_bytes)

lemma get_put_i64_same [byte_simps]: "int64_range v \<Longrightarrow> get_i64 (put_i64 d off v) off = v"
  by (simp add: get_i64_def put_i64_def get_put_same signed_i64_bytes)

lemma get_i32_put_bytes [byte_simps]:
  "off' + 4 \<le> off \<or> off + length bs \<le> off' \<Longrightarrow> get_i32 (put_bytes d off bs) off' = get_i32 d off'"
  by (simp add: get_i32_def get_put_disjoint)

lemma get_put_i32_other [byte_simps]:
  "off' + 4 \<le> off \<or> off + 4 \<le> off' \<Longrightarrow> get_i32 (put_i32 d off v) off' = get_i32 d off'"
  by (simp add: put_i32_def get_i32_put_bytes)

lemma get_bytes_put_i32 [byte_simps]:
  "off' + n \<le> off \<or> off + 4 \<le> off' \<Longrightarrow> get_bytes (put_i32 d off v) off' n = get_bytes d off' n"
  by (simp add: put_i32_def get_put_disjoint)

lemma put_i32_outside [byte_simps]:
  "i < off \<or> off + 4 \<le> i \<Longrightarrow> put_i32 d off v i = d i"
  by (simp add: put_i32_def put_bytes_outside)

lemma get_i32_cong:
  "(\<And>i. off \<le> i \<Longrightarrow> i < off + 4 \<Longrightarrow> d i = e i) \<Longrightarrow> get_i32 d off = get_i32 e off"
  unfolding get_i32_def by (metis get_bytes_cong)

lemma get_i32_range: "int32_range (get_i32 d off)"
proof -
  have "le_val (get_bytes d off 4) < 256 ^ 4"
    using le_val_bound [of "get_bytes d off 4"] by simp
  then show ?thesis
    by (auto simp: get_i32_def signed_of_def int32_range_def)
qed

lemma get_i32_zero: "(\<And>i. off \<le> i \<Longrightarrow> i < off + 4 \<Longrightarrow> d i = 0) \<Longrightarrow> get_i32 d off = 0"
  by (simp add: get_i32_def get_bytes_def signed_of_def upt_rec)

section \<open>Characters\<close>

text \<open>Characters as bytes.\<close>

definition str_bytes :: "string \<Rightarrow> byte list" where
  "str_bytes cs = map (\<lambda>c. word_of_nat (of_char c)) cs"

definition bytes_str :: "byte list \<Rightarrow> string" where
  "bytes_str bs = map (\<lambda>b. char_of (unat b)) bs"

lemma length_str_bytes [simp]: "length (str_bytes cs) = length cs" "length (bytes_str bs) = length bs"
  by (simp_all add: str_bytes_def bytes_str_def)

lemma bytes_str_str_bytes [simp]: "bytes_str (str_bytes cs) = cs"
proof -
  have "char_of (unat (word_of_nat (of_char c) :: byte)) = c" for c
  proof -
    have "(of_char c :: nat) < 256" by simp
    then have "unat (word_of_nat (of_char c) :: byte) = of_char c" by (simp add: unat_of_nat)
    then show ?thesis by simp
  qed
  then show ?thesis by (simp add: bytes_str_def str_bytes_def map_idI)
qed

section \<open>State and exceptions\<close>

text \<open>
  A member function that changes its object and may throw is a value of type \<open>sem\<close>: given the
  state it returns \<open>Inl\<close> of the exception or \<open>Inr\<close> of its result, and the state it leaves,
  which after an exception holds whatever was done before the \<^verbatim>\<open>throw\<close>.
\<close>

type_synonym ('s, 'e, 'a) sem = "'s \<Rightarrow> ('e + 'a) \<times> 's"

definition ret :: "'a \<Rightarrow> ('s, 'e, 'a) sem" where
  "ret x = (\<lambda>s. (Inr x, s))"

definition throw :: "'e \<Rightarrow> ('s, 'e, 'a) sem" where
  "throw e = (\<lambda>s. (Inl e, s))"

definition bind_e :: "('s, 'e, 'a) sem \<Rightarrow> ('a \<Rightarrow> ('s, 'e, 'b) sem) \<Rightarrow> ('s, 'e, 'b) sem" where
  "bind_e m f = (\<lambda>s. case m s of (r, s') \<Rightarrow> (case r of Inl e \<Rightarrow> (Inl e, s') | Inr x \<Rightarrow> f x s'))"

definition gets_e :: "('s \<Rightarrow> 'a) \<Rightarrow> ('s, 'e, 'a) sem" where
  "gets_e f = (\<lambda>s. (Inr (f s), s))"

definition modify_e :: "('s \<Rightarrow> 's) \<Rightarrow> ('s, 'e, unit) sem" where
  "modify_e f = (\<lambda>s. (Inr (), f s))"

text \<open>\<^verbatim>\<open>if (c) throw e;\<close>\<close>

definition throw_if :: "bool \<Rightarrow> 'e \<Rightarrow> ('s, 'e, unit) sem" where
  "throw_if c e = (if c then throw e else ret ())"

text \<open>A call that reads no state: its result or exception.\<close>

definition lift_r :: "'e + 'a \<Rightarrow> ('s, 'e, 'a) sem" where
  "lift_r r = (\<lambda>s. (r, s))"

text \<open>A range-based \<^verbatim>\<open>for\<close> over a container: the first exception ends it.\<close>

fun for_each :: "'x list \<Rightarrow> ('x \<Rightarrow> ('s, 'e, unit) sem) \<Rightarrow> ('s, 'e, unit) sem" where
  "for_each [] f = ret ()"
| "for_each (x # xs) f = bind_e (f x) (\<lambda>_. for_each xs f)"

text \<open>A call on a member object: the computation runs on the part \<open>g s\<close> of the state.\<close>

definition zoom :: "('s \<Rightarrow> 't) \<Rightarrow> ('t \<Rightarrow> 's \<Rightarrow> 's) \<Rightarrow> ('t, 'e, 'a) sem \<Rightarrow> ('s, 'e, 'a) sem" where
  "zoom g p m = (\<lambda>s. case m (g s) of (r, t) \<Rightarrow> (r, p t s))"

lemma ret_app [simp, sem_simps]: "ret x s = (Inr x, s)"
  by (simp add: ret_def)

lemma throw_app [simp, sem_simps]: "throw e s = (Inl e, s)"
  by (simp add: throw_def)

lemma gets_e_app [simp, sem_simps]: "gets_e f s = (Inr (f s), s)"
  by (simp add: gets_e_def)

lemma modify_e_app [simp, sem_simps]: "modify_e f s = (Inr (), f s)"
  by (simp add: modify_e_def)

lemma throw_if_app [simp, sem_simps]:
  "throw_if c e s = (if c then (Inl e, s) else (Inr (), s))"
  by (simp add: throw_if_def)

lemma lift_r_simps [simp]: "lift_r (Inr x) s = (Inr x, s)" "lift_r (Inl e) s = (Inl e, s)"
  by (simp_all add: lift_r_def)

lemma bind_e_app [sem_simps]:
  "bind_e m f s = (case m s of (Inl e, s') \<Rightarrow> (Inl e, s') | (Inr x, s') \<Rightarrow> f x s')"
  by (simp add: bind_e_def split: prod.splits sum.splits)

lemma bind_e_Inr_eq [simp]: "m s = (Inr x, s') \<Longrightarrow> bind_e m f s = f x s'"
  by (simp add: bind_e_app)

text \<open>The same for a boolean result: the simplifier turns the equation with \<^const>\<open>False\<close> around.\<close>

lemma bind_e_False [simp]: "m s = (Inr False, s') \<Longrightarrow> bind_e m f s = f False s'"
  by (simp add: bind_e_app)

lemma bind_e_Inl_eq [simp]: "m s = (Inl e, s') \<Longrightarrow> bind_e m f s = (Inl e, s')"
  by (simp add: bind_e_app)

lemma bind_e_InrE:
  assumes "bind_e m f s = (Inr y, s')"
  obtains x s1 where "m s = (Inr x, s1)" and "f x s1 = (Inr y, s')"
  using assms by (auto simp: bind_e_app split: prod.splits sum.splits)

lemma bind_e_Inr_iff:
  "bind_e m f s = (Inr y, s') \<longleftrightarrow> (\<exists>x s1. m s = (Inr x, s1) \<and> f x s1 = (Inr y, s'))"
  by (auto simp: bind_e_app split: prod.splits sum.splits)

lemma zoom_app [sem_simps]:
  "zoom g p m s = (case m (g s) of (r, t) \<Rightarrow> (r, p t s))"
  by (simp add: zoom_def)

lemma zoom_eq [simp]: "m (g s) = (r, t) \<Longrightarrow> zoom g p m s = (r, p t s)"
  by (simp add: zoom_def)

lemma zoom_Inr_iff:
  "zoom g p m s = (r, s') \<longleftrightarrow> (\<exists>t. m (g s) = (r, t) \<and> s' = p t s)"
  by (auto simp: zoom_def split: prod.splits)

subsection \<open>Invariants along a computation\<close>

text \<open>
  \<open>keeps I m\<close>: whatever \<open>m\<close> returns, normally or by an exception, it leaves a state that
  satisfies \<open>I\<close> when it started in one.
\<close>

definition keeps :: "('s \<Rightarrow> bool) \<Rightarrow> ('s, 'e, 'a) sem \<Rightarrow> bool" where
  "keeps I m \<longleftrightarrow> (\<forall>s. I s \<longrightarrow> I (snd (m s)))"

lemma keepsI: "(\<And>s. I s \<Longrightarrow> I (snd (m s))) \<Longrightarrow> keeps I m"
  by (simp add: keeps_def)

lemma keepsD: "keeps I m \<Longrightarrow> I s \<Longrightarrow> m s = (r, s') \<Longrightarrow> I s'"
  unfolding keeps_def by (metis snd_conv)

lemma keeps_ret [keeps_intros]: "keeps I (ret x)"
  by (simp add: keeps_def)

lemma keeps_throw [keeps_intros]: "keeps I (throw e)"
  by (simp add: keeps_def)

lemma keeps_gets [keeps_intros]: "keeps I (gets_e f)"
  by (simp add: keeps_def)

lemma keeps_throw_if [keeps_intros]: "keeps I (throw_if c e)"
  by (simp add: keeps_def)

lemma keeps_modify [keeps_intros]: "(\<And>s. I s \<Longrightarrow> I (f s)) \<Longrightarrow> keeps I (modify_e f)"
  by (simp add: keeps_def)

lemma keeps_bind [keeps_intros]:
  assumes "keeps I m" and "\<And>x. keeps I (f x)"
  shows "keeps I (bind_e m f)"
proof (rule keepsI)
  fix s assume "I s"
  obtain r s1 where ms: "m s = (r, s1)" by (cases "m s")
  with assms(1) \<open>I s\<close> have "I s1" by (rule keepsD)
  with ms assms(2) show "I (snd (bind_e m f s))"
    by (cases r) (auto simp: bind_e_app keeps_def)
qed

lemma keeps_if [keeps_intros]:
  "(c \<Longrightarrow> keeps I m) \<Longrightarrow> (\<not> c \<Longrightarrow> keeps I n) \<Longrightarrow> keeps I (if c then m else n)"
  by simp

lemma keeps_for_each [keeps_intros]: "(\<And>x. x \<in> set xs \<Longrightarrow> keeps I (f x)) \<Longrightarrow> keeps I (for_each xs f)"
  by (induction xs) (auto intro!: keeps_intros)

lemma for_each_append:
  "for_each (xs @ ys) f = bind_e (for_each xs f) (\<lambda>_. for_each ys f)"
  by (induction xs) (auto simp: bind_e_def ret_def fun_eq_iff split: prod.splits sum.splits)

end
