(* ===== verification/Rmdb_Errors.thy ===== *)
theory Rmdb_Errors
  imports Rmdb_Prelude
begin

text \<open>
  The exceptions of the program (\<^verbatim>\<open>errors.h\<close>, and the transaction abort of
  \<^verbatim>\<open>txn_defs.h\<close>) and the texts they carry to the client. A failed \<^verbatim>\<open>assert\<close> is an exception
  too: the build never defines \<^verbatim>\<open>NDEBUG\<close>, so it stops the program at that point. \<open>StepLimit\<close> is no exception of
  the program: it marks a loop of the model that used up its bound, and the theorems on such loops show that a
  large enough bound never gives it. Nor is \<open>Undefined\<close>: it marks a step whose behaviour the language leaves open, such as
  writing past the end of a buffer or using a null pointer.
\<close>

section \<open>Decimal text of integers\<close>

text \<open>\<^verbatim>\<open>std::to_string\<close> on integers.\<close>

definition digit_char :: "nat \<Rightarrow> char" where
  "digit_char d = char_of (48 + d)"

fun nat_digits :: "nat \<Rightarrow> string" where
  "nat_digits n = (if n < 10 then [digit_char n] else nat_digits (n div 10) @ [digit_char (n mod 10)])"

declare nat_digits.simps [simp del]

definition to_string :: "int \<Rightarrow> string" where
  "to_string i = (if i < 0 then ''-'' @ nat_digits (nat (- i)) else nat_digits (nat i))"

lemma nat_digits_not_Nil [simp]: "nat_digits n \<noteq> []"
  by (subst nat_digits.simps) simp

section \<open>Exceptions\<close>

datatype AbortReason = LOCK_ON_SHIRINKING | UPGRADE_CONFLICT | DEADLOCK_PREVENTION

datatype rmdb_error =
    InternalError string
  | UnixError string
  | FileNotOpenError int
  | FileNotClosedError string
  | FileExistsError string
  | FileNotFoundError string
  | RecordNotFoundError int int
  | InvalidRecordSizeError int
  | InvalidColLengthError int
  | IndexEntryNotFoundError
  | DatabaseNotFoundError string
  | DatabaseExistsError string
  | TableNotFoundError string
  | TableExistsError string
  | ColumnNotFoundError string
  | IndexNotFoundError string "string list"
  | IndexExistsError string "string list"
  | InvalidValueCountError
  | StringOverflowError
  | IncompatibleTypeError string string
  | AmbiguousColumnError string
  | PageNotExistError string int
  | TransactionAbortException int AbortReason
  | OutOfRange
  | AssertionFailure
  | StepLimit
  | Undefined

text \<open>The column list of the index errors: names separated by a comma and a space.\<close>

fun join_names :: "string list \<Rightarrow> string" where
  "join_names [] = ''''"
| "join_names [c] = c"
| "join_names (c # cs) = c @ '', '' @ join_names cs"

text \<open>The text a \<^verbatim>\<open>RMDBError\<close> is built from, before the common prefix.\<close>

fun error_text :: "rmdb_error \<Rightarrow> string" where
  "error_text (InternalError msg) = msg"
| "error_text (UnixError msg) = msg"
| "error_text (FileNotOpenError fd) = ''Invalid file descriptor: '' @ to_string fd"
| "error_text (FileNotClosedError f) = ''File is opened: '' @ f"
| "error_text (FileExistsError f) = ''File already exists: '' @ f"
| "error_text (FileNotFoundError f) = ''File not found: '' @ f"
| "error_text (RecordNotFoundError p s) =
     ''Record not found: ('' @ to_string p @ '','' @ to_string s @ '')''"
| "error_text (InvalidRecordSizeError n) = ''Invalid record size: '' @ to_string n"
| "error_text (InvalidColLengthError n) = ''Invalid column length: '' @ to_string n"
| "error_text IndexEntryNotFoundError = ''Index entry not found''"
| "error_text (DatabaseNotFoundError d) = ''Database not found: '' @ d"
| "error_text (DatabaseExistsError d) = ''Database already exists: '' @ d"
| "error_text (TableNotFoundError t) = ''Table not found: '' @ t"
| "error_text (TableExistsError t) = ''Table already exists: '' @ t"
| "error_text (ColumnNotFoundError c) = ''Column not found: '' @ c"
| "error_text (IndexNotFoundError t cs) = ''Index not found: '' @ t @ ''.('' @ join_names cs @ '')''"
| "error_text (IndexExistsError t cs) = ''Index already exists: '' @ t @ ''.('' @ join_names cs @ '')''"
| "error_text InvalidValueCountError = ''Invalid value count''"
| "error_text StringOverflowError = ''String is too long''"
| "error_text (IncompatibleTypeError l r) = ''Incompatible type error: lhs '' @ l @ '', rhs '' @ r"
| "error_text (AmbiguousColumnError c) = ''Ambiguous column: '' @ c"
| "error_text (PageNotExistError t p) = ''Page '' @ to_string p @ '' in table '' @ t @ ''not exits''"
| "error_text _ = ''''"

text \<open>\<^verbatim>\<open>RMDBError::what()\<close>: every class of the hierarchy starts its message with the same prefix.\<close>

definition what :: "rmdb_error \<Rightarrow> string" where
  "what e = ''Error: '' @ error_text e"

text \<open>
  The classes derived from \<^verbatim>\<open>RMDBError\<close>, the ones the handler of \<^verbatim>\<open>client_handler\<close> and
  the \<^verbatim>\<open>catch (RMDBError &)\<close> of recovery take. The transaction abort, the
  \<^verbatim>\<open>std::out_of_range\<close> of a failed \<^verbatim>\<open>at()\<close> and an assertion failure are not among them.
\<close>

fun is_RMDBError :: "rmdb_error \<Rightarrow> bool" where
  "is_RMDBError (TransactionAbortException t r) = False"
| "is_RMDBError OutOfRange = False"
| "is_RMDBError AssertionFailure = False"
| "is_RMDBError StepLimit = False"
| "is_RMDBError Undefined = False"
| "is_RMDBError _ = True"

fun GetInfo :: "int \<Rightarrow> AbortReason \<Rightarrow> string" where
  "GetInfo t LOCK_ON_SHIRINKING =
     ''Transaction '' @ to_string t @ '' aborted because it cannot request locks on SHRINKING phase\<newline>''"
| "GetInfo t UPGRADE_CONFLICT =
     ''Transaction '' @ to_string t @ '' aborted because another transaction is waiting for upgrading\<newline>''"
| "GetInfo t DEADLOCK_PREVENTION =
     ''Transaction '' @ to_string t @ '' aborted for deadlock prevention\<newline>''"

end
