(* ===== verification/Rmdb_Config.thy ===== *)
theory Rmdb_Config
  imports Rmdb_Errors
begin

text \<open>
  The constants of \<^verbatim>\<open>common/config.h\<close> and the basic types of \<^verbatim>\<open>defs.h\<close>: page sizes and
  the invalid identifiers, record identifiers and column types.
\<close>

definition INVALID_PAGE_ID :: int where
  INVALID_PAGE_ID_def [simp]: "INVALID_PAGE_ID = - 1"

definition INVALID_TXN_ID :: int where
  INVALID_TXN_ID_def [simp]: "INVALID_TXN_ID = - 1"

definition INVALID_LSN :: int where
  INVALID_LSN_def [simp]: "INVALID_LSN = - 1"

definition PAGE_SIZE :: nat where
  PAGE_SIZE_def [simp]: "PAGE_SIZE = 4096"

definition BUFFER_POOL_SIZE :: nat where
  BUFFER_POOL_SIZE_def [simp]: "BUFFER_POOL_SIZE = 65536"

definition LOG_BUFFER_SIZE :: nat where
  LOG_BUFFER_SIZE_def [simp]: "LOG_BUFFER_SIZE = 1024 * PAGE_SIZE"

definition BUFFER_LENGTH :: nat where
  BUFFER_LENGTH_def [simp]: "BUFFER_LENGTH = 8192"

definition LOG_FILE_NAME :: string where
  "LOG_FILE_NAME = ''db.log''"

definition DB_META_NAME :: string where
  "DB_META_NAME = ''db.meta''"

text \<open>\<^verbatim>\<open>struct Rid\<close>; its \<^verbatim>\<open>operator==\<close> compares both fields, which is equality of the record.\<close>

record Rid =
  page_no :: int
  slot_no :: int

abbreviation mk_rid :: "int \<Rightarrow> int \<Rightarrow> Rid" where
  "mk_rid p s \<equiv> \<lparr>page_no = p, slot_no = s\<rparr>"

datatype ColType = TYPE_INT | TYPE_FLOAT | TYPE_STRING | TYPE_BIGINT | TYPE_DATETIME

text \<open>The enumeration constants in their declaration order, as the stream operators write them.\<close>

fun coltype_code :: "ColType \<Rightarrow> int" where
  "coltype_code TYPE_INT = 0"
| "coltype_code TYPE_FLOAT = 1"
| "coltype_code TYPE_STRING = 2"
| "coltype_code TYPE_BIGINT = 3"
| "coltype_code TYPE_DATETIME = 4"

fun coltype2str :: "ColType \<Rightarrow> string" where
  "coltype2str TYPE_INT = ''INT''"
| "coltype2str TYPE_FLOAT = ''FLOAT''"
| "coltype2str TYPE_STRING = ''STRING''"
| "coltype2str TYPE_BIGINT = ''BIGINT''"
| "coltype2str TYPE_DATETIME = ''DATETIME''"

lemma coltype2str_inject: "coltype2str a = coltype2str b \<Longrightarrow> a = b"
  by (cases a; cases b) auto

end
