(* ===== verification/Posix_Files.thy ===== *)
theory Posix_Files
  imports Rmdb_Config
begin

text \<open>
  The part of the POSIX file interface that \<^verbatim>\<open>DiskManager\<close> calls: a name space of regular
  files and directories, open descriptors with their offsets, and the calls \<^verbatim>\<open>stat\<close>,
  \<^verbatim>\<open>open\<close>, \<^verbatim>\<open>close\<close>, \<^verbatim>\<open>unlink\<close>, \<^verbatim>\<open>lseek\<close>, \<^verbatim>\<open>read\<close> and \<^verbatim>\<open>write\<close>.
  A call named in \<open>io_fail\<close> fails (medium error, no space, no permission), so that every
  error branch of the callers can be taken; \<open>strerror\<close> gives the text of its \<^verbatim>\<open>errno\<close>.
  POSIX leaves open whether a failing \<^verbatim>\<open>close\<close> releases the descriptor (Linux does): \<open>close_releases\<close> tells which.
  A new descriptor is the lowest free one below the process limit \<open>nofile\<close>.
\<close>

datatype syscall = SysOpen | SysClose | SysRead | SysWrite | SysLseek | SysUnlink

record os_file =
  fbytes :: buf
  fsize :: nat

datatype node = Reg os_file | Dir

record fdesc =
  fpath :: string
  fpos :: nat

record os =
  nodes :: "string \<rightharpoonup> node"
  fds :: "int \<rightharpoonup> fdesc"
  nofile :: nat
  io_fail :: "syscall set"
  strerror :: "syscall \<Rightarrow> string"
  close_releases :: bool

definition os_is_reg :: "string \<Rightarrow> os \<Rightarrow> bool" where
  "os_is_reg p s = (case nodes s p of Some (Reg f) \<Rightarrow> True | _ \<Rightarrow> False)"

definition os_is_dir :: "string \<Rightarrow> os \<Rightarrow> bool" where
  "os_is_dir p s = (case nodes s p of Some Dir \<Rightarrow> True | _ \<Rightarrow> False)"

definition os_stat_size :: "string \<Rightarrow> os \<Rightarrow> int" where
  "os_stat_size p s = (case nodes s p of Some (Reg f) \<Rightarrow> int (fsize f) | Some Dir \<Rightarrow> 4096 | None \<Rightarrow> - 1)"

definition lowest_fd :: "os \<Rightarrow> int option" where
  "lowest_fd s = List.find (\<lambda>fd. fds s fd = None) (map int [0..<nofile s])"

text \<open>\<^verbatim>\<open>open(path, O_RDWR)\<close>\<close>

definition os_open :: "string \<Rightarrow> os \<Rightarrow> int \<times> os" where
  "os_open p s =
     (if SysOpen \<in> io_fail s \<or> nodes s p = None then (- 1, s)
      else (case lowest_fd s of
              None \<Rightarrow> (- 1, s)
            | Some fd \<Rightarrow> (fd, s\<lparr>fds := (fds s)(fd \<mapsto> \<lparr>fpath = p, fpos = 0\<rparr>)\<rparr>)))"

text \<open>\<^verbatim>\<open>open(path, O_CREAT | O_EXCL | O_RDWR, ...)\<close>\<close>

definition os_creat_excl :: "string \<Rightarrow> os \<Rightarrow> int \<times> os" where
  "os_creat_excl p s =
     (if SysOpen \<in> io_fail s \<or> nodes s p \<noteq> None then (- 1, s)
      else (case lowest_fd s of
              None \<Rightarrow> (- 1, s)
            | Some fd \<Rightarrow>
                (fd, s\<lparr>nodes := (nodes s)(p \<mapsto> Reg \<lparr>fbytes = zero_buf, fsize = 0\<rparr>),
                       fds := (fds s)(fd \<mapsto> \<lparr>fpath = p, fpos = 0\<rparr>)\<rparr>)))"

definition os_close :: "int \<Rightarrow> os \<Rightarrow> int \<times> os" where
  "os_close fd s =
     (if fds s fd = None then (- 1, s)
      else if SysClose \<in> io_fail s then (- 1, if close_releases s then s\<lparr>fds := (fds s)(fd := None)\<rparr> else s)
      else (0, s\<lparr>fds := (fds s)(fd := None)\<rparr>))"

definition os_unlink :: "string \<Rightarrow> os \<Rightarrow> int \<times> os" where
  "os_unlink p s =
     (if SysUnlink \<in> io_fail s \<or> nodes s p = None then (- 1, s)
      else (0, s\<lparr>nodes := (nodes s)(p := None)\<rparr>))"

text \<open>\<^verbatim>\<open>lseek(fd, off, SEEK_SET)\<close>: a negative offset is refused.\<close>

definition os_lseek_set :: "int \<Rightarrow> int \<Rightarrow> os \<Rightarrow> int \<times> os" where
  "os_lseek_set fd off s =
     (case fds s fd of
        None \<Rightarrow> (- 1, s)
      | Some d \<Rightarrow>
          if SysLseek \<in> io_fail s \<or> off < 0 then (- 1, s)
          else (off, s\<lparr>fds := (fds s)(fd \<mapsto> d\<lparr>fpos := nat off\<rparr>)\<rparr>))"

text \<open>\<^verbatim>\<open>lseek(fd, 0, SEEK_END)\<close>\<close>

definition os_lseek_end :: "int \<Rightarrow> os \<Rightarrow> int \<times> os" where
  "os_lseek_end fd s =
     (case fds s fd of
        None \<Rightarrow> (- 1, s)
      | Some d \<Rightarrow>
          (case nodes s (fpath d) of
             Some (Reg f) \<Rightarrow>
               if SysLseek \<in> io_fail s then (- 1, s)
               else (int (fsize f), s\<lparr>fds := (fds s)(fd \<mapsto> d\<lparr>fpos := fsize f\<rparr>)\<rparr>)
           | _ \<Rightarrow> (- 1, s)))"

text \<open>
  \<^verbatim>\<open>read(fd, buf, n)\<close>: the bytes from the offset up to the end of the file, at most \<open>n\<close>;
  the destination keeps its bytes beyond what was read.
\<close>

definition os_read :: "int \<Rightarrow> buf \<Rightarrow> nat \<Rightarrow> os \<Rightarrow> int \<times> buf \<times> os" where
  "os_read fd b n s =
     (case fds s fd of
        None \<Rightarrow> (- 1, b, s)
      | Some d \<Rightarrow>
          (case nodes s (fpath d) of
             Some (Reg f) \<Rightarrow>
               if SysRead \<in> io_fail s then (- 1, b, s)
               else let k = min n (fsize f - fpos d)
                    in (int k, (\<lambda>i. if i < k then fbytes f (fpos d + i) else b i),
                        s\<lparr>fds := (fds s)(fd \<mapsto> d\<lparr>fpos := fpos d + k\<rparr>)\<rparr>)
           | _ \<Rightarrow> (- 1, b, s)))"

text \<open>
  Writing \<open>n\<close> bytes at \<open>pos\<close>: the file grows to the end of the write, and a gap between its
  old end and \<open>pos\<close> reads as zeros.
\<close>

definition file_write :: "nat \<Rightarrow> buf \<Rightarrow> nat \<Rightarrow> os_file \<Rightarrow> os_file" where
  "file_write pos b n f =
     \<lparr>fbytes = (\<lambda>i. if pos \<le> i \<and> i < pos + n then b (i - pos)
                    else if i < fsize f then fbytes f i else 0),
      fsize = (if n = 0 then fsize f else max (fsize f) (pos + n))\<rparr>"

definition os_write :: "int \<Rightarrow> buf \<Rightarrow> nat \<Rightarrow> os \<Rightarrow> int \<times> os" where
  "os_write fd b n s =
     (case fds s fd of
        None \<Rightarrow> (- 1, s)
      | Some d \<Rightarrow>
          (case nodes s (fpath d) of
             Some (Reg f) \<Rightarrow>
               if SysWrite \<in> io_fail s then (- 1, s)
               else (int n, s\<lparr>nodes := (nodes s)(fpath d \<mapsto> Reg (file_write (fpos d) b n f)),
                              fds := (fds s)(fd \<mapsto> d\<lparr>fpos := fpos d + n\<rparr>)\<rparr>)
           | _ \<Rightarrow> (- 1, s)))"

lemma find_SomeD: "List.find P xs = Some x \<Longrightarrow> P x \<and> x \<in> set xs"
  by (induction xs) (auto split: if_splits)

lemma lowest_fd_SomeD:
  assumes "lowest_fd s = Some fd"
  shows "fds s fd = None" and "0 \<le> fd" and "fd < int (nofile s)"
  using find_SomeD [OF assms [unfolded lowest_fd_def]] by auto

lemma os_open_cases:
  assumes "os_open p s = (fd, s1)"
  obtains (fail) "fd = - 1" "s1 = s"
  | (ok) "0 \<le> fd" "fd < int (nofile s)" "fds s fd = None" "nodes s p \<noteq> None"
      "s1 = s\<lparr>fds := (fds s)(fd \<mapsto> \<lparr>fpath = p, fpos = 0\<rparr>)\<rparr>"
proof (cases "lowest_fd s = None \<or> SysOpen \<in> io_fail s \<or> nodes s p = None")
  case True
  with assms show thesis by (intro fail) (auto simp: os_open_def split: option.splits)
next
  case False
  then obtain g where g: "lowest_fd s = Some g" by auto
  with False assms have "g = fd" by (auto simp: os_open_def)
  with g lowest_fd_SomeD [OF g] False assms show thesis by (intro ok) (auto simp: os_open_def)
qed

lemma os_creat_excl_cases:
  assumes "os_creat_excl p s = (fd, s1)"
  obtains (fail) "fd = - 1" "s1 = s"
  | (ok) "0 \<le> fd" "fd < int (nofile s)" "fds s fd = None" "nodes s p = None"
      "s1 = s\<lparr>nodes := (nodes s)(p \<mapsto> Reg \<lparr>fbytes = zero_buf, fsize = 0\<rparr>),
               fds := (fds s)(fd \<mapsto> \<lparr>fpath = p, fpos = 0\<rparr>)\<rparr>"
proof (cases "lowest_fd s = None \<or> SysOpen \<in> io_fail s \<or> nodes s p \<noteq> None")
  case True
  with assms show thesis by (intro fail) (auto simp: os_creat_excl_def split: option.splits)
next
  case False
  then obtain g where g: "lowest_fd s = Some g" by auto
  with False assms have "g = fd" by (auto simp: os_creat_excl_def)
  with g lowest_fd_SomeD [OF g] False assms show thesis by (intro ok) (auto simp: os_creat_excl_def)
qed

lemma fsize_file_write: "0 < n \<Longrightarrow> fsize (file_write pos b n f) = max (fsize f) (pos + n)"
  by (simp add: file_write_def)

lemma fbytes_file_write_inside:
  "pos \<le> i \<Longrightarrow> i < pos + n \<Longrightarrow> fbytes (file_write pos b n f) i = b (i - pos)"
  by (simp add: file_write_def)

lemma fbytes_file_write_outside:
  "i < pos \<or> pos + n \<le> i \<Longrightarrow> i < fsize f \<Longrightarrow> fbytes (file_write pos b n f) i = fbytes f i"
  by (auto simp: file_write_def)

end
