(* ===== verification/Disk_Manager.thy ===== *)
theory Disk_Manager
  imports Posix_Files
begin

text \<open>
  \<^verbatim>\<open>storage/disk_manager\<close>: the tables of open files, page-granular reads and writes, the
  page number allocator and the log file. The state is the object's fields together with the
  operating system underneath it.

  Lemmas: \<open>dm_inv\<close> (the two tables are inverse to each other and every entry is an open
  descriptor of an existing file) is kept by every operation, also when it throws, other than a
  \<^verbatim>\<open>close_file\<close> whose system call fails after releasing the descriptor; a page written
  is the page read back, and no page of any open file is lost by a write.
\<close>

section \<open>State\<close>

definition MAX_FD :: int where
  MAX_FD_def [simp]: "MAX_FD = 8192"

record disk_manager =
  path2fd :: "string \<rightharpoonup> int"
  fd2path :: "int \<rightharpoonup> string"
  log_fd :: int
  fd2pageno :: "int \<Rightarrow> int"
  sys :: os

definition new_DiskManager :: "os \<Rightarrow> disk_manager" where
  "new_DiskManager s =
     \<lparr>path2fd = Map.empty, fd2path = Map.empty, log_fd = - 1, fd2pageno = (\<lambda>_. 0), sys = s\<rparr>"

type_synonym 'a disk_op = "(disk_manager, rmdb_error, 'a) sem"

section \<open>Page input and output\<close>

definition write_page :: "int \<Rightarrow> int \<Rightarrow> buf \<Rightarrow> nat \<Rightarrow> unit disk_op" where
  "write_page fd no d n dm =
     (if fd2path dm fd = None then (Inl (FileNotOpenError fd), dm)
      else case os_lseek_set fd (no * int PAGE_SIZE) (sys dm) of (r, s1) \<Rightarrow>
        if r = - 1 then (Inl (UnixError (strerror s1 SysLseek)), dm\<lparr>sys := s1\<rparr>)
        else case os_write fd d n s1 of (k, s2) \<Rightarrow>
          if k \<noteq> int n then (Inl (InternalError ''DiskManager::write_page Error''), dm\<lparr>sys := s2\<rparr>)
          else (Inr (), dm\<lparr>sys := s2\<rparr>))"

text \<open>
  \<^verbatim>\<open>read_page\<close> stores into the caller's buffer, also when it throws after a short read: the
  buffer is an argument and a second result.
\<close>

definition read_page :: "int \<Rightarrow> int \<Rightarrow> buf \<Rightarrow> nat \<Rightarrow> disk_manager \<Rightarrow>
    (rmdb_error + unit) \<times> buf \<times> disk_manager" where
  "read_page fd no b n dm =
     (if fd2path dm fd = None then (Inl (FileNotOpenError fd), b, dm)
      else case os_lseek_set fd (no * int PAGE_SIZE) (sys dm) of (r, s1) \<Rightarrow>
        if r = - 1 then (Inl (UnixError (strerror s1 SysLseek)), b, dm\<lparr>sys := s1\<rparr>)
        else case os_read fd b n s1 of (k, b', s2) \<Rightarrow>
          if k \<noteq> int n then (Inl (InternalError ''DiskManager::read_page Error''), b', dm\<lparr>sys := s2\<rparr>)
          else (Inr (), b', dm\<lparr>sys := s2\<rparr>))"

text \<open>An \<^verbatim>\<open>std::atomic<int32_t>\<close> wraps around at its width.\<close>

definition wrap32 :: "int \<Rightarrow> int" where
  "wrap32 v = signed_of 32 (unsigned_of 32 v)"

definition allocate_page :: "int \<Rightarrow> int disk_op" where
  "allocate_page fd dm =
     (if \<not> (0 \<le> fd \<and> fd < MAX_FD) then (Inl AssertionFailure, dm)
      else (Inr (fd2pageno dm fd),
            dm\<lparr>fd2pageno := (fd2pageno dm)(fd := wrap32 (fd2pageno dm fd + 1))\<rparr>))"

definition deallocate_page :: "int \<Rightarrow> disk_manager \<Rightarrow> disk_manager" where
  "deallocate_page no dm = dm"

definition set_fd2pageno :: "int \<Rightarrow> int \<Rightarrow> disk_manager \<Rightarrow> disk_manager" where
  "set_fd2pageno fd no dm = dm\<lparr>fd2pageno := (fd2pageno dm)(fd := no)\<rparr>"

definition get_fd2pageno :: "int \<Rightarrow> disk_manager \<Rightarrow> int" where
  "get_fd2pageno fd dm = fd2pageno dm fd"

section \<open>Files\<close>

definition is_dir :: "string \<Rightarrow> disk_manager \<Rightarrow> bool" where
  "is_dir p dm = os_is_dir p (sys dm)"

definition is_file :: "string \<Rightarrow> disk_manager \<Rightarrow> bool" where
  "is_file p dm = os_is_reg p (sys dm)"

definition create_file :: "string \<Rightarrow> unit disk_op" where
  "create_file p dm =
     (if is_file p dm then (Inl (FileExistsError p), dm)
      else case os_creat_excl p (sys dm) of (fd, s1) \<Rightarrow>
        if fd < 0 then (Inl (UnixError (strerror s1 SysOpen)), dm\<lparr>sys := s1\<rparr>)
        else case os_close fd s1 of (r, s2) \<Rightarrow>
          if r < 0 then (Inl (UnixError (strerror s2 SysClose)), dm\<lparr>sys := s2\<rparr>)
          else (Inr (), dm\<lparr>sys := s2\<rparr>))"

definition destroy_file :: "string \<Rightarrow> unit disk_op" where
  "destroy_file p dm =
     (if \<not> is_file p dm then (Inl (FileNotFoundError p), dm)
      else if path2fd dm p \<noteq> None then (Inl (FileNotClosedError p), dm)
      else case os_unlink p (sys dm) of (r, s1) \<Rightarrow>
        if r < 0 then (Inl (UnixError (strerror s1 SysUnlink)), dm\<lparr>sys := s1\<rparr>)
        else (Inr (), dm\<lparr>sys := s1\<rparr>))"

definition open_file :: "string \<Rightarrow> int disk_op" where
  "open_file p dm =
     (if \<not> is_file p dm then (Inl (FileNotFoundError p), dm)
      else if path2fd dm p \<noteq> None then (Inl (FileNotClosedError p), dm)
      else case os_open p (sys dm) of (fd, s1) \<Rightarrow>
        if fd < 0 then (Inl (UnixError (strerror s1 SysOpen)), dm\<lparr>sys := s1\<rparr>)
        else (Inr fd, dm\<lparr>path2fd := (path2fd dm)(p \<mapsto> fd), fd2path := (fd2path dm)(fd \<mapsto> p),
                         sys := s1\<rparr>))"

definition close_file :: "int \<Rightarrow> unit disk_op" where
  "close_file fd dm =
     (case fd2path dm fd of
        None \<Rightarrow> (Inl (FileNotOpenError fd), dm)
      | Some p \<Rightarrow>
          case os_close fd (sys dm) of (r, s1) \<Rightarrow>
            if r < 0 then (Inl (UnixError (strerror s1 SysClose)), dm\<lparr>sys := s1\<rparr>)
            else (Inr (), dm\<lparr>fd2path := (fd2path dm)(fd := None), path2fd := (path2fd dm)(p := None),
                             sys := s1\<rparr>))"

text \<open>The size is returned as an \<^verbatim>\<open>int\<close>: a file of 2 GB or more shows the wrapped value.\<close>

definition get_file_size :: "string \<Rightarrow> disk_manager \<Rightarrow> int" where
  "get_file_size p dm = wrap32 (os_stat_size p (sys dm))"

definition get_file_name :: "int \<Rightarrow> string disk_op" where
  "get_file_name fd dm =
     (case fd2path dm fd of None \<Rightarrow> (Inl (FileNotOpenError fd), dm) | Some p \<Rightarrow> (Inr p, dm))"

definition get_file_fd :: "string \<Rightarrow> int disk_op" where
  "get_file_fd p dm = (case path2fd dm p of None \<Rightarrow> open_file p dm | Some fd \<Rightarrow> (Inr fd, dm))"

definition SetLogFd :: "int \<Rightarrow> disk_manager \<Rightarrow> disk_manager" where
  "SetLogFd l dm = dm\<lparr>log_fd := l\<rparr>"

definition GetLogFd :: "disk_manager \<Rightarrow> int" where
  "GetLogFd dm = log_fd dm"

section \<open>The log file\<close>

definition open_log :: "unit disk_op" where
  "open_log =
     bind_e (gets_e log_fd) (\<lambda>l.
       if l = - 1
       then bind_e (open_file LOG_FILE_NAME) (\<lambda>fd. modify_e (\<lambda>dm. dm\<lparr>log_fd := fd\<rparr>))
       else ret ())"

text \<open>
  \<^verbatim>\<open>read_log\<close>: the number of bytes read and the bytes, \<open>- 1\<close> when the offset lies behind the
  end of the file.
\<close>

definition read_log :: "int \<Rightarrow> int \<Rightarrow> (int \<times> byte list) disk_op" where
  "read_log sz off =
     bind_e open_log (\<lambda>_ dm.
       let file_size = get_file_size LOG_FILE_NAME dm in
       if off > file_size then (Inr (- 1, []), dm)
       else let n = min sz (file_size - off) in
         if n = 0 then (Inr (0, []), dm)
         else case os_lseek_set (log_fd dm) off (sys dm) of (r, s1) \<Rightarrow>
           case os_read (log_fd dm) zero_buf (nat n) s1 of (k, b, s2) \<Rightarrow>
             if k \<noteq> n then (Inl AssertionFailure, dm\<lparr>sys := s2\<rparr>)
             else (Inr (k, get_bytes b 0 (nat k)), dm\<lparr>sys := s2\<rparr>))"

definition write_log :: "byte list \<Rightarrow> unit disk_op" where
  "write_log bs =
     bind_e open_log (\<lambda>_ dm.
       case os_lseek_end (log_fd dm) (sys dm) of (r, s1) \<Rightarrow>
         case os_write (log_fd dm) (put_bytes zero_buf 0 bs) (length bs) s1 of (k, s2) \<Rightarrow>
           if k \<noteq> int (length bs) then (Inl (UnixError (strerror s2 SysWrite)), dm\<lparr>sys := s2\<rparr>)
           else (Inr (), dm\<lparr>sys := s2\<rparr>))"

section \<open>The invariant\<close>

definition dm_inv :: "disk_manager \<Rightarrow> bool" where
  "dm_inv dm \<longleftrightarrow>
     (\<forall>p fd. path2fd dm p = Some fd \<longleftrightarrow> fd2path dm fd = Some p) \<and>
     (\<forall>fd p. fd2path dm fd = Some p \<longrightarrow>
        (\<exists>d. fds (sys dm) fd = Some d \<and> fpath d = p) \<and> os_is_reg p (sys dm))"

text \<open>The contents of a page as the file holds it: defined when the file has all its bytes.\<close>

definition disk_page :: "disk_manager \<Rightarrow> int \<Rightarrow> int \<Rightarrow> buf option" where
  "disk_page dm fd no =
     (case fd2path dm fd of
        None \<Rightarrow> None
      | Some p \<Rightarrow>
          (case nodes (sys dm) p of
             Some (Reg f) \<Rightarrow>
               if 0 \<le> no \<and> (nat no + 1) * PAGE_SIZE \<le> fsize f
               then Some (\<lambda>i. if i < PAGE_SIZE then fbytes f (nat no * PAGE_SIZE + i) else 0)
               else None
           | _ \<Rightarrow> None))"

definition clip_page :: "buf \<Rightarrow> buf" where
  "clip_page d = (\<lambda>i. if i < PAGE_SIZE then d i else 0)"

definition no_faults :: "disk_manager \<Rightarrow> bool" where
  "no_faults dm \<longleftrightarrow> io_fail (sys dm) = {}"

lemmas disk_op_defs = write_page_def allocate_page_def create_file_def destroy_file_def
  open_file_def close_file_def get_file_name_def get_file_fd_def
lemmas os_defs = os_is_reg_def os_open_def os_creat_excl_def os_close_def os_unlink_def
  os_lseek_set_def os_lseek_end_def os_read_def os_write_def

lemma dm_inv_new: "dm_inv (new_DiskManager s)"
  by (simp add: dm_inv_def new_DiskManager_def)

lemma dm_inv_openD:
  assumes "dm_inv dm" and "fd2path dm fd = Some p"
  obtains d f where "fds (sys dm) fd = Some d" and "fpath d = p" and "nodes (sys dm) p = Some (Reg f)"
proof -
  from assms obtain d where "fds (sys dm) fd = Some d" "fpath d = p" and r: "os_is_reg p (sys dm)"
    unfolding dm_inv_def by blast
  moreover from r obtain f where "nodes (sys dm) p = Some (Reg f)"
    by (auto simp: os_is_reg_def split: option.splits node.splits)
  ultimately show ?thesis using that by blast
qed

lemma dm_inv_path_unique:
  "dm_inv dm \<Longrightarrow> fd2path dm fd = Some p \<Longrightarrow> fd2path dm fd' = Some p \<Longrightarrow> fd = fd'"
  unfolding dm_inv_def by (metis option.inject)

text \<open>
  A change of the operating system that keeps the open descriptors on their files and keeps these
  files in place keeps the invariant.
\<close>

lemma dm_inv_sys:
  assumes "dm_inv dm"
    and "\<And>fd d. fds (sys dm) fd = Some d \<Longrightarrow> \<exists>d'. fds s fd = Some d' \<and> fpath d' = fpath d"
    and "\<And>p. path2fd dm p \<noteq> None \<Longrightarrow> os_is_reg p (sys dm) \<Longrightarrow> os_is_reg p s"
  shows "dm_inv (dm\<lparr>sys := s\<rparr>)"
  using assms unfolding dm_inv_def
  by simp (metis option.distinct(1))

section \<open>Every operation keeps the invariant\<close>

lemma dm_inv_write_page: "dm_inv dm \<Longrightarrow> dm_inv (snd (write_page fd no d n dm))"
  by (auto simp: write_page_def os_lseek_set_def os_write_def os_is_reg_def
      split: prod.splits option.splits node.splits intro!: dm_inv_sys)

lemma dm_inv_read_page: "dm_inv dm \<Longrightarrow> dm_inv (snd (snd (read_page fd no b n dm)))"
  by (auto simp: read_page_def os_lseek_set_def os_read_def os_is_reg_def Let_def
      split: prod.splits option.splits node.splits intro!: dm_inv_sys)

lemma dm_inv_allocate_page: "dm_inv dm \<Longrightarrow> dm_inv (snd (allocate_page fd dm))"
  by (simp add: allocate_page_def dm_inv_def)

lemma dm_inv_set_fd2pageno: "dm_inv dm \<Longrightarrow> dm_inv (set_fd2pageno fd no dm)"
  by (simp add: set_fd2pageno_def dm_inv_def)

lemma dm_inv_destroy_file: "dm_inv dm \<Longrightarrow> dm_inv (snd (destroy_file p dm))"
  by (auto simp: destroy_file_def os_unlink_def os_is_reg_def
      split: prod.splits option.splits node.splits intro!: dm_inv_sys)

lemma dm_inv_create_file:
  assumes inv: "dm_inv dm"
  shows "dm_inv (snd (create_file p dm))"
proof (cases "is_file p dm")
  case True
  with inv show ?thesis by (simp add: create_file_def)
next
  case False
  obtain fd s1 where c: "os_creat_excl p (sys dm) = (fd, s1)" by fastforce
  from c show ?thesis
  proof (cases rule: os_creat_excl_cases)
    case fail
    with inv c False show ?thesis by (simp add: create_file_def)
  next
    case ok
    then have "dm_inv (dm\<lparr>sys := s1\<rparr>)" "dm_inv (dm\<lparr>sys := s1\<lparr>fds := (fds s1)(fd := None)\<rparr>\<rparr>)"
      by (auto intro!: dm_inv_sys [OF inv] simp: os_is_reg_def)
    with c False ok(1) show ?thesis by (simp add: create_file_def os_close_def)
  qed
qed

lemma dm_inv_open_file:
  assumes inv: "dm_inv dm"
  shows "dm_inv (snd (open_file p dm))"
proof (cases "is_file p dm \<and> path2fd dm p = None")
  case False
  with inv show ?thesis by (auto simp: open_file_def)
next
  case True
  obtain fd s1 where c: "os_open p (sys dm) = (fd, s1)" by fastforce
  from c show ?thesis
  proof (cases rule: os_open_cases)
    case fail
    with inv c True show ?thesis by (simp add: open_file_def)
  next
    case ok
    from inv ok(3) have "fd2path dm fd = None"
      unfolding dm_inv_def by (metis not_None_eq)
    moreover from inv True have "\<And>g. fd2path dm g \<noteq> Some p"
      unfolding dm_inv_def by (metis option.distinct(1))
    ultimately show ?thesis using inv ok(1,3,5) True c
      by (simp add: open_file_def dm_inv_def is_file_def os_is_reg_def)
  qed
qed

text \<open>
  \<^verbatim>\<open>close_file\<close> erases its entries only after a successful \<^verbatim>\<open>close\<close>: they stay behind when a failing \<^verbatim>\<open>close\<close> has released the descriptor.
\<close>

definition close_dangles :: "int \<Rightarrow> disk_manager \<Rightarrow> bool" where
  "close_dangles fd dm \<longleftrightarrow> fd2path dm fd \<noteq> None \<and> SysClose \<in> io_fail (sys dm) \<and> close_releases (sys dm)"

lemma dm_inv_close_file:
  assumes inv: "dm_inv dm"
  shows "dm_inv (snd (close_file fd dm)) \<longleftrightarrow> \<not> close_dangles fd dm"
proof (cases "fd2path dm fd")
  case None
  with inv show ?thesis by (simp add: close_file_def close_dangles_def)
next
  case (Some p)
  have other: "\<And>g q. fd2path dm g = Some q \<Longrightarrow> g \<noteq> fd \<Longrightarrow> q \<noteq> p"
    using dm_inv_path_unique [OF inv _ Some] by blast
  obtain d where d: "fds (sys dm) fd = Some d"
    using inv Some by (rule dm_inv_openD)
  show ?thesis
  proof (cases "SysClose \<in> io_fail (sys dm)")
    case False
    with inv Some d other show ?thesis
      unfolding dm_inv_def close_file_def os_close_def os_is_reg_def close_dangles_def
      by (simp add: fun_upd_def) (metis option.inject)
  next
    case True
    have "\<not> dm_inv (dm\<lparr>sys := (sys dm)\<lparr>fds := (fds (sys dm))(fd := None)\<rparr>\<rparr>)"
      using Some by (auto simp: dm_inv_def)
    with True Some d inv show ?thesis by (simp add: close_file_def os_close_def close_dangles_def)
  qed
qed

lemma close_dangles_entry:
  assumes "dm_inv dm" and "close_dangles fd dm"
  shows "fd2path (snd (close_file fd dm)) = fd2path dm" and "path2fd (snd (close_file fd dm)) = path2fd dm"
    and "fds (sys (snd (close_file fd dm))) fd = None"
proof -
  obtain p d where "fd2path dm fd = Some p" "fds (sys dm) fd = Some d"
    using assms(2) dm_inv_openD [OF assms(1)] by (metis close_dangles_def option.exhaust)
  with assms(2) show "fd2path (snd (close_file fd dm)) = fd2path dm" "path2fd (snd (close_file fd dm)) = path2fd dm"
    "fds (sys (snd (close_file fd dm))) fd = None"
    by (simp_all add: close_file_def os_close_def close_dangles_def)
qed

lemma dm_inv_get_file_fd: "dm_inv dm \<Longrightarrow> dm_inv (snd (get_file_fd p dm))"
  by (auto simp: get_file_fd_def dm_inv_open_file split: option.splits)

lemma dm_inv_log_fd [simp]: "dm_inv (dm\<lparr>log_fd := l\<rparr>) = dm_inv dm"
  by (simp add: dm_inv_def)

lemma dm_inv_open_log: "keeps dm_inv open_log"
  unfolding open_log_def
  by (intro keeps_intros) (auto simp: keeps_def dm_inv_open_file)

lemma dm_inv_write_log: "keeps dm_inv (write_log bs)"
  unfolding write_log_def
  by (intro keeps_bind dm_inv_open_log)
    (auto simp: keeps_def os_lseek_end_def os_write_def os_is_reg_def
      split: prod.splits option.splits node.splits intro!: dm_inv_sys)

lemma dm_inv_read_log: "keeps dm_inv (read_log n off)"
  unfolding read_log_def
  by (intro keeps_bind dm_inv_open_log)
    (auto simp: keeps_def os_lseek_set_def os_read_def os_is_reg_def Let_def
      split: prod.splits option.splits node.splits intro!: dm_inv_sys)

section \<open>Pages written and read back\<close>

text \<open>
  What a page transfer may change of the disk manager: the offsets of descriptors and, for a write,
  the contents of files.
\<close>

definition same_tables :: "disk_manager \<Rightarrow> disk_manager \<Rightarrow> bool" where
  "same_tables dm dm' \<longleftrightarrow>
     path2fd dm' = path2fd dm \<and> fd2path dm' = fd2path dm \<and> log_fd dm' = log_fd dm \<and>
     fd2pageno dm' = fd2pageno dm \<and> io_fail (sys dm') = io_fail (sys dm)"

lemma same_tables_refl [simp]: "same_tables dm dm"
  by (simp add: same_tables_def)

lemma same_tables_trans: "same_tables a b \<Longrightarrow> same_tables b c \<Longrightarrow> same_tables a c"
  by (simp add: same_tables_def)

lemma same_tables_write_page: "same_tables dm (snd (write_page fd no d n dm))"
  by (auto simp: same_tables_def write_page_def os_lseek_set_def os_write_def
      split: prod.splits option.splits node.splits)

lemma same_tables_read_page: "same_tables dm (snd (snd (read_page fd no b n dm)))"
  by (auto simp: same_tables_def read_page_def os_lseek_set_def os_read_def Let_def
      split: prod.splits option.splits node.splits)

lemma clip_page_idem [simp]: "clip_page (clip_page d) = clip_page d"
  by (auto simp: clip_page_def)

lemma clip_zero_buf [simp]: "clip_page zero_buf = zero_buf"
  by (auto simp: clip_page_def)

lemma disk_page_clipped: "disk_page dm fd no = Some d \<Longrightarrow> clip_page d = d"
  by (auto simp: disk_page_def clip_page_def fun_eq_iff split: option.splits node.splits if_splits)

lemma disk_page_fd2pageno [simp]: "disk_page (dm\<lparr>fd2pageno := q\<rparr>) = disk_page dm"
  by (rule ext)+ (simp add: disk_page_def cong: option.case_cong)

lemma wrap32_id: "int32_range v \<Longrightarrow> wrap32 v = v"
  unfolding wrap32_def int32_range_def by (rule signed_unsigned) auto

text \<open>The result of a successful write, written out.\<close>

lemma write_page_eq:
  assumes "fd2path dm fd = Some p" and "fds (sys dm) fd = Some e" and "fpath e = p"
    and "nodes (sys dm) p = Some (Reg f)" and "0 \<le> no" and "no_faults dm"
  shows "write_page fd no d n dm =
    (Inr (), dm\<lparr>sys := (sys dm)\<lparr>
       nodes := (nodes (sys dm))(p \<mapsto> Reg (file_write (nat no * PAGE_SIZE) d n f)),
       fds := (fds (sys dm))(fd \<mapsto> e\<lparr>fpos := nat no * PAGE_SIZE + n\<rparr>)\<rparr>\<rparr>)"
  using assms by (auto simp: write_page_def os_lseek_set_def os_write_def no_faults_def nat_mult_distrib)

lemma write_page_ok:
  assumes inv: "dm_inv dm" and op: "fd2path dm fd = Some p" and "0 \<le> no" and nf: "no_faults dm"
  obtains dm' where "write_page fd no d PAGE_SIZE dm = (Inr (), dm')"
    and "disk_page dm' fd no = Some (clip_page d)"
    and "\<And>fd' no' e. disk_page dm fd' no' = Some e \<Longrightarrow> (fd', no') \<noteq> (fd, no) \<Longrightarrow>
           disk_page dm' fd' no' = Some e"
    and "\<And>fd' no'. fd' \<noteq> fd \<Longrightarrow> disk_page dm' fd' no' = disk_page dm fd' no'"
proof -
  obtain e f where e: "fds (sys dm) fd = Some e" "fpath e = p" "nodes (sys dm) p = Some (Reg f)"
    using inv op by (rule dm_inv_openD)
  let ?f = "file_write (nat no * PAGE_SIZE) d PAGE_SIZE f"
  let ?dm = "dm\<lparr>sys := (sys dm)\<lparr>nodes := (nodes (sys dm))(p \<mapsto> Reg ?f),
       fds := (fds (sys dm))(fd \<mapsto> e\<lparr>fpos := nat no * PAGE_SIZE + PAGE_SIZE\<rparr>)\<rparr>\<rparr>"
  have "write_page fd no d PAGE_SIZE dm = (Inr (), ?dm)"
    using op e assms(3) nf by (rule write_page_eq)
  moreover have "disk_page ?dm fd no = Some (clip_page d)"
    using op assms(3) by (auto simp: disk_page_def clip_page_def fun_eq_iff file_write_def)
  moreover have other: "disk_page ?dm fd' no' = disk_page dm fd' no'" if "fd' \<noteq> fd" for fd' no'
    using that dm_inv_path_unique [OF inv op, of fd']
    by (auto simp: disk_page_def split: option.splits)
  moreover have same: "disk_page ?dm fd no' = Some g" if g: "disk_page dm fd no' = Some g" and ne: "no' \<noteq> no" for no' g
  proof -
    from g op e have no': "0 \<le> no'" "(nat no' + 1) * PAGE_SIZE \<le> fsize f"
      and gd: "g = (\<lambda>i. if i < PAGE_SIZE then fbytes f (nat no' * PAGE_SIZE + i) else 0)"
      by (auto simp: disk_page_def split: if_splits)
    have "fbytes ?f (nat no' * PAGE_SIZE + i) = fbytes f (nat no' * PAGE_SIZE + i)" if "i < PAGE_SIZE" for i
    proof (rule fbytes_file_write_outside)
      have "nat no' < nat no \<or> nat no < nat no'" using ne no'(1) assms(3) by linarith
      then show "nat no' * PAGE_SIZE + i < nat no * PAGE_SIZE \<or> nat no * PAGE_SIZE + PAGE_SIZE \<le> nat no' * PAGE_SIZE + i"
        using that by auto
      show "nat no' * PAGE_SIZE + i < fsize f" using that no'(2) by simp
    qed
    with op no' show ?thesis
      by (auto simp: disk_page_def gd fun_eq_iff fsize_file_write)
  qed
  moreover have "disk_page ?dm fd' no' = Some g" if "disk_page dm fd' no' = Some g" and "(fd', no') \<noteq> (fd, no)" for fd' no' g
  proof (cases "fd' = fd")
    case True
    with that same show ?thesis by blast
  next
    case False
    with other [OF False] that(1) show ?thesis by (simp only:)
  qed
  ultimately show ?thesis using that [of ?dm] by blast
qed

lemma read_page_ok:
  assumes inv: "dm_inv dm" and pg: "disk_page dm fd no = Some d" and nf: "no_faults dm"
  obtains dm' where "read_page fd no b PAGE_SIZE dm = (Inr (), (\<lambda>i. if i < PAGE_SIZE then d i else b i), dm')"
    and "disk_page dm' = disk_page dm"
proof -
  from pg obtain p where op: "fd2path dm fd = Some p"
    by (auto simp: disk_page_def split: option.splits)
  obtain e f where e: "fds (sys dm) fd = Some e" "fpath e = p" "nodes (sys dm) p = Some (Reg f)"
    using inv op by (rule dm_inv_openD)
  from pg op e have no: "0 \<le> no" "(nat no + 1) * PAGE_SIZE \<le> fsize f"
    and d: "d = (\<lambda>i. if i < PAGE_SIZE then fbytes f (nat no * PAGE_SIZE + i) else 0)"
    by (auto simp: disk_page_def split: if_splits)
  let ?dm = "dm\<lparr>sys := (sys dm)\<lparr>fds := (fds (sys dm))(fd \<mapsto> e\<lparr>fpos := nat no * PAGE_SIZE + PAGE_SIZE\<rparr>)\<rparr>\<rparr>"
  have "min PAGE_SIZE (fsize f - nat no * PAGE_SIZE) = PAGE_SIZE" using no(2) by simp
  then have "read_page fd no b PAGE_SIZE dm = (Inr (), (\<lambda>i. if i < PAGE_SIZE then d i else b i), ?dm)"
    using op e no(1) nf
    by (auto simp: read_page_def os_lseek_set_def os_read_def no_faults_def nat_mult_distrib d fun_eq_iff)
  moreover have "disk_page ?dm = disk_page dm"
    by (rule ext)+ (simp add: disk_page_def cong: option.case_cong)
  ultimately show ?thesis by (rule that)
qed

lemma read_page_missing:
  assumes inv: "dm_inv dm" and pg: "disk_page dm fd no = None"
  shows "\<exists>e b' dm'. read_page fd no b PAGE_SIZE dm = (Inl e, b', dm')"
proof (cases "fd2path dm fd")
  case None
  then show ?thesis by (simp add: read_page_def)
next
  case (Some p)
  obtain e f where "fds (sys dm) fd = Some e" "fpath e = p" "nodes (sys dm) p = Some (Reg f)"
    using inv Some by (rule dm_inv_openD)
  with Some pg show ?thesis
    by (auto simp: read_page_def os_lseek_set_def os_read_def disk_page_def Let_def split: if_splits)
qed

lemma disk_page_cong:
  "fd2path dm' = fd2path dm \<Longrightarrow> nodes (sys dm') = nodes (sys dm) \<Longrightarrow> disk_page dm' = disk_page dm"
  by (rule ext)+ (simp add: disk_page_def cong: option.case_cong)

lemma nodes_os_lseek_set: "os_lseek_set fd off s = (r, s1) \<Longrightarrow> nodes s1 = nodes s"
  by (auto simp: os_lseek_set_def split: option.splits if_splits)

lemma nodes_os_read: "os_read fd b n s = (k, b', s1) \<Longrightarrow> nodes s1 = nodes s"
  by (auto simp: os_read_def Let_def split: option.splits node.splits if_splits)

lemma disk_page_read_page: "disk_page (snd (snd (read_page fd no b n dm))) = disk_page dm"
proof (rule disk_page_cong)
  show "fd2path (snd (snd (read_page fd no b n dm))) = fd2path dm"
    using same_tables_read_page [of dm fd no b n] by (simp add: same_tables_def)
  show "nodes (sys (snd (snd (read_page fd no b n dm)))) = nodes (sys dm)"
    by (auto simp: read_page_def dest!: nodes_os_lseek_set nodes_os_read split: prod.splits)
qed

section \<open>The log as a byte sequence that only grows\<close>

text \<open>The bytes of the log file, and the states in which it is open.\<close>

definition log_contents :: "disk_manager \<Rightarrow> byte list" where
  "log_contents dm =
     (case nodes (sys dm) LOG_FILE_NAME of Some (Reg f) \<Rightarrow> get_bytes (fbytes f) 0 (fsize f) | _ \<Rightarrow> [])"

definition log_open :: "disk_manager \<Rightarrow> bool" where
  "log_open dm \<longleftrightarrow> log_fd dm \<noteq> - 1 \<and> fd2path dm (log_fd dm) = Some LOG_FILE_NAME"

text \<open>A change of the log file alone.\<close>

definition log_only :: "disk_manager \<Rightarrow> disk_manager \<Rightarrow> bool" where
  "log_only dm dm' \<longleftrightarrow> same_tables dm dm' \<and> (\<forall>p. p \<noteq> LOG_FILE_NAME \<longrightarrow> nodes (sys dm') p = nodes (sys dm) p)"

lemma log_only_refl [simp]: "log_only dm dm"
  by (simp add: log_only_def)

lemma log_only_trans: "log_only a b \<Longrightarrow> log_only b c \<Longrightarrow> log_only a c"
  unfolding log_only_def using same_tables_trans by metis

lemma log_only_page:
  "log_only dm dm' \<Longrightarrow> fd2path dm fd \<noteq> Some LOG_FILE_NAME \<Longrightarrow> disk_page dm' fd no = disk_page dm fd no"
  by (cases "fd2path dm fd") (simp_all add: log_only_def same_tables_def disk_page_def)

lemma open_log_open: "log_open dm \<Longrightarrow> open_log dm = (Inr (), dm)"
  by (simp add: log_open_def open_log_def)

lemma open_log_first:
  assumes "log_fd dm = - 1" and "open_file LOG_FILE_NAME dm = (Inr fd, dm1)" and "fd \<noteq> - 1"
  shows "open_log dm = (Inr (), dm1\<lparr>log_fd := fd\<rparr>)" and "log_open (dm1\<lparr>log_fd := fd\<rparr>)"
proof -
  show "open_log dm = (Inr (), dm1\<lparr>log_fd := fd\<rparr>)" using assms by (simp add: open_log_def)
  have "fd2path dm1 fd = Some LOG_FILE_NAME"
    using assms(2) by (auto simp: open_file_def split: if_splits prod.splits)
  with assms(3) show "log_open (dm1\<lparr>log_fd := fd\<rparr>)" by (simp add: log_open_def)
qed

lemma get_bytes_file_write_end:
  "get_bytes (fbytes (file_write (fsize f) (put_bytes zero_buf 0 bs) (length bs) f)) 0 (fsize f + length bs) =
     get_bytes (fbytes f) 0 (fsize f) @ bs"
  by (rule nth_equalityI) (auto simp: file_write_def put_bytes_def nth_append)

lemma fsize_file_write_end: "fsize (file_write (fsize f) b n f) = fsize f + n"
  by (simp add: file_write_def)

lemma write_log_ok:
  assumes inv: "dm_inv dm" and lo: "log_open dm" and nf: "no_faults dm"
  obtains dm' where "write_log bs dm = (Inr (), dm')" and "log_contents dm' = log_contents dm @ bs"
    and "same_tables dm dm'" and "log_only dm dm'"
proof -
  from lo have op: "fd2path dm (log_fd dm) = Some LOG_FILE_NAME" by (simp add: log_open_def)
  obtain e f where e: "fds (sys dm) (log_fd dm) = Some e" "fpath e = LOG_FILE_NAME"
      "nodes (sys dm) LOG_FILE_NAME = Some (Reg f)"
    using inv op by (rule dm_inv_openD)
  let ?f = "file_write (fsize f) (put_bytes zero_buf 0 bs) (length bs) f"
  let ?dm = "dm\<lparr>sys := (sys dm)\<lparr>nodes := (nodes (sys dm))(LOG_FILE_NAME \<mapsto> Reg ?f),
       fds := (fds (sys dm))(log_fd dm \<mapsto> e\<lparr>fpos := fsize f + length bs\<rparr>)\<rparr>\<rparr>"
  have "write_log bs dm = (Inr (), ?dm)"
    using e nf open_log_open [OF lo]
    by (simp add: write_log_def os_lseek_end_def os_write_def no_faults_def)
  moreover have "log_contents ?dm = log_contents dm @ bs"
    using e by (simp add: log_contents_def fsize_file_write_end get_bytes_file_write_end)
  ultimately show thesis by (rule that) (simp_all add: same_tables_def log_only_def)
qed

lemma read_log_ok:
  assumes inv: "dm_inv dm" and lo: "log_open dm" and nf: "no_faults dm"
    and off: "off \<le> length (log_contents dm)" and small: "length (log_contents dm) \<le> 2147483647"
  obtains dm' where "read_log (int n) (int off) dm =
      (Inr (int (min n (length (log_contents dm) - off)), take n (drop off (log_contents dm))), dm')"
    and "log_contents dm' = log_contents dm" and "same_tables dm dm'"
proof -
  from lo have op: "fd2path dm (log_fd dm) = Some LOG_FILE_NAME" by (simp add: log_open_def)
  obtain e f where e: "fds (sys dm) (log_fd dm) = Some e" "fpath e = LOG_FILE_NAME"
      "nodes (sys dm) LOG_FILE_NAME = Some (Reg f)"
    using inv op by (rule dm_inv_openD)
  have L: "log_contents dm = get_bytes (fbytes f) 0 (fsize f)" using e by (simp add: log_contents_def)
  have sz: "get_file_size LOG_FILE_NAME dm = int (fsize f)" 
    using e small L by (simp add: get_file_size_def os_stat_size_def wrap32_id int32_range_def)
  define k where "k = min n (fsize f - off)"
  have off': "off \<le> fsize f" using off L by simp
  have k: "min (int n) (int (fsize f) - int off) = int k" using off' by (simp add: k_def)
  have bytes: "take n (drop off (log_contents dm)) = get_bytes (fbytes f) off k"
    using off' by (intro nth_equalityI) (auto simp: L k_def)
  let ?dm = "dm\<lparr>sys := (sys dm)\<lparr>fds := (fds (sys dm))(log_fd dm \<mapsto> e\<lparr>fpos := off + k\<rparr>)\<rparr>\<rparr>"
  have "min k (fsize f - off) = k" by (simp add: k_def)
  moreover have "get_bytes (\<lambda>i. if i < k then fbytes f (fpos (e\<lparr>fpos := off\<rparr>) + i) else b i) 0 k =
      get_bytes (fbytes f) off k" for b
    by (rule nth_equalityI) auto
  ultimately have "read_log (int n) (int off) dm =
      (if k = 0 then (Inr (0, []), dm) else (Inr (int k, get_bytes (fbytes f) off k), ?dm))"
    using e nf open_log_open [OF lo] sz off' k
    by (simp add: read_log_def os_lseek_set_def os_read_def no_faults_def Let_def)
  moreover have "get_bytes (fbytes f) off 0 = []" by (simp add: get_bytes_def)
  ultimately show thesis
    using that [of dm] that [of ?dm] bytes L e by (cases "k = 0") (auto simp: k_def log_contents_def same_tables_def)
qed

section \<open>Properties\<close>

text \<open>
  A disk manager with a two-page table file open at descriptor 3 and the log, holding two bytes,
  open at descriptor 4; the witnesses below start from it.
\<close>

definition sample_os :: os where
  "sample_os =
     \<lparr>nodes = [''t'' \<mapsto> Reg \<lparr>fbytes = zero_buf, fsize = 2 * PAGE_SIZE\<rparr>,
               LOG_FILE_NAME \<mapsto> Reg \<lparr>fbytes = (\<lambda>i. if i = 0 then 7 else 8), fsize = 2\<rparr>],
      fds = [3 \<mapsto> \<lparr>fpath = ''t'', fpos = 0\<rparr>, 4 \<mapsto> \<lparr>fpath = LOG_FILE_NAME, fpos = 0\<rparr>],
      nofile = 16, io_fail = {}, strerror = (\<lambda>_. ''error''), close_releases = True\<rparr>"

definition sample_dm :: disk_manager where
  "sample_dm =
     \<lparr>path2fd = [''t'' \<mapsto> 3, LOG_FILE_NAME \<mapsto> 4], fd2path = [3 \<mapsto> ''t'', 4 \<mapsto> LOG_FILE_NAME],
      log_fd = 4, fd2pageno = (\<lambda>_. 2), sys = sample_os\<rparr>"

lemma sample_dm_ok:
  "dm_inv sample_dm" "no_faults sample_dm" "log_open sample_dm" "fd2path sample_dm 3 = Some ''t''"
  "log_contents sample_dm = [7, 8]" "0 \<le> (1::int)"
  by (auto simp: dm_inv_def sample_dm_def sample_os_def no_faults_def log_open_def os_is_reg_def
      LOG_FILE_NAME_def log_contents_def get_bytes_def numeral_2_eq_2)

text \<open>
  C33: the two tables of open files stay inverse to each other and every descriptor in them keeps
  denoting an existing regular file, whatever operation of the disk manager is called and whether
  it returns or throws, with one exception: \<^verbatim>\<open>close_file\<close> breaks this exactly when the system's \<^verbatim>\<open>close\<close> fails
  and has released the descriptor, since it throws before it erases the two entries; both tables then
  still name a descriptor that is closed.
\<close>

theorem disk_manager_inv:
  assumes "dm_inv dm"
  shows "dm_inv (snd (write_page fd no d n dm)) \<and> dm_inv (snd (snd (read_page fd no b n dm))) \<and>
    dm_inv (snd (allocate_page fd dm)) \<and> dm_inv (set_fd2pageno fd no dm) \<and>
    dm_inv (snd (create_file p dm)) \<and> dm_inv (snd (destroy_file p dm)) \<and>
    dm_inv (snd (open_file p dm)) \<and> (dm_inv (snd (close_file fd dm)) \<longleftrightarrow> \<not> close_dangles fd dm) \<and>
    (close_dangles fd dm \<longrightarrow> fd2path (snd (close_file fd dm)) = fd2path dm \<and> path2fd (snd (close_file fd dm)) = path2fd dm \<and>
       fds (sys (snd (close_file fd dm))) fd = None) \<and>
    dm_inv (snd (get_file_fd p dm)) \<and> dm_inv (snd (write_log bs dm)) \<and> dm_inv (snd (read_log k off dm))"
  using assms dm_inv_write_log dm_inv_read_log
  by (simp add: dm_inv_write_page dm_inv_read_page dm_inv_allocate_page dm_inv_set_fd2pageno
      dm_inv_create_file dm_inv_destroy_file dm_inv_open_file dm_inv_close_file close_dangles_entry dm_inv_get_file_fd keeps_def)

theorem disk_manager_inv_witness:
  "dm_inv (snd (close_file 3 sample_dm)) \<and> dm_inv (snd (open_file ''missing'' sample_dm)) \<and>
   \<not> dm_inv (snd (close_file 3 (sample_dm\<lparr>sys := sample_os\<lparr>io_fail := {SysClose}\<rparr>\<rparr>)))"
proof -
  let ?dm = "sample_dm\<lparr>sys := sample_os\<lparr>io_fail := {SysClose}\<rparr>\<rparr>"
  have "dm_inv ?dm" using sample_dm_ok(1) by (simp add: sample_dm_def dm_inv_def os_is_reg_def)
  moreover have "\<not> close_dangles 3 sample_dm" "close_dangles 3 ?dm" by (simp_all add: close_dangles_def sample_dm_def sample_os_def)
  ultimately show ?thesis
    using disk_manager_inv [OF sample_dm_ok(1), of 3 0 zero_buf 0 zero_buf "''missing''"]
      disk_manager_inv [of ?dm 3 0 zero_buf 0 zero_buf "''missing''"] by blast
qed

text \<open>
  C32: a page written to an open file is the page read back, byte for byte, into any buffer, and
  every page of every open file that was complete before the write still has its contents.
\<close>

theorem page_write_read:
  assumes "dm_inv dm" and "fd2path dm fd = Some p" and "0 \<le> no" and "no_faults dm"
  shows "\<exists>dm1 dm2. write_page fd no d PAGE_SIZE dm = (Inr (), dm1) \<and>
    read_page fd no b PAGE_SIZE dm1 = (Inr (), (\<lambda>i. if i < PAGE_SIZE then d i else b i), dm2) \<and>
    (\<forall>fd' no' e. disk_page dm fd' no' = Some e \<longrightarrow> (fd', no') \<noteq> (fd, no) \<longrightarrow>
       disk_page dm2 fd' no' = Some e)"
proof -
  obtain dm1 where w: "write_page fd no d PAGE_SIZE dm = (Inr (), dm1)"
      "disk_page dm1 fd no = Some (clip_page d)"
    and oth: "\<And>fd' no' e. disk_page dm fd' no' = Some e \<Longrightarrow> (fd', no') \<noteq> (fd, no) \<Longrightarrow>
           disk_page dm1 fd' no' = Some e"
    by (rule write_page_ok [OF assms, of d]) blast
  have i1: "dm_inv dm1" and n1: "no_faults dm1"
    using dm_inv_write_page [OF assms(1), of fd no d PAGE_SIZE]
      same_tables_write_page [of dm fd no d PAGE_SIZE] w(1) assms(4)
    by (simp_all add: same_tables_def no_faults_def)
  obtain dm2 where r: "read_page fd no b PAGE_SIZE dm1 =
      (Inr (), (\<lambda>i. if i < PAGE_SIZE then clip_page d i else b i), dm2)" "disk_page dm2 = disk_page dm1"
    by (rule read_page_ok [OF i1 w(2) n1])
  have "(\<lambda>i. if i < PAGE_SIZE then clip_page d i else b i) = (\<lambda>i. if i < PAGE_SIZE then d i else b i)"
    by (auto simp: clip_page_def fun_eq_iff)
  with w(1) r oth show ?thesis by auto
qed

theorem page_write_read_witness:
  "\<exists>dm1 dm2. write_page 3 1 (\<lambda>_. 5) PAGE_SIZE sample_dm = (Inr (), dm1) \<and>
    read_page 3 1 zero_buf PAGE_SIZE dm1 = (Inr (), (\<lambda>i. if i < PAGE_SIZE then 5 else zero_buf i), dm2)"
  using page_write_read [OF sample_dm_ok(1,4,6,2), of "\<lambda>_. 5" zero_buf] by blast

text \<open>
  the log only grows. Bytes handed to \<^verbatim>\<open>write_log\<close> are appended, \<^verbatim>\<open>read_log\<close> at the former
  end returns exactly them, and a read anywhere in the old part returns what was there before, as
  long as the file size fits the \<^verbatim>\<open>int\<close> that \<^verbatim>\<open>get_file_size\<close> returns.
\<close>

theorem log_append_read:
  assumes "dm_inv dm" and "log_open dm" and "no_faults dm"
    and "length (log_contents dm) + length bs \<le> 2147483647"
  shows "\<exists>dm1 dm2. write_log bs dm = (Inr (), dm1) \<and> log_contents dm1 = log_contents dm @ bs \<and>
    read_log (int (length bs)) (int (length (log_contents dm))) dm1 = (Inr (int (length bs), bs), dm2) \<and>
    (\<forall>off n. off + n \<le> length (log_contents dm) \<longrightarrow>
      fst (read_log (int n) (int off) dm1) = Inr (int n, take n (drop off (log_contents dm))))"
proof -
  obtain dm1 where w: "write_log bs dm = (Inr (), dm1)" "log_contents dm1 = log_contents dm @ bs"
    and st: "same_tables dm dm1" by (rule write_log_ok [OF assms(1,2,3)])
  have i1: "dm_inv dm1" by (rule keepsD [OF dm_inv_write_log assms(1) w(1)])
  have l1: "log_open dm1" and n1: "no_faults dm1"
    using st assms(2,3) by (simp_all add: same_tables_def log_open_def no_faults_def)
  have rd: "fst (read_log (int n) (int off) dm1) =
      Inr (int (min n (length (log_contents dm1) - off)), take n (drop off (log_contents dm1)))"
    if "off \<le> length (log_contents dm1)" for n off
    by (rule read_log_ok [OF i1 l1 n1 that, of n]) (use w(2) assms(4) in simp_all)
  from rd [of "length (log_contents dm)" "length bs"] w(2)
  have "fst (read_log (int (length bs)) (int (length (log_contents dm))) dm1) = Inr (int (length bs), bs)" by simp
  then obtain dm2 where "read_log (int (length bs)) (int (length (log_contents dm))) dm1 = (Inr (int (length bs), bs), dm2)"
    by (metis prod.collapse)
  moreover have "fst (read_log (int n) (int off) dm1) = Inr (int n, take n (drop off (log_contents dm)))"
    if "off + n \<le> length (log_contents dm)" for off n
    using rd [of off n] that w(2) by simp
  ultimately show ?thesis using w by blast
qed

theorem log_append_read_witness:
  "\<exists>dm1 dm2. write_log [1, 2, 3] sample_dm = (Inr (), dm1) \<and> log_contents dm1 = [7, 8, 1, 2, 3] \<and>
     read_log 3 2 dm1 = (Inr (3, [1, 2, 3]), dm2)"
  using log_append_read [OF sample_dm_ok(1,3,2), of "[1, 2, 3]"] by (auto simp: sample_dm_ok(5))

end
