(* ===== verification/Lru_Replacer.thy ===== *)
theory Lru_Replacer
  imports Rmdb_Config
begin

text \<open>
  \<^verbatim>\<open>replacer/replacer.h\<close> and \<^verbatim>\<open>replacer/lru_replacer\<close>: the frames of the buffer pool that may be
  evicted, in the order in which they became evictable. \<^verbatim>\<open>LRUlist_\<close> is a \<^verbatim>\<open>std::list\<close> and
  \<^verbatim>\<open>LRUhash_\<close> maps a frame to the iterator of its node; here a node has an identity, a stored
  iterator is that identity, and erasing through an iterator removes the node that carries it.

  The locale \<open>replacer_contract\<close> is the contract of the abstract class \<^verbatim>\<open>Replacer\<close> in terms of the set of
  evictable frames; it is interpreted on the LRU implementation, and the buffer pool relies on
  its facts. \<open>lru_order\<close> relates the implementation to a plain queue of frames.
\<close>

type_synonym frame_id = nat

section \<open>The LRU implementation\<close>

record lru_replacer =
  LRUlist :: "(nat \<times> frame_id) list"
  LRUhash :: "frame_id \<rightharpoonup> nat"
  max_size :: nat
  next_node :: nat

definition new_LRUReplacer :: "nat \<Rightarrow> lru_replacer" where
  "new_LRUReplacer num_pages =
     \<lparr>LRUlist = [], LRUhash = Map.empty, max_size = num_pages, next_node = 0\<rparr>"

definition victim :: "lru_replacer \<Rightarrow> frame_id option \<times> lru_replacer" where
  "victim r =
     (case LRUlist r of
        [] \<Rightarrow> (None, r)
      | (n, f) # rest \<Rightarrow> (Some f, r\<lparr>LRUlist := rest, LRUhash := (LRUhash r)(f := None)\<rparr>))"

definition pin :: "frame_id \<Rightarrow> lru_replacer \<Rightarrow> lru_replacer" where
  "pin f r =
     (case LRUhash r f of
        None \<Rightarrow> r
      | Some n \<Rightarrow> r\<lparr>LRUlist := filter (\<lambda>(m, _). m \<noteq> n) (LRUlist r),
                    LRUhash := (LRUhash r)(f := None)\<rparr>)"

definition unpin :: "frame_id \<Rightarrow> lru_replacer \<Rightarrow> lru_replacer" where
  "unpin f r =
     (if LRUhash r f \<noteq> None \<or> length (LRUlist r) \<ge> max_size r then r
      else r\<lparr>LRUlist := LRUlist r @ [(next_node r, f)],
             LRUhash := (LRUhash r)(f \<mapsto> next_node r),
             next_node := next_node r + 1\<rparr>)"

definition Size :: "lru_replacer \<Rightarrow> nat" where
  "Size r = length (LRUlist r)"

section \<open>The contract of a replacer\<close>

locale replacer_contract =
  fixes ok :: "'r \<Rightarrow> bool"
    and evictable :: "'r \<Rightarrow> frame_id set"
    and cap :: "'r \<Rightarrow> nat"
    and victim_op :: "'r \<Rightarrow> frame_id option \<times> 'r"
    and pin_op :: "frame_id \<Rightarrow> 'r \<Rightarrow> 'r"
    and unpin_op :: "frame_id \<Rightarrow> 'r \<Rightarrow> 'r"
    and size_op :: "'r \<Rightarrow> nat"
  assumes finite_evictable: "ok r \<Longrightarrow> finite (evictable r)"
    and victim_none: "ok r \<Longrightarrow> evictable r = {} \<Longrightarrow> victim_op r = (None, r)"
    and victim_some: "ok r \<Longrightarrow> evictable r \<noteq> {} \<Longrightarrow>
      \<exists>f r'. victim_op r = (Some f, r') \<and> f \<in> evictable r \<and> evictable r' = evictable r - {f} \<and>
        ok r' \<and> cap r' = cap r"
    and pin_ok: "ok r \<Longrightarrow> ok (pin_op f r)"
    and pin_cap: "ok r \<Longrightarrow> cap (pin_op f r) = cap r"
    and pin_evictable: "ok r \<Longrightarrow> evictable (pin_op f r) = evictable r - {f}"
    and unpin_ok: "ok r \<Longrightarrow> ok (unpin_op f r)"
    and unpin_cap: "ok r \<Longrightarrow> cap (unpin_op f r) = cap r"
    and unpin_evictable: "ok r \<Longrightarrow> f \<in> evictable r \<or> card (evictable r) < cap r \<Longrightarrow>
      evictable (unpin_op f r) = insert f (evictable r)"
    and unpin_full: "ok r \<Longrightarrow> \<not> card (evictable r) < cap r \<Longrightarrow> unpin_op f r = r"
    and size_card: "ok r \<Longrightarrow> size_op r = card (evictable r)"
begin

lemma victim_cases:
  assumes "ok r"
  obtains (none) "evictable r = {}" "victim_op r = (None, r)"
  | (some) f r' where "victim_op r = (Some f, r')" "f \<in> evictable r"
      "evictable r' = evictable r - {f}" "ok r'" "cap r' = cap r"
proof (cases "evictable r = {}")
  case True
  then show thesis using none victim_none [OF assms] by blast
next
  case False
  then show thesis using some victim_some [OF assms] by blast
qed

lemma victim_Some_iff: "ok r \<Longrightarrow> fst (victim_op r) = None \<longleftrightarrow> evictable r = {}"
  by (metis victim_none victim_some fst_conv option.distinct(1))

text \<open>The victims that successive calls of \<^verbatim>\<open>victim\<close> return.\<close>

primrec drain :: "nat \<Rightarrow> 'r \<Rightarrow> frame_id list" where
  "drain 0 r = []"
| "drain (Suc n) r = (case victim_op r of (None, r') \<Rightarrow> [] | (Some f, r') \<Rightarrow> f # drain n r')"

lemma drain_subset: "ok r \<Longrightarrow> set (drain n r) \<subseteq> evictable r"
proof (induction n arbitrary: r)
  case (Suc n)
  from Suc.prems show ?case
  proof (cases rule: victim_cases)
    case (some f r')
    with Suc.IH [of r'] show ?thesis by auto
  qed simp
qed simp

lemma distinct_drain: "ok r \<Longrightarrow> distinct (drain n r)"
proof (induction n arbitrary: r)
  case (Suc n)
  from Suc.prems show ?case
  proof (cases rule: victim_cases)
    case (some f r')
    with Suc.IH [of r'] drain_subset [of r' n] show ?thesis by auto
  qed simp
qed simp

lemma drain_all: "ok r \<Longrightarrow> card (evictable r) \<le> n \<Longrightarrow> set (drain n r) = evictable r"
proof (induction n arbitrary: r)
  case 0
  then show ?case using finite_evictable [of r] by simp
next
  case (Suc n)
  from Suc.prems(1) show ?case
  proof (cases rule: victim_cases)
    case (some f r')
    have "card (evictable r') \<le> n"
      using some Suc.prems finite_evictable [of r] by (simp add: card_Diff_singleton)
    with Suc.IH [of r'] some show ?thesis by auto
  qed simp
qed

lemma drain_count: "ok r \<Longrightarrow> length (drain (size_op r) r) = size_op r"
  using distinct_drain [of r "size_op r"] drain_all [of r "size_op r"]
  by (metis distinct_card order_refl size_card)

end

section \<open>LRU keeps the list and the hash table in step\<close>

definition lru_inv :: "lru_replacer \<Rightarrow> bool" where
  "lru_inv r \<longleftrightarrow>
     distinct (map fst (LRUlist r)) \<and> distinct (map snd (LRUlist r)) \<and>
     (\<forall>n f. (n, f) \<in> set (LRUlist r) \<longleftrightarrow> LRUhash r f = Some n) \<and>
     (\<forall>n \<in> fst ` set (LRUlist r). n < next_node r) \<and>
     length (LRUlist r) \<le> max_size r"

definition lru_order :: "lru_replacer \<Rightarrow> frame_id list" where
  "lru_order r = map snd (LRUlist r)"

lemma lru_inv_new: "lru_inv (new_LRUReplacer n)"
  by (simp add: lru_inv_def new_LRUReplacer_def)

lemma lru_order_new [simp]: "lru_order (new_LRUReplacer n) = []"
  by (simp add: lru_order_def new_LRUReplacer_def)

lemma lru_hash_iff: "lru_inv r \<Longrightarrow> LRUhash r f \<noteq> None \<longleftrightarrow> f \<in> set (lru_order r)"
  by (force simp: lru_inv_def lru_order_def)

lemma distinct_lru_order: "lru_inv r \<Longrightarrow> distinct (lru_order r)"
  by (simp add: lru_inv_def lru_order_def)

lemma lru_inv_victim:
  assumes "lru_inv r"
  shows "lru_inv (snd (victim r))"
proof (cases "LRUlist r")
  case Nil
  with assms show ?thesis by (simp add: victim_def)
next
  case (Cons nf rest)
  obtain n f where nf: "nf = (n, f)" by (cases nf)
  have iff: "\<And>m g. (m, g) \<in> set (LRUlist r) \<longleftrightarrow> LRUhash r g = Some m"
    using assms by (simp add: lru_inv_def)
  have "f \<notin> snd ` set rest" and "n \<notin> fst ` set rest" using assms Cons nf by (auto simp: lru_inv_def)
  then have "(m, g) \<in> set rest \<longleftrightarrow> ((LRUhash r)(f := None)) g = Some m" for m g
    using iff [of m g] Cons nf by force
  then show ?thesis using assms Cons nf by (simp add: victim_def lru_inv_def)
qed

lemma lru_inv_pin:
  assumes "lru_inv r"
  shows "lru_inv (pin f r)"
proof (cases "LRUhash r f")
  case None
  with assms show ?thesis by (simp add: pin_def)
next
  case (Some n)
  have iff: "\<And>m g. (m, g) \<in> set (LRUlist r) \<longleftrightarrow> LRUhash r g = Some m"
    using assms by (simp add: lru_inv_def)
  have "m = n \<longleftrightarrow> g = f" if "(m, g) \<in> set (LRUlist r)" for m g
    using that iff Some assms unfolding lru_inv_def
    by (metis eq_key_imp_eq_value option.inject)
  then have "(m, g) \<in> set (filter (\<lambda>(m, _). m \<noteq> n) (LRUlist r)) \<longleftrightarrow>
      ((LRUhash r)(f := None)) g = Some m" for m g
    using iff [of m g] by auto
  moreover have "length (filter (\<lambda>(m, _). m \<noteq> n) (LRUlist r)) \<le> max_size r"
    using assms by (auto simp: lru_inv_def intro: le_trans [OF length_filter_le])
  ultimately show ?thesis using assms Some
    by (auto simp: pin_def lru_inv_def distinct_map_filter)
qed

lemma lru_inv_unpin:
  assumes "lru_inv r"
  shows "lru_inv (unpin f r)"
proof (cases "LRUhash r f \<noteq> None \<or> length (LRUlist r) \<ge> max_size r")
  case True
  with assms show ?thesis by (auto simp: unpin_def)
next
  case False
  then have "f \<notin> snd ` set (LRUlist r)" and "next_node r \<notin> fst ` set (LRUlist r)"
    using assms lru_hash_iff [OF assms, of f] by (auto simp: lru_order_def lru_inv_def)
  with False assms show ?thesis by (auto simp: unpin_def lru_inv_def less_Suc_eq)
qed

text \<open>The operations on the queue of evictable frames.\<close>

lemma lru_order_victim:
  "lru_order (snd (victim r)) = tl (lru_order r)"
  "fst (victim r) = (case lru_order r of [] \<Rightarrow> None | f # _ \<Rightarrow> Some f)"
  by (auto simp: victim_def lru_order_def split: list.splits)

lemma lru_order_pin:
  assumes "lru_inv r"
  shows "lru_order (pin f r) = remove1 f (lru_order r)"
proof (cases "LRUhash r f")
  case None
  then have "f \<notin> set (lru_order r)" using lru_hash_iff [OF assms, of f] by simp
  with None show ?thesis by (simp add: pin_def remove1_idem)
next
  case (Some n)
  have "fst x = n \<longleftrightarrow> snd x = f" if "x \<in> set (LRUlist r)" for x
    using that Some assms unfolding lru_inv_def
    by (metis eq_key_imp_eq_value option.inject prod.collapse)
  then have "filter (\<lambda>(m, _). m \<noteq> n) (LRUlist r) = filter (\<lambda>x. snd x \<noteq> f) (LRUlist r)"
    by (intro filter_cong) force+
  then have "lru_order (pin f r) = filter (\<lambda>g. g \<noteq> f) (lru_order r)"
    using Some by (simp add: pin_def lru_order_def filter_map o_def)
  then show ?thesis
    using distinct_remove1_removeAll [OF distinct_lru_order [OF assms], of f]
    by (simp add: removeAll_filter_not_eq eq_commute)
qed

lemma lru_order_unpin:
  assumes "lru_inv r"
  shows "lru_order (unpin f r) =
    (if f \<in> set (lru_order r) \<or> length (lru_order r) \<ge> max_size r then lru_order r
     else lru_order r @ [f])"
  using lru_hash_iff [OF assms, of f] by (simp add: unpin_def lru_order_def)

lemma lru_unpin_subset: "lru_inv r \<Longrightarrow> set (lru_order (unpin f r)) \<subseteq> insert f (set (lru_order r))"
  by (auto simp: lru_order_unpin)

lemma max_size_ops [simp]:
  "max_size (snd (victim r)) = max_size r"
  "max_size (pin f r) = max_size r"
  "max_size (unpin f r) = max_size r"
  by (auto simp: victim_def pin_def unpin_def split: list.splits option.splits)

interpretation lru: replacer_contract lru_inv "\<lambda>r. set (lru_order r)" max_size victim pin unpin Size
proof unfold_locales
  fix r :: lru_replacer and f :: frame_id
  assume inv: "lru_inv r"
  note d = distinct_lru_order [OF inv]
  have c: "card (set (lru_order r)) = length (LRUlist r)"
    using distinct_card [OF d] by (simp add: lru_order_def)
  show "finite (set (lru_order r))" by simp
  show "set (lru_order r) = {} \<Longrightarrow> victim r = (None, r)"
    by (simp add: lru_order_def victim_def)
  show "\<exists>f r'. victim r = (Some f, r') \<and> f \<in> set (lru_order r) \<and>
      set (lru_order r') = set (lru_order r) - {f} \<and> lru_inv r' \<and> max_size r' = max_size r"
    if "set (lru_order r) \<noteq> {}"
  proof -
    from that obtain g gs where g: "lru_order r = g # gs" by (cases "lru_order r") auto
    obtain r' where "victim r = (Some g, r')"
      using lru_order_victim(2) [of r] g by (cases "victim r") auto
    then show ?thesis
      using lru_order_victim(1) [of r] lru_inv_victim [OF inv] max_size_ops(1) [of r] g d by auto
  qed
  show "lru_inv (pin f r)" "max_size (pin f r) = max_size r"
    "lru_inv (unpin f r)" "max_size (unpin f r) = max_size r"
    using lru_inv_pin [OF inv] lru_inv_unpin [OF inv] by auto
  show "set (lru_order (pin f r)) = set (lru_order r) - {f}"
    using d by (simp add: lru_order_pin [OF inv] set_remove1_eq)
  show "f \<in> set (lru_order r) \<or> card (set (lru_order r)) < max_size r \<Longrightarrow>
      set (lru_order (unpin f r)) = insert f (set (lru_order r))"
    using c by (auto simp: lru_order_unpin [OF inv]) (simp add: lru_order_def)
  show "\<not> card (set (lru_order r)) < max_size r \<Longrightarrow> unpin f r = r"
    using c by (simp add: unpin_def)
  show "Size r = card (set (lru_order r))" using c by (simp add: Size_def)
qed

section \<open>LRU order\<close>

text \<open>
  A run of the replacer and what it answers, against a queue of distinct frames: a frame enters at
  the back when it becomes evictable, leaves when it is pinned, and the victim is the front, the
  frame that has been evictable for the longest time.
\<close>

datatype lru_op = Victim | Pin frame_id | Unpin frame_id

fun lru_run :: "lru_op list \<Rightarrow> lru_replacer \<Rightarrow> frame_id option list \<times> lru_replacer" where
  "lru_run [] r = ([], r)"
| "lru_run (Victim # os) r =
     (case victim r of (v, r1) \<Rightarrow> case lru_run os r1 of (vs, r2) \<Rightarrow> (v # vs, r2))"
| "lru_run (Pin f # os) r = lru_run os (pin f r)"
| "lru_run (Unpin f # os) r = lru_run os (unpin f r)"

fun queue_run :: "nat \<Rightarrow> lru_op list \<Rightarrow> frame_id list \<Rightarrow> frame_id option list \<times> frame_id list" where
  "queue_run cap [] q = ([], q)"
| "queue_run cap (Victim # os) q =
     (case queue_run cap os (tl q) of (vs, q2) \<Rightarrow>
        ((case q of [] \<Rightarrow> None | f # _ \<Rightarrow> Some f) # vs, q2))"
| "queue_run cap (Pin f # os) q = queue_run cap os (remove1 f q)"
| "queue_run cap (Unpin f # os) q =
     queue_run cap os (if f \<in> set q \<or> length q \<ge> cap then q else q @ [f])"

lemma lru_run_queue_run:
  assumes "lru_inv r"
  shows "fst (lru_run os r) = fst (queue_run (max_size r) os (lru_order r)) \<and>
    lru_order (snd (lru_run os r)) = snd (queue_run (max_size r) os (lru_order r)) \<and>
    lru_inv (snd (lru_run os r))"
  using assms
proof (induction os r rule: lru_run.induct)
  case (2 os r)
  obtain v r1 where v: "victim r = (v, r1)" by (cases "victim r")
  have "lru_inv r1" using lru_inv_victim [OF 2(2)] v by simp
  moreover have "lru_order r1 = tl (lru_order r)" "max_size r1 = max_size r"
      "v = (case lru_order r of [] \<Rightarrow> None | f # _ \<Rightarrow> Some f)"
    using lru_order_victim [of r] max_size_ops(1) [of r] v by auto
  ultimately show ?case using 2(1) [OF v [symmetric]] v by (auto split: prod.splits)
qed (auto simp: lru_inv_pin lru_inv_unpin lru_order_pin lru_order_unpin)

section \<open>Properties\<close>

text \<open>
  C31: for every sequence of calls, the list and hash table of \<^verbatim>\<open>LRUReplacer\<close> answer exactly as a
  bounded queue of distinct frames does: the victim is the frame that became evictable first, a
  pinned frame is never a victim, a frame is queued once, and the frame is refused when the
  capacity is reached.
\<close>

theorem lru_refines_queue:
  "fst (lru_run os (new_LRUReplacer n)) = fst (queue_run n os []) \<and>
   lru_order (snd (lru_run os (new_LRUReplacer n))) = snd (queue_run n os [])"
  using lru_run_queue_run [OF lru_inv_new, of os n] by (simp add: new_LRUReplacer_def lru_order_def)

text \<open>
  After any sequence of calls, asking for victims until there are none returns each evictable
  frame once: no frame is offered twice and none is forgotten.
\<close>

theorem lru_victims_complete:
  assumes "r = snd (lru_run os (new_LRUReplacer n))"
  shows "distinct (replacer_contract.drain victim (Size r) r) \<and>
    set (replacer_contract.drain victim (Size r) r) = set (lru_order r) \<and>
    length (replacer_contract.drain victim (Size r) r) = Size r"
proof -
  have inv: "lru_inv r" using lru_run_queue_run [OF lru_inv_new] assms by blast
  show ?thesis
    using lru.distinct_drain [OF inv] lru.drain_all [OF inv, of "Size r"] lru.drain_count [OF inv]
      lru.size_card [OF inv] by simp
qed

theorem lru_victims_complete_witness:
  "distinct (replacer_contract.drain victim
     (Size (snd (lru_run [Unpin 2, Unpin 5, Unpin 2, Pin 2, Unpin 7] (new_LRUReplacer 3))))
     (snd (lru_run [Unpin 2, Unpin 5, Unpin 2, Pin 2, Unpin 7] (new_LRUReplacer 3))))"
  using lru_victims_complete [OF refl] by blast

end
