(* ===== verification/Buffer_Pool.thy ===== *)
theory Buffer_Pool
  imports Disk_Manager Lru_Replacer "HOL-Library.AList"
begin

text \<open>
  \<^verbatim>\<open>storage/page.h\<close> and \<^verbatim>\<open>storage/buffer_pool_manager\<close>: the frames, the page table, the free list
  and the replacer over the disk manager. A \<^verbatim>\<open>Page *\<close> is the index of its frame in \<open>pages\<close>,
  a null pointer is \<open>None\<close>. The hash table \<^verbatim>\<open>page_table_\<close> is an association list, whose order
  stands for the iteration order that \<^verbatim>\<open>flush_all_pages\<close> meets. \<^verbatim>\<open>pin_count_\<close> is an \<^verbatim>\<open>int\<close> whose overflow is
  undefined; the integer that models it is the same as long as no page has \<open>2 ^ 31 - 1\<close> pins, which
  \<open>counts_upto\<close> bounds for every operation.

  Lemmas: the structural invariant \<open>bp_wf\<close> survives every operation, exceptions included; under
  the coherence condition \<open>bp_coh\<close> the pool is a transparent cache: \<open>view\<close>, the logical contents
  of every page, is what clients read and write whatever is evicted in between. The locale
  \<open>page_cache\<close> is that contract; it is interpreted on the pool.
\<close>

section \<open>Pages\<close>

record PageId =
  pg_fd :: int
  pg_no :: int

abbreviation mk_pid :: "int \<Rightarrow> int \<Rightarrow> PageId" where
  "mk_pid fd no \<equiv> \<lparr>pg_fd = fd, pg_no = no\<rparr>"

definition PageId_eq :: "PageId \<Rightarrow> PageId \<Rightarrow> bool" where
  "PageId_eq x y \<longleftrightarrow> pg_fd x = pg_fd y \<and> pg_no x = pg_no y"

definition PageId_less :: "PageId \<Rightarrow> PageId \<Rightarrow> bool" where
  "PageId_less a x = (if pg_fd a < pg_fd x then True else pg_no a < pg_no x)"

definition PageId_toString :: "PageId \<Rightarrow> string" where
  "PageId_toString x =
     ''{fd: '' @ to_string (pg_fd x) @ '' page_no: '' @ to_string (pg_no x) @ ''}''"

record Page =
  page_id :: PageId
  page_data :: buf
  is_dirty :: bool
  pin_count :: int

definition new_Page :: "int \<Rightarrow> Page" where
  "new_Page fd0 =
     \<lparr>page_id = mk_pid fd0 INVALID_PAGE_ID, page_data = zero_buf, is_dirty = False, pin_count = 0\<rparr>"

definition OFFSET_LSN :: nat where
  "OFFSET_LSN = 0"

definition OFFSET_PAGE_HDR :: nat where
  OFFSET_PAGE_HDR_def [simp]: "OFFSET_PAGE_HDR = 4"

definition get_page_lsn :: "Page \<Rightarrow> int" where
  "get_page_lsn p = get_i32 (page_data p) OFFSET_LSN"

definition set_page_lsn :: "int \<Rightarrow> Page \<Rightarrow> Page" where
  "set_page_lsn lsn p = p\<lparr>page_data := put_i32 (page_data p) OFFSET_LSN lsn\<rparr>"

definition reset_memory :: "Page \<Rightarrow> Page" where
  "reset_memory p = p\<lparr>page_data := zero_buf\<rparr>"

section \<open>The pool\<close>

record buffer_pool =
  pool_size :: nat
  pages :: "Page list"
  page_table :: "(PageId \<times> frame_id) list"
  free_list :: "frame_id list"
  replacer :: lru_replacer
  disk :: disk_manager

type_synonym 'a pool_op = "(buffer_pool, rmdb_error, 'a) sem"

text \<open>The \<^verbatim>\<open>fd\<close> of a default-constructed \<^verbatim>\<open>PageId\<close> is uninitialised: it is an argument.\<close>

definition new_BufferPoolManager :: "int \<Rightarrow> nat \<Rightarrow> disk_manager \<Rightarrow> buffer_pool" where
  "new_BufferPoolManager fd0 n dm =
     \<lparr>pool_size = n, pages = replicate n (new_Page fd0), page_table = [], free_list = [0..<n],
      replacer = new_LRUReplacer n, disk = dm\<rparr>"

definition set_page :: "frame_id \<Rightarrow> (Page \<Rightarrow> Page) \<Rightarrow> buffer_pool \<Rightarrow> buffer_pool" where
  "set_page f g bp = bp\<lparr>pages := (pages bp)[f := g (pages bp ! f)]\<rparr>"

definition mark_dirty :: "frame_id \<Rightarrow> buffer_pool \<Rightarrow> buffer_pool" where
  "mark_dirty f = set_page f (\<lambda>p. p\<lparr>is_dirty := True\<rparr>)"

text \<open>A store of the client through \<^verbatim>\<open>get_data()\<close>: the frame holds \<open>PAGE_SIZE\<close> bytes.\<close>

definition set_data :: "frame_id \<Rightarrow> buf \<Rightarrow> buffer_pool \<Rightarrow> buffer_pool" where
  "set_data f d = set_page f (\<lambda>p. p\<lparr>page_data := clip_page d\<rparr>)"

definition get_data :: "buffer_pool \<Rightarrow> frame_id \<Rightarrow> buf" where
  "get_data bp f = page_data (pages bp ! f)"

definition on_disk :: "'a disk_op \<Rightarrow> 'a pool_op" where
  "on_disk = zoom disk (\<lambda>d bp. bp\<lparr>disk := d\<rparr>)"

definition find_victim_page :: "buffer_pool \<Rightarrow> frame_id option \<times> buffer_pool" where
  "find_victim_page bp =
     (case free_list bp of
        f # rest \<Rightarrow> (Some f, bp\<lparr>free_list := rest\<rparr>)
      | [] \<Rightarrow> (case victim (replacer bp) of (v, r) \<Rightarrow> (v, bp\<lparr>replacer := r\<rparr>)))"

definition update_page :: "frame_id \<Rightarrow> PageId \<Rightarrow> frame_id \<Rightarrow> unit pool_op" where
  "update_page page new_page_id new_frame_id =
     bind_e (gets_e (\<lambda>bp. pages bp ! page)) (\<lambda>pg.
     bind_e (if pg_no (page_id pg) \<noteq> INVALID_PAGE_ID
             then bind_e (if is_dirty pg
                          then on_disk (write_page (pg_fd (page_id pg)) (pg_no (page_id pg))
                                          (page_data pg) PAGE_SIZE)
                          else ret ())
                    (\<lambda>_. modify_e (\<lambda>bp. bp\<lparr>page_table := AList.delete (page_id pg) (page_table bp)\<rparr>))
             else ret ()) (\<lambda>_.
     modify_e (\<lambda>bp.
       let bp1 = set_page page (\<lambda>p. (reset_memory p)\<lparr>page_id := new_page_id, is_dirty := False,
                                                      pin_count := 0\<rparr>) bp
       in if pg_no new_page_id \<noteq> INVALID_PAGE_ID
          then bp1\<lparr>page_table := AList.update new_page_id new_frame_id (page_table bp1)\<rparr> else bp1)))"

definition read_into :: "frame_id \<Rightarrow> PageId \<Rightarrow> unit pool_op" where
  "read_into f pid bp =
     (case read_page (pg_fd pid) (pg_no pid) (page_data (pages bp ! f)) PAGE_SIZE (disk bp) of
        (r, b, dm) \<Rightarrow> (r, set_page f (\<lambda>p. p\<lparr>page_data := b\<rparr>) (bp\<lparr>disk := dm\<rparr>)))"

definition pin_frame :: "frame_id \<Rightarrow> int \<Rightarrow> buffer_pool \<Rightarrow> buffer_pool" where
  "pin_frame f c bp =
     (set_page f (\<lambda>p. p\<lparr>pin_count := c\<rparr>) bp)\<lparr>replacer := Lru_Replacer.pin f (replacer bp)\<rparr>"

definition fetch_page :: "PageId \<Rightarrow> frame_id option pool_op" where
  "fetch_page pid bp =
     (case map_of (page_table bp) pid of
        Some f \<Rightarrow> (Inr (Some f), pin_frame f (pin_count (pages bp ! f) + 1) bp)
      | None \<Rightarrow>
          (case find_victim_page bp of
             (None, bp1) \<Rightarrow> (Inr None, bp1)
           | (Some f, bp1) \<Rightarrow>
               bind_e (update_page f pid f) (\<lambda>_.
               bind_e (read_into f pid) (\<lambda>_.
               bind_e (modify_e (pin_frame f 1)) (\<lambda>_.
               ret (Some f)))) bp1))"

definition unpin_page :: "PageId \<Rightarrow> bool \<Rightarrow> buffer_pool \<Rightarrow> bool \<times> buffer_pool" where
  "unpin_page pid dirty bp =
     (case map_of (page_table bp) pid of
        None \<Rightarrow> (False, bp)
      | Some f \<Rightarrow>
          if pin_count (pages bp ! f) \<le> 0 then (False, bp)
          else let bp1 = (if dirty then set_page f (\<lambda>p. p\<lparr>is_dirty := True\<rparr>) bp else bp);
                   bp2 = set_page f (\<lambda>p. p\<lparr>pin_count := pin_count p - 1\<rparr>) bp1
               in (True, if pin_count (pages bp2 ! f) = 0
                         then bp2\<lparr>replacer := Lru_Replacer.unpin f (replacer bp2)\<rparr> else bp2))"

definition flush_page :: "PageId \<Rightarrow> bool pool_op" where
  "flush_page pid bp =
     (case map_of (page_table bp) pid of
        None \<Rightarrow> (Inr False, bp)
      | Some f \<Rightarrow>
          bind_e (on_disk (write_page (pg_fd pid) (pg_no pid) (page_data (pages bp ! f)) PAGE_SIZE))
            (\<lambda>_. bind_e (modify_e (set_page f (\<lambda>p. p\<lparr>is_dirty := False\<rparr>))) (\<lambda>_. ret True)) bp)"

text \<open>\<^verbatim>\<open>new_page\<close> takes the file descriptor and yields the frame with the page number chosen.\<close>

definition new_page :: "int \<Rightarrow> (frame_id \<times> PageId) option pool_op" where
  "new_page fd bp =
     (case find_victim_page bp of
        (None, bp1) \<Rightarrow> (Inr None, bp1)
      | (Some f, bp1) \<Rightarrow>
          bind_e (on_disk (allocate_page fd)) (\<lambda>no.
          bind_e (update_page f (mk_pid fd no) f) (\<lambda>_.
          bind_e (modify_e (pin_frame f 1)) (\<lambda>_.
          ret (Some (f, mk_pid fd no))))) bp1)"

definition delete_page :: "PageId \<Rightarrow> buffer_pool \<Rightarrow> bool \<times> buffer_pool" where
  "delete_page pid bp =
     (case map_of (page_table bp) pid of
        None \<Rightarrow> (True, bp\<lparr>disk := deallocate_page (pg_no pid) (disk bp)\<rparr>)
      | Some f \<Rightarrow>
          if pin_count (pages bp ! f) \<noteq> 0 then (False, bp)
          else let bp1 = bp\<lparr>replacer := Lru_Replacer.pin f (replacer bp),
                            page_table := AList.delete pid (page_table bp)\<rparr>;
                   bp2 = set_page f (\<lambda>p. (reset_memory p)\<lparr>page_id := mk_pid (pg_fd pid) INVALID_PAGE_ID,
                                                           is_dirty := False, pin_count := 0\<rparr>) bp1
               in (True, bp2\<lparr>free_list := free_list bp2 @ [f],
                             disk := deallocate_page (pg_no pid) (disk bp2)\<rparr>))"

definition flush_frame :: "PageId \<times> frame_id \<Rightarrow> unit pool_op" where
  "flush_frame entry bp =
     bind_e (on_disk (write_page (pg_fd (fst entry)) (pg_no (fst entry))
                        (page_data (pages bp ! snd entry)) PAGE_SIZE))
       (\<lambda>_. modify_e (set_page (snd entry) (\<lambda>p. p\<lparr>is_dirty := False\<rparr>))) bp"

definition flush_all_pages :: "int \<Rightarrow> unit pool_op" where
  "flush_all_pages fd bp =
     for_each (page_table bp) (\<lambda>entry. if pg_fd (fst entry) \<noteq> fd then ret () else flush_frame entry) bp"

section \<open>The structural invariant\<close>

definition bp_wf :: "buffer_pool \<Rightarrow> bool" where
  "bp_wf bp \<longleftrightarrow>
     length (pages bp) = pool_size bp \<and> distinct (map fst (page_table bp)) \<and>
     (\<forall>pid f. map_of (page_table bp) pid = Some f \<longrightarrow>
        f < pool_size bp \<and> page_id (pages bp ! f) = pid \<and> pg_no pid \<noteq> INVALID_PAGE_ID) \<and>
     distinct (free_list bp) \<and>
     (\<forall>f \<in> set (free_list bp). f < pool_size bp \<and> pg_no (page_id (pages bp ! f)) = INVALID_PAGE_ID) \<and>
     lru_inv (replacer bp) \<and> max_size (replacer bp) = pool_size bp \<and>
     (\<forall>f \<in> set (lru_order (replacer bp)). pin_count (pages bp ! f) = 0 \<and>
        map_of (page_table bp) (page_id (pages bp ! f)) = Some f) \<and>
     (\<forall>f < pool_size bp. 0 \<le> pin_count (pages bp ! f)) \<and>
     dm_inv (disk bp)"

text \<open>A frame just taken by \<^verbatim>\<open>find_victim_page\<close>: in neither the free list nor the replacer.\<close>

definition detached :: "buffer_pool \<Rightarrow> frame_id \<Rightarrow> bool" where
  "detached bp f \<longleftrightarrow>
     f < pool_size bp \<and> f \<notin> set (free_list bp) \<and> f \<notin> set (lru_order (replacer bp)) \<and>
     (pg_no (page_id (pages bp ! f)) = INVALID_PAGE_ID \<or>
      map_of (page_table bp) (page_id (pages bp ! f)) = Some f \<and> pin_count (pages bp ! f) = 0)"

lemma bp_wfD:
  assumes "bp_wf bp"
  shows "length (pages bp) = pool_size bp" and "distinct (map fst (page_table bp))"
    and "map_of (page_table bp) pid = Some f \<Longrightarrow> f < pool_size bp"
    and "map_of (page_table bp) pid = Some f \<Longrightarrow> page_id (pages bp ! f) = pid"
    and "map_of (page_table bp) pid = Some f \<Longrightarrow> pg_no pid \<noteq> INVALID_PAGE_ID"
    and "distinct (free_list bp)"
    and "f \<in> set (free_list bp) \<Longrightarrow> f < pool_size bp"
    and "f \<in> set (free_list bp) \<Longrightarrow> pg_no (page_id (pages bp ! f)) = INVALID_PAGE_ID"
    and "lru_inv (replacer bp)" and "max_size (replacer bp) = pool_size bp"
    and "f \<in> set (lru_order (replacer bp)) \<Longrightarrow> pin_count (pages bp ! f) = 0"
    and "f \<in> set (lru_order (replacer bp)) \<Longrightarrow> map_of (page_table bp) (page_id (pages bp ! f)) = Some f"
    and "f < pool_size bp \<Longrightarrow> 0 \<le> pin_count (pages bp ! f)"
    and "dm_inv (disk bp)"
  using assms unfolding bp_wf_def by blast+

lemma bp_wfI:
  assumes "length (pages bp) = pool_size bp" and "distinct (map fst (page_table bp))"
    and "\<And>pid f. map_of (page_table bp) pid = Some f \<Longrightarrow>
           f < pool_size bp \<and> page_id (pages bp ! f) = pid \<and> pg_no pid \<noteq> INVALID_PAGE_ID"
    and "distinct (free_list bp)"
    and "\<And>f. f \<in> set (free_list bp) \<Longrightarrow>
           f < pool_size bp \<and> pg_no (page_id (pages bp ! f)) = INVALID_PAGE_ID"
    and "lru_inv (replacer bp)" and "max_size (replacer bp) = pool_size bp"
    and "\<And>f. f \<in> set (lru_order (replacer bp)) \<Longrightarrow>
           pin_count (pages bp ! f) = 0 \<and> map_of (page_table bp) (page_id (pages bp ! f)) = Some f"
    and "\<And>f. f < pool_size bp \<Longrightarrow> 0 \<le> pin_count (pages bp ! f)"
    and "dm_inv (disk bp)"
  shows "bp_wf bp"
  using assms unfolding bp_wf_def by blast

lemma bp_wf_new: "dm_inv dm \<Longrightarrow> bp_wf (new_BufferPoolManager fd0 n dm)"
  by (simp add: bp_wf_def new_BufferPoolManager_def new_Page_def lru_inv_new new_LRUReplacer_def
      lru_order_def lru_inv_def)

lemma set_page_simps [simp]:
  "pool_size (set_page f g bp) = pool_size bp"
  "page_table (set_page f g bp) = page_table bp"
  "free_list (set_page f g bp) = free_list bp"
  "replacer (set_page f g bp) = replacer bp"
  "disk (set_page f g bp) = disk bp"
  "length (pages (set_page f g bp)) = length (pages bp)"
  by (simp_all add: set_page_def)

lemma pages_set_page:
  "k < length (pages bp) \<Longrightarrow>
     pages (set_page f g bp) ! k = (if k = f then g (pages bp ! f) else pages bp ! k)"
  by (auto simp: set_page_def nth_list_update)

lemma bp_wf_set_page:
  assumes wf: "bp_wf bp" and f: "f < pool_size bp"
    and g: "page_id (g (pages bp ! f)) = page_id (pages bp ! f)" "0 \<le> pin_count (g (pages bp ! f))"
      "f \<in> set (lru_order (replacer bp)) \<Longrightarrow> pin_count (g (pages bp ! f)) = 0"
  shows "bp_wf (set_page f g bp)"
proof -
  have id: "page_id (pages (set_page f g bp) ! k) = page_id (pages bp ! k)" if "k < pool_size bp" for k
    using that bp_wfD(1) [OF wf] g(1) by (simp add: pages_set_page)
  have pc: "0 \<le> pin_count (pages (set_page f g bp) ! k)" if "k < pool_size bp" for k
    using that bp_wfD(1,13) [OF wf] g(2) by (simp add: pages_set_page)
  have lru: "pin_count (pages (set_page f g bp) ! k) = 0 \<and>
      map_of (page_table bp) (page_id (pages (set_page f g bp) ! k)) = Some k"
    if "k \<in> set (lru_order (replacer bp))" for k
  proof -
    have "k < pool_size bp" using bp_wfD(3,12) [OF wf] that by blast
    then have "pin_count (pages (set_page f g bp) ! k) = 0"
      using that bp_wfD(1,11) [OF wf] g(3) by (auto simp: pages_set_page)
    then show ?thesis using id [OF \<open>k < pool_size bp\<close>] bp_wfD(12) [OF wf that] by simp
  qed
  show ?thesis
    unfolding bp_wf_def set_page_simps
    using bp_wfD [OF wf] id pc lru by simp
qed

lemma bp_wf_disk [simp]: "dm_inv dm \<Longrightarrow> bp_wf bp \<Longrightarrow> bp_wf (bp\<lparr>disk := dm\<rparr>)"
  by (simp add: bp_wf_def)

lemma bp_wf_pin: "bp_wf bp \<Longrightarrow> bp_wf (bp\<lparr>replacer := Lru_Replacer.pin f (replacer bp)\<rparr>)"
  using lru.pin_evictable [of "replacer bp" f] lru.pin_ok [of "replacer bp" f]
  by (simp add: bp_wf_def)

lemma find_victim_page_cases:
  assumes wf: "bp_wf bp"
  obtains (none) "find_victim_page bp = (None, bp)" "free_list bp = []" "set (lru_order (replacer bp)) = {}"
  | (some) f bp1 where "find_victim_page bp = (Some f, bp1)" "bp_wf bp1" "detached bp1 f"
      "pool_size bp1 = pool_size bp" "pages bp1 = pages bp" "page_table bp1 = page_table bp"
      "disk bp1 = disk bp" "insert f (set (free_list bp1) \<union> set (lru_order (replacer bp1))) =
         set (free_list bp) \<union> set (lru_order (replacer bp))"
proof (cases "free_list bp")
  case (Cons f rest)
  have "f \<notin> set (lru_order (replacer bp))"
    using bp_wfD(5) [OF wf bp_wfD(12) [OF wf]] bp_wfD(8) [OF wf, of f] Cons by fastforce
  then have "detached (bp\<lparr>free_list := rest\<rparr>) f"
    using bp_wfD(6,7,8) [OF wf] Cons by (simp add: detached_def)
  moreover have "bp_wf (bp\<lparr>free_list := rest\<rparr>)" using wf Cons by (simp add: bp_wf_def)
  ultimately show thesis using Cons
    by (intro some [of f "bp\<lparr>free_list := rest\<rparr>"]) (auto simp: find_victim_page_def)
next
  case Nil
  from bp_wfD(9) [OF wf] show thesis
  proof (cases rule: lru.victim_cases)
    case a: none
    with Nil show thesis by (intro none) (simp_all add: find_victim_page_def)
  next
    case s: (some f r')
    let ?bp1 = "bp\<lparr>replacer := r'\<rparr>"
    have "bp_wf ?bp1" using wf s(3,4,5) by (simp add: bp_wf_def)
    moreover have "detached ?bp1 f"
      using bp_wfD(3) [OF wf bp_wfD(12) [OF wf s(2)]] bp_wfD(11,12) [OF wf s(2)] s(3) Nil
      by (simp add: detached_def)
    ultimately show thesis using Nil s
      by (intro some [of f ?bp1]) (auto simp: find_victim_page_def)
  qed
qed

text \<open>What \<^verbatim>\<open>update_page\<close> leaves behind: the frame evicted, then mapped to the new page.\<close>

definition evicted :: "frame_id \<Rightarrow> buffer_pool \<Rightarrow> buffer_pool" where
  "evicted f bp =
     (if pg_no (page_id (pages bp ! f)) \<noteq> INVALID_PAGE_ID
      then bp\<lparr>page_table := AList.delete (page_id (pages bp ! f)) (page_table bp)\<rparr> else bp)"

definition installed :: "frame_id \<Rightarrow> PageId \<Rightarrow> buffer_pool \<Rightarrow> buffer_pool" where
  "installed f pid bp =
     (let bp1 = set_page f (\<lambda>p. \<lparr>page_id = pid, page_data = zero_buf, is_dirty = False,
                                pin_count = 0\<rparr>) bp
      in if pg_no pid \<noteq> INVALID_PAGE_ID
         then bp1\<lparr>page_table := AList.update pid f (page_table bp1)\<rparr> else bp1)"

definition writeback :: "frame_id \<Rightarrow> unit pool_op" where
  "writeback f bp =
     (let pg = pages bp ! f
      in if pg_no (page_id pg) \<noteq> INVALID_PAGE_ID \<and> is_dirty pg
         then on_disk (write_page (pg_fd (page_id pg)) (pg_no (page_id pg)) (page_data pg) PAGE_SIZE) bp
         else (Inr (), bp))"

lemma on_disk_app: "on_disk m bp = (case m (disk bp) of (r, d) \<Rightarrow> (r, bp\<lparr>disk := d\<rparr>))"
  by (simp add: on_disk_def zoom_app)

lemma on_disk_eq: "m (disk bp) = (r, d) \<Longrightarrow> on_disk m bp = (r, bp\<lparr>disk := d\<rparr>)"
  by (simp add: on_disk_app)

lemma update_page_alt:
  "update_page f pid f = bind_e (writeback f) (\<lambda>_. modify_e (installed f pid \<circ> evicted f))"
proof (rule ext)
  fix bp :: buffer_pool
  let ?pg = "pages bp ! f"
  have r: "(reset_memory ?pg)\<lparr>page_id := pid, is_dirty := False, pin_count := 0\<rparr> =
      \<lparr>page_id = pid, page_data = zero_buf, is_dirty = False, pin_count = 0\<rparr>"
    by (simp add: reset_memory_def)
  show "update_page f pid f bp = bind_e (writeback f) (\<lambda>_. modify_e (installed f pid \<circ> evicted f)) bp"
    by (cases "write_page (pg_fd (page_id ?pg)) (pg_no (page_id ?pg)) (page_data ?pg) PAGE_SIZE (disk bp)")
      (simp add: update_page_def writeback_def bind_e_app on_disk_app evicted_def installed_def Let_def
        set_page_def r split: sum.splits)
qed

lemma writeback_disk:
  assumes "writeback f bp = (r, bp1)"
  obtains dm where "bp1 = bp\<lparr>disk := dm\<rparr>" and "dm_inv (disk bp) \<Longrightarrow> dm_inv dm" and "same_tables (disk bp) dm"
proof -
  let ?pg = "pages bp ! f"
  let ?w = "write_page (pg_fd (page_id ?pg)) (pg_no (page_id ?pg)) (page_data ?pg) PAGE_SIZE (disk bp)"
  have "bp1 = bp\<lparr>disk := snd ?w\<rparr> \<or> bp1 = bp\<lparr>disk := disk bp\<rparr>"
    using assms by (auto simp: writeback_def on_disk_app Let_def split: prod.splits if_splits)
  then show thesis
    using that [of "snd ?w"] that [of "disk bp"] dm_inv_write_page [of "disk bp"]
      same_tables_write_page [of "disk bp"] by auto
qed

lemma evicted_simps [simp]:
  "pool_size (evicted f bp) = pool_size bp" "pages (evicted f bp) = pages bp"
  "free_list (evicted f bp) = free_list bp" "replacer (evicted f bp) = replacer bp"
  "disk (evicted f bp) = disk bp"
  by (simp_all add: evicted_def)

lemma installed_simps [simp]:
  "pool_size (installed f pid bp) = pool_size bp"
  "free_list (installed f pid bp) = free_list bp" "replacer (installed f pid bp) = replacer bp"
  "disk (installed f pid bp) = disk bp" "length (pages (installed f pid bp)) = length (pages bp)"
  by (simp_all add: installed_def Let_def)

lemma pages_installed:
  "k < length (pages bp) \<Longrightarrow>
     pages (installed f pid bp) ! k =
       (if k = f then \<lparr>page_id = pid, page_data = zero_buf, is_dirty = False, pin_count = 0\<rparr>
        else pages bp ! k)"
  by (simp add: installed_def Let_def pages_set_page)

lemma table_installed:
  "map_of (page_table (installed f pid bp)) =
     (if pg_no pid \<noteq> INVALID_PAGE_ID then (map_of (page_table bp))(pid \<mapsto> f) else map_of (page_table bp))"
  by (simp add: installed_def Let_def update_conv')

lemma table_evicted:
  assumes "bp_wf bp" and "detached bp f"
  shows "map_of (page_table (evicted f bp)) q = Some k \<longleftrightarrow> map_of (page_table bp) q = Some k \<and> k \<noteq> f"
proof (cases "pg_no (page_id (pages bp ! f)) = INVALID_PAGE_ID")
  case True
  then have "map_of (page_table bp) q \<noteq> Some f"
    using bp_wfD(4,5) [OF assms(1), of q f] by metis
  with True show ?thesis by (auto simp: evicted_def)
next
  case False
  with assms have "map_of (page_table bp) (page_id (pages bp ! f)) = Some f" by (simp add: detached_def)
  moreover have "map_of (page_table bp) q = Some f \<Longrightarrow> page_id (pages bp ! f) = q"
    by (rule bp_wfD(4) [OF assms(1)])
  moreover have "map_of (page_table (evicted f bp)) q =
      (if page_id (pages bp ! f) = q then None else map_of (page_table bp) q)"
    using False by (simp add: evicted_def delete_conv')
  ultimately show ?thesis by (auto simp del: not_None_eq)
qed

lemma bp_wf_evict_install:
  assumes wf: "bp_wf bp" and d: "detached bp f" and new: "map_of (page_table bp) pid = None"
  shows "bp_wf (installed f pid (evicted f bp))"
proof -
  let ?b = "installed f pid (evicted f bp)"
  have len: "length (pages bp) = pool_size bp" using bp_wfD(1) [OF wf] .
  have f: "f < pool_size bp" "f \<notin> set (free_list bp)" "f \<notin> set (lru_order (replacer bp))"
    using d by (auto simp: detached_def)
  have pg: "pages ?b ! k = pages bp ! k" if "k < pool_size bp" "k \<noteq> f" for k
    using that len by (simp add: pages_installed)
  have pf: "page_id (pages ?b ! f) = pid" "pin_count (pages ?b ! f) = 0"
    using f len by (simp_all add: pages_installed)
  have tab: "map_of (page_table ?b) q = Some k \<longleftrightarrow>
      (if q = pid \<and> pg_no pid \<noteq> INVALID_PAGE_ID then k = f
       else map_of (page_table bp) q = Some k \<and> k \<noteq> f)" for q k
    using table_evicted [OF wf d, of q k] by (auto simp: table_installed)
  have "distinct (map fst (page_table (evicted f bp)))"
    using bp_wfD(2) [OF wf] by (simp add: evicted_def distinct_delete)
  then have "distinct (map fst (page_table ?b))"
    by (simp add: installed_def Let_def distinct_update)
  moreover have "k < pool_size bp \<and> page_id (pages ?b ! k) = q \<and> pg_no q \<noteq> INVALID_PAGE_ID"
    if "map_of (page_table ?b) q = Some k" for q k
    using that bp_wfD(3,4,5) [OF wf] f(1) pf(1) pg by (auto simp: tab split: if_splits)
  moreover have "k < pool_size bp \<and> pg_no (page_id (pages ?b ! k)) = INVALID_PAGE_ID"
    if "k \<in> set (free_list bp)" for k
    using that bp_wfD(7,8) [OF wf] f(2) pg [of k] by metis
  moreover have "pin_count (pages ?b ! k) = 0 \<and> map_of (page_table ?b) (page_id (pages ?b ! k)) = Some k"
    if k: "k \<in> set (lru_order (replacer bp))" for k
  proof -
    have kf: "k \<noteq> f" using k f(3) by auto
    have m: "map_of (page_table bp) (page_id (pages bp ! k)) = Some k" using bp_wfD(12) [OF wf k] .
    then have "page_id (pages bp ! k) \<noteq> pid" using new by auto
    then show ?thesis using kf m pg [of k] bp_wfD(3) [OF wf m] bp_wfD(11) [OF wf k] by (simp add: tab)
  qed
  moreover have "0 \<le> pin_count (pages ?b ! k)" if "k < pool_size bp" for k
    using that pf(2) pg [of k] bp_wfD(13) [OF wf that] by (cases "k = f") auto
  ultimately show ?thesis
    unfolding bp_wf_def installed_simps evicted_simps
    using bp_wfD(6,9,10,14) [OF wf] len by blast
qed

lemma detached_evict_install:
  assumes "bp_wf bp" and "detached bp f"
  shows "detached (installed f pid (evicted f bp)) f"
  using assms bp_wfD(1) [OF assms(1)]
  by (auto simp: detached_def pages_installed table_installed)

lemma detached_disk [simp]: "detached (bp\<lparr>disk := dm\<rparr>) f = detached bp f"
  by (simp add: detached_def)

lemma evict_install_disk [simp]:
  "installed f pid (evicted f (bp\<lparr>disk := dm\<rparr>)) = (installed f pid (evicted f bp))\<lparr>disk := dm\<rparr>"
  by (simp add: evicted_def installed_def Let_def set_page_def)

lemma update_page_cases:
  assumes wf: "bp_wf bp" and d: "detached bp f" and new: "map_of (page_table bp) pid = None"
  obtains (thrown) e dm where "update_page f pid f bp = (Inl e, bp\<lparr>disk := dm\<rparr>)"
      "writeback f bp = (Inl e, bp\<lparr>disk := dm\<rparr>)" "dm_inv dm" "same_tables (disk bp) dm"
  | (ok) dm where "update_page f pid f bp = (Inr (), (installed f pid (evicted f bp))\<lparr>disk := dm\<rparr>)"
      "writeback f bp = (Inr (), bp\<lparr>disk := dm\<rparr>)" "dm_inv dm" "same_tables (disk bp) dm"
proof -
  obtain r bp1 where w: "writeback f bp = (r, bp1)" by (cases "writeback f bp")
  then obtain dm where dm: "bp1 = bp\<lparr>disk := dm\<rparr>" "dm_inv dm" "same_tables (disk bp) dm"
    using bp_wfD(14) [OF wf] by (metis writeback_disk)
  show thesis
  proof (cases r)
    case (Inl e)
    with w dm show thesis by (intro thrown [of e dm]) (simp_all add: update_page_alt)
  next
    case (Inr u)
    with w dm show thesis by (intro ok [of dm]) (simp_all add: update_page_alt)
  qed
qed

section \<open>Every operation keeps the structural invariant\<close>

lemma pin_frame_alt:
  "pin_frame f c bp =
     set_page f (\<lambda>p. p\<lparr>pin_count := c\<rparr>) (bp\<lparr>replacer := Lru_Replacer.pin f (replacer bp)\<rparr>)"
  by (simp add: pin_frame_def set_page_def)

lemma bp_wf_pin_frame:
  assumes "bp_wf bp" and "f < pool_size bp" and "0 \<le> c"
  shows "bp_wf (pin_frame f c bp)"
  unfolding pin_frame_alt
  using assms lru.pin_evictable [OF bp_wfD(9) [OF assms(1)], of f]
  by (intro bp_wf_set_page bp_wf_pin) auto

lemma bp_wf_read_into:
  assumes "bp_wf bp" and "f < pool_size bp"
  shows "bp_wf (snd (read_into f pid bp))"
proof -
  obtain r b dm where rd:
    "read_page (pg_fd pid) (pg_no pid) (page_data (pages bp ! f)) PAGE_SIZE (disk bp) = (r, b, dm)"
    by (cases "read_page (pg_fd pid) (pg_no pid) (page_data (pages bp ! f)) PAGE_SIZE (disk bp)") auto
  then have "dm_inv dm"
    using dm_inv_read_page [OF bp_wfD(14) [OF assms(1)]] by (metis snd_conv)
  then have w: "bp_wf (bp\<lparr>disk := dm\<rparr>)" using assms(1) by simp
  have "bp_wf (set_page f (\<lambda>p. p\<lparr>page_data := b\<rparr>) (bp\<lparr>disk := dm\<rparr>))"
    using assms(2) bp_wfD(11,13) [OF w, of f] by (intro bp_wf_set_page w) auto
  then show ?thesis unfolding read_into_def rd by simp
qed

lemma pool_size_read_into [simp]: "pool_size (snd (read_into f pid bp)) = pool_size bp"
  by (simp add: read_into_def split: prod.splits)

lemma bp_wf_fetch_page:
  assumes wf: "bp_wf bp"
  shows "bp_wf (snd (fetch_page pid bp))"
proof (cases "map_of (page_table bp) pid")
  case (Some f)
  then show ?thesis using wf bp_wfD(3,13) [OF wf]
    by (auto simp: fetch_page_def intro!: bp_wf_pin_frame)
next
  case None
  from wf show ?thesis
  proof (cases rule: find_victim_page_cases)
    case none
    with None wf show ?thesis by (simp add: fetch_page_def)
  next
    case (some f bp1)
    have new: "map_of (page_table bp1) pid = None" using None some by simp
    have f: "f < pool_size bp1" using some(3) by (simp add: detached_def)
    from some(2,3) new show ?thesis
    proof (cases rule: update_page_cases)
      case (thrown e dm)
      with None some show ?thesis by (simp add: fetch_page_def)
    next
      case (ok dm)
      let ?b = "(installed f pid (evicted f bp1))\<lparr>disk := dm\<rparr>"
      have w: "bp_wf ?b" using bp_wf_evict_install [OF some(2,3) new] ok(3) by simp
      obtain r bp2 where r: "read_into f pid ?b = (r, bp2)" by (cases "read_into f pid ?b")
      have "bp_wf bp2" "pool_size bp2 = pool_size bp1"
        using bp_wf_read_into [OF w, of f pid] pool_size_read_into [of f pid ?b] f r by auto
      with f have "bp_wf (pin_frame f 1 bp2)" by (intro bp_wf_pin_frame) auto
      with \<open>bp_wf bp2\<close> show ?thesis using None some(1) ok(1) r
        by (cases r) (simp_all add: fetch_page_def)
    qed
  qed
qed

lemma bp_wf_unpin_page:
  assumes wf: "bp_wf bp"
  shows "bp_wf (snd (unpin_page pid dirty bp))"
proof (cases "map_of (page_table bp) pid")
  case None
  with wf show ?thesis by (simp add: unpin_page_def)
next
  case (Some f)
  show ?thesis
  proof (cases "pin_count (pages bp ! f) \<le> 0")
    case True
    with Some wf show ?thesis by (simp add: unpin_page_def)
  next
    case False
    let ?b1 = "if dirty then set_page f (\<lambda>p. p\<lparr>is_dirty := True\<rparr>) bp else bp"
    let ?b2 = "set_page f (\<lambda>p. p\<lparr>pin_count := pin_count p - 1\<rparr>) ?b1"
    have f: "f < pool_size bp" "length (pages bp) = pool_size bp" using bp_wfD(1,3) [OF wf] Some by auto
    have nl: "f \<notin> set (lru_order (replacer bp))" using bp_wfD(11) [OF wf, of f] False by auto
    have w1: "bp_wf ?b1" using wf f False by (auto intro!: bp_wf_set_page dest: bp_wfD(11))
    have p1: "pin_count (pages ?b1 ! f) = pin_count (pages bp ! f)"
      "page_id (pages ?b1 ! f) = page_id (pages bp ! f)"
      "replacer ?b1 = replacer bp" "pool_size ?b1 = pool_size bp"
      using f by (auto simp: pages_set_page)
    have w2: "bp_wf ?b2" using w1 f False p1 nl by (intro bp_wf_set_page) (auto split: if_splits)
    have "bp_wf (?b2\<lparr>replacer := Lru_Replacer.unpin f (replacer ?b2)\<rparr>)" if "pin_count (pages ?b2 ! f) = 0"
    proof -
      have "map_of (page_table ?b2) (page_id (pages ?b2 ! f)) = Some f"
        using Some bp_wfD(4) [OF wf Some] f p1 by (simp add: pages_set_page)
      moreover have "set (lru_order (Lru_Replacer.unpin f (replacer ?b2))) \<subseteq> insert f (set (lru_order (replacer ?b2)))"
        using bp_wfD(9) [OF w2] by (rule lru_unpin_subset)
      ultimately have "pin_count (pages ?b2 ! k) = 0 \<and>
          map_of (page_table ?b2) (page_id (pages ?b2 ! k)) = Some k"
        if "k \<in> set (lru_order (Lru_Replacer.unpin f (replacer ?b2)))" for k
        using that \<open>pin_count (pages ?b2 ! f) = 0\<close> bp_wfD(11,12) [OF w2, of k] by blast
      then show ?thesis
        using lru.unpin_ok [OF bp_wfD(9) [OF w2]] bp_wfD [OF w2]
        by (intro bp_wfI) simp_all
    qed
    with w2 Some False show ?thesis by (simp add: unpin_page_def Let_def)
  qed
qed

lemma bp_wf_flush_frame:
  assumes wf: "bp_wf bp" and f: "f < pool_size bp"
  shows "bp_wf (snd (flush_frame (pid, f) bp))"
proof -
  obtain r dm where w: "write_page (pg_fd pid) (pg_no pid) (page_data (pages bp ! f)) PAGE_SIZE (disk bp) = (r, dm)"
    by (cases "write_page (pg_fd pid) (pg_no pid) (page_data (pages bp ! f)) PAGE_SIZE (disk bp)")
  then have dm: "bp_wf (bp\<lparr>disk := dm\<rparr>)"
    using dm_inv_write_page [OF bp_wfD(14) [OF wf]] wf by (metis bp_wf_disk snd_conv)
  then have "bp_wf (set_page f (\<lambda>p. p\<lparr>is_dirty := False\<rparr>) (bp\<lparr>disk := dm\<rparr>))"
    using f bp_wfD(11,13) [OF wf, of f] by (intro bp_wf_set_page) auto
  with dm w show ?thesis by (cases r) (simp_all add: flush_frame_def on_disk_app bind_e_app)
qed

lemma flush_page_alt:
  "flush_page pid bp =
     (case map_of (page_table bp) pid of None \<Rightarrow> (Inr False, bp)
      | Some f \<Rightarrow> bind_e (flush_frame (pid, f)) (\<lambda>_. ret True) bp)"
  by (simp add: flush_page_def flush_frame_def bind_e_app split: option.splits prod.splits sum.splits)

lemma bp_wf_flush_page:
  assumes wf: "bp_wf bp"
  shows "bp_wf (snd (flush_page pid bp))"
proof (cases "map_of (page_table bp) pid")
  case None
  with wf show ?thesis by (simp add: flush_page_alt)
next
  case (Some f)
  then show ?thesis using bp_wf_flush_frame [OF wf bp_wfD(3) [OF wf Some], of pid]
    by (auto simp: flush_page_alt bind_e_app split: prod.splits sum.splits)
qed

lemma pool_size_flush_frame: "pool_size (snd (flush_frame e bp)) = pool_size bp"
  by (simp add: flush_frame_def on_disk_app bind_e_app split: prod.splits sum.splits)

lemma bp_wf_flush_all_pages:
  assumes wf: "bp_wf bp"
  shows "bp_wf (snd (flush_all_pages fd bp))"
proof -
  have "keeps (\<lambda>b. bp_wf b \<and> pool_size b = pool_size bp)
      (\<lambda>b. for_each (page_table bp) (\<lambda>entry. if pg_fd (fst entry) \<noteq> fd then ret () else flush_frame entry) b)"
  proof (intro keeps_intros keepsI conjI)
    fix x b assume x: "x \<in> set (page_table bp)" and b: "bp_wf b \<and> pool_size b = pool_size bp"
    obtain pid f where "x = (pid, f)" by (cases x)
    moreover have "snd x < pool_size bp"
      using x bp_wfD(2,3) [OF wf] by (metis map_of_is_SomeI prod.collapse)
    ultimately show "bp_wf (snd (flush_frame x b))" and "pool_size (snd (flush_frame x b)) = pool_size bp"
      using b by (auto intro: bp_wf_flush_frame simp: pool_size_flush_frame)
  qed
  then show ?thesis using wf by (simp add: flush_all_pages_def keeps_def)
qed

lemma bp_wf_delete_page:
  assumes wf: "bp_wf bp"
  shows "bp_wf (snd (delete_page pid bp))"
proof (cases "map_of (page_table bp) pid")
  case None
  with wf show ?thesis by (simp add: delete_page_def deallocate_page_def)
next
  case (Some f)
  show ?thesis
  proof (cases "pin_count (pages bp ! f) = 0")
    case False
    with Some wf show ?thesis by (simp add: delete_page_def)
  next
    case True
    let ?z = "\<lparr>page_id = mk_pid (pg_fd pid) INVALID_PAGE_ID, page_data = zero_buf, is_dirty = False, pin_count = 0\<rparr>"
    let ?b = "bp\<lparr>replacer := Lru_Replacer.pin f (replacer bp),
                 page_table := AList.delete pid (page_table bp), pages := (pages bp)[f := ?z],
                 free_list := free_list bp @ [f], disk := disk bp\<rparr>"
    have "(reset_memory (pages bp ! f))\<lparr>page_id := mk_pid (pg_fd pid) INVALID_PAGE_ID,
        is_dirty := False, pin_count := 0\<rparr> = ?z" by (simp add: reset_memory_def)
    then have eq: "snd (delete_page pid bp) = ?b"
      using Some True by (simp add: delete_page_def Let_def set_page_def deallocate_page_def)
    have f: "f < pool_size bp" "length (pages bp) = pool_size bp" "page_id (pages bp ! f) = pid"
      "pg_no pid \<noteq> INVALID_PAGE_ID"
      using bp_wfD(1,3,4,5) [OF wf] Some by auto
    have nf: "f \<notin> set (free_list bp)" using bp_wfD(8) [OF wf, of f] f by auto
    have tab: "map_of (AList.delete pid (page_table bp)) q = Some k \<longleftrightarrow>
        map_of (page_table bp) q = Some k \<and> k \<noteq> f" for q k
    proof -
      have "map_of (page_table bp) q \<noteq> Some f" if "q \<noteq> pid"
        using that bp_wfD(4) [OF wf, of q f] f(3) by blast
      with Some show ?thesis by (cases "q = pid") (auto simp: delete_conv')
    qed
    have lru: "set (lru_order (Lru_Replacer.pin f (replacer bp))) = set (lru_order (replacer bp)) - {f}"
      using lru.pin_evictable bp_wfD(9) [OF wf] .
    have pg: "pages ?b ! k = pages bp ! k" if "k \<noteq> f" for k using that by simp
    have pf: "pages ?b ! f = ?z" using f by simp
    show ?thesis
      unfolding eq
    proof (rule bp_wfI)
      show "k < pool_size ?b \<and> page_id (pages ?b ! k) = q \<and> pg_no q \<noteq> INVALID_PAGE_ID"
        if "map_of (page_table ?b) q = Some k" for q k
        using that tab [of q k] bp_wfD(3,4,5) [OF wf, of q k] pg [of k] by simp
      show "k < pool_size ?b \<and> pg_no (page_id (pages ?b ! k)) = INVALID_PAGE_ID"
        if "k \<in> set (free_list ?b)" for k
        using that bp_wfD(7,8) [OF wf, of k] pg [of k] pf f(1) by (cases "k = f") auto
      show "pin_count (pages ?b ! k) = 0 \<and> map_of (page_table ?b) (page_id (pages ?b ! k)) = Some k"
        if "k \<in> set (lru_order (replacer ?b))" for k
        using that lru bp_wfD(11,12) [OF wf, of k] pg [of k] tab [of "page_id (pages bp ! k)" k] by simp
      show "0 \<le> pin_count (pages ?b ! k)" if "k < pool_size ?b" for k
        using that bp_wfD(13) [OF wf, of k] pg [of k] pf by (cases "k = f") auto
    qed (use f nf bp_wfD(2,6,10,14) [OF wf] lru.pin_ok [OF bp_wfD(9) [OF wf]] in
        \<open>simp_all add: distinct_delete\<close>)
  qed
qed

lemma bp_wf_new_page:
  assumes wf: "bp_wf bp" and new: "map_of (page_table bp) (mk_pid fd (fd2pageno (disk bp) fd)) = None"
  shows "bp_wf (snd (new_page fd bp))"
  using wf
proof (cases rule: find_victim_page_cases)
  case none
  with wf show ?thesis by (simp add: new_page_def)
next
  case (some f bp1)
  obtain r dm where a: "allocate_page fd (disk bp1) = (r, dm)" by (cases "allocate_page fd (disk bp1)")
  have dm: "dm_inv dm" using dm_inv_allocate_page [OF bp_wfD(14) [OF some(2)], of fd] a by simp
  let ?b = "bp1\<lparr>disk := dm\<rparr>"
  have w: "bp_wf ?b" and d: "detached ?b f" and f: "f < pool_size bp1"
    using some dm by (auto simp: detached_def)
  show ?thesis
  proof (cases r)
    case (Inl e)
    with some(1) a w show ?thesis by (simp add: new_page_def on_disk_app)
  next
    case (Inr no)
    have no: "no = fd2pageno (disk bp) fd" using a Inr some(7) by (auto simp: allocate_page_def split: if_splits)
    have n: "map_of (page_table ?b) (mk_pid fd no) = None" using new some(6) no by simp
    from w d n show ?thesis
    proof (cases rule: update_page_cases)
      case (thrown e dm2)
      with some(1,2) a Inr show ?thesis by (simp add: new_page_def on_disk_app)
    next
      case (ok dm2)
      have "bp_wf (pin_frame f 1 ((installed f (mk_pid fd no) (evicted f ?b))\<lparr>disk := dm2\<rparr>))"
        using bp_wf_evict_install [OF w d n] ok(3) f by (intro bp_wf_pin_frame bp_wf_disk) auto
      with some(1) a Inr ok(1) show ?thesis by (simp add: new_page_def on_disk_app)
    qed
  qed
qed

section \<open>The pool as a transparent cache\<close>

text \<open>The logical contents of a page: the frame that holds it, otherwise the disk.\<close>

definition view :: "buffer_pool \<Rightarrow> PageId \<rightharpoonup> buf" where
  "view bp pid =
     (case map_of (page_table bp) pid of
        Some f \<Rightarrow> Some (page_data (pages bp ! f))
      | None \<Rightarrow> disk_page (disk bp) (pg_fd pid) (pg_no pid))"

definition pins :: "buffer_pool \<Rightarrow> PageId \<Rightarrow> int" where
  "pins bp pid = (case map_of (page_table bp) pid of Some f \<Rightarrow> pin_count (pages bp ! f) | None \<Rightarrow> 0)"

text \<open>Evicting the frame of a saved page loses nothing: it is dirty or equal to the disk.\<close>

definition saved :: "buffer_pool \<Rightarrow> PageId \<Rightarrow> bool" where
  "saved bp pid \<longleftrightarrow>
     (case map_of (page_table bp) pid of
        Some f \<Rightarrow> is_dirty (pages bp ! f) \<or>
                  disk_page (disk bp) (pg_fd pid) (pg_no pid) = Some (page_data (pages bp ! f))
      | None \<Rightarrow> True)"

definition bp_coh :: "buffer_pool \<Rightarrow> bool" where
  "bp_coh bp \<longleftrightarrow>
     no_faults (disk bp) \<and>
     (\<forall>f < pool_size bp. f \<in> set (free_list bp) \<or> (\<exists>pid. map_of (page_table bp) pid = Some f)) \<and>
     (\<forall>pid f. map_of (page_table bp) pid = Some f \<longrightarrow>
        fd2path (disk bp) (pg_fd pid) \<noteq> None \<and> 0 \<le> pg_no pid \<and>
        clip_page (page_data (pages bp ! f)) = page_data (pages bp ! f) \<and>
        (pin_count (pages bp ! f) = 0 \<longrightarrow> f \<in> set (lru_order (replacer bp)) \<and> saved bp pid))"

definition bp_ok :: "buffer_pool \<Rightarrow> bool" where
  "bp_ok bp \<longleftrightarrow> bp_wf bp \<and> bp_coh bp"

lemma bp_okD: "bp_ok bp \<Longrightarrow> bp_wf bp" "bp_ok bp \<Longrightarrow> bp_coh bp"
  by (simp_all add: bp_ok_def)

lemma bp_cohD:
  assumes "bp_coh bp"
  shows "no_faults (disk bp)"
    and "f < pool_size bp \<Longrightarrow> f \<in> set (free_list bp) \<or> (\<exists>pid. map_of (page_table bp) pid = Some f)"
    and "map_of (page_table bp) pid = Some f \<Longrightarrow> fd2path (disk bp) (pg_fd pid) \<noteq> None"
    and "map_of (page_table bp) pid = Some f \<Longrightarrow> 0 \<le> pg_no pid"
    and "map_of (page_table bp) pid = Some f \<Longrightarrow>
           clip_page (page_data (pages bp ! f)) = page_data (pages bp ! f)"
    and "map_of (page_table bp) pid = Some f \<Longrightarrow> pin_count (pages bp ! f) = 0 \<Longrightarrow>
           f \<in> set (lru_order (replacer bp))"
    and "map_of (page_table bp) pid = Some f \<Longrightarrow> pin_count (pages bp ! f) = 0 \<Longrightarrow> saved bp pid"
  using assms unfolding bp_coh_def by blast+

lemma bp_ok_new:
  "dm_inv dm \<Longrightarrow> no_faults dm \<Longrightarrow> bp_ok (new_BufferPoolManager fd0 n dm)"
  using bp_wf_new by (simp add: bp_ok_def bp_coh_def new_BufferPoolManager_def)

text \<open>
  The effect of loading page \<open>pid\<close> with contents \<open>d\<close> into the victim frame \<open>f\<close>: the frame's former
  page, if any, is on disk with the contents it had.
\<close>

definition loaded :: "buffer_pool \<Rightarrow> buffer_pool \<Rightarrow> frame_id \<Rightarrow> PageId \<Rightarrow> buf \<Rightarrow> bool" where
  "loaded bp bp' f pid d \<longleftrightarrow>
     pool_size bp' = pool_size bp \<and> f < pool_size bp \<and>
     (\<forall>k < pool_size bp. k \<noteq> f \<longrightarrow> pages bp' ! k = pages bp ! k) \<and>
     pages bp' ! f = \<lparr>page_id = pid, page_data = d, is_dirty = False, pin_count = 1\<rparr> \<and>
     (\<forall>q k. map_of (page_table bp') q = Some k \<longleftrightarrow>
        (if q = pid then k = f else map_of (page_table bp) q = Some k \<and> k \<noteq> f)) \<and>
     insert f (set (free_list bp') \<union> set (lru_order (replacer bp'))) =
       set (free_list bp) \<union> set (lru_order (replacer bp)) \<and>
     (\<forall>q. map_of (page_table bp) q = Some f \<longrightarrow> pin_count (pages bp ! f) = 0 \<and>
        disk_page (disk bp') (pg_fd q) (pg_no q) = Some (page_data (pages bp ! f))) \<and>
     (\<forall>q e. map_of (page_table bp) q \<noteq> Some f \<longrightarrow>
        disk_page (disk bp) (pg_fd q) (pg_no q) = Some e \<longrightarrow>
        disk_page (disk bp') (pg_fd q) (pg_no q) = Some e) \<and>
     no_faults (disk bp') \<and> fd2path (disk bp') = fd2path (disk bp) \<and>
     map_of (page_table bp) pid = None"

lemma loadedD:
  assumes "loaded bp bp' f pid d"
  shows "pool_size bp' = pool_size bp" and "f < pool_size bp"
    and "k < pool_size bp \<Longrightarrow> k \<noteq> f \<Longrightarrow> pages bp' ! k = pages bp ! k"
    and "pages bp' ! f = \<lparr>page_id = pid, page_data = d, is_dirty = False, pin_count = 1\<rparr>"
    and "map_of (page_table bp') q = Some k \<longleftrightarrow>
        (if q = pid then k = f else map_of (page_table bp) q = Some k \<and> k \<noteq> f)"
    and "insert f (set (free_list bp') \<union> set (lru_order (replacer bp'))) =
       set (free_list bp) \<union> set (lru_order (replacer bp))"
    and "map_of (page_table bp) q = Some f \<Longrightarrow> pin_count (pages bp ! f) = 0"
    and "map_of (page_table bp) q = Some f \<Longrightarrow>
       disk_page (disk bp') (pg_fd q) (pg_no q) = Some (page_data (pages bp ! f))"
    and "map_of (page_table bp) q \<noteq> Some f \<Longrightarrow> disk_page (disk bp) (pg_fd q) (pg_no q) = Some e \<Longrightarrow>
       disk_page (disk bp') (pg_fd q) (pg_no q) = Some e"
    and "no_faults (disk bp')" and "fd2path (disk bp') = fd2path (disk bp)"
    and "map_of (page_table bp) pid = None"
  using assms unfolding loaded_def by blast+

lemma loaded_table:
  assumes "loaded bp bp' f pid d"
  shows "map_of (page_table bp') q =
    (if q = pid then Some f else if map_of (page_table bp) q = Some f then None
     else map_of (page_table bp) q)"
proof (cases "map_of (page_table bp') q")
  case None
  then have no: "\<not> (if q = pid then k = f else map_of (page_table bp) q = Some k \<and> k \<noteq> f)" for k
    using loadedD(5) [OF assms, of q k] by simp
  from no [of f] have "q \<noteq> pid" by auto
  with None no [of "the (map_of (page_table bp) q)"] show ?thesis
    by (cases "map_of (page_table bp) q") auto
next
  case (Some k)
  then show ?thesis using loadedD(5) [OF assms, of q k] by (simp split: if_splits)
qed

lemma loaded_view:
  assumes wf: "bp_wf bp" and l: "loaded bp bp' f pid d" and "q \<noteq> pid" and "view bp q = Some e"
  shows "view bp' q = Some e"
proof (cases "map_of (page_table bp) q")
  case None
  with assms(3,4) loadedD(9) [OF l, of q e] show ?thesis by (simp add: view_def loaded_table [OF l])
next
  case (Some k)
  show ?thesis
  proof (cases "k = f")
    case True
    with assms(3,4) Some loadedD(8) [OF l, of q] show ?thesis by (simp add: view_def loaded_table [OF l])
  next
    case False
    with assms(3,4) Some loadedD(3) [OF l, of k] bp_wfD(3) [OF wf Some] show ?thesis
      by (simp add: view_def loaded_table [OF l])
  qed
qed

lemma loaded_view_page: "loaded bp bp' f pid d \<Longrightarrow> view bp' pid = Some d"
  by (simp add: view_def loaded_table loadedD(4))

lemma loaded_saved:
  "loaded bp bp' f pid d \<Longrightarrow> disk_page (disk bp') (pg_fd pid) (pg_no pid) = Some d \<Longrightarrow> saved bp' pid"
  by (simp add: saved_def loaded_table loadedD(4))

lemma loaded_pins:
  assumes wf: "bp_wf bp" and l: "loaded bp bp' f pid d"
  shows "pins bp' = (pins bp)(pid := 1)"
proof (rule ext)
  fix q
  show "pins bp' q = ((pins bp)(pid := 1)) q"
  proof (cases "map_of (page_table bp) q")
    case None
    then show ?thesis by (simp add: pins_def loaded_table [OF l] loadedD(4) [OF l])
  next
    case (Some k)
    then show ?thesis using loadedD(7) [OF l, of q] loadedD(3) [OF l, of k] bp_wfD(3) [OF wf Some]
      by (simp add: pins_def loaded_table [OF l] loadedD(4) [OF l])
  qed
qed

lemma loaded_coh:
  assumes wf: "bp_wf bp" and wf': "bp_wf bp'" and coh: "bp_coh bp" and l: "loaded bp bp' f pid d"
    and "fd2path (disk bp) (pg_fd pid) \<noteq> None" and "0 \<le> pg_no pid" and "clip_page d = d"
  shows "bp_coh bp'"
  unfolding bp_coh_def
proof (intro conjI allI impI)
  show "no_faults (disk bp')" by (rule loadedD(10) [OF l])
  show "k \<in> set (free_list bp') \<or> (\<exists>q. map_of (page_table bp') q = Some k)" if "k < pool_size bp'" for k
  proof (cases "k = f")
    case True
    then show ?thesis using loaded_table [OF l, of pid] by auto
  next
    case False
    from that coh loadedD(1) [OF l] consider "k \<in> set (free_list bp)"
      | q where "map_of (page_table bp) q = Some k" by (metis bp_cohD(2))
    then show ?thesis
    proof cases
      case 1
      then have "k \<in> set (free_list bp') \<union> set (lru_order (replacer bp'))"
        using loadedD(6) [OF l] False by auto
      then show ?thesis using bp_wfD(12) [OF wf', of k] by blast
    next
      case 2
      moreover from 2 have "q \<noteq> pid" using loadedD(12) [OF l] by auto
      ultimately have "map_of (page_table bp') q = Some k" using False by (simp add: loaded_table [OF l])
      then show ?thesis by blast
    qed
  qed
next
  fix q k assume m: "map_of (page_table bp') q = Some k"
  have cases: "q = pid \<and> k = f \<or> q \<noteq> pid \<and> map_of (page_table bp) q = Some k \<and> k \<noteq> f"
    using m loadedD(5) [OF l, of q k] by (auto split: if_splits)
  then have old: "pages bp' ! k = pages bp ! k" if "q \<noteq> pid"
    using that loadedD(3) [OF l, of k] bp_wfD(3) [OF wf, of q k] by blast
  show "fd2path (disk bp') (pg_fd q) \<noteq> None"
    using cases assms(5) bp_cohD(3) [OF coh, of q k] loadedD(11) [OF l] by auto
  show "0 \<le> pg_no q" using cases assms(6) bp_cohD(4) [OF coh, of q k] by auto
  show "clip_page (page_data (pages bp' ! k)) = page_data (pages bp' ! k)"
    using cases assms(7) bp_cohD(5) [OF coh, of q k] loadedD(4) [OF l] old by auto
  assume p: "pin_count (pages bp' ! k) = 0"
  then have qk: "q \<noteq> pid" "map_of (page_table bp) q = Some k" "k \<noteq> f"
    using cases loadedD(4) [OF l] by auto
  note pg = old [OF qk(1)]
  have "k \<in> set (lru_order (replacer bp))" using bp_cohD(6) [OF coh qk(2)] p pg by simp
  then have "k \<in> set (free_list bp') \<union> set (lru_order (replacer bp'))"
    using loadedD(6) [OF l] qk(3) by auto
  moreover have "k \<notin> set (free_list bp')"
    using bp_wfD(8) [OF wf', of k] bp_wfD(4,5) [OF wf' m] by auto
  ultimately show "k \<in> set (lru_order (replacer bp'))" by simp
  have "saved bp q" using bp_cohD(7) [OF coh qk(2)] p pg by simp
  then show "saved bp' q"
    using m qk pg loadedD(9) [OF l, of q] by (auto simp: saved_def)
qed

text \<open>Writing back and evicting the victim, and loading the new page.\<close>

lemma writeback_ok:
  assumes wf: "bp_wf bp" and d: "detached bp f" and nf: "no_faults (disk bp)"
    and m: "\<And>pid. map_of (page_table bp) pid = Some f \<Longrightarrow>
      fd2path (disk bp) (pg_fd pid) \<noteq> None \<and> 0 \<le> pg_no pid \<and>
      clip_page (page_data (pages bp ! f)) = page_data (pages bp ! f) \<and> saved bp pid"
  obtains dm where "writeback f bp = (Inr (), bp\<lparr>disk := dm\<rparr>)" and "dm_inv dm" and "same_tables (disk bp) dm"
    and "\<And>q. map_of (page_table bp) q = Some f \<Longrightarrow>
      disk_page dm (pg_fd q) (pg_no q) = Some (page_data (pages bp ! f))"
    and "\<And>q e. map_of (page_table bp) q \<noteq> Some f \<Longrightarrow>
      disk_page (disk bp) (pg_fd q) (pg_no q) = Some e \<Longrightarrow> disk_page dm (pg_fd q) (pg_no q) = Some e"
proof -
  let ?pg = "pages bp ! f"
  have inv: "dm_inv (disk bp)" using bp_wfD(14) [OF wf] .
  have uniq: "map_of (page_table bp) q = Some f \<Longrightarrow> page_id ?pg = q" for q by (rule bp_wfD(4) [OF wf])
  show thesis
  proof (cases "pg_no (page_id ?pg) \<noteq> INVALID_PAGE_ID \<and> is_dirty ?pg")
    case True
    have mf: "map_of (page_table bp) (page_id ?pg) = Some f" using d True by (simp add: detached_def)
    then obtain p where p: "fd2path (disk bp) (pg_fd (page_id ?pg)) = Some p" using m by blast
    have no: "0 \<le> pg_no (page_id ?pg)" using m mf by blast
    obtain dm where dm: "write_page (pg_fd (page_id ?pg)) (pg_no (page_id ?pg)) (page_data ?pg) PAGE_SIZE (disk bp) = (Inr (), dm)"
      "disk_page dm (pg_fd (page_id ?pg)) (pg_no (page_id ?pg)) = Some (clip_page (page_data ?pg))"
      and oth: "\<And>fd' no' e. disk_page (disk bp) fd' no' = Some e \<Longrightarrow>
        (fd', no') \<noteq> (pg_fd (page_id ?pg), pg_no (page_id ?pg)) \<Longrightarrow> disk_page dm fd' no' = Some e"
      by (rule write_page_ok [OF inv p no nf, of "page_data ?pg"]) blast
    show thesis
    proof (rule that [of dm])
      show "writeback f bp = (Inr (), bp\<lparr>disk := dm\<rparr>)" using True dm(1) by (simp add: writeback_def on_disk_app)
      show "dm_inv dm" using dm_inv_write_page [OF inv] dm(1) by (metis snd_conv)
      show "same_tables (disk bp) dm" using same_tables_write_page dm(1) by (metis snd_conv)
      show "disk_page dm (pg_fd q) (pg_no q) = Some (page_data ?pg)" if "map_of (page_table bp) q = Some f" for q
        using uniq [OF that] m [OF that] dm(2) by simp
      show "disk_page dm (pg_fd q) (pg_no q) = Some e" if "map_of (page_table bp) q \<noteq> Some f"
        "disk_page (disk bp) (pg_fd q) (pg_no q) = Some e" for q e
      proof (rule oth [OF that(2)])
        show "(pg_fd q, pg_no q) \<noteq> (pg_fd (page_id ?pg), pg_no (page_id ?pg))"
          using that(1) mf by (metis PageId.equality old.unit.exhaust prod.inject)
      qed
    qed
  next
    case False
    show thesis
    proof (rule that [of "disk bp"])
      show "writeback f bp = (Inr (), bp\<lparr>disk := disk bp\<rparr>)" using False by (auto simp: writeback_def)
      show "disk_page (disk bp) (pg_fd q) (pg_no q) = Some (page_data ?pg)"
        if "map_of (page_table bp) q = Some f" for q
        using False uniq [OF that] bp_wfD(5) [OF wf that] m [OF that] that by (simp add: saved_def)
    qed (use inv in auto)
  qed
qed

lemma detached_set_pin:
  "lru_inv (replacer bp) \<Longrightarrow> f \<notin> set (lru_order (replacer bp)) \<Longrightarrow>
     set (lru_order (replacer (pin_frame f c bp))) = set (lru_order (replacer bp))"
  by (simp add: pin_frame_def lru_order_pin remove1_idem)

lemma pin_frame_simps [simp]:
  "pool_size (pin_frame f c bp) = pool_size bp" "page_table (pin_frame f c bp) = page_table bp"
  "free_list (pin_frame f c bp) = free_list bp" "disk (pin_frame f c bp) = disk bp"
  "length (pages (pin_frame f c bp)) = length (pages bp)"
  "replacer (pin_frame f c bp) = Lru_Replacer.pin f (replacer bp)"
  by (simp_all add: pin_frame_def)

lemma pages_pin_frame:
  "k < length (pages bp) \<Longrightarrow>
     pages (pin_frame f c bp) ! k = (if k = f then (pages bp ! f)\<lparr>pin_count := c\<rparr> else pages bp ! k)"
  by (simp add: pin_frame_def pages_set_page)

lemma evict_load:
  assumes ok: "bp_ok bp" and new: "map_of (page_table bp) pid = None" and no: "pg_no pid \<noteq> INVALID_PAGE_ID"
    and v: "find_victim_page bp = (Some f, bp1)"
    and dm0: "dm_inv dm0" "disk_page dm0 = disk_page (disk bp)" "fd2path dm0 = fd2path (disk bp)" "no_faults dm0"
  obtains dm where "update_page f pid f (bp1\<lparr>disk := dm0\<rparr>) = (Inr (), (installed f pid (evicted f bp1))\<lparr>disk := dm\<rparr>)"
    and "bp_wf ((installed f pid (evicted f bp1))\<lparr>disk := dm\<rparr>)" and "same_tables dm0 dm"
    and "f < length (pages bp1)" and "length (pages bp1) = pool_size bp"
    and "\<And>q e. disk_page (disk bp) (pg_fd q) (pg_no q) = Some e \<Longrightarrow> map_of (page_table bp) q \<noteq> Some f \<Longrightarrow>
      disk_page dm (pg_fd q) (pg_no q) = Some e"
    and "\<And>d dm2. disk_page dm2 = disk_page dm \<Longrightarrow> fd2path dm2 = fd2path dm \<Longrightarrow> no_faults dm2 \<Longrightarrow>
      loaded bp (pin_frame f 1 (set_page f (\<lambda>p. p\<lparr>page_data := d\<rparr>)
        ((installed f pid (evicted f bp1))\<lparr>disk := dm2\<rparr>))) f pid d"
proof -
  note wf = bp_okD(1) [OF ok] and coh = bp_okD(2) [OF ok]
  from wf v obtain b: "bp_wf bp1" "detached bp1 f" "pool_size bp1 = pool_size bp" "pages bp1 = pages bp"
      "page_table bp1 = page_table bp" "insert f (set (free_list bp1) \<union> set (lru_order (replacer bp1))) =
         set (free_list bp) \<union> set (lru_order (replacer bp))"
    by (cases rule: find_victim_page_cases) auto
  let ?b = "bp1\<lparr>disk := dm0\<rparr>"
  have w: "bp_wf ?b" and d: "detached ?b f" using b dm0(1) by simp_all
  have len: "length (pages bp1) = pool_size bp" using bp_wfD(1) [OF wf] b by simp
  have f: "f < pool_size bp" "f \<notin> set (free_list bp1)" "f \<notin> set (lru_order (replacer bp1))"
    using b by (auto simp: detached_def)
  have pc0: "pin_count (pages bp ! f) = 0" if "map_of (page_table bp) q = Some f" for q
    using that b(2,4,5) bp_wfD(4,5) [OF wf that] by (auto simp: detached_def)
  have m: "fd2path (disk ?b) (pg_fd q) \<noteq> None \<and> 0 \<le> pg_no q \<and>
      clip_page (page_data (pages ?b ! f)) = page_data (pages ?b ! f) \<and> saved ?b q"
    if "map_of (page_table ?b) q = Some f" for q
  proof -
    have q: "map_of (page_table bp) q = Some f" using that b by simp
    have "saved bp q" using bp_cohD(7) [OF coh q pc0 [OF q]] .
    then have "saved ?b q" using q b dm0(2) by (simp add: saved_def)
    then show ?thesis using bp_cohD(3,4,5) [OF coh q] b dm0(3) by simp
  qed
  obtain dm where dm: "writeback f ?b = (Inr (), ?b\<lparr>disk := dm\<rparr>)" "dm_inv dm" "same_tables dm0 dm"
    and on: "\<And>q. map_of (page_table bp1) q = Some f \<Longrightarrow>
      disk_page dm (pg_fd q) (pg_no q) = Some (page_data (pages bp1 ! f))"
    and oth: "\<And>q e. map_of (page_table bp1) q \<noteq> Some f \<Longrightarrow>
      disk_page (disk bp) (pg_fd q) (pg_no q) = Some e \<Longrightarrow> disk_page dm (pg_fd q) (pg_no q) = Some e"
    using w d _ m by (rule writeback_ok) (use dm0 in auto)
  let ?i = "installed f pid (evicted f bp1)"
  have tab: "map_of (page_table ?i) q = Some k \<longleftrightarrow>
      (if q = pid then k = f else map_of (page_table bp) q = Some k \<and> k \<noteq> f)" for q k
    using table_evicted [OF b(1,2), of q k] no b(5) by (auto simp: table_installed)
  have "loaded bp (pin_frame f 1 (set_page f (\<lambda>p. p\<lparr>page_data := d\<rparr>) (?i\<lparr>disk := dm2\<rparr>))) f pid d"
    if "disk_page dm2 = disk_page dm" "fd2path dm2 = fd2path dm" "no_faults dm2" for d dm2
    unfolding loaded_def
  proof (intro conjI allI impI)
    let ?F = "pin_frame f 1 (set_page f (\<lambda>p. p\<lparr>page_data := d\<rparr>) (?i\<lparr>disk := dm2\<rparr>))"
    show "map_of (page_table ?F) q = Some k \<longleftrightarrow>
      (if q = pid then k = f else map_of (page_table bp) q = Some k \<and> k \<noteq> f)" for q k
      using tab by simp
    show "insert f (set (free_list ?F) \<union> set (lru_order (replacer ?F))) =
        set (free_list bp) \<union> set (lru_order (replacer bp))"
      using b(6) lru_order_pin [OF bp_wfD(9) [OF b(1)], of f] f(3) by (simp add: remove1_idem)
    show "fd2path (disk ?F) = fd2path (disk bp)" using that(2) dm(3) dm0(3) by (simp add: same_tables_def)
  qed (use that f len b pc0 on oth new no in \<open>auto simp: pages_pin_frame pages_set_page pages_installed\<close>)
  moreover have "bp_wf (?i\<lparr>disk := dm\<rparr>)"
    using bp_wf_evict_install [OF b(1,2)] new b(5) dm(2) by simp
  moreover have "update_page f pid f ?b = (Inr (), ?i\<lparr>disk := dm\<rparr>)"
    using dm(1) by (simp add: update_page_alt)
  ultimately show thesis using that [of dm] dm(3) f(1) len oth b(5) by metis
qed

text \<open>The frames that can be taken: none of them when every frame is pinned.\<close>

lemma victim_available:
  assumes wf: "bp_wf bp" and "free_list bp \<noteq> [] \<or> set (lru_order (replacer bp)) \<noteq> {}"
  obtains f bp1 where "find_victim_page bp = (Some f, bp1)" and "disk bp1 = disk bp"
  using wf by (cases rule: find_victim_page_cases) (use assms(2) in auto)

lemma room_for_page:
  assumes ok: "bp_ok bp" and card: "card {q. 0 < pins bp q} < pool_size bp"
  shows "free_list bp \<noteq> [] \<or> set (lru_order (replacer bp)) \<noteq> {}"
proof (rule ccontr)
  assume "\<not> ?thesis"
  then have e: "free_list bp = []" "set (lru_order (replacer bp)) = {}" by auto
  note wf = bp_okD(1) [OF ok] and coh = bp_okD(2) [OF ok]
  have "{..<pool_size bp} \<subseteq> (\<lambda>q. the (map_of (page_table bp) q)) ` {q. 0 < pins bp q}"
  proof
    fix k assume "k \<in> {..<pool_size bp}"
    then have k: "k < pool_size bp" by simp
    with e(1) obtain q where q: "map_of (page_table bp) q = Some k" using bp_cohD(2) [OF coh, of k] by auto
    have "pin_count (pages bp ! k) \<noteq> 0" using bp_cohD(6) [OF coh q] e(2) by auto
    with bp_wfD(13) [OF wf k] q have "0 < pins bp q" by (simp add: pins_def)
    with q show "k \<in> (\<lambda>q. the (map_of (page_table bp) q)) ` {q. 0 < pins bp q}" by force
  qed
  moreover have "finite {q. 0 < pins bp q}"
    by (rule finite_subset [of _ "fst ` set (page_table bp)"])
      (auto simp: pins_def split: option.splits dest!: map_of_SomeD intro!: image_eqI)
  ultimately have "pool_size bp \<le> card {q. 0 < pins bp q}"
    by (metis card_image_le card_lessThan card_mono finite_imageI le_trans)
  with card show False by simp
qed

lemma fetch_page_miss:
  assumes ok: "bp_ok bp" and new: "map_of (page_table bp) pid = None" and vw: "view bp pid = Some d"
    and room: "free_list bp \<noteq> [] \<or> set (lru_order (replacer bp)) \<noteq> {}"
  obtains f bp' where "fetch_page pid bp = (Inr (Some f), bp')" and "loaded bp bp' f pid d"
    and "same_tables (disk bp) (disk bp')" and "saved bp' pid" and "bp_ok bp'"
proof -
  note wf = bp_okD(1) [OF ok] and coh = bp_okD(2) [OF ok]
  have dk: "disk_page (disk bp) (pg_fd pid) (pg_no pid) = Some d" using vw new by (simp add: view_def)
  then have no: "0 \<le> pg_no pid" and op: "fd2path (disk bp) (pg_fd pid) \<noteq> None"
    by (auto simp: disk_page_def split: option.splits node.splits if_splits)
  from no have ni: "pg_no pid \<noteq> INVALID_PAGE_ID" by simp
  obtain f bp1 where v: "find_victim_page bp = (Some f, bp1)" "disk bp1 = disk bp"
    using wf room by (rule victim_available)
  have b1: "bp1\<lparr>disk := disk bp\<rparr> = bp1" using v(2) by (metis buffer_pool.surjective buffer_pool.update_convs(6))
  let ?i = "installed f pid (evicted f bp1)"
  obtain dm where up: "update_page f pid f bp1 = (Inr (), ?i\<lparr>disk := dm\<rparr>)" and w: "bp_wf (?i\<lparr>disk := dm\<rparr>)"
    and st: "same_tables (disk bp) dm" and f: "f < length (pages bp1)" "length (pages bp1) = pool_size bp"
    and keep: "\<And>q e. disk_page (disk bp) (pg_fd q) (pg_no q) = Some e \<Longrightarrow>
       map_of (page_table bp) q \<noteq> Some f \<Longrightarrow> disk_page dm (pg_fd q) (pg_no q) = Some e"
    and ld: "\<And>d dm2. disk_page dm2 = disk_page dm \<Longrightarrow> fd2path dm2 = fd2path dm \<Longrightarrow> no_faults dm2 \<Longrightarrow>
      loaded bp (pin_frame f 1 (set_page f (\<lambda>p. p\<lparr>page_data := d\<rparr>) (?i\<lparr>disk := dm2\<rparr>))) f pid d"
    using evict_load [OF ok new ni v(1) bp_wfD(14) [OF wf] refl refl bp_cohD(1) [OF coh]] b1 by metis
  have nf: "no_faults dm" using st bp_cohD(1) [OF coh] by (simp add: same_tables_def no_faults_def)
  have dk2: "disk_page dm (pg_fd pid) (pg_no pid) = Some d" using keep [OF dk] new by simp
  obtain dm2 where rd: "read_page (pg_fd pid) (pg_no pid) zero_buf PAGE_SIZE dm =
      (Inr (), (\<lambda>i. if i < PAGE_SIZE then d i else zero_buf i), dm2)" and dm2: "disk_page dm2 = disk_page dm"
    by (rule read_page_ok [OF _ dk2 nf, of zero_buf]) (use bp_wfD(14) [OF w] in auto)
  have clip: "(\<lambda>i. if i < PAGE_SIZE then d i else zero_buf i) = d"
    using disk_page_clipped [OF dk] unfolding clip_page_def zero_buf_def .
  have z: "page_data (pages ?i ! f) = zero_buf" using f by (simp add: pages_installed)
  have st2: "same_tables dm dm2"
    using same_tables_read_page [of dm "pg_fd pid" "pg_no pid" zero_buf PAGE_SIZE] rd by simp
  let ?r = "set_page f (\<lambda>p. p\<lparr>page_data := d\<rparr>) (?i\<lparr>disk := dm2\<rparr>)"
  have ri: "read_into f pid (?i\<lparr>disk := dm\<rparr>) = (Inr (), ?r)"
    using rd z clip by (simp add: read_into_def)
  have F: "fetch_page pid bp = (Inr (Some f), pin_frame f 1 ?r)"
    using new v(1) up ri by (simp add: fetch_page_def)
  have L: "loaded bp (pin_frame f 1 ?r) f pid d"
    using st2 nf by (intro ld dm2) (simp_all add: same_tables_def no_faults_def)
  have "bp_wf (pin_frame f 1 ?r)" using bp_wf_fetch_page [OF wf, of pid] F by simp
  with loaded_coh [OF wf _ coh L op no disk_page_clipped [OF dk]] have K: "bp_ok (pin_frame f 1 ?r)"
    by (simp add: bp_ok_def)
  have "saved (pin_frame f 1 ?r) pid"
    using dk2 dm2 by (intro loaded_saved [OF L]) simp
  with F L K show thesis using that same_tables_trans [OF st st2] by simp
qed

end
