(* ===== verification/Page_Cache.thy ===== *)
theory Page_Cache
  imports Buffer_Pool
begin

text \<open>
  What the clients of the buffer pool rely on. The operations of \<open>Buffer_Pool\<close> are related to
  \<open>view\<close> (contents), \<open>pins\<close> (pin counts) and \<open>cached\<close> (resident pages); the locale \<open>page_cache\<close>
  states the laws of one page access, derives the read access (fetch, look, unpin) and the write
  access (fetch, store, unpin dirty) from them, and is interpreted on the pool.
\<close>

definition cached :: "buffer_pool \<Rightarrow> PageId set" where
  "cached bp = dom (map_of (page_table bp))"

text \<open>The tables of the disk manager a page access leaves alone.\<close>

definition tables :: "buffer_pool \<Rightarrow> (string \<rightharpoonup> int) \<times> (int \<rightharpoonup> string) \<times> int \<times> (int \<Rightarrow> int)" where
  "tables bp = (path2fd (disk bp), fd2path (disk bp), log_fd (disk bp), fd2pageno (disk bp))"

lemma tables_same: "same_tables (disk bp) (disk bp') \<Longrightarrow> tables bp' = tables bp"
  by (simp add: tables_def same_tables_def)

lemma view_cong:
  "page_table bp' = page_table bp \<Longrightarrow> disk bp' = disk bp \<Longrightarrow>
     (\<And>k. page_data (pages bp' ! k) = page_data (pages bp ! k)) \<Longrightarrow> view bp' = view bp"
  by (rule ext) (simp add: view_def split: option.splits)

section \<open>The laws of the operations\<close>

lemma bp_ok_cong_frame:
  assumes ok: "bp_ok bp" and m: "map_of (page_table bp) pid = Some f"
    and pg: "page_id (g (pages bp ! f)) = page_id (pages bp ! f)" "0 < pin_count (g (pages bp ! f))"
      "clip_page (page_data (g (pages bp ! f))) = page_data (g (pages bp ! f))"
    and r: "lru_inv r" "max_size r = pool_size bp" "set (lru_order r) = set (lru_order (replacer bp)) - {f}"
  shows "bp_ok ((set_page f g bp)\<lparr>replacer := r\<rparr>)"
proof -
  note wf = bp_okD(1) [OF ok] and coh = bp_okD(2) [OF ok]
  let ?b = "(set_page f g bp)\<lparr>replacer := r\<rparr>"
  have f: "f < pool_size bp" "length (pages bp) = pool_size bp" using bp_wfD(1,3) [OF wf] m by auto
  have pf: "pages ?b ! f = g (pages bp ! f)" using f by (simp add: pages_set_page)
  have po: "pages ?b ! k = pages bp ! k" if "k \<noteq> f" for k using that by (simp add: set_page_def)
  have uniq: "q = pid" if "map_of (page_table bp) q = Some f" for q
    using bp_wfD(4) [OF wf] that m by metis
  have id: "page_id (pages ?b ! k) = page_id (pages bp ! k)" for k
    using pf po pg(1) by (cases "k = f") auto
  have "bp_wf ?b"
  proof (rule bp_wfI)
    show "k < pool_size ?b \<and> page_id (pages ?b ! k) = q \<and> pg_no q \<noteq> INVALID_PAGE_ID"
      if "map_of (page_table ?b) q = Some k" for q k
      using that bp_wfD(3,4,5) [OF wf, of q k] unfolding id by simp
    show "k < pool_size ?b \<and> pg_no (page_id (pages ?b ! k)) = INVALID_PAGE_ID"
      if "k \<in> set (free_list ?b)" for k
      using that bp_wfD(7,8) [OF wf, of k] unfolding id by simp
    show "pin_count (pages ?b ! k) = 0 \<and> map_of (page_table ?b) (page_id (pages ?b ! k)) = Some k"
      if "k \<in> set (lru_order (replacer ?b))" for k
      using that r(3) po [of k] bp_wfD(11,12) [OF wf, of k] by simp
    show "0 \<le> pin_count (pages ?b ! k)" if "k < pool_size ?b" for k
      using that po [of k] pf pg(2) bp_wfD(13) [OF wf, of k] by (cases "k = f") auto
  qed (use f r bp_wfD(2,6,14) [OF wf] in simp_all)
  moreover have "bp_coh ?b"
    unfolding bp_coh_def
  proof (intro conjI allI impI)
    fix q k assume q: "map_of (page_table ?b) q = Some k"
    then have q': "map_of (page_table bp) q = Some k" by simp
    show "fd2path (disk ?b) (pg_fd q) \<noteq> None" "0 \<le> pg_no q" using bp_cohD(3,4) [OF coh q'] by simp_all
    show "clip_page (page_data (pages ?b ! k)) = page_data (pages ?b ! k)"
      using bp_cohD(5) [OF coh q'] pf po [of k] pg(3) by (cases "k = f") auto
    assume p: "pin_count (pages ?b ! k) = 0"
    then have kf: "k \<noteq> f" using pf pg(2) by auto
    then have "pages ?b ! k = pages bp ! k" by (rule po)
    with p bp_cohD(6,7) [OF coh q'] have "k \<in> set (lru_order (replacer bp))" and s: "saved bp q" by auto
    with kf r(3) show "k \<in> set (lru_order (replacer ?b))" by simp
    from s q' po [OF kf] show "saved ?b q" by (simp add: saved_def)
  qed (use bp_cohD(1,2) [OF coh] in simp_all)
  ultimately show ?thesis by (simp add: bp_ok_def)
qed

text \<open>\<^verbatim>\<open>fetch_page\<close>: the page comes back pinned and with its logical contents.\<close>

lemma fetch_page_ok:
  assumes ok: "bp_ok bp" and vw: "view bp pid = Some d" and room: "card {q. 0 < pins bp q} < pool_size bp"
  obtains f bp' where "fetch_page pid bp = (Inr (Some f), bp')" "bp_ok bp'" "view bp \<subseteq>\<^sub>m view bp'"
    "pins bp' = (pins bp)(pid := pins bp pid + 1)" "map_of (page_table bp') pid = Some f" "get_data bp' f = d"
    "tables bp' = tables bp" "pool_size bp' = pool_size bp" "cached bp' \<subseteq> insert pid (cached bp)"
    "pins bp pid = 0 \<longrightarrow> saved bp' pid"
proof (cases "map_of (page_table bp) pid")
  case None
  obtain f bp' where F: "fetch_page pid bp = (Inr (Some f), bp')" and L: "loaded bp bp' f pid d"
    and st: "same_tables (disk bp) (disk bp')" and sv: "saved bp' pid" and ok': "bp_ok bp'"
    by (rule fetch_page_miss [OF ok None vw room_for_page [OF ok room]])
  note wf = bp_okD(1) [OF ok]
  have p0: "pins bp pid = 0" using None by (simp add: pins_def)
  show thesis
  proof (rule that [OF F ok'])
    have "view bp' q = Some e" if "view bp q = Some e" for q e
      using loaded_view [OF wf L _ that] loaded_view_page [OF L] vw that by (cases "q = pid") auto
    then show "view bp \<subseteq>\<^sub>m view bp'" by (auto simp: map_le_def dom_def)
    show "pins bp' = (pins bp)(pid := pins bp pid + 1)" using loaded_pins [OF wf L] p0 by simp
    show "map_of (page_table bp') pid = Some f" "get_data bp' f = d"
      by (simp_all add: loaded_table [OF L] loadedD(4) [OF L] get_data_def)
    show "tables bp' = tables bp" by (rule tables_same [OF st])
    show "pool_size bp' = pool_size bp" by (rule loadedD(1) [OF L])
    show "cached bp' \<subseteq> insert pid (cached bp)"
      by (auto simp: cached_def loaded_table [OF L] dom_def split: if_splits)
    show "pins bp pid = 0 \<longrightarrow> saved bp' pid" using sv by simp
  qed
next
  case (Some f)
  note wf = bp_okD(1) [OF ok] and coh = bp_okD(2) [OF ok]
  have f: "f < pool_size bp" "length (pages bp) = pool_size bp" using bp_wfD(1,3) [OF wf] Some by auto
  let ?c = "pin_count (pages bp ! f) + 1"
  let ?b = "pin_frame f ?c bp"
  have pd: "page_data (pages (pin_frame f c bp) ! k) = page_data (pages bp ! k)"
    "is_dirty (pages (pin_frame f c bp) ! k) = is_dirty (pages bp ! k)" for c k
    by (cases "k = f") (auto simp: pin_frame_def set_page_def nth_list_update f)
  have uniq: "q = pid" if "map_of (page_table bp) q = Some f" for q
    using bp_wfD(4) [OF wf] that Some by metis
  show thesis
  proof (rule that [of f ?b])
    show "fetch_page pid bp = (Inr (Some f), ?b)" using Some by (simp add: fetch_page_def)
    show "bp_ok ?b" unfolding pin_frame_def
      using bp_wfD(13) [OF wf f(1)] bp_cohD(5) [OF coh Some] bp_wfD(10) [OF wf]
        lru.pin_ok [OF bp_wfD(9) [OF wf]] lru.pin_evictable [OF bp_wfD(9) [OF wf]]
      by (intro bp_ok_cong_frame [OF ok Some]) auto
    have "view ?b = view bp" by (rule ext) (simp add: view_def pd cong: option.case_cong)
    then show "view bp \<subseteq>\<^sub>m view ?b" by simp
    show "pins ?b = (pins bp)(pid := pins bp pid + 1)"
    proof (rule ext)
      fix q show "pins ?b q = ((pins bp)(pid := pins bp pid + 1)) q"
        using Some uniq [of q] bp_wfD(3) [OF wf, of q] f
        by (cases "map_of (page_table bp) q") (auto simp: pins_def pages_pin_frame)
    qed
    show "get_data ?b f = d" using vw Some by (simp add: view_def get_data_def pd)
    show "pins bp pid = 0 \<longrightarrow> saved ?b pid"
      using bp_cohD(7) [OF coh Some] Some by (simp add: saved_def pins_def pd)
  qed (use Some in \<open>auto simp: tables_def cached_def\<close>)
qed

text \<open>A store into a pinned page.\<close>

lemma set_data_simps [simp]:
  "page_table (set_data f d bp) = page_table bp" "disk (set_data f d bp) = disk bp"
  "pool_size (set_data f d bp) = pool_size bp" "length (pages (set_data f d bp)) = length (pages bp)"
  "tables (set_data f d bp) = tables bp" "cached (set_data f d bp) = cached bp"
  by (simp_all add: set_data_def tables_def cached_def)

lemma set_data_ok:
  assumes ok: "bp_ok bp" and m: "map_of (page_table bp) pid = Some f" and p: "0 < pins bp pid"
  shows "bp_ok (set_data f d bp)" and "view (set_data f d bp) = (view bp)(pid \<mapsto> clip_page d)"
    and "pins (set_data f d bp) = pins bp"
proof -
  note wf = bp_okD(1) [OF ok]
  have f: "f < pool_size bp" "length (pages bp) = pool_size bp" using bp_wfD(1,3) [OF wf] m by auto
  have pc: "0 < pin_count (pages bp ! f)" using m p by (simp add: pins_def)
  have nl: "f \<notin> set (lru_order (replacer bp))" using bp_wfD(11) [OF wf, of f] pc by auto
  have uniq: "q = pid" if "map_of (page_table bp) q = Some f" for q
    using bp_wfD(4) [OF wf] that m by metis
  have b: "set_data f d bp = (set_page f (\<lambda>p. p\<lparr>page_data := clip_page d\<rparr>) bp)\<lparr>replacer := replacer bp\<rparr>"
    by (simp add: set_data_def set_page_def)
  show "bp_ok (set_data f d bp)"
    unfolding b using pc nl bp_wfD(9,10) [OF wf] by (intro bp_ok_cong_frame [OF ok m]) auto
  have pcs: "pin_count (pages (set_data f d bp) ! k) = pin_count (pages bp ! k)" for k
    by (cases "k = f") (auto simp: set_data_def set_page_def nth_list_update f)
  show "pins (set_data f d bp) = pins bp"
    by (rule ext) (simp add: pins_def pcs cong: option.case_cong)
  show "view (set_data f d bp) = (view bp)(pid \<mapsto> clip_page d)"
  proof (rule ext)
    fix q show "view (set_data f d bp) q = ((view bp)(pid \<mapsto> clip_page d)) q"
      using m uniq [of q] f bp_wfD(3) [OF wf, of q]
      by (cases "map_of (page_table bp) q") (auto simp: view_def set_data_def pages_set_page)
  qed
qed

text \<open>\<^verbatim>\<open>unpin_page\<close> of a pinned page, dirty or still equal to the disk when it is the last pin.\<close>

lemma unpin_page_last:
  assumes wf: "bp_wf bp" and m: "map_of (page_table bp) pid = Some f" and p: "0 < pin_count (pages bp ! f)"
  shows "unpin_page pid dirty bp =
    (True, (set_page f (\<lambda>_. (pages bp ! f)\<lparr>is_dirty := is_dirty (pages bp ! f) \<or> dirty,
                                             pin_count := pin_count (pages bp ! f) - 1\<rparr>) bp)
       \<lparr>replacer := (if pin_count (pages bp ! f) = 1 then Lru_Replacer.unpin f (replacer bp)
                    else replacer bp)\<rparr>)"
proof -
  have f: "f < length (pages bp)" using bp_wfD(1,3) [OF wf] m by simp
  then show ?thesis using m p by (cases dirty) (simp_all add: unpin_page_def Let_def set_page_def)
qed

lemma lru_has_room:
  assumes wf: "bp_wf bp" and "f < pool_size bp" and "f \<notin> set (lru_order (replacer bp))"
  shows "card (set (lru_order (replacer bp))) < max_size (replacer bp)"
proof -
  have "set (lru_order (replacer bp)) \<subseteq> {..<pool_size bp} - {f}"
    using bp_wfD(3) [OF wf bp_wfD(12) [OF wf]] assms(3) by auto
  then have "card (set (lru_order (replacer bp))) \<le> card ({..<pool_size bp} - {f})"
    by (intro card_mono) auto
  also have "\<dots> < pool_size bp" using assms(2) by simp
  finally show ?thesis using bp_wfD(10) [OF wf] by simp
qed

lemma unpin_page_ok:
  assumes ok: "bp_ok bp" and p: "0 < pins bp pid" and s: "dirty \<or> saved bp pid \<or> 1 < pins bp pid"
  obtains bp' where "unpin_page pid dirty bp = (True, bp')" "bp_ok bp'" "view bp' = view bp"
    "pins bp' = (pins bp)(pid := pins bp pid - 1)" "page_table bp' = page_table bp" "disk bp' = disk bp"
    "pool_size bp' = pool_size bp"
proof -
  note wf = bp_okD(1) [OF ok] and coh = bp_okD(2) [OF ok]
  from p obtain f where m: "map_of (page_table bp) pid = Some f" by (auto simp: pins_def split: option.splits)
  with p have pc: "0 < pin_count (pages bp ! f)" by (simp add: pins_def)
  let ?pg = "(pages bp ! f)\<lparr>is_dirty := is_dirty (pages bp ! f) \<or> dirty, pin_count := pin_count (pages bp ! f) - 1\<rparr>"
  let ?r = "if pin_count (pages bp ! f) = 1 then Lru_Replacer.unpin f (replacer bp) else replacer bp"
  let ?b = "(set_page f (\<lambda>_. ?pg) bp)\<lparr>replacer := ?r\<rparr>"
  have U: "unpin_page pid dirty bp = (True, ?b)" by (rule unpin_page_last [OF wf m pc])
  have f: "f < pool_size bp" "length (pages bp) = pool_size bp" using bp_wfD(1,3) [OF wf] m by auto
  have nl: "f \<notin> set (lru_order (replacer bp))" using bp_wfD(11) [OF wf, of f] pc by auto
  have pf: "pages ?b ! f = ?pg" using f by (simp add: pages_set_page)
  have po: "pages ?b ! k = pages bp ! k" if "k \<noteq> f" for k using that by (simp add: set_page_def)
  have uniq: "q = pid" if "map_of (page_table bp) q = Some f" for q
    using bp_wfD(4) [OF wf] that m by metis
  have data: "page_data (pages ?b ! k) = page_data (pages bp ! k)" for k
    using pf po by (cases "k = f") auto
  have lru: "set (lru_order ?r) = (if pin_count (pages bp ! f) = 1 then insert f (set (lru_order (replacer bp)))
      else set (lru_order (replacer bp)))"
    using lru.unpin_evictable [OF bp_wfD(9) [OF wf]] lru_has_room [OF wf f(1) nl] by simp
  have wf': "bp_wf ?b" using bp_wf_unpin_page [OF wf, of pid dirty] U by simp
  have "bp_coh ?b"
    unfolding bp_coh_def
  proof (intro conjI allI impI)
    fix q k assume q: "map_of (page_table ?b) q = Some k"
    then have q': "map_of (page_table bp) q = Some k" by simp
    show "fd2path (disk ?b) (pg_fd q) \<noteq> None" "0 \<le> pg_no q" using bp_cohD(3,4) [OF coh q'] by simp_all
    show "clip_page (page_data (pages ?b ! k)) = page_data (pages ?b ! k)"
      unfolding data by (rule bp_cohD(5) [OF coh q'])
    assume z: "pin_count (pages ?b ! k) = 0"
    show "k \<in> set (lru_order (replacer ?b))"
      using z pf po [of k] lru bp_cohD(6) [OF coh q'] by (cases "k = f") auto
    show "saved ?b q"
    proof (cases "k = f")
      case True
      then have "q = pid" using q' uniq by simp
      moreover have "dirty \<or> saved bp pid" using s z True pf m by (auto simp: pins_def)
      ultimately show ?thesis using q q' True pf by (auto simp: saved_def)
    next
      case False
      with z po [OF False] bp_cohD(7) [OF coh q'] q' show ?thesis by (simp add: saved_def)
    qed
  qed (use bp_cohD(1,2) [OF coh] in simp_all)
  moreover have "view ?b = view bp" by (rule view_cong) (rule data | simp)+
  moreover have "pins ?b = (pins bp)(pid := pins bp pid - 1)"
  proof (rule ext)
    fix q show "pins ?b q = ((pins bp)(pid := pins bp pid - 1)) q"
    proof (cases "q = pid")
      case True
      then show ?thesis using m pf by (simp add: pins_def)
    next
      case False
      then have "map_of (page_table bp) q \<noteq> Some f" using uniq by blast
      with False show ?thesis using po by (auto simp: pins_def split: option.splits)
    qed
  qed
  ultimately show thesis using wf' by (intro that [OF U]) (simp_all add: bp_ok_def)
qed

text \<open>\<^verbatim>\<open>new_page\<close>: a zero page under the next page number of the file.\<close>

lemma new_page_ok:
  assumes ok: "bp_ok bp" and fd: "0 \<le> fd" "fd < MAX_FD" "fd2path (disk bp) fd \<noteq> None"
    and no: "fd2pageno (disk bp) fd = no" "0 \<le> no" and new: "mk_pid fd no \<notin> cached bp"
    and room: "card {q. 0 < pins bp q} < pool_size bp"
  obtains f bp' where "new_page fd bp = (Inr (Some (f, mk_pid fd no)), bp')" "bp_ok bp'"
    "\<forall>q e. q \<noteq> mk_pid fd no \<longrightarrow> view bp q = Some e \<longrightarrow> view bp' q = Some e"
    "view bp' (mk_pid fd no) = Some zero_buf"
    "pins bp' = (pins bp)(mk_pid fd no := 1)" "map_of (page_table bp') (mk_pid fd no) = Some f"
    "get_data bp' f = zero_buf" "pool_size bp' = pool_size bp"
    "cached bp' \<subseteq> insert (mk_pid fd no) (cached bp)"
    "tables bp' = tables (bp\<lparr>disk := (disk bp)\<lparr>fd2pageno := (fd2pageno (disk bp))(fd := wrap32 (no + 1))\<rparr>\<rparr>)"
proof -
  note wf = bp_okD(1) [OF ok] and coh = bp_okD(2) [OF ok]
  let ?pid = "mk_pid fd no"
  let ?dm0 = "(disk bp)\<lparr>fd2pageno := (fd2pageno (disk bp))(fd := wrap32 (no + 1))\<rparr>"
  have al: "allocate_page fd (disk bp) = (Inr no, ?dm0)" using fd no by (simp add: allocate_page_def)
  have None: "map_of (page_table bp) ?pid = None" using new by (auto simp: cached_def)
  have ni: "pg_no ?pid \<noteq> INVALID_PAGE_ID" using no(2) by simp
  obtain f bp1 where v: "find_victim_page bp = (Some f, bp1)" "disk bp1 = disk bp"
    using wf room_for_page [OF ok room] by (rule victim_available)
  have d0: "dm_inv ?dm0" "disk_page ?dm0 = disk_page (disk bp)" "fd2path ?dm0 = fd2path (disk bp)" "no_faults ?dm0"
    using dm_inv_allocate_page [OF bp_wfD(14) [OF wf], of fd] al bp_cohD(1) [OF coh] by (simp_all add: no_faults_def)
  let ?i = "installed f ?pid (evicted f bp1)"
  obtain dm where up: "update_page f ?pid f (bp1\<lparr>disk := ?dm0\<rparr>) = (Inr (), ?i\<lparr>disk := dm\<rparr>)"
    and st: "same_tables ?dm0 dm" and f: "f < length (pages bp1)"
    and ld: "\<And>d dm2. disk_page dm2 = disk_page dm \<Longrightarrow> fd2path dm2 = fd2path dm \<Longrightarrow> no_faults dm2 \<Longrightarrow>
      loaded bp (pin_frame f 1 (set_page f (\<lambda>p. p\<lparr>page_data := d\<rparr>) (?i\<lparr>disk := dm2\<rparr>))) f ?pid d"
    by (rule evict_load [OF ok None ni v(1) d0]) blast
  have z: "set_page f (\<lambda>p. p\<lparr>page_data := zero_buf\<rparr>) (?i\<lparr>disk := dm\<rparr>) = ?i\<lparr>disk := dm\<rparr>"
    using f by (simp add: set_page_def installed_def Let_def)
  let ?F = "pin_frame f 1 (?i\<lparr>disk := dm\<rparr>)"
  have "no_faults dm" using st d0(4) by (simp add: same_tables_def no_faults_def)
  with ld [of dm zero_buf] z have L: "loaded bp ?F f ?pid zero_buf" by simp
  have N: "new_page fd bp = (Inr (Some (f, ?pid)), ?F)"
    using v al up by (simp add: new_page_def on_disk_app)
  have "bp_wf ?F" using bp_wf_new_page [OF wf, of fd] None no(1) N by simp
  with loaded_coh [OF wf _ coh L] fd(3) no(2) have "bp_ok ?F" by (simp add: bp_ok_def)
  moreover have "tables ?F = tables (bp\<lparr>disk := ?dm0\<rparr>)" using st by (intro tables_same) simp
  moreover have "cached ?F \<subseteq> insert ?pid (cached bp)"
    using loaded_table [OF L] by (auto simp: cached_def dom_def split: if_splits)
  moreover have "map_of (page_table ?F) ?pid = Some f" using loaded_table [OF L, of ?pid] by simp
  moreover have "get_data ?F f = zero_buf" using loadedD(4) [OF L] by (simp add: get_data_def)
  moreover have "\<forall>q e. q \<noteq> ?pid \<longrightarrow> view bp q = Some e \<longrightarrow> view ?F q = Some e"
    using loaded_view [OF wf L] by blast
  ultimately show thesis
    using N loaded_view_page [OF L] loaded_pins [OF wf L] loadedD(1) [OF L]
    by (intro that [of f ?F])
qed

text \<open>\<^verbatim>\<open>flush_page\<close> and \<^verbatim>\<open>flush_all_pages\<close>: the disk catches up, nothing else changes.\<close>

definition flushed :: "buffer_pool \<Rightarrow> buffer_pool \<Rightarrow> bool" where
  "flushed bp bp' \<longleftrightarrow>
     bp_ok bp' \<and> pins bp' = pins bp \<and> page_table bp' = page_table bp \<and> pool_size bp' = pool_size bp \<and>
     tables bp' = tables bp \<and> (\<forall>k. page_data (pages bp' ! k) = page_data (pages bp ! k)) \<and>
     (\<forall>q e. disk_page (disk bp) (pg_fd q) (pg_no q) = Some e \<longrightarrow> q \<notin> cached bp \<or> view bp q = Some e \<longrightarrow>
        disk_page (disk bp') (pg_fd q) (pg_no q) = Some e)"

lemma flushed_refl: "bp_ok bp \<Longrightarrow> flushed bp bp"
  by (simp add: flushed_def)

lemma flushed_view:
  assumes "flushed bp bp'"
  shows "view bp \<subseteq>\<^sub>m view bp'"
proof -
  have "view bp' q = Some e" if "view bp q = Some e" for q e
    using that assms by (auto simp: view_def flushed_def cached_def split: option.splits)
  then show ?thesis by (auto simp: map_le_def dom_def)
qed

lemma flushed_trans:
  assumes "flushed a b" and "flushed b c"
  shows "flushed a c"
  unfolding flushed_def
proof (intro conjI allI impI)
  fix q e assume e: "disk_page (disk a) (pg_fd q) (pg_no q) = Some e" "q \<notin> cached a \<or> view a q = Some e"
  then have "disk_page (disk b) (pg_fd q) (pg_no q) = Some e" using assms(1) by (simp add: flushed_def)
  moreover have "q \<notin> cached b \<or> view b q = Some e"
    using e(2) flushed_view [OF assms(1)] assms(1)
    by (auto simp: flushed_def cached_def map_le_def dom_def)
  ultimately show "disk_page (disk c) (pg_fd q) (pg_no q) = Some e" using assms(2) by (simp add: flushed_def)
qed (use assms in \<open>auto simp: flushed_def\<close>)

lemma flush_frame_ok:
  assumes ok: "bp_ok bp" and m: "map_of (page_table bp) pid = Some f"
  obtains bp' where "flush_frame (pid, f) bp = (Inr (), bp')" "flushed bp bp'"
    "disk_page (disk bp') (pg_fd pid) (pg_no pid) = view bp pid"
proof -
  note wf = bp_okD(1) [OF ok] and coh = bp_okD(2) [OF ok]
  have f: "f < pool_size bp" "length (pages bp) = pool_size bp" using bp_wfD(1,3) [OF wf] m by auto
  obtain p where p: "fd2path (disk bp) (pg_fd pid) = Some p" using bp_cohD(3) [OF coh m] by auto
  obtain dm where w: "write_page (pg_fd pid) (pg_no pid) (page_data (pages bp ! f)) PAGE_SIZE (disk bp) = (Inr (), dm)"
      "disk_page dm (pg_fd pid) (pg_no pid) = Some (clip_page (page_data (pages bp ! f)))"
    and oth: "\<And>fd' no' e. disk_page (disk bp) fd' no' = Some e \<Longrightarrow> (fd', no') \<noteq> (pg_fd pid, pg_no pid) \<Longrightarrow>
        disk_page dm fd' no' = Some e"
    by (rule write_page_ok [OF bp_wfD(14) [OF wf] p bp_cohD(4) [OF coh m] bp_cohD(1) [OF coh]]) blast
  have st: "same_tables (disk bp) dm"
    using same_tables_write_page [of "disk bp" "pg_fd pid" "pg_no pid" "page_data (pages bp ! f)" PAGE_SIZE] w(1) by simp
  let ?b = "set_page f (\<lambda>p. p\<lparr>is_dirty := False\<rparr>) (bp\<lparr>disk := dm\<rparr>)"
  have F: "flush_frame (pid, f) bp = (Inr (), ?b)" using w(1) by (simp add: flush_frame_def on_disk_app)
  have wf': "bp_wf ?b" using bp_wf_flush_frame [OF wf f(1), of pid] F by simp
  have uniq: "q = pid" if "map_of (page_table bp) q = Some f" for q
    using bp_wfD(4) [OF wf] that m by metis
  have pd: "page_data (pages ?b ! k) = page_data (pages bp ! k)" "pin_count (pages ?b ! k) = pin_count (pages bp ! k)" for k
    using f by (cases "k = f"; simp add: set_page_def nth_list_update)+
  have dk: "disk_page dm (pg_fd q) (pg_no q) = Some e"
    if "disk_page (disk bp) (pg_fd q) (pg_no q) = Some e" "q \<noteq> pid" for q e
    using that(2) by (intro oth [OF that(1)]) (metis PageId.equality old.unit.exhaust prod.inject)
  have here: "disk_page dm (pg_fd pid) (pg_no pid) = Some (page_data (pages bp ! f))"
    using w(2) bp_cohD(5) [OF coh m] by simp
  have "bp_coh ?b"
    unfolding bp_coh_def
  proof (intro conjI allI impI)
    show "no_faults (disk ?b)" using st bp_cohD(1) [OF coh] by (simp add: same_tables_def no_faults_def)
    fix q k assume q: "map_of (page_table ?b) q = Some k"
    then have q': "map_of (page_table bp) q = Some k" by simp
    show "fd2path (disk ?b) (pg_fd q) \<noteq> None" "0 \<le> pg_no q"
      using bp_cohD(3,4) [OF coh q'] st by (simp_all add: same_tables_def)
    show "clip_page (page_data (pages ?b ! k)) = page_data (pages ?b ! k)"
      unfolding pd by (rule bp_cohD(5) [OF coh q'])
    assume z: "pin_count (pages ?b ! k) = 0"
    then show "k \<in> set (lru_order (replacer ?b))" using bp_cohD(6) [OF coh q'] pd(2) [of k] by simp
    show "saved ?b q"
    proof (cases "q = pid")
      case True
      then show ?thesis using here m pd(1) [of f] by (simp add: saved_def)
    next
      case False
      then have "k \<noteq> f" using uniq q' by auto
      then have "pages ?b ! k = pages bp ! k" by (simp add: set_page_def)
      then show ?thesis using bp_cohD(7) [OF coh q'] z q' dk [OF _ False] by (auto simp: saved_def)
    qed
  qed (use bp_cohD(2) [OF coh] in simp)
  then have "bp_ok ?b" using wf' by (simp add: bp_ok_def)
  moreover have "pins ?b = pins bp" by (rule ext) (unfold pins_def pd, simp)
  moreover have "tables ?b = tables bp" using st by (intro tables_same) simp
  moreover have "disk_page dm (pg_fd q) (pg_no q) = Some e"
    if "disk_page (disk bp) (pg_fd q) (pg_no q) = Some e" "q \<notin> cached bp \<or> view bp q = Some e" for q e
    using that m here dk [OF that(1)] by (cases "q = pid") (auto simp: cached_def view_def)
  ultimately have "flushed bp ?b" using pd by (simp add: flushed_def)
  then show thesis using F here m by (intro that [of ?b]) (simp_all add: view_def)
qed

lemma flush_all_ok:
  assumes ok: "bp_ok bp"
  obtains bp' where "flush_all_pages fd bp = (Inr (), bp')" "flushed bp bp'"
    "\<And>pid. pid \<in> cached bp \<Longrightarrow> pg_fd pid = fd \<Longrightarrow> disk_page (disk bp') fd (pg_no pid) = view bp pid"
proof -
  let ?step = "\<lambda>entry. if pg_fd (fst entry) \<noteq> fd then ret () else flush_frame entry"
  have "\<exists>b'. for_each xs ?step b = (Inr (), b') \<and> flushed b b' \<and>
      (\<forall>(pid, f) \<in> set xs. pg_fd pid = fd \<longrightarrow> disk_page (disk b') fd (pg_no pid) = view b pid)"
    if "bp_ok b" "\<forall>(pid, f) \<in> set xs. map_of (page_table b) pid = Some f" for xs b
    using that
  proof (induction xs arbitrary: b)
    case Nil
    then show ?case by (simp add: flushed_refl)
  next
    case (Cons x xs)
    obtain pid f where x: "x = (pid, f)" by (cases x)
    have m: "map_of (page_table b) pid = Some f" using Cons.prems x by simp
    obtain b1 where b1: "?step x b = (Inr (), b1)" "flushed b b1"
        "pg_fd pid = fd \<Longrightarrow> disk_page (disk b1) fd (pg_no pid) = view b pid"
    proof (cases "pg_fd pid = fd")
      case True
      obtain b1 where "flush_frame (pid, f) b = (Inr (), b1)" "flushed b b1"
          "disk_page (disk b1) (pg_fd pid) (pg_no pid) = view b pid"
        by (rule flush_frame_ok [OF Cons.prems(1) m])
      with True x show thesis by (intro that [of b1]) simp_all
    next
      case False
      with that [of b] x flushed_refl [OF Cons.prems(1)] show thesis by simp
    qed
    have "\<forall>(pid, f) \<in> set xs. map_of (page_table b1) pid = Some f" and "bp_ok b1"
      using Cons.prems(2) b1(2) by (auto simp: flushed_def)
    with Cons.IH [of b1] obtain b2 where b2: "for_each xs ?step b1 = (Inr (), b2)" "flushed b1 b2"
        "\<forall>(pid, f) \<in> set xs. pg_fd pid = fd \<longrightarrow> disk_page (disk b2) fd (pg_no pid) = view b1 pid" by blast
    have same: "view b1 q = view b q" if "q \<in> cached b" for q
      using that b1(2) by (auto simp: view_def flushed_def cached_def)
    have "disk_page (disk b2) fd (pg_no pid) = view b pid" if "pg_fd pid = fd"
    proof -
      have "disk_page (disk b1) fd (pg_no pid) = Some (page_data (pages b ! f))" "view b1 pid = Some (page_data (pages b ! f))"
        using b1(3) [OF that] m same [of pid] by (auto simp: view_def cached_def)
      then show ?thesis using b2(2) that m by (auto simp: flushed_def view_def)
    qed
    moreover have "disk_page (disk b2) fd (pg_no q) = view b q" if "(q, k) \<in> set xs" "pg_fd q = fd" for q k
    proof -
      have "q \<in> cached b" using that(1) Cons.prems(2) by (auto simp: cached_def)
      then show ?thesis using b2(3) that same [of q] by auto
    qed
    ultimately show ?case using b1(1) b2(1) x flushed_trans [OF b1(2) b2(2)] by auto
  qed
  from this [OF ok, of "page_table bp"] bp_wfD(2) [OF bp_okD(1) [OF ok]]
  obtain b' where b': "flush_all_pages fd bp = (Inr (), b')" "flushed bp b'"
    "\<forall>(pid, f) \<in> set (page_table bp). pg_fd pid = fd \<longrightarrow> disk_page (disk b') fd (pg_no pid) = view bp pid"
    unfolding flush_all_pages_def by auto
  show thesis
  proof (rule that [OF b'(1,2)])
    fix pid assume "pid \<in> cached bp" "pg_fd pid = fd"
    then show "disk_page (disk b') fd (pg_no pid) = view bp pid"
      using b'(3) by (auto simp: cached_def dest!: map_of_SomeD)
  qed
qed

section \<open>The contract of a page cache\<close>

text \<open>
  \<open>good\<close> is the provider's invariant, \<open>at s pid f\<close> says that frame \<open>f\<close> holds page \<open>pid\<close>, \<open>stable\<close> that the
  page may be unpinned clean, \<open>env\<close> is what page accesses leave alone.
\<close>

locale page_cache =
  fixes good :: "'s \<Rightarrow> bool"
    and contents :: "'s \<Rightarrow> PageId \<rightharpoonup> buf"
    and pinned :: "'s \<Rightarrow> PageId \<Rightarrow> int"
    and resident :: "'s \<Rightarrow> PageId set"
    and frames :: "'s \<Rightarrow> nat"
    and at :: "'s \<Rightarrow> PageId \<Rightarrow> frame_id \<Rightarrow> bool"
    and stable :: "'s \<Rightarrow> PageId \<Rightarrow> bool"
    and env :: "'s \<Rightarrow> 'e"
    and fetch :: "PageId \<Rightarrow> ('s, 'x, frame_id option) sem"
    and peek :: "'s \<Rightarrow> frame_id \<Rightarrow> buf"
    and store :: "frame_id \<Rightarrow> buf \<Rightarrow> 's \<Rightarrow> 's"
    and release :: "PageId \<Rightarrow> bool \<Rightarrow> 's \<Rightarrow> bool \<times> 's"
  assumes fetch_law: "good s \<Longrightarrow> contents s pid = Some d \<Longrightarrow> card {q. 0 < pinned s q} < frames s \<Longrightarrow>
      \<exists>f s'. fetch pid s = (Inr (Some f), s') \<and> good s' \<and> contents s \<subseteq>\<^sub>m contents s' \<and>
        pinned s' = (pinned s)(pid := pinned s pid + 1) \<and> at s' pid f \<and> peek s' f = d \<and> env s' = env s \<and>
        frames s' = frames s \<and> resident s' \<subseteq> insert pid (resident s) \<and> (pinned s pid = 0 \<longrightarrow> stable s' pid)"
    and store_law: "good s \<Longrightarrow> at s pid f \<Longrightarrow> 0 < pinned s pid \<Longrightarrow>
      good (store f d s) \<and> contents (store f d s) = (contents s)(pid \<mapsto> clip_page d) \<and>
      pinned (store f d s) = pinned s \<and> env (store f d s) = env s \<and> frames (store f d s) = frames s \<and>
      resident (store f d s) = resident s"
    and release_law: "good s \<Longrightarrow> 0 < pinned s pid \<Longrightarrow> dirty \<or> stable s pid \<or> 1 < pinned s pid \<Longrightarrow>
      \<exists>s'. release pid dirty s = (True, s') \<and> good s' \<and> contents s' = contents s \<and>
        pinned s' = (pinned s)(pid := pinned s pid - 1) \<and> env s' = env s \<and> frames s' = frames s \<and>
        resident s' = resident s"
    and pinned_nonneg: "good s \<Longrightarrow> 0 \<le> pinned s pid"
begin

text \<open>A state reached by accesses that were released again: nothing pinned in addition.\<close>

definition settled :: "'s \<Rightarrow> 's \<Rightarrow> PageId \<Rightarrow> bool" where
  "settled s s' pid \<longleftrightarrow>
     good s' \<and> pinned s' = pinned s \<and> env s' = env s \<and> frames s' = frames s \<and>
     resident s' \<subseteq> insert pid (resident s)"

lemma read_access:
  assumes "good s" and "contents s pid = Some d" and "card {q. 0 < pinned s q} < frames s"
    and "pinned s pid = 0"
  obtains f s1 s2 where "fetch pid s = (Inr (Some f), s1)" "at s1 pid f" "peek s1 f = d"
    "release pid False s1 = (True, s2)" "settled s s2 pid" "contents s \<subseteq>\<^sub>m contents s2"
proof -
  obtain f s1 where s1: "fetch pid s = (Inr (Some f), s1)" "good s1" "contents s \<subseteq>\<^sub>m contents s1"
      "pinned s1 = (pinned s)(pid := pinned s pid + 1)" "at s1 pid f" "peek s1 f = d" "env s1 = env s"
      "frames s1 = frames s" "resident s1 \<subseteq> insert pid (resident s)" "stable s1 pid"
    using fetch_law [OF assms(1,2,3)] assms(4) by auto
  obtain s2 where s2: "release pid False s1 = (True, s2)" "good s2" "contents s2 = contents s1"
      "pinned s2 = (pinned s1)(pid := pinned s1 pid - 1)" "env s2 = env s1" "frames s2 = frames s1"
      "resident s2 = resident s1"
    using release_law [of s1 pid False] s1 assms(4) by auto
  have "settled s s2 pid" using s1 s2 by (auto simp: settled_def)
  then show thesis using that s1 s2 by metis
qed

lemma write_access:
  assumes "good s" and "contents s pid = Some d" and "card {q. 0 < pinned s q} < frames s"
  obtains f s1 where "fetch pid s = (Inr (Some f), s1)" "at s1 pid f" "peek s1 f = d"
    "\<And>d'. \<exists>s2. release pid True (store f d' s1) = (True, s2) \<and> settled s s2 pid \<and>
       (contents s)(pid \<mapsto> clip_page d') \<subseteq>\<^sub>m contents s2 \<and> contents s2 pid = Some (clip_page d')"
proof -
  obtain f s1 where s1: "fetch pid s = (Inr (Some f), s1)" "good s1" "contents s \<subseteq>\<^sub>m contents s1"
      "pinned s1 = (pinned s)(pid := pinned s pid + 1)" "at s1 pid f" "peek s1 f = d" "env s1 = env s"
      "frames s1 = frames s" "resident s1 \<subseteq> insert pid (resident s)"
    using fetch_law [OF assms(1,2,3)] by auto
  have p: "0 < pinned s1 pid" using s1(4) pinned_nonneg [OF assms(1), of pid] by simp
  have "\<exists>s2. release pid True (store f d' s1) = (True, s2) \<and> settled s s2 pid \<and>
       (contents s)(pid \<mapsto> clip_page d') \<subseteq>\<^sub>m contents s2 \<and> contents s2 pid = Some (clip_page d')" for d'
  proof -
    note st = store_law [OF s1(2,5) p, of d']
    obtain s2 where s2: "release pid True (store f d' s1) = (True, s2)" "good s2" "contents s2 = contents (store f d' s1)"
        "pinned s2 = (pinned s1)(pid := pinned s1 pid - 1)" "env s2 = env s1" "frames s2 = frames s1"
        "resident s2 = resident s1"
      using release_law [of "store f d' s1" pid True] st p by auto
    have "(contents s)(pid \<mapsto> clip_page d') \<subseteq>\<^sub>m contents s2"
      using s1(3) s2(3) st by (auto simp: map_le_def)
    moreover have "settled s s2 pid" using s1 s2 by (auto simp: settled_def)
    ultimately show ?thesis using s2(1,3) st by auto
  qed
  then show thesis using that s1 by metis
qed

end

interpretation pool: page_cache bp_ok view pins cached pool_size
  "\<lambda>bp pid f. map_of (page_table bp) pid = Some f" saved tables fetch_page get_data set_data unpin_page
proof unfold_locales
  fix bp pid d assume "bp_ok bp" "view bp pid = Some d" "card {q. 0 < pins bp q} < pool_size bp"
  then obtain f bp' where "fetch_page pid bp = (Inr (Some f), bp')" "bp_ok bp'" "view bp \<subseteq>\<^sub>m view bp'"
    "pins bp' = (pins bp)(pid := pins bp pid + 1)" "map_of (page_table bp') pid = Some f" "get_data bp' f = d"
    "tables bp' = tables bp" "pool_size bp' = pool_size bp" "cached bp' \<subseteq> insert pid (cached bp)"
    "pins bp pid = 0 \<longrightarrow> saved bp' pid" by (rule fetch_page_ok)
  then show "\<exists>f s'. fetch_page pid bp = (Inr (Some f), s') \<and> bp_ok s' \<and> view bp \<subseteq>\<^sub>m view s' \<and>
        pins s' = (pins bp)(pid := pins bp pid + 1) \<and> map_of (page_table s') pid = Some f \<and> get_data s' f = d \<and>
        tables s' = tables bp \<and> pool_size s' = pool_size bp \<and> cached s' \<subseteq> insert pid (cached bp) \<and>
        (pins bp pid = 0 \<longrightarrow> saved s' pid)" by blast
next
  fix bp pid f d assume "bp_ok bp" "map_of (page_table bp) pid = Some f" "0 < pins bp pid"
  then show "bp_ok (set_data f d bp) \<and> view (set_data f d bp) = (view bp)(pid \<mapsto> clip_page d) \<and>
      pins (set_data f d bp) = pins bp \<and> tables (set_data f d bp) = tables bp \<and>
      pool_size (set_data f d bp) = pool_size bp \<and> cached (set_data f d bp) = cached bp"
    using set_data_ok by simp
next
  fix bp pid dirty assume "bp_ok bp" "0 < pins bp pid" "dirty \<or> saved bp pid \<or> 1 < pins bp pid"
  then obtain bp' where "unpin_page pid dirty bp = (True, bp')" "bp_ok bp'" "view bp' = view bp"
    "pins bp' = (pins bp)(pid := pins bp pid - 1)" "page_table bp' = page_table bp" "disk bp' = disk bp"
    "pool_size bp' = pool_size bp" by (rule unpin_page_ok)
  then show "\<exists>s'. unpin_page pid dirty bp = (True, s') \<and> bp_ok s' \<and> view s' = view bp \<and>
        pins s' = (pins bp)(pid := pins bp pid - 1) \<and> tables s' = tables bp \<and> pool_size s' = pool_size bp \<and>
        cached s' = cached bp" by (simp add: tables_def cached_def)
next
  fix bp pid assume ok: "bp_ok bp"
  show "0 \<le> pins bp pid"
    using bp_wfD(3,13) [OF bp_okD(1) [OF ok]] by (auto simp: pins_def split: option.splits)
qed

section \<open>The range of the pin counts\<close>

definition counts_upto :: "int \<Rightarrow> buffer_pool \<Rightarrow> bool" where
  "counts_upto n bp \<longleftrightarrow> (\<forall>p\<in>set (pages bp). pin_count p \<le> n)"

lemma counts_upto_fields [simp]:
  "counts_upto n (bp\<lparr>replacer := r\<rparr>) = counts_upto n bp" "counts_upto n (bp\<lparr>disk := d\<rparr>) = counts_upto n bp"
  "counts_upto n (bp\<lparr>page_table := t\<rparr>) = counts_upto n bp" "counts_upto n (bp\<lparr>free_list := l\<rparr>) = counts_upto n bp"
  by (simp_all add: counts_upto_def)

lemma counts_upto_mono: "counts_upto m bp \<Longrightarrow> m \<le> n \<Longrightarrow> counts_upto n bp"
  by (auto simp: counts_upto_def)

lemma counts_upto_set_page:
  assumes "counts_upto n bp" and "f < length (pages bp) \<Longrightarrow> pin_count (g (pages bp ! f)) \<le> n"
  shows "counts_upto n (set_page f g bp)"
proof (cases "f < length (pages bp)")
  case True
  then show ?thesis using assms set_update_subset_insert [of "pages bp" f "g (pages bp ! f)"] by (auto simp: counts_upto_def set_page_def)
qed (use assms in \<open>simp add: counts_upto_def set_page_def list_update_beyond\<close>)

lemma counts_upto_same:
  "counts_upto n bp \<Longrightarrow> (\<And>p. pin_count (g p) = pin_count p) \<Longrightarrow> counts_upto n (set_page f g bp)"
  by (rule counts_upto_set_page) (auto simp: counts_upto_def)

lemma counts_upto_pin: "counts_upto n bp \<Longrightarrow> c \<le> n \<Longrightarrow> counts_upto n (pin_frame f c bp)"
  using counts_upto_set_page [of n bp f "\<lambda>p. p\<lparr>pin_count := c\<rparr>"] by (simp add: pin_frame_def)

lemma counts_upto_on_disk [keeps_intros]: "keeps (counts_upto n) (on_disk m)"
  by (auto simp: keeps_def on_disk_def zoom_app counts_upto_def split: prod.splits)

lemma counts_upto_update_page [keeps_intros]: "0 \<le> n \<Longrightarrow> keeps (counts_upto n) (update_page f pid g)"
  unfolding update_page_def Let_def
  by (intro keeps_intros) (simp_all add: counts_upto_set_page reset_memory_def)

lemma counts_upto_read_into [keeps_intros]: "keeps (counts_upto n) (read_into f pid)"
  by (rule keepsI) (auto simp: read_into_def split: prod.splits intro!: counts_upto_same)

lemma counts_upto_victim: "counts_upto n bp \<Longrightarrow> find_victim_page bp = (r, bp1) \<Longrightarrow> counts_upto n bp1"
  by (auto simp: find_victim_page_def counts_upto_def split: list.splits prod.splits)

text \<open>Only \<^verbatim>\<open>fetch_page\<close> raises a count, by one.\<close>

lemma counts_upto_fetch_page:
  assumes "counts_upto n bp" and "0 \<le> n" and "bp_wf bp"
  shows "counts_upto (n + 1) (snd (fetch_page pid bp))"
proof -
  have c: "counts_upto (n + 1) bp" using counts_upto_mono [OF assms(1)] by simp
  show ?thesis
  proof (cases "map_of (page_table bp) pid")
    case (Some f)
    then have "f < length (pages bp)" using bp_wfD(1,3) [OF assms(3)] by simp
    then have "pin_count (pages bp ! f) \<le> n" using assms(1) by (simp add: counts_upto_def)
    then show ?thesis using Some counts_upto_pin [OF c] by (simp add: fetch_page_def)
  next
    case None
    obtain r bp1 where v: "find_victim_page bp = (r, bp1)" by fastforce
    have k: "keeps (counts_upto (n + 1)) (bind_e (update_page f pid f) (\<lambda>_. bind_e (read_into f pid) (\<lambda>_.
        bind_e (modify_e (pin_frame f 1)) (\<lambda>_. ret (Some f)))))" for f
      by (intro keeps_intros counts_upto_pin) (use assms(2) in simp_all)
    show ?thesis using None v counts_upto_victim [OF c v] k unfolding keeps_def
      by (cases r) (auto simp: fetch_page_def)
  qed
qed

lemma counts_upto_unpin_page: "counts_upto n bp \<Longrightarrow> bp_wf bp \<Longrightarrow> counts_upto n (snd (unpin_page pid dirty bp))"
proof -
  assume c: "counts_upto n bp" and wf: "bp_wf bp"
  show ?thesis
  proof (cases "map_of (page_table bp) pid")
    case (Some f)
    let ?bp = "if dirty then set_page f (\<lambda>p. p\<lparr>is_dirty := True\<rparr>) bp else bp"
    have d: "counts_upto n ?bp" using c counts_upto_same [OF c] by simp
    have "pin_count (pages ?bp ! f) \<le> n" if "f < length (pages ?bp)" using that d by (simp only: counts_upto_def nth_mem)
    then have "counts_upto n (set_page f (\<lambda>p. p\<lparr>pin_count := pin_count p - 1\<rparr>) ?bp)" by (intro counts_upto_set_page [OF d]) simp
    then show ?thesis using Some c by (simp add: unpin_page_def Let_def)
  qed (simp add: unpin_page_def c)
qed

lemma counts_upto_delete_page: "counts_upto n bp \<Longrightarrow> 0 \<le> n \<Longrightarrow> counts_upto n (snd (delete_page pid bp))"
  by (simp add: delete_page_def Let_def counts_upto_set_page reset_memory_def split: option.split)

lemma counts_upto_flush_frame [keeps_intros]: "keeps (counts_upto n) (flush_frame e)"
proof (rule keepsI)
  fix bp assume c: "counts_upto n bp"
  have "keeps (counts_upto n) (bind_e (on_disk m) (\<lambda>_. modify_e (set_page f (\<lambda>p. p\<lparr>is_dirty := False\<rparr>))))" for m f
    by (intro keeps_intros counts_upto_same) simp_all
  then show "counts_upto n (snd (flush_frame e bp))" using c unfolding flush_frame_def keeps_def by blast
qed

lemma counts_upto_flushes:
  assumes "counts_upto n bp"
  shows "counts_upto n (snd (flush_page pid bp))" "counts_upto n (snd (flush_all_pages fd bp))"
proof -
  have "keeps (counts_upto n) (bind_e (on_disk m) (\<lambda>_. bind_e (modify_e (set_page f (\<lambda>p. p\<lparr>is_dirty := False\<rparr>))) (\<lambda>_. ret True)))" for m f
    by (intro keeps_intros counts_upto_same) simp_all
  then show "counts_upto n (snd (flush_page pid bp))"
    using assms by (auto simp: flush_page_def keeps_def split: option.splits)
  have "keeps (counts_upto n) (for_each (page_table bp) (\<lambda>entry. if pg_fd (fst entry) \<noteq> fd then ret () else flush_frame entry))"
    by (intro keeps_intros)
  then show "counts_upto n (snd (flush_all_pages fd bp))" using assms by (simp add: flush_all_pages_def keeps_def)
qed

lemma counts_upto_new_page:
  assumes "counts_upto n bp" and "1 \<le> n"
  shows "counts_upto n (snd (new_page fd bp))"
proof -
  obtain r bp1 where v: "find_victim_page bp = (r, bp1)" by fastforce
  have "keeps (counts_upto n) (bind_e (on_disk (allocate_page fd)) (\<lambda>no. bind_e (update_page f (mk_pid fd no) f) (\<lambda>_.
      bind_e (modify_e (pin_frame f 1)) (\<lambda>_. ret (Some (f, mk_pid fd no))))))" for f
    by (intro keeps_intros counts_upto_pin) (use assms(2) in simp_all)
  then show ?thesis using v counts_upto_victim [OF assms(1) v] by (cases r) (auto simp: new_page_def keeps_def)
qed

section \<open>Properties\<close>

text \<open>The pool over the sample disk with a single frame, so that every miss evicts.\<close>

definition sample_bp :: buffer_pool where
  "sample_bp = new_BufferPoolManager 0 1 sample_dm"

lemma sample_bp_ok:
  "bp_ok sample_bp" "bp_wf sample_bp" "pool_size sample_bp = 1" "pins sample_bp = (\<lambda>_. 0)" "cached sample_bp = {}"
  "view sample_bp (mk_pid 3 0) = Some zero_buf" "view sample_bp (mk_pid 3 1) = Some zero_buf"
  "view sample_bp (mk_pid 3 2) = None" "disk sample_bp = sample_dm"
proof -
  show "bp_ok sample_bp" unfolding sample_bp_def by (rule bp_ok_new [OF sample_dm_ok(1,2)])
  then show "bp_wf sample_bp" by (rule bp_okD(1))
qed (auto simp: sample_bp_def new_BufferPoolManager_def pins_def cached_def view_def disk_page_def
      sample_dm_def sample_os_def LOG_FILE_NAME_def zero_buf_def fun_eq_iff)

text \<open>
  C17: the page table, the frames, the free list and the replacer stay consistent, also when an operation
  throws: a mapped frame carries the page id it is mapped from, the free frames are unmapped, and only
  unpinned mapped frames can be chosen as victims. This holds for \<^verbatim>\<open>fetch_page\<close>, \<^verbatim>\<open>unpin_page\<close>, \<^verbatim>\<open>flush_page\<close>,
  \<^verbatim>\<open>delete_page\<close> and \<^verbatim>\<open>flush_all_pages\<close> without condition, and for \<^verbatim>\<open>new_page\<close> when the page number it is about to
  allocate is not resident, which a descriptor that was closed and opened again can violate. When no page has
  \<open>2 ^ 31 - 1\<close> pins before the operation, no pin count leaves the range of a 32-bit \<^verbatim>\<open>int\<close>.
\<close>

theorem buffer_pool_wf:
  assumes "bp_wf bp"
  shows "bp_wf (snd (fetch_page pid bp)) \<and> bp_wf (snd (unpin_page pid dirty bp)) \<and>
    bp_wf (snd (flush_page pid bp)) \<and> bp_wf (snd (delete_page pid bp)) \<and>
    bp_wf (snd (flush_all_pages fd bp)) \<and>
    (mk_pid fd (fd2pageno (disk bp) fd) \<notin> cached bp \<longrightarrow> bp_wf (snd (new_page fd bp))) \<and>
    (counts_upto (2 ^ 31 - 2) bp \<longrightarrow> (\<forall>bp' \<in> {snd (fetch_page pid bp), snd (unpin_page pid dirty bp), snd (flush_page pid bp), snd (delete_page pid bp),
        snd (flush_all_pages fd bp), snd (new_page fd bp)}. counts_upto (2 ^ 31 - 1) bp'))"
proof -
  have "\<forall>bp' \<in> {snd (fetch_page pid bp), snd (unpin_page pid dirty bp), snd (flush_page pid bp), snd (delete_page pid bp),
      snd (flush_all_pages fd bp), snd (new_page fd bp)}. counts_upto (2 ^ 31 - 1) bp'" if b: "counts_upto (2 ^ 31 - 2) bp"
  proof -
    have "counts_upto (2 ^ 31 - 1) (snd (fetch_page pid bp))" using counts_upto_fetch_page [OF b _ assms] by simp
    moreover have c: "counts_upto (2 ^ 31 - 1) bp" using counts_upto_mono [OF b] by simp
    ultimately show ?thesis
      using counts_upto_unpin_page [OF c assms] counts_upto_delete_page [OF c] counts_upto_flushes [OF c] counts_upto_new_page [OF c] by simp
  qed
  then show ?thesis
    using assms by (auto simp: bp_wf_fetch_page bp_wf_unpin_page bp_wf_flush_page bp_wf_delete_page
        bp_wf_flush_all_pages cached_def intro!: bp_wf_new_page)
qed

theorem buffer_pool_wf_witness:
  "bp_wf (snd (fetch_page (mk_pid 9 9) sample_bp)) \<and> bp_wf (snd (new_page 3 sample_bp)) \<and>
   counts_upto (2 ^ 31 - 1) (snd (fetch_page (mk_pid 9 9) sample_bp))"
proof -
  have "counts_upto (2 ^ 31 - 2) sample_bp" by (simp add: counts_upto_def sample_bp_def new_BufferPoolManager_def new_Page_def)
  then show ?thesis using buffer_pool_wf [OF sample_bp_ok(2), of "mk_pid 9 9" True 3] sample_bp_ok(5) by simp
qed

text \<open>
  C30: \<^verbatim>\<open>fetch_page\<close> of an existing page while some frame is not pinned returns a frame that holds the
  page's logical contents, with its pin count one higher, and changes the contents of no page,
  whatever dirty page it had to write back and evict.
\<close>

theorem fetch_page_returns_contents:
  assumes "bp_ok bp" and "view bp pid = Some d" and "card {q. 0 < pins bp q} < pool_size bp"
  shows "\<exists>f bp'. fetch_page pid bp = (Inr (Some f), bp') \<and> bp_ok bp' \<and>
    page_id (pages bp' ! f) = pid \<and> get_data bp' f = d \<and>
    pins bp' = (pins bp)(pid := pins bp pid + 1) \<and> view bp \<subseteq>\<^sub>m view bp'"
proof -
  obtain f bp' where F: "fetch_page pid bp = (Inr (Some f), bp')" "bp_ok bp'" "view bp \<subseteq>\<^sub>m view bp'"
    "pins bp' = (pins bp)(pid := pins bp pid + 1)" "map_of (page_table bp') pid = Some f" "get_data bp' f = d"
    by (rule fetch_page_ok [OF assms])
  moreover have "page_id (pages bp' ! f) = pid" using bp_wfD(4) [OF bp_okD(1) [OF F(2)] F(5)] .
  ultimately show ?thesis by blast
qed

theorem fetch_page_returns_contents_witness:
  "\<exists>f bp'. fetch_page (mk_pid 3 1) sample_bp = (Inr (Some f), bp') \<and> get_data bp' f = zero_buf"
  using fetch_page_returns_contents [OF sample_bp_ok(1,7)] sample_bp_ok(3,4) by auto

text \<open>Fetching and unpinning some other pages, which may evict every unpinned frame.\<close>

definition touch :: "PageId list \<Rightarrow> unit pool_op" where
  "touch ps = for_each ps (\<lambda>q. bind_e (fetch_page q) (\<lambda>_. modify_e (\<lambda>s. snd (unpin_page q False s))))"

lemma touch_ok:
  assumes "bp_ok bp" and "\<forall>q. pins bp q = 0" and "0 < pool_size bp" and "\<forall>q \<in> set ps. view bp q \<noteq> None"
  shows "\<exists>bp'. touch ps bp = (Inr (), bp') \<and> bp_ok bp' \<and> (\<forall>q. pins bp' q = 0) \<and> 0 < pool_size bp' \<and>
    view bp \<subseteq>\<^sub>m view bp'"
  using assms
proof (induction ps arbitrary: bp)
  case Nil
  then show ?case by (simp add: touch_def)
next
  case (Cons q ps)
  from Cons.prems(4) obtain d where d: "view bp q = Some d" by auto
  have room: "card {q. 0 < pins bp q} < pool_size bp" using Cons.prems(2,3) by simp
  obtain f s1 s2 where s: "fetch_page q bp = (Inr (Some f), s1)" "unpin_page q False s1 = (True, s2)"
      "pool.settled bp s2 q" "view bp \<subseteq>\<^sub>m view s2"
    by (rule pool.read_access [OF Cons.prems(1) d room]) (use Cons.prems(2) in auto)
  have "bp_ok s2" "\<forall>q. pins s2 q = 0" "0 < pool_size s2" "\<forall>q \<in> set ps. view s2 q \<noteq> None"
    using s(3,4) Cons.prems(2,3,4) by (fastforce simp: pool.settled_def map_le_def dom_def)+
  from Cons.IH [OF this] s show ?case
    by (auto simp: touch_def intro: map_le_trans)
qed

text \<open>
  C3: an update is never lost to replacement. A client fetches a page, stores new bytes, and unpins
  it dirty; afterwards any list of other pages is fetched and unpinned, with as many evictions as
  that takes; fetching the first page again returns the new bytes.
\<close>

theorem update_survives_eviction:
  assumes "bp_ok bp" and "\<forall>q. pins bp q = 0" and "0 < pool_size bp" and "view bp pid = Some d"
    and "\<forall>q \<in> set ps. view bp q \<noteq> None"
  shows "\<exists>f s1 s2 s3 g s4. fetch_page pid bp = (Inr (Some f), s1) \<and> get_data s1 f = d \<and>
    unpin_page pid True (set_data f d' s1) = (True, s2) \<and> touch ps s2 = (Inr (), s3) \<and>
    fetch_page pid s3 = (Inr (Some g), s4) \<and> get_data s4 g = clip_page d'"
proof -
  have room: "card {q. 0 < pins bp q} < pool_size bp" using assms(2,3) by simp
  obtain f s1 where f: "fetch_page pid bp = (Inr (Some f), s1)" "get_data s1 f = d"
    and upd: "\<And>d'. \<exists>s2. unpin_page pid True (set_data f d' s1) = (True, s2) \<and> pool.settled bp s2 pid \<and>
       (view bp)(pid \<mapsto> clip_page d') \<subseteq>\<^sub>m view s2 \<and> view s2 pid = Some (clip_page d')"
    by (rule pool.write_access [OF assms(1,4) room]) blast
  from upd obtain s2 where s2: "unpin_page pid True (set_data f d' s1) = (True, s2)" "pool.settled bp s2 pid"
      "(view bp)(pid \<mapsto> clip_page d') \<subseteq>\<^sub>m view s2" "view s2 pid = Some (clip_page d')" by blast
  have "bp_ok s2" "\<forall>q. pins s2 q = 0" "0 < pool_size s2" using s2(2) assms(2,3) by (auto simp: pool.settled_def)
  moreover have "\<forall>q \<in> set ps. view s2 q \<noteq> None"
    using assms(5) s2(3) by (fastforce simp: map_le_def dom_def)
  ultimately obtain s3 where s3: "touch ps s2 = (Inr (), s3)" "bp_ok s3" "\<forall>q. pins s3 q = 0" "0 < pool_size s3"
      "view s2 \<subseteq>\<^sub>m view s3" using touch_ok by blast
  have "view s3 pid = Some (clip_page d')" using s3(5) s2(4) by (force simp: map_le_def dom_def)
  moreover have "card {q. 0 < pins s3 q} < pool_size s3" using s3(3,4) by simp
  ultimately obtain g s4 where "fetch_page pid s3 = (Inr (Some g), s4)" "get_data s4 g = clip_page d'"
    by (metis fetch_page_ok [OF s3(2)])
  with f s2(1) s3(1) show ?thesis by blast
qed

theorem update_survives_eviction_witness:
  "\<exists>f s1 s2 s3 g s4. fetch_page (mk_pid 3 0) sample_bp = (Inr (Some f), s1) \<and>
    unpin_page (mk_pid 3 0) True (set_data f (\<lambda>_. 9) s1) = (True, s2) \<and>
    touch [mk_pid 3 1] s2 = (Inr (), s3) \<and>
    fetch_page (mk_pid 3 0) s3 = (Inr (Some g), s4) \<and> get_data s4 g = clip_page (\<lambda>_. 9)"
  using update_survives_eviction [OF sample_bp_ok(1) _ _ sample_bp_ok(6), of "[mk_pid 3 1]" "\<lambda>_. 9"]
    sample_bp_ok(3,4,7) by auto

text \<open>
  \<^verbatim>\<open>new_page\<close> on an open file whose next page number is not resident takes that number,
  advances the file's counter (with the wrap-around of its 32 bits), and yields a pinned page of
  zeros; every other page keeps its contents.
\<close>

theorem new_page_allocates_zero_page:
  assumes "bp_ok bp" and "0 \<le> fd" and "fd < MAX_FD" and "fd2path (disk bp) fd \<noteq> None"
    and "fd2pageno (disk bp) fd = no" and "0 \<le> no" and "mk_pid fd no \<notin> cached bp"
    and "card {q. 0 < pins bp q} < pool_size bp"
  shows "\<exists>f bp'. new_page fd bp = (Inr (Some (f, mk_pid fd no)), bp') \<and> bp_ok bp' \<and>
    get_data bp' f = zero_buf \<and> view bp' (mk_pid fd no) = Some zero_buf \<and>
    pins bp' = (pins bp)(mk_pid fd no := 1) \<and> fd2pageno (disk bp') fd = wrap32 (no + 1) \<and>
    (\<forall>q e. q \<noteq> mk_pid fd no \<longrightarrow> view bp q = Some e \<longrightarrow> view bp' q = Some e)"
proof -
  obtain f bp' where N: "new_page fd bp = (Inr (Some (f, mk_pid fd no)), bp')" "bp_ok bp'"
    "\<forall>q e. q \<noteq> mk_pid fd no \<longrightarrow> view bp q = Some e \<longrightarrow> view bp' q = Some e"
    "view bp' (mk_pid fd no) = Some zero_buf"
    "pins bp' = (pins bp)(mk_pid fd no := 1)" "get_data bp' f = zero_buf"
    "tables bp' = tables (bp\<lparr>disk := (disk bp)\<lparr>fd2pageno := (fd2pageno (disk bp))(fd := wrap32 (no + 1))\<rparr>\<rparr>)"
    using assms by (rule new_page_ok)
  have "fd2pageno (disk bp') fd = wrap32 (no + 1)" using N(7) by (simp add: tables_def)
  with N show ?thesis by blast
qed

theorem new_page_allocates_zero_page_witness:
  "\<exists>f bp'. new_page 3 sample_bp = (Inr (Some (f, mk_pid 3 2)), bp') \<and> get_data bp' f = zero_buf \<and>
     fd2pageno (disk bp') 3 = wrap32 (2 + 1)"
  using new_page_allocates_zero_page [OF sample_bp_ok(1), of 3 2] sample_bp_ok(3,4,5,9) sample_dm_ok(4)
  by (auto simp: sample_dm_def)

text \<open>
  \<^verbatim>\<open>flush_all_pages\<close> on a file makes the disk hold the logical contents of every page of the
  file that was resident, without changing the contents, pins or residency of any page.
\<close>

theorem flush_all_pages_persists:
  assumes "bp_ok bp"
  shows "\<exists>bp'. flush_all_pages fd bp = (Inr (), bp') \<and> bp_ok bp' \<and> view bp \<subseteq>\<^sub>m view bp' \<and>
    pins bp' = pins bp \<and> page_table bp' = page_table bp \<and>
    (\<forall>no. mk_pid fd no \<in> cached bp \<longrightarrow> disk_page (disk bp') fd no = view bp (mk_pid fd no))"
proof -
  obtain bp' where F: "flush_all_pages fd bp = (Inr (), bp')" "flushed bp bp'"
    "\<And>pid. pid \<in> cached bp \<Longrightarrow> pg_fd pid = fd \<Longrightarrow> disk_page (disk bp') fd (pg_no pid) = view bp pid"
    using flush_all_ok [OF assms] by blast
  then show ?thesis using flushed_view [OF F(2)] F(3) [of "mk_pid fd no" for no]
    by (auto simp: flushed_def)
qed

theorem flush_all_pages_persists_witness:
  "\<exists>f bp bp'. new_page 3 sample_bp = (Inr (Some (f, mk_pid 3 2)), bp) \<and>
     flush_all_pages 3 bp = (Inr (), bp') \<and> disk_page (disk bp') 3 2 = Some zero_buf"
proof -
  obtain f bp where N: "new_page 3 sample_bp = (Inr (Some (f, mk_pid 3 2)), bp)" "bp_ok bp"
      "view bp (mk_pid 3 2) = Some zero_buf" "map_of (page_table bp) (mk_pid 3 2) = Some f"
    by (rule new_page_ok [OF sample_bp_ok(1), of 3 2])
      (use sample_bp_ok(3,4,5,9) sample_dm_ok(4) in \<open>auto simp: sample_dm_def\<close>)
  then show ?thesis using flush_all_pages_persists [OF N(2), of 3] by (force simp: cached_def)
qed

text \<open>
  C34: \<^verbatim>\<open>fetch_page\<close> of a page the file does not have throws, but leaves the page table entry that
  \<^verbatim>\<open>update_page\<close> made for it: calling it a second time succeeds and hands out a frame for a page
  that exists nowhere.
\<close>

theorem fetch_missing_page_twice:
  assumes "bp_wf bp" and "free_list bp \<noteq> []" and "pid \<notin> cached bp" and "pg_no pid \<noteq> INVALID_PAGE_ID"
    and "disk_page (disk bp) (pg_fd pid) (pg_no pid) = None"
  shows "\<exists>e bp1 f bp2. fetch_page pid bp = (Inl e, bp1) \<and> fetch_page pid bp1 = (Inr (Some f), bp2) \<and>
    disk_page (disk bp2) (pg_fd pid) (pg_no pid) = None"
proof -
  obtain f rest where fl: "free_list bp = f # rest" using assms(2) by (cases "free_list bp") auto
  let ?b1 = "bp\<lparr>free_list := rest\<rparr>" and ?i = "installed f pid (evicted f (bp\<lparr>free_list := rest\<rparr>))"
  have "pg_no (page_id (pages bp ! f)) = INVALID_PAGE_ID" using bp_wfD(8) [OF assms(1), of f] fl by simp
  then have "writeback f ?b1 = (Inr (), ?b1)" by (simp add: writeback_def)
  then have up: "update_page f pid f ?b1 = (Inr (), ?i)" by (simp add: update_page_alt)
  obtain e b dm where rd: "read_page (pg_fd pid) (pg_no pid) (page_data (pages ?i ! f)) PAGE_SIZE (disk bp) = (Inl e, b, dm)"
    using read_page_missing [OF bp_wfD(14) [OF assms(1)] assms(5)] by blast
  have dk: "disk_page dm = disk_page (disk bp)"
    using disk_page_read_page [of "pg_fd pid" "pg_no pid" "page_data (pages ?i ! f)" PAGE_SIZE "disk bp"] rd by simp
  let ?r = "set_page f (\<lambda>p. p\<lparr>page_data := b\<rparr>) (?i\<lparr>disk := dm\<rparr>)"
  have "read_into f pid ?i = (Inl e, ?r)" using rd by (simp add: read_into_def)
  moreover have "map_of (page_table bp) pid = None" using assms(3) by (auto simp: cached_def)
  ultimately have "fetch_page pid bp = (Inl e, ?r)"
    using fl up by (simp add: fetch_page_def find_victim_page_def)
  moreover have "map_of (page_table ?r) pid = Some f" using assms(4) by (simp add: table_installed)
  then have "fetch_page pid ?r = (Inr (Some f), pin_frame f (pin_count (pages ?r ! f) + 1) ?r)"
    by (simp add: fetch_page_def)
  moreover have "disk_page (disk ?r) (pg_fd pid) (pg_no pid) = None" using dk assms(5) by simp
  ultimately show ?thesis by (metis pin_frame_simps(4))
qed

theorem fetch_missing_page_twice_witness:
  "\<exists>e bp1 f bp2. fetch_page (mk_pid 3 2) sample_bp = (Inl e, bp1) \<and>
     fetch_page (mk_pid 3 2) bp1 = (Inr (Some f), bp2)"
proof -
  have "free_list sample_bp \<noteq> []" by (simp add: sample_bp_def new_BufferPoolManager_def)
  moreover have "disk_page (disk sample_bp) 3 2 = None"
    using sample_bp_ok(8) by (simp add: view_def sample_bp_def new_BufferPoolManager_def)
  ultimately show ?thesis
    using fetch_missing_page_twice [OF sample_bp_ok(2), of "mk_pid 3 2"] sample_bp_ok(5) by auto
qed

end
