(* ===== verification/Bitmap.thy ===== *)
theory Bitmap
  imports Rmdb_Config
begin

text \<open>
  \<^verbatim>\<open>record/bitmap.h\<close>: the bitmap of a record page, most significant bit first. A bitmap is the
  bytes of a page buffer from the offset \<open>bm\<close> on. The lemmas give set, reset and test as operations
  on a set of positions, and the search as the least matching position.

  A negative position indexes memory in front of the bitmap, which is undefined behaviour in the
  sources; positions are natural numbers here.
\<close>

unbundle bit_operations_syntax

definition BITMAP_WIDTH :: nat where
  BITMAP_WIDTH_def [simp]: "BITMAP_WIDTH = 8"

definition BITMAP_HIGHEST_BIT :: byte where
  "BITMAP_HIGHEST_BIT = 0x80"

definition get_bucket :: "nat \<Rightarrow> nat" where
  "get_bucket pos = pos div BITMAP_WIDTH"

definition get_bit :: "nat \<Rightarrow> byte" where
  "get_bit pos = drop_bit (pos mod BITMAP_WIDTH) BITMAP_HIGHEST_BIT"

definition bm_init :: "buf \<Rightarrow> nat \<Rightarrow> nat \<Rightarrow> buf" where
  "bm_init d bm n = (\<lambda>i. if bm \<le> i \<and> i < bm + n then 0 else d i)"

definition bm_set :: "buf \<Rightarrow> nat \<Rightarrow> nat \<Rightarrow> buf" where
  "bm_set d bm pos = d(bm + get_bucket pos := d (bm + get_bucket pos) OR get_bit pos)"

definition bm_reset :: "buf \<Rightarrow> nat \<Rightarrow> nat \<Rightarrow> buf" where
  "bm_reset d bm pos = d(bm + get_bucket pos := d (bm + get_bucket pos) AND NOT (get_bit pos))"

definition is_set :: "buf \<Rightarrow> nat \<Rightarrow> nat \<Rightarrow> bool" where
  "is_set d bm pos \<longleftrightarrow> d (bm + get_bucket pos) AND get_bit pos \<noteq> 0"

text \<open>The loop of \<^verbatim>\<open>next_bit\<close> from \<open>i\<close> on.\<close>

function next_bit_from :: "bool \<Rightarrow> buf \<Rightarrow> nat \<Rightarrow> int \<Rightarrow> int \<Rightarrow> int" where
  "next_bit_from b d bm max_n i =
     (if i < max_n then if is_set d bm (nat i) = b then i else next_bit_from b d bm max_n (i + 1)
      else max_n)"
  by pat_completeness auto

termination next_bit_from
  by (relation "measure (\<lambda>(b, d, bm, max_n, i). nat (max_n - i))") auto

declare next_bit_from.simps [simp del]

definition next_bit :: "bool \<Rightarrow> buf \<Rightarrow> nat \<Rightarrow> int \<Rightarrow> int \<Rightarrow> int" where
  "next_bit b d bm max_n cur = next_bit_from b d bm max_n (cur + 1)"

definition first_bit :: "bool \<Rightarrow> buf \<Rightarrow> nat \<Rightarrow> int \<Rightarrow> int" where
  "first_bit b d bm max_n = next_bit b d bm max_n (- 1)"

section \<open>Single positions\<close>

lemma bit_get_bit: "bit (get_bit pos) n \<longleftrightarrow> n = 7 - pos mod 8"
proof -
  have "(0x80 :: byte) = push_bit 7 1" by simp
  then have top: "bit (0x80 :: byte) k \<longleftrightarrow> k = 7" for k
    by (simp only: bit_push_bit_iff bit_1_iff) auto
  have "bit (get_bit pos) n \<longleftrightarrow> bit (0x80 :: byte) (pos mod 8 + n)"
    by (simp only: get_bit_def BITMAP_HIGHEST_BIT_def BITMAP_WIDTH_def bit_drop_bit_eq o_apply)
  also have "\<dots> \<longleftrightarrow> pos mod 8 + n = 7" by (rule top)
  also have "\<dots> \<longleftrightarrow> n = 7 - pos mod 8" by (rule iffI) (use mod_less_divisor [of 8 pos] in linarith)+
  finally show ?thesis .
qed

lemma is_set_bit: "is_set d bm pos \<longleftrightarrow> bit (d (bm + pos div 8)) (7 - pos mod 8)"
proof -
  have "d (bm + pos div 8) AND get_bit pos \<noteq> 0 \<longleftrightarrow> (\<exists>n. bit (d (bm + pos div 8) AND get_bit pos) n)"
    by (metis bit_0_eq bit_eq_iff bot_apply bot_bool_def)
  then show ?thesis by (auto simp: is_set_def get_bucket_def bit_and_iff bit_get_bit)
qed

lemma position_eq: "p div 8 = q div 8 \<Longrightarrow> 7 - p mod 8 = 7 - q mod (8::nat) \<Longrightarrow> p = q"
proof -
  assume d: "p div 8 = q div 8" and m: "7 - p mod 8 = 7 - q mod (8::nat)"
  have "p mod 8 \<le> 7" "q mod 8 \<le> 7" by simp_all
  with m have "p mod 8 = q mod 8" by linarith
  with d show "p = q" by (metis div_mult_mod_eq)
qed

lemma is_set_bm_set: "is_set (bm_set d bm p) bm q \<longleftrightarrow> q = p \<or> is_set d bm q"
  using position_eq [of q p]
  by (auto simp: is_set_bit bm_set_def get_bucket_def bit_or_iff bit_get_bit)

lemma is_set_bm_reset: "is_set (bm_reset d bm p) bm q \<longleftrightarrow> q \<noteq> p \<and> is_set d bm q"
proof (cases "q div 8 = p div 8")
  case True
  have "7 - q mod 8 < LENGTH(8)" by simp
  then show ?thesis using True position_eq [of q p]
    by (auto simp: is_set_bit bm_reset_def get_bucket_def bit_and_iff bit_not_iff bit_get_bit)
next
  case False
  then show ?thesis by (auto simp: is_set_bit bm_reset_def get_bucket_def)
qed

lemma bm_set_outside [byte_simps]:
  "i < bm \<or> bm + n \<le> i \<Longrightarrow> p < 8 * n \<Longrightarrow> bm_set d bm p i = d i"
  by (auto simp: bm_set_def get_bucket_def less_mult_imp_div_less mult.commute)

lemma bm_reset_outside [byte_simps]:
  "i < bm \<or> bm + n \<le> i \<Longrightarrow> p < 8 * n \<Longrightarrow> bm_reset d bm p i = d i"
  by (auto simp: bm_reset_def get_bucket_def less_mult_imp_div_less mult.commute)

lemma is_set_cong: "(\<And>i. bm \<le> i \<Longrightarrow> i < bm + n \<Longrightarrow> d i = e i) \<Longrightarrow> p < 8 * n \<Longrightarrow> is_set d bm p = is_set e bm p"
  by (simp add: is_set_bit less_mult_imp_div_less mult.commute)

lemma is_set_bm_init: "p < 8 * n \<Longrightarrow> \<not> is_set (bm_init d bm n) bm p"
  by (simp add: is_set_bit bm_init_def less_mult_imp_div_less mult.commute)

section \<open>Search\<close>

lemma next_bit_from_cases:
  assumes "i \<le> max_n"
  obtains (found) "i \<le> next_bit_from b d bm max_n i" "next_bit_from b d bm max_n i < max_n"
      "is_set d bm (nat (next_bit_from b d bm max_n i)) = b"
      "\<forall>k. i \<le> k \<and> k < next_bit_from b d bm max_n i \<longrightarrow> is_set d bm (nat k) \<noteq> b"
  | (none) "next_bit_from b d bm max_n i = max_n"
      "\<forall>k. i \<le> k \<and> k < max_n \<longrightarrow> is_set d bm (nat k) \<noteq> b"
  using assms
proof (induction b d bm max_n i arbitrary: thesis rule: next_bit_from.induct)
  case (1 b d bm max_n i)
  note eq = next_bit_from.simps [of b d bm max_n i]
  show ?case
  proof (cases "i < max_n \<and> is_set d bm (nat i) \<noteq> b")
    case False
    then consider "i < max_n" "is_set d bm (nat i) = b" | "i = max_n" using "1.prems"(3) by fastforce
    then show ?thesis
    proof cases
      case 1
      then have "next_bit_from b d bm max_n i = i" by (simp add: eq)
      with 1 show ?thesis by (intro "1.prems"(1)) auto
    next
      case 2
      then have "next_bit_from b d bm max_n i = max_n" using eq by simp
      with 2 show ?thesis by (intro "1.prems"(2)) auto
    qed
  next
    case True
    have split: "i \<le> k \<longleftrightarrow> k = i \<or> i + 1 \<le> k" for k by auto
    from True have "i + 1 \<le> max_n" by simp
    show ?thesis
    proof (rule "1.IH")
      show "i < max_n" "is_set d bm (nat i) \<noteq> b" "i + 1 \<le> max_n" using True by auto
      let ?r = "next_bit_from b d bm max_n (i + 1)"
      have r: "next_bit_from b d bm max_n i = ?r" using True by (simp add: eq)
      show thesis if "i + 1 \<le> ?r" "?r < max_n" "is_set d bm (nat ?r) = b"
        "\<forall>k. i + 1 \<le> k \<and> k < ?r \<longrightarrow> is_set d bm (nat k) \<noteq> b"
        using that True by (intro "1.prems"(1)) (auto simp: r split)
      show thesis if "?r = max_n" "\<forall>k. i + 1 \<le> k \<and> k < max_n \<longrightarrow> is_set d bm (nat k) \<noteq> b"
        using that True by (intro "1.prems"(2)) (auto simp: r split)
    qed
  qed
qed

lemma first_bit_cases:
  assumes "0 \<le> max_n"
  obtains (found) s where "first_bit b d bm max_n = int s" "int s < max_n" "is_set d bm s = b"
      "\<forall>k < s. is_set d bm k \<noteq> b"
  | (none) "first_bit b d bm max_n = max_n" "\<forall>k. int k < max_n \<longrightarrow> is_set d bm k \<noteq> b"
proof -
  have e: "first_bit b d bm max_n = next_bit_from b d bm max_n 0" by (simp add: first_bit_def next_bit_def)
  from assms show thesis
  proof (cases rule: next_bit_from_cases [where b = b and d = d and bm = bm])
    case found
    moreover have "is_set d bm k \<noteq> b" if "k < nat (next_bit_from b d bm max_n 0)" for k
      using found(4) [rule_format, of "int k"] that by simp
    ultimately show thesis
      by (intro that(1) [of "nat (next_bit_from b d bm max_n 0)"]) (simp_all add: e)
  next
    case none
    moreover have "is_set d bm k \<noteq> b" if "int k < max_n" for k
      using none(2) [rule_format, of "int k"] that by simp
    ultimately show thesis by (intro that(2)) (simp_all add: e)
  qed
qed

section \<open>Properties\<close>

text \<open>
  C37: a bitmap represents a set of positions: setting a bit inserts exactly its position,
  resetting removes exactly it, a cleared bitmap is empty, and the search returns the first
  position behind \<open>cur\<close> with the wanted value, or \<open>max_n\<close> when there is none.
\<close>

theorem bitmap_set_semantics:
  "is_set (bm_set d bm p) bm q = (q = p \<or> is_set d bm q) \<and>
   is_set (bm_reset d bm p) bm q = (q \<noteq> p \<and> is_set d bm q) \<and>
   (cur < max_n \<and> - 1 \<le> cur \<longrightarrow>
      (let r = next_bit b d bm max_n cur
       in cur < r \<and> r \<le> max_n \<and> (r < max_n \<longrightarrow> is_set d bm (nat r) = b) \<and>
          (\<forall>k. cur < k \<and> k < r \<longrightarrow> is_set d bm (nat k) \<noteq> b)))"
proof -
  have "let r = next_bit b d bm max_n cur
       in cur < r \<and> r \<le> max_n \<and> (r < max_n \<longrightarrow> is_set d bm (nat r) = b) \<and>
          (\<forall>k. cur < k \<and> k < r \<longrightarrow> is_set d bm (nat k) \<noteq> b)" if "cur < max_n"
  proof -
    have "cur + 1 \<le> max_n" using that by simp
    then show ?thesis
      by (cases rule: next_bit_from_cases [where b = b and d = d and bm = bm])
        (use that in \<open>auto simp: next_bit_def Let_def\<close>)
  qed
  then show ?thesis by (auto simp: is_set_bm_set is_set_bm_reset)
qed

theorem bitmap_set_semantics_witness:
  "is_set (bm_set zero_buf 12 9) 12 9 \<and> next_bit True (bm_set zero_buf 12 9) 12 20 3 \<le> 20"
  using bitmap_set_semantics [of zero_buf 12 9 9]
    bitmap_set_semantics [of zero_buf 12 0 0 3 20 True] bitmap_set_semantics [of "bm_set zero_buf 12 9" 12 0 0 3 20 True]
  by (simp add: Let_def)

end
