(* ===== verification/Rm_Page.thy ===== *)
theory Rm_Page
  imports Bitmap Disk_Manager
begin

text \<open>
  \<^verbatim>\<open>record/rm_defs.h\<close> and the \<^verbatim>\<open>RmPageHandle\<close> of \<^verbatim>\<open>record/rm_file_handle.h\<close>: the file header with its
  20-byte image on disk, the header arithmetic of \<^verbatim>\<open>RmManager::create_file\<close>, and the layout of a
  record page (log sequence number, page header, bitmap, slots) as offsets into the page buffer.

  Lemmas: the layout fits the page with the slots disjoint from each other, from the bitmap and
  from the header, so that storing one record is seen at its slot only.
\<close>

definition RM_NO_PAGE :: int where
  RM_NO_PAGE_def [simp]: "RM_NO_PAGE = - 1"

definition RM_FILE_HDR_PAGE :: int where
  RM_FILE_HDR_PAGE_def [simp]: "RM_FILE_HDR_PAGE = 0"

definition RM_FIRST_RECORD_PAGE :: int where
  RM_FIRST_RECORD_PAGE_def [simp]: "RM_FIRST_RECORD_PAGE = 1"

definition RM_MAX_RECORD_SIZE :: int where
  RM_MAX_RECORD_SIZE_def [simp]: "RM_MAX_RECORD_SIZE = 512"

section \<open>File header\<close>

record RmFileHdr =
  record_size :: int
  num_pages :: int
  num_records_per_page :: int
  first_free_page_no :: int
  bitmap_size :: int

definition sizeof_RmFileHdr :: nat where
  "sizeof_RmFileHdr = 20"

text \<open>The memory image of the structure, and reading it back.\<close>

definition hdr_bytes :: "RmFileHdr \<Rightarrow> byte list" where
  "hdr_bytes h =
     i32_bytes (record_size h) @ i32_bytes (num_pages h) @ i32_bytes (num_records_per_page h) @
     i32_bytes (first_free_page_no h) @ i32_bytes (bitmap_size h)"

definition hdr_of :: "buf \<Rightarrow> RmFileHdr" where
  "hdr_of d =
     \<lparr>record_size = get_i32 d 0, num_pages = get_i32 d 4, num_records_per_page = get_i32 d 8,
      first_free_page_no = get_i32 d 12, bitmap_size = get_i32 d 16\<rparr>"

text \<open>The header that \<^verbatim>\<open>RmManager::create_file\<close> writes for a new table.\<close>

definition init_file_hdr :: "int \<Rightarrow> RmFileHdr" where
  "init_file_hdr rs =
     (let n = (int BITMAP_WIDTH * (int PAGE_SIZE - 1 - int sizeof_RmFileHdr) + 1) div (1 + rs * int BITMAP_WIDTH)
      in \<lparr>record_size = rs, num_pages = 1, num_records_per_page = n, first_free_page_no = RM_NO_PAGE,
          bitmap_size = (n + int BITMAP_WIDTH - 1) div int BITMAP_WIDTH\<rparr>)"

definition hdr_in_range :: "RmFileHdr \<Rightarrow> bool" where
  "hdr_in_range h \<longleftrightarrow>
     int32_range (record_size h) \<and> int32_range (num_pages h) \<and> int32_range (num_records_per_page h) \<and>
     int32_range (first_free_page_no h) \<and> int32_range (bitmap_size h)"

lemma length_hdr_bytes [simp]: "length (hdr_bytes h) = sizeof_RmFileHdr"
  by (simp add: hdr_bytes_def sizeof_RmFileHdr_def)

lemma get_bytes_put_inner:
  "get_bytes (put_bytes d off (xs @ ys @ zs)) (off + length xs) (length ys) = ys"
  by (rule nth_equalityI) (auto simp: put_bytes_def nth_append)

lemma get_i32_of_bytes:
  assumes "int32_range v" and "bs = xs @ i32_bytes v @ zs" and "off' = off + length xs"
  shows "get_i32 (put_bytes d off bs) off' = v"
  using get_bytes_put_inner [of d off xs "i32_bytes v" zs] assms
  by (simp add: get_i32_def signed_i32_bytes)

lemma hdr_of_hdr_bytes:
  assumes "hdr_in_range h"
  shows "hdr_of (put_bytes d 0 (hdr_bytes h)) = h"
proof -
  note r = assms [unfolded hdr_in_range_def]
  have "get_i32 (put_bytes d 0 (hdr_bytes h)) 0 = record_size h"
    by (rule get_i32_of_bytes [where xs = "[]"]) (use r in \<open>simp_all add: hdr_bytes_def\<close>)
  moreover have "get_i32 (put_bytes d 0 (hdr_bytes h)) 4 = num_pages h"
    by (rule get_i32_of_bytes [where xs = "i32_bytes (record_size h)"]) (use r in \<open>simp_all add: hdr_bytes_def\<close>)
  moreover have "get_i32 (put_bytes d 0 (hdr_bytes h)) 8 = num_records_per_page h"
    by (rule get_i32_of_bytes [where xs = "i32_bytes (record_size h) @ i32_bytes (num_pages h)"])
      (use r in \<open>simp_all add: hdr_bytes_def\<close>)
  moreover have "get_i32 (put_bytes d 0 (hdr_bytes h)) 12 = first_free_page_no h"
    by (rule get_i32_of_bytes [where xs = "i32_bytes (record_size h) @ i32_bytes (num_pages h) @
          i32_bytes (num_records_per_page h)"]) (use r in \<open>simp_all add: hdr_bytes_def\<close>)
  moreover have "get_i32 (put_bytes d 0 (hdr_bytes h)) 16 = bitmap_size h"
    by (rule get_i32_of_bytes [where xs = "i32_bytes (record_size h) @ i32_bytes (num_pages h) @
          i32_bytes (num_records_per_page h) @ i32_bytes (first_free_page_no h)" and zs = "[]"])
      (use r in \<open>simp_all add: hdr_bytes_def\<close>)
  ultimately show ?thesis by (simp add: hdr_of_def)
qed

section \<open>Page layout\<close>

text \<open>The pointers \<^verbatim>\<open>page_hdr\<close>, \<^verbatim>\<open>bitmap\<close>, \<^verbatim>\<open>slots\<close> of \<^verbatim>\<open>RmPageHandle\<close> as offsets into the page.\<close>

definition off_page_hdr :: nat where
  "off_page_hdr = 4"

definition off_num_records :: nat where
  "off_num_records = 8"

definition off_bitmap :: nat where
  "off_bitmap = 12"

definition off_slots :: "RmFileHdr \<Rightarrow> nat" where
  "off_slots h = off_bitmap + nat (bitmap_size h)"

definition get_slot :: "RmFileHdr \<Rightarrow> nat \<Rightarrow> nat" where
  "get_slot h s = off_slots h + s * nat (record_size h)"

definition next_free :: "buf \<Rightarrow> int" where
  "next_free d = get_i32 d off_page_hdr"

definition num_records :: "buf \<Rightarrow> int" where
  "num_records d = get_i32 d off_num_records"

definition set_next_free :: "int \<Rightarrow> buf \<Rightarrow> buf" where
  "set_next_free k d = put_i32 d off_page_hdr k"

definition set_num_records :: "int \<Rightarrow> buf \<Rightarrow> buf" where
  "set_num_records k d = put_i32 d off_num_records k"

lemmas page_offs = off_page_hdr_def off_num_records_def off_bitmap_def

definition hdr_ok :: "RmFileHdr \<Rightarrow> bool" where
  "hdr_ok h \<longleftrightarrow>
     1 \<le> record_size h \<and> record_size h \<le> RM_MAX_RECORD_SIZE \<and>
     num_records_per_page h = num_records_per_page (init_file_hdr (record_size h)) \<and>
     bitmap_size h = bitmap_size (init_file_hdr (record_size h))"

lemma hdr_ok_init: "1 \<le> rs \<Longrightarrow> rs \<le> RM_MAX_RECORD_SIZE \<Longrightarrow> hdr_ok (init_file_hdr rs)"
  by (simp add: hdr_ok_def init_file_hdr_def Let_def)

lemma hdr_ok_cong [simp]:
  "hdr_ok (h\<lparr>num_pages := k\<rparr>) = hdr_ok h" "hdr_ok (h\<lparr>first_free_page_no := k\<rparr>) = hdr_ok h"
  by (simp_all add: hdr_ok_def)

lemma div_times_bound:
  assumes "(0::int) < b"
  shows "a div b * b \<le> a"
  using div_mult_mod_eq [of a b] pos_mod_sign [OF assms, of a] by linarith

lemma bitmap_bytes_bounds: "(n::int) \<le> 8 * ((n + 7) div 8)" "8 * ((n + 7) div 8) \<le> n + 7"
  by presburger+

lemma hdr_ok_bounds:
  assumes "hdr_ok h"
  shows "1 \<le> record_size h" and "record_size h \<le> 512" and "7 \<le> num_records_per_page h"
    and "num_records_per_page h \<le> 8 * bitmap_size h"
    and "12 + bitmap_size h + num_records_per_page h * record_size h \<le> 4096"
    and "num_records_per_page h \<le> 32601"
proof -
  let ?r = "record_size h" and ?n = "num_records_per_page h" and ?b = "bitmap_size h"
  have r: "1 \<le> ?r" "?r \<le> 512" using assms by (auto simp: hdr_ok_def)
  have n: "?n = 32601 div (1 + ?r * 8)"
    using assms by (simp add: hdr_ok_def init_file_hdr_def sizeof_RmFileHdr_def Let_def add.commute)
  have b: "?b = (?n + 7) div 8"
    using assms by (simp add: hdr_ok_def init_file_hdr_def sizeof_RmFileHdr_def Let_def add.commute)
  show "1 \<le> ?r" "?r \<le> 512" by (fact r)+
  have "32601 div (1 + 512 * 8) \<le> ?n"
    unfolding n using r by (intro zdiv_mono2) auto
  then show "7 \<le> ?n" by simp
  show "?n \<le> 8 * ?b" unfolding b by (rule bitmap_bytes_bounds)
  have "?n * (1 + ?r * 8) \<le> 32601" unfolding n using r by (intro div_times_bound) simp
  then have "?n + 8 * (?n * ?r) \<le> 32601" by (simp add: algebra_simps)
  moreover have "8 * ?b \<le> ?n + 7" unfolding b by (rule bitmap_bytes_bounds)
  ultimately show "12 + ?b + ?n * ?r \<le> 4096" by linarith
  have "0 \<le> ?n * ?r" using \<open>7 \<le> ?n\<close> r by simp
  with \<open>?n + 8 * (?n * ?r) \<le> 32601\<close> show "?n \<le> 32601" by linarith
qed

section \<open>Records of a page\<close>

text \<open>The record stored at a slot, and the occupied slots.\<close>

definition page_rec :: "RmFileHdr \<Rightarrow> buf \<Rightarrow> nat \<Rightarrow> byte list option" where
  "page_rec h d s =
     (if is_set d off_bitmap s then Some (get_bytes d (get_slot h s) (nat (record_size h))) else None)"

definition used_slots :: "RmFileHdr \<Rightarrow> buf \<Rightarrow> nat set" where
  "used_slots h d = {s. int s < num_records_per_page h \<and> is_set d off_bitmap s}"

lemma finite_used_slots [simp]: "finite (used_slots h d)"
  by (rule finite_subset [of _ "{..nat (num_records_per_page h)}"]) (auto simp: used_slots_def)

text \<open>The writes of the record operations, on the buffer of the page.\<close>

definition put_record :: "RmFileHdr \<Rightarrow> nat \<Rightarrow> byte list \<Rightarrow> buf \<Rightarrow> buf" where
  "put_record h s bs d = put_bytes d (get_slot h s) (take (nat (record_size h)) bs)"

definition add_record :: "RmFileHdr \<Rightarrow> nat \<Rightarrow> byte list \<Rightarrow> buf \<Rightarrow> buf" where
  "add_record h s bs d =
     (let d1 = bm_set (put_record h s bs d) off_bitmap s in set_num_records (num_records d1 + 1) d1)"

definition remove_record :: "nat \<Rightarrow> buf \<Rightarrow> buf" where
  "remove_record s d =
     (let d1 = bm_reset d off_bitmap s in set_num_records (num_records d1 - 1) d1)"

lemma get_slot_bounds:
  assumes "hdr_ok h" and "int s < num_records_per_page h"
  shows "off_bitmap + nat (bitmap_size h) \<le> get_slot h s"
    and "get_slot h s + nat (record_size h) \<le> PAGE_SIZE" and "s < 8 * nat (bitmap_size h)"
proof -
  note b = hdr_ok_bounds [OF assms(1)]
  show "off_bitmap + nat (bitmap_size h) \<le> get_slot h s" by (simp add: get_slot_def off_slots_def)
  show "s < 8 * nat (bitmap_size h)" using assms(2) b(4) by linarith
  have "(int s + 1) * record_size h \<le> num_records_per_page h * record_size h"
    using assms(2) b(1) by (intro mult_right_mono) auto
  then have "12 + bitmap_size h + (int s * record_size h + record_size h) \<le> 4096"
    using b(5) by (simp add: algebra_simps)
  moreover have "0 \<le> bitmap_size h" using b(3,4) by linarith
  moreover have "int (get_slot h s + nat (record_size h)) =
      12 + bitmap_size h + (int s * record_size h + record_size h)"
    using b(1) \<open>0 \<le> bitmap_size h\<close> by (simp add: get_slot_def off_slots_def off_bitmap_def)
  ultimately have "int (get_slot h s + nat (record_size h)) \<le> 4096" by simp
  then show "get_slot h s + nat (record_size h) \<le> PAGE_SIZE" unfolding PAGE_SIZE_def by linarith
qed

lemma get_slot_disjoint:
  assumes "s \<noteq> t"
  shows "get_slot h s + nat (record_size h) \<le> get_slot h t \<or> get_slot h t + nat (record_size h) \<le> get_slot h s"
proof -
  have "s + 1 \<le> t \<or> t + 1 \<le> s" using assms by linarith
  then have "(s + 1) * nat (record_size h) \<le> t * nat (record_size h) \<or>
      (t + 1) * nat (record_size h) \<le> s * nat (record_size h)"
    using mult_le_mono1 by blast
  then show ?thesis by (simp add: get_slot_def) linarith
qed

lemma num_records_set [simp]: "int32_range k \<Longrightarrow> num_records (set_num_records k d) = k"
  by (simp add: num_records_def set_num_records_def byte_simps)

lemma next_free_set [simp]: "int32_range k \<Longrightarrow> next_free (set_next_free k d) = k"
  by (simp add: next_free_def set_next_free_def byte_simps)

lemma num_records_set_next_free [simp]: "num_records (set_next_free k d) = num_records d"
  by (simp add: num_records_def set_next_free_def page_offs byte_simps)

lemma next_free_set_num_records [simp]: "next_free (set_num_records k d) = next_free d"
  by (simp add: next_free_def set_num_records_def page_offs byte_simps)

text \<open>Writes below the bitmap leave the records alone; writes above it leave the page header alone.\<close>

lemma page_rec_cong:
  assumes "hdr_ok h" and "int s < num_records_per_page h"
    and "\<And>i. off_bitmap \<le> i \<Longrightarrow> i < PAGE_SIZE \<Longrightarrow> d i = e i"
  shows "page_rec h d s = page_rec h e s"
proof -
  note b = get_slot_bounds [OF assms(1,2)]
  have "get_bytes d (get_slot h s) (nat (record_size h)) = get_bytes e (get_slot h s) (nat (record_size h))"
    by (rule get_bytes_cong) (use b(1,2) in \<open>auto intro!: assms(3)\<close>)
  moreover have "is_set d off_bitmap s = is_set e off_bitmap s"
    by (rule is_set_cong [OF _ b(3)]) (use b(1,2) in \<open>auto intro!: assms(3)\<close>)
  ultimately show ?thesis by (simp add: page_rec_def)
qed

lemma page_rec_headers [simp]:
  assumes "hdr_ok h" and "int s < num_records_per_page h"
  shows "page_rec h (set_num_records k d) s = page_rec h d s"
    and "page_rec h (set_next_free k d) s = page_rec h d s" and "page_rec h (clip_page d) s = page_rec h d s"
  by (rule page_rec_cong [OF assms], simp add: set_num_records_def set_next_free_def page_offs put_i32_outside clip_page_def)+

lemma used_slots_rec: "used_slots h d = {s. int s < num_records_per_page h \<and> page_rec h d s \<noteq> None}"
  by (auto simp: used_slots_def page_rec_def)

lemma page_header_cong:
  "(\<And>i. i < off_bitmap \<Longrightarrow> d i = e i) \<Longrightarrow> num_records d = num_records e \<and> next_free d = next_free e"
  unfolding num_records_def next_free_def page_offs by (intro conjI get_i32_cong) auto

lemma page_header_clip [simp]: "num_records (clip_page d) = num_records d" "next_free (clip_page d) = next_free d"
  using page_header_cong [of "clip_page d" d] by (simp_all add: clip_page_def off_bitmap_def)

lemma page_rec_put_record:
  assumes "hdr_ok h" and "int s < num_records_per_page h" and "int t < num_records_per_page h"
    and "length bs = nat (record_size h)"
  shows "page_rec h (put_record h s bs d) t =
    (if is_set d off_bitmap t then if t = s then Some bs else page_rec h d t else None)"
proof -
  note b = get_slot_bounds [OF assms(1,2)] and bt = get_slot_bounds [OF assms(1,3)]
  have tk: "take (nat (record_size h)) bs = bs" using assms(4) by simp
  have "is_set (put_record h s bs d) off_bitmap t = is_set d off_bitmap t"
    by (rule is_set_cong [OF _ bt(3)]) (use b(1) in \<open>auto simp: put_record_def put_bytes_def\<close>)
  moreover have "get_bytes (put_record h s bs d) (get_slot h t) (nat (record_size h)) =
      (if t = s then bs else get_bytes d (get_slot h t) (nat (record_size h)))"
    using get_slot_disjoint [of t s h] assms(4)
    by (auto simp: put_record_def tk get_put_same get_put_disjoint)
  ultimately show ?thesis by (simp add: page_rec_def)
qed

lemma page_header_put_record [simp]:
  assumes "hdr_ok h" and "int s < num_records_per_page h"
  shows "num_records (put_record h s bs d) = num_records d" and "next_free (put_record h s bs d) = next_free d"
  using page_header_cong [of "put_record h s bs d" d] get_slot_bounds(1) [OF assms]
  by (auto simp: put_record_def put_bytes_def)

lemma page_rec_bm:
  assumes "hdr_ok h" and "int s < num_records_per_page h" and "int t < num_records_per_page h"
  shows "page_rec h (bm_set d off_bitmap s) t =
      (if t = s then Some (get_bytes d (get_slot h s) (nat (record_size h))) else page_rec h d t)"
    and "page_rec h (bm_reset d off_bitmap s) t = (if t = s then None else page_rec h d t)"
proof -
  note b = get_slot_bounds [OF assms(1,2)] and bt = get_slot_bounds [OF assms(1,3)]
  have "get_bytes (bm_set d off_bitmap s) (get_slot h t) (nat (record_size h)) =
      get_bytes d (get_slot h t) (nat (record_size h))"
    by (rule get_bytes_cong, rule bm_set_outside [OF _ b(3)]) (use bt(1) in auto)
  then show "page_rec h (bm_set d off_bitmap s) t =
      (if t = s then Some (get_bytes d (get_slot h s) (nat (record_size h))) else page_rec h d t)"
    by (auto simp: page_rec_def is_set_bm_set)
  have "get_bytes (bm_reset d off_bitmap s) (get_slot h t) (nat (record_size h)) =
      get_bytes d (get_slot h t) (nat (record_size h))"
    by (rule get_bytes_cong, rule bm_reset_outside [OF _ b(3)]) (use bt(1) in auto)
  then show "page_rec h (bm_reset d off_bitmap s) t = (if t = s then None else page_rec h d t)"
    by (auto simp: page_rec_def is_set_bm_reset)
qed

lemma page_header_bm [simp]:
  "num_records (bm_set d off_bitmap s) = num_records d" "next_free (bm_set d off_bitmap s) = next_free d"
  "num_records (bm_reset d off_bitmap s) = num_records d" "next_free (bm_reset d off_bitmap s) = next_free d"
  using page_header_cong [of "bm_set d off_bitmap s" d] page_header_cong [of "bm_reset d off_bitmap s" d]
  by (simp_all add: bm_set_def bm_reset_def)

lemma add_record_spec:
  assumes h: "hdr_ok h" and s: "int s < num_records_per_page h" and bs: "length bs = nat (record_size h)"
    and r: "int32_range (num_records d + 1)"
  shows "int t < num_records_per_page h \<Longrightarrow>
      page_rec h (add_record h s bs d) t = (if t = s then Some bs else page_rec h d t)"
    and "num_records (add_record h s bs d) = num_records d + 1"
    and "next_free (add_record h s bs d) = next_free d"
    and "s \<notin> used_slots h d \<Longrightarrow> card (used_slots h (add_record h s bs d)) = card (used_slots h d) + 1"
proof -
  note b = get_slot_bounds [OF h s]
  have g: "get_bytes (put_record h s bs d) (get_slot h s) (nat (record_size h)) = bs"
    using bs by (simp add: put_record_def get_put_same)
  show rec: "page_rec h (add_record h s bs d) t = (if t = s then Some bs else page_rec h d t)"
    if t: "int t < num_records_per_page h" for t
    using h t page_rec_bm(1) [OF h s t] g page_rec_put_record [OF h s t bs]
    by (simp add: add_record_def Let_def) (simp add: page_rec_def)
  show "num_records (add_record h s bs d) = num_records d + 1" "next_free (add_record h s bs d) = next_free d"
    using h s r by (simp_all add: add_record_def Let_def)
  assume "s \<notin> used_slots h d"
  moreover have "used_slots h (add_record h s bs d) = insert s (used_slots h d)"
    using rec s by (auto simp: used_slots_rec)
  ultimately show "card (used_slots h (add_record h s bs d)) = card (used_slots h d) + 1" by simp
qed

lemma remove_record_spec:
  assumes h: "hdr_ok h" and s: "int s < num_records_per_page h" and r: "int32_range (num_records d - 1)"
  shows "int t < num_records_per_page h \<Longrightarrow>
      page_rec h (remove_record s d) t = (if t = s then None else page_rec h d t)"
    and "num_records (remove_record s d) = num_records d - 1"
    and "next_free (remove_record s d) = next_free d"
    and "s \<in> used_slots h d \<Longrightarrow> card (used_slots h d) = card (used_slots h (remove_record s d)) + 1"
proof -
  show rec: "page_rec h (remove_record s d) t = (if t = s then None else page_rec h d t)"
    if t: "int t < num_records_per_page h" for t
    using h t page_rec_bm(2) [OF h s t] by (simp add: remove_record_def Let_def)
  show "num_records (remove_record s d) = num_records d - 1" "next_free (remove_record s d) = next_free d"
    using r by (simp_all add: remove_record_def Let_def)
  assume u: "s \<in> used_slots h d"
  have "used_slots h (remove_record s d) = used_slots h d - {s}"
    using rec s by (auto simp: used_slots_rec split: if_splits)
  with u show "card (used_slots h d) = card (used_slots h (remove_record s d)) + 1"
    by (metis Suc_eq_plus1 card_Suc_Diff1 finite_used_slots)
qed

lemma used_slots_bound: "hdr_ok h \<Longrightarrow> int (card (used_slots h d)) \<le> num_records_per_page h"
proof -
  assume h: "hdr_ok h"
  have "card (used_slots h d) \<le> card {..<nat (num_records_per_page h)}"
    by (rule card_mono) (auto simp: used_slots_def)
  then show ?thesis using hdr_ok_bounds(3) [OF h] by simp
qed

lemma used_slots_full:
  assumes "hdr_ok h" and "int (card (used_slots h d)) = num_records_per_page h" and "int s < num_records_per_page h"
  shows "s \<in> used_slots h d"
proof -
  have "used_slots h d = {..<nat (num_records_per_page h)}"
  proof (rule card_subset_eq)
    show "used_slots h d \<subseteq> {..<nat (num_records_per_page h)}" by (auto simp: used_slots_def)
    show "card (used_slots h d) = card {..<nat (num_records_per_page h)}" using assms(2) by simp
  qed simp
  with assms(3) show ?thesis by simp
qed

section \<open>Properties\<close>

text \<open>
  C36: for every record size \<^verbatim>\<open>create_file\<close> accepts, the page layout it computes fits the page: at least
  seven records; the log sequence number, the two fields of the page header, the bitmap with a bit for
  each record, and the slots lie behind one another without overlapping; no two slots share a byte, and every slot
  ends inside the \<open>PAGE_SIZE\<close> bytes. The file header itself fits its 32-bit fields.
\<close>

theorem page_layout_fits:
  assumes "1 \<le> rs" and "rs \<le> RM_MAX_RECORD_SIZE" and "int s < num_records_per_page (init_file_hdr rs)"
  shows "get_slot (init_file_hdr rs) s + nat rs \<le> PAGE_SIZE \<and>
    4 \<le> off_page_hdr \<and> off_page_hdr + 4 \<le> off_num_records \<and> off_num_records + 4 \<le> off_bitmap \<and>
    off_bitmap + get_bucket s < off_slots (init_file_hdr rs) \<and> off_slots (init_file_hdr rs) \<le> get_slot (init_file_hdr rs) s \<and>
    (\<forall>s'. s' \<noteq> s \<longrightarrow> {get_slot (init_file_hdr rs) s'..<get_slot (init_file_hdr rs) s' + nat rs} \<inter>
       {get_slot (init_file_hdr rs) s..<get_slot (init_file_hdr rs) s + nat rs} = {}) \<and>
    7 \<le> num_records_per_page (init_file_hdr rs) \<and> hdr_in_range (init_file_hdr rs)"
proof -
  have h: "hdr_ok (init_file_hdr rs)" using assms(1,2) by (rule hdr_ok_init)
  have rs: "record_size (init_file_hdr rs) = rs" by (simp add: init_file_hdr_def Let_def)
  have "num_pages (init_file_hdr rs) = 1" "first_free_page_no (init_file_hdr rs) = - 1"
    by (simp_all add: init_file_hdr_def Let_def)
  moreover have "0 \<le> num_records_per_page (init_file_hdr rs) * rs" using hdr_ok_bounds(1,3) [OF h] rs by simp
  moreover have "bitmap_size (init_file_hdr rs) \<le> 4096"
    using hdr_ok_bounds(5) [OF h] \<open>0 \<le> num_records_per_page (init_file_hdr rs) * rs\<close> rs by simp
  ultimately have "hdr_in_range (init_file_hdr rs)"
    using hdr_ok_bounds [OF h] rs by (auto simp: hdr_in_range_def int32_range_def)
  moreover have "{get_slot (init_file_hdr rs) s'..<get_slot (init_file_hdr rs) s' + nat rs} \<inter>
      {get_slot (init_file_hdr rs) s..<get_slot (init_file_hdr rs) s + nat rs} = {}" if "s' \<noteq> s" for s'
    using get_slot_disjoint [OF that, of "init_file_hdr rs"] rs by auto
  ultimately show ?thesis using get_slot_bounds [OF h assms(3)] hdr_ok_bounds(3) [OF h] rs
    by (simp add: off_slots_def get_slot_def get_bucket_def page_offs)
qed

theorem page_layout_fits_witness:
  "get_slot (init_file_hdr 100) 39 + 100 \<le> PAGE_SIZE \<and> hdr_in_range (init_file_hdr 100) \<and>
   {get_slot (init_file_hdr 100) 38..<get_slot (init_file_hdr 100) 38 + 100} \<inter>
     {get_slot (init_file_hdr 100) 39..<get_slot (init_file_hdr 100) 39 + 100} = {}"
proof -
  have "int 39 < num_records_per_page (init_file_hdr 100)"
    by (simp add: init_file_hdr_def Let_def sizeof_RmFileHdr_def)
  from page_layout_fits [OF _ _ this] have l: "get_slot (init_file_hdr 100) 39 + nat 100 \<le> PAGE_SIZE" "hdr_in_range (init_file_hdr 100)"
    "\<And>s'. s' \<noteq> 39 \<Longrightarrow> {get_slot (init_file_hdr 100) s'..<get_slot (init_file_hdr 100) s' + nat 100} \<inter>
       {get_slot (init_file_hdr 100) 39..<get_slot (init_file_hdr 100) 39 + nat 100} = {}" by simp_all
  then show ?thesis using l(3) [of 38] by simp
qed

end
