(* ===== verification/Rm_File.thy ===== *)
theory Rm_File
  imports Rm_Page Page_Cache
begin

text \<open>
  \<^verbatim>\<open>record/rm_file_handle\<close> and \<^verbatim>\<open>record/rm_manager.h\<close>: record files over the buffer
  pool. A computation works on a file handle (descriptor and header) together with the pool.
  A page handle is the frame of its page; its pointers are the offsets of \<open>Rm_Page\<close>.

  Lemmas: \<open>rm_inv\<close> (header consistent with the disk manager, record counters equal to the bitmap)
  and the free-page chain \<open>chain_inv\<close>; the operations refine a map from record ids to byte
  strings, \<open>recs\<close>.
\<close>

section \<open>File handles\<close>

record RmFileHandle =
  fh_fd :: int
  file_hdr :: RmFileHdr

record rm_state =
  fh :: RmFileHandle
  bpm :: buffer_pool

type_synonym 'a rm_op = "(rm_state, rmdb_error, 'a) sem"

definition on_pool :: "'a pool_op \<Rightarrow> 'a rm_op" where
  "on_pool = zoom bpm (\<lambda>b st. st\<lparr>bpm := b\<rparr>)"

definition set_hdr :: "(RmFileHdr \<Rightarrow> RmFileHdr) \<Rightarrow> rm_state \<Rightarrow> rm_state" where
  "set_hdr g st = st\<lparr>fh := (fh st)\<lparr>file_hdr := g (file_hdr (fh st))\<rparr>\<rparr>"

abbreviation hdr :: "rm_state \<Rightarrow> RmFileHdr" where
  "hdr st \<equiv> file_hdr (fh st)"

text \<open>\<^verbatim>\<open>buffer_pool_manager_->unpin_page(page_handle.page->get_page_id(), dirty)\<close>\<close>

definition unpin_handle :: "frame_id \<Rightarrow> bool \<Rightarrow> unit rm_op" where
  "unpin_handle f dirty =
     modify_e (\<lambda>st. st\<lparr>bpm := snd (unpin_page (page_id (pages (bpm st) ! f)) dirty (bpm st))\<rparr>)"

definition fetch_page_handle :: "int \<Rightarrow> frame_id rm_op" where
  "fetch_page_handle no =
     bind_e (gets_e fh) (\<lambda>h.
       if no < RM_FIRST_RECORD_PAGE \<or> no \<ge> num_pages (file_hdr h)
       then bind_e (on_pool (on_disk (get_file_name (fh_fd h)))) (\<lambda>name. throw (PageNotExistError name no))
       else bind_e (on_pool (fetch_page (mk_pid (fh_fd h) no))) (\<lambda>r.
         case r of None \<Rightarrow> throw (InternalError ''RmFileHandle::fetch_page_handle failed'')
                 | Some f \<Rightarrow> ret f))"

definition create_new_page_handle :: "frame_id rm_op" where
  "create_new_page_handle =
     bind_e (gets_e fh) (\<lambda>h.
     bind_e (on_pool (new_page (fh_fd h))) (\<lambda>r.
       case r of
         None \<Rightarrow> throw (InternalError ''RmFileHandle::create_new_page_handle failed'')
       | Some (f, pid) \<Rightarrow>
           bind_e (modify_e (\<lambda>st. st\<lparr>bpm := set_data f
               (bm_init (set_num_records 0 (set_next_free (first_free_page_no (hdr st)) (get_data (bpm st) f)))
                  off_bitmap (nat (bitmap_size (hdr st)))) (bpm st)\<rparr>)) (\<lambda>_.
           bind_e (modify_e (set_hdr (\<lambda>g. g\<lparr>num_pages := num_pages g + 1, first_free_page_no := pg_no pid\<rparr>))) (\<lambda>_.
           ret f))))"

definition create_page_handle :: "frame_id rm_op" where
  "create_page_handle =
     bind_e (gets_e hdr) (\<lambda>h.
       if first_free_page_no h = RM_NO_PAGE then create_new_page_handle
       else fetch_page_handle (first_free_page_no h))"

definition release_page_handle :: "frame_id \<Rightarrow> unit rm_op" where
  "release_page_handle f =
     bind_e (gets_e (\<lambda>st. (pg_no (page_id (pages (bpm st) ! f)), first_free_page_no (hdr st)))) (\<lambda>(no, ff).
       if ff = no then ret ()
       else bind_e (modify_e (\<lambda>st. st\<lparr>bpm := set_data f (set_next_free ff (get_data (bpm st) f)) (bpm st)\<rparr>)) (\<lambda>_.
            modify_e (set_hdr (\<lambda>g. g\<lparr>first_free_page_no := no\<rparr>))))"

section \<open>Record operations\<close>

definition rid_out_of_file :: "Rid \<Rightarrow> RmFileHdr \<Rightarrow> bool" where
  "rid_out_of_file rid h \<longleftrightarrow>
     page_no rid < RM_FIRST_RECORD_PAGE \<or> page_no rid \<ge> num_pages h \<or>
     slot_no rid < 0 \<or> slot_no rid \<ge> num_records_per_page h"

definition is_record :: "Rid \<Rightarrow> bool rm_op" where
  "is_record rid =
     bind_e (fetch_page_handle (page_no rid)) (\<lambda>f.
     bind_e (gets_e (\<lambda>st. is_set (get_data (bpm st) f) off_bitmap (nat (slot_no rid)))) (\<lambda>e.
     bind_e (unpin_handle f False) (\<lambda>_. ret e)))"

definition get_record :: "Rid \<Rightarrow> byte list rm_op" where
  "get_record rid =
     bind_e (gets_e hdr) (\<lambda>h.
       if rid_out_of_file rid h then throw (RecordNotFoundError (page_no rid) (slot_no rid))
       else
         bind_e (fetch_page_handle (page_no rid)) (\<lambda>f.
         bind_e (gets_e (\<lambda>st. get_data (bpm st) f)) (\<lambda>d.
           if \<not> is_set d off_bitmap (nat (slot_no rid))
           then bind_e (unpin_handle f False) (\<lambda>_. throw (RecordNotFoundError (page_no rid) (slot_no rid)))
           else bind_e (unpin_handle f False) (\<lambda>_.
                ret (get_bytes d (get_slot h (nat (slot_no rid))) (nat (record_size h)))))))"

definition insert_record :: "byte list \<Rightarrow> Rid rm_op" where
  "insert_record bs =
     bind_e create_page_handle (\<lambda>f.
     bind_e (gets_e (\<lambda>st. (hdr st, get_data (bpm st) f))) (\<lambda>(h, d).
       let s = first_bit False d off_bitmap (num_records_per_page h) in
       if s \<ge> num_records_per_page h
       then bind_e (unpin_handle f False) (\<lambda>_. throw (InternalError ''RmFileHandle::insert_record no free slot''))
       else
         let d1 = add_record h (nat s) bs d;
             full = (num_records d1 = num_records_per_page h);
             d2 = (if full then set_next_free RM_NO_PAGE d1 else d1) in
         bind_e (if full then modify_e (set_hdr (\<lambda>g. g\<lparr>first_free_page_no := next_free d1\<rparr>)) else ret ()) (\<lambda>_.
         bind_e (modify_e (\<lambda>st. st\<lparr>bpm := set_data f d2 (bpm st)\<rparr>)) (\<lambda>_.
         bind_e (gets_e (\<lambda>st. mk_rid (pg_no (page_id (pages (bpm st) ! f))) s)) (\<lambda>rid.
         bind_e (unpin_handle f True) (\<lambda>_. ret rid))))))"

text \<open>
  The loop of \<^verbatim>\<open>insert_record(rid, buf)\<close> that grows the file up to the wanted page. Each round adds one
  page or throws, so that \<open>page_no - num_pages + 1\<close> rounds are enough (\<open>grow_file_enough\<close>).
\<close>

fun grow_file :: "nat \<Rightarrow> int \<Rightarrow> unit rm_op" where
  "grow_file 0 no = ret ()"
| "grow_file (Suc k) no =
     bind_e (gets_e hdr) (\<lambda>h.
       if no \<ge> num_pages h
       then bind_e create_new_page_handle (\<lambda>f. bind_e (unpin_handle f True) (\<lambda>_. grow_file k no))
       else ret ())"

definition insert_record_at :: "Rid \<Rightarrow> byte list \<Rightarrow> unit rm_op" where
  "insert_record_at rid bs =
     bind_e (gets_e hdr) (\<lambda>h0.
       if page_no rid < RM_FIRST_RECORD_PAGE \<or> slot_no rid < 0 \<or> slot_no rid \<ge> num_records_per_page h0
       then throw (RecordNotFoundError (page_no rid) (slot_no rid))
       else
         bind_e (grow_file (nat (page_no rid - num_pages h0 + 1)) (page_no rid)) (\<lambda>_.
         bind_e (fetch_page_handle (page_no rid)) (\<lambda>f.
         bind_e (gets_e (\<lambda>st. (hdr st, get_data (bpm st) f))) (\<lambda>(h, d).
           if is_set d off_bitmap (nat (slot_no rid))
           then bind_e (unpin_handle f False) (\<lambda>_. throw (InternalError ''RmFileHandle::insert_record duplicate rid''))
           else
             let d1 = add_record h (nat (slot_no rid)) bs d;
                 full = (num_records d1 = num_records_per_page h);
                 d2 = (if full then set_next_free RM_NO_PAGE d1 else d1) in
             bind_e (if full \<and> first_free_page_no h = page_no rid
                     then modify_e (set_hdr (\<lambda>g. g\<lparr>first_free_page_no := next_free d1\<rparr>)) else ret ()) (\<lambda>_.
             bind_e (modify_e (\<lambda>st. st\<lparr>bpm := set_data f d2 (bpm st)\<rparr>)) (\<lambda>_.
             unpin_handle f True))))))"

definition delete_record :: "Rid \<Rightarrow> unit rm_op" where
  "delete_record rid =
     bind_e (gets_e hdr) (\<lambda>h.
       if rid_out_of_file rid h then throw (RecordNotFoundError (page_no rid) (slot_no rid))
       else
         bind_e (fetch_page_handle (page_no rid)) (\<lambda>f.
         bind_e (gets_e (\<lambda>st. get_data (bpm st) f)) (\<lambda>d.
           if \<not> is_set d off_bitmap (nat (slot_no rid))
           then bind_e (unpin_handle f False) (\<lambda>_. throw (RecordNotFoundError (page_no rid) (slot_no rid)))
           else
             bind_e (modify_e (\<lambda>st. st\<lparr>bpm := set_data f (remove_record (nat (slot_no rid)) d) (bpm st)\<rparr>)) (\<lambda>_.
             bind_e (if num_records d = num_records_per_page h then release_page_handle f else ret ()) (\<lambda>_.
             unpin_handle f True)))))"

definition update_record :: "Rid \<Rightarrow> byte list \<Rightarrow> unit rm_op" where
  "update_record rid bs =
     bind_e (gets_e hdr) (\<lambda>h.
       if rid_out_of_file rid h then throw (RecordNotFoundError (page_no rid) (slot_no rid))
       else
         bind_e (fetch_page_handle (page_no rid)) (\<lambda>f.
         bind_e (gets_e (\<lambda>st. get_data (bpm st) f)) (\<lambda>d.
           if \<not> is_set d off_bitmap (nat (slot_no rid))
           then bind_e (unpin_handle f False) (\<lambda>_. throw (RecordNotFoundError (page_no rid) (slot_no rid)))
           else
             bind_e (modify_e (\<lambda>st. st\<lparr>bpm := set_data f (put_record h (nat (slot_no rid)) bs d) (bpm st)\<rparr>)) (\<lambda>_.
             unpin_handle f True))))"

definition rm_flush :: "unit rm_op" where
  "rm_flush =
     bind_e (gets_e fh) (\<lambda>h.
     bind_e (on_pool (on_disk (write_page (fh_fd h) RM_FILE_HDR_PAGE
        (put_bytes zero_buf 0 (hdr_bytes (file_hdr h))) sizeof_RmFileHdr))) (\<lambda>_.
     on_pool (flush_all_pages (fh_fd h))))"

section \<open>\<^verbatim>\<open>RmManager\<close>\<close>

text \<open>The handle that \<^verbatim>\<open>RmFileHandle\<close>'s constructor makes from the header on disk.\<close>

definition new_RmFileHandle :: "int \<Rightarrow> RmFileHandle disk_op" where
  "new_RmFileHandle fd dm =
     (case read_page fd RM_FILE_HDR_PAGE zero_buf sizeof_RmFileHdr dm of
        (Inl e, b, dm1) \<Rightarrow> (Inl e, dm1)
      | (Inr _, b, dm1) \<Rightarrow>
          (Inr \<lparr>fh_fd = fd, file_hdr = hdr_of b\<rparr>, set_fd2pageno fd (num_pages (hdr_of b)) dm1))"

definition rm_create_file :: "string \<Rightarrow> int \<Rightarrow> unit disk_op" where
  "rm_create_file filename rs =
     (if rs < 1 \<or> rs > RM_MAX_RECORD_SIZE then throw (InvalidRecordSizeError rs)
      else
        bind_e (Disk_Manager.create_file filename) (\<lambda>_.
        bind_e (Disk_Manager.open_file filename) (\<lambda>fd.
        bind_e (write_page fd RM_FILE_HDR_PAGE (put_bytes zero_buf 0 (hdr_bytes (init_file_hdr rs)))
                  sizeof_RmFileHdr) (\<lambda>_.
        Disk_Manager.close_file fd))))"

definition rm_destroy_file :: "string \<Rightarrow> unit disk_op" where
  "rm_destroy_file = Disk_Manager.destroy_file"

definition rm_open_file :: "string \<Rightarrow> RmFileHandle disk_op" where
  "rm_open_file filename = bind_e (Disk_Manager.open_file filename) new_RmFileHandle"

definition rm_close_file :: "RmFileHandle \<Rightarrow> unit pool_op" where
  "rm_close_file h =
     bind_e (on_disk (write_page (fh_fd h) RM_FILE_HDR_PAGE
        (put_bytes zero_buf 0 (hdr_bytes (file_hdr h))) sizeof_RmFileHdr)) (\<lambda>_.
     bind_e (flush_all_pages (fh_fd h)) (\<lambda>_.
     on_disk (Disk_Manager.close_file (fh_fd h))))"

section \<open>The invariant of a record file\<close>

definition page_of :: "rm_state \<Rightarrow> int \<Rightarrow> buf option" where
  "page_of st k = view (bpm st) (mk_pid (fh_fd (fh st)) k)"

definition in_file :: "rm_state \<Rightarrow> int \<Rightarrow> bool" where
  "in_file st k \<longleftrightarrow> RM_FIRST_RECORD_PAGE \<le> k \<and> k < num_pages (hdr st)"

text \<open>No page is pinned between operations.\<close>

definition quiet :: "buffer_pool \<Rightarrow> bool" where
  "quiet bp \<longleftrightarrow> bp_ok bp \<and> (\<forall>q. pins bp q = 0) \<and> 0 < pool_size bp"

definition rm_env :: "rm_state \<Rightarrow> bool" where
  "rm_env st \<longleftrightarrow>
     quiet (bpm st) \<and> hdr_ok (hdr st) \<and> 0 \<le> fh_fd (fh st) \<and> fh_fd (fh st) < MAX_FD \<and>
     fd2path (disk (bpm st)) (fh_fd (fh st)) \<noteq> None \<and>
     fd2pageno (disk (bpm st)) (fh_fd (fh st)) = num_pages (hdr st) \<and>
     1 \<le> num_pages (hdr st) \<and> num_pages (hdr st) \<le> 2147483647 \<and> int32_range (first_free_page_no (hdr st)) \<and>
     (\<forall>no. mk_pid (fh_fd (fh st)) no \<in> cached (bpm st) \<longrightarrow> no < num_pages (hdr st))"

definition rm_inv :: "rm_state \<Rightarrow> bool" where
  "rm_inv st \<longleftrightarrow>
     rm_env st \<and>
     (\<forall>k. in_file st k \<longrightarrow>
        (\<exists>d. page_of st k = Some d \<and> num_records d = int (card (used_slots (hdr st) d))))"

text \<open>The records of the file.\<close>

definition recs :: "rm_state \<Rightarrow> Rid \<Rightarrow> byte list option" where
  "recs st rid =
     (if rid_out_of_file rid (hdr st) then None
      else case page_of st (page_no rid) of
             None \<Rightarrow> None | Some d \<Rightarrow> page_rec (hdr st) d (nat (slot_no rid)))"

text \<open>The chain of pages with free space.\<close>

fun linked :: "(int \<Rightarrow> int) \<Rightarrow> int \<Rightarrow> int list \<Rightarrow> bool" where
  "linked nx k [] \<longleftrightarrow> k = RM_NO_PAGE"
| "linked nx k (p # ps) \<longleftrightarrow> k = p \<and> linked nx (nx p) ps"

definition link_of :: "rm_state \<Rightarrow> int \<Rightarrow> int" where
  "link_of st k = (case page_of st k of Some d \<Rightarrow> next_free d | None \<Rightarrow> RM_NO_PAGE)"

definition has_space :: "rm_state \<Rightarrow> int \<Rightarrow> bool" where
  "has_space st k \<longleftrightarrow>
     in_file st k \<and> (\<exists>d. page_of st k = Some d \<and> num_records d < num_records_per_page (hdr st))"

definition chain_inv :: "rm_state \<Rightarrow> bool" where
  "chain_inv st \<longleftrightarrow>
     (\<exists>ks. linked (link_of st) (first_free_page_no (hdr st)) ks \<and> distinct ks \<and> set ks = {k. has_space st k})"

lemma linked_cong: "(\<And>k. k \<in> set ks \<Longrightarrow> f k = g k) \<Longrightarrow> linked f h ks = linked g h ks"
  by (induction ks arbitrary: h) auto

lemma rm_invD:
  assumes "rm_inv st"
  shows "rm_env st" "quiet (bpm st)" "bp_ok (bpm st)" "pins (bpm st) = (\<lambda>_. 0)" "hdr_ok (hdr st)"
    "card {q. 0 < pins (bpm st) q} < pool_size (bpm st)"
    "in_file st k \<Longrightarrow> \<exists>d. page_of st k = Some d \<and> num_records d = int (card (used_slots (hdr st) d))"
  using assms by (auto simp: rm_inv_def rm_env_def quiet_def fun_eq_iff)

section \<open>Page accesses of a file\<close>

text \<open>
  A change of the pool that keeps the contents of the file's pages, except page \<open>no\<close>, which now
  has the contents \<open>d\<close>, and the header \<open>h\<close>.
\<close>

definition stored :: "rm_state \<Rightarrow> rm_state \<Rightarrow> int \<Rightarrow> buf \<Rightarrow> RmFileHdr \<Rightarrow> bool" where
  "stored st st' no d h \<longleftrightarrow>
     fh st' = (fh st)\<lparr>file_hdr := h\<rparr> \<and> quiet (bpm st') \<and> tables (bpm st') = tables (bpm st) \<and>
     cached (bpm st') \<subseteq> insert (mk_pid (fh_fd (fh st)) no) (cached (bpm st)) \<and>
     (view (bpm st))(mk_pid (fh_fd (fh st)) no \<mapsto> d) \<subseteq>\<^sub>m view (bpm st')"

text \<open>What a change leaves alone outside the file: the open files, and the pages of the others.\<close>

definition elsewhere :: "rm_state \<Rightarrow> rm_state \<Rightarrow> bool" where
  "elsewhere st st' \<longleftrightarrow>
     fh_fd (fh st') = fh_fd (fh st) \<and> quiet (bpm st') \<and>
     path2fd (disk (bpm st')) = path2fd (disk (bpm st)) \<and> fd2path (disk (bpm st')) = fd2path (disk (bpm st)) \<and>
     log_fd (disk (bpm st')) = log_fd (disk (bpm st)) \<and>
     (\<forall>fd. fd \<noteq> fh_fd (fh st) \<longrightarrow> fd2pageno (disk (bpm st')) fd = fd2pageno (disk (bpm st)) fd) \<and>
     (\<forall>fd no. fd \<noteq> fh_fd (fh st) \<longrightarrow> mk_pid fd no \<in> cached (bpm st') \<longrightarrow> mk_pid fd no \<in> cached (bpm st)) \<and>
     (\<forall>fd no d. fd \<noteq> fh_fd (fh st) \<longrightarrow> view (bpm st) (mk_pid fd no) = Some d \<longrightarrow> view (bpm st') (mk_pid fd no) = Some d)"

lemma elsewhere_trans: "elsewhere a b \<Longrightarrow> elsewhere b c \<Longrightarrow> elsewhere a c"
  unfolding elsewhere_def by (elim conjE) (intro conjI; simp)

lemma elsewhere_refl: "quiet (bpm st) \<Longrightarrow> elsewhere st st"
  by (simp add: elsewhere_def)

lemma stored_elsewhere: "stored st st' no d h \<Longrightarrow> elsewhere st st'"
  by (auto simp: stored_def elsewhere_def tables_def map_le_def dom_def split: if_splits)

lemma on_pool_app: "on_pool m st = (case m (bpm st) of (r, b) \<Rightarrow> (r, st\<lparr>bpm := b\<rparr>))"
  by (simp add: on_pool_def zoom_app)

lemma unpin_handle_app:
  "unpin_handle f dirty st =
     (Inr (), st\<lparr>bpm := snd (unpin_page (page_id (pages (bpm st) ! f)) dirty (bpm st))\<rparr>)"
  by (simp add: unpin_handle_def)

lemma fetch_handle_eq:
  assumes "in_file st no" and "fetch_page (mk_pid (fh_fd (fh st)) no) (bpm st) = (Inr (Some f), b)"
  shows "fetch_page_handle no st = (Inr f, st\<lparr>bpm := b\<rparr>)"
  using assms by (simp add: fetch_page_handle_def in_file_def bind_e_app on_pool_app)

lemma quiet_settled:
  "quiet bp \<Longrightarrow> pool.settled bp bp' pid \<Longrightarrow> quiet bp'"
  by (auto simp: quiet_def pool.settled_def)

lemma stored_page:
  assumes "stored st st' no d h"
    and "if k = no then e = d else page_of st k = Some e"
  shows "page_of st' k = Some e"
  using assms by (auto simp: stored_def page_of_def map_le_def dom_def split: if_splits)

lemma read_handle:
  assumes inv: "rm_inv st" and no: "in_file st no" and d: "page_of st no = Some d"
  obtains f st1 st2 where "fetch_page_handle no st = (Inr f, st1)" "get_data (bpm st1) f = d"
    "fh st1 = fh st" "unpin_handle f False st1 = (Inr (), st2)" "stored st st2 no d (hdr st)"
proof -
  let ?pid = "mk_pid (fh_fd (fh st)) no"
  note I = rm_invD [OF inv]
  have v: "view (bpm st) ?pid = Some d" using d by (simp add: page_of_def)
  obtain f s1 s2 where s: "fetch_page ?pid (bpm st) = (Inr (Some f), s1)" "map_of (page_table s1) ?pid = Some f"
      "get_data s1 f = d" "unpin_page ?pid False s1 = (True, s2)" "pool.settled (bpm st) s2 ?pid"
      "view (bpm st) \<subseteq>\<^sub>m view s2"
    by (rule pool.read_access [OF I(3) v I(6)]) (use I(4) in auto)
  have "bp_wf s1" using bp_wf_fetch_page [OF bp_okD(1) [OF I(3)], of ?pid] s(1) by simp
  then have id: "page_id (pages s1 ! f) = ?pid" using s(2) by (rule bp_wfD(4))
  let ?st1 = "st\<lparr>bpm := s1\<rparr>" and ?st2 = "st\<lparr>bpm := s2\<rparr>"
  show thesis
  proof (rule that)
    show "fetch_page_handle no st = (Inr f, ?st1)" using no s(1) by (rule fetch_handle_eq)
    show "unpin_handle f False ?st1 = (Inr (), ?st2)" using id s(4) by (simp add: unpin_handle_app)
    show "stored st ?st2 no d (hdr st)"
      using quiet_settled [OF I(2) s(5)] s(5,6) v
      by (auto simp: stored_def pool.settled_def fun_upd_idem)
  qed (use s in simp_all)
qed

lemma fh_same: "fh s = v \<Longrightarrow> s\<lparr>fh := v, bpm := b\<rparr> = (s\<lparr>bpm := b\<rparr> :: rm_state)"
  by (cases s) simp

lemma write_handle:
  assumes inv: "rm_inv st" and no: "in_file st no" and d: "page_of st no = Some d"
  obtains f st1 where "fetch_page_handle no st = (Inr f, st1)" "get_data (bpm st1) f = d" "fh st1 = fh st"
    "pg_no (page_id (pages (bpm st1) ! f)) = no" "f < length (pages (bpm st1))"
    "\<forall>d' h. \<exists>st2. unpin_handle f True (st1\<lparr>fh := (fh st)\<lparr>file_hdr := h\<rparr>, bpm := set_data f d' (bpm st1)\<rparr>) = (Inr (), st2) \<and>
       stored st st2 no (clip_page d') h"
proof -
  let ?pid = "mk_pid (fh_fd (fh st)) no"
  note I = rm_invD [OF inv]
  have v: "view (bpm st) ?pid = Some d" using d by (simp add: page_of_def)
  obtain f s1 where s: "fetch_page ?pid (bpm st) = (Inr (Some f), s1)" "map_of (page_table s1) ?pid = Some f"
      "get_data s1 f = d"
    and w: "\<And>d'. \<exists>s2. unpin_page ?pid True (set_data f d' s1) = (True, s2) \<and> pool.settled (bpm st) s2 ?pid \<and>
       (view (bpm st))(?pid \<mapsto> clip_page d') \<subseteq>\<^sub>m view s2 \<and> view s2 ?pid = Some (clip_page d')"
    by (rule pool.write_access [OF I(3) v I(6)]) blast
  have wf: "bp_wf s1" using bp_wf_fetch_page [OF bp_okD(1) [OF I(3)], of ?pid] s(1) by simp
  then have id: "page_id (pages s1 ! f) = ?pid" and f: "f < length (pages s1)"
    using s(2) bp_wfD(1,3,4) [OF wf] by auto
  let ?st1 = "st\<lparr>bpm := s1\<rparr>"
  have "\<exists>st2. unpin_handle f True (?st1\<lparr>fh := (fh st)\<lparr>file_hdr := h\<rparr>, bpm := set_data f d' (bpm ?st1)\<rparr>) = (Inr (), st2) \<and>
       stored st st2 no (clip_page d') h" for d' h
  proof -
    obtain s2 where s2: "unpin_page ?pid True (set_data f d' s1) = (True, s2)" "pool.settled (bpm st) s2 ?pid"
       "(view (bpm st))(?pid \<mapsto> clip_page d') \<subseteq>\<^sub>m view s2" using w by blast
    have "page_id (pages (set_data f d' s1) ! f) = ?pid" using id f by (simp add: set_data_def pages_set_page)
    then show ?thesis using s2 quiet_settled [OF I(2) s2(2)]
      by (auto simp: unpin_handle_app stored_def pool.settled_def)
  qed
  then show thesis using fetch_handle_eq [OF no s(1)] s(3) id f by (intro that [of f ?st1]) auto
qed

text \<open>Effects of such a change on the file.\<close>

lemma stored_hdr: "stored st st' no d h \<Longrightarrow> hdr st' = h" "stored st st' no d h \<Longrightarrow> fh_fd (fh st') = fh_fd (fh st)"
  by (simp_all add: stored_def)

definition same_shape :: "RmFileHdr \<Rightarrow> RmFileHdr \<Rightarrow> bool" where
  "same_shape h h' \<longleftrightarrow>
     record_size h' = record_size h \<and> num_pages h' = num_pages h \<and>
     num_records_per_page h' = num_records_per_page h \<and> bitmap_size h' = bitmap_size h"

lemma same_shape_simps:
  assumes "same_shape h h'"
  shows "hdr_ok h' = hdr_ok h" "page_rec h' = page_rec h" "used_slots h' = used_slots h"
    "rid_out_of_file rid h' = rid_out_of_file rid h"
  using assms by (auto simp: same_shape_def hdr_ok_def page_rec_def used_slots_def rid_out_of_file_def
      get_slot_def off_slots_def fun_eq_iff)

lemma same_shape_refl [simp]: "same_shape h h" "same_shape h (h\<lparr>first_free_page_no := k\<rparr>)"
  by (simp_all add: same_shape_def)

lemma stored_inv:
  assumes inv: "rm_inv st" and s: "stored st st' no d h" and no: "in_file st no"
    and h: "same_shape (hdr st) h" "int32_range (first_free_page_no h)"
    and n: "num_records d = int (card (used_slots (hdr st) d))"
  shows "rm_inv st'"
proof -
  have fd: "fh_fd (fh st') = fh_fd (fh st)" and hd: "hdr st' = h" using s by (simp_all add: stored_def)
  have t: "fd2path (disk (bpm st')) = fd2path (disk (bpm st))" "fd2pageno (disk (bpm st')) = fd2pageno (disk (bpm st))"
    using s by (simp_all add: stored_def tables_def)
  have "rm_env st'"
    using rm_invD(1) [OF inv] s h no same_shape_simps(1) [OF h(1)]
    unfolding rm_env_def fd hd t by (auto simp: stored_def same_shape_def in_file_def)
  moreover have "\<exists>e. page_of st' k = Some e \<and> num_records e = int (card (used_slots h e))" if "in_file st' k" for k
  proof -
    have "in_file st k" using that h hd by (simp add: in_file_def same_shape_def)
    then obtain e where "page_of st k = Some e" "num_records e = int (card (used_slots (hdr st) e))"
      using rm_invD(7) [OF inv] by blast
    then have "\<exists>e. (if k = no then e = d else page_of st k = Some e) \<and> num_records e = int (card (used_slots (hdr st) e))"
      using n by (cases "k = no") auto
    then show ?thesis using stored_page [OF s] same_shape_simps(3) [OF h(1)] by metis
  qed
  ultimately show ?thesis by (simp add: rm_inv_def hd)
qed

lemma stored_recs:
  assumes inv: "rm_inv st" and s: "stored st st' no d h" and no: "in_file st no" and h: "same_shape (hdr st) h"
  shows "recs st' rid = (if page_no rid = no \<and> \<not> rid_out_of_file rid (hdr st)
    then page_rec (hdr st) d (nat (slot_no rid)) else recs st rid)"
proof (cases "rid_out_of_file rid (hdr st)")
  case True
  then show ?thesis using same_shape_simps(4) [OF h] stored_hdr(1) [OF s] by (simp add: recs_def)
next
  case False
  then have "in_file st (page_no rid)" by (simp add: rid_out_of_file_def in_file_def)
  then obtain e where e: "page_of st (page_no rid) = Some e" using rm_invD(7) [OF inv] by blast
  have "page_of st' (page_no rid) = Some (if page_no rid = no then d else e)"
    using stored_page [OF s, of "page_no rid"] e by simp
  then show ?thesis using False e same_shape_simps [OF h] stored_hdr(1) [OF s] by (simp add: recs_def)
qed

lemma stored_self:
  assumes inv: "rm_inv st" and s: "stored st st' no d (hdr st)" and no: "in_file st no" "page_of st no = Some d"
  shows "rm_inv st'" "recs st' = recs st" "fh st' = fh st" "chain_inv st' = chain_inv st"
proof -
  have n: "num_records d = int (card (used_slots (hdr st) d))" using rm_invD(7) [OF inv no(1)] no(2) by auto
  have r: "int32_range (first_free_page_no (hdr st))" using rm_invD(1) [OF inv] by (simp add: rm_env_def)
  show "rm_inv st'" by (rule stored_inv [OF inv s no(1) _ r n]) simp
  show "fh st' = fh st" using s by (simp add: stored_def)
  show "recs st' = recs st"
    by (rule ext) (use stored_recs [OF inv s no(1)] no(2) in \<open>auto simp: recs_def\<close>)
  have pg: "page_of st' k = page_of st k" if "in_file st k" for k
    using rm_invD(7) [OF inv that] stored_page [OF s, of k] no(2) by (cases "k = no") auto
  have hs: "has_space st' k = has_space st k" for k
    using pg [of k] \<open>fh st' = fh st\<close> by (cases "in_file st k") (auto simp: has_space_def in_file_def)
  have "link_of st' k = link_of st k" if "has_space st k" for k
    using that pg by (simp add: link_of_def has_space_def)
  then have "linked (link_of st') (first_free_page_no (hdr st)) ks = linked (link_of st) (first_free_page_no (hdr st)) ks"
    if "set ks = {k. has_space st k}" for ks
    using that by (intro linked_cong) auto
  then show "chain_inv st' = chain_inv st"
    using \<open>fh st' = fh st\<close> by (auto simp: chain_inv_def hs)
qed

section \<open>Reading, updating and deleting\<close>

lemma in_file_rid: "\<not> rid_out_of_file rid (hdr st) \<Longrightarrow> in_file st (page_no rid)"
  by (simp add: rid_out_of_file_def in_file_def)

lemma rid_slot:
  assumes "\<not> rid_out_of_file rid h"
  shows "int (nat (slot_no rid)) = slot_no rid" "int (nat (slot_no rid)) < num_records_per_page h"
  using assms by (auto simp: rid_out_of_file_def)

lemma rid_eq_iff: "(rid::Rid) = rid' \<longleftrightarrow> page_no rid = page_no rid' \<and> slot_no rid = slot_no rid'"
  by (cases rid; cases rid') auto

text \<open>The page of a record id of the file and what its slot holds.\<close>

lemma rid_page:
  assumes inv: "rm_inv st" and r: "\<not> rid_out_of_file rid (hdr st)"
  obtains d where "page_of st (page_no rid) = Some d" "num_records d = int (card (used_slots (hdr st) d))"
    "recs st rid = page_rec (hdr st) d (nat (slot_no rid))"
    "is_set d off_bitmap (nat (slot_no rid)) \<longleftrightarrow> recs st rid \<noteq> None"
    "is_set d off_bitmap (nat (slot_no rid)) \<longleftrightarrow> nat (slot_no rid) \<in> used_slots (hdr st) d"
proof -
  obtain d where d: "page_of st (page_no rid) = Some d" "num_records d = int (card (used_slots (hdr st) d))"
    using rm_invD(7) [OF inv in_file_rid [OF r]] by blast
  show thesis using d r rid_slot [OF r] by (intro that [of d]) (auto simp: recs_def page_rec_def used_slots_def)
qed

lemma stored_recs_upd:
  assumes inv: "rm_inv st" and s: "stored st st' (page_no rid) d h" and h: "same_shape (hdr st) h"
    and e: "page_of st (page_no rid) = Some e" and r: "\<not> rid_out_of_file rid (hdr st)"
    and pr: "\<And>t. int t < num_records_per_page (hdr st) \<Longrightarrow>
      page_rec (hdr st) d t = (if t = nat (slot_no rid) then v else page_rec (hdr st) e t)"
  shows "recs st' = (recs st)(rid := v)"
proof (rule ext)
  fix q
  note R = stored_recs [OF inv s in_file_rid [OF r] h, of q]
  show "recs st' q = ((recs st)(rid := v)) q"
  proof (cases "page_no q = page_no rid \<and> \<not> rid_out_of_file q (hdr st)")
    case False
    then have "q \<noteq> rid" using r by auto
    with False R show ?thesis by auto
  next
    case True
    then have q: "int (nat (slot_no q)) = slot_no q" "int (nat (slot_no q)) < num_records_per_page (hdr st)"
      using rid_slot by blast+
    have "nat (slot_no q) = nat (slot_no rid) \<longleftrightarrow> q = rid"
      using True q(1) rid_slot(1) [OF r] unfolding rid_eq_iff by metis
    with True R pr [OF q(2)] e show ?thesis by (simp add: recs_def)
  qed
qed

text \<open>A failing look-up leaves the records, the header and the chain as they were.\<close>

definition untouched :: "rm_state \<Rightarrow> rm_state \<Rightarrow> bool" where
  "untouched st st' \<longleftrightarrow> rm_inv st' \<and> recs st' = recs st \<and> fh st' = fh st \<and> chain_inv st' = chain_inv st \<and> elsewhere st st'"

lemma untouched_refl: "rm_inv st \<Longrightarrow> untouched st st"
  by (simp add: untouched_def elsewhere_refl rm_invD(2))

lemma get_record_spec:
  assumes inv: "rm_inv st"
  shows "\<exists>st'. get_record rid st =
      (case recs st rid of Some bs \<Rightarrow> Inr bs | None \<Rightarrow> Inl (RecordNotFoundError (page_no rid) (slot_no rid)), st') \<and>
    untouched st st'"
proof (cases "rid_out_of_file rid (hdr st)")
  case True
  then show ?thesis using untouched_refl [OF inv] by (auto simp: get_record_def recs_def)
next
  case False
  obtain d where d: "page_of st (page_no rid) = Some d" "recs st rid = page_rec (hdr st) d (nat (slot_no rid))"
    using rid_page [OF inv False] by blast
  obtain f st1 st2 where s: "fetch_page_handle (page_no rid) st = (Inr f, st1)" "get_data (bpm st1) f = d"
    "fh st1 = fh st" "unpin_handle f False st1 = (Inr (), st2)" "stored st st2 (page_no rid) d (hdr st)"
    by (rule read_handle [OF inv in_file_rid [OF False] d(1)])
  have "untouched st st2" using stored_self [OF inv s(5) in_file_rid [OF False] d(1)] stored_elsewhere [OF s(5)] by (simp add: untouched_def)
  then show ?thesis using False s d by (auto simp: get_record_def page_rec_def)
qed

lemma is_record_spec:
  assumes inv: "rm_inv st" and r: "\<not> rid_out_of_file rid (hdr st)"
  shows "\<exists>st'. is_record rid st = (Inr (recs st rid \<noteq> None), st') \<and> untouched st st'"
proof -
  obtain d where d: "page_of st (page_no rid) = Some d"
      "is_set d off_bitmap (nat (slot_no rid)) \<longleftrightarrow> recs st rid \<noteq> None"
    using rid_page [OF inv r] by blast
  obtain f st1 st2 where s: "fetch_page_handle (page_no rid) st = (Inr f, st1)" "get_data (bpm st1) f = d"
    "fh st1 = fh st" "unpin_handle f False st1 = (Inr (), st2)" "stored st st2 (page_no rid) d (hdr st)"
    by (rule read_handle [OF inv in_file_rid [OF r] d(1)])
  have "untouched st st2" using stored_self [OF inv s(5) in_file_rid [OF r] d(1)] stored_elsewhere [OF s(5)] by (simp add: untouched_def)
  then show ?thesis using s d(2) by (simp add: is_record_def)
qed

text \<open>What the writing operations have in common when the record is not there.\<close>

lemma write_missing:
  assumes inv: "rm_inv st" and n: "recs st rid = None"
  shows "\<exists>st'. update_record rid bs st = (Inl (RecordNotFoundError (page_no rid) (slot_no rid)), st') \<and> untouched st st'"
    and "\<exists>st'. delete_record rid st = (Inl (RecordNotFoundError (page_no rid) (slot_no rid)), st') \<and> untouched st st'"
proof -
  let ?e = "RecordNotFoundError (page_no rid) (slot_no rid)"
  have "(\<exists>st'. update_record rid bs st = (Inl ?e, st') \<and> untouched st st') \<and>
      (\<exists>st'. delete_record rid st = (Inl ?e, st') \<and> untouched st st')"
  proof (cases "rid_out_of_file rid (hdr st)")
    case True
    then show ?thesis using untouched_refl [OF inv] by (auto simp: update_record_def delete_record_def)
  next
    case False
    obtain d where d: "page_of st (page_no rid) = Some d" "\<not> is_set d off_bitmap (nat (slot_no rid))"
      using rid_page [OF inv False] n by metis
    obtain f st1 st2 where s: "fetch_page_handle (page_no rid) st = (Inr f, st1)" "get_data (bpm st1) f = d"
      "fh st1 = fh st" "unpin_handle f False st1 = (Inr (), st2)" "stored st st2 (page_no rid) d (hdr st)"
      by (rule read_handle [OF inv in_file_rid [OF False] d(1)])
    have "untouched st st2" using stored_self [OF inv s(5) in_file_rid [OF False] d(1)] stored_elsewhere [OF s(5)] by (simp add: untouched_def)
    then show ?thesis using False s d by (auto simp: update_record_def delete_record_def)
  qed
  then show "\<exists>st'. update_record rid bs st = (Inl ?e, st') \<and> untouched st st'"
    and "\<exists>st'. delete_record rid st = (Inl ?e, st') \<and> untouched st st'" by blast+
qed

text \<open>How a stored page changes the chain.\<close>

lemma stored_chain:
  assumes inv: "rm_inv st" and s: "stored st st' no d h" and no: "in_file st no" and h: "same_shape (hdr st) h"
    and ks: "linked (link_of st) (first_free_page_no (hdr st)) ks" "distinct ks" "set ks = {k. has_space st k}"
  shows "has_space st' k \<longleftrightarrow> (if k = no then num_records d < num_records_per_page (hdr st) else has_space st k)"
    and "link_of st' no = next_free d"
    and "k \<noteq> no \<Longrightarrow> in_file st k \<Longrightarrow> link_of st' k = link_of st k"
proof -
  have pn: "page_of st' no = Some d" using stored_page [OF s, of no d] by simp
  have po: "page_of st' k = page_of st k" if "k \<noteq> no" "in_file st k" for k
    using rm_invD(7) [OF inv that(2)] stored_page [OF s, of k] that(1) by auto
  have in_f: "in_file st' k = in_file st k" for k
    using h stored_hdr(1) [OF s] by (simp add: in_file_def same_shape_def)
  have n: "num_records_per_page (hdr st') = num_records_per_page (hdr st)"
    using h stored_hdr(1) [OF s] by (simp add: same_shape_def)
  show "has_space st' k \<longleftrightarrow> (if k = no then num_records d < num_records_per_page (hdr st) else has_space st k)"
    using pn po [of k] no by (cases "in_file st k") (auto simp: has_space_def in_f n)
  show "link_of st' no = next_free d" using pn by (simp add: link_of_def)
  show "k \<noteq> no \<Longrightarrow> in_file st k \<Longrightarrow> link_of st' k = link_of st k" using po by (simp add: link_of_def)
qed

lemma stored_chain_same:
  assumes inv: "rm_inv st" and s: "stored st st' no d h" and no: "in_file st no" and h: "same_shape (hdr st) h"
    and ff: "first_free_page_no h = first_free_page_no (hdr st)"
    and old: "page_of st no = Some e" "next_free d = next_free e"
    and sp: "num_records d < num_records_per_page (hdr st) \<longleftrightarrow> num_records e < num_records_per_page (hdr st)"
    and chain: "chain_inv st"
  shows "chain_inv st'"
proof -
  obtain ks where ks: "linked (link_of st) (first_free_page_no (hdr st)) ks" "distinct ks" "set ks = {k. has_space st k}"
    using chain by (auto simp: chain_inv_def)
  note C = stored_chain [OF inv s no h ks]
  have "has_space st' k = has_space st k" for k
    using C(1) [of k] sp old no by (auto simp: has_space_def)
  moreover have "link_of st' k = link_of st k" if "in_file st k" for k
    using C(2,3) that old by (cases "k = no") (auto simp: link_of_def)
  then have "linked (link_of st') (first_free_page_no (hdr st)) ks"
    using ks(1,3) linked_cong [of ks "link_of st'" "link_of st"] by (auto simp: has_space_def)
  ultimately show ?thesis using ks(2,3) ff stored_hdr(1) [OF s] by (auto simp: chain_inv_def)
qed

lemma update_record_spec:
  assumes inv: "rm_inv st" and old: "recs st rid \<noteq> None" and bs: "length bs = nat (record_size (hdr st))"
  shows "\<exists>st'. update_record rid bs st = (Inr (), st') \<and> rm_inv st' \<and> fh st' = fh st \<and>
    recs st' = (recs st)(rid \<mapsto> bs) \<and> (chain_inv st \<longrightarrow> chain_inv st') \<and> elsewhere st st'"
proof -
  have r: "\<not> rid_out_of_file rid (hdr st)" using old by (auto simp: recs_def)
  note h = rm_invD(5) [OF inv] and inf = in_file_rid [OF r] and sl = rid_slot(2) [OF r]
  obtain d where d: "page_of st (page_no rid) = Some d" "num_records d = int (card (used_slots (hdr st) d))"
      "is_set d off_bitmap (nat (slot_no rid))"
    using rid_page [OF inv r] old by metis
  let ?d = "put_record (hdr st) (nat (slot_no rid)) bs d"
  obtain f st1 where s: "fetch_page_handle (page_no rid) st = (Inr f, st1)" "get_data (bpm st1) f = d" "fh st1 = fh st"
    and w: "\<forall>d' h. \<exists>st2. unpin_handle f True (st1\<lparr>fh := (fh st)\<lparr>file_hdr := h\<rparr>, bpm := set_data f d' (bpm st1)\<rparr>) =
        (Inr (), st2) \<and> stored st st2 (page_no rid) (clip_page d') h"
    by (rule write_handle [OF inv inf d(1)])
  obtain st2 where st2: "unpin_handle f True (st1\<lparr>bpm := set_data f ?d (bpm st1)\<rparr>) = (Inr (), st2)"
      "stored st st2 (page_no rid) (clip_page ?d) (hdr st)"
    using w [rule_format, of ?d "hdr st"] s(3) by (auto simp: fh_same)
  have U: "update_record rid bs st = (Inr (), st2)"
    using r s d(3) st2(1) by (simp add: update_record_def)
  have pr: "page_rec (hdr st) (clip_page ?d) t = (if t = nat (slot_no rid) then Some bs else page_rec (hdr st) d t)"
    if "int t < num_records_per_page (hdr st)" for t
  proof -
    have "page_rec (hdr st) (clip_page ?d) t = page_rec (hdr st) ?d t" using h that by (rule page_rec_headers(3))
    also have "\<dots> = (if is_set d off_bitmap t then if t = nat (slot_no rid) then Some bs else page_rec (hdr st) d t
        else None)" by (rule page_rec_put_record [OF h sl that bs])
    finally show ?thesis using d(3) by (auto simp: page_rec_def)
  qed
  have "page_rec (hdr st) (clip_page ?d) t \<noteq> None \<longleftrightarrow> page_rec (hdr st) d t \<noteq> None"
    if "int t < num_records_per_page (hdr st)" for t
    using pr [OF that] d(3) by (auto simp: page_rec_def [of _ d])
  then have us: "used_slots (hdr st) (clip_page ?d) = used_slots (hdr st) d"
    unfolding used_slots_rec by blast
  have nr: "num_records (clip_page ?d) = num_records d" "next_free (clip_page ?d) = next_free d"
    using h sl by simp_all
  have "rm_inv st2"
    by (rule stored_inv [OF inv st2(2) inf]) (use rm_invD(1) [OF inv] nr us d(2) in \<open>auto simp: rm_env_def\<close>)
  moreover have "recs st2 = (recs st)(rid \<mapsto> bs)"
    by (rule stored_recs_upd [OF inv st2(2) _ d(1) r pr]) simp_all
  moreover have "chain_inv st2" if "chain_inv st"
    by (rule stored_chain_same [OF inv st2(2) inf _ _ d(1) nr(2) _ that]) (simp_all only: nr same_shape_refl)
  moreover have "fh st2 = fh st" using st2(2) by (simp add: stored_def)
  ultimately show ?thesis using U stored_elsewhere [OF st2(2)] by blast
qed

lemma set_data_again:
  "f < length (pages bp) \<Longrightarrow> set_data f d (set_data f e bp) = set_data f d bp"
  "f < length (pages bp) \<Longrightarrow> get_data (set_data f e bp) f = clip_page e"
  "page_id (pages (set_data f e bp) ! f) = page_id (pages bp ! f)"
  by (simp_all add: set_data_def set_page_def get_data_def)
    (metis Page.select_convs(1) Page.surjective Page.update_convs(2) list_update_beyond nth_list_update_eq verit_comp_simplify1(3))

text \<open>A full page is not the first of the chain.\<close>

lemma chain_head_space:
  assumes "chain_inv st" and "page_of st no = Some d" and "num_records d = num_records_per_page (hdr st)" and "in_file st no"
  shows "first_free_page_no (hdr st) \<noteq> no"
proof
  assume ff: "first_free_page_no (hdr st) = no"
  obtain ks where ks: "linked (link_of st) (first_free_page_no (hdr st)) ks" "set ks = {k. has_space st k}"
    using assms(1) by (auto simp: chain_inv_def)
  with ff assms(4) have "no \<in> set ks" by (cases ks) (auto simp: in_file_def)
  with ks(2) assms(2,3) show False by (auto simp: has_space_def)
qed

lemma delete_record_spec:
  assumes inv: "rm_inv st" and old: "recs st rid \<noteq> None"
  shows "\<exists>st'. delete_record rid st = (Inr (), st') \<and> rm_inv st' \<and> (chain_inv st \<longrightarrow> chain_inv st') \<and>
    recs st' = (recs st)(rid := None) \<and> num_pages (hdr st') = num_pages (hdr st) \<and>
    fh_fd (fh st') = fh_fd (fh st) \<and> record_size (hdr st') = record_size (hdr st) \<and>
    num_records_per_page (hdr st') = num_records_per_page (hdr st) \<and> elsewhere st st'"
proof -
  have r: "\<not> rid_out_of_file rid (hdr st)" using old by (auto simp: recs_def)
  note h = rm_invD(5) [OF inv] and inf = in_file_rid [OF r] and sl = rid_slot(2) [OF r]
  let ?no = "page_no rid" and ?n = "num_records_per_page (hdr st)" and ?ff = "first_free_page_no (hdr st)"
  obtain d where d: "page_of st ?no = Some d" "num_records d = int (card (used_slots (hdr st) d))"
      "is_set d off_bitmap (nat (slot_no rid))" "nat (slot_no rid) \<in> used_slots (hdr st) d"
    using rid_page [OF inv r] old by metis
  have ub: "num_records d \<le> ?n" using used_slots_bound [OF h, of d] d(2) by simp
  have pos: "1 \<le> num_records d" using d(2,4) by (metis One_nat_def Suc_leI card_gt_0_iff empty_iff finite_used_slots of_nat_1 of_nat_le_iff)
  then have rng: "int32_range (num_records d - 1)" using ub hdr_ok_bounds(6) [OF h] by (simp add: int32_range_def)
  note R = remove_record_spec [OF h sl rng]
  let ?d1 = "remove_record (nat (slot_no rid)) d"
  let ?full = "num_records d = ?n \<and> ?ff \<noteq> ?no"
  let ?d2 = "if ?full then set_next_free ?ff (clip_page ?d1) else ?d1"
  let ?h = "if ?full then (hdr st)\<lparr>first_free_page_no := ?no\<rparr> else hdr st"
  obtain f st1 where s: "fetch_page_handle ?no st = (Inr f, st1)" "get_data (bpm st1) f = d" "fh st1 = fh st"
      "pg_no (page_id (pages (bpm st1) ! f)) = ?no" "f < length (pages (bpm st1))"
    and w: "\<forall>d' h. \<exists>st2. unpin_handle f True (st1\<lparr>fh := (fh st)\<lparr>file_hdr := h\<rparr>, bpm := set_data f d' (bpm st1)\<rparr>) =
        (Inr (), st2) \<and> stored st st2 ?no (clip_page d') h"
    by (rule write_handle [OF inv inf d(1)])
  have ffr: "int32_range ?ff" using rm_invD(1) [OF inv] by (simp add: rm_env_def)
  obtain st2 where st2: "unpin_handle f True (st1\<lparr>fh := (fh st)\<lparr>file_hdr := ?h\<rparr>, bpm := set_data f ?d2 (bpm st1)\<rparr>) = (Inr (), st2)"
      "stored st st2 ?no (clip_page ?d2) ?h" using w by blast
  have D: "delete_record rid st = (Inr (), st2)"
  proof (cases ?full)
    case True
    let ?sa = "st1\<lparr>bpm := set_data f ?d1 (bpm st1)\<rparr>"
    have "release_page_handle f ?sa = (Inr (), st1\<lparr>fh := (fh st)\<lparr>file_hdr := ?h\<rparr>, bpm := set_data f ?d2 (bpm st1)\<rparr>)"
      using True s by (simp add: release_page_handle_def set_data_again set_hdr_def)
    then show ?thesis using True r s d(3) st2(1) by (simp add: delete_record_def)
  next
    case False
    then have "(if num_records d = ?n then release_page_handle f else ret ()) (st1\<lparr>bpm := set_data f ?d1 (bpm st1)\<rparr>) =
        (Inr (), st1\<lparr>bpm := set_data f ?d1 (bpm st1)\<rparr>)"
      using s by (simp add: release_page_handle_def set_data_again)
    then show ?thesis using r s d(3) st2(1) [unfolded if_not_P [OF False]] by (simp add: delete_record_def fh_same)
  qed
  have sh: "same_shape (hdr st) ?h" by simp
  have pr: "page_rec (hdr st) (clip_page ?d2) t = (if t = nat (slot_no rid) then None else page_rec (hdr st) d t)"
    if "int t < num_records_per_page (hdr st)" for t
  proof -
    have "page_rec (hdr st) (clip_page ?d2) t = page_rec (hdr st) ?d1 t" using h that by simp
    then show ?thesis using R(1) [OF that] by simp
  qed
  have us: "used_slots (hdr st) (clip_page ?d2) = used_slots (hdr st) ?d1"
    using pr R(1) by (auto simp: used_slots_rec)
  have nr: "num_records (clip_page ?d2) = num_records d - 1" using R(2) by simp
  have nc: "num_records (clip_page ?d2) = int (card (used_slots (hdr st) (clip_page ?d2)))"
    using nr us R(4) [OF d(4)] d(2) by simp
  have nx: "next_free (clip_page ?d2) = (if ?full then ?ff else next_free d)" using R(3) ffr by simp
  have hr: "int32_range (first_free_page_no ?h)"
    using ffr rm_invD(1) [OF inv] inf by (auto simp: rm_env_def in_file_def int32_range_def)
  have inv2: "rm_inv st2" by (rule stored_inv [OF inv st2(2) inf sh hr nc])
  have "chain_inv st2" if chain: "chain_inv st"
  proof (cases ?full)
    case True
    obtain ks where ks: "linked (link_of st) ?ff ks" "distinct ks" "set ks = {k. has_space st k}"
      using chain by (auto simp: chain_inv_def)
    note C = stored_chain [OF inv st2(2) inf sh ks]
    have nk: "?no \<notin> set ks" using ks(3) d(1) True by (auto simp: has_space_def)
    have "linked (link_of st2) ?ff ks"
    proof -
      have "link_of st2 k = link_of st k" if "k \<in> set ks" for k
        using that nk ks(3) C(3) [of k] by (auto simp: has_space_def)
      then show ?thesis using ks(1) linked_cong [of ks "link_of st2" "link_of st" ?ff] by simp
    qed
    then have "linked (link_of st2) ?no (?no # ks)" using C(2) nx True by simp
    moreover have "{k. has_space st2 k} = insert ?no {k. has_space st k}" using C(1) nr True by auto
    ultimately have "linked (link_of st2) (first_free_page_no (hdr st2)) (?no # ks) \<and> distinct (?no # ks) \<and>
        set (?no # ks) = {k. has_space st2 k}"
      using ks(2,3) nk stored_hdr(1) [OF st2(2)] True by simp
    then show ?thesis unfolding chain_inv_def by blast
  next
    case False
    have "?ff \<noteq> ?no" if "num_records d = ?n" by (rule chain_head_space [OF chain d(1) that inf])
    with False have "num_records d \<noteq> ?n" by blast
    have "chain_inv st2"
      by (rule stored_chain_same [OF inv st2(2) inf sh _ d(1) _ _ chain]) (use False \<open>num_records d \<noteq> ?n\<close> nx nr ub in auto)
    then show ?thesis .
  qed
  moreover have "recs st2 = (recs st)(rid := None)"
    by (rule stored_recs_upd [OF inv st2(2) sh d(1) r pr])
  moreover have "num_pages (hdr st2) = num_pages (hdr st)" "record_size (hdr st2) = record_size (hdr st)"
      "num_records_per_page (hdr st2) = num_records_per_page (hdr st)"
    using stored_hdr(1) [OF st2(2)] by simp_all
  ultimately show ?thesis using D inv2 stored_hdr(2) [OF st2(2)] stored_elsewhere [OF st2(2)] by blast
qed

section \<open>Growing the file\<close>

definition grown :: "rm_state \<Rightarrow> rm_state \<Rightarrow> buf \<Rightarrow> RmFileHdr \<Rightarrow> bool" where
  "grown st st' d h \<longleftrightarrow>
     fh st' = (fh st)\<lparr>file_hdr := h\<rparr> \<and> quiet (bpm st') \<and>
     tables (bpm st') = tables ((bpm st)\<lparr>disk := (disk (bpm st))\<lparr>fd2pageno :=
        (fd2pageno (disk (bpm st)))(fh_fd (fh st) := num_pages (hdr st) + 1)\<rparr>\<rparr>) \<and>
     cached (bpm st') \<subseteq> insert (mk_pid (fh_fd (fh st)) (num_pages (hdr st))) (cached (bpm st)) \<and>
     (view (bpm st))(mk_pid (fh_fd (fh st)) (num_pages (hdr st)) \<mapsto> d) \<subseteq>\<^sub>m view (bpm st')"

text \<open>The page that \<^verbatim>\<open>create_new_page_handle\<close> prepares and the header it leaves.\<close>

definition fresh_page :: "RmFileHdr \<Rightarrow> buf" where
  "fresh_page h = bm_init (set_num_records 0 (set_next_free (first_free_page_no h) zero_buf)) off_bitmap (nat (bitmap_size h))"

definition grown_hdr :: "RmFileHdr \<Rightarrow> RmFileHdr" where
  "grown_hdr h = h\<lparr>num_pages := num_pages h + 1, first_free_page_no := num_pages h\<rparr>"

lemma fresh_page_header:
  assumes "int32_range (first_free_page_no h)"
  shows "num_records (fresh_page h) = 0" "next_free (fresh_page h) = first_free_page_no h"
  using page_header_cong [of "fresh_page h" "set_num_records 0 (set_next_free (first_free_page_no h) zero_buf)"] assms
  by (simp_all add: fresh_page_def bm_init_def int32_range_def)

lemma fresh_page_rec:
  assumes "hdr_ok h" and "int s < num_records_per_page h"
  shows "page_rec h (fresh_page h) s = None" "page_rec h (clip_page (fresh_page h)) s = None"
  using get_slot_bounds(3) [OF assms] assms
  by (simp_all add: fresh_page_def page_rec_def [of h "bm_init d b n" for d b n] is_set_bm_init)

lemma new_handle:
  assumes inv: "rm_inv st" and np: "num_pages (hdr st) < 2147483647"
  obtains f st1 where "create_new_page_handle st = (Inr f, st1)"
    "fh st1 = (fh st)\<lparr>file_hdr := grown_hdr (hdr st)\<rparr>" "get_data (bpm st1) f = clip_page (fresh_page (hdr st))"
    "pg_no (page_id (pages (bpm st1) ! f)) = num_pages (hdr st)" "f < length (pages (bpm st1))"
    "\<forall>d' h. \<exists>st2. unpin_handle f True (st1\<lparr>fh := (fh st)\<lparr>file_hdr := h\<rparr>, bpm := set_data f d' (bpm st1)\<rparr>) =
        (Inr (), st2) \<and> grown st st2 (clip_page d') h"
    "\<exists>st2. unpin_handle f True st1 = (Inr (), st2) \<and>
       grown st st2 (clip_page (fresh_page (hdr st))) (grown_hdr (hdr st))"
proof -
  note I = rm_invD [OF inv]
  let ?fd = "fh_fd (fh st)" and ?n = "num_pages (hdr st)"
  let ?pid = "mk_pid ?fd ?n"
  from I(1) have e: "0 \<le> ?fd" "?fd < MAX_FD" "fd2path (disk (bpm st)) ?fd \<noteq> None"
      "fd2pageno (disk (bpm st)) ?fd = ?n" "0 \<le> ?n" "?pid \<notin> cached (bpm st)"
    by (auto simp: rm_env_def)
  have wr: "wrap32 (?n + 1) = ?n + 1" using np e(5) by (intro wrap32_id) (simp add: int32_range_def)
  obtain f b1 where N: "new_page ?fd (bpm st) = (Inr (Some (f, ?pid)), b1)" "bp_ok b1"
    "\<forall>q e. q \<noteq> ?pid \<longrightarrow> view (bpm st) q = Some e \<longrightarrow> view b1 q = Some e"
    "view b1 ?pid = Some zero_buf" "pins b1 = (pins (bpm st))(?pid := 1)" "map_of (page_table b1) ?pid = Some f"
    "get_data b1 f = zero_buf" "pool_size b1 = pool_size (bpm st)" "cached b1 \<subseteq> insert ?pid (cached (bpm st))"
    "tables b1 = tables ((bpm st)\<lparr>disk := (disk (bpm st))\<lparr>fd2pageno :=
        (fd2pageno (disk (bpm st)))(?fd := wrap32 (?n + 1))\<rparr>\<rparr>)"
    by (rule new_page_ok [OF I(3) e I(6)])
  have id: "page_id (pages b1 ! f) = ?pid" and f: "f < length (pages b1)"
    using bp_wfD(1,3,4) [OF bp_okD(1) [OF N(2)]] N(6) by auto
  let ?b2 = "set_data f (fresh_page (hdr st)) b1"
  let ?st1 = "st\<lparr>fh := (fh st)\<lparr>file_hdr := grown_hdr (hdr st)\<rparr>, bpm := ?b2\<rparr>"
  have C: "create_new_page_handle st = (Inr f, ?st1)"
    using N(1,7) by (simp add: create_new_page_handle_def on_pool_app bind_e_app set_hdr_def grown_hdr_def fresh_page_def)
  have W: "\<exists>st2. unpin_handle f True (?st1\<lparr>fh := (fh st)\<lparr>file_hdr := h\<rparr>, bpm := set_data f d' (bpm ?st1)\<rparr>) =
        (Inr (), st2) \<and> grown st st2 (clip_page d') h" for d' h
  proof -
    have p1: "0 < pins b1 ?pid" using N(5) by simp
    note S = set_data_ok [OF N(2,6) p1, of d']
    obtain b3 where b3: "unpin_page ?pid True (set_data f d' b1) = (True, b3)" "bp_ok b3" "view b3 = view (set_data f d' b1)"
        "pins b3 = (pins (set_data f d' b1))(?pid := pins (set_data f d' b1) ?pid - 1)"
        "page_table b3 = page_table (set_data f d' b1)" "disk b3 = disk (set_data f d' b1)"
        "pool_size b3 = pool_size (set_data f d' b1)"
      using unpin_page_ok [OF S(1), of ?pid True] p1 S(3) by auto
    have "pins b3 = (\<lambda>_. 0)" using b3(4) S(3) N(5) I(4) by (simp add: fun_eq_iff)
    then have "quiet b3" using b3(2,7) N(8) I(2) by (simp add: quiet_def)
    moreover have "(view (bpm st))(?pid \<mapsto> clip_page d') \<subseteq>\<^sub>m view b3"
      using N(3) b3(3) S(2) by (auto simp: map_le_def dom_def)
    moreover have "tables b3 = tables b1" "cached b3 = cached b1" using b3(5,6) by (simp_all add: tables_def cached_def)
    ultimately show ?thesis
      using b3(1) id f N(9,10) wr by (simp add: unpin_handle_app grown_def set_data_again)
  qed
  have "\<exists>st2. unpin_handle f True ?st1 = (Inr (), st2) \<and>
       grown st st2 (clip_page (fresh_page (hdr st))) (grown_hdr (hdr st))"
    using W [of "fresh_page (hdr st)" "grown_hdr (hdr st)"] f by (simp add: set_data_again)
  then show thesis using C id f W by (intro that [of f ?st1]) (auto simp: set_data_again)
qed

lemma grown_elsewhere: "grown st st' d h \<Longrightarrow> elsewhere st st'"
  by (auto simp: grown_def elsewhere_def tables_def map_le_def dom_def split: if_splits)

lemma grown_effect:
  assumes inv: "rm_inv st" and g: "grown st st' d h" and h: "h = grown_hdr (hdr st)"
    and np: "num_pages (hdr st) < 2147483647"
    and n: "num_records d = int (card (used_slots (hdr st) d))"
  shows "rm_inv st'" "page_of st' (num_pages (hdr st)) = Some d" "hdr st' = h" "fh_fd (fh st') = fh_fd (fh st)"
    "in_file st k \<Longrightarrow> page_of st' k = page_of st k"
    "in_file st' k \<longleftrightarrow> in_file st k \<or> k = num_pages (hdr st)"
proof -
  show hd: "hdr st' = h" and fd: "fh_fd (fh st') = fh_fd (fh st)" using g by (simp_all add: grown_def)
  show pn: "page_of st' (num_pages (hdr st)) = Some d"
    using g by (auto simp: grown_def page_of_def map_le_def dom_def)
  have po: "page_of st' k = page_of st k" if kf: "in_file st k" for k
  proof -
    obtain e where "page_of st k = Some e" using rm_invD(7) [OF inv kf] by blast
    then show ?thesis using g kf by (auto simp: grown_def page_of_def map_le_def dom_def in_file_def)
  qed
  show "in_file st k \<Longrightarrow> page_of st' k = page_of st k" by (rule po)
  have np1: "1 \<le> num_pages (hdr st)" using rm_invD(1) [OF inv] by (simp add: rm_env_def)
  have inf: "in_file st' k \<longleftrightarrow> in_file st k \<or> k = num_pages (hdr st)" for k
    using np1 by (auto simp: in_file_def hd h grown_hdr_def)
  then show "in_file st' k \<longleftrightarrow> in_file st k \<or> k = num_pages (hdr st)" .
  have sh: "hdr_ok h = hdr_ok (hdr st)" "used_slots h = used_slots (hdr st)"
    by (simp_all add: h grown_hdr_def hdr_ok_def used_slots_def fun_eq_iff)
  have t: "fd2path (disk (bpm st')) = fd2path (disk (bpm st))"
      "fd2pageno (disk (bpm st')) (fh_fd (fh st)) = num_pages (hdr st) + 1"
    using g by (simp_all add: grown_def tables_def)
  have "rm_env st'"
    using rm_invD(1) [OF inv] g np np1
    unfolding rm_env_def hd fd t sh by (auto simp: grown_def h grown_hdr_def int32_range_def)
  moreover have "\<exists>d. page_of st' k = Some d \<and> num_records d = int (card (used_slots (hdr st') d))" if "in_file st' k" for k
    using that pn po [of k] n rm_invD(7) [OF inv, of k] unfolding inf hd sh by metis
  ultimately show "rm_inv st'" by (simp add: rm_inv_def)
qed

lemma grown_recs:
  assumes inv: "rm_inv st" and g: "grown st st' d h" and h: "h = grown_hdr (hdr st)"
    and np: "num_pages (hdr st) < 2147483647" and n: "num_records d = int (card (used_slots (hdr st) d))"
  shows "recs st' rid =
    (if page_no rid = num_pages (hdr st) \<and> 0 \<le> slot_no rid \<and> slot_no rid < num_records_per_page (hdr st)
     then page_rec (hdr st) d (nat (slot_no rid)) else recs st rid)"
proof -
  note G = grown_effect [OF inv g h np n]
  have np1: "1 \<le> num_pages (hdr st)" using rm_invD(1) [OF inv] by (simp add: rm_env_def)
  have sh: "page_rec h = page_rec (hdr st)"
    by (simp add: h grown_hdr_def page_rec_def get_slot_def off_slots_def fun_eq_iff)
  have ro: "rid_out_of_file rid (hdr st') \<longleftrightarrow> rid_out_of_file rid (hdr st) \<and>
      \<not> (page_no rid = num_pages (hdr st) \<and> 0 \<le> slot_no rid \<and> slot_no rid < num_records_per_page (hdr st))"
    using np1 by (auto simp: rid_out_of_file_def G(3) h grown_hdr_def)
  show ?thesis
  proof (cases "page_no rid = num_pages (hdr st) \<and> 0 \<le> slot_no rid \<and> slot_no rid < num_records_per_page (hdr st)")
    case True
    then show ?thesis using ro G(2,3) sh by (simp add: recs_def)
  next
    case False
    then show ?thesis using ro G(3) sh G(5) [of "page_no rid"] in_file_rid [of rid st]
      by (auto simp: recs_def split: option.splits)
  qed
qed

section \<open>Inserting\<close>

lemma free_slot:
  assumes h: "hdr_ok h" and n: "int (card (used_slots h d)) < num_records_per_page h"
  obtains s where "first_bit False d off_bitmap (num_records_per_page h) = int s"
    "int s < num_records_per_page h" "s \<notin> used_slots h d"
proof -
  have "0 \<le> num_records_per_page h" using hdr_ok_bounds(3) [OF h] by simp
  then show thesis
  proof (cases rule: first_bit_cases [where b = False and d = d and bm = off_bitmap])
    case (found s)
    then show thesis by (intro that [of s]) (auto simp: used_slots_def)
  next
    case none
    then have "used_slots h d = {..<nat (num_records_per_page h)}" by (auto simp: used_slots_def)
    with n show thesis by (simp split: if_splits)
  qed
qed

text \<open>The page after \<^verbatim>\<open>insert_record\<close> stored a record into a free slot of it.\<close>

definition filled_page :: "RmFileHdr \<Rightarrow> nat \<Rightarrow> byte list \<Rightarrow> buf \<Rightarrow> buf" where
  "filled_page h s bs d =
     (let d1 = add_record h s bs d
      in if num_records d1 = num_records_per_page h then set_next_free RM_NO_PAGE d1 else d1)"

lemma filled_page_spec:
  assumes h: "hdr_ok h" and s: "int s < num_records_per_page h" "s \<notin> used_slots h d"
    and bs: "length bs = nat (record_size h)" and n: "num_records d = int (card (used_slots h d))"
  shows "int t < num_records_per_page h \<Longrightarrow>
      page_rec h (clip_page (filled_page h s bs d)) t = (if t = s then Some bs else page_rec h d t)"
    and "num_records (clip_page (filled_page h s bs d)) = num_records d + 1"
    and "num_records (clip_page (filled_page h s bs d)) = int (card (used_slots h (clip_page (filled_page h s bs d))))"
    and "next_free (clip_page (filled_page h s bs d)) =
      (if num_records d + 1 = num_records_per_page h then RM_NO_PAGE else next_free d)"
    and "num_records d < num_records_per_page h"
    and "num_records (add_record h s bs d) = num_records d + 1" "next_free (add_record h s bs d) = next_free d"
proof -
  have le: "num_records d \<le> num_records_per_page h" using used_slots_bound [OF h] n by simp
  have r: "int32_range (num_records d + 1)" using le n hdr_ok_bounds(6) [OF h] by (simp add: int32_range_def)
  note A = add_record_spec [OF h s(1) bs r]
  show "num_records (add_record h s bs d) = num_records d + 1" "next_free (add_record h s bs d) = next_free d"
    by (fact A(2,3))+
  show rec: "page_rec h (clip_page (filled_page h s bs d)) t = (if t = s then Some bs else page_rec h d t)"
    if t: "int t < num_records_per_page h" for t
  proof -
    have "page_rec h (clip_page (filled_page h s bs d)) t = page_rec h (add_record h s bs d) t"
      using h t by (simp add: filled_page_def Let_def)
    then show ?thesis using A(1) [OF t] by simp
  qed
  show nr: "num_records (clip_page (filled_page h s bs d)) = num_records d + 1"
    using A(2) by (simp add: filled_page_def Let_def)
  have "used_slots h (clip_page (filled_page h s bs d)) = insert s (used_slots h d)"
    using rec s(1) by (auto simp: used_slots_rec)
  then show "num_records (clip_page (filled_page h s bs d)) = int (card (used_slots h (clip_page (filled_page h s bs d))))"
    using nr n s(2) by simp
  show "next_free (clip_page (filled_page h s bs d)) =
      (if num_records d + 1 = num_records_per_page h then RM_NO_PAGE else next_free d)"
    using A(2,3) by (simp add: filled_page_def Let_def int32_range_def)
  show "num_records d < num_records_per_page h"
    using used_slots_full [OF h _ s(1), of d] s(2) n le by force
qed

text \<open>What \<^verbatim>\<open>insert_record\<close> does once it holds a page with a free slot.\<close>

lemma insert_in_page:
  assumes c: "create_page_handle st = (Inr f, st1)" and d: "get_data (bpm st1) f = d" and f: "f < length (pages (bpm st1))"
    and h: "hdr_ok (hdr st1)" and no: "pg_no (page_id (pages (bpm st1) ! f)) = no"
    and n: "num_records d = int (card (used_slots (hdr st1) d))" "num_records d < num_records_per_page (hdr st1)"
    and bs: "length bs = nat (record_size (hdr st1))"
  obtains s where "int s < num_records_per_page (hdr st1)" "s \<notin> used_slots (hdr st1) d"
    "\<And>st2. unpin_handle f True (st1\<lparr>fh := (fh st1)\<lparr>file_hdr :=
         (if num_records d + 1 = num_records_per_page (hdr st1)
          then (hdr st1)\<lparr>first_free_page_no := next_free d\<rparr> else hdr st1)\<rparr>,
         bpm := set_data f (filled_page (hdr st1) s bs d) (bpm st1)\<rparr>) = (Inr (), st2) \<Longrightarrow>
       insert_record bs st = (Inr (mk_rid no (int s)), st2)"
proof -
  obtain s where s: "first_bit False d off_bitmap (num_records_per_page (hdr st1)) = int s"
    "int s < num_records_per_page (hdr st1)" "s \<notin> used_slots (hdr st1) d"
    using free_slot [OF h] n by metis
  note F = filled_page_spec [OF h s(2,3) bs n(1)]
  show thesis
  proof (rule that [OF s(2,3)])
    fix st2
    let ?full = "num_records d + 1 = num_records_per_page (hdr st1)"
    assume u: "unpin_handle f True (st1\<lparr>fh := (fh st1)\<lparr>file_hdr :=
         (if ?full then (hdr st1)\<lparr>first_free_page_no := next_free d\<rparr> else hdr st1)\<rparr>,
         bpm := set_data f (filled_page (hdr st1) s bs d) (bpm st1)\<rparr>) = (Inr (), st2)"
    have idp: "pg_no (page_id (pages (set_data f e (bpm st1)) ! f)) = no" for e
      using no by (simp add: set_data_again(3))
    show "insert_record bs st = (Inr (mk_rid no (int s)), st2)"
    proof (cases ?full)
      case True
      then show ?thesis using c d s F(6,7) u idp
        by (simp add: insert_record_def bind_e_app Let_def set_hdr_def filled_page_def)
    next
      case False
      then show ?thesis using c d s F(6,7) u idp
        by (simp add: insert_record_def bind_e_app Let_def set_hdr_def filled_page_def fh_same)
    qed
  qed
qed

lemma insert_record_reuse:
  assumes inv: "rm_inv st" and chain: "chain_inv st" and bs: "length bs = nat (record_size (hdr st))"
    and sp: "has_space st k"
  shows "\<exists>rid st'. insert_record bs st = (Inr rid, st') \<and> rm_inv st' \<and> chain_inv st' \<and> recs st rid = None \<and>
    \<not> rid_out_of_file rid (hdr st) \<and> recs st' = (recs st)(rid \<mapsto> bs) \<and>
    num_pages (hdr st') = num_pages (hdr st) \<and> fh_fd (fh st') = fh_fd (fh st) \<and>
    record_size (hdr st') = record_size (hdr st) \<and>
    num_records_per_page (hdr st') = num_records_per_page (hdr st) \<and> elsewhere st st'"
proof -
  let ?n = "num_records_per_page (hdr st)" and ?no = "first_free_page_no (hdr st)"
  note h = rm_invD(5) [OF inv]
  obtain ks where ks: "linked (link_of st) ?no ks" "distinct ks" "set ks = {k. has_space st k}"
    using chain by (auto simp: chain_inv_def)
  with sp obtain rest where rest: "ks = ?no # rest" by (cases ks) auto
  then have hs: "has_space st ?no" using ks(3) by auto
  then have inf: "in_file st ?no" by (simp add: has_space_def)
  obtain d where d: "page_of st ?no = Some d" "num_records d = int (card (used_slots (hdr st) d))" "num_records d < ?n"
    using hs rm_invD(7) [OF inv inf] by (auto simp: has_space_def)
  obtain f st1 where s: "fetch_page_handle ?no st = (Inr f, st1)" "get_data (bpm st1) f = d" "fh st1 = fh st"
      "pg_no (page_id (pages (bpm st1) ! f)) = ?no" "f < length (pages (bpm st1))"
    and w: "\<forall>d' h. \<exists>st2. unpin_handle f True (st1\<lparr>fh := (fh st)\<lparr>file_hdr := h\<rparr>, bpm := set_data f d' (bpm st1)\<rparr>) =
        (Inr (), st2) \<and> stored st st2 ?no (clip_page d') h"
    by (rule write_handle [OF inv inf d(1)])
  have "create_page_handle st = (Inr f, st1)" using s(1) inf by (simp add: create_page_handle_def in_file_def)
  then obtain sl where sl: "int sl < ?n" "sl \<notin> used_slots (hdr st) d"
    and ins: "\<And>st2. unpin_handle f True (st1\<lparr>fh := (fh st)\<lparr>file_hdr :=
         (if num_records d + 1 = ?n then (hdr st)\<lparr>first_free_page_no := next_free d\<rparr> else hdr st)\<rparr>,
         bpm := set_data f (filled_page (hdr st) sl bs d) (bpm st1)\<rparr>) = (Inr (), st2) \<Longrightarrow>
       insert_record bs st = (Inr (mk_rid ?no (int sl)), st2)"
    using insert_in_page [OF _ s(2,5) _ s(4)] h d(2,3) bs s(3) by metis
  let ?full = "num_records d + 1 = ?n" and ?rid = "mk_rid ?no (int sl)"
  let ?h = "if ?full then (hdr st)\<lparr>first_free_page_no := next_free d\<rparr> else hdr st"
  let ?d = "clip_page (filled_page (hdr st) sl bs d)"
  obtain st2 where st2: "insert_record bs st = (Inr ?rid, st2)" "stored st st2 ?no ?d ?h" using w ins by blast
  note F = filled_page_spec [OF h sl bs d(2)]
  have sh: "same_shape (hdr st) ?h" by simp
  have hr: "int32_range (first_free_page_no ?h)"
    using rm_invD(1) [OF inv] by (auto simp: rm_env_def next_free_def get_i32_range)
  have inv2: "rm_inv st2" by (rule stored_inv [OF inv st2(2) inf sh hr F(3)])
  have r: "\<not> rid_out_of_file ?rid (hdr st)" using inf sl(1) by (simp add: rid_out_of_file_def in_file_def)
  have "recs st2 = (recs st)(?rid \<mapsto> bs)"
    by (rule stored_recs_upd [OF inv _ sh _ r]) (use st2(2) d(1) F(1) in auto)
  moreover have "recs st ?rid = None"
    using r d(1) sl by (simp add: recs_def page_rec_def used_slots_def)
  moreover have "chain_inv st2"
  proof (cases ?full)
    case False
    show ?thesis
      by (rule stored_chain_same [OF inv st2(2) inf sh _ d(1) _ _ chain]) (use False F(2,4,5) in auto)
  next
    case True
    note C = stored_chain [OF inv st2(2) inf sh ks]
    have "?no \<notin> set rest" using ks(2) rest by simp
    then have "link_of st2 k = link_of st k" if "k \<in> set rest" for k
      using that ks(3) rest C(3) [of k] by (auto simp: has_space_def)
    moreover have "linked (link_of st) (next_free d) rest" using ks(1) rest d(1) by (simp add: link_of_def)
    ultimately have "linked (link_of st2) (next_free d) rest"
      using linked_cong [of rest "link_of st2" "link_of st" "next_free d"] by simp
    moreover have "{k. has_space st2 k} = set rest"
      using C(1) F(2) True ks(2,3) rest by auto
    ultimately have "linked (link_of st2) (first_free_page_no (hdr st2)) rest \<and> distinct rest \<and> set rest = {k. has_space st2 k}"
      using ks(2) rest stored_hdr(1) [OF st2(2)] True by simp
    then show ?thesis unfolding chain_inv_def by blast
  qed
  moreover have "num_pages (hdr st2) = num_pages (hdr st)" "record_size (hdr st2) = record_size (hdr st)"
      "num_records_per_page (hdr st2) = num_records_per_page (hdr st)"
    using stored_hdr(1) [OF st2(2)] by simp_all
  ultimately show ?thesis using st2(1) inv2 r stored_hdr(2) [OF st2(2)] stored_elsewhere [OF st2(2)] by blast
qed

lemma insert_record_grow:
  assumes inv: "rm_inv st" and chain: "chain_inv st" and bs: "length bs = nat (record_size (hdr st))"
    and sp: "\<nexists>k. has_space st k" and np: "num_pages (hdr st) < 2147483647"
  shows "\<exists>rid st'. insert_record bs st = (Inr rid, st') \<and> rm_inv st' \<and> chain_inv st' \<and> recs st rid = None \<and>
    \<not> rid_out_of_file rid (hdr st') \<and> recs st' = (recs st)(rid \<mapsto> bs) \<and>
    num_pages (hdr st') = num_pages (hdr st) + 1 \<and> fh_fd (fh st') = fh_fd (fh st) \<and>
    record_size (hdr st') = record_size (hdr st) \<and>
    num_records_per_page (hdr st') = num_records_per_page (hdr st) \<and> elsewhere st st'"
proof -
  let ?n = "num_records_per_page (hdr st)" and ?no = "num_pages (hdr st)" and ?h = "grown_hdr (hdr st)"
  let ?d = "clip_page (fresh_page (hdr st))"
  note h = rm_invD(5) [OF inv]
  have ffr: "int32_range (first_free_page_no (hdr st))" using rm_invD(1) [OF inv] by (simp add: rm_env_def)
  have ff: "first_free_page_no (hdr st) = RM_NO_PAGE"
  proof -
    obtain ks where "linked (link_of st) (first_free_page_no (hdr st)) ks" "set ks = {k. has_space st k}"
      using chain by (auto simp: chain_inv_def)
    with sp show ?thesis by (cases ks) auto
  qed
  obtain f st1 where s: "create_new_page_handle st = (Inr f, st1)" "fh st1 = (fh st)\<lparr>file_hdr := ?h\<rparr>"
      "get_data (bpm st1) f = ?d" "pg_no (page_id (pages (bpm st1) ! f)) = ?no" "f < length (pages (bpm st1))"
    and w: "\<forall>d' h. \<exists>st2. unpin_handle f True (st1\<lparr>fh := (fh st)\<lparr>file_hdr := h\<rparr>, bpm := set_data f d' (bpm st1)\<rparr>) =
        (Inr (), st2) \<and> grown st st2 (clip_page d') h"
    by (rule new_handle [OF inv np])
  have sh: "hdr_ok ?h" "used_slots ?h = used_slots (hdr st)" "num_records_per_page ?h = ?n" "record_size ?h = record_size (hdr st)"
      "page_rec ?h = page_rec (hdr st)" "filled_page ?h = filled_page (hdr st)"
    using h by (simp_all add: grown_hdr_def hdr_ok_def used_slots_def fun_eq_iff page_rec_def get_slot_def off_slots_def
        filled_page_def add_record_def put_record_def)
  have us: "used_slots (hdr st) ?d = {}" using fresh_page_rec(2) [OF h] by (auto simp: used_slots_rec)
  have n0: "num_records ?d = 0" using fresh_page_header(1) [OF ffr] by simp
  have n7: "7 \<le> ?n" using hdr_ok_bounds(3) [OF h] .
  have "create_page_handle st = (Inr f, st1)" using s(1) ff by (simp add: create_page_handle_def)
  then obtain sl where sl: "int sl < ?n" "sl \<notin> used_slots (hdr st) ?d"
    and ins: "\<And>st2. unpin_handle f True (st1\<lparr>fh := (fh st)\<lparr>file_hdr := ?h\<rparr>,
         bpm := set_data f (filled_page (hdr st) sl bs ?d) (bpm st1)\<rparr>) = (Inr (), st2) \<Longrightarrow>
       insert_record bs st = (Inr (mk_rid ?no (int sl)), st2)"
    using insert_in_page [OF _ s(3,5) _ s(4), of st bs] s(2) sh us n0 n7 bs by auto
  let ?rid = "mk_rid ?no (int sl)" and ?e = "clip_page (filled_page (hdr st) sl bs ?d)"
  obtain st2 where st2: "insert_record bs st = (Inr ?rid, st2)" "grown st st2 ?e ?h" using w ins by blast
  have nd: "num_records ?d = int (card (used_slots (hdr st) ?d))" using us n0 by simp
  note F = filled_page_spec [OF h sl bs nd]
  note G = grown_effect [OF inv st2(2) refl np F(3)]
  have "recs st2 = (recs st)(?rid \<mapsto> bs)"
  proof (rule ext)
    fix q
    have out: "recs st q = None" if "page_no q = ?no" using that by (simp add: recs_def rid_out_of_file_def)
    show "recs st2 q = ((recs st)(?rid \<mapsto> bs)) q"
    proof (cases "page_no q = ?no \<and> 0 \<le> slot_no q \<and> slot_no q < ?n")
      case True
      then have "recs st2 q = (if nat (slot_no q) = sl then Some bs else None)"
        using grown_recs [OF inv st2(2) refl np F(3), of q] F(1) [of "nat (slot_no q)"] fresh_page_rec(2) [OF h] by simp
      then show ?thesis using True out by (auto simp: rid_eq_iff)
    next
      case False
      then have "q \<noteq> ?rid" using sl(1) by auto
      then show ?thesis using False grown_recs [OF inv st2(2) refl np F(3), of q] by auto
    qed
  qed
  moreover have "recs st ?rid = None" by (simp add: recs_def rid_out_of_file_def)
  moreover have "\<not> rid_out_of_file ?rid (hdr st2)"
    using G(3) sl(1) rm_invD(1) [OF inv] by (simp add: rid_out_of_file_def grown_hdr_def rm_env_def)
  moreover have "chain_inv st2"
  proof -
    have "link_of st2 ?no = RM_NO_PAGE"
      using G(2) F(4) n0 n7 fresh_page_header(2) [OF ffr] ff by (simp add: link_of_def)
    moreover have "has_space st2 k \<longleftrightarrow> k = ?no" for k
      using G(2,3) G(5) [of k] G(6) [of k] sp F(2) n0 n7 by (auto simp: has_space_def grown_hdr_def)
    ultimately have "linked (link_of st2) (first_free_page_no (hdr st2)) [?no] \<and> distinct [?no] \<and>
        set [?no] = {k. has_space st2 k}"
      using G(3) by (auto simp: grown_hdr_def)
    then show ?thesis unfolding chain_inv_def by blast
  qed
  ultimately show ?thesis using st2(1) G(1,3,4) grown_elsewhere [OF st2(2)] by (auto simp: grown_hdr_def)
qed

section \<open>Inserting at a given place\<close>

lemma grow_step:
  assumes inv: "rm_inv st" and np: "num_pages (hdr st) < 2147483647"
  obtains st' where "bind_e create_new_page_handle (\<lambda>f. unpin_handle f True) st = (Inr (), st')"
    "rm_inv st'" "recs st' = recs st" "hdr st' = grown_hdr (hdr st)" "fh_fd (fh st') = fh_fd (fh st)"
    "chain_inv st \<longrightarrow> chain_inv st'" "elsewhere st st'"
proof -
  let ?no = "num_pages (hdr st)" and ?d = "clip_page (fresh_page (hdr st))"
  note h = rm_invD(5) [OF inv]
  have ffr: "int32_range (first_free_page_no (hdr st))" using rm_invD(1) [OF inv] by (simp add: rm_env_def)
  obtain f st1 st2 where s: "create_new_page_handle st = (Inr f, st1)" "unpin_handle f True st1 = (Inr (), st2)"
      "grown st st2 ?d (grown_hdr (hdr st))"
    using new_handle [OF inv np] by metis
  have us: "used_slots (hdr st) ?d = {}" using fresh_page_rec(2) [OF h] by (auto simp: used_slots_rec)
  have n0: "num_records ?d = 0" using fresh_page_header(1) [OF ffr] by simp
  have nd: "num_records ?d = int (card (used_slots (hdr st) ?d))" using us n0 by simp
  note G = grown_effect [OF inv s(3) refl np nd]
  have rc: "recs st2 = recs st"
  proof (rule ext)
    fix q
    have "recs st q = None" if "page_no q = ?no" using that by (simp add: recs_def rid_out_of_file_def)
    then show "recs st2 q = recs st q"
      using grown_recs [OF inv s(3) refl np nd, of q] fresh_page_rec(2) [OF h, of "nat (slot_no q)"] by auto
  qed
  have "chain_inv st2" if ch: "chain_inv st"
  proof -
    obtain ks where ks: "linked (link_of st) (first_free_page_no (hdr st)) ks" "distinct ks" "set ks = {k. has_space st k}"
      using ch by (auto simp: chain_inv_def)
    have "in_file st k" if "k \<in> set ks" for k using that ks(3) by (simp add: has_space_def)
    then have "linked (link_of st2) (first_free_page_no (hdr st)) ks"
      using ks(1) linked_cong [of ks "link_of st2" "link_of st"] G(5) by (simp add: link_of_def)
    moreover have "link_of st2 ?no = first_free_page_no (hdr st)"
      using G(2) fresh_page_header(2) [OF ffr] by (simp add: link_of_def)
    moreover have "has_space st2 k \<longleftrightarrow> k = ?no \<or> has_space st k" for k
    proof (cases "in_file st k")
      case True
      then have "k \<noteq> ?no" by (auto simp: in_file_def)
      then show ?thesis using True G(3) G(5) [OF True] G(6) [of k] by (simp add: has_space_def grown_hdr_def)
    next
      case False
      then show ?thesis using G(2,3) G(6) [of k] n0 hdr_ok_bounds(3) [OF h]
        by (auto simp: has_space_def grown_hdr_def)
    qed
    moreover have "?no \<notin> set ks" using ks(3) by (auto simp: has_space_def in_file_def)
    ultimately have "linked (link_of st2) (first_free_page_no (hdr st2)) (?no # ks) \<and> distinct (?no # ks) \<and>
        set (?no # ks) = {k. has_space st2 k}"
      using ks(2,3) G(3) by (auto simp: grown_hdr_def)
    then show ?thesis unfolding chain_inv_def by blast
  qed
  then show thesis using that [of st2] s G(1,3,4) rc grown_elsewhere [OF s(3)] by simp
qed

lemma grow_file_enough:
  assumes "rm_inv st" and "no < 2147483647" and "no - num_pages (hdr st) + 1 \<le> int k"
  shows "\<exists>st'. grow_file k no st = (Inr (), st') \<and> rm_inv st' \<and> recs st' = recs st \<and> no < num_pages (hdr st') \<and>
    fh_fd (fh st') = fh_fd (fh st) \<and> record_size (hdr st') = record_size (hdr st) \<and>
    num_records_per_page (hdr st') = num_records_per_page (hdr st) \<and> (chain_inv st \<longrightarrow> chain_inv st') \<and>
    elsewhere st st'"
  using assms
proof (induction k arbitrary: st)
  case 0
  then show ?case using rm_invD(2) by (simp add: elsewhere_refl)
next
  case (Suc k)
  show ?case
  proof (cases "num_pages (hdr st) \<le> no")
    case False
    then show ?thesis using Suc.prems rm_invD(2) by (simp add: elsewhere_refl)
  next
    case True
    then have "num_pages (hdr st) < 2147483647" using Suc.prems(2) by simp
    from grow_step [OF Suc.prems(1) this]
    obtain st1 where s1: "bind_e create_new_page_handle (\<lambda>f. unpin_handle f True) st = (Inr (), st1)"
        "rm_inv st1" "recs st1 = recs st" "hdr st1 = grown_hdr (hdr st)" "fh_fd (fh st1) = fh_fd (fh st)"
        "chain_inv st \<longrightarrow> chain_inv st1" and el: "elsewhere st st1" by blast
    have "no - num_pages (hdr st1) + 1 \<le> int k" using Suc.prems(3) s1(4) by (simp add: grown_hdr_def)
    from Suc.IH [OF s1(2) Suc.prems(2) this] s1 elsewhere_trans [OF el]
    show ?thesis using True by (auto simp: grown_hdr_def bind_e_app split: prod.splits sum.splits)
  qed
qed

lemma insert_record_at_spec:
  assumes inv: "rm_inv st" and rid: "RM_FIRST_RECORD_PAGE \<le> page_no rid" "page_no rid < 2147483647"
      "0 \<le> slot_no rid" "slot_no rid < num_records_per_page (hdr st)"
    and bs: "length bs = nat (record_size (hdr st))" and none: "recs st rid = None"
  shows "\<exists>st'. insert_record_at rid bs st = (Inr (), st') \<and> rm_inv st' \<and> recs st' = (recs st)(rid \<mapsto> bs) \<and>
    fh_fd (fh st') = fh_fd (fh st) \<and> (chain_inv st \<and> has_space st' (page_no rid) \<longrightarrow> chain_inv st') \<and>
    record_size (hdr st') = record_size (hdr st) \<and>
    num_records_per_page (hdr st') = num_records_per_page (hdr st) \<and> elsewhere st st'"
proof -
  let ?no = "page_no rid" and ?s = "nat (slot_no rid)"
  obtain sg where sg: "grow_file (nat (?no - num_pages (hdr st) + 1)) ?no st = (Inr (), sg)" "rm_inv sg"
      "recs sg = recs st" "?no < num_pages (hdr sg)" "fh_fd (fh sg) = fh_fd (fh st)"
      "record_size (hdr sg) = record_size (hdr st)" "num_records_per_page (hdr sg) = num_records_per_page (hdr st)"
      "chain_inv st \<longrightarrow> chain_inv sg" and el: "elsewhere st sg"
  proof -
    have "?no - num_pages (hdr st) + 1 \<le> int (nat (?no - num_pages (hdr st) + 1))" by simp
    then show thesis using grow_file_enough [OF inv rid(2)] that by blast
  qed
  let ?n = "num_records_per_page (hdr sg)"
  have r: "\<not> rid_out_of_file rid (hdr sg)" using rid sg(4,7) by (simp add: rid_out_of_file_def)
  note h = rm_invD(5) [OF sg(2)] and inf = in_file_rid [OF r] and sl = rid_slot(2) [OF r]
  obtain d where d: "page_of sg ?no = Some d" "num_records d = int (card (used_slots (hdr sg) d))"
      "\<not> is_set d off_bitmap ?s" "?s \<notin> used_slots (hdr sg) d"
    using rid_page [OF sg(2) r] none sg(3) by metis
  have bs': "length bs = nat (record_size (hdr sg))" using bs sg(6) by simp
  note F = filled_page_spec [OF h sl d(4) bs' d(2)]
  let ?full = "num_records d + 1 = ?n" and ?ff = "first_free_page_no (hdr sg)"
  let ?h = "if ?full \<and> ?ff = ?no then (hdr sg)\<lparr>first_free_page_no := next_free d\<rparr> else hdr sg"
  let ?d = "filled_page (hdr sg) ?s bs d"
  obtain f st1 where s: "fetch_page_handle ?no sg = (Inr f, st1)" "get_data (bpm st1) f = d" "fh st1 = fh sg"
    and w: "\<forall>d' h. \<exists>st2. unpin_handle f True (st1\<lparr>fh := (fh sg)\<lparr>file_hdr := h\<rparr>, bpm := set_data f d' (bpm st1)\<rparr>) =
        (Inr (), st2) \<and> stored sg st2 ?no (clip_page d') h"
    by (rule write_handle [OF sg(2) inf d(1)])
  obtain st2 where st2: "unpin_handle f True (st1\<lparr>fh := (fh sg)\<lparr>file_hdr := ?h\<rparr>, bpm := set_data f ?d (bpm st1)\<rparr>) = (Inr (), st2)"
      "stored sg st2 ?no (clip_page ?d) ?h" using w by blast
  have g: "\<not> (page_no rid < RM_FIRST_RECORD_PAGE \<or> slot_no rid < 0 \<or> slot_no rid \<ge> num_records_per_page (hdr st))"
    using rid by auto
  have I: "insert_record_at rid bs st = (Inr (), st2)"
  proof (cases "?full \<and> ?ff = ?no")
    case True
    then have e: "bind_e (modify_e (set_hdr (\<lambda>g. g\<lparr>first_free_page_no := next_free d\<rparr>))) (\<lambda>_.
        bind_e (modify_e (\<lambda>st. st\<lparr>bpm := set_data f ?d (bpm st)\<rparr>)) (\<lambda>_. unpin_handle f True)) st1 = (Inr (), st2)"
      using st2(1) s(3) by (simp add: set_hdr_def)
    show ?thesis using g sg(1) s d(3) True e F(6,7)
      by (simp add: insert_record_at_def Let_def filled_page_def)
  next
    case False
    then have e: "bind_e (modify_e (\<lambda>st. st\<lparr>bpm := set_data f ?d (bpm st)\<rparr>)) (\<lambda>_. unpin_handle f True) st1 = (Inr (), st2)"
      using st2(1) s(3) by (auto simp: fh_same)
    show ?thesis using g sg(1) s d(3) False e F(6,7)
      by (auto simp: insert_record_at_def Let_def filled_page_def)
  qed
  have sh: "same_shape (hdr sg) ?h" by simp
  have hr: "int32_range (first_free_page_no ?h)"
    using rm_invD(1) [OF sg(2)] by (auto simp: rm_env_def next_free_def get_i32_range)
  have "rm_inv st2" by (rule stored_inv [OF sg(2) st2(2) inf sh hr F(3)])
  moreover have "recs st2 = (recs sg)(rid \<mapsto> bs)"
    by (rule stored_recs_upd [OF sg(2) st2(2) sh d(1) r]) (use F(1) in auto)
  moreover have "chain_inv st2" if c: "chain_inv st" "has_space st2 ?no"
  proof -
    have "chain_inv sg" using c(1) sg(8) by simp
    moreover have "num_records (clip_page ?d) < ?n"
      using c(2) stored_page [OF st2(2), of ?no "clip_page ?d"] stored_hdr(1) [OF st2(2)]
      by (auto simp: has_space_def split: if_splits)
    ultimately show ?thesis
      by (intro stored_chain_same [OF sg(2) st2(2) inf sh _ d(1)]) (use F(2,4,5) in auto)
  qed
  moreover have "record_size (hdr st2) = record_size (hdr st)" "num_records_per_page (hdr st2) = num_records_per_page (hdr st)"
    using stored_hdr(1) [OF st2(2)] sg(6,7) by (simp_all split: if_splits)
  ultimately show ?thesis using I sg(3,5) stored_hdr(2) [OF st2(2)] elsewhere_trans [OF el stored_elsewhere [OF st2(2)]] by auto
qed

lemma insert_record_at_duplicate:
  assumes inv: "rm_inv st" and some: "recs st rid \<noteq> None"
  shows "\<exists>st'. insert_record_at rid bs st = (Inl (InternalError ''RmFileHandle::insert_record duplicate rid''), st') \<and>
    untouched st st'"
proof -
  have r: "\<not> rid_out_of_file rid (hdr st)" using some by (auto simp: recs_def)
  obtain d where d: "page_of st (page_no rid) = Some d" "is_set d off_bitmap (nat (slot_no rid))"
    using rid_page [OF inv r] some by metis
  obtain f st1 st2 where s: "fetch_page_handle (page_no rid) st = (Inr f, st1)" "get_data (bpm st1) f = d"
    "fh st1 = fh st" "unpin_handle f False st1 = (Inr (), st2)" "stored st st2 (page_no rid) d (hdr st)"
    by (rule read_handle [OF inv in_file_rid [OF r] d(1)])
  have "untouched st st2" using stored_self [OF inv s(5) in_file_rid [OF r] d(1)] stored_elsewhere [OF s(5)] by (simp add: untouched_def)
  moreover have "grow_file (nat (page_no rid - num_pages (hdr st) + 1)) (page_no rid) st = (Inr (), st)"
  proof -
    have "nat (page_no rid - num_pages (hdr st) + 1) = 0" using r by (simp add: rid_out_of_file_def)
    then show ?thesis by (simp only: grow_file.simps ret_app)
  qed
  ultimately show ?thesis using r s d by (auto simp: insert_record_at_def rid_out_of_file_def)
qed

section \<open>The other files\<close>

text \<open>An operation on one file keeps every other file that is open over the same pool.\<close>

lemma other_pool:
  assumes inv: "rm_inv st" and q: "quiet b" and path: "fd2path (disk b) = fd2path (disk (bpm st))"
    and no: "fd2pageno (disk b) (fh_fd (fh st)) = fd2pageno (disk (bpm st)) (fh_fd (fh st))"
    and c: "\<And>no. mk_pid (fh_fd (fh st)) no \<in> cached b \<Longrightarrow> mk_pid (fh_fd (fh st)) no \<in> cached (bpm st)"
    and v: "\<And>no d. view (bpm st) (mk_pid (fh_fd (fh st)) no) = Some d \<Longrightarrow> view b (mk_pid (fh_fd (fh st)) no) = Some d"
  shows "rm_inv (st\<lparr>bpm := b\<rparr>)" "recs (st\<lparr>bpm := b\<rparr>) = recs st" "chain_inv (st\<lparr>bpm := b\<rparr>) = chain_inv st"
proof -
  let ?b = "st\<lparr>bpm := b\<rparr>"
  note I = rm_invD [OF inv]
  have inf: "in_file ?b k = in_file st k" for k by (simp add: in_file_def)
  have pg: "page_of ?b k = page_of st k" if "in_file st k" for k
    using I(7) [OF that] v by (auto simp: page_of_def)
  have "rm_env ?b" using q path no c I(1) by (simp add: rm_env_def)
  then show "rm_inv ?b" using I(7) pg by (simp add: rm_inv_def inf)
  show "recs ?b = recs st" using pg in_file_rid [of _ st] by (auto simp: recs_def fun_eq_iff split: option.splits)
  have hs: "has_space ?b k = has_space st k" for k
    using pg [of k] by (cases "in_file st k") (auto simp: has_space_def inf)
  have "link_of ?b k = link_of st k" if "has_space st k" for k
    using that pg by (simp add: link_of_def has_space_def)
  then have "linked (link_of ?b) (first_free_page_no (hdr st)) ks = linked (link_of st) (first_free_page_no (hdr st)) ks"
    if "set ks = {k. has_space st k}" for ks
    using that by (intro linked_cong) auto
  then show "chain_inv ?b = chain_inv st" by (auto simp: chain_inv_def hs)
qed

lemma elsewhere_other:
  assumes el: "elsewhere st st'" and ne: "fh_fd h \<noteq> fh_fd (fh st)" and inv: "rm_inv (st\<lparr>fh := h\<rparr>)"
  shows "rm_inv (st'\<lparr>fh := h\<rparr>)" "recs (st'\<lparr>fh := h\<rparr>) = recs (st\<lparr>fh := h\<rparr>)"
    "chain_inv (st'\<lparr>fh := h\<rparr>) = chain_inv (st\<lparr>fh := h\<rparr>)"
proof -
  have eq: "st'\<lparr>fh := h\<rparr> = st\<lparr>fh := h, bpm := bpm st'\<rparr>" by (cases st; cases st') simp
  have e: "quiet (bpm st')" "fd2path (disk (bpm st')) = fd2path (disk (bpm st))"
      "fd2pageno (disk (bpm st')) (fh_fd h) = fd2pageno (disk (bpm st)) (fh_fd h)"
      "\<And>no. mk_pid (fh_fd h) no \<in> cached (bpm st') \<Longrightarrow> mk_pid (fh_fd h) no \<in> cached (bpm st)"
      "\<And>no d. view (bpm st) (mk_pid (fh_fd h) no) = Some d \<Longrightarrow> view (bpm st') (mk_pid (fh_fd h) no) = Some d"
    using el ne by (simp_all add: elsewhere_def)
  have "rm_inv (st\<lparr>fh := h, bpm := bpm st'\<rparr>)" "recs (st\<lparr>fh := h, bpm := bpm st'\<rparr>) = recs (st\<lparr>fh := h\<rparr>)"
      "chain_inv (st\<lparr>fh := h, bpm := bpm st'\<rparr>) = chain_inv (st\<lparr>fh := h\<rparr>)"
    by (rule other_pool [OF inv]; simp add: e)+
  then show "rm_inv (st'\<lparr>fh := h\<rparr>)" "recs (st'\<lparr>fh := h\<rparr>) = recs (st\<lparr>fh := h\<rparr>)"
      "chain_inv (st'\<lparr>fh := h\<rparr>) = chain_inv (st\<lparr>fh := h\<rparr>)"
    unfolding eq .
qed

end
