(* ===== verification/Rm_Scan.thy ===== *)
theory Rm_Scan
  imports Rm_File
begin

text \<open>
  \<^verbatim>\<open>record/rm_scan\<close>: the scan over the records of a file. The lemmas show that a scan terminates and
  meets each record once, in the order of page and slot numbers, without changing the file.
\<close>

section \<open>Scans\<close>

text \<open>
  \<^verbatim>\<open>RmScan::next\<close> looks at the pages from the current one to the last; one round of its loop leaves one
  page behind, so that the number of pages bounds the rounds.
\<close>

fun scan_from :: "nat \<Rightarrow> int \<Rightarrow> int \<Rightarrow> Rid rm_op" where
  "scan_from 0 no slot = bind_e (gets_e hdr) (\<lambda>h. ret (mk_rid (num_pages h) (- 1)))"
| "scan_from (Suc k) no slot =
     bind_e (gets_e hdr) (\<lambda>h.
       if no < num_pages h
       then bind_e (fetch_page_handle no) (\<lambda>f.
            bind_e (gets_e (\<lambda>st. next_bit True (get_data (bpm st) f) off_bitmap (num_records_per_page h) slot)) (\<lambda>ns.
            bind_e (unpin_handle f False) (\<lambda>_.
              if ns < num_records_per_page h then ret (mk_rid no ns)
              else scan_from k (no + 1) (- 1))))
       else ret (mk_rid (num_pages h) (- 1)))"

definition scan_next :: "Rid \<Rightarrow> Rid rm_op" where
  "scan_next rid =
     bind_e (gets_e hdr) (\<lambda>h. scan_from (nat (num_pages h - page_no rid)) (page_no rid) (slot_no rid))"

definition new_RmScan :: "Rid rm_op" where
  "new_RmScan = scan_next (mk_rid RM_FIRST_RECORD_PAGE (- 1))"

definition scan_is_end :: "Rid \<Rightarrow> rm_state \<Rightarrow> bool" where
  "scan_is_end rid st \<longleftrightarrow> page_no rid \<ge> num_pages (hdr st)"

section \<open>Scanning\<close>

text \<open>The order in which a scan meets the records.\<close>

definition rid_less :: "Rid \<Rightarrow> Rid \<Rightarrow> bool" where
  "rid_less a b \<longleftrightarrow> page_no a < page_no b \<or> page_no a = page_no b \<and> slot_no a < slot_no b"

text \<open>\<open>rid\<close> is the next record behind \<open>cur\<close>, or the end position when there is none.\<close>

definition next_rid :: "rm_state \<Rightarrow> Rid \<Rightarrow> Rid \<Rightarrow> bool" where
  "next_rid st cur rid \<longleftrightarrow>
     (if page_no rid < num_pages (hdr st)
      then recs st rid \<noteq> None \<and> rid_less cur rid \<and>
           (\<forall>q. recs st q \<noteq> None \<longrightarrow> rid_less cur q \<longrightarrow> q = rid \<or> rid_less rid q)
      else rid = mk_rid (num_pages (hdr st)) (- 1) \<and> (\<forall>q. recs st q \<noteq> None \<longrightarrow> \<not> rid_less cur q))"

lemma untouched_trans: "untouched a b \<Longrightarrow> untouched b c \<Longrightarrow> untouched a c"
  using elsewhere_trans by (auto simp: untouched_def)

lemma recs_rid_in_file: "recs st q \<noteq> None \<Longrightarrow> \<not> rid_out_of_file q (hdr st)"
  by (auto simp: recs_def)

lemma scan_from_spec:
  assumes "rm_inv st" and "1 \<le> no" and "- 1 \<le> slot" and "slot < num_records_per_page (hdr st)"
    and "num_pages (hdr st) - no \<le> int k"
  shows "\<exists>rid st'. scan_from k no slot st = (Inr rid, st') \<and> untouched st st' \<and> next_rid st (mk_rid no slot) rid"
  using assms
proof (induction k arbitrary: no slot st)
  case 0
  then have "\<not> rid_less (mk_rid no slot) q" if "recs st q \<noteq> None" for q
    using recs_rid_in_file [OF that] by (auto simp: rid_less_def rid_out_of_file_def)
  then show ?case using 0 by (simp add: untouched_refl next_rid_def)
next
  case (Suc k)
  let ?n = "num_records_per_page (hdr st)"
  note inv = Suc.prems(1) and h = rm_invD(5) [OF Suc.prems(1)]
  show ?case
  proof (cases "no < num_pages (hdr st)")
    case False
    then have "\<not> rid_less (mk_rid no slot) q" if "recs st q \<noteq> None" for q
      using recs_rid_in_file [OF that] by (auto simp: rid_less_def rid_out_of_file_def)
    then show ?thesis using False inv by (simp add: untouched_refl next_rid_def)
  next
    case True
    have inf: "in_file st no" using True Suc.prems(2) by (simp add: in_file_def)
    obtain d where d: "page_of st no = Some d" using rm_invD(7) [OF inv inf] by blast
    obtain f st1 st2 where s: "fetch_page_handle no st = (Inr f, st1)" "get_data (bpm st1) f = d"
        "fh st1 = fh st" "unpin_handle f False st1 = (Inr (), st2)" "stored st st2 no d (hdr st)"
      by (rule read_handle [OF inv inf d])
    have u: "untouched st st2" using stored_self [OF inv s(5) inf d] stored_elsewhere [OF s(5)] by (simp add: untouched_def)
    let ?r = "next_bit True d off_bitmap ?n slot"
    have here: "recs st q \<noteq> None \<longleftrightarrow> is_set d off_bitmap (nat (slot_no q))"
      if "page_no q = no" "0 \<le> slot_no q" "slot_no q < ?n" for q
      using that True Suc.prems(2) d by (auto simp: recs_def rid_out_of_file_def page_rec_def)
    have step: "scan_from (Suc k) no slot st =
        (if ?r < ?n then (Inr (mk_rid no ?r), st2) else scan_from k (no + 1) (- 1) st2)"
      using True s by simp
    have "slot + 1 \<le> ?n" using Suc.prems(4) by simp
    then show ?thesis
    proof (cases rule: next_bit_from_cases [where b = True and d = d and bm = off_bitmap])
      case found
      then have r: "slot < ?r" "?r < ?n" "is_set d off_bitmap (nat ?r)"
          "\<forall>k. slot < k \<and> k < ?r \<longrightarrow> \<not> is_set d off_bitmap (nat k)" by (auto simp: next_bit_def)
      have "next_rid st (mk_rid no slot) (mk_rid no ?r)"
        unfolding next_rid_def
      proof (simp add: True, intro conjI allI impI)
        show "\<exists>y. recs st (mk_rid no ?r) = Some y" using here [of "mk_rid no ?r"] r Suc.prems(3) by simp
        show "rid_less (mk_rid no slot) (mk_rid no ?r)" using r(1) by (simp add: rid_less_def)
        fix q assume q: "\<exists>y. recs st q = Some y" "rid_less (mk_rid no slot) q"
        have o: "\<not> rid_out_of_file q (hdr st)" using q(1) recs_rid_in_file by auto
        show "q = mk_rid no ?r \<or> rid_less (mk_rid no ?r) q"
        proof (rule ccontr)
          assume "\<not> ?thesis"
          with q(2) have "page_no q = no" "slot < slot_no q" "slot_no q < ?r"
            by (auto simp: rid_less_def rid_eq_iff)
          then show False using r(4) here [of q] q(1) o by (auto simp: rid_out_of_file_def)
        qed
      qed
      then show ?thesis using step r(2) u by auto
    next
      case none
      then have r: "?r = ?n" "\<forall>k. slot < k \<and> k < ?n \<longrightarrow> \<not> is_set d off_bitmap (nat k)"
        by (auto simp: next_bit_def)
      have i2: "rm_inv st2" "fh st2 = fh st" "recs st2 = recs st" using u by (simp_all add: untouched_def)
      obtain rid st3 where ih: "scan_from k (no + 1) (- 1) st2 = (Inr rid, st3)" "untouched st2 st3"
          "next_rid st2 (mk_rid (no + 1) (- 1)) rid"
        using Suc.IH [of st2 "no + 1" "- 1"] Suc.prems i2 hdr_ok_bounds(3) [OF h] by auto
      have same: "rid_less (mk_rid (no + 1) (- 1)) q \<longleftrightarrow> rid_less (mk_rid no slot) q" if "recs st q \<noteq> None" for q
      proof -
        have o: "\<not> rid_out_of_file q (hdr st)" using that recs_rid_in_file by auto
        have "\<not> (page_no q = no \<and> slot < slot_no q)"
          using r(2) here [of q] that o by (auto simp: rid_out_of_file_def)
        then show ?thesis using o by (auto simp: rid_less_def rid_out_of_file_def)
      qed
      have "next_rid st (mk_rid no slot) rid"
        using ih(3) same unfolding next_rid_def i2 by (simp split: if_splits) blast+
      then show ?thesis using step r(1) ih(1) untouched_trans [OF u ih(2)] by auto
    qed
  qed
qed

lemma scan_next_spec:
  assumes "rm_inv st" and "1 \<le> page_no rid" and "- 1 \<le> slot_no rid" and "slot_no rid < num_records_per_page (hdr st)"
  shows "\<exists>rid' st'. scan_next rid st = (Inr rid', st') \<and> untouched st st' \<and> next_rid st rid rid'"
proof -
  have le: "num_pages (hdr st) - page_no rid \<le> int (nat (num_pages (hdr st) - page_no rid))" by simp
  have id: "mk_rid (page_no rid) (slot_no rid) = rid" by (cases rid) simp
  show ?thesis using scan_from_spec [OF assms le] unfolding id by (simp add: scan_next_def)
qed

text \<open>
  A whole scan: the record ids that a client sees that constructs a scan, and calls \<^verbatim>\<open>next\<close> until
  \<^verbatim>\<open>is_end\<close>; \<open>k\<close> bounds the number of steps.
\<close>

fun scan_rest :: "nat \<Rightarrow> Rid \<Rightarrow> Rid list rm_op" where
  "scan_rest 0 rid = ret []"
| "scan_rest (Suc k) rid =
     bind_e (gets_e (scan_is_end rid)) (\<lambda>e.
       if e then ret []
       else bind_e (scan_next rid) (\<lambda>rid'. bind_e (scan_rest k rid') (\<lambda>rs. ret (rid # rs))))"

definition scan_all :: "nat \<Rightarrow> Rid list rm_op" where
  "scan_all k = bind_e new_RmScan (scan_rest k)"

lemma rid_less_trans: "rid_less a b \<Longrightarrow> rid_less b c \<Longrightarrow> rid_less a c"
  by (auto simp: rid_less_def)

lemma rid_less_irrefl [simp]: "\<not> rid_less a a"
  by (simp add: rid_less_def)

lemma finite_recs: "finite (dom (recs st))"
proof (rule finite_subset)
  let ?box = "(\<lambda>(p, s). mk_rid p s) ` ({0..num_pages (hdr st)} \<times> {0..num_records_per_page (hdr st)})"
  show "dom (recs st) \<subseteq> ?box"
  proof
    fix q assume "q \<in> dom (recs st)"
    then have "\<not> rid_out_of_file q (hdr st)" by (intro recs_rid_in_file) (simp add: domIff)
    then have "(page_no q, slot_no q) \<in> {0..num_pages (hdr st)} \<times> {0..num_records_per_page (hdr st)}"
      by (auto simp: rid_out_of_file_def)
    moreover have "q = (\<lambda>(p, s). mk_rid p s) (page_no q, slot_no q)" by simp
    ultimately show "q \<in> ?box" by (rule rev_image_eqI)
  qed
qed simp

definition from_rid :: "rm_state \<Rightarrow> Rid \<Rightarrow> Rid set" where
  "from_rid st rid = {q. recs st q \<noteq> None \<and> (q = rid \<or> rid_less rid q)}"

lemma from_rid_next:
  assumes "next_rid st rid rid'"
  shows "from_rid st rid' = from_rid st rid - {rid}"
proof (cases "page_no rid' < num_pages (hdr st)")
  case True
  with assms have n: "recs st rid' \<noteq> None" "rid_less rid rid'"
      "\<And>q. recs st q \<noteq> None \<Longrightarrow> rid_less rid q \<Longrightarrow> q = rid' \<or> rid_less rid' q"
    by (auto simp: next_rid_def)
  then have "rid_less rid q \<longleftrightarrow> q = rid' \<or> rid_less rid' q" if "recs st q \<noteq> None" for q
    using that rid_less_trans by blast
  moreover have "\<not> (rid = rid' \<or> rid_less rid' rid)" using n(2) rid_less_trans rid_less_irrefl by blast
  ultimately show ?thesis unfolding from_rid_def by blast
next
  case False
  with assms have e: "rid' = mk_rid (num_pages (hdr st)) (- 1)" "\<And>q. recs st q \<noteq> None \<Longrightarrow> \<not> rid_less rid q"
    by (auto simp: next_rid_def)
  have "from_rid st rid' = {}"
  proof -
    have "\<not> (q = rid' \<or> rid_less rid' q)" if "recs st q \<noteq> None" for q
      using recs_rid_in_file [OF that] e(1) by (auto simp: rid_out_of_file_def rid_less_def)
    then show ?thesis by (auto simp: from_rid_def)
  qed
  moreover have "from_rid st rid - {rid} = {}" using e(2) unfolding from_rid_def by blast
  ultimately show ?thesis by simp
qed

text \<open>Positions of a scan, and its first and its next one.\<close>

definition scan_pos :: "rm_state \<Rightarrow> Rid \<Rightarrow> bool" where
  "scan_pos st rid \<longleftrightarrow>
     (if page_no rid < num_pages (hdr st) then recs st rid \<noteq> None else from_rid st rid = {})"

lemma scan_pos_cong: "recs st' = recs st \<Longrightarrow> fh st' = fh st \<Longrightarrow> scan_pos st' = scan_pos st \<and> from_rid st' = from_rid st"
  by (simp add: scan_pos_def from_rid_def fun_eq_iff)

lemma finite_from_rid: "finite (from_rid st rid)"
  by (rule finite_subset [OF _ finite_recs [of st]]) (auto simp: from_rid_def)

lemma scan_step:
  assumes "rm_inv st" and "scan_pos st rid" and "page_no rid < num_pages (hdr st)"
  obtains rid' st1 where "scan_next rid st = (Inr rid', st1)" "untouched st st1" "scan_pos st rid'"
    "from_rid st rid = insert rid (from_rid st rid')" "\<And>q. q \<in> from_rid st rid' \<Longrightarrow> rid_less rid q"
    "card (from_rid st rid) = Suc (card (from_rid st rid'))"
proof -
  have r: "recs st rid \<noteq> None" using assms(2,3) by (simp add: scan_pos_def)
  note o = recs_rid_in_file [OF r]
  obtain rid' st1 where n: "scan_next rid st = (Inr rid', st1)" "untouched st st1" "next_rid st rid rid'"
    using scan_next_spec [OF assms(1), of rid] o by (auto simp: rid_out_of_file_def)
  have self: "rid \<in> from_rid st rid" using r by (simp add: from_rid_def)
  note fr = from_rid_next [OF n(3)]
  show thesis
  proof (rule that [OF n(1,2)])
    show "scan_pos st rid'" using n(3) unfolding scan_pos_def fr by (auto simp: next_rid_def from_rid_def)
    show "from_rid st rid = insert rid (from_rid st rid')" using self fr by auto
    show "rid_less rid q" if "q \<in> from_rid st rid'" for q using that unfolding fr by (auto simp: from_rid_def)
    show "card (from_rid st rid) = Suc (card (from_rid st rid'))"
      unfolding fr using card_Suc_Diff1 [OF finite_from_rid self] by simp
  qed
qed

lemma scan_start:
  assumes inv: "rm_inv st"
  obtains rid st1 where "new_RmScan st = (Inr rid, st1)" "untouched st st1" "scan_pos st rid" "from_rid st rid = dom (recs st)"
proof -
  let ?s = "mk_rid RM_FIRST_RECORD_PAGE (- 1)"
  obtain rid st1 where n: "scan_next ?s st = (Inr rid, st1)" "untouched st st1" "next_rid st ?s rid"
    using scan_next_spec [OF inv, of ?s] hdr_ok_bounds(3) [OF rm_invD(5) [OF inv]] by auto
  have first: "rid_less ?s q" if "recs st q \<noteq> None" for q
    using recs_rid_in_file [OF that] by (auto simp: rid_less_def rid_out_of_file_def)
  then have "from_rid st ?s = dom (recs st)" by (auto simp: from_rid_def)
  moreover have "?s \<notin> dom (recs st)" by (simp add: domIff recs_def rid_out_of_file_def)
  ultimately have all: "from_rid st rid = dom (recs st)" using from_rid_next [OF n(3)] by simp
  have "scan_pos st rid"
  proof (cases "page_no rid < num_pages (hdr st)")
    case False
    then have "recs st q = None" for q using n(3) first [of q] by (cases "recs st q") (auto simp: next_rid_def)
    then show ?thesis using False by (simp add: scan_pos_def from_rid_def)
  qed (use n(3) in \<open>simp add: scan_pos_def next_rid_def\<close>)
  then show thesis using that n(1,2) all by (simp add: new_RmScan_def)
qed

lemma scan_rest_spec:
  assumes "rm_inv st" and "scan_pos st rid" and "card (from_rid st rid) < k"
  shows "\<exists>rs st'. scan_rest k rid st = (Inr rs, st') \<and> untouched st st' \<and> set rs = from_rid st rid \<and> sorted_wrt rid_less rs"
  using assms
proof (induction k arbitrary: rid st)
  case 0
  then show ?case by simp
next
  case (Suc k)
  show ?case
  proof (cases "page_no rid < num_pages (hdr st)")
    case False
    then show ?thesis using Suc.prems by (simp add: scan_is_end_def scan_pos_def untouched_refl)
  next
    case True
    obtain rid' st1 where n: "scan_next rid st = (Inr rid', st1)" "untouched st st1" "scan_pos st rid'"
      "from_rid st rid = insert rid (from_rid st rid')" "\<And>q. q \<in> from_rid st rid' \<Longrightarrow> rid_less rid q"
      "card (from_rid st rid) = Suc (card (from_rid st rid'))"
      by (rule scan_step [OF Suc.prems(1,2) True]) blast
    have u: "rm_inv st1" "scan_pos st1 = scan_pos st" "from_rid st1 = from_rid st"
      using n(2) scan_pos_cong [of st1 st] by (simp_all add: untouched_def)
    obtain rs st2 where i: "scan_rest k rid' st1 = (Inr rs, st2)" "untouched st1 st2" "set rs = from_rid st rid'"
        "sorted_wrt rid_less rs"
      using Suc.IH [OF u(1), of rid'] Suc.prems(3) n(3,6) u by auto
    have "scan_rest (Suc k) rid st = (Inr (rid # rs), st2)" using True n(1) i(1) by (simp add: scan_is_end_def bind_e_app)
    then show ?thesis using untouched_trans [OF n(2) i(2)] i(3,4) n(4,5) by auto
  qed
qed

lemma scan_all_spec:
  assumes inv: "rm_inv st" and k: "card (dom (recs st)) < k"
  shows "\<exists>rs st'. scan_all k st = (Inr rs, st') \<and> untouched st st' \<and> set rs = dom (recs st) \<and> sorted_wrt rid_less rs"
proof -
  obtain rid st1 where n: "new_RmScan st = (Inr rid, st1)" "untouched st st1" "scan_pos st rid" "from_rid st rid = dom (recs st)"
    by (rule scan_start [OF inv])
  have u: "rm_inv st1" "scan_pos st1 = scan_pos st" "from_rid st1 = from_rid st"
    using n(2) scan_pos_cong [of st1 st] by (simp_all add: untouched_def)
  from scan_rest_spec [OF u(1), of rid k] obtain rs st2 where
    "scan_rest k rid st1 = (Inr rs, st2)" "untouched st1 st2" "set rs = dom (recs st)" "sorted_wrt rid_less rs"
    using n(3,4) u k by auto
  then show ?thesis using n(1) untouched_trans [OF n(2)] by (auto simp: scan_all_def)
qed

text \<open>The slots of a file bound the number of its records.\<close>

lemma card_recs_bound: "card (dom (recs st)) \<le> nat (num_pages (hdr st) * num_records_per_page (hdr st))"
proof -
  let ?p = "num_pages (hdr st)" and ?n = "num_records_per_page (hdr st)"
  have sub: "(\<lambda>r. (page_no r, slot_no r)) ` dom (recs st) \<subseteq> {0..<?p} \<times> {0..<?n}"
    using recs_rid_in_file [of st] by (fastforce simp: rid_out_of_file_def)
  have inj: "inj_on (\<lambda>r. (page_no r, slot_no r)) (dom (recs st))" by (auto simp: inj_on_def rid_eq_iff)
  have "card (dom (recs st)) = card ((\<lambda>r. (page_no r, slot_no r)) ` dom (recs st))" by (simp add: card_image inj)
  also have "\<dots> \<le> card ({0..<?p} \<times> {0..<?n})" by (rule card_mono [OF _ sub]) simp
  also have "\<dots> = nat ?p * nat ?n" by (simp add: card_cartesian_product)
  also have "\<dots> \<le> nat (?p * ?n)"
    by (cases "0 \<le> ?p \<and> 0 \<le> ?n") (auto simp: nat_mult_distrib not_le)
  finally show ?thesis .
qed

end
