(* ===== verification/Rm_Store.thy ===== *)
theory Rm_Store
  imports Rm_Scan
begin

text \<open>
  The record layer as its clients see it. The locale \<open>record_store\<close> is the contract of the
  record operations over an abstract map from record ids to byte strings; inside it every sequence
  of operations is shown to behave as a sequence of steps of that map. It is interpreted on the
  operations of \<open>Rm_File\<close>.
\<close>

datatype rec_op = Get Rid | Upd Rid "byte list" | Del Rid | Ins "byte list"

datatype rec_out = Bytes "byte list" | Changed | NewRid Rid | NotFound

text \<open>
  The abstract steps. Where a record goes is the store's choice, but it is a free place.
\<close>

inductive spec_step :: "(Rid \<rightharpoonup> byte list) \<Rightarrow> rec_op \<Rightarrow> rec_out \<Rightarrow> (Rid \<rightharpoonup> byte list) \<Rightarrow> bool" where
  get_hit: "m rid = Some bs \<Longrightarrow> spec_step m (Get rid) (Bytes bs) m"
| get_miss: "m rid = None \<Longrightarrow> spec_step m (Get rid) NotFound m"
| upd_hit: "m rid \<noteq> None \<Longrightarrow> spec_step m (Upd rid bs) Changed (m(rid \<mapsto> bs))"
| upd_miss: "m rid = None \<Longrightarrow> spec_step m (Upd rid bs) NotFound m"
| del_hit: "m rid \<noteq> None \<Longrightarrow> spec_step m (Del rid) Changed (m(rid := None))"
| del_miss: "m rid = None \<Longrightarrow> spec_step m (Del rid) NotFound m"
| ins: "m rid = None \<Longrightarrow> spec_step m (Ins bs) (NewRid rid) (m(rid \<mapsto> bs))"

inductive_cases spec_stepE: "spec_step m op out m'"
inductive_simps spec_step_get: "spec_step m (Get rid) out m'"
inductive_simps spec_step_ins: "spec_step m (Ins bs) out m'"

inductive spec_run :: "(Rid \<rightharpoonup> byte list) \<Rightarrow> rec_op list \<Rightarrow> rec_out list \<Rightarrow> (Rid \<rightharpoonup> byte list) \<Rightarrow> bool" where
  nil: "spec_run m [] [] m"
| cons: "spec_step m op out m' \<Longrightarrow> spec_run m' ops outs m'' \<Longrightarrow> spec_run m (op # ops) (out # outs) m''"

fun op_fits :: "nat \<Rightarrow> rec_op \<Rightarrow> bool" where
  "op_fits n (Upd rid bs) = (length bs = n)"
| "op_fits n (Ins bs) = (length bs = n)"
| "op_fits n _ = True"

locale record_store =
  fixes valid :: "'s \<Rightarrow> bool"
    and contents :: "'s \<Rightarrow> Rid \<rightharpoonup> byte list"
    and rec_len :: "'s \<Rightarrow> nat"
    and pages_used :: "'s \<Rightarrow> int"
    and get_op :: "Rid \<Rightarrow> ('s, rmdb_error, byte list) sem"
    and upd_op :: "Rid \<Rightarrow> byte list \<Rightarrow> ('s, rmdb_error, unit) sem"
    and del_op :: "Rid \<Rightarrow> ('s, rmdb_error, unit) sem"
    and ins_op :: "byte list \<Rightarrow> ('s, rmdb_error, Rid) sem"
  assumes get_law: "valid s \<Longrightarrow> \<exists>s'. get_op rid s =
      (case contents s rid of Some bs \<Rightarrow> Inr bs | None \<Rightarrow> Inl (RecordNotFoundError (page_no rid) (slot_no rid)), s') \<and>
      valid s' \<and> contents s' = contents s \<and> rec_len s' = rec_len s \<and> pages_used s' = pages_used s"
    and upd_law: "valid s \<Longrightarrow> contents s rid \<noteq> None \<Longrightarrow> length bs = rec_len s \<Longrightarrow>
      \<exists>s'. upd_op rid bs s = (Inr (), s') \<and> valid s' \<and> contents s' = (contents s)(rid \<mapsto> bs) \<and>
        rec_len s' = rec_len s \<and> pages_used s' = pages_used s"
    and upd_miss_law: "valid s \<Longrightarrow> contents s rid = None \<Longrightarrow>
      \<exists>s'. upd_op rid bs s = (Inl (RecordNotFoundError (page_no rid) (slot_no rid)), s') \<and> valid s' \<and>
        contents s' = contents s \<and> rec_len s' = rec_len s \<and> pages_used s' = pages_used s"
    and del_law: "valid s \<Longrightarrow> contents s rid \<noteq> None \<Longrightarrow>
      \<exists>s'. del_op rid s = (Inr (), s') \<and> valid s' \<and> contents s' = (contents s)(rid := None) \<and>
        rec_len s' = rec_len s \<and> pages_used s' = pages_used s"
    and del_miss_law: "valid s \<Longrightarrow> contents s rid = None \<Longrightarrow>
      \<exists>s'. del_op rid s = (Inl (RecordNotFoundError (page_no rid) (slot_no rid)), s') \<and> valid s' \<and>
        contents s' = contents s \<and> rec_len s' = rec_len s \<and> pages_used s' = pages_used s"
    and ins_law: "valid s \<Longrightarrow> length bs = rec_len s \<Longrightarrow> pages_used s < 2147483647 \<Longrightarrow>
      \<exists>rid s'. ins_op bs s = (Inr rid, s') \<and> valid s' \<and> contents s rid = None \<and>
        contents s' = (contents s)(rid \<mapsto> bs) \<and> rec_len s' = rec_len s \<and>
        pages_used s' \<le> pages_used s + 1"
begin

text \<open>A client's step: a missing record is reported, anything else is passed on.\<close>

fun do_op :: "rec_op \<Rightarrow> ('s, rmdb_error, rec_out) sem" where
  "do_op (Get rid) s = (case get_op rid s of (Inr bs, s') \<Rightarrow> (Inr (Bytes bs), s')
      | (Inl (RecordNotFoundError p q), s') \<Rightarrow> (Inr NotFound, s') | (Inl e, s') \<Rightarrow> (Inl e, s'))"
| "do_op (Upd rid bs) s = (case upd_op rid bs s of (Inr _, s') \<Rightarrow> (Inr Changed, s')
      | (Inl (RecordNotFoundError p q), s') \<Rightarrow> (Inr NotFound, s') | (Inl e, s') \<Rightarrow> (Inl e, s'))"
| "do_op (Del rid) s = (case del_op rid s of (Inr _, s') \<Rightarrow> (Inr Changed, s')
      | (Inl (RecordNotFoundError p q), s') \<Rightarrow> (Inr NotFound, s') | (Inl e, s') \<Rightarrow> (Inl e, s'))"
| "do_op (Ins bs) s = (case ins_op bs s of (Inr rid, s') \<Rightarrow> (Inr (NewRid rid), s') | (Inl e, s') \<Rightarrow> (Inl e, s'))"

fun do_ops :: "rec_op list \<Rightarrow> ('s, rmdb_error, rec_out list) sem" where
  "do_ops [] = ret []"
| "do_ops (op # ops) = bind_e (do_op op) (\<lambda>out. bind_e (do_ops ops) (\<lambda>outs. ret (out # outs)))"

lemma do_op_step:
  assumes "valid s" and "op_fits (rec_len s) op" and "pages_used s < 2147483647"
  shows "\<exists>out s'. do_op op s = (Inr out, s') \<and> valid s' \<and> spec_step (contents s) op out (contents s') \<and>
    rec_len s' = rec_len s \<and> pages_used s' \<le> pages_used s + 1"
proof (cases op)
  case (Get rid)
  obtain s' where s': "get_op rid s =
      (case contents s rid of Some bs \<Rightarrow> Inr bs | None \<Rightarrow> Inl (RecordNotFoundError (page_no rid) (slot_no rid)), s')"
      "valid s'" "contents s' = contents s" "rec_len s' = rec_len s" "pages_used s' = pages_used s"
    using get_law [OF assms(1)] by blast
  then show ?thesis using Get by (cases "contents s rid") (auto intro: spec_step.intros)
next
  case (Upd rid bs)
  show ?thesis
  proof (cases "contents s rid")
    case None
    then show ?thesis using Upd upd_miss_law [OF assms(1) None, of bs] by (auto intro: spec_step.intros)
  next
    case (Some old)
    then have "contents s rid \<noteq> None" by simp
    from upd_law [OF assms(1) this, of bs] Upd assms(2) obtain s' where
      "upd_op rid bs s = (Inr (), s')" "valid s'" "contents s' = (contents s)(rid \<mapsto> bs)"
      "rec_len s' = rec_len s" "pages_used s' = pages_used s" by auto
    then show ?thesis using Upd Some by (auto intro: spec_step.intros)
  qed
next
  case (Del rid)
  show ?thesis
  proof (cases "contents s rid")
    case None
    then show ?thesis using Del del_miss_law [OF assms(1) None] by (auto intro: spec_step.intros)
  next
    case (Some old)
    then have "contents s rid \<noteq> None" by simp
    from del_law [OF assms(1) this] obtain s' where
      "del_op rid s = (Inr (), s')" "valid s'" "contents s' = (contents s)(rid := None)"
      "rec_len s' = rec_len s" "pages_used s' = pages_used s" by auto
    then show ?thesis using Del Some by (auto intro: spec_step.intros)
  qed
next
  case (Ins bs)
  then show ?thesis using ins_law [OF assms(1) _ assms(3), of bs] assms(2) by (auto intro: spec_step.intros)
qed

lemma do_ops_run:
  assumes "valid s" and "\<forall>op \<in> set ops. op_fits (rec_len s) op" and "pages_used s + int (length ops) \<le> 2147483647"
  shows "\<exists>outs s'. do_ops ops s = (Inr outs, s') \<and> valid s' \<and> spec_run (contents s) ops outs (contents s')"
  using assms
proof (induction ops arbitrary: s)
  case Nil
  then show ?case by (auto intro: spec_run.intros)
next
  case (Cons op ops)
  obtain out s1 where s1: "do_op op s = (Inr out, s1)" "valid s1" "spec_step (contents s) op out (contents s1)"
      "rec_len s1 = rec_len s" "pages_used s1 \<le> pages_used s + 1"
    using do_op_step [OF Cons.prems(1), of op] Cons.prems(2,3) by auto
  obtain outs s2 where "do_ops ops s1 = (Inr outs, s2)" "valid s2" "spec_run (contents s1) ops outs (contents s2)"
    using Cons.IH [OF s1(2)] Cons.prems(2,3) s1(4,5) by auto
  then show ?case using s1 by (auto intro: spec_run.intros)
qed

lemma insert_then_get:
  assumes "valid s" and "length bs = rec_len s" and "pages_used s < 2147483647"
  shows "\<exists>rid s1 s2. ins_op bs s = (Inr rid, s1) \<and> get_op rid s1 = (Inr bs, s2)"
proof -
  obtain rid s1 where "ins_op bs s = (Inr rid, s1)" "valid s1" "contents s1 = (contents s)(rid \<mapsto> bs)"
    using ins_law [OF assms] by blast
  then show ?thesis using get_law [of s1 rid] by auto
qed

end

definition rm_valid :: "rm_state \<Rightarrow> bool" where
  "rm_valid st \<longleftrightarrow> rm_inv st \<and> chain_inv st"

lemma rm_insert_spec:
  assumes "rm_inv st" and "chain_inv st" and "length bs = nat (record_size (hdr st))"
    and "num_pages (hdr st) < 2147483647 \<or> (\<exists>k. has_space st k)"
  shows "\<exists>rid st'. insert_record bs st = (Inr rid, st') \<and> rm_inv st' \<and> chain_inv st' \<and> recs st rid = None \<and>
    recs st' = (recs st)(rid \<mapsto> bs) \<and> fh_fd (fh st') = fh_fd (fh st) \<and>
    record_size (hdr st') = record_size (hdr st) \<and>
    num_pages (hdr st') = num_pages (hdr st) + (if \<exists>k. has_space st k then 0 else 1) \<and>
    num_records_per_page (hdr st') = num_records_per_page (hdr st) \<and> elsewhere st st'"
proof (cases "\<exists>k. has_space st k")
  case True
  then obtain k where "has_space st k" by blast
  from insert_record_reuse [OF assms(1,2,3) this] True show ?thesis by auto
next
  case False
  with assms(4) have "num_pages (hdr st) < 2147483647" by blast
  from insert_record_grow [OF assms(1,2,3) False this] False show ?thesis by auto
qed

interpretation rm: record_store rm_valid recs "\<lambda>st. nat (record_size (hdr st))" "\<lambda>st. num_pages (hdr st)"
  get_record update_record delete_record insert_record
proof unfold_locales
  fix st rid assume v: "rm_valid st"
  then show "\<exists>s'. get_record rid st =
      (case recs st rid of Some bs \<Rightarrow> Inr bs | None \<Rightarrow> Inl (RecordNotFoundError (page_no rid) (slot_no rid)), s') \<and>
      rm_valid s' \<and> recs s' = recs st \<and> nat (record_size (hdr s')) = nat (record_size (hdr st)) \<and>
      num_pages (hdr s') = num_pages (hdr st)"
    using get_record_spec [of st rid] unfolding rm_valid_def untouched_def by metis
next
  fix st rid and bs :: "byte list" assume v: "rm_valid st" "recs st rid \<noteq> None" "length bs = nat (record_size (hdr st))"
  then show "\<exists>s'. update_record rid bs st = (Inr (), s') \<and> rm_valid s' \<and> recs s' = (recs st)(rid \<mapsto> bs) \<and>
      nat (record_size (hdr s')) = nat (record_size (hdr st)) \<and> num_pages (hdr s') = num_pages (hdr st)"
    using update_record_spec [of st rid bs] unfolding rm_valid_def by metis
next
  fix st rid and bs :: "byte list" assume v: "rm_valid st" "recs st rid = None"
  then show "\<exists>s'. update_record rid bs st = (Inl (RecordNotFoundError (page_no rid) (slot_no rid)), s') \<and>
      rm_valid s' \<and> recs s' = recs st \<and> nat (record_size (hdr s')) = nat (record_size (hdr st)) \<and>
      num_pages (hdr s') = num_pages (hdr st)"
    using write_missing(1) [of st rid bs] unfolding rm_valid_def untouched_def by metis
next
  fix st rid assume v: "rm_valid st" "recs st rid \<noteq> None"
  then show "\<exists>s'. delete_record rid st = (Inr (), s') \<and> rm_valid s' \<and> recs s' = (recs st)(rid := None) \<and>
      nat (record_size (hdr s')) = nat (record_size (hdr st)) \<and> num_pages (hdr s') = num_pages (hdr st)"
    using delete_record_spec [of st rid] unfolding rm_valid_def by metis
next
  fix st rid assume v: "rm_valid st" "recs st rid = None"
  then show "\<exists>s'. delete_record rid st = (Inl (RecordNotFoundError (page_no rid) (slot_no rid)), s') \<and>
      rm_valid s' \<and> recs s' = recs st \<and> nat (record_size (hdr s')) = nat (record_size (hdr st)) \<and>
      num_pages (hdr s') = num_pages (hdr st)"
    using write_missing(2) [of st rid] unfolding rm_valid_def untouched_def by metis
next
  fix st and bs :: "byte list"
  assume v: "rm_valid st" "length bs = nat (record_size (hdr st))" "num_pages (hdr st) < 2147483647"
  then show "\<exists>rid s'. insert_record bs st = (Inr rid, s') \<and> rm_valid s' \<and> recs st rid = None \<and>
        recs s' = (recs st)(rid \<mapsto> bs) \<and> nat (record_size (hdr s')) = nat (record_size (hdr st)) \<and>
        num_pages (hdr s') \<le> num_pages (hdr st) + 1"
    using rm_insert_spec [of st bs] unfolding rm_valid_def by (auto split: if_splits)
qed

section \<open>Properties\<close>

text \<open>An empty table of 100-byte records over the sample disk, in a pool of one frame.\<close>

definition sample_rm :: rm_state where
  "sample_rm =
     \<lparr>fh = \<lparr>fh_fd = 3, file_hdr = init_file_hdr 100\<rparr>,
      bpm = new_BufferPoolManager 0 1 (set_fd2pageno 3 1 sample_dm)\<rparr>"

lemma sample_rm_valid: "rm_valid sample_rm" "record_size (hdr sample_rm) = 100" "num_pages (hdr sample_rm) = 1"
proof -
  let ?dm = "set_fd2pageno 3 1 sample_dm" and ?bp = "new_BufferPoolManager 0 1 (set_fd2pageno 3 1 sample_dm)"
  show h: "record_size (hdr sample_rm) = 100" "num_pages (hdr sample_rm) = 1"
    by (simp_all add: sample_rm_def init_file_hdr_def Let_def)
  have ff: "first_free_page_no (hdr sample_rm) = RM_NO_PAGE" by (simp add: sample_rm_def init_file_hdr_def Let_def)
  have dm: "dm_inv ?dm" "no_faults ?dm"
    using sample_dm_ok(1,2) dm_inv_set_fd2pageno by (simp_all add: set_fd2pageno_def no_faults_def)
  have "pins ?bp q = 0" "0 < pool_size ?bp" for q by (simp_all add: new_BufferPoolManager_def pins_def)
  then have "quiet ?bp" using bp_ok_new [OF dm] by (simp add: quiet_def)
  moreover have "hdr_ok (hdr sample_rm)" by (simp add: sample_rm_def hdr_ok_init)
  ultimately have "rm_env sample_rm"
    using h ff sample_dm_ok(4)
    by (simp add: rm_env_def) (simp add: sample_rm_def new_BufferPoolManager_def set_fd2pageno_def cached_def int32_range_def)
  then show "rm_valid sample_rm"
    using h ff by (auto simp: rm_valid_def rm_inv_def chain_inv_def in_file_def has_space_def intro!: exI [of _ "[]"])
qed

text \<open>
  C1: a record file behaves as a map from record ids to byte strings. Any sequence of get, insert,
  update and delete calls runs to the end, over whatever pages are evicted and reloaded in
  between, and its results are those of the same sequence on the map: a missing record is
  reported and changes nothing, an insert takes a free place, and no other record is touched.
\<close>

theorem record_file_refines_map:
  assumes "rm_inv st" and "chain_inv st" and "\<forall>op \<in> set ops. op_fits (nat (record_size (hdr st))) op"
    and "num_pages (hdr st) + int (length ops) \<le> 2147483647"
  shows "\<exists>outs st'. record_store.do_ops get_record update_record delete_record insert_record ops st = (Inr outs, st') \<and>
    rm_inv st' \<and> chain_inv st' \<and> spec_run (recs st) ops outs (recs st')"
  using rm.do_ops_run [of st ops] assms by (auto simp: rm_valid_def)

theorem record_file_refines_map_witness:
  "\<exists>outs st'. record_store.do_ops get_record update_record delete_record insert_record
      [Ins (replicate 100 1), Ins (replicate 100 2), Get (mk_rid 9 9)] sample_rm = (Inr outs, st') \<and>
    spec_run (recs sample_rm) [Ins (replicate 100 1), Ins (replicate 100 2), Get (mk_rid 9 9)] outs (recs st')"
  using record_file_refines_map [of sample_rm "[Ins (replicate 100 1), Ins (replicate 100 2), Get (mk_rid 9 9)]"]
    sample_rm_valid by (auto simp: rm_valid_def)

text \<open>
  \<^verbatim>\<open>insert_record\<close> reuses space. It returns a place that was free, stores the record there and
  nowhere else, and the file grows by one page exactly when no page has a free slot; the chain of
  pages with free slots stays complete and without repetitions.
\<close>

theorem insert_record_reuses_space:
  assumes "rm_inv st" and "chain_inv st" and "length bs = nat (record_size (hdr st))"
    and "num_pages (hdr st) < 2147483647 \<or> (\<exists>k. has_space st k)"
  shows "\<exists>rid st'. insert_record bs st = (Inr rid, st') \<and> rm_inv st' \<and> chain_inv st' \<and> recs st rid = None \<and>
    recs st' = (recs st)(rid \<mapsto> bs) \<and>
    num_pages (hdr st') = num_pages (hdr st) + (if \<exists>k. has_space st k then 0 else 1)"
  using rm_insert_spec [OF assms] by blast

theorem insert_record_reuses_space_witness:
  "\<exists>rid st'. insert_record (replicate 100 7) sample_rm = (Inr rid, st') \<and>
     recs st' = (recs sample_rm)(rid \<mapsto> replicate 100 7) \<and> chain_inv st'"
  using insert_record_reuses_space [of sample_rm "replicate 100 7"] sample_rm_valid
  by (auto simp: rm_valid_def)

text \<open>
  \<^verbatim>\<open>insert_record(rid, buf)\<close>, which recovery and rollback use, puts a record exactly at the place asked for,
  growing the file up to that page if needed, and keeps every other record; at an occupied place
  it throws and changes nothing.
\<close>

theorem insert_record_at_places:
  assumes "rm_inv st" and "RM_FIRST_RECORD_PAGE \<le> page_no rid" and "page_no rid < 2147483647"
    and "0 \<le> slot_no rid" and "slot_no rid < num_records_per_page (hdr st)"
    and "length bs = nat (record_size (hdr st))"
  shows "\<exists>st'. insert_record_at rid bs st =
      (if recs st rid = None then Inr () else Inl (InternalError ''RmFileHandle::insert_record duplicate rid''), st') \<and>
    rm_inv st' \<and> recs st' = (if recs st rid = None then (recs st)(rid \<mapsto> bs) else recs st)"
proof (cases "recs st rid = None")
  case True
  from insert_record_at_spec [OF assms True] True show ?thesis by auto
next
  case False
  from insert_record_at_duplicate [OF assms(1) False, of bs] False show ?thesis by (auto simp: untouched_def)
qed

theorem insert_record_at_places_witness:
  "\<exists>st'. insert_record_at (mk_rid 3 2) (replicate 100 7) sample_rm = (Inr (), st') \<and>
     recs st' = (recs sample_rm)(mk_rid 3 2 \<mapsto> replicate 100 7)"
proof -
  have n: "2 < num_records_per_page (hdr sample_rm)"
    using hdr_ok_bounds(3) [of "hdr sample_rm"] sample_rm_valid(1) by (simp add: rm_valid_def rm_inv_def rm_env_def)
  have "recs sample_rm (mk_rid 3 2) = None" using sample_rm_valid(3) by (simp add: recs_def rid_out_of_file_def)
  then show ?thesis using insert_record_at_places [of sample_rm "mk_rid 3 2" "replicate 100 7"] sample_rm_valid n
    by (auto simp: rm_valid_def)
qed

text \<open>
  C35: a scan terminates after at most one step per record, and visits every record of the file
  exactly once, in increasing order of page and slot, leaving the file as it was.
\<close>

theorem scan_visits_all:
  assumes "rm_inv st" and "card (dom (recs st)) < k"
  shows "\<exists>rs st'. scan_all k st = (Inr rs, st') \<and> set rs = dom (recs st) \<and> sorted_wrt rid_less rs \<and> distinct rs \<and>
    rm_inv st' \<and> recs st' = recs st \<and> fh st' = fh st"
proof -
  obtain rs st' where r: "scan_all k st = (Inr rs, st')" "untouched st st'" "set rs = dom (recs st)" "sorted_wrt rid_less rs"
    using scan_all_spec [OF assms] by blast
  have "distinct rs" using r(4) by (induction rs) auto
  then show ?thesis using r by (auto simp: untouched_def)
qed

theorem scan_visits_all_witness:
  "\<exists>rid st rs st'. insert_record (replicate 100 7) sample_rm = (Inr rid, st) \<and> scan_all 2 st = (Inr rs, st') \<and> set rs = {rid}"
proof -
  have e: "recs sample_rm = Map.empty"
    using sample_rm_valid(3) by (auto simp: recs_def rid_out_of_file_def fun_eq_iff)
  obtain rid st where i: "insert_record (replicate 100 7) sample_rm = (Inr rid, st)" "rm_inv st"
      "recs st = (recs sample_rm)(rid \<mapsto> replicate 100 7)"
    using rm_insert_spec [of sample_rm "replicate 100 7"] sample_rm_valid by (auto simp: rm_valid_def)
  have "dom (recs st) = {rid}" using i(3) e by simp
  then show ?thesis using i(1) scan_visits_all [OF i(2), of 2] by auto
qed

end
