(* ===== verification/Log_Records.thy ===== *)
theory Log_Records
  imports Rmdb_Config
begin

text \<open>
  The log records of \<^verbatim>\<open>recovery/log_manager.h\<close> and their byte format (\<^verbatim>\<open>recovery/log_defs.h\<close>): the
  constructors of the six classes, \<^verbatim>\<open>serialize\<close> into a buffer, \<^verbatim>\<open>deserialize\<close> out of one, and
  \<^verbatim>\<open>build_log_record\<close> of the recovery code. Every record written into a buffer is read back.
\<close>

section \<open>Bytes at an offset\<close>

text \<open>The buffer holds the bytes from the offset on.\<close>

definition bytes_at :: "buf \<Rightarrow> nat \<Rightarrow> byte list \<Rightarrow> bool" where
  "bytes_at d off bs \<longleftrightarrow> get_bytes d off (length bs) = bs"

lemma get_bytes_add: "get_bytes d off (m + n) = get_bytes d off m @ get_bytes d (off + m) n"
  by (rule nth_equalityI) (auto simp: nth_append)

lemma bytes_at_Nil [simp]: "bytes_at d off []"
  by (simp add: bytes_at_def get_bytes_def)

lemma bytes_at_append [simp]:
  "bytes_at d off (xs @ ys) \<longleftrightarrow> bytes_at d off xs \<and> bytes_at d (off + length xs) ys"
  by (simp add: bytes_at_def get_bytes_add)

lemma bytes_at_put [simp]: "bytes_at (put_bytes d off bs) off bs"
  by (simp add: bytes_at_def get_put_same)

lemma bytes_at_put_other:
  "off + length bs \<le> off' \<or> off' + length cs \<le> off \<Longrightarrow> bytes_at d off' cs \<Longrightarrow> bytes_at (put_bytes d off bs) off' cs"
  by (auto simp: bytes_at_def get_put_disjoint)

lemma put_bytes_append:
  "put_bytes (put_bytes d off xs) (off + length xs) ys = put_bytes d off (xs @ ys)"
  by (rule ext) (auto simp: put_bytes_def nth_append)

definition u32_bytes :: "nat \<Rightarrow> byte list" where
  "u32_bytes v = le_bytes 4 v"

definition u64_bytes :: "nat \<Rightarrow> byte list" where
  "u64_bytes v = le_bytes 8 v"

definition get_u32 :: "buf \<Rightarrow> nat \<Rightarrow> nat" where
  "get_u32 d off = le_val (get_bytes d off 4)"

definition get_u64 :: "buf \<Rightarrow> nat \<Rightarrow> nat" where
  "get_u64 d off = le_val (get_bytes d off 8)"

lemma length_u_bytes [simp]: "length (u32_bytes v) = 4" "length (u64_bytes v) = 8"
  by (simp_all add: u32_bytes_def u64_bytes_def)

lemma get_i32_at [simp]: "bytes_at d off (i32_bytes v) \<Longrightarrow> int32_range v \<Longrightarrow> get_i32 d off = v"
  by (simp add: bytes_at_def get_i32_def signed_i32_bytes)

lemma get_u32_at [simp]: "bytes_at d off (u32_bytes v) \<Longrightarrow> v < 4294967296 \<Longrightarrow> get_u32 d off = v"
  by (simp add: bytes_at_def get_u32_def u32_bytes_def le_val_le_bytes)

lemma get_u64_at [simp]: "bytes_at d off (u64_bytes v) \<Longrightarrow> v < 18446744073709551616 \<Longrightarrow> get_u64 d off = v"
  by (simp add: bytes_at_def get_u64_def u64_bytes_def le_val_le_bytes)

section \<open>Log records\<close>

datatype LogType = UPDATE | INSERT | DELETE | LOG_begin | LOG_commit | ABORT

fun logtype_code :: "LogType \<Rightarrow> int" where
  "logtype_code UPDATE = 0"
| "logtype_code INSERT = 1"
| "logtype_code DELETE = 2"
| "logtype_code LOG_begin = 3"
| "logtype_code LOG_commit = 4"
| "logtype_code ABORT = 5"

definition OFFSET_LOG_TYPE :: nat where
  OFFSET_LOG_TYPE_def [simp]: "OFFSET_LOG_TYPE = 0"

definition OFFSET_LSN_LOG :: nat where
  OFFSET_LSN_LOG_def [simp]: "OFFSET_LSN_LOG = 4"

definition OFFSET_LOG_TOT_LEN :: nat where
  OFFSET_LOG_TOT_LEN_def [simp]: "OFFSET_LOG_TOT_LEN = OFFSET_LSN_LOG + 4"

definition OFFSET_LOG_TID :: nat where
  OFFSET_LOG_TID_def [simp]: "OFFSET_LOG_TID = OFFSET_LOG_TOT_LEN + 4"

definition OFFSET_PREV_LSN :: nat where
  OFFSET_PREV_LSN_def [simp]: "OFFSET_PREV_LSN = OFFSET_LOG_TID + 4"

definition OFFSET_LOG_DATA :: nat where
  OFFSET_LOG_DATA_def [simp]: "OFFSET_LOG_DATA = OFFSET_PREV_LSN + 4"

definition LOG_HEADER_SIZE :: nat where
  LOG_HEADER_SIZE_def [simp]: "LOG_HEADER_SIZE = OFFSET_LOG_DATA"

text \<open>
  The fields of the derived classes. A value is the bytes of an \<^verbatim>\<open>RmRecord\<close>, whose \<^verbatim>\<open>size\<close> is their
  number, and a table name the characters of \<^verbatim>\<open>table_name_\<close>, whose number is \<^verbatim>\<open>table_name_size_\<close>.
\<close>

datatype log_body =
    BeginLog
  | CommitLog
  | AbortLog
  | InsertLog (insert_value: "byte list") (ins_rid: Rid) (ins_table: string)
  | DeleteLog (delete_value: "byte list") (del_rid: Rid) (del_table: string)
  | UpdateLog (old_value: "byte list") (new_value: "byte list") (upd_rid: Rid) (upd_table: string)

record LogRecord =
  log_lsn :: int
  log_tot_len :: nat
  log_tid :: int
  log_prev_lsn :: int
  log_body :: log_body

fun log_type :: "log_body \<Rightarrow> LogType" where
  "log_type BeginLog = LOG_begin"
| "log_type CommitLog = LOG_commit"
| "log_type AbortLog = ABORT"
| "log_type (InsertLog _ _ _) = INSERT"
| "log_type (DeleteLog _ _ _) = DELETE"
| "log_type (UpdateLog _ _ _ _) = UPDATE"

text \<open>The constructors; \<^verbatim>\<open>log_tot_len_\<close> is a \<^verbatim>\<open>uint32_t\<close>.\<close>

definition new_log_record :: "int \<Rightarrow> nat \<Rightarrow> log_body \<Rightarrow> LogRecord" where
  "new_log_record tid extra body =
     \<lparr>log_lsn = INVALID_LSN, log_tot_len = (LOG_HEADER_SIZE + extra) mod 4294967296, log_tid = tid,
      log_prev_lsn = INVALID_LSN, log_body = body\<rparr>"

definition BeginLogRecord :: "int \<Rightarrow> LogRecord" where
  "BeginLogRecord tid = new_log_record tid 0 BeginLog"

definition CommitLogRecord :: "int \<Rightarrow> LogRecord" where
  "CommitLogRecord tid = new_log_record tid 0 CommitLog"

definition AbortLogRecord :: "int \<Rightarrow> LogRecord" where
  "AbortLogRecord tid = new_log_record tid 0 AbortLog"

definition InsertLogRecord :: "int \<Rightarrow> byte list \<Rightarrow> Rid \<Rightarrow> string \<Rightarrow> LogRecord" where
  "InsertLogRecord tid v rid tab =
     new_log_record tid (4 + length v + 8 + (8 + length tab)) (InsertLog v rid tab)"

definition DeleteLogRecord :: "int \<Rightarrow> byte list \<Rightarrow> Rid \<Rightarrow> string \<Rightarrow> LogRecord" where
  "DeleteLogRecord tid v rid tab =
     new_log_record tid (4 + length v + 8 + (8 + length tab)) (DeleteLog v rid tab)"

definition UpdateLogRecord :: "int \<Rightarrow> byte list \<Rightarrow> byte list \<Rightarrow> Rid \<Rightarrow> string \<Rightarrow> LogRecord" where
  "UpdateLogRecord tid v v' rid tab =
     new_log_record tid (4 + length v + 4 + length v' + 8 + (8 + length tab)) (UpdateLog v v' rid tab)"

section \<open>Serialization\<close>

text \<open>\<^verbatim>\<open>LogRecord::serialize\<close>: the five header fields at \<^verbatim>\<open>dest\<close>, here the offset \<open>o'\<close> of a buffer.\<close>

definition serialize_header :: "LogRecord \<Rightarrow> buf \<Rightarrow> nat \<Rightarrow> buf" where
  "serialize_header r d0 o' =
     (let d1 = put_bytes d0 (o' + OFFSET_LOG_TYPE) (i32_bytes (logtype_code (log_type (log_body r))));
          d2 = put_bytes d1 (o' + OFFSET_LSN_LOG) (i32_bytes (log_lsn r));
          d3 = put_bytes d2 (o' + OFFSET_LOG_TOT_LEN) (u32_bytes (log_tot_len r));
          d4 = put_bytes d3 (o' + OFFSET_LOG_TID) (i32_bytes (log_tid r))
      in put_bytes d4 (o' + OFFSET_PREV_LSN) (i32_bytes (log_prev_lsn r)))"

definition rid_bytes :: "Rid \<Rightarrow> byte list" where
  "rid_bytes rid = i32_bytes (page_no rid) @ i32_bytes (slot_no rid)"

text \<open>The record id and the table name at the end of every data record.\<close>

definition serialize_tail :: "Rid \<Rightarrow> string \<Rightarrow> buf \<Rightarrow> nat \<Rightarrow> buf" where
  "serialize_tail rid tab d0 o' =
     (let d1 = put_bytes d0 o' (rid_bytes rid);
          d2 = put_bytes d1 (o' + 8) (u64_bytes (length tab))
      in put_bytes d2 (o' + 8 + 8) (str_bytes tab))"

definition serialize_value :: "byte list \<Rightarrow> buf \<Rightarrow> nat \<Rightarrow> buf" where
  "serialize_value v d0 o' =
     (let d1 = put_bytes d0 o' (i32_bytes (int (length v))) in put_bytes d1 (o' + 4) v)"

text \<open>The overriding \<^verbatim>\<open>serialize\<close> of the data records, and the virtual call.\<close>

definition serialize_insert :: "LogRecord \<Rightarrow> byte list \<Rightarrow> Rid \<Rightarrow> string \<Rightarrow> buf \<Rightarrow> nat \<Rightarrow> buf" where
  "serialize_insert r v rid tab d0 o' =
     (let d = serialize_header r d0 o'; k = o' + OFFSET_LOG_DATA
      in serialize_tail rid tab (serialize_value v d k) (k + 4 + length v))"

definition serialize_delete :: "LogRecord \<Rightarrow> byte list \<Rightarrow> Rid \<Rightarrow> string \<Rightarrow> buf \<Rightarrow> nat \<Rightarrow> buf" where
  "serialize_delete r v rid tab d0 o' =
     (let d = serialize_header r d0 o'; k = o' + OFFSET_LOG_DATA
      in serialize_tail rid tab (serialize_value v d k) (k + 4 + length v))"

definition serialize_update :: "LogRecord \<Rightarrow> byte list \<Rightarrow> byte list \<Rightarrow> Rid \<Rightarrow> string \<Rightarrow> buf \<Rightarrow> nat \<Rightarrow> buf" where
  "serialize_update r v v' rid tab d0 o' =
     (let d = serialize_header r d0 o'; k = o' + OFFSET_LOG_DATA; k1 = k + 4 + length v
      in serialize_tail rid tab (serialize_value v' (serialize_value v d k) k1) (k1 + 4 + length v'))"

definition serialize :: "LogRecord \<Rightarrow> buf \<Rightarrow> nat \<Rightarrow> buf" where
  "serialize r d0 o' =
     (case log_body r of
        InsertLog v rid tab \<Rightarrow> serialize_insert r v rid tab d0 o'
      | DeleteLog v rid tab \<Rightarrow> serialize_delete r v rid tab d0 o'
      | UpdateLog v v' rid tab \<Rightarrow> serialize_update r v v' rid tab d0 o'
      | _ \<Rightarrow> serialize_header r d0 o')"

section \<open>Deserialization\<close>

text \<open>\<^verbatim>\<open>RmRecord::Deserialize\<close> and the fields behind a value.\<close>

definition RmRecord_Deserialize :: "buf \<Rightarrow> nat \<Rightarrow> byte list" where
  "RmRecord_Deserialize d o' = get_bytes d (o' + 4) (nat (get_i32 d o'))"

definition deserialize_rid :: "buf \<Rightarrow> nat \<Rightarrow> Rid" where
  "deserialize_rid d o' = mk_rid (get_i32 d o') (get_i32 d (o' + 4))"

definition deserialize_name :: "buf \<Rightarrow> nat \<Rightarrow> string" where
  "deserialize_name d o' = bytes_str (get_bytes d (o' + 8) (get_u64 d o'))"

definition deserialize_insert :: "buf \<Rightarrow> nat \<Rightarrow> log_body" where
  "deserialize_insert d o' =
     (let k = o' + OFFSET_LOG_DATA; v = RmRecord_Deserialize d k; k1 = k + 4 + length v
      in InsertLog v (deserialize_rid d k1) (deserialize_name d (k1 + 8)))"

definition deserialize_delete :: "buf \<Rightarrow> nat \<Rightarrow> log_body" where
  "deserialize_delete d o' =
     (let k = o' + OFFSET_LOG_DATA; v = RmRecord_Deserialize d k; k1 = k + 4 + length v
      in DeleteLog v (deserialize_rid d k1) (deserialize_name d (k1 + 8)))"

definition deserialize_update :: "buf \<Rightarrow> nat \<Rightarrow> log_body" where
  "deserialize_update d o' =
     (let k = o' + OFFSET_LOG_DATA; v = RmRecord_Deserialize d k; k1 = k + 4 + length v;
          v' = RmRecord_Deserialize d k1; k2 = k1 + 4 + length v'
      in UpdateLog v v' (deserialize_rid d k2) (deserialize_name d (k2 + 8)))"

definition deserialize_body :: "LogType \<Rightarrow> buf \<Rightarrow> nat \<Rightarrow> log_body" where
  "deserialize_body ty d o' =
     (case ty of
        INSERT \<Rightarrow> deserialize_insert d o'
      | DELETE \<Rightarrow> deserialize_delete d o'
      | UPDATE \<Rightarrow> deserialize_update d o'
      | LOG_begin \<Rightarrow> BeginLog
      | LOG_commit \<Rightarrow> CommitLog
      | ABORT \<Rightarrow> AbortLog)"

text \<open>\<^verbatim>\<open>LogRecord::deserialize\<close> reads the header fields, the overriding functions the rest.\<close>

definition deserialize :: "LogType \<Rightarrow> buf \<Rightarrow> nat \<Rightarrow> LogRecord" where
  "deserialize ty d o' =
     \<lparr>log_lsn = get_i32 d (o' + OFFSET_LSN_LOG), log_tot_len = get_u32 d (o' + OFFSET_LOG_TOT_LEN),
      log_tid = get_i32 d (o' + OFFSET_LOG_TID), log_prev_lsn = get_i32 d (o' + OFFSET_PREV_LSN),
      log_body = deserialize_body ty d o'\<rparr>"

text \<open>\<^verbatim>\<open>build_log_record\<close>: null for an unknown type.\<close>

definition build_log_record :: "buf \<Rightarrow> LogRecord option" where
  "build_log_record d =
     (let ty = get_i32 d OFFSET_LOG_TYPE in
      if ty = 0 then Some (deserialize UPDATE d 0)
      else if ty = 1 then Some (deserialize INSERT d 0)
      else if ty = 2 then Some (deserialize DELETE d 0)
      else if ty = 3 then Some (deserialize LOG_begin d 0)
      else if ty = 4 then Some (deserialize LOG_commit d 0)
      else if ty = 5 then Some (deserialize ABORT d 0)
      else None)"

section \<open>The bytes of a record\<close>

definition value_bytes :: "byte list \<Rightarrow> byte list" where
  "value_bytes v = i32_bytes (int (length v)) @ v"

definition tail_bytes :: "Rid \<Rightarrow> string \<Rightarrow> byte list" where
  "tail_bytes rid tab = rid_bytes rid @ u64_bytes (length tab) @ str_bytes tab"

fun body_bytes :: "log_body \<Rightarrow> byte list" where
  "body_bytes (InsertLog v rid tab) = value_bytes v @ tail_bytes rid tab"
| "body_bytes (DeleteLog v rid tab) = value_bytes v @ tail_bytes rid tab"
| "body_bytes (UpdateLog v v' rid tab) = value_bytes v @ value_bytes v' @ tail_bytes rid tab"
| "body_bytes _ = []"

definition log_bytes :: "LogRecord \<Rightarrow> byte list" where
  "log_bytes r =
     i32_bytes (logtype_code (log_type (log_body r))) @ i32_bytes (log_lsn r) @ u32_bytes (log_tot_len r) @
     i32_bytes (log_tid r) @ i32_bytes (log_prev_lsn r) @ body_bytes (log_body r)"

lemma length_value_bytes [simp]: "length (value_bytes v) = 4 + length v"
  by (simp add: value_bytes_def)

lemma length_rid_bytes [simp]: "length (rid_bytes rid) = 8"
  by (simp add: rid_bytes_def)

lemma length_tail_bytes [simp]: "length (tail_bytes rid tab) = 16 + length tab"
  by (simp add: tail_bytes_def)

definition header_bytes :: "LogRecord \<Rightarrow> byte list" where
  "header_bytes r =
     i32_bytes (logtype_code (log_type (log_body r))) @ i32_bytes (log_lsn r) @ u32_bytes (log_tot_len r) @
     i32_bytes (log_tid r) @ i32_bytes (log_prev_lsn r)"

lemma length_header_bytes [simp]: "length (header_bytes r) = 20"
  by (simp add: header_bytes_def)

lemma log_bytes_header: "log_bytes r = header_bytes r @ body_bytes (log_body r)"
  by (simp add: log_bytes_def header_bytes_def)

text \<open>Adjacent writes are one write.\<close>

lemma put_bytes_adjacent:
  "k = off + length xs \<Longrightarrow> put_bytes (put_bytes d off xs) k ys = put_bytes d off (xs @ ys)"
  by (simp add: put_bytes_append)

lemma serialize_header_bytes: "serialize_header r d o' = put_bytes d o' (header_bytes r)"
  by (simp add: serialize_header_def header_bytes_def put_bytes_adjacent)

lemma serialize_value_bytes: "serialize_value v d o' = put_bytes d o' (value_bytes v)"
  by (simp add: serialize_value_def value_bytes_def put_bytes_adjacent)

lemma serialize_tail_bytes: "serialize_tail rid tab d o' = put_bytes d o' (tail_bytes rid tab)"
  by (simp add: serialize_tail_def tail_bytes_def put_bytes_adjacent)

lemma serialize_log_bytes: "serialize r d o' = put_bytes d o' (log_bytes r)"
  by (cases "log_body r")
    (simp_all add: serialize_def serialize_insert_def serialize_delete_def serialize_update_def log_bytes_header serialize_header_bytes serialize_value_bytes
      serialize_tail_bytes put_bytes_adjacent add.assoc)

text \<open>Records whose fields have the ranges of their C++ types and whose length field is right.\<close>

definition value_ok :: "byte list \<Rightarrow> bool" where
  "value_ok v \<longleftrightarrow> length v < 2147483648"

definition rid_ok :: "Rid \<Rightarrow> bool" where
  "rid_ok rid \<longleftrightarrow> int32_range (page_no rid) \<and> int32_range (slot_no rid)"

fun body_ok :: "log_body \<Rightarrow> bool" where
  "body_ok (InsertLog v rid tab) = (value_ok v \<and> rid_ok rid \<and> length tab < 18446744073709551616)"
| "body_ok (DeleteLog v rid tab) = (value_ok v \<and> rid_ok rid \<and> length tab < 18446744073709551616)"
| "body_ok (UpdateLog v v' rid tab) =
     (value_ok v \<and> value_ok v' \<and> rid_ok rid \<and> length tab < 18446744073709551616)"
| "body_ok _ = True"

definition log_ok :: "LogRecord \<Rightarrow> bool" where
  "log_ok r \<longleftrightarrow> int32_range (log_lsn r) \<and> int32_range (log_tid r) \<and> int32_range (log_prev_lsn r) \<and>
     body_ok (log_body r) \<and> log_tot_len r = LOG_HEADER_SIZE + length (body_bytes (log_body r)) \<and>
     log_tot_len r < 4294967296"

lemma length_log_bytes: "log_ok r \<Longrightarrow> length (log_bytes r) = log_tot_len r"
  by (simp add: log_ok_def log_bytes_header)

lemma RmRecord_Deserialize_at:
  assumes "bytes_at d o' (value_bytes v)" and "value_ok v"
  shows "RmRecord_Deserialize d o' = v"
proof -
  have "get_i32 d o' = int (length v)" and "get_bytes d (o' + 4) (length v) = v"
    using assms by (auto simp: value_bytes_def value_ok_def int32_range_def bytes_at_def [of d "o' + 4"])
  then show ?thesis by (simp add: RmRecord_Deserialize_def)
qed

lemma deserialize_tail_at:
  assumes "bytes_at d o' (tail_bytes rid tab)" and "rid_ok rid" and "length tab < 18446744073709551616"
  shows "deserialize_rid d o' = rid" and "deserialize_name d (o' + 8) = tab"
proof -
  have b: "bytes_at d o' (i32_bytes (page_no rid))" "bytes_at d (o' + 4) (i32_bytes (slot_no rid))"
    "bytes_at d (o' + 8) (u64_bytes (length tab))" "bytes_at d (o' + 16) (str_bytes tab)"
    using assms(1) by (simp_all add: tail_bytes_def rid_bytes_def ac_simps)
  show "deserialize_rid d o' = rid"
    using b assms(2) by (simp add: deserialize_rid_def rid_ok_def)
  show "deserialize_name d (o' + 8) = tab"
    using b assms(3) by (simp add: deserialize_name_def bytes_at_def [of d "o' + 16"] ac_simps)
qed

lemmas deserialize_body_defs = deserialize_body_def deserialize_insert_def deserialize_delete_def deserialize_update_def

lemma deserialize_body_at:
  assumes "bytes_at d (o' + OFFSET_LOG_DATA) (body_bytes b)" and "body_ok b"
  shows "deserialize_body (log_type b) d o' = b"
proof -
  define k where "k = o' + OFFSET_LOG_DATA"
  note at = assms(1) [folded k_def]
  show ?thesis
  proof (cases b)
    case (InsertLog v rid tab)
    with at assms(2) have "RmRecord_Deserialize d k = v" "bytes_at d (k + 4 + length v) (tail_bytes rid tab)"
      by (auto intro: RmRecord_Deserialize_at simp: add.assoc)
    with deserialize_tail_at [of d "k + 4 + length v" rid tab] InsertLog assms(2) show ?thesis
      by (simp add: deserialize_body_defs Let_def k_def [symmetric] del: OFFSET_LOG_DATA_def)
  next
    case (DeleteLog v rid tab)
    with at assms(2) have "RmRecord_Deserialize d k = v" "bytes_at d (k + 4 + length v) (tail_bytes rid tab)"
      by (auto intro: RmRecord_Deserialize_at simp: add.assoc)
    with deserialize_tail_at [of d "k + 4 + length v" rid tab] DeleteLog assms(2) show ?thesis
      by (simp add: deserialize_body_defs Let_def k_def [symmetric] del: OFFSET_LOG_DATA_def)
  next
    case (UpdateLog v v' rid tab)
    with at assms(2) have "RmRecord_Deserialize d k = v" "RmRecord_Deserialize d (k + 4 + length v) = v'"
      "bytes_at d (k + 4 + length v + 4 + length v') (tail_bytes rid tab)"
      by (auto intro!: RmRecord_Deserialize_at simp: add.assoc)
    with deserialize_tail_at [of d "k + 4 + length v + 4 + length v'" rid tab] UpdateLog assms(2) show ?thesis
      by (simp add: deserialize_body_defs Let_def k_def [symmetric] del: OFFSET_LOG_DATA_def)
  qed (simp_all add: deserialize_body_defs Let_def)
qed

lemma deserialize_at:
  assumes "bytes_at d o' (log_bytes r)" and "log_ok r"
  shows "deserialize (log_type (log_body r)) d o' = r"
    and "get_i32 d (o' + OFFSET_LOG_TYPE) = logtype_code (log_type (log_body r))"
proof -
  have b: "bytes_at d o' (header_bytes r)" "bytes_at d (o' + OFFSET_LOG_DATA) (body_bytes (log_body r))"
    using assms(1) by (simp_all add: log_bytes_header)
  have "int32_range (logtype_code ty)" for ty by (cases ty) (simp_all add: int32_range_def)
  then show "get_i32 d (o' + OFFSET_LOG_TYPE) = logtype_code (log_type (log_body r))"
    using b(1) by (simp add: header_bytes_def)
  show "deserialize (log_type (log_body r)) d o' = r"
    using b(1) assms(2) deserialize_body_at [OF b(2)]
    by (cases r) (simp add: deserialize_def header_bytes_def log_ok_def ac_simps)
qed

lemma build_log_record_at:
  assumes "bytes_at d 0 (log_bytes r)" and "log_ok r"
  shows "build_log_record d = Some r"
  using deserialize_at [OF assms] by (cases "log_type (log_body r)") (simp_all add: build_log_record_def)

lemma new_log_record_ok:
  assumes "int32_range tid" and "body_ok body" and "extra = length (body_bytes body)" and "20 + extra < 4294967296"
  shows "log_ok (new_log_record tid extra body)"
  using assms by (simp add: log_ok_def new_log_record_def int32_range_def)

lemma log_ok_lsn [simp]: "log_ok r \<Longrightarrow> int32_range l \<Longrightarrow> log_ok (r\<lparr>log_lsn := l\<rparr>)"
  by (simp add: log_ok_def)

section \<open>Properties\<close>

text \<open>
  C29: Every log record whose fields have the ranges of their C++ types is read back by
  \<^verbatim>\<open>build_log_record\<close> from the buffer it was serialized into, whatever the buffer held;
  \<^verbatim>\<open>serialize\<close> writes exactly \<^verbatim>\<open>log_tot_len_\<close> bytes, and leaves every other byte as it was.
\<close>

theorem log_record_roundtrip:
  assumes "log_ok r"
  shows "build_log_record (\<lambda>i. serialize r d o' (o' + i)) = Some r \<and>
         (\<forall>i. i < o' \<or> o' + log_tot_len r \<le> i \<longrightarrow> serialize r d o' i = d i)"
proof -
  have "bytes_at (\<lambda>i. serialize r d o' (o' + i)) 0 (log_bytes r)"
    unfolding bytes_at_def serialize_log_bytes
    by (rule nth_equalityI) (simp_all add: put_bytes_def)
  with assms build_log_record_at show ?thesis
    by (auto simp: serialize_log_bytes put_bytes_outside length_log_bytes)
qed

theorem log_record_roundtrip_witness:
  "log_ok (UpdateLogRecord 7 [1, 2] [3] (mk_rid 1 2) ''grade'') \<and>
   build_log_record (\<lambda>i. serialize (UpdateLogRecord 7 [1, 2] [3] (mk_rid 1 2) ''grade'') zero_buf 10 (10 + i)) =
     Some (UpdateLogRecord 7 [1, 2] [3] (mk_rid 1 2) ''grade'')"
proof -
  have "log_ok (UpdateLogRecord 7 [1, 2] [3] (mk_rid 1 2) ''grade'')"
    unfolding UpdateLogRecord_def
    by (rule new_log_record_ok) (simp_all add: int32_range_def value_ok_def rid_ok_def)
  then show ?thesis using log_record_roundtrip by blast
qed

text \<open>
  The constructors of the log records compute the length that \<^verbatim>\<open>serialize\<close> writes, so that the
  records they build have a right length field whenever they fit the log buffer.
\<close>

theorem log_constructors_length:
  assumes "int32_range tid" and "rid_ok rid" and "length v + length v' + length tab + 44 \<le> LOG_BUFFER_SIZE"
  shows "log_ok (BeginLogRecord tid) \<and> log_ok (CommitLogRecord tid) \<and> log_ok (AbortLogRecord tid) \<and>
         log_ok (InsertLogRecord tid v rid tab) \<and> log_ok (DeleteLogRecord tid v rid tab) \<and>
         log_ok (UpdateLogRecord tid v v' rid tab) \<and>
         log_tot_len (UpdateLogRecord tid v v' rid tab) \<le> LOG_BUFFER_SIZE"
  using assms
  by (auto simp: BeginLogRecord_def CommitLogRecord_def AbortLogRecord_def InsertLogRecord_def DeleteLogRecord_def
      UpdateLogRecord_def value_ok_def intro!: new_log_record_ok) (simp add: new_log_record_def)

theorem log_constructors_length_witness:
  "log_ok (InsertLogRecord 3 [1, 2, 3] (mk_rid 1 0) ''t'') \<and>
   log_tot_len (UpdateLogRecord 3 [1, 2, 3] [4, 5, 6] (mk_rid 1 0) ''t'') \<le> LOG_BUFFER_SIZE"
  using log_constructors_length [of 3 "mk_rid 1 0" "[1, 2, 3]" "[4, 5, 6]" "''t''"]
  by (simp add: int32_range_def rid_ok_def)

end
