(* ===== verification/Log_Manager.thy ===== *)
theory Log_Manager
  imports Disk_Manager Log_Records
begin

text \<open>
  \<^verbatim>\<open>LogBuffer\<close> and \<^verbatim>\<open>LogManager\<close> (\<^verbatim>\<open>recovery/log_manager.h\<close>, \<^verbatim>\<open>log_manager.cpp\<close>): the buffer that collects
  serialized log records and goes to the log file when it is full or flushed. The log manager and the
  disk manager are separate objects; a call works on both.
\<close>

section \<open>Operations\<close>

record LogBuffer =
  lb_buffer :: buf
  lb_offset :: nat

record LogManager =
  global_lsn :: int
  log_buffer :: LogBuffer
  persist_lsn :: int

type_synonym log_state = "LogManager \<times> disk_manager"
type_synonym 'a log_op = "(log_state, rmdb_error, 'a) sem"

definition new_LogBuffer :: LogBuffer where
  "new_LogBuffer = \<lparr>lb_buffer = zero_buf, lb_offset = 0\<rparr>"

text \<open>The constructor; \<^verbatim>\<open>persist_lsn_\<close> starts with an unspecified value.\<close>

definition new_LogManager :: "int \<Rightarrow> LogManager" where
  "new_LogManager p = \<lparr>global_lsn = 0, log_buffer = new_LogBuffer, persist_lsn = p\<rparr>"

definition is_full :: "LogBuffer \<Rightarrow> nat \<Rightarrow> bool" where
  "is_full lb append_size \<longleftrightarrow> lb_offset lb + append_size > LOG_BUFFER_SIZE"

text \<open>The bytes the buffer holds.\<close>

definition pending :: "LogManager \<Rightarrow> byte list" where
  "pending lm = get_bytes (lb_buffer (log_buffer lm)) 0 (lb_offset (log_buffer lm))"

definition on_log_disk :: "'a disk_op \<Rightarrow> 'a log_op" where
  "on_log_disk = zoom snd (\<lambda>d s. (fst s, d))"

definition on_log_manager :: "(LogManager \<Rightarrow> LogManager) \<Rightarrow> unit log_op" where
  "on_log_manager f = modify_e (\<lambda>(lm, d). (f lm, d))"

text \<open>
  Writing the buffer out, as both operations do it: the bytes are written, the last assigned sequence
  number becomes the persistent one, and the buffer is cleared.
\<close>

definition write_buffer :: "unit log_op" where
  "write_buffer =
     bind_e (gets_e (\<lambda>(lm, _). pending lm)) (\<lambda>bs.
     bind_e (on_log_disk (write_log bs)) (\<lambda>_.
     on_log_manager (\<lambda>lm. lm\<lparr>persist_lsn := wrap32 (global_lsn lm - 1),
                             log_buffer := \<lparr>lb_buffer = zero_buf, lb_offset = 0\<rparr>\<rparr>)))"

definition add_log_to_buffer :: "LogRecord \<Rightarrow> int log_op" where
  "add_log_to_buffer r =
     (if log_tot_len r > LOG_BUFFER_SIZE then throw (InternalError ''single log record is too large'')
      else
        bind_e (gets_e (\<lambda>(lm, _). is_full (log_buffer lm) (log_tot_len r))) (\<lambda>full.
        bind_e (if full then write_buffer else ret ()) (\<lambda>_.
        bind_e (gets_e (\<lambda>(lm, _). global_lsn lm)) (\<lambda>lsn.
        bind_e (on_log_manager (\<lambda>lm. lm\<lparr>global_lsn := wrap32 (global_lsn lm + 1)\<rparr>)) (\<lambda>_.
        bind_e (on_log_manager (\<lambda>lm. lm\<lparr>log_buffer := \<lparr>
            lb_buffer = serialize (r\<lparr>log_lsn := lsn\<rparr>) (lb_buffer (log_buffer lm)) (lb_offset (log_buffer lm)),
            lb_offset = lb_offset (log_buffer lm) + log_tot_len r\<rparr>\<rparr>)) (\<lambda>_.
        ret lsn))))))"

definition flush_log_to_disk :: "unit log_op" where
  "flush_log_to_disk =
     bind_e (gets_e (\<lambda>(lm, _). lb_offset (log_buffer lm))) (\<lambda>off.
       if off = 0 then ret () else write_buffer)"

section \<open>The log as a sequence of records\<close>

text \<open>
  What has been logged: the log file followed by the bytes of the buffer. The manager is consistent
  when the buffer is within its array and its free part is clear.
\<close>

definition logged :: "log_state \<Rightarrow> byte list" where
  "logged = (\<lambda>(lm, d). log_contents d @ pending lm)"

definition lmgr_ok :: "LogManager \<Rightarrow> bool" where
  "lmgr_ok lm \<longleftrightarrow> lb_offset (log_buffer lm) \<le> LOG_BUFFER_SIZE \<and> int32_range (global_lsn lm) \<and>
     (\<forall>i \<ge> LOG_BUFFER_SIZE. lb_buffer (log_buffer lm) i = 0)"

definition log_env :: "disk_manager \<Rightarrow> bool" where
  "log_env d \<longleftrightarrow> dm_inv d \<and> log_open d \<and> no_faults d"

lemma log_env_write:
  assumes "log_env d" and "write_log bs d = (Inr (), d')" and "same_tables d d'"
  shows "log_env d'"
  using assms dm_inv_write_log [THEN keepsD, of d bs]
  by (auto simp: log_env_def same_tables_def log_open_def no_faults_def)

lemma pending_clear [simp]: "pending (lm\<lparr>persist_lsn := p, log_buffer := \<lparr>lb_buffer = b, lb_offset = 0\<rparr>\<rparr>) = []"
  by (simp add: pending_def get_bytes_def)

lemma write_buffer_ok:
  assumes "log_env d" and "lmgr_ok lm"
  obtains d' where "write_buffer (lm, d) =
      (Inr (), (lm\<lparr>persist_lsn := wrap32 (global_lsn lm - 1), log_buffer := \<lparr>lb_buffer = zero_buf, lb_offset = 0\<rparr>\<rparr>, d'))"
    and "log_contents d' = logged (lm, d)" and "log_env d'" and "log_only d d'"
proof -
  obtain d' where d': "write_log (pending lm) d = (Inr (), d')" "log_contents d' = log_contents d @ pending lm"
      "same_tables d d'" "log_only d d'"
    using assms(1) write_log_ok [of d "pending lm"] by (auto simp: log_env_def)
  show thesis
    by (rule that [of d'])
      (use d' log_env_write [OF assms(1)] in \<open>auto simp: write_buffer_def on_log_disk_def on_log_manager_def
        sem_simps logged_def\<close>)
qed

lemma int32_range_wrap32: "int32_range (wrap32 v)"
proof -
  have "unsigned_of 32 v < 4294967296" using unsigned_of_bound [of 32 v] by simp
  then show ?thesis by (auto simp: wrap32_def signed_of_def int32_range_def)
qed

text \<open>Appending to the buffer when there is room.\<close>

lemma pending_append:
  assumes "log_ok r" and "lb_offset (log_buffer lm) + log_tot_len r \<le> LOG_BUFFER_SIZE"
  shows "pending (lm\<lparr>global_lsn := g, log_buffer := \<lparr>
      lb_buffer = serialize r (lb_buffer (log_buffer lm)) (lb_offset (log_buffer lm)),
      lb_offset = lb_offset (log_buffer lm) + log_tot_len r\<rparr>\<rparr>) = pending lm @ log_bytes r"
  using assms length_log_bytes [OF assms(1)] get_put_same [of "log_tot_len r" "log_bytes r"]
  by (simp add: pending_def serialize_log_bytes get_bytes_add get_put_disjoint)

lemma add_log_ok:
  assumes "log_env d" and "lmgr_ok lm" and "log_ok r" and "log_tot_len r \<le> LOG_BUFFER_SIZE"
  obtains lm' d' where "add_log_to_buffer r (lm, d) = (Inr (global_lsn lm), (lm', d'))"
    and "logged (lm', d') = logged (lm, d) @ log_bytes (r\<lparr>log_lsn := global_lsn lm\<rparr>)"
    and "global_lsn lm' = wrap32 (global_lsn lm + 1)" and "lmgr_ok lm'" and "log_env d'"
    and "log_only d d'"
proof -
  let ?r = "r\<lparr>log_lsn := global_lsn lm\<rparr>"
  let ?add = "\<lambda>l. l\<lparr>global_lsn := wrap32 (global_lsn lm + 1), log_buffer := \<lparr>
      lb_buffer = serialize ?r (lb_buffer (log_buffer l)) (lb_offset (log_buffer l)),
      lb_offset = lb_offset (log_buffer l) + log_tot_len r\<rparr>\<rparr>"
  have r: "log_ok ?r" using assms(2,3) by (simp add: lmgr_ok_def)
  have fits: "lmgr_ok (?add l) \<and> pending (?add l) = pending l @ log_bytes ?r"
    if "lmgr_ok l" "lb_offset (log_buffer l) + log_tot_len r \<le> LOG_BUFFER_SIZE" for l
    using that pending_append [OF r, of l] length_log_bytes [OF r]
    by (auto simp: lmgr_ok_def serialize_log_bytes int32_range_wrap32 put_bytes_outside)
  show thesis
  proof (cases "is_full (log_buffer lm) (log_tot_len r)")
    case False
    then have "add_log_to_buffer r (lm, d) = (Inr (global_lsn lm), (?add lm, d))"
      using assms(4) by (simp add: add_log_to_buffer_def on_log_manager_def sem_simps)
    then show thesis
      using that [of "?add lm" d] fits [OF assms(2)] False assms(1) by (simp add: logged_def is_full_def)
  next
    case True
    obtain d' where d': "write_buffer (lm, d) =
        (Inr (), (lm\<lparr>persist_lsn := wrap32 (global_lsn lm - 1), log_buffer := \<lparr>lb_buffer = zero_buf, lb_offset = 0\<rparr>\<rparr>, d'))"
      "log_contents d' = logged (lm, d)" "log_env d'" "log_only d d'"
      using write_buffer_ok [OF assms(1,2)] by blast
    let ?l = "lm\<lparr>persist_lsn := wrap32 (global_lsn lm - 1), log_buffer := \<lparr>lb_buffer = zero_buf, lb_offset = 0\<rparr>\<rparr>"
    have "add_log_to_buffer r (lm, d) = (Inr (global_lsn lm), (?add ?l, d'))"
      using assms(4) True d'(1) by (simp add: add_log_to_buffer_def on_log_manager_def sem_simps)
    then show thesis
      using that [of "?add ?l" d'] fits [of ?l] assms(2,4) d' by (simp add: logged_def lmgr_ok_def)
  qed
qed

lemma flush_log_ok:
  assumes "log_env d" and "lmgr_ok lm"
  obtains lm' d' where "flush_log_to_disk (lm, d) = (Inr (), (lm', d'))"
    and "log_contents d' = logged (lm, d)" and "logged (lm', d') = logged (lm, d)"
    and "global_lsn lm' = global_lsn lm" and "lmgr_ok lm'" and "log_env d'" and "log_only d d'"
proof (cases "lb_offset (log_buffer lm) = 0")
  case True
  then show thesis
    using that [of lm d] assms by (simp add: flush_log_to_disk_def logged_def pending_def get_bytes_def)
next
  case False
  obtain d' where d': "write_buffer (lm, d) =
      (Inr (), (lm\<lparr>persist_lsn := wrap32 (global_lsn lm - 1), log_buffer := \<lparr>lb_buffer = zero_buf, lb_offset = 0\<rparr>\<rparr>, d'))"
    "log_contents d' = logged (lm, d)" "log_env d'" "log_only d d'"
    using write_buffer_ok [OF assms] by blast
  let ?l = "lm\<lparr>persist_lsn := wrap32 (global_lsn lm - 1), log_buffer := \<lparr>lb_buffer = zero_buf, lb_offset = 0\<rparr>\<rparr>"
  show thesis
    by (rule that [of ?l d']) (use d' False assms(2) in \<open>auto simp: flush_log_to_disk_def logged_def lmgr_ok_def\<close>)
qed

section \<open>Properties\<close>

text \<open>A client: records are added and the buffer is flushed in some order.\<close>

datatype log_action = Add LogRecord | Flush

fun do_logging :: "log_action list \<Rightarrow> int list log_op" where
  "do_logging [] = ret []"
| "do_logging (Add r # acts) =
     bind_e (add_log_to_buffer r) (\<lambda>l. bind_e (do_logging acts) (\<lambda>ls. ret (l # ls)))"
| "do_logging (Flush # acts) = bind_e flush_log_to_disk (\<lambda>_. do_logging acts)"

text \<open>The records of a run with the sequence numbers they get.\<close>

fun stamped :: "int \<Rightarrow> log_action list \<Rightarrow> LogRecord list" where
  "stamped g [] = []"
| "stamped g (Add r # acts) = r\<lparr>log_lsn := g\<rparr> # stamped (wrap32 (g + 1)) acts"
| "stamped g (Flush # acts) = stamped g acts"

fun action_fits :: "log_action \<Rightarrow> bool" where
  "action_fits (Add r) = (log_ok r \<and> log_tot_len r \<le> LOG_BUFFER_SIZE)"
| "action_fits Flush = True"

lemma do_logging_ok:
  assumes "log_env d" and "lmgr_ok lm" and "\<forall>a\<in>set acts. action_fits a"
  shows "\<exists>lm' d'. do_logging acts (lm, d) = (Inr (map log_lsn (stamped (global_lsn lm) acts)), (lm', d')) \<and>
    logged (lm', d') = logged (lm, d) @ concat (map log_bytes (stamped (global_lsn lm) acts)) \<and>
    lmgr_ok lm' \<and> log_env d' \<and> (acts \<noteq> [] \<longrightarrow> last acts = Flush \<longrightarrow> log_contents d' = logged (lm', d'))"
  using assms
proof (induction acts arbitrary: lm d)
  case Nil
  then show ?case by simp
next
  case (Cons a acts)
  show ?case
  proof (cases a)
    case (Add r)
    then have r: "log_ok r" "log_tot_len r \<le> LOG_BUFFER_SIZE" using Cons.prems(3) by simp_all
    obtain l1 d1 where 1: "add_log_to_buffer r (lm, d) = (Inr (global_lsn lm), (l1, d1))"
      "logged (l1, d1) = logged (lm, d) @ log_bytes (r\<lparr>log_lsn := global_lsn lm\<rparr>)"
      "global_lsn l1 = wrap32 (global_lsn lm + 1)" "lmgr_ok l1" "log_env d1"
      using add_log_ok [OF Cons.prems(1,2) r] by blast
    from Cons.IH [OF 1(5,4)] Cons.prems(3) 1 Add show ?thesis by auto
  next
    case Flush
    obtain l1 d1 where 1: "flush_log_to_disk (lm, d) = (Inr (), (l1, d1))" "log_contents d1 = logged (lm, d)"
      "logged (l1, d1) = logged (lm, d)" "global_lsn l1 = global_lsn lm" "lmgr_ok l1" "log_env d1"
      using flush_log_ok [OF Cons.prems(1,2)] by blast
    from Cons.IH [OF 1(6,5)] Cons.prems(3) 1 Flush show ?thesis by (cases acts) auto
  qed
qed

text \<open>
  C28: Adding records to the log and flushing it in any order, on a disk without faults, appends the
  records, with consecutive sequence numbers and in the order they were added, to what was logged
  before; the buffer never exceeds its array, however often it fills up in between, and after a final
  flush the log file holds all of it.
\<close>

theorem log_records_in_order:
  assumes "log_env d" and "lmgr_ok lm" and "\<forall>a\<in>set acts. action_fits a"
  shows "\<exists>lm' d'. do_logging acts (lm, d) = (Inr (map log_lsn (stamped (global_lsn lm) acts)), (lm', d')) \<and>
    log_contents d' @ pending lm' =
      (log_contents d @ pending lm) @ concat (map log_bytes (stamped (global_lsn lm) acts)) \<and>
    lb_offset (log_buffer lm') \<le> LOG_BUFFER_SIZE \<and>
    (acts \<noteq> [] \<longrightarrow> last acts = Flush \<longrightarrow>
       log_contents d' = (log_contents d @ pending lm) @ concat (map log_bytes (stamped (global_lsn lm) acts)))"
proof -
  obtain lm' d' where "do_logging acts (lm, d) = (Inr (map log_lsn (stamped (global_lsn lm) acts)), (lm', d'))"
    "logged (lm', d') = logged (lm, d) @ concat (map log_bytes (stamped (global_lsn lm) acts))" "lmgr_ok lm'"
    "acts \<noteq> [] \<longrightarrow> last acts = Flush \<longrightarrow> log_contents d' = logged (lm', d')"
    using do_logging_ok [OF assms] by blast
  then show ?thesis by (intro exI [of _ lm'] exI [of _ d'] conjI) (simp_all add: logged_def lmgr_ok_def)
qed

lemma new_LogManager_ok [simp]: "lmgr_ok (new_LogManager p)" "pending (new_LogManager p) = []"
  "global_lsn (new_LogManager p) = 0"
  by (simp_all add: lmgr_ok_def new_LogManager_def new_LogBuffer_def int32_range_def pending_def get_bytes_def)

lemma sample_dm_log_env [simp]: "log_env sample_dm"
  using sample_dm_ok by (simp add: log_env_def)

theorem log_records_in_order_witness:
  "\<exists>lm' d'. do_logging [Add (BeginLogRecord 1), Add (CommitLogRecord 1), Flush] (new_LogManager 0, sample_dm) =
       (Inr [0, 1], (lm', d')) \<and>
     log_contents d' = [7, 8] @ log_bytes ((BeginLogRecord 1)\<lparr>log_lsn := 0\<rparr>) @ log_bytes ((CommitLogRecord 1)\<lparr>log_lsn := 1\<rparr>)"
proof -
  have ok: "\<forall>a\<in>set [Add (BeginLogRecord 1), Add (CommitLogRecord 1), Flush]. action_fits a"
    by (auto simp: BeginLogRecord_def CommitLogRecord_def int32_range_def intro!: new_log_record_ok)
      (simp_all add: new_log_record_def)
  have w: "wrap32 1 = 1" by (rule wrap32_id) (simp add: int32_range_def)
  from log_records_in_order [OF sample_dm_log_env new_LogManager_ok(1) ok, of 0] show ?thesis
    using sample_dm_ok(5) by (auto simp: w)
qed

end
