(* ===== verification/Log_Analysis.thy ===== *)
theory Log_Analysis
  imports Log_Manager "HOL-Library.Sublist"
begin

text \<open>
  The analysis phase of \<^verbatim>\<open>RecoveryManager\<close> (\<^verbatim>\<open>recovery/log_recovery.cpp\<close>): the log file is read record by
  record up to the first one that is torn or malformed, and the transactions of the records are sorted
  into committed and active ones.
\<close>

section \<open>Operations\<close>

record recovery =
  rc_logs :: "LogRecord list"
  committed_txns :: "int set"
  active_txns :: "int set"

definition new_recovery :: recovery where
  "new_recovery = \<lparr>rc_logs = [], committed_txns = {}, active_txns = {}\<rparr>"

text \<open>What the loop does with a record it has read.\<close>

definition note_record :: "LogRecord \<Rightarrow> recovery \<Rightarrow> recovery" where
  "note_record r rc =
     (let tid = log_tid r; ty = log_type (log_body r);
          rc' = (if ty = LOG_begin then rc\<lparr>active_txns := insert tid (active_txns rc)\<rparr>
                 else if ty = LOG_commit
                 then rc\<lparr>committed_txns := insert tid (committed_txns rc), active_txns := active_txns rc - {tid}\<rparr>
                 else if ty = ABORT then rc\<lparr>active_txns := insert tid (active_txns rc)\<rparr>
                 else rc\<lparr>active_txns := insert tid (active_txns rc)\<rparr>)
      in rc'\<lparr>rc_logs := rc_logs rc' @ [r]\<rparr>)"

text \<open>
  The loop. Every round but the last moves the offset by at least the size of a header, so that as many
  rounds as the file has bytes, and one more, are enough (\<open>analyze_loop_reads\<close>).
\<close>

fun analyze_loop :: "nat \<Rightarrow> int \<Rightarrow> recovery \<Rightarrow> recovery disk_op" where
  "analyze_loop 0 off rc = ret rc"
| "analyze_loop (Suc k) off rc =
     bind_e (read_log (int LOG_HEADER_SIZE) off) (\<lambda>(header_size, header).
       if header_size \<le> 0 then ret rc
       else if header_size < int LOG_HEADER_SIZE then ret rc
       else
         let log_len = get_u32 (put_bytes zero_buf 0 header) OFFSET_LOG_TOT_LEN in
         if log_len < LOG_HEADER_SIZE \<or> log_len > LOG_BUFFER_SIZE then ret rc
         else
           bind_e (read_log (int log_len) off) (\<lambda>(read_size, log_data).
             if read_size \<noteq> int log_len then ret rc
             else case build_log_record (put_bytes zero_buf 0 log_data) of
                    None \<Rightarrow> ret rc
                  | Some r \<Rightarrow> analyze_loop k (off + int log_len) (note_record r rc)))"

definition analyze :: "recovery disk_op" where
  "analyze =
     bind_e (gets_e (get_file_size LOG_FILE_NAME)) (\<lambda>sz. analyze_loop (Suc (nat sz)) 0 new_recovery)"

section \<open>What a log says about its transactions\<close>

definition is_commit :: "int \<Rightarrow> LogRecord \<Rightarrow> bool" where
  "is_commit t r \<longleftrightarrow> log_tid r = t \<and> log_body r = CommitLog"

text \<open>A transaction is unfinished when it has a record with no commit of it from there on.\<close>

definition unfinished :: "LogRecord list \<Rightarrow> int \<Rightarrow> bool" where
  "unfinished rs t \<longleftrightarrow> (\<exists>xs r ys. rs = xs @ r # ys \<and> log_tid r = t \<and> (\<forall>s\<in>set (r # ys). \<not> is_commit t s))"

lemma log_type_commit: "log_type b = LOG_commit \<longleftrightarrow> b = CommitLog"
  by (cases b) auto

lemma unfinished_snoc:
  "unfinished (rs @ [r]) t \<longleftrightarrow> (log_tid r = t \<or> unfinished rs t) \<and> \<not> is_commit t r"
proof
  assume "unfinished (rs @ [r]) t"
  then obtain xs s ys where s: "rs @ [r] = xs @ s # ys" "log_tid s = t" "\<forall>u\<in>set (s # ys). \<not> is_commit t u"
    unfolding unfinished_def by blast
  show "(log_tid r = t \<or> unfinished rs t) \<and> \<not> is_commit t r"
  proof (cases ys rule: rev_cases)
    case Nil
    with s show ?thesis by auto
  next
    case (snoc zs z)
    with s(1) have "rs = xs @ s # zs" "z = r" by auto
    with s snoc show ?thesis unfolding unfinished_def by auto
  qed
next
  assume "(log_tid r = t \<or> unfinished rs t) \<and> \<not> is_commit t r"
  then show "unfinished (rs @ [r]) t"
  proof (elim conjE disjE)
    assume "log_tid r = t" "\<not> is_commit t r"
    then show ?thesis unfolding unfinished_def by (intro exI [of _ rs] exI [of _ r] exI [of _ "[]"]) simp
  next
    assume "unfinished rs t" "\<not> is_commit t r"
    then obtain xs s ys where "rs = xs @ s # ys" "log_tid s = t" "\<forall>u\<in>set (s # ys). \<not> is_commit t u"
      unfolding unfinished_def by blast
    with \<open>\<not> is_commit t r\<close> show ?thesis
      unfolding unfinished_def by (intro exI [of _ xs] exI [of _ s] exI [of _ "ys @ [r]"]) auto
  qed
qed

definition analysis_of :: "LogRecord list \<Rightarrow> recovery" where
  "analysis_of rs = \<lparr>rc_logs = rs, committed_txns = {t. \<exists>r\<in>set rs. is_commit t r}, active_txns = {t. unfinished rs t}\<rparr>"

lemma analysis_of_Nil: "new_recovery = analysis_of []"
  by (simp add: new_recovery_def analysis_of_def unfinished_def)

lemma note_record_analysis: "note_record r (analysis_of rs) = analysis_of (rs @ [r])"
  by (auto simp: note_record_def analysis_of_def Let_def unfinished_snoc log_type_commit is_commit_def)

section \<open>Reading the log\<close>

lemma log_env_read:
  assumes "log_env d" and "read_log k off d = (r, d')" and "same_tables d d'"
  shows "log_env d'"
  using assms dm_inv_read_log [THEN keepsD, of d k off]
  by (auto simp: log_env_def same_tables_def log_open_def no_faults_def)

lemma read_log_env:
  assumes "log_env d" and "off \<le> length (log_contents d)" and "length (log_contents d) \<le> 2147483647"
  obtains d' where "read_log (int n) (int off) d =
      (Inr (int (length (take n (drop off (log_contents d)))), take n (drop off (log_contents d))), d')"
    and "log_contents d' = log_contents d" and "log_env d'" and "same_tables d d'"
proof -
  obtain d' where "read_log (int n) (int off) d =
      (Inr (int (min n (length (log_contents d) - off)), take n (drop off (log_contents d))), d')"
    "log_contents d' = log_contents d" "same_tables d d'"
    using read_log_ok [of d off n] assms by (auto simp: log_env_def)
  with log_env_read [OF assms(1)] show thesis by (intro that [of d']) auto
qed

text \<open>What is left of the log at an offset: complete records, then the start of one more.\<close>

definition torn :: "byte list \<Rightarrow> LogRecord list \<Rightarrow> byte list \<Rightarrow> bool" where
  "torn bs rs rest \<longleftrightarrow> bs = concat (map log_bytes rs) @ rest \<and>
     (rest \<noteq> [] \<longrightarrow> (\<exists>r. log_ok r \<and> log_tot_len r \<le> LOG_BUFFER_SIZE \<and> strict_prefix rest (log_bytes r)))"

lemma bytes_at_take: "m \<le> length bs \<Longrightarrow> bytes_at (put_bytes zero_buf 0 (take k bs)) 0 (take m (take k bs))"
  unfolding bytes_at_def by (rule nth_equalityI) (auto simp: put_bytes_def)

lemma log_len_of_header:
  assumes "log_ok r" and "take 20 bs = take 20 (log_bytes r)"
  shows "get_u32 (put_bytes zero_buf 0 (take 20 bs)) OFFSET_LOG_TOT_LEN = log_tot_len r"
proof -
  have "take 20 (log_bytes r) = header_bytes r" by (simp add: log_bytes_header)
  then have "bytes_at (put_bytes zero_buf 0 (take 20 bs)) 0 (header_bytes r)"
    using assms(2) bytes_at_put [of zero_buf 0 "header_bytes r"] by simp
  then show ?thesis using assms(1) by (simp add: header_bytes_def log_ok_def)
qed

lemma log_tot_len_ge: "log_ok r \<Longrightarrow> LOG_HEADER_SIZE \<le> log_tot_len r"
  by (simp add: log_ok_def)

lemma analyze_loop_tail:
  assumes "log_env d" and "length (log_contents d) \<le> 2147483647" and "off \<le> length (log_contents d)"
    and "torn (drop off (log_contents d)) [] rest"
  obtains d' where "analyze_loop (Suc k) (int off) rc d = (Inr rc, d')" and "same_tables d d'"
    and "log_contents d' = log_contents d"
proof -
  have rest: "drop off (log_contents d) = rest" using assms(4) by (simp add: torn_def)
  obtain d1 where d1: "read_log (int LOG_HEADER_SIZE) (int off) d = (Inr (int (length (take 20 rest)), take 20 rest), d1)"
    "log_contents d1 = log_contents d" "log_env d1" "same_tables d d1"
    using read_log_env [OF assms(1,3,2), of LOG_HEADER_SIZE] rest by auto
  show thesis
  proof (cases "length rest < 20")
    case True
    with d1 show thesis by (intro that [of d1]) auto
  next
    case False
    then obtain r where r: "log_ok r" "log_tot_len r \<le> LOG_BUFFER_SIZE" "strict_prefix rest (log_bytes r)"
      using assms(4) by (auto simp: torn_def)
    then have pre: "take 20 rest = take 20 (log_bytes r)" and short: "length rest < log_tot_len r"
      using False length_log_bytes [OF r(1)] prefix_length_less [OF r(3)] by (auto simp: strict_prefix_def prefix_def)
    note len = log_len_of_header [OF r(1) pre]
    obtain d2 where d2: "read_log (int (log_tot_len r)) (int off) d1 = (Inr (int (length rest), rest), d2)"
      "log_contents d2 = log_contents d1" "same_tables d1 d2"
      using read_log_env [OF d1(3), of off "log_tot_len r"] assms(2,3) d1(2) rest short
      by (metis less_imp_le take_all)
    show thesis
      using d1 d2 len short False r(2) log_tot_len_ge [OF r(1)] same_tables_trans [OF d1(4) d2(3)]
      by (intro that [of d2]) (auto simp: Let_def)
  qed
qed

lemma analyze_loop_reads:
  assumes "log_env d" and "length (log_contents d) \<le> 2147483647" and "off \<le> length (log_contents d)"
    and "torn (drop off (log_contents d)) rs rest" and "\<forall>r\<in>set rs. log_ok r \<and> log_tot_len r \<le> LOG_BUFFER_SIZE"
    and "length rs < k"
  shows "\<exists>d'. analyze_loop k (int off) (analysis_of pre) d = (Inr (analysis_of (pre @ rs)), d') \<and>
    same_tables d d' \<and> log_contents d' = log_contents d"
  using assms
proof (induction rs arbitrary: off d k pre)
  case Nil
  then obtain k' where "k = Suc k'" by (cases k) auto
  with analyze_loop_tail [OF Nil.prems(1-4), of k' "analysis_of pre"] show ?case by (metis append_Nil2)
next
  case (Cons r rs)
  obtain k' where k: "k = Suc k'" "length rs < k'" using Cons.prems(6) by (cases k) auto
  have r: "log_ok r" "log_tot_len r \<le> LOG_BUFFER_SIZE" using Cons.prems(5) by auto
  let ?n = "log_tot_len r"
  have bytes: "drop off (log_contents d) = log_bytes r @ concat (map log_bytes rs) @ rest"
    using Cons.prems(4) by (simp add: torn_def)
  have n: "20 \<le> ?n" "length (log_bytes r) = ?n" using log_tot_len_ge [OF r(1)] length_log_bytes [OF r(1)] by auto
  have hd20: "take 20 (drop off (log_contents d)) = take 20 (log_bytes r)" using bytes n by simp
  have rd: "take ?n (drop off (log_contents d)) = log_bytes r" using bytes n by simp
  have l20: "int (length (take LOG_HEADER_SIZE (drop off (log_contents d)))) = 20" using hd20 n by simp
  obtain d1 where d1: "read_log (int LOG_HEADER_SIZE) (int off) d = (Inr (20, take 20 (log_bytes r)), d1)"
    "log_contents d1 = log_contents d" "log_env d1" "same_tables d d1"
    by (rule read_log_env [OF Cons.prems(1,3,2), of LOG_HEADER_SIZE, unfolded l20]) (simp add: hd20)
  obtain d2 where d2: "read_log (int ?n) (int off) d1 = (Inr (int ?n, log_bytes r), d2)"
    "log_contents d2 = log_contents d" "log_env d2" "same_tables d1 d2"
    by (rule read_log_env [OF d1(3), of off ?n, unfolded d1(2) rd n(2), OF Cons.prems(3,2)])
  have build: "build_log_record (put_bytes zero_buf 0 (log_bytes r)) = Some r"
    by (rule build_log_record_at [OF bytes_at_put r(1)])
  have off': "off + ?n \<le> length (log_contents d)"
    using arg_cong [OF bytes, of length] n Cons.prems(3) by simp
  have torn': "torn (drop (off + ?n) (log_contents d)) rs rest"
    using Cons.prems(4) bytes n by (simp add: torn_def add.commute [of off] drop_drop [symmetric])
  have env: "length (log_contents d2) \<le> 2147483647" "off + ?n \<le> length (log_contents d2)"
    "torn (drop (off + ?n) (log_contents d2)) rs rest"
    using off' torn' Cons.prems(2) d2(2) by simp_all
  obtain d3 where d3: "analyze_loop k' (int (off + ?n)) (analysis_of (pre @ [r])) d2 =
      (Inr (analysis_of ((pre @ [r]) @ rs)), d3)" "same_tables d2 d3" "log_contents d3 = log_contents d2"
    using Cons.IH [OF d2(3) env _ k(2), of "pre @ [r]"] Cons.prems(5) by auto
  have len: "get_u32 (put_bytes zero_buf 0 (take 20 (log_bytes r))) OFFSET_LOG_TOT_LEN = ?n"
    using log_len_of_header [OF r(1), of "log_bytes r"] by simp
  have "analyze_loop k (int off) (analysis_of pre) d = (Inr (analysis_of (pre @ r # rs)), d3)"
    using d1(1) d2(1) d3(1) len n r(2) build by (simp add: k(1) Let_def note_record_analysis)
  with same_tables_trans [OF same_tables_trans [OF d1(4) d2(4)] d3(2)] d3(3) d2(2) show ?case by auto
qed

lemma get_file_size_log:
  assumes "log_env d" and "length (log_contents d) \<le> 2147483647"
  shows "get_file_size LOG_FILE_NAME d = int (length (log_contents d))"
proof -
  have "dm_inv d" "fd2path d (log_fd d) = Some LOG_FILE_NAME" using assms(1) by (auto simp: log_env_def log_open_def)
  then obtain e f where "fds (sys d) (log_fd d) = Some e" "nodes (sys d) LOG_FILE_NAME = Some (Reg f)"
    by (rule dm_inv_openD)
  with assms(2) show ?thesis
    by (simp add: get_file_size_def os_stat_size_def log_contents_def wrap32_id int32_range_def)
qed

lemma concat_length_ge: "\<forall>r\<in>set rs. log_ok r \<Longrightarrow> 20 * length rs \<le> length (concat (map log_bytes rs))"
proof (induction rs)
  case (Cons r rs)
  then have "20 \<le> length (log_bytes r)" using log_tot_len_ge [of r] length_log_bytes [of r] by simp
  with Cons show ?case by simp
qed simp

lemma analyze_reads:
  assumes "log_env d" and "length (log_contents d) \<le> 2147483647" and "torn (log_contents d) rs rest"
    and "\<forall>r\<in>set rs. log_ok r \<and> log_tot_len r \<le> LOG_BUFFER_SIZE"
  obtains d' where "analyze d = (Inr (analysis_of rs), d')" and "same_tables d d'"
    and "log_contents d' = log_contents d"
proof -
  have "length (concat (map log_bytes rs)) \<le> length (log_contents d)" using assms(3) by (simp add: torn_def)
  then have fuel: "length rs < Suc (nat (get_file_size LOG_FILE_NAME d))"
    using concat_length_ge [of rs] assms(4) get_file_size_log [OF assms(1,2)] by simp
  obtain d' where "analyze_loop (Suc (nat (get_file_size LOG_FILE_NAME d))) (int 0) (analysis_of []) d =
      (Inr (analysis_of ([] @ rs)), d')" "same_tables d d'" "log_contents d' = log_contents d"
    using analyze_loop_reads [OF assms(1,2) _ _ assms(4) fuel, of 0 rest "[]"] assms(3) by auto
  then show thesis by (intro that [of d']) (simp_all add: analyze_def analysis_of_Nil del: analyze_loop.simps)
qed

text \<open>A prefix of a log is complete records and the start of the next one.\<close>

lemma torn_take:
  assumes "\<forall>r\<in>set rs. log_ok r \<and> log_tot_len r \<le> LOG_BUFFER_SIZE"
  shows "\<exists>k rest. k \<le> length rs \<and> torn (take n (concat (map log_bytes rs))) (take k rs) rest \<and>
    (k < length rs \<longrightarrow> n < length (concat (map log_bytes (take (Suc k) rs))))"
  using assms
proof (induction rs arbitrary: n)
  case Nil
  then show ?case by (auto simp: torn_def)
next
  case (Cons r rs)
  show ?case
  proof (cases "n < length (log_bytes r)")
    case True
    then have "strict_prefix (take n (log_bytes r)) (log_bytes r)"
      by (simp add: strict_prefix_def take_is_prefix)
    with True Cons.prems show ?thesis
      by (intro exI [of _ 0] exI [of _ "take n (log_bytes r)"]) (auto simp: torn_def)
  next
    case False
    then obtain k rest where "k \<le> length rs"
      "torn (take (n - length (log_bytes r)) (concat (map log_bytes rs))) (take k rs) rest"
      "k < length rs \<longrightarrow> n - length (log_bytes r) < length (concat (map log_bytes (take (Suc k) rs)))"
      using Cons.IH [of "n - length (log_bytes r)"] Cons.prems by auto
    with False show ?thesis by (intro exI [of _ "Suc k"] exI [of _ rest]) (auto simp: torn_def)
  qed
qed

section \<open>Properties\<close>

text \<open>
  C20: Recovery after a crash that cut the log at any byte: when the log file holds the first \<open>n\<close> bytes of
  a sequence of records, the analysis reads exactly the records that are complete, stops at the torn
  one, and sorts their transactions: committed are those with a commit record, active those with a
  record that no commit of the transaction follows. The log file is not changed.
\<close>

theorem analyze_after_crash:
  assumes "log_env d" and "length (log_contents d) \<le> 2147483647"
    and "\<forall>r\<in>set rs. log_ok r \<and> log_tot_len r \<le> LOG_BUFFER_SIZE"
    and "log_contents d = take n (concat (map log_bytes rs))"
  shows "\<exists>k rc d'. analyze d = (Inr rc, d') \<and> log_contents d' = log_contents d \<and> rc_logs rc = take k rs \<and>
    length (concat (map log_bytes (take k rs))) \<le> length (log_contents d) \<and>
    (k < length rs \<longrightarrow> n < length (concat (map log_bytes (take (Suc k) rs)))) \<and>
    committed_txns rc = {t. \<exists>r\<in>set (take k rs). is_commit t r} \<and> active_txns rc = {t. unfinished (take k rs) t}"
proof -
  obtain k rest where k: "torn (log_contents d) (take k rs) rest"
    "k < length rs \<longrightarrow> n < length (concat (map log_bytes (take (Suc k) rs)))"
    using torn_take [OF assms(3), of n] assms(4) by auto
  have ok: "\<forall>r\<in>set (take k rs). log_ok r \<and> log_tot_len r \<le> LOG_BUFFER_SIZE"
    using assms(3) by (auto dest: in_set_takeD)
  obtain d' where "analyze d = (Inr (analysis_of (take k rs)), d')" "log_contents d' = log_contents d"
    using analyze_reads [OF assms(1,2) k(1) ok] by blast
  moreover have "length (concat (map log_bytes (take k rs))) \<le> length (log_contents d)"
    using k(1) by (simp add: torn_def)
  ultimately show ?thesis
    using k(2) by (intro exI [of _ k] exI [of _ "analysis_of (take k rs)"] exI [of _ d']) (simp add: analysis_of_def)
qed

text \<open>A disk whose log ends within the second of two records.\<close>

definition torn_dm :: disk_manager where
  "torn_dm = sample_dm\<lparr>sys := sample_os\<lparr>nodes := (nodes sample_os)(LOG_FILE_NAME \<mapsto>
     Reg \<lparr>fbytes = put_bytes zero_buf 0 (log_bytes (BeginLogRecord 1) @ log_bytes (CommitLogRecord 1)), fsize = 30\<rparr>)\<rparr>\<rparr>"

lemma torn_dm_env: "log_env torn_dm"
  by (auto simp: torn_dm_def log_env_def dm_inv_def sample_dm_def sample_os_def no_faults_def log_open_def
      os_is_reg_def LOG_FILE_NAME_def)

lemma control_records_ok:
  "log_ok (BeginLogRecord 1)" "log_ok (CommitLogRecord 1)"
  "log_tot_len (BeginLogRecord 1) = 20" "log_tot_len (CommitLogRecord 1) = 20"
  unfolding BeginLogRecord_def CommitLogRecord_def
  by (rule new_log_record_ok; simp add: int32_range_def)+ (simp_all add: new_log_record_def)

theorem analyze_after_crash_witness:
  "\<exists>rc d'. analyze torn_dm = (Inr rc, d') \<and> rc_logs rc = [BeginLogRecord 1] \<and> active_txns rc = {1}"
proof -
  let ?rs = "[BeginLogRecord 1, CommitLogRecord 1]"
  have len: "length (log_bytes (BeginLogRecord 1)) = 20" "length (log_bytes (CommitLogRecord 1)) = 20"
    using control_records_ok by (simp_all add: length_log_bytes)
  have log: "log_contents torn_dm = take 30 (concat (map log_bytes ?rs))"
    using len unfolding torn_dm_def log_contents_def
    by (auto simp: put_bytes_def nth_append intro!: nth_equalityI)
  then have "length (log_contents torn_dm) = 30" using len by simp
  then have "length (log_contents torn_dm) \<le> 2147483647" by simp
  from analyze_after_crash [OF torn_dm_env this _ log] control_records_ok
  obtain k rc d' where k: "analyze torn_dm = (Inr rc, d')" "rc_logs rc = take k ?rs"
    "length (concat (map log_bytes (take k ?rs))) \<le> 30"
    "k < length ?rs \<longrightarrow> 30 < length (concat (map log_bytes (take (Suc k) ?rs)))"
    "active_txns rc = {t. unfinished (take k ?rs) t}"
    using \<open>length (log_contents torn_dm) = 30\<close> by auto
  have "k = 1"
  proof (rule ccontr)
    assume "k \<noteq> 1"
    then consider "k = 0" | "2 \<le> k" by linarith
    then show False using k(3,4) len by cases auto
  qed
  moreover have "{t. unfinished [BeginLogRecord 1] t} = {1}"
    using unfinished_snoc [of "[]" "BeginLogRecord 1"]
    by (auto simp: is_commit_def BeginLogRecord_def new_log_record_def unfinished_def)
  ultimately show ?thesis using k by auto
qed

end
