(* ===== verification/Rmdb_Values.thy ===== *)
theory Rmdb_Values
  imports Rmdb_Config "HOL-Library.Signed_Division" "HOL-Library.List_Lexorder"
begin

text \<open>
  The values of the SQL layer (\<^verbatim>\<open>common/common.h\<close>): DATETIME literals and their 64-bit encoding,
  typed values with their conversions and their raw byte form, conditions and set clauses. A value of
  type FLOAT is its IEEE 754 bit pattern.
\<close>

section \<open>Fixed-width decimal text\<close>

fun fixed_digits :: "nat \<Rightarrow> nat \<Rightarrow> string" where
  "fixed_digits 0 n = []"
| "fixed_digits (Suc k) n = fixed_digits k (n div 10) @ [digit_char (n mod 10)]"

text \<open>\<^verbatim>\<open>os.width(k); os << n;\<close> with the fill character 0.\<close>

definition pad :: "nat \<Rightarrow> string \<Rightarrow> string" where
  "pad k cs = replicate (k - length cs) (CHR ''0'') @ cs"

definition is_digit :: "char \<Rightarrow> bool" where
  "is_digit c \<longleftrightarrow> 48 \<le> (of_char c :: nat) \<and> (of_char c :: nat) \<le> 57"

definition digit_val :: "char \<Rightarrow> nat" where
  "digit_val c = of_char c - 48"

lemma of_char_digit [simp]: "d < 10 \<Longrightarrow> (of_char (digit_char d) :: nat) = 48 + d"
  by (simp add: digit_char_def)

lemma digit_char_val [simp]: "d < 10 \<Longrightarrow> is_digit (digit_char d)" "d < 10 \<Longrightarrow> digit_val (digit_char d) = d"
  by (auto simp: is_digit_def digit_val_def)

lemma digit_val_char: "is_digit c \<Longrightarrow> digit_char (digit_val c) = c" "is_digit c \<Longrightarrow> digit_val c < 10"
  by (auto simp: is_digit_def digit_val_def digit_char_def)

lemma length_fixed_digits [simp]: "length (fixed_digits k n) = k"
  by (induction k arbitrary: n) auto

lemma digit_zero: "digit_char 0 = CHR ''0''"
proof -
  have "(of_char (digit_char 0) :: nat) = of_char (CHR ''0'')" by simp
  then show ?thesis by (simp only: of_char_eq_iff)
qed

lemma snoc_digit_bound: "m < 10 ^ k \<Longrightarrow> d < 10 \<Longrightarrow> m * 10 + d < (10::nat) ^ Suc k"
  by simp

lemma fixed_digits_zero: "fixed_digits k 0 = replicate k (CHR ''0'')"
  by (induction k) (simp_all add: digit_zero replicate_append_same)

lemma pad_nat_digits: "0 < k \<Longrightarrow> n < 10 ^ k \<Longrightarrow> pad k (nat_digits n) = fixed_digits k n"
proof (induction k arbitrary: n)
  case (Suc k)
  show ?case
  proof (cases "n < 10")
    case True
    then have "nat_digits n = [digit_char n]" by (simp add: nat_digits.simps)
    with True show ?thesis by (simp add: pad_def fixed_digits_zero)
  next
    case False
    then have nd: "nat_digits n = nat_digits (n div 10) @ [digit_char (n mod 10)]"
      by (subst nat_digits.simps) simp
    have "k \<noteq> 0" using False Suc.prems by (cases k) auto
    then have "pad k (nat_digits (n div 10)) = fixed_digits k (n div 10)"
      using Suc.prems by (intro Suc.IH) auto
    with nd show ?thesis by (simp add: pad_def)
  qed
qed simp

section \<open>DATETIME\<close>

definition is_leap_year :: "int \<Rightarrow> bool" where
  "is_leap_year year \<longleftrightarrow> year mod 400 = 0 \<or> (year mod 4 = 0 \<and> year mod 100 \<noteq> 0)"

definition days_in_month :: "int \<Rightarrow> int \<Rightarrow> int" where
  "days_in_month year month =
     (if month = 2 \<and> is_leap_year year then 29
      else [0, 31, 28, 31, 30, 31, 30, 31, 31, 30, 31, 30, 31] ! nat month)"

text \<open>The loop of \<^verbatim>\<open>parse_fixed_int\<close>; characters from 128 on are negative as \<^verbatim>\<open>char\<close> and no digits either way.\<close>

fun parse_digits :: "int \<Rightarrow> string \<Rightarrow> rmdb_error + int" where
  "parse_digits val [] = Inr val"
| "parse_digits val (ch # cs) =
     (if \<not> is_digit ch then Inl (InternalError ''Invalid DATETIME value'')
      else parse_digits (val * 10 + int (digit_val ch)) cs)"

definition parse_fixed_int :: "string \<Rightarrow> nat \<Rightarrow> nat \<Rightarrow> rmdb_error + int" where
  "parse_fixed_int txt pos len = parse_digits 0 (take len (drop pos txt))"

definition bind_r :: "'e + 'a \<Rightarrow> ('a \<Rightarrow> 'e + 'b) \<Rightarrow> 'e + 'b" where
  "bind_r r f = (case r of Inl e \<Rightarrow> Inl e | Inr x \<Rightarrow> f x)"

lemma bind_r_simps [simp]: "bind_r (Inl e) f = Inl e" "bind_r (Inr x) f = f x"
  by (simp_all add: bind_r_def)

lemma bind_r_Inr_iff: "bind_r r f = Inr y \<longleftrightarrow> (\<exists>x. r = Inr x \<and> f x = Inr y)"
  by (cases r) auto

definition parse_datetime_literal :: "string \<Rightarrow> rmdb_error + int" where
  "parse_datetime_literal txt =
     (if length txt \<noteq> 19 \<or> txt ! 4 \<noteq> CHR ''-'' \<or> txt ! 7 \<noteq> CHR ''-'' \<or> txt ! 10 \<noteq> CHR '' '' \<or>
         txt ! 13 \<noteq> CHR '':'' \<or> txt ! 16 \<noteq> CHR '':''
      then Inl (InternalError ''Invalid DATETIME value'')
      else
        bind_r (parse_fixed_int txt 0 4) (\<lambda>year.
        bind_r (parse_fixed_int txt 5 2) (\<lambda>month.
        bind_r (parse_fixed_int txt 8 2) (\<lambda>day.
        bind_r (parse_fixed_int txt 11 2) (\<lambda>hour.
        bind_r (parse_fixed_int txt 14 2) (\<lambda>minute.
        bind_r (parse_fixed_int txt 17 2) (\<lambda>second.
          if year < 1000 \<or> year > 9999 \<or> month < 1 \<or> month > 12 \<or>
             day < 1 \<or> day > days_in_month year month \<or>
             hour < 0 \<or> hour > 23 \<or> minute < 0 \<or> minute > 59 \<or> second < 0 \<or> second > 59
          then Inl (InternalError ''Invalid DATETIME value'')
          else Inr (year * 10000000000 + month * 100000000 + day * 1000000 + hour * 10000 + minute * 100 + second))))))))"

text \<open>\<^verbatim>\<open>/\<close> and \<^verbatim>\<open>%\<close> round towards zero; the year is converted to \<^verbatim>\<open>int\<close>.\<close>

definition int32_of :: "int \<Rightarrow> int" where
  "int32_of v = signed_of 32 (unsigned_of 32 v)"

definition format_datetime_value :: "int \<Rightarrow> string" where
  "format_datetime_value v0 =
     (let second = v0 smod 100; v1 = v0 sdiv 100;
          minute = v1 smod 100; v2 = v1 sdiv 100;
          hour = v2 smod 100; v3 = v2 sdiv 100;
          day = v3 smod 100; v4 = v3 sdiv 100;
          month = v4 smod 100; v5 = v4 sdiv 100;
          year = int32_of v5
      in pad 4 (to_string year) @ ''-'' @ pad 2 (to_string month) @ ''-'' @ pad 2 (to_string day) @ '' '' @
         pad 2 (to_string hour) @ '':'' @ pad 2 (to_string minute) @ '':'' @ pad 2 (to_string second))"

subsection \<open>Reading and writing digits\<close>

lemma parse_digits_append:
  "parse_digits v (xs @ [c]) = bind_r (parse_digits v xs)
     (\<lambda>u. if is_digit c then Inr (u * 10 + int (digit_val c)) else Inl (InternalError ''Invalid DATETIME value''))"
  by (induction xs arbitrary: v) auto

lemma parse_fixed_digits: "n < 10 ^ k \<Longrightarrow> parse_digits 0 (fixed_digits k n) = Inr (int n)"
proof (induction k arbitrary: n)
  case (Suc k)
  then have "parse_digits 0 (fixed_digits k (n div 10)) = Inr (int (n div 10))" by (intro Suc.IH) auto
  then show ?case by (simp add: parse_digits_append) presburger
qed simp

lemma parse_digits_fixed:
  assumes "parse_digits 0 cs = Inr v"
  shows "0 \<le> v \<and> nat v < 10 ^ length cs \<and> fixed_digits (length cs) (nat v) = cs"
  using assms
proof (induction cs arbitrary: v rule: rev_induct)
  case (snoc c cs)
  then obtain u where u: "parse_digits 0 cs = Inr u" "is_digit c" "v = u * 10 + int (digit_val c)"
    by (auto simp: parse_digits_append bind_r_Inr_iff split: if_splits)
  note IH = snoc.IH [OF u(1)]
  have d: "digit_val c < 10" using digit_val_char(2) [OF u(2)] .
  have "nat v = nat u * 10 + digit_val c" using u(3) IH by (simp add: nat_add_distrib nat_mult_distrib)
  moreover have "nat u < 10 ^ length cs" using IH by blast
  ultimately have "nat v div 10 = nat u" "nat v mod 10 = digit_val c" "nat v < 10 ^ Suc (length cs)"
    using d snoc_digit_bound [of "nat u" "length cs" "digit_val c"] by simp_all
  with IH u(3) digit_val_char(1) [OF u(2)] show ?case by simp
qed simp

lemma pad_to_string:
  assumes "0 \<le> v" and "nat v < 10 ^ k" and "0 < k"
  shows "pad k (to_string v) = fixed_digits k (nat v)"
  using assms pad_nat_digits [of k "nat v"] by (simp add: to_string_def)

text \<open>The fields of an encoded date and time.\<close>

definition datetime_of :: "int \<Rightarrow> int \<Rightarrow> int \<Rightarrow> int \<Rightarrow> int \<Rightarrow> int \<Rightarrow> int" where
  "datetime_of y mo d h mi s = ((((y * 100 + mo) * 100 + d) * 100 + h) * 100 + mi) * 100 + s"

lemma sdivmod_nonneg:
  assumes "0 \<le> (v::int)"
  shows "v smod 100 = v mod 100" and "v sdiv 100 = v div 100"
proof -
  show d: "v sdiv 100 = v div 100" using assms by (cases "v = 0") (simp_all add: signed_divide_int_def)
  show "v smod 100 = v mod 100" using assms by (cases "v = 0") (simp_all add: signed_modulo_int_def)
qed

lemma sdivmod_100:
  assumes "v = a * 100 + b" and "0 \<le> a" and "0 \<le> b" and "b < (100::int)"
  shows "v smod 100 = b" and "v sdiv 100 = a" and "0 \<le> v"
  using assms by (simp_all add: sdivmod_nonneg)

definition field_ok :: "int \<Rightarrow> bool" where
  "field_ok v \<longleftrightarrow> 0 \<le> v \<and> v < 100"

lemma format_datetime_of:
  assumes "0 \<le> y" "y < 10000" and "field_ok mo" "field_ok d" "field_ok h" "field_ok mi" "field_ok s"
  shows "format_datetime_value (datetime_of y mo d h mi s) =
    fixed_digits 4 (nat y) @ ''-'' @ fixed_digits 2 (nat mo) @ ''-'' @ fixed_digits 2 (nat d) @ '' '' @
    fixed_digits 2 (nat h) @ '':'' @ fixed_digits 2 (nat mi) @ '':'' @ fixed_digits 2 (nat s)"
proof -
  have 32: "int32_of y = y"
    unfolding int32_of_def using assms(1,2) by (intro signed_unsigned) auto
  have p: "field_ok v \<Longrightarrow> pad 2 (to_string v) = fixed_digits 2 (nat v)" for v
    by (rule pad_to_string) (auto simp: field_ok_def)
  have p4: "pad 4 (to_string y) = fixed_digits 4 (nat y)"
    using assms(1,2) by (intro pad_to_string) auto
  define v4 v3 v2 v1 v0 where v_defs: "v4 = y * 100 + mo" "v3 = v4 * 100 + d" "v2 = v3 * 100 + h"
    "v1 = v2 * 100 + mi" "v0 = v1 * 100 + s"
  have f: "0 \<le> mo" "mo < 100" "0 \<le> d" "d < 100" "0 \<le> h" "h < 100" "0 \<le> mi" "mi < 100" "0 \<le> s" "s < 100"
    using assms(3-7) by (auto simp: field_ok_def)
  note 4 = sdivmod_100 [OF v_defs(1) assms(1) f(1,2)]
  note 3 = sdivmod_100 [OF v_defs(2) 4(3) f(3,4)]
  note 2 = sdivmod_100 [OF v_defs(3) 3(3) f(5,6)]
  note 1 = sdivmod_100 [OF v_defs(4) 2(3) f(7,8)]
  note 0 = sdivmod_100 [OF v_defs(5) 1(3) f(9,10)]
  have "datetime_of y mo d h mi s = v0" by (simp add: datetime_of_def v_defs)
  then show ?thesis
    by (simp add: format_datetime_value_def Let_def 0 1 2 3 4 32 p [OF assms(3)] p [OF assms(4)]
        p [OF assms(5)] p [OF assms(6)] p [OF assms(7)] p4)
qed

lemma parse_digits_field: "parse_digits 0 cs = Inr v \<Longrightarrow> length cs = 2 \<Longrightarrow> field_ok v"
  using parse_digits_fixed [of cs v] by (auto simp: field_ok_def)

lemma parse_digits_text: "parse_digits 0 cs = Inr v \<Longrightarrow> length cs = k \<Longrightarrow> cs = fixed_digits k (nat v)"
  using parse_digits_fixed [of cs v] by simp

lemma text_19:
  assumes "length (txt :: string) = 19"
  shows "txt = take 4 (drop 0 txt) @ [txt ! 4] @ take 2 (drop 5 txt) @ [txt ! 7] @ take 2 (drop 8 txt) @ [txt ! 10] @
    take 2 (drop 11 txt) @ [txt ! 13] @ take 2 (drop 14 txt) @ [txt ! 16] @ take 2 (drop 17 txt)"
proof -
  have "\<exists>a b c d e f g h i j k l m n p q r s t. txt = [a, b, c, d, e, f, g, h, i, j, k, l, m, n, p, q, r, s, t]"
    using assms by (simp add: length_Suc_conv numeral_eq_Suc) blast
  then show ?thesis by auto
qed

text \<open>The dates and times that exist in the Gregorian calendar, stated without the table of the program, and the literals that are accepted, by their fields.\<close>

definition calendar_days :: "int \<Rightarrow> int \<Rightarrow> int" where
  "calendar_days y mo =
     (if mo \<in> {4, 6, 9, 11} then 30
      else if mo = 2 then (if 4 dvd y \<and> (100 dvd y \<longrightarrow> 400 dvd y) then 29 else 28)
      else 31)"

definition datetime_valid :: "int \<Rightarrow> int \<Rightarrow> int \<Rightarrow> int \<Rightarrow> int \<Rightarrow> int \<Rightarrow> bool" where
  "datetime_valid y mo d h mi s \<longleftrightarrow> 1000 \<le> y \<and> y \<le> 9999 \<and> 1 \<le> mo \<and> mo \<le> 12 \<and> 1 \<le> d \<and> d \<le> calendar_days y mo \<and>
     0 \<le> h \<and> h \<le> 23 \<and> 0 \<le> mi \<and> mi \<le> 59 \<and> 0 \<le> s \<and> s \<le> 59"

lemma is_leap_year_gregorian: "is_leap_year y \<longleftrightarrow> 4 dvd y \<and> (100 dvd y \<longrightarrow> 400 dvd y)"
proof -
  have "4 dvd y" if "400 dvd y" using dvd_trans [of 4 400 y] that by simp
  then show ?thesis by (auto simp: is_leap_year_def dvd_eq_mod_eq_0)
qed

lemma days_in_month_calendar: "1 \<le> mo \<Longrightarrow> mo \<le> 12 \<Longrightarrow> days_in_month y mo = calendar_days y mo"
proof -
  assume "1 \<le> mo" "mo \<le> 12"
  then have "mo = 1 \<or> mo = 2 \<or> mo = 3 \<or> mo = 4 \<or> mo = 5 \<or> mo = 6 \<or> mo = 7 \<or> mo = 8 \<or> mo = 9 \<or>
    mo = 10 \<or> mo = 11 \<or> mo = 12" by presburger
  then show ?thesis by (elim disjE) (simp_all add: days_in_month_def calendar_days_def is_leap_year_gregorian)
qed

lemma datetime_valid_iff:
  "datetime_valid y mo d h mi s \<longleftrightarrow> 1000 \<le> y \<and> y \<le> 9999 \<and> 1 \<le> mo \<and> mo \<le> 12 \<and> 1 \<le> d \<and> d \<le> days_in_month y mo \<and>
     0 \<le> h \<and> h \<le> 23 \<and> 0 \<le> mi \<and> mi \<le> 59 \<and> 0 \<le> s \<and> s \<le> 59"
  using days_in_month_calendar [of mo y] by (auto simp: datetime_valid_def)

lemma parse_datetime_InrE:
  assumes "parse_datetime_literal txt = Inr v"
  obtains y mo d h mi s where "v = datetime_of y mo d h mi s" and "0 \<le> y" "y < 10000"
    and "field_ok mo" "field_ok d" "field_ok h" "field_ok mi" "field_ok s" and "datetime_valid y mo d h mi s"
    and "txt = fixed_digits 4 (nat y) @ ''-'' @ fixed_digits 2 (nat mo) @ ''-'' @ fixed_digits 2 (nat d) @ '' '' @
      fixed_digits 2 (nat h) @ '':'' @ fixed_digits 2 (nat mi) @ '':'' @ fixed_digits 2 (nat s)"
proof -
  have len: "length txt = 19" and seps: "txt ! 4 = CHR ''-''" "txt ! 7 = CHR ''-''" "txt ! 10 = CHR '' ''"
    "txt ! 13 = CHR '':''" "txt ! 16 = CHR '':''"
    using assms by (auto simp: parse_datetime_literal_def split: if_splits)
  obtain y mo d h mi s where p: "parse_digits 0 (take 4 (drop 0 txt)) = Inr y" "parse_digits 0 (take 2 (drop 5 txt)) = Inr mo"
    "parse_digits 0 (take 2 (drop 8 txt)) = Inr d" "parse_digits 0 (take 2 (drop 11 txt)) = Inr h"
    "parse_digits 0 (take 2 (drop 14 txt)) = Inr mi" "parse_digits 0 (take 2 (drop 17 txt)) = Inr s"
    "v = y * 10000000000 + mo * 100000000 + d * 1000000 + h * 10000 + mi * 100 + s" "datetime_valid y mo d h mi s"
    using assms by (auto simp: parse_datetime_literal_def parse_fixed_int_def bind_r_Inr_iff datetime_valid_iff split: if_splits)
  have two: "length (take 2 (drop 5 txt)) = 2" "length (take 2 (drop 8 txt)) = 2" "length (take 2 (drop 11 txt)) = 2"
    "length (take 2 (drop 14 txt)) = 2" "length (take 2 (drop 17 txt)) = 2" using len by simp_all
  have four: "length (take 4 (drop 0 txt)) = 4" using len by simp
  have v: "v = datetime_of y mo d h mi s" by (simp add: p(7) datetime_of_def)
  have "txt = fixed_digits 4 (nat y) @ ''-'' @ fixed_digits 2 (nat mo) @ ''-'' @ fixed_digits 2 (nat d) @ '' '' @
      fixed_digits 2 (nat h) @ '':'' @ fixed_digits 2 (nat mi) @ '':'' @ fixed_digits 2 (nat s)"
    by (subst text_19 [OF len]) (simp only: seps parse_digits_text [OF p(1) four] parse_digits_text [OF p(2) two(1)]
      parse_digits_text [OF p(3) two(2)] parse_digits_text [OF p(4) two(3)] parse_digits_text [OF p(5) two(4)]
      parse_digits_text [OF p(6) two(5)])
  moreover have "0 \<le> y" using parse_digits_fixed [OF p(1)] by simp
  ultimately show thesis
    using that [OF v _ _ _ _ _ _ _ p(8)] p(8) [unfolded datetime_valid_iff] parse_digits_field [OF p(2) two(1)] parse_digits_field [OF p(3) two(2)]
      parse_digits_field [OF p(4) two(3)] parse_digits_field [OF p(5) two(4)] parse_digits_field [OF p(6) two(5)] by simp
qed

section \<open>Values\<close>

text \<open>
  IEEE 754 single precision: the order of the bit patterns, and the conversion from integers with
  rounding to the nearest, ties to even.
\<close>

type_synonym float32 = "32 word"

definition float_mag :: "float32 \<Rightarrow> int" where
  "float_mag w = int (unat w) mod 2147483648"

definition float_key :: "float32 \<Rightarrow> int" where
  "float_key w = (if unat w < 2147483648 then float_mag w else - float_mag w)"

definition is_nan :: "float32 \<Rightarrow> bool" where
  "is_nan w \<longleftrightarrow> float_mag w > 2139095040"

definition float_less :: "float32 \<Rightarrow> float32 \<Rightarrow> bool" where
  "float_less a b \<longleftrightarrow> \<not> is_nan a \<and> \<not> is_nan b \<and> float_key a < float_key b"

fun ilog2 :: "nat \<Rightarrow> nat" where
  "ilog2 n = (if n < 2 then 0 else Suc (ilog2 (n div 2)))"

declare ilog2.simps [simp del]

definition float_of_int :: "int \<Rightarrow> float32" where
  "float_of_int v =
     (if v = 0 then 0
      else
        let a = nat \<bar>v\<bar>; e = ilog2 a;
            m = (if e \<le> 23 then a * 2 ^ (23 - e)
                 else let q = a div 2 ^ (e - 23); r = a mod 2 ^ (e - 23); half = 2 ^ (e - 24) in
                      if r > half \<or> r = half \<and> odd q then q + 1 else q);
            bits = (e + 127) * 8388608 + (m - 8388608)
        in word_of_nat (if v < 0 then 2147483648 + bits else bits))"

text \<open>
  \<^verbatim>\<open>struct Value\<close>: the tag and the member of the union it selects, and the raw buffer, if there is one.
\<close>

datatype val_data = IntVal int | FloatVal float32 | BigintVal int | DatetimeVal int | StrVal string

record Value =
  vdata :: val_data
  raw :: "byte list option"

fun data_type :: "val_data \<Rightarrow> ColType" where
  "data_type (IntVal _) = TYPE_INT"
| "data_type (FloatVal _) = TYPE_FLOAT"
| "data_type (BigintVal _) = TYPE_BIGINT"
| "data_type (DatetimeVal _) = TYPE_DATETIME"
| "data_type (StrVal _) = TYPE_STRING"

definition vtype :: "Value \<Rightarrow> ColType" where
  "vtype v = data_type (vdata v)"

definition new_Value :: "val_data \<Rightarrow> Value" where
  "new_Value d = \<lparr>vdata = d, raw = None\<rparr>"

definition set_int :: "int \<Rightarrow> Value \<Rightarrow> Value" where
  "set_int i v = v\<lparr>vdata := IntVal i\<rparr>"

definition set_float :: "float32 \<Rightarrow> Value \<Rightarrow> Value" where
  "set_float f v = v\<lparr>vdata := FloatVal f\<rparr>"

definition set_bigint :: "int \<Rightarrow> Value \<Rightarrow> Value" where
  "set_bigint i v = v\<lparr>vdata := BigintVal i\<rparr>"

definition set_datetime :: "int \<Rightarrow> Value \<Rightarrow> Value" where
  "set_datetime i v = v\<lparr>vdata := DatetimeVal i\<rparr>"

definition set_str :: "string \<Rightarrow> Value \<Rightarrow> Value" where
  "set_str s v = v\<lparr>vdata := StrVal s\<rparr>"

type_synonym 'a value_op = "(Value, rmdb_error, 'a) sem"

definition coerce_to :: "ColType \<Rightarrow> bool value_op" where
  "coerce_to target v =
     (if vtype v = target then (Inr True, v)
      else case (target, vdata v) of
          (TYPE_FLOAT, IntVal i) \<Rightarrow> (Inr True, set_float (float_of_int i) v)
        | (TYPE_BIGINT, IntVal i) \<Rightarrow> (Inr True, set_bigint i v)
        | (TYPE_INT, BigintVal i) \<Rightarrow>
            if - 2147483648 \<le> i \<and> i \<le> 2147483647 then (Inr True, set_int i v) else (Inr False, v)
        | (TYPE_DATETIME, StrVal s) \<Rightarrow>
            (case parse_datetime_literal s of
               Inl e \<Rightarrow> (Inl e, v)
             | Inr d \<Rightarrow> (Inr True, set_datetime d v))
        | _ \<Rightarrow> (Inr False, v))"

text \<open>
  The bytes of a value in a column of the given length. The buffer is allocated before a string that is
  too long is refused; what it then holds is unspecified.
\<close>

definition init_raw :: "int \<Rightarrow> unit value_op" where
  "init_raw len v =
     (if raw v \<noteq> None then (Inl AssertionFailure, v)
      else case vdata v of
          IntVal i \<Rightarrow>
            if len \<noteq> 4 then (Inl AssertionFailure, v\<lparr>raw := Some (replicate (nat len) 0)\<rparr>)
            else (Inr (), v\<lparr>raw := Some (i32_bytes i)\<rparr>)
        | FloatVal f \<Rightarrow>
            if len \<noteq> 4 then (Inl AssertionFailure, v\<lparr>raw := Some (replicate (nat len) 0)\<rparr>)
            else (Inr (), v\<lparr>raw := Some (le_bytes 4 (unat f))\<rparr>)
        | BigintVal i \<Rightarrow>
            if len \<noteq> 8 then (Inl AssertionFailure, v\<lparr>raw := Some (replicate (nat len) 0)\<rparr>)
            else (Inr (), v\<lparr>raw := Some (i64_bytes i)\<rparr>)
        | DatetimeVal i \<Rightarrow>
            if len \<noteq> 8 then (Inl AssertionFailure, v\<lparr>raw := Some (replicate (nat len) 0)\<rparr>)
            else (Inr (), v\<lparr>raw := Some (i64_bytes i)\<rparr>)
        | StrVal s \<Rightarrow>
            if len < int (length s) then (Inl StringOverflowError, v\<lparr>raw := Some (replicate (nat len) 0)\<rparr>)
            else (Inr (), v\<lparr>raw := Some (str_bytes s @ replicate (nat len - length s) 0)\<rparr>))"

section \<open>Columns, conditions, clauses\<close>

record TabCol =
  tc_tab :: string
  tc_col :: string

abbreviation mk_tabcol :: "string \<Rightarrow> string \<Rightarrow> TabCol" where
  "mk_tabcol t c \<equiv> \<lparr>tc_tab = t, tc_col = c\<rparr>"

datatype AggType = AGG_COUNT | AGG_SUM | AGG_MAX | AGG_MIN

record AggregateCall =
  agg_type :: AggType
  agg_col :: TabCol
  agg_alias :: string
  count_star :: bool

record SortKey =
  sk_col :: TabCol
  sk_desc :: bool

datatype CompOp = OP_EQ | OP_NE | OP_LT | OP_GT | OP_LE | OP_GE

record Condition =
  lhs_col :: TabCol
  cond_op :: CompOp
  is_rhs_val :: bool
  rhs_col :: TabCol
  rhs_val :: Value

record SetClause =
  set_lhs :: TabCol
  set_rhs :: Value

section \<open>Comparison of raw values\<close>

text \<open>
  \<^verbatim>\<open>compare_raw_value\<close> (\<^verbatim>\<open>execution/execution_defs.h\<close>). A pointer is the list of the bytes from it to the
  end of its object; \<^verbatim>\<open>strncmp\<close> compares bytes as unsigned characters up to a common NUL and its
  result counts only by its sign.
\<close>

fun strncmp :: "nat \<Rightarrow> byte list \<Rightarrow> byte list \<Rightarrow> int" where
  "strncmp 0 xs ys = 0"
| "strncmp (Suc n) xs ys =
     (let a = (case xs of [] \<Rightarrow> 0 | x # _ \<Rightarrow> x); b = (case ys of [] \<Rightarrow> 0 | y # _ \<Rightarrow> y) in
      if a \<noteq> b then int (unat a) - int (unat b)
      else if a = 0 then 0
      else strncmp n (tl xs) (tl ys))"

definition sign_less :: "bool \<Rightarrow> bool \<Rightarrow> int" where
  "sign_less gt lt = (if gt then 1 else 0) - (if lt then 1 else 0)"

definition raw_i32 :: "byte list \<Rightarrow> int" where
  "raw_i32 bs = signed_of 32 (le_val (take 4 bs))"

definition raw_i64 :: "byte list \<Rightarrow> int" where
  "raw_i64 bs = signed_of 64 (le_val (take 8 bs))"

definition raw_float :: "byte list \<Rightarrow> float32" where
  "raw_float bs = word_of_nat (le_val (take 4 bs))"

definition compare_raw_value :: "byte list \<Rightarrow> byte list \<Rightarrow> ColType \<Rightarrow> int \<Rightarrow> int" where
  "compare_raw_value lhs rhs ty len =
     (case ty of
        TYPE_INT \<Rightarrow> sign_less (raw_i32 lhs > raw_i32 rhs) (raw_i32 lhs < raw_i32 rhs)
      | TYPE_FLOAT \<Rightarrow> sign_less (float_less (raw_float rhs) (raw_float lhs)) (float_less (raw_float lhs) (raw_float rhs))
      | TYPE_BIGINT \<Rightarrow> sign_less (raw_i64 lhs > raw_i64 rhs) (raw_i64 lhs < raw_i64 rhs)
      | TYPE_DATETIME \<Rightarrow> sign_less (raw_i64 lhs > raw_i64 rhs) (raw_i64 lhs < raw_i64 rhs)
      | TYPE_STRING \<Rightarrow> strncmp (nat len) lhs rhs)"

fun eval_compare :: "int \<Rightarrow> CompOp \<Rightarrow> bool" where
  "eval_compare c OP_EQ = (c = 0)"
| "eval_compare c OP_NE = (c \<noteq> 0)"
| "eval_compare c OP_LT = (c < 0)"
| "eval_compare c OP_GT = (c > 0)"
| "eval_compare c OP_LE = (c \<le> 0)"
| "eval_compare c OP_GE = (c \<ge> 0)"

section \<open>The order behind the comparison\<close>

text \<open>
  Every comparison is the lexicographic comparison of integer lists: of the number itself, or of the
  characters up to the first NUL.
\<close>

definition c_string :: "nat \<Rightarrow> byte list \<Rightarrow> int list" where
  "c_string n bs = map (\<lambda>b. int (unat b)) (takeWhile (\<lambda>b. b \<noteq> 0) (take n bs))"

definition raw_key :: "ColType \<Rightarrow> int \<Rightarrow> byte list \<Rightarrow> int list" where
  "raw_key ty len bs =
     (case ty of
        TYPE_INT \<Rightarrow> [raw_i32 bs]
      | TYPE_FLOAT \<Rightarrow> [float_key (raw_float bs)]
      | TYPE_BIGINT \<Rightarrow> [raw_i64 bs]
      | TYPE_DATETIME \<Rightarrow> [raw_i64 bs]
      | TYPE_STRING \<Rightarrow> c_string (nat len) bs)"

definition raw_ok :: "ColType \<Rightarrow> byte list \<Rightarrow> bool" where
  "raw_ok ty bs \<longleftrightarrow> (ty = TYPE_FLOAT \<longrightarrow> \<not> is_nan (raw_float bs))"

lemma c_string_simps [simp]:
  "c_string 0 bs = []" "c_string n [] = []"
  "c_string (Suc n) (b # bs) = (if b = 0 then [] else int (unat b) # c_string n bs)"
  by (simp_all add: c_string_def)

lemma sgn_strncmp:
  "sgn (strncmp n xs ys) = (if c_string n xs < c_string n ys then - 1 else if c_string n xs = c_string n ys then 0 else 1)"
proof (induction n arbitrary: xs ys)
  case (Suc n)
  have pos: "b \<noteq> 0 \<Longrightarrow> 0 < unat b" for b :: byte by (simp add: unat_gt_0)
  show ?case
  proof (cases xs)
    case Nil
    then show ?thesis using pos by (cases ys) (simp_all add: Let_def)
  next
    case (Cons a as)
    show ?thesis
    proof (cases ys)
      case Nil
      with Cons pos show ?thesis by (simp add: Let_def)
    next
      case (Cons b bs)
      note xy = \<open>xs = a # as\<close> Cons
      consider "a = b" | "uint a < uint b" | "uint b < uint a"
        by (metis linorder_neqE word_uint_eq_iff)
      then show ?thesis
      proof cases
        case 1
        with Suc.IH [of as bs] show ?thesis by (simp add: xy Let_def)
      next
        case 2
        then have "a \<noteq> b" "b \<noteq> 0" using uint_nonnegative [of a] by (auto dest: leD)
        with 2 show ?thesis by (cases "a = 0") (simp_all add: xy Let_def)
      next
        case 3
        then have "a \<noteq> b" "a \<noteq> 0" using uint_nonnegative [of b] by (auto dest: leD)
        with 3 show ?thesis by (cases "b = 0") (simp_all add: xy Let_def)
      qed
    qed
  qed
qed simp

lemma compare_raw_value_key:
  assumes "raw_ok ty a" and "raw_ok ty b"
  shows "sgn (compare_raw_value a b ty len) =
    (if raw_key ty len a < raw_key ty len b then - 1 else if raw_key ty len a = raw_key ty len b then 0 else 1)"
  using assms
  by (cases ty) (auto simp: compare_raw_value_def raw_key_def raw_ok_def sign_less_def float_less_def sgn_strncmp)

lemma compare_raw_value_iff:
  assumes "raw_ok ty a" and "raw_ok ty b"
  shows "compare_raw_value a b ty len < 0 \<longleftrightarrow> raw_key ty len a < raw_key ty len b"
    and "compare_raw_value a b ty len = 0 \<longleftrightarrow> raw_key ty len a = raw_key ty len b"
    and "compare_raw_value a b ty len > 0 \<longleftrightarrow> raw_key ty len a > raw_key ty len b"
  using compare_raw_value_key [OF assms, of len]
  by (auto simp: sgn_if linorder_neq_iff split: if_splits)

text \<open>The order of the values themselves.\<close>

fun val_key :: "val_data \<Rightarrow> int list" where
  "val_key (IntVal i) = [i]"
| "val_key (FloatVal f) = [float_key f]"
| "val_key (BigintVal i) = [i]"
| "val_key (DatetimeVal i) = [i]"
| "val_key (StrVal s) = map of_char (takeWhile (\<lambda>c. c \<noteq> CHR 0x00) s)"

fun val_ok :: "val_data \<Rightarrow> bool" where
  "val_ok (IntVal i) = int32_range i"
| "val_ok (FloatVal f) = (\<not> is_nan f)"
| "val_ok (BigintVal i) = int64_range i"
| "val_ok (DatetimeVal i) = int64_range i"
| "val_ok (StrVal s) = True"

lemma c_string_padded:
  assumes "length s \<le> n"
  shows "c_string n (str_bytes s @ replicate (n - length s) 0) = map of_char (takeWhile (\<lambda>c. c \<noteq> CHR 0x00) s)"
  using assms
proof (induction s arbitrary: n)
  case Nil
  then show ?case by (cases n) (auto simp: str_bytes_def)
next
  case (Cons c s)
  then obtain m where n: "n = Suc m" "length s \<le> m" by (cases n) auto
  have u: "unat (word_of_nat (of_char c) :: byte) = of_char c"
  proof -
    have "(of_char c :: nat) < 256" by simp
    then show ?thesis by (simp add: unat_of_nat)
  qed
  have z: "(word_of_nat (of_char c) :: byte) = 0 \<longleftrightarrow> c = CHR 0x00"
  proof
    assume "(word_of_nat (of_char c) :: byte) = 0"
    then have "(of_char c :: nat) = of_char (CHR 0x00)" using u by simp
    then show "c = CHR 0x00" by (simp only: of_char_eq_iff)
  qed simp
  show ?case using Cons.IH [OF n(2)] u z by (simp add: n str_bytes_def of_nat_of_char)
qed

lemma init_raw_key:
  assumes "val_ok (vdata v)" and "init_raw len v = (Inr (), v')" and "raw v' = Some bs"
  shows "raw_key (vtype v) len bs = val_key (vdata v)" and "raw_ok (vtype v) bs" and "length bs = nat len"
proof -
  have f: "(word_of_nat (le_val (le_bytes 4 (unat f))) :: float32) = f" for f
  proof -
    have "unat f < 256 ^ 4" using unsigned_less [of f] by simp
    then show ?thesis by (simp add: le_val_le_bytes)
  qed
  show "raw_key (vtype v) len bs = val_key (vdata v)" "raw_ok (vtype v) bs" "length bs = nat len"
    using assms f c_string_padded
    by (cases "vdata v"; auto simp: init_raw_def vtype_def raw_key_def raw_ok_def raw_i32_def raw_i64_def raw_float_def
      signed_i32_bytes signed_i64_bytes split: if_splits)+
qed

section \<open>Properties\<close>

lemma days_in_month_le: "1 \<le> mo \<Longrightarrow> mo \<le> 12 \<Longrightarrow> days_in_month y mo \<le> 31"
  by (simp add: days_in_month_calendar calendar_days_def)

lemma parse_datetime_text:
  assumes "datetime_valid y mo d h mi s"
  shows "parse_datetime_literal (format_datetime_value (datetime_of y mo d h mi s)) = Inr (datetime_of y mo d h mi s)"
proof -
  note v = assms [unfolded datetime_valid_iff]
  have b: "field_ok mo" "field_ok d" "field_ok h" "field_ok mi" "field_ok s" "0 \<le> y" "y < 10000"
    using v days_in_month_le [of mo y] by (auto simp: field_ok_def)
  let ?t = "fixed_digits 4 (nat y) @ ''-'' @ fixed_digits 2 (nat mo) @ ''-'' @ fixed_digits 2 (nat d) @ '' '' @
    fixed_digits 2 (nat h) @ '':'' @ fixed_digits 2 (nat mi) @ '':'' @ fixed_digits 2 (nat s)"
  have t: "format_datetime_value (datetime_of y mo d h mi s) = ?t"
    using b by (intro format_datetime_of)
  have two: "field_ok u \<Longrightarrow> parse_digits 0 (fixed_digits 2 (nat u)) = Inr u" for u
    using parse_fixed_digits [of "nat u" 2] by (auto simp: field_ok_def nat_less_iff)
  have four: "parse_digits 0 (fixed_digits 4 (nat y)) = Inr y"
    using parse_fixed_digits [of "nat y" 4] b(6,7) by (simp add: nat_less_iff)
  have len: "length ?t = 19" by simp
  have seps: "?t ! 4 = CHR ''-''" "?t ! 7 = CHR ''-''" "?t ! 10 = CHR '' ''" "?t ! 13 = CHR '':''" "?t ! 16 = CHR '':''"
    by (simp_all add: nth_append)
  have parts: "parse_fixed_int ?t 0 4 = Inr y" "parse_fixed_int ?t 5 2 = Inr mo" "parse_fixed_int ?t 8 2 = Inr d"
    "parse_fixed_int ?t 11 2 = Inr h" "parse_fixed_int ?t 14 2 = Inr mi" "parse_fixed_int ?t 17 2 = Inr s"
    using four two b by (simp_all add: parse_fixed_int_def)
  have ok: "\<not> (y < 1000 \<or> y > 9999 \<or> mo < 1 \<or> mo > 12 \<or> d < 1 \<or> d > days_in_month y mo \<or>
      h < 0 \<or> h > 23 \<or> mi < 0 \<or> mi > 59 \<or> s < 0 \<or> s > 59)" using v by auto
  show ?thesis
    unfolding t unfolding parse_datetime_literal_def
    by (simp only: len seps parts bind_r_simps ok if_False simp_thms) (simp add: datetime_of_def)
qed

text \<open>
  C26: \<^verbatim>\<open>parse_datetime_literal\<close> accepts exactly the texts \<^verbatim>\<open>format_datetime_value\<close> prints for the dates and
  times that exist between the years 1000 and 9999, and returns the number it prints from.
\<close>

theorem datetime_literals:
  "parse_datetime_literal txt = Inr v \<longleftrightarrow>
     (\<exists>y mo d h mi s. datetime_valid y mo d h mi s \<and> v = datetime_of y mo d h mi s \<and> txt = format_datetime_value v)"
proof
  assume p: "parse_datetime_literal txt = Inr v"
  then obtain y mo d h mi s where f: "v = datetime_of y mo d h mi s" "0 \<le> y" "y < 10000"
    "field_ok mo" "field_ok d" "field_ok h" "field_ok mi" "field_ok s" "datetime_valid y mo d h mi s"
    "txt = fixed_digits 4 (nat y) @ ''-'' @ fixed_digits 2 (nat mo) @ ''-'' @ fixed_digits 2 (nat d) @ '' '' @
      fixed_digits 2 (nat h) @ '':'' @ fixed_digits 2 (nat mi) @ '':'' @ fixed_digits 2 (nat s)"
    by (rule parse_datetime_InrE)
  then show "\<exists>y mo d h mi s. datetime_valid y mo d h mi s \<and> v = datetime_of y mo d h mi s \<and> txt = format_datetime_value v"
    using format_datetime_of [OF f(2-8)] by metis
next
  assume "\<exists>y mo d h mi s. datetime_valid y mo d h mi s \<and> v = datetime_of y mo d h mi s \<and> txt = format_datetime_value v"
  then show "parse_datetime_literal txt = Inr v" using parse_datetime_text by blast
qed

text \<open>
  C22: The raw bytes of two values of the same type, in a column of a given length, compare as the values
  do: numbers by their value, floating-point numbers by the IEEE order, strings character by character
  up to their first NUL.
\<close>

theorem raw_comparison_sound:
  assumes "val_ok (vdata v)" and "val_ok (vdata w)" and "vtype v = vtype w"
    and "init_raw len v = (Inr (), v')" and "init_raw len w = (Inr (), w')"
    and "raw v' = Some bs" and "raw w' = Some cs"
  shows "eval_compare (compare_raw_value bs cs (vtype v) len) op =
    (case op of OP_EQ \<Rightarrow> val_key (vdata v) = val_key (vdata w) | OP_NE \<Rightarrow> val_key (vdata v) \<noteq> val_key (vdata w)
     | OP_LT \<Rightarrow> val_key (vdata v) < val_key (vdata w) | OP_GT \<Rightarrow> val_key (vdata v) > val_key (vdata w)
     | OP_LE \<Rightarrow> val_key (vdata v) \<le> val_key (vdata w) | OP_GE \<Rightarrow> val_key (vdata v) \<ge> val_key (vdata w))"
proof -
  note a = init_raw_key [OF assms(1,4,6)] and b = init_raw_key [OF assms(2,5,7), folded assms(3)]
  have c: "compare_raw_value bs cs (vtype v) len < 0 \<longleftrightarrow> val_key (vdata v) < val_key (vdata w)"
    "compare_raw_value bs cs (vtype v) len = 0 \<longleftrightarrow> val_key (vdata v) = val_key (vdata w)"
    "compare_raw_value bs cs (vtype v) len > 0 \<longleftrightarrow> val_key (vdata v) > val_key (vdata w)"
    using compare_raw_value_iff [OF a(2) b(2), of len] a(1) b(1) by simp_all
  show ?thesis using c by (cases op) (auto simp: not_less [symmetric])
qed

theorem raw_comparison_sound_witness:
  "eval_compare (compare_raw_value [97, 98, 0] [97, 99, 100] TYPE_STRING 3) OP_LT \<and>
   val_key (StrVal ''ab'') < val_key (StrVal ''acd'')"
proof -
  let ?v = "new_Value (StrVal ''ab'')" and ?w = "new_Value (StrVal ''acd'')"
  have v: "init_raw 3 ?v = (Inr (), ?v\<lparr>raw := Some [97, 98, 0]\<rparr>)"
    and w: "init_raw 3 ?w = (Inr (), ?w\<lparr>raw := Some [97, 99, 100]\<rparr>)"
    by (simp_all add: init_raw_def new_Value_def str_bytes_def)
  have lt: "val_key (StrVal ''ab'') < val_key (StrVal ''acd'')" by simp
  with raw_comparison_sound [OF _ _ _ v w, of "[97, 98, 0]" "[97, 99, 100]" OP_LT]
  show ?thesis by (simp add: new_Value_def vtype_def)
qed

end
