(* ===== verification/Sm_Meta.thy ===== *)
theory Sm_Meta
  imports Rmdb_Values "HOL-Library.Char_ord"
begin

text \<open>
  The catalogue (\<^verbatim>\<open>system/sm_meta.h\<close>): metadata of columns, indexes, tables and the database, the lookups in
  them, and the text form in which \<^verbatim>\<open>db.meta\<close> keeps them, written with \<^verbatim>\<open>operator<<\<close> and read with
  \<^verbatim>\<open>operator>>\<close>.
\<close>

section \<open>Metadata\<close>

record ColMeta =
  cm_tab :: string
  cm_name :: string
  cm_type :: ColType
  cm_len :: int
  cm_offset :: int
  cm_index :: bool

record IndexMeta =
  im_tab :: string
  col_tot_len :: int
  col_num :: int
  im_cols :: "ColMeta list"

record TabMeta =
  tm_name :: string
  tm_cols :: "ColMeta list"
  tm_indexes :: "IndexMeta list"

text \<open>\<^verbatim>\<open>std::map<std::string, TabMeta>\<close>: the entries in the order of their keys.\<close>

record DbMeta =
  db_name :: string
  tabs :: "(string \<times> TabMeta) list"

definition new_TabMeta :: TabMeta where
  "new_TabMeta = \<lparr>tm_name = [], tm_cols = [], tm_indexes = []\<rparr>"

definition new_DbMeta :: DbMeta where
  "new_DbMeta = \<lparr>db_name = [], tabs = []\<rparr>"

text \<open>The copy constructor, which leaves the indexes behind.\<close>

definition TabMeta_copy :: "TabMeta \<Rightarrow> TabMeta" where
  "TabMeta_copy other = \<lparr>tm_name = tm_name other, tm_cols = tm_cols other, tm_indexes = []\<rparr>"

subsection \<open>Lookups\<close>

definition is_col :: "TabMeta \<Rightarrow> string \<Rightarrow> bool" where
  "is_col tab c = list_ex (\<lambda>col. cm_name col = c) (tm_cols tab)"

text \<open>Whether an index is on exactly these columns, as the loops of \<^verbatim>\<open>is_index\<close> and \<^verbatim>\<open>get_index_meta\<close> compare them.\<close>

definition index_on :: "string list \<Rightarrow> IndexMeta \<Rightarrow> bool" where
  "index_on names index \<longleftrightarrow>
     col_num index = int (length names) \<and> map cm_name (take (length names) (im_cols index)) = names"

definition is_index :: "TabMeta \<Rightarrow> string list \<Rightarrow> bool" where
  "is_index tab names = list_ex (index_on names) (tm_indexes tab)"

text \<open>The iterator it returns is the position in the vector.\<close>

fun find_pos :: "('a \<Rightarrow> bool) \<Rightarrow> 'a list \<Rightarrow> nat option" where
  "find_pos P [] = None"
| "find_pos P (x # xs) = (if P x then Some 0 else map_option Suc (find_pos P xs))"

definition get_index_meta :: "TabMeta \<Rightarrow> string list \<Rightarrow> rmdb_error + nat" where
  "get_index_meta tab names =
     (case find_pos (index_on names) (tm_indexes tab) of
        Some i \<Rightarrow> Inr i
      | None \<Rightarrow> Inl (IndexNotFoundError (tm_name tab) names))"

definition get_col :: "TabMeta \<Rightarrow> string \<Rightarrow> rmdb_error + nat" where
  "get_col tab c =
     (case find_pos (\<lambda>col. cm_name col = c) (tm_cols tab) of
        Some i \<Rightarrow> Inr i
      | None \<Rightarrow> Inl (ColumnNotFoundError c))"

subsection \<open>Maps keyed by names\<close>

fun smap_set :: "string \<Rightarrow> 'v \<Rightarrow> (string \<times> 'v) list \<Rightarrow> (string \<times> 'v) list" where
  "smap_set k v [] = [(k, v)]"
| "smap_set k v ((k', v') # m) =
     (if k < k' then (k, v) # (k', v') # m
      else if k = k' then (k, v) # m
      else (k', v') # smap_set k v m)"

definition smap_erase :: "string \<Rightarrow> (string \<times> 'v) list \<Rightarrow> (string \<times> 'v) list" where
  "smap_erase k m = filter (\<lambda>e. fst e \<noteq> k) m"

definition smap_ok :: "(string \<times> 'v) list \<Rightarrow> bool" where
  "smap_ok m \<longleftrightarrow> sorted_wrt (<) (map fst m)"

definition is_table :: "DbMeta \<Rightarrow> string \<Rightarrow> bool" where
  "is_table db t \<longleftrightarrow> map_of (tabs db) t \<noteq> None"

definition SetTabMeta :: "string \<Rightarrow> TabMeta \<Rightarrow> DbMeta \<Rightarrow> DbMeta" where
  "SetTabMeta t meta db = db\<lparr>tabs := smap_set t meta (tabs db)\<rparr>"

definition get_table :: "DbMeta \<Rightarrow> string \<Rightarrow> rmdb_error + TabMeta" where
  "get_table db t =
     (case map_of (tabs db) t of None \<Rightarrow> Inl (TableNotFoundError t) | Some tab \<Rightarrow> Inr tab)"

lemma map_of_smap_set: "smap_ok m \<Longrightarrow> map_of (smap_set k v m) = (map_of m)(k \<mapsto> v)"
  by (induction m) (auto simp: smap_ok_def fun_eq_iff)

lemma fst_smap_set: "fst ` set (smap_set k v m) = insert k (fst ` set m)"
  by (induction k v m rule: smap_set.induct) (simp_all add: insert_commute)

lemma smap_ok_set: "smap_ok m \<Longrightarrow> smap_ok (smap_set k v m)"
proof (induction m)
  case (Cons e m)
  have "\<And>x. x \<in> set (smap_set k v m) \<Longrightarrow> fst x = k \<or> fst x \<in> fst ` set m"
    using fst_smap_set [of k v m] by blast
  with Cons show ?case by (cases e) (fastforce simp: smap_ok_def)
qed (simp add: smap_ok_def)

lemma smap_ok_erase: "smap_ok m \<Longrightarrow> smap_ok (smap_erase k m)"
  unfolding smap_ok_def smap_erase_def by (induction m) auto

lemma map_of_smap_erase: "map_of (smap_erase k m) = (map_of m)(k := None)"
  by (induction m) (auto simp: smap_erase_def fun_eq_iff)

lemma smap_ok_distinct: "smap_ok m \<Longrightarrow> distinct (map fst m)"
  by (simp add: smap_ok_def strict_sorted_iff)

lemma smap_set_last: "smap_ok (m @ [(k, v)]) \<Longrightarrow> smap_set k v m = m @ [(k, v)]"
  by (induction m) (auto simp: smap_ok_def)

section \<open>Writing\<close>

definition sp :: string where
  "sp = '' ''"

definition nl :: string where
  "nl = [CHR 0x0A]"

definition put_bool :: "bool \<Rightarrow> string" where
  "put_bool b = (if b then ''1'' else ''0'')"

definition put_ColMeta :: "ColMeta \<Rightarrow> string" where
  "put_ColMeta col = cm_tab col @ sp @ cm_name col @ sp @ to_string (coltype_code (cm_type col)) @ sp @
     to_string (cm_len col) @ sp @ to_string (cm_offset col) @ sp @ put_bool (cm_index col)"

definition put_IndexMeta :: "IndexMeta \<Rightarrow> string" where
  "put_IndexMeta index = im_tab index @ sp @ to_string (col_tot_len index) @ sp @ to_string (col_num index) @
     concat (map (\<lambda>col. nl @ put_ColMeta col) (im_cols index))"

definition put_TabMeta :: "TabMeta \<Rightarrow> string" where
  "put_TabMeta tab = tm_name tab @ nl @ to_string (int (length (tm_cols tab))) @ nl @
     concat (map (\<lambda>col. put_ColMeta col @ nl) (tm_cols tab)) @
     to_string (int (length (tm_indexes tab))) @ nl @
     concat (map (\<lambda>index. put_IndexMeta index @ nl) (tm_indexes tab))"

definition put_DbMeta :: "DbMeta \<Rightarrow> string" where
  "put_DbMeta db = db_name db @ nl @ to_string (int (length (tabs db))) @ nl @
     concat (map (\<lambda>entry. put_TabMeta (snd entry) @ nl) (tabs db))"

section \<open>Reading\<close>

text \<open>
  Formatted extraction: white space is skipped, then a word is read up to the next white space, or a
  number as long as digits come. \<open>None\<close> is a stream whose fail bit is set; what later extractions leave in
  their variables is not specified.
\<close>

definition is_space :: "char \<Rightarrow> bool" where
  "is_space c \<longleftrightarrow> c \<in> {CHR '' '', CHR 0x09, CHR 0x0A, CHR 0x0B, CHR 0x0C, CHR 0x0D}"

type_synonym 'a reader = "string \<Rightarrow> ('a \<times> string) option"

definition skip_ws :: "string \<Rightarrow> string" where
  "skip_ws s = dropWhile is_space s"

definition rd_word :: "string reader" where
  "rd_word s =
     (let s1 = skip_ws s; w = takeWhile (\<lambda>c. \<not> is_space c) s1 in
      if w = [] then None else Some (w, drop (length w) s1))"

fun digits_val :: "nat \<Rightarrow> string \<Rightarrow> nat" where
  "digits_val acc [] = acc"
| "digits_val acc (c # cs) = digits_val (acc * 10 + digit_val c) cs"

definition rd_nat :: "nat reader" where
  "rd_nat s =
     (let w = takeWhile is_digit s in
      if w = [] then None else Some (digits_val 0 w, drop (length w) s))"

definition rd_int :: "int reader" where
  "rd_int s =
     (let s1 = skip_ws s in
      if s1 \<noteq> [] \<and> hd s1 = CHR ''-'' then map_option (\<lambda>(n, r). (- int n, r)) (rd_nat (tl s1))
      else if s1 \<noteq> [] \<and> hd s1 = CHR ''+'' then map_option (\<lambda>(n, r). (int n, r)) (rd_nat (tl s1))
      else map_option (\<lambda>(n, r). (int n, r)) (rd_nat s1))"

text \<open>\<^verbatim>\<open>is >> n\<close> for an \<^verbatim>\<open>int\<close>, which fails outside its range, for a \<^verbatim>\<open>bool\<close>, and for an enumeration.\<close>

definition rd_i32 :: "int reader" where
  "rd_i32 s = (case rd_int s of Some (v, r) \<Rightarrow> if int32_range v then Some (v, r) else None | None \<Rightarrow> None)"

definition rd_size :: "nat reader" where
  "rd_size s = (case rd_int s of Some (v, r) \<Rightarrow> if 0 \<le> v \<and> v < 18446744073709551616 then Some (nat v, r) else None | None \<Rightarrow> None)"

definition rd_bool :: "bool reader" where
  "rd_bool s = (case rd_int s of Some (v, r) \<Rightarrow> if v = 0 \<or> v = 1 then Some (v = 1, r) else None | None \<Rightarrow> None)"

definition coltype_of :: "int \<Rightarrow> ColType option" where
  "coltype_of v = (if v = 0 then Some TYPE_INT else if v = 1 then Some TYPE_FLOAT else if v = 2 then Some TYPE_STRING
     else if v = 3 then Some TYPE_BIGINT else if v = 4 then Some TYPE_DATETIME else None)"

definition rd_coltype :: "ColType reader" where
  "rd_coltype s = (case rd_i32 s of Some (v, r) \<Rightarrow> map_option (\<lambda>t. (t, r)) (coltype_of v) | None \<Rightarrow> None)"

definition bind_p :: "'a reader \<Rightarrow> ('a \<Rightarrow> 'b reader) \<Rightarrow> 'b reader" where
  "bind_p p f = (\<lambda>s. case p s of None \<Rightarrow> None | Some (x, r) \<Rightarrow> f x r)"

fun rd_many :: "nat \<Rightarrow> 'a reader \<Rightarrow> 'a list reader" where
  "rd_many 0 p s = Some ([], s)"
| "rd_many (Suc n) p s = bind_p p (\<lambda>x. bind_p (rd_many n p) (\<lambda>xs r. Some (x # xs, r))) s"

definition rd_ColMeta :: "ColMeta reader" where
  "rd_ColMeta =
     bind_p rd_word (\<lambda>t. bind_p rd_word (\<lambda>n. bind_p rd_coltype (\<lambda>ty. bind_p rd_i32 (\<lambda>len.
     bind_p rd_i32 (\<lambda>off. bind_p rd_bool (\<lambda>ix s.
       Some (\<lparr>cm_tab = t, cm_name = n, cm_type = ty, cm_len = len, cm_offset = off, cm_index = ix\<rparr>, s)))))))"

definition rd_IndexMeta :: "IndexMeta reader" where
  "rd_IndexMeta =
     bind_p rd_word (\<lambda>t. bind_p rd_i32 (\<lambda>tot. bind_p rd_i32 (\<lambda>n. bind_p (rd_many (nat n) rd_ColMeta) (\<lambda>cs s.
       Some (\<lparr>im_tab = t, col_tot_len = tot, col_num = n, im_cols = cs\<rparr>, s)))))"

definition rd_TabMeta :: "TabMeta reader" where
  "rd_TabMeta =
     bind_p rd_word (\<lambda>name. bind_p rd_size (\<lambda>n. bind_p (rd_many n rd_ColMeta) (\<lambda>cs.
     bind_p rd_size (\<lambda>m. bind_p (rd_many m rd_IndexMeta) (\<lambda>ixs s.
       Some (\<lparr>tm_name = name, tm_cols = cs, tm_indexes = ixs\<rparr>, s))))))"

text \<open>\<^verbatim>\<open>db_meta.tabs_[tab.name] = tab\<close> for every table read.\<close>

definition rd_DbMeta :: "DbMeta reader" where
  "rd_DbMeta =
     bind_p rd_word (\<lambda>name. bind_p rd_size (\<lambda>n. bind_p (rd_many n rd_TabMeta) (\<lambda>ts s.
       Some (\<lparr>db_name = name, tabs = fold (\<lambda>t m. smap_set (tm_name t) t m) ts []\<rparr>, s))))"

section \<open>Reading what was written\<close>

text \<open>
  \<open>reads p t x\<close>: from a text that starts, after white space, with \<open>t\<close> and a delimiter, the reader yields \<open>x\<close>
  and leaves the rest, up to white space. \<open>reads_all\<close> needs no delimiter.
\<close>

definition ends :: "string \<Rightarrow> bool" where
  "ends r \<longleftrightarrow> r = [] \<or> is_space (hd r)"

definition reads_all :: "'a reader \<Rightarrow> string \<Rightarrow> 'a \<Rightarrow> bool" where
  "reads_all p t x \<longleftrightarrow> (\<forall>s rest. skip_ws s = skip_ws (t @ rest) \<longrightarrow> (\<exists>r. p s = Some (x, r) \<and> skip_ws r = skip_ws rest))"

definition reads :: "'a reader \<Rightarrow> string \<Rightarrow> 'a \<Rightarrow> bool" where
  "reads p t x \<longleftrightarrow>
     (\<forall>s rest. skip_ws s = skip_ws (t @ rest) \<longrightarrow> ends rest \<longrightarrow> (\<exists>r. p s = Some (x, r) \<and> skip_ws r = skip_ws rest))"

lemma reads_all_reads: "reads_all p t x \<Longrightarrow> reads p t x"
  by (simp add: reads_all_def reads_def)

lemma skip_ws_append: "list_all is_space ws \<Longrightarrow> skip_ws (ws @ s) = skip_ws s"
  by (induction ws) (auto simp: skip_ws_def)

lemma spaces [simp]: "list_all is_space sp" "list_all is_space nl" "sp \<noteq> []" "nl \<noteq> []"
  by (simp_all add: sp_def nl_def is_space_def)

lemma ends_append: "list_all is_space ws \<Longrightarrow> ws \<noteq> [] \<Longrightarrow> ends (ws @ s)"
  by (cases ws) (auto simp: ends_def)

lemma reads_bind:
  assumes "reads p t x" and "reads (f x) u y" and "list_all is_space ws" and "ws \<noteq> []"
  shows "reads (bind_p p f) (t @ ws @ u) y"
  unfolding reads_def
proof (intro allI impI)
  fix s rest
  assume s: "skip_ws s = skip_ws ((t @ ws @ u) @ rest)" and e: "ends rest"
  obtain r where r: "p s = Some (x, r)" "skip_ws r = skip_ws (ws @ u @ rest)"
    using assms(1) s ends_append [OF assms(3,4), of "u @ rest"] unfolding reads_def by fastforce
  then have "skip_ws r = skip_ws (u @ rest)" using skip_ws_append [OF assms(3)] by simp
  with assms(2) e obtain r' where "f x r = Some (y, r')" "skip_ws r' = skip_ws rest" unfolding reads_def by blast
  with r show "\<exists>r. bind_p p f s = Some (y, r) \<and> skip_ws r = skip_ws rest" by (simp add: bind_p_def)
qed

lemma reads_bind_all:
  assumes "reads_all p t x" and "reads (f x) u y"
  shows "reads (bind_p p f) (t @ u) y"
  unfolding reads_def
proof (intro allI impI)
  fix s rest
  assume s: "skip_ws s = skip_ws ((t @ u) @ rest)" and e: "ends rest"
  obtain r where r: "p s = Some (x, r)" "skip_ws r = skip_ws (u @ rest)"
    using assms(1) s unfolding reads_all_def by fastforce
  with assms(2) e obtain r' where "f x r = Some (y, r')" "skip_ws r' = skip_ws rest" unfolding reads_def by blast
  with r show "\<exists>r. bind_p p f s = Some (y, r) \<and> skip_ws r = skip_ws rest" by (simp add: bind_p_def)
qed

lemma reads_bind_empty:
  assumes "reads p t x" and "reads (f x) [] y"
  shows "reads (bind_p p f) t y"
  using assms unfolding reads_def bind_p_def by fastforce

lemma reads_ret: "reads p t x \<Longrightarrow> reads (bind_p p (\<lambda>x s. Some (g x, s))) t (g x)"
  unfolding reads_def bind_p_def by fastforce

lemma reads_many_before:
  assumes "list_all2 (reads p) ts xs"
  shows "reads (rd_many (length xs) p) (concat (map (\<lambda>t. nl @ t) ts)) xs"
  using assms
proof (induction ts xs rule: list_all2_induct)
  case Nil
  then show ?case by (simp add: reads_def)
next
  case (Cons t ts x xs)
  show ?case
    unfolding reads_def
  proof (intro allI impI)
    fix s rest
    assume s: "skip_ws s = skip_ws (concat (map (\<lambda>t. nl @ t) (t # ts)) @ rest)" and e: "ends rest"
    let ?r = "concat (map (\<lambda>t. nl @ t) ts) @ rest"
    have "ends ?r" using e by (cases ts) (auto intro!: ends_append)
    moreover have "skip_ws s = skip_ws (t @ ?r)" using s by (simp add: skip_ws_append)
    ultimately obtain r where r: "p s = Some (x, r)" "skip_ws r = skip_ws ?r"
      using Cons.hyps(1) unfolding reads_def by blast
    then obtain r' where "rd_many (length xs) p r = Some (xs, r')" "skip_ws r' = skip_ws rest"
      using Cons.IH e unfolding reads_def by blast
    with r show "\<exists>r. rd_many (length (x # xs)) p s = Some (x # xs, r) \<and> skip_ws r = skip_ws rest"
      by (simp add: bind_p_def)
  qed
qed

lemma reads_many_after:
  assumes "list_all2 (reads p) ts xs"
  shows "reads_all (rd_many (length xs) p) (concat (map (\<lambda>t. t @ nl) ts)) xs"
  using assms
proof (induction ts xs rule: list_all2_induct)
  case Nil
  then show ?case by (simp add: reads_all_def)
next
  case (Cons t ts x xs)
  show ?case
    unfolding reads_all_def
  proof (intro allI impI)
    fix s rest
    assume s: "skip_ws s = skip_ws (concat (map (\<lambda>t. t @ nl) (t # ts)) @ rest)"
    let ?r = "concat (map (\<lambda>t. t @ nl) ts) @ rest"
    have "ends (nl @ ?r)" by (rule ends_append) simp_all
    moreover have "skip_ws s = skip_ws (t @ nl @ ?r)" using s by simp
    ultimately obtain r where r: "p s = Some (x, r)" "skip_ws r = skip_ws (nl @ ?r)"
      using Cons.hyps(1) unfolding reads_def by blast
    then have "skip_ws r = skip_ws ?r" by (simp add: skip_ws_append)
    then obtain r' where "rd_many (length xs) p r = Some (xs, r')" "skip_ws r' = skip_ws rest"
      using Cons.IH unfolding reads_all_def by blast
    with r show "\<exists>r. rd_many (length (x # xs)) p s = Some (x # xs, r) \<and> skip_ws r = skip_ws rest"
      by (simp add: bind_p_def)
  qed
qed

subsection \<open>Words and numbers\<close>

definition word_ok :: "string \<Rightarrow> bool" where
  "word_ok w \<longleftrightarrow> w \<noteq> [] \<and> list_all (\<lambda>c. \<not> is_space c) w"

lemma skip_ws_word: "w \<noteq> [] \<Longrightarrow> \<not> is_space (hd w) \<Longrightarrow> skip_ws (w @ rest) = w @ rest"
  by (cases w) (auto simp: skip_ws_def)

lemma takeWhile_ends:
  assumes "list_all P w" and "ends rest" and "\<And>c. is_space c \<Longrightarrow> \<not> P c"
  shows "takeWhile P (w @ rest) = w"
  using assms by (cases rest) (auto simp: ends_def list_all_iff takeWhile_append2)

lemma reads_word: "word_ok w \<Longrightarrow> reads rd_word w w"
proof (unfold reads_def, intro allI impI)
  fix s rest
  assume w: "word_ok w" and s: "skip_ws s = skip_ws (w @ rest)" and e: "ends rest"
  have "skip_ws s = w @ rest"
    using w s skip_ws_word [of w rest] by (cases w) (auto simp: word_ok_def)
  moreover have "takeWhile (\<lambda>c. \<not> is_space c) (w @ rest) = w"
    using w by (intro takeWhile_ends [OF _ e]) (auto simp: word_ok_def)
  ultimately show "\<exists>r. rd_word s = Some (w, r) \<and> skip_ws r = skip_ws rest"
    using w by (auto simp: rd_word_def word_ok_def)
qed

lemma nat_digits_are_digits: "list_all is_digit (nat_digits n)"
  by (induction n rule: nat_digits.induct) (subst nat_digits.simps, auto)

lemma digits_val_append: "digits_val a (xs @ [c]) = digits_val a xs * 10 + digit_val c"
  by (induction xs arbitrary: a) auto

lemma digits_val_nat_digits: "digits_val 0 (nat_digits n) = n"
proof (induction n rule: nat_digits.induct)
  case (1 n)
  then show ?case by (subst nat_digits.simps) (auto simp: digits_val_append)
qed

lemma digit_not_space: "is_digit c \<Longrightarrow> \<not> is_space c"
  by (auto simp: is_space_def is_digit_def)

lemma rd_nat_digits: "ends rest \<Longrightarrow> rd_nat (nat_digits n @ rest) = Some (n, rest)"
proof -
  assume "ends rest"
  then have "takeWhile is_digit (nat_digits n @ rest) = nat_digits n"
    using digit_not_space by (intro takeWhile_ends nat_digits_are_digits) blast+
  then show ?thesis by (simp add: rd_nat_def digits_val_nat_digits)
qed

lemma nat_digits_hd: "\<exists>c cs. nat_digits n = c # cs \<and> is_digit c"
  using nat_digits_are_digits [of n] by (cases "nat_digits n") auto

lemma reads_int: "reads rd_int (to_string v) v"
proof (unfold reads_def, intro allI impI)
  fix s rest
  assume s: "skip_ws s = skip_ws (to_string v @ rest)" and e: "ends rest"
  obtain c cs where c: "nat_digits (nat v) = c # cs" "is_digit c" using nat_digits_hd by blast
  show "\<exists>r. rd_int s = Some (v, r) \<and> skip_ws r = skip_ws rest"
  proof (cases "v < 0")
    case True
    have "skip_ws s = CHR ''-'' # nat_digits (nat (- v)) @ rest"
      using s True by (simp add: to_string_def skip_ws_def is_space_def)
    with rd_nat_digits [OF e, of "nat (- v)"] True show ?thesis by (simp add: rd_int_def)
  next
    case False
    have "skip_ws s = c # cs @ rest"
      using s False c digit_not_space [OF c(2)] by (simp add: to_string_def skip_ws_def)
    moreover have "rd_nat (c # cs @ rest) = Some (nat v, rest)" using rd_nat_digits [OF e, of "nat v"] c(1) by simp
    moreover have "c \<noteq> CHR ''-''" "c \<noteq> CHR ''+''" using c(2) by (auto simp: is_digit_def)
    ultimately show ?thesis using False by (simp add: rd_int_def)
  qed
qed

lemma reads_map:
  assumes "reads p t x" and "\<And>r. g (x, r) = Some (y, r)"
  shows "reads (\<lambda>s. case p s of Some v \<Rightarrow> g v | None \<Rightarrow> None) t y"
  using assms unfolding reads_def by fastforce

lemma reads_i32: "int32_range v \<Longrightarrow> reads rd_i32 (to_string v) v"
  using reads_map [OF reads_int [of v], of "\<lambda>(v, r). if int32_range v then Some (v, r) else None"]
  by (simp add: rd_i32_def [abs_def])

lemma reads_size: "n < 18446744073709551616 \<Longrightarrow> reads rd_size (to_string (int n)) n"
  using reads_map [OF reads_int [of "int n"],
      of "\<lambda>(v, r). if 0 \<le> v \<and> v < 18446744073709551616 then Some (nat v, r) else None" n]
  by (simp add: rd_size_def [abs_def])

lemma digit_one: "digit_char 1 = CHR ''1''" "digit_char (Suc 0) = CHR ''1''"
proof -
  have "(of_char (digit_char 1) :: nat) = of_char (CHR ''1'')" by simp
  then show "digit_char 1 = CHR ''1''" by (simp only: of_char_eq_iff)
  then show "digit_char (Suc 0) = CHR ''1''" by simp
qed

lemma reads_bool: "reads rd_bool (put_bool b) b"
proof -
  have "to_string 1 = ''1''" "to_string 0 = ''0''"
    by (simp_all add: to_string_def nat_digits.simps digit_zero digit_one)
  then show ?thesis
    using reads_map [OF reads_int [of "if b then 1 else 0"],
        of "\<lambda>(v, r). if v = 0 \<or> v = 1 then Some (v = 1, r) else None" b]
    by (cases b) (simp_all add: rd_bool_def [abs_def] put_bool_def)
qed

lemma coltype_of_code: "coltype_of (coltype_code ty) = Some ty"
  by (cases ty) (simp_all add: coltype_of_def)

lemma reads_coltype: "reads rd_coltype (to_string (coltype_code ty)) ty"
proof -
  have "int32_range (coltype_code ty)" by (cases ty) (simp_all add: int32_range_def)
  from reads_map [OF reads_i32 [OF this], of "\<lambda>(v, r). map_option (\<lambda>t. (t, r)) (coltype_of v)" ty] show ?thesis
    by (simp add: rd_coltype_def [abs_def] coltype_of_code)
qed

subsection \<open>The metadata\<close>

definition col_ok :: "ColMeta \<Rightarrow> bool" where
  "col_ok c \<longleftrightarrow> word_ok (cm_tab c) \<and> word_ok (cm_name c) \<and> int32_range (cm_len c) \<and> int32_range (cm_offset c)"

definition index_ok :: "IndexMeta \<Rightarrow> bool" where
  "index_ok ix \<longleftrightarrow> word_ok (im_tab ix) \<and> int32_range (col_tot_len ix) \<and> int32_range (col_num ix) \<and>
     col_num ix = int (length (im_cols ix)) \<and> list_all col_ok (im_cols ix)"

definition tab_ok :: "TabMeta \<Rightarrow> bool" where
  "tab_ok t \<longleftrightarrow> word_ok (tm_name t) \<and> length (tm_cols t) < 18446744073709551616 \<and>
     length (tm_indexes t) < 18446744073709551616 \<and> list_all col_ok (tm_cols t) \<and> list_all index_ok (tm_indexes t)"

definition db_ok :: "DbMeta \<Rightarrow> bool" where
  "db_ok db \<longleftrightarrow> word_ok (db_name db) \<and> length (tabs db) < 18446744073709551616 \<and> smap_ok (tabs db) \<and>
     list_all (\<lambda>(k, t). k = tm_name t \<and> tab_ok t) (tabs db)"

lemmas reads_word_then = reads_bind [OF reads_word]
lemmas reads_i32_then = reads_bind [OF reads_i32]
lemmas reads_size_then = reads_bind [OF reads_size]
lemmas reads_coltype_then = reads_bind [OF reads_coltype]

lemma reads_ret_eq: "reads p t x \<Longrightarrow> g x = y \<Longrightarrow> reads (bind_p p (\<lambda>x s. Some (g x, s))) t y"
  using reads_ret by metis

lemma reads_col:
  assumes "col_ok c"
  shows "reads rd_ColMeta (put_ColMeta c) c"
  unfolding rd_ColMeta_def put_ColMeta_def
  by (intro reads_word_then reads_coltype_then reads_i32_then reads_ret_eq [OF reads_bool] spaces)
    (use assms in \<open>auto simp: col_ok_def\<close>)

lemma reads_cols: "list_all col_ok cs \<Longrightarrow> list_all2 (reads rd_ColMeta) (map put_ColMeta cs) cs"
  by (induction cs) (auto intro: reads_col)

lemma reads_index:
  assumes "index_ok ix"
  shows "reads rd_IndexMeta (put_IndexMeta ix) ix"
proof -
  note ok = assms [unfolded index_ok_def]
  have cols: "reads (rd_many (nat (col_num ix)) rd_ColMeta) (concat (map (\<lambda>c. nl @ put_ColMeta c) (im_cols ix))) (im_cols ix)"
    using reads_many_before [OF reads_cols [of "im_cols ix"]] ok by (simp add: comp_def)
  show ?thesis
  proof (cases "im_cols ix")
    case Nil
    have "reads (bind_p (rd_many (nat (col_num ix)) rd_ColMeta) (\<lambda>cs s. Some (\<lparr>im_tab = im_tab ix,
        col_tot_len = col_tot_len ix, col_num = col_num ix, im_cols = cs\<rparr>, s))) [] ix"
      using cols Nil by (intro reads_ret_eq) auto
    then have "reads (bind_p rd_i32 (\<lambda>n. bind_p (rd_many (nat n) rd_ColMeta) (\<lambda>cs s. Some (\<lparr>im_tab = im_tab ix,
        col_tot_len = col_tot_len ix, col_num = n, im_cols = cs\<rparr>, s)))) (to_string (col_num ix)) ix"
      using ok by (intro reads_bind_empty [OF reads_i32]) auto
    then show ?thesis
      unfolding rd_IndexMeta_def put_IndexMeta_def using ok Nil
      by (auto intro!: reads_word_then reads_i32_then)
  next
    case (Cons c cs)
    have body: "reads (rd_many (nat (col_num ix)) rd_ColMeta)
        (put_ColMeta c @ concat (map (\<lambda>c. nl @ put_ColMeta c) cs)) (im_cols ix)"
      using cols Cons by (simp add: reads_def skip_ws_append)
    have ptext: "put_IndexMeta ix = im_tab ix @ sp @ to_string (col_tot_len ix) @ sp @ to_string (col_num ix) @ nl @
        (put_ColMeta c @ concat (map (\<lambda>c. nl @ put_ColMeta c) cs))"
      by (simp add: put_IndexMeta_def Cons)
    show ?thesis
      unfolding rd_IndexMeta_def ptext
      by (intro reads_word_then reads_i32_then reads_ret_eq [OF body] spaces) (use ok in auto)
  qed
qed

lemma reads_indexes: "list_all index_ok ixs \<Longrightarrow> list_all2 (reads rd_IndexMeta) (map put_IndexMeta ixs) ixs"
  by (induction ixs) (auto intro: reads_index)

lemma reads_tab:
  assumes "tab_ok t"
  shows "reads rd_TabMeta (put_TabMeta t) t"
proof -
  note ok = assms [unfolded tab_ok_def]
  have cols: "reads_all (rd_many (length (tm_cols t)) rd_ColMeta) (concat (map (\<lambda>c. put_ColMeta c @ nl) (tm_cols t))) (tm_cols t)"
    using reads_many_after [OF reads_cols [of "tm_cols t"]] ok by (simp add: comp_def)
  have ixs: "reads_all (rd_many (length (tm_indexes t)) rd_IndexMeta)
      (concat (map (\<lambda>ix. put_IndexMeta ix @ nl) (tm_indexes t))) (tm_indexes t)"
    using reads_many_after [OF reads_indexes [of "tm_indexes t"]] ok by (simp add: comp_def)
  show ?thesis
    unfolding rd_TabMeta_def put_TabMeta_def
    by (intro reads_word_then reads_size_then reads_bind_all [OF cols] reads_ret_eq [OF reads_all_reads [OF ixs]] spaces)
      (use ok in auto)
qed

lemma reads_tabs: "list_all (\<lambda>(k, t). k = tm_name t \<and> tab_ok t) es \<Longrightarrow>
    list_all2 (reads rd_TabMeta) (map (\<lambda>e. put_TabMeta (snd e)) es) (map snd es)"
  by (induction es) (auto intro: reads_tab)

lemma fold_smap_set:
  "smap_ok (m @ es) \<Longrightarrow> list_all (\<lambda>(k, t). k = tm_name t \<and> tab_ok t) es \<Longrightarrow>
     fold (\<lambda>t m. smap_set (tm_name t) t m) (map snd es) m = m @ es"
proof (induction es arbitrary: m)
  case (Cons e es)
  obtain k t where e: "e = (k, t)" "k = tm_name t" using Cons.prems(2) by (cases e) auto
  have "smap_ok (m @ [(k, t)])" using Cons.prems(1) e by (auto simp: smap_ok_def sorted_wrt_append)
  then have "smap_set k t m = m @ [(k, t)]" by (rule smap_set_last)
  with Cons.IH [of "m @ [(k, t)]"] Cons.prems e show ?case by simp
qed simp

lemma reads_db:
  assumes "db_ok db"
  shows "reads rd_DbMeta (put_DbMeta db) db"
proof -
  note ok = assms [unfolded db_ok_def]
  have ts: "reads_all (rd_many (length (tabs db)) rd_TabMeta) (concat (map (\<lambda>e. put_TabMeta (snd e) @ nl) (tabs db))) (map snd (tabs db))"
    using reads_many_after [OF reads_tabs [of "tabs db"]] ok by (simp add: comp_def)
  have fold: "fold (\<lambda>t m. smap_set (tm_name t) t m) (map snd (tabs db)) [] = tabs db"
    using fold_smap_set [of "[]" "tabs db"] ok by simp
  show ?thesis
    unfolding rd_DbMeta_def put_DbMeta_def
    by (intro reads_word_then reads_size_then reads_ret_eq [OF reads_all_reads [OF ts]] spaces) (use ok fold in auto)
qed

section \<open>Properties\<close>

text \<open>
  C25: The catalogue survives being written to and read from the metadata file: reading the text of any
  catalogue whose names are nonempty and free of white space, whose numbers fit their types and whose
  tables are filed under their names yields the same catalogue, tables, columns and indexes included.
\<close>

theorem db_meta_roundtrip:
  assumes "db_ok db"
  shows "\<exists>rest. rd_DbMeta (put_DbMeta db) = Some (db, rest) \<and> skip_ws rest = []"
  using reads_db [OF assms] unfolding reads_def
  by (metis append_Nil2 ends_def skip_ws_def dropWhile.simps(1))

definition sample_col :: "string \<Rightarrow> string \<Rightarrow> ColType \<Rightarrow> int \<Rightarrow> int \<Rightarrow> bool \<Rightarrow> ColMeta" where
  "sample_col t n ty len off ix =
     \<lparr>cm_tab = t, cm_name = n, cm_type = ty, cm_len = len, cm_offset = off, cm_index = ix\<rparr>"

definition sample_tab :: TabMeta where
  "sample_tab = \<lparr>tm_name = ''t'',
     tm_cols = [sample_col ''t'' ''id'' TYPE_INT 4 0 True, sample_col ''t'' ''name'' TYPE_STRING 4 4 False],
     tm_indexes = [\<lparr>im_tab = ''t'', col_tot_len = 4, col_num = 1, im_cols = [sample_col ''t'' ''id'' TYPE_INT 4 0 True]\<rparr>]\<rparr>"

definition sample_db :: DbMeta where
  "sample_db = \<lparr>db_name = ''db'', tabs = [(''t'', sample_tab)]\<rparr>"

lemma sample_db_ok: "db_ok sample_db"
  by (simp add: db_ok_def sample_db_def sample_tab_def sample_col_def tab_ok_def index_ok_def col_ok_def word_ok_def
      is_space_def smap_ok_def int32_range_def)

theorem db_meta_roundtrip_witness:
  "\<exists>rest. rd_DbMeta (put_DbMeta sample_db) = Some (sample_db, rest) \<and> skip_ws rest = []"
  by (rule db_meta_roundtrip [OF sample_db_ok])

end
