(* ===== verification/Exec_Defs.thy ===== *)
theory Exec_Defs
  imports Sm_Meta
begin

text \<open>
  Conditions on records (\<^verbatim>\<open>execution/execution_defs.h\<close>), and their meaning in terms of the order of
  \<open>Rmdb_Values\<close>: \<open>holds\<close> compares the keys of the two operands.
\<close>

section \<open>Evaluation\<close>

definition find_col_meta :: "ColMeta list \<Rightarrow> TabCol \<Rightarrow> rmdb_error + ColMeta" where
  "find_col_meta cols target =
     (case find (\<lambda>col. cm_tab col = tc_tab target \<and> cm_name col = tc_col target) cols of
        None \<Rightarrow> Inl (ColumnNotFoundError (tc_tab target @ ''.'' @ tc_col target))
      | Some col \<Rightarrow> Inr col)"

definition eval_condition :: "ColMeta list \<Rightarrow> Condition \<Rightarrow> byte list \<Rightarrow> rmdb_error + bool" where
  "eval_condition cols cond rec =
     bind_r (find_col_meta cols (lhs_col cond)) (\<lambda>lcol.
     bind_r (if is_rhs_val cond
             then (case raw (rhs_val cond) of
                     None \<Rightarrow> Inl (InternalError ''Condition RHS value is not initialized'')
                   | Some bs \<Rightarrow> Inr bs)
             else bind_r (find_col_meta cols (rhs_col cond)) (\<lambda>rcol. Inr (drop (nat (cm_offset rcol)) rec))) (\<lambda>rhs.
     Inr (eval_compare (compare_raw_value (drop (nat (cm_offset lcol)) rec) rhs (cm_type lcol) (cm_len lcol)) (cond_op cond))))"

fun eval_conditions :: "ColMeta list \<Rightarrow> Condition list \<Rightarrow> byte list \<Rightarrow> rmdb_error + bool" where
  "eval_conditions cols [] rec = Inr True"
| "eval_conditions cols (cond # conds) rec =
     bind_r (eval_condition cols cond rec) (\<lambda>b. if \<not> b then Inr False else eval_conditions cols conds rec)"

section \<open>Meaning\<close>

text \<open>The lengths the numeric types have, and columns that lie within a record.\<close>

definition len_ok :: "ColType \<Rightarrow> int \<Rightarrow> bool" where
  "len_ok ty len \<longleftrightarrow> (case ty of TYPE_INT \<Rightarrow> len = 4 | TYPE_FLOAT \<Rightarrow> len = 4 | TYPE_BIGINT \<Rightarrow> len = 8
                      | TYPE_DATETIME \<Rightarrow> len = 8 | TYPE_STRING \<Rightarrow> 0 \<le> len)"

definition col_fits :: "nat \<Rightarrow> ColMeta \<Rightarrow> bool" where
  "col_fits n col \<longleftrightarrow> len_ok (cm_type col) (cm_len col) \<and> 0 \<le> cm_offset col \<and> cm_offset col + cm_len col \<le> int n"

lemma len_ok_nonneg: "len_ok ty len \<Longrightarrow> 0 \<le> len"
  by (auto simp: len_ok_def split: ColType.splits)

lemma raw_key_take: "len_ok ty len \<Longrightarrow> raw_key ty len (take (nat len) bs) = raw_key ty len bs"
  by (cases ty) (simp_all add: len_ok_def raw_key_def raw_i32_def raw_i64_def raw_float_def c_string_def)

lemma raw_ok_take: "len_ok ty len \<Longrightarrow> raw_ok ty (take (nat len) bs) = raw_ok ty bs"
  by (cases ty) (simp_all add: len_ok_def raw_ok_def raw_float_def)

lemma raw_key_append:
  assumes "len_ok ty len" and "length a = nat len"
  shows "raw_key ty len (a @ b) = raw_key ty len a" "raw_ok ty (a @ b) = raw_ok ty a"
  using raw_key_take [OF assms(1), of "a @ b"] raw_ok_take [OF assms(1), of "a @ b"] assms(2) by simp_all

text \<open>The field of a record that a column names, as a key.\<close>

definition field_key :: "ColMeta \<Rightarrow> byte list \<Rightarrow> int list" where
  "field_key col rec = raw_key (cm_type col) (cm_len col) (drop (nat (cm_offset col)) rec)"

definition field_fine :: "ColMeta \<Rightarrow> byte list \<Rightarrow> bool" where
  "field_fine col rec \<longleftrightarrow> raw_ok (cm_type col) (drop (nat (cm_offset col)) rec)"

fun holds :: "CompOp \<Rightarrow> int list \<Rightarrow> int list \<Rightarrow> bool" where
  "holds OP_EQ a b = (a = b)"
| "holds OP_NE a b = (a \<noteq> b)"
| "holds OP_LT a b = (a < b)"
| "holds OP_GT a b = (a > b)"
| "holds OP_LE a b = (a \<le> b)"
| "holds OP_GE a b = (a \<ge> b)"

lemma eval_compare_holds:
  assumes "raw_ok ty a" and "raw_ok ty b"
  shows "eval_compare (compare_raw_value a b ty len) op = holds op (raw_key ty len a) (raw_key ty len b)"
  using compare_raw_value_iff [OF assms, of len] by (cases op) (auto simp: not_less [symmetric])

lemma find_col_meta_Inr:
  "find_col_meta cols c = Inr col \<Longrightarrow> col \<in> set cols \<and> cm_tab col = tc_tab c \<and> cm_name col = tc_col c"
  by (auto simp: find_col_meta_def find_Some_iff split: option.splits)

lemma eval_conditions_Inr_True:
  "eval_conditions cols conds rec = Inr True \<longleftrightarrow> (\<forall>c\<in>set conds. eval_condition cols c rec = Inr True)"
  by (induction conds) (auto simp: bind_r_Inr_iff)

text \<open>A condition with a value on the right, on a record of which the column is no NaN.\<close>

lemma eval_value_condition:
  assumes "find_col_meta cols (lhs_col cond) = Inr col" and "is_rhs_val cond" and "raw (rhs_val cond) = Some bs"
    and "field_fine col rec" and "raw_ok (cm_type col) bs"
  shows "eval_condition cols cond rec = Inr (holds (cond_op cond) (field_key col rec) (raw_key (cm_type col) (cm_len col) bs))"
  using assms by (simp add: eval_condition_def field_key_def field_fine_def eval_compare_holds)

lemma eval_column_condition:
  assumes "find_col_meta cols (lhs_col cond) = Inr col" and "\<not> is_rhs_val cond"
    and "find_col_meta cols (rhs_col cond) = Inr col'" and "cm_type col' = cm_type col"
    and "field_fine col rec" and "field_fine col' rec"
  shows "eval_condition cols cond rec =
    Inr (holds (cond_op cond) (field_key col rec) (raw_key (cm_type col) (cm_len col) (drop (nat (cm_offset col')) rec)))"
  using assms by (simp add: eval_condition_def field_key_def field_fine_def eval_compare_holds)

end
