(* ===== verification/Runtime_Index.thy ===== *)
theory Runtime_Index
  imports Exec_Defs "HOL-Library.Multiset"
begin

text \<open>
  The in-memory indexes of \<^verbatim>\<open>SmManager\<close> (\<^verbatim>\<open>system/sm_manager.cpp\<close>): keys, their comparison, the sorted
  vector of entries, its searches and updates, and the range scan that turns conditions into bounds.
\<close>

section \<open>Entries and keys\<close>

record RuntimeIndexEntry =
  ie_key :: "byte list"
  ie_rid :: Rid

record RuntimeIndex =
  ri_meta :: IndexMeta
  ri_entries :: "RuntimeIndexEntry list"

definition runtime_index_name :: "string \<Rightarrow> string list \<Rightarrow> string" where
  "runtime_index_name tab names = tab @ concat (map (\<lambda>c. ''#'' @ c) names)"

definition index_name :: "IndexMeta \<Rightarrow> string" where
  "index_name index = runtime_index_name (im_tab index) (map cm_name (im_cols index))"

definition col_bytes :: "ColMeta \<Rightarrow> byte list \<Rightarrow> byte list" where
  "col_bytes col rec = take (nat (cm_len col)) (drop (nat (cm_offset col)) rec)"

definition make_index_key :: "IndexMeta \<Rightarrow> byte list \<Rightarrow> byte list" where
  "make_index_key index rec = concat (map (\<lambda>col. col_bytes col rec) (im_cols index))"

text \<open>The loop of \<^verbatim>\<open>compare_index_key\<close> over the columns, with the pointers moved along.\<close>

fun compare_cols :: "ColMeta list \<Rightarrow> byte list \<Rightarrow> byte list \<Rightarrow> int" where
  "compare_cols [] lhs rhs = 0"
| "compare_cols (col # cols) lhs rhs =
     (let c = compare_raw_value lhs rhs (cm_type col) (cm_len col) in
      if c \<noteq> 0 then c
      else compare_cols cols (drop (nat (cm_len col)) lhs) (drop (nat (cm_len col)) rhs))"

definition compare_index_key :: "IndexMeta \<Rightarrow> byte list \<Rightarrow> byte list \<Rightarrow> int \<Rightarrow> int" where
  "compare_index_key index lhs rhs n =
     (let k = (if n < 0 then col_num index else n) in compare_cols (take (nat k) (im_cols index)) lhs rhs)"

definition key_equal :: "IndexMeta \<Rightarrow> byte list \<Rightarrow> byte list \<Rightarrow> bool" where
  "key_equal index lhs rhs \<longleftrightarrow> compare_index_key index lhs rhs (- 1) = 0"

section \<open>Searching and sorting\<close>

text \<open>
  The binary search of the standard library: the first position of the vector at which the predicate,
  which holds on a prefix, does not hold. \<^verbatim>\<open>std::lower_bound\<close> and \<^verbatim>\<open>std::upper_bound\<close> are its two uses.
\<close>

function search_from :: "('a \<Rightarrow> bool) \<Rightarrow> 'a list \<Rightarrow> nat \<Rightarrow> nat \<Rightarrow> nat" where
  "search_from P xs first len =
     (if len = 0 then first
      else let half = len div 2; middle = first + half in
           if P (xs ! middle) then search_from P xs (middle + 1) (len - half - 1)
           else search_from P xs first half)"
  by auto
termination by (relation "measure (\<lambda>(_, _, _, len). len)") auto

declare search_from.simps [simp del]

definition partition_point :: "('a \<Rightarrow> bool) \<Rightarrow> 'a list \<Rightarrow> nat" where
  "partition_point P xs = search_from P xs 0 (length xs)"

text \<open>\<^verbatim>\<open>std::sort\<close> with the comparison of \<^verbatim>\<open>sort_runtime_index\<close>: by key, then by record id.\<close>

definition entry_less :: "IndexMeta \<Rightarrow> RuntimeIndexEntry \<Rightarrow> RuntimeIndexEntry \<Rightarrow> bool" where
  "entry_less index a b =
     (let c = compare_index_key index (ie_key a) (ie_key b) (- 1) in
      if c \<noteq> 0 then c < 0
      else page_no (ie_rid a) < page_no (ie_rid b) \<or>
           page_no (ie_rid a) = page_no (ie_rid b) \<and> slot_no (ie_rid a) < slot_no (ie_rid b))"

fun insert_by :: "('a \<Rightarrow> 'a \<Rightarrow> bool) \<Rightarrow> 'a \<Rightarrow> 'a list \<Rightarrow> 'a list" where
  "insert_by lt x [] = [x]"
| "insert_by lt x (y # ys) = (if lt y x then y # insert_by lt x ys else x # y # ys)"

definition sort_by :: "('a \<Rightarrow> 'a \<Rightarrow> bool) \<Rightarrow> 'a list \<Rightarrow> 'a list" where
  "sort_by lt xs = foldr (insert_by lt) xs []"

definition sort_runtime_index :: "RuntimeIndex \<Rightarrow> RuntimeIndex" where
  "sort_runtime_index ri = ri\<lparr>ri_entries := sort_by (entry_less (ri_meta ri)) (ri_entries ri)\<rparr>"

text \<open>The position of a key: the first entry whose key is not smaller.\<close>

definition key_position :: "IndexMeta \<Rightarrow> byte list \<Rightarrow> RuntimeIndexEntry list \<Rightarrow> nat" where
  "key_position index key es = partition_point (\<lambda>e. compare_index_key index (ie_key e) key (- 1) < 0) es"

section \<open>Updates of one index\<close>

text \<open>\<^verbatim>\<open>check_index_insert\<close> for one index; a null \<^verbatim>\<open>self\<close> is \<open>None\<close>.\<close>

definition duplicate_key :: "IndexMeta \<Rightarrow> RuntimeIndex \<Rightarrow> byte list \<Rightarrow> Rid option \<Rightarrow> bool" where
  "duplicate_key index ri key self =
     (let es = ri_entries ri; it = key_position index key es in
      it < length es \<and> key_equal index (ie_key (es ! it)) key \<and>
      (case self of None \<Rightarrow> True | Some rid \<Rightarrow> ie_rid (es ! it) \<noteq> rid))"

definition insert_entry :: "IndexMeta \<Rightarrow> byte list \<Rightarrow> Rid \<Rightarrow> RuntimeIndex \<Rightarrow> RuntimeIndex" where
  "insert_entry index key rid ri =
     (let es = ri_entries ri; it = key_position index key es in
      ri\<lparr>ri_entries := take it es @ \<lparr>ie_key = key, ie_rid = rid\<rparr> # drop it es\<rparr>)"

text \<open>The loop of \<^verbatim>\<open>delete_index_entries\<close> from the position of the key on.\<close>

fun erase_equal :: "IndexMeta \<Rightarrow> byte list \<Rightarrow> Rid \<Rightarrow> RuntimeIndexEntry list \<Rightarrow> RuntimeIndexEntry list" where
  "erase_equal index key rid [] = []"
| "erase_equal index key rid (e # es) =
     (if \<not> key_equal index (ie_key e) key then e # es
      else if ie_rid e = rid then es
      else e # erase_equal index key rid es)"

definition delete_entry :: "IndexMeta \<Rightarrow> byte list \<Rightarrow> Rid \<Rightarrow> RuntimeIndex \<Rightarrow> RuntimeIndex" where
  "delete_entry index key rid ri =
     (let es = ri_entries ri; it = key_position index key es in
      ri\<lparr>ri_entries := take it es @ erase_equal index key rid (drop it es)\<rparr>)"

section \<open>Range scans\<close>

text \<open>A bound: the key, how many columns of it count, and whether it is inclusive.\<close>

record key_bound =
  b_key :: "byte list"
  b_cols :: int
  b_incl :: bool

definition no_bound :: key_bound where
  "no_bound = \<lparr>b_key = [], b_cols = 0, b_incl = True\<rparr>"

definition better_lower :: "IndexMeta \<Rightarrow> byte list \<Rightarrow> bool \<Rightarrow> byte list \<Rightarrow> bool \<Rightarrow> int \<Rightarrow> bool" where
  "better_lower index lhs lhs_inclusive rhs rhs_inclusive cols =
     (let c = compare_index_key index lhs rhs cols in c > 0 \<or> (c = 0 \<and> \<not> lhs_inclusive \<and> rhs_inclusive))"

definition better_upper :: "IndexMeta \<Rightarrow> byte list \<Rightarrow> bool \<Rightarrow> byte list \<Rightarrow> bool \<Rightarrow> int \<Rightarrow> bool" where
  "better_upper index lhs lhs_inclusive rhs rhs_inclusive cols =
     (let c = compare_index_key index lhs rhs cols in c < 0 \<or> (c = 0 \<and> \<not> lhs_inclusive \<and> rhs_inclusive))"

text \<open>A condition compares a column of the index with a value.\<close>

definition cond_on :: "string \<Rightarrow> ColMeta \<Rightarrow> Condition \<Rightarrow> bool" where
  "cond_on tab col cond \<longleftrightarrow> is_rhs_val cond \<and> tc_tab (lhs_col cond) = tab \<and> tc_col (lhs_col cond) = cm_name col"

definition rhs_bytes :: "ColMeta \<Rightarrow> Condition \<Rightarrow> byte list" where
  "rhs_bytes col cond = take (nat (cm_len col)) (the (raw (rhs_val cond)))"

text \<open>One round of the loop that takes the bounds from the range conditions on a column.\<close>

definition range_step :: "IndexMeta \<Rightarrow> string \<Rightarrow> ColMeta \<Rightarrow> int \<Rightarrow> byte list \<Rightarrow> Condition \<Rightarrow> key_bound \<times> key_bound \<Rightarrow> key_bound \<times> key_bound" where
  "range_step index tab col bound_cols eq_prefix cond = (\<lambda>(lo, up).
     if \<not> cond_on tab col cond then (lo, up)
     else if cond_op cond \<noteq> OP_LT \<and> cond_op cond \<noteq> OP_LE \<and> cond_op cond \<noteq> OP_GT \<and> cond_op cond \<noteq> OP_GE then (lo, up)
     else
       let bound = eq_prefix @ rhs_bytes col cond in
       if cond_op cond = OP_GT \<or> cond_op cond = OP_GE
       then let incl = (cond_op cond = OP_GE) in
            if b_cols lo = 0 \<or> better_lower index bound incl (b_key lo) (b_incl lo) bound_cols
            then (\<lparr>b_key = bound, b_cols = bound_cols, b_incl = incl\<rparr>, up) else (lo, up)
       else let incl = (cond_op cond = OP_LE) in
            if b_cols up = 0 \<or> better_upper index bound incl (b_key up) (b_incl up) bound_cols
            then (lo, \<lparr>b_key = bound, b_cols = bound_cols, b_incl = incl\<rparr>) else (lo, up))"

text \<open>The loop over the columns of the index: equality conditions extend the prefix, the first column without one ends it.\<close>

fun collect_bounds ::
  "IndexMeta \<Rightarrow> string \<Rightarrow> Condition list \<Rightarrow> ColMeta list \<Rightarrow> byte list \<Rightarrow> int \<Rightarrow> byte list \<times> int \<times> key_bound \<times> key_bound" where
  "collect_bounds index tab conds [] eq_prefix eq_cols = (eq_prefix, eq_cols, no_bound, no_bound)"
| "collect_bounds index tab conds (col # cols) eq_prefix eq_cols =
     (case find (\<lambda>cond. cond_on tab col cond \<and> cond_op cond = OP_EQ) conds of
        Some cond \<Rightarrow> collect_bounds index tab conds cols (eq_prefix @ rhs_bytes col cond) (eq_cols + 1)
      | None \<Rightarrow>
          (case fold (range_step index tab col (eq_cols + 1) eq_prefix) conds (no_bound, no_bound) of
             (lo, up) \<Rightarrow> (eq_prefix, eq_cols, lo, up)))"

definition scan_bounds :: "IndexMeta \<Rightarrow> string \<Rightarrow> Condition list \<Rightarrow> key_bound \<times> key_bound" where
  "scan_bounds index tab conds =
     (case collect_bounds index tab conds (take (nat (col_num index)) (im_cols index)) [] 0 of
        (eq_prefix, eq_cols, lo, up) \<Rightarrow>
          (if eq_cols > 0 \<and> b_cols lo = 0 then \<lparr>b_key = eq_prefix, b_cols = eq_cols, b_incl = True\<rparr> else lo,
           if eq_cols > 0 \<and> b_cols up = 0 then \<lparr>b_key = eq_prefix, b_cols = eq_cols, b_incl = True\<rparr> else up))"

definition scan_entries :: "IndexMeta \<Rightarrow> key_bound \<Rightarrow> key_bound \<Rightarrow> RuntimeIndexEntry list \<Rightarrow> Rid list" where
  "scan_entries index lo up es =
     (let first =
        (if b_cols lo > 0
         then if b_incl lo
              then partition_point (\<lambda>e. compare_index_key index (ie_key e) (b_key lo) (b_cols lo) < 0) es
              else partition_point (\<lambda>e. \<not> compare_index_key index (b_key lo) (ie_key e) (b_cols lo) < 0) es
         else 0);
      last =
        (if b_cols up > 0
         then if b_incl up
              then partition_point (\<lambda>e. \<not> compare_index_key index (b_key up) (ie_key e) (b_cols up) < 0) es
              else partition_point (\<lambda>e. compare_index_key index (ie_key e) (b_key up) (b_cols up) < 0) es
         else length es)
      in map ie_rid (take (last - first) (drop first es)))"

definition scan_runtime_index :: "RuntimeIndex \<Rightarrow> string \<Rightarrow> Condition list \<Rightarrow> Rid list" where
  "scan_runtime_index ri tab conds =
     (case scan_bounds (ri_meta ri) tab conds of (lo, up) \<Rightarrow> scan_entries (ri_meta ri) lo up (ri_entries ri))"

section \<open>The search finds the partition point\<close>

lemma search_from_point:
  assumes "first \<le> k" and "k \<le> first + len" and "\<And>i. first \<le> i \<Longrightarrow> i < first + len \<Longrightarrow> P (xs ! i) \<longleftrightarrow> i < k"
  shows "search_from P xs first len = k"
  using assms
proof (induction P xs first len rule: search_from.induct)
  case (1 P xs first len)
  show ?case
  proof (cases "len = 0")
    case True
    with 1(3,4) show ?thesis by (simp add: search_from.simps)
  next
    case False
    let ?half = "len div 2"
    have mid: "P (xs ! (first + ?half)) \<longleftrightarrow> first + ?half < k" using 1(5) [of "first + ?half"] False by simp
    show ?thesis
    proof (cases "first + ?half < k")
      case True
      have "search_from P xs (first + ?half + 1) (len - ?half - 1) = k"
        using 1(3-5) False True by (intro 1(1) [OF False refl refl]) (auto simp: mid)
      with False True mid show ?thesis by (subst search_from.simps) (simp add: Let_def)
    next
      case nk: False
      have "search_from P xs first ?half = k"
        using 1(3-5) False nk by (intro 1(2) [OF False refl refl]) (auto simp: mid)
      with False nk mid show ?thesis by (subst search_from.simps) (simp add: Let_def)
    qed
  qed
qed

lemma partition_point_takeWhile:
  assumes "\<And>i j. i < j \<Longrightarrow> j < length xs \<Longrightarrow> P (xs ! j) \<Longrightarrow> P (xs ! i)"
  shows "partition_point P xs = length (takeWhile P xs)"
proof -
  let ?k = "length (takeWhile P xs)"
  have "P (xs ! i) \<longleftrightarrow> i < ?k" if "i < length xs" for i
  proof
    assume "i < ?k"
    then show "P (xs ! i)" by (metis nth_mem set_takeWhileD takeWhile_nth)
  next
    assume p: "P (xs ! i)"
    show "i < ?k"
    proof (rule ccontr)
      assume "\<not> i < ?k"
      then have "\<not> P (xs ! ?k)" "?k \<le> i" using nth_length_takeWhile [of P xs] that by linarith+
      with p assms [of ?k i] that show False by (cases "?k = i") auto
    qed
  qed
  then show ?thesis
    unfolding partition_point_def by (intro search_from_point) (simp_all add: length_takeWhile_le)
qed

section \<open>Keys as lists\<close>

fun ikey :: "ColMeta list \<Rightarrow> byte list \<Rightarrow> int list list" where
  "ikey [] bs = []"
| "ikey (c # cs) bs = raw_key (cm_type c) (cm_len c) bs # ikey cs (drop (nat (cm_len c)) bs)"

fun key_fine :: "ColMeta list \<Rightarrow> byte list \<Rightarrow> bool" where
  "key_fine [] bs = True"
| "key_fine (c # cs) bs = (raw_ok (cm_type c) bs \<and> key_fine cs (drop (nat (cm_len c)) bs))"

lemma sgn_compare_cols:
  "key_fine cs a \<Longrightarrow> key_fine cs b \<Longrightarrow>
     sgn (compare_cols cs a b) = (if ikey cs a < ikey cs b then - 1 else if ikey cs a = ikey cs b then 0 else 1)"
proof (induction cs arbitrary: a b)
  case (Cons c cs)
  note iff = compare_raw_value_iff [of "cm_type c" a b "cm_len c"]
  have ok: "raw_ok (cm_type c) a" "raw_ok (cm_type c) b" using Cons.prems by auto
  show ?case
  proof (cases "compare_raw_value a b (cm_type c) (cm_len c)" "0 :: int" rule: linorder_cases)
    case equal
    then show ?thesis using iff [OF ok] Cons by (simp add: Let_def)
  qed (use iff [OF ok] in \<open>auto simp: Let_def sgn_if\<close>)
qed simp

lemma compare_cols_iff:
  assumes "key_fine cs a" and "key_fine cs b"
  shows "compare_cols cs a b < 0 \<longleftrightarrow> ikey cs a < ikey cs b"
    and "compare_cols cs a b = 0 \<longleftrightarrow> ikey cs a = ikey cs b"
    and "compare_cols cs a b > 0 \<longleftrightarrow> ikey cs a > ikey cs b"
  using sgn_compare_cols [OF assms] by (auto simp: sgn_if linorder_neq_iff split: if_splits)

lemma length_ikey [simp]: "length (ikey cs bs) = length cs"
  by (induction cs arbitrary: bs) auto

lemma ikey_take: "ikey (take n cs) bs = take n (ikey cs bs)"
  by (induction cs arbitrary: bs n) (auto simp: take_Cons' )

lemma key_fine_take: "key_fine cs bs \<Longrightarrow> key_fine (take n cs) bs"
  by (induction cs arbitrary: bs n) (auto simp: take_Cons')

lemma take_mono_lex: "xs \<le> (ys :: 'a :: linorder list) \<Longrightarrow> take n xs \<le> take n ys"
proof (induction xs arbitrary: ys n)
  case (Cons x xs)
  then obtain y ys' where "ys = y # ys'" by (cases ys) auto
  with Cons show ?case by (cases n) auto
qed simp

lemma lex_append_same: "(zs @ xs < zs @ ys) = (xs < (ys :: 'a :: linorder list))"
  by (induction zs) auto

definition ix_wf :: "IndexMeta \<Rightarrow> bool" where
  "ix_wf ix \<longleftrightarrow> col_num ix = int (length (im_cols ix))"

definition ekey :: "IndexMeta \<Rightarrow> RuntimeIndexEntry \<Rightarrow> int list list" where
  "ekey ix e = ikey (im_cols ix) (ie_key e)"

text \<open>The entries of an index in order.\<close>

definition ordered :: "IndexMeta \<Rightarrow> RuntimeIndexEntry list \<Rightarrow> bool" where
  "ordered ix es \<longleftrightarrow> sorted (map (ekey ix) es) \<and> (\<forall>e\<in>set es. key_fine (im_cols ix) (ie_key e))"

lemma compare_full:
  assumes "ix_wf ix" and "key_fine (im_cols ix) a" and "key_fine (im_cols ix) b"
  shows "compare_index_key ix a b (- 1) < 0 \<longleftrightarrow> ikey (im_cols ix) a < ikey (im_cols ix) b"
    and "key_equal ix a b \<longleftrightarrow> ikey (im_cols ix) a = ikey (im_cols ix) b"
    and "compare_index_key ix a b (- 1) \<noteq> 0 \<longleftrightarrow> ikey (im_cols ix) a \<noteq> ikey (im_cols ix) b"
  using compare_cols_iff [OF assms(2,3)] assms(1)
  by (simp_all add: compare_index_key_def key_equal_def ix_wf_def)

lemma ordered_nth_le: "ordered ix es \<Longrightarrow> i < j \<Longrightarrow> j < length es \<Longrightarrow> ekey ix (es ! i) \<le> ekey ix (es ! j)"
  unfolding ordered_def using sorted_nth_mono [of "map (ekey ix) es" i j] by simp

lemma key_position_eq:
  assumes "ix_wf ix" and "ordered ix es" and "key_fine (im_cols ix) key"
  shows "key_position ix key es = length (takeWhile (\<lambda>e. ekey ix e < ikey (im_cols ix) key) es)"
proof -
  have c: "compare_index_key ix (ie_key e) key (- 1) < 0 \<longleftrightarrow> ekey ix e < ikey (im_cols ix) key" if "e \<in> set es" for e
    using that assms compare_full(1) by (simp add: ordered_def ekey_def)
  have "key_position ix key es = length (takeWhile (\<lambda>e. compare_index_key ix (ie_key e) key (- 1) < 0) es)"
    unfolding key_position_def
  proof (rule partition_point_takeWhile)
    fix i j assume ij: "i < j" "j < length es" "compare_index_key ix (ie_key (es ! j)) key (- 1) < 0"
    have "ekey ix (es ! i) \<le> ekey ix (es ! j)" by (rule ordered_nth_le [OF assms(2) ij(1,2)])
    also have "\<dots> < ikey (im_cols ix) key" using c [of "es ! j"] ij by simp
    finally show "compare_index_key ix (ie_key (es ! i)) key (- 1) < 0" using c [of "es ! i"] ij by simp
  qed
  also have "takeWhile (\<lambda>e. compare_index_key ix (ie_key e) key (- 1) < 0) es = takeWhile (\<lambda>e. ekey ix e < ikey (im_cols ix) key) es"
    using c by (intro takeWhile_cong) auto
  finally show ?thesis .
qed

section \<open>Inserting, deleting and sorting\<close>

lemma key_position_split:
  assumes "ix_wf ix" and "ordered ix es" and "key_fine (im_cols ix) key"
  shows "take (key_position ix key es) es = takeWhile (\<lambda>e. ekey ix e < ikey (im_cols ix) key) es"
    and "drop (key_position ix key es) es = dropWhile (\<lambda>e. ekey ix e < ikey (im_cols ix) key) es"
  unfolding key_position_eq [OF assms] by (simp_all add: takeWhile_eq_take [symmetric] dropWhile_eq_drop [symmetric])

lemma sorted_dropWhile_ge:
  fixes f :: "'a \<Rightarrow> 'b :: linorder"
  assumes "sorted (map f es)" and "e \<in> set (dropWhile (\<lambda>e. f e < k) es)"
  shows "k \<le> f e"
  using assms by (induction es) (auto split: if_splits)

lemma ordered_append:
  "ordered ix (xs @ ys) \<longleftrightarrow> ordered ix xs \<and> ordered ix ys \<and> (\<forall>x\<in>set xs. \<forall>y\<in>set ys. ekey ix x \<le> ekey ix y)"
  by (auto simp: ordered_def sorted_append)

lemma ordered_Cons:
  "ordered ix (x # xs) \<longleftrightarrow> key_fine (im_cols ix) (ie_key x) \<and> (\<forall>y\<in>set xs. ekey ix x \<le> ekey ix y) \<and> ordered ix xs"
  by (auto simp: ordered_def)

lemma ordered_filter: "ordered ix es \<Longrightarrow> ordered ix (filter P es)"
  by (auto simp: ordered_def sorted_filter)

lemma insert_entry_split:
  assumes "ix_wf ix" and "ordered ix (ri_entries ri)" and "key_fine (im_cols ix) key"
  obtains xs ys where "ri_entries ri = xs @ ys"
    "insert_entry ix key rid ri = ri\<lparr>ri_entries := xs @ \<lparr>ie_key = key, ie_rid = rid\<rparr> # ys\<rparr>"
    "ordered ix (xs @ \<lparr>ie_key = key, ie_rid = rid\<rparr> # ys)"
proof -
  let ?P = "\<lambda>e. ekey ix e < ikey (im_cols ix) key" and ?es = "ri_entries ri"
  let ?xs = "takeWhile ?P ?es" and ?ys = "dropWhile ?P ?es"
  note sp = key_position_split [OF assms]
  have o: "ordered ix ?xs" "ordered ix ?ys" "\<forall>x\<in>set ?xs. \<forall>y\<in>set ?ys. ekey ix x \<le> ekey ix y"
    using assms(2) ordered_append [of ix ?xs ?ys] by simp_all
  have lt: "x \<in> set ?xs \<Longrightarrow> ekey ix x \<le> ikey (im_cols ix) key" for x by (auto dest: set_takeWhileD)
  have ge: "y \<in> set ?ys \<Longrightarrow> ikey (im_cols ix) key \<le> ekey ix y" for y
    using assms(2) sorted_dropWhile_ge [of "ekey ix" ?es y] by (simp add: ordered_def)
  show thesis
  proof (rule that [of ?xs ?ys])
    show "insert_entry ix key rid ri = ri\<lparr>ri_entries := ?xs @ \<lparr>ie_key = key, ie_rid = rid\<rparr> # ?ys\<rparr>"
      by (simp add: insert_entry_def Let_def sp)
    show "ordered ix (?xs @ \<lparr>ie_key = key, ie_rid = rid\<rparr> # ?ys)"
      using o lt ge assms(3) by (simp add: ordered_append ordered_Cons ekey_def)
  qed simp
qed

lemma erase_equal_filter:
  assumes "ix_wf ix" and "ordered ix es" and "key_fine (im_cols ix) key" and "distinct (map ie_rid es)"
    and "\<And>e. e \<in> set es \<Longrightarrow> ikey (im_cols ix) key \<le> ekey ix e"
    and "\<And>e. e \<in> set es \<Longrightarrow> ie_rid e = rid \<Longrightarrow> ekey ix e = ikey (im_cols ix) key"
  shows "erase_equal ix key rid es = filter (\<lambda>e. ie_rid e \<noteq> rid) es"
  using assms(2,4-6)
proof (induction es)
  case (Cons e es)
  let ?k = "ikey (im_cols ix) key"
  have eq: "key_equal ix (ie_key e) key \<longleftrightarrow> ekey ix e = ?k"
    using compare_full(2) [OF assms(1) _ assms(3)] Cons.prems(1) by (simp add: ordered_Cons ekey_def)
  show ?case
  proof (cases "ekey ix e = ?k")
    case True
    have "rid \<notin> ie_rid ` set es" if "ie_rid e = rid" using Cons.prems(2) that by auto
    then have "filter (\<lambda>e. ie_rid e \<noteq> rid) es = es" if "ie_rid e = rid"
      using that by (intro filter_True) (metis imageI)
    moreover have "erase_equal ix key rid es = filter (\<lambda>e. ie_rid e \<noteq> rid) es"
      using Cons.prems by (intro Cons.IH) (auto simp: ordered_Cons)
    ultimately show ?thesis using True eq by auto
  next
    case False
    then have lt: "?k < ekey ix e" using Cons.prems(3) [of e] by simp
    have "ie_rid x \<noteq> rid" if x: "x \<in> set (e # es)" for x
    proof
      assume "ie_rid x = rid"
      then have "ekey ix x = ?k" by (rule Cons.prems(4) [OF x])
      moreover have "ekey ix e \<le> ekey ix x" using x Cons.prems(1) by (auto simp: ordered_Cons)
      ultimately show False using lt by simp
    qed
    then have "filter (\<lambda>e. ie_rid e \<noteq> rid) (e # es) = e # es" by (intro filter_True) blast
    then show ?thesis using False eq by simp
  qed
qed simp

lemma delete_entry_filter:
  assumes wf: "ix_wf ix" and o: "ordered ix (ri_entries ri)" and k: "key_fine (im_cols ix) key"
    and d: "distinct (map ie_rid (ri_entries ri))"
    and r: "\<And>e. e \<in> set (ri_entries ri) \<Longrightarrow> ie_rid e = rid \<Longrightarrow> ekey ix e = ikey (im_cols ix) key"
  shows "delete_entry ix key rid ri = ri\<lparr>ri_entries := filter (\<lambda>e. ie_rid e \<noteq> rid) (ri_entries ri)\<rparr>"
proof -
  let ?P = "\<lambda>e. ekey ix e < ikey (im_cols ix) key" and ?es = "ri_entries ri"
  note sp = key_position_split [OF wf o k]
  have app: "takeWhile ?P ?es @ dropWhile ?P ?es = ?es" by simp
  have o2: "ordered ix (dropWhile ?P ?es)" using o ordered_append [of ix "takeWhile ?P ?es" "dropWhile ?P ?es"] by simp
  have d2: "distinct (map ie_rid (dropWhile ?P ?es))"
    using d by (metis app distinct_append map_append)
  have "erase_equal ix key rid (dropWhile ?P ?es) = filter (\<lambda>e. ie_rid e \<noteq> rid) (dropWhile ?P ?es)"
  proof (rule erase_equal_filter [OF wf o2 k d2])
    fix e assume e: "e \<in> set (dropWhile ?P ?es)"
    show "ikey (im_cols ix) key \<le> ekey ix e" using o sorted_dropWhile_ge [OF _ e] by (simp add: ordered_def)
    show "ie_rid e = rid \<Longrightarrow> ekey ix e = ikey (im_cols ix) key" using r set_dropWhileD [OF e] by blast
  qed
  moreover have "filter (\<lambda>e. ie_rid e \<noteq> rid) (takeWhile ?P ?es) = takeWhile ?P ?es"
    using r by (intro filter_True) (auto dest!: set_takeWhileD)
  ultimately have "takeWhile ?P ?es @ erase_equal ix key rid (dropWhile ?P ?es) =
      filter (\<lambda>e. ie_rid e \<noteq> rid) (takeWhile ?P ?es @ dropWhile ?P ?es)" by (simp only: filter_append)
  then show ?thesis by (simp add: delete_entry_def Let_def sp)
qed

lemma mset_insert_by: "mset (insert_by lt x xs) = add_mset x (mset xs)"
  by (induction xs) auto

lemma mset_sort_by: "mset (sort_by lt xs) = mset xs"
  by (induction xs) (simp_all add: sort_by_def mset_insert_by)

lemma set_sort_by [simp]: "set (sort_by lt xs) = set xs"
  using mset_sort_by by (metis mset_eq_setD)

lemma entry_less_ekey:
  assumes "ix_wf ix" and "key_fine (im_cols ix) (ie_key a)" and "key_fine (im_cols ix) (ie_key b)"
  shows "entry_less ix a b \<Longrightarrow> ekey ix a \<le> ekey ix b" and "\<not> entry_less ix a b \<Longrightarrow> ekey ix b \<le> ekey ix a"
  using compare_full [OF assms] by (auto simp: entry_less_def ekey_def Let_def split: if_splits)

lemma ordered_insert_by:
  assumes "ix_wf ix" and "ordered ix es" and "key_fine (im_cols ix) (ie_key e)"
  shows "ordered ix (insert_by (entry_less ix) e es)"
  using assms(2)
proof (induction es)
  case (Cons a es)
  have s: "set (insert_by (entry_less ix) e es) = insert e (set es)"
    using mset_insert_by [of "entry_less ix" e es] by (metis set_mset_add_mset_insert set_mset_mset)
  have f: "key_fine (im_cols ix) (ie_key a)" using Cons.prems by (simp add: ordered_Cons)
  show ?case
    using Cons entry_less_ekey [OF assms(1) f assms(3)] assms(3) by (auto simp: ordered_Cons s intro: order_trans)
qed (simp add: assms(3) ordered_def)

lemma ordered_sort_by:
  assumes "ix_wf ix" and "\<And>e. e \<in> set es \<Longrightarrow> key_fine (im_cols ix) (ie_key e)"
  shows "ordered ix (sort_by (entry_less ix) es)"
  using assms(2)
proof (induction es)
  case (Cons e es)
  then show ?case using ordered_insert_by [OF assms(1)] by (simp add: sort_by_def)
qed (simp add: sort_by_def ordered_def)

section \<open>Indexes of a table\<close>

text \<open>Records that have the columns of an index, none of them a NaN.\<close>

definition rec_fits :: "ColMeta list \<Rightarrow> byte list \<Rightarrow> bool" where
  "rec_fits cols rec \<longleftrightarrow> (\<forall>col\<in>set cols. col_fits (length rec) col \<and> field_fine col rec)"

lemma length_col_bytes: "col_fits (length rec) col \<Longrightarrow> length (col_bytes col rec) = nat (cm_len col)"
  using len_ok_nonneg by (fastforce simp: col_bytes_def col_fits_def)

lemma index_key_of_record:
  assumes "rec_fits cols rec"
  shows "ikey cols (concat (map (\<lambda>col. col_bytes col rec) cols)) = map (\<lambda>c. field_key c rec) cols"
    and "key_fine cols (concat (map (\<lambda>col. col_bytes col rec) cols))"
proof -
  have "ikey cols (concat (map (\<lambda>col. col_bytes col rec) cols)) = map (\<lambda>c. field_key c rec) cols \<and>
    key_fine cols (concat (map (\<lambda>col. col_bytes col rec) cols))"
    using assms
  proof (induction cols)
    case (Cons c cols)
    have f: "col_fits (length rec) c" "field_fine c rec" and IH: "rec_fits cols rec"
      using Cons.prems by (simp_all add: rec_fits_def)
    have l: "len_ok (cm_type c) (cm_len c)" using f(1) by (simp add: col_fits_def)
    note ap = raw_key_append [OF l length_col_bytes [OF f(1)]]
    have "raw_key (cm_type c) (cm_len c) (col_bytes c rec) = field_key c rec" "raw_ok (cm_type c) (col_bytes c rec)"
      using f(2) raw_key_take [OF l] raw_ok_take [OF l] by (simp_all add: col_bytes_def field_key_def field_fine_def)
    then show ?case using Cons.IH [OF IH] length_col_bytes [OF f(1)] by (simp add: ap)
  qed simp
  then show "ikey cols (concat (map (\<lambda>col. col_bytes col rec) cols)) = map (\<lambda>c. field_key c rec) cols"
    and "key_fine cols (concat (map (\<lambda>col. col_bytes col rec) cols))" by blast+
qed

definition rec_key :: "IndexMeta \<Rightarrow> byte list \<Rightarrow> int list list" where
  "rec_key ix rec = map (\<lambda>c. field_key c rec) (im_cols ix)"

lemma make_index_key_fits:
  assumes "rec_fits (im_cols ix) rec"
  shows "ikey (im_cols ix) (make_index_key ix rec) = rec_key ix rec" "key_fine (im_cols ix) (make_index_key ix rec)"
  using index_key_of_record [OF assms] by (simp_all add: make_index_key_def rec_key_def)

text \<open>An index holds, in order, one entry for each record of its table.\<close>

definition index_of :: "IndexMeta \<Rightarrow> (Rid \<rightharpoonup> byte list) \<Rightarrow> RuntimeIndexEntry list \<Rightarrow> bool" where
  "index_of ix m es \<longleftrightarrow>
     ordered ix es \<and> distinct (map ie_rid es) \<and>
     (\<forall>e. e \<in> set es \<longleftrightarrow> (\<exists>rec. m (ie_rid e) = Some rec \<and> ie_key e = make_index_key ix rec))"

definition fits_all :: "IndexMeta \<Rightarrow> (Rid \<rightharpoonup> byte list) \<Rightarrow> bool" where
  "fits_all ix m \<longleftrightarrow> (\<forall>rid rec. m rid = Some rec \<longrightarrow> rec_fits (im_cols ix) rec)"

definition unique_keys :: "IndexMeta \<Rightarrow> (Rid \<rightharpoonup> byte list) \<Rightarrow> bool" where
  "unique_keys ix m \<longleftrightarrow>
     (\<forall>r1 r2 a b. m r1 = Some a \<longrightarrow> m r2 = Some b \<longrightarrow> rec_key ix a = rec_key ix b \<longrightarrow> r1 = r2)"

lemma index_of_ekey:
  assumes "index_of ix m es" and "fits_all ix m" and "e \<in> set es"
  obtains rec where "m (ie_rid e) = Some rec" "ie_key e = make_index_key ix rec" "ekey ix e = rec_key ix rec"
    "rec_fits (im_cols ix) rec"
proof -
  obtain rec where r: "m (ie_rid e) = Some rec" "ie_key e = make_index_key ix rec"
    using assms(1,3) by (auto simp: index_of_def)
  have f: "rec_fits (im_cols ix) rec" using assms(2) r(1) by (auto simp: fits_all_def)
  show thesis using that [OF r _ f] make_index_key_fits(1) [OF f] r(2) by (simp add: ekey_def)
qed

lemma index_of_rids: "index_of ix m es \<Longrightarrow> ie_rid ` set es = dom m"
proof (intro set_eqI iffI)
  fix rid assume i: "index_of ix m es" and "rid \<in> dom m"
  then obtain rec where "m rid = Some rec" by blast
  then have "\<lparr>ie_key = make_index_key ix rec, ie_rid = rid\<rparr> \<in> set es" using i by (simp add: index_of_def)
  then show "rid \<in> ie_rid ` set es" by (rule image_eqI [rotated]) simp
qed (auto simp: index_of_def)

lemma index_of_insert:
  assumes i: "index_of ix m (ri_entries ri)" and wf: "ix_wf ix" and f: "rec_fits (im_cols ix) rec" and n: "m rid = None"
  shows "index_of ix (m(rid \<mapsto> rec)) (ri_entries (insert_entry ix (make_index_key ix rec) rid ri))"
proof -
  let ?e = "\<lparr>ie_key = make_index_key ix rec, ie_rid = rid\<rparr>"
  have o: "ordered ix (ri_entries ri)" using i by (simp add: index_of_def)
  obtain xs ys where s: "ri_entries ri = xs @ ys"
    "insert_entry ix (make_index_key ix rec) rid ri = ri\<lparr>ri_entries := xs @ ?e # ys\<rparr>" "ordered ix (xs @ ?e # ys)"
    by (rule insert_entry_split [OF wf o make_index_key_fits(2) [OF f]])
  have "rid \<notin> ie_rid ` set (xs @ ys)" using index_of_rids [OF i] n s(1) by auto
  then have d: "distinct (map ie_rid (xs @ ?e # ys))" using i s(1) by (auto simp: index_of_def)
  have "e \<in> set (xs @ ?e # ys) \<longleftrightarrow> (\<exists>rec'. (m(rid \<mapsto> rec)) (ie_rid e) = Some rec' \<and> ie_key e = make_index_key ix rec')" for e
  proof (cases "ie_rid e = rid")
    case True
    then have "e \<notin> set (xs @ ys)" using \<open>rid \<notin> ie_rid ` set (xs @ ys)\<close> by blast
    then show ?thesis using True by (cases e) auto
  next
    case False
    then show ?thesis using i s(1) by (auto simp: index_of_def)
  qed
  then show ?thesis using s(2,3) d unfolding index_of_def by simp
qed

lemma index_of_delete:
  assumes i: "index_of ix m (ri_entries ri)" and wf: "ix_wf ix" and f: "fits_all ix m" and m: "m rid = Some rec"
  shows "index_of ix (m(rid := None)) (ri_entries (delete_entry ix (make_index_key ix rec) rid ri))"
proof -
  have fr: "rec_fits (im_cols ix) rec" using f m by (auto simp: fits_all_def)
  have o: "ordered ix (ri_entries ri)" "distinct (map ie_rid (ri_entries ri))" using i by (simp_all add: index_of_def)
  have "delete_entry ix (make_index_key ix rec) rid ri =
      ri\<lparr>ri_entries := filter (\<lambda>e. ie_rid e \<noteq> rid) (ri_entries ri)\<rparr>"
  proof (rule delete_entry_filter [OF wf o(1) make_index_key_fits(2) [OF fr] o(2)])
    fix e assume e: "e \<in> set (ri_entries ri)" "ie_rid e = rid"
    then obtain rec' where "m (ie_rid e) = Some rec'" "ie_key e = make_index_key ix rec'"
      by (metis index_of_ekey [OF i f])
    then show "ekey ix e = ikey (im_cols ix) (make_index_key ix rec)" using e(2) m by (simp add: ekey_def)
  qed
  then show ?thesis using i by (auto simp: index_of_def ordered_filter distinct_map_filter)
qed

lemma index_of_sort:
  assumes "ix_wf ix" and "fits_all ix m" and "distinct rids" and "set rids = dom m"
  shows "index_of ix m (sort_by (entry_less ix)
    (map (\<lambda>rid. \<lparr>ie_key = make_index_key ix (the (m rid)), ie_rid = rid\<rparr>) rids))" (is "index_of ix m (sort_by _ ?es)")
proof -
  have fine: "key_fine (im_cols ix) (ie_key e)" if "e \<in> set ?es" for e
    using that assms(2,4) make_index_key_fits(2) by (auto simp: fits_all_def)
  have "ordered ix (sort_by (entry_less ix) ?es)" by (rule ordered_sort_by [OF assms(1) fine])
  moreover have "mset (map ie_rid (sort_by (entry_less ix) ?es)) = mset rids"
    by (simp add: mset_sort_by image_mset.compositionality comp_def)
  then have "distinct (map ie_rid (sort_by (entry_less ix) ?es))"
    using assms(3) mset_eq_imp_distinct_iff by blast
  moreover have "e \<in> set ?es \<longleftrightarrow> (\<exists>rec. m (ie_rid e) = Some rec \<and> ie_key e = make_index_key ix rec)" for e
    using assms(4) by (cases e) force
  ultimately show ?thesis by (simp add: index_of_def)
qed

text \<open>The check before an insert finds a record with the same key, if there is another one.\<close>

lemma duplicate_key_iff:
  assumes i: "index_of ix m (ri_entries ri)" and wf: "ix_wf ix" and f: "fits_all ix m" and u: "unique_keys ix m"
    and r: "rec_fits (im_cols ix) rec"
  shows "duplicate_key ix ri (make_index_key ix rec) self \<longleftrightarrow>
    (\<exists>rid old. m rid = Some old \<and> rec_key ix old = rec_key ix rec \<and> self \<noteq> Some rid)"
proof -
  let ?es = "ri_entries ri" and ?k = "rec_key ix rec" and ?key = "make_index_key ix rec"
  let ?xs = "takeWhile (\<lambda>e. ekey ix e < ?k) ?es" and ?p = "key_position ix ?key ?es"
  have o: "ordered ix ?es" using i by (simp add: index_of_def)
  note kf = make_index_key_fits [OF r]
  have p: "?p = length ?xs" using key_position_eq [OF wf o kf(2)] kf(1) by simp
  have same: "ekey ix (?es ! ?p) = ?k" if m: "e \<in> set ?es" "ekey ix e = ?k" for e
  proof -
    have "e \<notin> set ?xs" using m(2) by (auto dest: set_takeWhileD)
    obtain j where j: "j < length ?es" "?es ! j = e" using m(1) unfolding in_set_conv_nth by blast
    have "?p \<le> j"
    proof (rule ccontr)
      assume "\<not> ?p \<le> j"
      then have l: "j < length ?xs" using p by simp
      have "?xs ! j = e" using takeWhile_nth [OF l] j(2) by simp
      with l have "j < length ?xs" "?xs ! j = e" by simp_all
      with \<open>e \<notin> set ?xs\<close> show False by (metis nth_mem)
    qed
    with j have j: "?p \<le> j" "j < length ?es" "?es ! j = e" by auto
    have "\<not> ekey ix (?es ! ?p) < ?k" using nth_length_takeWhile [of "\<lambda>e. ekey ix e < ?k" ?es] j p by simp
    moreover have "ekey ix (?es ! ?p) \<le> ?k"
      using ordered_nth_le [OF o, of ?p j] j m(2) by (cases "?p = j") auto
    ultimately show ?thesis by simp
  qed
  have eq: "key_equal ix (ie_key e) ?key \<longleftrightarrow> ekey ix e = ?k" if "e \<in> set ?es" for e
    using compare_full(2) [OF wf _ kf(2)] that o kf(1) by (simp add: ordered_def ekey_def)
  show ?thesis
  proof
    assume "duplicate_key ix ri ?key self"
    then have d: "?p < length ?es" "key_equal ix (ie_key (?es ! ?p)) ?key" "self \<noteq> Some (ie_rid (?es ! ?p))"
      by (auto simp: duplicate_key_def Let_def split: option.splits)
    obtain old where "m (ie_rid (?es ! ?p)) = Some old" "ekey ix (?es ! ?p) = rec_key ix old"
      by (rule index_of_ekey [OF i f nth_mem [OF d(1)]])
    then show "\<exists>rid old. m rid = Some old \<and> rec_key ix old = ?k \<and> self \<noteq> Some rid"
      using d eq [OF nth_mem [OF d(1)]] by auto
  next
    assume "\<exists>rid old. m rid = Some old \<and> rec_key ix old = ?k \<and> self \<noteq> Some rid"
    then obtain rid old where ro: "m rid = Some old" "rec_key ix old = ?k" "self \<noteq> Some rid" by blast
    let ?e = "\<lparr>ie_key = make_index_key ix old, ie_rid = rid\<rparr>"
    have e: "?e \<in> set ?es" using i ro(1) by (simp add: index_of_def)
    have ek: "ekey ix ?e = ?k" using ro(1,2) f make_index_key_fits(1) by (auto simp: ekey_def fits_all_def)
    have at: "ekey ix (?es ! ?p) = ?k" by (rule same [OF e ek])
    have lt: "?p < length ?es"
    proof (rule ccontr)
      assume "\<not> ?p < length ?es"
      then have "?xs = ?es" using p by (metis linorder_not_less length_takeWhile_le order_antisym takeWhile_eq_take take_all)
      then have "ekey ix ?e < ?k" using e by (metis (mono_tags, lifting) set_takeWhileD)
      with ek show False by simp
    qed
    obtain r' where r': "m (ie_rid (?es ! ?p)) = Some r'" "ekey ix (?es ! ?p) = rec_key ix r'"
      by (rule index_of_ekey [OF i f nth_mem [OF lt]])
    then have "ie_rid (?es ! ?p) = rid" using u ro(1,2) at by (metis unique_keys_def)
    then show "duplicate_key ix ri ?key self"
      using lt eq [OF nth_mem [OF lt]] at ro(3) by (auto simp: duplicate_key_def Let_def split: option.splits)
  qed
qed

section \<open>Range scans are complete\<close>

text \<open>The part of a vector between two partition points.\<close>

lemma between_points:
  assumes "sorted_wrt (\<lambda>x y. (P y \<longrightarrow> P x) \<and> (Q y \<longrightarrow> Q x)) xs"
  shows "take (length (takeWhile Q xs) - length (takeWhile P xs)) (drop (length (takeWhile P xs)) xs) =
    filter (\<lambda>x. \<not> P x \<and> Q x) xs"
  using assms
proof (induction xs)
  case (Cons x xs)
  have q: "takeWhile Q xs = filter Q xs" if "\<And>y. y \<in> set xs \<Longrightarrow> \<not> P y"
    using Cons.prems by (induction xs) (auto simp: filter_empty_conv)
  show ?case
  proof (cases "P x")
    case True
    then show ?thesis using Cons by (cases "Q x") (auto simp: filter_empty_conv)
  next
    case False
    then have "\<And>y. y \<in> set xs \<Longrightarrow> \<not> P y" using Cons.prems by auto
    moreover have "take (length (takeWhile Q xs)) xs = takeWhile Q xs" by (simp add: takeWhile_eq_take [symmetric])
    ultimately show ?thesis using q False Cons.prems by (auto simp: filter_empty_conv intro!: filter_cong)
  qed
qed simp

lemma takeWhile_all: "takeWhile (\<lambda>_. True) xs = xs"
  by (induction xs) auto

text \<open>The entries a bound admits.\<close>

definition above :: "IndexMeta \<Rightarrow> key_bound \<Rightarrow> int list list \<Rightarrow> bool" where
  "above ix b k \<longleftrightarrow> b_cols b > 0 \<longrightarrow>
     (let n = nat (b_cols b); l = ikey (take n (im_cols ix)) (b_key b) in if b_incl b then l \<le> take n k else l < take n k)"

definition below :: "IndexMeta \<Rightarrow> key_bound \<Rightarrow> int list list \<Rightarrow> bool" where
  "below ix b k \<longleftrightarrow> b_cols b > 0 \<longrightarrow>
     (let n = nat (b_cols b); l = ikey (take n (im_cols ix)) (b_key b) in if b_incl b then take n k \<le> l else take n k < l)"

definition bound_fine :: "IndexMeta \<Rightarrow> key_bound \<Rightarrow> bool" where
  "bound_fine ix b \<longleftrightarrow> 0 \<le> b_cols b \<and> key_fine (take (nat (b_cols b)) (im_cols ix)) (b_key b)"

lemma compare_prefix:
  assumes "0 \<le> n" and "key_fine (im_cols ix) a" and "key_fine (take (nat n) (im_cols ix)) b"
  shows "compare_index_key ix a b n < 0 \<longleftrightarrow> take (nat n) (ikey (im_cols ix) a) < ikey (take (nat n) (im_cols ix)) b"
    and "\<not> compare_index_key ix b a n < 0 \<longleftrightarrow> take (nat n) (ikey (im_cols ix) a) \<le> ikey (take (nat n) (im_cols ix)) b"
  using compare_cols_iff [OF key_fine_take [OF assms(2)] assms(3)] compare_cols_iff [OF assms(3) key_fine_take [OF assms(2)]] assms(1)
  by (auto simp: compare_index_key_def ikey_take not_less)

lemma partition_point_prefix:
  assumes o: "ordered ix es" and c: "\<And>e. e \<in> set es \<Longrightarrow> P e \<longleftrightarrow> R (take n (ekey ix e))"
    and mono: "\<And>x y. x \<le> y \<Longrightarrow> R y \<Longrightarrow> R x"
  shows "partition_point P es = length (takeWhile (\<lambda>e. R (take n (ekey ix e))) es)"
proof -
  have "partition_point P es = length (takeWhile P es)"
  proof (rule partition_point_takeWhile)
    fix i j assume ij: "i < j" "j < length es" "P (es ! j)"
    have "take n (ekey ix (es ! i)) \<le> take n (ekey ix (es ! j))" by (rule take_mono_lex [OF ordered_nth_le [OF o ij(1,2)]])
    then show "P (es ! i)" using ij c [of "es ! i"] c [of "es ! j"] mono by auto
  qed
  also have "takeWhile P es = takeWhile (\<lambda>e. R (take n (ekey ix e))) es" using c by (intro takeWhile_cong) auto
  finally show ?thesis .
qed

lemma sorted_wrt_down:
  assumes "ordered ix es"
    and "\<And>x y. ekey ix x \<le> ekey ix y \<Longrightarrow> (P y \<longrightarrow> P x) \<and> (Q y \<longrightarrow> Q x)"
  shows "sorted_wrt (\<lambda>x y. (P y \<longrightarrow> P x) \<and> (Q y \<longrightarrow> Q x)) es"
proof -
  have "sorted_wrt (\<lambda>x y. ekey ix x \<le> ekey ix y) es" using assms(1) by (simp add: ordered_def sorted_map)
  then show ?thesis by (rule sorted_wrt_mono_rel [rotated]) (use assms(2) in blast)
qed

lemma scan_entries_filter:
  assumes o: "ordered ix es" and lo: "bound_fine ix lo" and up: "bound_fine ix up"
  shows "scan_entries ix lo up es = map ie_rid (filter (\<lambda>e. above ix lo (ekey ix e) \<and> below ix up (ekey ix e)) es)"
proof -
  let ?nl = "nat (b_cols lo)" and ?nu = "nat (b_cols up)"
  let ?l = "ikey (take ?nl (im_cols ix)) (b_key lo)" and ?u = "ikey (take ?nu (im_cols ix)) (b_key up)"
  let ?P = "\<lambda>e. \<not> above ix lo (ekey ix e)" and ?Q = "\<lambda>e. below ix up (ekey ix e)"
  have fine: "key_fine (im_cols ix) (ie_key e)" if "e \<in> set es" for e using o that by (simp add: ordered_def)
  note cl = compare_prefix [of "b_cols lo" ix _ "b_key lo"] and cu = compare_prefix [of "b_cols up" ix _ "b_key up"]
  have f: "(if b_cols lo > 0
      then if b_incl lo
           then partition_point (\<lambda>e. compare_index_key ix (ie_key e) (b_key lo) (b_cols lo) < 0) es
           else partition_point (\<lambda>e. \<not> compare_index_key ix (b_key lo) (ie_key e) (b_cols lo) < 0) es
      else 0) = length (takeWhile ?P es)"
    using partition_point_prefix [OF o, of "\<lambda>e. compare_index_key ix (ie_key e) (b_key lo) (b_cols lo) < 0" "\<lambda>k. k < ?l" ?nl]
      partition_point_prefix [OF o, of "\<lambda>e. \<not> compare_index_key ix (b_key lo) (ie_key e) (b_cols lo) < 0" "\<lambda>k. k \<le> ?l" ?nl]
      cl fine lo by (auto simp: above_def Let_def bound_fine_def ekey_def not_le not_less takeWhile_eq_Nil_iff)
  have l: "(if b_cols up > 0
      then if b_incl up
           then partition_point (\<lambda>e. \<not> compare_index_key ix (b_key up) (ie_key e) (b_cols up) < 0) es
           else partition_point (\<lambda>e. compare_index_key ix (ie_key e) (b_key up) (b_cols up) < 0) es
      else length es) = length (takeWhile ?Q es)"
    using partition_point_prefix [OF o, of "\<lambda>e. compare_index_key ix (ie_key e) (b_key up) (b_cols up) < 0" "\<lambda>k. k < ?u" ?nu]
      partition_point_prefix [OF o, of "\<lambda>e. \<not> compare_index_key ix (b_key up) (ie_key e) (b_cols up) < 0" "\<lambda>k. k \<le> ?u" ?nu]
      cu fine up by (auto simp: below_def Let_def bound_fine_def ekey_def takeWhile_all)
  have "sorted_wrt (\<lambda>x y. (?P y \<longrightarrow> ?P x) \<and> (?Q y \<longrightarrow> ?Q x)) es"
  proof (rule sorted_wrt_down [OF o])
    fix x y assume le: "ekey ix x \<le> ekey ix y"
    show "(?P y \<longrightarrow> ?P x) \<and> (?Q y \<longrightarrow> ?Q x)"
      using take_mono_lex [OF le, of ?nl] take_mono_lex [OF le, of ?nu] by (auto simp: above_def below_def Let_def split: if_splits)
  qed
  from between_points [OF this] show ?thesis unfolding scan_entries_def f l Let_def by simp
qed

text \<open>Conditions of the scan: their values fit the columns, and a record satisfies them.\<close>

definition values_fit :: "IndexMeta \<Rightarrow> string \<Rightarrow> Condition list \<Rightarrow> bool" where
  "values_fit ix tab conds \<longleftrightarrow> (\<forall>cond\<in>set conds. \<forall>col\<in>set (im_cols ix). cond_on tab col cond \<longrightarrow>
     (\<exists>bs. raw (rhs_val cond) = Some bs \<and> nat (cm_len col) \<le> length bs \<and> raw_ok (cm_type col) bs))"

definition meets :: "IndexMeta \<Rightarrow> string \<Rightarrow> Condition list \<Rightarrow> byte list \<Rightarrow> bool" where
  "meets ix tab conds rec \<longleftrightarrow> (\<forall>cond\<in>set conds. \<forall>col\<in>set (im_cols ix). cond_on tab col cond \<longrightarrow>
     holds (cond_op cond) (field_key col rec) (raw_key (cm_type col) (cm_len col) (the (raw (rhs_val cond)))))"

definition cols_len :: "ColMeta list \<Rightarrow> nat" where
  "cols_len cols = sum_list (map (\<lambda>c. nat (cm_len c)) cols)"

lemma ikey_snoc:
  assumes "\<forall>c\<in>set pre. len_ok (cm_type c) (cm_len c)" and "length bs = cols_len pre"
  shows "ikey (pre @ [c]) (bs @ v) = ikey pre bs @ [raw_key (cm_type c) (cm_len c) v]"
    and "key_fine (pre @ [c]) (bs @ v) \<longleftrightarrow> key_fine pre bs \<and> raw_ok (cm_type c) v"
proof -
  have "ikey (pre @ [c]) (bs @ v) = ikey pre bs @ [raw_key (cm_type c) (cm_len c) v] \<and>
    (key_fine (pre @ [c]) (bs @ v) \<longleftrightarrow> key_fine pre bs \<and> raw_ok (cm_type c) v)"
    using assms
  proof (induction pre arbitrary: bs)
    case (Cons p pre)
    have lp: "len_ok (cm_type p) (cm_len p)" and le: "nat (cm_len p) \<le> length bs"
      using Cons.prems by (simp_all add: cols_len_def)
    have k: "raw_key (cm_type p) (cm_len p) (bs @ v) = raw_key (cm_type p) (cm_len p) bs"
      "raw_ok (cm_type p) (bs @ v) = raw_ok (cm_type p) bs"
      using raw_key_take [OF lp, of "bs @ v"] raw_key_take [OF lp, of bs] raw_ok_take [OF lp, of "bs @ v"]
        raw_ok_take [OF lp, of bs] le by simp_all
    have "length (drop (nat (cm_len p)) bs) = cols_len pre" using Cons.prems(2) by (simp add: cols_len_def)
    from Cons.IH [OF _ this] Cons.prems(1) show ?case using k le by simp
  qed (simp add: cols_len_def)
  then show "ikey (pre @ [c]) (bs @ v) = ikey pre bs @ [raw_key (cm_type c) (cm_len c) v]"
    and "key_fine (pre @ [c]) (bs @ v) \<longleftrightarrow> key_fine pre bs \<and> raw_ok (cm_type c) v" by blast+
qed

text \<open>What the loop over the columns has collected about a record that meets the conditions.\<close>

definition prefix_of :: "IndexMeta \<Rightarrow> byte list \<Rightarrow> ColMeta list \<Rightarrow> byte list \<Rightarrow> bool" where
  "prefix_of ix rec pre bs \<longleftrightarrow>
     length bs = cols_len pre \<and> key_fine pre bs \<and> ikey pre bs = map (\<lambda>c. field_key c rec) pre"

definition admits :: "IndexMeta \<Rightarrow> byte list \<Rightarrow> key_bound \<times> key_bound \<Rightarrow> bool" where
  "admits ix rec = (\<lambda>(lo, up). bound_fine ix lo \<and> bound_fine ix up \<and> above ix lo (rec_key ix rec) \<and> below ix up (rec_key ix rec))"

lemma lex_snoc:
  "(zs @ [x] < zs @ [y]) = (x < (y :: 'a :: linorder))" "(zs @ [x] \<le> zs @ [y]) = (x \<le> y)"
  by (induction zs) auto

lemma rhs_bytes_fit:
  assumes "values_fit ix tab conds" and "cond \<in> set conds" and "col \<in> set (im_cols ix)" and "cond_on tab col cond"
    and "len_ok (cm_type col) (cm_len col)"
  shows "length (rhs_bytes col cond) = nat (cm_len col)" "raw_ok (cm_type col) (rhs_bytes col cond)"
    "raw_key (cm_type col) (cm_len col) (rhs_bytes col cond) = raw_key (cm_type col) (cm_len col) (the (raw (rhs_val cond)))"
proof -
  obtain bs where "raw (rhs_val cond) = Some bs" "nat (cm_len col) \<le> length bs" "raw_ok (cm_type col) bs"
    using assms(1-4) by (auto simp: values_fit_def)
  then show "length (rhs_bytes col cond) = nat (cm_len col)" "raw_ok (cm_type col) (rhs_bytes col cond)"
    "raw_key (cm_type col) (cm_len col) (rhs_bytes col cond) = raw_key (cm_type col) (cm_len col) (the (raw (rhs_val cond)))"
    using raw_key_take [OF assms(5)] raw_ok_take [OF assms(5)] by (simp_all add: rhs_bytes_def)
qed

lemma range_step_admits:
  assumes ix: "im_cols ix = pre @ col # post" and fits: "rec_fits (im_cols ix) rec"
    and v: "values_fit ix tab conds" and m: "meets ix tab conds rec" and c: "cond \<in> set conds"
    and p: "prefix_of ix rec pre eq" and a: "admits ix rec b"
  shows "admits ix rec (range_step ix tab col (int (length pre) + 1) eq cond b)"
proof (cases "cond_on tab col cond")
  case False
  then show ?thesis using a by (simp add: range_step_def split: prod.splits)
next
  case True
  have col: "col \<in> set (im_cols ix)" using ix by simp
  have lens: "\<forall>c\<in>set pre. len_ok (cm_type c) (cm_len c)" "len_ok (cm_type col) (cm_len col)"
    using fits ix by (auto simp: rec_fits_def col_fits_def)
  note rb = rhs_bytes_fit [OF v c col True lens(2)]
  let ?v = "rhs_bytes col cond" and ?n = "nat (int (length pre) + 1)"
  have tk: "take ?n (im_cols ix) = pre @ [col]" "take ?n (rec_key ix rec) = map (\<lambda>c. field_key c rec) pre @ [field_key col rec]"
    using ix by (simp_all add: rec_key_def nat_add_distrib)
  have eq: "length eq = cols_len pre" using p by (simp add: prefix_of_def)
  have k: "ikey (pre @ [col]) (eq @ ?v) = map (\<lambda>c. field_key c rec) pre @ [raw_key (cm_type col) (cm_len col) (the (raw (rhs_val cond)))]"
    "key_fine (pre @ [col]) (eq @ ?v)"
    using ikey_snoc [OF lens(1) eq] p rb by (simp_all add: prefix_of_def)
  have h: "holds (cond_op cond) (field_key col rec) (raw_key (cm_type col) (cm_len col) (the (raw (rhs_val cond))))"
    using m c col True by (auto simp: meets_def)
  have new: "bound_fine ix \<lparr>b_key = eq @ ?v, b_cols = int (length pre) + 1, b_incl = i\<rparr>" for i
    using k(2) tk(1) by (simp add: bound_fine_def)
  obtain lo up where b: "b = (lo, up)" by (cases b)
  show ?thesis
    using a h new unfolding b range_step_def admits_def
    by (cases "cond_op cond") (auto simp: Let_def above_def below_def tk k(1) lex_snoc)
qed

lemma range_fold_admits:
  assumes ix: "im_cols ix = pre @ col # post" and fits: "rec_fits (im_cols ix) rec"
    and v: "values_fit ix tab conds" and m: "meets ix tab conds rec"
    and p: "prefix_of ix rec pre eq" and cs: "set cs \<subseteq> set conds" and a: "admits ix rec b"
  shows "admits ix rec (fold (range_step ix tab col (int (length pre) + 1) eq) cs b)"
  using cs a
proof (induction cs arbitrary: b)
  case (Cons c cs)
  then show ?case using range_step_admits [OF ix fits v m _ p, of c b] by simp
qed simp

lemma no_bound_admits: "admits ix rec (no_bound, no_bound)"
  by (simp add: admits_def bound_fine_def above_def below_def no_bound_def)

lemma collect_bounds_admits:
  assumes fits: "rec_fits (im_cols ix) rec" and v: "values_fit ix tab conds" and m: "meets ix tab conds rec"
    and "im_cols ix = pre @ cols" and "prefix_of ix rec pre eq"
    and "collect_bounds ix tab conds cols eq (int (length pre)) = (eq', n, lo, up)"
  shows "admits ix rec (lo, up) \<and> (\<exists>pre' post. im_cols ix = pre' @ post \<and> prefix_of ix rec pre' eq' \<and> n = int (length pre'))"
  using assms(4-6)
proof (induction cols arbitrary: pre eq)
  case Nil
  then show ?case using no_bound_admits by auto
next
  case (Cons col cols)
  show ?case
  proof (cases "find (\<lambda>cond. cond_on tab col cond \<and> cond_op cond = OP_EQ) conds")
    case None
    then have s: "fold (range_step ix tab col (int (length pre) + 1) eq) conds (no_bound, no_bound) = (lo, up)"
        "eq' = eq" "n = int (length pre)"
      using Cons.prems(3) by (auto split: prod.splits)
    have "admits ix rec (lo, up)"
      using range_fold_admits [OF Cons.prems(1) fits v m Cons.prems(2) order_refl no_bound_admits] s(1) by simp
    then show ?thesis using s Cons.prems by blast
  next
    case (Some cond)
    then have c: "cond \<in> set conds" "cond_on tab col cond" "cond_op cond = OP_EQ"
      by (auto simp: find_Some_iff)
    have col: "col \<in> set (im_cols ix)" using Cons.prems(1) by simp
    have lens: "\<forall>c\<in>set pre. len_ok (cm_type c) (cm_len c)" "len_ok (cm_type col) (cm_len col)"
      using fits Cons.prems(1) by (auto simp: rec_fits_def col_fits_def)
    note rb = rhs_bytes_fit [OF v c(1) col c(2) lens(2)]
    have h: "field_key col rec = raw_key (cm_type col) (cm_len col) (the (raw (rhs_val cond)))"
      using m c col by (force simp: meets_def)
    have p': "prefix_of ix rec (pre @ [col]) (eq @ rhs_bytes col cond)"
      using Cons.prems(2) ikey_snoc [OF lens(1)] rb h by (simp add: prefix_of_def cols_len_def)
    have "collect_bounds ix tab conds cols (eq @ rhs_bytes col cond) (int (length (pre @ [col]))) = (eq', n, lo, up)"
      using Some Cons.prems(3) by (simp add: algebra_simps)
    from Cons.IH [OF _ p' this] Cons.prems(1) show ?thesis by simp
  qed
qed

lemma scan_bounds_admits:
  assumes wf: "ix_wf ix" and fits: "rec_fits (im_cols ix) rec" and v: "values_fit ix tab conds" and m: "meets ix tab conds rec"
  shows "admits ix rec (scan_bounds ix tab conds)"
proof -
  obtain eq n lo up where c: "collect_bounds ix tab conds (take (nat (col_num ix)) (im_cols ix)) [] 0 = (eq, n, lo, up)"
    by (metis prod_cases4)
  have p: "prefix_of ix rec [] []" by (simp add: prefix_of_def cols_len_def)
  have c': "collect_bounds ix tab conds (im_cols ix) [] (int (length ([] :: ColMeta list))) = (eq, n, lo, up)"
    using c wf by (simp add: ix_wf_def)
  obtain pre post where pre: "admits ix rec (lo, up)" "im_cols ix = pre @ post" "prefix_of ix rec pre eq" "n = int (length pre)"
    using collect_bounds_admits [OF fits v m _ p c'] by auto
  have e: "bound_fine ix \<lparr>b_key = eq, b_cols = n, b_incl = True\<rparr>" "above ix \<lparr>b_key = eq, b_cols = n, b_incl = True\<rparr> (rec_key ix rec)"
    "below ix \<lparr>b_key = eq, b_cols = n, b_incl = True\<rparr> (rec_key ix rec)"
    using pre(2-4) by (simp_all add: bound_fine_def above_def below_def prefix_of_def rec_key_def Let_def)
  show ?thesis using pre(1) e by (auto simp: scan_bounds_def c admits_def)
qed

section \<open>Properties\<close>

lemma scan_runtime_index_part:
  "\<exists>i n. scan_runtime_index ri tab conds = map ie_rid (take n (drop i (ri_entries ri)))"
  unfolding scan_runtime_index_def scan_entries_def Let_def
  by (cases "scan_bounds (ri_meta ri) tab conds"; simp only: prod.case) (intro exI, rule refl)

lemma scan_runtime_index_distinct:
  assumes "index_of ix m (ri_entries ri)"
  shows "distinct (scan_runtime_index ri tab conds)" "set (scan_runtime_index ri tab conds) \<subseteq> dom m"
proof -
  obtain i n where p: "scan_runtime_index ri tab conds = map ie_rid (take n (drop i (ri_entries ri)))"
    using scan_runtime_index_part by blast
  have "distinct (map ie_rid (ri_entries ri))" using assms by (simp add: index_of_def)
  then have "distinct (take n (drop i (map ie_rid (ri_entries ri))))" by (intro distinct_take distinct_drop)
  then show "distinct (scan_runtime_index ri tab conds)" by (simp add: p take_map drop_map)
  show "set (scan_runtime_index ri tab conds) \<subseteq> dom m"
    using index_of_rids [OF assms] by (auto simp: p dest!: in_set_takeD in_set_dropD)
qed

lemma scan_runtime_index_complete:
  assumes i: "index_of ix m (ri_entries ri)" and ri: "ri_meta ri = ix" and wf: "ix_wf ix" and f: "fits_all ix m"
    and v: "values_fit ix tab conds" and r: "m rid = Some rec" and m: "meets ix tab conds rec"
  shows "rid \<in> set (scan_runtime_index ri tab conds)"
proof -
  have fr: "rec_fits (im_cols ix) rec" using f r by (auto simp: fits_all_def)
  obtain lo up where b: "scan_bounds ix tab conds = (lo, up)" by (cases "scan_bounds ix tab conds")
  have a: "bound_fine ix lo" "bound_fine ix up" "above ix lo (rec_key ix rec)" "below ix up (rec_key ix rec)"
    using scan_bounds_admits [OF wf fr v m] b by (simp_all add: admits_def)
  let ?e = "\<lparr>ie_key = make_index_key ix rec, ie_rid = rid\<rparr>"
  have "?e \<in> set (ri_entries ri)" using i r by (simp add: index_of_def)
  moreover have "ekey ix ?e = rec_key ix rec" using make_index_key_fits(1) [OF fr] by (simp add: ekey_def)
  ultimately have "?e \<in> set (filter (\<lambda>e. above ix lo (ekey ix e) \<and> below ix up (ekey ix e)) (ri_entries ri))"
    using a by simp
  then have "ie_rid ?e \<in> ie_rid ` set (filter (\<lambda>e. above ix lo (ekey ix e) \<and> below ix up (ekey ix e)) (ri_entries ri))"
    by (rule imageI)
  moreover have "ordered ix (ri_entries ri)" using i by (simp add: index_of_def)
  ultimately have "rid \<in> set (scan_entries ix lo up (ri_entries ri))"
    using scan_entries_filter [OF _ a(1,2), of "ri_entries ri"] by simp
  then show ?thesis by (simp add: scan_runtime_index_def ri b)
qed

text \<open>
  C21: a scan of an index misses nothing. Every record of the table that satisfies the conditions of
  the query on the columns of the index is among the record ids that \<^verbatim>\<open>scan_index\<close> returns; it returns
  only records of the table, and none of them twice.
\<close>

theorem index_scan_complete:
  assumes "index_of ix m (ri_entries ri)" and "ri_meta ri = ix" and "ix_wf ix" and "fits_all ix m"
    and "values_fit ix tab conds"
  shows "{rid. \<exists>rec. m rid = Some rec \<and> meets ix tab conds rec} \<subseteq> set (scan_runtime_index ri tab conds) \<and>
    set (scan_runtime_index ri tab conds) \<subseteq> dom m \<and> distinct (scan_runtime_index ri tab conds)"
  using scan_runtime_index_complete [OF assms] scan_runtime_index_distinct [OF assms(1)] by blast

definition sample_ix :: IndexMeta where
  "sample_ix = \<lparr>im_tab = ''t'', col_tot_len = 4, col_num = 1, im_cols = [sample_col ''t'' ''a'' TYPE_INT 4 0 True]\<rparr>"

definition sample_ri :: RuntimeIndex where
  "sample_ri = insert_entry sample_ix (make_index_key sample_ix (le_bytes 4 7)) (mk_rid 1 0) \<lparr>ri_meta = sample_ix, ri_entries = []\<rparr>"

definition sample_cond :: Condition where
  "sample_cond = \<lparr>lhs_col = mk_tabcol ''t'' ''a'', cond_op = OP_GE, is_rhs_val = True, rhs_col = mk_tabcol [] [],
     rhs_val = (new_Value (IntVal 5))\<lparr>raw := Some (le_bytes 4 5)\<rparr>\<rparr>"

lemma sample_rec_fits: "rec_fits (im_cols sample_ix) (le_bytes 4 7)"
  by (simp add: rec_fits_def sample_ix_def sample_col_def col_fits_def len_ok_def field_fine_def raw_ok_def)

lemma sample_index: "index_of sample_ix [mk_rid 1 0 \<mapsto> le_bytes 4 7] (ri_entries sample_ri)"
proof -
  have "index_of sample_ix Map.empty (ri_entries \<lparr>ri_meta = sample_ix, ri_entries = []\<rparr>)"
    by (simp add: index_of_def ordered_def)
  from index_of_insert [OF this _ sample_rec_fits, of "mk_rid 1 0"] show ?thesis
    by (simp add: sample_ri_def ix_wf_def sample_ix_def)
qed

theorem index_scan_complete_witness:
  "set (scan_runtime_index sample_ri ''t'' [sample_cond]) = {mk_rid 1 0}"
proof -
  have "meets sample_ix ''t'' [sample_cond] (le_bytes 4 7)"
    by (simp add: meets_def sample_ix_def sample_cond_def sample_col_def field_key_def raw_key_def raw_i32_def le_val_le_bytes signed_of_def)
  moreover have "values_fit sample_ix ''t'' [sample_cond]"
    by (simp add: values_fit_def sample_ix_def sample_cond_def sample_col_def raw_ok_def)
  moreover have "ri_meta sample_ri = sample_ix" by (simp add: sample_ri_def insert_entry_def Let_def)
  moreover have "fits_all sample_ix [mk_rid 1 0 \<mapsto> le_bytes 4 7]" using sample_rec_fits by (simp add: fits_all_def)
  moreover have "ix_wf sample_ix" by (simp add: ix_wf_def sample_ix_def)
  ultimately show ?thesis using index_scan_complete [OF sample_index, of "''t''" "[sample_cond]"] by auto
qed

end
