(* ===== verification/Sm_Manager.thy ===== *)
theory Sm_Manager
  imports Rm_Store Runtime_Index
begin

text \<open>
  \<^verbatim>\<open>SmManager\<close> (\<^verbatim>\<open>system/sm_manager\<close>): the catalogue, the open table files over one buffer pool, and the
  in-memory indexes. The state is the object with the buffer pool it points to; the working directory
  of the process is the directory of the database.

  Lemmas: \<open>sm_inv\<close> says that every table of the catalogue has a consistent file of its own and that each
  of its indexes holds exactly its records, no two with the same key; the operations on one table
  keep it for all others.
\<close>

section \<open>State\<close>

record ColDef =
  cd_name :: string
  cd_type :: ColType
  cd_len :: int

text \<open>
  \<^verbatim>\<open>fhs_\<close> is an unordered map: a list of its entries in the order of insertion, which is one of the orders in
  which its iteration may meet them.
\<close>

record sm_state =
  sm_db :: DbMeta
  fhs :: "(string \<times> RmFileHandle) list"
  runtime_indexes :: "(string \<times> RuntimeIndex) list"
  sm_bpm :: buffer_pool

type_synonym 'a sm_op = "(sm_state, rmdb_error, 'a) sem"

definition on_bpm :: "'a pool_op \<Rightarrow> 'a sm_op" where
  "on_bpm = zoom sm_bpm (\<lambda>b st. st\<lparr>sm_bpm := b\<rparr>)"

text \<open>A call through \<^verbatim>\<open>fhs_.at(tab_name)\<close>: the handle changes in place.\<close>

definition set_handle :: "string \<Rightarrow> RmFileHandle \<Rightarrow> sm_state \<Rightarrow> sm_state" where
  "set_handle t h st = st\<lparr>fhs := map (\<lambda>(k, v). (k, if k = t then h else v)) (fhs st)\<rparr>"

definition on_file :: "string \<Rightarrow> 'a rm_op \<Rightarrow> 'a sm_op" where
  "on_file t op st =
     (case map_of (fhs st) t of
        None \<Rightarrow> (Inl OutOfRange, st)
      | Some h \<Rightarrow>
          (case op \<lparr>fh = h, bpm = sm_bpm st\<rparr> of
             (r, s) \<Rightarrow> (r, (set_handle t (fh s) st)\<lparr>sm_bpm := bpm s\<rparr>)))"

text \<open>Streams: \<^verbatim>\<open>std::ofstream\<close> truncates the file and fails silently, \<^verbatim>\<open>std::ifstream\<close> reads a regular file.\<close>

definition os_put_text :: "string \<Rightarrow> string \<Rightarrow> os \<Rightarrow> os" where
  "os_put_text p t s =
     (if SysOpen \<in> io_fail s \<or> os_is_dir p s then s
      else let t' = (if SysWrite \<in> io_fail s then [] else t) in
           s\<lparr>nodes := (nodes s)(p \<mapsto> Reg \<lparr>fbytes = put_bytes zero_buf 0 (str_bytes t'), fsize = length t'\<rparr>)\<rparr>)"

definition os_get_text :: "string \<Rightarrow> os \<Rightarrow> string option" where
  "os_get_text p s =
     (if SysOpen \<in> io_fail s then None
      else case nodes s p of Some (Reg f) \<Rightarrow> Some (bytes_str (get_bytes (fbytes f) 0 (fsize f))) | _ \<Rightarrow> None)"

definition flush_meta :: "unit sm_op" where
  "flush_meta =
     bind_e (gets_e sm_db) (\<lambda>db.
     on_bpm (on_disk (modify_e (\<lambda>d. d\<lparr>sys := os_put_text DB_META_NAME (put_DbMeta db) (sys d)\<rparr>))))"

section \<open>Indexes of a table\<close>

definition get_runtime_index :: "string \<Rightarrow> string list \<Rightarrow> sm_state \<Rightarrow> rmdb_error + RuntimeIndex" where
  "get_runtime_index t names st =
     (case map_of (runtime_indexes st) (runtime_index_name t names) of
        None \<Rightarrow> Inl (IndexNotFoundError t names)
      | Some ri \<Rightarrow> Inr ri)"

definition at_runtime_index :: "IndexMeta \<Rightarrow> sm_state \<Rightarrow> rmdb_error + RuntimeIndex" where
  "at_runtime_index index st =
     (case map_of (runtime_indexes st) (index_name index) of None \<Rightarrow> Inl OutOfRange | Some ri \<Rightarrow> Inr ri)"

definition set_runtime_index :: "string \<Rightarrow> RuntimeIndex \<Rightarrow> sm_state \<Rightarrow> sm_state" where
  "set_runtime_index name ri st = st\<lparr>runtime_indexes := smap_set name ri (runtime_indexes st)\<rparr>"

definition on_index :: "IndexMeta \<Rightarrow> (RuntimeIndex \<Rightarrow> RuntimeIndex) \<Rightarrow> unit sm_op" where
  "on_index index g =
     bind_e (gets_e (at_runtime_index index)) (\<lambda>q. bind_e (lift_r q) (\<lambda>ri.
     modify_e (set_runtime_index (index_name index) (g ri))))"

definition scan_index :: "string \<Rightarrow> string list \<Rightarrow> Condition list \<Rightarrow> Rid list sm_op" where
  "scan_index t names conds =
     bind_e (gets_e (get_runtime_index t names)) (\<lambda>r.
     bind_e (lift_r r) (\<lambda>ri. ret (scan_runtime_index ri t conds)))"

definition check_index_insert :: "string \<Rightarrow> byte list \<Rightarrow> Rid option \<Rightarrow> unit sm_op" where
  "check_index_insert t rec self =
     bind_e (gets_e (\<lambda>st. get_table (sm_db st) t)) (\<lambda>r. bind_e (lift_r r) (\<lambda>tab.
     for_each (tm_indexes tab) (\<lambda>index.
       bind_e (gets_e (get_runtime_index t (map cm_name (im_cols index)))) (\<lambda>q. bind_e (lift_r q) (\<lambda>ri.
       throw_if (duplicate_key index ri (make_index_key index rec) self)
         (InternalError ''Duplicate value violates unique index''))))))"

definition insert_index_entries :: "string \<Rightarrow> byte list \<Rightarrow> Rid \<Rightarrow> unit sm_op" where
  "insert_index_entries t rec rid =
     bind_e (gets_e (\<lambda>st. get_table (sm_db st) t)) (\<lambda>r. bind_e (lift_r r) (\<lambda>tab.
     for_each (tm_indexes tab) (\<lambda>index.
       on_index index (insert_entry index (make_index_key index rec) rid))))"

definition delete_index_entries :: "string \<Rightarrow> byte list \<Rightarrow> Rid \<Rightarrow> unit sm_op" where
  "delete_index_entries t rec rid =
     bind_e (gets_e (\<lambda>st. get_table (sm_db st) t)) (\<lambda>r. bind_e (lift_r r) (\<lambda>tab.
     for_each (tm_indexes tab) (\<lambda>index.
       on_index index (delete_entry index (make_index_key index rec) rid))))"

definition update_index_entries :: "string \<Rightarrow> byte list \<Rightarrow> byte list \<Rightarrow> Rid \<Rightarrow> unit sm_op" where
  "update_index_entries t old_rec new_rec rid =
     bind_e (check_index_insert t new_rec (Some rid)) (\<lambda>_.
     bind_e (delete_index_entries t old_rec rid) (\<lambda>_.
     insert_index_entries t new_rec rid))"

text \<open>
  The loop that reads a whole table into index entries. A scan meets every slot at most once, so that the
  number of slots of the file bounds its steps (\<open>scan_fuel_enough\<close>).
\<close>

fun index_entries :: "nat \<Rightarrow> IndexMeta \<Rightarrow> Rid \<Rightarrow> RuntimeIndexEntry list rm_op" where
  "index_entries 0 index rid = ret []"
| "index_entries (Suc k) index rid =
     bind_e (gets_e (scan_is_end rid)) (\<lambda>e.
       if e then ret []
       else bind_e (get_record rid) (\<lambda>rec.
            bind_e (scan_next rid) (\<lambda>rid'.
            bind_e (index_entries k index rid') (\<lambda>es.
            ret (\<lparr>ie_key = make_index_key index rec, ie_rid = rid\<rparr> # es)))))"

definition scan_fuel :: "RmFileHdr \<Rightarrow> nat" where
  "scan_fuel h = nat (num_pages h * num_records_per_page h) + 1"

definition read_entries :: "IndexMeta \<Rightarrow> RuntimeIndexEntry list rm_op" where
  "read_entries index =
     bind_e (gets_e (\<lambda>st. scan_fuel (hdr st))) (\<lambda>k. bind_e new_RmScan (index_entries k index))"

definition rebuild_runtime_index :: "IndexMeta \<Rightarrow> unit sm_op" where
  "rebuild_runtime_index index =
     bind_e (on_file (im_tab index) (read_entries index)) (\<lambda>es.
     modify_e (set_runtime_index (index_name index) (sort_runtime_index \<lparr>ri_meta = index, ri_entries = es\<rparr>)))"

definition rebuild_runtime_indexes :: "unit sm_op" where
  "rebuild_runtime_indexes =
     bind_e (modify_e (\<lambda>st. st\<lparr>runtime_indexes := []\<rparr>)) (\<lambda>_.
     bind_e (gets_e (\<lambda>st. tabs (sm_db st))) (\<lambda>ts.
     for_each ts (\<lambda>(_, tab). for_each (tm_indexes tab) rebuild_runtime_index)))"

definition flush_all_tables :: "unit sm_op" where
  "flush_all_tables = bind_e (gets_e fhs) (\<lambda>hs. for_each hs (\<lambda>(t, _). on_file t rm_flush))"

section \<open>Tables and indexes of the catalogue\<close>

fun make_cols :: "string \<Rightarrow> int \<Rightarrow> ColDef list \<Rightarrow> ColMeta list \<times> int" where
  "make_cols t off [] = ([], off)"
| "make_cols t off (d # ds) =
     (case make_cols t (off + cd_len d) ds of
        (cs, n) \<Rightarrow> (\<lparr>cm_tab = t, cm_name = cd_name d, cm_type = cd_type d, cm_len = cd_len d, cm_offset = off, cm_index = False\<rparr> # cs, n))"

definition emplace_handle :: "string \<Rightarrow> RmFileHandle \<Rightarrow> sm_state \<Rightarrow> sm_state" where
  "emplace_handle t h st = (if map_of (fhs st) t = None then st\<lparr>fhs := fhs st @ [(t, h)]\<rparr> else st)"

definition create_table :: "string \<Rightarrow> ColDef list \<Rightarrow> unit sm_op" where
  "create_table t defs =
     bind_e (gets_e (\<lambda>st. is_table (sm_db st) t)) (\<lambda>ex.
       if ex then throw (TableExistsError t)
       else case make_cols t 0 defs of (cs, n) \<Rightarrow>
         bind_e (on_bpm (on_disk (rm_create_file t n))) (\<lambda>_.
         bind_e (modify_e (\<lambda>st. st\<lparr>sm_db := SetTabMeta t \<lparr>tm_name = t, tm_cols = cs, tm_indexes = []\<rparr> (sm_db st)\<rparr>)) (\<lambda>_.
         bind_e (on_bpm (on_disk (rm_open_file t))) (\<lambda>h.
         bind_e (modify_e (emplace_handle t h)) (\<lambda>_.
         flush_meta)))))"

definition drop_table :: "string \<Rightarrow> unit sm_op" where
  "drop_table t =
     bind_e (gets_e (\<lambda>st. is_table (sm_db st) t)) (\<lambda>ex.
       if \<not> ex then throw (TableNotFoundError t)
       else
         bind_e (gets_e (\<lambda>st. map_of (fhs st) t)) (\<lambda>h.
         bind_e (case h of None \<Rightarrow> ret ()
                 | Some f \<Rightarrow> bind_e (on_bpm (rm_close_file f)) (\<lambda>_.
                             modify_e (\<lambda>st. st\<lparr>fhs := filter (\<lambda>e. fst e \<noteq> t) (fhs st)\<rparr>))) (\<lambda>_.
         bind_e (on_bpm (on_disk (rm_destroy_file t))) (\<lambda>_.
         bind_e (modify_e (\<lambda>st. st\<lparr>sm_db := (sm_db st)\<lparr>tabs := smap_erase t (tabs (sm_db st))\<rparr>\<rparr>)) (\<lambda>_.
         flush_meta)))))"

text \<open>The loop of \<^verbatim>\<open>create_index\<close> over the columns, which marks them in the table as it goes.\<close>

fun take_cols :: "string \<Rightarrow> string list \<Rightarrow> IndexMeta \<Rightarrow> IndexMeta sm_op" where
  "take_cols t [] index = ret index"
| "take_cols t (c # cs) index =
     bind_e (gets_e (\<lambda>st. bind_r (get_table (sm_db st) t) (\<lambda>tab. bind_r (get_col tab c) (\<lambda>i. Inr (tab, i))))) (\<lambda>r.
     bind_e (lift_r r) (\<lambda>(tab, i).
       let col = (tm_cols tab ! i)\<lparr>cm_index := True\<rparr> in
       bind_e (modify_e (\<lambda>st. st\<lparr>sm_db := SetTabMeta t (tab\<lparr>tm_cols := (tm_cols tab)[i := col]\<rparr>) (sm_db st)\<rparr>)) (\<lambda>_.
       take_cols t cs (index\<lparr>im_cols := im_cols index @ [col], col_tot_len := col_tot_len index + cm_len col\<rparr>))))"

fun has_duplicate :: "IndexMeta \<Rightarrow> RuntimeIndexEntry list \<Rightarrow> bool" where
  "has_duplicate index (a # b # es) = (key_equal index (ie_key a) (ie_key b) \<or> has_duplicate index (b # es))"
| "has_duplicate index _ = False"

definition create_index :: "string \<Rightarrow> string list \<Rightarrow> unit sm_op" where
  "create_index t names =
     bind_e (gets_e (\<lambda>st. get_table (sm_db st) t)) (\<lambda>r. bind_e (lift_r r) (\<lambda>tab.
       if is_index tab names then throw (IndexExistsError t names)
       else
         bind_e (take_cols t names \<lparr>im_tab = t, col_tot_len = 0, col_num = int (length names), im_cols = []\<rparr>) (\<lambda>index.
         bind_e (on_file t (read_entries index)) (\<lambda>es.
           let ri = sort_runtime_index \<lparr>ri_meta = index, ri_entries = es\<rparr> in
           if has_duplicate index (ri_entries ri) then throw (InternalError ''Duplicate value violates unique index'')
           else
             bind_e (modify_e (\<lambda>st. st\<lparr>sm_db := (case map_of (tabs (sm_db st)) t of
                Some tb \<Rightarrow> SetTabMeta t (tb\<lparr>tm_indexes := tm_indexes tb @ [index]\<rparr>) (sm_db st) | None \<Rightarrow> sm_db st)\<rparr>)) (\<lambda>_.
             bind_e (modify_e (set_runtime_index (index_name index) ri)) (\<lambda>_.
             flush_meta))))))"

definition still_indexed :: "IndexMeta list \<Rightarrow> ColMeta \<Rightarrow> bool" where
  "still_indexed idxs col = list_ex (\<lambda>idx. list_ex (\<lambda>c. cm_name c = cm_name col) (im_cols idx)) idxs"

definition drop_index :: "string \<Rightarrow> string list \<Rightarrow> unit sm_op" where
  "drop_index t names =
     bind_e (gets_e (\<lambda>st. bind_r (get_table (sm_db st) t) (\<lambda>tab. bind_r (get_index_meta tab names) (\<lambda>i. Inr (tab, i))))) (\<lambda>r.
     bind_e (lift_r r) (\<lambda>(tab, i).
       let idxs = take i (tm_indexes tab) @ drop (Suc i) (tm_indexes tab) in
       bind_e (modify_e (\<lambda>st. st\<lparr>runtime_indexes := smap_erase (runtime_index_name t names) (runtime_indexes st),
           sm_db := SetTabMeta t (tab\<lparr>tm_indexes := idxs,
             tm_cols := map (\<lambda>col. col\<lparr>cm_index := still_indexed idxs col\<rparr>) (tm_cols tab)\<rparr>) (sm_db st)\<rparr>)) (\<lambda>_.
       flush_meta)))"

definition drop_index_cols :: "string \<Rightarrow> ColMeta list \<Rightarrow> unit sm_op" where
  "drop_index_cols t cols = drop_index t (map cm_name cols)"

section \<open>Opening and closing\<close>

text \<open>
  The part of \<^verbatim>\<open>open_db\<close> behind the change of directory. On a malformed \<^verbatim>\<open>db.meta\<close> the extraction stops and
  leaves what it has read so far, the argument \<open>scrap\<close>.
\<close>

definition load_db :: "(string \<Rightarrow> DbMeta) \<Rightarrow> unit sm_op" where
  "load_db scrap =
     bind_e (gets_e (\<lambda>st. os_get_text DB_META_NAME (sys (disk (sm_bpm st))))) (\<lambda>txt.
       case txt of
         None \<Rightarrow> throw (FileNotFoundError DB_META_NAME)
       | Some t \<Rightarrow>
           bind_e (modify_e (\<lambda>st. st\<lparr>sm_db := (case rd_DbMeta t of Some (db, _) \<Rightarrow> db | None \<Rightarrow> scrap t), fhs := []\<rparr>)) (\<lambda>_.
           bind_e (gets_e (\<lambda>st. tabs (sm_db st))) (\<lambda>ts.
           bind_e (for_each ts (\<lambda>(name, _).
             bind_e (on_bpm (on_disk (rm_open_file name))) (\<lambda>h. modify_e (emplace_handle name h)))) (\<lambda>_.
           rebuild_runtime_indexes))))"

definition close_db :: "unit sm_op" where
  "close_db =
     bind_e flush_meta (\<lambda>_.
     bind_e (gets_e fhs) (\<lambda>hs.
     bind_e (for_each hs (\<lambda>(_, h). on_bpm (rm_close_file h))) (\<lambda>_.
     modify_e (\<lambda>st. st\<lparr>fhs := [], runtime_indexes := []\<rparr>))))"

end
