(* ===== verification/Sm_Tables.thy ===== *)
theory Sm_Tables
  imports Sm_Manager Log_Manager
begin

text \<open>
  The tables of a database over one buffer pool: every open file is consistent, and an operation on
  one of them changes the contents of that table alone. Each record operation is described by its
  effect on \<open>contents\<close>, the map from tables and record ids to records.
\<close>

section \<open>Contents\<close>

definition tab_st :: "sm_state \<Rightarrow> RmFileHandle \<Rightarrow> rm_state" where
  "tab_st st h = \<lparr>fh = h, bpm = sm_bpm st\<rparr>"

definition contents :: "sm_state \<Rightarrow> string \<Rightarrow> Rid \<rightharpoonup> byte list" where
  "contents st t = (case map_of (fhs st) t of None \<Rightarrow> Map.empty | Some h \<Rightarrow> recs (tab_st st h))"

text \<open>What no record operation changes of a handle: descriptor, record size and slots per page.\<close>

definition shape :: "sm_state \<Rightarrow> string \<Rightarrow> (int \<times> int \<times> int) option" where
  "shape st t = map_option (\<lambda>h. (fh_fd h, record_size (file_hdr h), num_records_per_page (file_hdr h))) (map_of (fhs st) t)"

definition files_ok :: "sm_state \<Rightarrow> bool" where
  "files_ok st \<longleftrightarrow>
     quiet (sm_bpm st) \<and> distinct (map fst (fhs st)) \<and>
     (\<forall>k h k' h'. map_of (fhs st) k = Some h \<longrightarrow> map_of (fhs st) k' = Some h' \<longrightarrow> fh_fd h = fh_fd h' \<longrightarrow> k = k') \<and>
     (\<forall>k h. map_of (fhs st) k = Some h \<longrightarrow> rm_inv (tab_st st h))"

definition chained :: "sm_state \<Rightarrow> string \<Rightarrow> bool" where
  "chained st t \<longleftrightarrow> (\<exists>h. map_of (fhs st) t = Some h \<and> chain_inv (tab_st st h))"

definition pages_of :: "sm_state \<Rightarrow> string \<Rightarrow> int" where
  "pages_of st t = (case map_of (fhs st) t of None \<Rightarrow> 0 | Some h \<Rightarrow> num_pages (file_hdr h))"

text \<open>What record operations leave alone.\<close>

definition same_files :: "disk_manager \<Rightarrow> disk_manager \<Rightarrow> bool" where
  "same_files d d' \<longleftrightarrow> path2fd d' = path2fd d \<and> fd2path d' = fd2path d \<and> log_fd d' = log_fd d"

text \<open>The log file is open, it is no table, and the buffer pool has none of its pages.\<close>

definition log_apart :: "sm_state \<Rightarrow> bool" where
  "log_apart st \<longleftrightarrow>
     log_open (disk (sm_bpm st)) \<and>
     (\<forall>k h. map_of (fhs st) k = Some h \<longrightarrow> fh_fd h \<noteq> log_fd (disk (sm_bpm st))) \<and>
     (\<forall>no. mk_pid (log_fd (disk (sm_bpm st))) no \<notin> cached (sm_bpm st))"

definition frame :: "sm_state \<Rightarrow> sm_state \<Rightarrow> bool" where
  "frame st st' \<longleftrightarrow>
     sm_db st' = sm_db st \<and> runtime_indexes st' = runtime_indexes st \<and> map fst (fhs st') = map fst (fhs st) \<and>
     shape st' = shape st \<and> same_files (disk (sm_bpm st)) (disk (sm_bpm st')) \<and>
     (log_apart st \<longrightarrow> log_apart st')"

lemma frame_refl [simp]: "frame st st"
  by (simp add: frame_def same_files_def)

lemma frame_trans: "frame a b \<Longrightarrow> frame b c \<Longrightarrow> frame a c"
  by (simp add: frame_def same_files_def)

definition put_file :: "string \<Rightarrow> rm_state \<Rightarrow> sm_state \<Rightarrow> sm_state" where
  "put_file t s st = (set_handle t (fh s) st)\<lparr>sm_bpm := bpm s\<rparr>"

lemma on_file_eq:
  "map_of (fhs st) t = Some h \<Longrightarrow> op (tab_st st h) = (r, s) \<Longrightarrow> on_file t op st = (r, put_file t s st)"
  by (simp add: on_file_def put_file_def tab_st_def)

lemma map_of_set_handle:
  "map_of (fhs (set_handle t h st)) k = (if k = t then map_option (\<lambda>_. h) (map_of (fhs st) t) else map_of (fhs st) k)"
proof -
  have "map_of (map (\<lambda>(k, v). (k, if k = t then h else v)) al) k =
    (if k = t then map_option (\<lambda>_. h) (map_of al t) else map_of al k)" for al
    by (induction al) auto
  then show ?thesis by (simp add: set_handle_def)
qed

lemma put_file_simps [simp]:
  "sm_db (put_file t s st) = sm_db st" "runtime_indexes (put_file t s st) = runtime_indexes st"
  "map fst (fhs (put_file t s st)) = map fst (fhs st)" "sm_bpm (put_file t s st) = bpm s"
  by (simp_all add: put_file_def set_handle_def comp_def case_prod_beta)

lemma map_of_put_file:
  "map_of (fhs (put_file t s st)) k = (if k = t then map_option (\<lambda>_. fh s) (map_of (fhs st) t) else map_of (fhs st) k)"
  by (simp add: put_file_def map_of_set_handle)

lemma tab_st_put_file: "tab_st (put_file t s st) h = s\<lparr>fh := h\<rparr>"
  by (cases s) (simp add: tab_st_def)

lemma rm_fh_self [simp]: "(s :: rm_state)\<lparr>fh := fh s\<rparr> = s"
  by simp

lemma tab_st_fh: "(tab_st st h)\<lparr>fh := h'\<rparr> = tab_st st h'" "fh (tab_st st h) = h" "bpm (tab_st st h) = sm_bpm st"
  by (simp_all add: tab_st_def)

text \<open>One table changes, the others stay.\<close>

lemma put_file_effect:
  assumes ok: "files_ok st" and h: "map_of (fhs st) t = Some h" and inv: "rm_inv s" and el: "elsewhere (tab_st st h) s"
  shows "files_ok (put_file t s st)" "contents (put_file t s st) = (contents st)(t := recs s)"
    "k \<noteq> t \<Longrightarrow> chained (put_file t s st) k = chained st k" "chained (put_file t s st) t = chain_inv s"
    "same_files (disk (sm_bpm st)) (disk (sm_bpm (put_file t s st)))"
    "pages_of (put_file t s st) t = num_pages (hdr s)" "k \<noteq> t \<Longrightarrow> pages_of (put_file t s st) k = pages_of st k"
proof -
  let ?s = "put_file t s st"
  have fd: "fh_fd (fh s) = fh_fd h" using el by (simp add: elsewhere_def tab_st_fh)
  have q: "quiet (bpm s)" using rm_invD(2) [OF inv] .
  have other: "rm_inv (tab_st ?s h')" "recs (tab_st ?s h') = recs (tab_st st h')" "chain_inv (tab_st ?s h') = chain_inv (tab_st st h')"
    if "map_of (fhs st) k = Some h'" "k \<noteq> t" for k h'
  proof -
    have "fh_fd h' \<noteq> fh_fd h" using ok h that unfolding files_ok_def by metis
    moreover have "rm_inv ((tab_st st h)\<lparr>fh := h'\<rparr>)" using ok that(1) by (auto simp: files_ok_def tab_st_fh)
    ultimately show "rm_inv (tab_st ?s h')" "recs (tab_st ?s h') = recs (tab_st st h')"
        "chain_inv (tab_st ?s h') = chain_inv (tab_st st h')"
      using elsewhere_other [OF el, of h'] by (simp_all add: tab_st_fh tab_st_put_file)
  qed
  have self: "tab_st ?s (fh s) = s" by (simp add: tab_st_put_file)
  have inj: "k = k'" if "map_of (fhs ?s) k = Some a" "map_of (fhs ?s) k' = Some b" "fh_fd a = fh_fd b" for k k' a b
  proof -
    have "\<exists>a'. map_of (fhs st) k = Some a' \<and> fh_fd a' = fh_fd a" "\<exists>b'. map_of (fhs st) k' = Some b' \<and> fh_fd b' = fh_fd b"
      using that(1,2) h fd by (auto simp: map_of_put_file split: if_splits)
    then show ?thesis using ok that(3) unfolding files_ok_def by metis
  qed
  have all: "rm_inv (tab_st ?s a)" if "map_of (fhs ?s) k = Some a" for k a
    using that h inv self other(1) [of k a] by (auto simp: map_of_put_file split: if_splits)
  show "files_ok ?s" unfolding files_ok_def
  proof (intro conjI allI impI)
    show "quiet (sm_bpm ?s)" using q by simp
    show "distinct (map fst (fhs ?s))" using ok by (simp add: files_ok_def)
  qed (use inj all in blast)+
  show "contents ?s = (contents st)(t := recs s)"
  proof (rule ext)
    fix k
    show "contents ?s k = ((contents st)(t := recs s)) k"
      using h self other(2) [of k] by (auto simp: contents_def map_of_put_file split: option.splits)
  qed
  show "k \<noteq> t \<Longrightarrow> chained ?s k = chained st k" using other(3) [of k] by (auto simp: chained_def map_of_put_file)
  show "chained ?s t = chain_inv s" using h self by (simp add: chained_def map_of_put_file)
  show "same_files (disk (sm_bpm st)) (disk (sm_bpm ?s))" using el by (simp add: same_files_def elsewhere_def tab_st_fh)
  show "pages_of ?s t = num_pages (hdr s)" using h by (simp add: pages_of_def map_of_put_file)
  show "k \<noteq> t \<Longrightarrow> pages_of ?s k = pages_of st k" by (simp add: pages_of_def map_of_put_file)
qed

lemma put_file_shape:
  assumes "map_of (fhs st) t = Some h"
    and "fh_fd (fh s) = fh_fd h" "record_size (hdr s) = record_size (file_hdr h)"
      "num_records_per_page (hdr s) = num_records_per_page (file_hdr h)"
  shows "shape (put_file t s st) = shape st"
  using assms by (auto simp: shape_def map_of_put_file fun_eq_iff)

lemma put_file_log_apart:
  assumes h: "map_of (fhs st) t = Some h" and el: "elsewhere (tab_st st h) s" and la: "log_apart st"
  shows "log_apart (put_file t s st)"
proof -
  let ?l = "log_fd (disk (sm_bpm st))"
  have e: "fh_fd (fh s) = fh_fd h" "log_fd (disk (bpm s)) = ?l" "fd2path (disk (bpm s)) = fd2path (disk (sm_bpm st))"
      "\<And>fd no. fd \<noteq> fh_fd h \<Longrightarrow> mk_pid fd no \<in> cached (bpm s) \<Longrightarrow> mk_pid fd no \<in> cached (sm_bpm st)"
    using el by (auto simp: elsewhere_def tab_st_fh)
  have l: "fh_fd h \<noteq> ?l" using la h by (auto simp: log_apart_def)
  have "fh_fd h' \<noteq> ?l" if "map_of (fhs (put_file t s st)) k = Some h'" for k h'
    using that la l e(1) h by (auto simp: map_of_put_file log_apart_def split: if_splits)
  moreover have "mk_pid ?l no \<notin> cached (bpm s)" for no
    using e(4) [of ?l no] l la by (auto simp: log_apart_def)
  ultimately show ?thesis using la e(2,3) by (simp add: log_apart_def log_open_def)
qed

lemma put_file_frame:
  assumes ok: "files_ok st" and h: "map_of (fhs st) t = Some h" and inv: "rm_inv s" and el: "elsewhere (tab_st st h) s"
    and "record_size (hdr s) = record_size (file_hdr h)" "num_records_per_page (hdr s) = num_records_per_page (file_hdr h)"
  shows "frame st (put_file t s st)"
proof -
  have "fh_fd (fh s) = fh_fd h" using el by (simp add: elsewhere_def tab_st_fh)
  then show ?thesis
    using put_file_shape [OF h] put_file_effect(5) [OF ok h inv el] put_file_log_apart [OF h el] assms(5,6) by (simp add: frame_def)
qed

lemma files_ok_rm_inv: "files_ok st \<Longrightarrow> map_of (fhs st) t = Some h \<Longrightarrow> rm_inv (tab_st st h)"
  by (auto simp: files_ok_def)

text \<open>A write to a file that is no table and has no page in the buffer pool.\<close>

definition put_disk :: "disk_manager \<Rightarrow> sm_state \<Rightarrow> sm_state" where
  "put_disk d st = st\<lparr>sm_bpm := (sm_bpm st)\<lparr>disk := d\<rparr>\<rparr>"

lemma put_disk_sel [simp]:
  "sm_db (put_disk d st) = sm_db st" "fhs (put_disk d st) = fhs st" "runtime_indexes (put_disk d st) = runtime_indexes st"
  "disk (sm_bpm (put_disk d st)) = d" "cached (sm_bpm (put_disk d st)) = cached (sm_bpm st)"
  "shape (put_disk d st) = shape st" "pages_of (put_disk d st) = pages_of st"
  by (auto simp: put_disk_def cached_def shape_def fun_eq_iff pages_of_def)

lemma quiet_disk:
  assumes q: "quiet bp" and d: "dm_inv d" "same_tables (disk bp) d"
    and pg: "\<And>fd no. mk_pid fd no \<in> cached bp \<Longrightarrow> disk_page d fd no = disk_page (disk bp) fd no"
  shows "quiet (bp\<lparr>disk := d\<rparr>)"
proof -
  have c: "bp_coh bp" and w: "bp_wf bp" using q by (simp_all add: quiet_def bp_ok_def)
  have "saved (bp\<lparr>disk := d\<rparr>) pid" if "saved bp pid" for pid
  proof -
    have "disk_page d (pg_fd pid) (pg_no pid) = disk_page (disk bp) (pg_fd pid) (pg_no pid)" if "pid \<in> cached bp"
    proof (rule pg)
      have "mk_pid (pg_fd pid) (pg_no pid) = pid" by (cases pid) simp
      with that show "mk_pid (pg_fd pid) (pg_no pid) \<in> cached bp" by argo
    qed
    then show ?thesis using that by (auto simp: saved_def cached_def domIff split: option.splits)
  qed
  then have "bp_coh (bp\<lparr>disk := d\<rparr>)" using c d(2) unfolding bp_coh_def by (simp add: same_tables_def no_faults_def)
  moreover have "pins (bp\<lparr>disk := d\<rparr>) = pins bp" by (auto simp: pins_def fun_eq_iff split: option.splits)
  ultimately show ?thesis using q bp_wf_disk [OF d(1) w] by (simp add: quiet_def bp_ok_def)
qed

lemma put_disk_effect:
  assumes ok: "files_ok st" and d: "dm_inv d" "same_tables (disk (sm_bpm st)) d"
    and pg: "\<And>fd no. mk_pid fd no \<in> cached (sm_bpm st) \<Longrightarrow> disk_page d fd no = disk_page (disk (sm_bpm st)) fd no"
    and tb: "\<And>k h no. map_of (fhs st) k = Some h \<Longrightarrow> disk_page d (fh_fd h) no = disk_page (disk (sm_bpm st)) (fh_fd h) no"
  shows "files_ok (put_disk d st)" "contents (put_disk d st) = contents st" "chained (put_disk d st) = chained st"
    "frame st (put_disk d st)"
proof -
  let ?s = "put_disk d st" and ?b = "(sm_bpm st)\<lparr>disk := d\<rparr>"
  have q: "quiet ?b" using quiet_disk [OF _ d pg] ok by (simp add: files_ok_def)
  have t: "tab_st ?s h = (tab_st st h)\<lparr>bpm := ?b\<rparr>" for h by (simp add: tab_st_def put_disk_def)
  have each: "rm_inv (tab_st ?s h)" "recs (tab_st ?s h) = recs (tab_st st h)" "chain_inv (tab_st ?s h) = chain_inv (tab_st st h)"
    if h: "map_of (fhs st) k = Some h" for k h
  proof -
    have v: "view (sm_bpm st) (mk_pid (fh_fd h) no) = Some x \<Longrightarrow> view ?b (mk_pid (fh_fd h) no) = Some x" for no x
      using tb [OF h] by (simp add: view_def split: option.splits)
    have "rm_inv (tab_st st h)" using ok h by (auto simp: files_ok_def)
    from other_pool [OF this q] v d(2) show "rm_inv (tab_st ?s h)" "recs (tab_st ?s h) = recs (tab_st st h)"
        "chain_inv (tab_st ?s h) = chain_inv (tab_st st h)"
      by (simp_all add: t tab_st_fh same_tables_def cached_def)
  qed
  show "files_ok ?s" using ok q each(1) unfolding files_ok_def by (simp add: put_disk_def)
  show "contents ?s = contents st" using each(2) by (auto simp: contents_def fun_eq_iff split: option.splits)
  show "chained ?s = chained st" using each(3) by (auto simp: chained_def fun_eq_iff)
  show "frame st ?s" using d(2) by (auto simp: frame_def same_files_def same_tables_def log_apart_def log_open_def)
qed

section \<open>Operations on a table\<close>

text \<open>A call that changes nothing but the cache.\<close>

definition calm :: "sm_state \<Rightarrow> sm_state \<Rightarrow> bool" where
  "calm st st' \<longleftrightarrow>
     frame st st' \<and> files_ok st' \<and> contents st' = contents st \<and> chained st' = chained st \<and> fhs st' = fhs st"

lemma calm_refl: "files_ok st \<Longrightarrow> calm st st"
  by (simp add: calm_def)

lemma calm_trans: "calm a b \<Longrightarrow> calm b c \<Longrightarrow> calm a c"
  using frame_trans by (auto simp: calm_def)

lemma set_handle_same: "distinct (map fst (fhs st)) \<Longrightarrow> map_of (fhs st) t = Some h \<Longrightarrow> fhs (set_handle t h st) = fhs st"
proof -
  have "distinct (map fst al) \<Longrightarrow> map_of al t = Some h \<Longrightarrow> map (\<lambda>(k, v). (k, if k = t then h else v)) al = al" for al
  proof (induction al)
    case (Cons e al)
    have "map (\<lambda>(k, v). (k, if k = t then h else v)) al = al" if "t \<notin> fst ` set al"
      using that by (intro map_idI) (force split: prod.splits)
    with Cons show ?case by (cases e) (auto split: if_splits)
  qed simp
  then show "distinct (map fst (fhs st)) \<Longrightarrow> map_of (fhs st) t = Some h \<Longrightarrow> fhs (set_handle t h st) = fhs st"
    by (simp add: set_handle_def)
qed

lemma on_file_calm:
  assumes ok: "files_ok st" and h: "map_of (fhs st) t = Some h" and op: "op (tab_st st h) = (r, s)" and u: "untouched (tab_st st h) s"
  shows "on_file t op st = (r, put_file t s st)" "calm st (put_file t s st)"
proof -
  have i: "rm_inv s" "recs s = recs (tab_st st h)" "fh s = h" "chain_inv s = chain_inv (tab_st st h)" "elsewhere (tab_st st h) s"
    using u by (simp_all add: untouched_def tab_st_fh)
  note e = put_file_effect [OF ok h i(1,5)]
  have "contents (put_file t s st) = contents st"
    using e(2) h i(2) by (auto simp: contents_def fun_eq_iff)
  moreover have "chained (put_file t s st) = chained st"
  proof (rule ext)
    fix k show "chained (put_file t s st) k = chained st k"
      using e(3) [of k] e(4) i(4) h by (cases "k = t") (auto simp: chained_def)
  qed
  moreover have "frame st (put_file t s st)" by (rule put_file_frame [OF ok h i(1,5)]) (simp_all add: i(3))
  moreover have "fhs (put_file t s st) = fhs st"
    using set_handle_same [OF _ h] ok i(3) by (simp add: put_file_def files_ok_def)
  ultimately show "calm st (put_file t s st)" using e(1) by (simp add: calm_def)
  show "on_file t op st = (r, put_file t s st)" by (rule on_file_eq [where h = h]) (rule h, rule op)
qed

lemma contents_handle: "map_of (fhs st) t = Some h \<Longrightarrow> contents st t = recs (tab_st st h)"
  by (simp add: contents_def)

lemma contents_Some_handle: "contents st t rid = Some r \<Longrightarrow> \<exists>h. map_of (fhs st) t = Some h"
  by (auto simp: contents_def split: option.splits)

lemma tab_get_record:
  assumes "files_ok st" and "map_of (fhs st) t = Some h"
  shows "\<exists>st'. on_file t (get_record rid) st =
      (case contents st t rid of Some bs \<Rightarrow> Inr bs | None \<Rightarrow> Inl (RecordNotFoundError (page_no rid) (slot_no rid)), st') \<and>
    calm st st'"
proof -
  obtain s where s: "get_record rid (tab_st st h) =
      (case recs (tab_st st h) rid of Some bs \<Rightarrow> Inr bs | None \<Rightarrow> Inl (RecordNotFoundError (page_no rid) (slot_no rid)), s)"
    "untouched (tab_st st h) s"
    using get_record_spec [OF files_ok_rm_inv [OF assms]] by blast
  from on_file_calm [where op = "get_record rid", OF assms s] contents_handle [OF assms(2)] show ?thesis by auto
qed

lemma contents_in_file:
  assumes "files_ok st" and "map_of (fhs st) t = Some h" and "contents st t rid \<noteq> None"
  shows "\<not> rid_out_of_file rid (file_hdr h)"
  using recs_rid_in_file [of "tab_st st h" rid] assms(3) contents_handle [OF assms(2)] by (simp add: tab_st_fh)

lemma contents_length:
  assumes "contents st t rid = Some bs" and "map_of (fhs st) t = Some h"
  shows "length bs = nat (record_size (file_hdr h))"
  using assms by (auto simp: contents_def recs_def page_rec_def tab_st_fh split: if_splits option.splits)

lemma tab_is_record:
  assumes "files_ok st" and "map_of (fhs st) t = Some h" and "\<not> rid_out_of_file rid (file_hdr h)"
  shows "\<exists>st'. on_file t (is_record rid) st = (Inr (contents st t rid \<noteq> None), st') \<and> calm st st'"
proof -
  obtain s where s: "is_record rid (tab_st st h) = (Inr (recs (tab_st st h) rid \<noteq> None), s)" "untouched (tab_st st h) s"
    using is_record_spec [OF files_ok_rm_inv [OF assms(1,2)]] assms(3) by (auto simp: tab_st_fh)
  from on_file_calm [where op = "is_record rid", OF assms(1,2) s] contents_handle [OF assms(2)] show ?thesis by auto
qed

text \<open>Effects of the writing operations.\<close>

definition wrote :: "string \<Rightarrow> (Rid \<rightharpoonup> byte list) \<Rightarrow> sm_state \<Rightarrow> sm_state \<Rightarrow> bool" where
  "wrote t m st st' \<longleftrightarrow>
     frame st st' \<and> files_ok st' \<and> contents st' = (contents st)(t := m) \<and>
     (\<forall>k. k \<noteq> t \<longrightarrow> chained st' k = chained st k \<and> pages_of st' k = pages_of st k)"

lemma tab_update_record:
  assumes "files_ok st" and "map_of (fhs st) t = Some h" and "contents st t rid \<noteq> None"
    and "length bs = nat (record_size (file_hdr h))"
  shows "\<exists>st'. on_file t (update_record rid bs) st = (Inr (), st') \<and> wrote t ((contents st t)(rid \<mapsto> bs)) st st' \<and>
    (chained st t \<longrightarrow> chained st' t) \<and> pages_of st' t = pages_of st t"
proof -
  note i = files_ok_rm_inv [OF assms(1,2)] and c = contents_handle [OF assms(2)]
  obtain s where s: "update_record rid bs (tab_st st h) = (Inr (), s)" "rm_inv s" "fh s = h"
      "recs s = (recs (tab_st st h))(rid \<mapsto> bs)" "chain_inv (tab_st st h) \<longrightarrow> chain_inv s" "elsewhere (tab_st st h) s"
    using update_record_spec [OF i, of rid bs] assms(3,4) c by (auto simp: tab_st_fh)
  note e = put_file_effect [OF assms(1,2) s(2,6)]
  have "frame st (put_file t s st)" by (rule put_file_frame [OF assms(1,2) s(2,6)]) (simp_all add: s(3))
  moreover have "pages_of (put_file t s st) t = pages_of st t" using e(6) s(3) assms(2) by (simp add: pages_of_def)
  ultimately show ?thesis
    using on_file_eq [where op = "update_record rid bs", OF assms(2) s(1)] e s(4,5) c assms(2) by (auto simp: wrote_def chained_def)
qed

lemma tab_delete_record:
  assumes "files_ok st" and "map_of (fhs st) t = Some h" and "contents st t rid \<noteq> None"
  shows "\<exists>st'. on_file t (delete_record rid) st = (Inr (), st') \<and> wrote t ((contents st t)(rid := None)) st st' \<and>
    (chained st t \<longrightarrow> chained st' t) \<and> pages_of st' t = pages_of st t"
proof -
  note i = files_ok_rm_inv [OF assms(1,2)] and c = contents_handle [OF assms(2)]
  obtain s where s: "delete_record rid (tab_st st h) = (Inr (), s)" "rm_inv s" "chain_inv (tab_st st h) \<longrightarrow> chain_inv s"
      "recs s = (recs (tab_st st h))(rid := None)" "num_pages (hdr s) = num_pages (file_hdr h)"
      "record_size (hdr s) = record_size (file_hdr h)" "num_records_per_page (hdr s) = num_records_per_page (file_hdr h)"
      "elsewhere (tab_st st h) s"
    using delete_record_spec [OF i, of rid] assms(3) c by (auto simp: tab_st_fh)
  note e = put_file_effect [OF assms(1,2) s(2,8)]
  have "frame st (put_file t s st)" by (rule put_file_frame [OF assms(1,2) s(2,8,6,7)])
  moreover have "pages_of (put_file t s st) t = pages_of st t" using e(6) s(5) assms(2) by (simp add: pages_of_def)
  ultimately show ?thesis
    using on_file_eq [where op = "delete_record rid", OF assms(2) s(1)] e s(3,4) c assms(2) by (auto simp: wrote_def chained_def)
qed

lemma tab_insert_record:
  assumes "files_ok st" and "map_of (fhs st) t = Some h" and "chained st t"
    and "length bs = nat (record_size (file_hdr h))" and "pages_of st t < 2147483647"
  shows "\<exists>rid st'. on_file t (insert_record bs) st = (Inr rid, st') \<and> contents st t rid = None \<and>
    wrote t ((contents st t)(rid \<mapsto> bs)) st st' \<and> chained st' t \<and> pages_of st' t \<le> pages_of st t + 1"
proof -
  note i = files_ok_rm_inv [OF assms(1,2)] and c = contents_handle [OF assms(2)]
  have ch: "chain_inv (tab_st st h)" using assms(2,3) by (simp add: chained_def)
  have np: "num_pages (hdr (tab_st st h)) < 2147483647" using assms(2,5) by (simp add: pages_of_def tab_st_fh)
  obtain rid s where s: "insert_record bs (tab_st st h) = (Inr rid, s)" "rm_inv s" "chain_inv s" "recs (tab_st st h) rid = None"
      "recs s = (recs (tab_st st h))(rid \<mapsto> bs)" "num_pages (hdr s) \<le> num_pages (file_hdr h) + 1"
      "record_size (hdr s) = record_size (file_hdr h)" "num_records_per_page (hdr s) = num_records_per_page (file_hdr h)"
      "elsewhere (tab_st st h) s"
    using rm_insert_spec [OF i ch, of bs] assms(4) np by (auto simp: tab_st_fh split: if_splits)
  note e = put_file_effect [OF assms(1,2) s(2,9)]
  have "frame st (put_file t s st)" by (rule put_file_frame [OF assms(1,2) s(2,9,7,8)])
  moreover have "pages_of (put_file t s st) t \<le> pages_of st t + 1" using e(6) s(6) assms(2) by (simp add: pages_of_def)
  ultimately show ?thesis
    using on_file_eq [where op = "insert_record bs", OF assms(2) s(1)] e s(3-5) c by (auto simp: wrote_def)
qed

lemma tab_insert_record_at:
  assumes "files_ok st" and "map_of (fhs st) t = Some h" and "contents st t rid = None"
    and "RM_FIRST_RECORD_PAGE \<le> page_no rid" "page_no rid < 2147483647" "0 \<le> slot_no rid"
      "slot_no rid < num_records_per_page (file_hdr h)"
    and "length bs = nat (record_size (file_hdr h))"
  shows "\<exists>st'. on_file t (insert_record_at rid bs) st = (Inr (), st') \<and> wrote t ((contents st t)(rid \<mapsto> bs)) st st'"
proof -
  note i = files_ok_rm_inv [OF assms(1,2)] and c = contents_handle [OF assms(2)]
  obtain s where s: "insert_record_at rid bs (tab_st st h) = (Inr (), s)" "rm_inv s" "recs s = (recs (tab_st st h))(rid \<mapsto> bs)"
      "record_size (hdr s) = record_size (file_hdr h)" "num_records_per_page (hdr s) = num_records_per_page (file_hdr h)"
      "elsewhere (tab_st st h) s"
    using insert_record_at_spec [OF i assms(4-6), of bs] assms(3,7,8) c by (auto simp: tab_st_fh)
  note e = put_file_effect [OF assms(1,2) s(2,6)]
  have "frame st (put_file t s st)" by (rule put_file_frame [OF assms(1,2) s(2,6,4,5)])
  then show ?thesis using on_file_eq [where op = "insert_record_at rid bs", OF assms(2) s(1)] e s(3) c by (auto simp: wrote_def)
qed

end
