(* ===== verification/Sm_Indexes.thy ===== *)
theory Sm_Indexes
  imports Sm_Tables
begin

text \<open>
  The indexes of the tables: \<open>sm_inv\<close>, and the effect of the functions that keep them up to date.
\<close>

section \<open>The invariant\<close>

text \<open>The indexes of a table as they are for the records \<open>m\<close>.\<close>

definition idx_state :: "sm_state \<Rightarrow> TabMeta \<Rightarrow> (Rid \<rightharpoonup> byte list) \<Rightarrow> bool" where
  "idx_state st tab m \<longleftrightarrow> (\<forall>ix\<in>set (tm_indexes tab).
     \<exists>ri. map_of (runtime_indexes st) (index_name ix) = Some ri \<and> ri_meta ri = ix \<and> index_of ix m (ri_entries ri))"

text \<open>Records that every index of the table can take, and contents that violate none of them.\<close>

definition rec_ok :: "TabMeta \<Rightarrow> byte list \<Rightarrow> bool" where
  "rec_ok tab rec \<longleftrightarrow> (\<forall>ix\<in>set (tm_indexes tab). rec_fits (im_cols ix) rec)"

definition recs_ok :: "TabMeta \<Rightarrow> (Rid \<rightharpoonup> byte list) \<Rightarrow> bool" where
  "recs_ok tab m \<longleftrightarrow> (\<forall>ix\<in>set (tm_indexes tab). fits_all ix m \<and> unique_keys ix m)"

text \<open>The catalogue: index names are not used twice, and an index belongs to its table.\<close>

definition cat_ok :: "DbMeta \<Rightarrow> bool" where
  "cat_ok db \<longleftrightarrow>
     smap_ok (tabs db) \<and>
     (\<forall>t tab. map_of (tabs db) t = Some tab \<longrightarrow>
        distinct (map index_name (tm_indexes tab)) \<and> (\<forall>ix\<in>set (tm_indexes tab). im_tab ix = t \<and> ix_wf ix)) \<and>
     (\<forall>t tab t' tab' ix ix'. map_of (tabs db) t = Some tab \<longrightarrow> map_of (tabs db) t' = Some tab' \<longrightarrow>
        ix \<in> set (tm_indexes tab) \<longrightarrow> ix' \<in> set (tm_indexes tab') \<longrightarrow> index_name ix = index_name ix' \<longrightarrow> t = t')"

definition sm_inv :: "sm_state \<Rightarrow> bool" where
  "sm_inv st \<longleftrightarrow>
     files_ok st \<and> cat_ok (sm_db st) \<and> smap_ok (runtime_indexes st) \<and>
     (\<forall>t tab. map_of (tabs (sm_db st)) t = Some tab \<longrightarrow>
        map_of (fhs st) t \<noteq> None \<and> idx_state st tab (contents st t) \<and> recs_ok tab (contents st t))"

lemma sm_invD:
  assumes "sm_inv st"
  shows "files_ok st" "cat_ok (sm_db st)" "smap_ok (runtime_indexes st)"
    "map_of (tabs (sm_db st)) t = Some tab \<Longrightarrow> map_of (fhs st) t \<noteq> None"
    "map_of (tabs (sm_db st)) t = Some tab \<Longrightarrow> idx_state st tab (contents st t)"
    "map_of (tabs (sm_db st)) t = Some tab \<Longrightarrow> recs_ok tab (contents st t)"
  using assms by (auto simp: sm_inv_def)

lemma cat_okD:
  assumes "cat_ok db" and "map_of (tabs db) t = Some tab"
  shows "distinct (map index_name (tm_indexes tab))" "ix \<in> set (tm_indexes tab) \<Longrightarrow> im_tab ix = t"
    "ix \<in> set (tm_indexes tab) \<Longrightarrow> ix_wf ix"
    "map_of (tabs db) t' = Some tab' \<Longrightarrow> ix \<in> set (tm_indexes tab) \<Longrightarrow> ix' \<in> set (tm_indexes tab') \<Longrightarrow>
       index_name ix = index_name ix' \<Longrightarrow> t = t'"
  using assms unfolding cat_ok_def by blast+

text \<open>The tables do not depend on the indexes and the catalogue.\<close>

lemma same_tables_state:
  assumes "fhs st' = fhs st" and "sm_bpm st' = sm_bpm st"
  shows "tab_st st' = tab_st st" "contents st' = contents st" "shape st' = shape st" "files_ok st' = files_ok st"
    "chained st' = chained st" "pages_of st' = pages_of st" "log_apart st' = log_apart st"
proof -
  show t: "tab_st st' = tab_st st" by (simp add: tab_st_def fun_eq_iff assms)
  show "contents st' = contents st" "shape st' = shape st" "files_ok st' = files_ok st" "chained st' = chained st"
      "pages_of st' = pages_of st" "log_apart st' = log_apart st"
    unfolding contents_def shape_def files_ok_def chained_def pages_of_def log_apart_def t assms by simp_all
qed

lemma set_runtime_index_sel [simp]:
  "fhs (set_runtime_index n ri st) = fhs st" "sm_bpm (set_runtime_index n ri st) = sm_bpm st"
  "sm_db (set_runtime_index n ri st) = sm_db st"
  by (simp_all add: set_runtime_index_def)

section \<open>Loops over the indexes of a table\<close>

text \<open>A loop that replaces each index by what \<open>g\<close> makes of it.\<close>

lemma index_loop:
  assumes "distinct (map index_name idxs)" and "smap_ok (runtime_indexes st)"
    and "\<And>ix. ix \<in> set idxs \<Longrightarrow> map_of (runtime_indexes st) (index_name ix) \<noteq> None"
  shows "\<exists>R. for_each idxs (\<lambda>index. on_index index (g index)) st = (Inr (), st\<lparr>runtime_indexes := R\<rparr>) \<and>
    smap_ok R \<and>
    (\<forall>ix\<in>set idxs. map_of R (index_name ix) = Some (g ix (the (map_of (runtime_indexes st) (index_name ix))))) \<and>
    (\<forall>n. n \<notin> index_name ` set idxs \<longrightarrow> map_of R n = map_of (runtime_indexes st) n)"
  using assms
proof (induction idxs arbitrary: st)
  case Nil
  then show ?case by (intro exI [of _ "runtime_indexes st"]) simp
next
  case (Cons ix idxs)
  obtain ri where ri: "map_of (runtime_indexes st) (index_name ix) = Some ri" using Cons.prems(3) [of ix] by auto
  let ?s = "set_runtime_index (index_name ix) (g ix ri) st"
  have R: "runtime_indexes ?s = smap_set (index_name ix) (g ix ri) (runtime_indexes st)" by (simp add: set_runtime_index_def)
  have m: "map_of (runtime_indexes ?s) = (map_of (runtime_indexes st))(index_name ix \<mapsto> g ix ri)"
    using map_of_smap_set [OF Cons.prems(2)] R by simp
  have ne: "index_name ix' \<noteq> index_name ix" if "ix' \<in> set idxs" for ix' using that Cons.prems(1) by (metis distinct.simps(2) imageI list.set_map list.simps(9))
  have "smap_ok (runtime_indexes ?s)" using smap_ok_set [OF Cons.prems(2)] R by simp
  moreover have "map_of (runtime_indexes ?s) (index_name ix') \<noteq> None" if "ix' \<in> set idxs" for ix'
    using that ne [OF that] Cons.prems(3) [of ix'] m by simp
  ultimately obtain R' where R': "for_each idxs (\<lambda>index. on_index index (g index)) ?s = (Inr (), ?s\<lparr>runtime_indexes := R'\<rparr>)" "smap_ok R'"
      "\<forall>ix\<in>set idxs. map_of R' (index_name ix) = Some (g ix (the (map_of (runtime_indexes ?s) (index_name ix))))"
      "\<forall>n. n \<notin> index_name ` set idxs \<longrightarrow> map_of R' n = map_of (runtime_indexes ?s) n"
    using Cons.IH [of ?s] Cons.prems(1) by auto
  have "for_each (ix # idxs) (\<lambda>index. on_index index (g index)) st = (Inr (), st\<lparr>runtime_indexes := R'\<rparr>)"
    using R'(1) ri by (simp add: on_index_def at_runtime_index_def bind_e_app set_runtime_index_def)
  moreover have "index_name ix \<notin> index_name ` set idxs" using Cons.prems(1) by simp
  then have "map_of R' (index_name ix) = Some (g ix ri)" using R'(4) m by simp
  moreover have "\<forall>ix'\<in>set idxs. map_of R' (index_name ix') = Some (g ix' (the (map_of (runtime_indexes st) (index_name ix'))))"
    using R'(3) m ne by simp
  ultimately show ?case using R'(2,4) m ri by (intro exI [of _ R']) auto
qed

text \<open>An update of the indexes of one table: the others keep theirs.\<close>

definition reindexed :: "string \<Rightarrow> TabMeta \<Rightarrow> (Rid \<rightharpoonup> byte list) \<Rightarrow> sm_state \<Rightarrow> sm_state \<Rightarrow> bool" where
  "reindexed t tab m st st' \<longleftrightarrow>
     (\<exists>R. st' = st\<lparr>runtime_indexes := R\<rparr> \<and> smap_ok R \<and> idx_state st' tab m \<and>
        (\<forall>n. n \<notin> index_name ` set (tm_indexes tab) \<longrightarrow> map_of R n = map_of (runtime_indexes st) n))"

lemma index_update_loop:
  assumes "cat_ok (sm_db st)" and t: "map_of (tabs (sm_db st)) t = Some tab" and "smap_ok (runtime_indexes st)"
    and i: "idx_state st tab m"
    and g: "\<And>ix ri. ix \<in> set (tm_indexes tab) \<Longrightarrow> ri_meta ri = ix \<Longrightarrow> index_of ix m (ri_entries ri) \<Longrightarrow>
       ri_meta (g ix ri) = ix \<and> index_of ix m' (ri_entries (g ix ri))"
  shows "\<exists>st'. for_each (tm_indexes tab) (\<lambda>index. on_index index (g index)) st = (Inr (), st') \<and> reindexed t tab m' st st'"
proof -
  have "\<exists>R. for_each (tm_indexes tab) (\<lambda>index. on_index index (g index)) st = (Inr (), st\<lparr>runtime_indexes := R\<rparr>) \<and>
    smap_ok R \<and>
    (\<forall>ix\<in>set (tm_indexes tab). map_of R (index_name ix) = Some (g ix (the (map_of (runtime_indexes st) (index_name ix))))) \<and>
    (\<forall>n. n \<notin> index_name ` set (tm_indexes tab) \<longrightarrow> map_of R n = map_of (runtime_indexes st) n)"
    using cat_okD(1) [OF assms(1) t] assms(3) i by (intro index_loop) (auto simp: idx_state_def)
  then obtain R where R: "for_each (tm_indexes tab) (\<lambda>index. on_index index (g index)) st = (Inr (), st\<lparr>runtime_indexes := R\<rparr>)" "smap_ok R"
    "\<forall>ix\<in>set (tm_indexes tab). map_of R (index_name ix) = Some (g ix (the (map_of (runtime_indexes st) (index_name ix))))"
    "\<forall>n. n \<notin> index_name ` set (tm_indexes tab) \<longrightarrow> map_of R n = map_of (runtime_indexes st) n" by blast
  have "idx_state (st\<lparr>runtime_indexes := R\<rparr>) tab m'" unfolding idx_state_def
  proof
    fix ix assume ix: "ix \<in> set (tm_indexes tab)"
    then obtain ri where ri: "map_of (runtime_indexes st) (index_name ix) = Some ri" "ri_meta ri = ix" "index_of ix m (ri_entries ri)"
      using i by (auto simp: idx_state_def)
    have "map_of R (index_name ix) = Some (g ix ri)" using R(3) ix ri(1) by simp
    with g [OF ix ri(2,3)] show "\<exists>ri. map_of (runtime_indexes (st\<lparr>runtime_indexes := R\<rparr>)) (index_name ix) = Some ri \<and>
        ri_meta ri = ix \<and> index_of ix m' (ri_entries ri)" by simp
  qed
  then show ?thesis using R unfolding reindexed_def by blast
qed

section \<open>The operations\<close>

lemma get_table_Inr: "get_table db t = Inr tab \<longleftrightarrow> map_of (tabs db) t = Some tab"
  by (auto simp: get_table_def split: option.splits)

lemma insert_index_entries_spec:
  assumes "cat_ok (sm_db st)" and t: "map_of (tabs (sm_db st)) t = Some tab" and "smap_ok (runtime_indexes st)"
    and "idx_state st tab m" and r: "rec_ok tab rec" and n: "m rid = None"
  shows "\<exists>st'. insert_index_entries t rec rid st = (Inr (), st') \<and> reindexed t tab (m(rid \<mapsto> rec)) st st'"
proof -
  have "\<exists>st'. for_each (tm_indexes tab) (\<lambda>index. on_index index (insert_entry index (make_index_key index rec) rid)) st = (Inr (), st') \<and>
      reindexed t tab (m(rid \<mapsto> rec)) st st'"
  proof (rule index_update_loop [OF assms(1-4)])
    fix ix and ri :: RuntimeIndex assume ix: "ix \<in> set (tm_indexes tab)" "ri_meta ri = ix" "index_of ix m (ri_entries ri)"
    then show "ri_meta (insert_entry ix (make_index_key ix rec) rid ri) = ix \<and>
        index_of ix (m(rid \<mapsto> rec)) (ri_entries (insert_entry ix (make_index_key ix rec) rid ri))"
      using index_of_insert [OF ix(3) cat_okD(3) [OF assms(1) t ix(1)] _ n] r
      by (simp add: rec_ok_def insert_entry_def Let_def)
  qed
  then show ?thesis using t by (simp add: insert_index_entries_def bind_e_app get_table_def)
qed

lemma delete_index_entries_spec:
  assumes "cat_ok (sm_db st)" and t: "map_of (tabs (sm_db st)) t = Some tab" and "smap_ok (runtime_indexes st)"
    and "idx_state st tab m" and f: "\<And>ix. ix \<in> set (tm_indexes tab) \<Longrightarrow> fits_all ix m" and n: "m rid = Some rec"
  shows "\<exists>st'. delete_index_entries t rec rid st = (Inr (), st') \<and> reindexed t tab (m(rid := None)) st st'"
proof -
  have "\<exists>st'. for_each (tm_indexes tab) (\<lambda>index. on_index index (delete_entry index (make_index_key index rec) rid)) st = (Inr (), st') \<and>
      reindexed t tab (m(rid := None)) st st'"
  proof (rule index_update_loop [OF assms(1-4)])
    fix ix and ri :: RuntimeIndex assume ix: "ix \<in> set (tm_indexes tab)" "ri_meta ri = ix" "index_of ix m (ri_entries ri)"
    then show "ri_meta (delete_entry ix (make_index_key ix rec) rid ri) = ix \<and>
        index_of ix (m(rid := None)) (ri_entries (delete_entry ix (make_index_key ix rec) rid ri))"
      using index_of_delete [OF ix(3) cat_okD(3) [OF assms(1) t ix(1)] f [OF ix(1)] n]
      by (simp add: delete_entry_def Let_def)
  qed
  then show ?thesis using t by (simp add: delete_index_entries_def bind_e_app get_table_def)
qed

text \<open>A record clashes with the table when another record has its key in some index.\<close>

definition clashes :: "TabMeta \<Rightarrow> (Rid \<rightharpoonup> byte list) \<Rightarrow> byte list \<Rightarrow> Rid option \<Rightarrow> bool" where
  "clashes tab m rec self \<longleftrightarrow> (\<exists>ix\<in>set (tm_indexes tab). \<exists>rid old.
     m rid = Some old \<and> rec_key ix old = rec_key ix rec \<and> self \<noteq> Some rid)"

lemma throw_loop:
  "for_each xs (\<lambda>x. bind_e (gets_e (f x)) (\<lambda>q. bind_e (lift_r q) (\<lambda>y. throw_if (P x y) e))) st =
     (if \<exists>x\<in>set xs. P x (v x) then Inl e else Inr (), st)" if "\<And>x. x \<in> set xs \<Longrightarrow> f x st = Inr (v x)"
  using that by (induction xs) (auto simp: bind_e_app throw_if_app)

lemma check_index_insert_spec:
  assumes c: "cat_ok (sm_db st)" and t: "map_of (tabs (sm_db st)) t = Some tab" and i: "idx_state st tab m"
    and ok: "recs_ok tab m" and r: "rec_ok tab rec"
  shows "check_index_insert t rec self st =
    (if clashes tab m rec self then Inl (InternalError ''Duplicate value violates unique index'') else Inr (), st)"
proof -
  let ?v = "\<lambda>ix. the (map_of (runtime_indexes st) (index_name ix))"
  have v: "get_runtime_index t (map cm_name (im_cols ix)) st = Inr (?v ix)"
      "duplicate_key ix (?v ix) (make_index_key ix rec) self \<longleftrightarrow>
        (\<exists>rid old. m rid = Some old \<and> rec_key ix old = rec_key ix rec \<and> self \<noteq> Some rid)"
    if ix: "ix \<in> set (tm_indexes tab)" for ix
  proof -
    obtain ri where ri: "map_of (runtime_indexes st) (index_name ix) = Some ri" "ri_meta ri = ix" "index_of ix m (ri_entries ri)"
      using i ix by (auto simp: idx_state_def)
    show "get_runtime_index t (map cm_name (im_cols ix)) st = Inr (?v ix)"
      using ri(1) cat_okD(2) [OF c t ix] by (simp add: get_runtime_index_def index_name_def)
    show "duplicate_key ix (?v ix) (make_index_key ix rec) self \<longleftrightarrow>
        (\<exists>rid old. m rid = Some old \<and> rec_key ix old = rec_key ix rec \<and> self \<noteq> Some rid)"
      using duplicate_key_iff [OF ri(3) cat_okD(3) [OF c t ix]] ok r ix ri(1) by (simp add: recs_ok_def rec_ok_def)
  qed
  show ?thesis
    using t throw_loop [of "tm_indexes tab" "\<lambda>ix. get_runtime_index t (map cm_name (im_cols ix))" st ?v
        "\<lambda>ix ri. duplicate_key ix ri (make_index_key ix rec) self"] v
    by (simp add: check_index_insert_def bind_e_app get_table_def clashes_def)
qed

lemma reindexed_sel:
  assumes "reindexed t tab m st st'"
  shows "sm_db st' = sm_db st" "fhs st' = fhs st" "sm_bpm st' = sm_bpm st" "contents st' = contents st" "shape st' = shape st"
    "files_ok st' = files_ok st" "chained st' = chained st" "smap_ok (runtime_indexes st')" "idx_state st' tab m"
    "pages_of st' = pages_of st" "log_apart st' = log_apart st"
proof -
  obtain R where R: "st' = st\<lparr>runtime_indexes := R\<rparr>" "smap_ok R" "idx_state st' tab m" using assms by (auto simp: reindexed_def)
  then have e: "fhs st' = fhs st" "sm_bpm st' = sm_bpm st" by simp_all
  show "sm_db st' = sm_db st" "fhs st' = fhs st" "sm_bpm st' = sm_bpm st" "smap_ok (runtime_indexes st')" "idx_state st' tab m"
    using R by simp_all
  show "contents st' = contents st" "shape st' = shape st" "files_ok st' = files_ok st" "chained st' = chained st"
    "pages_of st' = pages_of st" "log_apart st' = log_apart st"
    using same_tables_state [OF e] by simp_all
qed

lemma reindexed_trans:
  assumes "reindexed t tab m a b" and "reindexed t tab m' b c"
  shows "reindexed t tab m' a c"
  using assms unfolding reindexed_def by auto

lemma unique_keys_minus: "unique_keys ix m \<Longrightarrow> unique_keys ix (m(rid := None))"
  unfolding unique_keys_def by (metis fun_upd_apply option.distinct(1))

lemma fits_all_minus: "fits_all ix m \<Longrightarrow> fits_all ix (m(rid := None))"
  by (auto simp: fits_all_def)

lemma recs_ok_minus: "recs_ok tab m \<Longrightarrow> recs_ok tab (m(rid := None))"
  by (simp add: recs_ok_def unique_keys_minus fits_all_minus)

lemma recs_ok_upd:
  assumes "recs_ok tab m" and "rec_ok tab rec" and "\<not> clashes tab m rec (Some rid)"
  shows "recs_ok tab (m(rid \<mapsto> rec))"
  unfolding recs_ok_def
proof (intro ballI conjI)
  fix ix assume ix: "ix \<in> set (tm_indexes tab)"
  show "fits_all ix (m(rid \<mapsto> rec))" using assms(1,2) ix by (auto simp: recs_ok_def rec_ok_def fits_all_def)
  have u: "unique_keys ix m" using assms(1) ix by (simp add: recs_ok_def)
  have c: "rec_key ix old \<noteq> rec_key ix rec" if "m r = Some old" "r \<noteq> rid" for r old
    using assms(3) ix that by (auto simp: clashes_def)
  show "unique_keys ix (m(rid \<mapsto> rec))"
    unfolding unique_keys_def
  proof (intro allI impI)
    fix r1 r2 a b
    assume a: "(m(rid \<mapsto> rec)) r1 = Some a" "(m(rid \<mapsto> rec)) r2 = Some b" "rec_key ix a = rec_key ix b"
    show "r1 = r2"
    proof (cases "r1 = rid \<or> r2 = rid")
      case True
      then show ?thesis using a c [of r1 a] c [of r2 b] by (auto split: if_splits)
    next
      case False
      then show ?thesis using a u unfolding unique_keys_def by auto
    qed
  qed
qed

lemma clashes_None_Some: "m rid = None \<Longrightarrow> clashes tab m rec None = clashes tab m rec (Some rid)"
  unfolding clashes_def by (metis option.distinct(1) option.inject)

lemma update_index_entries_spec:
  assumes c: "cat_ok (sm_db st)" and t: "map_of (tabs (sm_db st)) t = Some tab" and s: "smap_ok (runtime_indexes st)"
    and i: "idx_state st tab m" and ok: "recs_ok tab m" and r: "rec_ok tab new" and old: "m rid = Some old"
  shows "\<exists>st'. update_index_entries t old new rid st =
      (if clashes tab m new (Some rid) then Inl (InternalError ''Duplicate value violates unique index'') else Inr (), st') \<and>
    (if clashes tab m new (Some rid) then st' = st else reindexed t tab (m(rid \<mapsto> new)) st st')"
proof (cases "clashes tab m new (Some rid)")
  case True
  then show ?thesis using check_index_insert_spec [OF c t i ok r] by (simp add: update_index_entries_def bind_e_app)
next
  case False
  have f: "\<And>ix. ix \<in> set (tm_indexes tab) \<Longrightarrow> fits_all ix m" using ok by (simp add: recs_ok_def)
  obtain s1 where s1: "delete_index_entries t old rid st = (Inr (), s1)" "reindexed t tab (m(rid := None)) st s1"
    using delete_index_entries_spec [OF c t s i f old] by blast
  note q = reindexed_sel [OF s1(2)]
  obtain s2 where s2: "insert_index_entries t new rid s1 = (Inr (), s2)" "reindexed t tab ((m(rid := None))(rid \<mapsto> new)) s1 s2"
    using insert_index_entries_spec [OF _ _ q(8,9) r, of t rid] c t q(1) by auto
  show ?thesis
    using False check_index_insert_spec [OF c t i ok r] s1(1) s2(1) reindexed_trans [OF s1(2) s2(2)]
    by (auto simp: update_index_entries_def bind_e_app)
qed

text \<open>What an operation on the records and indexes of one table does to the whole.\<close>

lemma sm_inv_change:
  assumes inv: "sm_inv st" and t: "map_of (tabs (sm_db st)) t = Some tab"
    and db: "sm_db st' = sm_db st" and f: "files_ok st'" and fh: "map fst (fhs st') = map fst (fhs st)"
    and c: "contents st' = (contents st)(t := m)" and s: "smap_ok (runtime_indexes st')" and i: "idx_state st' tab m"
    and ok: "recs_ok tab m"
    and others: "\<And>n. n \<notin> index_name ` set (tm_indexes tab) \<Longrightarrow> map_of (runtime_indexes st') n = map_of (runtime_indexes st) n"
  shows "sm_inv st'"
  unfolding sm_inv_def
proof (intro conjI allI impI)
  show "cat_ok (sm_db st')" using sm_invD(2) [OF inv] db by simp
  fix t' tab' assume "map_of (tabs (sm_db st')) t' = Some tab'"
  then have t': "map_of (tabs (sm_db st)) t' = Some tab'" using db by simp
  show "map_of (fhs st') t' \<noteq> None"
    using sm_invD(4) [OF inv t'] fh by (metis map_of_eq_None_iff list.set_map)
  show "recs_ok tab' (contents st' t')" using sm_invD(6) [OF inv t'] c ok t t' by (cases "t' = t") auto
  show "idx_state st' tab' (contents st' t')"
  proof (cases "t' = t")
    case True
    then show ?thesis using i c t t' by simp
  next
    case False
    have "map_of (runtime_indexes st') (index_name ix) = map_of (runtime_indexes st) (index_name ix)" if "ix \<in> set (tm_indexes tab')" for ix
    proof (rule others)
      show "index_name ix \<notin> index_name ` set (tm_indexes tab)"
      proof
        assume "index_name ix \<in> index_name ` set (tm_indexes tab)"
        then obtain ix0 where "ix0 \<in> set (tm_indexes tab)" "index_name ix0 = index_name ix" by auto
        then show False using cat_okD(4) [OF sm_invD(2) [OF inv] t t' _ that] False by blast
      qed
    qed
    then show ?thesis using sm_invD(5) [OF inv t'] c False by (simp add: idx_state_def)
  qed
qed (use f s in simp_all)

section \<open>Building an index from the table\<close>

definition entry_of :: "IndexMeta \<Rightarrow> (Rid \<rightharpoonup> byte list) \<Rightarrow> Rid \<Rightarrow> RuntimeIndexEntry" where
  "entry_of ix m rid = \<lparr>ie_key = make_index_key ix (the (m rid)), ie_rid = rid\<rparr>"

lemma index_entries_spec:
  assumes "rm_inv st" and "scan_pos st rid" and "card (from_rid st rid) < k"
  shows "\<exists>rs st'. index_entries k ix rid st = (Inr (map (entry_of ix (recs st)) rs), st') \<and> untouched st st' \<and>
    set rs = from_rid st rid \<and> sorted_wrt rid_less rs"
  using assms
proof (induction k arbitrary: rid st)
  case 0
  then show ?case by simp
next
  case (Suc k)
  show ?case
  proof (cases "page_no rid < num_pages (hdr st)")
    case False
    then show ?thesis using Suc.prems by (simp add: scan_is_end_def scan_pos_def untouched_refl)
  next
    case True
    then obtain rec where rec: "recs st rid = Some rec" using Suc.prems(2) by (auto simp: scan_pos_def)
    obtain st0 where g: "get_record rid st = (Inr rec, st0)" "untouched st st0" using get_record_spec [OF Suc.prems(1), of rid] rec by auto
    have u0: "rm_inv st0" "scan_pos st0 = scan_pos st" "from_rid st0 = from_rid st" "fh st0 = fh st" "recs st0 = recs st"
      using g(2) scan_pos_cong [of st0 st] by (simp_all add: untouched_def)
    have p0: "scan_pos st0 rid" "page_no rid < num_pages (hdr st0)" using Suc.prems(2) True u0 by simp_all
    obtain rid' st1 where n: "scan_next rid st0 = (Inr rid', st1)" "untouched st0 st1" "scan_pos st0 rid'"
      "from_rid st0 rid = insert rid (from_rid st0 rid')" "\<And>q. q \<in> from_rid st0 rid' \<Longrightarrow> rid_less rid q"
      "card (from_rid st0 rid) = Suc (card (from_rid st0 rid'))"
      by (rule scan_step [OF u0(1) p0]) blast
    have u: "rm_inv st1" "scan_pos st1 = scan_pos st0" "from_rid st1 = from_rid st0" "recs st1 = recs st"
      using n(2) scan_pos_cong [of st1 st0] u0(5) by (simp_all add: untouched_def)
    obtain rs st2 where i: "index_entries k ix rid' st1 = (Inr (map (entry_of ix (recs st)) rs), st2)" "untouched st1 st2"
        "set rs = from_rid st rid'" "sorted_wrt rid_less rs"
      using Suc.IH [OF u(1), of rid'] Suc.prems(3) n(3,6) u u0 by auto
    have "index_entries (Suc k) ix rid st = (Inr (map (entry_of ix (recs st)) (rid # rs)), st2)"
      using True g(1) n(1) i(1) rec by (simp add: scan_is_end_def bind_e_app entry_of_def)
    moreover have "set (rid # rs) = from_rid st rid" "sorted_wrt rid_less (rid # rs)" using i(3,4) n(4,5) u0(3) by auto
    ultimately show ?thesis using untouched_trans [OF g(2) untouched_trans [OF n(2) i(2)]] by blast
  qed
qed

lemma read_entries_spec:
  assumes inv: "rm_inv st"
  shows "\<exists>rs st'. read_entries ix st = (Inr (map (entry_of ix (recs st)) rs), st') \<and> untouched st st' \<and>
    set rs = dom (recs st) \<and> sorted_wrt rid_less rs"
proof -
  obtain rid st1 where n: "new_RmScan st = (Inr rid, st1)" "untouched st st1" "scan_pos st rid" "from_rid st rid = dom (recs st)"
    by (rule scan_start [OF inv])
  have u: "rm_inv st1" "scan_pos st1 = scan_pos st" "from_rid st1 = from_rid st" "recs st1 = recs st"
    using n(2) scan_pos_cong [of st1 st] by (simp_all add: untouched_def)
  have "card (from_rid st1 rid) < scan_fuel (hdr st)" using card_recs_bound [of st] n(4) u(3) by (simp add: scan_fuel_def)
  from index_entries_spec [OF u(1) _ this, of ix] n(3) u obtain rs st2 where
    "index_entries (scan_fuel (hdr st)) ix rid st1 = (Inr (map (entry_of ix (recs st)) rs), st2)" "untouched st1 st2"
    "set rs = from_rid st rid" "sorted_wrt rid_less rs" by auto
  then show ?thesis using n(1,4) untouched_trans [OF n(2)] by (auto simp: read_entries_def)
qed

lemma sorted_rid_distinct: "sorted_wrt rid_less rs \<Longrightarrow> distinct rs"
  by (induction rs) auto

lemma tab_read_entries:
  assumes "files_ok st" and "map_of (fhs st) t = Some h"
  shows "\<exists>rs st'. on_file t (read_entries ix) st = (Inr (map (entry_of ix (contents st t)) rs), st') \<and> calm st st' \<and>
    set rs = dom (contents st t) \<and> distinct rs"
proof -
  obtain rs s where s: "read_entries ix (tab_st st h) = (Inr (map (entry_of ix (recs (tab_st st h))) rs), s)" "untouched (tab_st st h) s"
      "set rs = dom (recs (tab_st st h))" "sorted_wrt rid_less rs"
    using read_entries_spec [OF files_ok_rm_inv [OF assms]] by blast
  from on_file_calm [where op = "read_entries ix", OF assms s(1,2)] contents_handle [OF assms(2)] sorted_rid_distinct [OF s(4)] s(3)
  show ?thesis by (intro exI [of _ rs] exI [of _ "put_file t s st"]) simp
qed

lemma built_index:
  assumes "ix_wf ix" and "fits_all ix m" and "set rs = dom m" and "distinct rs"
  shows "index_of ix m (ri_entries (sort_runtime_index \<lparr>ri_meta = ix, ri_entries = map (entry_of ix m) rs\<rparr>))"
  using index_of_sort [OF assms(1,2,4,3)] by (simp add: sort_runtime_index_def entry_of_def [abs_def])

lemma rebuild_runtime_index_spec:
  assumes ok: "files_ok st" and "smap_ok (runtime_indexes st)" and h: "map_of (fhs st) (im_tab ix) = Some h" and "ix_wf ix"
    and "fits_all ix (contents st (im_tab ix))"
  shows "\<exists>st' ri. rebuild_runtime_index ix st = (Inr (), st') \<and> files_ok st' \<and> contents st' = contents st \<and> fhs st' = fhs st \<and>
    sm_db st' = sm_db st \<and> smap_ok (runtime_indexes st') \<and>
    map_of (runtime_indexes st') = (map_of (runtime_indexes st))(index_name ix \<mapsto> ri) \<and>
    ri_meta ri = ix \<and> index_of ix (contents st (im_tab ix)) (ri_entries ri) \<and> chained st' = chained st \<and>
    (log_apart st \<longrightarrow> log_apart st')"
proof -
  obtain rs s1 where s1: "on_file (im_tab ix) (read_entries ix) st = (Inr (map (entry_of ix (contents st (im_tab ix))) rs), s1)"
      "calm st s1" "set rs = dom (contents st (im_tab ix))" "distinct rs"
    using tab_read_entries [OF ok h] by blast
  let ?ri = "sort_runtime_index \<lparr>ri_meta = ix, ri_entries = map (entry_of ix (contents st (im_tab ix))) rs\<rparr>"
  let ?s = "set_runtime_index (index_name ix) ?ri s1"
  note c = same_tables_state [of ?s s1, OF set_runtime_index_sel(1,2)]
  have r: "runtime_indexes s1 = runtime_indexes st" "sm_db s1 = sm_db st" "fhs s1 = fhs st" "contents s1 = contents st" "files_ok s1"
      "chained s1 = chained st" "log_apart st \<longrightarrow> log_apart s1"
    using s1(2) by (auto simp: calm_def frame_def)
  have "rebuild_runtime_index ix st = (Inr (), ?s)" using s1(1) by (simp add: rebuild_runtime_index_def)
  moreover have "smap_ok (runtime_indexes ?s)"
      "map_of (runtime_indexes ?s) = (map_of (runtime_indexes st))(index_name ix \<mapsto> ?ri)"
    using smap_ok_set [OF assms(2)] map_of_smap_set [OF assms(2)] r(1) by (simp_all add: set_runtime_index_def)
  moreover have "ri_meta ?ri = ix" by (simp add: sort_runtime_index_def)
  ultimately show ?thesis
    using built_index [OF assms(4,5) s1(3,4)] c r by (intro exI [of _ ?s] exI [of _ ?ri]) (simp add: fun_eq_iff)
qed

end
