(* ===== verification/Sm_Catalog.thy ===== *)
theory Sm_Catalog
  imports Sm_Indexes
begin

text \<open>
  Changes of the catalogue: \<^verbatim>\<open>flush_meta\<close> leaves the tables alone and makes the catalogue readable again, and
  \<^verbatim>\<open>create_index\<close> adds an index exactly when the records of the table have different keys.
\<close>

section \<open>The catalogue file\<close>

definition meta_apart :: "sm_state \<Rightarrow> bool" where
  "meta_apart st \<longleftrightarrow> (\<forall>fd. fd2path (disk (sm_bpm st)) fd \<noteq> Some DB_META_NAME)"

lemma flush_meta_spec:
  assumes ok: "files_ok st" and m: "meta_apart st"
  shows "\<exists>st'. flush_meta st = (Inr (), st') \<and> files_ok st' \<and> contents st' = contents st \<and> chained st' = chained st \<and>
    frame st st' \<and> fhs st' = fhs st \<and>
    (\<not> os_is_dir DB_META_NAME (sys (disk (sm_bpm st))) \<longrightarrow>
       os_get_text DB_META_NAME (sys (disk (sm_bpm st'))) = Some (put_DbMeta (sm_db st)))"
proof -
  let ?d = "disk (sm_bpm st)" and ?t = "put_DbMeta (sm_db st)"
  let ?d' = "?d\<lparr>sys := os_put_text DB_META_NAME ?t (sys ?d)\<rparr>"
  have "bp_ok (sm_bpm st)" using ok by (simp add: files_ok_def quiet_def)
  then have inv: "dm_inv ?d" "no_faults ?d" using bp_wfD(14) bp_cohD(1) by (auto simp: bp_ok_def)
  then have nf: "io_fail (sys ?d) = {}" by (simp add: no_faults_def)
  have n: "nodes (sys ?d') q = nodes (sys ?d) q" if "q \<noteq> DB_META_NAME" for q using that by (simp add: os_put_text_def Let_def)
  have o: "fds (sys ?d') = fds (sys ?d)" "io_fail (sys ?d') = io_fail (sys ?d)" by (simp_all add: os_put_text_def Let_def)
  have p: "fd2path ?d fd = Some q \<Longrightarrow> q \<noteq> DB_META_NAME" for fd q using m by (auto simp: meta_apart_def)
  have "same_tables ?d ?d'" unfolding same_tables_def using o by simp
  moreover have "dm_inv ?d'"
    using inv(1) unfolding dm_inv_def os_is_reg_def by (simp add: p n [simplified] o [simplified])
  moreover have "disk_page ?d' fd no = disk_page ?d fd no" for fd no
    using p [of fd] n unfolding disk_page_def by (cases "fd2path ?d fd") auto
  ultimately have E: "files_ok (put_disk ?d' st)" "contents (put_disk ?d' st) = contents st" "chained (put_disk ?d' st) = chained st"
      "frame st (put_disk ?d' st)"
    using put_disk_effect [OF ok, of ?d'] by blast+
  have "os_get_text DB_META_NAME (sys ?d') = Some ?t" if "\<not> os_is_dir DB_META_NAME (sys ?d)"
    using nf that get_put_same [of "length ?t" "str_bytes ?t" zero_buf 0] by (simp add: os_get_text_def os_put_text_def Let_def)
  moreover have "flush_meta st = (Inr (), put_disk ?d' st)"
    by (simp add: flush_meta_def on_bpm_def on_disk_def put_disk_def sem_simps)
  ultimately show ?thesis using E by (intro exI [of _ "put_disk ?d' st"]) simp
qed

section \<open>Columns of a new index\<close>

text \<open>Columns up to the mark that they belong to an index.\<close>

definition unmarked :: "ColMeta \<Rightarrow> ColMeta" where
  "unmarked c = c\<lparr>cm_index := False\<rparr>"

definition named_col :: "ColMeta list \<Rightarrow> string \<Rightarrow> ColMeta" where
  "named_col cols c = the (find (\<lambda>col. cm_name col = c) cols)"

lemma unmarked_eq: "unmarked a = unmarked b \<Longrightarrow>
    cm_tab a = cm_tab b \<and> cm_name a = cm_name b \<and> cm_type a = cm_type b \<and> cm_len a = cm_len b \<and> cm_offset a = cm_offset b"
  by (cases a; cases b) (simp add: unmarked_def)

lemma find_pos_find: "find_pos P xs = Some i \<Longrightarrow> i < length xs \<and> find P xs = Some (xs ! i)"
  by (induction P xs arbitrary: i rule: find_pos.induct) (auto split: if_splits)

lemma find_pos_None: "find_pos P xs = None \<longleftrightarrow> \<not> list_ex P xs"
  by (induction P xs rule: find_pos.induct) auto

lemma unmarked_cols:
  assumes "map unmarked xs = map unmarked ys"
  shows "find_pos (\<lambda>col. cm_name col = c) xs = find_pos (\<lambda>col. cm_name col = c) ys"
    "list_ex (\<lambda>col. cm_name col = c) xs = list_ex (\<lambda>col. cm_name col = c) ys"
    "i < length ys \<Longrightarrow> unmarked (xs ! i) = unmarked (ys ! i)"
proof -
  have "length xs = length ys" using assms map_eq_imp_length_eq by blast
  then show "find_pos (\<lambda>col. cm_name col = c) xs = find_pos (\<lambda>col. cm_name col = c) ys"
      "list_ex (\<lambda>col. cm_name col = c) xs = list_ex (\<lambda>col. cm_name col = c) ys"
      "i < length ys \<Longrightarrow> unmarked (xs ! i) = unmarked (ys ! i)"
    using assms
    by (induction xs ys arbitrary: i rule: list_induct2) (auto dest: unmarked_eq simp: nth_Cons split: nat.splits)
qed

lemma take_cols_spec:
  assumes "smap_ok (tabs (sm_db st))" and "map_of (tabs (sm_db st)) t = Some tb" and "map unmarked (tm_cols tb) = map unmarked cols"
    and "\<forall>c\<in>set names. list_ex (\<lambda>col. cm_name col = c) cols"
  shows "\<exists>ix' tb' db'. take_cols t names ix st = (Inr ix', st\<lparr>sm_db := db'\<rparr>) \<and> smap_ok (tabs db') \<and>
    map_of (tabs db') = (map_of (tabs (sm_db st)))(t \<mapsto> tb') \<and> tm_indexes tb' = tm_indexes tb \<and>
    map unmarked (tm_cols tb') = map unmarked cols \<and> im_tab ix' = im_tab ix \<and> col_num ix' = col_num ix \<and>
    map unmarked (im_cols ix') = map unmarked (im_cols ix) @ map (\<lambda>c. unmarked (named_col cols c)) names"
  using assms
proof (induction names arbitrary: st tb ix)
  case Nil
  then show ?case by (intro exI [of _ ix] exI [of _ tb] exI [of _ "sm_db st"]) (simp add: fun_eq_iff)
next
  case (Cons c names)
  note U = unmarked_cols [OF Cons.prems(3)]
  obtain i where i: "find_pos (\<lambda>col. cm_name col = c) cols = Some i"
    using Cons.prems(4) find_pos_None [of "\<lambda>col. cm_name col = c" cols] by auto
  have f: "i < length cols" "named_col cols c = cols ! i" using find_pos_find [OF i] by (simp_all add: named_col_def)
  let ?col = "(tm_cols tb ! i)\<lparr>cm_index := True\<rparr>"
  let ?tb = "tb\<lparr>tm_cols := (tm_cols tb)[i := ?col]\<rparr>"
  let ?st = "st\<lparr>sm_db := SetTabMeta t ?tb (sm_db st)\<rparr>"
  let ?ix = "ix\<lparr>im_cols := im_cols ix @ [?col], col_tot_len := col_tot_len ix + cm_len ?col\<rparr>"
  have u: "unmarked ?col = unmarked (cols ! i)" using U(3) [OF f(1)] by (simp add: unmarked_def)
  have m: "map unmarked (tm_cols ?tb) = map unmarked cols"
    using Cons.prems(3) u f(1) by (simp add: map_update list_update_same_conv)
  have ok: "smap_ok (tabs (sm_db ?st))" "map_of (tabs (sm_db ?st)) = (map_of (tabs (sm_db st)))(t \<mapsto> ?tb)"
    using smap_ok_set map_of_smap_set Cons.prems(1) by (simp_all add: SetTabMeta_def)
  have t2: "map_of (tabs (sm_db ?st)) t = Some ?tb" using ok(2) by simp
  have n2: "\<forall>c\<in>set names. list_ex (\<lambda>col. cm_name col = c) cols" using Cons.prems(4) by simp
  obtain ix' tb' db' where I: "take_cols t names ?ix ?st = (Inr ix', ?st\<lparr>sm_db := db'\<rparr>)" "smap_ok (tabs db')"
      "map_of (tabs db') = (map_of (tabs (sm_db ?st)))(t \<mapsto> tb')" "tm_indexes tb' = tm_indexes ?tb"
      "map unmarked (tm_cols tb') = map unmarked cols" "im_tab ix' = im_tab ?ix" "col_num ix' = col_num ?ix"
      "map unmarked (im_cols ix') = map unmarked (im_cols ?ix) @ map (\<lambda>c. unmarked (named_col cols c)) names"
    using Cons.IH [OF ok(1) t2 m n2, of ?ix] by blast
  have "take_cols t (c # names) ix st = (Inr ix', st\<lparr>sm_db := db'\<rparr>)"
    using I(1) Cons.prems(2) i U(1) [of c] by (simp add: get_table_def get_col_def Let_def bind_r_def)
  then show ?case using I ok(2) u f(2) by (intro exI [of _ ix'] exI [of _ tb'] exI [of _ db']) simp
qed

section \<open>Creating an index\<close>

lemma has_duplicate_ordered:
  assumes "ix_wf ix" and "ordered ix es"
  shows "has_duplicate ix es \<longleftrightarrow> \<not> distinct (map (ekey ix) es)"
  using assms
proof (induction ix es rule: has_duplicate.induct)
  case (1 ix a b es)
  have o: "ordered ix (b # es)" and le: "ekey ix a \<le> ekey ix b" "\<forall>e\<in>set (b # es). ekey ix b \<le> ekey ix e"
    using "1.prems" by (auto simp: ordered_def)
  have "key_fine (im_cols ix) (ie_key a)" "key_fine (im_cols ix) (ie_key b)" using "1.prems" by (auto simp: ordered_def)
  then have "key_equal ix (ie_key a) (ie_key b) \<longleftrightarrow> ekey ix a = ekey ix b"
    using compare_full(2) [OF "1.prems"(1)] by (simp add: ekey_def)
  then show ?case using "1.IH" [OF "1.prems"(1) o] le by force
qed simp_all

lemma index_of_duplicate:
  assumes i: "index_of ix m es" and f: "fits_all ix m" and w: "ix_wf ix"
  shows "has_duplicate ix es \<longleftrightarrow> \<not> unique_keys ix m"
proof -
  have d: "distinct (map ie_rid es)" and o: "ordered ix es" using i by (simp_all add: index_of_def)
  have "distinct (map (ekey ix) es) \<longleftrightarrow> unique_keys ix m"
  proof
    assume dk: "distinct (map (ekey ix) es)"
    show "unique_keys ix m" unfolding unique_keys_def
    proof (intro allI impI)
      fix r1 r2 a b assume a: "m r1 = Some a" "m r2 = Some b" "rec_key ix a = rec_key ix b"
      let ?e = "\<lambda>r x. \<lparr>ie_key = make_index_key ix x, ie_rid = r\<rparr>"
      have "?e r1 a \<in> set es" "?e r2 b \<in> set es" using i a by (simp_all add: index_of_def)
      moreover have "ekey ix (?e r1 a) = ekey ix (?e r2 b)"
        using a f make_index_key_fits(1) [of ix a] make_index_key_fits(1) [of ix b] by (auto simp: ekey_def fits_all_def)
      ultimately have "?e r1 a = ?e r2 b" using dk unfolding distinct_map inj_on_def by blast
      then show "r1 = r2" by simp
    qed
  next
    assume u: "unique_keys ix m"
    have "x = y" if xy: "x \<in> set es" "y \<in> set es" "ekey ix x = ekey ix y" for x y
    proof -
      obtain a where a: "m (ie_rid x) = Some a" "ekey ix x = rec_key ix a" by (rule index_of_ekey [OF i f xy(1)])
      obtain b where b: "m (ie_rid y) = Some b" "ekey ix y = rec_key ix b" by (rule index_of_ekey [OF i f xy(2)])
      have "ie_rid x = ie_rid y" using u a b xy(3) unfolding unique_keys_def by metis
      then show ?thesis using d xy by (simp add: distinct_map inj_on_def)
    qed
    then show "distinct (map (ekey ix) es)" using d by (simp add: distinct_map inj_on_def)
  qed
  then show ?thesis using has_duplicate_ordered [OF w o] by simp
qed

text \<open>Two records of a table that agree on some of its columns.\<close>

definition same_key :: "ColMeta list \<Rightarrow> string list \<Rightarrow> byte list \<Rightarrow> byte list \<Rightarrow> bool" where
  "same_key cols names a b \<longleftrightarrow> (\<forall>c\<in>set names. field_key (named_col cols c) a = field_key (named_col cols c) b)"

lemma unmarked_index:
  assumes "map unmarked (im_cols ix) = map (\<lambda>c. unmarked (named_col cols c)) names"
  shows "rec_key ix r = map (\<lambda>c. field_key (named_col cols c) r) names"
    "rec_fits (im_cols ix) r \<longleftrightarrow> (\<forall>c\<in>set names. rec_fits [named_col cols c] r)"
    "map cm_name (im_cols ix) = map (\<lambda>c. cm_name (named_col cols c)) names" "length (im_cols ix) = length names"
proof -
  have e: "map f (im_cols ix) = map (\<lambda>c. f (named_col cols c)) names" if "\<And>c. f (unmarked c) = f c" for f :: "ColMeta \<Rightarrow> 'x"
  proof -
    have "map f (im_cols ix) = map f (map unmarked (im_cols ix))" by (simp add: that)
    also have "\<dots> = map (\<lambda>c. f (named_col cols c)) names" unfolding assms by (simp add: that)
    finally show ?thesis .
  qed
  show "rec_key ix r = map (\<lambda>c. field_key (named_col cols c) r) names"
    unfolding rec_key_def by (rule e) (simp add: field_key_def unmarked_def)
  show "map cm_name (im_cols ix) = map (\<lambda>c. cm_name (named_col cols c)) names" by (rule e) (simp add: unmarked_def)
  then show "length (im_cols ix) = length names" by (metis length_map)
  have "map (\<lambda>c. col_fits (length r) c \<and> field_fine c r) (im_cols ix) =
      map (\<lambda>c. col_fits (length r) (named_col cols c) \<and> field_fine (named_col cols c) r) names"
    by (rule e) (simp add: col_fits_def field_fine_def unmarked_def)
  then have "list_all (\<lambda>b. b) (map (\<lambda>c. col_fits (length r) c \<and> field_fine c r) (im_cols ix)) =
      list_all (\<lambda>b. b) (map (\<lambda>c. col_fits (length r) (named_col cols c) \<and> field_fine (named_col cols c) r) names)" by simp
  then show "rec_fits (im_cols ix) r \<longleftrightarrow> (\<forall>c\<in>set names. rec_fits [named_col cols c] r)"
    by (simp add: rec_fits_def list_all_iff)
qed

lemma named_col_name: "list_ex (\<lambda>col. cm_name col = c) cols \<Longrightarrow> cm_name (named_col cols c) = c"
  unfolding named_col_def by (induction cols) auto

lemma unique_keys_names:
  assumes "map unmarked (im_cols ix) = map (\<lambda>c. unmarked (named_col cols c)) names"
  shows "unique_keys ix m \<longleftrightarrow> (\<forall>r1 r2 a b. m r1 = Some a \<longrightarrow> m r2 = Some b \<longrightarrow> same_key cols names a b \<longrightarrow> r1 = r2)"
  unfolding unique_keys_def same_key_def unmarked_index(1) [OF assms] by simp

lemma cat_ok_new_index:
  assumes c: "cat_ok db" and t: "map_of (tabs db) t = Some tab" and s: "smap_ok (tabs db')"
    and m: "map_of (tabs db') = (map_of (tabs db))(t \<mapsto> tab')" and i: "tm_indexes tab' = tm_indexes tab @ [ix]"
    and ix: "im_tab ix = t" "ix_wf ix"
    and new: "\<And>k tb x. map_of (tabs db) k = Some tb \<Longrightarrow> x \<in> set (tm_indexes tb) \<Longrightarrow> index_name x \<noteq> index_name ix"
  shows "cat_ok db'"
proof -
  have old: "(k = t \<and> x = ix) \<or> (\<exists>tb0. map_of (tabs db) k = Some tb0 \<and> x \<in> set (tm_indexes tb0))"
    if "map_of (tabs db') k = Some tb" "x \<in> set (tm_indexes tb)" for k tb x
    using that m i t by (auto split: if_splits)
  show ?thesis unfolding cat_ok_def
  proof (intro conjI allI impI ballI)
    fix k tb assume k: "map_of (tabs db') k = Some tb"
    show "distinct (map index_name (tm_indexes tb))"
    proof (cases "k = t")
      case True
      then have "tm_indexes tb = tm_indexes tab @ [ix]" using k m i by simp
      moreover have "index_name ix \<notin> set (map index_name (tm_indexes tab))" using new [OF t] by force
      ultimately show ?thesis using cat_okD(1) [OF c t] by (simp del: set_map)
    next
      case False
      then show ?thesis using k m cat_okD(1) [OF c, of k tb] by simp
    qed
    fix x assume x: "x \<in> set (tm_indexes tb)"
    show "im_tab x = k" "ix_wf x" using old [OF k x] ix cat_okD(2,3) [OF c] by blast+
  next
    fix k tb k' tb' x x'
    assume k: "map_of (tabs db') k = Some tb" "map_of (tabs db') k' = Some tb'" and x: "x \<in> set (tm_indexes tb)" "x' \<in> set (tm_indexes tb')"
      and e: "index_name x = index_name x'"
    show "k = k'" using old [OF k(1) x(1)] old [OF k(2) x(2)] e new cat_okD(4) [OF c] by metis
  qed (rule s)
qed

lemma sm_inv_new_index:
  assumes inv: "sm_inv st" and t: "map_of (tabs (sm_db st)) t = Some tab"
    and f: "files_ok st'" and fh: "fhs st' = fhs st" and c: "contents st' = contents st"
    and s: "smap_ok (tabs (sm_db st'))" and m: "map_of (tabs (sm_db st')) = (map_of (tabs (sm_db st)))(t \<mapsto> tab')"
    and i: "tm_indexes tab' = tm_indexes tab @ [ix]" and ix: "im_tab ix = t" "ix_wf ix"
    and rs: "smap_ok (runtime_indexes st')" "map_of (runtime_indexes st') = (map_of (runtime_indexes st))(index_name ix \<mapsto> ri)"
    and fresh: "map_of (runtime_indexes st) (index_name ix) = None"
    and ri: "ri_meta ri = ix" "index_of ix (contents st t) (ri_entries ri)" and ok: "fits_all ix (contents st t)" "unique_keys ix (contents st t)"
  shows "sm_inv st'"
proof -
  have new: "index_name x \<noteq> index_name ix" if "map_of (tabs (sm_db st)) k = Some tb" "x \<in> set (tm_indexes tb)" for k tb x
    using sm_invD(5) [OF inv that(1)] that(2) fresh by (auto simp: idx_state_def)
  have old: "idx_state st' tb (contents st k)" if k: "map_of (tabs (sm_db st)) k = Some tb" for k tb
    using sm_invD(5) [OF inv k] new [OF k] rs(2) by (simp add: idx_state_def)
  show ?thesis unfolding sm_inv_def
  proof (intro conjI allI impI)
    show "cat_ok (sm_db st')" by (rule cat_ok_new_index [OF sm_invD(2) [OF inv] t s m i ix new])
    fix k tb assume k: "map_of (tabs (sm_db st')) k = Some tb"
    show "map_of (fhs st') k \<noteq> None" using k m t sm_invD(4) [OF inv] fh by (auto split: if_splits)
    show "idx_state st' tb (contents st' k)"
    proof (cases "k = t")
      case True
      then show ?thesis using k m i old [OF t] ri rs(2) c by (simp add: idx_state_def)
    qed (use k m c old in simp)
    show "recs_ok tb (contents st' k)"
    proof (cases "k = t")
      case True
      then show ?thesis using k m i sm_invD(6) [OF inv t] ok c by (auto simp: recs_ok_def)
    qed (use k m c sm_invD(6) [OF inv] in simp)
  qed (use f rs(1) in simp_all)
qed

text \<open>A request for a new index: the table has the columns, and its records have them as they should.\<close>

definition indexable :: "sm_state \<Rightarrow> string \<Rightarrow> TabMeta \<Rightarrow> string list \<Rightarrow> bool" where
  "indexable st t tab names \<longleftrightarrow>
     map_of (tabs (sm_db st)) t = Some tab \<and> \<not> is_index tab names \<and> (\<forall>c\<in>set names. is_col tab c) \<and>
     (\<forall>rid rec. contents st t rid = Some rec \<longrightarrow> (\<forall>c\<in>set names. rec_fits [named_col (tm_cols tab) c] rec)) \<and>
     map_of (runtime_indexes st) (runtime_index_name t names) = None"

lemma create_index_start:
  assumes inv: "sm_inv st" and x: "indexable st t tab names"
  obtains ix tb db' rs s1 where
    "take_cols t names \<lparr>im_tab = t, col_tot_len = 0, col_num = int (length names), im_cols = []\<rparr> st = (Inr ix, st\<lparr>sm_db := db'\<rparr>)"
    "smap_ok (tabs db')" "map_of (tabs db') = (map_of (tabs (sm_db st)))(t \<mapsto> tb)" "tm_indexes tb = tm_indexes tab"
    "im_tab ix = t" "ix_wf ix" "map unmarked (im_cols ix) = map (\<lambda>c. unmarked (named_col (tm_cols tab) c)) names"
    "map cm_name (im_cols ix) = names" "fits_all ix (contents st t)"
    "on_file t (read_entries ix) (st\<lparr>sm_db := db'\<rparr>) = (Inr (map (entry_of ix (contents st t)) rs), s1)"
    "calm (st\<lparr>sm_db := db'\<rparr>) s1" "set rs = dom (contents st t)" "distinct rs"
proof -
  have t: "map_of (tabs (sm_db st)) t = Some tab" and n: "\<forall>c\<in>set names. list_ex (\<lambda>col. cm_name col = c) (tm_cols tab)"
    using x by (auto simp: indexable_def is_col_def)
  have s: "smap_ok (tabs (sm_db st))" using sm_invD(2) [OF inv] by (simp add: cat_ok_def)
  let ?ix = "\<lparr>im_tab = t, col_tot_len = 0, col_num = int (length names), im_cols = []\<rparr>"
  obtain ix tb db' where T: "take_cols t names ?ix st = (Inr ix, st\<lparr>sm_db := db'\<rparr>)" "smap_ok (tabs db')"
    "map_of (tabs db') = (map_of (tabs (sm_db st)))(t \<mapsto> tb)" "tm_indexes tb = tm_indexes tab"
    "im_tab ix = im_tab ?ix" "col_num ix = col_num ?ix"
    "map unmarked (im_cols ix) = map unmarked (im_cols ?ix) @ map (\<lambda>c. unmarked (named_col (tm_cols tab) c)) names"
    using take_cols_spec [OF s t refl n, of ?ix] by blast
  have u: "map unmarked (im_cols ix) = map (\<lambda>c. unmarked (named_col (tm_cols tab) c)) names" using T(7) by simp
  note U = unmarked_index [OF u]
  have w: "ix_wf ix" using T(6) U(4) by (simp add: ix_wf_def)
  have nm: "map cm_name (im_cols ix) = names" using U(3) n named_col_name by (simp add: map_idI)
  have f: "fits_all ix (contents st t)" using x U(2) by (auto simp: fits_all_def indexable_def)
  let ?s = "st\<lparr>sm_db := db'\<rparr>"
  note E = same_tables_state [of ?s st, simplified]
  obtain h where "map_of (fhs ?s) t = Some h" using sm_invD(4) [OF inv t] by auto
  then obtain rs s1 where R: "on_file t (read_entries ix) ?s = (Inr (map (entry_of ix (contents ?s t)) rs), s1)"
      "calm ?s s1" "set rs = dom (contents ?s t)" "distinct rs"
    using tab_read_entries [of ?s t h ix] E sm_invD(1) [OF inv] by auto
  show thesis using that [OF T(1-4) _ w u nm f _ R(2) _ R(4)] T(5) R(1,3) E by simp
qed

lemma create_index_spec:
  assumes inv: "sm_inv st" and x: "indexable st t tab names" and m: "meta_apart st"
  shows "\<exists>st'. contents st' = contents st \<and>
    (if \<exists>r1 r2 a b. contents st t r1 = Some a \<and> contents st t r2 = Some b \<and> same_key (tm_cols tab) names a b \<and> r1 \<noteq> r2
     then create_index t names st = (Inl (InternalError ''Duplicate value violates unique index''), st') \<and>
       runtime_indexes st' = runtime_indexes st \<and>
       (\<forall>s. map_option tm_indexes (map_of (tabs (sm_db st')) s) = map_option tm_indexes (map_of (tabs (sm_db st)) s))
     else create_index t names st = (Inr (), st') \<and> sm_inv st' \<and> (\<forall>s. s \<noteq> t \<longrightarrow> map_of (tabs (sm_db st')) s = map_of (tabs (sm_db st)) s) \<and>
       (\<exists>tab' ix. map_of (tabs (sm_db st')) t = Some tab' \<and> tm_indexes tab' = tm_indexes tab @ [ix] \<and> map cm_name (im_cols ix) = names \<and>
          (\<forall>k. k \<noteq> index_name ix \<longrightarrow> map_of (runtime_indexes st') k = map_of (runtime_indexes st) k)))"
proof -
  obtain ix tb db' rs s1 where T:
    "take_cols t names \<lparr>im_tab = t, col_tot_len = 0, col_num = int (length names), im_cols = []\<rparr> st = (Inr ix, st\<lparr>sm_db := db'\<rparr>)"
    "smap_ok (tabs db')" "map_of (tabs db') = (map_of (tabs (sm_db st)))(t \<mapsto> tb)" "tm_indexes tb = tm_indexes tab"
    "im_tab ix = t" "ix_wf ix" "map unmarked (im_cols ix) = map (\<lambda>c. unmarked (named_col (tm_cols tab) c)) names"
    "map cm_name (im_cols ix) = names" "fits_all ix (contents st t)"
    "on_file t (read_entries ix) (st\<lparr>sm_db := db'\<rparr>) = (Inr (map (entry_of ix (contents st t)) rs), s1)"
    "calm (st\<lparr>sm_db := db'\<rparr>) s1" "set rs = dom (contents st t)" "distinct rs"
    by (rule create_index_start [OF inv x])
  have t: "map_of (tabs (sm_db st)) t = Some tab" and g: "get_table (sm_db st) t = Inr tab" "\<not> is_index tab names"
    and fresh: "map_of (runtime_indexes st) (index_name ix) = None"
    using x T(5,8) by (auto simp: indexable_def get_table_def index_name_def)
  let ?ri = "sort_runtime_index \<lparr>ri_meta = ix, ri_entries = map (entry_of ix (contents st t)) rs\<rparr>"
  note B = built_index [OF T(6,9,12,13)]
  note dup = index_of_duplicate [OF B T(9,6)] and uq = unique_keys_names [OF T(7), of "contents st t"]
  have s1: "contents s1 = contents st" "runtime_indexes s1 = runtime_indexes st" "sm_db s1 = db'" "fhs s1 = fhs st" "files_ok s1"
      "same_files (disk (sm_bpm st)) (disk (sm_bpm s1))"
    using T(11) same_tables_state [of "st\<lparr>sm_db := db'\<rparr>" st] by (auto simp: calm_def frame_def)
  show ?thesis
  proof (cases "unique_keys ix (contents st t)")
    case False
    then have "create_index t names st = (Inl (InternalError ''Duplicate value violates unique index''), s1)"
      using g T(1,10) dup by (simp add: create_index_def Let_def)
    moreover have "map_option tm_indexes (map_of (tabs (sm_db s1)) s) = map_option tm_indexes (map_of (tabs (sm_db st)) s)" for s
      using s1(3) T(3,4) t by simp
    ultimately show ?thesis using False uq s1 by (intro exI [of _ s1]) (auto simp del: not_all)
  next
    case True
    let ?tb = "tb\<lparr>tm_indexes := tm_indexes tb @ [ix]\<rparr>"
    let ?s2 = "set_runtime_index (index_name ix) ?ri (s1\<lparr>sm_db := SetTabMeta t ?tb db'\<rparr>)"
    note E = same_tables_state [of ?s2 s1, simplified]
    have "files_ok ?s2" using E s1(5) by simp
    moreover have "meta_apart ?s2" using m s1(6) by (simp add: meta_apart_def same_files_def)
    ultimately obtain s3 where F: "flush_meta ?s2 = (Inr (), s3)" "files_ok s3" "contents s3 = contents ?s2" "frame ?s2 s3" "fhs s3 = fhs ?s2"
      using flush_meta_spec by blast
    have C: "create_index t names st = (Inr (), s3)"
      using g T(1,3,10) dup True F(1) s1(3) by (simp add: create_index_def Let_def)
    have db: "sm_db s3 = SetTabMeta t ?tb db'" "runtime_indexes s3 = smap_set (index_name ix) ?ri (runtime_indexes st)"
      using F(4) s1(2) by (simp_all add: frame_def set_runtime_index_def)
    have sm: "smap_ok (tabs (sm_db s3))" "map_of (tabs (sm_db s3)) = (map_of (tabs (sm_db st)))(t \<mapsto> ?tb)"
      using smap_ok_set [OF T(2)] map_of_smap_set [OF T(2)] T(3) db(1) by (simp_all add: SetTabMeta_def)
    have rs: "smap_ok (runtime_indexes s3)" "map_of (runtime_indexes s3) = (map_of (runtime_indexes st))(index_name ix \<mapsto> ?ri)"
      using smap_ok_set map_of_smap_set sm_invD(3) [OF inv] db(2) by simp_all
    have c3: "contents s3 = contents st" "fhs s3 = fhs st" using F(3,5) E s1(1,4) by simp_all
    have "sm_inv s3"
      by (rule sm_inv_new_index [OF inv t F(2) c3(2,1) sm _ T(5,6) rs fresh _ B T(9) True]) (simp_all add: T(4) sort_runtime_index_def)
    moreover have "map_of (tabs (sm_db s3)) t = Some ?tb" "tm_indexes ?tb = tm_indexes tab @ [ix]" using sm(2) T(4) by simp_all
    ultimately show ?thesis using True uq C c3(1) T(8) sm(2) rs(2) by (intro exI [of _ s3]) (auto simp del: not_all)
  qed
qed

section \<open>Properties\<close>

text \<open>An empty table \<open>t\<close> with an integer and a string column, with or without an index on the former.\<close>

definition sample_cols :: "ColMeta list" where
  "sample_cols =
     [\<lparr>cm_tab = ''t'', cm_name = ''a'', cm_type = TYPE_INT, cm_len = 4, cm_offset = 0, cm_index = False\<rparr>,
      \<lparr>cm_tab = ''t'', cm_name = ''s'', cm_type = TYPE_STRING, cm_len = 96, cm_offset = 4, cm_index = False\<rparr>]"

definition sample_tix :: IndexMeta where
  "sample_tix = \<lparr>im_tab = ''t'', col_tot_len = 4, col_num = 1, im_cols = [hd sample_cols]\<rparr>"

definition sample_sm :: "IndexMeta list \<Rightarrow> sm_state" where
  "sample_sm idxs =
     \<lparr>sm_db = \<lparr>db_name = ''db'', tabs = [(''t'', \<lparr>tm_name = ''t'', tm_cols = sample_cols, tm_indexes = idxs\<rparr>)]\<rparr>,
      fhs = [(''t'', fh sample_rm)],
      runtime_indexes = map (\<lambda>ix. (index_name ix, \<lparr>ri_meta = ix, ri_entries = []\<rparr>)) idxs,
      sm_bpm = bpm sample_rm\<rparr>"

lemma recs_sample_rm: "recs sample_rm = Map.empty"
  using sample_rm_valid(3) by (auto simp: recs_def rid_out_of_file_def fun_eq_iff)

lemma sample_sm_files:
  "files_ok (sample_sm idxs)" "contents (sample_sm idxs) = (\<lambda>_. Map.empty)" "chained (sample_sm idxs) ''t''"
  "log_apart (sample_sm idxs)" "meta_apart (sample_sm idxs)"
proof -
  have t: "tab_st (sample_sm idxs) (fh sample_rm) = sample_rm" by (simp add: tab_st_def sample_sm_def)
  have v: "rm_inv sample_rm" "chain_inv sample_rm" "quiet (bpm sample_rm)"
    using sample_rm_valid(1) rm_invD(2) by (auto simp: rm_valid_def)
  have f: "fhs (sample_sm idxs) = [(''t'', fh sample_rm)]" "sm_bpm (sample_sm idxs) = bpm sample_rm" by (simp_all add: sample_sm_def)
  show "files_ok (sample_sm idxs)" using v t by (auto simp: files_ok_def f split: if_splits)
  show "contents (sample_sm idxs) = (\<lambda>_. Map.empty)"
    using t recs_sample_rm by (auto simp: contents_def f fun_eq_iff)
  show "chained (sample_sm idxs) ''t''" using v t by (simp add: chained_def f)
  show "log_apart (sample_sm idxs)"
    using sample_dm_ok(3)
    by (auto simp: log_apart_def f sample_rm_def new_BufferPoolManager_def cached_def set_fd2pageno_def log_open_def sample_dm_def)
  show "meta_apart (sample_sm idxs)"
    by (auto simp: meta_apart_def f sample_rm_def new_BufferPoolManager_def set_fd2pageno_def sample_dm_def DB_META_NAME_def LOG_FILE_NAME_def)
qed

lemma sample_sm_sel:
  "map_of (tabs (sm_db (sample_sm idxs))) t = Some tab \<longleftrightarrow>
     t = ''t'' \<and> tab = \<lparr>tm_name = ''t'', tm_cols = sample_cols, tm_indexes = idxs\<rparr>"
  "map_of (fhs (sample_sm idxs)) ''t'' = Some (fh sample_rm)" "smap_ok (tabs (sm_db (sample_sm idxs)))"
  "runtime_indexes (sample_sm []) = []"
  "runtime_indexes (sample_sm [sample_tix]) = [(index_name sample_tix, \<lparr>ri_meta = sample_tix, ri_entries = []\<rparr>)]"
  by (auto simp: sample_sm_def smap_ok_def)

lemma sample_sm_inv: "sm_inv (sample_sm [])" "sm_inv (sample_sm [sample_tix])"
proof -
  have w: "im_tab sample_tix = ''t''" "ix_wf sample_tix" by (simp_all add: sample_tix_def ix_wf_def)
  show "sm_inv (sample_sm [])" "sm_inv (sample_sm [sample_tix])"
    by (auto simp: sm_inv_def cat_ok_def sample_sm_files sample_sm_sel idx_state_def recs_ok_def fits_all_def unique_keys_def
        index_of_def ordered_def smap_ok_def sample_sm_sel(3) [unfolded smap_ok_def] w)
qed

text \<open>
  C13: \<^verbatim>\<open>create_index\<close> on columns of a table in a consistent database adds a unique index exactly when no two
  records have the same key: then the index holds every record, in order, and every other index and
  table is as before; otherwise the call throws, no record and no index changes, and the catalogue lists the same indexes
  for every table.
\<close>

theorem create_index_unique:
  assumes "sm_inv st" and "indexable st t tab names" and "meta_apart st"
  shows "\<exists>st'. contents st' = contents st \<and>
    (if \<exists>r1 r2 a b. contents st t r1 = Some a \<and> contents st t r2 = Some b \<and> same_key (tm_cols tab) names a b \<and> r1 \<noteq> r2
     then create_index t names st = (Inl (InternalError ''Duplicate value violates unique index''), st') \<and>
       runtime_indexes st' = runtime_indexes st \<and>
       (\<forall>s. map_option tm_indexes (map_of (tabs (sm_db st')) s) = map_option tm_indexes (map_of (tabs (sm_db st)) s))
     else create_index t names st = (Inr (), st') \<and> sm_inv st' \<and> (\<forall>s. s \<noteq> t \<longrightarrow> map_of (tabs (sm_db st')) s = map_of (tabs (sm_db st)) s) \<and>
       (\<exists>tab' ix. map_of (tabs (sm_db st')) t = Some tab' \<and> tm_indexes tab' = tm_indexes tab @ [ix] \<and> map cm_name (im_cols ix) = names \<and>
          (\<forall>k. k \<noteq> index_name ix \<longrightarrow> map_of (runtime_indexes st') k = map_of (runtime_indexes st) k)))"
  by (rule create_index_spec [OF assms])

theorem create_index_unique_witness:
  "\<exists>st'. create_index ''t'' [''a'', ''s''] (sample_sm [sample_tix]) = (Inr (), st') \<and> sm_inv st'"
proof -
  let ?tab = "\<lparr>tm_name = ''t'', tm_cols = sample_cols, tm_indexes = [sample_tix]\<rparr>"
  have "indexable (sample_sm [sample_tix]) ''t'' ?tab [''a'', ''s'']"
    by (simp add: indexable_def sample_sm_files(2) is_col_def sample_cols_def is_index_def index_on_def sample_tix_def)
      (simp add: sample_sm_def sample_cols_def sample_tix_def index_name_def runtime_index_name_def)
  from create_index_unique [OF sample_sm_inv(2) this sample_sm_files(5)] show ?thesis by (auto simp: sample_sm_files(2))
qed

end
