(* ===== verification/Txn_Defs.thy ===== *)
theory Txn_Defs
  imports Rmdb_Config
begin

text \<open>
  The data of a transaction (\<^verbatim>\<open>transaction/txn_defs.h\<close>, \<^verbatim>\<open>transaction/transaction.h\<close>): its state, the
  write records it keeps for its rollback, the identifiers of what it locks, and the transaction
  object itself. A record's value is its list of bytes.
\<close>

datatype TransactionState = DEFAULT | GROWING | SHRINKING | COMMITTED | ABORTED

datatype IsolationLevel = READ_UNCOMMITTED | REPEATABLE_READ | READ_COMMITTED | SERIALIZABLE

datatype WType = INSERT_TUPLE | DELETE_TUPLE | UPDATE_TUPLE

record WriteRecord =
  wtype :: WType
  wr_tab_name :: string
  wr_rid :: Rid
  wr_record :: "byte list"

text \<open>The constructor for an insert leaves the value empty.\<close>

definition insert_write :: "string \<Rightarrow> Rid \<Rightarrow> WriteRecord" where
  "insert_write tab rid = \<lparr>wtype = INSERT_TUPLE, wr_tab_name = tab, wr_rid = rid, wr_record = []\<rparr>"

definition value_write :: "WType \<Rightarrow> string \<Rightarrow> Rid \<Rightarrow> byte list \<Rightarrow> WriteRecord" where
  "value_write ty tab rid bs = \<lparr>wtype = ty, wr_tab_name = tab, wr_rid = rid, wr_record = bs\<rparr>"

datatype LockDataType = TABLE | RECORD

record LockDataId =
  lk_fd :: int
  lk_rid :: Rid
  lk_type :: LockDataType

definition table_lock_id :: "int \<Rightarrow> LockDataId" where
  "table_lock_id fd = \<lparr>lk_fd = fd, lk_rid = mk_rid (- 1) (- 1), lk_type = TABLE\<rparr>"

definition record_lock_id :: "int \<Rightarrow> Rid \<Rightarrow> LockDataId" where
  "record_lock_id fd rid = \<lparr>lk_fd = fd, lk_rid = rid, lk_type = RECORD\<rparr>"

text \<open>\<^verbatim>\<open>operator==\<close>, which decides the equality of keys in the lock table.\<close>

definition LockDataId_eq :: "LockDataId \<Rightarrow> LockDataId \<Rightarrow> bool" where
  "LockDataId_eq a b =
     (if lk_type a \<noteq> lk_type b then False
      else if lk_fd a \<noteq> lk_fd b then False
      else page_no (lk_rid a) = page_no (lk_rid b) \<and> slot_no (lk_rid a) = slot_no (lk_rid b))"

lemma LockDataId_eq_iff: "LockDataId_eq a b \<longleftrightarrow> a = b"
  by (cases a; cases b) (auto simp: LockDataId_eq_def)

lemma lock_ids_distinct [simp]:
  "table_lock_id fd \<noteq> record_lock_id fd' rid" "record_lock_id fd' rid \<noteq> table_lock_id fd"
  by (auto simp: table_lock_id_def record_lock_id_def)

lemma table_lock_id_inject [simp]: "table_lock_id a = table_lock_id b \<longleftrightarrow> a = b"
  by (simp add: table_lock_id_def)

lemma record_lock_id_inject [simp]: "record_lock_id a r = record_lock_id b s \<longleftrightarrow> a = b \<and> r = s"
  by (simp add: record_lock_id_def)

text \<open>
  The key of the hash function, a 64-bit integer. The shifted fields overlap, so that different
  identifiers can have the same key; the table then compares them with \<^verbatim>\<open>operator==\<close>.
\<close>

unbundle bit_operations_syntax

definition Get_key :: "LockDataId \<Rightarrow> 64 word" where
  "Get_key i =
     (case lk_type i of
        TABLE \<Rightarrow> word_of_int (lk_fd i)
      | RECORD \<Rightarrow> push_bit 63 1 OR push_bit 31 (word_of_int (lk_fd i)) OR
          push_bit 16 (word_of_int (page_no (lk_rid i))) OR word_of_int (slot_no (lk_rid i)))"

text \<open>
  \<^verbatim>\<open>class Transaction\<close>. The lock set is an \<^verbatim>\<open>unordered_set\<close>: its elements without repetition, in some
  order. The two page sets of the index code are never filled.
\<close>

record Transaction =
  txn_mode :: bool
  txn_state :: TransactionState
  isolation_level :: IsolationLevel
  thread_id :: int
  prev_lsn :: int
  txn_id :: int
  start_ts :: int
  write_set :: "WriteRecord list"
  lock_set :: "LockDataId list"

text \<open>The constructor; \<open>txn_mode_\<close> and \<open>start_ts_\<close> start with unspecified values, here \<open>False\<close> and 0.\<close>

definition new_Transaction :: "int \<Rightarrow> int \<Rightarrow> Transaction" where
  "new_Transaction thread t =
     \<lparr>txn_mode = False, txn_state = DEFAULT, isolation_level = SERIALIZABLE, thread_id = thread,
      prev_lsn = INVALID_LSN, txn_id = t, start_ts = 0, write_set = [], lock_set = []\<rparr>"

definition append_write_record :: "WriteRecord \<Rightarrow> Transaction \<Rightarrow> Transaction" where
  "append_write_record wr txn = txn\<lparr>write_set := write_set txn @ [wr]\<rparr>"

text \<open>Insertion into and erasure from the lock set.\<close>

definition lock_set_insert :: "LockDataId \<Rightarrow> Transaction \<Rightarrow> Transaction" where
  "lock_set_insert i txn =
     (if i \<in> set (lock_set txn) then txn else txn\<lparr>lock_set := lock_set txn @ [i]\<rparr>)"

definition lock_set_erase :: "LockDataId \<Rightarrow> Transaction \<Rightarrow> Transaction" where
  "lock_set_erase i txn = txn\<lparr>lock_set := filter (\<lambda>j. j \<noteq> i) (lock_set txn)\<rparr>"

lemma lock_set_insert_sel [simp]:
  "set (lock_set (lock_set_insert i txn)) = insert i (set (lock_set txn))"
  "txn_state (lock_set_insert i txn) = txn_state txn"
  "txn_id (lock_set_insert i txn) = txn_id txn"
  by (auto simp: lock_set_insert_def)

lemma lock_set_erase_sel [simp]:
  "set (lock_set (lock_set_erase i txn)) = set (lock_set txn) - {i}"
  "txn_state (lock_set_erase i txn) = txn_state txn"
  "txn_id (lock_set_erase i txn) = txn_id txn"
  by (auto simp: lock_set_erase_def)

lemma distinct_lock_set [simp]:
  "distinct (lock_set (lock_set_insert i txn)) = distinct (lock_set txn)"
  "distinct (lock_set txn) \<Longrightarrow> distinct (lock_set (lock_set_erase i txn))"
  by (auto simp: lock_set_insert_def lock_set_erase_def)

end
