(* ===== verification/Lock_Manager.thy ===== *)
theory Lock_Manager
  imports Txn_Defs
begin

text \<open>
  \<^verbatim>\<open>transaction/concurrency/lock_manager.cpp\<close>: multi-granularity locks with the no-wait policy. The
  state of a call is the lock table and the transaction objects, which are addressed by their
  identifier; a null \<^verbatim>\<open>Transaction *\<close> is \<open>None\<close>. Every call holds the latch of the lock
  manager, so that an interleaving of several threads is a sequence of calls (\<open>lm_run\<close>).
\<close>

section \<open>Lock modes\<close>

datatype LockMode = SHARED | EXLUCSIVE | INTENTION_SHARED | INTENTION_EXCLUSIVE | S_IX

datatype GroupLockMode = NON_LOCK | IS | IX | S | X | SIX

record LockRequest =
  req_txn :: int
  lock_mode :: LockMode
  granted :: bool

record LockRequestQueue =
  request_queue :: "LockRequest list"
  group_lock_mode :: GroupLockMode

definition new_LockRequestQueue :: LockRequestQueue where
  "new_LockRequestQueue = \<lparr>request_queue = [], group_lock_mode = NON_LOCK\<rparr>"

record lock_world =
  lock_table :: "LockDataId \<rightharpoonup> LockRequestQueue"
  txns :: "int \<Rightarrow> Transaction"

type_synonym 'a lock_op = "(lock_world, rmdb_error, 'a) sem"

definition compatible :: "LockMode \<Rightarrow> LockMode \<Rightarrow> bool" where
  "compatible requested held =
     (if requested = INTENTION_SHARED then held \<noteq> EXLUCSIVE
      else if requested = INTENTION_EXCLUSIVE then held = INTENTION_SHARED \<or> held = INTENTION_EXCLUSIVE
      else if requested = SHARED then held = INTENTION_SHARED \<or> held = SHARED
      else False)"

definition is_stronger_or_equal :: "LockMode \<Rightarrow> LockMode \<Rightarrow> bool" where
  "is_stronger_or_equal have_mode requested =
     (if have_mode = requested \<or> have_mode = EXLUCSIVE then True
      else if have_mode = S_IX then requested \<noteq> EXLUCSIVE
      else if have_mode = SHARED then requested = INTENTION_SHARED
      else if have_mode = INTENTION_EXCLUSIVE then requested = INTENTION_SHARED
      else False)"

definition has_mode :: "LockMode \<Rightarrow> LockRequestQueue \<Rightarrow> bool" where
  "has_mode m q = list_ex (\<lambda>r. granted r \<and> lock_mode r = m) (request_queue q)"

definition compute_group_mode :: "LockRequestQueue \<Rightarrow> GroupLockMode" where
  "compute_group_mode q =
     (if has_mode EXLUCSIVE q then X
      else if has_mode S_IX q \<or> has_mode SHARED q \<and> has_mode INTENTION_EXCLUSIVE q then SIX
      else if has_mode SHARED q then S
      else if has_mode INTENTION_EXCLUSIVE q then IX
      else if has_mode INTENTION_SHARED q then IS
      else NON_LOCK)"

section \<open>Locking and unlocking\<close>

text \<open>The granted request of a transaction, and the change of its mode through the iterator to it.\<close>

definition own_request :: "int \<Rightarrow> LockRequestQueue \<Rightarrow> LockRequest option" where
  "own_request t q = find (\<lambda>r. req_txn r = t \<and> granted r) (request_queue q)"

fun set_mode :: "int \<Rightarrow> LockMode \<Rightarrow> LockRequest list \<Rightarrow> LockRequest list" where
  "set_mode t m [] = []"
| "set_mode t m (r # rs) =
     (if req_txn r = t \<and> granted r then r\<lparr>lock_mode := m\<rparr> # rs else r # set_mode t m rs)"

fun erase_request :: "int \<Rightarrow> LockRequest list \<Rightarrow> LockRequest list" where
  "erase_request t [] = []"
| "erase_request t (r # rs) = (if req_txn r = t then rs else r # erase_request t rs)"

text \<open>Changes of the transaction object and of the lock table entry.\<close>

definition on_txn :: "int \<Rightarrow> (Transaction \<Rightarrow> Transaction) \<Rightarrow> lock_world \<Rightarrow> lock_world" where
  "on_txn t f w = w\<lparr>txns := (txns w)(t := f (txns w t))\<rparr>"

definition set_queue :: "LockDataId \<Rightarrow> LockRequestQueue \<Rightarrow> lock_world \<Rightarrow> lock_world" where
  "set_queue i q w = w\<lparr>lock_table := (lock_table w)(i \<mapsto> q)\<rparr>"

text \<open>\<^verbatim>\<open>lock_table_[lock_data_id]\<close>: the entry, created empty when there is none.\<close>

definition queue_of :: "lock_world \<Rightarrow> LockDataId \<Rightarrow> LockRequestQueue" where
  "queue_of w i = (case lock_table w i of Some q \<Rightarrow> q | None \<Rightarrow> new_LockRequestQueue)"

definition grant_queue :: "int \<Rightarrow> LockMode \<Rightarrow> LockRequestQueue \<Rightarrow> LockRequestQueue" where
  "grant_queue t m q =
     (let rq = (case own_request t q of
                  Some _ \<Rightarrow> set_mode t m (request_queue q)
                | None \<Rightarrow> request_queue q @ [\<lparr>req_txn = t, lock_mode = m, granted = True\<rparr>])
      in q\<lparr>request_queue := rq, group_lock_mode := compute_group_mode (q\<lparr>request_queue := rq\<rparr>)\<rparr>)"

definition lock :: "int option \<Rightarrow> LockDataId \<Rightarrow> LockMode \<Rightarrow> bool lock_op" where
  "lock txn i m =
     (case txn of None \<Rightarrow> ret True
      | Some p \<Rightarrow>
          bind_e (gets_e (\<lambda>w. txns w p)) (\<lambda>tx. let t = txn_id tx in
          if txn_state tx = SHRINKING then throw (TransactionAbortException t LOCK_ON_SHIRINKING)
          else
            bind_e (modify_e (\<lambda>w. set_queue i (queue_of w i) w)) (\<lambda>_.
            bind_e (gets_e (\<lambda>w. queue_of w i)) (\<lambda>q.
              if (case own_request t q of Some r \<Rightarrow> is_stronger_or_equal (lock_mode r) m | None \<Rightarrow> False)
              then bind_e (modify_e (on_txn p (lock_set_insert i))) (\<lambda>_. ret True)
              else if list_ex (\<lambda>r. granted r \<and> req_txn r \<noteq> t \<and> \<not> compatible m (lock_mode r)) (request_queue q)
              then throw (TransactionAbortException t DEADLOCK_PREVENTION)
              else
                bind_e (modify_e (set_queue i (grant_queue t m q))) (\<lambda>_.
                bind_e (modify_e (on_txn p (lock_set_insert i))) (\<lambda>_. ret True))))))"

definition lock_shared_on_record :: "int option \<Rightarrow> Rid \<Rightarrow> int \<Rightarrow> bool lock_op" where
  "lock_shared_on_record txn rid tab_fd = lock txn (record_lock_id tab_fd rid) SHARED"

definition lock_exclusive_on_record :: "int option \<Rightarrow> Rid \<Rightarrow> int \<Rightarrow> bool lock_op" where
  "lock_exclusive_on_record txn rid tab_fd = lock txn (record_lock_id tab_fd rid) EXLUCSIVE"

definition lock_shared_on_table :: "int option \<Rightarrow> int \<Rightarrow> bool lock_op" where
  "lock_shared_on_table txn tab_fd = lock txn (table_lock_id tab_fd) SHARED"

definition lock_exclusive_on_table :: "int option \<Rightarrow> int \<Rightarrow> bool lock_op" where
  "lock_exclusive_on_table txn tab_fd = lock txn (table_lock_id tab_fd) EXLUCSIVE"

definition lock_IS_on_table :: "int option \<Rightarrow> int \<Rightarrow> bool lock_op" where
  "lock_IS_on_table txn tab_fd = lock txn (table_lock_id tab_fd) INTENTION_SHARED"

definition lock_IX_on_table :: "int option \<Rightarrow> int \<Rightarrow> bool lock_op" where
  "lock_IX_on_table txn tab_fd = lock txn (table_lock_id tab_fd) INTENTION_EXCLUSIVE"

text \<open>The state change at the end of \<^verbatim>\<open>unlock\<close>.\<close>

definition enter_shrinking :: "Transaction \<Rightarrow> Transaction" where
  "enter_shrinking tx = (if txn_state tx = GROWING then tx\<lparr>txn_state := SHRINKING\<rparr> else tx)"

definition unlock :: "int option \<Rightarrow> LockDataId \<Rightarrow> bool lock_op" where
  "unlock txn i =
     (case txn of None \<Rightarrow> ret True
      | Some p \<Rightarrow>
          bind_e (gets_e (\<lambda>w. (lock_table w i, txn_id (txns w p)))) (\<lambda>(entry, t).
            case entry of None \<Rightarrow> ret False
            | Some q \<Rightarrow>
                if \<not> list_ex (\<lambda>r. req_txn r = t) (request_queue q) then ret False
                else
                  let rq = erase_request t (request_queue q);
                      q' = q\<lparr>request_queue := rq, group_lock_mode := compute_group_mode (q\<lparr>request_queue := rq\<rparr>)\<rparr> in
                  bind_e (modify_e (if rq = [] then (\<lambda>w. w\<lparr>lock_table := (lock_table w)(i := None)\<rparr>)
                                    else set_queue i q')) (\<lambda>_.
                  bind_e (modify_e (on_txn p (\<lambda>tx. enter_shrinking (lock_set_erase i tx)))) (\<lambda>_.
                  ret True))))"

section \<open>What a queue grants\<close>

text \<open>The mode a queue grants to a transaction, and the well-formedness of queues.\<close>

definition grants :: "LockRequestQueue \<Rightarrow> int \<Rightarrow> LockMode option" where
  "grants q t = map_option lock_mode (own_request t q)"

definition queue_ok :: "LockRequestQueue \<Rightarrow> bool" where
  "queue_ok q \<longleftrightarrow>
     distinct (map req_txn (request_queue q)) \<and>
     (\<forall>r\<in>set (request_queue q). granted r \<and> lock_mode r \<noteq> S_IX) \<and>
     (\<forall>t u m n. grants q t = Some m \<longrightarrow> grants q u = Some n \<longrightarrow> t \<noteq> u \<longrightarrow> compatible m n) \<and>
     group_lock_mode q = compute_group_mode q"

definition modes_of :: "LockRequest list \<Rightarrow> int \<rightharpoonup> LockMode" where
  "modes_of rq = map_of (map (\<lambda>r. (req_txn r, lock_mode r)) rq)"

lemma compatible_sym: "n \<noteq> S_IX \<Longrightarrow> compatible m n \<Longrightarrow> compatible n m"
  by (cases m; cases n) (auto simp: compatible_def)

lemma compatible_exclusive [simp]: "\<not> compatible m EXLUCSIVE" "\<not> compatible EXLUCSIVE m"
  by (auto simp: compatible_def)

lemma is_stronger_or_equal_compatible:
  "is_stronger_or_equal h m \<Longrightarrow> h \<noteq> S_IX \<Longrightarrow> compatible h n \<Longrightarrow> compatible m n"
  by (cases h; cases m; cases n) (auto simp: compatible_def is_stronger_or_equal_def)

lemma is_stronger_or_equal_trans:
  "is_stronger_or_equal a b \<Longrightarrow> is_stronger_or_equal b c \<Longrightarrow> is_stronger_or_equal a c"
  by (cases a; cases b; cases c) (auto simp: is_stronger_or_equal_def)

lemma compute_group_mode_cong [simp]:
  "compute_group_mode (q\<lparr>group_lock_mode := g\<rparr>) = compute_group_mode q"
  by (simp add: compute_group_mode_def has_mode_def)

lemma grants_modes_of:
  assumes "\<forall>r\<in>set (request_queue q). granted r"
  shows "grants q t = modes_of (request_queue q) t"
proof -
  have "\<forall>r\<in>set rq. granted r \<Longrightarrow>
    map_option lock_mode (find (\<lambda>r. req_txn r = t \<and> granted r) rq) = modes_of rq t" for rq
    by (induction rq) (auto simp: modes_of_def)
  then show ?thesis using assms by (simp add: grants_def own_request_def)
qed

lemma own_request_grants: "own_request t q = None \<longleftrightarrow> grants q t = None"
  by (simp add: grants_def)

lemma modes_of_append: "modes_of (rq @ [r]) t =
    (case modes_of rq t of Some m \<Rightarrow> Some m | None \<Rightarrow> if t = req_txn r then Some (lock_mode r) else None)"
  by (auto simp: modes_of_def map_add_def split: option.splits)

lemma modes_of_set_mode:
  "\<forall>r\<in>set rq. granted r \<Longrightarrow> modes_of rq t \<noteq> None \<Longrightarrow> modes_of (set_mode t m rq) = (modes_of rq)(t \<mapsto> m)"
  by (induction rq) (auto simp: modes_of_def fun_eq_iff)

lemma modes_of_erase:
  "distinct (map req_txn rq) \<Longrightarrow> modes_of (erase_request t rq) = (modes_of rq)(t := None)"
proof (induction rq)
  case (Cons r rq)
  then show ?case
    by (auto simp: modes_of_def fun_eq_iff map_of_eq_None_iff)
qed (simp add: modes_of_def)

lemma modes_of_ran: "r \<in> set rq \<Longrightarrow> distinct (map req_txn rq) \<Longrightarrow> modes_of rq (req_txn r) = Some (lock_mode r)"
  unfolding modes_of_def by (rule map_of_is_SomeI) (auto simp: comp_def)

lemma modes_of_Some: "modes_of rq t = Some m \<Longrightarrow> \<exists>r\<in>set rq. req_txn r = t \<and> lock_mode r = m"
  unfolding modes_of_def by (drule map_of_SomeD) auto

lemma modes_of_None: "modes_of rq t = None \<longleftrightarrow> t \<notin> req_txn ` set rq"
  by (simp add: modes_of_def map_of_eq_None_iff image_image)

lemma set_mode_shape [simp]:
  "map req_txn (set_mode t m rq) = map req_txn rq"
  "\<forall>r\<in>set rq. granted r \<Longrightarrow> \<forall>r\<in>set (set_mode t m rq). granted r"
  by (induction rq) auto

lemma set_mode_modes: "r \<in> set (set_mode t m rq) \<Longrightarrow> lock_mode r = m \<or> r \<in> set rq"
  by (induction rq) (auto split: if_splits)

lemma erase_request_subset: "set (erase_request t rq) \<subseteq> set rq"
  by (induction rq) auto

lemma erase_request_distinct: "distinct (map req_txn rq) \<Longrightarrow> distinct (map req_txn (erase_request t rq))"
  by (induction rq) (use erase_request_subset in \<open>auto 4 3\<close>)

lemma queue_okD:
  assumes "queue_ok q"
  shows "distinct (map req_txn (request_queue q))" "\<forall>r\<in>set (request_queue q). granted r"
    and "r \<in> set (request_queue q) \<Longrightarrow> lock_mode r \<noteq> S_IX"
    and "grants q t = modes_of (request_queue q) t"
    and "grants q t = Some m \<Longrightarrow> grants q u = Some n \<Longrightarrow> t \<noteq> u \<Longrightarrow> compatible m n"
    and "grants q t = Some m \<Longrightarrow> m \<noteq> S_IX"
  using assms modes_of_Some [of "request_queue q" t m]
  by (auto simp: queue_ok_def grants_modes_of)

lemma queue_ok_new [simp]: "queue_ok new_LockRequestQueue" "grants new_LockRequestQueue t = None"
  by (auto simp: queue_ok_def new_LockRequestQueue_def grants_def own_request_def compute_group_mode_def
      has_mode_def)

text \<open>The test of the conflict loop and of the own request, by what the queue grants.\<close>

lemma conflict_iff:
  assumes "queue_ok q"
  shows "list_ex (\<lambda>r. granted r \<and> req_txn r \<noteq> t \<and> \<not> compatible m (lock_mode r)) (request_queue q) \<longleftrightarrow>
    (\<exists>u n. u \<noteq> t \<and> grants q u = Some n \<and> \<not> compatible m n)" (is "?l \<longleftrightarrow> ?r")
proof
  assume ?l
  then obtain r where "r \<in> set (request_queue q)" "req_txn r \<noteq> t" "\<not> compatible m (lock_mode r)"
    by (auto simp: list_ex_iff)
  then show ?r using modes_of_ran queue_okD(1,4) [OF assms] by metis
next
  assume ?r
  then obtain u n where u: "u \<noteq> t" "grants q u = Some n" "\<not> compatible m n" by blast
  then obtain r where "r \<in> set (request_queue q)" "req_txn r = u" "lock_mode r = n"
    using modes_of_Some queue_okD(4) [OF assms] by metis
  then show ?l using u queue_okD(2) [OF assms] by (auto simp: list_ex_iff)
qed

lemma own_stronger_iff:
  "(case own_request t q of Some r \<Rightarrow> is_stronger_or_equal (lock_mode r) m | None \<Rightarrow> False) \<longleftrightarrow>
   (\<exists>h. grants q t = Some h \<and> is_stronger_or_equal h m)"
  by (auto simp: grants_def split: option.splits)

lemma grant_queue_granted:
  assumes "queue_ok q"
  shows "\<forall>r\<in>set (request_queue (grant_queue t m q)). granted r"
    and "distinct (map req_txn (request_queue (grant_queue t m q)))"
  using queue_okD(1,2,4) [OF assms] modes_of_None [of "request_queue q" t] own_request_grants [of t q]
  by (auto simp: grant_queue_def Let_def split: option.splits)

lemma grants_grant_queue:
  assumes "queue_ok q"
  shows "grants (grant_queue t m q) = (grants q)(t \<mapsto> m)"
proof
  fix u
  note qd = queue_okD(1,2,4) [OF assms]
  have "grants (grant_queue t m q) u = modes_of (request_queue (grant_queue t m q)) u"
    using grant_queue_granted [OF assms] by (intro grants_modes_of) blast
  also have "\<dots> = ((grants q)(t \<mapsto> m)) u"
  proof (cases "own_request t q")
    case None
    then show ?thesis
      using qd own_request_grants [of t q]
      by (auto simp: grant_queue_def Let_def modes_of_append split: option.splits)
  next
    case (Some r)
    then have "modes_of (request_queue q) t \<noteq> None" using qd own_request_grants [of t q] by auto
    with Some show ?thesis using qd by (simp add: grant_queue_def Let_def modes_of_set_mode)
  qed
  finally show "grants (grant_queue t m q) u = ((grants q)(t \<mapsto> m)) u" .
qed

lemma queue_ok_grant:
  assumes "queue_ok q" and "m \<noteq> S_IX" and "\<nexists>u n. u \<noteq> t \<and> grants q u = Some n \<and> \<not> compatible m n"
  shows "queue_ok (grant_queue t m q)"
  unfolding queue_ok_def grants_grant_queue [OF assms(1)]
proof (intro conjI allI impI ballI)
  show "distinct (map req_txn (request_queue (grant_queue t m q)))"
    using grant_queue_granted [OF assms(1)] by blast
  show "granted r" if "r \<in> set (request_queue (grant_queue t m q))" for r
    using grant_queue_granted [OF assms(1)] that by blast
  show "lock_mode r \<noteq> S_IX" if "r \<in> set (request_queue (grant_queue t m q))" for r
    using that assms(2) queue_okD(3) [OF assms(1)]
    by (auto simp: grant_queue_def Let_def split: option.splits dest: set_mode_modes)
  show "group_lock_mode (grant_queue t m q) = compute_group_mode (grant_queue t m q)"
    by (simp add: grant_queue_def Let_def compute_group_mode_def has_mode_def)
  fix a b k n
  assume "((grants q)(t \<mapsto> m)) a = Some k" "((grants q)(t \<mapsto> m)) b = Some n" "a \<noteq> b"
  then show "compatible k n"
    using assms(3) compatible_sym [of k m] queue_okD(6) [OF assms(1), of a k]
      queue_okD(5) [OF assms(1), of a k b n]
    by (cases "a = t"; cases "b = t") (simp_all, blast+)
qed

definition erase_queue :: "int \<Rightarrow> LockRequestQueue \<Rightarrow> LockRequestQueue" where
  "erase_queue t q =
     (let rq = erase_request t (request_queue q)
      in q\<lparr>request_queue := rq, group_lock_mode := compute_group_mode (q\<lparr>request_queue := rq\<rparr>)\<rparr>)"

lemma grants_erase_queue:
  assumes "queue_ok q"
  shows "grants (erase_queue t q) = (grants q)(t := None)"
proof
  fix u
  have "grants (erase_queue t q) u = modes_of (request_queue (erase_queue t q)) u"
    using queue_okD(2) [OF assms] erase_request_subset [of t "request_queue q"]
    by (intro grants_modes_of) (auto simp: erase_queue_def Let_def)
  then show "grants (erase_queue t q) u = ((grants q)(t := None)) u"
    using queue_okD(1,4) [OF assms] by (simp add: erase_queue_def Let_def modes_of_erase)
qed

lemma queue_ok_erase:
  assumes "queue_ok q"
  shows "queue_ok (erase_queue t q)"
  unfolding queue_ok_def grants_erase_queue [OF assms]
  using queue_okD(1,2,3,5) [OF assms] erase_request_subset [of t "request_queue q"]
  by (auto simp: erase_queue_def Let_def erase_request_distinct compute_group_mode_def has_mode_def
      split: if_splits)

section \<open>The invariant of the lock manager\<close>

text \<open>The mode in which a transaction holds a lock.\<close>

definition holds :: "lock_world \<Rightarrow> int \<Rightarrow> LockDataId \<Rightarrow> LockMode option" where
  "holds w t i = (case lock_table w i of Some q \<Rightarrow> grants q t | None \<Rightarrow> None)"

definition lm_inv :: "lock_world \<Rightarrow> bool" where
  "lm_inv w \<longleftrightarrow>
     (\<forall>i q. lock_table w i = Some q \<longrightarrow> queue_ok q) \<and>
     (\<forall>t. txn_id (txns w t) = t \<and> distinct (lock_set (txns w t)) \<and>
          set (lock_set (txns w t)) = {i. holds w t i \<noteq> None})"

lemma lm_invD:
  assumes "lm_inv w"
  shows "lock_table w i = Some q \<Longrightarrow> queue_ok q" and "txn_id (txns w t) = t"
    and "distinct (lock_set (txns w t))" and "i \<in> set (lock_set (txns w t)) \<longleftrightarrow> holds w t i \<noteq> None"
    and "queue_ok (queue_of w i)"
  using assms by (auto simp: lm_inv_def queue_of_def split: option.splits)

lemma holds_queue_of: "holds w t i = grants (queue_of w i) t"
  by (simp add: holds_def queue_of_def split: option.splits)

lemma holds_upd [simp]:
  "holds (on_txn p f w) = holds w"
  "holds (set_queue i q w) t j = (if j = i then grants q t else holds w t j)"
  by (auto simp: holds_def on_txn_def set_queue_def fun_eq_iff)

lemma txns_upd [simp]:
  "txns (on_txn p f w) = (txns w)(p := f (txns w p))" "txns (set_queue i q w) = txns w"
  "lock_table (on_txn p f w) = lock_table w" "lock_table (set_queue i q w) = (lock_table w)(i \<mapsto> q)"
  "queue_of (on_txn p f w) = queue_of w" "queue_of (set_queue i q w) i = q"
  by (auto simp: on_txn_def set_queue_def queue_of_def fun_eq_iff)

lemma set_queue_twice [simp]: "set_queue i p (set_queue i q w) = set_queue i p w"
  by (simp add: set_queue_def)

definition others_allow :: "lock_world \<Rightarrow> int \<Rightarrow> LockDataId \<Rightarrow> LockMode \<Rightarrow> bool" where
  "others_allow w t i m \<longleftrightarrow> (\<forall>u n. u \<noteq> t \<longrightarrow> holds w u i = Some n \<longrightarrow> compatible m n)"

definition strong_enough :: "lock_world \<Rightarrow> int \<Rightarrow> LockDataId \<Rightarrow> LockMode \<Rightarrow> bool" where
  "strong_enough w t i m \<longleftrightarrow> (\<exists>h. holds w t i = Some h \<and> is_stronger_or_equal h m)"

text \<open>The outcome of \<open>lock\<close> on each of its branches.\<close>

lemma lock_outcome:
  assumes "lm_inv w"
  shows "lock (Some t) i m w =
    (if txn_state (txns w t) = SHRINKING
     then (Inl (TransactionAbortException t LOCK_ON_SHIRINKING), w)
     else if strong_enough w t i m
     then (Inr True, on_txn t (lock_set_insert i) (set_queue i (queue_of w i) w))
     else if \<not> others_allow w t i m
     then (Inl (TransactionAbortException t DEADLOCK_PREVENTION), set_queue i (queue_of w i) w)
     else (Inr True, on_txn t (lock_set_insert i) (set_queue i (grant_queue t m (queue_of w i)) w)))"
proof -
  let ?q = "queue_of w i"
  have own: "(case own_request t ?q of Some r \<Rightarrow> is_stronger_or_equal (lock_mode r) m | None \<Rightarrow> False) \<longleftrightarrow>
    strong_enough w t i m"
    by (simp add: own_stronger_iff strong_enough_def holds_queue_of)
  have conf: "list_ex (\<lambda>r. granted r \<and> req_txn r \<noteq> t \<and> \<not> compatible m (lock_mode r)) (request_queue ?q) \<longleftrightarrow>
    \<not> others_allow w t i m"
    using conflict_iff [OF lm_invD(5) [OF assms, of i], where t = t and m = m]
    by (simp add: others_allow_def holds_queue_of)
  show ?thesis
    by (simp only: lock_def option.case sem_simps Let_def lm_invD(2) [OF assms] if_distrib [of "\<lambda>f. f w"]
        if_distrib [of "\<lambda>f. f (set_queue i ?q w)"] sum.case prod.case txns_upd set_queue_twice own conf)
qed

lemma unlock_outcome:
  assumes "lm_inv w"
  shows "unlock (Some t) i w =
    (if holds w t i = None then (Inr False, w)
     else (Inr True, on_txn t (\<lambda>tx. enter_shrinking (lock_set_erase i tx))
            (if request_queue (erase_queue t (queue_of w i)) = []
             then w\<lparr>lock_table := (lock_table w)(i := None)\<rparr>
             else set_queue i (erase_queue t (queue_of w i)) w)))"
proof (cases "lock_table w i")
  case None
  then show ?thesis by (simp add: unlock_def sem_simps holds_def)
next
  case (Some q)
  have "list_ex (\<lambda>r. req_txn r = t) (request_queue q) \<longleftrightarrow> holds w t i \<noteq> None"
    using queue_okD(4) [OF lm_invD(1) [OF assms Some], of t] Some
    by (auto simp: holds_def modes_of_None list_ex_iff)
  with Some show ?thesis
    by (simp add: unlock_def sem_simps Let_def lm_invD(2) [OF assms] queue_of_def erase_queue_def)
qed

lemma holds_touch [simp]: "holds (set_queue i (queue_of w i) w) = holds w"
  by (intro ext) (simp add: holds_queue_of [symmetric])

lemma lm_inv_touch:
  assumes "lm_inv w"
  shows "lm_inv (set_queue i (queue_of w i) w)"
  using assms lm_invD(5) [OF assms, of i] by (auto simp: lm_inv_def)

lemma lm_inv_strong:
  assumes "lm_inv w" and "holds w t i \<noteq> None"
  shows "lm_inv (on_txn t (lock_set_insert i) (set_queue i (queue_of w i) w))"
  using lm_inv_touch [OF assms(1), of i] assms(2) by (auto simp: lm_inv_def)

lemma lm_inv_grant:
  assumes "lm_inv w" and "m \<noteq> S_IX" and "others_allow w t i m"
  shows "lm_inv (on_txn t (lock_set_insert i) (set_queue i (grant_queue t m (queue_of w i)) w))"
proof -
  note q = lm_invD(5) [OF assms(1), of i]
  have "queue_ok (grant_queue t m (queue_of w i))"
    using assms(3) by (intro queue_ok_grant q assms(2)) (auto simp: others_allow_def holds_queue_of)
  with assms(1) show ?thesis
    by (auto simp: lm_inv_def grants_grant_queue [OF q] holds_queue_of [symmetric])
qed

lemma lm_inv_lock:
  assumes "lm_inv w" and "m \<noteq> S_IX" and "lock (Some t) i m w = (r, w')"
  shows "lm_inv w'"
proof (cases "strong_enough w t i m")
  case True
  then have "holds w t i \<noteq> None" by (auto simp: strong_enough_def)
  with assms True lm_inv_strong show ?thesis by (auto simp: lock_outcome split: if_splits)
next
  case False
  with assms lm_inv_grant lm_inv_touch show ?thesis by (auto simp: lock_outcome split: if_splits)
qed

lemma holds_unlocked:
  assumes "lm_inv w" and "unlock (Some t) i w = (r, w')"
  shows "holds w' u j = (if u = t \<and> j = i then None else holds w u j)"
proof (cases "holds w t i = None")
  case True
  with assms show ?thesis by (auto simp: unlock_outcome)
next
  case False
  let ?q = "erase_queue t (queue_of w i)"
  have g: "grants ?q = (grants (queue_of w i))(t := None)"
    by (rule grants_erase_queue [OF lm_invD(5) [OF assms(1)]])
  have "request_queue ?q = [] \<Longrightarrow> grants ?q = Map.empty"
    by (auto simp: grants_def own_request_def)
  with g False assms show ?thesis
    by (auto simp: unlock_outcome holds_queue_of fun_eq_iff split: if_splits)
       (auto simp: queue_of_def holds_def split: if_splits)
qed

lemma enter_shrinking_sel [simp]:
  "lock_set (enter_shrinking tx) = lock_set tx" "txn_id (enter_shrinking tx) = txn_id tx"
  by (auto simp: enter_shrinking_def)

lemma lm_inv_unlock:
  assumes "lm_inv w" and "unlock (Some t) i w = (r, w')"
  shows "lm_inv w'"
  unfolding lm_inv_def holds_unlocked [OF assms]
proof (intro conjI allI impI)
  fix j q
  assume "lock_table w' j = Some q"
  then show "queue_ok q"
    using assms(2) lm_invD(1) [OF assms(1)] queue_ok_erase [OF lm_invD(5) [OF assms(1), of i], of t]
    by (auto simp: unlock_outcome [OF assms(1)] split: if_splits)
next
  fix u
  have eq: "u \<noteq> t \<Longrightarrow> txns w' u = txns w u" "holds w t i = None \<Longrightarrow> txns w' u = txns w u"
    "holds w t i \<noteq> None \<Longrightarrow> txns w' t = enter_shrinking (lock_set_erase i (txns w t))"
    using assms(2) by (auto simp: unlock_outcome [OF assms(1)] split: if_splits)
  show "txn_id (txns w' u) = u" "distinct (lock_set (txns w' u))"
    using eq lm_invD(2,3) [OF assms(1)] by (cases "u = t"; cases "holds w t i = None"; simp)+
  show "set (lock_set (txns w' u)) = {j. (if u = t \<and> j = i then None else holds w u j) \<noteq> None}"
    using eq lm_invD(4) [OF assms(1)] by (cases "u = t"; cases "holds w t i = None") auto
qed

section \<open>Interleaved calls\<close>

text \<open>
  The public calls, made by any transactions in any order, with what each returned or threw.
\<close>

datatype lock_call =
    SharedRecord int Rid int | ExclusiveRecord int Rid int | SharedTable int int | ExclusiveTable int int
  | ISTable int int | IXTable int int | Unlock int LockDataId

fun caller :: "lock_call \<Rightarrow> int" where
  "caller (SharedRecord t _ _) = t"
| "caller (ExclusiveRecord t _ _) = t"
| "caller (SharedTable t _) = t"
| "caller (ExclusiveTable t _) = t"
| "caller (ISTable t _) = t"
| "caller (IXTable t _) = t"
| "caller (Unlock t _) = t"

fun is_unlock :: "lock_call \<Rightarrow> bool" where
  "is_unlock (Unlock _ _) = True"
| "is_unlock _ = False"

fun do_call :: "lock_call \<Rightarrow> bool lock_op" where
  "do_call (SharedRecord t rid fd) = lock_shared_on_record (Some t) rid fd"
| "do_call (ExclusiveRecord t rid fd) = lock_exclusive_on_record (Some t) rid fd"
| "do_call (SharedTable t fd) = lock_shared_on_table (Some t) fd"
| "do_call (ExclusiveTable t fd) = lock_exclusive_on_table (Some t) fd"
| "do_call (ISTable t fd) = lock_IS_on_table (Some t) fd"
| "do_call (IXTable t fd) = lock_IX_on_table (Some t) fd"
| "do_call (Unlock t i) = unlock (Some t) i"

lemmas lock_wrapper_defs = lock_shared_on_record_def lock_exclusive_on_record_def lock_shared_on_table_def
  lock_exclusive_on_table_def lock_IS_on_table_def lock_IX_on_table_def

inductive lm_run :: "lock_world \<Rightarrow> (lock_call \<times> (rmdb_error + bool)) list \<Rightarrow> lock_world \<Rightarrow> bool" where
  lm_done: "lm_run w [] w"
| lm_call: "do_call c w = (out, w1) \<Longrightarrow> lm_run w1 tr w2 \<Longrightarrow> lm_run w ((c, out) # tr) w2"

inductive_simps lm_run_Nil [simp]: "lm_run w [] w'"
inductive_simps lm_run_Cons: "lm_run w ((c, out) # tr) w'"

text \<open>Before the first lock is taken.\<close>

definition lm_init :: "lock_world \<Rightarrow> bool" where
  "lm_init w \<longleftrightarrow> lock_table w = Map.empty \<and> (\<forall>t. txn_id (txns w t) = t \<and> lock_set (txns w t) = [])"

text \<open>Which modes the public calls ask for on which objects.\<close>

definition lockable :: "LockDataId \<Rightarrow> LockMode \<Rightarrow> bool" where
  "lockable i m \<longleftrightarrow> m \<noteq> S_IX \<and> (lk_type i = RECORD \<longrightarrow> m = SHARED \<or> m = EXLUCSIVE)"

lemma lockable_table [simp]: "lockable (table_lock_id fd) m \<longleftrightarrow> m \<noteq> S_IX"
  by (simp add: lockable_def table_lock_id_def)

lemma lockable_record [simp]: "lockable (record_lock_id fd rid) m \<longleftrightarrow> m = SHARED \<or> m = EXLUCSIVE"
  by (auto simp: lockable_def record_lock_id_def)

fun asks :: "lock_call \<Rightarrow> LockDataId \<times> LockMode" where
  "asks (SharedRecord _ rid fd) = (record_lock_id fd rid, SHARED)"
| "asks (ExclusiveRecord _ rid fd) = (record_lock_id fd rid, EXLUCSIVE)"
| "asks (SharedTable _ fd) = (table_lock_id fd, SHARED)"
| "asks (ExclusiveTable _ fd) = (table_lock_id fd, EXLUCSIVE)"
| "asks (ISTable _ fd) = (table_lock_id fd, INTENTION_SHARED)"
| "asks (IXTable _ fd) = (table_lock_id fd, INTENTION_EXCLUSIVE)"
| "asks (Unlock _ i) = (i, SHARED)"

lemma do_call_lock:
  "\<not> is_unlock c \<Longrightarrow> do_call c = lock (Some (caller c)) (fst (asks c)) (snd (asks c))"
  "\<not> is_unlock c \<Longrightarrow> lockable (fst (asks c)) (snd (asks c))"
  by (cases c; simp add: lock_wrapper_defs)+

lemma do_call_cases:
  obtains (unlocking) t i where "c = Unlock t i" and "do_call c = unlock (Some t) i"
  | (locking) i m where "\<not> is_unlock c" and "lockable i m" and "do_call c = lock (Some (caller c)) i m"
  using do_call_lock [of c] by (cases "is_unlock c") (auto elim: is_unlock.elims)

definition record_modes :: "lock_world \<Rightarrow> bool" where
  "record_modes w \<longleftrightarrow> (\<forall>t i m. holds w t i = Some m \<longrightarrow> lk_type i = RECORD \<longrightarrow> m = SHARED \<or> m = EXLUCSIVE)"

lemma lm_init_inv: "lm_init w \<Longrightarrow> lm_inv w" "lm_init w \<Longrightarrow> record_modes w"
  by (auto simp: lm_init_def lm_inv_def holds_def record_modes_def)

lemma holds_locked:
  assumes "lm_inv w" and "lock (Some t) i m w = (r, w')"
  shows "holds w' u j =
    (if u = t \<and> j = i \<and> r = Inr True \<and> \<not> strong_enough w t i m then Some m else holds w u j)"
  using assms by (auto simp: lock_outcome grants_grant_queue lm_invD(5) holds_queue_of [symmetric] split: if_splits)

lemma lm_call_inv:
  assumes "do_call c w = (out, w')" and "lm_inv w"
  shows "lm_inv w'" and "record_modes w \<Longrightarrow> record_modes w'"
proof (atomize (full), cases c rule: do_call_cases)
  case (unlocking t i)
  with assms show "lm_inv w' \<and> (record_modes w \<longrightarrow> record_modes w')"
    using holds_unlocked [of w t i out w'] by (auto simp: record_modes_def intro: lm_inv_unlock)
next
  case (locking i m)
  then have "holds w' u j = holds w u j \<or> j = i \<and> holds w' u j = Some m" for u j
    using holds_locked [of w "caller c" i m out w'] assms by auto
  then have "record_modes w \<longrightarrow> record_modes w'"
    using locking(2) by (auto simp: record_modes_def lockable_def) (metis option.inject)+
  with locking assms show "lm_inv w' \<and> (record_modes w \<longrightarrow> record_modes w')"
    by (auto simp: lockable_def intro: lm_inv_lock)
qed

lemma lm_run_inv:
  "lm_run w tr w' \<Longrightarrow> lm_inv w \<Longrightarrow> lm_inv w'"
  "lm_run w tr w' \<Longrightarrow> lm_inv w \<Longrightarrow> record_modes w \<Longrightarrow> record_modes w'"
  by (induction rule: lm_run.induct) (auto dest: lm_call_inv)

text \<open>The state of a transaction changes only by its own successful unlock calls.\<close>

lemma lm_call_state:
  assumes "do_call c w = (out, w')" and "lm_inv w"
  shows "txn_state (txns w' t) =
    (if caller c = t \<and> is_unlock c \<and> out = Inr True \<and> txn_state (txns w t) = GROWING
     then SHRINKING else txn_state (txns w t))"
proof (cases c rule: do_call_cases)
  case (unlocking u i)
  with assms show ?thesis
    by (auto simp: unlock_outcome enter_shrinking_def split: if_splits)
next
  case (locking i m)
  with assms show ?thesis by (auto simp: lock_outcome split: if_splits)
qed

lemma lm_call_shrinking:
  assumes "do_call c w = (out, w')" and "lm_inv w" and "txn_state (txns w (caller c)) = SHRINKING"
    and "\<not> is_unlock c"
  shows "out = Inl (TransactionAbortException (caller c) LOCK_ON_SHIRINKING)"
  using assms by (cases c rule: do_call_cases) (auto simp: lock_outcome)

lemma lm_run_shrinking:
  assumes "lm_run w tr w'" and "lm_inv w" and "txn_state (txns w t) = SHRINKING"
    and "(c, out) \<in> set tr" and "caller c = t" and "\<not> is_unlock c"
  shows "out = Inl (TransactionAbortException t LOCK_ON_SHIRINKING)"
  using assms
proof (induction rule: lm_run.induct)
  case (lm_call d w r w1 tr w2)
  have "txn_state (txns w1 t) = SHRINKING"
    using lm_call_state [OF lm_call.hyps(1) lm_call.prems(1)] lm_call.prems(2) by simp
  then show ?case
    using lm_call lm_call_inv(1) [OF lm_call.hyps(1) lm_call.prems(1)]
      lm_call_shrinking [OF lm_call.hyps(1) lm_call.prems(1)] by auto
qed simp

text \<open>A lock on a record is kept, in a mode at least as strong, until its holder unlocks the record.\<close>

lemma record_lock_kept:
  assumes "do_call c w = (out, w')" and "lm_inv w" and "record_modes w" and "lk_type i = RECORD"
    and "holds w t i = Some m" and "(c, out) \<noteq> (Unlock t i, Inr True)"
  shows "\<exists>m'. holds w' t i = Some m' \<and> is_stronger_or_equal m' m"
proof (cases c rule: do_call_cases)
  case (unlocking u j)
  with assms show ?thesis
    using holds_unlocked [of w u j out w' t i]
    by (auto simp: unlock_outcome is_stronger_or_equal_def split: if_splits)
next
  case (locking j k)
  have "m = SHARED \<or> m = EXLUCSIVE" using assms(3-5) by (auto simp: record_modes_def)
  then show ?thesis
    using holds_locked [of w "caller c" j k out w' t i] assms locking
    by (auto simp: is_stronger_or_equal_def strong_enough_def lockable_def)
qed

lemma record_lock_released:
  assumes "lm_run w tr w'" and "lm_inv w" and "record_modes w" and "lk_type i = RECORD"
    and "holds w t i = Some m" and "txn_state (txns w t) = GROWING \<or> txn_state (txns w t) = SHRINKING"
    and "\<nexists>m'. holds w' t i = Some m' \<and> is_stronger_or_equal m' m"
  shows "\<exists>tr1 tr2. tr = tr1 @ (Unlock t i, Inr True) # tr2 \<and>
    (\<forall>(c, out)\<in>set tr2. caller c = t \<longrightarrow> \<not> is_unlock c \<longrightarrow>
       out = Inl (TransactionAbortException t LOCK_ON_SHIRINKING))"
  using assms
proof (induction arbitrary: m rule: lm_run.induct)
  case (lm_done w)
  then show ?case by (auto simp: is_stronger_or_equal_def)
next
  case (lm_call c w out w1 tr w2)
  note inv = lm_call_inv [OF lm_call.hyps(1) lm_call.prems(1)]
  note st = lm_call_state [OF lm_call.hyps(1) lm_call.prems(1), of t]
  show ?case
  proof (cases "(c, out) = (Unlock t i, Inr True)")
    case True
    then have "txn_state (txns w1 t) = SHRINKING" using st lm_call.prems(5) by auto
    then have "\<forall>(d, o')\<in>set tr. caller d = t \<longrightarrow> \<not> is_unlock d \<longrightarrow>
        o' = Inl (TransactionAbortException t LOCK_ON_SHIRINKING)"
      using lm_run_shrinking [OF lm_call.hyps(2) inv(1)] by auto
    with True show ?thesis by (intro exI [of _ "[]"] exI [of _ tr]) simp
  next
    case False
    obtain m1 where m1: "holds w1 t i = Some m1" "is_stronger_or_equal m1 m"
      using record_lock_kept [OF lm_call.hyps(1) lm_call.prems(1-4) False] by blast
    have "\<nexists>m'. holds w2 t i = Some m' \<and> is_stronger_or_equal m' m1"
      using lm_call.prems(6) is_stronger_or_equal_trans [OF _ m1(2)] by blast
    moreover have "txn_state (txns w1 t) = GROWING \<or> txn_state (txns w1 t) = SHRINKING"
      using st lm_call.prems(5) by (simp split: if_splits)
    ultimately obtain tr1 tr2 where "tr = tr1 @ (Unlock t i, Inr True) # tr2"
      "\<forall>(d, o')\<in>set tr2. caller d = t \<longrightarrow> \<not> is_unlock d \<longrightarrow>
        o' = Inl (TransactionAbortException t LOCK_ON_SHIRINKING)"
      using lm_call.IH [OF inv(1) inv(2) [OF lm_call.prems(2)] lm_call.prems(3) m1(1)] by blast
    then show ?thesis by (intro exI [of _ "(c, out) # tr1"] exI [of _ tr2]) simp
  qed
qed

section \<open>Properties\<close>

lemmas lock_run_simps = lock_wrapper_defs lock_def unlock_def sem_simps Let_def queue_of_def set_queue_def on_txn_def
  own_request_def grant_queue_def new_LockRequestQueue_def new_Transaction_def lock_set_insert_def lock_set_erase_def
  enter_shrinking_def compatible_def is_stronger_or_equal_def compute_group_mode_def has_mode_def holds_def grants_def

definition sample_locks :: lock_world where
  "sample_locks = \<lparr>lock_table = Map.empty, txns = (\<lambda>t. (new_Transaction 0 t)\<lparr>txn_state := GROWING\<rparr>)\<rparr>"

lemma sample_locks_init [simp]: "lm_init sample_locks" "txn_state (txns sample_locks t) = GROWING"
  by (simp_all add: lm_init_def sample_locks_def new_Transaction_def)

lemma sample_locks_inv [simp]: "lm_inv sample_locks" "holds sample_locks t i = None"
  by (rule lm_init_inv(1), simp) (simp add: holds_def sample_locks_def)

text \<open>
  C19: Whatever lock and unlock calls the transactions make, in any interleaving, two transactions
  never hold incompatible locks on the same object (in particular an exclusive lock excludes every
  other lock), and the lock set of every transaction lists exactly the objects it holds locks on.
\<close>

theorem lock_exclusion:
  assumes "lm_init w0" and "lm_run w0 tr w"
  shows "(\<forall>t u i m n. holds w t i = Some m \<longrightarrow> holds w u i = Some n \<longrightarrow> t \<noteq> u \<longrightarrow>
            compatible m n \<and> compatible n m \<and> m \<noteq> EXLUCSIVE) \<and>
         (\<forall>t. set (lock_set (txns w t)) = {j. holds w t j \<noteq> None})"
proof (intro conjI allI impI)
  have inv: "lm_inv w" using lm_run_inv(1) [OF assms(2)] lm_init_inv(1) [OF assms(1)] by blast
  show "set (lock_set (txns w t)) = {j. holds w t j \<noteq> None}" for t using inv by (simp add: lm_inv_def)
  fix t u i m n
  assume h: "holds w t i = Some m" "holds w u i = Some n" "t \<noteq> u"
  note q = queue_okD(5) [OF lm_invD(5) [OF inv, of i]]
  show "compatible m n" "compatible n m" using h q by (auto simp: holds_queue_of)
  then show "m \<noteq> EXLUCSIVE" by auto
qed

theorem lock_exclusion_witness:
  "\<exists>w. lm_run sample_locks [(SharedRecord 1 (mk_rid 1 0) 5, Inr True), (SharedRecord 2 (mk_rid 1 0) 5, Inr True),
         (ExclusiveRecord 2 (mk_rid 1 0) 5, Inl (TransactionAbortException 2 DEADLOCK_PREVENTION))] w \<and>
       compatible SHARED SHARED \<and>
       set (lock_set (txns w 1)) = {j. holds w 1 j \<noteq> None}"
proof -
  let ?tr = "[(SharedRecord 1 (mk_rid 1 0) 5, Inr True), (SharedRecord 2 (mk_rid 1 0) 5, Inr True),
    (ExclusiveRecord 2 (mk_rid 1 0) 5, Inl (TransactionAbortException 2 DEADLOCK_PREVENTION))]"
  let ?i = "record_lock_id 5 (mk_rid 1 0)"
  obtain w where w: "lm_run sample_locks ?tr w" "holds w 1 ?i = Some SHARED" "holds w 2 ?i = Some SHARED"
    by (simp add: lm_run_Cons lock_run_simps sample_locks_def)
  note excl = lock_exclusion [OF sample_locks_init(1) w(1)]
  have "compatible SHARED SHARED" using excl w(2,3) by fastforce
  with w(1) excl show ?thesis by blast
qed

text \<open>
  C18: Locks on records are two-phase. When a growing transaction holds a lock on a record and, some
  calls later, another transaction holds an incompatible lock on it, the first one has unlocked the
  record in between, and every later lock call it made was refused with
  \<open>LOCK_ON_SHIRINKING\<close>: all its conflicts with the second transaction have the same order.
\<close>

theorem record_locks_two_phase:
  assumes "lm_init w0" and "lm_run w0 tr0 w" and "lm_run w tr w'"
    and "txn_state (txns w t) = GROWING" and "holds w t (record_lock_id fd rid) = Some m"
    and "holds w' u (record_lock_id fd rid) = Some n" and "u \<noteq> t" and "\<not> compatible n m"
  shows "\<exists>tr1 tr2. tr = tr1 @ (Unlock t (record_lock_id fd rid), Inr True) # tr2 \<and>
    (\<forall>(c, out)\<in>set tr2. caller c = t \<longrightarrow> \<not> is_unlock c \<longrightarrow>
       out = Inl (TransactionAbortException t LOCK_ON_SHIRINKING))"
proof -
  let ?i = "record_lock_id fd rid"
  note i0 = lm_init_inv [OF assms(1)]
  have inv: "lm_inv w" "record_modes w" using lm_run_inv [OF assms(2)] i0 by blast+
  then have inv': "lm_inv w'" "record_modes w'" using lm_run_inv [OF assms(3)] by blast+
  have "\<nexists>m'. holds w' t ?i = Some m' \<and> is_stronger_or_equal m' m"
  proof clarify
    fix m' assume m': "holds w' t ?i = Some m'" "is_stronger_or_equal m' m"
    have "compatible m' n"
      using queue_okD(5) [OF lm_invD(5) [OF inv'(1), of ?i], of t m' u n] m'(1) assms(6,7)
      by (simp add: holds_queue_of)
    moreover have "m' \<noteq> S_IX" "m \<noteq> S_IX"
      using queue_okD(6) [OF lm_invD(5) [OF inv'(1), of ?i]] queue_okD(6) [OF lm_invD(5) [OF inv(1), of ?i]]
        m'(1) assms(5) by (auto simp: holds_queue_of)
    moreover have "n \<noteq> S_IX"
      using queue_okD(6) [OF lm_invD(5) [OF inv'(1), of ?i]] assms(6) by (auto simp: holds_queue_of)
    ultimately have "compatible n m"
      using is_stronger_or_equal_compatible [OF m'(2)] compatible_sym by blast
    with assms(8) show False ..
  qed
  then show ?thesis
    using record_lock_released [OF assms(3) inv _ assms(5)] assms(4) by (simp add: record_lock_id_def)
qed

theorem record_locks_two_phase_witness:
  "\<exists>w w'. lm_run sample_locks [(SharedRecord 1 (mk_rid 1 0) 5, Inr True)] w \<and>
     lm_run w [(Unlock 1 (record_lock_id 5 (mk_rid 1 0)), Inr True), (ExclusiveRecord 2 (mk_rid 1 0) 5, Inr True),
       (SharedRecord 1 (mk_rid 2 0) 5, Inl (TransactionAbortException 1 LOCK_ON_SHIRINKING))] w' \<and>
     (\<exists>tr1 tr2. [(Unlock 1 (record_lock_id 5 (mk_rid 1 0)), Inr True), (ExclusiveRecord 2 (mk_rid 1 0) 5, Inr True),
       (SharedRecord 1 (mk_rid 2 0) 5, Inl (TransactionAbortException 1 LOCK_ON_SHIRINKING))] =
         tr1 @ (Unlock 1 (record_lock_id 5 (mk_rid 1 0)), Inr True) # tr2 \<and>
       (\<forall>(c, out)\<in>set tr2. caller c = 1 \<longrightarrow> \<not> is_unlock c \<longrightarrow>
          out = Inl (TransactionAbortException 1 LOCK_ON_SHIRINKING)))"
proof -
  let ?i = "record_lock_id 5 (mk_rid 1 0)"
  let ?tr = "[(Unlock 1 ?i, Inr True), (ExclusiveRecord 2 (mk_rid 1 0) 5, Inr True),
     (SharedRecord 1 (mk_rid 2 0) 5, Inl (TransactionAbortException 1 LOCK_ON_SHIRINKING))]"
  obtain w w' where w: "lm_run sample_locks [(SharedRecord 1 (mk_rid 1 0) 5, Inr True)] w" "lm_run w ?tr w'"
      "txn_state (txns w 1) = GROWING" "holds w 1 ?i = Some SHARED" "holds w' 2 ?i = Some EXLUCSIVE"
    by (simp add: lm_run_Cons lock_run_simps sample_locks_def)
  show ?thesis
    using w record_locks_two_phase [OF sample_locks_init(1) w(1-5)] by (intro exI [of _ w] exI [of _ w'] conjI) auto
qed

text \<open>
  C38: A lock call is granted exactly when the transaction is not shrinking and either already holds a
  lock at least as strong or no other transaction holds an incompatible one. Granted, it holds the
  stronger of the two modes, unless it held an incomparable one, which is replaced; refused, the call
  throws with the reason, and no lock of any transaction changes.
\<close>

theorem lock_decision:
  assumes "lm_inv w" and "lock (Some t) i m w = (out, w')"
  shows "out = (if txn_state (txns w t) = SHRINKING then Inl (TransactionAbortException t LOCK_ON_SHIRINKING)
                else if strong_enough w t i m \<or> others_allow w t i m then Inr True
                else Inl (TransactionAbortException t DEADLOCK_PREVENTION)) \<and>
         (\<forall>u j. holds w' u j =
            (if u = t \<and> j = i \<and> out = Inr True \<and> \<not> strong_enough w t i m then Some m else holds w u j))"
proof
  show "out = (if txn_state (txns w t) = SHRINKING then Inl (TransactionAbortException t LOCK_ON_SHIRINKING)
                else if strong_enough w t i m \<or> others_allow w t i m then Inr True
                else Inl (TransactionAbortException t DEADLOCK_PREVENTION))"
    using assms(2) by (auto simp: lock_outcome [OF assms(1)] split: if_splits)
qed (use holds_locked [OF assms] in simp)

theorem lock_decision_witness:
  "\<exists>w'. lock (Some 1) (table_lock_id 5) SHARED sample_locks = (Inr True, w') \<and>
        holds w' 1 (table_lock_id 5) = Some SHARED"
proof -
  obtain out w' where 1: "lock (Some 1) (table_lock_id 5) SHARED sample_locks = (out, w')" by fastforce
  have out: "out = Inr True" using lock_decision [OF sample_locks_inv(1) 1] by (simp add: others_allow_def)
  then have "holds w' 1 (table_lock_id 5) = Some SHARED"
    using lock_decision [OF sample_locks_inv(1) 1] by (simp add: strong_enough_def)
  with 1 out show ?thesis by blast
qed

text \<open>
  C39: A shared lock on a table does not survive a later intention-exclusive request of its holder: the
  request replaces the mode instead of combining both, so that another transaction can then get an
  intention-exclusive lock, and write records of a table that the first one has read under a shared
  lock and has not released.
\<close>

theorem table_shared_lock_lost_on_upgrade:
  assumes "lm_inv w" and "holds w t (table_lock_id fd) = Some SHARED" and "t \<noteq> u"
    and "\<forall>v. v \<noteq> t \<longrightarrow> holds w v (table_lock_id fd) = None"
    and "txn_state (txns w t) = GROWING" and "txn_state (txns w u) = GROWING"
    and "lock_IX_on_table (Some t) fd w = (out1, w1)" and "lock_IX_on_table (Some u) fd w1 = (out2, w2)"
  shows "out1 = Inr True \<and> out2 = Inr True \<and> holds w2 t (table_lock_id fd) = Some INTENTION_EXCLUSIVE \<and>
         holds w2 u (table_lock_id fd) = Some INTENTION_EXCLUSIVE"
proof -
  let ?i = "table_lock_id fd"
  have 1: "lock (Some t) ?i INTENTION_EXCLUSIVE w = (out1, w1)" and 2: "lock (Some u) ?i INTENTION_EXCLUSIVE w1 = (out2, w2)"
    using assms(7,8) by (simp_all add: lock_IX_on_table_def)
  have ns: "\<not> strong_enough w t ?i INTENTION_EXCLUSIVE" "others_allow w t ?i INTENTION_EXCLUSIVE"
    using assms(2,4) by (auto simp: strong_enough_def is_stronger_or_equal_def others_allow_def)
  have r1: "out1 = Inr True" "txns w1 u = txns w u"
    using 1 ns assms(3,5) by (auto simp: lock_outcome [OF assms(1)])
  have i1: "lm_inv w1" by (rule lm_inv_lock [OF assms(1) _ 1]) simp
  have h1: "holds w1 v ?i = (if v = t then Some INTENTION_EXCLUSIVE else None)" for v
    using holds_locked [OF assms(1) 1, of v ?i] ns r1 assms(4) by simp
  have ns1: "\<not> strong_enough w1 u ?i INTENTION_EXCLUSIVE" "others_allow w1 u ?i INTENTION_EXCLUSIVE"
    using h1 assms(3) by (auto simp: strong_enough_def others_allow_def compatible_def split: if_splits)
  have r2: "out2 = Inr True" using 2 ns1 r1(2) assms(6) by (auto simp: lock_outcome [OF i1])
  have "holds w2 v ?i = (if v = u then Some INTENTION_EXCLUSIVE else holds w1 v ?i)" for v
    using holds_locked [OF i1 2, of v ?i] ns1 r2 by simp
  with r1 r2 h1 assms(3) show ?thesis by simp
qed

theorem table_shared_lock_lost_on_upgrade_witness:
  "\<exists>w w2. lm_run sample_locks [(SharedTable 1 5, Inr True)] w \<and>
      lm_run w [(IXTable 1 5, Inr True), (IXTable 2 5, Inr True)] w2 \<and>
      holds w2 2 (table_lock_id 5) = Some INTENTION_EXCLUSIVE"
proof -
  obtain w where w: "lm_run sample_locks [(SharedTable 1 5, Inr True)] w" "holds w 1 (table_lock_id 5) = Some SHARED"
      "\<forall>v. v \<noteq> 1 \<longrightarrow> holds w v (table_lock_id 5) = None"
      "txn_state (txns w 1) = GROWING" "txn_state (txns w 2) = GROWING"
    by (simp add: lm_run_Cons lock_run_simps sample_locks_def)
  have i: "lm_inv w" using lm_run_inv(1) [OF w(1)] by simp
  obtain out1 w1 where 1: "lock_IX_on_table (Some 1) 5 w = (out1, w1)" by fastforce
  obtain out2 w2 where 2: "lock_IX_on_table (Some 2) 5 w1 = (out2, w2)" by fastforce
  have "out1 = Inr True" "out2 = Inr True" "holds w2 2 (table_lock_id 5) = Some INTENTION_EXCLUSIVE"
    using table_shared_lock_lost_on_upgrade [OF i w(2) _ w(3-5) 1 2] by simp_all
  with w(1) 1 2 show ?thesis by (intro exI [of _ w] exI [of _ w2]) (auto simp: lm_run_Cons)
qed

end
