(* ===== verification/Engine.thy ===== *)
theory Engine
  imports Sm_Catalog Lock_Manager
begin

text \<open>
  The objects that the statements of a client work on: the storage manager with the buffer pool and
  the disk, the lock manager with the transaction objects, the log manager, and the counters and the table of
  the transaction manager. A call of a component acts on its part; the log manager shares the disk manager with
  the buffer pool.
\<close>

section \<open>State\<close>

record engine =
  sm :: sm_state
  locks :: lock_world
  logm :: LogManager
  txn_map :: "int \<rightharpoonup> int"
  next_txn_id :: int
  next_timestamp :: int

type_synonym 'a eng_op = "(engine, rmdb_error, 'a) sem"

text \<open>The part of \<^verbatim>\<open>class Context\<close> that a statement reads: the transaction, and whether there is a log manager.\<close>

record Context =
  cx_txn :: "int option"
  cx_log :: bool

definition on_sm :: "'a sm_op \<Rightarrow> 'a eng_op" where
  "on_sm = zoom sm (\<lambda>s e. e\<lparr>sm := s\<rparr>)"

definition on_locks :: "'a lock_op \<Rightarrow> 'a eng_op" where
  "on_locks = zoom locks (\<lambda>w e. e\<lparr>locks := w\<rparr>)"

definition on_log :: "'a log_op \<Rightarrow> 'a eng_op" where
  "on_log = zoom (\<lambda>e. (logm e, disk (sm_bpm (sm e)))) (\<lambda>(l, d) e. e\<lparr>logm := l, sm := put_disk d (sm e)\<rparr>)"

definition the_txn :: "int \<Rightarrow> engine \<Rightarrow> Transaction" where
  "the_txn p e = txns (locks e) p"

definition upd_txn :: "int \<Rightarrow> (Transaction \<Rightarrow> Transaction) \<Rightarrow> unit eng_op" where
  "upd_txn p f = modify_e (\<lambda>e. e\<lparr>locks := on_txn p f (locks e)\<rparr>)"

text \<open>
  How every client of the log adds a record for a transaction: the record is linked to the transaction's
  previous one, and becomes the previous one.
\<close>

definition log_for :: "int \<Rightarrow> (int \<Rightarrow> LogRecord) \<Rightarrow> unit eng_op" where
  "log_for p mk =
     bind_e (gets_e (the_txn p)) (\<lambda>tx.
     bind_e (on_log (add_log_to_buffer ((mk (txn_id tx))\<lparr>log_prev_lsn := prev_lsn tx\<rparr>))) (\<lambda>lsn.
     upd_txn p (\<lambda>tx. tx\<lparr>prev_lsn := lsn\<rparr>)))"

section \<open>The log and the tables\<close>

lemma log_fd_unique:
  assumes "dm_inv d" and "log_open d" and "fd2path d fd = Some LOG_FILE_NAME"
  shows "fd = log_fd d"
  using assms unfolding dm_inv_def log_open_def by (metis option.inject)

lemma log_write_effect:
  assumes ok: "files_ok st" and la: "log_apart st" and d: "log_only (disk (sm_bpm st)) d" "dm_inv d"
  shows "files_ok (put_disk d st)" "contents (put_disk d st) = contents st" "chained (put_disk d st) = chained st"
    "frame st (put_disk d st)" "log_apart (put_disk d st)"
proof -
  let ?d = "disk (sm_bpm st)"
  have inv: "dm_inv ?d" "log_open ?d" using ok la bp_wfD(14) by (auto simp: files_ok_def quiet_def bp_ok_def log_apart_def)
  have pg: "disk_page d fd no = disk_page ?d fd no" if "fd \<noteq> log_fd ?d" for fd no
    using log_only_page [OF d(1)] log_fd_unique [OF inv, of fd] that by blast
  have "disk_page d fd no = disk_page ?d fd no" if "mk_pid fd no \<in> cached (sm_bpm st)" for fd no
  proof (rule pg)
    show "fd \<noteq> log_fd ?d" using that la unfolding log_apart_def by blast
  qed
  moreover have "disk_page d (fh_fd h) no = disk_page ?d (fh_fd h) no" if "map_of (fhs st) k = Some h" for k h no
  proof (rule pg)
    show "fh_fd h \<noteq> log_fd ?d" using that la unfolding log_apart_def by blast
  qed
  moreover have "same_tables ?d d" using d(1) by (simp add: log_only_def)
  ultimately show E: "files_ok (put_disk d st)" "contents (put_disk d st) = contents st" "chained (put_disk d st) = chained st"
    "frame st (put_disk d st)"
    using put_disk_effect [OF ok d(2)] by blast+
  then show "log_apart (put_disk d st)" using la by (simp add: frame_def)
qed

section \<open>Invariant\<close>

text \<open>A state between two calls, and the changes that leave the catalogue, the handles and the separate log alone.\<close>

definition eng_base :: "engine \<Rightarrow> bool" where
  "eng_base e \<longleftrightarrow> files_ok (sm e) \<and> log_apart (sm e) \<and> lmgr_ok (logm e) \<and> lm_inv (locks e) \<and>
     (\<forall>t. int32_range (prev_lsn (the_txn t e)))"

definition eng_inv :: "engine \<Rightarrow> bool" where
  "eng_inv e \<longleftrightarrow> eng_base e \<and> sm_inv (sm e)"

lemma eng_invD: "eng_inv e \<Longrightarrow> eng_base e" "eng_inv e \<Longrightarrow> sm_inv (sm e)"
  by (simp_all add: eng_inv_def)

definition kept :: "sm_state \<Rightarrow> sm_state \<Rightarrow> bool" where
  "kept st st' \<longleftrightarrow>
     sm_db st' = sm_db st \<and> map fst (fhs st') = map fst (fhs st) \<and> shape st' = shape st \<and>
     (log_apart st \<longrightarrow> log_apart st')"

lemma kept_refl [simp]: "kept st st"
  by (simp add: kept_def)

lemma kept_trans: "kept a b \<Longrightarrow> kept b c \<Longrightarrow> kept a c"
  by (simp add: kept_def)

lemma frame_kept: "frame st st' \<Longrightarrow> kept st st'"
  by (simp add: frame_def kept_def)

lemma sm_inv_frame:
  assumes inv: "sm_inv st" and "frame st st'" and "files_ok st'" and "contents st' = contents st"
  shows "sm_inv st'"
proof -
  have s: "sm_db st' = sm_db st" "runtime_indexes st' = runtime_indexes st" "map fst (fhs st') = map fst (fhs st)"
    using assms(2) by (simp_all add: frame_def)
  have "map_of (fhs st') t \<noteq> None \<longleftrightarrow> map_of (fhs st) t \<noteq> None" for t using s(3) by (metis map_of_eq_None_iff list.set_map)
  then show ?thesis using inv assms(3,4) s by (simp add: sm_inv_def idx_state_def)
qed

lemma sm_inv_calm: "sm_inv st \<Longrightarrow> calm st st' \<Longrightarrow> sm_inv st'"
  using sm_inv_frame by (auto simp: calm_def)

lemma files_ok_log_env: "files_ok st \<Longrightarrow> log_apart st \<Longrightarrow> log_env (disk (sm_bpm st))"
  using bp_wfD(14) bp_cohD(1) by (auto simp: log_env_def log_apart_def files_ok_def quiet_def bp_ok_def)

text \<open>What a step on the log leaves of the engine.\<close>

definition logged_only :: "engine \<Rightarrow> engine \<Rightarrow> bool" where
  "logged_only e e' \<longleftrightarrow> contents (sm e') = contents (sm e) \<and> frame (sm e) (sm e') \<and> chained (sm e') = chained (sm e) \<and>
     pages_of (sm e') = pages_of (sm e) \<and>
     txn_map e' = txn_map e \<and> next_txn_id e' = next_txn_id e \<and> next_timestamp e' = next_timestamp e \<and>
     lock_table (locks e') = lock_table (locks e) \<and>
     (\<forall>p. (the_txn p e')\<lparr>prev_lsn := 0\<rparr> = (the_txn p e)\<lparr>prev_lsn := 0\<rparr>)"

definition log_text :: "engine \<Rightarrow> byte list" where
  "log_text e = logged (logm e, disk (sm_bpm (sm e)))"

lemma the_txn_upd [simp]: "the_txn q (e\<lparr>sm := s\<rparr>) = the_txn q e" "the_txn q (e\<lparr>logm := l\<rparr>) = the_txn q e"
  "the_txn q (e\<lparr>locks := on_txn p f (locks e)\<rparr>) = (if q = p then f (the_txn p e) else the_txn q e)"
  by (simp_all add: the_txn_def)

lemma lm_inv_cong:
  assumes "lm_inv w" and "lock_table w' = lock_table w"
    and "\<And>t. txn_id (txns w' t) = txn_id (txns w t) \<and> lock_set (txns w' t) = lock_set (txns w t)"
  shows "lm_inv w'"
proof -
  have "Lock_Manager.holds w' = Lock_Manager.holds w" by (simp add: Lock_Manager.holds_def assms(2) fun_eq_iff)
  then show ?thesis using assms by (simp add: lm_inv_def)
qed

lemma on_log_inv:
  assumes inv: "eng_base e" and l: "lmgr_ok l'" and d: "log_env d'" "log_only (disk (sm_bpm (sm e))) d'"
    and e': "e' = e\<lparr>logm := l', sm := put_disk d' (sm e)\<rparr>"
  shows "eng_base e'" "logged_only e e'"
proof -
  have i: "files_ok (sm e)" "log_apart (sm e)" using inv by (simp_all add: eng_base_def)
  have "dm_inv d'" using d(1) by (simp add: log_env_def)
  note E = log_write_effect [OF i d(2) this]
  show "eng_base e'" using inv l E(1,5) by (simp add: eng_base_def e' the_txn_def)
  show "logged_only e e'" using E unfolding logged_only_def e' by (simp add: the_txn_def)
qed

lemma logged_only_inv: "eng_inv e \<Longrightarrow> eng_base e' \<Longrightarrow> logged_only e e' \<Longrightarrow> eng_inv e'"
  using sm_inv_frame by (auto simp: eng_inv_def eng_base_def logged_only_def)

lemma add_log_step:
  assumes inv: "eng_base e" and r: "log_ok r" "log_tot_len r \<le> LOG_BUFFER_SIZE"
  shows "\<exists>e'. on_log (add_log_to_buffer r) e = (Inr (global_lsn (logm e)), e') \<and> eng_base e' \<and> logged_only e e' \<and>
    locks e' = locks e \<and> log_text e' = log_text e @ log_bytes (r\<lparr>log_lsn := global_lsn (logm e)\<rparr>)"
proof -
  let ?d = "disk (sm_bpm (sm e))"
  have "log_env ?d" "lmgr_ok (logm e)" using inv files_ok_log_env by (auto simp: eng_base_def)
  from add_log_ok [OF this r] obtain l' d' where A: "add_log_to_buffer r (logm e, ?d) = (Inr (global_lsn (logm e)), (l', d'))"
    "logged (l', d') = logged (logm e, ?d) @ log_bytes (r\<lparr>log_lsn := global_lsn (logm e)\<rparr>)" "lmgr_ok l'" "log_env d'" "log_only ?d d'"
    by blast
  let ?e = "e\<lparr>logm := l', sm := put_disk d' (sm e)\<rparr>"
  have "on_log (add_log_to_buffer r) e = (Inr (global_lsn (logm e)), ?e)" using A(1) by (simp add: on_log_def zoom_app)
  then show ?thesis using on_log_inv [OF inv A(3-5) refl] A(2) by (intro exI [of _ ?e]) (simp add: log_text_def)
qed

lemma flush_log_step:
  assumes inv: "eng_base e"
  shows "\<exists>e'. on_log flush_log_to_disk e = (Inr (), e') \<and> eng_base e' \<and> logged_only e e' \<and>
    locks e' = locks e \<and> log_text e' = log_text e \<and> log_contents (disk (sm_bpm (sm e'))) = log_text e"
proof -
  let ?d = "disk (sm_bpm (sm e))"
  have "log_env ?d" "lmgr_ok (logm e)" using inv files_ok_log_env by (auto simp: eng_base_def)
  from flush_log_ok [OF this] obtain l' d' where A: "flush_log_to_disk (logm e, ?d) = (Inr (), (l', d'))"
    "log_contents d' = logged (logm e, ?d)" "logged (l', d') = logged (logm e, ?d)" "lmgr_ok l'" "log_env d'" "log_only ?d d'"
    by blast
  let ?e = "e\<lparr>logm := l', sm := put_disk d' (sm e)\<rparr>"
  have "on_log flush_log_to_disk e = (Inr (), ?e)" using A(1) by (simp add: on_log_def zoom_app)
  then show ?thesis using on_log_inv [OF inv A(4-6) refl] A(2,3) by (intro exI [of _ ?e]) (simp add: log_text_def)
qed

lemma logged_only_refl [simp]: "logged_only e e"
  by (simp add: logged_only_def)

lemma logged_only_trans: "logged_only a b \<Longrightarrow> logged_only b c \<Longrightarrow> logged_only a c"
  unfolding logged_only_def by (auto intro: frame_trans)

lemma logged_only_txn:
  assumes "logged_only e e'"
  shows "write_set (the_txn p e') = write_set (the_txn p e)" "lock_set (the_txn p e') = lock_set (the_txn p e)"
    "txn_state (the_txn p e') = txn_state (the_txn p e)" "txn_id (the_txn p e') = txn_id (the_txn p e)"
proof -
  have "(the_txn p e')\<lparr>prev_lsn := 0\<rparr> = (the_txn p e)\<lparr>prev_lsn := 0\<rparr>" using assms by (simp add: logged_only_def)
  then show "write_set (the_txn p e') = write_set (the_txn p e)" "lock_set (the_txn p e') = lock_set (the_txn p e)"
    "txn_state (the_txn p e') = txn_state (the_txn p e)" "txn_id (the_txn p e') = txn_id (the_txn p e)"
    by (cases "the_txn p e'"; cases "the_txn p e"; simp)+
qed

text \<open>A log record for a transaction.\<close>

definition loggable :: "(int \<Rightarrow> LogRecord) \<Rightarrow> int \<Rightarrow> bool" where
  "loggable mk t \<longleftrightarrow> log_ok (mk t) \<and> log_tot_len (mk t) \<le> LOG_BUFFER_SIZE"

lemma log_for_step:
  assumes inv: "eng_base e" and r: "loggable mk p"
  shows "\<exists>e' r'. log_for p mk e = (Inr (), e') \<and> eng_base e' \<and> logged_only e e' \<and> log_text e' = log_text e @ log_bytes r' \<and>
    r' = (mk p)\<lparr>log_prev_lsn := prev_lsn (the_txn p e), log_lsn := global_lsn (logm e)\<rparr>"
proof -
  have id: "txn_id (the_txn p e) = p" using inv lm_invD(2) by (auto simp: eng_base_def the_txn_def)
  let ?r = "(mk p)\<lparr>log_prev_lsn := prev_lsn (the_txn p e)\<rparr>"
  have "log_ok ?r" "log_tot_len ?r \<le> LOG_BUFFER_SIZE"
    using r inv by (auto simp: loggable_def log_ok_def eng_base_def)
  from add_log_step [OF inv this] obtain e1 where e1: "on_log (add_log_to_buffer ?r) e = (Inr (global_lsn (logm e)), e1)"
    "eng_base e1" "logged_only e e1" "locks e1 = locks e" "log_text e1 = log_text e @ log_bytes (?r\<lparr>log_lsn := global_lsn (logm e)\<rparr>)"
    by blast
  let ?e = "e1\<lparr>locks := on_txn p (\<lambda>tx. tx\<lparr>prev_lsn := global_lsn (logm e)\<rparr>) (locks e1)\<rparr>"
  have "log_for p mk e = (Inr (), ?e)" using e1(1) id by (simp add: log_for_def upd_txn_def)
  moreover have "eng_base ?e"
  proof -
    have "lm_inv (locks ?e)" by (rule lm_inv_cong [of "locks e1"]) (use e1(2) in \<open>auto simp: eng_base_def\<close>)
    moreover have "int32_range (global_lsn (logm e))" using inv by (simp add: eng_base_def lmgr_ok_def)
    ultimately show ?thesis using e1(2) by (simp add: eng_base_def)
  qed
  moreover have "logged_only e1 ?e" by (simp add: logged_only_def)
  ultimately show ?thesis using logged_only_trans [OF e1(3)] e1(5) by (intro exI [of _ ?e]) (simp add: log_text_def)
qed

end
