(* ===== verification/Transaction_Manager.thy ===== *)
theory Transaction_Manager
  imports Engine
begin

text \<open>
  \<^verbatim>\<open>TransactionManager\<close> (\<^verbatim>\<open>transaction/transaction_manager.cpp\<close>). A transaction object is addressed by the identifier it is created
  with. The rollback takes the write records from the back of the write set.

  Lemmas: a commit makes the log durable and releases every lock; a rollback gives back the contents that
  the tables had before the writes of the transaction, with all indexes exact.
\<close>

section \<open>Operations\<close>

definition txn_begin :: "int option \<Rightarrow> bool \<Rightarrow> int \<Rightarrow> int eng_op" where
  "txn_begin txn logging thread =
     bind_e (case txn of
         Some p \<Rightarrow> ret p
       | None \<Rightarrow>
           bind_e (gets_e next_txn_id) (\<lambda>i.
           bind_e (modify_e (\<lambda>e. e\<lparr>next_txn_id := wrap32 (i + 1), locks := on_txn i (\<lambda>_. new_Transaction thread i) (locks e)\<rparr>)) (\<lambda>_.
           ret i))) (\<lambda>p.
     bind_e (gets_e next_timestamp) (\<lambda>ts.
     bind_e (upd_txn p (\<lambda>tx. tx\<lparr>start_ts := ts\<rparr>)) (\<lambda>_.
     bind_e (modify_e (\<lambda>e. e\<lparr>next_timestamp := wrap32 (ts + 1)\<rparr>)) (\<lambda>_.
     bind_e (upd_txn p (\<lambda>tx. tx\<lparr>txn_state := GROWING\<rparr>)) (\<lambda>_.
     bind_e (modify_e (\<lambda>e. e\<lparr>txn_map := (txn_map e)(txn_id (the_txn p e) \<mapsto> p)\<rparr>)) (\<lambda>_.
     bind_e (if logging then log_for p BeginLogRecord else ret ()) (\<lambda>_.
     ret p)))))))"

definition unlock_one :: "int \<Rightarrow> LockDataId \<Rightarrow> unit eng_op" where
  "unlock_one p i = bind_e (on_locks (unlock (Some p) i)) (\<lambda>_. ret ())"

definition unlock_all :: "int \<Rightarrow> unit eng_op" where
  "unlock_all p =
     bind_e (gets_e (\<lambda>e. lock_set (the_txn p e))) (\<lambda>ids.
     for_each ids (unlock_one p))"

definition txn_commit :: "int option \<Rightarrow> bool \<Rightarrow> unit eng_op" where
  "txn_commit txn logging =
     (case txn of None \<Rightarrow> ret ()
      | Some p \<Rightarrow>
          bind_e (if logging then bind_e (log_for p CommitLogRecord) (\<lambda>_. on_log flush_log_to_disk) else ret ()) (\<lambda>_.
          bind_e (upd_txn p (\<lambda>tx. tx\<lparr>txn_state := COMMITTED\<rparr>)) (\<lambda>_.
          bind_e (unlock_all p) (\<lambda>_.
          upd_txn p (\<lambda>tx. tx\<lparr>write_set := []\<rparr>)))))"

definition undo_write :: "WriteRecord \<Rightarrow> unit sm_op" where
  "undo_write wr =
     (let t = wr_tab_name wr; rid = wr_rid wr in
      bind_e (gets_e (\<lambda>st. map_of (fhs st) t)) (\<lambda>h.
        if h = None then throw OutOfRange
        else case wtype wr of
          INSERT_TUPLE \<Rightarrow>
            bind_e (on_file t (is_record rid)) (\<lambda>b.
              if b then
                bind_e (on_file t (get_record rid)) (\<lambda>rec.
                bind_e (delete_index_entries t rec rid) (\<lambda>_.
                on_file t (delete_record rid)))
              else ret ())
        | DELETE_TUPLE \<Rightarrow>
            bind_e (on_file t (insert_record_at rid (wr_record wr))) (\<lambda>_.
            insert_index_entries t (wr_record wr) rid)
        | UPDATE_TUPLE \<Rightarrow>
            bind_e (on_file t (get_record rid)) (\<lambda>rec.
            bind_e (update_index_entries t rec (wr_record wr) rid) (\<lambda>_.
            on_file t (update_record rid (wr_record wr))))))"

text \<open>The loop of \<^verbatim>\<open>abort\<close>, which runs once for every write record.\<close>

fun undo_loop :: "nat \<Rightarrow> int \<Rightarrow> unit eng_op" where
  "undo_loop 0 p = ret ()"
| "undo_loop (Suc k) p =
     bind_e (gets_e (\<lambda>e. write_set (the_txn p e))) (\<lambda>ws.
       if ws = [] then ret ()
       else
         bind_e (upd_txn p (\<lambda>tx. tx\<lparr>write_set := butlast ws\<rparr>)) (\<lambda>_.
         bind_e (on_sm (undo_write (last ws))) (\<lambda>_.
         undo_loop k p)))"

definition txn_abort :: "int option \<Rightarrow> bool \<Rightarrow> unit eng_op" where
  "txn_abort txn logging =
     (case txn of None \<Rightarrow> ret ()
      | Some p \<Rightarrow>
          bind_e (gets_e (\<lambda>e. length (write_set (the_txn p e)))) (\<lambda>k.
          bind_e (undo_loop k p) (\<lambda>_.
          bind_e (if logging then bind_e (log_for p AbortLogRecord) (\<lambda>_. on_log flush_log_to_disk) else ret ()) (\<lambda>_.
          bind_e (upd_txn p (\<lambda>tx. tx\<lparr>txn_state := ABORTED\<rparr>)) (\<lambda>_.
          unlock_all p)))))"

text \<open>\<^verbatim>\<open>get_transaction\<close>: three assertions, on the identifier, the pointer and the thread.\<close>

definition get_transaction :: "int \<Rightarrow> int \<Rightarrow> int option eng_op" where
  "get_transaction i thread =
     (if i = INVALID_TXN_ID then ret None
      else bind_e (gets_e (\<lambda>e. txn_map e i)) (\<lambda>p.
        case p of None \<Rightarrow> throw AssertionFailure
        | Some q \<Rightarrow> bind_e (gets_e (\<lambda>e. thread_id (the_txn q e))) (\<lambda>th. if th = thread then ret (Some q) else throw AssertionFailure)))"

section \<open>Contents that a consistent database can have\<close>

type_synonym db_contents = "string \<Rightarrow> Rid \<rightharpoonup> byte list"

definition place_ok :: "(int \<times> int \<times> int) option \<Rightarrow> Rid \<Rightarrow> byte list \<Rightarrow> bool" where
  "place_ok sh rid rec \<longleftrightarrow>
     (case sh of None \<Rightarrow> False
      | Some (fd, len, n) \<Rightarrow> RM_FIRST_RECORD_PAGE \<le> page_no rid \<and> page_no rid < 2147483647 \<and> 0 \<le> slot_no rid \<and> slot_no rid < n \<and>
          length rec = nat len)"

definition legal :: "sm_state \<Rightarrow> db_contents \<Rightarrow> bool" where
  "legal st c \<longleftrightarrow>
     (\<forall>t rid rec. c t rid = Some rec \<longrightarrow> place_ok (shape st t) rid rec) \<and>
     (\<forall>t tab. map_of (tabs (sm_db st)) t = Some tab \<longrightarrow> recs_ok tab (c t))"

lemma legal_kept: "kept st st' \<Longrightarrow> legal st' = legal st"
  by (simp add: legal_def kept_def fun_eq_iff)

lemma contents_place:
  assumes ok: "files_ok st" and c: "contents st t rid = Some rec"
  shows "place_ok (shape st t) rid rec"
proof -
  obtain h where h: "map_of (fhs st) t = Some h" using contents_Some_handle [OF c] by blast
  have "\<not> rid_out_of_file rid (file_hdr h)" using contents_in_file [OF ok h] c by simp
  moreover have "rm_env (tab_st st h)" using rm_invD(1) [OF files_ok_rm_inv [OF ok h]] .
  ultimately show ?thesis using contents_length [OF c h] h
    by (auto simp: place_ok_def shape_def rid_out_of_file_def rm_env_def tab_st_fh)
qed

lemma sm_inv_legal: "sm_inv st \<Longrightarrow> legal st (contents st)"
  using contents_place sm_invD(1,6) by (auto simp: legal_def)

lemma legal_rec_ok:
  assumes "legal st c" and "map_of (tabs (sm_db st)) t = Some tab" and "c t rid = Some rec"
  shows "rec_ok tab rec"
  using assms by (auto simp: legal_def recs_ok_def rec_ok_def fits_all_def)

lemma legal_no_clash:
  assumes "legal st (c(t := (c t)(rid \<mapsto> rec)))" and "map_of (tabs (sm_db st)) t = Some tab"
  shows "\<not> clashes tab (c t) rec (Some rid)"
proof
  assume "clashes tab (c t) rec (Some rid)"
  then obtain ix r old where x: "ix \<in> set (tm_indexes tab)" "c t r = Some old" "rec_key ix old = rec_key ix rec" "r \<noteq> rid"
    by (auto simp: clashes_def)
  have "recs_ok tab ((c t)(rid \<mapsto> rec))" using assms unfolding legal_def by (metis fun_upd_same)
  then have u: "unique_keys ix ((c t)(rid \<mapsto> rec))" using x(1) by (simp add: recs_ok_def)
  have "((c t)(rid \<mapsto> rec)) r = Some old" "((c t)(rid \<mapsto> rec)) rid = Some rec" using x by simp_all
  then show False using u x(3,4) unfolding unique_keys_def by metis
qed

section \<open>Records with their index entries\<close>

text \<open>A change of the records of one table together with its indexes.\<close>

definition changed :: "string \<Rightarrow> (Rid \<rightharpoonup> byte list) \<Rightarrow> sm_state \<Rightarrow> sm_state \<Rightarrow> bool" where
  "changed t m st st' \<longleftrightarrow> sm_inv st' \<and> contents st' = (contents st)(t := m) \<and> kept st st'"

lemma reindexed_others:
  "reindexed t tab m st st' \<Longrightarrow> n \<notin> index_name ` set (tm_indexes tab) \<Longrightarrow>
     map_of (runtime_indexes st') n = map_of (runtime_indexes st) n"
  by (auto simp: reindexed_def)

lemma changed_index_file:
  assumes inv: "sm_inv st" and t: "map_of (tabs (sm_db st)) t = Some tab" and R: "reindexed t tab m st s1" and W: "wrote t m s1 st'"
    and ok: "recs_ok tab m"
  shows "changed t m st st'"
proof -
  note q = reindexed_sel [OF R]
  have w: "frame s1 st'" "files_ok st'" "contents st' = (contents s1)(t := m)" using W by (simp_all add: wrote_def)
  have f: "sm_db st' = sm_db s1" "runtime_indexes st' = runtime_indexes s1" "map fst (fhs st') = map fst (fhs s1)" "shape st' = shape s1"
      "log_apart s1 \<longrightarrow> log_apart st'"
    using w(1) by (simp_all add: frame_def)
  have "sm_inv st'"
  proof (rule sm_inv_change [OF inv t _ w(2) _ _ _ _ ok])
    show "idx_state st' tab m" using q(9) f(2) by (simp add: idx_state_def)
    show "map_of (runtime_indexes st') n = map_of (runtime_indexes st) n" if "n \<notin> index_name ` set (tm_indexes tab)" for n
      using reindexed_others [OF R that] f(2) by simp
  qed (use f q w(3) in simp_all)
  then show ?thesis using w(3) f q by (simp add: changed_def kept_def)
qed

lemma changed_file_index:
  assumes inv: "sm_inv st" and t: "map_of (tabs (sm_db st)) t = Some tab" and W: "wrote t m st s1" and R: "reindexed t tab m s1 st'"
    and ok: "recs_ok tab m"
  shows "changed t m st st'"
proof -
  note q = reindexed_sel [OF R]
  have w: "frame st s1" "files_ok s1" "contents s1 = (contents st)(t := m)" using W by (simp_all add: wrote_def)
  have f: "sm_db s1 = sm_db st" "runtime_indexes s1 = runtime_indexes st" "map fst (fhs s1) = map fst (fhs st)" "shape s1 = shape st"
      "log_apart st \<longrightarrow> log_apart s1"
    using w(1) by (simp_all add: frame_def)
  have "sm_inv st'"
  proof (rule sm_inv_change [OF inv t _ _ _ _ _ q(9) ok])
    show "map_of (runtime_indexes st') n = map_of (runtime_indexes st) n" if "n \<notin> index_name ` set (tm_indexes tab)" for n
      using reindexed_others [OF R that] f(2) by simp
  qed (use f q w in simp_all)
  then show ?thesis using w(3) f q by (simp add: changed_def kept_def)
qed

lemma remove_rec:
  assumes inv: "sm_inv st" and t: "map_of (tabs (sm_db st)) t = Some tab" and c: "contents st t rid = Some rec"
  shows "\<exists>st'. bind_e (delete_index_entries t rec rid) (\<lambda>_. on_file t (delete_record rid)) st = (Inr (), st') \<and>
    changed t ((contents st t)(rid := None)) st st' \<and> (\<forall>k. chained st k \<longrightarrow> chained st' k) \<and> pages_of st' = pages_of st"
proof -
  note I = sm_invD [OF inv] and ok = sm_invD(6) [OF inv t]
  have f: "\<And>ix. ix \<in> set (tm_indexes tab) \<Longrightarrow> fits_all ix (contents st t)" using ok by (simp add: recs_ok_def)
  obtain s1 where s1: "delete_index_entries t rec rid st = (Inr (), s1)" "reindexed t tab ((contents st t)(rid := None)) st s1"
    using delete_index_entries_spec [OF I(2) t I(3) I(5) [OF t] f c] by blast
  note q = reindexed_sel [OF s1(2)]
  obtain h where h: "map_of (fhs s1) t = Some h" using I(4) [OF t] q(2) by auto
  obtain s2 where s2: "on_file t (delete_record rid) s1 = (Inr (), s2)" "wrote t ((contents s1 t)(rid := None)) s1 s2"
      "chained s1 t \<longrightarrow> chained s2 t" "pages_of s2 t = pages_of s1 t"
    using tab_delete_record [OF _ h, of rid] I(1) q(4,6) c by auto
  have "changed t ((contents st t)(rid := None)) st s2"
    by (rule changed_index_file [OF inv t s1(2) _ recs_ok_minus [OF ok]]) (use s2(2) q(4) in simp)
  moreover have "chained st k \<longrightarrow> chained s2 k" for k using s2(2,3) q(7) by (cases "k = t") (auto simp: wrote_def)
  moreover have "pages_of s2 k = pages_of st k" for k using s2(2,4) q(10) by (cases "k = t") (auto simp: wrote_def)
  ultimately show ?thesis using s1(1) s2(1) by (intro exI [of _ s2]) (simp add: fun_eq_iff)
qed

lemma replace_rec:
  assumes inv: "sm_inv st" and t: "map_of (tabs (sm_db st)) t = Some tab" and c: "contents st t rid = Some old"
    and r: "rec_ok tab new" and n: "\<not> clashes tab (contents st t) new (Some rid)" and l: "length new = length old"
  shows "\<exists>st'. bind_e (update_index_entries t old new rid) (\<lambda>_. on_file t (update_record rid new)) st = (Inr (), st') \<and>
    changed t ((contents st t)(rid \<mapsto> new)) st st' \<and> (\<forall>k. chained st k \<longrightarrow> chained st' k) \<and> pages_of st' = pages_of st"
proof -
  note I = sm_invD [OF inv] and ok = sm_invD(6) [OF inv t]
  obtain s1 where s1: "update_index_entries t old new rid st = (Inr (), s1)" "reindexed t tab ((contents st t)(rid \<mapsto> new)) st s1"
    using update_index_entries_spec [OF I(2) t I(3) I(5) [OF t] ok r c] n by auto
  note q = reindexed_sel [OF s1(2)]
  obtain h where h: "map_of (fhs s1) t = Some h" using I(4) [OF t] q(2) by auto
  have "length new = nat (record_size (file_hdr h))" using contents_length [OF c, of h] h q(2) l by simp
  then obtain s2 where s2: "on_file t (update_record rid new) s1 = (Inr (), s2)" "wrote t ((contents s1 t)(rid \<mapsto> new)) s1 s2"
      "chained s1 t \<longrightarrow> chained s2 t" "pages_of s2 t = pages_of s1 t"
    using tab_update_record [OF _ h, of rid new] I(1) q(4,6) c by auto
  have "changed t ((contents st t)(rid \<mapsto> new)) st s2"
    by (rule changed_index_file [OF inv t s1(2) _ recs_ok_upd [OF ok r n]]) (use s2(2) q(4) in simp)
  moreover have "chained st k \<longrightarrow> chained s2 k" for k using s2(2,3) q(7) by (cases "k = t") (auto simp: wrote_def)
  moreover have "pages_of s2 k = pages_of st k" for k using s2(2,4) q(10) by (cases "k = t") (auto simp: wrote_def)
  ultimately show ?thesis using s1(1) s2(1) by (intro exI [of _ s2]) (simp add: fun_eq_iff)
qed

lemma restore_rec:
  assumes inv: "sm_inv st" and t: "map_of (tabs (sm_db st)) t = Some tab" and c: "contents st t rid = None"
    and r: "rec_ok tab rec" and n: "\<not> clashes tab (contents st t) rec (Some rid)" and p: "place_ok (shape st t) rid rec"
  shows "\<exists>st'. bind_e (on_file t (insert_record_at rid rec)) (\<lambda>_. insert_index_entries t rec rid) st = (Inr (), st') \<and>
    changed t ((contents st t)(rid \<mapsto> rec)) st st'"
proof -
  note I = sm_invD [OF inv] and ok = sm_invD(6) [OF inv t]
  obtain h where h: "map_of (fhs st) t = Some h" using I(4) [OF t] by auto
  obtain s1 where s1: "on_file t (insert_record_at rid rec) st = (Inr (), s1)" "wrote t ((contents st t)(rid \<mapsto> rec)) st s1"
    using tab_insert_record_at [OF I(1) h c, of rec] p h by (auto simp: place_ok_def shape_def)
  have w: "frame st s1" using s1(2) by (simp add: wrote_def)
  then have f: "sm_db s1 = sm_db st" "runtime_indexes s1 = runtime_indexes st" by (simp_all add: frame_def)
  have i: "idx_state s1 tab (contents st t)" using I(5) [OF t] f(2) by (simp add: idx_state_def)
  obtain s2 where s2: "insert_index_entries t rec rid s1 = (Inr (), s2)" "reindexed t tab ((contents st t)(rid \<mapsto> rec)) s1 s2"
    using insert_index_entries_spec [OF _ _ _ i r c] I(2,3) t f by auto
  have "changed t ((contents st t)(rid \<mapsto> rec)) st s2"
    by (rule changed_file_index [OF inv t s1(2) s2(2) recs_ok_upd [OF ok r n]])
  then show ?thesis using s1(1) s2(1) by auto
qed

section \<open>Rollback\<close>

text \<open>
  The writes of a transaction, from the contents \<open>c0\<close> before the first one to the contents now: each
  step is the effect of a write whose record is at the back of the write set, and all contents in between are
  legal. A write that failed after its record was kept has changed nothing.
\<close>

inductive undoes :: "sm_state \<Rightarrow> db_contents \<Rightarrow> WriteRecord list \<Rightarrow> db_contents \<Rightarrow> bool" for st c0 where
  Nothing: "legal st c0 \<Longrightarrow> undoes st c0 [] c0"
| Inserted: "undoes st c0 ws c \<Longrightarrow> is_table (sm_db st) t \<Longrightarrow> c t rid = None \<Longrightarrow> legal st (c(t := (c t)(rid \<mapsto> rec))) \<Longrightarrow>
    undoes st c0 (ws @ [insert_write t rid]) (c(t := (c t)(rid \<mapsto> rec)))"
| Deleted: "undoes st c0 ws c \<Longrightarrow> is_table (sm_db st) t \<Longrightarrow> c t rid = Some old \<Longrightarrow>
    undoes st c0 (ws @ [value_write DELETE_TUPLE t rid old]) (c(t := (c t)(rid := None)))"
| Updated: "undoes st c0 ws c \<Longrightarrow> is_table (sm_db st) t \<Longrightarrow> c t rid = Some old \<Longrightarrow> legal st (c(t := (c t)(rid \<mapsto> new))) \<Longrightarrow>
    undoes st c0 (ws @ [value_write UPDATE_TUPLE t rid old]) (c(t := (c t)(rid \<mapsto> new)))"

inductive_cases undoes_NilE: "undoes st c0 [] c"

lemma legal_minus: "legal st c \<Longrightarrow> legal st (c(t := (c t)(rid := None)))"
  using recs_ok_minus by (auto simp: legal_def)

lemma undoes_legal: "undoes st c0 ws c \<Longrightarrow> legal st c"
  by (induction rule: undoes.induct) (blast intro: legal_minus)+

lemma legal_lengths:
  "legal st (c(t := (c t)(rid \<mapsto> new))) \<Longrightarrow> legal st c \<Longrightarrow> c t rid = Some old \<Longrightarrow> length old = length new"
proof -
  assume a: "legal st (c(t := (c t)(rid \<mapsto> new)))" "legal st c" "c t rid = Some old"
  have "(c(t := (c t)(rid \<mapsto> new))) t rid = Some new" by simp
  with a(1) have "place_ok (shape st t) rid new" unfolding legal_def by blast
  moreover have "place_ok (shape st t) rid old" using a(2,3) unfolding legal_def by blast
  ultimately show "length old = length new" by (auto simp: place_ok_def split: option.splits prod.splits)
qed

lemma changed_back:
  assumes "changed t m s s'" and "contents s = c(t := m')" and "m = c t"
  shows "contents s' = c"
  using assms by (auto simp: changed_def fun_eq_iff)

lemma undo_insert_step:
  assumes inv: "sm_inv s" and t: "map_of (tabs (sm_db s)) t = Some tab" and c: "contents s t rid = Some rec"
  shows "\<exists>s'. undo_write (insert_write t rid) s = (Inr (), s') \<and> changed t ((contents s t)(rid := None)) s s'"
proof -
  obtain h where h: "map_of (fhs s) t = Some h" using sm_invD(4) [OF inv t] by auto
  note ok = sm_invD(1) [OF inv]
  obtain s1 where s1: "on_file t (is_record rid) s = (Inr True, s1)" "calm s s1"
    using tab_is_record [OF ok h contents_in_file [OF ok h]] c by auto
  have k1: "files_ok s1" "fhs s1 = fhs s" "contents s1 = contents s" "sm_inv s1" "frame s s1"
    using s1(2) sm_inv_calm [OF inv] by (auto simp: calm_def)
  obtain s2 where s2: "on_file t (get_record rid) s1 = (Inr rec, s2)" "calm s1 s2"
    using tab_get_record [OF k1(1), of t h rid] k1 h c by auto
  have k2: "sm_inv s2" "contents s2 = contents s" "frame s s2"
    using s2(2) sm_inv_calm [OF k1(4)] k1 frame_trans by (auto simp: calm_def)
  obtain s3 where s3: "bind_e (delete_index_entries t rec rid) (\<lambda>_. on_file t (delete_record rid)) s2 = (Inr (), s3)"
      "changed t ((contents s t)(rid := None)) s2 s3"
    using remove_rec [OF k2(1), of t tab rid rec] k2 t c by (auto simp: frame_def)
  have "changed t ((contents s t)(rid := None)) s s3"
    using s3(2) k2(2) kept_trans [OF frame_kept [OF k2(3)]] by (simp add: changed_def)
  then show ?thesis using h s1(1) s2(1) s3(1) by (auto simp: undo_write_def insert_write_def Let_def)
qed

lemma undo_update_step:
  assumes inv: "sm_inv s" and t: "map_of (tabs (sm_db s)) t = Some tab" and c: "contents s t rid = Some new"
    and r: "rec_ok tab old" and n: "\<not> clashes tab (contents s t) old (Some rid)" and l: "length old = length new"
  shows "\<exists>s'. undo_write (value_write UPDATE_TUPLE t rid old) s = (Inr (), s') \<and> changed t ((contents s t)(rid \<mapsto> old)) s s'"
proof -
  obtain h where h: "map_of (fhs s) t = Some h" using sm_invD(4) [OF inv t] by auto
  obtain s1 where s1: "on_file t (get_record rid) s = (Inr new, s1)" "calm s s1"
    using tab_get_record [OF sm_invD(1) [OF inv] h, of rid] c by auto
  have k1: "contents s1 = contents s" "sm_inv s1" "frame s s1" using s1(2) sm_inv_calm [OF inv] by (auto simp: calm_def)
  obtain s2 where s2: "bind_e (update_index_entries t new old rid) (\<lambda>_. on_file t (update_record rid old)) s1 = (Inr (), s2)"
      "changed t ((contents s t)(rid \<mapsto> old)) s1 s2"
    using replace_rec [OF k1(2), of t tab rid new old] k1 t c r n l by (auto simp: frame_def)
  have "changed t ((contents s t)(rid \<mapsto> old)) s s2"
    using s2(2) k1(1) kept_trans [OF frame_kept [OF k1(3)]] by (simp add: changed_def)
  then show ?thesis using h s1(1) s2(1) by (auto simp: undo_write_def value_write_def Let_def)
qed

lemma undo_step:
  assumes u: "undoes st c0 (ws @ [w]) (contents s)" and k: "kept st s" and inv: "sm_inv s"
  shows "\<exists>s'. undo_write w s = (Inr (), s') \<and> sm_inv s' \<and> kept s s' \<and> undoes st c0 ws (contents s')"
proof -
  have db: "sm_db s = sm_db st" and sh: "shape s = shape st" using k by (simp_all add: kept_def)
  have fin: "sm_inv s' \<and> kept s s' \<and> undoes st c0 ws (contents s')"
    if "changed t m s s'" "contents s = c(t := m')" "m = c t" "undoes st c0 ws c" for t m s' c m'
    using that changed_back [OF that(1-3)] by (auto simp: changed_def)
  show ?thesis
    using u
  proof (cases rule: undoes.cases)
    case (Inserted ws' c t rid rec)
    then have eq: "ws' = ws" "w = insert_write t rid" by simp_all
    note Inserted = Inserted [unfolded eq]
    obtain tab where t: "map_of (tabs (sm_db s)) t = Some tab" using Inserted db by (auto simp: is_table_def)
    from undo_insert_step [OF inv t, of rid rec] Inserted eq(2) obtain s' where
      s': "undo_write w s = (Inr (), s')" "changed t ((contents s t)(rid := None)) s s'" by auto
    have "(contents s t)(rid := None) = c t" using Inserted by (simp add: fun_eq_iff)
    with fin [OF s'(2)] s'(1) Inserted show ?thesis by blast
  next
    case (Deleted ws' c t rid old)
    then have eq: "ws' = ws" "w = value_write DELETE_TUPLE t rid old" by simp_all
    note Deleted = Deleted [unfolded eq]
    obtain tab where t: "map_of (tabs (sm_db s)) t = Some tab" using Deleted db by (auto simp: is_table_def)
    have lc: "legal st c" using undoes_legal Deleted by blast
    have bk: "(contents s t)(rid \<mapsto> old) = c t" "contents s t rid = None" using Deleted by (simp_all add: fun_eq_iff)
    have ll: "legal s ((contents s)(t := (contents s t)(rid \<mapsto> old)))" using lc bk Deleted legal_kept [OF k] by simp
    have "place_ok (shape s t) rid old" using lc Deleted sh by (auto simp: legal_def)
    then obtain s' where s': "bind_e (on_file t (insert_record_at rid old)) (\<lambda>_. insert_index_entries t old rid) s = (Inr (), s')"
        "changed t ((contents s t)(rid \<mapsto> old)) s s'"
      using restore_rec [OF inv t bk(2) _ legal_no_clash [OF ll t]] legal_rec_ok [OF ll t, of rid old] by auto
    have "map_of (fhs s) t \<noteq> None" by (rule sm_invD(4) [OF inv t])
    then have "undo_write w s = (Inr (), s')" using s'(1) eq(2) by (simp add: undo_write_def value_write_def Let_def)
    with fin [OF s'(2)] bk(1) Deleted show ?thesis by blast
  next
    case (Updated ws' c t rid old new)
    then have eq: "ws' = ws" "w = value_write UPDATE_TUPLE t rid old" by simp_all
    note Updated = Updated [unfolded eq]
    obtain tab where t: "map_of (tabs (sm_db s)) t = Some tab" using Updated db by (auto simp: is_table_def)
    have lc: "legal st c" using undoes_legal Updated by blast
    have bk: "(contents s t)(rid \<mapsto> old) = c t" "contents s t rid = Some new" using Updated by (simp_all add: fun_eq_iff)
    have ll: "legal s ((contents s)(t := (contents s t)(rid \<mapsto> old)))" using lc bk Updated legal_kept [OF k] by simp
    have "length old = length new" using legal_lengths [OF _ lc] Updated by blast
    then obtain s' where s': "undo_write w s = (Inr (), s')" "changed t ((contents s t)(rid \<mapsto> old)) s s'"
      using undo_update_step [OF inv t bk(2) _ legal_no_clash [OF ll t]] legal_rec_ok [OF ll t, of rid old] eq(2) by auto
    with fin [OF s'(2)] bk(1) Updated show ?thesis by blast
  qed simp
qed

lemma eng_inv_sm:
  assumes "eng_inv e" and "sm_inv s" and "kept (sm e) s"
  shows "eng_inv (e\<lparr>sm := s\<rparr>)"
  using assms sm_invD(1) [OF assms(2)] by (auto simp: eng_inv_def eng_base_def kept_def)

lemma eng_inv_txn:
  assumes "eng_inv e" and "\<And>tx. txn_id (f tx) = txn_id tx \<and> lock_set (f tx) = lock_set tx \<and> prev_lsn (f tx) = prev_lsn tx"
  shows "eng_inv (e\<lparr>locks := on_txn p f (locks e)\<rparr>)"
proof -
  have "lm_inv (on_txn p f (locks e))" by (rule lm_inv_cong [of "locks e"]) (use assms in \<open>auto simp: eng_inv_def eng_base_def\<close>)
  then show ?thesis using assms by (simp add: eng_inv_def eng_base_def)
qed

lemma undo_loop_spec:
  assumes "eng_inv e" and "undoes st c0 (write_set (the_txn p e)) (contents (sm e))" and "kept st (sm e)"
    and "k = length (write_set (the_txn p e))"
  shows "\<exists>s. undo_loop k p e = (Inr (), e\<lparr>locks := on_txn p (\<lambda>tx. tx\<lparr>write_set := []\<rparr>) (locks e), sm := s\<rparr>) \<and>
    sm_inv s \<and> kept (sm e) s \<and> contents s = c0"
  using assms
proof (induction k arbitrary: e)
  case 0
  have ws: "write_set (txns (locks e) p) = []" using "0.prems"(4) by (simp add: the_txn_def)
  have "on_txn p (\<lambda>tx. tx\<lparr>write_set := []\<rparr>) (locks e) = locks e"
    using ws by (cases "locks e"; cases "txns (locks e) p") (auto simp: on_txn_def fun_eq_iff)
  moreover have "contents (sm e) = c0" using "0.prems"(2,4) by (auto elim: undoes_NilE)
  ultimately show ?case using "0.prems"(1) by (intro exI [of _ "sm e"]) (simp add: eng_inv_def)
next
  case (Suc k)
  let ?ws = "write_set (the_txn p e)"
  have ne: "?ws \<noteq> []" using Suc.prems(4) by auto
  have bl: "undoes st c0 (butlast ?ws @ [last ?ws]) (contents (sm e))" using Suc.prems(2) ne by simp
  obtain s1 where s1: "undo_write (last ?ws) (sm e) = (Inr (), s1)" "sm_inv s1" "kept (sm e) s1" "undoes st c0 (butlast ?ws) (contents s1)"
    using undo_step [OF bl Suc.prems(3)] Suc.prems(1) by (auto simp: eng_inv_def)
  note k = s1(3)
  let ?e = "e\<lparr>locks := on_txn p (\<lambda>tx. tx\<lparr>write_set := butlast ?ws\<rparr>) (locks e), sm := s1\<rparr>"
  have i: "eng_inv ?e" by (rule eng_inv_sm [OF eng_inv_txn [OF Suc.prems(1)] s1(2)]) (simp_all add: k)
  have w: "write_set (the_txn p ?e) = butlast ?ws" by (simp add: the_txn_def)
  have u2: "undoes st c0 (write_set (the_txn p ?e)) (contents (sm ?e))" using w s1(4) by simp
  have k2: "kept st (sm ?e)" using kept_trans [OF Suc.prems(3) k] by simp
  have l2: "k = length (write_set (the_txn p ?e))" unfolding w using Suc.prems(4) by (simp flip: Suc.prems(4))
  obtain s2 where s2: "undo_loop k p ?e = (Inr (), ?e\<lparr>locks := on_txn p (\<lambda>tx. tx\<lparr>write_set := []\<rparr>) (locks ?e), sm := s2\<rparr>)"
      "sm_inv s2" "kept s1 s2" "contents s2 = c0"
    using Suc.IH [OF i u2 k2 l2] by auto
  have t: "on_txn p (\<lambda>tx. tx\<lparr>write_set := []\<rparr>) (on_txn p (\<lambda>tx. tx\<lparr>write_set := butlast ?ws\<rparr>) (locks e)) =
      on_txn p (\<lambda>tx. tx\<lparr>write_set := []\<rparr>) (locks e)" by (simp add: on_txn_def)
  have "undo_loop (Suc k) p e = (Inr (), e\<lparr>locks := on_txn p (\<lambda>tx. tx\<lparr>write_set := []\<rparr>) (locks e), sm := s2\<rparr>)"
    using ne s1(1) s2(1) t by (simp add: upd_txn_def on_sm_def zoom_app)
  then show ?case using s2 kept_trans [OF k s2(3)] by blast
qed

text \<open>Releasing the locks.\<close>

lemma unlock_loop:
  assumes "lm_inv w" and "txn_state (txns w p) \<noteq> GROWING"
  shows "\<exists>w'. for_each ids (unlock_one p) (e\<lparr>locks := w\<rparr>) = (Inr (), e\<lparr>locks := w'\<rparr>) \<and> lm_inv w' \<and>
    (\<forall>u j. Lock_Manager.holds w' u j = (if u = p \<and> j \<in> set ids then None else Lock_Manager.holds w u j)) \<and>
    (\<forall>q. (txns w' q)\<lparr>lock_set := []\<rparr> = (txns w q)\<lparr>lock_set := []\<rparr>)"
  using assms
proof (induction ids arbitrary: w)
  case Nil
  then show ?case by (intro exI [of _ w]) simp
next
  case (Cons i ids)
  obtain r w1 where u: "unlock (Some p) i w = (Inr r, w1)"
    using unlock_outcome [OF Cons.prems(1), of p i] by (cases "Lock_Manager.holds w p i = None") auto
  have t: "(txns w1 q)\<lparr>lock_set := []\<rparr> = (txns w q)\<lparr>lock_set := []\<rparr>" for q
    using u Cons.prems(2) by (auto simp: unlock_outcome [OF Cons.prems(1)] enter_shrinking_def lock_set_erase_def split: if_splits)
  have st: "txn_state (txns w1 p) = txn_state (txns w p)"
  proof -
    have "txn_state ((txns w1 p)\<lparr>lock_set := []\<rparr>) = txn_state ((txns w p)\<lparr>lock_set := []\<rparr>)" unfolding t ..
    then show ?thesis by simp
  qed
  note h = holds_unlocked [OF Cons.prems(1) u]
  obtain w2 where w2: "for_each ids (unlock_one p) (e\<lparr>locks := w1\<rparr>) = (Inr (), e\<lparr>locks := w2\<rparr>)"
      "lm_inv w2" "\<And>u j. Lock_Manager.holds w2 u j = (if u = p \<and> j \<in> set ids then None else Lock_Manager.holds w1 u j)"
      "\<And>q. (txns w2 q)\<lparr>lock_set := []\<rparr> = (txns w1 q)\<lparr>lock_set := []\<rparr>"
    using Cons.IH [OF lm_inv_unlock [OF Cons.prems(1) u]] Cons.prems(2) st by auto
  have "for_each (i # ids) (unlock_one p) (e\<lparr>locks := w\<rparr>) = (Inr (), e\<lparr>locks := w2\<rparr>)"
    using u w2(1) by (simp add: unlock_one_def on_locks_def zoom_app bind_e_app)
  then show ?case using w2(2,3,4) h t by (intro exI [of _ w2]) auto
qed

lemma unlock_all_spec:
  assumes inv: "eng_inv e" and s: "txn_state (the_txn p e) \<noteq> GROWING"
  shows "\<exists>w'. unlock_all p e = (Inr (), e\<lparr>locks := w'\<rparr>) \<and> eng_inv (e\<lparr>locks := w'\<rparr>) \<and>
    (\<forall>u j. Lock_Manager.holds w' u j = (if u = p then None else Lock_Manager.holds (locks e) u j)) \<and>
    (\<forall>q. (txns w' q)\<lparr>lock_set := []\<rparr> = (the_txn q e)\<lparr>lock_set := []\<rparr>)"
proof -
  have l: "lm_inv (locks e)" using inv by (simp add: eng_inv_def eng_base_def)
  let ?ids = "lock_set (the_txn p e)"
  obtain w' where w': "for_each ?ids (unlock_one p) (e\<lparr>locks := locks e\<rparr>) = (Inr (), e\<lparr>locks := w'\<rparr>)"
      "lm_inv w'" "\<And>u j. Lock_Manager.holds w' u j = (if u = p \<and> j \<in> set ?ids then None else Lock_Manager.holds (locks e) u j)"
      "\<And>q. (txns w' q)\<lparr>lock_set := []\<rparr> = (txns (locks e) q)\<lparr>lock_set := []\<rparr>"
    using unlock_loop [OF l, of p ?ids e] s by (auto simp: the_txn_def)
  have "Lock_Manager.holds w' u j = (if u = p then None else Lock_Manager.holds (locks e) u j)" for u j
    using w'(3) [of u j] lm_invD(4) [OF l, of j p] by (auto simp: the_txn_def)
  moreover have "prev_lsn (txns w' q) = prev_lsn (the_txn q e)" for q
  proof -
    have "prev_lsn ((txns w' q)\<lparr>lock_set := []\<rparr>) = prev_lsn ((txns (locks e) q)\<lparr>lock_set := []\<rparr>)" unfolding w'(4) ..
    then show ?thesis by (simp add: the_txn_def)
  qed
  then have "eng_inv (e\<lparr>locks := w'\<rparr>)" using inv w'(2) by (simp add: eng_inv_def eng_base_def the_txn_def)
  moreover have "unlock_all p e = (Inr (), e\<lparr>locks := w'\<rparr>)" using w'(1) by (simp add: unlock_all_def)
  ultimately show ?thesis using w'(4) by (intro exI [of _ w']) (simp add: the_txn_def)
qed

section \<open>Properties\<close>

lemma end_records_loggable: "int32_range p \<Longrightarrow> loggable CommitLogRecord p" "int32_range p \<Longrightarrow> loggable AbortLogRecord p"
    "int32_range p \<Longrightarrow> loggable BeginLogRecord p"
  by (auto simp: loggable_def CommitLogRecord_def AbortLogRecord_def BeginLogRecord_def intro!: new_log_record_ok)
    (simp_all add: new_log_record_def)

text \<open>The end of a transaction: its last record is flushed, its state set and its locks released.\<close>

definition finish :: "int \<Rightarrow> (int \<Rightarrow> LogRecord) \<Rightarrow> TransactionState \<Rightarrow> unit eng_op" where
  "finish p mk st =
     bind_e (bind_e (log_for p mk) (\<lambda>_. on_log flush_log_to_disk)) (\<lambda>_.
     bind_e (upd_txn p (\<lambda>tx. tx\<lparr>txn_state := st\<rparr>)) (\<lambda>_. unlock_all p))"

lemma finish_spec:
  assumes inv: "eng_inv e" and r: "loggable mk p" and st: "st \<noteq> GROWING"
  shows "\<exists>e' r. finish p mk st e = (Inr (), e') \<and> eng_inv e' \<and> contents (sm e') = contents (sm e) \<and> kept (sm e) (sm e') \<and>
    log_contents (disk (sm_bpm (sm e'))) = log_text e @ log_bytes r \<and>
    r = (mk p)\<lparr>log_prev_lsn := prev_lsn (the_txn p e), log_lsn := global_lsn (logm e)\<rparr> \<and>
    txn_state (the_txn p e') = st \<and> write_set (the_txn p e') = write_set (the_txn p e) \<and>
    (\<forall>u j. Lock_Manager.holds (locks e') u j = (if u = p then None else Lock_Manager.holds (locks e) u j)) \<and>
    chained (sm e') = chained (sm e)"
proof -
  let ?r = "(mk p)\<lparr>log_prev_lsn := prev_lsn (the_txn p e), log_lsn := global_lsn (logm e)\<rparr>"
  obtain e1 where e1: "log_for p mk e = (Inr (), e1)" "eng_base e1" "logged_only e e1" "log_text e1 = log_text e @ log_bytes ?r"
    using log_for_step [OF eng_invD(1) [OF inv] r] by blast
  obtain e2 where e2: "on_log flush_log_to_disk e1 = (Inr (), e2)" "eng_base e2" "logged_only e1 e2"
      "log_contents (disk (sm_bpm (sm e2))) = log_text e1"
    using flush_log_step [OF e1(2)] by blast
  have lo: "logged_only e e2" by (rule logged_only_trans [OF e1(3) e2(3)])
  have h: "Lock_Manager.holds (locks e2) = Lock_Manager.holds (locks e)"
    using lo by (simp add: logged_only_def Lock_Manager.holds_def fun_eq_iff)
  let ?e3 = "e2\<lparr>locks := on_txn p (\<lambda>tx. tx\<lparr>txn_state := st\<rparr>) (locks e2)\<rparr>"
  have i3: "eng_inv ?e3" by (rule eng_inv_txn [OF logged_only_inv [OF inv e2(2) lo]]) simp
  have s3: "txn_state (the_txn p ?e3) \<noteq> GROWING" using st by simp
  obtain w' where w': "unlock_all p ?e3 = (Inr (), ?e3\<lparr>locks := w'\<rparr>)" "eng_inv (?e3\<lparr>locks := w'\<rparr>)"
      "\<And>u j. Lock_Manager.holds w' u j = (if u = p then None else Lock_Manager.holds (locks ?e3) u j)"
      "\<And>q. (txns w' q)\<lparr>lock_set := []\<rparr> = (the_txn q ?e3)\<lparr>lock_set := []\<rparr>"
    using unlock_all_spec [OF i3 s3] by blast
  have t: "txn_state (txns w' p) = st" "write_set (txns w' p) = write_set (the_txn p e)"
  proof -
    have "txn_state ((txns w' p)\<lparr>lock_set := []\<rparr>) = txn_state ((the_txn p ?e3)\<lparr>lock_set := []\<rparr>)"
      "write_set ((txns w' p)\<lparr>lock_set := []\<rparr>) = write_set ((the_txn p ?e3)\<lparr>lock_set := []\<rparr>)" unfolding w'(4) by (rule refl)+
    then show "txn_state (txns w' p) = st" "write_set (txns w' p) = write_set (the_txn p e)"
      using logged_only_txn(1) [OF lo, of p] by simp_all
  qed
  have "finish p mk st e = (Inr (), ?e3\<lparr>locks := w'\<rparr>)"
    using e1(1) e2(1) w'(1) by (simp add: finish_def upd_txn_def)
  moreover have "contents (sm e2) = contents (sm e)" "kept (sm e) (sm e2)" "chained (sm e2) = chained (sm e)"
    using lo frame_kept by (auto simp: logged_only_def)
  ultimately show ?thesis
    using w'(2,3) t e1(4) e2(4) h by (intro exI [of _ "?e3\<lparr>locks := w'\<rparr>"] exI [of _ ?r]) (simp add: the_txn_def)
qed

lemma commit_spec:
  assumes "eng_inv e" and "int32_range p"
  shows "\<exists>e' r. txn_commit (Some p) True e = (Inr (), e') \<and> eng_inv e' \<and> contents (sm e') = contents (sm e) \<and>
    log_contents (disk (sm_bpm (sm e'))) = (log_contents (disk (sm_bpm (sm e))) @ pending (logm e)) @ log_bytes r \<and>
    log_body r = CommitLog \<and> log_tid r = p \<and>
    txn_state (the_txn p e') = COMMITTED \<and> write_set (the_txn p e') = [] \<and>
    (\<forall>u j. Lock_Manager.holds (locks e') u j = (if u = p then None else Lock_Manager.holds (locks e) u j))"
proof -
  obtain e1 r where F: "finish p CommitLogRecord COMMITTED e = (Inr (), e1)" "eng_inv e1" "contents (sm e1) = contents (sm e)"
    "log_contents (disk (sm_bpm (sm e1))) = log_text e @ log_bytes r"
    "r = (CommitLogRecord p)\<lparr>log_prev_lsn := prev_lsn (the_txn p e), log_lsn := global_lsn (logm e)\<rparr>"
    "txn_state (the_txn p e1) = COMMITTED"
    "\<forall>u j. Lock_Manager.holds (locks e1) u j = (if u = p then None else Lock_Manager.holds (locks e) u j)"
    using finish_spec [OF assms(1) end_records_loggable(1) [OF assms(2)], of COMMITTED] by auto
  let ?e = "e1\<lparr>locks := on_txn p (\<lambda>tx. tx\<lparr>write_set := []\<rparr>) (locks e1)\<rparr>"
  have fin: "finish p CommitLogRecord COMMITTED e = (Inr (), e1) \<Longrightarrow> txn_commit (Some p) True e = (Inr (), ?e)"
    unfolding finish_def txn_commit_def option.case if_True
    by (auto simp: bind_e_app upd_txn_def split: prod.splits sum.splits)
  have "eng_inv ?e" by (rule eng_inv_txn [OF F(2)]) simp
  then show ?thesis using fin [OF F(1)] F(3-7)
    by (intro exI [of _ ?e] exI [of _ r]) (simp add: log_text_def logged_def CommitLogRecord_def new_log_record_def)
qed

text \<open>
  C12: a commit is durable and ends the two phases of the transaction. When \<^verbatim>\<open>commit\<close> returns, the log file holds
  everything that was logged before, followed by the commit record; the tables are as they were; the
  transaction is committed, has no write records left and holds no lock, and every other transaction keeps
  its locks.
\<close>

theorem commit_durable:
  assumes "eng_inv e" and "int32_range p"
  shows "\<exists>e' r. txn_commit (Some p) True e = (Inr (), e') \<and> eng_inv e' \<and> contents (sm e') = contents (sm e) \<and>
    log_contents (disk (sm_bpm (sm e'))) = (log_contents (disk (sm_bpm (sm e))) @ pending (logm e)) @ log_bytes r \<and>
    log_body r = CommitLog \<and> log_tid r = p \<and>
    txn_state (the_txn p e') = COMMITTED \<and> write_set (the_txn p e') = [] \<and>
    (\<forall>u j. Lock_Manager.holds (locks e') u j = (if u = p then None else Lock_Manager.holds (locks e) u j))"
  by (rule commit_spec [OF assms])

lemma abort_spec:
  assumes "eng_inv e" and "int32_range p" and "undoes (sm e) c0 (write_set (the_txn p e)) (contents (sm e))"
  shows "\<exists>e' r before. txn_abort (Some p) True e = (Inr (), e') \<and> eng_inv e' \<and> contents (sm e') = c0 \<and>
    log_contents (disk (sm_bpm (sm e'))) = before @ log_bytes r \<and> log_body r = AbortLog \<and> log_tid r = p \<and>
    txn_state (the_txn p e') = ABORTED \<and> write_set (the_txn p e') = [] \<and>
    (\<forall>u j. Lock_Manager.holds (locks e') u j = (if u = p then None else Lock_Manager.holds (locks e) u j))"
proof -
  let ?k = "length (write_set (the_txn p e))"
  obtain s where U: "undo_loop ?k p e = (Inr (), e\<lparr>locks := on_txn p (\<lambda>tx. tx\<lparr>write_set := []\<rparr>) (locks e), sm := s\<rparr>)"
    "sm_inv s" "kept (sm e) s" "contents s = c0"
    using undo_loop_spec [OF assms(1,3) kept_refl refl] by blast
  let ?e1 = "e\<lparr>locks := on_txn p (\<lambda>tx. tx\<lparr>write_set := []\<rparr>) (locks e), sm := s\<rparr>"
  have i1: "eng_inv ?e1" by (rule eng_inv_sm [OF eng_inv_txn [OF assms(1)] U(2)]) (simp_all add: U(3))
  obtain e' r where F: "finish p AbortLogRecord ABORTED ?e1 = (Inr (), e')" "eng_inv e'" "contents (sm e') = contents (sm ?e1)"
    "log_contents (disk (sm_bpm (sm e'))) = log_text ?e1 @ log_bytes r"
    "r = (AbortLogRecord p)\<lparr>log_prev_lsn := prev_lsn (the_txn p ?e1), log_lsn := global_lsn (logm ?e1)\<rparr>"
    "txn_state (the_txn p e') = ABORTED" "write_set (the_txn p e') = write_set (the_txn p ?e1)"
    "\<forall>u j. Lock_Manager.holds (locks e') u j = (if u = p then None else Lock_Manager.holds (locks ?e1) u j)"
    using finish_spec [OF i1 end_records_loggable(2) [OF assms(2)], of ABORTED] by blast
  have "txn_abort (Some p) True e = finish p AbortLogRecord ABORTED ?e1"
    using U(1) by (simp add: txn_abort_def finish_def)
  then show ?thesis using F U(4)
    by (intro exI [of _ e'] exI [of _ r] exI [of _ "log_text ?e1"]) (simp add: AbortLogRecord_def new_log_record_def the_txn_def)
qed

text \<open>
  C11: a rollback restores the database. When the contents of the tables have developed from \<open>c0\<close> by the writes
  the transaction has recorded, \<^verbatim>\<open>abort\<close> undoes them in reverse order without failing: every table has exactly the
  records it had in \<open>c0\<close>, every index holds exactly the records of its table and no key twice, the abort
  record is in the log file, and all locks of the transaction are released.
\<close>

theorem abort_restores:
  assumes "eng_inv e" and "int32_range p" and "undoes (sm e) c0 (write_set (the_txn p e)) (contents (sm e))"
  shows "\<exists>e' r before. txn_abort (Some p) True e = (Inr (), e') \<and> eng_inv e' \<and> contents (sm e') = c0 \<and>
    log_contents (disk (sm_bpm (sm e'))) = before @ log_bytes r \<and> log_body r = AbortLog \<and> log_tid r = p \<and>
    txn_state (the_txn p e') = ABORTED \<and> write_set (the_txn p e') = [] \<and>
    (\<forall>u j. Lock_Manager.holds (locks e') u j = (if u = p then None else Lock_Manager.holds (locks e) u j))"
  by (rule abort_spec [OF assms])

text \<open>An engine over the sample database, with a transaction 1 that has written what \<open>ws\<close> says.\<close>

definition sample_engine :: "sm_state \<Rightarrow> WriteRecord list \<Rightarrow> engine" where
  "sample_engine st ws =
     \<lparr>sm = st, locks = on_txn 1 (\<lambda>tx. tx\<lparr>write_set := ws\<rparr>) sample_locks, logm = new_LogManager 0,
      txn_map = [1 \<mapsto> 1], next_txn_id = 2, next_timestamp = 1\<rparr>"

lemma sample_engine_inv:
  assumes "sm_inv st" and "log_apart st"
  shows "eng_inv (sample_engine st ws)" "write_set (the_txn 1 (sample_engine st ws)) = ws" "sm (sample_engine st ws) = st"
proof -
  have "lm_inv (on_txn 1 (\<lambda>tx. tx\<lparr>write_set := ws\<rparr>) sample_locks)" by (rule lm_inv_cong [of sample_locks]) simp_all
  then show "eng_inv (sample_engine st ws)" using assms sm_invD(1) [OF assms(1)]
    by (simp add: eng_inv_def eng_base_def sample_engine_def the_txn_def)
      (simp add: sample_locks_def new_Transaction_def int32_range_def INVALID_LSN_def)
  show "write_set (the_txn 1 (sample_engine st ws)) = ws" "sm (sample_engine st ws) = st"
    by (simp_all add: sample_engine_def the_txn_def)
qed

lemma sample_tab: "map_of (tabs (sm_db (sample_sm [sample_tix]))) ''t'' = Some \<lparr>tm_name = ''t'', tm_cols = sample_cols, tm_indexes = [sample_tix]\<rparr>"
  by (simp add: sample_sm_sel)

lemma sample_rec_ok: "length rec = 100 \<Longrightarrow> rec_ok \<lparr>tm_name = ''t'', tm_cols = sample_cols, tm_indexes = [sample_tix]\<rparr> rec"
  by (simp add: rec_ok_def rec_fits_def sample_tix_def sample_cols_def col_fits_def len_ok_def field_fine_def raw_ok_def)

lemma sample_shape: "shape (sample_sm idxs) ''t'' = Some (3, 100, num_records_per_page (hdr sample_rm))" "0 < num_records_per_page (hdr sample_rm)"
  "pages_of (sample_sm idxs) ''t'' = 1"
proof -
  show "shape (sample_sm idxs) ''t'' = Some (3, 100, num_records_per_page (hdr sample_rm))" "pages_of (sample_sm idxs) ''t'' = 1"
    using sample_rm_valid(2,3) by (simp_all add: shape_def pages_of_def sample_sm_sel(2)) (simp add: sample_rm_def)
  show "0 < num_records_per_page (hdr sample_rm)"
    using hdr_ok_bounds(3) [of "hdr sample_rm"] sample_rm_valid(1) by (simp add: rm_valid_def rm_inv_def rm_env_def)
qed

lemma sample_filled:
  assumes "length rec = 100"
  obtains st where "sm_inv st" "log_apart st" "contents st = (\<lambda>_. Map.empty)(''t'' := [mk_rid 1 0 \<mapsto> rec])" "kept (sample_sm [sample_tix]) st"
proof -
  let ?s = "sample_sm [sample_tix]"
  have "place_ok (shape ?s ''t'') (mk_rid 1 0) rec" using sample_shape assms by (simp add: place_ok_def)
  moreover have "\<not> clashes \<lparr>tm_name = ''t'', tm_cols = sample_cols, tm_indexes = [sample_tix]\<rparr> (contents ?s ''t'') rec (Some (mk_rid 1 0))"
    by (simp add: clashes_def sample_sm_files(2))
  ultimately obtain st where "changed ''t'' ((contents ?s ''t'')(mk_rid 1 0 \<mapsto> rec)) ?s st"
    using restore_rec [OF sample_sm_inv(2) sample_tab _ sample_rec_ok [OF assms]] by (auto simp: sample_sm_files(2))
  then show thesis using that [of st] sample_sm_files(2,4) by (simp add: changed_def kept_def)
qed

theorem commit_durable_witness:
  "\<exists>e' r. txn_commit (Some 1) True (sample_engine (sample_sm [sample_tix]) [insert_write ''t'' (mk_rid 1 0)]) = (Inr (), e') \<and>
     log_contents (disk (sm_bpm (sm e'))) = [7, 8] @ log_bytes r \<and> write_set (the_txn 1 e') = []"
proof -
  let ?e = "sample_engine (sample_sm [sample_tix]) [insert_write ''t'' (mk_rid 1 0)]"
  have "log_contents (disk (sm_bpm (sample_sm [sample_tix]))) = [7, 8]"
    using sample_dm_ok(5) by (simp add: sample_sm_def sample_rm_def new_BufferPoolManager_def log_contents_def set_fd2pageno_def)
  then have "log_contents (disk (sm_bpm (sm ?e))) @ pending (logm ?e) = [7, 8]" by (simp add: sample_engine_def)
  with commit_durable [OF sample_engine_inv(1) [OF sample_sm_inv(2) sample_sm_files(4)], of 1 "[insert_write ''t'' (mk_rid 1 0)]"]
  show ?thesis by (auto simp: int32_range_def)
qed

theorem abort_restores_witness:
  "\<exists>st e'. contents st ''t'' (mk_rid 1 0) = Some (replicate 100 7) \<and>
     txn_abort (Some 1) True (sample_engine st [insert_write ''t'' (mk_rid 1 0)]) = (Inr (), e') \<and> contents (sm e') = (\<lambda>_. Map.empty)"
proof -
  obtain st where st: "sm_inv st" "log_apart st" "contents st = (\<lambda>_. Map.empty)(''t'' := [mk_rid 1 0 \<mapsto> replicate 100 7])"
      "kept (sample_sm [sample_tix]) st"
    by (rule sample_filled [of "replicate 100 7"]) simp_all
  let ?ws = "[insert_write ''t'' (mk_rid 1 0)]" and ?c = "\<lambda>_. Map.empty"
  have l: "legal st ?c" using sm_inv_legal [OF sample_sm_inv(2)] legal_kept [OF st(4)] by (simp add: sample_sm_files(2))
  have "undoes st ?c ([] @ ?ws) (?c(''t'' := (?c ''t'')(mk_rid 1 0 \<mapsto> replicate 100 7)))"
  proof (rule undoes.Inserted [OF undoes.Nothing [OF l]])
    show "is_table (sm_db st) ''t''" using st(4) sample_tab by (simp add: is_table_def kept_def)
    show "legal st (?c(''t'' := (?c ''t'')(mk_rid 1 0 \<mapsto> replicate 100 7)))" using sm_inv_legal [OF st(1)] st(3) by simp
  qed simp
  then have u: "undoes (sm (sample_engine st ?ws)) ?c (write_set (the_txn 1 (sample_engine st ?ws))) (contents (sm (sample_engine st ?ws)))"
    using st(3) sample_engine_inv(2,3) [OF st(1,2)] by simp
  show ?thesis using abort_restores [OF sample_engine_inv(1) [OF st(1,2)] _ u] st(3) by (intro exI [of _ st]) (auto simp: int32_range_def)
qed

end
