(* ===== verification/Dml_Executors.thy ===== *)
theory Dml_Executors
  imports Transaction_Manager
begin

text \<open>
  The statements that change records: \<^verbatim>\<open>InsertExecutor\<close>, \<^verbatim>\<open>DeleteExecutor\<close> and \<^verbatim>\<open>UpdateExecutor\<close>
  (\<^verbatim>\<open>execution/executor_insert.h\<close>, \<^verbatim>\<open>executor_delete.h\<close>, \<^verbatim>\<open>executor_update.h\<close>), each the constructor and the work of \<^verbatim>\<open>Next\<close>.

  Lemmas: a statement either does exactly what it should or throws with the write set still describing how to
  undo what it has done, so that a rollback after any sequence of statements restores the database.
\<close>

section \<open>Operations\<close>

text \<open>\<^verbatim>\<open>memcpy\<close> into a record.\<close>

definition write_at :: "nat \<Rightarrow> byte list \<Rightarrow> byte list \<Rightarrow> byte list" where
  "write_at off bs rec = take off rec @ bs @ drop (off + length bs) rec"

definition field_bytes :: "ColMeta \<Rightarrow> byte list value_op" where
  "field_bytes col =
     bind_e (coerce_to (cm_type col)) (\<lambda>ok.
       if \<not> ok then bind_e (gets_e vtype) (\<lambda>ty. throw (IncompatibleTypeError (coltype2str (cm_type col)) (coltype2str ty)))
       else bind_e (init_raw (cm_len col)) (\<lambda>_. gets_e (\<lambda>v. case raw v of Some bs \<Rightarrow> bs | None \<Rightarrow> [])))"

fun make_record :: "ColMeta list \<Rightarrow> Value list \<Rightarrow> byte list \<Rightarrow> rmdb_error + byte list" where
  "make_record cols [] rec = Inr rec"
| "make_record [] (v # vs) rec = Inl OutOfRange"
| "make_record (col # cols) (v # vs) rec =
     bind_r (fst (field_bytes col v)) (\<lambda>bs. make_record cols vs (write_at (nat (cm_offset col)) bs rec))"

definition the_handle :: "string \<Rightarrow> engine \<Rightarrow> RmFileHandle" where
  "the_handle t e = the (map_of (fhs (sm e)) t)"

text \<open>The constructors look the table and its file up.\<close>

definition open_table :: "string \<Rightarrow> TabMeta eng_op" where
  "open_table t =
     bind_e (gets_e (\<lambda>e. get_table (sm_db (sm e)) t)) (\<lambda>r. bind_e (lift_r r) (\<lambda>tab.
     bind_e (gets_e (\<lambda>e. map_of (fhs (sm e)) t)) (\<lambda>h. if h = None then throw OutOfRange else ret tab)))"

definition new_InsertExecutor :: "string \<Rightarrow> Value list \<Rightarrow> TabMeta eng_op" where
  "new_InsertExecutor t vals =
     bind_e (gets_e (\<lambda>e. get_table (sm_db (sm e)) t)) (\<lambda>r. bind_e (lift_r r) (\<lambda>tab.
       if length vals \<noteq> length (tm_cols tab) then throw InvalidValueCountError
       else bind_e (gets_e (\<lambda>e. map_of (fhs (sm e)) t)) (\<lambda>h. if h = None then throw OutOfRange else ret tab)))"

definition lock_table_X :: "Context \<Rightarrow> string \<Rightarrow> unit eng_op" where
  "lock_table_X cx t =
     bind_e (gets_e (\<lambda>e. fh_fd (the_handle t e))) (\<lambda>fd.
     bind_e (on_locks (lock_exclusive_on_table (cx_txn cx) fd)) (\<lambda>_. ret ()))"

definition note_write :: "Context \<Rightarrow> WriteRecord \<Rightarrow> unit eng_op" where
  "note_write cx wr = (case cx_txn cx of None \<Rightarrow> ret () | Some p \<Rightarrow> upd_txn p (append_write_record wr))"

definition note_log :: "Context \<Rightarrow> (int \<Rightarrow> LogRecord) \<Rightarrow> unit eng_op" where
  "note_log cx mk =
     (case cx_txn cx of None \<Rightarrow> ret ()
      | Some p \<Rightarrow> if cx_log cx then bind_e (log_for p mk) (\<lambda>_. on_log flush_log_to_disk) else ret ())"

text \<open>The buffer of the new record starts with unspecified bytes, the argument \<open>junk\<close>.\<close>

definition insert_Next :: "Context \<Rightarrow> string \<Rightarrow> TabMeta \<Rightarrow> Value list \<Rightarrow> (nat \<Rightarrow> byte) \<Rightarrow> Rid eng_op" where
  "insert_Next cx t tab vals junk =
     bind_e (lock_table_X cx t) (\<lambda>_.
     bind_e (gets_e (\<lambda>e. nat (record_size (file_hdr (the_handle t e))))) (\<lambda>n.
     bind_e (lift_r (make_record (tm_cols tab) vals (map junk [0..<n]))) (\<lambda>rec.
     bind_e (on_sm (check_index_insert t rec None)) (\<lambda>_.
     bind_e (on_sm (on_file t (insert_record rec))) (\<lambda>rid.
     bind_e (note_write cx (insert_write t rid)) (\<lambda>_.
     bind_e (note_log cx (\<lambda>i. InsertLogRecord i rec rid t)) (\<lambda>_.
     bind_e (on_sm (insert_index_entries t rec rid)) (\<lambda>_.
     ret rid))))))))"

definition delete_one :: "Context \<Rightarrow> string \<Rightarrow> Rid \<Rightarrow> unit eng_op" where
  "delete_one cx t rid =
     bind_e (on_sm (on_file t (get_record rid))) (\<lambda>rec.
     bind_e (note_log cx (\<lambda>i. DeleteLogRecord i rec rid t)) (\<lambda>_.
     bind_e (note_write cx (value_write DELETE_TUPLE t rid rec)) (\<lambda>_.
     bind_e (on_sm (delete_index_entries t rec rid)) (\<lambda>_.
     on_sm (on_file t (delete_record rid))))))"

definition delete_Next :: "Context \<Rightarrow> string \<Rightarrow> Rid list \<Rightarrow> unit eng_op" where
  "delete_Next cx t rids = bind_e (lock_table_X cx t) (\<lambda>_. for_each rids (delete_one cx t))"

text \<open>
  The clauses of an update are kept in the executor: their values are converted at the first record and
  stay so for the following ones.
\<close>

definition set_bytes :: "ColMeta \<Rightarrow> byte list value_op" where
  "set_bytes col =
     bind_e (coerce_to (cm_type col)) (\<lambda>ok.
       if \<not> ok then bind_e (gets_e vtype) (\<lambda>ty. throw (IncompatibleTypeError (coltype2str (cm_type col)) (coltype2str ty)))
       else
         bind_e (gets_e raw) (\<lambda>r.
         bind_e (if r = None then init_raw (cm_len col) else ret ()) (\<lambda>_.
         gets_e (\<lambda>v. case raw v of Some bs \<Rightarrow> take (nat (cm_len col)) bs | None \<Rightarrow> []))))"

fun apply_clauses :: "TabMeta \<Rightarrow> SetClause list \<Rightarrow> byte list \<Rightarrow> rmdb_error + (SetClause list \<times> byte list)" where
  "apply_clauses tab [] rec = Inr ([], rec)"
| "apply_clauses tab (s # ss) rec =
     bind_r (get_col tab (tc_col (set_lhs s))) (\<lambda>i. let col = tm_cols tab ! i in
       case set_bytes col (set_rhs s) of
         (Inl e, _) \<Rightarrow> Inl e
       | (Inr bs, v) \<Rightarrow>
           bind_r (apply_clauses tab ss (write_at (nat (cm_offset col)) bs rec)) (\<lambda>(ss', rec').
           Inr (s\<lparr>set_rhs := v\<rparr> # ss', rec')))"

fun update_rows :: "Context \<Rightarrow> string \<Rightarrow> TabMeta \<Rightarrow> SetClause list \<Rightarrow> Rid list \<Rightarrow> unit eng_op" where
  "update_rows cx t tab clauses [] = ret ()"
| "update_rows cx t tab clauses (rid # rids) =
     bind_e (on_sm (on_file t (get_record rid))) (\<lambda>old.
     bind_e (lift_r (apply_clauses tab clauses old)) (\<lambda>(clauses', rec).
     bind_e (note_log cx (\<lambda>i. UpdateLogRecord i old rec rid t)) (\<lambda>_.
     bind_e (note_write cx (value_write UPDATE_TUPLE t rid old)) (\<lambda>_.
     bind_e (on_sm (update_index_entries t old rec rid)) (\<lambda>_.
     bind_e (on_sm (on_file t (update_record rid rec))) (\<lambda>_.
     update_rows cx t tab clauses' rids))))))"

definition update_Next :: "Context \<Rightarrow> string \<Rightarrow> TabMeta \<Rightarrow> SetClause list \<Rightarrow> Rid list \<Rightarrow> unit eng_op" where
  "update_Next cx t tab clauses rids = bind_e (lock_table_X cx t) (\<lambda>_. update_rows cx t tab clauses rids)"

section \<open>Records made of values\<close>

text \<open>The columns of a table as \<^verbatim>\<open>create_table\<close> lays them out, one after the other.\<close>

fun layout :: "int \<Rightarrow> ColMeta list \<Rightarrow> int \<Rightarrow> bool" where
  "layout off [] n \<longleftrightarrow> off = n"
| "layout off (c # cs) n \<longleftrightarrow> cm_offset c = off \<and> len_ok (cm_type c) (cm_len c) \<and> layout (off + cm_len c) cs n"

lemma make_cols_layout:
  assumes "make_cols t off defs = (cs, n)" and "\<forall>d\<in>set defs. len_ok (cd_type d) (cd_len d)"
  shows "layout off cs n"
  using assms by (induction t off defs arbitrary: cs n rule: make_cols.induct) (auto split: prod.splits)

lemma layout_le: "layout off cs n \<Longrightarrow> off \<le> n"
  using len_ok_nonneg by (induction cs arbitrary: off) fastforce+

lemma layout_bounds:
  "layout off cs n \<Longrightarrow> c \<in> set cs \<Longrightarrow> off \<le> cm_offset c \<and> cm_offset c + cm_len c \<le> n \<and> len_ok (cm_type c) (cm_len c)"
proof (induction cs arbitrary: off)
  case (Cons d cs)
  then show ?case using layout_le [of "off + cm_len d" cs n] len_ok_nonneg [of "cm_type d" "cm_len d"] by fastforce
qed simp

lemma layout_apart:
  "layout off cs n \<Longrightarrow> c \<in> set cs \<Longrightarrow> d \<in> set cs \<Longrightarrow>
     c = d \<or> cm_offset c + cm_len c \<le> cm_offset d \<or> cm_offset d + cm_len d \<le> cm_offset c"
proof (induction cs arbitrary: off)
  case (Cons x cs)
  then show ?case using layout_bounds [of "off + cm_len x" cs n] by fastforce
qed simp

lemma length_write_at: "off + length bs \<le> length rec \<Longrightarrow> length (write_at off bs rec) = length rec"
  by (simp add: write_at_def)

lemma take_write_at: "off + length bs \<le> length rec \<Longrightarrow> k \<le> off \<Longrightarrow> take k (write_at off bs rec) = take k rec"
  by (simp add: write_at_def min_def)

lemma field_write_at:
  assumes "off + length bs \<le> length rec"
  shows "take (length bs) (drop off (write_at off bs rec)) = bs"
    and "off + length bs \<le> k \<Longrightarrow> drop k (write_at off bs rec) = drop k rec"
    and "k + m \<le> off \<Longrightarrow> take m (drop k (write_at off bs rec)) = take m (drop k rec)"
proof -
  show "take (length bs) (drop off (write_at off bs rec)) = bs" using assms by (simp add: write_at_def)
  show "off + length bs \<le> k \<Longrightarrow> drop k (write_at off bs rec) = drop k rec" using assms by (simp add: write_at_def)
  assume k: "k + m \<le> off"
  have "take m (drop k (write_at off bs rec)) = drop k (take (m + k) (write_at off bs rec))" by (simp add: drop_take)
  also have "\<dots> = drop k (take (m + k) rec)" using take_write_at [OF assms] k by simp
  finally show "take m (drop k (write_at off bs rec)) = take m (drop k rec)" by (simp add: drop_take)
qed

lemma coerce_type: "coerce_to ty v = (Inr True, v') \<Longrightarrow> vtype v' = ty"
  by (auto simp: coerce_to_def vtype_def set_float_def set_bigint_def set_int_def set_datetime_def
      split: if_splits ColType.splits val_data.splits sum.splits)

text \<open>A value that is no NaN in the column.\<close>

definition no_nan :: "ColMeta \<Rightarrow> Value \<Rightarrow> bool" where
  "no_nan col v \<longleftrightarrow> (\<forall>v' f. coerce_to (cm_type col) v = (Inr True, v') \<longrightarrow> vdata v' = FloatVal f \<longrightarrow> \<not> is_nan f)"

lemma init_raw_fine:
  assumes "init_raw len v = (Inr (), v')" and "raw v' = Some bs"
  shows "length bs = nat len" "(\<And>f. vdata v = FloatVal f \<Longrightarrow> \<not> is_nan f) \<Longrightarrow> raw_ok (vtype v) bs" "vdata v' = vdata v"
proof -
  have f: "(word_of_nat (le_val (le_bytes 4 (unat f))) :: float32) = f" for f
  proof -
    have "unat f < 256 ^ 4" using unsigned_less [of f] by simp
    then show ?thesis by (simp add: le_val_le_bytes)
  qed
  show "length bs = nat len" "vdata v' = vdata v"
    using assms by (cases "vdata v"; auto simp: init_raw_def split: if_splits)+
  show "raw_ok (vtype v) bs" if "\<And>f. vdata v = FloatVal f \<Longrightarrow> \<not> is_nan f"
    using assms f that by (cases "vdata v"; auto simp: init_raw_def vtype_def raw_ok_def raw_float_def split: if_splits)
qed

lemma field_bytes_fine:
  assumes "field_bytes col v = (Inr bs, v')"
  shows "length bs = nat (cm_len col)" "no_nan col v \<Longrightarrow> raw_ok (cm_type col) bs"
proof -
  obtain v1 where c: "coerce_to (cm_type col) v = (Inr True, v1)" and i: "init_raw (cm_len col) v1 = (Inr (), v')"
      and b: "bs = (case raw v' of Some bs \<Rightarrow> bs | None \<Rightarrow> [])"
    using assms unfolding field_bytes_def by (auto simp: bind_e_app split: prod.splits sum.splits if_splits)
  obtain r where r: "raw v' = Some r" using i by (auto simp: init_raw_def split: if_splits val_data.splits)
  then have r': "raw v' = Some bs" using b by simp
  show "length bs = nat (cm_len col)" by (rule init_raw_fine(1) [OF i r'])
  show "raw_ok (cm_type col) bs" if n: "no_nan col v"
  proof -
    have "raw_ok (vtype v1) bs" by (rule init_raw_fine(2) [OF i r']) (use n c in \<open>auto simp: no_nan_def\<close>)
    then show ?thesis using coerce_type [OF c] by simp
  qed
qed

text \<open>Every field of the record holds the bytes of its value.\<close>

lemma make_record_fields:
  assumes "layout off cols n" and "0 \<le> off" and "length vs = length cols" and "length rec = nat n" and "make_record cols vs rec = Inr r"
  shows "length r = nat n" "take (nat off) r = take (nat off) rec"
    "i < length cols \<Longrightarrow> \<exists>bs v'. field_bytes (cols ! i) (vs ! i) = (Inr bs, v') \<and>
       take (nat (cm_len (cols ! i))) (drop (nat (cm_offset (cols ! i))) r) = bs"
proof -
  have "length r = nat n \<and> take (nat off) r = take (nat off) rec \<and>
    (\<forall>i<length cols. \<exists>bs v'. field_bytes (cols ! i) (vs ! i) = (Inr bs, v') \<and>
       take (nat (cm_len (cols ! i))) (drop (nat (cm_offset (cols ! i))) r) = bs)"
    using assms
  proof (induction cols vs rec arbitrary: off rule: make_record.induct)
    case (3 col cols v vs rec)
    have l: "cm_offset col = off" "0 \<le> cm_len col" "layout (off + cm_len col) cols n" "off + cm_len col \<le> n"
      using "3.prems"(1) len_ok_nonneg layout_le by auto
    obtain bs v' where b: "field_bytes col v = (Inr bs, v')" and m: "make_record cols vs (write_at (nat off) bs rec) = Inr r"
      using "3.prems"(5) l(1) by (cases "field_bytes col v") (auto simp: bind_r_def split: sum.splits)
    have lb: "length bs = nat (cm_len col)" by (rule field_bytes_fine(1) [OF b])
    have "nat (off + cm_len col) \<le> nat n" using l(4) by (rule nat_mono)
    then have fit: "nat off + length bs \<le> length rec" using l(2) lb "3.prems"(2,4) by (simp add: nat_add_distrib)
    have IH: "length r = nat n" "take (nat (off + cm_len col)) r = take (nat (off + cm_len col)) (write_at (nat off) bs rec)"
      "\<And>i. i < length cols \<Longrightarrow> \<exists>bs v'. field_bytes (cols ! i) (vs ! i) = (Inr bs, v') \<and>
         take (nat (cm_len (cols ! i))) (drop (nat (cm_offset (cols ! i))) r) = bs"
      using "3.IH" [OF l(3), of bs] m l(1,2) "3.prems"(2-4) length_write_at [OF fit] by auto
    have split: "nat (off + cm_len col) = nat off + length bs" using lb l(2) "3.prems"(2) by (simp add: nat_add_distrib)
    have "take (length bs) (drop (nat off) r) = drop (nat off) (take (nat off + length bs) r)" by (simp add: drop_take)
    also have "\<dots> = take (length bs) (drop (nat off) (write_at (nat off) bs rec))"
      using IH(2) unfolding split by (simp add: drop_take)
    also have "\<dots> = bs" by (rule field_write_at(1) [OF fit])
    finally have f: "take (length bs) (drop (nat off) r) = bs" .
    have "take (nat off) r = take (nat off) (take (nat off + length bs) r)" by simp
    also have "\<dots> = take (nat off) (write_at (nat off) bs rec)" using IH(2) unfolding split by simp
    also have "\<dots> = take (nat off) rec" by (rule take_write_at [OF fit]) simp
    finally have t: "take (nat off) r = take (nat off) rec" .
    show ?case
    proof (intro conjI allI impI)
      fix i assume "i < length (col # cols)"
      then show "\<exists>bs v'. field_bytes ((col # cols) ! i) ((v # vs) ! i) = (Inr bs, v') \<and>
          take (nat (cm_len ((col # cols) ! i))) (drop (nat (cm_offset ((col # cols) ! i))) r) = bs"
        using IH(3) b f lb l(1) by (cases i) auto
    qed (use IH(1) t in simp_all)
  qed (auto dest: layout_le)
  then show "length r = nat n" "take (nat off) r = take (nat off) rec"
    "i < length cols \<Longrightarrow> \<exists>bs v'. field_bytes (cols ! i) (vs ! i) = (Inr bs, v') \<and>
       take (nat (cm_len (cols ! i))) (drop (nat (cm_offset (cols ! i))) r) = bs"
    by blast+
qed

text \<open>A table whose columns fill its records and whose indexes are on its columns.\<close>

definition tab_wf :: "sm_state \<Rightarrow> string \<Rightarrow> TabMeta \<Rightarrow> bool" where
  "tab_wf st t tab \<longleftrightarrow>
     map_of (tabs (sm_db st)) t = Some tab \<and>
     (\<exists>fd n k. shape st t = Some (fd, n, k) \<and> layout 0 (tm_cols tab) n) \<and>
     (\<forall>ix\<in>set (tm_indexes tab). \<forall>c\<in>set (im_cols ix). \<exists>c'\<in>set (tm_cols tab). unmarked c = unmarked c')"

lemma tab_wf_kept: "kept st st' \<Longrightarrow> tab_wf st' = tab_wf st"
  by (simp add: tab_wf_def kept_def fun_eq_iff)

lemma tab_wf_size:
  assumes "tab_wf st t tab" and "map_of (fhs st) t = Some h"
  shows "layout 0 (tm_cols tab) (record_size (file_hdr h))"
  using assms by (auto simp: tab_wf_def shape_def)

lemma unmarked_fine:
  assumes "unmarked c = unmarked c'"
  shows "col_fits n c = col_fits n c'" "field_fine c r = field_fine c' r"
  using unmarked_eq [OF assms] by (simp_all add: col_fits_def field_fine_def)

lemma field_fine_take: "len_ok (cm_type c) (cm_len c) \<Longrightarrow>
    field_fine c r = raw_ok (cm_type c) (take (nat (cm_len c)) (drop (nat (cm_offset c)) r))"
  using raw_ok_take by (simp add: field_fine_def)

lemma rec_okI:
  assumes "tab_wf st t tab" and l: "layout 0 (tm_cols tab) n" and "length r = nat n"
    and f: "\<And>ix c. ix \<in> set (tm_indexes tab) \<Longrightarrow> c \<in> set (im_cols ix) \<Longrightarrow> field_fine c r"
  shows "rec_ok tab r"
  unfolding rec_ok_def rec_fits_def
proof (intro ballI conjI)
  fix ix c assume x: "ix \<in> set (tm_indexes tab)" "c \<in> set (im_cols ix)"
  then obtain c' where c': "c' \<in> set (tm_cols tab)" "unmarked c = unmarked c'" using assms(1) by (auto simp: tab_wf_def)
  have "col_fits (length r) c'" using layout_bounds [OF l c'(1)] assms(3) layout_le [OF l] by (simp add: col_fits_def)
  then show "col_fits (length r) c" using unmarked_fine(1) [OF c'(2)] by simp
  show "field_fine c r" by (rule f [OF x])
qed

lemma make_record_ok:
  assumes w: "tab_wf st t tab" and l: "layout 0 (tm_cols tab) n" and "length vals = length (tm_cols tab)"
    and "length rec = nat n" and m: "make_record (tm_cols tab) vals rec = Inr r"
    and nn: "\<And>i. i < length vals \<Longrightarrow> no_nan (tm_cols tab ! i) (vals ! i)"
  shows "rec_ok tab r" "length r = nat n"
proof -
  note F = make_record_fields [OF l _ assms(3,4) m]
  show n: "length r = nat n" using F(1) by simp
  show "rec_ok tab r"
  proof (rule rec_okI [OF w l n])
    fix ix c assume "ix \<in> set (tm_indexes tab)" "c \<in> set (im_cols ix)"
    then obtain c' where c': "c' \<in> set (tm_cols tab)" "unmarked c = unmarked c'" using w by (auto simp: tab_wf_def)
    then obtain i where i: "i < length (tm_cols tab)" "c' = tm_cols tab ! i" by (auto simp: in_set_conv_nth)
    obtain bs v' where b: "field_bytes c' (vals ! i) = (Inr bs, v')" "take (nat (cm_len c')) (drop (nat (cm_offset c')) r) = bs"
      using F(3) [OF _ i(1)] i(2) by auto
    have "raw_ok (cm_type c') bs" using field_bytes_fine(2) [OF b(1)] nn i assms(3) by simp
    then have "field_fine c' r" using field_fine_take layout_bounds [OF l c'(1)] b(2) by simp
    then show "field_fine c r" using unmarked_fine(2) [OF c'(2)] by simp
  qed
qed

text \<open>The clauses of an update: values that are no NaN, with a raw buffer only if it was made for the column.\<close>

definition clause_ok :: "TabMeta \<Rightarrow> SetClause \<Rightarrow> bool" where
  "clause_ok tab s \<longleftrightarrow>
     (\<forall>i. get_col tab (tc_col (set_lhs s)) = Inr i \<longrightarrow>
        no_nan (tm_cols tab ! i) (set_rhs s) \<and>
        (\<forall>bs. raw (set_rhs s) = Some bs \<longrightarrow> vtype (set_rhs s) = cm_type (tm_cols tab ! i) \<and>
           length bs = nat (cm_len (tm_cols tab ! i)) \<and> raw_ok (cm_type (tm_cols tab ! i)) bs))"

lemma set_bytes_fine:
  assumes "set_bytes col v = (Inr bs, v')" and "no_nan col v"
    and r: "\<And>r. raw v = Some r \<Longrightarrow> vtype v = cm_type col \<and> length r = nat (cm_len col) \<and> raw_ok (cm_type col) r"
  shows "length bs = nat (cm_len col)" "raw_ok (cm_type col) bs" "raw v' = Some bs" "vtype v' = cm_type col" "no_nan col v'"
proof -
  obtain v1 where c: "coerce_to (cm_type col) v = (Inr True, v1)"
      and i: "(if raw v1 = None then init_raw (cm_len col) else ret ()) v1 = (Inr (), v')"
      and b: "bs = (case raw v' of Some bs \<Rightarrow> take (nat (cm_len col)) bs | None \<Rightarrow> [])"
    using assms(1) unfolding set_bytes_def by (auto simp: bind_e_app split: prod.splits sum.splits if_splits)
  have t1: "vtype v1 = cm_type col" by (rule coerce_type [OF c])
  have nf: "\<And>f. vdata v1 = FloatVal f \<Longrightarrow> \<not> is_nan f" using assms(2) c by (auto simp: no_nan_def)
  have "length bs = nat (cm_len col) \<and> raw_ok (cm_type col) bs \<and> raw v' = Some bs \<and> vdata v' = vdata v1"
  proof (cases "raw v1")
    case None
    then have i': "init_raw (cm_len col) v1 = (Inr (), v')" using i by simp
    obtain r where r: "raw v' = Some r" using i' by (auto simp: init_raw_def split: if_splits val_data.splits)
    note F = init_raw_fine [OF i' r]
    show ?thesis using F r b t1 nf by simp
  next
    case (Some q)
    then have v: "v' = v1" using i by simp
    have "raw v = Some q" using c Some
      by (auto simp: coerce_to_def set_float_def set_bigint_def set_int_def set_datetime_def split: if_splits ColType.splits val_data.splits sum.splits)
    from r [OF this] show ?thesis using Some v b by simp
  qed
  then show "length bs = nat (cm_len col)" "raw_ok (cm_type col) bs" "raw v' = Some bs" "vtype v' = cm_type col" "no_nan col v'"
    using t1 nf by (auto simp: vtype_def no_nan_def coerce_to_def)
qed

lemma apply_clauses_ok:
  assumes w: "tab_wf st t tab" and l: "layout 0 (tm_cols tab) n" and "length rec = nat n" and "rec_ok tab rec"
    and "\<forall>s\<in>set ss. clause_ok tab s" and "apply_clauses tab ss rec = Inr (ss', r)"
  shows "rec_ok tab r" "length r = nat n" "\<forall>s\<in>set ss'. clause_ok tab s"
proof -
  have "rec_ok tab r \<and> length r = nat n \<and> (\<forall>s\<in>set ss'. clause_ok tab s)"
    using assms(3-6)
  proof (induction ss arbitrary: rec ss' r)
    case (Cons s ss)
    obtain i where i: "get_col tab (tc_col (set_lhs s)) = Inr i" using Cons.prems(4) by (auto simp: bind_r_def split: sum.splits)
    let ?c = "tm_cols tab ! i"
    have ci: "?c \<in> set (tm_cols tab)" using i find_pos_find by (fastforce simp: get_col_def split: option.splits)
    obtain bs v ss1 where b: "set_bytes ?c (set_rhs s) = (Inr bs, v)"
        and a: "apply_clauses tab ss (write_at (nat (cm_offset ?c)) bs rec) = Inr (ss1, r)" and ss': "ss' = s\<lparr>set_rhs := v\<rparr> # ss1"
      using Cons.prems(4) i by (cases "set_bytes ?c (set_rhs s)") (auto simp: bind_r_def Let_def split: sum.splits)
    have cl: "no_nan ?c (set_rhs s)"
        "\<And>r. raw (set_rhs s) = Some r \<Longrightarrow> vtype (set_rhs s) = cm_type ?c \<and> length r = nat (cm_len ?c) \<and> raw_ok (cm_type ?c) r"
      using Cons.prems(3) i by (auto simp: clause_ok_def)
    note F = set_bytes_fine [OF b cl]
    note B = layout_bounds [OF l ci]
    have fit: "nat (cm_offset ?c) + length bs \<le> length rec"
    proof -
      have "nat (cm_offset ?c + cm_len ?c) \<le> nat n" using B by (intro nat_mono) blast
      then show ?thesis using B F(1) Cons.prems(1) len_ok_nonneg [of "cm_type ?c" "cm_len ?c"] by (simp add: nat_add_distrib)
    qed
    let ?rec = "write_at (nat (cm_offset ?c)) bs rec"
    have len: "length ?rec = nat n" using length_write_at [OF fit] Cons.prems(1) by simp
    have "rec_ok tab ?rec"
    proof (rule rec_okI [OF w l len])
      fix ix d assume x: "ix \<in> set (tm_indexes tab)" "d \<in> set (im_cols ix)"
      then obtain d' where d': "d' \<in> set (tm_cols tab)" "unmarked d = unmarked d'" using w by (auto simp: tab_wf_def)
      note D = layout_bounds [OF l d'(1)]
      have ld: "0 \<le> cm_len d'" "0 \<le> cm_len ?c" using D B len_ok_nonneg by blast+
      have "field_fine d' rec" using x Cons.prems(2) unmarked_fine(2) [OF d'(2)] by (auto simp: rec_ok_def rec_fits_def)
      then have old: "raw_ok (cm_type d') (take (nat (cm_len d')) (drop (nat (cm_offset d')) rec))" using field_fine_take D by blast
      have "raw_ok (cm_type d') (take (nat (cm_len d')) (drop (nat (cm_offset d')) ?rec))"
      proof (cases "d' = ?c")
        case True
        then show ?thesis using field_write_at(1) [OF fit] F(1,2) by simp
      next
        case False
        then have "cm_offset d' + cm_len d' \<le> cm_offset ?c \<or> cm_offset ?c + cm_len ?c \<le> cm_offset d'"
          using layout_apart [OF l d'(1) ci] by blast
        then have "take (nat (cm_len d')) (drop (nat (cm_offset d')) ?rec) = take (nat (cm_len d')) (drop (nat (cm_offset d')) rec)"
        proof
          assume "cm_offset d' + cm_len d' \<le> cm_offset ?c"
          then have "nat (cm_offset d') + nat (cm_len d') \<le> nat (cm_offset ?c)" using D ld by linarith
          then show ?thesis by (rule field_write_at(3) [OF fit])
        next
          assume "cm_offset ?c + cm_len ?c \<le> cm_offset d'"
          then have "nat (cm_offset ?c) + length bs \<le> nat (cm_offset d')" using B F(1) ld by linarith
          then show ?thesis using field_write_at(2) [OF fit] by simp
        qed
        then show ?thesis using old by simp
      qed
      then have "field_fine d' ?rec" using field_fine_take D by blast
      then show "field_fine d ?rec" using unmarked_fine(2) [OF d'(2)] by simp
    qed
    moreover have "clause_ok tab (s\<lparr>set_rhs := v\<rparr>)" using F i by (simp add: clause_ok_def)
    ultimately show ?case using Cons.IH [OF len _ _ a] Cons.prems(3) ss' by auto
  qed simp
  then show "rec_ok tab r" "length r = nat n" "\<forall>s\<in>set ss'. clause_ok tab s" by blast+
qed

section \<open>Steps of a statement\<close>

text \<open>A transaction in the middle of its work: what it has done since \<open>c0\<close> can be undone.\<close>

definition tx_ok :: "db_contents \<Rightarrow> int \<Rightarrow> engine \<Rightarrow> bool" where
  "tx_ok c0 p e \<longleftrightarrow> eng_inv e \<and> int32_range p \<and> undoes (sm e) c0 (write_set (the_txn p e)) (contents (sm e))"

definition all_chained :: "engine \<Rightarrow> bool" where
  "all_chained e \<longleftrightarrow> (\<forall>t. map_of (fhs (sm e)) t \<noteq> None \<longrightarrow> chained (sm e) t)"

lemma undoes_kept:
  assumes "kept st st'"
  shows "undoes st' c0 ws c = undoes st c0 ws c"
proof -
  have l: "legal st' = legal st" and d: "sm_db st' = sm_db st" using legal_kept [OF assms] assms by (simp_all add: kept_def)
  have "undoes a c0 ws c \<Longrightarrow> legal a = legal b \<Longrightarrow> sm_db a = sm_db b \<Longrightarrow> undoes b c0 ws c" for a b
    by (induction rule: undoes.induct) (metis undoes.intros)+
  then show ?thesis using l d by metis
qed

lemma lock_table_step:
  assumes inv: "eng_inv e" and t: "map_of (fhs (sm e)) t = Some h" and cx: "cx_txn cx = Some p"
  shows "\<exists>r w'. lock_table_X cx t e = (r, e\<lparr>locks := w'\<rparr>) \<and> eng_inv (e\<lparr>locks := w'\<rparr>) \<and>
    write_set (txns w' p) = write_set (the_txn p e) \<and>
    (r = Inr () \<longrightarrow> Lock_Manager.holds w' p (table_lock_id (fh_fd h)) = Some EXLUCSIVE) \<and>
    (r \<noteq> Inr () \<longrightarrow> (\<exists>why. r = Inl (TransactionAbortException p why)))"
proof -
  let ?w = "locks e" and ?i = "table_lock_id (fh_fd h)"
  have l: "lm_inv ?w" using inv by (simp add: eng_inv_def eng_base_def)
  obtain r w' where lk: "lock (Some p) ?i EXLUCSIVE ?w = (r, w')" by (metis surj_pair)
  have l': "lm_inv w'" by (rule lm_inv_lock [OF l _ lk]) simp
  have tx: "prev_lsn (txns w' q) = prev_lsn (txns ?w q)" "write_set (txns w' q) = write_set (txns ?w q)" for q
    using lk by (auto simp: lock_outcome [OF l] lock_set_insert_def split: if_splits)
  have "eng_inv (e\<lparr>locks := w'\<rparr>)" using inv l' tx by (simp add: eng_inv_def eng_base_def the_txn_def)
  moreover have "Lock_Manager.holds w' p ?i = Some EXLUCSIVE" if "r = Inr b" for b
    using lk that grants_grant_queue [OF lm_invD(5) [OF l, of ?i]]
    by (auto simp: lock_outcome [OF l] strong_enough_def is_stronger_or_equal_def split: if_splits)
  moreover have "r = Inr True \<or> (\<exists>why. r = Inl (TransactionAbortException p why))"
    using lk by (auto simp: lock_outcome [OF l] split: if_splits)
  moreover have "lock_table_X cx t e = (case r of Inl x \<Rightarrow> Inl x | Inr _ \<Rightarrow> Inr (), e\<lparr>locks := w'\<rparr>)"
    using lk t cx by (auto simp: lock_table_X_def the_handle_def on_locks_def zoom_app lock_exclusive_on_table_def bind_e_app split: sum.splits)
  ultimately show ?thesis using tx(2) by (cases r) (auto simp: the_txn_def)
qed

lemma note_log_step:
  assumes inv: "eng_base e" and cx: "cx_txn cx = Some p" and r: "loggable mk p"
  shows "\<exists>e'. note_log cx mk e = (Inr (), e') \<and> eng_base e' \<and> logged_only e e'"
proof (cases "cx_log cx")
  case True
  obtain e1 where e1: "log_for p mk e = (Inr (), e1)" "eng_base e1" "logged_only e e1" using log_for_step [OF inv r] by blast
  obtain e2 where e2: "on_log flush_log_to_disk e1 = (Inr (), e2)" "eng_base e2" "logged_only e1 e2" using flush_log_step [OF e1(2)] by blast
  show ?thesis using True cx e1 e2 logged_only_trans [OF e1(3) e2(3)] by (simp add: note_log_def)
next
  case False
  then show ?thesis using inv cx by (simp add: note_log_def)
qed

lemma note_write_step:
  "cx_txn cx = Some p \<Longrightarrow> note_write cx wr e = (Inr (), e\<lparr>locks := on_txn p (append_write_record wr) (locks e)\<rparr>)"
  by (simp add: note_write_def upd_txn_def)

lemma eng_base_write:
  assumes "eng_base e"
  shows "eng_base (e\<lparr>locks := on_txn p (append_write_record wr) (locks e)\<rparr>)"
proof -
  have "lm_inv (on_txn p (append_write_record wr) (locks e))"
    by (rule lm_inv_cong [of "locks e"]) (use assms in \<open>auto simp: eng_base_def append_write_record_def\<close>)
  then show ?thesis using assms by (simp add: eng_base_def append_write_record_def)
qed

lemma eng_inv_write: "eng_inv e \<Longrightarrow> eng_inv (e\<lparr>locks := on_txn p (append_write_record wr) (locks e)\<rparr>)"
  using eng_base_write by (simp add: eng_inv_def)

lemma data_records_loggable:
  assumes "int32_range p" and "rid_ok rid" and "length v \<le> 512" and "length v' \<le> 512" and "length t \<le> 4000000"
  shows "loggable (\<lambda>i. InsertLogRecord i v rid t) p" "loggable (\<lambda>i. DeleteLogRecord i v rid t) p"
    "loggable (\<lambda>i. UpdateLogRecord i v v' rid t) p"
  using assms by (auto simp: loggable_def InsertLogRecord_def DeleteLogRecord_def UpdateLogRecord_def value_ok_def intro!: new_log_record_ok)
    (simp_all add: new_log_record_def)

lemma place_rid_ok: "place_ok sh rid rec \<Longrightarrow> (\<And>fd n k. sh = Some (fd, n, k) \<Longrightarrow> k \<le> 2147483647) \<Longrightarrow> rid_ok rid"
  by (auto simp: place_ok_def rid_ok_def int32_range_def split: option.splits prod.splits)

lemma shape_bounds:
  assumes "files_ok st" and "map_of (fhs st) t = Some h"
  shows "record_size (file_hdr h) \<le> 512" "num_records_per_page (file_hdr h) \<le> 2147483647" "1 \<le> record_size (file_hdr h)"
proof -
  have "hdr_ok (hdr (tab_st st h))" using rm_invD(5) [OF files_ok_rm_inv [OF assms]] .
  then have ok: "hdr_ok (file_hdr h)" by (simp add: tab_st_fh)
  then show "record_size (file_hdr h) \<le> 512" "1 \<le> record_size (file_hdr h)" by (simp_all add: hdr_ok_def)
  show "num_records_per_page (file_hdr h) \<le> 2147483647" using hdr_ok_bounds(6) [OF ok] by simp
qed

lemma record_loggable:
  assumes inv: "eng_inv e" and c: "contents (sm e) t rid = Some rec" and p: "int32_range p" and t: "length t \<le> 4000000"
    and l: "length rec' = length rec"
  shows "loggable (\<lambda>i. DeleteLogRecord i rec rid t) p" "loggable (\<lambda>i. UpdateLogRecord i rec rec' rid t) p" "rid_ok rid" "length rec \<le> 512"
proof -
  have ok: "files_ok (sm e)" using inv by (simp add: eng_inv_def eng_base_def)
  obtain h where h: "map_of (fhs (sm e)) t = Some h" using contents_Some_handle [OF c] by blast
  show r: "rid_ok rid"
    by (rule place_rid_ok [OF contents_place [OF ok c]]) (use shape_bounds(2) [OF ok h] h in \<open>auto simp: shape_def\<close>)
  show n: "length rec \<le> 512" using contents_length [OF c h] shape_bounds(1) [OF ok h] by simp
  show "loggable (\<lambda>i. DeleteLogRecord i rec rid t) p" "loggable (\<lambda>i. UpdateLogRecord i rec rec' rid t) p"
    using data_records_loggable [OF p r n _ t, of rec'] n l by simp_all
qed

text \<open>The part of an insert behind its checks.\<close>

lemma wrote_frame:
  assumes "wrote t m st s1" and "frame s1 s2" and "files_ok s2" and "contents s2 = contents s1" and "chained s2 = chained s1"
    and "pages_of s2 = pages_of s1"
  shows "wrote t m st s2"
  using assms frame_trans by (auto simp: wrote_def)

definition insert_work :: "Context \<Rightarrow> string \<Rightarrow> byte list \<Rightarrow> Rid eng_op" where
  "insert_work cx t rec =
     bind_e (on_sm (on_file t (insert_record rec))) (\<lambda>rid.
     bind_e (note_write cx (insert_write t rid)) (\<lambda>_.
     bind_e (note_log cx (\<lambda>i. InsertLogRecord i rec rid t)) (\<lambda>_.
     bind_e (on_sm (insert_index_entries t rec rid)) (\<lambda>_.
     ret rid))))"

lemma on_sm_eq: "op (sm e) = (r, s) \<Longrightarrow> on_sm op e = (r, e\<lparr>sm := s\<rparr>)"
  by (simp add: on_sm_def zoom_app)

lemma eng_base_sm: "eng_base e \<Longrightarrow> files_ok s \<Longrightarrow> frame (sm e) s \<Longrightarrow> eng_base (e\<lparr>sm := s\<rparr>)"
  by (simp add: eng_base_def frame_def)

lemma handles_same: "map fst (fhs a) = map fst (fhs b) \<Longrightarrow> map_of (fhs a) k = None \<longleftrightarrow> map_of (fhs b) k = None"
  by (metis list.set_map map_of_eq_None_iff)

lemma insert_work_spec:
  assumes ok: "tx_ok c0 p e" and t: "map_of (tabs (sm_db (sm e))) t = Some tab" and ch: "all_chained e"
    and pg: "pages_of (sm e) t < 2147483647" and cx: "cx_txn cx = Some p" and tn: "length t \<le> 4000000"
    and r: "rec_ok tab rec" and nc: "\<not> clashes tab (contents (sm e) t) rec None"
    and len: "length rec = nat (record_size (file_hdr (the_handle t e)))"
  shows "\<exists>rid e'. insert_work cx t rec e = (Inr rid, e') \<and> tx_ok c0 p e' \<and> kept (sm e) (sm e') \<and> all_chained e' \<and>
    (\<forall>k. pages_of (sm e') k \<le> pages_of (sm e) k + 1) \<and> contents (sm e) t rid = None \<and>
    contents (sm e') = (contents (sm e))(t := (contents (sm e) t)(rid \<mapsto> rec)) \<and>
    Lock_Manager.holds (locks e') = Lock_Manager.holds (locks e)"
proof -
  let ?st = "sm e" and ?m = "contents (sm e) t"
  have inv: "eng_inv e" "eng_base e" "sm_inv ?st" and p: "int32_range p"
    and u: "undoes ?st c0 (write_set (the_txn p e)) (contents ?st)" using ok by (simp_all add: tx_ok_def eng_inv_def)
  note I = sm_invD [OF inv(3)]
  obtain h where h: "map_of (fhs ?st) t = Some h" using I(4) [OF t] by auto
  have len': "length rec = nat (record_size (file_hdr h))" using len h by (simp add: the_handle_def)
  have chn: "chained ?st t" using ch h by (simp add: all_chained_def)
  obtain rid s1 where s1: "on_file t (insert_record rec) ?st = (Inr rid, s1)" "?m rid = None" "wrote t (?m(rid \<mapsto> rec)) ?st s1"
      "chained s1 t" "pages_of s1 t \<le> pages_of ?st t + 1"
    using tab_insert_record [OF I(1) h chn len' pg] by blast
  let ?e1 = "e\<lparr>sm := s1\<rparr>"
  let ?e2 = "?e1\<lparr>locks := on_txn p (append_write_record (insert_write t rid)) (locks ?e1)\<rparr>"
  have w1: "frame ?st s1" "files_ok s1" "contents s1 = (contents ?st)(t := ?m(rid \<mapsto> rec))" using s1(3) by (simp_all add: wrote_def)
  have b2: "eng_base ?e2" by (rule eng_base_write [OF eng_base_sm [OF inv(2) w1(2,1)]])
  have rb: "rid_ok rid"
  proof (rule place_rid_ok [OF contents_place [OF w1(2), of t rid rec]])
    have "shape s1 t = shape ?st t" using w1(1) by (simp add: frame_def)
    then show "k \<le> 2147483647" if "shape s1 t = Some (fd, n, k)" for fd n k
      using that shape_bounds(2) [OF I(1) h] h by (auto simp: shape_def)
  qed (simp add: w1(3))
  have "length rec \<le> 512" using len' shape_bounds(1) [OF I(1) h] by simp
  then obtain e3 where e3: "note_log cx (\<lambda>i. InsertLogRecord i rec rid t) ?e2 = (Inr (), e3)" "eng_base e3" "logged_only ?e2 e3"
    using note_log_step [OF b2 cx data_records_loggable(1) [OF p rb _ _ tn]] by blast
  let ?s3 = "sm e3"
  have f3: "frame s1 ?s3" "files_ok ?s3" "contents ?s3 = contents s1" "chained ?s3 = chained s1" "pages_of ?s3 = pages_of s1"
    using e3(2,3) by (auto simp: logged_only_def eng_base_def)
  have W: "wrote t (?m(rid \<mapsto> rec)) ?st ?s3" by (rule wrote_frame [OF s1(3) f3])
  have fr: "frame ?st ?s3" using W by (simp add: wrote_def)
  then have db: "sm_db ?s3 = sm_db ?st" "runtime_indexes ?s3 = runtime_indexes ?st" by (simp_all add: frame_def)
  have i3: "idx_state ?s3 tab ?m" using I(5) [OF t] db(2) by (simp add: idx_state_def)
  obtain s4 where s4: "insert_index_entries t rec rid ?s3 = (Inr (), s4)" "reindexed t tab (?m(rid \<mapsto> rec)) ?s3 s4"
    using insert_index_entries_spec [OF _ _ _ i3 r s1(2)] I(2,3) t db by auto
  have nc': "\<not> clashes tab ?m rec (Some rid)" using nc clashes_None_Some [where m = ?m, OF s1(2)] by simp
  have C: "changed t (?m(rid \<mapsto> rec)) ?st s4"
    by (rule changed_file_index [OF inv(3) t W s4(2) recs_ok_upd [OF I(6) [OF t] r nc']])
  note q = reindexed_sel [OF s4(2)]
  let ?e4 = "e3\<lparr>sm := s4\<rparr>"
  have "insert_work cx t rec e = (Inr rid, ?e4)"
    using on_sm_eq [of "on_file t (insert_record rec)" e, OF s1(1)] note_write_step [OF cx, of "insert_write t rid" ?e1] e3(1)
      on_sm_eq [of "insert_index_entries t rec rid" e3, OF s4(1)] by (simp add: insert_work_def)
  moreover have "tx_ok c0 p ?e4"
  proof -
    have "eng_base ?e4" using e3(2) q(6,11) by (simp add: eng_base_def)
    then have i4: "eng_inv ?e4" using C by (simp add: eng_inv_def changed_def)
    have "write_set (the_txn p ?e4) = write_set (the_txn p e) @ [insert_write t rid]"
      using logged_only_txn(1) [OF e3(3), of p] by (simp add: the_txn_def append_write_record_def)
    moreover have "undoes ?st c0 (write_set (the_txn p e) @ [insert_write t rid]) ((contents ?st)(t := ?m(rid \<mapsto> rec)))"
    proof (rule undoes.Inserted [OF u])
      show "is_table (sm_db ?st) t" using t by (simp add: is_table_def)
      show "legal ?st ((contents ?st)(t := ?m(rid \<mapsto> rec)))"
        using sm_inv_legal [of s4] legal_kept [of ?st s4] C by (simp add: changed_def)
    qed (rule s1(2))
    ultimately show ?thesis using i4 p undoes_kept [of ?st s4] C by (simp add: tx_ok_def changed_def)
  qed
  moreover have "all_chained ?e4" unfolding all_chained_def
  proof (intro allI impI)
    fix k assume k: "map_of (fhs (sm ?e4)) k \<noteq> None"
    have "chained s4 k = chained ?s3 k" using q(7) by simp
    moreover have "chained ?s3 k"
    proof (cases "k = t")
      case False
      have "map fst (fhs s4) = map fst (fhs ?st)" using C by (simp add: changed_def kept_def)
      then have "map_of (fhs ?st) k \<noteq> None" using k handles_same [of s4 ?st k] by auto
      then have "chained ?st k" using ch unfolding all_chained_def by blast
      then show ?thesis using W False by (simp add: wrote_def)
    qed (use s1(4) f3(4) in simp)
    ultimately show "chained (sm ?e4) k" by simp
  qed
  moreover have "pages_of s4 k \<le> pages_of ?st k + 1" for k
    using W s1(5) f3(5) q(10) by (cases "k = t") (auto simp: wrote_def)
  moreover have "Lock_Manager.holds (locks ?e4) = Lock_Manager.holds (locks e)"
    using e3(3) by (simp add: logged_only_def Lock_Manager.holds_def fun_eq_iff)
  ultimately show ?thesis using C s1(2) by (intro exI [of _ rid] exI [of _ ?e4]) (simp add: changed_def)
qed

text \<open>Inserting: what is left when a check or the lock request fails.\<close>

lemma tx_ok_locks:
  assumes "tx_ok c0 p e" and "eng_inv (e\<lparr>locks := w\<rparr>)" and "write_set (txns w p) = write_set (the_txn p e)"
  shows "tx_ok c0 p (e\<lparr>locks := w\<rparr>)"
  using assms by (simp add: tx_ok_def the_txn_def)

text \<open>The result of a statement: an error leaves the contents as they were.\<close>

definition insert_post :: "Context \<Rightarrow> string \<Rightarrow> TabMeta \<Rightarrow> Value list \<Rightarrow> (nat \<Rightarrow> byte) \<Rightarrow> engine \<Rightarrow> rmdb_error + Rid \<Rightarrow> engine \<Rightarrow> bool" where
  "insert_post cx t tab vals junk e r e' \<longleftrightarrow>
     (let made = make_record (tm_cols tab) vals (map junk [0..<nat (record_size (file_hdr (the_handle t e)))]) in
      case r of
        Inl x \<Rightarrow> contents (sm e') = contents (sm e) \<and>
          (fst (lock_table_X cx t e) = Inl x \<and> (\<exists>q why. x = TransactionAbortException q why) \<or> made = Inl x \<or>
           (\<exists>rec. made = Inr rec \<and> clashes tab (contents (sm e) t) rec None \<and> x = InternalError ''Duplicate value violates unique index''))
      | Inr rid \<Rightarrow> \<exists>rec. made = Inr rec \<and> \<not> clashes tab (contents (sm e) t) rec None \<and>
          contents (sm e) t rid = None \<and> contents (sm e') = (contents (sm e))(t := (contents (sm e) t)(rid \<mapsto> rec)))"

lemma insert_Next_spec:
  assumes ok: "tx_ok c0 p e" and w: "tab_wf (sm e) t tab" and ch: "all_chained e"
    and pg: "pages_of (sm e) t < 2147483647" and cx: "cx_txn cx = Some p" and tn: "length t \<le> 4000000"
    and vl: "length vals = length (tm_cols tab)" and nn: "\<And>i. i < length vals \<Longrightarrow> no_nan (tm_cols tab ! i) (vals ! i)"
  shows "\<exists>r e'. insert_Next cx t tab vals junk e = (r, e') \<and> tx_ok c0 p e' \<and> kept (sm e) (sm e') \<and> all_chained e' \<and>
    (\<forall>k. pages_of (sm e') k \<le> pages_of (sm e) k + 1) \<and> insert_post cx t tab vals junk e r e'"
proof -
  let ?st = "sm e" and ?m = "contents (sm e) t"
  have inv: "eng_inv e" "sm_inv ?st" using ok by (simp_all add: tx_ok_def eng_inv_def)
  have t: "map_of (tabs (sm_db ?st)) t = Some tab" using w by (simp add: tab_wf_def)
  note I = sm_invD [OF inv(2)]
  obtain h where h: "map_of (fhs ?st) t = Some h" using I(4) [OF t] by auto
  let ?n = "nat (record_size (file_hdr h))"
  note lay = tab_wf_size [OF w h]
  obtain r0 w1 where L: "lock_table_X cx t e = (r0, e\<lparr>locks := w1\<rparr>)" "eng_inv (e\<lparr>locks := w1\<rparr>)"
      "write_set (txns w1 p) = write_set (the_txn p e)" "r0 \<noteq> Inr () \<longrightarrow> (\<exists>why. r0 = Inl (TransactionAbortException p why))"
    using lock_table_step [OF inv(1) h cx] by blast
  let ?e1 = "e\<lparr>locks := w1\<rparr>"
  have ok1: "tx_ok c0 p ?e1" by (rule tx_ok_locks [OF ok L(2,3)])
  have hd: "the_handle t ?e1 = h" "the_handle t e = h" using h by (simp_all add: the_handle_def)
  have fail: ?thesis if "insert_Next cx t tab vals junk e = (Inl x, ?e1)" "insert_post cx t tab vals junk e (Inl x) ?e1" for x
    using that ok1 ch by (intro exI [of _ "Inl x"] exI [of _ ?e1]) (simp add: all_chained_def)
  show ?thesis
  proof (cases r0)
    case (Inl x)
    then show ?thesis using L(1,4) by (intro fail [of x]) (simp_all add: insert_Next_def insert_post_def Let_def, blast)
  next
    case (Inr u)
    then have L1: "lock_table_X cx t e = (Inr (), ?e1)" using L(1) by simp
    show ?thesis
    proof (cases "make_record (tm_cols tab) vals (map junk [0..<?n])")
      case (Inl x)
      then show ?thesis using L1 hd by (intro fail [of x]) (simp_all add: insert_Next_def insert_post_def)
    next
      case (Inr rec)
      have R: "rec_ok tab rec" "length rec = ?n"
        using make_record_ok [OF w lay vl _ Inr nn] by simp_all
      have chk: "on_sm (check_index_insert t rec None) ?e1 =
          (if clashes tab ?m rec None then Inl (InternalError ''Duplicate value violates unique index'') else Inr (), ?e1)"
        using check_index_insert_spec [OF I(2) t I(5) [OF t] I(6) [OF t] R(1), of None] by (simp add: on_sm_def zoom_app)
      have run: "insert_Next cx t tab vals junk e =
          bind_e (on_sm (check_index_insert t rec None)) (\<lambda>_. insert_work cx t rec) ?e1"
        using L1 hd Inr by (simp add: insert_Next_def insert_work_def)
      show ?thesis
      proof (cases "clashes tab ?m rec None")
        case True
        then show ?thesis using run chk Inr hd
          by (intro fail [of "InternalError ''Duplicate value violates unique index''"]) (simp_all add: insert_post_def)
      next
        case False
        have c1: "all_chained ?e1" using ch by (simp add: all_chained_def)
        obtain rid e' where W: "insert_work cx t rec ?e1 = (Inr rid, e')" "tx_ok c0 p e'" "kept ?st (sm e')" "all_chained e'"
            "\<forall>k. pages_of (sm e') k \<le> pages_of ?st k + 1" "?m rid = None" "contents (sm e') = (contents ?st)(t := ?m(rid \<mapsto> rec))"
          using insert_work_spec [OF ok1 _ c1 _ cx tn R(1)] t pg False R(2) hd by auto
        have "insert_Next cx t tab vals junk e = (Inr rid, e')" using run chk False W(1) by simp
        then show ?thesis using W(2-7) Inr hd False by (intro exI [of _ "Inr rid"] exI [of _ e']) (simp add: insert_post_def)
      qed
    qed
  qed
qed

text \<open>Deleting one record.\<close>

lemma all_chained_changed:
  assumes "all_chained e" and "map fst (fhs s) = map fst (fhs (sm e))" and "\<forall>k. chained (sm e) k \<longrightarrow> chained s k" and "sm e' = s"
  shows "all_chained e'"
  unfolding all_chained_def
proof (intro allI impI)
  fix k assume "map_of (fhs (sm e')) k \<noteq> None"
  then have "map_of (fhs (sm e)) k \<noteq> None" using handles_same [OF assms(2), of k] assms(4) by auto
  then show "chained (sm e') k" using assms(1,3,4) unfolding all_chained_def by blast
qed

lemma noted:
  assumes ok: "tx_ok c0 p e" and cx: "cx_txn cx = Some p" and mk: "loggable mk p"
  shows "\<exists>e'. bind_e (note_log cx mk) (\<lambda>_. note_write cx wr) e = (Inr (), e') \<and> eng_inv e' \<and> contents (sm e') = contents (sm e) \<and>
    kept (sm e) (sm e') \<and> chained (sm e') = chained (sm e) \<and> pages_of (sm e') = pages_of (sm e) \<and>
    write_set (the_txn p e') = write_set (the_txn p e) @ [wr] \<and> undoes (sm e') c0 (write_set (the_txn p e)) (contents (sm e))"
proof -
  have inv: "eng_inv e" using ok by (simp add: tx_ok_def)
  obtain e1 where e1: "note_log cx mk e = (Inr (), e1)" "eng_base e1" "logged_only e e1"
    using note_log_step [OF eng_invD(1) [OF inv] cx mk] by blast
  have i1: "eng_inv e1" by (rule logged_only_inv [OF inv e1(2,3)])
  have k: "kept (sm e) (sm e1)" "contents (sm e1) = contents (sm e)" "chained (sm e1) = chained (sm e)" "pages_of (sm e1) = pages_of (sm e)"
    using e1(3) frame_kept by (auto simp: logged_only_def)
  let ?e2 = "e1\<lparr>locks := on_txn p (append_write_record wr) (locks e1)\<rparr>"
  have "eng_inv ?e2" by (rule eng_inv_write [OF i1])
  moreover have "write_set (the_txn p ?e2) = write_set (the_txn p e) @ [wr]"
    using logged_only_txn(1) [OF e1(3), of p] by (simp add: append_write_record_def)
  moreover have "undoes (sm e1) c0 (write_set (the_txn p e)) (contents (sm e))" using ok undoes_kept [OF k(1)] by (simp add: tx_ok_def)
  ultimately show ?thesis using e1(1) note_write_step [OF cx] k by (intro exI [of _ ?e2]) simp
qed

lemma get_rec_step:
  assumes ok: "tx_ok c0 p e" and h: "map_of (fhs (sm e)) t = Some h"
  shows "\<exists>s. on_sm (on_file t (get_record rid)) e =
      (case contents (sm e) t rid of Some bs \<Rightarrow> Inr bs | None \<Rightarrow> Inl (RecordNotFoundError (page_no rid) (slot_no rid)), e\<lparr>sm := s\<rparr>) \<and>
    tx_ok c0 p (e\<lparr>sm := s\<rparr>) \<and> calm (sm e) s"
proof -
  have inv: "eng_inv e" "sm_inv (sm e)" using ok by (simp_all add: tx_ok_def eng_inv_def)
  obtain s where s: "on_file t (get_record rid) (sm e) =
      (case contents (sm e) t rid of Some bs \<Rightarrow> Inr bs | None \<Rightarrow> Inl (RecordNotFoundError (page_no rid) (slot_no rid)), s)" "calm (sm e) s"
    using tab_get_record [OF sm_invD(1) [OF inv(2)] h] by blast
  have k: "kept (sm e) s" "contents s = contents (sm e)" using s(2) frame_kept by (auto simp: calm_def)
  have "eng_inv (e\<lparr>sm := s\<rparr>)" by (rule eng_inv_sm [OF inv(1) sm_inv_calm [OF inv(2) s(2)] k(1)])
  then have "tx_ok c0 p (e\<lparr>sm := s\<rparr>)" using ok k undoes_kept [OF k(1)] by (simp add: tx_ok_def)
  then show ?thesis using s on_sm_eq [of "on_file t (get_record rid)" e, OF s(1)] by blast
qed

text \<open>What every step of a statement keeps.\<close>

definition step_ok :: "db_contents \<Rightarrow> int \<Rightarrow> engine \<Rightarrow> engine \<Rightarrow> bool" where
  "step_ok c0 p e e' \<longleftrightarrow> tx_ok c0 p e' \<and> kept (sm e) (sm e') \<and> all_chained e' \<and> pages_of (sm e') = pages_of (sm e)"

lemma step_ok_trans: "step_ok c0 p a b \<Longrightarrow> step_ok c0 p b c \<Longrightarrow> step_ok c0 p a c"
  using kept_trans by (auto simp: step_ok_def)

lemma calm_step:
  assumes "calm (sm e) s" and "all_chained e" and "tx_ok c0 p (e\<lparr>sm := s\<rparr>)"
  shows "step_ok c0 p e (e\<lparr>sm := s\<rparr>)"
  using assms frame_kept by (auto simp: step_ok_def calm_def all_chained_def pages_of_def [abs_def])

lemma changed_step:
  assumes n: "eng_inv e1" "kept (sm e) (sm e1)" "chained (sm e1) = chained (sm e)" "pages_of (sm e1) = pages_of (sm e)"
    and ch: "all_chained e" and C: "changed t m (sm e1) s" "\<forall>k. chained (sm e1) k \<longrightarrow> chained s k" "pages_of s = pages_of (sm e1)"
    and p: "int32_range p" and u: "undoes (sm e1) c0 (write_set (the_txn p e1)) ((contents (sm e1))(t := m))"
  shows "step_ok c0 p e (e1\<lparr>sm := s\<rparr>)"
proof -
  have k: "kept (sm e1) s" "sm_inv s" "contents s = (contents (sm e1))(t := m)" using C(1) by (simp_all add: changed_def)
  have ks: "kept (sm e) s" by (rule kept_trans [OF n(2) k(1)])
  have "eng_inv (e1\<lparr>sm := s\<rparr>)" by (rule eng_inv_sm [OF n(1) k(2,1)])
  then have "tx_ok c0 p (e1\<lparr>sm := s\<rparr>)" using u p k(3) undoes_kept [OF k(1)] by (simp add: tx_ok_def)
  moreover have "all_chained (e1\<lparr>sm := s\<rparr>)"
    by (rule all_chained_changed [OF ch, of s]) (use ks C(2) n(3) in \<open>auto simp: kept_def\<close>)
  ultimately show ?thesis using ks C(3) n(4) by (simp add: step_ok_def)
qed

lemma delete_one_spec:
  assumes ok: "tx_ok c0 p e" and t: "map_of (tabs (sm_db (sm e))) t = Some tab" and ch: "all_chained e"
    and cx: "cx_txn cx = Some p" and tn: "length t \<le> 4000000"
  shows "\<exists>e'. delete_one cx t rid e =
      (if contents (sm e) t rid = None then Inl (RecordNotFoundError (page_no rid) (slot_no rid)) else Inr (), e') \<and>
    step_ok c0 p e e' \<and> contents (sm e') = (contents (sm e))(t := (contents (sm e) t)(rid := None))"
proof -
  have inv: "eng_inv e" "sm_inv (sm e)" and p: "int32_range p" using ok by (simp_all add: tx_ok_def eng_inv_def)
  obtain h where h: "map_of (fhs (sm e)) t = Some h" using sm_invD(4) [OF inv(2) t] by auto
  obtain s where g: "on_sm (on_file t (get_record rid)) e =
      (case contents (sm e) t rid of Some bs \<Rightarrow> Inr bs | None \<Rightarrow> Inl (RecordNotFoundError (page_no rid) (slot_no rid)), e\<lparr>sm := s\<rparr>)"
      "tx_ok c0 p (e\<lparr>sm := s\<rparr>)" "calm (sm e) s"
    using get_rec_step [OF ok h] by blast
  let ?e1 = "e\<lparr>sm := s\<rparr>"
  have s1: "step_ok c0 p e ?e1" by (rule calm_step [OF g(3) ch g(2)])
  have cs: "contents s = contents (sm e)" "sm_db s = sm_db (sm e)" using g(3) by (simp_all add: calm_def frame_def)
  show ?thesis
  proof (cases "contents (sm e) t rid")
    case None
    then have "delete_one cx t rid e = (Inl (RecordNotFoundError (page_no rid) (slot_no rid)), ?e1)" using g(1) by (simp add: delete_one_def)
    moreover have "contents s = (contents (sm e))(t := (contents (sm e) t)(rid := None))" using cs None by (auto simp: fun_eq_iff)
    ultimately show ?thesis using s1 None by (intro exI [of _ ?e1]) simp
  next
    case (Some rec)
    have c1: "contents (sm ?e1) t rid = Some rec" using Some cs by simp
    have i1: "eng_inv ?e1" using g(2) by (simp add: tx_ok_def)
    let ?wr = "value_write DELETE_TUPLE t rid rec"
    obtain e2 where N: "bind_e (note_log cx (\<lambda>i. DeleteLogRecord i rec rid t)) (\<lambda>_. note_write cx ?wr) ?e1 = (Inr (), e2)"
        "eng_inv e2" "contents (sm e2) = contents (sm ?e1)" "kept (sm ?e1) (sm e2)" "chained (sm e2) = chained (sm ?e1)"
        "pages_of (sm e2) = pages_of (sm ?e1)" "write_set (the_txn p e2) = write_set (the_txn p ?e1) @ [?wr]"
        "undoes (sm e2) c0 (write_set (the_txn p ?e1)) (contents (sm ?e1))"
      using noted [OF g(2) cx record_loggable(1) [OF i1 c1 p tn refl]] by blast
    have t2: "map_of (tabs (sm_db (sm e2))) t = Some tab" using t cs N(4) by (simp add: kept_def)
    have c2: "contents (sm e2) t rid = Some rec" using c1 N(3) by simp
    obtain s3 where R: "bind_e (delete_index_entries t rec rid) (\<lambda>_. on_file t (delete_record rid)) (sm e2) = (Inr (), s3)"
        "changed t ((contents (sm e2) t)(rid := None)) (sm e2) s3" "\<forall>k. chained (sm e2) k \<longrightarrow> chained s3 k" "pages_of s3 = pages_of (sm e2)"
      using remove_rec [OF eng_invD(2) [OF N(2)] t2 c2] by blast
    let ?e3 = "e2\<lparr>sm := s3\<rparr>"
    have u: "undoes (sm e2) c0 (write_set (the_txn p e2)) ((contents (sm e2))(t := (contents (sm e2) t)(rid := None)))"
      unfolding N(7,3) by (rule undoes.Deleted [OF N(8)]) (use t2 c1 in \<open>simp_all add: is_table_def\<close>)
    have "step_ok c0 p ?e1 ?e3"
      by (rule changed_step [OF N(2,4,5,6) _ R(2-4) p u]) (use s1 in \<open>simp add: step_ok_def\<close>)
    then have "step_ok c0 p e ?e3" by (rule step_ok_trans [OF s1])
    moreover have "delete_one cx t rid e = (Inr (), ?e3)"
    proof -
      obtain x where x: "delete_index_entries t rec rid (sm e2) = (Inr (), x)" "on_file t (delete_record rid) x = (Inr (), s3)"
        using R(1) by (auto simp: bind_e_Inr_iff)
      have y: "on_sm (delete_index_entries t rec rid) e2 = (Inr (), e2\<lparr>sm := x\<rparr>)"
          "on_sm (on_file t (delete_record rid)) (e2\<lparr>sm := x\<rparr>) = (Inr (), ?e3)"
        using x by (simp_all add: on_sm_def zoom_app)
      obtain z where "note_log cx (\<lambda>i. DeleteLogRecord i rec rid t) ?e1 = (Inr (), z)" "note_write cx ?wr z = (Inr (), e2)"
        using N(1) by (auto simp: bind_e_Inr_iff)
      then show ?thesis using g(1) Some y by (simp add: delete_one_def)
    qed
    moreover have "contents s3 = (contents (sm e))(t := (contents (sm e) t)(rid := None))"
      using R(2) N(3) cs by (simp add: changed_def)
    ultimately show ?thesis using Some by (intro exI [of _ ?e3]) simp
  qed
qed

lemma step_ok_refl: "tx_ok c0 p e \<Longrightarrow> all_chained e \<Longrightarrow> step_ok c0 p e e"
  by (simp add: step_ok_def)

lemma delete_rows_spec:
  assumes "tx_ok c0 p e" and "map_of (tabs (sm_db (sm e))) t = Some tab" and "all_chained e"
    and cx: "cx_txn cx = Some p" and tn: "length t \<le> 4000000"
  shows "\<exists>r e'. for_each rids (delete_one cx t) e = (r, e') \<and> step_ok c0 p e e' \<and>
    (distinct rids \<longrightarrow> (\<forall>rid\<in>set rids. contents (sm e) t rid \<noteq> None) \<longrightarrow>
       r = Inr () \<and> contents (sm e') = (contents (sm e))(t := (\<lambda>q. if q \<in> set rids then None else contents (sm e) t q)))"
  using assms(1-3)
proof (induction rids arbitrary: e)
  case Nil
  then show ?case using step_ok_refl by (intro exI [of _ "Inr ()"] exI [of _ e]) simp
next
  case (Cons rid rids)
  obtain e1 where e1: "delete_one cx t rid e =
      (if contents (sm e) t rid = None then Inl (RecordNotFoundError (page_no rid) (slot_no rid)) else Inr (), e1)"
      "step_ok c0 p e e1" "contents (sm e1) = (contents (sm e))(t := (contents (sm e) t)(rid := None))"
    using delete_one_spec [OF Cons.prems cx tn] by blast
  have k1: "tx_ok c0 p e1" "map_of (tabs (sm_db (sm e1))) t = Some tab" "all_chained e1"
    using e1(2) Cons.prems(2) by (auto simp: step_ok_def kept_def)
  show ?case
  proof (cases "contents (sm e) t rid")
    case None
    then have "for_each (rid # rids) (delete_one cx t) e = (Inl (RecordNotFoundError (page_no rid) (slot_no rid)), e1)" using e1(1) by simp
    then show ?thesis using e1(2) None by (intro exI conjI) auto
  next
    case (Some rec)
    obtain r e2 where e2: "for_each rids (delete_one cx t) e1 = (r, e2)" "step_ok c0 p e1 e2"
      "distinct rids \<longrightarrow> (\<forall>rid\<in>set rids. contents (sm e1) t rid \<noteq> None) \<longrightarrow>
         r = Inr () \<and> contents (sm e2) = (contents (sm e1))(t := (\<lambda>q. if q \<in> set rids then None else contents (sm e1) t q))"
      using Cons.IH [OF k1] by blast
    have "for_each (rid # rids) (delete_one cx t) e = (r, e2)" using e1(1) Some e2(1) by simp
    moreover have "r = Inr () \<and> contents (sm e2) = (contents (sm e))(t := (\<lambda>q. if q \<in> set (rid # rids) then None else contents (sm e) t q))"
      if d: "distinct (rid # rids)" "\<forall>q\<in>set (rid # rids). contents (sm e) t q \<noteq> None"
    proof -
      have "\<forall>q\<in>set rids. contents (sm e1) t q \<noteq> None" using d e1(3) by auto
      then show ?thesis using e2(3) d(1) e1(3) by (auto simp: fun_eq_iff)
    qed
    ultimately show ?thesis using step_ok_trans [OF e1(2) e2(2)] by (intro exI [of _ r] exI [of _ e2]) simp
  qed
qed

text \<open>Updating one record: the loop body behind the computation of the new record.\<close>

definition update_work :: "Context \<Rightarrow> string \<Rightarrow> Rid \<Rightarrow> byte list \<Rightarrow> byte list \<Rightarrow> unit eng_op" where
  "update_work cx t rid old rec =
     bind_e (note_log cx (\<lambda>i. UpdateLogRecord i old rec rid t)) (\<lambda>_.
     bind_e (note_write cx (value_write UPDATE_TUPLE t rid old)) (\<lambda>_.
     bind_e (on_sm (update_index_entries t old rec rid)) (\<lambda>_.
     on_sm (on_file t (update_record rid rec)))))"

lemma legal_upd:
  assumes inv: "sm_inv st" and t: "map_of (tabs (sm_db st)) t = Some tab" and r: "rec_ok tab rec" and c: "contents st t rid = Some old"
    and l: "length rec = length old" and n: "\<not> clashes tab (contents st t) rec (Some rid)"
  shows "legal st ((contents st)(t := (contents st t)(rid \<mapsto> rec)))"
proof -
  note L = sm_inv_legal [OF inv]
  have "place_ok (shape st t) rid old" using L c by (auto simp: legal_def)
  then have p: "place_ok (shape st t) rid rec" using l by (simp add: place_ok_def split: option.splits prod.splits)
  have "recs_ok tab ((contents st t)(rid \<mapsto> rec))" by (rule recs_ok_upd [OF sm_invD(6) [OF inv t] r n])
  then show ?thesis using L p t by (auto simp: legal_def)
qed

lemma update_work_spec:
  assumes ok: "tx_ok c0 p e" and t: "map_of (tabs (sm_db (sm e))) t = Some tab" and ch: "all_chained e"
    and cx: "cx_txn cx = Some p" and tn: "length t \<le> 4000000" and c: "contents (sm e) t rid = Some old"
    and r: "rec_ok tab rec" and l: "length rec = length old"
  shows "\<exists>e'. update_work cx t rid old rec e =
      (if clashes tab (contents (sm e) t) rec (Some rid) then Inl (InternalError ''Duplicate value violates unique index'') else Inr (), e') \<and>
    step_ok c0 p e e' \<and>
    contents (sm e') = (if clashes tab (contents (sm e) t) rec (Some rid) then contents (sm e)
      else (contents (sm e))(t := (contents (sm e) t)(rid \<mapsto> rec)))"
proof -
  have inv: "eng_inv e" and p: "int32_range p" using ok by (simp_all add: tx_ok_def)
  let ?wr = "value_write UPDATE_TUPLE t rid old"
  obtain e2 where N: "bind_e (note_log cx (\<lambda>i. UpdateLogRecord i old rec rid t)) (\<lambda>_. note_write cx ?wr) e = (Inr (), e2)"
      "eng_inv e2" "contents (sm e2) = contents (sm e)" "kept (sm e) (sm e2)" "chained (sm e2) = chained (sm e)"
      "pages_of (sm e2) = pages_of (sm e)" "write_set (the_txn p e2) = write_set (the_txn p e) @ [?wr]"
      "undoes (sm e2) c0 (write_set (the_txn p e)) (contents (sm e))"
    using noted [OF ok cx record_loggable(2) [OF inv c p tn l]] by blast
  obtain z where z: "note_log cx (\<lambda>i. UpdateLogRecord i old rec rid t) e = (Inr (), z)" "note_write cx ?wr z = (Inr (), e2)"
    using N(1) by (auto simp: bind_e_Inr_iff)
  have t2: "map_of (tabs (sm_db (sm e2))) t = Some tab" using t N(4) by (simp add: kept_def)
  have c2: "contents (sm e2) t rid = Some old" using c N(3) by simp
  note i2 = eng_invD(2) [OF N(2)]
  have ist: "is_table (sm_db (sm e2)) t" using t2 by (simp add: is_table_def)
  show ?thesis
  proof (cases "clashes tab (contents (sm e) t) rec (Some rid)")
    case True
    have "update_index_entries t old rec rid (sm e2) = (Inl (InternalError ''Duplicate value violates unique index''), sm e2)"
      using update_index_entries_spec [OF sm_invD(2) [OF i2] t2 sm_invD(3) [OF i2] sm_invD(5) [OF i2 t2] sm_invD(6) [OF i2 t2] r c2] True N(3)
      by simp
    then have run: "update_work cx t rid old rec e = (Inl (InternalError ''Duplicate value violates unique index''), e2)"
      using z by (simp add: update_work_def on_sm_def zoom_app)
    have same: "(contents (sm e))(t := (contents (sm e) t)(rid \<mapsto> old)) = contents (sm e)" using c by (auto simp: fun_eq_iff)
    have "undoes (sm e2) c0 (write_set (the_txn p e) @ [?wr]) ((contents (sm e))(t := (contents (sm e) t)(rid \<mapsto> old)))"
      by (rule undoes.Updated [OF N(8) ist c]) (use same undoes_legal [OF N(8)] in simp)
    then have "tx_ok c0 p e2" using N(2,3,7) p same by (simp add: tx_ok_def)
    moreover have "all_chained e2" by (rule all_chained_changed [OF ch, of "sm e2"]) (use N(4,5) in \<open>auto simp: kept_def\<close>)
    ultimately show ?thesis using run True N(3,4,6) by (intro exI [of _ e2]) (simp add: step_ok_def)
  next
    case False
    obtain s3 where R: "bind_e (update_index_entries t old rec rid) (\<lambda>_. on_file t (update_record rid rec)) (sm e2) = (Inr (), s3)"
        "changed t ((contents (sm e2) t)(rid \<mapsto> rec)) (sm e2) s3" "\<forall>k. chained (sm e2) k \<longrightarrow> chained s3 k" "pages_of s3 = pages_of (sm e2)"
      using replace_rec [OF i2 t2 c2 r _ l] False N(3) by auto
    let ?e3 = "e2\<lparr>sm := s3\<rparr>"
    have u: "undoes (sm e2) c0 (write_set (the_txn p e2)) ((contents (sm e2))(t := (contents (sm e2) t)(rid \<mapsto> rec)))"
      unfolding N(7,3)
      by (rule undoes.Updated [OF N(8) ist c]) (use legal_upd [OF i2 t2 r c2 l] False N(3) in simp)
    have st: "step_ok c0 p e ?e3" by (rule changed_step [OF N(2,4,5,6) ch R(2-4) p u])
    obtain x where x: "update_index_entries t old rec rid (sm e2) = (Inr (), x)" "on_file t (update_record rid rec) x = (Inr (), s3)"
      using R(1) by (auto simp: bind_e_Inr_iff)
    then have "update_work cx t rid old rec e = (Inr (), ?e3)" using z by (simp add: update_work_def on_sm_def zoom_app)
    then show ?thesis using st False R(2) N(3) by (intro exI [of _ ?e3]) (simp add: changed_def)
  qed
qed

text \<open>Converted clauses give the same bytes again.\<close>

definition new_rec :: "TabMeta \<Rightarrow> SetClause list \<Rightarrow> byte list \<Rightarrow> byte list" where
  "new_rec tab ss old = (case apply_clauses tab ss old of Inr (_, r) \<Rightarrow> r | Inl _ \<Rightarrow> old)"

lemma apply_clauses_again:
  assumes "\<forall>s\<in>set ss. clause_ok tab s" and "apply_clauses tab ss rec = Inr (ss', r)"
  shows "\<exists>r2. apply_clauses tab ss rec2 = Inr (ss', r2) \<and> apply_clauses tab ss' rec2 = Inr (ss', r2)"
  using assms
proof (induction ss arbitrary: rec rec2 ss' r)
  case (Cons s ss)
  obtain i where i: "get_col tab (tc_col (set_lhs s)) = Inr i" using Cons.prems(2) by (auto simp: bind_r_def split: sum.splits)
  let ?c = "tm_cols tab ! i"
  obtain bs v ss1 where b: "set_bytes ?c (set_rhs s) = (Inr bs, v)"
      and a: "apply_clauses tab ss (write_at (nat (cm_offset ?c)) bs rec) = Inr (ss1, r)" and ss': "ss' = s\<lparr>set_rhs := v\<rparr> # ss1"
    using Cons.prems(2) i by (cases "set_bytes ?c (set_rhs s)") (auto simp: bind_r_def Let_def split: sum.splits)
  have cl: "no_nan ?c (set_rhs s)"
      "\<And>r. raw (set_rhs s) = Some r \<Longrightarrow> vtype (set_rhs s) = cm_type ?c \<and> length r = nat (cm_len ?c) \<and> raw_ok (cm_type ?c) r"
    using Cons.prems(1) i by (auto simp: clause_ok_def)
  note F = set_bytes_fine [OF b cl]
  have again: "set_bytes ?c v = (Inr bs, v)" using F(1,3,4) by (simp add: set_bytes_def coerce_to_def)
  obtain r2 where r2: "apply_clauses tab ss (write_at (nat (cm_offset ?c)) bs rec2) = Inr (ss1, r2)"
      "apply_clauses tab ss1 (write_at (nat (cm_offset ?c)) bs rec2) = Inr (ss1, r2)"
    using Cons.IH [OF _ a] Cons.prems(1) by auto
  show ?case using i b again r2 by (simp add: ss' bind_r_def)
qed simp

lemma new_rec_again:
  assumes "\<forall>s\<in>set ss. clause_ok tab s" and "apply_clauses tab ss rec = Inr (ss', r)"
  shows "new_rec tab ss' = new_rec tab ss"
proof
  fix x
  obtain r2 where "apply_clauses tab ss x = Inr (ss', r2)" "apply_clauses tab ss' x = Inr (ss', r2)"
    using apply_clauses_again [OF assms] by blast
  then show "new_rec tab ss' x = new_rec tab ss x" by (simp add: new_rec_def)
qed

lemma update_rows_Cons:
  "update_rows cx t tab ss (rid # rids) =
     bind_e (on_sm (on_file t (get_record rid))) (\<lambda>old.
     bind_e (lift_r (apply_clauses tab ss old)) (\<lambda>(ss', rec).
     bind_e (update_work cx t rid old rec) (\<lambda>_. update_rows cx t tab ss' rids)))"
  unfolding update_rows.simps update_work_def
  by (intro ext) (auto simp: bind_e_app split: prod.splits sum.splits)

lemma update_rows_spec:
  assumes "tx_ok c0 p e" and "tab_wf (sm e) t tab" and "all_chained e"
    and cx: "cx_txn cx = Some p" and tn: "length t \<le> 4000000" and "\<forall>s\<in>set ss. clause_ok tab s"
  shows "\<exists>r e'. update_rows cx t tab ss rids e = (r, e') \<and> step_ok c0 p e e' \<and>
    (r = Inr () \<longrightarrow> distinct rids \<longrightarrow> contents (sm e') = (contents (sm e))(t :=
       (\<lambda>q. if q \<in> set rids then map_option (new_rec tab ss) (contents (sm e) t q) else contents (sm e) t q)))"
  using assms(1-3,6)
proof (induction rids arbitrary: e ss)
  case Nil
  then show ?case using step_ok_refl by (intro exI [of _ "Inr ()"] exI [of _ e]) simp
next
  case (Cons rid rids)
  have inv: "eng_inv e" "sm_inv (sm e)" and p: "int32_range p" using Cons.prems(1) by (simp_all add: tx_ok_def eng_inv_def)
  have t: "map_of (tabs (sm_db (sm e))) t = Some tab" using Cons.prems(2) by (simp add: tab_wf_def)
  obtain h where h: "map_of (fhs (sm e)) t = Some h" using sm_invD(4) [OF inv(2) t] by auto
  obtain s where g: "on_sm (on_file t (get_record rid)) e =
      (case contents (sm e) t rid of Some bs \<Rightarrow> Inr bs | None \<Rightarrow> Inl (RecordNotFoundError (page_no rid) (slot_no rid)), e\<lparr>sm := s\<rparr>)"
      "tx_ok c0 p (e\<lparr>sm := s\<rparr>)" "calm (sm e) s"
    using get_rec_step [OF Cons.prems(1) h] by blast
  let ?e1 = "e\<lparr>sm := s\<rparr>"
  have s1: "step_ok c0 p e ?e1" by (rule calm_step [OF g(3) Cons.prems(3) g(2)])
  have cs: "contents s = contents (sm e)" "sm_db s = sm_db (sm e)" "fhs s = fhs (sm e)" using g(3) by (simp_all add: calm_def frame_def)
  have c1: "all_chained ?e1" using s1 by (simp add: step_ok_def)
  show ?case
  proof (cases "contents (sm e) t rid")
    case None
    then have "update_rows cx t tab ss (rid # rids) e = (Inl (RecordNotFoundError (page_no rid) (slot_no rid)), ?e1)" using g(1) by simp
    then show ?thesis using s1 by blast
  next
    case (Some old)
    have old: "length old = nat (record_size (file_hdr h))" by (rule contents_length [OF Some h])
    have ro: "rec_ok tab old" by (rule legal_rec_ok [OF sm_inv_legal [OF inv(2)] t Some])
    show ?thesis
    proof (cases "apply_clauses tab ss old")
      case (Inl x)
      then have "update_rows cx t tab ss (rid # rids) e = (Inl x, ?e1)" using g(1) Some by simp
      then show ?thesis using s1 by blast
    next
      case (Inr q)
      obtain ss' rec where q: "apply_clauses tab ss old = Inr (ss', rec)" using Inr by (cases q) simp
      have A: "rec_ok tab rec" "length rec = length old" "\<forall>s\<in>set ss'. clause_ok tab s"
        using apply_clauses_ok [OF Cons.prems(2) tab_wf_size [OF Cons.prems(2) h] old ro Cons.prems(4) q] old by simp_all
      have t1: "map_of (tabs (sm_db (sm ?e1))) t = Some tab" "contents (sm ?e1) t rid = Some old" using t Some cs by simp_all
      obtain e2 where e2: "update_work cx t rid old rec ?e1 =
          (if clashes tab (contents (sm ?e1) t) rec (Some rid) then Inl (InternalError ''Duplicate value violates unique index'') else Inr (), e2)"
          "step_ok c0 p ?e1 e2" "contents (sm e2) = (if clashes tab (contents (sm ?e1) t) rec (Some rid) then contents (sm ?e1)
             else (contents (sm ?e1))(t := (contents (sm ?e1) t)(rid \<mapsto> rec)))"
        using update_work_spec [OF g(2) t1(1) c1 cx tn t1(2) A(1,2)] by blast
      have s2: "step_ok c0 p e e2" by (rule step_ok_trans [OF s1 e2(2)])
      have run: "update_rows cx t tab ss (rid # rids) e = bind_e (update_work cx t rid old rec) (\<lambda>_. update_rows cx t tab ss' rids) ?e1"
        using g(1) Some q unfolding update_rows_Cons by simp
      show ?thesis
      proof (cases "clashes tab (contents (sm ?e1) t) rec (Some rid)")
        case True
        then have "update_rows cx t tab ss (rid # rids) e = (Inl (InternalError ''Duplicate value violates unique index''), e2)"
          using run e2(1) by simp
        then show ?thesis using s2 by blast
      next
        case False
        have k2: "tx_ok c0 p e2" "tab_wf (sm e2) t tab" "all_chained e2"
          using s2 Cons.prems(2) tab_wf_kept by (auto simp: step_ok_def)
        obtain r e3 where e3: "update_rows cx t tab ss' rids e2 = (r, e3)" "step_ok c0 p e2 e3"
          "r = Inr () \<longrightarrow> distinct rids \<longrightarrow> contents (sm e3) = (contents (sm e2))(t :=
             (\<lambda>q. if q \<in> set rids then map_option (new_rec tab ss') (contents (sm e2) t q) else contents (sm e2) t q))"
          using Cons.IH [OF k2 A(3)] by blast
        have nr: "new_rec tab ss' = new_rec tab ss" "new_rec tab ss old = rec"
          using new_rec_again [OF Cons.prems(4) q] q by (simp_all add: new_rec_def)
        have c2: "contents (sm e2) = (contents (sm e))(t := (contents (sm e) t)(rid \<mapsto> rec))" using e2(3) False cs by simp
        have "update_rows cx t tab ss (rid # rids) e = (r, e3)" using run e2(1) False e3(1) by simp
        moreover have "contents (sm e3) = (contents (sm e))(t :=
            (\<lambda>q. if q \<in> set (rid # rids) then map_option (new_rec tab ss) (contents (sm e) t q) else contents (sm e) t q))"
          if "r = Inr ()" "distinct (rid # rids)"
          using that e3(3) [unfolded nr(1)] c2 nr(2) Some by (auto simp: fun_eq_iff)
        ultimately show ?thesis using step_ok_trans [OF s2 e3(2)] by (intro exI [of _ r] exI [of _ e3]) simp
      qed
    qed
  qed
qed

end
