(* ===== verification/Dml_Statements.thy ===== *)
theory Dml_Statements
  imports Dml_Executors
begin

text \<open>
  Whole statements: an executor is built for the named table and its \<^verbatim>\<open>Next\<close> is run, as \<^verbatim>\<open>portal.h\<close> does for
  \<^verbatim>\<open>INSERT\<close>, \<^verbatim>\<open>DELETE\<close> and \<^verbatim>\<open>UPDATE\<close>. The rids of the last two are the result of the scan below them and are
  arguments here. The theorems say what one statement does to the tables, and that a transaction of any
  statements, some of which may have failed half way, is rolled back completely.
\<close>

datatype dml =
    InsertStmt string "Value list" "nat \<Rightarrow> byte"
  | DeleteStmt string "Rid list"
  | UpdateStmt string "SetClause list" "Rid list"

fun run_stmt :: "Context \<Rightarrow> dml \<Rightarrow> unit eng_op" where
  "run_stmt cx (InsertStmt t vals junk) =
     bind_e (new_InsertExecutor t vals) (\<lambda>tab. bind_e (insert_Next cx t tab vals junk) (\<lambda>_. ret ()))"
| "run_stmt cx (DeleteStmt t rids) = bind_e (open_table t) (\<lambda>_. delete_Next cx t rids)"
| "run_stmt cx (UpdateStmt t clauses rids) = bind_e (open_table t) (\<lambda>tab. update_Next cx t tab clauses rids)"

text \<open>The statements of one transaction; a failing one reports its error and the next one runs.\<close>

fun run_stmts :: "Context \<Rightarrow> dml list \<Rightarrow> engine \<Rightarrow> engine" where
  "run_stmts cx [] e = e"
| "run_stmts cx (s # ss) e = run_stmts cx ss (snd (run_stmt cx s e))"

fun stmt_table :: "dml \<Rightarrow> string" where
  "stmt_table (InsertStmt t vals junk) = t"
| "stmt_table (DeleteStmt t rids) = t"
| "stmt_table (UpdateStmt t clauses rids) = t"

fun values_ok :: "TabMeta \<Rightarrow> dml \<Rightarrow> bool" where
  "values_ok tab (InsertStmt t vals junk) \<longleftrightarrow> (\<forall>i<min (length vals) (length (tm_cols tab)). no_nan (tm_cols tab ! i) (vals ! i))"
| "values_ok tab (DeleteStmt t rids) \<longleftrightarrow> True"
| "values_ok tab (UpdateStmt t clauses rids) \<longleftrightarrow> (\<forall>s\<in>set clauses. clause_ok tab s)"

text \<open>The table of a statement may be missing; when it exists it is well formed and the values suit it.\<close>

definition stmt_ok :: "sm_state \<Rightarrow> dml \<Rightarrow> bool" where
  "stmt_ok st s \<longleftrightarrow> length (stmt_table s) \<le> 4000000 \<and>
     (\<forall>tab. map_of (tabs (sm_db st)) (stmt_table s) = Some tab \<longrightarrow> tab_wf st (stmt_table s) tab \<and> values_ok tab s)"

lemma stmt_ok_kept: "kept st st' \<Longrightarrow> stmt_ok st' s = stmt_ok st s"
  using tab_wf_kept [of st st'] by (simp add: stmt_ok_def kept_def)

lemma open_table_outcome:
  assumes "sm_inv (sm e)"
  shows "open_table t e = (case map_of (tabs (sm_db (sm e))) t of Some tab \<Rightarrow> Inr tab | None \<Rightarrow> Inl (TableNotFoundError t), e)"
  using sm_invD(4) [OF assms, of t]
  by (cases "map_of (tabs (sm_db (sm e))) t") (auto simp: open_table_def get_table_def bind_e_app)

lemma new_InsertExecutor_outcome:
  assumes "sm_inv (sm e)"
  shows "new_InsertExecutor t vals e = (case map_of (tabs (sm_db (sm e))) t of
      Some tab \<Rightarrow> if length vals \<noteq> length (tm_cols tab) then Inl InvalidValueCountError else Inr tab
    | None \<Rightarrow> Inl (TableNotFoundError t), e)"
  using sm_invD(4) [OF assms, of t]
  by (cases "map_of (tabs (sm_db (sm e))) t") (auto simp: new_InsertExecutor_def get_table_def bind_e_app)

text \<open>What one statement keeps, whether it fails or not.\<close>

definition stmt_step :: "db_contents \<Rightarrow> int \<Rightarrow> engine \<Rightarrow> engine \<Rightarrow> bool" where
  "stmt_step c0 p e e' \<longleftrightarrow> tx_ok c0 p e' \<and> kept (sm e) (sm e') \<and> all_chained e' \<and>
     (\<forall>k. pages_of (sm e') k \<le> pages_of (sm e) k + 1)"

lemma step_ok_stmt: "step_ok c0 p e e' \<Longrightarrow> stmt_step c0 p e e'"
  by (simp add: step_ok_def stmt_step_def)

lemma locked_step:
  assumes ok: "tx_ok c0 p e" and t: "map_of (tabs (sm_db (sm e))) t = Some tab" and ch: "all_chained e" and cx: "cx_txn cx = Some p"
  shows "\<exists>r w. lock_table_X cx t e = (r, e\<lparr>locks := w\<rparr>) \<and> step_ok c0 p e (e\<lparr>locks := w\<rparr>) \<and>
    (r \<noteq> Inr () \<longrightarrow> (\<exists>why. r = Inl (TransactionAbortException p why)))"
proof -
  have inv: "eng_inv e" "sm_inv (sm e)" using ok by (simp_all add: tx_ok_def eng_inv_def)
  obtain h where h: "map_of (fhs (sm e)) t = Some h" using sm_invD(4) [OF inv(2) t] by auto
  obtain r w where L: "lock_table_X cx t e = (r, e\<lparr>locks := w\<rparr>)" "eng_inv (e\<lparr>locks := w\<rparr>)"
      "write_set (txns w p) = write_set (the_txn p e)" "r \<noteq> Inr () \<longrightarrow> (\<exists>why. r = Inl (TransactionAbortException p why))"
    using lock_table_step [OF inv(1) h cx] by blast
  have "step_ok c0 p e (e\<lparr>locks := w\<rparr>)" using tx_ok_locks [OF ok L(2,3)] ch by (simp add: step_ok_def all_chained_def)
  then show ?thesis using L(1,4) by blast
qed

lemma engine_sm_locks: "sm (e\<lparr>locks := w\<rparr>) = sm e"
  by simp

lemma delete_Next_spec:
  assumes ok: "tx_ok c0 p e" and t: "map_of (tabs (sm_db (sm e))) t = Some tab" and ch: "all_chained e"
    and cx: "cx_txn cx = Some p" and tn: "length t \<le> 4000000"
  shows "\<exists>r e'. delete_Next cx t rids e = (r, e') \<and> step_ok c0 p e e' \<and>
    (distinct rids \<longrightarrow> (\<forall>rid\<in>set rids. contents (sm e) t rid \<noteq> None) \<longrightarrow>
       (case r of
          Inl x \<Rightarrow> (\<exists>why. x = TransactionAbortException p why) \<and> contents (sm e') = contents (sm e)
        | Inr _ \<Rightarrow> contents (sm e') = (contents (sm e))(t := (\<lambda>q. if q \<in> set rids then None else contents (sm e) t q))))"
proof -
  obtain r0 w where L: "lock_table_X cx t e = (r0, e\<lparr>locks := w\<rparr>)" "step_ok c0 p e (e\<lparr>locks := w\<rparr>)"
    "r0 \<noteq> Inr () \<longrightarrow> (\<exists>why. r0 = Inl (TransactionAbortException p why))"
    using locked_step [OF ok t ch cx] by blast
  show ?thesis
  proof (cases r0)
    case (Inl x)
    then show ?thesis using L by (intro exI [of _ "Inl x"] exI [of _ "e\<lparr>locks := w\<rparr>"]) (simp add: delete_Next_def)
  next
    case (Inr u)
    have k: "tx_ok c0 p (e\<lparr>locks := w\<rparr>)" "map_of (tabs (sm_db (sm (e\<lparr>locks := w\<rparr>)))) t = Some tab" "all_chained (e\<lparr>locks := w\<rparr>)"
      using L(2) t by (simp_all add: step_ok_def)
    obtain r e' where R: "for_each rids (delete_one cx t) (e\<lparr>locks := w\<rparr>) = (r, e')" "step_ok c0 p (e\<lparr>locks := w\<rparr>) e'"
      "distinct rids \<longrightarrow> (\<forall>rid\<in>set rids. contents (sm e) t rid \<noteq> None) \<longrightarrow>
         r = Inr () \<and> contents (sm e') = (contents (sm e))(t := (\<lambda>q. if q \<in> set rids then None else contents (sm e) t q))"
      using delete_rows_spec [OF k cx tn, of rids, unfolded engine_sm_locks] by blast
    have "delete_Next cx t rids e = (r, e')" using L(1) Inr R(1) by (simp add: delete_Next_def)
    then show ?thesis using R(3) step_ok_trans [OF L(2) R(2)] by (intro exI [of _ r] exI [of _ e']) auto
  qed
qed

lemma update_Next_spec:
  assumes ok: "tx_ok c0 p e" and t: "tab_wf (sm e) t tab" and ch: "all_chained e"
    and cx: "cx_txn cx = Some p" and tn: "length t \<le> 4000000" and ss: "\<forall>s\<in>set ss. clause_ok tab s"
  shows "\<exists>r e'. update_Next cx t tab ss rids e = (r, e') \<and> step_ok c0 p e e' \<and>
    (r = Inr () \<longrightarrow> distinct rids \<longrightarrow> contents (sm e') = (contents (sm e))(t :=
       (\<lambda>q. if q \<in> set rids then map_option (new_rec tab ss) (contents (sm e) t q) else contents (sm e) t q)))"
proof -
  have t0: "map_of (tabs (sm_db (sm e))) t = Some tab" using t by (simp add: tab_wf_def)
  obtain r0 w where L: "lock_table_X cx t e = (r0, e\<lparr>locks := w\<rparr>)" "step_ok c0 p e (e\<lparr>locks := w\<rparr>)"
    using locked_step [OF ok t0 ch cx] by blast
  show ?thesis
  proof (cases r0)
    case (Inl x)
    then show ?thesis using L by (intro exI [of _ "Inl x"] exI [of _ "e\<lparr>locks := w\<rparr>"]) (simp add: update_Next_def)
  next
    case (Inr u)
    have k: "tx_ok c0 p (e\<lparr>locks := w\<rparr>)" "tab_wf (sm (e\<lparr>locks := w\<rparr>)) t tab" "all_chained (e\<lparr>locks := w\<rparr>)"
      using L(2) t by (simp_all add: step_ok_def)
    obtain r e' where R: "update_rows cx t tab ss rids (e\<lparr>locks := w\<rparr>) = (r, e')" "step_ok c0 p (e\<lparr>locks := w\<rparr>) e'"
      "r = Inr () \<longrightarrow> distinct rids \<longrightarrow> contents (sm e') = (contents (sm e))(t :=
         (\<lambda>q. if q \<in> set rids then map_option (new_rec tab ss) (contents (sm e) t q) else contents (sm e) t q))"
      using update_rows_spec [OF k cx tn ss, of rids, unfolded engine_sm_locks] by blast
    have "update_Next cx t tab ss rids e = (r, e')" using L(1) Inr R(1) by (simp add: update_Next_def)
    then show ?thesis using R(3) step_ok_trans [OF L(2) R(2)] by (intro exI [of _ r] exI [of _ e']) simp
  qed
qed

lemma run_stmt_step:
  assumes ok: "tx_ok c0 p e" and ch: "all_chained e" and cx: "cx_txn cx = Some p" and s: "stmt_ok (sm e) s"
    and pg: "\<forall>t. pages_of (sm e) t < 2147483647"
  shows "stmt_step c0 p e (snd (run_stmt cx s e))"
proof -
  let ?t = "stmt_table s"
  have inv: "sm_inv (sm e)" using ok by (simp add: tx_ok_def eng_inv_def)
  have tn: "length ?t \<le> 4000000" using s by (simp add: stmt_ok_def)
  have stay: "stmt_step c0 p e e" by (rule step_ok_stmt [OF step_ok_refl [OF ok ch]])
  show ?thesis
  proof (cases "map_of (tabs (sm_db (sm e))) ?t")
    case None
    then show ?thesis using stay open_table_outcome [OF inv] new_InsertExecutor_outcome [OF inv] by (cases s) simp_all
  next
    case (Some tab)
    have w: "tab_wf (sm e) ?t tab" "values_ok tab s" using s Some by (simp_all add: stmt_ok_def)
    show ?thesis
    proof (cases s)
      case (InsertStmt t vals junk)
      show ?thesis
      proof (cases "length vals = length (tm_cols tab)")
        case True
        obtain r e' where "insert_Next cx t tab vals junk e = (r, e')" "stmt_step c0 p e e'"
          using insert_Next_spec [OF ok _ ch _ cx _ True, of t junk] w tn pg InsertStmt True by (auto simp: stmt_step_def)
        then show ?thesis using InsertStmt Some True new_InsertExecutor_outcome [OF inv, of t vals] by (cases r) simp_all
      next
        case False
        then show ?thesis using InsertStmt Some stay new_InsertExecutor_outcome [OF inv, of t vals] by simp
      qed
    next
      case (DeleteStmt t rids)
      obtain r e' where "delete_Next cx t rids e = (r, e')" "step_ok c0 p e e'"
        using delete_Next_spec [OF ok _ ch cx, of t tab rids] Some tn DeleteStmt by auto
      then show ?thesis using DeleteStmt Some step_ok_stmt open_table_outcome [OF inv, of t] by simp
    next
      case (UpdateStmt t ss rids)
      obtain r e' where "update_Next cx t tab ss rids e = (r, e')" "step_ok c0 p e e'"
        using update_Next_spec [OF ok _ ch cx, of t tab ss rids] w tn UpdateStmt by auto
      then show ?thesis using UpdateStmt Some step_ok_stmt open_table_outcome [OF inv, of t] by simp
    qed
  qed
qed

lemma run_stmts_ok:
  assumes "tx_ok c0 p e" and "all_chained e" and cx: "cx_txn cx = Some p" and "\<forall>s\<in>set ss. stmt_ok (sm e) s"
    and "\<forall>t. pages_of (sm e) t + int (length ss) \<le> 2147483647"
  shows "tx_ok c0 p (run_stmts cx ss e)"
  using assms(1,2,4,5)
proof (induction ss arbitrary: e)
  case (Cons s ss)
  let ?e = "snd (run_stmt cx s e)"
  have pg: "\<forall>t. pages_of (sm e) t < 2147483647"
  proof
    fix t show "pages_of (sm e) t < 2147483647" using Cons.prems(4) [rule_format, of t] by simp
  qed
  have st: "stmt_step c0 p e ?e" using run_stmt_step [OF Cons.prems(1,2) cx _ pg] Cons.prems(3) by simp
  have "pages_of (sm ?e) t + int (length ss) \<le> 2147483647" for t
    using st [unfolded stmt_step_def] Cons.prems(4) [rule_format, of t] by (auto dest: spec [of _ t])
  moreover have "\<forall>s\<in>set ss. stmt_ok (sm ?e) s" using st stmt_ok_kept [of "sm e" "sm ?e"] Cons.prems(3) by (simp add: stmt_step_def)
  ultimately show ?case using Cons.IH [of ?e] st by (simp add: stmt_step_def)
qed simp

text \<open>Values for the sample table, and what the hypotheses of the properties come to there.\<close>

definition sample_vals :: "Value list" where
  "sample_vals = [\<lparr>vdata = IntVal 5, raw = None\<rparr>, \<lparr>vdata = StrVal ''x'', raw = None\<rparr>]"

abbreviation sample_table :: TabMeta where
  "sample_table \<equiv> \<lparr>tm_name = ''t'', tm_cols = sample_cols, tm_indexes = [sample_tix]\<rparr>"

lemma sample_tab_wf: "tab_wf (sample_sm [sample_tix]) ''t'' sample_table"
proof -
  have "layout 0 sample_cols 100" "hd sample_cols \<in> set sample_cols" by (simp_all add: sample_cols_def len_ok_def)
  then show ?thesis using sample_tab sample_shape(1) [of "[sample_tix]"] by (auto simp: tab_wf_def) (auto simp: sample_tix_def)
qed

lemma sample_chained: "all_chained (sample_engine (sample_sm [sample_tix]) ws)"
proof -
  have "map_of (fhs (sample_sm [sample_tix])) t \<noteq> None \<Longrightarrow> t = ''t''" for t by (auto simp: sample_sm_def split: if_splits)
  then show ?thesis using sample_sm_files(3) [of "[sample_tix]"] unfolding all_chained_def sample_engine_def by auto
qed

lemma sample_pages: "pages_of (sample_sm [sample_tix]) t \<le> 1"
  using sample_shape(3) [of "[sample_tix]"] by (cases "t = ''t''") (auto simp: pages_of_def sample_sm_def)

lemma sample_no_nan: "i < 2 \<Longrightarrow> no_nan (sample_cols ! i) (sample_vals ! i)"
  by (cases i) (auto simp: no_nan_def sample_cols_def sample_vals_def coerce_to_def vtype_def nth_Cons')

lemma sample_tx_ok: "tx_ok (\<lambda>_. Map.empty) 1 (sample_engine (sample_sm [sample_tix]) [])"
  using sample_engine_inv [OF sample_sm_inv(2) sample_sm_files(4), of "[]"] undoes.Nothing [OF sm_inv_legal [OF sample_sm_inv(2)]]
  by (simp add: tx_ok_def int32_range_def sample_sm_files(2))

text \<open>
  C10: an insert adds exactly the record its values make, or nothing. On a well-formed table, with as many values
  as columns, \<^verbatim>\<open>InsertExecutor::Next\<close> returns a rid that was free, at which the table then has the record made of the
  values, with no other record of any table changed; or it fails and every table is as it was, and the error is that of the
  lock request, that of the conversion of a value, or \<^verbatim>\<open>Duplicate value violates unique index\<close>, the last exactly when
  another record has the same key in some index. Either way the engine's invariants hold and what the transaction has done so far
  can be undone.
\<close>

theorem insert_statement:
  assumes "tx_ok c0 p e" and "tab_wf (sm e) t tab" and "all_chained e" and "pages_of (sm e) t < 2147483647"
    and "cx_txn cx = Some p" and "length t \<le> 4000000" and "length vals = length (tm_cols tab)"
    and nn: "\<And>i. i < length vals \<Longrightarrow> no_nan (tm_cols tab ! i) (vals ! i)"
    and made: "made = make_record (tm_cols tab) vals (map junk [0..<nat (record_size (file_hdr (the_handle t e)))])"
  shows "\<exists>r e'. insert_Next cx t tab vals junk e = (r, e') \<and> tx_ok c0 p e' \<and>
    (case r of
       Inl x \<Rightarrow> contents (sm e') = contents (sm e) \<and>
         (fst (lock_table_X cx t e) = Inl x \<and> (\<exists>q why. x = TransactionAbortException q why) \<or> made = Inl x \<or>
          (\<exists>rec. made = Inr rec \<and> clashes tab (contents (sm e) t) rec None \<and> x = InternalError ''Duplicate value violates unique index''))
     | Inr rid \<Rightarrow> \<exists>rec. made = Inr rec \<and> \<not> clashes tab (contents (sm e) t) rec None \<and>
         contents (sm e) t rid = None \<and> contents (sm e') = (contents (sm e))(t := (contents (sm e) t)(rid \<mapsto> rec)))"
  using insert_Next_spec [OF assms(1-7), of junk] nn unfolding insert_post_def Let_def made by blast

theorem insert_statement_witness:
  "\<exists>r e'. insert_Next \<lparr>cx_txn = Some 1, cx_log = True\<rparr> ''t'' sample_table sample_vals (\<lambda>_. 0)
     (sample_engine (sample_sm [sample_tix]) []) = (r, e') \<and> tx_ok (\<lambda>_. Map.empty) 1 e'"
proof -
  let ?e = "sample_engine (sample_sm [sample_tix]) []"
  have e: "sm ?e = sample_sm [sample_tix]" by (simp add: sample_engine_def)
  have "length sample_vals = length (tm_cols sample_table)" by (simp add: sample_vals_def sample_cols_def)
  moreover have "\<And>i. i < length sample_vals \<Longrightarrow> no_nan (tm_cols sample_table ! i) (sample_vals ! i)"
    using sample_no_nan by (simp add: sample_vals_def)
  moreover have "pages_of (sm ?e) ''t'' < 2147483647" using sample_pages [of "''t''"] e by simp
  moreover have "tab_wf (sm ?e) ''t'' sample_table" using sample_tab_wf e by simp
  ultimately show ?thesis
    using insert_statement [OF sample_tx_ok _ sample_chained, of "''t''" sample_table "\<lparr>cx_txn = Some 1, cx_log = True\<rparr>" sample_vals _ "\<lambda>_. 0"]
    by (simp only: Context.select_convs refl list.size) auto
qed

text \<open>
  C9: a rolled back transaction leaves no trace. From a state in which the transaction has written nothing,
  any sequence of inserts, deletes and updates on any tables is run, each of which may succeed, be refused,
  or stop half way through its rows; the abort that follows succeeds, and every table then has exactly the records it
  had before the first statement, the indexes agree with their tables again, and the transaction holds no locks.
\<close>

theorem statements_then_abort:
  assumes "eng_inv e" and "int32_range p" and "write_set (the_txn p e) = []" and "all_chained e"
    and "cx_txn cx = Some p" and "\<forall>s\<in>set ss. stmt_ok (sm e) s"
    and "\<forall>t. pages_of (sm e) t + int (length ss) \<le> 2147483647"
  shows "\<exists>e'. txn_abort (Some p) True (run_stmts cx ss e) = (Inr (), e') \<and> eng_inv e' \<and> contents (sm e') = contents (sm e) \<and>
    txn_state (the_txn p e') = ABORTED \<and> (\<forall>j. Lock_Manager.holds (locks e') p j = None)"
proof -
  have "undoes (sm e) (contents (sm e)) [] (contents (sm e))"
    by (rule undoes.Nothing [OF sm_inv_legal [OF eng_invD(2) [OF assms(1)]]])
  then have "tx_ok (contents (sm e)) p e" using assms(1-3) by (simp add: tx_ok_def)
  from run_stmts_ok [OF this assms(4-7)]
  have "tx_ok (contents (sm e)) p (run_stmts cx ss e)" .
  then show ?thesis using abort_spec [of "run_stmts cx ss e" p "contents (sm e)"] by (auto simp: tx_ok_def)
qed

theorem statements_then_abort_witness:
  "\<exists>e'. txn_abort (Some 1) True (run_stmts \<lparr>cx_txn = Some 1, cx_log = True\<rparr>
       [InsertStmt ''t'' sample_vals (\<lambda>_. 0), InsertStmt ''t'' sample_vals (\<lambda>_. 0), DeleteStmt ''t'' [mk_rid 1 0, mk_rid 1 1], DeleteStmt ''u'' []]
       (sample_engine (sample_sm [sample_tix]) [])) = (Inr (), e') \<and> contents (sm e') = (\<lambda>_. Map.empty)"
proof -
  let ?e = "sample_engine (sample_sm [sample_tix]) []"
  let ?ss = "[InsertStmt ''t'' sample_vals (\<lambda>_. 0), InsertStmt ''t'' sample_vals (\<lambda>_. 0), DeleteStmt ''t'' [mk_rid 1 0, mk_rid 1 1], DeleteStmt ''u'' []]"
  note E = sample_engine_inv [OF sample_sm_inv(2) sample_sm_files(4), of "[]"]
  have v: "values_ok sample_table (InsertStmt ''t'' sample_vals junk)" for junk
    using sample_no_nan by (simp add: sample_vals_def sample_cols_def)
  have "\<forall>s\<in>set ?ss. stmt_ok (sm ?e) s" using E(3) v sample_tab_wf by (auto simp: stmt_ok_def sample_sm_sel(1))
  moreover have "\<forall>t. pages_of (sm ?e) t + int (length ?ss) \<le> 2147483647"
  proof
    fix t show "pages_of (sm ?e) t + int (length ?ss) \<le> 2147483647" using sample_pages [of t] E(3) by simp
  qed
  ultimately show ?thesis
    using statements_then_abort [OF E(1) _ E(2) sample_chained, of "\<lparr>cx_txn = Some 1, cx_log = True\<rparr>" ?ss] E(3)
    by (auto simp: int32_range_def sample_sm_files(2))
qed

end
