(* ===== verification/Query_Executors.thy ===== *)
theory Query_Executors
  imports Dml_Executors "HOL-Library.Product_Lexorder"
begin

text \<open>
  The executors of queries: \<^verbatim>\<open>SeqScanExecutor\<close>, \<^verbatim>\<open>IndexScanExecutor\<close>, \<^verbatim>\<open>NestedLoopJoinExecutor\<close>,
  \<^verbatim>\<open>ProjectionExecutor\<close> and \<^verbatim>\<open>SortExecutor\<close> (\<^verbatim>\<open>execution/executor_*.h\<close>, \<^verbatim>\<open>execution_sort.h\<close>). The tree of executors
  is a datatype whose nodes hold the fields of the classes; a virtual method is a function on this type. A method
  changes the object, so it returns the new one; a method that throws leaves no object behind. The methods of
  a node call those of its children through a record of operations, which \<open>tree_ops\<close> ties together for trees of bounded
  height; loops that run until a child has no more rows have a bound on their steps.
\<close>

section \<open>Objects\<close>

record SeqScan =
  ss_tab :: string
  ss_conds :: "Condition list"
  ss_cols :: "ColMeta list"
  ss_len :: int
  ss_rid :: "Rid option"
  ss_scan :: "Rid option"

record IndexScan =
  is_tab :: string
  is_conds :: "Condition list"
  is_cols :: "ColMeta list"
  is_len :: int
  is_names :: "string list"
  is_rid :: "Rid option"
  is_rids :: "Rid list"
  is_cursor :: nat

record NestedLoopJoin =
  j_len :: int
  j_cols :: "ColMeta list"
  j_conds :: "Condition list"
  j_isend :: bool
  j_block :: "byte list list"
  j_right :: "byte list option"
  j_current :: "byte list option"
  j_cursor :: nat

record Projection =
  p_cols :: "ColMeta list"
  p_len :: int
  p_idxs :: "nat list"

record Sort =
  s_cols :: "ColMeta list"
  s_desc :: "bool list"
  s_tuples :: "byte list list"
  s_out :: "ColMeta list"
  s_len :: int
  s_cursor :: nat
  s_limit :: int

datatype executor =
    SeqScanEx SeqScan
  | IndexScanEx IndexScan
  | JoinEx executor executor NestedLoopJoin
  | ProjectionEx executor Projection
  | SortEx executor Sort

fun ex_cols :: "executor \<Rightarrow> ColMeta list" where
  "ex_cols (SeqScanEx s) = ss_cols s"
| "ex_cols (IndexScanEx s) = is_cols s"
| "ex_cols (JoinEx l r j) = j_cols j"
| "ex_cols (ProjectionEx p s) = p_cols s"
| "ex_cols (SortEx p s) = s_out s"

fun tupleLen :: "executor \<Rightarrow> int" where
  "tupleLen (SeqScanEx s) = ss_len s"
| "tupleLen (IndexScanEx s) = is_len s"
| "tupleLen (JoinEx l r j) = j_len j"
| "tupleLen (ProjectionEx p s) = p_len s"
| "tupleLen (SortEx p s) = s_len s"

text \<open>The record id of the row; only the scans have one.\<close>

fun ex_rid :: "executor \<Rightarrow> Rid option" where
  "ex_rid (SeqScanEx s) = ss_rid s"
| "ex_rid (IndexScanEx s) = is_rid s"
| "ex_rid _ = None"

text \<open>\<^verbatim>\<open>AbstractExecutor::get_col\<close>: the position of a column.\<close>

fun position :: "('a \<Rightarrow> bool) \<Rightarrow> 'a list \<Rightarrow> nat option" where
  "position P [] = None"
| "position P (x # xs) = (if P x then Some 0 else map_option Suc (position P xs))"

definition ex_get_col :: "ColMeta list \<Rightarrow> TabCol \<Rightarrow> rmdb_error + nat" where
  "ex_get_col cols target =
     (case position (\<lambda>col. cm_tab col = tc_tab target \<and> cm_name col = tc_col target) cols of
        None \<Rightarrow> Inl (ColumnNotFoundError (tc_tab target @ ''.'' @ tc_col target))
      | Some i \<Rightarrow> Inr i)"

definition get_col_offset :: "executor \<Rightarrow> TabCol \<Rightarrow> rmdb_error + ColMeta" where
  "get_col_offset x target = bind_r (ex_get_col (ex_cols x) target) (\<lambda>i. Inr (ex_cols x ! i))"

section \<open>Sequential scan\<close>

definition cols_end :: "ColMeta list \<Rightarrow> int" where
  "cols_end cols = cm_offset (last cols) + cm_len (last cols)"

definition lock_table_S :: "Context \<Rightarrow> string \<Rightarrow> unit eng_op" where
  "lock_table_S cx t =
     bind_e (gets_e (\<lambda>e. fh_fd (the_handle t e))) (\<lambda>fd.
     bind_e (on_locks (lock_shared_on_table (cx_txn cx) fd)) (\<lambda>_. ret ()))"

definition new_SeqScan :: "Context \<Rightarrow> string \<Rightarrow> Condition list \<Rightarrow> executor eng_op" where
  "new_SeqScan cx t conds =
     bind_e (open_table t) (\<lambda>tab.
     bind_e (lock_table_S cx t) (\<lambda>_.
     ret (SeqScanEx \<lparr>ss_tab = t, ss_conds = conds, ss_cols = tm_cols tab, ss_len = cols_end (tm_cols tab),
                     ss_rid = None, ss_scan = None\<rparr>)))"

text \<open>The loop from the position \<open>pos\<close> of the scan to the next record that satisfies the conditions.\<close>

fun seq_find :: "nat \<Rightarrow> SeqScan \<Rightarrow> Rid \<Rightarrow> SeqScan sm_op" where
  "seq_find 0 s pos = throw StepLimit"
| "seq_find (Suc k) s pos =
     bind_e (on_file (ss_tab s) (gets_e (scan_is_end pos))) (\<lambda>e.
       if e then ret (s\<lparr>ss_scan := Some pos\<rparr>)
       else
         bind_e (on_file (ss_tab s) (get_record pos)) (\<lambda>rec.
         bind_e (lift_r (eval_conditions (ss_cols s) (ss_conds s) rec)) (\<lambda>ok.
           if ok then ret (s\<lparr>ss_rid := Some pos, ss_scan := Some pos\<rparr>)
           else bind_e (on_file (ss_tab s) (scan_next pos)) (\<lambda>pos'. seq_find k (s\<lparr>ss_rid := Some pos\<rparr>) pos'))))"

definition seq_loop :: "SeqScan \<Rightarrow> Rid \<Rightarrow> SeqScan sm_op" where
  "seq_loop s pos =
     bind_e (on_file (ss_tab s) (gets_e (\<lambda>st. scan_fuel (hdr st)))) (\<lambda>k. seq_find k s pos)"

definition seq_is_end :: "SeqScan \<Rightarrow> sm_state \<Rightarrow> bool" where
  "seq_is_end s st \<longleftrightarrow>
     (case ss_scan s of
        None \<Rightarrow> True
      | Some pos \<Rightarrow> (case map_of (fhs st) (ss_tab s) of None \<Rightarrow> True | Some h \<Rightarrow> scan_is_end pos \<lparr>fh = h, bpm = sm_bpm st\<rparr>))"

definition seq_beginTuple :: "SeqScan \<Rightarrow> SeqScan sm_op" where
  "seq_beginTuple s = bind_e (on_file (ss_tab s) new_RmScan) (seq_loop s)"

definition seq_nextTuple :: "SeqScan \<Rightarrow> SeqScan sm_op" where
  "seq_nextTuple s =
     bind_e (gets_e (seq_is_end s)) (\<lambda>e.
       if e then ret s
       else bind_e (on_file (ss_tab s) (scan_next (the (ss_scan s)))) (seq_loop s))"

definition seq_Next :: "SeqScan \<Rightarrow> (byte list option \<times> SeqScan) sm_op" where
  "seq_Next s =
     bind_e (gets_e (seq_is_end s)) (\<lambda>e.
       if e then ret (None, s)
       else let pos = the (ss_scan s) in
            bind_e (on_file (ss_tab s) (get_record pos)) (\<lambda>rec. ret (Some rec, s\<lparr>ss_rid := Some pos\<rparr>)))"

section \<open>Index scan\<close>

fun swap_op :: "CompOp \<Rightarrow> CompOp" where
  "swap_op OP_EQ = OP_EQ"
| "swap_op OP_NE = OP_NE"
| "swap_op OP_LT = OP_GT"
| "swap_op OP_GT = OP_LT"
| "swap_op OP_LE = OP_GE"
| "swap_op OP_GE = OP_LE"

text \<open>The loop of the constructor that puts the column of the table on the left of every condition.\<close>

fun feed_conds :: "string \<Rightarrow> Condition list \<Rightarrow> rmdb_error + Condition list" where
  "feed_conds t [] = Inr []"
| "feed_conds t (cond # conds) =
     (if tc_tab (lhs_col cond) \<noteq> t
      then if \<not> is_rhs_val cond \<and> tc_tab (rhs_col cond) = t
           then bind_r (feed_conds t conds) (\<lambda>cs.
                  Inr (cond\<lparr>lhs_col := rhs_col cond, rhs_col := lhs_col cond, cond_op := swap_op (cond_op cond)\<rparr> # cs))
           else Inl AssertionFailure
      else bind_r (feed_conds t conds) (\<lambda>cs. Inr (cond # cs)))"

definition new_IndexScan :: "Context \<Rightarrow> string \<Rightarrow> Condition list \<Rightarrow> string list \<Rightarrow> executor eng_op" where
  "new_IndexScan cx t conds names =
     bind_e (gets_e (\<lambda>e. get_table (sm_db (sm e)) t)) (\<lambda>r. bind_e (lift_r r) (\<lambda>tab.
     bind_e (lift_r (get_index_meta tab names)) (\<lambda>_.
     bind_e (gets_e (\<lambda>e. map_of (fhs (sm e)) t)) (\<lambda>h. if h = None then throw OutOfRange else
     bind_e (lock_table_S cx t) (\<lambda>_.
     bind_e (lift_r (feed_conds t conds)) (\<lambda>fed.
     ret (IndexScanEx \<lparr>is_tab = t, is_conds = fed, is_cols = tm_cols tab, is_len = cols_end (tm_cols tab), is_names = names,
                       is_rid = None, is_rids = [], is_cursor = 0\<rparr>)))))))"

text \<open>The loop from the cursor on, over the rids that are left.\<close>

fun index_find :: "IndexScan \<Rightarrow> nat \<Rightarrow> Rid list \<Rightarrow> IndexScan sm_op" where
  "index_find s i [] = ret (s\<lparr>is_cursor := i\<rparr>)"
| "index_find s i (rid # rids) =
     bind_e (on_file (is_tab s) (get_record rid)) (\<lambda>rec.
     bind_e (lift_r (eval_conditions (is_cols s) (is_conds s) rec)) (\<lambda>ok.
       if ok then ret (s\<lparr>is_rid := Some rid, is_cursor := i\<rparr>)
       else index_find (s\<lparr>is_rid := Some rid\<rparr>) (Suc i) rids))"

definition index_is_end :: "IndexScan \<Rightarrow> bool" where
  "index_is_end s \<longleftrightarrow> is_cursor s \<ge> length (is_rids s)"

definition index_beginTuple :: "IndexScan \<Rightarrow> IndexScan sm_op" where
  "index_beginTuple s =
     bind_e (scan_index (is_tab s) (is_names s) (is_conds s)) (\<lambda>rids. index_find (s\<lparr>is_rids := rids\<rparr>) 0 rids)"

definition index_nextTuple :: "IndexScan \<Rightarrow> IndexScan sm_op" where
  "index_nextTuple s =
     (if index_is_end s then ret s
      else index_find s (Suc (is_cursor s)) (drop (Suc (is_cursor s)) (is_rids s)))"

definition index_Next :: "IndexScan \<Rightarrow> (byte list option \<times> IndexScan) sm_op" where
  "index_Next s =
     (if index_is_end s then ret (None, s)
      else let rid = is_rids s ! is_cursor s in
           bind_e (on_file (is_tab s) (get_record rid)) (\<lambda>rec. ret (Some rec, s\<lparr>is_rid := Some rid\<rparr>)))"

section \<open>Operations of an executor\<close>

record ex_ops =
  op_begin :: "executor \<Rightarrow> executor sm_op"
  op_next :: "executor \<Rightarrow> executor sm_op"
  op_is_end :: "executor \<Rightarrow> sm_state \<Rightarrow> bool"
  op_Next :: "executor \<Rightarrow> (byte list option \<times> executor) sm_op"

section \<open>Nested loop join\<close>

definition JOIN_BUFFER_BYTES :: nat where
  "JOIN_BUFFER_BYTES = 4 * 1024 * 1024"

definition new_Join :: "executor \<Rightarrow> executor \<Rightarrow> Condition list \<Rightarrow> executor" where
  "new_Join l r conds =
     JoinEx l r \<lparr>j_len = tupleLen l + tupleLen r,
                 j_cols = ex_cols l @ map (\<lambda>col. col\<lparr>cm_offset := cm_offset col + tupleLen l\<rparr>) (ex_cols r),
                 j_conds = conds, j_isend = False, j_block = [], j_right = None, j_current = None, j_cursor = 0\<rparr>"

text \<open>The record of a pair; without a right record there is none.\<close>

definition join_tuple :: "int \<Rightarrow> int \<Rightarrow> byte list \<Rightarrow> byte list option \<Rightarrow> byte list option" where
  "join_tuple llen rlen left_rec right_rec =
     map_option (\<lambda>rrec. take (nat llen) left_rec @ take (nat rlen) rrec) right_rec"

fun load_left_block :: "ex_ops \<Rightarrow> nat \<Rightarrow> nat \<Rightarrow> executor \<Rightarrow> byte list list \<Rightarrow> (byte list list \<times> executor) sm_op" where
  "load_left_block ops 0 used l block = throw StepLimit"
| "load_left_block ops (Suc k) used l block =
     bind_e (gets_e (op_is_end ops l)) (\<lambda>e.
       if e then ret (block, l)
       else bind_e (op_Next ops l) (\<lambda>(rec, l1).
         case rec of
           None \<Rightarrow> ret (block, l1)
         | Some bs \<Rightarrow>
             bind_e (op_next ops l1) (\<lambda>l2.
               if used + length bs \<ge> JOIN_BUFFER_BYTES then ret (block @ [bs], l2)
               else load_left_block ops k (used + length bs) l2 (block @ [bs]))))"

text \<open>The loop over the block: the next left record that matches, and the cursor behind it.\<close>

fun match_block :: "int \<Rightarrow> int \<Rightarrow> NestedLoopJoin \<Rightarrow> nat \<Rightarrow> byte list list \<Rightarrow> rmdb_error + (nat \<times> byte list option)" where
  "match_block llen rlen j i [] = Inr (i, None)"
| "match_block llen rlen j i (lrec # lrecs) =
     (case join_tuple llen rlen lrec (j_right j) of
        None \<Rightarrow> match_block llen rlen j (Suc i) lrecs
      | Some rec \<Rightarrow>
          bind_r (eval_conditions (j_cols j) (j_conds j) rec) (\<lambda>ok.
            if ok then Inr (Suc i, Some rec) else match_block llen rlen j (Suc i) lrecs))"

text \<open>The loop over the right rows; the result says whether a match was found.\<close>

fun right_loop :: "ex_ops \<Rightarrow> nat \<Rightarrow> int \<Rightarrow> executor \<Rightarrow> NestedLoopJoin \<Rightarrow> (bool \<times> executor \<times> NestedLoopJoin) sm_op" where
  "right_loop ops 0 llen r j = throw StepLimit"
| "right_loop ops (Suc k) llen r j =
     bind_e (gets_e (op_is_end ops r)) (\<lambda>e.
       if e then ret (False, r, j)
       else
         bind_e (if j_right j = None then bind_e (op_Next ops r) (\<lambda>(rec, r1). ret (r1, j\<lparr>j_right := rec\<rparr>)) else ret (r, j))
           (\<lambda>(r1, j1).
         bind_e (lift_r (match_block llen (tupleLen r1) j1 (j_cursor j1) (drop (j_cursor j1) (j_block j1)))) (\<lambda>(i, m).
           case m of
             Some rec \<Rightarrow> ret (True, r1, j1\<lparr>j_cursor := i, j_current := Some rec, j_isend := False\<rparr>)
           | None \<Rightarrow> bind_e (op_next ops r1) (\<lambda>r2. right_loop ops k llen r2 (j1\<lparr>j_right := None, j_cursor := 0\<rparr>)))))"

fun match_loop :: "ex_ops \<Rightarrow> nat \<Rightarrow> nat \<Rightarrow> executor \<Rightarrow> executor \<Rightarrow> NestedLoopJoin \<Rightarrow> executor sm_op" where
  "match_loop ops fuel 0 l r j = throw StepLimit"
| "match_loop ops fuel (Suc k) l r j =
     bind_e (if j_block j = []
             then bind_e (load_left_block ops fuel 0 l []) (\<lambda>(block, l1).
               if block = [] then ret (False, l1, r, j\<lparr>j_isend := True, j_cursor := 0\<rparr>)
               else bind_e (op_begin ops r) (\<lambda>r1. ret (True, l1, r1, j\<lparr>j_block := block, j_cursor := 0, j_right := None\<rparr>)))
             else ret (True, l, r, j)) (\<lambda>(go, l1, r1, j1).
       if \<not> go then ret (JoinEx l1 r1 j1)
       else bind_e (right_loop ops fuel (tupleLen l1) r1 j1) (\<lambda>(found, r2, j2).
         if found then ret (JoinEx l1 r2 j2)
         else match_loop ops fuel k l1 r2 (j2\<lparr>j_block := []\<rparr>)))"

definition advance_to_match :: "ex_ops \<Rightarrow> nat \<Rightarrow> executor \<Rightarrow> executor \<Rightarrow> NestedLoopJoin \<Rightarrow> executor sm_op" where
  "advance_to_match ops fuel l r j = match_loop ops fuel fuel l r (j\<lparr>j_current := None\<rparr>)"

definition join_beginTuple :: "ex_ops \<Rightarrow> nat \<Rightarrow> executor \<Rightarrow> executor \<Rightarrow> NestedLoopJoin \<Rightarrow> executor sm_op" where
  "join_beginTuple ops fuel l r j =
     bind_e (op_begin ops l) (\<lambda>l1.
     advance_to_match ops fuel l1 r (j\<lparr>j_block := [], j_right := None, j_current := None, j_cursor := 0\<rparr>))"

definition join_nextTuple :: "ex_ops \<Rightarrow> nat \<Rightarrow> executor \<Rightarrow> executor \<Rightarrow> NestedLoopJoin \<Rightarrow> executor sm_op" where
  "join_nextTuple ops fuel l r j = (if j_isend j then ret (JoinEx l r j) else advance_to_match ops fuel l r j)"

definition join_Next :: "NestedLoopJoin \<Rightarrow> byte list option" where
  "join_Next j = (if j_isend j then None else j_current j)"

section \<open>Projection\<close>

text \<open>The columns of the result, one behind the other, and their positions in the rows below.\<close>

fun select_cols :: "ColMeta list \<Rightarrow> int \<Rightarrow> TabCol list \<Rightarrow> rmdb_error + (nat list \<times> ColMeta list \<times> int)" where
  "select_cols prev off [] = Inr ([], [], off)"
| "select_cols prev off (c # cs) =
     bind_r (ex_get_col prev c) (\<lambda>i. let col = (prev ! i)\<lparr>cm_offset := off\<rparr> in
     bind_r (select_cols prev (off + cm_len col) cs) (\<lambda>(is, cols, len). Inr (i # is, col # cols, len)))"

definition new_Projection :: "executor \<Rightarrow> TabCol list \<Rightarrow> rmdb_error + executor" where
  "new_Projection prev sel =
     bind_r (select_cols (ex_cols prev) 0 sel) (\<lambda>(is, cols, len).
       Inr (ProjectionEx prev \<lparr>p_cols = cols, p_len = len, p_idxs = is\<rparr>))"

text \<open>The bytes of the new record are unspecified before the fields are copied into it; every one of them is overwritten.\<close>

definition project :: "ColMeta list \<Rightarrow> Projection \<Rightarrow> byte list \<Rightarrow> byte list" where
  "project prev p prec =
     fold (\<lambda>(i, dst) rec. write_at (nat (cm_offset dst)) (take (nat (cm_len dst)) (drop (nat (cm_offset (prev ! i))) prec)) rec)
       (zip (p_idxs p) (p_cols p)) (replicate (nat (p_len p)) 0)"

section \<open>Sort\<close>

fun sort_columns :: "executor \<Rightarrow> SortKey list \<Rightarrow> rmdb_error + (ColMeta list \<times> bool list)" where
  "sort_columns prev [] = Inr ([], [])"
| "sort_columns prev (k # ks) =
     bind_r (get_col_offset prev (sk_col k)) (\<lambda>col.
     bind_r (sort_columns prev ks) (\<lambda>(cols, ds). Inr (col # cols, sk_desc k # ds)))"

definition new_Sort :: "executor \<Rightarrow> SortKey list \<Rightarrow> int \<Rightarrow> rmdb_error + executor" where
  "new_Sort prev keys lim =
     bind_r (sort_columns prev keys) (\<lambda>(cols, ds).
       Inr (SortEx prev \<lparr>s_cols = cols, s_desc = ds, s_tuples = [], s_out = ex_cols prev, s_len = tupleLen prev,
                         s_cursor = 0, s_limit = lim\<rparr>))"

fun sort_less :: "ColMeta list \<Rightarrow> bool list \<Rightarrow> byte list \<Rightarrow> byte list \<Rightarrow> bool" where
  "sort_less (col # cols) (d # ds) a b =
     (let cmp = compare_raw_value (drop (nat (cm_offset col)) a) (drop (nat (cm_offset col)) b) (cm_type col) (cm_len col) in
      if cmp = 0 then sort_less cols ds a b else if d then cmp > 0 else cmp < 0)"
| "sort_less _ _ a b = False"

fun sort_collect :: "ex_ops \<Rightarrow> nat \<Rightarrow> executor \<Rightarrow> byte list list \<Rightarrow> (byte list list \<times> executor) sm_op" where
  "sort_collect ops 0 p acc = throw StepLimit"
| "sort_collect ops (Suc k) p acc =
     bind_e (gets_e (op_is_end ops p)) (\<lambda>e.
       if e then ret (acc, p)
       else bind_e (op_Next ops p) (\<lambda>(rec, p1).
            bind_e (op_next ops p1) (\<lambda>p2.
            sort_collect ops k p2 (case rec of None \<Rightarrow> acc | Some bs \<Rightarrow> acc @ [bs]))))"

definition sort_tuples :: "Sort \<Rightarrow> byte list list \<Rightarrow> byte list list" where
  "sort_tuples s tuples =
     (let sorted = (if s_cols s = [] then tuples else sort_by (sort_less (s_cols s) (s_desc s)) tuples) in
      if s_limit s \<ge> 0 \<and> length sorted > nat (s_limit s) then take (nat (s_limit s)) sorted else sorted)"

definition sort_beginTuple :: "ex_ops \<Rightarrow> nat \<Rightarrow> executor \<Rightarrow> Sort \<Rightarrow> executor sm_op" where
  "sort_beginTuple ops fuel p s =
     bind_e (op_begin ops p) (\<lambda>p1.
     bind_e (sort_collect ops fuel p1 []) (\<lambda>(tuples, p2).
     ret (SortEx p2 (s\<lparr>s_tuples := sort_tuples s tuples, s_cursor := 0\<rparr>))))"

definition sort_is_end :: "Sort \<Rightarrow> bool" where
  "sort_is_end s \<longleftrightarrow> s_cursor s \<ge> length (s_tuples s)"

definition sort_nextTuple :: "Sort \<Rightarrow> Sort" where
  "sort_nextTuple s = (if s_cursor s < length (s_tuples s) then s\<lparr>s_cursor := Suc (s_cursor s)\<rparr> else s)"

definition sort_Next :: "Sort \<Rightarrow> byte list option" where
  "sort_Next s = (if sort_is_end s then None else Some (s_tuples s ! s_cursor s))"

section \<open>Virtual methods\<close>

definition node_ops :: "nat \<Rightarrow> ex_ops \<Rightarrow> ex_ops" where
  "node_ops fuel ops =
     \<lparr>op_begin = (\<lambda>x. case x of
          SeqScanEx s \<Rightarrow> bind_e (seq_beginTuple s) (\<lambda>s'. ret (SeqScanEx s'))
        | IndexScanEx s \<Rightarrow> bind_e (index_beginTuple s) (\<lambda>s'. ret (IndexScanEx s'))
        | JoinEx l r j \<Rightarrow> join_beginTuple ops fuel l r j
        | ProjectionEx p s \<Rightarrow> bind_e (op_begin ops p) (\<lambda>p'. ret (ProjectionEx p' s))
        | SortEx p s \<Rightarrow> sort_beginTuple ops fuel p s),
      op_next = (\<lambda>x. case x of
          SeqScanEx s \<Rightarrow> bind_e (seq_nextTuple s) (\<lambda>s'. ret (SeqScanEx s'))
        | IndexScanEx s \<Rightarrow> bind_e (index_nextTuple s) (\<lambda>s'. ret (IndexScanEx s'))
        | JoinEx l r j \<Rightarrow> join_nextTuple ops fuel l r j
        | ProjectionEx p s \<Rightarrow> bind_e (op_next ops p) (\<lambda>p'. ret (ProjectionEx p' s))
        | SortEx p s \<Rightarrow> ret (SortEx p (sort_nextTuple s))),
      op_is_end = (\<lambda>x st. case x of
          SeqScanEx s \<Rightarrow> seq_is_end s st
        | IndexScanEx s \<Rightarrow> index_is_end s
        | JoinEx l r j \<Rightarrow> j_isend j
        | ProjectionEx p s \<Rightarrow> op_is_end ops p st
        | SortEx p s \<Rightarrow> sort_is_end s),
      op_Next = (\<lambda>x. case x of
          SeqScanEx s \<Rightarrow> bind_e (seq_Next s) (\<lambda>(rec, s'). ret (rec, SeqScanEx s'))
        | IndexScanEx s \<Rightarrow> bind_e (index_Next s) (\<lambda>(rec, s'). ret (rec, IndexScanEx s'))
        | JoinEx l r j \<Rightarrow> ret (join_Next j, x)
        | ProjectionEx p s \<Rightarrow>
            bind_e (op_Next ops p) (\<lambda>(rec, p'). ret (map_option (project (ex_cols p') s) rec, ProjectionEx p' s))
        | SortEx p s \<Rightarrow> ret (sort_Next s, x))\<rparr>"

definition no_ops :: ex_ops where
  "no_ops = \<lparr>op_begin = (\<lambda>_. throw StepLimit), op_next = (\<lambda>_. throw StepLimit), op_is_end = (\<lambda>_ _. True),
             op_Next = (\<lambda>_. throw StepLimit)\<rparr>"

primrec tree_ops :: "nat \<Rightarrow> nat \<Rightarrow> ex_ops" where
  "tree_ops fuel 0 = no_ops"
| "tree_ops fuel (Suc n) = node_ops fuel (tree_ops fuel n)"

fun height :: "executor \<Rightarrow> nat" where
  "height (SeqScanEx s) = 1"
| "height (IndexScanEx s) = 1"
| "height (JoinEx l r j) = Suc (max (height l) (height r))"
| "height (ProjectionEx p s) = Suc (height p)"
| "height (SortEx p s) = Suc (height p)"

text \<open>The loop \<^verbatim>\<open>for (x->beginTuple(); !x->is_end(); x->nextTuple())\<close> with the rows of \<^verbatim>\<open>x->Next()\<close>.\<close>

definition collect :: "nat \<Rightarrow> executor \<Rightarrow> byte list list sm_op" where
  "collect fuel x =
     (let ops = tree_ops fuel (height x) in
      bind_e (op_begin ops x) (\<lambda>x1. bind_e (sort_collect ops fuel x1 []) (\<lambda>(rows, x2). ret rows)))"

end
