(* ===== verification/Query_Rows.thy ===== *)
theory Query_Rows
  imports Query_Executors "HOL-Library.Sublist"
begin

text \<open>
  What the executors of \<open>Query_Executors\<close> deliver. \<open>rows\<close> is the list of rows an executor gives from
  \<^verbatim>\<open>beginTuple\<close> on, \<open>rest\<close> the rows from its present position on, as functions of what the database holds. The locale
  \<open>iterator\<close> states the contract of the virtual methods against these functions; the nested loop join and the sort are
  verified against the contract, whatever their children are, and \<open>tree_ops\<close> is an instance of it.
\<close>

section \<open>What a query reads\<close>

record db_view =
  v_contents :: "string \<Rightarrow> Rid \<rightharpoonup> byte list"
  v_indexes :: "(string \<times> RuntimeIndex) list"
  v_handles :: "(string \<times> RmFileHandle) list"

definition view :: "sm_state \<Rightarrow> db_view" where
  "view st = \<lparr>v_contents = contents st, v_indexes = runtime_indexes st, v_handles = fhs st\<rparr>"

lemma calm_view: "calm st st' \<Longrightarrow> view st' = view st"
  by (simp add: calm_def frame_def view_def)

lemma view_sel [simp]: "v_contents (view st) = contents st" "v_indexes (view st) = runtime_indexes st" "v_handles (view st) = fhs st"
  by (simp_all add: view_def)

text \<open>The record ids of a table in the order of a scan, and those from a position on.\<close>

definition rid_pair :: "Rid \<Rightarrow> int \<times> int" where
  "rid_pair r = (page_no r, slot_no r)"

definition rids_of :: "(Rid \<rightharpoonup> byte list) \<Rightarrow> Rid list" where
  "rids_of m = map (\<lambda>(p, s). mk_rid p s) (sorted_list_of_set (rid_pair ` dom m))"

definition rids_from :: "(Rid \<rightharpoonup> byte list) \<Rightarrow> Rid \<Rightarrow> Rid list" where
  "rids_from m pos = filter (\<lambda>q. q = pos \<or> rid_less pos q) (rids_of m)"

lemma rid_less_pair: "rid_less a b \<longleftrightarrow> rid_pair a < rid_pair b"
  by (auto simp: rid_less_def rid_pair_def less_prod_def)

lemma rid_pair_inv: "(\<lambda>(p, s). mk_rid p s) (rid_pair r) = r"
  by (simp add: rid_pair_def)

lemma rids_of:
  assumes "finite (dom m)"
  shows "set (rids_of m) = dom m" "sorted_wrt rid_less (rids_of m)"
proof -
  have "(\<lambda>(p, s). mk_rid p s) ` rid_pair ` dom m = dom m" using rid_pair_inv by (force simp: image_image)
  then show "set (rids_of m) = dom m" using assms by (simp add: rids_of_def)
  have "rid_pair (case ps of (p, s) \<Rightarrow> mk_rid p s) = ps" for ps by (cases ps) (simp add: rid_pair_def)
  then show "sorted_wrt rid_less (rids_of m)"
    using strict_sorted_list_of_set [of "rid_pair ` dom m"] by (simp add: rids_of_def sorted_wrt_map rid_less_pair)
qed

lemma sorted_rids_unique:
  assumes "sorted_wrt rid_less xs" and "sorted_wrt rid_less ys" and "set xs = set ys"
  shows "xs = ys"
proof -
  have s: "sorted_wrt (<) (map rid_pair xs)" "sorted_wrt (<) (map rid_pair ys)"
    using assms(1,2) by (simp_all add: sorted_wrt_map rid_less_pair [abs_def])
  have "set (map rid_pair xs) = set (map rid_pair ys)" using assms(3) by simp
  then have "map rid_pair xs = map rid_pair ys" by (rule strict_sorted_equal [OF s(2,1)])
  moreover have "inj rid_pair" by (auto simp: inj_def rid_pair_def)
  ultimately show ?thesis by (simp add: inj_map_eq_map)
qed

lemma rids_from:
  assumes "finite (dom m)"
  shows "set (rids_from m pos) = {q. m q \<noteq> None \<and> (q = pos \<or> rid_less pos q)}" "sorted_wrt rid_less (rids_from m pos)"
  using rids_of [OF assms] by (auto simp: rids_from_def sorted_wrt_filter)

lemma rids_from_step:
  assumes f: "finite (dom (recs st))" and d: "from_rid st pos = insert pos (from_rid st pos')"
    and l: "\<And>q. q \<in> from_rid st pos' \<Longrightarrow> rid_less pos q"
  shows "rids_from (recs st) pos = pos # rids_from (recs st) pos'"
proof (rule sorted_rids_unique)
  note S = rids_from [OF f]
  have s: "set (rids_from (recs st) p) = from_rid st p" for p using S(1) by (simp add: from_rid_def)
  show "sorted_wrt rid_less (rids_from (recs st) pos)" by (rule S(2))
  show "sorted_wrt rid_less (pos # rids_from (recs st) pos')" using S(2) l s by simp
  show "set (rids_from (recs st) pos) = set (pos # rids_from (recs st) pos')" using s d by simp
qed

section \<open>Rows\<close>

definition seq_good :: "SeqScan \<Rightarrow> byte list \<Rightarrow> bool" where
  "seq_good s rec \<longleftrightarrow> eval_conditions (ss_cols s) (ss_conds s) rec = Inr True"

definition index_good :: "IndexScan \<Rightarrow> byte list \<Rightarrow> bool" where
  "index_good s rec \<longleftrightarrow> eval_conditions (is_cols s) (is_conds s) rec = Inr True"

definition rids_rows :: "(byte list \<Rightarrow> bool) \<Rightarrow> (Rid \<rightharpoonup> byte list) \<Rightarrow> Rid list \<Rightarrow> byte list list" where
  "rids_rows good m rids = filter good (map (\<lambda>q. the (m q)) rids)"

definition scanned_rids :: "db_view \<Rightarrow> IndexScan \<Rightarrow> Rid list" where
  "scanned_rids v s =
     (case map_of (v_indexes v) (runtime_index_name (is_tab s) (is_names s)) of
        None \<Rightarrow> [] | Some ri \<Rightarrow> scan_runtime_index ri (is_tab s) (is_conds s))"

definition join_rec :: "executor \<Rightarrow> executor \<Rightarrow> byte list \<Rightarrow> byte list \<Rightarrow> byte list" where
  "join_rec l r a b = take (nat (tupleLen l)) a @ take (nat (tupleLen r)) b"

definition join_good :: "NestedLoopJoin \<Rightarrow> byte list \<Rightarrow> bool" where
  "join_good j rec \<longleftrightarrow> eval_conditions (j_cols j) (j_conds j) rec = Inr True"

definition matches :: "executor \<Rightarrow> executor \<Rightarrow> NestedLoopJoin \<Rightarrow> byte list list \<Rightarrow> byte list \<Rightarrow> byte list list" where
  "matches l r j block rrec = filter (join_good j) (map (\<lambda>lrec. join_rec l r lrec rrec) block)"

text \<open>The first block of the left rows, and the rows behind it.\<close>

fun split_block :: "nat \<Rightarrow> byte list list \<Rightarrow> byte list list \<times> byte list list" where
  "split_block used [] = ([], [])"
| "split_block used (x # xs) =
     (if used + length x \<ge> JOIN_BUFFER_BYTES then ([x], xs)
      else (x # fst (split_block (used + length x) xs), snd (split_block (used + length x) xs)))"

lemma split_block_append: "fst (split_block used xs) @ snd (split_block used xs) = xs"
  by (induction xs arbitrary: used) auto

lemma split_block_less: "xs \<noteq> [] \<Longrightarrow> length (snd (split_block used xs)) < length xs"
proof -
  assume "xs \<noteq> []"
  then have "fst (split_block used xs) \<noteq> []" by (cases xs) auto
  moreover have "length xs = length (fst (split_block used xs)) + length (snd (split_block used xs))"
    using split_block_append [of used xs] by (metis length_append)
  ultimately show ?thesis by simp
qed

function join_all :: "(byte list list \<Rightarrow> byte list \<Rightarrow> byte list list) \<Rightarrow> byte list list \<Rightarrow> byte list list \<Rightarrow> byte list list" where
  "join_all M ls rs =
     (if ls = [] then []
      else concat (map (M (fst (split_block 0 ls))) rs) @ join_all M (snd (split_block 0 ls)) rs)"
  by pat_completeness auto
termination
  by (relation "measure (\<lambda>(M, ls, rs). length ls)") (auto simp: split_block_less)

declare join_all.simps [simp del]

text \<open>What is left to do for a block: the cursor says where to go on with the first right row.\<close>

fun pending :: "(byte list list \<Rightarrow> byte list \<Rightarrow> byte list list) \<Rightarrow> byte list list \<Rightarrow> nat \<Rightarrow> byte list list \<Rightarrow> byte list list" where
  "pending M block i [] = []"
| "pending M block i (rrec # rs) = M (drop i block) rrec @ concat (map (M block) rs)"

fun rows :: "db_view \<Rightarrow> executor \<Rightarrow> byte list list" where
  "rows v (SeqScanEx s) = rids_rows (seq_good s) (v_contents v (ss_tab s)) (rids_of (v_contents v (ss_tab s)))"
| "rows v (IndexScanEx s) = rids_rows (index_good s) (v_contents v (is_tab s)) (scanned_rids v s)"
| "rows v (JoinEx l r j) = join_all (matches l r j) (rows v l) (rows v r)"
| "rows v (ProjectionEx p s) = map (project (ex_cols p) s) (rows v p)"
| "rows v (SortEx p s) = sort_tuples s (rows v p)"

fun rest :: "db_view \<Rightarrow> executor \<Rightarrow> byte list list" where
  "rest v (SeqScanEx s) =
     (case ss_scan s of None \<Rightarrow> []
      | Some pos \<Rightarrow> rids_rows (seq_good s) (v_contents v (ss_tab s)) (rids_from (v_contents v (ss_tab s)) pos))"
| "rest v (IndexScanEx s) = rids_rows (index_good s) (v_contents v (is_tab s)) (drop (is_cursor s) (is_rids s))"
| "rest v (JoinEx l r j) =
     (if j_isend j then []
      else the (j_current j) # pending (matches l r j) (j_block j) (j_cursor j) (rest v r) @
           join_all (matches l r j) (rest v l) (rows v r))"
| "rest v (ProjectionEx p s) = map (project (ex_cols p) s) (rest v p)"
| "rest v (SortEx p s) = drop (s_cursor s) (s_tuples s)"

text \<open>The position of an executor after \<^verbatim>\<open>beginTuple\<close>: on a row it delivers, or at the end.\<close>

fun settled :: "db_view \<Rightarrow> executor \<Rightarrow> bool" where
  "settled v (SeqScanEx s) \<longleftrightarrow>
     (case (ss_scan s, map_of (v_handles v) (ss_tab s)) of
        (Some pos, Some h) \<Rightarrow>
          if page_no pos < num_pages (file_hdr h)
          then (case v_contents v (ss_tab s) pos of None \<Rightarrow> False | Some rec \<Rightarrow> seq_good s rec)
          else rids_from (v_contents v (ss_tab s)) pos = []
      | _ \<Rightarrow> False)"
| "settled v (IndexScanEx s) \<longleftrightarrow>
     set (is_rids s) \<subseteq> dom (v_contents v (is_tab s)) \<and>
     (is_cursor s < length (is_rids s) \<longrightarrow> index_good s (the (v_contents v (is_tab s) (is_rids s ! is_cursor s))))"
| "settled v (JoinEx l r j) \<longleftrightarrow>
     j_isend j \<or>
     settled v l \<and> settled v r \<and> suffix (rest v l) (rows v l) \<and> suffix (rest v r) (rows v r) \<and>
     j_block j \<noteq> [] \<and> set (j_block j) \<subseteq> set (rows v l) \<and> j_current j \<noteq> None \<and>
     rest v r \<noteq> [] \<and> j_right j = Some (hd (rest v r))"
| "settled v (ProjectionEx p s) \<longleftrightarrow> settled v p"
| "settled v (SortEx p s) \<longleftrightarrow> True"

text \<open>
  Well-formed trees: the tables and indexes are there, every condition can be evaluated on the rows it is asked about,
  and \<open>fuel\<close> bounds the number of rows of every node.
\<close>

fun wf :: "nat \<Rightarrow> db_view \<Rightarrow> executor \<Rightarrow> bool" where
  "wf fuel v (SeqScanEx s) \<longleftrightarrow>
     map_of (v_handles v) (ss_tab s) \<noteq> None \<and>
     (\<forall>rec\<in>ran (v_contents v (ss_tab s)). \<not> isl (eval_conditions (ss_cols s) (ss_conds s) rec)) \<and>
     length (rows v (SeqScanEx s)) + 2 \<le> fuel"
| "wf fuel v (IndexScanEx s) \<longleftrightarrow>
     map_of (v_handles v) (is_tab s) \<noteq> None \<and>
     map_of (v_indexes v) (runtime_index_name (is_tab s) (is_names s)) \<noteq> None \<and>
     set (scanned_rids v s) \<subseteq> dom (v_contents v (is_tab s)) \<and>
     (\<forall>rec\<in>ran (v_contents v (is_tab s)). \<not> isl (eval_conditions (is_cols s) (is_conds s) rec)) \<and>
     length (rows v (IndexScanEx s)) + 2 \<le> fuel"
| "wf fuel v (JoinEx l r j) \<longleftrightarrow>
     wf fuel v l \<and> wf fuel v r \<and>
     (\<forall>a\<in>set (rows v l). \<forall>b\<in>set (rows v r). \<not> isl (eval_conditions (j_cols j) (j_conds j) (join_rec l r a b))) \<and>
     length (rows v (JoinEx l r j)) + 2 \<le> fuel"
| "wf fuel v (ProjectionEx p s) \<longleftrightarrow> wf fuel v p"
| "wf fuel v (SortEx p s) \<longleftrightarrow> wf fuel v p"

section \<open>Scans\<close>

text \<open>What an operation keeps of an executor.\<close>

definition alike :: "nat \<Rightarrow> db_view \<Rightarrow> executor \<Rightarrow> executor \<Rightarrow> bool" where
  "alike fuel v x x' \<longleftrightarrow>
     wf fuel v x' \<and> rows v x' = rows v x \<and> ex_cols x' = ex_cols x \<and> tupleLen x' = tupleLen x \<and> height x' = height x"

lemma alike_refl: "wf fuel v x \<Longrightarrow> alike fuel v x x"
  by (simp add: alike_def)

lemma alike_trans: "alike fuel v a b \<Longrightarrow> alike fuel v b c \<Longrightarrow> alike fuel v a c"
  by (simp add: alike_def)

lemma finite_contents: "finite (dom (contents st t))"
  using finite_recs by (auto simp: contents_def split: option.splits)

lemma not_isl_cases: "\<not> isl r \<Longrightarrow> (r = Inr True \<Longrightarrow> P) \<Longrightarrow> (r = Inr False \<Longrightarrow> P) \<Longrightarrow> P"
  by (cases r) auto

lemma tab_gets:
  assumes "files_ok st" and "map_of (fhs st) t = Some h"
  shows "\<exists>st'. on_file t (gets_e f) st = (Inr (f (tab_st st h)), st') \<and> calm st st'"
  using on_file_calm [where op = "gets_e f", OF assms _ untouched_refl [OF files_ok_rm_inv [OF assms]]] by simp

definition same_seq :: "SeqScan \<Rightarrow> SeqScan \<Rightarrow> bool" where
  "same_seq s s' \<longleftrightarrow> ss_tab s' = ss_tab s \<and> ss_conds s' = ss_conds s \<and> ss_cols s' = ss_cols s \<and> ss_len s' = ss_len s"

lemma same_seq_alike: "same_seq s s' \<Longrightarrow> wf fuel v (SeqScanEx s) \<Longrightarrow> alike fuel v (SeqScanEx s) (SeqScanEx s')"
  by (simp add: alike_def same_seq_def seq_good_def [abs_def])

lemma scan_pos_rids: "rids_from (recs st) pos = [] \<longleftrightarrow> from_rid st pos = {}"
  unfolding from_rid_def rids_from(1) [OF finite_recs [of st], of pos, symmetric] by simp

lemma seq_find_spec:
  assumes "files_ok st" and "map_of (fhs st) (ss_tab s) = Some h" and "scan_pos (tab_st st h) pos"
    and "card (from_rid (tab_st st h) pos) < k"
    and "\<forall>rec\<in>ran (contents st (ss_tab s)). \<not> isl (eval_conditions (ss_cols s) (ss_conds s) rec)"
  shows "\<exists>s' st'. seq_find k s pos st = (Inr s', st') \<and> calm st st' \<and> same_seq s s' \<and> settled (view st) (SeqScanEx s') \<and>
    rest (view st) (SeqScanEx s') = rids_rows (seq_good s) (contents st (ss_tab s)) (rids_from (contents st (ss_tab s)) pos)"
  using assms
proof (induction k arbitrary: st s pos)
  case (Suc k)
  let ?t = "ss_tab s" and ?r = "tab_st st h"
  have rm: "rm_inv ?r" "contents st ?t = recs ?r" "hdr ?r = file_hdr h"
    using files_ok_rm_inv [OF Suc.prems(1,2)] contents_handle [OF Suc.prems(2)] by (simp_all add: tab_st_def)
  obtain st1 where e: "on_file ?t (gets_e (scan_is_end pos)) st = (Inr (scan_is_end pos ?r), st1)" "calm st st1"
    using tab_gets [OF Suc.prems(1,2)] by blast
  show ?case
  proof (cases "page_no pos < num_pages (file_hdr h)")
    case False
    let ?s = "s\<lparr>ss_scan := Some pos\<rparr>"
    have "rids_from (recs ?r) pos = []" using Suc.prems(3) False rm(3) by (simp add: scan_pos_rids scan_pos_def)
    then have "settled (view st) (SeqScanEx ?s)" "same_seq s ?s"
      using Suc.prems(2) False rm(2) by (simp_all add: same_seq_def)
    moreover have "seq_find (Suc k) s pos st = (Inr ?s, st1)" using e(1) False rm(3) by (simp add: scan_is_end_def)
    ultimately show ?thesis using e(2) by (intro exI [of _ ?s] exI [of _ st1]) (simp add: seq_good_def [abs_def])
  next
    case True
    then obtain rec where rec: "recs ?r pos = Some rec" using Suc.prems(3) rm(3) by (auto simp: scan_pos_def)
    have f1: "files_ok st1" "fhs st1 = fhs st" "contents st1 = contents st" using e(2) by (simp_all add: calm_def)
    obtain st2 where g: "on_file ?t (get_record pos) st1 = (Inr rec, st2)" "calm st1 st2"
      using tab_get_record [OF f1(1), of ?t h pos] f1(2,3) Suc.prems(2) rec rm(2) by auto
    have f2: "files_ok st2" "fhs st2 = fhs st" "contents st2 = contents st" and c2: "calm st st2"
      using g(2) f1 calm_trans [OF e(2) g(2)] by (simp_all add: calm_def)
    have ok: "\<not> isl (eval_conditions (ss_cols s) (ss_conds s) rec)" using Suc.prems(5) rec rm(2) by (auto simp: ran_def)
    from ok show ?thesis
    proof (rule not_isl_cases)
      assume t: "eval_conditions (ss_cols s) (ss_conds s) rec = Inr True"
      let ?s = "s\<lparr>ss_rid := Some pos, ss_scan := Some pos\<rparr>"
      have "seq_find (Suc k) s pos st = (Inr ?s, st2)" using e(1) g(1) t True rm(3) by (simp add: scan_is_end_def)
      moreover have "settled (view st) (SeqScanEx ?s)" using Suc.prems(2) True rec rm(2) t by (simp add: seq_good_def)
      ultimately show ?thesis using c2 by (intro exI [of _ ?s] exI [of _ st2]) (simp add: same_seq_def seq_good_def [abs_def])
    next
      assume t: "eval_conditions (ss_cols s) (ss_conds s) rec = Inr False"
      let ?s = "s\<lparr>ss_rid := Some pos\<rparr>"
      have rm2: "rm_inv (tab_st st2 h)" "recs (tab_st st2 h) = recs ?r" "fh (tab_st st2 h) = fh ?r"
        using files_ok_rm_inv [OF f2(1), of ?t h] contents_handle [of st2 ?t h] f2 Suc.prems(2) rm(2) by (simp_all add: tab_st_fh)
      note cong = scan_pos_cong [OF rm2(2,3)]
      have p2: "scan_pos (tab_st st2 h) pos" "page_no pos < num_pages (hdr (tab_st st2 h))"
        using True Suc.prems(3) cong rm2(3) by (simp_all add: tab_st_fh)
      obtain pos2 r2 where n: "scan_next pos (tab_st st2 h) = (Inr pos2, r2)" "untouched (tab_st st2 h) r2" "scan_pos (tab_st st2 h) pos2"
        "from_rid (tab_st st2 h) pos = insert pos (from_rid (tab_st st2 h) pos2)" "\<And>q. q \<in> from_rid (tab_st st2 h) pos2 \<Longrightarrow> rid_less pos q"
        "card (from_rid (tab_st st2 h) pos) = Suc (card (from_rid (tab_st st2 h) pos2))"
        by (rule scan_step [OF rm2(1) p2]) blast
      note step2 = rids_from_step [OF finite_recs n(4,5), unfolded rm2(2)]
      have nx: "on_file ?t (scan_next pos) st2 = (Inr pos2, put_file ?t r2 st2)" "calm st2 (put_file ?t r2 st2)"
        using on_file_calm [where op = "scan_next pos", OF f2(1) _ n(1,2)] f2(2) Suc.prems(2) by simp_all
      let ?st3 = "put_file ?t r2 st2"
      have f3: "files_ok ?st3" "fhs ?st3 = fhs st" "contents ?st3 = contents st" and c3: "calm st ?st3"
        using nx(2) f2 calm_trans [OF c2 nx(2)] by (simp_all add: calm_def)
      have rm3: "recs (tab_st ?st3 h) = recs ?r" "fh (tab_st ?st3 h) = fh ?r"
        using contents_handle [of ?st3 ?t h] f3 Suc.prems(2) rm(2) by (simp_all add: tab_st_fh)
      note cong3 = scan_pos_cong [OF rm3]
      have "card (from_rid ?r pos2) < k" using n(6) cong Suc.prems(4) by simp
      then obtain s' st' where I: "seq_find k ?s pos2 ?st3 = (Inr s', st')" "calm ?st3 st'" "same_seq ?s s'" "settled (view ?st3) (SeqScanEx s')"
        "rest (view ?st3) (SeqScanEx s') = rids_rows (seq_good ?s) (contents ?st3 (ss_tab ?s)) (rids_from (contents ?st3 (ss_tab ?s)) pos2)"
        using Suc.IH [OF f3(1), of ?s pos2] f3 Suc.prems(2,5) cong cong3 n(3) by auto
      have "seq_find (Suc k) s pos st = (Inr s', st')" using e(1) g(1) t True rm(3) nx(1) I(1) by (simp add: scan_is_end_def)
      moreover have "rids_rows (seq_good s) (recs ?r) (rids_from (recs ?r) pos) = rids_rows (seq_good ?s) (recs ?r) (rids_from (recs ?r) pos2)"
        using step2 t rec by (simp add: rids_rows_def seq_good_def [abs_def])
      ultimately show ?thesis using I(2-5) calm_trans [OF c3 I(2)] calm_view [OF c3] f3(3) rm(2)
        by (intro exI [of _ s'] exI [of _ st']) (simp add: same_seq_def)
    qed
  qed
qed simp

text \<open>The contract of one call: the rows that are left afterwards, and the row that is delivered.\<close>

definition goes :: "nat \<Rightarrow> sm_state \<Rightarrow> executor \<Rightarrow> byte list list \<Rightarrow> (rmdb_error + executor) \<times> sm_state \<Rightarrow> bool" where
  "goes fuel st x rs res \<longleftrightarrow>
     (\<exists>x' st'. res = (Inr x', st') \<and> calm st st' \<and> alike fuel (view st) x x' \<and> settled (view st) x' \<and> rest (view st) x' = rs)"

definition first :: "'a list \<Rightarrow> 'a option" where
  "first xs = (case xs of [] \<Rightarrow> None | x # _ \<Rightarrow> Some x)"

definition gives :: "nat \<Rightarrow> sm_state \<Rightarrow> executor \<Rightarrow> (rmdb_error + byte list option \<times> executor) \<times> sm_state \<Rightarrow> bool" where
  "gives fuel st x res \<longleftrightarrow>
     (\<exists>x' st'. res = (Inr (first (rest (view st) x), x'), st') \<and> calm st st' \<and> alike fuel (view st) x x' \<and> settled (view st) x' \<and>
        rest (view st) x' = rest (view st) x)"

lemma first_simps [simp]: "first [] = None" "first (x # xs) = Some x"
  by (simp_all add: first_def)

lemma scan_fuel_card: "card (from_rid st pos) < scan_fuel (hdr st)"
proof -
  have "card (from_rid st pos) \<le> card (dom (recs st))" by (rule card_mono [OF finite_recs]) (auto simp: from_rid_def)
  then show ?thesis using card_recs_bound [of st] by (simp add: scan_fuel_def)
qed

lemma seq_loop_goes:
  assumes "files_ok st" and h: "map_of (fhs st) (ss_tab s) = Some h" and "scan_pos (tab_st st h) pos" and w: "wf fuel (view st) (SeqScanEx s)"
  shows "goes fuel st (SeqScanEx s) (rids_rows (seq_good s) (contents st (ss_tab s)) (rids_from (contents st (ss_tab s)) pos))
    (bind_e (seq_loop s pos) (\<lambda>s'. ret (SeqScanEx s')) st)"
proof -
  let ?k = "scan_fuel (hdr (tab_st st h))"
  obtain st1 where g: "on_file (ss_tab s) (gets_e (\<lambda>st. scan_fuel (hdr st))) st = (Inr ?k, st1)" "calm st st1"
    using tab_gets [OF assms(1,2), of "\<lambda>st. scan_fuel (hdr st)"] by blast
  have f1: "files_ok st1" "fhs st1 = fhs st" "contents st1 = contents st" using g(2) by (simp_all add: calm_def)
  have rm1: "recs (tab_st st1 h) = recs (tab_st st h)" "fh (tab_st st1 h) = fh (tab_st st h)"
    using contents_handle [of st1 "ss_tab s" h] contents_handle [OF h] f1 h by (simp_all add: tab_st_fh)
  have k: "card (from_rid (tab_st st1 h) pos) < ?k" using scan_fuel_card [of "tab_st st1 h" pos] rm1(2) by simp
  obtain s' st' where F: "seq_find ?k s pos st1 = (Inr s', st')" "calm st1 st'" "same_seq s s'" "settled (view st1) (SeqScanEx s')"
    "rest (view st1) (SeqScanEx s') = rids_rows (seq_good s) (contents st1 (ss_tab s)) (rids_from (contents st1 (ss_tab s)) pos)"
    using seq_find_spec [OF f1(1) _ _ k, of s] f1 h assms(3) w scan_pos_cong [OF rm1] by auto
  have "bind_e (seq_loop s pos) (\<lambda>s'. ret (SeqScanEx s')) st = (Inr (SeqScanEx s'), st')" using g(1) F(1) by (simp add: seq_loop_def)
  then show ?thesis
    using F(4,5) calm_trans [OF g(2) F(2)] calm_view [OF g(2)] f1(3) same_seq_alike [OF F(3) w]
    unfolding goes_def by (intro exI [of _ "SeqScanEx s'"] exI [of _ st']) simp
qed

lemma goes_calm:
  assumes "goes fuel st1 x rs res" and "calm st st1"
  shows "goes fuel st x rs res"
  using assms calm_trans [OF assms(2)] unfolding goes_def calm_view [OF assms(2)] by blast

lemma bind_e_assoc: "bind_e (bind_e m f) g = bind_e m (\<lambda>x. bind_e (f x) g)"
  by (intro ext) (auto simp: bind_e_app split: prod.splits sum.splits)

lemma seq_begin_goes:
  assumes inv: "files_ok st" and w: "wf fuel (view st) (SeqScanEx s)"
  shows "goes fuel st (SeqScanEx s) (rows (view st) (SeqScanEx s)) (bind_e (seq_beginTuple s) (\<lambda>s'. ret (SeqScanEx s')) st)"
proof -
  obtain h where h: "map_of (fhs st) (ss_tab s) = Some h" using w by auto
  let ?r = "tab_st st h" and ?m = "contents st (ss_tab s)"
  have m: "?m = recs ?r" by (rule contents_handle [OF h])
  obtain pos r where n: "new_RmScan ?r = (Inr pos, r)" "untouched ?r r" "scan_pos ?r pos" "from_rid ?r pos = dom (recs ?r)"
    by (rule scan_start [OF files_ok_rm_inv [OF inv h]])
  let ?st1 = "put_file (ss_tab s) r st"
  have o: "on_file (ss_tab s) new_RmScan st = (Inr pos, ?st1)" "calm st ?st1"
    by (rule on_file_calm [where op = new_RmScan, OF inv h n(1,2)])+
  have f1: "files_ok ?st1" "fhs ?st1 = fhs st" "contents ?st1 = contents st" using o(2) by (simp_all add: calm_def)
  have rm1: "recs (tab_st ?st1 h) = recs ?r" "fh (tab_st ?st1 h) = fh ?r"
    using contents_handle [of ?st1 "ss_tab s" h] m f1 h by (simp_all add: tab_st_fh)
  have all: "rids_from ?m pos = rids_of ?m"
  proof (rule sorted_rids_unique)
    show "set (rids_from ?m pos) = set (rids_of ?m)"
      unfolding rids_of(1) [OF finite_contents] rids_from(1) [OF finite_contents] using n(4) m by (simp add: from_rid_def)
  qed (rule rids_from(2) [OF finite_contents], rule rids_of(2) [OF finite_contents])
  have "goes fuel ?st1 (SeqScanEx s) (rows (view st) (SeqScanEx s)) (bind_e (seq_loop s pos) (\<lambda>s'. ret (SeqScanEx s')) ?st1)"
    using seq_loop_goes [OF f1(1), of s h pos fuel] f1 h n(3) scan_pos_cong [OF rm1] w calm_view [OF o(2)] all by simp
  then have "goes fuel st (SeqScanEx s) (rows (view st) (SeqScanEx s)) (bind_e (seq_loop s pos) (\<lambda>s'. ret (SeqScanEx s')) ?st1)"
    by (rule goes_calm [OF _ o(2)])
  then show ?thesis using o(1) by (simp add: seq_beginTuple_def bind_e_assoc)
qed

lemma settled_seq:
  assumes "settled (view st) (SeqScanEx s)"
  obtains pos h where "ss_scan s = Some pos" "map_of (fhs st) (ss_tab s) = Some h"
    "\<not> page_no pos < num_pages (file_hdr h) \<Longrightarrow> rids_from (contents st (ss_tab s)) pos = []"
    "page_no pos < num_pages (file_hdr h) \<Longrightarrow> \<exists>rec. contents st (ss_tab s) pos = Some rec \<and> seq_good s rec"
  using assms by (auto split: option.splits if_splits)

lemma seq_is_end_iff:
  assumes "ss_scan s = Some pos" and "map_of (fhs st) (ss_tab s) = Some h"
  shows "seq_is_end s st \<longleftrightarrow> \<not> page_no pos < num_pages (file_hdr h)"
  using assms by (auto simp: seq_is_end_def scan_is_end_def)

lemma seq_next_goes:
  assumes inv: "files_ok st" and w: "wf fuel (view st) (SeqScanEx s)" and z: "settled (view st) (SeqScanEx s)"
  shows "goes fuel st (SeqScanEx s) (tl (rest (view st) (SeqScanEx s))) (bind_e (seq_nextTuple s) (\<lambda>s'. ret (SeqScanEx s')) st)"
proof -
  obtain pos h where p: "ss_scan s = Some pos" and h: "map_of (fhs st) (ss_tab s) = Some h"
    and e: "\<not> page_no pos < num_pages (file_hdr h) \<Longrightarrow> rids_from (contents st (ss_tab s)) pos = []"
    and g: "page_no pos < num_pages (file_hdr h) \<Longrightarrow> \<exists>rec. contents st (ss_tab s) pos = Some rec \<and> seq_good s rec"
    by (rule settled_seq [OF z]) blast
  note ie = seq_is_end_iff [OF p h]
  have m: "contents st (ss_tab s) = recs (tab_st st h)" by (rule contents_handle [OF h])
  show ?thesis
  proof (cases "page_no pos < num_pages (file_hdr h)")
    case False
    then show ?thesis using ie e z p w calm_refl [OF inv] alike_refl [OF w]
      unfolding goes_def by (intro exI [of _ "SeqScanEx s"] exI [of _ st]) (simp add: seq_nextTuple_def rids_rows_def)
  next
    case True
    then obtain rec where rec: "recs (tab_st st h) pos = Some rec" "seq_good s rec" using g m by auto
    have sp: "scan_pos (tab_st st h) pos" "page_no pos < num_pages (hdr (tab_st st h))" using True rec by (simp_all add: scan_pos_def tab_st_fh)
    obtain pos' r where n: "scan_next pos (tab_st st h) = (Inr pos', r)" "untouched (tab_st st h) r" "scan_pos (tab_st st h) pos'"
      "from_rid (tab_st st h) pos = insert pos (from_rid (tab_st st h) pos')" "\<And>q. q \<in> from_rid (tab_st st h) pos' \<Longrightarrow> rid_less pos q"
      by (rule scan_step [OF files_ok_rm_inv [OF inv h] sp]) blast
    note step = rids_from_step [OF finite_recs n(4,5)]
    let ?st1 = "put_file (ss_tab s) r st"
    have o: "on_file (ss_tab s) (scan_next pos) st = (Inr pos', ?st1)" "calm st ?st1"
      by (rule on_file_calm [where op = "scan_next pos", OF inv h n(1,2)])+
    have f1: "files_ok ?st1" "fhs ?st1 = fhs st" "contents ?st1 = contents st" using o(2) by (simp_all add: calm_def)
    have rm1: "recs (tab_st ?st1 h) = recs (tab_st st h)" "fh (tab_st ?st1 h) = fh (tab_st st h)"
      using contents_handle [of ?st1 "ss_tab s" h] m f1 h by (simp_all add: tab_st_fh)
    have "tl (rest (view st) (SeqScanEx s)) = rids_rows (seq_good s) (contents st (ss_tab s)) (rids_from (contents st (ss_tab s)) pos')"
      using p step rec m by (simp add: rids_rows_def)
    then have "goes fuel ?st1 (SeqScanEx s) (tl (rest (view st) (SeqScanEx s))) (bind_e (seq_loop s pos') (\<lambda>s'. ret (SeqScanEx s')) ?st1)"
      using seq_loop_goes [OF f1(1), of s h pos' fuel] f1 h n(3) scan_pos_cong [OF rm1] w calm_view [OF o(2)] by simp
    then have "goes fuel st (SeqScanEx s) (tl (rest (view st) (SeqScanEx s))) (bind_e (seq_loop s pos') (\<lambda>s'. ret (SeqScanEx s')) ?st1)"
      by (rule goes_calm [OF _ o(2)])
    then show ?thesis using o(1) True ie p by (simp add: seq_nextTuple_def bind_e_assoc)
  qed
qed

lemma seq_rest:
  assumes "ss_scan s = Some pos" and "map_of (fhs st) (ss_tab s) = Some h" and "contents st (ss_tab s) pos = Some rec" and "seq_good s rec"
  shows "first (rest (view st) (SeqScanEx s)) = Some rec"
proof -
  let ?m = "contents st (ss_tab s)"
  have d: "set (rids_from ?m pos) = {q. ?m q \<noteq> None \<and> (q = pos \<or> rid_less pos q)}" and so: "sorted_wrt rid_less (rids_from ?m pos)"
    using rids_from [OF finite_contents] by auto
  have i: "pos \<in> set (rids_from ?m pos)" unfolding d using assms(3) by simp
  then obtain q qs where q: "rids_from ?m pos = q # qs" by (cases "rids_from ?m pos") auto
  have "pos \<in> set (q # qs)" "q \<in> set (q # qs)" using i q by auto
  then have "q = pos \<or> rid_less pos q" "pos = q \<or> rid_less q pos" using d so q by auto
  then have "q = pos" using rid_less_trans rid_less_irrefl by blast
  then show ?thesis using q assms by (simp add: rids_rows_def)
qed

lemma seq_Next_gives:
  assumes inv: "files_ok st" and w: "wf fuel (view st) (SeqScanEx s)" and z: "settled (view st) (SeqScanEx s)"
  shows "gives fuel st (SeqScanEx s) (bind_e (seq_Next s) (\<lambda>(rec, s'). ret (rec, SeqScanEx s')) st)"
    and "seq_is_end s st \<longleftrightarrow> rest (view st) (SeqScanEx s) = []"
proof -
  obtain pos h where p: "ss_scan s = Some pos" and h: "map_of (fhs st) (ss_tab s) = Some h"
    and e: "\<not> page_no pos < num_pages (file_hdr h) \<Longrightarrow> rids_from (contents st (ss_tab s)) pos = []"
    and g: "page_no pos < num_pages (file_hdr h) \<Longrightarrow> \<exists>rec. contents st (ss_tab s) pos = Some rec \<and> seq_good s rec"
    by (rule settled_seq [OF z]) blast
  note ie = seq_is_end_iff [OF p h]
  have "gives fuel st (SeqScanEx s) (bind_e (seq_Next s) (\<lambda>(rec, s'). ret (rec, SeqScanEx s')) st) \<and>
    (seq_is_end s st \<longleftrightarrow> rest (view st) (SeqScanEx s) = [])"
  proof (cases "page_no pos < num_pages (file_hdr h)")
    case False
    then show ?thesis using ie e z p calm_refl [OF inv] alike_refl [OF w]
      unfolding gives_def by (intro conjI exI [of _ "SeqScanEx s"] exI [of _ st]) (simp_all add: seq_Next_def rids_rows_def)
  next
    case True
    then obtain rec where rec: "contents st (ss_tab s) pos = Some rec" "seq_good s rec" using g by auto
    obtain st1 where st1: "on_file (ss_tab s) (get_record pos) st = (Inr rec, st1)" "calm st st1"
      using tab_get_record [OF inv h, of pos] rec(1) by auto
    let ?s = "s\<lparr>ss_rid := Some pos\<rparr>"
    note fr = seq_rest [OF p h rec]
    have r: "rest (view st) (SeqScanEx ?s) = rest (view st) (SeqScanEx s)" "settled (view st) (SeqScanEx ?s)"
      using True p h rec by (simp_all add: seq_good_def [abs_def])
    have "bind_e (seq_Next s) (\<lambda>(rec, s'). ret (rec, SeqScanEx s')) st = (Inr (Some rec, SeqScanEx ?s), st1)"
      using True ie p st1(1) by (simp add: seq_Next_def)
    then have "gives fuel st (SeqScanEx s) (bind_e (seq_Next s) (\<lambda>(rec, s'). ret (rec, SeqScanEx s')) st)"
      using fr r st1(2) same_seq_alike [OF _ w, of ?s]
      unfolding gives_def by (intro exI [of _ "SeqScanEx ?s"] exI [of _ st1]) (simp add: same_seq_def)
    moreover have "rest (view st) (SeqScanEx s) \<noteq> []" using fr by (cases "rest (view st) (SeqScanEx s)") simp_all
    ultimately show ?thesis using True ie by simp
  qed
  then show "gives fuel st (SeqScanEx s) (bind_e (seq_Next s) (\<lambda>(rec, s'). ret (rec, SeqScanEx s')) st)"
    "seq_is_end s st \<longleftrightarrow> rest (view st) (SeqScanEx s) = []" by blast+
qed

end
