(* ===== verification/Query_Tree.thy ===== *)
theory Query_Tree
  imports Query_Rows
begin

text \<open>
  The contract of the executors: the index scan, and, inside the locale \<open>iterator\<close>, the nested loop join, the projection and
  the sort over children that keep it. \<open>tree_ops\<close> keeps the contract for trees of any height.
\<close>

section \<open>Index scan\<close>

definition same_index :: "IndexScan \<Rightarrow> IndexScan \<Rightarrow> bool" where
  "same_index s s' \<longleftrightarrow>
     is_tab s' = is_tab s \<and> is_conds s' = is_conds s \<and> is_cols s' = is_cols s \<and> is_len s' = is_len s \<and> is_names s' = is_names s"

lemma same_index_alike: "same_index s s' \<Longrightarrow> wf fuel v (IndexScanEx s) \<Longrightarrow> alike fuel v (IndexScanEx s) (IndexScanEx s')"
proof -
  assume a: "same_index s s'" and w: "wf fuel v (IndexScanEx s)"
  have "scanned_rids v s' = scanned_rids v s" "index_good s' = index_good s"
    using a by (simp_all add: same_index_def scanned_rids_def index_good_def [abs_def] cong: option.case_cong)
  then show ?thesis using a w by (simp add: alike_def same_index_def)
qed

lemma index_find_spec:
  assumes "files_ok st" and "map_of (fhs st) (is_tab s) = Some h" and "set (is_rids s) \<subseteq> dom (contents st (is_tab s))"
    and "\<forall>rec\<in>ran (contents st (is_tab s)). \<not> isl (eval_conditions (is_cols s) (is_conds s) rec)"
    and "i \<le> length (is_rids s)" and "rids = drop i (is_rids s)"
  shows "\<exists>s' st'. index_find s i rids st = (Inr s', st') \<and> calm st st' \<and> same_index s s' \<and> settled (view st) (IndexScanEx s') \<and>
    rest (view st) (IndexScanEx s') = rids_rows (index_good s) (contents st (is_tab s)) rids"
  using assms
proof (induction rids arbitrary: st s i)
  case Nil
  then have "i = length (is_rids s)" by simp
  then show ?case using Nil.prems calm_refl
    by (intro exI [of _ "s\<lparr>is_cursor := i\<rparr>"] exI [of _ st]) (simp add: same_index_def rids_rows_def)
next
  case (Cons rid rids)
  let ?t = "is_tab s" and ?m = "contents st (is_tab s)"
  have "i < length (is_rids s)" using Cons.prems(6) by (cases "i < length (is_rids s)") simp_all
  moreover from this have "is_rids s ! i # drop (Suc i) (is_rids s) = rid # rids"
    using Cons_nth_drop_Suc [of i "is_rids s"] Cons.prems(6) by simp
  ultimately have i: "i < length (is_rids s)" "is_rids s ! i = rid" "rids = drop (Suc i) (is_rids s)" by simp_all
  then have "rid \<in> set (is_rids s)" by auto
  then obtain rec where rec: "?m rid = Some rec" using Cons.prems(3) by auto
  obtain st1 where g: "on_file ?t (get_record rid) st = (Inr rec, st1)" "calm st st1"
    using tab_get_record [OF Cons.prems(1,2), of rid] rec by auto
  have f1: "files_ok st1" "fhs st1 = fhs st" "contents st1 = contents st" using g(2) by (simp_all add: calm_def)
  have "\<not> isl (eval_conditions (is_cols s) (is_conds s) rec)" using Cons.prems(4) rec by (auto simp: ran_def)
  then show ?case
  proof (rule not_isl_cases)
    assume t: "eval_conditions (is_cols s) (is_conds s) rec = Inr True"
    let ?s = "s\<lparr>is_rid := Some rid, is_cursor := i\<rparr>"
    have run: "index_find s i (rid # rids) st = (Inr ?s, st1)" using g(1) t by simp
    show ?thesis using Cons.prems(3,6) g(2) t rec i
      by (intro exI [of _ ?s] exI [of _ st1] conjI run) (simp_all add: same_index_def index_good_def [abs_def])
  next
    assume t: "eval_conditions (is_cols s) (is_conds s) rec = Inr False"
    let ?s = "s\<lparr>is_rid := Some rid\<rparr>"
    obtain s' st' where I: "index_find ?s (Suc i) rids st1 = (Inr s', st')" "calm st1 st'" "same_index ?s s'" "settled (view st1) (IndexScanEx s')"
      "rest (view st1) (IndexScanEx s') = rids_rows (index_good ?s) (contents st1 (is_tab ?s)) rids"
      using Cons.IH [OF f1(1), of ?s "Suc i"] f1 Cons.prems i by auto
    have "index_find s i (rid # rids) st = (Inr s', st')" using g(1) t I(1) by simp
    then show ?thesis using I(2-5) calm_trans [OF g(2) I(2)] calm_view [OF g(2)] f1(3) t rec
      by (intro exI [of _ s'] exI [of _ st']) (simp add: same_index_def index_good_def [abs_def] rids_rows_def)
  qed
qed

lemma index_begin_goes:
  assumes inv: "files_ok st" and w: "wf fuel (view st) (IndexScanEx s)"
  shows "goes fuel st (IndexScanEx s) (rows (view st) (IndexScanEx s)) (bind_e (index_beginTuple s) (\<lambda>s'. ret (IndexScanEx s')) st)"
proof -
  obtain h ri where h: "map_of (fhs st) (is_tab s) = Some h" "map_of (runtime_indexes st) (runtime_index_name (is_tab s) (is_names s)) = Some ri"
    using w by auto
  let ?rids = "scanned_rids (view st) s" and ?s = "s\<lparr>is_rids := scanned_rids (view st) s\<rparr>"
  have sc: "scan_index (is_tab s) (is_names s) (is_conds s) st = (Inr ?rids, st)"
    using h by (simp add: scan_index_def get_runtime_index_def scanned_rids_def)
  obtain s' st' where F: "index_find ?s 0 ?rids st = (Inr s', st')" "calm st st'" "same_index ?s s'" "settled (view st) (IndexScanEx s')"
    "rest (view st) (IndexScanEx s') = rids_rows (index_good ?s) (contents st (is_tab ?s)) ?rids"
    using index_find_spec [OF inv, of ?s h 0 ?rids] h w by auto
  have "same_index s s'" using F(3) by (simp add: same_index_def)
  then show ?thesis using sc F same_index_alike [OF _ w]
    unfolding goes_def by (intro exI [of _ "IndexScanEx s'"] exI [of _ st']) (simp add: index_beginTuple_def index_good_def [abs_def])
qed

lemma index_next_goes:
  assumes inv: "files_ok st" and w: "wf fuel (view st) (IndexScanEx s)" and z: "settled (view st) (IndexScanEx s)"
  shows "goes fuel st (IndexScanEx s) (tl (rest (view st) (IndexScanEx s))) (bind_e (index_nextTuple s) (\<lambda>s'. ret (IndexScanEx s')) st)"
proof (cases "is_cursor s < length (is_rids s)")
  case False
  then show ?thesis using z calm_refl [OF inv] alike_refl [OF w]
    unfolding goes_def by (intro exI [of _ "IndexScanEx s"] exI [of _ st]) (simp add: index_nextTuple_def index_is_end_def rids_rows_def)
next
  case True
  obtain h where h: "map_of (fhs st) (is_tab s) = Some h" using w by auto
  let ?i = "Suc (is_cursor s)"
  obtain s' st' where F: "index_find s ?i (drop ?i (is_rids s)) st = (Inr s', st')" "calm st st'" "same_index s s'" "settled (view st) (IndexScanEx s')"
    "rest (view st) (IndexScanEx s') = rids_rows (index_good s) (contents st (is_tab s)) (drop ?i (is_rids s))"
    using index_find_spec [OF inv, of s h ?i] h w z True by auto
  have "tl (rest (view st) (IndexScanEx s)) = rids_rows (index_good s) (contents st (is_tab s)) (drop ?i (is_rids s))"
    using z True by (simp add: rids_rows_def flip: Cons_nth_drop_Suc)
  then show ?thesis using F True same_index_alike [OF F(3) w]
    unfolding goes_def by (intro exI [of _ "IndexScanEx s'"] exI [of _ st']) (simp add: index_nextTuple_def index_is_end_def)
qed

lemma index_Next_gives:
  assumes inv: "files_ok st" and w: "wf fuel (view st) (IndexScanEx s)" and z: "settled (view st) (IndexScanEx s)"
  shows "gives fuel st (IndexScanEx s) (bind_e (index_Next s) (\<lambda>(rec, s'). ret (rec, IndexScanEx s')) st)"
    and "index_is_end s \<longleftrightarrow> rest (view st) (IndexScanEx s) = []"
proof -
  have "gives fuel st (IndexScanEx s) (bind_e (index_Next s) (\<lambda>(rec, s'). ret (rec, IndexScanEx s')) st) \<and>
    (index_is_end s \<longleftrightarrow> rest (view st) (IndexScanEx s) = [])"
  proof (cases "is_cursor s < length (is_rids s)")
    case False
    then show ?thesis using z calm_refl [OF inv] alike_refl [OF w]
      unfolding gives_def by (intro conjI exI [of _ "IndexScanEx s"] exI [of _ st]) (simp_all add: index_Next_def index_is_end_def rids_rows_def)
  next
    case True
    let ?rid = "is_rids s ! is_cursor s" and ?s = "s\<lparr>is_rid := Some (is_rids s ! is_cursor s)\<rparr>"
    obtain h where h: "map_of (fhs st) (is_tab s) = Some h" using w by auto
    have "?rid \<in> dom (contents st (is_tab s))" using z True nth_mem by fastforce
    then obtain rec where rec: "contents st (is_tab s) ?rid = Some rec" by auto
    obtain st1 where st1: "on_file (is_tab s) (get_record ?rid) st = (Inr rec, st1)" "calm st st1"
      using tab_get_record [OF inv h, of ?rid] rec by auto
    have r: "rest (view st) (IndexScanEx s) = rec # rids_rows (index_good s) (contents st (is_tab s)) (drop (Suc (is_cursor s)) (is_rids s))"
      using z True rec by (simp add: rids_rows_def flip: Cons_nth_drop_Suc)
    have "bind_e (index_Next s) (\<lambda>(rec, s'). ret (rec, IndexScanEx s')) st = (Inr (Some rec, IndexScanEx ?s), st1)"
      using True st1(1) by (simp add: index_Next_def index_is_end_def Let_def)
    then have "gives fuel st (IndexScanEx s) (bind_e (index_Next s) (\<lambda>(rec, s'). ret (rec, IndexScanEx s')) st)"
      using r st1(2) z same_index_alike [OF _ w, of ?s]
      unfolding gives_def by (intro exI [of _ "IndexScanEx ?s"] exI [of _ st1]) (simp add: same_index_def index_good_def [abs_def])
    then show ?thesis using True r by (simp add: index_is_end_def)
  qed
  then show "gives fuel st (IndexScanEx s) (bind_e (index_Next s) (\<lambda>(rec, s'). ret (rec, IndexScanEx s')) st)"
    "index_is_end s \<longleftrightarrow> rest (view st) (IndexScanEx s) = []" by blast+
qed

section \<open>Matches\<close>

definition same_join :: "NestedLoopJoin \<Rightarrow> NestedLoopJoin \<Rightarrow> bool" where
  "same_join j j' \<longleftrightarrow> j_len j' = j_len j \<and> j_cols j' = j_cols j \<and> j_conds j' = j_conds j"

lemma matches_cong:
  assumes "tupleLen l' = tupleLen l" and "tupleLen r' = tupleLen r" and "same_join j j'"
  shows "matches l' r' j' = matches l r j"
  using assms by (simp add: matches_def [abs_def] join_rec_def join_good_def [abs_def] same_join_def)

lemma join_alike:
  assumes "wf fuel v (JoinEx l r j)" and "alike fuel v l l'" and "alike fuel v r r'" and "same_join j j'"
  shows "alike fuel v (JoinEx l r j) (JoinEx l' r' j')"
  using assms matches_cong [of l' l r' r j j'] by (simp add: alike_def same_join_def join_rec_def)

lemma match_block_spec:
  assumes "j_right j = Some b" and "\<forall>a\<in>set ls. \<not> isl (eval_conditions (j_cols j) (j_conds j) (join_rec l r a b))"
  shows "\<exists>i'. match_block (tupleLen l) (tupleLen r) j i ls = Inr (i', first (matches l r j ls b)) \<and> i \<le> i' \<and>
    (matches l r j ls b \<noteq> [] \<longrightarrow> matches l r j (drop (i' - i) ls) b = tl (matches l r j ls b))"
  using assms(2)
proof (induction ls arbitrary: i)
  case (Cons a ls)
  have "\<not> isl (eval_conditions (j_cols j) (j_conds j) (join_rec l r a b))" using Cons.prems by simp
  then show ?case
  proof (rule not_isl_cases)
    assume "eval_conditions (j_cols j) (j_conds j) (join_rec l r a b) = Inr True"
    then show ?thesis using assms(1) by (intro exI [of _ "Suc i"]) (simp add: join_tuple_def matches_def join_good_def join_rec_def)
  next
    assume f: "eval_conditions (j_cols j) (j_conds j) (join_rec l r a b) = Inr False"
    obtain i' where I: "match_block (tupleLen l) (tupleLen r) j (Suc i) ls = Inr (i', first (matches l r j ls b))" "Suc i \<le> i'"
      "matches l r j ls b \<noteq> [] \<longrightarrow> matches l r j (drop (i' - Suc i) ls) b = tl (matches l r j ls b)"
      using Cons.IH [of "Suc i"] Cons.prems by auto
    have m: "matches l r j (a # ls) b = matches l r j ls b" using f by (simp add: matches_def join_good_def)
    have "i' - i = Suc (i' - Suc i)" using I(2) by simp
    then show ?thesis using f I assms(1) unfolding m by (intro exI [of _ i']) (simp add: join_tuple_def join_rec_def)
  qed
qed (simp add: matches_def)

lemma pending_0: "pending M block 0 rs = concat (map (M block) rs)"
  by (cases rs) simp_all

lemma join_all_step: "ls \<noteq> [] \<Longrightarrow>
  join_all M ls rs = pending M (fst (split_block 0 ls)) 0 rs @ join_all M (snd (split_block 0 ls)) rs"
  by (subst join_all.simps) (simp add: pending_0)

lemma join_all_Nil [simp]: "join_all M [] rs = []"
  by (subst join_all.simps) simp

lemma split_block_parts: "set (fst (split_block used xs)) \<subseteq> set xs" "suffix (snd (split_block used xs)) xs"
  using split_block_append [of used xs] by (metis set_append sup_ge1) (metis suffixI split_block_append)

lemma sort_tuples_length: "length (sort_tuples s xs) \<le> length xs"
proof -
  have "length (sort_by lt xs) = length xs" for lt by (metis mset_sort_by size_mset)
  then show ?thesis by (simp add: sort_tuples_def Let_def)
qed

lemma rows_bound2: "wf fuel v x \<Longrightarrow> length (rows v x) + 2 \<le> fuel"
proof (induction x)
  case (SortEx p s)
  then show ?case using sort_tuples_length [of s "rows v p"] by simp
qed auto

lemma rows_bound: "wf fuel v x \<Longrightarrow> length (rows v x) < fuel"
  using rows_bound2 by fastforce

lemma sort_tuples_upd [simp]: "sort_tuples (s\<lparr>s_cursor := i\<rparr>) = sort_tuples s" "sort_tuples (s\<lparr>s_tuples := ts\<rparr>) = sort_tuples s"
  by (simp_all add: sort_tuples_def [abs_def] cong: if_cong)

lemma suffix_set: "suffix xs ys \<Longrightarrow> set xs \<subseteq> set ys"
  by (auto simp: suffix_def)

section \<open>The nested loop join over children that keep the contract\<close>

locale iterator =
  fixes ops :: ex_ops and fuel :: nat and depth :: nat
  assumes begin_goes: "sm_inv st \<Longrightarrow> wf fuel (view st) x \<Longrightarrow> height x \<le> depth \<Longrightarrow> goes fuel st x (rows (view st) x) (op_begin ops x st)"
    and next_goes: "sm_inv st \<Longrightarrow> wf fuel (view st) x \<Longrightarrow> height x \<le> depth \<Longrightarrow> settled (view st) x \<Longrightarrow>
      goes fuel st x (tl (rest (view st) x)) (op_next ops x st)"
    and Next_gives: "sm_inv st \<Longrightarrow> wf fuel (view st) x \<Longrightarrow> height x \<le> depth \<Longrightarrow> settled (view st) x \<Longrightarrow>
      gives fuel st x (op_Next ops x st)"
    and is_end_iff: "sm_inv st \<Longrightarrow> wf fuel (view st) x \<Longrightarrow> height x \<le> depth \<Longrightarrow> settled (view st) x \<Longrightarrow>
      op_is_end ops x st \<longleftrightarrow> rest (view st) x = []"
begin

text \<open>The state in which a child is used: on a row, in a database that is as it was.\<close>

definition ready :: "db_view \<Rightarrow> sm_state \<Rightarrow> executor \<Rightarrow> bool" where
  "ready v st x \<longleftrightarrow> sm_inv st \<and> view st = v \<and> wf fuel v x \<and> height x \<le> depth \<and> settled v x"

lemma next_ready:
  assumes "ready v st x"
  shows "\<exists>x' st'. op_next ops x st = (Inr x', st') \<and> calm st st' \<and> ready v st' x' \<and> alike fuel v x x' \<and> rest v x' = tl (rest v x)"
proof -
  have r: "sm_inv st" "view st = v" "wf fuel v x" "height x \<le> depth" "settled v x" using assms by (simp_all add: ready_def)
  obtain x' st' where n: "op_next ops x st = (Inr x', st')" "calm st st'" "alike fuel v x x'" "settled v x'" "rest v x' = tl (rest v x)"
    using next_goes [of st x] r unfolding goes_def by auto
  then show ?thesis using r sm_inv_calm [OF r(1) n(2)] calm_view [OF n(2)] by (auto simp: ready_def alike_def)
qed

lemma Next_ready:
  assumes "ready v st x"
  shows "\<exists>x' st'. op_Next ops x st = (Inr (first (rest v x), x'), st') \<and> calm st st' \<and> ready v st' x' \<and> alike fuel v x x' \<and> rest v x' = rest v x"
proof -
  have r: "sm_inv st" "view st = v" "wf fuel v x" "height x \<le> depth" "settled v x" using assms by (simp_all add: ready_def)
  obtain x' st' where n: "op_Next ops x st = (Inr (first (rest v x), x'), st')" "calm st st'" "alike fuel v x x'" "settled v x'" "rest v x' = rest v x"
    using Next_gives [of st x] r unfolding gives_def by auto
  then show ?thesis using r sm_inv_calm [OF r(1) n(2)] calm_view [OF n(2)] by (auto simp: ready_def alike_def)
qed

lemma begin_ready:
  assumes "sm_inv st" and "wf fuel (view st) x" and "height x \<le> depth"
  shows "\<exists>x' st'. op_begin ops x st = (Inr x', st') \<and> calm st st' \<and> ready (view st) st' x' \<and> alike fuel (view st) x x' \<and>
    rest (view st) x' = rows (view st) x"
proof -
  obtain x' st' where n: "op_begin ops x st = (Inr x', st')" "calm st st'" "alike fuel (view st) x x'" "settled (view st) x'"
    "rest (view st) x' = rows (view st) x"
    using begin_goes [OF assms] unfolding goes_def by auto
  then show ?thesis using assms sm_inv_calm [OF assms(1) n(2)] calm_view [OF n(2)] by (auto simp: ready_def alike_def)
qed

lemma end_ready: "ready v st x \<Longrightarrow> op_is_end ops x st \<longleftrightarrow> rest v x = []"
  using is_end_iff by (auto simp: ready_def)

lemma ready_calm: "ready v st x \<Longrightarrow> calm st st' \<Longrightarrow> ready v st' x"
  using sm_inv_calm calm_view by (auto simp: ready_def)

lemma load_left_block_spec:
  assumes "ready v st l" and "length (rest v l) < k"
  shows "\<exists>l' st'. load_left_block ops k used l block st = (Inr (block @ fst (split_block used (rest v l)), l'), st') \<and> calm st st' \<and>
    ready v st' l' \<and> alike fuel v l l' \<and> rest v l' = snd (split_block used (rest v l))"
  using assms
proof (induction k arbitrary: st l used block)
  case (Suc k)
  note e = end_ready [OF Suc.prems(1)]
  have w: "files_ok st" "wf fuel v l" using Suc.prems(1) sm_invD(1) by (auto simp: ready_def)
  show ?case
  proof (cases "rest v l")
    case Nil
    then show ?thesis using e Suc.prems(1) calm_refl [OF w(1)] alike_refl [OF w(2)] by (intro exI [of _ l] exI [of _ st]) simp
  next
    case (Cons x xs)
    obtain l1 st1 where n: "op_Next ops l st = (Inr (Some x, l1), st1)" "calm st st1" "ready v st1 l1" "alike fuel v l l1" "rest v l1 = x # xs"
      using Next_ready [OF Suc.prems(1)] Cons by auto
    obtain l2 st2 where m: "op_next ops l1 st1 = (Inr l2, st2)" "calm st1 st2" "ready v st2 l2" "alike fuel v l1 l2" "rest v l2 = xs"
      using next_ready [OF n(3)] n(5) by auto
    note c = calm_trans [OF n(2) m(2)] and a = alike_trans [OF n(4) m(4)]
    have run: "load_left_block ops (Suc k) used l block st =
        (if used + length x \<ge> JOIN_BUFFER_BYTES then ret (block @ [x], l2) else load_left_block ops k (used + length x) l2 (block @ [x])) st2"
      using e Cons n(1) m(1) by simp
    show ?thesis
    proof (cases "used + length x \<ge> JOIN_BUFFER_BYTES")
      case True
      then show ?thesis using run Cons m(3,5) c a by (intro exI [of _ l2] exI [of _ st2]) simp
    next
      case False
      have "length (rest v l2) < k" using Suc.prems(2) Cons m(5) by simp
      then obtain l' st' where I: "load_left_block ops k (used + length x) l2 (block @ [x]) st2 =
          (Inr ((block @ [x]) @ fst (split_block (used + length x) xs), l'), st')" "calm st2 st'" "ready v st' l'" "alike fuel v l2 l'"
          "rest v l' = snd (split_block (used + length x) xs)"
        using Suc.IH [OF m(3)] m(5) by blast
      then show ?thesis using run False Cons calm_trans [OF c I(2)] alike_trans [OF a I(4)]
        by (intro exI [of _ l'] exI [of _ st']) simp
    qed
  qed
qed simp

lemma sort_collect_spec:
  assumes "ready v st p" and "length (rest v p) < k"
  shows "\<exists>p' st'. sort_collect ops k p acc st = (Inr (acc @ rest v p, p'), st') \<and> calm st st' \<and> alike fuel v p p'"
  using assms
proof (induction k arbitrary: st p acc)
  case (Suc k)
  note e = end_ready [OF Suc.prems(1)]
  have w: "files_ok st" "wf fuel v p" using Suc.prems(1) sm_invD(1) by (auto simp: ready_def)
  show ?case
  proof (cases "rest v p")
    case Nil
    then show ?thesis using e calm_refl [OF w(1)] alike_refl [OF w(2)] by (intro exI [of _ p] exI [of _ st]) simp
  next
    case (Cons x xs)
    obtain p1 st1 where n: "op_Next ops p st = (Inr (Some x, p1), st1)" "calm st st1" "ready v st1 p1" "alike fuel v p p1" "rest v p1 = x # xs"
      using Next_ready [OF Suc.prems(1)] Cons by auto
    obtain p2 st2 where m: "op_next ops p1 st1 = (Inr p2, st2)" "calm st1 st2" "ready v st2 p2" "alike fuel v p1 p2" "rest v p2 = xs"
      using next_ready [OF n(3)] n(5) by auto
    have "length (rest v p2) < k" using Suc.prems(2) Cons m(5) by simp
    then obtain p' st' where I: "sort_collect ops k p2 (acc @ [x]) st2 = (Inr ((acc @ [x]) @ xs, p'), st')" "calm st2 st'" "alike fuel v p2 p'"
      using Suc.IH [OF m(3)] m(5) by blast
    have "sort_collect ops (Suc k) p acc st = (Inr (acc @ rest v p, p'), st')" using e Cons n(1) m(1) I(1) by simp
    then show ?thesis using calm_trans [OF calm_trans [OF n(2) m(2)] I(2)] alike_trans [OF alike_trans [OF n(4) m(4)] I(3)] by blast
  qed
qed simp

definition right_ok :: "db_view \<Rightarrow> executor \<Rightarrow> NestedLoopJoin \<Rightarrow> bool" where
  "right_ok v r j \<longleftrightarrow> j_right j = None \<or> rest v r \<noteq> [] \<and> j_right j = Some (hd (rest v r))"

definition found_ok :: "db_view \<Rightarrow> (byte list list \<Rightarrow> byte list \<Rightarrow> byte list list) \<Rightarrow> byte list list \<Rightarrow> executor \<Rightarrow> NestedLoopJoin \<Rightarrow> bool" where
  "found_ok v M rs r j \<longleftrightarrow>
     j_current j = Some (hd rs) \<and> \<not> j_isend j \<and> rest v r \<noteq> [] \<and> j_right j = Some (hd (rest v r)) \<and>
     pending M (j_block j) (j_cursor j) (rest v r) = tl rs"

lemma right_loop_spec:
  assumes "ready v st r" and "right_ok v r j" and "length (rest v r) < k"
    and "\<forall>a\<in>set (j_block j). \<forall>b\<in>set (rest v r). \<not> isl (eval_conditions (j_cols j) (j_conds j) (join_rec l r a b))"
    and "rs = pending (matches l r j) (j_block j) (j_cursor j) (rest v r)"
  shows "\<exists>r' j' st'. right_loop ops k (tupleLen l) r j st = (Inr (rs \<noteq> [], r', j'), st') \<and> calm st st' \<and> ready v st' r' \<and>
    alike fuel v r r' \<and> same_join j j' \<and> j_block j' = j_block j \<and> suffix (rest v r') (rest v r) \<and>
    (rs \<noteq> [] \<longrightarrow> found_ok v (matches l r j) rs r' j')"
  using assms
proof (induction k arbitrary: st r j)
  case (Suc k)
  note e = end_ready [OF Suc.prems(1)]
  have w: "files_ok st" "wf fuel v r" using Suc.prems(1) sm_invD(1) by (auto simp: ready_def)
  show ?case
  proof (cases "rest v r")
    case Nil
    then show ?thesis using e Suc.prems calm_refl [OF w(1)] alike_refl [OF w(2)]
      by (intro exI [of _ r] exI [of _ j] exI [of _ st]) (simp add: same_join_def)
  next
    case (Cons b bs)
    let ?j1 = "j\<lparr>j_right := Some b\<rparr>" and ?M = "matches l r j"
    obtain r1 st1 where n: "(if j_right j = None then bind_e (op_Next ops r) (\<lambda>(rec, r1). ret (r1, j\<lparr>j_right := rec\<rparr>)) else ret (r, j)) st =
        (Inr (r1, ?j1), st1)" "calm st st1" "ready v st1 r1" "alike fuel v r r1" "rest v r1 = b # bs"
    proof (cases "j_right j = None")
      case True
      then show thesis using that Next_ready [OF Suc.prems(1)] Cons by auto
    next
      case False
      then have "?j1 = j" using Suc.prems(2) Cons by (auto simp: right_ok_def)
      then show thesis using that [of r st] False Suc.prems(1) Cons calm_refl [OF w(1)] alike_refl [OF w(2)] by auto
    qed
    have M1: "matches l r1 ?j1 = ?M" using n(4) by (intro matches_cong) (simp_all add: alike_def same_join_def)
    have T1: "tupleLen r1 = tupleLen r" "join_rec l r1 = join_rec l r" using n(4) by (simp_all add: alike_def join_rec_def [abs_def])
    let ?ls = "drop (j_cursor j) (j_block j)"
    have "\<forall>a\<in>set ?ls. \<not> isl (eval_conditions (j_cols ?j1) (j_conds ?j1) (join_rec l r1 a b))"
      using Suc.prems(4) Cons T1(2) by (auto dest: in_set_dropD)
    then obtain i where m: "match_block (tupleLen l) (tupleLen r1) ?j1 (j_cursor j) ?ls = Inr (i, first (?M ?ls b))" "j_cursor j \<le> i"
      "?M ?ls b \<noteq> [] \<longrightarrow> ?M (drop (i - j_cursor j) ?ls) b = tl (?M ?ls b)"
      using match_block_spec [of ?j1 b ?ls l r1 "j_cursor j"] unfolding M1 by auto
    have run: "right_loop ops (Suc k) (tupleLen l) r j st =
      (case first (?M ?ls b) of
         Some rec \<Rightarrow> ret (True, r1, ?j1\<lparr>j_cursor := i, j_current := Some rec, j_isend := False\<rparr>)
       | None \<Rightarrow> bind_e (op_next ops r1) (\<lambda>r2. right_loop ops k (tupleLen l) r2 (j\<lparr>j_right := None, j_cursor := 0\<rparr>))) st1"
      using e Cons n(1) m(1) by simp
    have rs: "rs = ?M ?ls b @ concat (map (?M (j_block j)) bs)" using Suc.prems(5) Cons by simp
    show ?thesis
    proof (cases "?M ?ls b")
      case (Cons rec recs)
      let ?j' = "?j1\<lparr>j_cursor := i, j_current := Some rec, j_isend := False\<rparr>"
      have "?M (drop i (j_block j)) b = recs" using m(2,3) Cons by simp
      then have "found_ok v ?M rs r1 ?j'" using n(5) rs Cons by (simp add: found_ok_def)
      then show ?thesis using run Cons rs n \<open>rest v r = b # bs\<close>
        by (intro exI [of _ r1] exI [of _ ?j'] exI [of _ st1]) (simp add: same_join_def)
    next
      case Nil
      let ?j2 = "j\<lparr>j_right := None, j_cursor := 0\<rparr>"
      obtain r2 st2 where q: "op_next ops r1 st1 = (Inr r2, st2)" "calm st1 st2" "ready v st2 r2" "alike fuel v r1 r2" "rest v r2 = bs"
        using next_ready [OF n(3)] n(5) by auto
      have a2: "alike fuel v r r2" by (rule alike_trans [OF n(4) q(4)])
      have M2: "matches l r2 ?j2 = ?M" using a2 by (intro matches_cong) (simp_all add: alike_def same_join_def)
      have T2: "join_rec l r2 = join_rec l r" using a2 by (simp add: alike_def join_rec_def [abs_def])
      have "rs = pending (matches l r2 ?j2) (j_block ?j2) (j_cursor ?j2) (rest v r2)" using rs Nil q(5) unfolding M2 by (simp add: pending_0)
      moreover have "\<forall>a\<in>set (j_block ?j2). \<forall>b\<in>set (rest v r2). \<not> isl (eval_conditions (j_cols ?j2) (j_conds ?j2) (join_rec l r2 a b))"
        using Suc.prems(4) Cons q(5) T2 by simp
      moreover have "right_ok v r2 ?j2" "length (rest v r2) < k" using Suc.prems(3) Cons q(5) by (simp_all add: right_ok_def)
      ultimately obtain r' j' st' where I: "right_loop ops k (tupleLen l) r2 ?j2 st2 = (Inr (rs \<noteq> [], r', j'), st')" "calm st2 st'" "ready v st' r'"
        "alike fuel v r2 r'" "same_join ?j2 j'" "j_block j' = j_block ?j2" "suffix (rest v r') (rest v r2)"
        "rs \<noteq> [] \<longrightarrow> found_ok v (matches l r2 ?j2) rs r' j'"
        using Suc.IH [OF q(3), of ?j2] by blast
      have "right_loop ops (Suc k) (tupleLen l) r j st = (Inr (rs \<noteq> [], r', j'), st')" using run Nil q(1) I(1) by simp
      moreover have "suffix (rest v r') (rest v r)" using I(7) q(5) \<open>rest v r = b # bs\<close> by (simp add: suffix_ConsI)
      ultimately show ?thesis using calm_trans [OF calm_trans [OF n(2) q(2)] I(2)] alike_trans [OF a2 I(4)] I(3,5,6,8) unfolding M2
        by (intro exI [of _ r'] exI [of _ j'] exI [of _ st']) (simp add: same_join_def)
    qed
  qed
qed simp

text \<open>The rows a join still has to give when its current tuple is used up.\<close>

definition to_come :: "db_view \<Rightarrow> executor \<Rightarrow> executor \<Rightarrow> NestedLoopJoin \<Rightarrow> byte list list" where
  "to_come v l r j =
     (if j_block j = [] then [] else pending (matches l r j) (j_block j) (j_cursor j) (rest v r)) @
     join_all (matches l r j) (rest v l) (rows v r)"

definition block_ok :: "db_view \<Rightarrow> sm_state \<Rightarrow> executor \<Rightarrow> executor \<Rightarrow> NestedLoopJoin \<Rightarrow> bool" where
  "block_ok v st l r j \<longleftrightarrow>
     ready v st r \<and> right_ok v r j \<and> suffix (rest v r) (rows v r) \<and> set (j_block j) \<subseteq> set (rows v l)"

lemma after_block:
  assumes w: "wf fuel v (JoinEx l r j)" and l: "ready v st l" "suffix (rest v l) (rows v l)" and b: "j_block j \<noteq> []" "block_ok v st l r j"
  shows "\<exists>r' j' st' found. right_loop ops fuel (tupleLen l) r j st = (Inr (found, r', j'), st') \<and> calm st st' \<and> ready v st' l \<and>
    alike fuel v r r' \<and> same_join j j' \<and>
    (if found then settled v (JoinEx l r' j') \<and> rest v (JoinEx l r' j') = to_come v l r j
     else to_come v l r' (j'\<lparr>j_block := []\<rparr>) = to_come v l r j)"
proof -
  let ?rs = "pending (matches l r j) (j_block j) (j_cursor j) (rest v r)"
  have r: "ready v st r" "right_ok v r j" "suffix (rest v r) (rows v r)" "set (j_block j) \<subseteq> set (rows v l)"
    using b(2) by (simp_all add: block_ok_def)
  have ev: "\<forall>a\<in>set (j_block j). \<forall>b\<in>set (rest v r). \<not> isl (eval_conditions (j_cols j) (j_conds j) (join_rec l r a b))"
    using w r(4) suffix_set [OF r(3)] by auto
  have k: "length (rest v r) < fuel"
  proof -
    have "length (rows v r) < fuel" using r(1) rows_bound [of fuel v r] by (simp add: ready_def)
    then show ?thesis using suffix_length_le [OF r(3)] by simp
  qed
  obtain r' j' st' where F: "right_loop ops fuel (tupleLen l) r j st = (Inr (?rs \<noteq> [], r', j'), st')" "calm st st'" "ready v st' r'"
    "alike fuel v r r'" "same_join j j'" "j_block j' = j_block j" "suffix (rest v r') (rest v r)" "?rs \<noteq> [] \<longrightarrow> found_ok v (matches l r j) ?rs r' j'"
    using right_loop_spec [OF r(1,2) k ev refl] by blast
  have l': "ready v st' l" by (rule ready_calm [OF l(1) F(2)])
  have rw: "rows v r' = rows v r" "tupleLen r' = tupleLen r" using F(4) by (simp_all add: alike_def)
  have M: "matches l r' j' = matches l r j" by (rule matches_cong [OF refl rw(2) F(5)])
  show ?thesis
  proof (cases "?rs = []")
    case True
    have "matches l r' (j'\<lparr>j_block := []\<rparr>) = matches l r j" by (rule matches_cong [OF refl rw(2)]) (use F(5) in \<open>simp add: same_join_def\<close>)
    then have "to_come v l r' (j'\<lparr>j_block := []\<rparr>) = to_come v l r j" using True b(1) rw by (simp add: to_come_def)
    then show ?thesis using F True l' by (intro exI [of _ r'] exI [of _ j'] exI [of _ st'] exI [of _ False]) simp
  next
    case False
    then have f: "found_ok v (matches l r j) ?rs r' j'" using F(8) by simp
    have "suffix (rest v r') (rows v r')" using suffix_order.trans [OF F(7) r(3)] rw(1) by simp
    then have "settled v (JoinEx l r' j')" using f l r(4) b(1) F(3,6) by (simp add: found_ok_def ready_def)
    moreover have "rest v (JoinEx l r' j') = to_come v l r j" using f False M b(1) F(6) rw(1) by (simp add: found_ok_def to_come_def)
    ultimately show ?thesis using F False l' by (intro exI [of _ r'] exI [of _ j'] exI [of _ st'] exI [of _ True]) simp
  qed
qed

definition load_block :: "executor \<Rightarrow> executor \<Rightarrow> NestedLoopJoin \<Rightarrow> (bool \<times> executor \<times> executor \<times> NestedLoopJoin) sm_op" where
  "load_block l r j =
     bind_e (load_left_block ops fuel 0 l []) (\<lambda>(block, l1).
       if block = [] then ret (False, l1, r, j\<lparr>j_isend := True, j_cursor := 0\<rparr>)
       else bind_e (op_begin ops r) (\<lambda>r1. ret (True, l1, r1, j\<lparr>j_block := block, j_cursor := 0, j_right := None\<rparr>)))"

lemma load_block_spec:
  assumes w: "wf fuel v (JoinEx l r j)" and l: "ready v st l" "suffix (rest v l) (rows v l)" and b: "j_block j = []"
    and r: "height r \<le> depth"
  shows "\<exists>l' r' j' st'. load_block l r j st = (Inr (rest v l \<noteq> [], l', r', j'), st') \<and> calm st st' \<and> ready v st' l' \<and>
    alike fuel v l l' \<and> alike fuel v r r' \<and> same_join j j' \<and> suffix (rest v l') (rows v l') \<and>
    (if rest v l = [] then j_isend j'
     else j_block j' \<noteq> [] \<and> length (rest v l') < length (rest v l) \<and> block_ok v st' l' r' j' \<and> to_come v l' r' j' = to_come v l r j)"
proof -
  have wl: "wf fuel v l" "wf fuel v r" using w by simp_all
  have "length (rows v l) < fuel" using rows_bound [OF wl(1)] .
  then have "length (rest v l) < fuel" using suffix_length_le [OF l(2)] by simp
  then obtain l' st1 where L: "load_left_block ops fuel 0 l [] st = (Inr ([] @ fst (split_block 0 (rest v l)), l'), st1)" "calm st st1"
    "ready v st1 l'" "alike fuel v l l'" "rest v l' = snd (split_block 0 (rest v l))"
    using load_left_block_spec [OF l(1)] by blast
  let ?b = "fst (split_block 0 (rest v l))"
  have sl: "suffix (rest v l') (rows v l')" using suffix_order.trans [OF split_block_parts(2) l(2)] L(4,5) by (simp add: alike_def)
  show ?thesis
  proof (cases "rest v l = []")
    case True
    let ?j = "j\<lparr>j_isend := True, j_cursor := 0\<rparr>"
    have "load_block l r j st = (Inr (False, l', r, ?j), st1)" using L(1) True by (simp add: load_block_def)
    then show ?thesis using True L sl alike_refl [OF wl(2)]
      by (intro exI [of _ l'] exI [of _ r] exI [of _ ?j] exI [of _ st1]) (simp add: same_join_def)
  next
    case False
    then have b0: "?b \<noteq> []" by (cases "rest v l") auto
    have v1: "view st1 = v" "sm_inv st1" using L(3) by (simp_all add: ready_def)
    obtain r' st2 where R: "op_begin ops r st1 = (Inr r', st2)" "calm st1 st2" "ready v st2 r'" "alike fuel v r r'" "rest v r' = rows v r"
      using begin_ready [OF v1(2), of r] v1(1) wl(2) r by auto
    let ?j = "j\<lparr>j_block := ?b, j_cursor := 0, j_right := None\<rparr>"
    have sj: "same_join j ?j" by (simp add: same_join_def)
    have rw: "rows v r' = rows v r" "rows v l' = rows v l" "tupleLen r' = tupleLen r" "tupleLen l' = tupleLen l" using R(4) L(4) by (simp_all add: alike_def)
    have M: "matches l' r' ?j = matches l r j" by (rule matches_cong [OF rw(4,3) sj])
    have "load_block l r j st = (Inr (True, l', r', ?j), st2)" using L(1) R(1) b0 by (simp add: load_block_def)
    moreover have "block_ok v st2 l' r' ?j"
      using R(3,5) rw split_block_parts(1) [of 0 "rest v l"] suffix_set [OF l(2)] by (auto simp: block_ok_def right_ok_def)
    moreover have "to_come v l' r' ?j = to_come v l r j"
      using b0 b False R(5) L(5) rw(1) M join_all_step [OF False, of "matches l r j" "rows v r"] by (simp add: to_come_def)
    moreover have "length (rest v l') < length (rest v l)" using split_block_less [OF False] L(5) by simp
    ultimately show ?thesis using False b0 calm_trans [OF L(2) R(2)] ready_calm [OF L(3) R(2)] L(4) R(4) sj sl
      by (intro exI [of _ l'] exI [of _ r'] exI [of _ ?j] exI [of _ st2]) simp
  qed
qed

definition continue :: "nat \<Rightarrow> executor \<Rightarrow> executor \<Rightarrow> NestedLoopJoin \<Rightarrow> executor sm_op" where
  "continue k l r j =
     bind_e (right_loop ops fuel (tupleLen l) r j) (\<lambda>(found, r2, j2).
       if found then ret (JoinEx l r2 j2) else match_loop ops fuel k l r2 (j2\<lparr>j_block := []\<rparr>))"

lemma match_loop_Suc:
  "match_loop ops fuel (Suc k) l r j =
     bind_e (if j_block j = [] then load_block l r j else ret (True, l, r, j)) (\<lambda>(go, l1, r1, j1).
       if \<not> go then ret (JoinEx l1 r1 j1) else continue k l1 r1 j1)"
  unfolding match_loop.simps load_block_def continue_def by (rule refl)

definition joins :: "db_view \<Rightarrow> executor \<Rightarrow> executor \<Rightarrow> NestedLoopJoin \<Rightarrow> sm_state \<Rightarrow> (rmdb_error + executor) \<times> sm_state \<Rightarrow> bool" where
  "joins v l r j st res \<longleftrightarrow>
     (\<exists>x' st'. res = (Inr x', st') \<and> calm st st' \<and> alike fuel v (JoinEx l r j) x' \<and> settled v x' \<and> rest v x' = to_come v l r j)"

lemma joins_later:
  assumes "joins v l' r' j' st' res" and "calm st st'" and "alike fuel v (JoinEx l r j) (JoinEx l' r' j')"
    and "to_come v l' r' j' = to_come v l r j"
  shows "joins v l r j st res"
  using assms calm_trans alike_trans unfolding joins_def by (metis (no_types, lifting))

lemma continue_spec:
  assumes loop: "\<And>st l r j. wf fuel v (JoinEx l r j) \<Longrightarrow> height r \<le> depth \<Longrightarrow> ready v st l \<Longrightarrow> suffix (rest v l) (rows v l) \<Longrightarrow>
      j_block j = [] \<Longrightarrow> length (rest v l) < k \<Longrightarrow> joins v l r j st (match_loop ops fuel k l r j st)"
    and w: "wf fuel v (JoinEx l r j)" and l: "ready v st l" "suffix (rest v l) (rows v l)" and b: "j_block j \<noteq> []" "block_ok v st l r j"
    and k: "length (rest v l) < k"
  shows "joins v l r j st (continue k l r j st)"
proof -
  obtain r' j' st' found where F: "right_loop ops fuel (tupleLen l) r j st = (Inr (found, r', j'), st')" "calm st st'" "ready v st' l"
    "alike fuel v r r'" "same_join j j'"
    "if found then settled v (JoinEx l r' j') \<and> rest v (JoinEx l r' j') = to_come v l r j
     else to_come v l r' (j'\<lparr>j_block := []\<rparr>) = to_come v l r j"
    using after_block [OF w l b] by blast
  have wl: "wf fuel v l" using w by simp
  show ?thesis
  proof (cases found)
    case True
    have "alike fuel v (JoinEx l r j) (JoinEx l r' j')" by (rule join_alike [OF w alike_refl [OF wl] F(4,5)])
    then show ?thesis using F True unfolding joins_def continue_def by (intro exI [of _ "JoinEx l r' j'"] exI [of _ st']) simp
  next
    case False
    let ?j = "j'\<lparr>j_block := []\<rparr>"
    have sj: "same_join j ?j" using F(5) by (simp add: same_join_def)
    have a: "alike fuel v (JoinEx l r j) (JoinEx l r' ?j)" by (rule join_alike [OF w alike_refl [OF wl] F(4) sj])
    have "height r' \<le> depth" using F(4) b(2) by (simp add: alike_def block_ok_def ready_def)
    moreover have "wf fuel v (JoinEx l r' ?j)" using a unfolding alike_def by blast
    ultimately have "joins v l r' ?j st' (match_loop ops fuel k l r' ?j st')" by (intro loop F(3) l(2) k) simp_all
    then show ?thesis using joins_later [OF _ F(2) a] F(1,6) False by (simp add: continue_def)
  qed
qed

lemma match_loop_empty:
  assumes "wf fuel v (JoinEx l r j)" and "height r \<le> depth" and "ready v st l" and "suffix (rest v l) (rows v l)"
    and "j_block j = []" and "length (rest v l) < k"
  shows "joins v l r j st (match_loop ops fuel k l r j st)"
  using assms
proof (induction k arbitrary: st l r j)
  case (Suc k)
  note P = Suc.prems
  obtain l' r' j' st' where L: "load_block l r j st = (Inr (rest v l \<noteq> [], l', r', j'), st')" "calm st st'" "ready v st' l'"
    "alike fuel v l l'" "alike fuel v r r'" "same_join j j'" "suffix (rest v l') (rows v l')"
    "if rest v l = [] then j_isend j'
     else j_block j' \<noteq> [] \<and> length (rest v l') < length (rest v l) \<and> block_ok v st' l' r' j' \<and> to_come v l' r' j' = to_come v l r j"
    using load_block_spec [OF P(1,3,4,5,2)] by blast
  have a: "alike fuel v (JoinEx l r j) (JoinEx l' r' j')" by (rule join_alike [OF P(1) L(4-6)])
  show ?case
  proof (cases "rest v l = []")
    case True
    then have "match_loop ops fuel (Suc k) l r j st = (Inr (JoinEx l' r' j'), st')" using L(1) P(5) by (simp add: match_loop_Suc del: match_loop.simps)
    then show ?thesis using True L(2,8) a P(5)
      unfolding joins_def by (intro exI [of _ "JoinEx l' r' j'"] exI [of _ st']) (simp add: to_come_def)
  next
    case False
    then have "match_loop ops fuel (Suc k) l r j st = continue k l' r' j' st'" using L(1) P(5) by (simp add: match_loop_Suc del: match_loop.simps)
    moreover have "joins v l' r' j' st' (continue k l' r' j' st')"
      by (rule continue_spec [OF Suc.IH _ L(3,7)]) (use a L(8) False P(6) in \<open>auto simp: alike_def\<close>)
    ultimately show ?thesis using joins_later [OF _ L(2) a] L(8) False by simp
  qed
qed simp

lemma advance_goes:
  assumes v: "v = view st" and w: "wf fuel v (JoinEx l r j)" and r: "height r \<le> depth" and l: "ready v st l" "suffix (rest v l) (rows v l)"
    and b: "j_block j \<noteq> [] \<Longrightarrow> block_ok v st l r j"
  shows "goes fuel st (JoinEx l r j) (to_come v l r j) (advance_to_match ops fuel l r j st)"
proof -
  let ?j = "j\<lparr>j_current := None\<rparr>"
  have wl: "wf fuel v l" "wf fuel v r" using w by simp_all
  have sj: "same_join j ?j" by (simp add: same_join_def)
  have a: "alike fuel v (JoinEx l r j) (JoinEx l r ?j)" by (rule join_alike [OF w alike_refl [OF wl(1)] alike_refl [OF wl(2)] sj])
  have w': "wf fuel v (JoinEx l r ?j)" using a unfolding alike_def by blast
  have t: "to_come v l r ?j = to_come v l r j" by (simp add: to_come_def matches_cong [OF refl refl sj])
  have len: "length (rest v l) + 1 < fuel"
  proof -
    have "length (rows v l) + 1 < fuel" using rows_bound2 [OF wl(1)] by simp
    then show ?thesis using suffix_length_le [OF l(2)] by simp
  qed
  then obtain k where k: "fuel = Suc k" "length (rest v l) < k" by (cases fuel) auto
  have "joins v l r ?j st (match_loop ops fuel fuel l r ?j st)"
  proof (cases "j_block j = []")
    case True
    then show ?thesis using len by (intro match_loop_empty w' r l) simp_all
  next
    case False
    have "block_ok v st l r ?j" using b [OF False] by (simp add: block_ok_def right_ok_def)
    then have "joins v l r ?j st (continue k l r ?j st)" using False by (intro continue_spec match_loop_empty w' l k(2)) simp_all
    moreover have "match_loop ops fuel (Suc k) l r ?j st = continue k l r ?j st" using False by (simp add: match_loop_Suc del: match_loop.simps)
    ultimately show ?thesis using k(1) by simp
  qed
  then have "joins v l r j st (match_loop ops fuel fuel l r ?j st)"
    using joins_later [OF _ _ a t] calm_refl [of st] l(1) sm_invD(1) by (simp add: ready_def)
  then show ?thesis unfolding goes_def joins_def advance_to_match_def v by blast
qed

lemma goes_alike:
  assumes "goes fuel st1 x1 rs res" and "calm st st1" and "alike fuel (view st) x x1"
  shows "goes fuel st x rs res"
  using assms calm_trans [OF assms(2)] alike_trans [OF assms(3)] unfolding goes_def calm_view [OF assms(2)] by blast

lemma join_begin_goes:
  assumes inv: "sm_inv st" and w: "wf fuel (view st) (JoinEx l r j)" and h: "height l \<le> depth" "height r \<le> depth"
  shows "goes fuel st (JoinEx l r j) (rows (view st) (JoinEx l r j)) (join_beginTuple ops fuel l r j st)"
proof -
  let ?v = "view st" and ?j = "j\<lparr>j_block := [], j_right := None, j_current := None, j_cursor := 0\<rparr>"
  have wl: "wf fuel ?v l" "wf fuel ?v r" using w by simp_all
  obtain l1 st1 where L: "op_begin ops l st = (Inr l1, st1)" "calm st st1" "ready ?v st1 l1" "alike fuel ?v l l1" "rest ?v l1 = rows ?v l"
    using begin_ready [OF inv wl(1) h(1)] by blast
  have sj: "same_join j ?j" by (simp add: same_join_def)
  have a: "alike fuel ?v (JoinEx l r j) (JoinEx l1 r ?j)" by (rule join_alike [OF w L(4) alike_refl [OF wl(2)] sj])
  have rw: "rows ?v l1 = rows ?v l" "tupleLen l1 = tupleLen l" using L(4) by (simp_all add: alike_def)
  have t: "to_come ?v l1 r ?j = rows ?v (JoinEx l r j)" using L(5) matches_cong [OF rw(2) refl sj] by (simp add: to_come_def)
  have "goes fuel st1 (JoinEx l1 r ?j) (to_come ?v l1 r ?j) (advance_to_match ops fuel l1 r ?j st1)"
  proof (rule advance_goes [OF _ _ h(2) L(3)])
    show "?v = view st1" using calm_view [OF L(2)] by simp
    show "wf fuel ?v (JoinEx l1 r ?j)" using a unfolding alike_def by blast
    show "suffix (rest ?v l1) (rows ?v l1)" using L(5) rw(1) by simp
  qed simp
  then show ?thesis using goes_alike [OF _ L(2) a] L(1) unfolding t by (simp add: join_beginTuple_def)
qed

lemma join_next_goes:
  assumes inv: "sm_inv st" and w: "wf fuel (view st) (JoinEx l r j)" and h: "height l \<le> depth" "height r \<le> depth"
    and z: "settled (view st) (JoinEx l r j)"
  shows "goes fuel st (JoinEx l r j) (tl (rest (view st) (JoinEx l r j))) (join_nextTuple ops fuel l r j st)"
proof (cases "j_isend j")
  case True
  then show ?thesis using z calm_refl [OF sm_invD(1) [OF inv]] alike_refl [OF w]
    unfolding goes_def join_nextTuple_def by (intro exI [of _ "JoinEx l r j"] exI [of _ st]) simp
next
  case False
  let ?v = "view st"
  have wl: "wf fuel ?v l" "wf fuel ?v r" using w by simp_all
  have l: "ready ?v st l" "suffix (rest ?v l) (rows ?v l)" using z False inv wl(1) h(1) by (simp_all add: ready_def)
  have b: "j_block j \<noteq> []" "block_ok ?v st l r j" using z False inv wl(2) h(2) by (simp_all add: ready_def block_ok_def right_ok_def)
  have "tl (rest ?v (JoinEx l r j)) = to_come ?v l r j" using False b(1) by (simp add: to_come_def)
  then show ?thesis using advance_goes [OF refl w h(2) l b(2)] False by (simp add: join_nextTuple_def)
qed

lemma projection_goes:
  assumes "goes fuel st p rs res" and "wf fuel (view st) (ProjectionEx p s)"
  shows "goes fuel st (ProjectionEx p s) (map (project (ex_cols p) s) rs) (bind_e (\<lambda>_. res) (\<lambda>p'. ret (ProjectionEx p' s)) st)"
proof -
  obtain p' st' where g: "res = (Inr p', st')" "calm st st'" "alike fuel (view st) p p'" "settled (view st) p'" "rest (view st) p' = rs"
    using assms(1) unfolding goes_def by blast
  then show ?thesis using assms(2) unfolding goes_def
    by (intro exI [of _ "ProjectionEx p' s"] exI [of _ st']) (simp add: alike_def bind_e_app)
qed

lemma sort_begin_goes:
  assumes inv: "sm_inv st" and w: "wf fuel (view st) (SortEx p s)" and h: "height p \<le> depth"
  shows "goes fuel st (SortEx p s) (rows (view st) (SortEx p s)) (sort_beginTuple ops fuel p s st)"
proof -
  let ?v = "view st"
  have wp: "wf fuel ?v p" using w by simp
  obtain p1 st1 where B: "op_begin ops p st = (Inr p1, st1)" "calm st st1" "ready ?v st1 p1" "alike fuel ?v p p1" "rest ?v p1 = rows ?v p"
    using begin_ready [OF inv wp h] by blast
  have "length (rest ?v p1) < fuel" using rows_bound [OF wp] B(5) by simp
  then obtain p2 st2 where C: "sort_collect ops fuel p1 [] st1 = (Inr ([] @ rest ?v p1, p2), st2)" "calm st1 st2" "alike fuel ?v p1 p2"
    using sort_collect_spec [OF B(3)] by blast
  let ?s = "s\<lparr>s_tuples := sort_tuples s (rows ?v p), s_cursor := 0\<rparr>"
  have "sort_beginTuple ops fuel p s st = (Inr (SortEx p2 ?s), st2)" using B(1,5) C(1) by (simp add: sort_beginTuple_def)
  moreover have "alike fuel ?v (SortEx p s) (SortEx p2 ?s)"
    using alike_trans [OF B(4) C(3)] by (simp add: alike_def)
  ultimately show ?thesis using calm_trans [OF B(2) C(2)] unfolding goes_def
    by (intro exI [of _ "SortEx p2 ?s"] exI [of _ st2]) simp
qed

lemma collect_rows:
  assumes "sm_inv st" and "wf fuel (view st) x" and "height x \<le> depth"
  shows "\<exists>st'. bind_e (op_begin ops x) (\<lambda>x1. bind_e (sort_collect ops fuel x1 []) (\<lambda>(rs, x2). ret rs)) st = (Inr (rows (view st) x), st') \<and> calm st st'"
proof -
  obtain x1 st1 where B: "op_begin ops x st = (Inr x1, st1)" "calm st st1" "ready (view st) st1 x1" "rest (view st) x1 = rows (view st) x"
    using begin_ready [OF assms] by blast
  have "length (rest (view st) x1) < fuel" using rows_bound [OF assms(2)] B(4) by simp
  then obtain x2 st2 where C: "sort_collect ops fuel x1 [] st1 = (Inr ([] @ rest (view st) x1, x2), st2)" "calm st1 st2"
    using sort_collect_spec [OF B(3)] by blast
  then show ?thesis using B calm_trans [OF B(2) C(2)] by (intro exI [of _ st2]) simp
qed

lemma node_begin:
  assumes inv: "sm_inv st" and w: "wf fuel (view st) x" and h: "height x \<le> Suc depth"
  shows "goes fuel st x (rows (view st) x) (op_begin (node_ops fuel ops) x st)"
proof (cases x)
  case (ProjectionEx p s)
  then have "goes fuel st p (rows (view st) p) (op_begin ops p st)" using begin_goes [OF inv, of p] w h by simp
  from projection_goes [OF this, of s] show ?thesis using ProjectionEx w by (simp add: node_ops_def bind_e_app)
qed (use seq_begin_goes [OF sm_invD(1) [OF inv]] index_begin_goes [OF sm_invD(1) [OF inv]] join_begin_goes [OF inv] sort_begin_goes [OF inv] w h
     in \<open>simp_all add: node_ops_def del: rows.simps wf.simps\<close>)

lemma sort_next_rest: "rest v (SortEx p (sort_nextTuple s)) = tl (rest v (SortEx p s))"
  by (simp add: sort_nextTuple_def drop_Suc tl_drop)

lemma node_next:
  assumes inv: "sm_inv st" and w: "wf fuel (view st) x" and h: "height x \<le> Suc depth" and z: "settled (view st) x"
  shows "goes fuel st x (tl (rest (view st) x)) (op_next (node_ops fuel ops) x st)"
proof (cases x)
  case (ProjectionEx p s)
  then have "goes fuel st p (tl (rest (view st) p)) (op_next ops p st)" using next_goes [OF inv, of p] w h z by simp
  from projection_goes [OF this, of s] show ?thesis using ProjectionEx w by (simp add: node_ops_def bind_e_app map_tl)
next
  case (SortEx p s)
  have "alike fuel (view st) (SortEx p s) (SortEx p (sort_nextTuple s))" using w SortEx by (simp add: alike_def sort_nextTuple_def)
  then show ?thesis using SortEx calm_refl [OF sm_invD(1) [OF inv]] sort_next_rest unfolding goes_def
    by (intro exI [of _ "SortEx p (sort_nextTuple s)"] exI [of _ st]) (simp add: node_ops_def)
qed (use seq_next_goes [OF sm_invD(1) [OF inv]] index_next_goes [OF sm_invD(1) [OF inv]] join_next_goes [OF inv] w h z
     in \<open>simp_all add: node_ops_def del: rest.simps wf.simps settled.simps\<close>)

lemma node_is_end:
  assumes inv: "sm_inv st" and w: "wf fuel (view st) x" and h: "height x \<le> Suc depth" and z: "settled (view st) x"
  shows "op_is_end (node_ops fuel ops) x st \<longleftrightarrow> rest (view st) x = []"
proof (cases x)
  case (ProjectionEx p s)
  then show ?thesis using is_end_iff [OF inv, of p] w h z by (simp add: node_ops_def)
qed (use seq_Next_gives(2) [OF sm_invD(1) [OF inv]] index_Next_gives(2) [OF sm_invD(1) [OF inv]] w z
     in \<open>simp_all add: node_ops_def sort_is_end_def del: wf.simps settled.simps\<close>)

lemma node_Next:
  assumes inv: "sm_inv st" and w: "wf fuel (view st) x" and h: "height x \<le> Suc depth" and z: "settled (view st) x"
  shows "gives fuel st x (op_Next (node_ops fuel ops) x st)"
proof (cases x)
  case (JoinEx l r j)
  then show ?thesis using w z calm_refl [OF sm_invD(1) [OF inv]] alike_refl [OF w] unfolding gives_def
    by (intro exI [of _ x] exI [of _ st]) (auto simp: node_ops_def join_Next_def)
next
  case (ProjectionEx p s)
  obtain p' st' where n: "op_Next ops p st = (Inr (first (rest (view st) p), p'), st')" "calm st st'" "alike fuel (view st) p p'" "settled (view st) p'"
    "rest (view st) p' = rest (view st) p"
    using Next_gives [OF inv, of p] w h z ProjectionEx unfolding gives_def by auto
  have "first (map f xs) = map_option f (first xs)" for f :: "byte list \<Rightarrow> byte list" and xs by (cases xs) simp_all
  then show ?thesis using n ProjectionEx w unfolding gives_def
    by (intro exI [of _ "ProjectionEx p' s"] exI [of _ st']) (simp add: node_ops_def alike_def)
next
  case (SortEx p s)
  have "sort_Next s = first (drop (s_cursor s) (s_tuples s))"
    by (simp add: sort_Next_def sort_is_end_def not_le flip: Cons_nth_drop_Suc)
  then show ?thesis using SortEx w calm_refl [OF sm_invD(1) [OF inv]] alike_refl [OF w] unfolding gives_def
    by (intro exI [of _ x] exI [of _ st]) (simp add: node_ops_def)
qed (use seq_Next_gives(1) [OF sm_invD(1) [OF inv]] index_Next_gives(1) [OF sm_invD(1) [OF inv]] w z
     in \<open>simp_all add: node_ops_def del: rest.simps wf.simps settled.simps\<close>)

lemma iterator_node: "iterator (node_ops fuel ops) fuel (Suc depth)"
  by unfold_locales (fact node_begin node_next node_Next node_is_end)+

end

lemma no_height_0: "\<not> height x \<le> 0"
  by (cases x) simp_all

lemma iterator_tree: "iterator (tree_ops fuel n) fuel n"
proof (induction n)
  case 0
  show ?case by unfold_locales (use no_height_0 in blast)+
next
  case (Suc n)
  from iterator.iterator_node [OF this] show ?case by simp
qed

interpretation tree: iterator "tree_ops fuel n" fuel n for fuel n
  by (rule iterator_tree)

lemma collect_spec:
  assumes "sm_inv st" and "wf fuel (view st) x"
  shows "\<exists>st'. collect fuel x st = (Inr (rows (view st) x), st') \<and> calm st st'"
  using tree.collect_rows [OF assms order_refl] by (simp add: collect_def Let_def)

end
