(* ===== verification/Query_Answers.thy ===== *)
theory Query_Answers
  imports Query_Tree
begin

text \<open>
  What a query means, independently of how its plan is executed: \<open>answers\<close> relates an operator tree and the contents of the
  tables to the result rows. A scan returns the records that satisfy its conditions, whether it reads the table or an index; a join the
  pairs of rows that satisfy its conditions; a projection the fields of the chosen columns; a sort a stable ordering, cut
  off at the limit. Running the executors gives such a result.
\<close>

section \<open>Sorting\<close>

definition weak_order :: "'a set \<Rightarrow> ('a \<Rightarrow> 'a \<Rightarrow> bool) \<Rightarrow> bool" where
  "weak_order A lt \<longleftrightarrow>
     (\<forall>x\<in>A. \<forall>y\<in>A. lt x y \<longrightarrow> \<not> lt y x) \<and> (\<forall>x\<in>A. \<forall>y\<in>A. \<forall>z\<in>A. \<not> lt x y \<longrightarrow> \<not> lt y z \<longrightarrow> \<not> lt x z)"

lemma weak_orderD:
  assumes "weak_order A lt" and "x \<in> A" and "y \<in> A"
  shows "lt x y \<Longrightarrow> \<not> lt y x" "z \<in> A \<Longrightarrow> \<not> lt x y \<Longrightarrow> \<not> lt y z \<Longrightarrow> \<not> lt x z"
  using assms unfolding weak_order_def by blast+

lemma insert_by_set: "set (insert_by lt x ys) = insert x (set ys)"
  by (induction ys) auto

lemma insert_by_sorted:
  assumes w: "weak_order A lt" and "x \<in> A" and "set ys \<subseteq> A" and "sorted_wrt (\<lambda>a b. \<not> lt b a) ys"
  shows "sorted_wrt (\<lambda>a b. \<not> lt b a) (insert_by lt x ys)"
  using assms(3,4)
proof (induction ys)
  case (Cons y ys)
  have y: "y \<in> A" "set ys \<subseteq> A" "sorted_wrt (\<lambda>a b. \<not> lt b a) ys" "\<forall>z\<in>set ys. \<not> lt z y" using Cons.prems by simp_all
  show ?case
  proof (cases "lt y x")
    case True
    then have "\<not> lt x y" by (rule weak_orderD(1) [OF w y(1) assms(2)])
    then show ?thesis using True Cons.IH [OF y(2,3)] y(4) by (simp add: insert_by_set)
  next
    case False
    then have "\<forall>z\<in>set ys. \<not> lt z x" using y(2,4) weak_orderD(2) [OF w _ y(1) assms(2)] by blast
    then show ?thesis using False y(3,4) by simp
  qed
qed simp

lemma insert_by_stable:
  assumes w: "weak_order A lt" and "x \<in> A" and "a \<in> A" and "set ys \<subseteq> A"
  shows "filter (\<lambda>b. \<not> lt a b \<and> \<not> lt b a) (insert_by lt x ys) = filter (\<lambda>b. \<not> lt a b \<and> \<not> lt b a) (x # ys)"
  using assms(4)
proof (induction ys)
  case (Cons y ys)
  show ?case
  proof (cases "lt y x \<and> (\<not> lt a x \<and> \<not> lt x a) \<and> (\<not> lt a y \<and> \<not> lt y a)")
    case True
    then have "\<not> lt y x" using weak_orderD(2) [OF w _ assms(3), of y x] Cons.prems assms(2) by simp
    then show ?thesis using True by simp
  next
    case False
    then show ?thesis using Cons by auto
  qed
qed simp

lemma sort_by_correct:
  assumes w: "weak_order A lt" and "set xs \<subseteq> A"
  shows "sorted_wrt (\<lambda>a b. \<not> lt b a) (sort_by lt xs)"
    "a \<in> A \<Longrightarrow> filter (\<lambda>b. \<not> lt a b \<and> \<not> lt b a) (sort_by lt xs) = filter (\<lambda>b. \<not> lt a b \<and> \<not> lt b a) xs"
proof -
  have "set (foldr (insert_by lt) ys []) = set ys" for ys by (induction ys) (simp_all add: insert_by_set)
  then have s: "set (foldr (insert_by lt) ys []) \<subseteq> A" if "set ys \<subseteq> A" for ys using that by simp
  from assms(2) show "sorted_wrt (\<lambda>a b. \<not> lt b a) (sort_by lt xs)"
    unfolding sort_by_def by (induction xs) (use s insert_by_sorted [OF w] in auto)
  from assms(2) show "a \<in> A \<Longrightarrow> filter (\<lambda>b. \<not> lt a b \<and> \<not> lt b a) (sort_by lt xs) = filter (\<lambda>b. \<not> lt a b \<and> \<not> lt b a) xs"
    unfolding sort_by_def by (induction xs) (use s insert_by_stable [OF w] in auto)
qed

text \<open>The order of a sort by columns: by the first, then by the second, each ascending or descending.\<close>

fun key_less :: "ColMeta list \<Rightarrow> bool list \<Rightarrow> byte list \<Rightarrow> byte list \<Rightarrow> bool" where
  "key_less (c # cs) (d # ds) a b =
     (if field_key c a = field_key c b then key_less cs ds a b
      else if d then field_key c a > field_key c b else field_key c a < field_key c b)"
| "key_less _ _ a b = False"

lemma sort_less_key:
  assumes "\<forall>c\<in>set cols. field_fine c a \<and> field_fine c b"
  shows "sort_less cols ds a b = key_less cols ds a b"
  using assms
proof (induction cols arbitrary: ds)
  case (Cons c cols)
  show ?case
  proof (cases ds)
    case (Cons d ds')
    have f: "raw_ok (cm_type c) (drop (nat (cm_offset c)) a)" "raw_ok (cm_type c) (drop (nat (cm_offset c)) b)"
      using Cons.prems by (simp_all add: field_fine_def)
    note cmp = compare_raw_value_iff [OF f, of "cm_len c"]
    show ?thesis using Cons Cons.IH Cons.prems cmp by (auto simp: Let_def field_key_def)
  qed simp
qed simp

lemma key_less_asym: "key_less cs ds a b \<Longrightarrow> \<not> key_less cs ds b a"
  by (induction cs ds a b rule: key_less.induct) (auto split: if_splits)

lemma key_less_negtrans: "\<not> key_less cs ds a b \<Longrightarrow> \<not> key_less cs ds b c \<Longrightarrow> \<not> key_less cs ds a c"
  by (induction cs ds a b rule: key_less.induct) (auto split: if_splits)

section \<open>Meaning of an operator tree\<close>

definition satisfying :: "(Rid \<rightharpoonup> byte list) \<Rightarrow> ColMeta list \<Rightarrow> Condition list \<Rightarrow> byte list multiset" where
  "satisfying m cols conds = image_mset (\<lambda>q. the (m q)) (mset_set {q \<in> dom m. eval_conditions cols conds (the (m q)) = Inr True})"

definition pairs :: "executor \<Rightarrow> executor \<Rightarrow> NestedLoopJoin \<Rightarrow> byte list list \<Rightarrow> byte list list \<Rightarrow> byte list multiset" where
  "pairs l r j ls rs = mset (filter (join_good j) (map (\<lambda>(a, b). join_rec l r a b) (List.product ls rs)))"

definition chosen_fields :: "ColMeta list \<Rightarrow> nat list \<Rightarrow> byte list \<Rightarrow> byte list" where
  "chosen_fields cols is rec = concat (map (\<lambda>i. col_bytes (cols ! i) rec) is)"

definition ordering :: "ColMeta list \<Rightarrow> bool list \<Rightarrow> byte list list \<Rightarrow> byte list list \<Rightarrow> bool" where
  "ordering cols ds xs ys \<longleftrightarrow>
     mset ys = mset xs \<and> sorted_wrt (\<lambda>a b. \<not> key_less cols ds b a) ys \<and>
     (\<forall>a\<in>set xs. filter (\<lambda>b. \<not> key_less cols ds a b \<and> \<not> key_less cols ds b a) ys =
                 filter (\<lambda>b. \<not> key_less cols ds a b \<and> \<not> key_less cols ds b a) xs)"

fun answers :: "db_contents \<Rightarrow> executor \<Rightarrow> byte list list \<Rightarrow> bool" where
  "answers c (SeqScanEx s) rs \<longleftrightarrow> mset rs = satisfying (c (ss_tab s)) (ss_cols s) (ss_conds s)"
| "answers c (IndexScanEx s) rs \<longleftrightarrow> mset rs = satisfying (c (is_tab s)) (is_cols s) (is_conds s)"
| "answers c (JoinEx l r j) rs \<longleftrightarrow> (\<exists>ls rs'. answers c l ls \<and> answers c r rs' \<and> mset rs = pairs l r j ls rs')"
| "answers c (ProjectionEx p s) rs \<longleftrightarrow> (\<exists>ps. answers c p ps \<and> rs = map (chosen_fields (ex_cols p) (p_idxs s)) ps)"
| "answers c (SortEx p s) rs \<longleftrightarrow> (\<exists>ps qs. answers c p ps \<and> ordering (s_cols s) (s_desc s) ps qs \<and>
     rs = (if s_limit s \<ge> 0 then take (nat (s_limit s)) qs else qs))"

text \<open>
  Trees that are ready to run: the columns of the conditions are there and their values converted, an index scan uses an index of its
  table, the columns of a projection lie in the rows, and no field to sort by is a NaN.
\<close>

definition conds_known :: "ColMeta list \<Rightarrow> Condition list \<Rightarrow> bool" where
  "conds_known cols conds \<longleftrightarrow> (\<forall>cond\<in>set conds. \<not> isl (find_col_meta cols (lhs_col cond)) \<and>
     (if is_rhs_val cond then raw (rhs_val cond) \<noteq> None else \<not> isl (find_col_meta cols (rhs_col cond))))"

definition index_ready :: "sm_state \<Rightarrow> IndexScan \<Rightarrow> bool" where
  "index_ready st s \<longleftrightarrow> (\<exists>tab ix. map_of (tabs (sm_db st)) (is_tab s) = Some tab \<and> ix \<in> set (tm_indexes tab) \<and>
     runtime_index_name (is_tab s) (is_names s) = index_name ix \<and> values_fit ix (is_tab s) (is_conds s) \<and>
     (\<forall>c\<in>set (im_cols ix). \<exists>c'. find_col_meta (is_cols s) (mk_tabcol (is_tab s) (cm_name c)) = Inr c' \<and> unmarked c' = unmarked c))"

fun contiguous :: "int \<Rightarrow> ColMeta list \<Rightarrow> int \<Rightarrow> bool" where
  "contiguous off [] n \<longleftrightarrow> off = n"
| "contiguous off (c # cs) n \<longleftrightarrow> cm_offset c = off \<and> 0 \<le> cm_len c \<and> contiguous (off + cm_len c) cs n"

definition projection_ok :: "ColMeta list \<Rightarrow> int \<Rightarrow> Projection \<Rightarrow> bool" where
  "projection_ok prev n s \<longleftrightarrow> contiguous 0 (p_cols s) (p_len s) \<and>
     list_all2 (\<lambda>i dst. i < length prev \<and> cm_len dst = cm_len (prev ! i) \<and> 0 \<le> cm_offset (prev ! i) \<and>
       cm_offset (prev ! i) + cm_len (prev ! i) \<le> n) (p_idxs s) (p_cols s)"

fun query_ok :: "sm_state \<Rightarrow> executor \<Rightarrow> bool" where
  "query_ok st (SeqScanEx s) \<longleftrightarrow> conds_known (ss_cols s) (ss_conds s) \<and>
     (case shape st (ss_tab s) of None \<Rightarrow> False | Some (fd, n, k) \<Rightarrow> ss_len s = n)"
| "query_ok st (IndexScanEx s) \<longleftrightarrow> conds_known (is_cols s) (is_conds s) \<and> index_ready st s \<and>
     (case shape st (is_tab s) of None \<Rightarrow> False | Some (fd, n, k) \<Rightarrow> is_len s = n)"
| "query_ok st (JoinEx l r j) \<longleftrightarrow> query_ok st l \<and> query_ok st r \<and> conds_known (j_cols j) (j_conds j) \<and>
     j_len j = tupleLen l + tupleLen r"
| "query_ok st (ProjectionEx p s) \<longleftrightarrow> query_ok st p \<and> projection_ok (ex_cols p) (tupleLen p) s"
| "query_ok st (SortEx p s) \<longleftrightarrow> query_ok st p \<and> s_len s = tupleLen p \<and>
     (\<forall>rec\<in>set (rows (view st) p). \<forall>c\<in>set (s_cols s). field_fine c rec)"

lemma eval_known: "conds_known cols conds \<Longrightarrow> \<not> isl (eval_conditions cols conds rec)"
proof (induction conds)
  case (Cons cond conds)
  then obtain lcol where l: "find_col_meta cols (lhs_col cond) = Inr lcol"
    by (cases "find_col_meta cols (lhs_col cond)") (auto simp: conds_known_def)
  have "\<exists>b. eval_condition cols cond rec = Inr b"
  proof (cases "is_rhs_val cond")
    case True
    then show ?thesis using Cons.prems l by (auto simp: conds_known_def eval_condition_def)
  next
    case False
    then obtain rcol where "find_col_meta cols (rhs_col cond) = Inr rcol"
      using Cons.prems by (cases "find_col_meta cols (rhs_col cond)") (auto simp: conds_known_def)
    then show ?thesis using False l by (simp add: eval_condition_def)
  qed
  then obtain b where "eval_condition cols cond rec = Inr b" by blast
  then show ?case using Cons by (simp add: conds_known_def)
qed simp

lemma contiguous_le: "contiguous off cs n \<Longrightarrow> off \<le> n"
  by (induction cs arbitrary: off) fastforce+

lemma set_sort_tuples: "set (sort_tuples s xs) \<subseteq> set xs"
  by (auto simp: sort_tuples_def Let_def dest: in_set_takeD split: if_splits)

text \<open>The rids of an index scan are rids of its table, and it finds every record that satisfies the conditions.\<close>

lemma index_ready_scan:
  assumes inv: "sm_inv st" and r: "index_ready st s"
  obtains ri ix where "map_of (runtime_indexes st) (runtime_index_name (is_tab s) (is_names s)) = Some ri" "ri_meta ri = ix"
    "index_of ix (contents st (is_tab s)) (ri_entries ri)" "ix_wf ix" "fits_all ix (contents st (is_tab s))"
    "values_fit ix (is_tab s) (is_conds s)"
    "\<forall>c\<in>set (im_cols ix). \<exists>c'. find_col_meta (is_cols s) (mk_tabcol (is_tab s) (cm_name c)) = Inr c' \<and> unmarked c' = unmarked c"
proof -
  obtain tab ix where t: "map_of (tabs (sm_db st)) (is_tab s) = Some tab" "ix \<in> set (tm_indexes tab)"
    "runtime_index_name (is_tab s) (is_names s) = index_name ix" "values_fit ix (is_tab s) (is_conds s)"
    "\<forall>c\<in>set (im_cols ix). \<exists>c'. find_col_meta (is_cols s) (mk_tabcol (is_tab s) (cm_name c)) = Inr c' \<and> unmarked c' = unmarked c"
    using r by (auto simp: index_ready_def)
  obtain ri where ri: "map_of (runtime_indexes st) (index_name ix) = Some ri" "ri_meta ri = ix" "index_of ix (contents st (is_tab s)) (ri_entries ri)"
    using sm_invD(5) [OF inv t(1)] t(2) by (auto simp: idx_state_def)
  show thesis
    by (rule that [of ri ix]) (use ri t cat_okD(3) [OF sm_invD(2) [OF inv] t(1,2)] sm_invD(6) [OF inv t(1)] in \<open>auto simp: recs_ok_def\<close>)
qed

lemma scanned_dom:
  assumes "sm_inv st" and "index_ready st s"
  shows "set (scanned_rids (view st) s) \<subseteq> dom (contents st (is_tab s))" "distinct (scanned_rids (view st) s)"
    "map_of (runtime_indexes st) (runtime_index_name (is_tab s) (is_names s)) \<noteq> None"
  by (rule index_ready_scan [OF assms], simp add: scanned_rids_def scan_runtime_index_distinct)+

lemma conditions_meet:
  assumes f: "rec_fits (im_cols ix) rec" and v: "values_fit ix t conds"
    and c: "\<forall>c\<in>set (im_cols ix). \<exists>c'. find_col_meta cols (mk_tabcol t (cm_name c)) = Inr c' \<and> unmarked c' = unmarked c"
    and e: "eval_conditions cols conds rec = Inr True"
  shows "meets ix t conds rec"
  unfolding meets_def
proof (intro ballI impI)
  fix cond col assume cond: "cond \<in> set conds" and col: "col \<in> set (im_cols ix)" and on: "cond_on t col cond"
  obtain c' where c': "find_col_meta cols (mk_tabcol t (cm_name col)) = Inr c'" "unmarked c' = unmarked col" using c col by blast
  have l: "lhs_col cond = mk_tabcol t (cm_name col)" "is_rhs_val cond" using on by (simp_all add: cond_on_def)
  obtain bs where bs: "raw (rhs_val cond) = Some bs" "raw_ok (cm_type col) bs" using v cond col on by (fastforce simp: values_fit_def)
  have same: "cm_type c' = cm_type col" "field_key c' rec = field_key col rec" "cm_len c' = cm_len col"
    using unmarked_eq [OF c'(2)] by (simp_all add: field_key_def)
  have "field_fine c' rec" using f col unmarked_fine(2) [OF c'(2)] by (simp add: rec_fits_def)
  then have "eval_condition cols cond rec = Inr (Exec_Defs.holds (cond_op cond) (field_key c' rec) (raw_key (cm_type c') (cm_len c') bs))"
    using eval_value_condition [of cols cond c' bs rec] c'(1) l bs same(1) by simp
  then show "Exec_Defs.holds (cond_op cond) (field_key col rec) (raw_key (cm_type col) (cm_len col) (the (raw (rhs_val cond))))"
    using e cond bs(1) same by (simp add: eval_conditions_Inr_True)
qed

lemma scanned_complete:
  assumes inv: "sm_inv st" and r: "index_ready st s" and q: "contents st (is_tab s) q = Some rec" "eval_conditions (is_cols s) (is_conds s) rec = Inr True"
  shows "q \<in> set (scanned_rids (view st) s)"
proof (rule index_ready_scan [OF inv r])
  fix ri ix
  assume i: "map_of (runtime_indexes st) (runtime_index_name (is_tab s) (is_names s)) = Some ri" "ri_meta ri = ix"
    "index_of ix (contents st (is_tab s)) (ri_entries ri)" "ix_wf ix" "fits_all ix (contents st (is_tab s))"
    "values_fit ix (is_tab s) (is_conds s)"
    "\<forall>c\<in>set (im_cols ix). \<exists>c'. find_col_meta (is_cols s) (mk_tabcol (is_tab s) (cm_name c)) = Inr c' \<and> unmarked c' = unmarked c"
  have "rec_fits (im_cols ix) rec" using i(5) q(1) by (auto simp: fits_all_def)
  from scan_runtime_index_complete [OF i(3,2,4,5,6) q(1) conditions_meet [OF this i(6,7) q(2)]] i(1)
  show ?thesis by (simp add: scanned_rids_def)
qed

text \<open>Row lengths.\<close>

lemma shape_length:
  assumes "files_ok st" and "shape st t = Some (fd, n, k)" and "contents st t q = Some rec"
  shows "length rec = nat n"
  using contents_place [OF assms(1,3)] assms(2) by (simp add: place_ok_def)

lemma shape_nonneg: "files_ok st \<Longrightarrow> shape st t = Some (fd, n, k) \<Longrightarrow> 0 \<le> n"
  by (auto simp: shape_def dest: shape_bounds(3))

text \<open>The rows of a join, block by block, are the pairs that match.\<close>

lemma concat_filter_Cons:
  "mset (concat (map (\<lambda>b. filter g (f x b # map (\<lambda>a. f a b) ls)) rs)) =
   mset (filter g (map (f x) rs)) + mset (concat (map (\<lambda>b. filter g (map (\<lambda>a. f a b) ls)) rs))"
  by (induction rs) simp_all

lemma product_by_columns:
  "mset (concat (map (\<lambda>b. filter g (map (\<lambda>a. f a b) ls)) rs)) = mset (filter g (map (\<lambda>(a, b). f a b) (List.product ls rs)))"
proof (induction ls)
  case Nil
  show ?case by (induction rs) simp_all
next
  case (Cons x ls)
  have "map (\<lambda>(a, b). f a b) (List.product (x # ls) rs) = map (f x) rs @ map (\<lambda>(a, b). f a b) (List.product ls rs)" by simp
  then show ?case using Cons concat_filter_Cons [of g f x ls rs] by (simp add: comp_def)
qed

lemma pairs_block: "mset (concat (map (matches l r j block) rs)) = pairs l r j block rs"
  using product_by_columns [of "join_good j" "join_rec l r" block rs] by (simp add: matches_def [abs_def] pairs_def)

lemma pairs_append: "pairs l r j (xs @ ys) rs = pairs l r j xs rs + pairs l r j ys rs"
  by (induction xs) (simp_all add: pairs_def)

lemma mset_join_all: "mset (join_all (matches l r j) ls rs) = pairs l r j ls rs"
proof (induction "length ls" arbitrary: ls rule: less_induct)
  case less
  show ?case
  proof (cases "ls = []")
    case False
    let ?b = "fst (split_block 0 ls)" and ?t = "snd (split_block 0 ls)"
    have "mset (join_all (matches l r j) ?t rs) = pairs l r j ?t rs" by (rule less) (rule split_block_less [OF False])
    then have "mset (join_all (matches l r j) ls rs) = pairs l r j (?b @ ?t) rs"
      using False by (subst join_all.simps) (simp add: pairs_block pairs_append)
    then show ?thesis by (simp add: split_block_append)
  qed (simp add: pairs_def)
qed

lemma set_join_all: "rec \<in> set (join_all (matches l r j) ls rs) \<Longrightarrow> \<exists>a\<in>set ls. \<exists>b\<in>set rs. rec = join_rec l r a b"
proof -
  assume "rec \<in> set (join_all (matches l r j) ls rs)"
  then have "rec \<in># pairs l r j ls rs" by (simp flip: mset_join_all)
  then show ?thesis by (auto simp: pairs_def)
qed

text \<open>A projection copies the fields one behind the other.\<close>

lemma write_fields:
  assumes "contiguous off cs n" and "0 \<le> off" and "length pre = nat off"
    and "list_all2 (\<lambda>i dst. i < length prev \<and> cm_len dst = cm_len (prev ! i) \<and> 0 \<le> cm_offset (prev ! i) \<and>
       cm_offset (prev ! i) + cm_len (prev ! i) \<le> int (length rec)) is cs"
  shows "fold (\<lambda>(i, dst) out. write_at (nat (cm_offset dst)) (take (nat (cm_len dst)) (drop (nat (cm_offset (prev ! i))) rec)) out)
      (zip is cs) (pre @ replicate (nat (n - off)) 0) = pre @ chosen_fields prev is rec \<and>
    int (length (pre @ chosen_fields prev is rec)) = n"
  using assms
proof (induction cs arbitrary: off pre "is")
  case (Cons c cs)
  obtain i is' where i: "is = i # is'" using Cons.prems(4) by (cases "is") auto
  let ?f = "take (nat (cm_len c)) (drop (nat (cm_offset (prev ! i))) rec)"
  have c: "cm_offset c = off" "0 \<le> cm_len c" "contiguous (off + cm_len c) cs n" "cm_len c = cm_len (prev ! i)"
    "0 \<le> cm_offset (prev ! i)" "cm_offset (prev ! i) + cm_len (prev ! i) \<le> int (length rec)"
    using Cons.prems(1,4) i by simp_all
  have f: "length ?f = nat (cm_len c)" "?f = col_bytes (prev ! i) rec" using c by (simp_all add: col_bytes_def)
  have le: "off + cm_len c \<le> n" using contiguous_le [OF c(3)] .
  have "write_at (nat off) ?f (pre @ replicate (nat (n - off)) 0) = (pre @ ?f) @ replicate (nat (n - (off + cm_len c))) 0"
    using Cons.prems(2,3) f(1) c(2) le by (simp add: write_at_def nat_diff_distrib nat_add_distrib)
  moreover have "length (pre @ ?f) = nat (off + cm_len c)" using Cons.prems(2,3) c(2) f(1) by (simp add: nat_add_distrib)
  ultimately show ?case
    using Cons.IH [OF c(3), of "pre @ ?f" is'] Cons.prems(2,4) c(1,2) i f(2) by (simp add: chosen_fields_def)
qed (auto simp: chosen_fields_def)

lemma project_fields:
  assumes "projection_ok prev (int (length rec)) s"
  shows "project prev s rec = chosen_fields prev (p_idxs s) rec" "int (length (chosen_fields prev (p_idxs s) rec)) = p_len s"
  using write_fields [of 0 "p_cols s" "p_len s" "[]" prev rec "p_idxs s"] assms
  by (simp_all add: projection_ok_def project_def)

lemma row_lengths:
  assumes inv: "sm_inv st" and "query_ok st x"
  shows "0 \<le> tupleLen x \<and> (\<forall>rec\<in>set (rows (view st) x). length rec = nat (tupleLen x))"
  using assms(2)
proof (induction x)
  case (SeqScanEx s)
  obtain fd n k where sh: "shape st (ss_tab s) = Some (fd, n, k)" "ss_len s = n" using SeqScanEx by (auto split: option.splits)
  have "set (rids_of (contents st (ss_tab s))) = dom (contents st (ss_tab s))" by (rule rids_of(1) [OF finite_contents])
  then show ?case using sh shape_nonneg [OF sm_invD(1) [OF inv] sh(1)] shape_length [OF sm_invD(1) [OF inv] sh(1)] by (auto simp: rids_rows_def)
next
  case (IndexScanEx s)
  obtain fd n k where sh: "shape st (is_tab s) = Some (fd, n, k)" "is_len s = n" using IndexScanEx by (auto split: option.splits)
  have "set (scanned_rids (view st) s) \<subseteq> dom (contents st (is_tab s))" using scanned_dom [OF inv] IndexScanEx by simp
  then show ?case using sh shape_nonneg [OF sm_invD(1) [OF inv] sh(1)] shape_length [OF sm_invD(1) [OF inv] sh(1)] by (fastforce simp: rids_rows_def)
next
  case (JoinEx l r j)
  have len: "length (join_rec l r a b) = nat (tupleLen l + tupleLen r)" if "a \<in> set (rows (view st) l)" "b \<in> set (rows (view st) r)" for a b
    using that JoinEx by (simp add: join_rec_def nat_add_distrib)
  show ?case using JoinEx len set_join_all by fastforce
next
  case (ProjectionEx p s)
  have "length (project (ex_cols p) s rec) = nat (p_len s) \<and> 0 \<le> p_len s" if "rec \<in> set (rows (view st) p)" for rec
    using that ProjectionEx project_fields [of "ex_cols p" rec s] by auto
  then show ?case using ProjectionEx contiguous_le [of 0 "p_cols s" "p_len s"] by (auto simp: projection_ok_def)
next
  case (SortEx p s)
  then show ?case using set_sort_tuples [of s "rows (view st) p"] by auto
qed

section \<open>The answer of a query\<close>

lemma mset_rids_rows:
  assumes "finite (dom m)" and "distinct rids" and "set rids \<subseteq> dom m"
    and "\<And>q rec. m q = Some rec \<Longrightarrow> eval_conditions cols conds rec = Inr True \<Longrightarrow> q \<in> set rids"
  shows "mset (rids_rows (\<lambda>rec. eval_conditions cols conds rec = Inr True) m rids) = satisfying m cols conds"
proof -
  let ?g = "\<lambda>q. eval_conditions cols conds (the (m q)) = Inr True"
  have "set (filter ?g rids) = {q \<in> dom m. ?g q}" using assms(3,4) by auto
  then have "mset (filter ?g rids) = mset_set {q \<in> dom m. ?g q}" using mset_set_set [of "filter ?g rids"] assms(2) by simp
  moreover have "mset (rids_rows (\<lambda>rec. eval_conditions cols conds rec = Inr True) m rids) = image_mset (\<lambda>q. the (m q)) (mset (filter ?g rids))"
    by (simp add: rids_rows_def filter_map comp_def)
  ultimately show ?thesis by (simp add: satisfying_def)
qed

lemma sort_ordering:
  assumes "\<forall>rec\<in>set xs. \<forall>c\<in>set cols. field_fine c rec"
  shows "ordering cols ds xs (if cols = [] then xs else sort_by (sort_less cols ds) xs)"
proof (cases "cols = []")
  case True
  then show ?thesis by (simp add: ordering_def sorted_wrt_iff_nth_less)
next
  case False
  have k: "sort_less cols ds a b = key_less cols ds a b" if "a \<in> set xs" "b \<in> set xs" for a b
    using that assms by (intro sort_less_key) blast
  have "weak_order (set xs) (sort_less cols ds)"
    unfolding weak_order_def using k key_less_asym key_less_negtrans by (metis (no_types, lifting))
  note S = sort_by_correct [OF this order_refl]
  have sx: "set (sort_by (sort_less cols ds) xs) = set xs" by simp
  have "sorted_wrt (\<lambda>a b. \<not> key_less cols ds b a) (sort_by (sort_less cols ds) xs)"
    by (rule sorted_wrt_mono_rel [OF _ S(1)]) (use k sx in auto)
  moreover have "filter (\<lambda>b. \<not> key_less cols ds a b \<and> \<not> key_less cols ds b a) (sort_by (sort_less cols ds) xs) =
      filter (\<lambda>b. \<not> key_less cols ds a b \<and> \<not> key_less cols ds b a) xs" if "a \<in> set xs" for a
  proof -
    have "filter (\<lambda>b. \<not> sort_less cols ds a b \<and> \<not> sort_less cols ds b a) ys =
        filter (\<lambda>b. \<not> key_less cols ds a b \<and> \<not> key_less cols ds b a) ys" if "set ys = set xs" for ys
      by (rule filter_cong [OF refl]) (use that k \<open>a \<in> set xs\<close> in auto)
    then show ?thesis using S(2) [OF that] sx by (metis (no_types, lifting))
  qed
  ultimately show ?thesis using False by (simp add: ordering_def mset_sort_by)
qed

lemma rows_answer:
  assumes inv: "sm_inv st" and "query_ok st x"
  shows "answers (contents st) x (rows (view st) x)"
  using assms(2)
proof (induction x)
  case (SeqScanEx s)
  have r: "set (rids_of (contents st (ss_tab s))) = dom (contents st (ss_tab s))" "distinct (rids_of (contents st (ss_tab s)))"
    using rids_of [OF finite_contents] sorted_rid_distinct by auto
  have "mset (rids_rows (\<lambda>rec. eval_conditions (ss_cols s) (ss_conds s) rec = Inr True) (contents st (ss_tab s)) (rids_of (contents st (ss_tab s)))) =
      satisfying (contents st (ss_tab s)) (ss_cols s) (ss_conds s)"
    by (rule mset_rids_rows [OF finite_contents r(2)]) (use r(1) in auto)
  then show ?case by (simp add: seq_good_def [abs_def])
next
  case (IndexScanEx s)
  have r: "index_ready st s" using IndexScanEx by simp
  show ?case using mset_rids_rows [OF finite_contents scanned_dom(2,1) [OF inv r]] scanned_complete [OF inv r] by (simp add: index_good_def [abs_def])
next
  case (JoinEx l r j)
  then show ?case using mset_join_all by auto
next
  case (ProjectionEx p s)
  have "project (ex_cols p) s rec = chosen_fields (ex_cols p) (p_idxs s) rec" if "rec \<in> set (rows (view st) p)" for rec
    using that ProjectionEx.prems row_lengths [OF inv, of p] by (intro project_fields(1)) auto
  then show ?case using ProjectionEx by auto
next
  case (SortEx p s)
  have "ordering (s_cols s) (s_desc s) (rows (view st) p) (if s_cols s = [] then rows (view st) p else sort_by (sort_less (s_cols s) (s_desc s)) (rows (view st) p))"
    by (rule sort_ordering) (use SortEx.prems in simp)
  moreover have "answers (contents st) p (rows (view st) p)" using SortEx by simp
  ultimately show ?case unfolding answers.simps rows.simps sort_tuples_def Let_def
    by (intro exI conjI) (assumption | auto)+
qed

lemma query_wf:
  assumes inv: "sm_inv st" and "query_ok st x"
  shows "\<exists>n. \<forall>fuel\<ge>n. wf fuel (view st) x"
  using assms(2)
proof (induction x)
  case (SeqScanEx s)
  have "map_of (fhs st) (ss_tab s) \<noteq> None" using SeqScanEx by (auto simp: shape_def split: option.splits)
  then show ?case using SeqScanEx eval_known by (intro exI [of _ "length (rows (view st) (SeqScanEx s)) + 2"]) simp
next
  case (IndexScanEx s)
  have "map_of (fhs st) (is_tab s) \<noteq> None" using IndexScanEx by (auto simp: shape_def split: option.splits)
  then show ?case using IndexScanEx eval_known scanned_dom [OF inv, of s] by (intro exI [of _ "length (rows (view st) (IndexScanEx s)) + 2"]) simp
next
  case (JoinEx l r j)
  then obtain a b where "\<forall>fuel\<ge>a. wf fuel (view st) l" "\<forall>fuel\<ge>b. wf fuel (view st) r" by auto
  then show ?case using JoinEx.prems eval_known
    by (intro exI [of _ "a + b + length (rows (view st) (JoinEx l r j)) + 2"]) simp
qed simp_all

text \<open>Scans of the sample table without conditions.\<close>

definition sample_seq :: SeqScan where
  "sample_seq = \<lparr>ss_tab = ''t'', ss_conds = [], ss_cols = sample_cols, ss_len = 100, ss_rid = None, ss_scan = None\<rparr>"

definition sample_iscan :: IndexScan where
  "sample_iscan = \<lparr>is_tab = ''t'', is_conds = [], is_cols = sample_cols, is_len = 100, is_names = [''a''],
     is_rid = None, is_rids = [], is_cursor = 0\<rparr>"

lemma sample_query_ok:
  assumes "kept (sample_sm [sample_tix]) st"
  shows "query_ok st (SeqScanEx sample_seq)" "query_ok st (IndexScanEx sample_iscan)"
    "query_ok st (new_Join (SeqScanEx sample_seq) (IndexScanEx sample_iscan) [])"
proof -
  have sh: "shape st ''t'' = Some (3, 100, num_records_per_page (hdr sample_rm))" and db: "sm_db st = sm_db (sample_sm [sample_tix])"
    using assms sample_shape(1) [of "[sample_tix]"] by (simp_all add: kept_def)
  show s: "query_ok st (SeqScanEx sample_seq)" using sh by (simp add: sample_seq_def conds_known_def)
  have ix: "im_tab sample_tix = ''t''" "im_cols sample_tix = [hd sample_cols]" "cm_name (hd sample_cols) = ''a''"
    by (simp_all add: sample_tix_def sample_cols_def)
  have "find_col_meta sample_cols (mk_tabcol ''t'' ''a'') = Inr (hd sample_cols)" by (simp add: find_col_meta_def sample_cols_def)
  then have "index_ready st sample_iscan"
    unfolding index_ready_def using sample_tab db ix
    by (intro exI [of _ "\<lparr>tm_name = ''t'', tm_cols = sample_cols, tm_indexes = [sample_tix]\<rparr>"] exI [of _ sample_tix])
      (simp add: sample_iscan_def index_name_def values_fit_def)
  then show i: "query_ok st (IndexScanEx sample_iscan)" using sh by (simp add: sample_iscan_def conds_known_def)
  show "query_ok st (new_Join (SeqScanEx sample_seq) (IndexScanEx sample_iscan) [])"
    using s i by (simp add: new_Join_def conds_known_def del: query_ok.simps(1,2))
qed

text \<open>
  C5: a query returns the answer its operator tree stands for. For every tree of sequential scans, index scans, nested loop
  joins, projections and sorts that is ready to run, enough steps let the loop over the root executor end, and the rows it has collected
  are an answer: exactly the records that satisfy the conditions at every scan, an index scan included, exactly the matching
  pairs at every join whatever the size of its blocks, the chosen fields at every projection, and a stable ordering cut off at the limit at every
  sort. The database is as it was.
\<close>

theorem query_answers:
  assumes "sm_inv st" and "query_ok st x"
  shows "\<exists>n. \<forall>fuel\<ge>n. \<exists>rs st'. collect fuel x st = (Inr rs, st') \<and> answers (contents st) x rs \<and> contents st' = contents st"
proof -
  obtain n where n: "\<forall>fuel\<ge>n. wf fuel (view st) x" using query_wf [OF assms] by blast
  have "\<exists>rs st'. collect fuel x st = (Inr rs, st') \<and> answers (contents st) x rs \<and> contents st' = contents st" if "n \<le> fuel" for fuel
  proof -
    obtain st' where "collect fuel x st = (Inr (rows (view st) x), st')" "calm st st'"
      using collect_spec [OF assms(1), of fuel x] n \<open>n \<le> fuel\<close> by auto
    then show ?thesis using rows_answer [OF assms]
      by (intro exI [of _ "rows (view st) x"] exI [of _ st']) (simp add: calm_def)
  qed
  then show ?thesis by blast
qed

theorem query_answers_witness:
  "\<exists>st n. contents st ''t'' = [mk_rid 1 0 \<mapsto> replicate 100 7] \<and>
     (\<forall>fuel\<ge>n. \<exists>st'. collect fuel (new_Join (SeqScanEx sample_seq) (IndexScanEx sample_iscan) []) st = (Inr [replicate 200 7], st'))"
proof -
  let ?rec = "replicate 100 7 :: byte list" and ?x = "new_Join (SeqScanEx sample_seq) (IndexScanEx sample_iscan) []"
  obtain st where st: "sm_inv st" "contents st = (\<lambda>_. Map.empty)(''t'' := [mk_rid 1 0 \<mapsto> ?rec])" "kept (sample_sm [sample_tix]) st"
    by (rule sample_filled [of ?rec]) simp_all
  obtain n where n: "\<forall>fuel\<ge>n. \<exists>rs st'. collect fuel ?x st = (Inr rs, st') \<and> answers (contents st) ?x rs"
    using query_answers [OF st(1) sample_query_ok(3) [OF st(3)]] by blast
  have s: "satisfying (contents st ''t'') sample_cols [] = {#?rec#}" using st(2) by (simp add: satisfying_def)
  have sc: "answers (contents st) (SeqScanEx sample_seq) ls \<longleftrightarrow> ls = [?rec]" "answers (contents st) (IndexScanEx sample_iscan) ls \<longleftrightarrow> ls = [?rec]" for ls
    using s by (simp_all add: sample_seq_def sample_iscan_def)
  obtain j where j: "?x = JoinEx (SeqScanEx sample_seq) (IndexScanEx sample_iscan) j" "j_conds j = []" by (simp add: new_Join_def)
  have "rs = [replicate 200 7]" if "answers (contents st) ?x rs" for rs
  proof -
    have "mset rs = pairs (SeqScanEx sample_seq) (IndexScanEx sample_iscan) j [?rec] [?rec]"
      using that unfolding j(1) answers.simps(3) sc by simp
    also have "\<dots> = {#take 100 ?rec @ take 100 ?rec#}"
      using j(2) by (simp add: pairs_def join_good_def join_rec_def sample_seq_def sample_iscan_def)
    finally show ?thesis by (simp flip: replicate_add)
  qed
  then show ?thesis using n st(2) by (intro exI [of _ st] exI [of _ n]) fastforce
qed

text \<open>
  C6: an index scan is equivalent to a sequential scan. On a table with the index, with the same conditions and columns, both executors
  deliver the same records equally often.
\<close>

theorem index_scan_equals_seq_scan:
  assumes "sm_inv st" and "query_ok st (SeqScanEx s)" and "query_ok st (IndexScanEx i)"
    and "is_tab i = ss_tab s" and "is_cols i = ss_cols s" and "is_conds i = ss_conds s"
  shows "\<exists>n. \<forall>fuel\<ge>n. \<exists>rs rs' st' st''. collect fuel (SeqScanEx s) st = (Inr rs, st') \<and> collect fuel (IndexScanEx i) st = (Inr rs', st'') \<and>
    mset rs = mset rs'"
proof -
  obtain a b where w: "\<forall>fuel\<ge>a. wf fuel (view st) (SeqScanEx s)" "\<forall>fuel\<ge>b. wf fuel (view st) (IndexScanEx i)"
    using query_wf [OF assms(1,2)] query_wf [OF assms(1,3)] by blast
  have "mset (rows (view st) (SeqScanEx s)) = mset (rows (view st) (IndexScanEx i))"
    using rows_answer [OF assms(1,2)] rows_answer [OF assms(1,3)] assms(4-6) by (simp del: rows.simps)
  moreover have "\<exists>st'. collect fuel (SeqScanEx s) st = (Inr (rows (view st) (SeqScanEx s)), st')"
    "\<exists>st'. collect fuel (IndexScanEx i) st = (Inr (rows (view st) (IndexScanEx i)), st')" if "a + b \<le> fuel" for fuel
    using collect_spec [OF assms(1), of fuel] w that by (meson add_leD1 add_leD2)+
  ultimately show ?thesis by (intro exI [of _ "a + b"]) blast
qed

theorem index_scan_equals_seq_scan_witness:
  "\<exists>st. contents st ''t'' = [mk_rid 1 0 \<mapsto> replicate 100 7] \<and>
     (\<exists>n. \<forall>fuel\<ge>n. \<exists>rs rs' st' st''. collect fuel (SeqScanEx sample_seq) st = (Inr rs, st') \<and>
        collect fuel (IndexScanEx sample_iscan) st = (Inr rs', st'') \<and> mset rs = mset rs')"
proof -
  obtain st where st: "sm_inv st" "contents st = (\<lambda>_. Map.empty)(''t'' := [mk_rid 1 0 \<mapsto> replicate 100 7])" "kept (sample_sm [sample_tix]) st"
    by (rule sample_filled [of "replicate 100 7"]) simp_all
  have "is_tab sample_iscan = ss_tab sample_seq" "is_cols sample_iscan = ss_cols sample_seq" "is_conds sample_iscan = ss_conds sample_seq"
    by (simp_all add: sample_iscan_def sample_seq_def)
  from index_scan_equals_seq_scan [OF st(1) sample_query_ok(1,2) [OF st(3)] this] st(2)
  show ?thesis by (intro exI [of _ st] conjI) simp_all
qed

end
