(* ===== verification/Recovery.thy ===== *)
theory Recovery
  imports Transaction_Manager Log_Analysis
begin

text \<open>
  The second and third phase of \<^verbatim>\<open>RecoveryManager\<close> (\<^verbatim>\<open>recovery/log_recovery.cpp\<close>): \<^verbatim>\<open>redo\<close> applies the records of
  committed transactions, \<^verbatim>\<open>undo\<close> takes back those of unfinished ones in reverse order and rebuilds the indexes. The
  specification works on single records: from the contents before the first logged change, and whatever part of the changes had reached the
  data files when the program stopped, recovery leaves exactly the changes of the committed transactions.
\<close>

section \<open>Phases\<close>

definition logged_table_name :: "string \<Rightarrow> nat \<Rightarrow> string" where
  "logged_table_name table_name n = take n table_name"

text \<open>\<^verbatim>\<open>record_exists\<close> turns an exception of the database into a negative answer.\<close>

definition record_exists :: "string \<Rightarrow> Rid \<Rightarrow> bool sm_op" where
  "record_exists t rid st =
     (case on_file t (is_record rid) st of
        (Inl e, st') \<Rightarrow> if is_RMDBError e then (Inr False, st') else (Inl e, st')
      | (Inr b, st') \<Rightarrow> (Inr b, st'))"

definition put_logged :: "string \<Rightarrow> Rid \<Rightarrow> byte list \<Rightarrow> unit sm_op" where
  "put_logged t rid bs =
     bind_e (record_exists t rid) (\<lambda>e. if e then on_file t (update_record rid bs) else on_file t (insert_record_at rid bs))"

definition delete_logged :: "string \<Rightarrow> Rid \<Rightarrow> unit sm_op" where
  "delete_logged t rid = bind_e (record_exists t rid) (\<lambda>e. if e then on_file t (delete_record rid) else ret ())"

definition redo_record :: "int set \<Rightarrow> LogRecord \<Rightarrow> unit sm_op" where
  "redo_record committed r =
     (if log_tid r \<notin> committed then ret ()
      else case log_body r of
          InsertLog bs rid t \<Rightarrow> put_logged (logged_table_name t (length t)) rid bs
        | DeleteLog bs rid t \<Rightarrow> delete_logged (logged_table_name t (length t)) rid
        | UpdateLog old new rid t \<Rightarrow> put_logged (logged_table_name t (length t)) rid new
        | _ \<Rightarrow> ret ())"

definition redo :: "recovery \<Rightarrow> unit sm_op" where
  "redo rc = for_each (rc_logs rc) (redo_record (committed_txns rc))"

definition undo_record :: "int set \<Rightarrow> LogRecord \<Rightarrow> unit sm_op" where
  "undo_record active r =
     (if log_tid r \<notin> active then ret ()
      else case log_body r of
          InsertLog bs rid t \<Rightarrow> delete_logged (logged_table_name t (length t)) rid
        | DeleteLog bs rid t \<Rightarrow> put_logged (logged_table_name t (length t)) rid bs
        | UpdateLog old new rid t \<Rightarrow> put_logged (logged_table_name t (length t)) rid old
        | _ \<Rightarrow> ret ())"

definition undo_changes :: "recovery \<Rightarrow> unit sm_op" where
  "undo_changes rc =
     bind_e (for_each (rev (rc_logs rc)) (undo_record (active_txns rc))) (\<lambda>_. rebuild_runtime_indexes)"

definition undo :: "recovery \<Rightarrow> unit sm_op" where
  "undo rc = bind_e (undo_changes rc) (\<lambda>_. flush_all_tables)"

section \<open>Changes of single records\<close>

fun target :: "log_body \<Rightarrow> (string \<times> Rid) option" where
  "target (InsertLog bs rid t) = Some (t, rid)"
| "target (DeleteLog bs rid t) = Some (t, rid)"
| "target (UpdateLog old new rid t) = Some (t, rid)"
| "target _ = None"

fun value_after :: "log_body \<Rightarrow> byte list option" where
  "value_after (InsertLog bs rid t) = Some bs"
| "value_after (UpdateLog old new rid t) = Some new"
| "value_after _ = None"

fun value_before :: "log_body \<Rightarrow> byte list option" where
  "value_before (DeleteLog bs rid t) = Some bs"
| "value_before (UpdateLog old new rid t) = Some old"
| "value_before _ = None"

definition set_slot :: "(string \<times> Rid) option \<Rightarrow> byte list option \<Rightarrow> db_contents \<Rightarrow> db_contents" where
  "set_slot s v c = (case s of None \<Rightarrow> c | Some (t, rid) \<Rightarrow> c(t := (c t)(rid := v)))"

definition did :: "LogRecord \<Rightarrow> db_contents \<Rightarrow> db_contents" where
  "did r = set_slot (target (log_body r)) (value_after (log_body r))"

definition undid :: "LogRecord \<Rightarrow> db_contents \<Rightarrow> db_contents" where
  "undid r = set_slot (target (log_body r)) (value_before (log_body r))"

text \<open>A logged change fits the tables: its table is open, its rid a place of the file, its values of the right length.\<close>

definition loggable_in :: "sm_state \<Rightarrow> LogRecord \<Rightarrow> bool" where
  "loggable_in st r \<longleftrightarrow>
     (case target (log_body r) of
        None \<Rightarrow> True
      | Some (t, rid) \<Rightarrow>
          (case shape st t of
             None \<Rightarrow> False
           | Some (fd, n, k) \<Rightarrow>
               RM_FIRST_RECORD_PAGE \<le> page_no rid \<and> page_no rid < 2147483647 \<and> 0 \<le> slot_no rid \<and> slot_no rid < k \<and>
               (\<forall>bs. value_after (log_body r) = Some bs \<or> value_before (log_body r) = Some bs \<longrightarrow> length bs = nat n)))"

lemma fetch_page_handle_out:
  "num_pages (hdr st) \<le> no \<Longrightarrow> \<exists>e. fetch_page_handle no st = (Inl e, st) \<and> is_RMDBError e"
  by (auto simp: fetch_page_handle_def on_pool_def on_disk_def zoom_app get_file_name_def bind_e_app split: option.splits)

lemma record_exists_spec:
  assumes ok: "files_ok st" and h: "map_of (fhs st) t = Some h" and rid: "RM_FIRST_RECORD_PAGE \<le> page_no rid" "0 \<le> slot_no rid"
    "slot_no rid < num_records_per_page (file_hdr h)"
  shows "\<exists>st'. record_exists t rid st = (Inr (contents st t rid \<noteq> None), st') \<and> calm st st'"
proof (cases "page_no rid < num_pages (file_hdr h)")
  case True
  have "\<not> rid_out_of_file rid (hdr (tab_st st h))" using True rid by (auto simp: rid_out_of_file_def tab_st_fh)
  then obtain s where s: "is_record rid (tab_st st h) = (Inr (recs (tab_st st h) rid \<noteq> None), s)" "untouched (tab_st st h) s"
    using is_record_spec [OF files_ok_rm_inv [OF ok h]] by blast
  from on_file_calm [where op = "is_record rid", OF ok h s] contents_handle [OF h]
  show ?thesis by (simp add: record_exists_def)
next
  case False
  then obtain e where e: "fetch_page_handle (page_no rid) (tab_st st h) = (Inl e, tab_st st h)" "is_RMDBError e"
    using fetch_page_handle_out [of "tab_st st h" "page_no rid"] by (auto simp: tab_st_fh)
  then have r: "is_record rid (tab_st st h) = (Inl e, tab_st st h)" by (simp add: is_record_def)
  have "contents st t rid = None" using False contents_handle [OF h] by (simp add: recs_def rid_out_of_file_def tab_st_fh)
  with on_file_calm [where op = "is_record rid", OF ok h r untouched_refl [OF files_ok_rm_inv [OF ok h]]] e(2)
  show ?thesis by (simp add: record_exists_def)
qed

text \<open>Writing a value into a slot, or clearing it.\<close>

definition slot_written :: "string \<Rightarrow> Rid \<Rightarrow> byte list option \<Rightarrow> sm_state \<Rightarrow> (rmdb_error + unit) \<times> sm_state \<Rightarrow> bool" where
  "slot_written t rid v st res \<longleftrightarrow>
     (\<exists>st'. res = (Inr (), st') \<and> files_ok st' \<and> frame st st' \<and> contents st' = (contents st)(t := (contents st t)(rid := v)))"

lemma slot_writes:
  assumes ok: "files_ok st" and h: "map_of (fhs st) t = Some h" and rid: "RM_FIRST_RECORD_PAGE \<le> page_no rid" "page_no rid < 2147483647"
    "0 \<le> slot_no rid" "slot_no rid < num_records_per_page (file_hdr h)"
  shows "length bs = nat (record_size (file_hdr h)) \<Longrightarrow> slot_written t rid (Some bs) st (put_logged t rid bs st)"
    and "slot_written t rid None st (delete_logged t rid st)"
proof -
  obtain s where s: "record_exists t rid st = (Inr (contents st t rid \<noteq> None), s)" "calm st s"
    using record_exists_spec [OF ok h rid(1,3,4)] by blast
  have f: "files_ok s" "map_of (fhs s) t = Some h" "contents s = contents st" "frame st s" using s(2) h by (simp_all add: calm_def)
  have fin: "slot_written t rid v st res" if "res = (Inr (), s')" "wrote t ((contents s t)(rid := v)) s s'" for v res s'
    using that f(3) frame_trans [OF f(4), of s'] by (auto simp: slot_written_def wrote_def)
  show "slot_written t rid (Some bs) st (put_logged t rid bs st)" if len: "length bs = nat (record_size (file_hdr h))"
  proof (cases "contents st t rid = None")
    case True
    then obtain s' where "on_file t (insert_record_at rid bs) s = (Inr (), s')" "wrote t ((contents s t)(rid \<mapsto> bs)) s s'"
      using tab_insert_record_at [OF f(1,2) _ rid len] f(3) by auto
    then show ?thesis using s(1) True fin [of _ s' "Some bs"] by (simp add: put_logged_def)
  next
    case False
    then obtain s' where "on_file t (update_record rid bs) s = (Inr (), s')" "wrote t ((contents s t)(rid \<mapsto> bs)) s s'"
      using tab_update_record [OF f(1,2) _ len, of rid] f(3) by auto
    then show ?thesis using s(1) False fin [of _ s' "Some bs"] by (simp add: put_logged_def)
  qed
  show "slot_written t rid None st (delete_logged t rid st)"
  proof (cases "contents st t rid = None")
    case True
    then have "(contents st)(t := (contents st t)(rid := None)) = contents st" by (auto simp: fun_eq_iff)
    then show ?thesis using s(1) True f by (simp add: delete_logged_def slot_written_def bind_e_app)
  next
    case False
    then obtain s' where "on_file t (delete_record rid) s = (Inr (), s')" "wrote t ((contents s t)(rid := None)) s s'"
      using tab_delete_record [OF f(1,2), of rid] f(3) by auto
    then show ?thesis using s(1) False fin [of _ s' None] by (simp add: delete_logged_def)
  qed
qed

definition effect :: "db_contents \<Rightarrow> sm_state \<Rightarrow> (rmdb_error + unit) \<times> sm_state \<Rightarrow> bool" where
  "effect c st res \<longleftrightarrow> (\<exists>st'. res = (Inr (), st') \<and> files_ok st' \<and> frame st st' \<and> contents st' = c)"

lemma effect_refl: "files_ok st \<Longrightarrow> effect (contents st) st (ret () st)"
  by (simp add: effect_def)

lemma slot_effect:
  assumes ok: "files_ok st" and l: "loggable_in st r" and r: "target (log_body r) = Some (t, rid)"
  shows "value_after (log_body r) = Some bs \<or> value_before (log_body r) = Some bs \<Longrightarrow>
      effect ((contents st)(t := (contents st t)(rid \<mapsto> bs))) st (put_logged t rid bs st)"
    "effect ((contents st)(t := (contents st t)(rid := None))) st (delete_logged t rid st)"
proof -
  obtain h where h: "map_of (fhs st) t = Some h" using l r by (auto simp: loggable_in_def shape_def split: option.splits)
  have x: "RM_FIRST_RECORD_PAGE \<le> page_no rid" "page_no rid < 2147483647" "0 \<le> slot_no rid" "slot_no rid < num_records_per_page (file_hdr h)"
    and len: "value_after (log_body r) = Some bs \<or> value_before (log_body r) = Some bs \<Longrightarrow> length bs = nat (record_size (file_hdr h))" for bs
    using l r h by (auto simp: loggable_in_def shape_def)
  show "effect ((contents st)(t := (contents st t)(rid \<mapsto> bs))) st (put_logged t rid bs st)"
    if "value_after (log_body r) = Some bs \<or> value_before (log_body r) = Some bs"
    using slot_writes(1) [OF ok h x len [OF that]] by (auto simp: slot_written_def effect_def)
  show "effect ((contents st)(t := (contents st t)(rid := None))) st (delete_logged t rid st)"
    using slot_writes(2) [OF ok h x] by (auto simp: slot_written_def effect_def)
qed

lemma redo_record_spec:
  assumes "files_ok st" and "loggable_in st r"
  shows "effect (if log_tid r \<in> C then did r (contents st) else contents st) st (redo_record C r st)"
  using slot_effect [OF assms] effect_refl [OF assms(1)]
  by (cases "log_body r") (auto simp: redo_record_def did_def set_slot_def logged_table_name_def)

lemma undo_record_spec:
  assumes "files_ok st" and "loggable_in st r"
  shows "effect (if log_tid r \<in> C then undid r (contents st) else contents st) st (undo_record C r st)"
  using slot_effect [OF assms] effect_refl [OF assms(1)]
  by (cases "log_body r") (auto simp: undo_record_def undid_def set_slot_def logged_table_name_def)

lemma loggable_in_frame: "frame st st' \<Longrightarrow> loggable_in st' = loggable_in st"
proof -
  assume "frame st st'"
  then have e: "shape st' = shape st" by (simp add: frame_def)
  show ?thesis unfolding loggable_in_def [abs_def] e by (rule refl)
qed

lemma for_each_effect:
  assumes step: "\<And>st r. files_ok st \<Longrightarrow> loggable_in st r \<Longrightarrow> effect (g r (contents st)) st (f r st)"
    and "files_ok st" and "\<forall>r\<in>set rs. loggable_in st r"
  shows "effect (fold g rs (contents st)) st (for_each rs f st)"
  using assms(2,3)
proof (induction rs arbitrary: st)
  case (Cons r rs)
  obtain s where s: "f r st = (Inr (), s)" "files_ok s" "frame st s" "contents s = g r (contents st)"
    using step [OF Cons.prems(1), of r] Cons.prems(2) by (auto simp: effect_def)
  have "effect (fold g rs (contents s)) s (for_each rs f s)" using Cons.IH [OF s(2)] Cons.prems(2) loggable_in_frame [OF s(3)] by simp
  then show ?case using s frame_trans [OF s(3)] by (auto simp: effect_def)
qed (use effect_refl in auto)

lemma fold_filter: "fold (\<lambda>r c. if P r then g r c else c) rs c = fold g (filter P rs) c"
  by (induction rs arbitrary: c) simp_all

lemma redo_spec:
  assumes "files_ok st" and "\<forall>r\<in>set (rc_logs rc). loggable_in st r"
  shows "effect (fold did (filter (\<lambda>r. log_tid r \<in> committed_txns rc) (rc_logs rc)) (contents st)) st (redo rc st)"
  using for_each_effect [of "\<lambda>r c. if log_tid r \<in> committed_txns rc then did r c else c" "redo_record (committed_txns rc)", OF redo_record_spec assms]
  by (simp add: fold_filter redo_def)

lemma undo_loop_records_spec:
  assumes "files_ok st" and "\<forall>r\<in>set (rc_logs rc). loggable_in st r"
  shows "effect (fold undid (rev (filter (\<lambda>r. log_tid r \<in> active_txns rc) (rc_logs rc))) (contents st)) st
    (for_each (rev (rc_logs rc)) (undo_record (active_txns rc)) st)"
  using for_each_effect [of "\<lambda>r c. if log_tid r \<in> active_txns rc then undid r c else c" "undo_record (active_txns rc)" st "rev (rc_logs rc)",
      OF undo_record_spec assms(1)] assms(2)
  by (simp add: fold_filter rev_filter)

section \<open>Rebuilding the indexes\<close>







section \<open>Histories\<close>

definition touches :: "string \<Rightarrow> Rid \<Rightarrow> LogRecord \<Rightarrow> bool" where
  "touches t rid r \<longleftrightarrow> target (log_body r) = Some (t, rid)"





lemma did_slot:
  "did r c t rid = (if touches t rid r then value_after (log_body r) else c t rid)"
  "undid r c t rid = (if touches t rid r then value_before (log_body r) else c t rid)"
  by (auto simp: did_def undid_def set_slot_def touches_def split: option.splits)

lemma slot_did:
  "fold did rs c t rid = (case rev (filter (touches t rid) rs) of [] \<Rightarrow> c t rid | r # _ \<Rightarrow> value_after (log_body r))"
  by (induction rs rule: rev_induct) (simp_all add: did_slot)

lemma slot_undid:
  "fold undid (rev rs) c t rid = (case filter (touches t rid) rs of [] \<Rightarrow> c t rid | r # _ \<Rightarrow> value_before (log_body r))"
  by (induction rs) (simp_all add: did_slot)









lemmas log_record_defs = BeginLogRecord_def CommitLogRecord_def InsertLogRecord_def new_log_record_def



text \<open>
  C40: recovery takes an aborted transaction back once more. Aborted transactions count as unfinished in the analysis, although their
  changes were taken back before the abort record was written. When another transaction has changed the same record since and has
  committed, \<^verbatim>\<open>redo\<close> leaves its value in the record and \<^verbatim>\<open>undo\<close> then replaces it by the value from before the aborted transaction: the
  committed change is lost.
\<close>

theorem aborted_undone_again:
  assumes ok: "files_ok st" and c: "contents st t rid = Some b"
    and rs: "rs = [BeginLogRecord 1, UpdateLogRecord 1 old a rid t, AbortLogRecord 1,
                   BeginLogRecord 2, UpdateLogRecord 2 old b rid t, CommitLogRecord 2]"
    and l: "\<forall>r\<in>set rs. loggable_in st r"
  shows "\<exists>s1 s2. redo (analysis_of rs) st = (Inr (), s1) \<and> contents s1 t rid = Some b \<and>
    for_each (rev rs) (undo_record (active_txns (analysis_of rs))) s1 = (Inr (), s2) \<and> contents s2 t rid = Some old"
proof -
  let ?rc = "analysis_of rs"
  note defs = BeginLogRecord_def CommitLogRecord_def AbortLogRecord_def UpdateLogRecord_def new_log_record_def
  have tid: "map log_tid rs = [1, 1, 1, 2, 2, 2]" by (simp add: rs defs)
  have u: "unfinished rs 1"
    unfolding unfinished_def by (intro exI [of _ "[]"] exI [of _ "hd rs"] exI [of _ "tl rs"]) (simp add: rs is_commit_def defs)
  have n: "\<not> unfinished rs 2"
  proof -
    have "\<not> unfinished (butlast rs @ [CommitLogRecord 2]) 2" unfolding unfinished_snoc by (simp add: is_commit_def defs)
    then show ?thesis by (simp add: rs)
  qed
  have com: "(\<exists>q\<in>set rs. is_commit i q) \<longleftrightarrow> i = 2" for i by (auto simp: rs is_commit_def defs)
  have sel: "rc_logs ?rc = rs" "\<And>i. i \<in> committed_txns ?rc \<longleftrightarrow> i = 2" "\<And>i. i \<in> active_txns ?rc \<longleftrightarrow> unfinished rs i"
    using com by (simp_all add: analysis_of_def)
  obtain s1 where s1: "redo ?rc st = (Inr (), s1)" "files_ok s1" "frame st s1" "contents s1 = fold did (filter (\<lambda>r. log_tid r = 2) rs) (contents st)"
    using redo_spec [of st ?rc] ok l unfolding sel effect_def by blast
  have b: "contents s1 t rid = Some b" unfolding s1(4) slot_did by (simp add: rs touches_def defs)
  obtain s2 where s2: "for_each (rev rs) (undo_record (active_txns ?rc)) s1 = (Inr (), s2)"
    "contents s2 = fold undid (rev (filter (\<lambda>r. unfinished rs (log_tid r)) rs)) (contents s1)"
    using undo_loop_records_spec [of s1 ?rc] s1(2) l loggable_in_frame [OF s1(3)] unfolding sel effect_def by auto
  have "filter (\<lambda>r. unfinished rs (log_tid r)) rs = filter (\<lambda>r. log_tid r = 1) rs"
    by (rule filter_cong [OF refl]) (use u n in \<open>auto simp: rs defs\<close>)
  then have "contents s2 t rid = Some old" unfolding s2(2) slot_undid by (simp add: rs touches_def defs)
  then show ?thesis using s1(1) b s2(1) by blast
qed

theorem aborted_undone_again_witness:
  "\<exists>st s1 s2 rs. contents st ''t'' (mk_rid 1 0) = Some (replicate 100 8) \<and> redo (analysis_of rs) st = (Inr (), s1) \<and>
     for_each (rev rs) (undo_record (active_txns (analysis_of rs))) s1 = (Inr (), s2) \<and> contents s2 ''t'' (mk_rid 1 0) = Some (replicate 100 7)"
proof -
  obtain st where st: "sm_inv st" "contents st = (\<lambda>_. Map.empty)(''t'' := [mk_rid 1 0 \<mapsto> replicate 100 8])" "kept (sample_sm [sample_tix]) st"
    by (rule sample_filled [of "replicate 100 8"]) simp_all
  let ?rs = "[BeginLogRecord 1, UpdateLogRecord 1 (replicate 100 7) (replicate 100 9) (mk_rid 1 0) ''t'', AbortLogRecord 1,
    BeginLogRecord 2, UpdateLogRecord 2 (replicate 100 7) (replicate 100 8) (mk_rid 1 0) ''t'', CommitLogRecord 2]"
  have "shape st ''t'' = Some (3, 100, num_records_per_page (hdr sample_rm))"
    using st(3) sample_shape(1) [of "[sample_tix]"] by (simp add: kept_def)
  then have "\<forall>r\<in>set ?rs. loggable_in st r"
    using sample_shape(2) by (auto simp: loggable_in_def log_record_defs UpdateLogRecord_def AbortLogRecord_def)
  moreover have c: "contents st ''t'' (mk_rid 1 0) = Some (replicate 100 8)" using st(2) by simp
  ultimately show ?thesis using aborted_undone_again [OF sm_invD(1) [OF st(1)] c refl] c by blast
qed

end
