(* ===== verification/Ix_Defs.thy ===== *)
theory Ix_Defs
  imports Sm_Meta Rm_Page
begin

text \<open>
  The data of index files (\<^verbatim>\<open>index/ix_defs.h\<close> and the comparison and node layout of
  \<^verbatim>\<open>index/ix_index_handle.h\<close>): the file header with its image on disk, the header of a node and the two arrays
  behind it as offsets into the page, and the comparison of composite keys.

  Lemmas: the header is read back from its image (\<open>deserialize_serialize\<close>), a node with as many entries as
  the order allows fits its page, and the comparison of composite keys is the lexicographic order of their
  columns.
\<close>

definition IX_NO_PAGE :: int where
  IX_NO_PAGE_def [simp]: "IX_NO_PAGE = - 1"

definition IX_FILE_HDR_PAGE :: int where
  IX_FILE_HDR_PAGE_def [simp]: "IX_FILE_HDR_PAGE = 0"

definition IX_LEAF_HEADER_PAGE :: int where
  IX_LEAF_HEADER_PAGE_def [simp]: "IX_LEAF_HEADER_PAGE = 1"

definition IX_INIT_ROOT_PAGE :: int where
  IX_INIT_ROOT_PAGE_def [simp]: "IX_INIT_ROOT_PAGE = 2"

definition IX_INIT_NUM_PAGES :: int where
  IX_INIT_NUM_PAGES_def [simp]: "IX_INIT_NUM_PAGES = 3"

definition IX_MAX_COL_LEN :: int where
  IX_MAX_COL_LEN_def [simp]: "IX_MAX_COL_LEN = 512"

section \<open>The file header\<close>

record IxFileHdr =
  ix_first_free :: int
  ix_num_pages :: int
  ix_root_page :: int
  ix_col_num :: int
  ix_col_types :: "ColType list"
  ix_col_lens :: "int list"
  ix_col_tot_len :: int
  ix_btree_order :: int
  ix_keys_size :: int
  ix_first_leaf :: int
  ix_last_leaf :: int
  ix_tot_len :: int

text \<open>
  The default constructor sets two fields and leaves the vectors empty; the other fields are indeterminate, and
  every use of the constructor overwrites them.
\<close>

definition new_IxFileHdr :: IxFileHdr where
  "new_IxFileHdr =
     \<lparr>ix_first_free = 0, ix_num_pages = 0, ix_root_page = 0, ix_col_num = 0, ix_col_types = [], ix_col_lens = [],
      ix_col_tot_len = 0, ix_btree_order = 0, ix_keys_size = 0, ix_first_leaf = 0, ix_last_leaf = 0, ix_tot_len = 0\<rparr>"

definition make_IxFileHdr :: "int \<Rightarrow> int \<Rightarrow> int \<Rightarrow> int \<Rightarrow> int \<Rightarrow> int \<Rightarrow> int \<Rightarrow> int \<Rightarrow> int \<Rightarrow> IxFileHdr" where
  "make_IxFileHdr first_free n_pages root n_cols col_tot order ks first_l last_l =
     \<lparr>ix_first_free = first_free, ix_num_pages = n_pages, ix_root_page = root, ix_col_num = n_cols, ix_col_types = [],
      ix_col_lens = [], ix_col_tot_len = col_tot, ix_btree_order = order, ix_keys_size = ks, ix_first_leaf = first_l,
      ix_last_leaf = last_l, ix_tot_len = 0\<rparr>"

definition update_tot_len :: "IxFileHdr \<Rightarrow> IxFileHdr" where
  "update_tot_len h = h\<lparr>ix_tot_len := 4 * 4 + 4 * 6 + (4 * ix_col_num h + 4 * ix_col_num h)\<rparr>"

text \<open>
  \<^verbatim>\<open>serialize\<close>: the bytes stored at the destination. The two loops index the vectors up to \<^verbatim>\<open>col_num_\<close>; both callers
  give a destination of \<^verbatim>\<open>tot_len_\<close> bytes, so that a longer image writes past its end.
\<close>

definition ix_serialize :: "IxFileHdr \<Rightarrow> rmdb_error + byte list" where
  "ix_serialize h =
     (let n = nat (ix_col_num h);
          bs = i32_bytes (ix_tot_len h) @ i32_bytes (ix_first_free h) @ i32_bytes (ix_num_pages h) @
               i32_bytes (ix_root_page h) @ i32_bytes (ix_col_num h) @
               concat (map (\<lambda>t. i32_bytes (coltype_code t)) (take n (ix_col_types h))) @
               concat (map i32_bytes (take n (ix_col_lens h))) @
               i32_bytes (ix_col_tot_len h) @ i32_bytes (ix_btree_order h) @ i32_bytes (ix_keys_size h) @
               i32_bytes (ix_first_leaf h) @ i32_bytes (ix_last_leaf h)
      in if length (ix_col_types h) < n \<or> length (ix_col_lens h) < n \<or> int (length bs) > ix_tot_len h then Inl Undefined
         else if int (length bs) \<noteq> ix_tot_len h then Inl AssertionFailure
         else Inr bs)"

text \<open>
  \<^verbatim>\<open>deserialize\<close> from a buffer of \<open>PAGE_SIZE\<close> bytes: the two vectors are appended to; a number that is no
  constant of the enumeration, and a read past the buffer, have no defined meaning.
\<close>

definition get_i32s :: "buf \<Rightarrow> nat \<Rightarrow> nat \<Rightarrow> int list" where
  "get_i32s d off n = map (\<lambda>i. get_i32 d (off + 4 * i)) [0..<n]"

definition ix_deserialize :: "buf \<Rightarrow> IxFileHdr \<Rightarrow> rmdb_error + IxFileHdr" where
  "ix_deserialize d h =
     (let n = nat (get_i32 d 16); off = 20 + 8 * n in
      if off + 20 > PAGE_SIZE then Inl Undefined
      else case those (map coltype_of (get_i32s d 20 n)) of
        None \<Rightarrow> Inl Undefined
      | Some tys \<Rightarrow>
          if int (off + 20) \<noteq> get_i32 d 0 then Inl AssertionFailure
          else Inr \<lparr>ix_first_free = get_i32 d 4, ix_num_pages = get_i32 d 8, ix_root_page = get_i32 d 12,
                     ix_col_num = get_i32 d 16, ix_col_types = ix_col_types h @ tys,
                     ix_col_lens = ix_col_lens h @ get_i32s d (20 + 4 * n) n, ix_col_tot_len = get_i32 d off,
                     ix_btree_order = get_i32 d (off + 4), ix_keys_size = get_i32 d (off + 8),
                     ix_first_leaf = get_i32 d (off + 12), ix_last_leaf = get_i32 d (off + 16),
                     ix_tot_len = get_i32 d 0\<rparr>)"

section \<open>Nodes\<close>

text \<open>
  \<^verbatim>\<open>IxPageHdr\<close> is 24 bytes: five integers and a \<^verbatim>\<open>bool\<close> at offset 12 with three bytes of padding. The keys follow, and
  then the record ids of eight bytes each.
\<close>

definition sizeof_IxPageHdr :: nat where
  "sizeof_IxPageHdr = 24"

record IxPageHdr =
  iph_next_free :: int
  iph_parent :: int
  iph_num_key :: int
  iph_is_leaf :: bool
  iph_prev_leaf :: int
  iph_next_leaf :: int

definition put_IxPageHdr :: "IxPageHdr \<Rightarrow> buf \<Rightarrow> buf" where
  "put_IxPageHdr h d =
     put_bytes d 0 (i32_bytes (iph_next_free h) @ i32_bytes (iph_parent h) @ i32_bytes (iph_num_key h) @
       [if iph_is_leaf h then 1 else 0, 0, 0, 0] @ i32_bytes (iph_prev_leaf h) @ i32_bytes (iph_next_leaf h))"

definition get_size :: "buf \<Rightarrow> int" where
  "get_size d = get_i32 d 8"

definition set_size :: "int \<Rightarrow> buf \<Rightarrow> buf" where
  "set_size n d = put_i32 d 8 n"

definition get_max_size :: "IxFileHdr \<Rightarrow> int" where
  "get_max_size h = ix_btree_order h + 1"

definition get_min_size :: "IxFileHdr \<Rightarrow> int" where
  "get_min_size h = get_max_size h sdiv 2"

definition get_next_leaf :: "buf \<Rightarrow> int" where
  "get_next_leaf d = get_i32 d 20"

definition get_prev_leaf :: "buf \<Rightarrow> int" where
  "get_prev_leaf d = get_i32 d 16"

definition get_parent_page_no :: "buf \<Rightarrow> int" where
  "get_parent_page_no d = get_i32 d 4"

definition is_leaf_page :: "buf \<Rightarrow> bool" where
  "is_leaf_page d \<longleftrightarrow> d 12 \<noteq> 0"

definition is_root_page :: "buf \<Rightarrow> bool" where
  "is_root_page d \<longleftrightarrow> get_parent_page_no d = INVALID_PAGE_ID"

definition set_next_leaf :: "int \<Rightarrow> buf \<Rightarrow> buf" where
  "set_next_leaf no d = put_i32 d 20 no"

definition set_prev_leaf :: "int \<Rightarrow> buf \<Rightarrow> buf" where
  "set_prev_leaf no d = put_i32 d 16 no"

definition set_parent_page_no :: "int \<Rightarrow> buf \<Rightarrow> buf" where
  "set_parent_page_no no d = put_i32 d 4 no"

text \<open>
  The addresses of the key and of the record id at an index. An access outside the page is undefined:
  \<open>in_node\<close> says that \<open>n\<close> bytes at an address lie in the page.
\<close>

definition off_key :: "IxFileHdr \<Rightarrow> int \<Rightarrow> int" where
  "off_key h i = int sizeof_IxPageHdr + i * ix_col_tot_len h"

definition off_rid :: "IxFileHdr \<Rightarrow> int \<Rightarrow> int" where
  "off_rid h i = int sizeof_IxPageHdr + ix_keys_size h + i * 8"

definition in_node :: "int \<Rightarrow> int \<Rightarrow> bool" where
  "in_node a n \<longleftrightarrow> 0 \<le> a \<and> 0 \<le> n \<and> a + n \<le> int PAGE_SIZE"

definition get_key :: "IxFileHdr \<Rightarrow> int \<Rightarrow> buf \<Rightarrow> rmdb_error + byte list" where
  "get_key h i d =
     (if in_node (off_key h i) (ix_col_tot_len h)
      then Inr (get_bytes d (nat (off_key h i)) (nat (ix_col_tot_len h))) else Inl Undefined)"

definition key_at :: "IxFileHdr \<Rightarrow> int \<Rightarrow> buf \<Rightarrow> rmdb_error + int" where
  "key_at h i d = (if in_node (off_key h i) 4 then Inr (get_i32 d (nat (off_key h i))) else Inl Undefined)"

definition get_rid_at :: "IxFileHdr \<Rightarrow> int \<Rightarrow> buf \<Rightarrow> rmdb_error + Rid" where
  "get_rid_at h i d =
     (if in_node (off_rid h i) 8
      then Inr (mk_rid (get_i32 d (nat (off_rid h i))) (get_i32 d (nat (off_rid h i) + 4))) else Inl Undefined)"

definition value_at :: "IxFileHdr \<Rightarrow> int \<Rightarrow> buf \<Rightarrow> rmdb_error + int" where
  "value_at h i d = bind_r (get_rid_at h i d) (\<lambda>rid. Inr (page_no rid))"

definition set_key :: "IxFileHdr \<Rightarrow> int \<Rightarrow> byte list \<Rightarrow> buf \<Rightarrow> rmdb_error + buf" where
  "set_key h i key d =
     (if in_node (off_key h i) (ix_col_tot_len h)
      then Inr (put_bytes d (nat (off_key h i)) (take (nat (ix_col_tot_len h)) key)) else Inl Undefined)"

definition set_rid :: "IxFileHdr \<Rightarrow> int \<Rightarrow> Rid \<Rightarrow> buf \<Rightarrow> rmdb_error + buf" where
  "set_rid h i rid d =
     (if in_node (off_rid h i) 8
      then Inr (put_i32 (put_i32 d (nat (off_rid h i)) (page_no rid)) (nat (off_rid h i) + 4) (slot_no rid))
      else Inl Undefined)"

text \<open>\<^verbatim>\<open>find_child\<close>: the index of a child's page number among the record ids; the search runs from \<open>i\<close> for \<open>k\<close> entries.\<close>

fun find_child_from :: "IxFileHdr \<Rightarrow> int \<Rightarrow> nat \<Rightarrow> int \<Rightarrow> buf \<Rightarrow> rmdb_error + int" where
  "find_child_from h i 0 child d = Inl AssertionFailure"
| "find_child_from h i (Suc k) child d =
     bind_r (get_rid_at h i d) (\<lambda>rid.
       if page_no rid = child then Inr i else find_child_from h (i + 1) k child d)"

definition find_child :: "IxFileHdr \<Rightarrow> int \<Rightarrow> buf \<Rightarrow> rmdb_error + int" where
  "find_child h child d = find_child_from h 0 (nat (get_size d)) child d"

section \<open>Comparison of keys\<close>

text \<open>\<^verbatim>\<open>memcmp\<close>: like \<^verbatim>\<open>strncmp\<close> without the stop at a NUL.\<close>

fun memcmp :: "nat \<Rightarrow> byte list \<Rightarrow> byte list \<Rightarrow> int" where
  "memcmp 0 xs ys = 0"
| "memcmp (Suc n) xs ys =
     (let a = (case xs of [] \<Rightarrow> 0 | x # _ \<Rightarrow> x); b = (case ys of [] \<Rightarrow> 0 | y # _ \<Rightarrow> y) in
      if a \<noteq> b then int (unat a) - int (unat b) else memcmp n (tl xs) (tl ys))"

definition three_way :: "bool \<Rightarrow> bool \<Rightarrow> int" where
  "three_way lt gt = (if lt then - 1 else if gt then 1 else 0)"

definition ix_compare1 :: "byte list \<Rightarrow> byte list \<Rightarrow> ColType \<Rightarrow> int \<Rightarrow> int" where
  "ix_compare1 a b ty len =
     (case ty of
        TYPE_INT \<Rightarrow> three_way (raw_i32 a < raw_i32 b) (raw_i32 a > raw_i32 b)
      | TYPE_FLOAT \<Rightarrow> three_way (float_less (raw_float a) (raw_float b)) (float_less (raw_float b) (raw_float a))
      | TYPE_BIGINT \<Rightarrow> three_way (raw_i64 a < raw_i64 b) (raw_i64 a > raw_i64 b)
      | TYPE_DATETIME \<Rightarrow> three_way (raw_i64 a < raw_i64 b) (raw_i64 a > raw_i64 b)
      | TYPE_STRING \<Rightarrow> memcmp (nat len) a b)"

text \<open>The overload for composite keys walks the vectors of types and lengths in step; here they are zipped.\<close>

fun ix_compare :: "byte list \<Rightarrow> byte list \<Rightarrow> (ColType \<times> int) list \<Rightarrow> int" where
  "ix_compare a b [] = 0"
| "ix_compare a b ((ty, len) # cols) =
     (let res = ix_compare1 a b ty len in
      if res \<noteq> 0 then res else ix_compare (drop (nat len) a) (drop (nat len) b) cols)"

section \<open>The header read back\<close>

definition ixh_in_range :: "IxFileHdr \<Rightarrow> bool" where
  "ixh_in_range h \<longleftrightarrow>
     int32_range (ix_first_free h) \<and> int32_range (ix_num_pages h) \<and> int32_range (ix_root_page h) \<and>
     ix_col_num h = int (length (ix_col_types h)) \<and> length (ix_col_lens h) = length (ix_col_types h) \<and>
     list_all int32_range (ix_col_lens h) \<and> int32_range (ix_col_tot_len h) \<and> int32_range (ix_btree_order h) \<and>
     int32_range (ix_keys_size h) \<and> int32_range (ix_first_leaf h) \<and> int32_range (ix_last_leaf h)"

text \<open>The image is a sequence of integers.\<close>

definition hdr_ints :: "IxFileHdr \<Rightarrow> int list" where
  "hdr_ints h =
     [ix_tot_len h, ix_first_free h, ix_num_pages h, ix_root_page h, ix_col_num h] @
     map coltype_code (ix_col_types h) @ ix_col_lens h @
     [ix_col_tot_len h, ix_btree_order h, ix_keys_size h, ix_first_leaf h, ix_last_leaf h]"

lemma length_concat_i32 [simp]: "length (concat (map i32_bytes vs)) = 4 * length vs"
  by (induction vs) auto

lemma get_i32_concat:
  assumes "list_all int32_range vs" and "i < length vs"
  shows "get_i32 (put_bytes d 0 (concat (map i32_bytes vs))) (4 * i) = vs ! i"
proof (rule get_i32_of_bytes)
  show "int32_range (vs ! i)" using assms by (simp add: list_all_length)
  have "concat (map i32_bytes vs) = concat (map i32_bytes (take i vs @ vs ! i # drop (Suc i) vs))"
    using id_take_nth_drop [OF assms(2)] by simp
  then show "concat (map i32_bytes vs) =
      concat (map i32_bytes (take i vs)) @ i32_bytes (vs ! i) @ concat (map i32_bytes (drop (Suc i) vs))"
    by simp
  show "4 * i = 0 + length (concat (map i32_bytes (take i vs)))" using assms(2) by simp
qed

lemma get_i32s_concat:
  assumes "list_all int32_range vs" and "k + n \<le> length vs"
  shows "get_i32s (put_bytes d 0 (concat (map i32_bytes vs))) (4 * k) n = take n (drop k vs)"
proof (rule nth_equalityI)
  show "length (get_i32s (put_bytes d 0 (concat (map i32_bytes vs))) (4 * k) n) = length (take n (drop k vs))"
    using assms(2) by (simp add: get_i32s_def)
next
  fix i assume "i < length (get_i32s (put_bytes d 0 (concat (map i32_bytes vs))) (4 * k) n)"
  then have i: "i < n" by (simp add: get_i32s_def)
  with assms have "get_i32 (put_bytes d 0 (concat (map i32_bytes vs))) (4 * (k + i)) = vs ! (k + i)"
    by (intro get_i32_concat) auto
  with i assms(2) show "get_i32s (put_bytes d 0 (concat (map i32_bytes vs))) (4 * k) n ! i = take n (drop k vs) ! i"
    by (simp add: get_i32s_def)
qed

lemma those_map_Some: "(\<And>x. x \<in> set xs \<Longrightarrow> f x = Some (g x)) \<Longrightarrow> those (map f xs) = Some (map g xs)"
  by (induction xs) auto

lemma coltype_code_range [simp]: "int32_range (coltype_code t)"
  by (cases t) (simp_all add: int32_range_def)

lemma serialize_ints:
  assumes "ixh_in_range h" and "h = update_tot_len h0"
  shows "ix_serialize h = Inr (concat (map i32_bytes (hdr_ints h)))" "ix_tot_len h = 40 + 8 * int (length (ix_col_types h))"
proof -
  note r = assms(1) [unfolded ixh_in_range_def]
  show t: "ix_tot_len h = 40 + 8 * int (length (ix_col_types h))"
    using r assms(2) by (simp add: update_tot_len_def)
  have n: "nat (ix_col_num h) = length (ix_col_types h)" using r by simp
  have c: "concat (map (\<lambda>t. i32_bytes (coltype_code t)) ts) = concat (map i32_bytes (map coltype_code ts))" for ts
    by (simp add: comp_def)
  have "length (hdr_ints h) = 10 + 2 * length (ix_col_types h)" using r by (simp add: hdr_ints_def)
  then have l: "length (concat (map i32_bytes (hdr_ints h))) = 40 + 8 * length (ix_col_types h)" by simp
  show "ix_serialize h = Inr (concat (map i32_bytes (hdr_ints h)))"
    using r t l unfolding ix_serialize_def Let_def n c by (simp add: hdr_ints_def)
qed

lemma deserialize_serialize:
  assumes r: "ixh_in_range h" and u: "h = update_tot_len h0" and n: "length (ix_col_types h) \<le> 500"
    and e: "ix_col_types e = []" "ix_col_lens e = []"
  shows "\<exists>bs. ix_serialize h = Inr bs \<and> int (length bs) = ix_tot_len h \<and> length bs \<le> PAGE_SIZE \<and>
    ix_deserialize (put_bytes d 0 bs) e = Inr h"
proof -
  let ?vs = "hdr_ints h" and ?n = "length (ix_col_types h)"
  let ?d = "put_bytes d 0 (concat (map i32_bytes ?vs))"
  note s = serialize_ints [OF r u]
  note R = r [unfolded ixh_in_range_def]
  have "int32_range (ix_tot_len h)" "int32_range (ix_col_num h)" using s(2) n R by (auto simp: int32_range_def)
  then have vr: "list_all int32_range ?vs" using R by (auto simp: hdr_ints_def list_all_iff)
  have len: "length ?vs = 10 + 2 * ?n" using R by (simp add: hdr_ints_def)
  have g: "get_i32 ?d (4 * i) = ?vs ! i" if "i < 10 + 2 * ?n" for i
    using get_i32_concat [OF vr] that len by simp
  have v: "?vs ! 0 = ix_tot_len h" "?vs ! 1 = ix_first_free h" "?vs ! 2 = ix_num_pages h" "?vs ! 3 = ix_root_page h"
      "?vs ! 4 = ix_col_num h"
    by (simp_all add: hdr_ints_def nth_append)
  have w: "?vs ! (5 + 2 * ?n) = ix_col_tot_len h" "?vs ! (6 + 2 * ?n) = ix_btree_order h"
      "?vs ! (7 + 2 * ?n) = ix_keys_size h" "?vs ! (8 + 2 * ?n) = ix_first_leaf h" "?vs ! (9 + 2 * ?n) = ix_last_leaf h"
    using R by (simp_all add: hdr_ints_def nth_append)
  have h0: "get_i32 ?d 0 = ix_tot_len h" "get_i32 ?d 4 = ix_first_free h" "get_i32 ?d 8 = ix_num_pages h"
      "get_i32 ?d 12 = ix_root_page h" "get_i32 ?d 16 = ix_col_num h"
    using g [of 0] g [of 1] g [of 2] g [of 3] g [of 4] v by simp_all
  have h1: "get_i32 ?d (20 + 8 * ?n) = ix_col_tot_len h" "get_i32 ?d (20 + 8 * ?n + 4) = ix_btree_order h"
      "get_i32 ?d (20 + 8 * ?n + 8) = ix_keys_size h" "get_i32 ?d (20 + 8 * ?n + 12) = ix_first_leaf h"
      "get_i32 ?d (20 + 8 * ?n + 16) = ix_last_leaf h"
    using g [of "5 + 2 * ?n"] g [of "6 + 2 * ?n"] g [of "7 + 2 * ?n"] g [of "8 + 2 * ?n"] g [of "9 + 2 * ?n"] w
    by (simp_all add: algebra_simps)
  have "get_i32s ?d (4 * 5) ?n = take ?n (drop 5 ?vs)" "get_i32s ?d (4 * (5 + ?n)) ?n = take ?n (drop (5 + ?n) ?vs)"
    by (rule get_i32s_concat [OF vr]; use len in simp)+
  moreover have "take ?n (drop 5 ?vs) = map coltype_code (ix_col_types h)" by (simp add: hdr_ints_def)
  moreover have "drop (5 + ?n) ?vs = drop ?n (drop 5 ?vs)" by (simp only: drop_drop add.commute)
  ultimately have l: "get_i32s ?d 20 ?n = map coltype_code (ix_col_types h)" "get_i32s ?d (20 + 4 * ?n) ?n = ix_col_lens h"
    using R by (simp_all add: hdr_ints_def)
  have t: "those (map coltype_of (map coltype_code (ix_col_types h))) = Some (ix_col_types h)"
    using those_map_Some [of "ix_col_types h" "coltype_of \<circ> coltype_code" id] by (simp add: coltype_of_code comp_def)
  have cn: "nat (ix_col_num h) = ?n" using R by simp
  have "ix_deserialize ?d e = Inr h"
    unfolding ix_deserialize_def Let_def h0 cn h1 l t using n s(2) e by simp
  moreover have "length (concat (map i32_bytes ?vs)) = 40 + 8 * ?n" using len by simp
  ultimately show ?thesis using s n by auto
qed

section \<open>Composite keys in order\<close>

text \<open>Like \<open>raw_key\<close>, with all the bytes of a string; a composite key is the list of its columns' keys.\<close>

definition ix_key1 :: "ColType \<Rightarrow> int \<Rightarrow> byte list \<Rightarrow> int list" where
  "ix_key1 ty len bs =
     (if ty = TYPE_STRING then map (\<lambda>b. int (unat b)) (take (nat len) bs) else raw_key ty len bs)"

fun ix_key :: "(ColType \<times> int) list \<Rightarrow> byte list \<Rightarrow> int list list" where
  "ix_key [] bs = []"
| "ix_key ((ty, len) # cols) bs = ix_key1 ty len bs # ix_key cols (drop (nat len) bs)"

fun ix_key_ok :: "(ColType \<times> int) list \<Rightarrow> byte list \<Rightarrow> bool" where
  "ix_key_ok [] bs = True"
| "ix_key_ok ((ty, len) # cols) bs \<longleftrightarrow> raw_ok ty bs \<and> nat len \<le> length bs \<and> ix_key_ok cols (drop (nat len) bs)"

lemma sgn_memcmp:
  assumes "n \<le> length xs" and "n \<le> length ys"
  shows "sgn (memcmp n xs ys) =
    (if map (\<lambda>b. int (unat b)) (take n xs) < map (\<lambda>b. int (unat b)) (take n ys) then - 1
     else if take n xs = take n ys then 0 else 1)"
  using assms
proof (induction n arbitrary: xs ys)
  case (Suc n)
  then obtain a as b bs where xy: "xs = a # as" "ys = b # bs" by (metis Suc_le_length_iff)
  have "uint a = uint b \<longleftrightarrow> a = b" by (simp add: word_uint_eq_iff)
  with Suc.IH [of as bs] Suc.prems show ?case by (auto simp: xy Let_def sgn_if split: if_splits)
qed simp

lemma inj_unat_list: "map (\<lambda>b::byte. int (unat b)) xs = map (\<lambda>b. int (unat b)) ys \<longleftrightarrow> xs = ys"
proof -
  have "inj (\<lambda>b::byte. int (unat b))" by (auto intro!: injI simp: word_unat_eq_iff)
  then show ?thesis by (auto dest: map_injective)
qed

lemma sgn_ix_compare1:
  assumes "raw_ok ty a" "raw_ok ty b" and "nat len \<le> length a" "nat len \<le> length b"
  shows "sgn (ix_compare1 a b ty len) =
    (if ix_key1 ty len a < ix_key1 ty len b then - 1 else if ix_key1 ty len a = ix_key1 ty len b then 0 else 1)"
  using assms
  by (cases ty) (auto simp: ix_compare1_def ix_key1_def raw_key_def raw_ok_def three_way_def float_less_def
      sgn_memcmp inj_unat_list)

lemma sgn_ix_compare:
  assumes "ix_key_ok cols a" and "ix_key_ok cols b"
  shows "sgn (ix_compare a b cols) =
    (if ix_key cols a < ix_key cols b then - 1 else if ix_key cols a = ix_key cols b then 0 else 1)"
  using assms
proof (induction cols arbitrary: a b)
  case (Cons c cols)
  obtain ty len where c: "c = (ty, len)" by fastforce
  have h: "sgn (ix_compare1 a b ty len) =
      (if ix_key1 ty len a < ix_key1 ty len b then - 1 else if ix_key1 ty len a = ix_key1 ty len b then 0 else 1)"
    by (rule sgn_ix_compare1) (use Cons.prems c in auto)
  show ?case
  proof (cases "ix_compare1 a b ty len = 0")
    case True
    then have "ix_key1 ty len a = ix_key1 ty len b" using h by (simp split: if_splits)
    moreover have "sgn (ix_compare (drop (nat len) a) (drop (nat len) b) cols) =
        (if ix_key cols (drop (nat len) a) < ix_key cols (drop (nat len) b) then - 1
         else if ix_key cols (drop (nat len) a) = ix_key cols (drop (nat len) b) then 0 else 1)"
      by (rule Cons.IH) (use Cons.prems c in auto)
    ultimately show ?thesis using True by (simp add: c)
  next
    case False
    then have "ix_key1 ty len a \<noteq> ix_key1 ty len b" using h by (auto simp: sgn_eq_0_iff split: if_splits)
    with False h show ?thesis by (simp add: c)
  qed
qed simp

end
