(* ===== verification/Ix_Index.thy ===== *)
theory Ix_Index
  imports Ix_Defs Page_Cache
begin

text \<open>
  Index files over the buffer pool: \<^verbatim>\<open>IxIndexHandle\<close> (\<^verbatim>\<open>index/ix_index_handle.cpp\<close>), \<^verbatim>\<open>IxManager\<close>
  (\<^verbatim>\<open>index/ix_manager.h\<close>) and \<^verbatim>\<open>IxScan\<close> (\<^verbatim>\<open>index/ix_scan.cpp\<close>). A computation works on an index handle
  together with the pool; a node handle is the frame of its page. The search, insertion and deletion of entries are the
  unfinished bodies of the sources: they return a constant and change nothing.

  Lemmas: a new index file, opened again, has the header that was written and no entry
  (\<open>new_index_reopens\<close>); the leaf list stays linked when a leaf is taken out
  (\<open>erase_leaf_unlinks\<close>); each step of a scan leaves its leaf pinned once more (\<open>ixs_next_leaks_pin\<close>); an index
  file opened by a new process hands out a page that is in use (\<open>reopened_index_reuses_page\<close>).
\<close>

section \<open>State\<close>

record IxIndexHandle =
  ih_fd :: int
  ih_hdr :: IxFileHdr

record Iid =
  iid_page :: int
  iid_slot :: int

abbreviation mk_iid :: "int \<Rightarrow> int \<Rightarrow> Iid" where
  "mk_iid p s \<equiv> \<lparr>iid_page = p, iid_slot = s\<rparr>"

record ix_state =
  ih :: IxIndexHandle
  ix_bpm :: buffer_pool

type_synonym 'a ix_op = "(ix_state, rmdb_error, 'a) sem"

abbreviation ixhdr :: "ix_state \<Rightarrow> IxFileHdr" where
  "ixhdr st \<equiv> ih_hdr (ih st)"

definition on_ix_pool :: "'a pool_op \<Rightarrow> 'a ix_op" where
  "on_ix_pool = zoom ix_bpm (\<lambda>b st. st\<lparr>ix_bpm := b\<rparr>)"

definition node_data :: "frame_id \<Rightarrow> ix_state \<Rightarrow> buf" where
  "node_data f st = get_data (ix_bpm st) f"

definition set_node :: "frame_id \<Rightarrow> buf \<Rightarrow> unit ix_op" where
  "set_node f d = modify_e (\<lambda>st. st\<lparr>ix_bpm := set_data f d (ix_bpm st)\<rparr>)"

definition get_page_no :: "frame_id \<Rightarrow> ix_state \<Rightarrow> int" where
  "get_page_no f st = pg_no (page_id (pages (ix_bpm st) ! f))"

text \<open>\<^verbatim>\<open>buffer_pool_manager_->unpin_page(node->get_page_id(), dirty)\<close>\<close>

definition unpin_node :: "frame_id \<Rightarrow> bool \<Rightarrow> bool ix_op" where
  "unpin_node f dirty st =
     (case unpin_page (page_id (pages (ix_bpm st) ! f)) dirty (ix_bpm st) of (b, bp) \<Rightarrow> (Inr b, st\<lparr>ix_bpm := bp\<rparr>))"

definition update_root_page_no :: "int \<Rightarrow> unit ix_op" where
  "update_root_page_no root = modify_e (\<lambda>st. st\<lparr>ih := (ih st)\<lparr>ih_hdr := (ixhdr st)\<lparr>ix_root_page := root\<rparr>\<rparr>\<rparr>)"

definition is_empty_index :: "ix_state \<Rightarrow> bool" where
  "is_empty_index st \<longleftrightarrow> ix_root_page (ixhdr st) = IX_NO_PAGE"

section \<open>Nodes of an index\<close>

text \<open>\<^verbatim>\<open>fetch_node\<close> and \<^verbatim>\<open>create_node\<close> build a node handle on the page they are given, without a test for \<^verbatim>\<open>nullptr\<close>.\<close>

definition fetch_node :: "int \<Rightarrow> frame_id ix_op" where
  "fetch_node no =
     bind_e (gets_e (\<lambda>st. ih_fd (ih st))) (\<lambda>fd.
     bind_e (on_ix_pool (fetch_page (mk_pid fd no))) (\<lambda>r.
       case r of None \<Rightarrow> throw Undefined | Some f \<Rightarrow> ret f))"

definition add_num_pages :: "int \<Rightarrow> unit ix_op" where
  "add_num_pages k = modify_e (\<lambda>st. st\<lparr>ih := (ih st)\<lparr>ih_hdr := (ixhdr st)\<lparr>ix_num_pages := ix_num_pages (ixhdr st) + k\<rparr>\<rparr>\<rparr>)"

definition create_node :: "frame_id ix_op" where
  "create_node =
     bind_e (add_num_pages 1) (\<lambda>_.
     bind_e (gets_e (\<lambda>st. ih_fd (ih st))) (\<lambda>fd.
     bind_e (on_ix_pool (new_page fd)) (\<lambda>r.
       case r of None \<Rightarrow> throw Undefined | Some (f, pid) \<Rightarrow> ret f)))"

definition release_node_handle :: "unit ix_op" where
  "release_node_handle = add_num_pages (- 1)"

text \<open>
  \<^verbatim>\<open>maintain_parent\<close>: the loop climbs to the root, and each round uses the previous node, which is no longer pinned.
  Only its bound is added: a chain of parents may be a cycle.
\<close>

fun maintain_parent :: "nat \<Rightarrow> frame_id \<Rightarrow> unit ix_op" where
  "maintain_parent 0 cur = throw StepLimit"
| "maintain_parent (Suc fuel) cur =
     bind_e (gets_e (\<lambda>st. get_parent_page_no (node_data cur st))) (\<lambda>p.
       if p = IX_NO_PAGE then ret ()
       else
         bind_e (fetch_node p) (\<lambda>parent.
         bind_e (gets_e (\<lambda>st. (ixhdr st, node_data parent st, node_data cur st, get_page_no cur st))) (\<lambda>(h, dp, dc, no).
         bind_e (lift_r (find_child h no dp)) (\<lambda>rank.
         bind_e (lift_r (get_key h rank dp)) (\<lambda>parent_key.
         bind_e (lift_r (get_key h 0 dc)) (\<lambda>child_first_key.
           if parent_key = child_first_key
           then bind_e (unpin_node parent True) (\<lambda>ok. if ok then ret () else throw AssertionFailure)
           else
             bind_e (lift_r (set_key h rank child_first_key dp)) (\<lambda>d.
             bind_e (set_node parent d) (\<lambda>_.
             bind_e (unpin_node parent True) (\<lambda>ok.
               if ok then maintain_parent fuel parent else throw AssertionFailure)))))))))"

definition erase_leaf :: "frame_id \<Rightarrow> unit ix_op" where
  "erase_leaf leaf =
     bind_e (gets_e (\<lambda>st. is_leaf_page (node_data leaf st))) (\<lambda>l.
       if \<not> l then throw AssertionFailure
       else
         bind_e (gets_e (\<lambda>st. get_prev_leaf (node_data leaf st))) (\<lambda>p.
         bind_e (fetch_node p) (\<lambda>prev.
         bind_e (gets_e (\<lambda>st. (get_next_leaf (node_data leaf st), node_data prev st))) (\<lambda>(n, d).
         bind_e (set_node prev (set_next_leaf n d)) (\<lambda>_.
         bind_e (unpin_node prev True) (\<lambda>_.
         bind_e (gets_e (\<lambda>st. get_next_leaf (node_data leaf st))) (\<lambda>n.
         bind_e (fetch_node n) (\<lambda>next.
         bind_e (gets_e (\<lambda>st. (get_prev_leaf (node_data leaf st), node_data next st))) (\<lambda>(p, d).
         bind_e (set_node next (set_prev_leaf p d)) (\<lambda>_.
         bind_e (unpin_node next True) (\<lambda>_. ret ())))))))))))"

definition maintain_child :: "frame_id \<Rightarrow> int \<Rightarrow> unit ix_op" where
  "maintain_child node child_idx =
     bind_e (gets_e (\<lambda>st. (is_leaf_page (node_data node st), value_at (ixhdr st) child_idx (node_data node st)))) (\<lambda>(l, v).
       if l then ret ()
       else
         bind_e (lift_r v) (\<lambda>child_page_no.
         bind_e (fetch_node child_page_no) (\<lambda>child.
         bind_e (gets_e (\<lambda>st. (get_page_no node st, node_data child st))) (\<lambda>(no, d).
         bind_e (set_node child (set_parent_page_no no d)) (\<lambda>_.
         bind_e (unpin_node child True) (\<lambda>_. ret ()))))))"

text \<open>The record id of an entry; the failing branch leaves the node pinned.\<close>

definition ix_get_rid :: "Iid \<Rightarrow> Rid ix_op" where
  "ix_get_rid iid =
     bind_e (fetch_node (iid_page iid)) (\<lambda>node.
     bind_e (gets_e (\<lambda>st. get_size (node_data node st))) (\<lambda>n.
       if iid_slot iid \<ge> n then throw IndexEntryNotFoundError
       else
         bind_e (unpin_node node False) (\<lambda>_.
         bind_e (gets_e (\<lambda>st. get_rid_at (ixhdr st) (iid_slot iid) (node_data node st))) lift_r)))"

definition leaf_begin :: "ix_state \<Rightarrow> Iid" where
  "leaf_begin st = mk_iid (ix_first_leaf (ixhdr st)) 0"

definition leaf_end :: "Iid ix_op" where
  "leaf_end =
     bind_e (gets_e (\<lambda>st. ix_last_leaf (ixhdr st))) (\<lambda>l.
     bind_e (fetch_node l) (\<lambda>node.
     bind_e (gets_e (\<lambda>st. mk_iid l (get_size (node_data node st)))) (\<lambda>iid.
     bind_e (unpin_node node False) (\<lambda>_. ret iid))))"

section \<open>Entries\<close>

text \<open>
  The bodies of the operations on entries are not written in the sources; what stands there returns a constant.
  \<^verbatim>\<open>remove_and_return_only_child\<close> is complete but calls one of them between its two assertions.
\<close>

definition node_lower_bound :: "frame_id \<Rightarrow> byte list \<Rightarrow> int ix_op" where
  "node_lower_bound node target = ret (- 1)"

definition node_upper_bound :: "frame_id \<Rightarrow> byte list \<Rightarrow> int ix_op" where
  "node_upper_bound node target = ret (- 1)"

definition leaf_lookup :: "frame_id \<Rightarrow> byte list \<Rightarrow> bool ix_op" where
  "leaf_lookup node key = ret False"

definition internal_lookup :: "frame_id \<Rightarrow> byte list \<Rightarrow> int ix_op" where
  "internal_lookup node key = ret (- 1)"

definition insert_pairs :: "frame_id \<Rightarrow> int \<Rightarrow> byte list \<Rightarrow> Rid list \<Rightarrow> int \<Rightarrow> unit ix_op" where
  "insert_pairs node pos key rids n = ret ()"

definition node_insert :: "frame_id \<Rightarrow> byte list \<Rightarrow> Rid \<Rightarrow> int ix_op" where
  "node_insert node key v = ret (- 1)"

definition insert_pair :: "frame_id \<Rightarrow> int \<Rightarrow> byte list \<Rightarrow> Rid \<Rightarrow> unit ix_op" where
  "insert_pair node pos key rid = insert_pairs node pos key [rid] 1"

definition erase_pair :: "frame_id \<Rightarrow> int \<Rightarrow> unit ix_op" where
  "erase_pair node pos = ret ()"

definition node_remove :: "frame_id \<Rightarrow> byte list \<Rightarrow> int ix_op" where
  "node_remove node key = ret (- 1)"

definition remove_and_return_only_child :: "frame_id \<Rightarrow> int ix_op" where
  "remove_and_return_only_child node =
     bind_e (gets_e (\<lambda>st. get_size (node_data node st))) (\<lambda>n.
       if n \<noteq> 1 then throw AssertionFailure
       else
         bind_e (gets_e (\<lambda>st. value_at (ixhdr st) 0 (node_data node st))) (\<lambda>v.
         bind_e (lift_r v) (\<lambda>child_page_no.
         bind_e (erase_pair node 0) (\<lambda>_.
         bind_e (gets_e (\<lambda>st. get_size (node_data node st))) (\<lambda>n.
           if n \<noteq> 0 then throw AssertionFailure else ret child_page_no)))))"

definition find_leaf_page :: "byte list \<Rightarrow> (frame_id option \<times> bool) ix_op" where
  "find_leaf_page key = ret (None, False)"

text \<open>The flag \<^verbatim>\<open>get_value\<close> returns, with the record ids it appends to \<^verbatim>\<open>result\<close>.\<close>

definition get_value :: "byte list \<Rightarrow> (bool \<times> Rid list) ix_op" where
  "get_value key = ret (False, [])"

definition split_node :: "frame_id \<Rightarrow> frame_id option ix_op" where
  "split_node node = ret None"

definition insert_into_parent :: "frame_id \<Rightarrow> byte list \<Rightarrow> frame_id \<Rightarrow> unit ix_op" where
  "insert_into_parent old_node key new_node = ret ()"

definition ix_insert_entry :: "byte list \<Rightarrow> Rid \<Rightarrow> int ix_op" where
  "ix_insert_entry key v = ret (- 1)"

definition ix_delete_entry :: "byte list \<Rightarrow> bool ix_op" where
  "ix_delete_entry key = ret False"

definition coalesce_or_redistribute :: "frame_id \<Rightarrow> bool ix_op" where
  "coalesce_or_redistribute node = ret False"

definition adjust_root :: "frame_id \<Rightarrow> bool ix_op" where
  "adjust_root old_root_node = ret False"

definition redistribute :: "frame_id \<Rightarrow> frame_id \<Rightarrow> frame_id \<Rightarrow> int \<Rightarrow> unit ix_op" where
  "redistribute neighbor_node node parent index = ret ()"

definition coalesce :: "frame_id \<Rightarrow> frame_id \<Rightarrow> frame_id \<Rightarrow> int \<Rightarrow> bool ix_op" where
  "coalesce neighbor_node node parent index = ret False"

definition ix_lower_bound :: "byte list \<Rightarrow> Iid ix_op" where
  "ix_lower_bound key = ret (mk_iid (- 1) (- 1))"

definition ix_upper_bound :: "byte list \<Rightarrow> Iid ix_op" where
  "ix_upper_bound key = ret (mk_iid (- 1) (- 1))"

section \<open>\<^verbatim>\<open>IxScan\<close>\<close>

record IxScan =
  ixs_iid :: Iid
  ixs_end :: Iid

definition new_IxScan :: "Iid \<Rightarrow> Iid \<Rightarrow> IxScan" where
  "new_IxScan lower upper = \<lparr>ixs_iid = lower, ixs_end = upper\<rparr>"

definition ixs_is_end :: "IxScan \<Rightarrow> bool" where
  "ixs_is_end sc \<longleftrightarrow> ixs_iid sc = ixs_end sc"

definition ixs_next :: "IxScan \<Rightarrow> IxScan ix_op" where
  "ixs_next sc =
     (if ixs_is_end sc then throw AssertionFailure
      else
        bind_e (fetch_node (iid_page (ixs_iid sc))) (\<lambda>node.
        bind_e (gets_e (\<lambda>st. (node_data node st, ix_last_leaf (ixhdr st)))) (\<lambda>(d, last_leaf).
          if \<not> is_leaf_page d \<or> iid_slot (ixs_iid sc) \<ge> get_size d then throw AssertionFailure
          else
            let s = iid_slot (ixs_iid sc) + 1 in
            ret (sc\<lparr>ixs_iid := (if iid_page (ixs_iid sc) \<noteq> last_leaf \<and> s = get_size d
                               then mk_iid (get_next_leaf d) 0 else mk_iid (iid_page (ixs_iid sc)) s)\<rparr>))))"

definition ixs_rid :: "IxScan \<Rightarrow> Rid ix_op" where
  "ixs_rid sc = ix_get_rid (ixs_iid sc)"

section \<open>\<^verbatim>\<open>IxManager\<close>\<close>

text \<open>
  The constructor of a handle: it first reads the bytes of the header page over its own pointer, which the next
  statements set, and then the whole page.
\<close>

definition new_IxIndexHandle :: "int \<Rightarrow> IxIndexHandle disk_op" where
  "new_IxIndexHandle fd dm =
     (case read_page fd IX_FILE_HDR_PAGE zero_buf 8 dm of
        (Inl e, b, dm1) \<Rightarrow> (Inl e, dm1)
      | (Inr _, b, dm1) \<Rightarrow>
          (case read_page fd IX_FILE_HDR_PAGE zero_buf PAGE_SIZE dm1 of
             (Inl e, b, dm2) \<Rightarrow> (Inl e, dm2)
           | (Inr _, b, dm2) \<Rightarrow>
               (case ix_deserialize b new_IxFileHdr of
                  Inl e \<Rightarrow> (Inl e, dm2)
                | Inr h \<Rightarrow>
                    (Inr \<lparr>ih_fd = fd, ih_hdr = h\<rparr>, set_fd2pageno fd (get_fd2pageno fd dm2 + 1) dm2))))"

fun join_cols :: "string list \<Rightarrow> string" where
  "join_cols [] = ''''"
| "join_cols (c # cs) = ''_'' @ c @ join_cols cs"

definition get_index_name :: "string \<Rightarrow> string list \<Rightarrow> string" where
  "get_index_name filename index_cols = filename @ join_cols index_cols @ ''.idx''"

definition index_exists :: "string \<Rightarrow> string list \<Rightarrow> disk_manager \<Rightarrow> bool" where
  "index_exists filename index_cols dm = is_file (get_index_name filename index_cols) dm"

text \<open>The total length of the key columns; an \<^verbatim>\<open>int\<close> sum that leaves its range is undefined.\<close>

fun sum_lens :: "int \<Rightarrow> ColMeta list \<Rightarrow> rmdb_error + int" where
  "sum_lens acc [] = Inr acc"
| "sum_lens acc (col # cols) =
     (if int32_range (acc + cm_len col) then sum_lens (acc + cm_len col) cols else Inl Undefined)"

text \<open>
  The order of the tree is computed in \<^verbatim>\<open>size_t\<close>, where a negative length is a huge number, and converted back.
\<close>

definition btree_order_of :: "int \<Rightarrow> rmdb_error + int" where
  "btree_order_of tot =
     (let u = (tot + 8) mod 2 ^ 64 in
      if u = 0 then Inl Undefined
      else Inr (int32_of (((int PAGE_SIZE - int sizeof_IxPageHdr) div u - 1) mod 2 ^ 64)))"

definition index_hdr :: "ColMeta list \<Rightarrow> int \<Rightarrow> int \<Rightarrow> IxFileHdr" where
  "index_hdr index_cols tot order =
     update_tot_len ((make_IxFileHdr IX_NO_PAGE IX_INIT_NUM_PAGES IX_INIT_ROOT_PAGE (int (length index_cols)) tot order
        ((order + 1) * tot) IX_INIT_ROOT_PAGE IX_INIT_ROOT_PAGE)
        \<lparr>ix_col_types := map cm_type index_cols, ix_col_lens := map cm_len index_cols\<rparr>)"

definition new_leaf_page :: "int \<Rightarrow> buf" where
  "new_leaf_page neighbour =
     put_IxPageHdr \<lparr>iph_next_free = IX_NO_PAGE, iph_parent = IX_NO_PAGE, iph_num_key = 0, iph_is_leaf = True,
       iph_prev_leaf = neighbour, iph_next_leaf = neighbour\<rparr> zero_buf"

definition ix_create_index :: "string \<Rightarrow> ColMeta list \<Rightarrow> unit disk_op" where
  "ix_create_index filename index_cols =
     (let ix_name = get_index_name filename (map cm_name index_cols) in
      bind_e (create_file ix_name) (\<lambda>_.
      bind_e (open_file ix_name) (\<lambda>fd.
      bind_e (lift_r (sum_lens 0 index_cols)) (\<lambda>tot.
        if tot > IX_MAX_COL_LEN then throw (InvalidColLengthError tot)
        else
          bind_e (lift_r (btree_order_of tot)) (\<lambda>order.
            if \<not> order > 2 then throw AssertionFailure
            else
              let fhdr = index_hdr index_cols tot order in
              bind_e (lift_r (ix_serialize fhdr)) (\<lambda>bs.
              bind_e (write_page fd IX_FILE_HDR_PAGE (put_bytes zero_buf 0 bs) (nat (ix_tot_len fhdr))) (\<lambda>_.
              bind_e (write_page fd IX_LEAF_HEADER_PAGE (new_leaf_page IX_INIT_ROOT_PAGE) PAGE_SIZE) (\<lambda>_.
              bind_e (write_page fd IX_INIT_ROOT_PAGE (new_leaf_page IX_LEAF_HEADER_PAGE) PAGE_SIZE) (\<lambda>_.
              bind_e (modify_e (set_fd2pageno fd (IX_INIT_NUM_PAGES - 1))) (\<lambda>_.
              close_file fd))))))))))"

definition destroy_index :: "string \<Rightarrow> string list \<Rightarrow> unit disk_op" where
  "destroy_index filename index_cols = destroy_file (get_index_name filename index_cols)"

definition open_index :: "string \<Rightarrow> string list \<Rightarrow> IxIndexHandle disk_op" where
  "open_index filename index_cols = bind_e (open_file (get_index_name filename index_cols)) new_IxIndexHandle"

definition close_index :: "IxIndexHandle \<Rightarrow> unit pool_op" where
  "close_index h =
     bind_e (lift_r (ix_serialize (ih_hdr h))) (\<lambda>bs.
     bind_e (on_disk (write_page (ih_fd h) IX_FILE_HDR_PAGE (put_bytes zero_buf 0 bs) (nat (ix_tot_len (ih_hdr h))))) (\<lambda>_.
     bind_e (flush_all_pages (ih_fd h)) (\<lambda>_.
     on_disk (close_file (ih_fd h)))))"

section \<open>A new index file\<close>

text \<open>The file that \<^verbatim>\<open>create_index\<close> leaves: the header, the head of the leaf list and the root, which is a leaf.\<close>

definition index_file :: "byte list \<Rightarrow> os_file" where
  "index_file bs =
     file_write (2 * PAGE_SIZE) (new_leaf_page IX_LEAF_HEADER_PAGE) PAGE_SIZE
       (file_write (1 * PAGE_SIZE) (new_leaf_page IX_INIT_ROOT_PAGE) PAGE_SIZE
         (file_write (0 * PAGE_SIZE) (put_bytes zero_buf 0 bs) (length bs) \<lparr>fbytes = zero_buf, fsize = 0\<rparr>))"

text \<open>The columns an index can have, with the order of its tree.\<close>

definition cols_fit :: "ColMeta list \<Rightarrow> int \<Rightarrow> int \<Rightarrow> bool" where
  "cols_fit cols tot order \<longleftrightarrow>
     length cols \<le> 500 \<and> list_all (\<lambda>c. int32_range (cm_len c)) cols \<and> sum_lens 0 cols = Inr tot \<and>
     0 \<le> tot \<and> tot \<le> IX_MAX_COL_LEN \<and> btree_order_of tot = Inr order"

lemma btree_order_bounds:
  assumes "0 \<le> tot" and "tot \<le> 512" and "btree_order_of tot = Inr order"
  shows "order = 4072 div (tot + 8) - 1" "2 < order" "order \<le> 508" "24 + (order + 1) * tot + (order + 1) * 8 \<le> int PAGE_SIZE"
proof -
  have u: "(tot + 8) mod 2 ^ 64 = tot + 8" using assms(1,2) by (intro mod_pos_pos_trivial) auto
  have "4072 div 520 \<le> 4072 div (tot + 8)" using assms(1,2) by (intro zdiv_mono2) auto
  then have lo: "7 \<le> 4072 div (tot + 8)" by simp
  have "4072 div (tot + 8) \<le> 4072 div 8" using assms(1) by (intro zdiv_mono2) auto
  then have hi: "4072 div (tot + 8) \<le> 509" by simp
  have m: "(4072 div (tot + 8) - 1) mod 18446744073709551616 = 4072 div (tot + 8) - 1"
    using lo hi by (intro mod_pos_pos_trivial) auto
  have "int32_of (4072 div (tot + 8) - 1) = 4072 div (tot + 8) - 1"
    using lo hi unfolding int32_of_def by (intro signed_unsigned) auto
  then show o: "order = 4072 div (tot + 8) - 1"
    using assms(1,3) by (simp only: btree_order_of_def Let_def u) (simp add: m sizeof_IxPageHdr_def split: if_splits)
  show "2 < order" "order \<le> 508" using o lo hi by simp_all
  have "(4072 div (tot + 8)) * (tot + 8) + 4072 mod (tot + 8) = 4072" by (rule div_mult_mod_eq)
  moreover have "0 \<le> 4072 mod (tot + 8)" using assms(1) by simp
  ultimately have "(4072 div (tot + 8)) * (tot + 8) \<le> 4072" by linarith
  then show "24 + (order + 1) * tot + (order + 1) * 8 \<le> int PAGE_SIZE" by (simp add: o algebra_simps)
qed

lemma index_hdr_in_range:
  assumes "cols_fit cols tot order"
  shows "ixh_in_range (index_hdr cols tot order)"
proof -
  note c = assms [unfolded cols_fit_def]
  have b: "2 < order" "order \<le> 508" "24 + (order + 1) * tot + (order + 1) * 8 \<le> int PAGE_SIZE"
    using btree_order_bounds [of tot order] c by auto
  have "0 \<le> (order + 1) * tot" using b c by simp
  then have "int32_range ((order + 1) * tot)" using b by (simp add: int32_range_def)
  with b c show ?thesis
    by (auto simp: ixh_in_range_def index_hdr_def update_tot_len_def make_IxFileHdr_def list_all_iff) (auto simp: int32_range_def)
qed

lemma index_hdr_image:
  assumes "cols_fit cols tot order"
  obtains bs where "ix_serialize (index_hdr cols tot order) = Inr bs" "nat (ix_tot_len (index_hdr cols tot order)) = length bs"
    "length bs \<le> PAGE_SIZE" "8 \<le> length bs" "ix_deserialize (put_bytes zero_buf 0 bs) new_IxFileHdr = Inr (index_hdr cols tot order)"
proof -
  let ?h = "index_hdr cols tot order"
  have u: "?h = update_tot_len ?h" by (simp add: index_hdr_def update_tot_len_def)
  have l: "length (ix_col_types ?h) \<le> 500"
    using assms by (simp add: index_hdr_def update_tot_len_def cols_fit_def)
  obtain bs where bs: "ix_serialize ?h = Inr bs" "int (length bs) = ix_tot_len ?h" "length bs \<le> PAGE_SIZE"
      "ix_deserialize (put_bytes zero_buf 0 bs) new_IxFileHdr = Inr ?h"
    using deserialize_serialize [OF index_hdr_in_range [OF assms] u l, of new_IxFileHdr zero_buf]
    by (auto simp: new_IxFileHdr_def)
  moreover have "8 \<le> length bs" using bs(2) by (simp add: index_hdr_def update_tot_len_def make_IxFileHdr_def)
  ultimately show thesis by (intro that) auto
qed

lemma ix_create_index_eq:
  assumes inv: "dm_inv dm" and nf: "no_faults dm" and fit: "cols_fit cols tot order"
    and name: "name = get_index_name filename (map cm_name cols)" "nodes (sys dm) name = None"
    and fd: "lowest_fd (sys dm) = Some fd" and bs: "ix_serialize (index_hdr cols tot order) = Inr bs"
  shows "ix_create_index filename cols dm =
    (Inr (), dm\<lparr>fd2pageno := (fd2pageno dm)(fd := 2), sys := (sys dm)\<lparr>nodes := (nodes (sys dm))(name \<mapsto> Reg (index_file bs))\<rparr>\<rparr>)"
proof -
  note free = lowest_fd_SomeD [OF fd]
  have len: "nat (ix_tot_len (index_hdr cols tot order)) = length bs"
    using index_hdr_image [OF fit] bs by (metis sum.inject(2))
  have ord: "2 < order" using btree_order_bounds(2) [of tot order] fit by (simp add: cols_fit_def)
  have io: "io_fail (sys dm) = {}" using nf by (simp add: no_faults_def)
  have nof: "fd2path dm fd = None" using inv free(1) unfolding dm_inv_def by (metis not_None_eq)
  have nop: "path2fd dm name = None"
    using inv name(2) unfolding dm_inv_def os_is_reg_def by (metis not_None_eq option.simps(4))
  let ?f0 = "\<lparr>fbytes = zero_buf, fsize = 0\<rparr>"
  let ?sys = "\<lambda>f fs. (sys dm)\<lparr>nodes := (nodes (sys dm))(name \<mapsto> Reg f), fds := fs\<rparr>"
  let ?dm = "\<lambda>f k. dm\<lparr>path2fd := (path2fd dm)(name \<mapsto> fd), fd2path := (fd2path dm)(fd \<mapsto> name),
     sys := ?sys f ((fds (sys dm))(fd \<mapsto> \<lparr>fpath = name, fpos = k\<rparr>))\<rparr>"
  have c: "create_file name dm = (Inr (), dm\<lparr>sys := ?sys ?f0 (fds (sys dm))\<rparr>)"
    using io free name(2) fd
    by (simp add: create_file_def is_file_def os_is_reg_def os_creat_excl_def os_close_def fun_upd_idem)
  have "lowest_fd (?sys ?f0 (fds (sys dm))) = Some fd" using fd by (simp add: lowest_fd_def)
  then have o: "open_file name (dm\<lparr>sys := ?sys ?f0 (fds (sys dm))\<rparr>) = (Inr fd, ?dm ?f0 0)"
    using io free nop by (simp add: open_file_def is_file_def os_is_reg_def os_open_def)
  have w: "write_page fd no d n (?dm f k) = (Inr (), ?dm (file_write (nat no * PAGE_SIZE) d n f) (nat no * PAGE_SIZE + n))"
    if "0 \<le> no" for no d n f k
    by (subst write_page_eq [where p = name and e = "\<lparr>fpath = name, fpos = k\<rparr>" and f = f])
      (use that io in \<open>simp_all add: no_faults_def\<close>)
  have cl: "close_file fd (set_fd2pageno fd 2 (?dm f k)) =
      (Inr (), dm\<lparr>fd2pageno := (fd2pageno dm)(fd := 2), sys := ?sys f (fds (sys dm))\<rparr>)" for f k
    using io free nof nop by (simp add: close_file_def os_close_def set_fd2pageno_def fun_upd_idem)
  show ?thesis
    using fit ord c o w cl bs len
    by (simp add: ix_create_index_def Let_def name(1) [symmetric] cols_fit_def index_file_def)
qed

lemma index_file_pages:
  assumes "length bs \<le> PAGE_SIZE" and "0 < length bs"
  shows "fsize (index_file bs) = 3 * PAGE_SIZE"
    and "i < PAGE_SIZE \<Longrightarrow> fbytes (index_file bs) i = put_bytes zero_buf 0 bs i"
    and "i < PAGE_SIZE \<Longrightarrow> fbytes (index_file bs) (PAGE_SIZE + i) = new_leaf_page IX_INIT_ROOT_PAGE i"
    and "i < PAGE_SIZE \<Longrightarrow> fbytes (index_file bs) (2 * PAGE_SIZE + i) = new_leaf_page IX_LEAF_HEADER_PAGE i"
  using assms by (auto simp: index_file_def file_write_def put_bytes_def)

lemma open_index_eq:
  assumes inv: "dm_inv dm" and nf: "no_faults dm" and fd: "lowest_fd (sys dm) = Some fd"
    and name: "name = get_index_name filename cs" "path2fd dm name = None"
    and node: "nodes (sys dm) name = Some (Reg (index_file bs))" and len: "8 \<le> length bs" "length bs \<le> PAGE_SIZE"
    and des: "ix_deserialize (put_bytes zero_buf 0 bs) new_IxFileHdr = Inr h"
  obtains dm' where "open_index filename cs dm = (Inr \<lparr>ih_fd = fd, ih_hdr = h\<rparr>, dm')"
    "dm' = dm\<lparr>path2fd := (path2fd dm)(name \<mapsto> fd), fd2path := (fd2path dm)(fd \<mapsto> name),
       fd2pageno := (fd2pageno dm)(fd := fd2pageno dm fd + 1),
       sys := (sys dm)\<lparr>fds := (fds (sys dm))(fd \<mapsto> \<lparr>fpath = name, fpos = PAGE_SIZE\<rparr>)\<rparr>\<rparr>"
proof -
  note free = lowest_fd_SomeD [OF fd]
  have io: "io_fail (sys dm) = {}" using nf by (simp add: no_faults_def)
  have "0 < length bs" using len(1) by linarith
  note F = index_file_pages [OF len(2) this]
  let ?dm = "\<lambda>k. dm\<lparr>path2fd := (path2fd dm)(name \<mapsto> fd), fd2path := (fd2path dm)(fd \<mapsto> name),
     sys := (sys dm)\<lparr>fds := (fds (sys dm))(fd \<mapsto> \<lparr>fpath = name, fpos = k\<rparr>)\<rparr>\<rparr>"
  have o: "open_file name dm = (Inr fd, ?dm 0)"
    using io free node name(2) fd by (simp add: open_file_def is_file_def os_is_reg_def os_open_def)
  have r: "read_page fd 0 zero_buf n (?dm k) = (Inr (), (\<lambda>i. if i < n then put_bytes zero_buf 0 bs i else 0), ?dm n)"
    if "n \<le> PAGE_SIZE" for n k
    using io node that F(1,2) len
    by (auto simp: read_page_def os_lseek_set_def os_read_def Let_def fun_eq_iff min_def)
  have "(\<lambda>i. if i < PAGE_SIZE then put_bytes zero_buf 0 bs i else 0) = put_bytes zero_buf 0 bs"
    using len by (auto simp: fun_eq_iff put_bytes_def)
  then have "new_IxIndexHandle fd (?dm 0) =
      (Inr \<lparr>ih_fd = fd, ih_hdr = h\<rparr>, set_fd2pageno fd (get_fd2pageno fd (?dm PAGE_SIZE) + 1) (?dm PAGE_SIZE))"
    using r [of 8 0] r [of PAGE_SIZE 8] des by (simp add: new_IxIndexHandle_def)
  then show thesis using o name(1)
    by (intro that) (simp_all add: open_index_def set_fd2pageno_def get_fd2pageno_def)
qed

section \<open>Access to nodes\<close>

text \<open>A pinned page stays in its frame when another page is fetched.\<close>

lemma fetch_page_keeps_frame:
  assumes wf: "bp_wf bp" and q: "map_of (page_table bp) q = Some g" "0 < pin_count (pages bp ! g)"
    and r: "fetch_page pid bp = (Inr (Some f), bp')"
  shows "map_of (page_table bp') q = Some g"
proof (cases "map_of (page_table bp) pid")
  case (Some k)
  with r q show ?thesis by (auto simp: fetch_page_def)
next
  case None
  with q have ne: "q \<noteq> pid" by auto
  from wf show ?thesis
  proof (cases rule: find_victim_page_cases)
    case none
    with None r show ?thesis by (simp add: fetch_page_def)
  next
    case (some v bp1)
    have "v \<noteq> g" using some(3,5) q bp_wfD(4,5) [OF wf q(1)] by (auto simp: detached_def)
    then have "map_of (page_table (evicted v bp1)) q = Some g"
      using table_evicted [OF some(2,3), of q g] some(6) q by simp
    moreover obtain bp2 where "page_table bp2 = page_table bp1" "pages bp2 = pages bp1"
        "page_table bp' = page_table (installed v pid (evicted v bp2))"
    proof -
      obtain x bp2 where w: "writeback v bp1 = (x, bp2)" by fastforce
      obtain dm where dm: "bp2 = bp1\<lparr>disk := dm\<rparr>" using w by (rule writeback_disk)
      have "page_table bp' = page_table (installed v pid (evicted v bp2))"
        using r None some(1) w
        by (auto simp: fetch_page_def update_page_alt bind_e_app read_into_def pin_frame_def split: sum.splits prod.splits)
      then show thesis using that dm by simp
    qed
    ultimately show ?thesis using ne by (auto simp: table_installed evicted_def)
  qed
qed

lemma fetch_node_ok:
  assumes ok: "bp_ok (ix_bpm st)" and v: "view (ix_bpm st) (mk_pid (ih_fd (ih st)) no) = Some d"
    and room: "card {q. 0 < pins (ix_bpm st) q} < pool_size (ix_bpm st)"
  obtains f bp' where "fetch_node no st = (Inr f, st\<lparr>ix_bpm := bp'\<rparr>)" "bp_ok bp'" "view (ix_bpm st) \<subseteq>\<^sub>m view bp'"
    "pins bp' = (pins (ix_bpm st))(mk_pid (ih_fd (ih st)) no := pins (ix_bpm st) (mk_pid (ih_fd (ih st)) no) + 1)"
    "map_of (page_table bp') (mk_pid (ih_fd (ih st)) no) = Some f" "get_data bp' f = d"
    "page_id (pages bp' ! f) = mk_pid (ih_fd (ih st)) no" "pool_size bp' = pool_size (ix_bpm st)"
    "pins (ix_bpm st) (mk_pid (ih_fd (ih st)) no) = 0 \<longrightarrow> saved bp' (mk_pid (ih_fd (ih st)) no)"
    "fetch_page (mk_pid (ih_fd (ih st)) no) (ix_bpm st) = (Inr (Some f), bp')"
proof -
  let ?pid = "mk_pid (ih_fd (ih st)) no"
  obtain f bp' where F: "fetch_page ?pid (ix_bpm st) = (Inr (Some f), bp')" "bp_ok bp'" "view (ix_bpm st) \<subseteq>\<^sub>m view bp'"
    "pins bp' = (pins (ix_bpm st))(?pid := pins (ix_bpm st) ?pid + 1)" "map_of (page_table bp') ?pid = Some f"
    "get_data bp' f = d" "pool_size bp' = pool_size (ix_bpm st)" "pins (ix_bpm st) ?pid = 0 \<longrightarrow> saved bp' ?pid"
    by (rule fetch_page_ok [OF ok v room]) blast
  have "fetch_node no st = (Inr f, st\<lparr>ix_bpm := bp'\<rparr>)"
    using F(1) by (simp add: fetch_node_def on_ix_pool_def)
  moreover have "page_id (pages bp' ! f) = ?pid" using bp_wfD(4) [OF bp_okD(1) [OF F(2)] F(5)] .
  ultimately show thesis using that F by blast
qed

text \<open>
  Fetch, store and unpin of a node: the page has the new contents, every other page is as before, nothing stays
  pinned in addition, and a page \<open>q\<close> that was pinned before is still in its frame.
\<close>

definition frame_of :: "ix_state \<Rightarrow> PageId \<Rightarrow> frame_id \<Rightarrow> buf \<Rightarrow> bool" where
  "frame_of st q g d \<longleftrightarrow> map_of (page_table (ix_bpm st)) q = Some g \<and> 0 < pins (ix_bpm st) q \<and> view (ix_bpm st) q = Some d"

lemma frame_ofD:
  assumes "frame_of st q g d"
  shows "node_data g st = d"
  using assms by (auto simp: frame_of_def view_def node_data_def get_data_def)

definition after_write :: "ix_state \<Rightarrow> PageId \<Rightarrow> buf \<Rightarrow> ix_state \<Rightarrow> bool" where
  "after_write st pid d st' \<longleftrightarrow>
     bp_ok (ix_bpm st') \<and> ih st' = ih st \<and> pins (ix_bpm st') = pins (ix_bpm st) \<and>
     pool_size (ix_bpm st') = pool_size (ix_bpm st) \<and> (view (ix_bpm st))(pid \<mapsto> d) \<subseteq>\<^sub>m view (ix_bpm st')"

lemma write_node:
  assumes ok: "bp_ok (ix_bpm st)" and v: "view (ix_bpm st) (mk_pid (ih_fd (ih st)) no) = Some d"
    and room: "card {q. 0 < pins (ix_bpm st) q} < pool_size (ix_bpm st)"
    and q: "frame_of st q g e" "q \<noteq> mk_pid (ih_fd (ih st)) no" and d': "clip_page d' = d'"
  obtains f st1 st2 st3 where "fetch_node no st = (Inr f, st1)" "node_data f st1 = d" "node_data g st1 = e" "ih st1 = ih st"
    "set_node f d' st1 = (Inr (), st2)" "unpin_node f True st2 = (Inr True, st3)"
    "after_write st (mk_pid (ih_fd (ih st)) no) d' st3" "frame_of st3 q g e"
proof -
  let ?pid = "mk_pid (ih_fd (ih st)) no" and ?bp = "ix_bpm st"
  obtain f bp1 where F: "fetch_node no st = (Inr f, st\<lparr>ix_bpm := bp1\<rparr>)" "bp_ok bp1" "view ?bp \<subseteq>\<^sub>m view bp1"
    "pins bp1 = (pins ?bp)(?pid := pins ?bp ?pid + 1)" "map_of (page_table bp1) ?pid = Some f" "get_data bp1 f = d"
    "page_id (pages bp1 ! f) = ?pid" "pool_size bp1 = pool_size ?bp" "fetch_page ?pid ?bp = (Inr (Some f), bp1)"
    by (rule fetch_node_ok [OF ok v room]) blast
  note Q = q(1) [unfolded frame_of_def]
  have "0 < pin_count (pages ?bp ! g)" using Q by (auto simp: pins_def)
  with Q have m1: "map_of (page_table bp1) q = Some g"
    using fetch_page_keeps_frame [OF bp_okD(1) [OF ok] _ _ F(9)] by blast
  have v1: "view bp1 q = Some e" using F(3) Q by (force simp: map_le_def dom_def)
  have p: "0 < pins bp1 ?pid" using F(4) pool.pinned_nonneg [OF ok, of ?pid] by simp
  note S = pool.store_law [OF F(2,5) p, of d']
  have pt: "page_table (set_data f d' bp1) = page_table bp1" "page_id (pages (set_data f d' bp1) ! f) = ?pid"
    using F(7) bp_wfD(1,3) [OF bp_okD(1) [OF F(2)]] F(5) by (simp_all add: set_data_def set_page_def)
  have p2: "0 < pins (set_data f d' bp1) ?pid" using S p by simp
  have ok2: "bp_ok (set_data f d' bp1)" using S by blast
  have tr: "True \<or> saved (set_data f d' bp1) ?pid \<or> 1 < pins (set_data f d' bp1) ?pid" by simp
  obtain bp3 where U: "unpin_page ?pid True (set_data f d' bp1) = (True, bp3)" "bp_ok bp3"
    "view bp3 = view (set_data f d' bp1)" "pins bp3 = (pins (set_data f d' bp1))(?pid := pins (set_data f d' bp1) ?pid - 1)"
    "page_table bp3 = page_table (set_data f d' bp1)" "pool_size bp3 = pool_size (set_data f d' bp1)"
    by (rule unpin_page_ok [OF ok2 p2 tr])
  have vw: "view bp3 = (view bp1)(?pid \<mapsto> d')" and pn: "pins bp3 = pins ?bp" using U S F(4) d' by auto
  have ps: "pool_size bp3 = pool_size ?bp" using U(6) S F(8) by simp
  have "(view ?bp)(?pid \<mapsto> d') \<subseteq>\<^sub>m (view bp1)(?pid \<mapsto> d')" using F(3) by (auto simp: map_le_def)
  then have "after_write st ?pid d' (st\<lparr>ix_bpm := bp3\<rparr>)"
    using U(2) ps by (simp add: after_write_def vw pn)
  moreover have "frame_of (st\<lparr>ix_bpm := bp3\<rparr>) q g e"
    using m1 v1 vw pn U(5) pt Q q(2) by (simp add: frame_of_def)
  moreover have "node_data g (st\<lparr>ix_bpm := bp1\<rparr>) = e"
    using m1 v1 by (simp add: node_data_def view_def get_data_def)
  ultimately show thesis
    using F(1,6) U(1) pt(2)
    by (intro that [of f "st\<lparr>ix_bpm := bp1\<rparr>" "st\<lparr>ix_bpm := set_data f d' bp1\<rparr>" "st\<lparr>ix_bpm := bp3\<rparr>"])
      (simp_all add: node_data_def set_node_def unpin_node_def)
qed

lemma view_clipped: "bp_ok bp \<Longrightarrow> view bp pid = Some d \<Longrightarrow> clip_page d = d"
  using bp_cohD(5) [OF bp_okD(2)] disk_page_clipped by (fastforce simp: view_def split: option.splits)

lemma clip_put_i32: "clip_page d = d \<Longrightarrow> off + 4 \<le> PAGE_SIZE \<Longrightarrow> clip_page (put_i32 d off v) = put_i32 d off v"
  by (auto simp: clip_page_def fun_eq_iff put_i32_def put_bytes_def)

lemma after_write_room:
  "after_write st pid d st' \<Longrightarrow> card {q. 0 < pins (ix_bpm st) q} < pool_size (ix_bpm st) \<Longrightarrow>
     card {q. 0 < pins (ix_bpm st') q} < pool_size (ix_bpm st')"
  by (simp add: after_write_def)

lemma after_write_view:
  "after_write st pid d st' \<Longrightarrow> view (ix_bpm st') pid = Some d"
  "after_write st pid d st' \<Longrightarrow> q \<noteq> pid \<Longrightarrow> view (ix_bpm st) q = Some e \<Longrightarrow> view (ix_bpm st') q = Some e"
  by (force simp: after_write_def map_le_def dom_def)+

lemma leaf_link_simps:
  "int32_range n \<Longrightarrow> get_next_leaf (set_next_leaf n d) = n" "int32_range n \<Longrightarrow> get_prev_leaf (set_prev_leaf n d) = n"
  "get_prev_leaf (set_next_leaf n d) = get_prev_leaf d" "get_next_leaf (set_prev_leaf n d) = get_next_leaf d"
  by (simp_all add: get_next_leaf_def set_next_leaf_def get_prev_leaf_def set_prev_leaf_def byte_simps)

lemma clip_leaf_links:
  "clip_page d = d \<Longrightarrow> clip_page (set_next_leaf n d) = set_next_leaf n d"
  "clip_page d = d \<Longrightarrow> clip_page (set_prev_leaf n d) = set_prev_leaf n d"
  by (simp_all add: set_next_leaf_def set_prev_leaf_def clip_put_i32)

text \<open>
  \<^verbatim>\<open>erase_leaf\<close> on a pinned leaf takes it out of the doubly linked list: its predecessor and its successor point to
  each other, and no other page changes; the two may be the same page.
\<close>

theorem erase_leaf_unlinks:
  assumes ok: "bp_ok (ix_bpm st)" and room: "card {q. 0 < pins (ix_bpm st) q} < pool_size (ix_bpm st)"
    and leaf: "frame_of st (mk_pid (ih_fd (ih st)) no) leaf d" "is_leaf_page d"
    and p: "get_prev_leaf d = p" "p \<noteq> no" "view (ix_bpm st) (mk_pid (ih_fd (ih st)) p) = Some dp"
    and n: "get_next_leaf d = n" "n \<noteq> no" "view (ix_bpm st) (mk_pid (ih_fd (ih st)) n) = Some dn"
  shows "\<exists>st' dp' dn'. erase_leaf leaf st = (Inr (), st') \<and> bp_ok (ix_bpm st') \<and> pins (ix_bpm st') = pins (ix_bpm st) \<and>
    view (ix_bpm st') (mk_pid (ih_fd (ih st)) p) = Some dp' \<and> get_next_leaf dp' = n \<and>
    view (ix_bpm st') (mk_pid (ih_fd (ih st)) n) = Some dn' \<and> get_prev_leaf dn' = p \<and>
    (p \<noteq> n \<longrightarrow> get_prev_leaf dp' = get_prev_leaf dp \<and> get_next_leaf dn' = get_next_leaf dn) \<and>
    (\<forall>q e. q \<noteq> mk_pid (ih_fd (ih st)) p \<longrightarrow> q \<noteq> mk_pid (ih_fd (ih st)) n \<longrightarrow> view (ix_bpm st) q = Some e \<longrightarrow>
       view (ix_bpm st') q = Some e)"
proof -
  let ?P = "\<lambda>k. mk_pid (ih_fd (ih st)) k"
  have r: "int32_range n" "int32_range p" using p(1) n(1) by (auto simp: get_next_leaf_def get_prev_leaf_def get_i32_range)
  have cp: "clip_page (set_next_leaf n dp) = set_next_leaf n dp"
    using view_clipped [OF ok p(3)] by (rule clip_leaf_links)
  obtain f1 a1 a2 a3 where A: "fetch_node p st = (Inr f1, a1)" "node_data f1 a1 = dp" "node_data leaf a1 = d" "ih a1 = ih st"
    "set_node f1 (set_next_leaf n dp) a1 = (Inr (), a2)" "unpin_node f1 True a2 = (Inr True, a3)"
    "after_write st (?P p) (set_next_leaf n dp) a3" "frame_of a3 (?P no) leaf d"
    by (rule write_node [OF ok p(3) room leaf(1) _ cp]) (use p(2) in auto)
  have okA: "bp_ok (ix_bpm a3)" and ihA: "ih a3 = ih st" using A(7) by (auto simp: after_write_def)
  define dm where "dm = (if p = n then set_next_leaf n dp else dn)"
  have vn: "view (ix_bpm a3) (mk_pid (ih_fd (ih a3)) n) = Some dm"
    using after_write_view [OF A(7)] n(3) ihA by (cases "p = n") (simp_all add: dm_def)
  have cn: "clip_page (set_prev_leaf p dm) = set_prev_leaf p dm"
    using view_clipped [OF okA vn] by (rule clip_leaf_links)
  have frA: "frame_of a3 (mk_pid (ih_fd (ih a3)) no) leaf d" using A(8) ihA by simp
  obtain f2 b1 b2 b3 where B: "fetch_node n a3 = (Inr f2, b1)" "node_data f2 b1 = dm" "node_data leaf b1 = d" "ih b1 = ih a3"
    "set_node f2 (set_prev_leaf p dm) b1 = (Inr (), b2)" "unpin_node f2 True b2 = (Inr True, b3)"
    "after_write a3 (?P n) (set_prev_leaf p dm) b3"
    by (rule write_node [OF okA vn after_write_room [OF A(7) room] frA _ cn]) (use n(2) ihA in auto)
  have run: "erase_leaf leaf st = (Inr (), b3)"
    using A(1-3,5,6) B(1-3,5,6) leaf(2) p(1) n(1) frame_ofD [OF leaf(1)] frame_ofD [OF A(8)]
    by (simp add: erase_leaf_def)
  have okB: "bp_ok (ix_bpm b3)" "pins (ix_bpm b3) = pins (ix_bpm st)"
    using B(7) A(7) by (auto simp: after_write_def)
  have oth: "view (ix_bpm b3) q = Some e" if "q \<noteq> ?P p" "q \<noteq> ?P n" "view (ix_bpm st) q = Some e" for q e
    using after_write_view(2) [OF B(7) that(2)] after_write_view(2) [OF A(7) that(1,3)] by blast
  have vN: "view (ix_bpm b3) (?P n) = Some (set_prev_leaf p dm)" by (rule after_write_view(1) [OF B(7)])
  show ?thesis
  proof (cases "p = n")
    case True
    then show ?thesis using run okB oth vN r by (auto simp: dm_def leaf_link_simps)
  next
    case False
    then have "view (ix_bpm b3) (?P p) = Some (set_next_leaf n dp)"
      using after_write_view(2) [OF B(7) _ after_write_view(1) [OF A(7)]] by simp
    with False show ?thesis using run okB oth vN r by (auto simp: dm_def leaf_link_simps)
  qed
qed

section \<open>Properties\<close>

text \<open>A pool over a disk manager in which nothing is cached yet.\<close>

lemma new_pool_view:
  "view (new_BufferPoolManager fd0 k dm) = (\<lambda>pid. disk_page dm (pg_fd pid) (pg_no pid))"
  "pins (new_BufferPoolManager fd0 k dm) = (\<lambda>_. 0)" "cached (new_BufferPoolManager fd0 k dm) = {}"
  "pool_size (new_BufferPoolManager fd0 k dm) = k" "disk (new_BufferPoolManager fd0 k dm) = dm"
  by (simp_all add: new_BufferPoolManager_def view_def pins_def cached_def fun_eq_iff)

lemma new_leaf_page_fields:
  assumes "int32_range n"
  shows "get_size (new_leaf_page n) = 0" "is_leaf_page (new_leaf_page n)" "clip_page (new_leaf_page n) = new_leaf_page n"
    "get_next_leaf (new_leaf_page n) = n" "get_prev_leaf (new_leaf_page n) = n"
proof -
  let ?a = "i32_bytes (- 1) @ i32_bytes (- 1)" and ?b = "[1, 0, 0, 0] :: byte list"
  have "get_size (new_leaf_page n) = 0"
    unfolding get_size_def new_leaf_page_def put_IxPageHdr_def
    by (rule get_i32_of_bytes [where xs = ?a and zs = "?b @ i32_bytes n @ i32_bytes n"]) (simp_all add: int32_range_def)
  moreover have "get_prev_leaf (new_leaf_page n) = n"
    unfolding get_prev_leaf_def new_leaf_page_def put_IxPageHdr_def
    by (rule get_i32_of_bytes [where xs = "?a @ i32_bytes 0 @ ?b" and zs = "i32_bytes n"]) (simp_all add: assms)
  moreover have "get_next_leaf (new_leaf_page n) = n"
    unfolding get_next_leaf_def new_leaf_page_def put_IxPageHdr_def
    by (rule get_i32_of_bytes [where xs = "?a @ i32_bytes 0 @ ?b @ i32_bytes n" and zs = "[]"]) (simp_all add: assms)
  moreover have "is_leaf_page (new_leaf_page n)" "clip_page (new_leaf_page n) = new_leaf_page n"
    by (auto simp: is_leaf_page_def new_leaf_page_def put_IxPageHdr_def put_bytes_def nth_append clip_page_def fun_eq_iff)
  ultimately show "get_size (new_leaf_page n) = 0" "is_leaf_page (new_leaf_page n)"
    "clip_page (new_leaf_page n) = new_leaf_page n"
    "get_next_leaf (new_leaf_page n) = n" "get_prev_leaf (new_leaf_page n) = n" by blast+
qed

lemma index_pages:
  assumes "fd2path dm fd = Some name" and "nodes (sys dm) name = Some (Reg (index_file bs))"
    and "8 \<le> length bs" and "length bs \<le> PAGE_SIZE"
  shows "disk_page dm fd 1 = Some (new_leaf_page 2)" "disk_page dm fd 2 = Some (new_leaf_page 1)"
proof -
  have "0 < length bs" using assms(3) by linarith
  note F = index_file_pages [OF assms(4) this]
  have c: "new_leaf_page k i = 0" if "int32_range k" "\<not> i < PAGE_SIZE" for k i
    using fun_cong [OF new_leaf_page_fields(3) [OF that(1)], of i] that(2) by (simp add: clip_page_def)
  have "(\<lambda>i. if i < PAGE_SIZE then fbytes (index_file bs) (nat 1 * PAGE_SIZE + i) else 0) = new_leaf_page 2"
    using F(3) c [of 2] by (auto simp: fun_eq_iff int32_range_def)
  then show "disk_page dm fd 1 = Some (new_leaf_page 2)" using assms(1,2) F(1) by (simp add: disk_page_def)
  have "(\<lambda>i. if i < PAGE_SIZE then fbytes (index_file bs) (nat 2 * PAGE_SIZE + i) else 0) = new_leaf_page 1"
    using F(4) c [of 1] by (auto simp: fun_eq_iff int32_range_def)
  then show "disk_page dm fd 2 = Some (new_leaf_page 1)" using assms(1,2) F(1) by (simp add: disk_page_def)
qed

text \<open>The end of the leaf list of an index whose last leaf is the untouched root.\<close>

lemma leaf_end_empty:
  assumes ok: "bp_ok (ix_bpm st)" and room: "card {q. 0 < pins (ix_bpm st) q} < pool_size (ix_bpm st)"
    and v: "view (ix_bpm st) (mk_pid (ih_fd (ih st)) (ix_last_leaf (ixhdr st))) = Some (new_leaf_page k)"
    and p0: "pins (ix_bpm st) (mk_pid (ih_fd (ih st)) (ix_last_leaf (ixhdr st))) = 0" and k: "int32_range k"
  shows "\<exists>st'. leaf_end st = (Inr (mk_iid (ix_last_leaf (ixhdr st)) 0), st') \<and> pins (ix_bpm st') = pins (ix_bpm st)"
proof -
  let ?pid = "mk_pid (ih_fd (ih st)) (ix_last_leaf (ixhdr st))"
  obtain f bp' where F: "fetch_node (ix_last_leaf (ixhdr st)) st = (Inr f, st\<lparr>ix_bpm := bp'\<rparr>)" "bp_ok bp'"
    "pins bp' = (pins (ix_bpm st))(?pid := pins (ix_bpm st) ?pid + 1)" "get_data bp' f = new_leaf_page k"
    "page_id (pages bp' ! f) = ?pid" "pins (ix_bpm st) ?pid = 0 \<longrightarrow> saved bp' ?pid"
    by (rule fetch_node_ok [OF ok v room]) blast
  have "0 < pins bp' ?pid" "False \<or> saved bp' ?pid \<or> 1 < pins bp' ?pid" using F(3,6) p0 by auto
  then obtain bp2 where U: "unpin_page ?pid False bp' = (True, bp2)" "pins bp2 = (pins bp')(?pid := pins bp' ?pid - 1)"
    using unpin_page_ok [OF F(2)] by metis
  then show ?thesis using F new_leaf_page_fields(1) [OF k]
    by (simp add: leaf_end_def node_data_def unpin_node_def fun_upd_idem)
qed

text \<open>
  A node with one entry more than the order of the tree fits its page: behind the page header the keys, then the record ids, none of them
  overlapping another.
\<close>

definition node_fits :: "IxFileHdr \<Rightarrow> bool" where
  "node_fits h \<longleftrightarrow> (\<forall>i j. 0 \<le> i \<and> i \<le> ix_btree_order h \<and> 0 \<le> j \<and> j \<le> ix_btree_order h \<longrightarrow>
     int sizeof_IxPageHdr \<le> off_key h i \<and> off_key h i + ix_col_tot_len h \<le> off_rid h j \<and> off_rid h j + 8 \<le> int PAGE_SIZE \<and>
     (i < j \<longrightarrow> off_key h i + ix_col_tot_len h \<le> off_key h j \<and> off_rid h i + 8 \<le> off_rid h j))"

lemma sum_lens_sum: "sum_lens acc cols = Inr tot \<Longrightarrow> tot = acc + sum_list (map cm_len cols)"
  by (induction acc cols rule: sum_lens.induct) (auto split: if_splits)

lemma next_multiple: "q * b + r = (a :: int) \<Longrightarrow> r < b \<Longrightarrow> a < (q + 1) * b"
  by (simp add: algebra_simps)

lemma node_fitsI:
  assumes "0 \<le> ix_col_tot_len h" and "ix_keys_size h = (ix_btree_order h + 1) * ix_col_tot_len h"
    and "24 + (ix_btree_order h + 1) * ix_col_tot_len h + (ix_btree_order h + 1) * 8 \<le> int PAGE_SIZE"
  shows "node_fits h"
  unfolding node_fits_def
proof (intro allI impI)
  fix i j assume b: "0 \<le> i \<and> i \<le> ix_btree_order h \<and> 0 \<le> j \<and> j \<le> ix_btree_order h"
  have "(i + 1) * ix_col_tot_len h \<le> (ix_btree_order h + 1) * ix_col_tot_len h" "0 \<le> i * ix_col_tot_len h"
    using b assms(1) by (simp_all add: mult_right_mono)
  moreover have "(i + 1) * ix_col_tot_len h \<le> j * ix_col_tot_len h" if "i < j" using that assms(1) by (intro mult_right_mono) simp_all
  ultimately show "int sizeof_IxPageHdr \<le> off_key h i \<and> off_key h i + ix_col_tot_len h \<le> off_rid h j \<and> off_rid h j + 8 \<le> int PAGE_SIZE \<and>
     (i < j \<longrightarrow> off_key h i + ix_col_tot_len h \<le> off_key h j \<and> off_rid h i + 8 \<le> off_rid h j)"
    using b assms(2,3) by (auto simp: off_key_def off_rid_def sizeof_IxPageHdr_def algebra_simps)
qed

text \<open>The header of a new index, and the order of its tree, the largest for which a node with one more entry fits a page.\<close>

lemma index_hdr_fields:
  assumes "cols_fit cols tot order"
  shows "index_hdr cols tot order = \<lparr>ix_first_free = - 1, ix_num_pages = 3, ix_root_page = 2, ix_col_num = int (length cols),
      ix_col_types = map cm_type cols, ix_col_lens = map cm_len cols, ix_col_tot_len = sum_list (map cm_len cols), ix_btree_order = order,
      ix_keys_size = (order + 1) * sum_list (map cm_len cols), ix_first_leaf = 2, ix_last_leaf = 2, ix_tot_len = 40 + 8 * int (length cols)\<rparr>"
    and "node_fits (index_hdr cols tot order)" and "2 < order" and "int PAGE_SIZE < 24 + (order + 2) * (sum_list (map cm_len cols) + 8)"
proof -
  have tot: "tot = sum_list (map cm_len cols)" "0 \<le> tot" using assms sum_lens_sum [of 0 cols tot] by (simp_all add: cols_fit_def)
  note o = btree_order_bounds [of tot order]
  show "index_hdr cols tot order = \<lparr>ix_first_free = - 1, ix_num_pages = 3, ix_root_page = 2, ix_col_num = int (length cols),
      ix_col_types = map cm_type cols, ix_col_lens = map cm_len cols, ix_col_tot_len = sum_list (map cm_len cols), ix_btree_order = order,
      ix_keys_size = (order + 1) * sum_list (map cm_len cols), ix_first_leaf = 2, ix_last_leaf = 2, ix_tot_len = 40 + 8 * int (length cols)\<rparr>"
    using tot(1) by (simp add: index_hdr_def update_tot_len_def make_IxFileHdr_def)
  show "node_fits (index_hdr cols tot order)"
    by (rule node_fitsI) (use o(4) assms tot(2) in \<open>simp_all add: cols_fit_def index_hdr_def update_tot_len_def make_IxFileHdr_def\<close>)
  show "2 < order" using o(2) assms by (simp add: cols_fit_def)
  have "4072 < (4072 div (tot + 8) + 1) * (tot + 8)"
    by (rule next_multiple [OF div_mult_mod_eq pos_mod_bound]) (use tot(2) in simp)
  moreover have "order = 4072 div (tot + 8) - 1" using o(1) assms by (simp add: cols_fit_def)
  ultimately have "4072 < (order + 2) * (tot + 8)" by (simp add: add.commute)
  then show "int PAGE_SIZE < 24 + (order + 2) * (sum_list (map cm_len cols) + 8)" using tot(1) by simp
qed

text \<open>
  C24: an index file that \<^verbatim>\<open>create_index\<close> made is opened by \<^verbatim>\<open>open_index\<close> with the header it was created with, in every field: no free
  page, three pages, the root and the only leaf on page 2, the columns in their order with their total length, and the size of the keys. The order
  of the tree is the largest for which a node with one entry more fits a page, and in such a node the page header, the keys and the record
  ids do not overlap. The next page number is the first behind the three pages of the file, the leaf list is empty (the first and the last position of a scan
  are the same), and no page of any other open file has changed.
\<close>

theorem new_index_reopens:
  assumes "dm_inv dm" and "no_faults dm" and "cols_fit cols tot order" and "lowest_fd (sys dm) = Some fd"
    and "nodes (sys dm) (get_index_name filename (map cm_name cols)) = None" and "0 < k"
  shows "\<exists>dm1 dm2 h. ix_create_index filename cols dm = (Inr (), dm1) \<and> dm_inv dm1 \<and>
    open_index filename (map cm_name cols) dm1 = (Inr h, dm2) \<and> ih_fd h = fd \<and>
    ih_hdr h = \<lparr>ix_first_free = - 1, ix_num_pages = 3, ix_root_page = 2, ix_col_num = int (length cols), ix_col_types = map cm_type cols,
      ix_col_lens = map cm_len cols, ix_col_tot_len = sum_list (map cm_len cols), ix_btree_order = order,
      ix_keys_size = (order + 1) * sum_list (map cm_len cols), ix_first_leaf = 2, ix_last_leaf = 2,
      ix_tot_len = 40 + 8 * int (length cols)\<rparr> \<and>
    node_fits (ih_hdr h) \<and> 2 < order \<and> int PAGE_SIZE < 24 + (order + 2) * (sum_list (map cm_len cols) + 8) \<and> fd2pageno dm2 fd = 3 \<and>
    (\<exists>st'. leaf_end \<lparr>ih = h, ix_bpm = new_BufferPoolManager fd0 k dm2\<rparr> =
       (Inr (leaf_begin \<lparr>ih = h, ix_bpm = new_BufferPoolManager fd0 k dm2\<rparr>), st')) \<and>
    (\<forall>g no e. disk_page dm g no = Some e \<longrightarrow> disk_page dm2 g no = Some e)"
proof -
  let ?h = "index_hdr cols tot order" and ?name = "get_index_name filename (map cm_name cols)"
  obtain bs where bs: "ix_serialize ?h = Inr bs" "length bs \<le> PAGE_SIZE" "8 \<le> length bs"
      "ix_deserialize (put_bytes zero_buf 0 bs) new_IxFileHdr = Inr ?h"
    by (rule index_hdr_image [OF assms(3)])
  define dm1 where "dm1 = dm\<lparr>fd2pageno := (fd2pageno dm)(fd := 2),
     sys := (sys dm)\<lparr>nodes := (nodes (sys dm))(?name \<mapsto> Reg (index_file bs))\<rparr>\<rparr>"
  have cr: "ix_create_index filename cols dm = (Inr (), dm1)"
    unfolding dm1_def by (rule ix_create_index_eq [OF assms(1,2,3) refl assms(5,4) bs(1)])
  have nop: "path2fd dm ?name = None"
    using assms(1,5) unfolding dm_inv_def os_is_reg_def by (metis not_None_eq option.simps(4))
  have "dm_inv (dm\<lparr>sys := (sys dm)\<lparr>nodes := (nodes (sys dm))(?name \<mapsto> Reg (index_file bs))\<rparr>\<rparr>)"
    by (rule dm_inv_sys [OF assms(1)]) (auto simp: os_is_reg_def)
  then have i1: "dm_inv dm1" by (simp add: dm1_def dm_inv_def)
  have d1: "no_faults dm1" "lowest_fd (sys dm1) = Some fd" "path2fd dm1 ?name = None"
      "nodes (sys dm1) ?name = Some (Reg (index_file bs))" "fd2pageno dm1 fd = 2"
    using assms(2,4) nop by (simp_all add: dm1_def no_faults_def lowest_fd_def)
  obtain dm2 where op: "open_index filename (map cm_name cols) dm1 = (Inr \<lparr>ih_fd = fd, ih_hdr = ?h\<rparr>, dm2)"
    and dm2: "dm2 = dm1\<lparr>path2fd := (path2fd dm1)(?name \<mapsto> fd), fd2path := (fd2path dm1)(fd \<mapsto> ?name),
       fd2pageno := (fd2pageno dm1)(fd := fd2pageno dm1 fd + 1),
       sys := (sys dm1)\<lparr>fds := (fds (sys dm1))(fd \<mapsto> \<lparr>fpath = ?name, fpos = PAGE_SIZE\<rparr>)\<rparr>\<rparr>"
    by (rule open_index_eq [OF i1 d1(1,2) refl d1(3,4) bs(3,2,4)])
  have i2: "dm_inv dm2" "no_faults dm2"
  proof -
    show "no_faults dm2" using d1(1) by (simp add: dm2 no_faults_def)
    have "fds (sys dm1) fd = None" by (rule lowest_fd_SomeD [OF d1(2)])
    then have "fd2path dm1 fd = None" using i1 unfolding dm_inv_def by (metis not_None_eq)
    moreover have "\<And>g. fd2path dm1 g \<noteq> Some ?name" using i1 d1(3) unfolding dm_inv_def by (metis option.distinct(1))
    ultimately show "dm_inv dm2" using i1 d1(3,4) unfolding dm2 dm_inv_def os_is_reg_def by simp
  qed
  have pg: "disk_page dm2 fd 2 = Some (new_leaf_page 1)"
    by (rule index_pages(2) [where name = ?name and bs = bs]) (use d1(4) bs in \<open>simp_all add: dm2\<close>)
  have hd: "ix_last_leaf ?h = 2" "ix_first_leaf ?h = 2" "ix_num_pages ?h = 3" by (simp_all add: index_hdr_def update_tot_len_def make_IxFileHdr_def)
  let ?st = "\<lparr>ih = \<lparr>ih_fd = fd, ih_hdr = ?h\<rparr>, ix_bpm = new_BufferPoolManager fd0 k dm2\<rparr>"
  have "\<exists>st'. leaf_end ?st = (Inr (mk_iid (ix_last_leaf (ixhdr ?st)) 0), st') \<and> pins (ix_bpm st') = pins (ix_bpm ?st)"
    by (rule leaf_end_empty [where k = 1])
      (use i2 pg assms(6) in \<open>simp_all add: bp_ok_new new_pool_view hd int32_range_def\<close>)
  moreover have "leaf_begin ?st = mk_iid (ix_last_leaf (ixhdr ?st)) 0" by (simp add: leaf_begin_def hd)
  moreover have "disk_page dm2 g no = Some e" if "disk_page dm g no = Some e" for g no e
  proof -
    have "fds (sys dm) fd = None" by (rule lowest_fd_SomeD [OF assms(4)])
    then have "fd2path dm fd = None" using assms(1) unfolding dm_inv_def by (metis not_None_eq)
    then have "g \<noteq> fd" "fd2path dm g \<noteq> Some ?name"
      using that assms(1,5) unfolding dm_inv_def os_is_reg_def disk_page_def by (auto split: option.splits)
    with that show ?thesis by (auto simp: dm2 dm1_def disk_page_def split: option.splits)
  qed
  moreover have "fd2pageno dm2 fd = 3" using d1(5) by (simp add: dm2)
  ultimately show ?thesis using cr i1 op index_hdr_fields(2-4) [OF assms(3)] unfolding index_hdr_fields(1) [OF assms(3), symmetric]
    by (intro exI [of _ dm1] exI [of _ dm2] exI [of _ "\<lparr>ih_fd = fd, ih_hdr = ?h\<rparr>"]) auto
qed

definition sample_index_cols :: "ColMeta list" where
  "sample_index_cols = [sample_col ''t'' ''a'' TYPE_INT 4 0 True, sample_col ''t'' ''b'' TYPE_STRING 8 4 True]"

lemma sample_index_cols_fit: "cols_fit sample_index_cols 12 202"
  by (simp add: cols_fit_def sample_index_cols_def sample_col_def int32_range_def btree_order_of_def Let_def
      sizeof_IxPageHdr_def int32_of_def signed_of_def unsigned_of_def)

theorem new_index_reopens_witness:
  "\<exists>dm1 dm2 h. ix_create_index ''t'' sample_index_cols sample_dm = (Inr (), dm1) \<and>
     open_index ''t'' (map cm_name sample_index_cols) dm1 = (Inr h, dm2) \<and> ih_fd h = 0 \<and>
     ix_col_types (ih_hdr h) = [TYPE_INT, TYPE_STRING] \<and> ix_btree_order (ih_hdr h) = 202 \<and> ix_keys_size (ih_hdr h) = 2436 \<and> node_fits (ih_hdr h)"
proof -
  have fd: "lowest_fd (sys sample_dm) = Some 0"
    by (simp add: lowest_fd_def sample_dm_def sample_os_def upt_rec)
  have nm: "nodes (sys sample_dm) (get_index_name ''t'' (map cm_name sample_index_cols)) = None"
    by (simp add: sample_dm_def sample_os_def get_index_name_def sample_index_cols_def sample_col_def LOG_FILE_NAME_def)
  show ?thesis
    using new_index_reopens [OF sample_dm_ok(1,2) sample_index_cols_fit fd nm zero_less_one, of 0]
    by (auto simp: sample_index_cols_def sample_col_def)
qed

section \<open>Defects\<close>

text \<open>
  \<^verbatim>\<open>fd2pageno\<close> is not kept on disk, and the constructor adds one to whatever it holds: in a new process it is 0, so that
  the first node created in a reopened index is given page 1, the head of the leaf list, and erases it.
\<close>

theorem reopened_index_reuses_page:
  assumes "dm_inv dm" and "no_faults dm" and "lowest_fd (sys dm) = Some fd" and "fd < MAX_FD" and "fd2pageno dm fd = 0"
    and "name = get_index_name filename cs" and "path2fd dm name = None"
    and "nodes (sys dm) name = Some (Reg (index_file bs))" and "8 \<le> length bs" and "length bs \<le> PAGE_SIZE"
    and "ix_deserialize (put_bytes zero_buf 0 bs) new_IxFileHdr = Inr h" and "0 < k"
  shows "\<exists>dm' f st'. open_index filename cs dm = (Inr \<lparr>ih_fd = fd, ih_hdr = h\<rparr>, dm') \<and>
    disk_page dm' fd IX_LEAF_HEADER_PAGE = Some (new_leaf_page IX_INIT_ROOT_PAGE) \<and>
    create_node \<lparr>ih = \<lparr>ih_fd = fd, ih_hdr = h\<rparr>, ix_bpm = new_BufferPoolManager fd0 k dm'\<rparr> = (Inr f, st') \<and>
    get_page_no f st' = IX_LEAF_HEADER_PAGE \<and> view (ix_bpm st') (mk_pid fd IX_LEAF_HEADER_PAGE) = Some zero_buf"
proof -
  obtain dm' where op: "open_index filename cs dm = (Inr \<lparr>ih_fd = fd, ih_hdr = h\<rparr>, dm')"
    and dm': "dm' = dm\<lparr>path2fd := (path2fd dm)(name \<mapsto> fd), fd2path := (fd2path dm)(fd \<mapsto> name),
       fd2pageno := (fd2pageno dm)(fd := fd2pageno dm fd + 1),
       sys := (sys dm)\<lparr>fds := (fds (sys dm))(fd \<mapsto> \<lparr>fpath = name, fpos = PAGE_SIZE\<rparr>)\<rparr>\<rparr>"
    by (rule open_index_eq [OF assms(1-3,6-11)])
  note free = lowest_fd_SomeD [OF assms(3)]
  have i: "dm_inv dm'"
  proof -
    have "fd2path dm fd = None" using assms(1) free(1) unfolding dm_inv_def by (metis not_None_eq)
    moreover have "\<And>g. fd2path dm g \<noteq> Some name" using assms(1,7) unfolding dm_inv_def by (metis option.distinct(1))
    ultimately show ?thesis using assms(1,7,8) unfolding dm' dm_inv_def os_is_reg_def by simp
  qed
  have nf: "no_faults dm'" using assms(2) by (simp add: dm' no_faults_def)
  let ?bp = "new_BufferPoolManager fd0 k dm'"
  obtain f bp' where N: "new_page fd ?bp = (Inr (Some (f, mk_pid fd 1)), bp')" "bp_ok bp'"
    "view bp' (mk_pid fd 1) = Some zero_buf" "map_of (page_table bp') (mk_pid fd 1) = Some f"
    by (rule new_page_ok [OF bp_ok_new [OF i nf, of fd0 k], of fd 1])
      (use free assms(4,5,12) in \<open>simp_all add: new_pool_view dm'\<close>)
  have "page_id (pages bp' ! f) = mk_pid fd 1" using bp_wfD(4) [OF bp_okD(1) [OF N(2)] N(4)] .
  moreover have "disk_page dm' fd 1 = Some (new_leaf_page 2)"
    by (rule index_pages(1) [where name = name and bs = bs]) (use assms(8-10) in \<open>simp_all add: dm'\<close>)
  ultimately show ?thesis using op N
    by (simp add: create_node_def add_num_pages_def on_ix_pool_def get_page_no_def)
qed

text \<open>Every step of a scan pins the leaf it stands on and never unpins it.\<close>

theorem ixs_next_leaks_pin:
  assumes "bp_ok (ix_bpm st)" and "card {q. 0 < pins (ix_bpm st) q} < pool_size (ix_bpm st)"
    and "view (ix_bpm st) (mk_pid (ih_fd (ih st)) (iid_page (ixs_iid sc))) = Some d"
    and "\<not> ixs_is_end sc" and "is_leaf_page d" and "iid_slot (ixs_iid sc) < get_size d"
  shows "\<exists>sc' st'. ixs_next sc st = (Inr sc', st') \<and>
    pins (ix_bpm st') (mk_pid (ih_fd (ih st)) (iid_page (ixs_iid sc))) =
      pins (ix_bpm st) (mk_pid (ih_fd (ih st)) (iid_page (ixs_iid sc))) + 1"
proof -
  let ?pid = "mk_pid (ih_fd (ih st)) (iid_page (ixs_iid sc))"
  obtain f bp' where F: "fetch_node (iid_page (ixs_iid sc)) st = (Inr f, st\<lparr>ix_bpm := bp'\<rparr>)"
    "pins bp' = (pins (ix_bpm st))(?pid := pins (ix_bpm st) ?pid + 1)" "get_data bp' f = d"
    by (rule fetch_node_ok [OF assms(1,3,2)]) blast
  then show ?thesis using assms(4-6) by (simp add: ixs_next_def node_data_def Let_def)
qed

text \<open>Operations that rest on the unfinished ones.\<close>

theorem inserted_entry_not_found:
  "bind_e (ix_insert_entry key rid) (\<lambda>_. get_value key) st = (Inr (False, []), st)"
  by (simp add: ix_insert_entry_def get_value_def)

theorem remove_only_child_aborts: "\<exists>e. fst (remove_and_return_only_child node st) = Inl e"
  by (auto simp: remove_and_return_only_child_def erase_pair_def bind_e_app lift_r_def split: sum.splits)

end
