(* ===== verification/Sql_Ast.thy ===== *)
theory Sql_Ast
  imports Rmdb_Values
begin

text \<open>
  The syntax trees the parser builds (\<^verbatim>\<open>parser/ast.h\<close>). The subclasses of \<^verbatim>\<open>TreeNode\<close> are the constructors of
  \<open>TreeNode\<close>, and those of \<^verbatim>\<open>Value\<close> and \<^verbatim>\<open>Expr\<close> those of \<open>SvValue\<close> and \<open>SvExpr\<close>. Where a name of the namespace
  \<^verbatim>\<open>ast\<close> is also one of the executors' it has the prefix \<open>Sv\<close> or \<open>Ast\<close>. \<^verbatim>\<open>ColDef\<close> is the only subclass of \<^verbatim>\<open>Field\<close>,
  and the member \<^verbatim>\<open>jointree\<close> of a select is never set.
\<close>

datatype SvType = SV_TYPE_INT | SV_TYPE_FLOAT | SV_TYPE_STRING | SV_TYPE_BIGINT | SV_TYPE_DATETIME

datatype SvCompOp = SV_OP_EQ | SV_OP_NE | SV_OP_LT | SV_OP_GT | SV_OP_LE | SV_OP_GE

datatype OrderByDir = OrderBy_DEFAULT | OrderBy_ASC | OrderBy_DESC

datatype AggFuncType = AST_AGG_COUNT | AST_AGG_SUM | AST_AGG_MAX | AST_AGG_MIN

record TypeLen =
  tl_type :: SvType
  tl_len :: int

record SvColDef =
  scd_name :: string
  type_len :: TypeLen

datatype SvValue = IntLit string | FloatLit float32 | StringLit string

record SvCol =
  sc_tab :: string
  sc_col :: string
  sc_is_agg :: bool
  sc_agg_type :: AggFuncType
  sc_alias :: string
  sc_count_star :: bool

text \<open>The two constructors of \<^verbatim>\<open>Col\<close>; the first leaves the kind of aggregate unset.\<close>

definition new_Col :: "string \<Rightarrow> string \<Rightarrow> SvCol" where
  "new_Col t c = \<lparr>sc_tab = t, sc_col = c, sc_is_agg = False, sc_agg_type = AST_AGG_COUNT, sc_alias = [], sc_count_star = False\<rparr>"

definition new_AggCol :: "AggFuncType \<Rightarrow> string \<Rightarrow> string \<Rightarrow> string \<Rightarrow> bool \<Rightarrow> SvCol" where
  "new_AggCol f t c alias star =
     \<lparr>sc_tab = t, sc_col = c, sc_is_agg = True, sc_agg_type = f, sc_alias = alias, sc_count_star = star\<rparr>"

datatype SvExpr = ValueExpr SvValue | ColExpr SvCol

record SvSetClause =
  ssc_col :: string
  ssc_val :: SvValue

record BinaryExpr =
  be_lhs :: SvCol
  be_op :: SvCompOp
  be_rhs :: SvExpr

record OrderBy =
  ob_col :: SvCol
  orderby_dir :: OrderByDir

record SelectStmt =
  sel_cols :: "SvCol list"
  sel_tabs :: "string list"
  sel_conds :: "BinaryExpr list"
  sel_order :: "OrderBy list option"
  sel_limit :: int

datatype TreeNode =
    Help
  | ShowTables
  | ShowIndex string
  | TxnBegin
  | TxnCommit
  | TxnAbort
  | TxnRollback
  | CreateTable string "SvColDef list"
  | DropTable string
  | DescTable string
  | CreateIndex string "string list"
  | DropIndex string "string list"
  | AstInsert string "SvValue list"
  | AstDelete string "BinaryExpr list"
  | AstUpdate string "SvSetClause list" "BinaryExpr list"
  | AstSelect SelectStmt

end
