(* ===== verification/Analyze.thy ===== *)
theory Analyze
  imports Sql_Ast Exec_Defs
begin

text \<open>
  Semantic analysis (\<^verbatim>\<open>analyze/analyze.cpp\<close>): table names are looked up in the catalogue, columns get
  their table, values are converted to the type of the column they are compared with or assigned to, and their
  bytes are prepared.

  Lemmas: a query that passes the analysis is well typed. Each column it names is a column of its tables, and each
  condition compares operands of one type, a value in the byte form of the column.
\<close>

section \<open>Queries\<close>

record Query =
  q_parse :: TreeNode
  q_conds :: "Condition list"
  q_cols :: "TabCol list"
  q_tables :: "string list"
  q_set_clauses :: "SetClause list"
  q_values :: "Value list"
  q_aggregates :: "AggregateCall list"
  q_sort_keys :: "SortKey list"
  q_limit :: int

definition new_Query :: "TreeNode \<Rightarrow> Query" where
  "new_Query parse =
     \<lparr>q_parse = parse, q_conds = [], q_cols = [], q_tables = [], q_set_clauses = [], q_values = [],
      q_aggregates = [], q_sort_keys = [], q_limit = - 1\<rparr>"

section \<open>Conversion of syntax\<close>

fun convert_agg_type :: "AggFuncType \<Rightarrow> AggType" where
  "convert_agg_type AST_AGG_COUNT = AGG_COUNT"
| "convert_agg_type AST_AGG_SUM = AGG_SUM"
| "convert_agg_type AST_AGG_MAX = AGG_MAX"
| "convert_agg_type AST_AGG_MIN = AGG_MIN"

text \<open>
  \<^verbatim>\<open>std::stoll\<close> reads as far as digits come and fails without a digit and outside 64 bits; here the text has to be used up.
\<close>

definition parse_int64_literal :: "string \<Rightarrow> rmdb_error + int" where
  "parse_int64_literal txt =
     (case rd_int txt of
        None \<Rightarrow> Inl (InternalError ''Invalid BIGINT value'')
      | Some (v, rest) \<Rightarrow>
          if \<not> int64_range v then Inl (InternalError ''Invalid BIGINT value'')
          else if rest \<noteq> [] then Inl (InternalError ''Invalid BIGINT value'')
          else Inr v)"

fun convert_sv_value :: "SvValue \<Rightarrow> rmdb_error + Value" where
  "convert_sv_value (IntLit txt) =
     bind_r (parse_int64_literal txt) (\<lambda>v.
       if - 2147483648 \<le> v \<and> v \<le> 2147483647 then Inr (new_Value (IntVal v)) else Inr (new_Value (BigintVal v)))"
| "convert_sv_value (FloatLit f) = Inr (new_Value (FloatVal f))"
| "convert_sv_value (StringLit s) = Inr (new_Value (StrVal s))"

fun convert_sv_comp_op :: "SvCompOp \<Rightarrow> CompOp" where
  "convert_sv_comp_op SV_OP_EQ = OP_EQ"
| "convert_sv_comp_op SV_OP_NE = OP_NE"
| "convert_sv_comp_op SV_OP_LT = OP_LT"
| "convert_sv_comp_op SV_OP_GT = OP_GT"
| "convert_sv_comp_op SV_OP_LE = OP_LE"
| "convert_sv_comp_op SV_OP_GE = OP_GE"

text \<open>A loop that stops at the first exception.\<close>

fun map_r :: "('a \<Rightarrow> 'e + 'b) \<Rightarrow> 'a list \<Rightarrow> 'e + 'b list" where
  "map_r f [] = Inr []"
| "map_r f (x # xs) = bind_r (f x) (\<lambda>y. bind_r (map_r f xs) (\<lambda>ys. Inr (y # ys)))"

lemma map_r_Inr: "map_r f xs = Inr ys \<longleftrightarrow> list_all2 (\<lambda>x y. f x = Inr y) xs ys"
  by (induction xs arbitrary: ys) (auto simp: bind_r_Inr_iff list_all2_Cons1)

lemma map_r_elem: "map_r f xs = Inr ys \<Longrightarrow> y \<in> set ys \<Longrightarrow> \<exists>x\<in>set xs. f x = Inr y"
  unfolding map_r_Inr by (induction rule: list_all2_induct) auto

text \<open>\<^verbatim>\<open>get_clause\<close>. The members of a condition that the branch does not set are never read.\<close>

definition clause_of :: "BinaryExpr \<Rightarrow> rmdb_error + Condition" where
  "clause_of expr =
     (let cond = \<lparr>lhs_col = mk_tabcol (sc_tab (be_lhs expr)) (sc_col (be_lhs expr)), cond_op = convert_sv_comp_op (be_op expr),
                  is_rhs_val = False, rhs_col = mk_tabcol [] [], rhs_val = new_Value (IntVal 0)\<rparr> in
      case be_rhs expr of
        ValueExpr sv \<Rightarrow> bind_r (convert_sv_value sv) (\<lambda>v. Inr (cond\<lparr>is_rhs_val := True, rhs_val := v\<rparr>))
      | ColExpr c \<Rightarrow> Inr (cond\<lparr>is_rhs_val := False, rhs_col := mk_tabcol (sc_tab c) (sc_col c)\<rparr>))"

definition get_clause :: "BinaryExpr list \<Rightarrow> rmdb_error + Condition list" where
  "get_clause sv_conds = map_r clause_of sv_conds"

section \<open>Columns\<close>

definition get_all_cols :: "DbMeta \<Rightarrow> string list \<Rightarrow> rmdb_error + ColMeta list" where
  "get_all_cols db names = bind_r (map_r (\<lambda>t. bind_r (get_table db t) (\<lambda>tab. Inr (tm_cols tab))) names) (\<lambda>css. Inr (concat css))"

text \<open>The loop of \<^verbatim>\<open>check_column\<close> that looks for the only table with a column of this name.\<close>

fun infer_tab :: "ColMeta list \<Rightarrow> string \<Rightarrow> string \<Rightarrow> rmdb_error + string" where
  "infer_tab [] c t = (if t = [] then Inl (ColumnNotFoundError c) else Inr t)"
| "infer_tab (col # cols) c t =
     (if cm_name col = c
      then if t \<noteq> [] then Inl (AmbiguousColumnError c) else infer_tab cols c (cm_tab col)
      else infer_tab cols c t)"

definition check_column :: "ColMeta list \<Rightarrow> TabCol \<Rightarrow> rmdb_error + TabCol" where
  "check_column all_cols target =
     (if tc_tab target = []
      then bind_r (infer_tab all_cols (tc_col target) []) (\<lambda>t. Inr (target\<lparr>tc_tab := t\<rparr>))
      else if \<not> list_ex (\<lambda>col. cm_tab col = tc_tab target \<and> cm_name col = tc_col target) all_cols
      then Inl (ColumnNotFoundError (tc_tab target @ ''.'' @ tc_col target))
      else Inr target)"

text \<open>\<^verbatim>\<open>db_.get_table(t).get_col(c)\<close>, dereferenced.\<close>

definition table_col :: "DbMeta \<Rightarrow> TabCol \<Rightarrow> rmdb_error + ColMeta" where
  "table_col db tc = bind_r (get_table db (tc_tab tc)) (\<lambda>tab. bind_r (get_col tab (tc_col tc)) (\<lambda>i. Inr (tm_cols tab ! i)))"

definition coerce_value_to_col_type :: "ColType \<Rightarrow> bool value_op" where
  "coerce_value_to_col_type target = coerce_to target"

text \<open>The value of a condition or set clause, converted; the exception names the type the value has after the attempt.\<close>

definition coerced :: "ColType \<Rightarrow> Value \<Rightarrow> rmdb_error + Value" where
  "coerced ty v =
     (case coerce_value_to_col_type ty v of
        (Inl e, v') \<Rightarrow> Inl e
      | (Inr ok, v') \<Rightarrow> if \<not> ok then Inl (IncompatibleTypeError (coltype2str ty) (coltype2str (vtype v'))) else Inr v')"

definition with_raw :: "int \<Rightarrow> Value \<Rightarrow> rmdb_error + Value" where
  "with_raw len v = (case init_raw len v of (Inl e, v') \<Rightarrow> Inl e | (Inr _, v') \<Rightarrow> Inr v')"

section \<open>Conditions\<close>

definition check_cond :: "DbMeta \<Rightarrow> ColMeta list \<Rightarrow> Condition \<Rightarrow> rmdb_error + Condition" where
  "check_cond db all_cols cond0 =
     bind_r (check_column all_cols (lhs_col cond0)) (\<lambda>l.
     bind_r (if \<not> is_rhs_val cond0 then check_column all_cols (rhs_col cond0) else Inr (rhs_col cond0)) (\<lambda>r.
     bind_r (table_col db l) (\<lambda>lcol.
     let cond = cond0\<lparr>lhs_col := l, rhs_col := r\<rparr> in
     bind_r (if is_rhs_val cond
             then bind_r (coerced (cm_type lcol) (rhs_val cond)) (\<lambda>v.
                  bind_r (with_raw (cm_len lcol) v) (\<lambda>v'. Inr (vtype v', cond\<lparr>rhs_val := v'\<rparr>)))
             else bind_r (table_col db r) (\<lambda>rcol. Inr (cm_type rcol, cond))) (\<lambda>(rhs_type, cond').
     if cm_type lcol \<noteq> rhs_type then Inl (IncompatibleTypeError (coltype2str (cm_type lcol)) (coltype2str rhs_type))
     else Inr cond'))))"

definition check_clause :: "DbMeta \<Rightarrow> string list \<Rightarrow> Condition list \<Rightarrow> rmdb_error + Condition list" where
  "check_clause db names conds = bind_r (get_all_cols db names) (\<lambda>all_cols. map_r (check_cond db all_cols) conds)"

section \<open>Statements\<close>

definition analyze_aggregate :: "ColMeta list \<Rightarrow> SvCol \<Rightarrow> rmdb_error + AggregateCall" where
  "analyze_aggregate all_cols c =
     (let agg = \<lparr>agg_type = convert_agg_type (sc_agg_type c), agg_col = mk_tabcol [] [], agg_alias = sc_alias c,
                 count_star = sc_count_star c\<rparr> in
      if \<not> count_star agg
      then bind_r (check_column all_cols (mk_tabcol (sc_tab c) (sc_col c))) (\<lambda>tc.
           case find (\<lambda>col. cm_tab col = tc_tab tc \<and> cm_name col = tc_col tc) all_cols of
             None \<Rightarrow> Inl Undefined
           | Some col \<Rightarrow>
               if agg_type agg = AGG_SUM \<and> cm_type col \<noteq> TYPE_INT \<and> cm_type col \<noteq> TYPE_FLOAT \<and> cm_type col \<noteq> TYPE_BIGINT
               then Inl (IncompatibleTypeError ''SUM'' (coltype2str (cm_type col)))
               else Inr (agg\<lparr>agg_col := tc\<rparr>))
      else Inr agg)"

definition analyze_order :: "ColMeta list \<Rightarrow> OrderBy \<Rightarrow> rmdb_error + SortKey" where
  "analyze_order all_cols item =
     bind_r (check_column all_cols (mk_tabcol (sc_tab (ob_col item)) (sc_col (ob_col item)))) (\<lambda>tc.
       Inr \<lparr>sk_col = tc, sk_desc = (orderby_dir item = OrderBy_DESC)\<rparr>)"

text \<open>The select list: the aggregates, or the columns, where none means all.\<close>

definition analyze_targets :: "ColMeta list \<Rightarrow> SvCol list \<Rightarrow> rmdb_error + (TabCol list \<times> AggregateCall list)" where
  "analyze_targets all_cols cols =
     (let has_aggregate = list_ex sc_is_agg cols; has_normal_col = list_ex (\<lambda>c. \<not> sc_is_agg c) cols in
      if has_aggregate \<and> has_normal_col then Inl (InternalError ''Cannot mix aggregate functions and normal columns'')
      else if has_aggregate
      then bind_r (map_r (analyze_aggregate all_cols) cols) (\<lambda>aggs.
             Inr (map agg_col (filter (\<lambda>a. \<not> count_star a) aggs), aggs))
      else if cols = [] then Inr (map (\<lambda>col. mk_tabcol (cm_tab col) (cm_name col)) all_cols, [])
      else bind_r (map_r (\<lambda>c. check_column all_cols (mk_tabcol (sc_tab c) (sc_col c))) cols) (\<lambda>tcs. Inr (tcs, [])))"

definition analyze_select :: "DbMeta \<Rightarrow> SelectStmt \<Rightarrow> rmdb_error + Query" where
  "analyze_select db x =
     bind_r (map_r (\<lambda>t. if \<not> is_table db t then Inl (TableNotFoundError t) else Inr ()) (sel_tabs x)) (\<lambda>_.
     bind_r (get_all_cols db (sel_tabs x)) (\<lambda>all_cols.
     bind_r (analyze_targets all_cols (sel_cols x)) (\<lambda>(cols, aggs).
     bind_r (get_clause (sel_conds x)) (\<lambda>conds0.
     bind_r (check_clause db (sel_tabs x) conds0) (\<lambda>conds.
     bind_r (case sel_order x of None \<Rightarrow> Inr [] | Some items \<Rightarrow> map_r (analyze_order all_cols) items) (\<lambda>keys.
     Inr ((new_Query (AstSelect (x\<lparr>sel_tabs := []\<rparr>)))\<lparr>q_tables := sel_tabs x, q_cols := cols, q_aggregates := aggs, q_conds := conds,
            q_limit := sel_limit x, q_sort_keys := keys\<rparr>)))))))"

definition analyze_set :: "DbMeta \<Rightarrow> string \<Rightarrow> ColMeta list \<Rightarrow> SvSetClause \<Rightarrow> rmdb_error + SetClause" where
  "analyze_set db t all_cols c =
     bind_r (check_column all_cols (mk_tabcol t (ssc_col c))) (\<lambda>lhs.
     bind_r (convert_sv_value (ssc_val c)) (\<lambda>v.
     bind_r (table_col db lhs) (\<lambda>col.
     bind_r (coerced (cm_type col) v) (\<lambda>v'. Inr \<lparr>set_lhs = lhs, set_rhs = v'\<rparr>))))"

definition analyze_update :: "DbMeta \<Rightarrow> string \<Rightarrow> SvSetClause list \<Rightarrow> BinaryExpr list \<Rightarrow> rmdb_error + Query" where
  "analyze_update db t sets sv_conds =
     (if \<not> is_table db t then Inl (TableNotFoundError t)
      else bind_r (get_all_cols db [t]) (\<lambda>all_cols.
           bind_r (map_r (analyze_set db t all_cols) sets) (\<lambda>clauses.
           bind_r (get_clause sv_conds) (\<lambda>conds0.
           bind_r (check_clause db [t] conds0) (\<lambda>conds.
           Inr ((new_Query (AstUpdate t sets sv_conds))\<lparr>q_tables := [t], q_set_clauses := clauses, q_conds := conds\<rparr>))))))"

definition analyze_delete :: "DbMeta \<Rightarrow> string \<Rightarrow> BinaryExpr list \<Rightarrow> rmdb_error + Query" where
  "analyze_delete db t sv_conds =
     (if \<not> is_table db t then Inl (TableNotFoundError t)
      else bind_r (get_clause sv_conds) (\<lambda>conds0.
           bind_r (check_clause db [t] conds0) (\<lambda>conds.
           Inr ((new_Query (AstDelete t sv_conds))\<lparr>q_conds := conds\<rparr>))))"

definition analyze_insert :: "DbMeta \<Rightarrow> string \<Rightarrow> SvValue list \<Rightarrow> rmdb_error + Query" where
  "analyze_insert db t vals =
     (if \<not> is_table db t then Inl (TableNotFoundError t)
      else bind_r (map_r convert_sv_value vals) (\<lambda>vs. Inr ((new_Query (AstInsert t vals))\<lparr>q_values := vs\<rparr>)))"

fun do_analyze :: "DbMeta \<Rightarrow> TreeNode \<Rightarrow> rmdb_error + Query" where
  "do_analyze db (AstSelect x) = analyze_select db x"
| "do_analyze db (AstUpdate t sets conds) = analyze_update db t sets conds"
| "do_analyze db (AstDelete t conds) = analyze_delete db t conds"
| "do_analyze db (AstInsert t vals) = analyze_insert db t vals"
| "do_analyze db parse = Inr (new_Query parse)"

section \<open>Well-typed queries\<close>

text \<open>A catalogue whose columns know their table and differ by name within it; the empty name is no table.\<close>

definition db_named :: "DbMeta \<Rightarrow> bool" where
  "db_named db \<longleftrightarrow> (\<forall>t tab. map_of (tabs db) t = Some tab \<longrightarrow> t \<noteq> [] \<and> (\<forall>col\<in>set (tm_cols tab). cm_tab col = t) \<and>
     distinct (map cm_name (tm_cols tab)))"

definition col_in :: "DbMeta \<Rightarrow> string list \<Rightarrow> TabCol \<Rightarrow> ColMeta \<Rightarrow> bool" where
  "col_in db ts tc col \<longleftrightarrow> tc_tab tc \<in> set ts \<and> table_col db tc = Inr col"

definition all_cols_of :: "DbMeta \<Rightarrow> string list \<Rightarrow> ColMeta list" where
  "all_cols_of db ts = concat (map (\<lambda>t. case map_of (tabs db) t of None \<Rightarrow> [] | Some tab \<Rightarrow> tm_cols tab) ts)"

text \<open>What a column of the statement stands for: the table it names, or the only table with such a column.\<close>

definition resolves :: "DbMeta \<Rightarrow> string list \<Rightarrow> string \<Rightarrow> string \<Rightarrow> TabCol \<Rightarrow> bool" where
  "resolves db ts t c tc \<longleftrightarrow> tc_col tc = c \<and> (\<exists>col. col_in db ts tc col) \<and>
     (if t = [] then map cm_tab (filter (\<lambda>col. cm_name col = c) (all_cols_of db ts)) = [tc_tab tc] else tc_tab tc = t)"

definition value_typed :: "ColMeta \<Rightarrow> SvValue \<Rightarrow> Value \<Rightarrow> bool" where
  "value_typed col sv v \<longleftrightarrow> vtype v = cm_type col \<and> (\<exists>v0. convert_sv_value sv = Inr v0 \<and>
     coerce_to (cm_type col) v0 = (Inr True, new_Value (vdata v)))"

definition cond_typed :: "DbMeta \<Rightarrow> string list \<Rightarrow> BinaryExpr \<Rightarrow> Condition \<Rightarrow> bool" where
  "cond_typed db ts expr cond \<longleftrightarrow>
     cond_op cond = convert_sv_comp_op (be_op expr) \<and>
     resolves db ts (sc_tab (be_lhs expr)) (sc_col (be_lhs expr)) (lhs_col cond) \<and>
     (\<exists>lcol. col_in db ts (lhs_col cond) lcol \<and>
       (case be_rhs expr of
          ValueExpr sv \<Rightarrow> is_rhs_val cond \<and> rhs_col cond = mk_tabcol [] [] \<and> value_typed lcol sv (rhs_val cond) \<and>
            init_raw (cm_len lcol) (new_Value (vdata (rhs_val cond))) = (Inr (), rhs_val cond) \<and>
            (\<exists>bs. raw (rhs_val cond) = Some bs \<and> length bs = nat (cm_len lcol))
        | ColExpr c \<Rightarrow> \<not> is_rhs_val cond \<and> resolves db ts (sc_tab c) (sc_col c) (rhs_col cond) \<and>
            (\<exists>rcol. col_in db ts (rhs_col cond) rcol \<and> cm_type rcol = cm_type lcol)))"

lemma all_cols_ofD: "col \<in> set (all_cols_of db ts) \<Longrightarrow> \<exists>t\<in>set ts. \<exists>tab. map_of (tabs db) t = Some tab \<and> col \<in> set (tm_cols tab)"
proof -
  assume "col \<in> set (all_cols_of db ts)"
  then obtain t where "t \<in> set ts" "col \<in> set (case map_of (tabs db) t of None \<Rightarrow> [] | Some tab \<Rightarrow> tm_cols tab)"
    by (auto simp: all_cols_of_def)
  then show ?thesis by (cases "map_of (tabs db) t") auto
qed

lemma get_all_cols_Inr:
  assumes "get_all_cols db ts = Inr cols"
  shows "cols = all_cols_of db ts" "\<And>t. t \<in> set ts \<Longrightarrow> map_of (tabs db) t \<noteq> None"
proof -
  obtain css where css: "map_r (\<lambda>t. bind_r (get_table db t) (\<lambda>tab. Inr (tm_cols tab))) ts = Inr css" "cols = concat css"
    using assms by (auto simp: get_all_cols_def bind_r_Inr_iff)
  have "concat css = all_cols_of db ts \<and> (\<forall>t\<in>set ts. map_of (tabs db) t \<noteq> None)"
    using css(1) unfolding map_r_Inr
    by (induction rule: list_all2_induct) (auto simp: all_cols_of_def get_table_def bind_r_Inr_iff split: option.splits)
  with css(2) show "cols = all_cols_of db ts" "\<And>t. t \<in> set ts \<Longrightarrow> map_of (tabs db) t \<noteq> None" by blast+
qed

lemma find_pos_hit: "x \<in> set xs \<Longrightarrow> P x \<Longrightarrow> \<exists>i. find_pos P xs = Some i \<and> i < length xs \<and> P (xs ! i)"
proof (induction xs)
  case (Cons y ys)
  then show ?case by (cases "P y") auto
qed simp

lemma col_in_all:
  assumes n: "db_named db" and "col \<in> set (all_cols_of db ts)" and "cm_tab col = tc_tab tc" and "cm_name col = tc_col tc"
  shows "\<exists>c. col_in db ts tc c \<and> cm_tab c = tc_tab tc \<and> cm_name c = tc_col tc"
proof -
  obtain t tab where t: "t \<in> set ts" "map_of (tabs db) t = Some tab" "col \<in> set (tm_cols tab)"
    using all_cols_ofD [OF assms(2)] by blast
  then have "tc_tab tc = t" using n assms(3) by (auto simp: db_named_def)
  moreover obtain i where "find_pos (\<lambda>col. cm_name col = tc_col tc) (tm_cols tab) = Some i" "i < length (tm_cols tab)"
      "cm_name (tm_cols tab ! i) = tc_col tc"
    using find_pos_hit [OF t(3), of "\<lambda>col. cm_name col = tc_col tc"] assms(4) by blast
  moreover from this have "cm_tab (tm_cols tab ! i) = t" using n t(2) nth_mem unfolding db_named_def by blast
  ultimately show ?thesis using t by (auto simp: col_in_def table_col_def get_table_def get_col_def)
qed

lemma infer_tab_Inr:
  assumes "infer_tab cols c t = Inr t'" and "\<And>col. col \<in> set cols \<Longrightarrow> cm_tab col \<noteq> []"
  shows "(if t = [] then [] else [t]) @ map cm_tab (filter (\<lambda>col. cm_name col = c) cols) = [t']"
  using assms
proof (induction cols arbitrary: t)
  case (Cons col cols)
  have IH: "(if u = [] then [] else [u]) @ map cm_tab (filter (\<lambda>col. cm_name col = c) cols) = [t']" if "infer_tab cols c u = Inr t'" for u
    using Cons.IH [OF that] Cons.prems(2) by auto
  show ?case
  proof (cases "cm_name col = c")
    case True
    then have "t = []" "infer_tab cols c (cm_tab col) = Inr t'" using Cons.prems(1) by (simp_all split: if_splits)
    then show ?thesis using IH [of "cm_tab col"] True Cons.prems(2) by simp
  next
    case False
    then show ?thesis using IH [of t] Cons.prems(1) by simp
  qed
qed (auto split: if_splits)

lemma all_cols_named: "db_named db \<Longrightarrow> col \<in> set (all_cols_of db ts) \<Longrightarrow> cm_tab col \<noteq> []"
  by (auto simp: db_named_def dest!: all_cols_ofD)

text \<open>The name a column is looked up with, and what \<^verbatim>\<open>check_column\<close> makes of it.\<close>

lemma check_column_resolves:
  assumes n: "db_named db" and c: "check_column (all_cols_of db ts) (mk_tabcol t c) = Inr tc"
  shows "resolves db ts t c tc"
proof (cases "t = []")
  case True
  then obtain t' where t': "infer_tab (all_cols_of db ts) c [] = Inr t'" "tc = mk_tabcol t' c"
    using c by (auto simp: check_column_def bind_r_Inr_iff)
  have f: "map cm_tab (filter (\<lambda>col. cm_name col = c) (all_cols_of db ts)) = [t']"
    using infer_tab_Inr [OF t'(1)] all_cols_named [OF n] by simp
  then obtain col where "filter (\<lambda>col. cm_name col = c) (all_cols_of db ts) = [col]" "cm_tab col = t'" by (auto simp: map_eq_Cons_conv)
  then have "col \<in> set (all_cols_of db ts)" "cm_name col = c" by (auto simp: filter_eq_Cons_iff)
  then show ?thesis using col_in_all [OF n, of col ts tc] t'(2) \<open>cm_tab col = t'\<close> f True by (auto simp: resolves_def)
next
  case False
  then obtain col where "col \<in> set (all_cols_of db ts)" "cm_tab col = t" "cm_name col = c" "tc = mk_tabcol t c"
    using c by (auto simp: check_column_def list_ex_iff split: if_splits)
  then show ?thesis using col_in_all [OF n, of col ts tc] False by (auto simp: resolves_def)
qed

lemma resolves_col: "resolves db ts t c tc \<Longrightarrow> table_col db tc = Inr col \<Longrightarrow> col_in db ts tc col"
  by (auto simp: resolves_def col_in_def)

lemma coerce_to_type: "coerce_to ty v = (Inr True, v') \<Longrightarrow> vtype v' = ty \<and> raw v' = raw v"
  by (auto simp: coerce_to_def vtype_def set_float_def set_bigint_def set_int_def set_datetime_def
    split: if_splits ColType.splits val_data.splits sum.splits)

lemma convert_raw: "convert_sv_value sv = Inr v \<Longrightarrow> raw v = None"
  by (cases sv) (auto simp: bind_r_Inr_iff new_Value_def split: if_splits)

lemma Value_eta: "raw v = None \<Longrightarrow> new_Value (vdata v) = v"
  by (simp add: new_Value_def)

lemma coerced_typed:
  assumes "convert_sv_value sv = Inr v" and "coerced (cm_type col) v = Inr v'"
  shows "value_typed col sv v'" "raw v' = None"
proof -
  have "coerce_to (cm_type col) v = (Inr True, v')"
    using assms(2) by (auto simp: coerced_def coerce_value_to_col_type_def split: prod.splits sum.splits if_splits)
  then show "value_typed col sv v'" "raw v' = None"
    using coerce_to_type [of "cm_type col" v v'] convert_raw [OF assms(1)] Value_eta [of v'] assms(1) by (auto simp: value_typed_def)
qed

lemma with_raw_bytes:
  assumes "with_raw len v = Inr v'" and "raw v = None"
  shows "vdata v' = vdata v" "init_raw len (new_Value (vdata v')) = (Inr (), v')" "\<exists>bs. raw v' = Some bs \<and> length bs = nat len"
proof -
  have i: "init_raw len v = (Inr (), v')" using assms(1) by (auto simp: with_raw_def split: prod.splits sum.splits)
  show d: "vdata v' = vdata v" using i assms(2) by (auto simp: init_raw_def split: val_data.splits if_splits)
  show "init_raw len (new_Value (vdata v')) = (Inr (), v')" using i d Value_eta [OF assms(2)] by simp
  show "\<exists>bs. raw v' = Some bs \<and> length bs = nat len"
    using i assms(2) by (auto simp: init_raw_def split: val_data.splits if_splits)
qed

lemma check_cond_typed:
  assumes n: "db_named db" and c0: "clause_of expr = Inr cond0" and c: "check_cond db (all_cols_of db ts) cond0 = Inr cond"
  shows "cond_typed db ts expr cond"
proof -
  note r = check_column_resolves [OF n]
  obtain l lcol where l: "check_column (all_cols_of db ts) (lhs_col cond0) = Inr l" "table_col db l = Inr lcol"
    "lhs_col cond = l" "cond_op cond = cond_op cond0"
    using c by (auto simp: check_cond_def bind_r_Inr_iff Let_def split: if_splits)
  have l0: "lhs_col cond0 = mk_tabcol (sc_tab (be_lhs expr)) (sc_col (be_lhs expr))" "cond_op cond0 = convert_sv_comp_op (be_op expr)"
    using c0 by (auto simp: clause_of_def Let_def bind_r_Inr_iff split: SvExpr.splits)
  have L: "resolves db ts (sc_tab (be_lhs expr)) (sc_col (be_lhs expr)) (lhs_col cond)" using r l l0 by simp
  have C: "col_in db ts (lhs_col cond) lcol" using resolves_col [OF L] l by simp
  show ?thesis
  proof (cases "be_rhs expr")
    case (ValueExpr sv)
    then obtain v0 where v0: "convert_sv_value sv = Inr v0" "is_rhs_val cond0" "rhs_val cond0 = v0" "rhs_col cond0 = mk_tabcol [] []"
      using c0 by (auto simp: clause_of_def Let_def bind_r_Inr_iff)
    then obtain v v' where v': "coerced (cm_type lcol) v0 = Inr v" "with_raw (cm_len lcol) v = Inr v'"
      "cond = cond0\<lparr>lhs_col := l, rhs_col := rhs_col cond0, rhs_val := v'\<rparr>"
      using c l(1,2) by (auto simp: check_cond_def bind_r_Inr_iff Let_def split: if_splits)
    then have v: "coerced (cm_type lcol) v0 = Inr v" "with_raw (cm_len lcol) v = Inr v'" "is_rhs_val cond"
      "rhs_val cond = v'" "rhs_col cond = mk_tabcol [] []" using v0 by simp_all
    note t = coerced_typed [OF v0(1) v(1)] and w = with_raw_bytes [OF v(2) coerced_typed(2) [OF v0(1) v(1)]]
    have "value_typed lcol sv v'" using t(1) w(1) by (simp add: value_typed_def vtype_def)
    then show ?thesis using L C l l0 v w ValueExpr by (auto simp: cond_typed_def)
  next
    case (ColExpr sc)
    then have c1: "\<not> is_rhs_val cond0" "rhs_col cond0 = mk_tabcol (sc_tab sc) (sc_col sc)"
      using c0 by (auto simp: clause_of_def Let_def)
    then obtain rc rcol where rc: "check_column (all_cols_of db ts) (mk_tabcol (sc_tab sc) (sc_col sc)) = Inr rc" "table_col db rc = Inr rcol"
      "cm_type lcol = cm_type rcol" "cond = cond0\<lparr>lhs_col := l, rhs_col := rc\<rparr>"
      using c l(1,2) by (auto simp: check_cond_def bind_r_Inr_iff Let_def split: if_splits)
    moreover from this have "rhs_col cond = rc" "\<not> is_rhs_val cond" using c1 by simp_all
    ultimately show ?thesis using L C l l0 ColExpr r [OF rc(1)] resolves_col [OF r [OF rc(1)] rc(2)]
      unfolding cond_typed_def by (intro conjI exI [of _ lcol]) (simp, simp, simp, simp, rule exI [of _ rcol], simp)
  qed
qed

lemma check_clause_typed:
  assumes n: "db_named db" and "get_clause exprs = Inr conds0" and "check_clause db ts conds0 = Inr conds"
  shows "list_all2 (cond_typed db ts) exprs conds"
proof -
  obtain all_cols where a: "get_all_cols db ts = Inr all_cols" "map_r (check_cond db all_cols) conds0 = Inr conds"
    using assms(3) by (auto simp: check_clause_def bind_r_Inr_iff)
  have "list_all2 (\<lambda>e c. clause_of e = Inr c) exprs conds0" "list_all2 (\<lambda>c c'. check_cond db (all_cols_of db ts) c = Inr c') conds0 conds"
    using assms(2) a get_all_cols_Inr(1) [OF a(1)] by (simp_all add: get_clause_def map_r_Inr)
  from list_all2_trans [OF _ this, of "cond_typed db ts"] show ?thesis using check_cond_typed [OF n] by blast
qed

text \<open>The select list, the aggregates and the sort keys.\<close>

definition targets_typed :: "DbMeta \<Rightarrow> string list \<Rightarrow> SvCol list \<Rightarrow> TabCol list \<Rightarrow> AggregateCall list \<Rightarrow> bool" where
  "targets_typed db ts cols tcs aggs \<longleftrightarrow>
     (if list_ex sc_is_agg cols
      then list_all sc_is_agg cols \<and> tcs = map agg_col (filter (\<lambda>a. \<not> count_star a) aggs) \<and>
        list_all2 (\<lambda>c a. agg_type a = convert_agg_type (sc_agg_type c) \<and> agg_alias a = sc_alias c \<and> count_star a = sc_count_star c \<and>
          (\<not> count_star a \<longrightarrow> resolves db ts (sc_tab c) (sc_col c) (agg_col a) \<and>
            (agg_type a = AGG_SUM \<longrightarrow> (\<exists>col. col_in db ts (agg_col a) col \<and> cm_type col \<in> {TYPE_INT, TYPE_FLOAT, TYPE_BIGINT})))) cols aggs
      else aggs = [] \<and>
        (if cols = [] then tcs = map (\<lambda>col. mk_tabcol (cm_tab col) (cm_name col)) (all_cols_of db ts)
         else list_all2 (\<lambda>c tc. resolves db ts (sc_tab c) (sc_col c) tc) cols tcs))"

lemma find_table_col:
  assumes n: "db_named db" and "find (\<lambda>col. cm_tab col = tc_tab tc \<and> cm_name col = tc_col tc) (all_cols_of db ts) = Some col"
    and t: "tc_tab tc \<in> set ts"
  shows "col_in db ts tc col"
proof -
  have col: "col \<in> set (all_cols_of db ts)" "cm_tab col = tc_tab tc" "cm_name col = tc_col tc"
    using assms(2) by (auto simp: find_Some_iff)
  obtain tab where tab: "map_of (tabs db) (tc_tab tc) = Some tab" "col \<in> set (tm_cols tab)"
    using all_cols_ofD [OF col(1)] n col(2) by (auto simp: db_named_def)
  obtain i where i: "find_pos (\<lambda>col. cm_name col = tc_col tc) (tm_cols tab) = Some i" "i < length (tm_cols tab)"
      "cm_name (tm_cols tab ! i) = tc_col tc"
    using find_pos_hit [OF tab(2), of "\<lambda>col. cm_name col = tc_col tc"] col(3) by blast
  have "tm_cols tab ! i = col" using n tab(1,2) i(2,3) col(3) unfolding db_named_def by (metis distinct_map inj_onD nth_mem)
  then show ?thesis using t tab i by (simp add: col_in_def table_col_def get_table_def get_col_def)
qed

lemma analyze_targets_typed:
  assumes n: "db_named db" and a: "analyze_targets (all_cols_of db ts) cols = Inr (tcs, aggs)"
  shows "targets_typed db ts cols tcs aggs"
proof (cases "list_ex sc_is_agg cols")
  case True
  then have all: "list_all sc_is_agg cols" and m: "map_r (analyze_aggregate (all_cols_of db ts)) cols = Inr aggs"
    and tcs: "tcs = map agg_col (filter (\<lambda>a. \<not> count_star a) aggs)"
    using a by (auto simp: analyze_targets_def Let_def bind_r_Inr_iff list_ex_iff list_all_iff split: if_splits)
  have "agg_type a = convert_agg_type (sc_agg_type c) \<and> agg_alias a = sc_alias c \<and> count_star a = sc_count_star c \<and>
      (\<not> count_star a \<longrightarrow> resolves db ts (sc_tab c) (sc_col c) (agg_col a) \<and>
        (agg_type a = AGG_SUM \<longrightarrow> (\<exists>col. col_in db ts (agg_col a) col \<and> cm_type col \<in> {TYPE_INT, TYPE_FLOAT, TYPE_BIGINT})))"
    if g: "analyze_aggregate (all_cols_of db ts) c = Inr a" for c a
  proof (cases "sc_count_star c")
    case False
    then obtain tc col where tc: "check_column (all_cols_of db ts) (mk_tabcol (sc_tab c) (sc_col c)) = Inr tc"
      "find (\<lambda>col. cm_tab col = tc_tab tc \<and> cm_name col = tc_col tc) (all_cols_of db ts) = Some col"
      "a = \<lparr>agg_type = convert_agg_type (sc_agg_type c), agg_col = tc, agg_alias = sc_alias c, count_star = False\<rparr>"
      "agg_type a = AGG_SUM \<longrightarrow> cm_type col \<in> {TYPE_INT, TYPE_FLOAT, TYPE_BIGINT}"
      using g by (auto simp: analyze_aggregate_def Let_def bind_r_Inr_iff split: if_splits option.splits)
    note r = check_column_resolves [OF n tc(1)]
    then have "col_in db ts tc col" using find_table_col [OF n tc(2)] by (auto simp: resolves_def col_in_def)
    then show ?thesis using r tc False by auto
  qed (use g in \<open>auto simp: analyze_aggregate_def\<close>)
  then show ?thesis using True all tcs m [unfolded map_r_Inr] by (auto simp: targets_typed_def elim!: list_all2_mono)
next
  case False
  then show ?thesis
    using a check_column_resolves [OF n]
    by (auto simp: targets_typed_def analyze_targets_def Let_def bind_r_Inr_iff map_r_Inr elim!: list_all2_mono split: if_splits)
qed

lemma analyze_select_typed:
  assumes "db_named db" and "do_analyze db (AstSelect x) = Inr q"
  shows "q_tables q = sel_tabs x \<and> q_limit q = sel_limit x \<and> (\<forall>t\<in>set (sel_tabs x). is_table db t) \<and>
    list_all2 (cond_typed db (sel_tabs x)) (sel_conds x) (q_conds q) \<and>
    targets_typed db (sel_tabs x) (sel_cols x) (q_cols q) (q_aggregates q) \<and>
    list_all2 (\<lambda>item key. resolves db (sel_tabs x) (sc_tab (ob_col item)) (sc_col (ob_col item)) (sk_col key) \<and>
      sk_desc key = (orderby_dir item = OrderBy_DESC)) (case sel_order x of None \<Rightarrow> [] | Some items \<Rightarrow> items) (q_sort_keys q)"
proof -
  let ?ts = "sel_tabs x"
  obtain all_cols cols aggs conds0 conds keys where s: "get_all_cols db ?ts = Inr all_cols"
    "analyze_targets all_cols (sel_cols x) = Inr (cols, aggs)" "get_clause (sel_conds x) = Inr conds0"
    "check_clause db ?ts conds0 = Inr conds"
    "(case sel_order x of None \<Rightarrow> Inr [] | Some items \<Rightarrow> map_r (analyze_order all_cols) items) = Inr keys"
    "q = (new_Query (AstSelect (x\<lparr>sel_tabs := []\<rparr>)))\<lparr>q_tables := ?ts, q_cols := cols, q_aggregates := aggs, q_conds := conds,
       q_limit := sel_limit x, q_sort_keys := keys\<rparr>"
    using assms(2) by (auto simp: analyze_select_def bind_r_Inr_iff)
  note a = get_all_cols_Inr [OF s(1)]
  have "list_all2 (\<lambda>item key. analyze_order (all_cols_of db ?ts) item = Inr key) (case sel_order x of None \<Rightarrow> [] | Some items \<Rightarrow> items) keys"
    using s(5) a(1) by (auto simp: map_r_Inr split: option.splits)
  then have "list_all2 (\<lambda>item key. resolves db ?ts (sc_tab (ob_col item)) (sc_col (ob_col item)) (sk_col key) \<and>
      sk_desc key = (orderby_dir item = OrderBy_DESC)) (case sel_order x of None \<Rightarrow> [] | Some items \<Rightarrow> items) keys"
    by (rule list_all2_mono) (use check_column_resolves [OF assms(1)] in \<open>auto simp: analyze_order_def bind_r_Inr_iff\<close>)
  moreover have "\<forall>t\<in>set ?ts. is_table db t" using a(2) by (simp add: is_table_def)
  moreover have "targets_typed db ?ts (sel_cols x) cols aggs"
    using analyze_targets_typed [OF assms(1), of ?ts] s(2) a(1) by blast
  ultimately show ?thesis using check_clause_typed [OF assms(1) s(3,4)] unfolding s(6) by (simp add: new_Query_def)
qed

text \<open>
  C23: a select that passes the analysis is well typed. All its tables are in the catalogue; every column of the select list,
  of the conditions and of the ordering is resolved to the table it names or to the only table that has
  such a column; the two sides of a condition have one type, and a literal has been converted to the type of its column and
  carries its bytes in the column's length. Aggregates and columns are not mixed, and only numbers are summed up.
\<close>

theorem select_well_typed:
  assumes "db_named db" and "do_analyze db (AstSelect x) = Inr q"
  shows "q_tables q = sel_tabs x \<and> q_limit q = sel_limit x \<and> (\<forall>t\<in>set (sel_tabs x). is_table db t) \<and>
    list_all2 (cond_typed db (sel_tabs x)) (sel_conds x) (q_conds q) \<and>
    targets_typed db (sel_tabs x) (sel_cols x) (q_cols q) (q_aggregates q) \<and>
    list_all2 (\<lambda>item key. resolves db (sel_tabs x) (sc_tab (ob_col item)) (sc_col (ob_col item)) (sk_col key) \<and>
      sk_desc key = (orderby_dir item = OrderBy_DESC)) (case sel_order x of None \<Rightarrow> [] | Some items \<Rightarrow> items) (q_sort_keys q)"
  by (rule analyze_select_typed [OF assms])

definition sample_select :: SelectStmt where
  "sample_select = \<lparr>sel_cols = [new_AggCol AST_AGG_SUM [] ''id'' ''total'' False], sel_tabs = [''t''],
     sel_conds = [\<lparr>be_lhs = new_Col [] ''name'', be_op = SV_OP_EQ, be_rhs = ValueExpr (StringLit ''ab'')\<rparr>],
     sel_order = Some [\<lparr>ob_col = new_Col ''t'' ''name'', orderby_dir = OrderBy_DESC\<rparr>], sel_limit = 3\<rparr>"

theorem select_well_typed_witness:
  "\<exists>q. do_analyze sample_db (AstSelect sample_select) = Inr q \<and> q_limit q = 3 \<and>
     list_all2 (cond_typed sample_db [''t'']) (sel_conds sample_select) (q_conds q)"
proof -
  have n: "db_named sample_db" by (simp add: db_named_def sample_db_def sample_tab_def sample_col_def)
  obtain q where q: "do_analyze sample_db (AstSelect sample_select) = Inr q"
    by (simp add: sample_select_def analyze_select_def sample_db_def sample_tab_def sample_col_def is_table_def get_all_cols_def
      get_table_def analyze_targets_def new_AggCol_def analyze_aggregate_def check_column_def get_clause_def clause_of_def new_Col_def
      check_clause_def check_cond_def table_col_def get_col_def coerced_def coerce_value_to_col_type_def coerce_to_def vtype_def
      new_Value_def with_raw_def init_raw_def analyze_order_def Let_def)
  then show ?thesis using select_well_typed [OF n q] by (auto simp: sample_select_def)
qed

end
