(* ===== verification/Planner.thy ===== *)
theory Planner
  imports Analyze Query_Executors
begin

text \<open>
  Query plans (\<^verbatim>\<open>optimizer/plan.h\<close>) and the planner (\<^verbatim>\<open>optimizer/planner.cpp\<close>, \<^verbatim>\<open>optimizer/optimizer.h\<close>): scans by table or by
  index, a tree of joins built from the conditions between tables, sort and projection on top. The classes
  derived from \<^verbatim>\<open>Plan\<close> are the constructors of \<open>plan\<close>; \<open>NullPlan\<close> is the null pointer that \<^verbatim>\<open>pop_scan\<close> returns for an unknown table.
  The subplans that the planner shares by pointers are changed only where \<^verbatim>\<open>push_conds\<close> adds a condition to a join, and joins are
  referred to only from the tree that is being built, so trees of values behave alike.

  Lemmas: the tree scans every table of the query once and has every condition of the query once, at a node that sees
  the columns the condition names.
\<close>

section \<open>Plans\<close>

datatype PlanTag =
    T_Invalid | T_Help | T_ShowTable | T_ShowIndex | T_DescTable | T_CreateTable | T_DropTable | T_CreateIndex | T_DropIndex
  | T_Insert | T_Update | T_Delete | T_select | T_Transaction_begin | T_Transaction_commit | T_Transaction_abort
  | T_Transaction_rollback | T_SeqScan | T_IndexScan | T_NestLoop | T_Sort | T_Projection

record ScanPlan =
  sp_tag :: PlanTag
  sp_tab :: string
  sp_conds :: "Condition list"
  sp_cols :: "ColMeta list"
  sp_len :: int
  sp_fed :: "Condition list"
  sp_index :: "string list"

datatype plan =
    NullPlan
  | ScanP ScanPlan
  | JoinP plan plan "Condition list"
  | ProjectionP plan "TabCol list"
  | SortP plan "SortKey list" int
  | DMLP PlanTag plan string "Value list" "Condition list" "SetClause list" "AggregateCall list"
  | DDLP PlanTag string "string list" "ColDef list"
  | OtherP PlanTag string

definition new_ScanPlan :: "DbMeta \<Rightarrow> PlanTag \<Rightarrow> string \<Rightarrow> Condition list \<Rightarrow> string list \<Rightarrow> rmdb_error + plan" where
  "new_ScanPlan db tag t conds index_col_names =
     bind_r (get_table db t) (\<lambda>tab.
       Inr (ScanP \<lparr>sp_tag = tag, sp_tab = t, sp_conds = conds, sp_cols = tm_cols tab, sp_len = cols_end (tm_cols tab),
                   sp_fed = conds, sp_index = index_col_names\<rparr>))"

section \<open>Choice of an index\<close>

text \<open>How many columns of an index the conditions restrict: equations from the front, and one range behind them.\<close>

fun index_score :: "string \<Rightarrow> Condition list \<Rightarrow> ColMeta list \<Rightarrow> nat" where
  "index_score t conds [] = 0"
| "index_score t conds (idx_col # cols) =
     (let mine = filter (cond_on t idx_col) conds;
          has_eq = list_ex (\<lambda>c. cond_op c = OP_EQ) mine;
          has_range = list_ex (\<lambda>c. cond_op c \<in> {OP_LT, OP_LE, OP_GT, OP_GE}) mine in
      if has_eq then Suc (index_score t conds cols) else if has_range then 1 else 0)"

fun best_index :: "string \<Rightarrow> Condition list \<Rightarrow> IndexMeta list \<Rightarrow> nat \<Rightarrow> string list \<Rightarrow> nat \<times> string list" where
  "best_index t conds [] best_score best_cols = (best_score, best_cols)"
| "best_index t conds (ix # ixs) best_score best_cols =
     (let score = index_score t conds (im_cols ix) in
      if score > best_score then best_index t conds ixs score (map cm_name (im_cols ix))
      else best_index t conds ixs best_score best_cols)"

text \<open>No index is \<open>None\<close>.\<close>

definition get_index_cols :: "DbMeta \<Rightarrow> string \<Rightarrow> Condition list \<Rightarrow> rmdb_error + string list option" where
  "get_index_cols db t conds =
     bind_r (get_table db t) (\<lambda>tab.
       case best_index t conds (tm_indexes tab) 0 [] of
         (best_score, best_cols) \<Rightarrow> if best_score = 0 then Inr None else Inr (Some best_cols))"

text \<open>A scan by the chosen index, or by the table.\<close>

definition make_scan :: "DbMeta \<Rightarrow> string \<Rightarrow> Condition list \<Rightarrow> rmdb_error + plan" where
  "make_scan db t conds =
     bind_r (get_index_cols db t conds) (\<lambda>ix.
       case ix of
         None \<Rightarrow> new_ScanPlan db T_SeqScan t conds []
       | Some names \<Rightarrow> new_ScanPlan db T_IndexScan t conds names)"

section \<open>Conditions and joins\<close>

definition poppable :: "string \<Rightarrow> Condition \<Rightarrow> bool" where
  "poppable t cond \<longleftrightarrow> (t = tc_tab (lhs_col cond) \<and> is_rhs_val cond) \<or> tc_tab (lhs_col cond) = tc_tab (rhs_col cond)"

text \<open>The conditions that are taken out, and those that stay.\<close>

definition pop_conds :: "Condition list \<Rightarrow> string \<Rightarrow> Condition list \<times> Condition list" where
  "pop_conds conds t = (filter (poppable t) conds, filter (\<lambda>c. \<not> poppable t c) conds)"

definition swap_sides :: "Condition \<Rightarrow> Condition" where
  "swap_sides cond = cond\<lparr>lhs_col := rhs_col cond, rhs_col := lhs_col cond, cond_op := swap_op (cond_op cond)\<rparr>"

text \<open>1: the left column belongs to this scan, 2: the right one, 3: the condition has been placed.\<close>

fun push_conds :: "Condition \<Rightarrow> plan \<Rightarrow> int \<times> plan" where
  "push_conds cond (ScanP x) =
     (if sp_tab x = tc_tab (lhs_col cond) then (1, ScanP x)
      else if sp_tab x = tc_tab (rhs_col cond) then (2, ScanP x)
      else (0, ScanP x))"
| "push_conds cond (JoinP l r conds) =
     (case push_conds cond l of (left_res, l') \<Rightarrow>
      if left_res = 3 then (3, JoinP l' r conds)
      else case push_conds cond r of (right_res, r') \<Rightarrow>
      if right_res = 3 then (3, JoinP l' r' conds)
      else if left_res = 0 \<or> right_res = 0 then (left_res + right_res, JoinP l' r' conds)
      else (3, JoinP l' r' (conds @ [if left_res = 2 then swap_sides cond else cond])))"
| "push_conds cond p = (0, p)"

record join_state =
  scantbl :: "int list"
  joined_tables :: "string list"
  table_join_executors :: plan

fun scan_name :: "plan \<Rightarrow> string" where
  "scan_name (ScanP x) = sp_tab x"
| "scan_name _ = []"

definition pop_scan :: "string \<Rightarrow> plan list \<Rightarrow> join_state \<Rightarrow> plan \<times> join_state" where
  "pop_scan t plans s =
     (case find_pos (\<lambda>p. scan_name p = t) plans of
        None \<Rightarrow> (NullPlan, s)
      | Some i \<Rightarrow> (plans ! i, s\<lparr>scantbl := (scantbl s)[i := 1], joined_tables := joined_tables s @ [scan_name (plans ! i)]\<rparr>))"

text \<open>The first join, of the two tables of the first condition.\<close>

definition first_join :: "plan list \<Rightarrow> Condition \<Rightarrow> join_state \<Rightarrow> join_state" where
  "first_join plans cond s0 =
     (let (left, s1) = pop_scan (tc_tab (lhs_col cond)) plans s0;
          (right, s2) = pop_scan (tc_tab (rhs_col cond)) plans s1
      in s2\<lparr>table_join_executors := JoinP left right [cond]\<rparr>)"

text \<open>One round of the loop over the other conditions.\<close>

definition join_cond :: "plan list \<Rightarrow> Condition \<Rightarrow> join_state \<Rightarrow> join_state" where
  "join_cond plans cond s0 =
     (let (left, s1) = (if tc_tab (lhs_col cond) \<notin> set (joined_tables s0) then pop_scan (tc_tab (lhs_col cond)) plans s0
                        else (NullPlan, s0));
          isneedreverse = (tc_tab (rhs_col cond) \<notin> set (joined_tables s1));
          (right, s2) = (if isneedreverse then pop_scan (tc_tab (rhs_col cond)) plans s1 else (NullPlan, s1));
          tree = table_join_executors s2
      in if left \<noteq> NullPlan \<and> right \<noteq> NullPlan
         then s2\<lparr>table_join_executors := JoinP (JoinP left right [cond]) tree []\<rparr>
         else if left \<noteq> NullPlan \<or> right \<noteq> NullPlan
         then s2\<lparr>table_join_executors :=
                JoinP (if isneedreverse then right else left) tree [if isneedreverse then swap_sides cond else cond]\<rparr>
         else s2\<lparr>table_join_executors := snd (push_conds cond tree)\<rparr>)"

text \<open>The loop over the tables that no condition has joined.\<close>

definition join_rest :: "plan list \<Rightarrow> join_state \<Rightarrow> plan" where
  "join_rest plans s =
     fold (\<lambda>i tree. if scantbl s ! i = - 1 then JoinP (plans ! i) tree [] else tree) [0..<length plans] (table_join_executors s)"

fun table_scans :: "DbMeta \<Rightarrow> string list \<Rightarrow> Condition list \<Rightarrow> rmdb_error + (plan list \<times> Condition list)" where
  "table_scans db [] conds = Inr ([], conds)"
| "table_scans db (t # ts) conds =
     (case pop_conds conds t of (curr_conds, rest) \<Rightarrow>
      bind_r (make_scan db t curr_conds) (\<lambda>p.
      bind_r (table_scans db ts rest) (\<lambda>(ps, conds'). Inr (p # ps, conds'))))"

text \<open>A select without tables, which the grammar excludes, would read past the end of the vector of scans.\<close>

definition make_one_rel :: "DbMeta \<Rightarrow> Query \<Rightarrow> rmdb_error + plan" where
  "make_one_rel db query =
     bind_r (table_scans db (q_tables query) (q_conds query)) (\<lambda>(plans, conds).
       let n = length (q_tables query);
           start = \<lparr>scantbl = replicate n (- 1), joined_tables = replicate n [], table_join_executors = NullPlan\<rparr> in
       if n = 1 then Inr (hd plans)
       else case conds of
           cond # rest \<Rightarrow> Inr (join_rest plans (fold (join_cond plans) rest (first_join plans cond start)))
         | [] \<Rightarrow> if n = 0 then Inl Undefined
                 else Inr (join_rest plans (start\<lparr>table_join_executors := plans ! 0, scantbl := (scantbl start)[0 := 1]\<rparr>)))"

definition generate_sort_plan :: "Query \<Rightarrow> plan \<Rightarrow> plan" where
  "generate_sort_plan query p =
     (if q_sort_keys query = [] \<and> q_limit query < 0 then p else SortP p (q_sort_keys query) (q_limit query))"

definition logical_optimization :: "Query \<Rightarrow> Query" where
  "logical_optimization query = query"

definition physical_optimization :: "DbMeta \<Rightarrow> Query \<Rightarrow> rmdb_error + plan" where
  "physical_optimization db query = bind_r (make_one_rel db query) (\<lambda>p. Inr (generate_sort_plan query p))"

definition generate_select_plan :: "DbMeta \<Rightarrow> Query \<Rightarrow> rmdb_error + plan" where
  "generate_select_plan db query0 =
     (let query = logical_optimization query0 in
      bind_r (physical_optimization db query) (\<lambda>root. Inr (ProjectionP root (q_cols query))))"

section \<open>Plans of statements\<close>

fun interp_sv_type :: "SvType \<Rightarrow> ColType" where
  "interp_sv_type SV_TYPE_INT = TYPE_INT"
| "interp_sv_type SV_TYPE_FLOAT = TYPE_FLOAT"
| "interp_sv_type SV_TYPE_STRING = TYPE_STRING"
| "interp_sv_type SV_TYPE_BIGINT = TYPE_BIGINT"
| "interp_sv_type SV_TYPE_DATETIME = TYPE_DATETIME"

definition col_def_of :: "SvColDef \<Rightarrow> ColDef" where
  "col_def_of d = \<lparr>cd_name = scd_name d, cd_type = interp_sv_type (tl_type (type_len d)), cd_len = tl_len (type_len d)\<rparr>"

definition do_planner :: "DbMeta \<Rightarrow> Query \<Rightarrow> rmdb_error + plan" where
  "do_planner db query =
     (case q_parse query of
        CreateTable t flds \<Rightarrow> Inr (DDLP T_CreateTable t [] (map col_def_of flds))
      | DropTable t \<Rightarrow> Inr (DDLP T_DropTable t [] [])
      | CreateIndex t names \<Rightarrow> Inr (DDLP T_CreateIndex t names [])
      | DropIndex t names \<Rightarrow> Inr (DDLP T_DropIndex t names [])
      | AstInsert t vals \<Rightarrow> Inr (DMLP T_Insert NullPlan t (q_values query) [] [] [])
      | AstDelete t conds \<Rightarrow>
          bind_r (make_scan db t (q_conds query)) (\<lambda>p. Inr (DMLP T_Delete p t [] (q_conds query) [] []))
      | AstUpdate t sets conds \<Rightarrow>
          bind_r (make_scan db t (q_conds query)) (\<lambda>p. Inr (DMLP T_Update p t [] (q_conds query) (q_set_clauses query) []))
      | AstSelect x \<Rightarrow>
          bind_r (generate_select_plan db query) (\<lambda>projection. Inr (DMLP T_select projection [] [] [] [] (q_aggregates query)))
      | _ \<Rightarrow> Inl (InternalError ''Unexpected AST root''))"

definition plan_query :: "DbMeta \<Rightarrow> Query \<Rightarrow> rmdb_error + plan" where
  "plan_query db query =
     (case q_parse query of
        Help \<Rightarrow> Inr (OtherP T_Help [])
      | ShowTables \<Rightarrow> Inr (OtherP T_ShowTable [])
      | ShowIndex t \<Rightarrow> Inr (OtherP T_ShowIndex t)
      | DescTable t \<Rightarrow> Inr (OtherP T_DescTable t)
      | TxnBegin \<Rightarrow> Inr (OtherP T_Transaction_begin [])
      | TxnAbort \<Rightarrow> Inr (OtherP T_Transaction_abort [])
      | TxnCommit \<Rightarrow> Inr (OtherP T_Transaction_commit [])
      | TxnRollback \<Rightarrow> Inr (OtherP T_Transaction_rollback [])
      | _ \<Rightarrow> do_planner db query)"

section \<open>Every condition is tested once\<close>

fun leaves :: "plan \<Rightarrow> plan list" where
  "leaves (ScanP x) = [ScanP x]"
| "leaves (JoinP l r cs) = leaves l @ leaves r"
| "leaves _ = []"

abbreviation leaf_names :: "plan \<Rightarrow> string list" where
  "leaf_names p \<equiv> map scan_name (leaves p)"

fun scan_conds :: "plan \<Rightarrow> Condition list" where
  "scan_conds (ScanP x) = sp_conds x"
| "scan_conds _ = []"

fun join_conds :: "plan \<Rightarrow> Condition list" where
  "join_conds (JoinP l r cs) = join_conds l @ join_conds r @ cs"
| "join_conds _ = []"

definition plan_conds :: "plan \<Rightarrow> Condition list" where
  "plan_conds p = concat (map scan_conds (leaves p)) @ join_conds p"

definition cond_tabs :: "Condition \<Rightarrow> string set" where
  "cond_tabs c = (if is_rhs_val c then {tc_tab (lhs_col c)} else {tc_tab (lhs_col c), tc_tab (rhs_col c)})"

text \<open>Every condition stands at a scan or join whose rows have the columns it names.\<close>

fun placed :: "plan \<Rightarrow> bool" where
  "placed (ScanP x) \<longleftrightarrow> (\<forall>c\<in>set (sp_conds x). cond_tabs c \<subseteq> {sp_tab x})"
| "placed (JoinP l r cs) \<longleftrightarrow> placed l \<and> placed r \<and> (\<forall>c\<in>set cs. cond_tabs c \<subseteq> set (leaf_names l) \<union> set (leaf_names r))"
| "placed _ \<longleftrightarrow> False"

text \<open>A condition may have been turned around. The second list has the conditions of the first, in any order.\<close>

definition same_cond :: "Condition \<Rightarrow> Condition \<Rightarrow> bool" where
  "same_cond c c' \<longleftrightarrow> c' = c \<or> (\<not> is_rhs_val c \<and> c' = swap_sides c)"

definition same_conds :: "Condition list \<Rightarrow> Condition list \<Rightarrow> bool" where
  "same_conds cs ds \<longleftrightarrow> (\<exists>es. mset es = mset ds \<and> list_all2 same_cond cs es)"

lemma same_cond_refl [simp]: "same_cond c c"
  by (simp add: same_cond_def)

lemma same_conds_refl: "mset cs = mset ds \<Longrightarrow> same_conds cs ds"
  unfolding same_conds_def by (rule exI [of _ cs]) (simp add: list_all2_refl)

lemma same_conds_append:
  assumes "same_conds cs ds" and "same_conds cs' ds'" and "mset es = mset ds + mset ds'"
  shows "same_conds (cs @ cs') es"
proof -
  obtain u v where "mset u = mset ds" "list_all2 same_cond cs u" "mset v = mset ds'" "list_all2 same_cond cs' v"
    using assms(1,2) by (auto simp: same_conds_def)
  then have "mset (u @ v) = mset es" "list_all2 same_cond (cs @ cs') (u @ v)" using assms(3) by (auto intro: list_all2_appendI)
  then show ?thesis unfolding same_conds_def by blast
qed

lemma same_conds_snoc:
  assumes "same_conds cs ds" and "same_cond c c'" and "mset es = add_mset c' (mset ds)"
  shows "same_conds (cs @ [c]) es"
proof (rule same_conds_append [OF assms(1)])
  show "same_conds [c] [c']" using assms(2) unfolding same_conds_def by (intro exI [of _ "[c']"]) simp
qed (use assms(3) in simp)

lemma same_conds_perm:
  assumes "mset cs = mset cs'" and "same_conds cs' ds"
  shows "same_conds cs ds"
proof -
  obtain u where u: "mset u = mset ds" "list_all2 same_cond cs' u" using assms(2) by (auto simp: same_conds_def)
  obtain v where "list_all2 same_cond cs v" "mset v = mset u"
    using list_all2_reorder_left_invariance [OF u(2) assms(1)] by metis
  then show ?thesis using u(1) unfolding same_conds_def by auto
qed

lemma cond_tabs_swap [simp]: "\<not> is_rhs_val c \<Longrightarrow> cond_tabs (swap_sides c) = cond_tabs c"
  by (auto simp: cond_tabs_def swap_sides_def)

subsection \<open>Pushing a condition down\<close>

definition between :: "Condition \<Rightarrow> bool" where
  "between c \<longleftrightarrow> \<not> is_rhs_val c \<and> tc_tab (lhs_col c) \<noteq> tc_tab (rhs_col c)"

definition pushed :: "Condition \<Rightarrow> plan \<Rightarrow> int \<times> plan \<Rightarrow> bool" where
  "pushed c p r \<longleftrightarrow>
     (let a = tc_tab (lhs_col c) \<in> set (leaf_names p); b = tc_tab (rhs_col c) \<in> set (leaf_names p) in
      if a \<and> b then fst r = 3 \<and> leaves (snd r) = leaves p \<and> placed (snd r) \<and>
           (\<exists>c'. same_cond c c' \<and> mset (join_conds (snd r)) = add_mset c' (mset (join_conds p)))
      else r = (if a then 1 else if b then 2 else 0, p))"

lemma pushed_cases:
  assumes "pushed c p (res, p')"
  shows "res = (if tc_tab (lhs_col c) \<in> set (leaf_names p) then if tc_tab (rhs_col c) \<in> set (leaf_names p) then 3 else 1
      else if tc_tab (rhs_col c) \<in> set (leaf_names p) then 2 else 0)"
    and "res \<noteq> 3 \<Longrightarrow> p' = p"
  using assms by (auto simp: pushed_def Let_def split: if_splits)

lemma push_conds_spec:
  assumes "between c" and "placed p" and "distinct (leaf_names p)"
  shows "pushed c p (push_conds c p)"
  using assms(2,3)
proof (induction p)
  case (JoinP l r cs)
  obtain x l' where l: "push_conds c l = (x, l')" by fastforce
  obtain y r' where r: "push_conds c r = (y, r')" by fastforce
  have L: "pushed c l (x, l')" and R: "pushed c r (y, r')" using JoinP l r by simp_all
  note Lx = pushed_cases [OF L] and Ry = pushed_cases [OF R]
  let ?a = "tc_tab (lhs_col c)" and ?b = "tc_tab (rhs_col c)"
  have d: "set (leaf_names l) \<inter> set (leaf_names r) = {}" using JoinP.prems(2) by simp
  have v: "\<not> is_rhs_val c" using assms(1) by (simp add: between_def)
  have sw: "same_cond c (swap_sides c)" using v by (simp add: same_cond_def)
  consider (left) "x = 3" | (right) "x \<noteq> 3" "y = 3" | (here) "x \<noteq> 3" "y \<noteq> 3" "x \<noteq> 0" "y \<noteq> 0" | (no) "x \<noteq> 3" "y \<noteq> 3" "x = 0 \<or> y = 0" by blast
  then show ?case
  proof cases
    case left
    then show ?thesis using L l JoinP.prems(1) by (auto simp: pushed_def Let_def split: if_splits)
  next
    case right
    then show ?thesis using R r l Lx JoinP.prems(1) d by (auto simp: pushed_def Let_def split: if_splits)
  next
    case here
    have tabs: "?a \<in> set (leaf_names l) \<and> ?b \<in> set (leaf_names r) \<and> x = 1 \<or> ?b \<in> set (leaf_names l) \<and> ?a \<in> set (leaf_names r) \<and> x = 2"
      using Lx(1) Ry(1) here d by (auto split: if_splits)
    have e: "push_conds c (JoinP l r cs) = (3, JoinP l r (cs @ [if x = 2 then swap_sides c else c]))"
      using l r here Lx(2) Ry(2) by simp
    have "cond_tabs c \<subseteq> set (leaf_names l) \<union> set (leaf_names r)" using tabs v by (auto simp: cond_tabs_def)
    then have "placed (JoinP l r (cs @ [if x = 2 then swap_sides c else c]))" using JoinP.prems(1) v by auto
    moreover have "\<exists>c'. same_cond c c' \<and> mset (join_conds (JoinP l r (cs @ [if x = 2 then swap_sides c else c]))) = add_mset c' (mset (join_conds (JoinP l r cs)))"
      using sw by (intro exI [of _ "if x = 2 then swap_sides c else c"]) simp
    ultimately show ?thesis unfolding e pushed_def Let_def using tabs by auto
  next
    case no
    then have "push_conds c (JoinP l r cs) = (x + y, JoinP l r cs)" using l r Lx(2) Ry(2) by auto
    then show ?thesis using Lx(1) Ry(1) no d by (auto simp: pushed_def Let_def split: if_splits)
  qed
qed (use assms(1) in \<open>auto simp: pushed_def between_def Let_def\<close>)

subsection \<open>Building the tree of joins\<close>

text \<open>
  The state of the loop: the tree joins scans of different tables and no others, the two lists of tables that have been used agree
  with it, and it has the conditions worked off so far.
\<close>

definition scans_of :: "string list \<Rightarrow> plan list \<Rightarrow> bool" where
  "scans_of ts plans \<longleftrightarrow> map scan_name plans = ts \<and> distinct ts \<and> [] \<notin> set ts \<and>
     (\<forall>p\<in>set plans. placed p \<and> leaves p = [p] \<and> join_conds p = [])"

definition joining :: "string list \<Rightarrow> plan list \<Rightarrow> Condition list \<Rightarrow> join_state \<Rightarrow> bool" where
  "joining ts plans dn s \<longleftrightarrow>
     length (scantbl s) = length ts \<and> placed (table_join_executors s) \<and> distinct (leaf_names (table_join_executors s)) \<and>
     set (leaves (table_join_executors s)) \<subseteq> set plans \<and>
     (\<forall>t. t \<noteq> [] \<longrightarrow> (t \<in> set (joined_tables s) \<longleftrightarrow> t \<in> set (leaf_names (table_join_executors s)))) \<and>
     (\<forall>i<length ts. scantbl s ! i = - 1 \<longleftrightarrow> ts ! i \<notin> set (leaf_names (table_join_executors s))) \<and>
     same_conds dn (join_conds (table_join_executors s))"

lemma scans_ofD:
  assumes "scans_of ts plans" and "i < length ts"
  shows "scan_name (plans ! i) = ts ! i" "length plans = length ts" "plans ! i \<in> set plans" "placed (plans ! i)"
    "leaves (plans ! i) = [plans ! i]" "join_conds (plans ! i) = []" "plans ! i \<noteq> NullPlan"
proof -
  show l: "length plans = length ts" using assms(1) by (auto simp: scans_of_def)
  then show m: "plans ! i \<in> set plans" using assms(2) by simp
  have "map scan_name plans ! i = ts ! i" using assms(1) by (simp add: scans_of_def)
  then show "scan_name (plans ! i) = ts ! i" using assms(2) l by simp
  have "placed (plans ! i) \<and> leaves (plans ! i) = [plans ! i] \<and> join_conds (plans ! i) = []"
    using assms(1) m unfolding scans_of_def by blast
  then show pl: "placed (plans ! i)" "leaves (plans ! i) = [plans ! i]" "join_conds (plans ! i) = []" by simp_all
  show "plans ! i \<noteq> NullPlan" using pl(1) by auto
qed

lemma pop_scan_spec:
  assumes sc: "scans_of ts plans" and t: "t \<in> set ts"
  obtains i where "i < length ts" "ts ! i = t"
    "\<And>s. pop_scan t plans s = (plans ! i, s\<lparr>scantbl := (scantbl s)[i := 1], joined_tables := joined_tables s @ [t]\<rparr>)"
proof -
  obtain p where "p \<in> set plans" "scan_name p = t" using sc t by (auto simp: scans_of_def)
  then obtain i where i: "find_pos (\<lambda>p. scan_name p = t) plans = Some i" "i < length plans" "scan_name (plans ! i) = t"
    using find_pos_hit [of p plans "\<lambda>p. scan_name p = t"] by blast
  have "i < length ts" "ts ! i = t" using i(2,3) sc scans_ofD(1,2) by (auto simp: scans_of_def)
  then show thesis using that i(1,3) by (simp add: pop_scan_def)
qed

text \<open>How the tables used are recorded when scans are joined to the tree.\<close>

lemma joining_step:
  assumes sc: "scans_of ts plans" and J: "joining ts plans dn s" and u: "\<forall>i\<in>set is. i < length ts" "distinct is"
    and new: "\<forall>i\<in>set is. ts ! i \<notin> set (leaf_names (table_join_executors s))"
    and tb: "scantbl s' = fold (\<lambda>i tb. tb[i := 1]) is (scantbl s)" and jt: "set (joined_tables s') = set (joined_tables s) \<union> (!) ts ` set is"
    and lv: "mset (leaves (table_join_executors s')) = mset (map ((!) plans) is) + mset (leaves (table_join_executors s))"
    and pl: "placed (table_join_executors s')" and cs: "same_conds dn' (join_conds (table_join_executors s'))"
  shows "joining ts plans dn' s'"
proof -
  note J' = J [unfolded joining_def]
  have names: "map scan_name (map ((!) plans) is) = map ((!) ts) is" using u(1) scans_ofD(1) [OF sc] by simp
  have mn: "mset (leaf_names (table_join_executors s')) = mset (map ((!) ts) is) + mset (leaf_names (table_join_executors s))"
    using arg_cong [OF lv, of "image_mset scan_name"] names by (simp flip: mset_map add: image_mset_union del: map_map)
  then have sn: "set (leaf_names (table_join_executors s')) = (!) ts ` set is \<union> set (leaf_names (table_join_executors s))"
    by (metis mset_append set_append set_mset_mset set_map list.set_map)
  have sl: "set (leaves (table_join_executors s')) \<subseteq> set plans"
    using arg_cong [OF lv, of set_mset] J' u(1) scans_ofD(3) [OF sc] by auto
  have "distinct (map ((!) ts) is @ leaf_names (table_join_executors s))"
    using J' u new sc by (auto simp: distinct_map inj_on_def nth_eq_iff_index_eq scans_of_def simp del: map_map)
  then have dist: "distinct (leaf_names (table_join_executors s'))" using mn by (metis mset_append mset_eq_imp_distinct_iff)
  have f: "fold (\<lambda>i tb. tb[i := 1]) xs tb ! j = (if j \<in> set xs then (1::int) else tb ! j)" if "j < length tb" for xs tb j
    using that by (induction xs arbitrary: tb) auto
  have fl: "length (fold (\<lambda>i tb. tb[i := (1::int)]) xs tb) = length tb" for xs tb by (induction xs arbitrary: tb) auto
  have "scantbl s' ! i = - 1 \<longleftrightarrow> ts ! i \<notin> set (leaf_names (table_join_executors s'))" if i: "i < length ts" for i
  proof -
    have "ts ! i \<in> (!) ts ` set is \<longleftrightarrow> i \<in> set is" 
    proof
      assume "ts ! i \<in> (!) ts ` set is"
      then obtain j where "j \<in> set is" "ts ! i = ts ! j" by blast
      moreover have "distinct ts" using sc by (simp add: scans_of_def)
      ultimately show "i \<in> set is" using u(1) i nth_eq_iff_index_eq by blast
    qed simp
    then show ?thesis using J' i f [of i "scantbl s" "is"] unfolding tb sn by auto
  qed
  moreover have "t \<in> set (joined_tables s') \<longleftrightarrow> t \<in> set (leaf_names (table_join_executors s'))" if "t \<noteq> []" for t
    using J' that unfolding jt sn by blast
  ultimately show ?thesis using pl dist sl cs J' fl tb by (simp add: joining_def del: set_map)
qed

lemma names_nonempty: "scans_of ts plans \<Longrightarrow> t \<in> set ts \<Longrightarrow> t \<noteq> []"
  by (auto simp: scans_of_def)

lemma join_cond_spec:
  assumes sc: "scans_of ts plans" and J: "joining ts plans dn s" and b: "between c"
    and a: "tc_tab (lhs_col c) \<in> set ts" "tc_tab (rhs_col c) \<in> set ts"
  shows "joining ts plans (dn @ [c]) (join_cond plans c s)"
proof -
  let ?a = "tc_tab (lhs_col c)" and ?b = "tc_tab (rhs_col c)" and ?T = "table_join_executors s"
  note J' = J [unfolded joining_def]
  have ne: "?a \<noteq> []" "?b \<noteq> []" "?a \<noteq> ?b" "\<not> is_rhs_val c" using names_nonempty [OF sc] a b by (auto simp: between_def)
  have in_a: "?a \<in> set (joined_tables s) \<longleftrightarrow> ?a \<in> set (leaf_names ?T)" and in_b: "?b \<in> set (joined_tables s) \<longleftrightarrow> ?b \<in> set (leaf_names ?T)"
    using J' ne by blast+
  have sw: "same_cond c (swap_sides c)" using ne by (simp add: same_cond_def)
  have tabs: "cond_tabs c = {?a, ?b}" using ne by (simp add: cond_tabs_def)
  have cs: "same_conds dn (join_conds ?T)" and plT: "placed ?T" using J' by simp_all
  obtain i where i: "i < length ts" "ts ! i = ?a"
    "\<And>s. pop_scan ?a plans s = (plans ! i, s\<lparr>scantbl := (scantbl s)[i := 1], joined_tables := joined_tables s @ [?a]\<rparr>)"
    using pop_scan_spec [OF sc a(1)] by blast
  obtain j where j: "j < length ts" "ts ! j = ?b"
    "\<And>s. pop_scan ?b plans s = (plans ! j, s\<lparr>scantbl := (scantbl s)[j := 1], joined_tables := joined_tables s @ [?b]\<rparr>)"
    using pop_scan_spec [OF sc a(2)] by blast
  note I = scans_ofD [OF sc i(1)] and Jj = scans_ofD [OF sc j(1)]
  have ij: "i \<noteq> j" using i(2) j(2) ne(3) by auto
  consider (both) "?a \<notin> set (leaf_names ?T)" "?b \<notin> set (leaf_names ?T)" | (left) "?a \<notin> set (leaf_names ?T)" "?b \<in> set (leaf_names ?T)"
    | (right) "?a \<in> set (leaf_names ?T)" "?b \<notin> set (leaf_names ?T)" | (none) "?a \<in> set (leaf_names ?T)" "?b \<in> set (leaf_names ?T)" by blast
  then show ?thesis
  proof cases
    case both
    let ?s' = "s\<lparr>scantbl := (scantbl s)[i := 1, j := 1], joined_tables := joined_tables s @ [?a, ?b],
      table_join_executors := JoinP (JoinP (plans ! i) (plans ! j) [c]) ?T []\<rparr>"
    have e: "join_cond plans c s = ?s'" using both in_a in_b i(3) j(3) ne(3) I(7) Jj(7) by (simp add: join_cond_def Let_def)
    show ?thesis unfolding e
      by (rule joining_step [OF sc J, of "[i, j]"])
        (use both i j I Jj ij tabs plT same_conds_snoc [OF cs same_cond_refl [of c]] in \<open>simp_all add: i(2) j(2)\<close>)
  next
    case left
    let ?s' = "s\<lparr>scantbl := (scantbl s)[i := 1], joined_tables := joined_tables s @ [?a],
      table_join_executors := JoinP (plans ! i) ?T [c]\<rparr>"
    have e: "join_cond plans c s = ?s'" using left in_a in_b i(3) ne(3) I(7) by (simp add: join_cond_def Let_def)
    show ?thesis unfolding e
      by (rule joining_step [OF sc J, of "[i]"])
        (use left i I tabs plT same_conds_snoc [OF cs same_cond_refl [of c]] in \<open>simp_all add: i(2)\<close>)
  next
    case right
    let ?s' = "s\<lparr>scantbl := (scantbl s)[j := 1], joined_tables := joined_tables s @ [?b],
      table_join_executors := JoinP (plans ! j) ?T [swap_sides c]\<rparr>"
    have e: "join_cond plans c s = ?s'" using right in_a in_b j(3) Jj(7) by (simp add: join_cond_def Let_def)
    show ?thesis unfolding e
      by (rule joining_step [OF sc J, of "[j]"])
        (use right j Jj tabs plT ne(4) same_conds_snoc [OF cs sw] in \<open>simp_all add: j(2)\<close>)
  next
    case none
    have e: "join_cond plans c s = s\<lparr>table_join_executors := snd (push_conds c ?T)\<rparr>"
      using none in_a in_b by (simp add: join_cond_def Let_def)
    have P: "pushed c ?T (push_conds c ?T)" using J' by (intro push_conds_spec [OF b]) auto
    then obtain c' where c': "leaves (snd (push_conds c ?T)) = leaves ?T" "placed (snd (push_conds c ?T))" "same_cond c c'"
      "mset (join_conds (snd (push_conds c ?T))) = add_mset c' (mset (join_conds ?T))"
      using none by (auto simp: pushed_def Let_def)
    show ?thesis unfolding e
      by (rule joining_step [OF sc J, of "[]"]) (use c' same_conds_snoc [OF cs c'(3,4)] in simp_all)
  qed
qed

lemma join_conds_spec:
  assumes sc: "scans_of ts plans" and J: "joining ts plans dn s"
    and c: "\<forall>c\<in>set cs. between c \<and> tc_tab (lhs_col c) \<in> set ts \<and> tc_tab (rhs_col c) \<in> set ts"
  shows "joining ts plans (dn @ cs) (fold (join_cond plans) cs s)"
  using J c
proof (induction cs arbitrary: s dn)
  case (Cons c cs)
  then show ?case using join_cond_spec [OF sc Cons.prems(1), of c] Cons.IH [of "dn @ [c]" "join_cond plans c s"] by simp
qed simp

lemma first_join_spec:
  assumes sc: "scans_of ts plans" and b: "between c" and a: "tc_tab (lhs_col c) \<in> set ts" "tc_tab (rhs_col c) \<in> set ts"
    and s: "scantbl s = replicate (length ts) (- 1)" "joined_tables s = replicate (length ts) []"
  shows "joining ts plans [c] (first_join plans c s)"
proof -
  let ?a = "tc_tab (lhs_col c)" and ?b = "tc_tab (rhs_col c)"
  obtain i where i: "i < length ts" "ts ! i = ?a"
    "\<And>s. pop_scan ?a plans s = (plans ! i, s\<lparr>scantbl := (scantbl s)[i := 1], joined_tables := joined_tables s @ [?a]\<rparr>)"
    using pop_scan_spec [OF sc a(1)] by blast
  obtain j where j: "j < length ts" "ts ! j = ?b"
    "\<And>s. pop_scan ?b plans s = (plans ! j, s\<lparr>scantbl := (scantbl s)[j := 1], joined_tables := joined_tables s @ [?b]\<rparr>)"
    using pop_scan_spec [OF sc a(2)] by blast
  note I = scans_ofD [OF sc i(1)] and Jj = scans_ofD [OF sc j(1)]
  have ab: "?a \<noteq> ?b" "\<not> is_rhs_val c" using b by (simp_all add: between_def)
  have e: "first_join plans c s = s\<lparr>scantbl := (scantbl s)[i := 1, j := 1], joined_tables := joined_tables s @ [?a, ?b],
    table_join_executors := JoinP (plans ! i) (plans ! j) [c]\<rparr>"
    by (simp add: first_join_def i(3) j(3) Let_def)
  have dts: "distinct ts" using sc by (simp add: scans_of_def)
  have "scantbl (first_join plans c s) ! k = - 1 \<longleftrightarrow> ts ! k \<notin> {?a, ?b}" if k: "k < length ts" for k
  proof -
    have "ts ! k \<in> {?a, ?b} \<longleftrightarrow> k \<in> {i, j}" 
      using nth_eq_iff_index_eq [OF dts k i(1)] nth_eq_iff_index_eq [OF dts k j(1)] by (simp flip: i(2) j(2))
    then show ?thesis using k i(1) j(1) by (auto simp: e s(1) nth_list_update)
  qed
  then have tb: "\<forall>k<length ts. scantbl (first_join plans c s) ! k = - 1 \<longleftrightarrow> ts ! k \<notin> {?a, ?b}" by blast
  let ?T = "table_join_executors (first_join plans c s)"
  have T: "?T = JoinP (plans ! i) (plans ! j) [c]" by (simp add: e)
  have lv: "leaves ?T = [plans ! i, plans ! j]" "leaf_names ?T = [?a, ?b]" "join_conds ?T = [c]"
    unfolding T using I(1,5,6) Jj(1,5,6) i(2) j(2) by simp_all
  have "placed ?T" unfolding T using I(1,4,5) Jj(1,4,5) i(2) j(2) by (simp add: cond_tabs_def)
  moreover have "\<forall>t. t \<noteq> [] \<longrightarrow> (t \<in> set (joined_tables (first_join plans c s)) \<longleftrightarrow> t \<in> set (leaf_names ?T))"
    unfolding lv(2) by (simp add: e s(2))
  moreover have "length (scantbl (first_join plans c s)) = length ts" by (simp add: e s(1))
  moreover have "set (leaves ?T) \<subseteq> set plans" unfolding lv(1) using I(3) Jj(3) by simp
  ultimately show ?thesis
    unfolding joining_def lv(2,3) using tb ab(1) same_conds_refl [of "[c]" "[c]"] by simp
qed

lemma no_join_spec:
  assumes sc: "scans_of ts plans" and ts: "ts \<noteq> []"
    and s: "scantbl s = (replicate (length ts) (- 1))[0 := 1]" "table_join_executors s = plans ! 0" "joined_tables s = ts"
  shows "length (scantbl s) = length ts" "placed (table_join_executors s)" "leaves (table_join_executors s) = [plans ! 0]"
    "join_conds (table_join_executors s) = []" "i < length ts \<Longrightarrow> scantbl s ! i = - 1 \<longleftrightarrow> i \<noteq> 0"
  using scans_ofD [OF sc, of 0] ts s by (auto simp: nth_list_update)

text \<open>The tables that are left are joined without conditions.\<close>

lemma join_rest_spec:
  assumes sc: "scans_of ts plans" and pl: "placed (table_join_executors s)"
    and tb: "\<And>i. i < length ts \<Longrightarrow> scantbl s ! i = - 1 \<longleftrightarrow> plans ! i \<notin> set (leaves (table_join_executors s))"
    and lv: "set (leaves (table_join_executors s)) \<subseteq> set plans" "distinct (leaves (table_join_executors s))"
  shows "placed (join_rest plans s)" "mset (leaves (join_rest plans s)) = mset plans"
    "join_conds (join_rest plans s) = join_conds (table_join_executors s)"
proof -
  let ?T = "table_join_executors s" and ?step = "\<lambda>i tree. if scantbl s ! i = - 1 then JoinP (plans ! i) tree [] else tree"
  have len: "length plans = length ts" using sc by (auto simp: scans_of_def)
  have k: "placed (fold ?step [0..<k] ?T) \<and> join_conds (fold ?step [0..<k] ?T) = join_conds ?T \<and>
      mset (leaves (fold ?step [0..<k] ?T)) = mset (filter (\<lambda>p. p \<notin> set (leaves ?T)) (take k plans)) + mset (leaves ?T)"
    if "k \<le> length ts" for k
    using that
  proof (induction k)
    case (Suc k)
    then have "k < length ts" by simp
    note D = scans_ofD [OF sc this] and t = tb [OF this]
    show ?case using Suc D t len by (auto simp: take_Suc_conv_app_nth)
  qed (use pl in simp)
  have "distinct plans" using sc by (auto simp: scans_of_def distinct_map)
  then have "mset (filter (\<lambda>p. p \<in> set (leaves ?T)) plans) = mset (leaves ?T)"
    using lv by (intro set_eq_iff_mset_eq_distinct [THEN iffD1]) auto
  then have "mset (filter (\<lambda>p. p \<notin> set (leaves ?T)) plans) + mset (leaves ?T) = mset plans"
    using multiset_partition [of "mset plans" "\<lambda>p. p \<in> set (leaves ?T)"] by (simp add: add.commute)
  then show "placed (join_rest plans s)" "mset (leaves (join_rest plans s)) = mset plans"
    "join_conds (join_rest plans s) = join_conds ?T"
    using k [of "length ts"] len by (simp_all add: join_rest_def)
qed

lemma joining_rest:
  assumes sc: "scans_of ts plans" and J: "joining ts plans dn s"
  shows "placed (join_rest plans s)" "mset (leaves (join_rest plans s)) = mset plans" "same_conds dn (join_conds (join_rest plans s))"
proof -
  note J' = J [unfolded joining_def]
  have lv: "set (leaves (table_join_executors s)) \<subseteq> set plans" "distinct (leaves (table_join_executors s))"
    using J' distinct_map by blast+
  have tb: "scantbl s ! i = - 1 \<longleftrightarrow> plans ! i \<notin> set (leaves (table_join_executors s))" if i: "i < length ts" for i
  proof -
    have inj: "inj_on scan_name (set plans)" using sc by (auto simp: scans_of_def distinct_map)
    have "ts ! i \<in> scan_name ` set (leaves (table_join_executors s)) \<longleftrightarrow> plans ! i \<in> set (leaves (table_join_executors s))"

    proof
      assume "ts ! i \<in> scan_name ` set (leaves (table_join_executors s))"
      then obtain p where p: "p \<in> set (leaves (table_join_executors s))" "scan_name p = scan_name (plans ! i)"
        using scans_ofD(1) [OF sc i] by auto
      then have "p = plans ! i" using inj_onD [OF inj, of p "plans ! i"] lv(1) scans_ofD(3) [OF sc i] by blast
      then show "plans ! i \<in> set (leaves (table_join_executors s))" using p(1) by simp
    qed (use scans_ofD(1) [OF sc i] in \<open>metis image_eqI\<close>)
    then show ?thesis using J' i by simp
  qed
  note R = join_rest_spec [OF sc _ tb lv]
  show "placed (join_rest plans s)" "mset (leaves (join_rest plans s)) = mset plans" "same_conds dn (join_conds (join_rest plans s))"
    using R J' by simp_all
qed

subsection \<open>The scans\<close>

text \<open>The queries planned: different tables of the catalogue, conditions on them, and no comparison of two columns of one table but the first.\<close>

definition plannable :: "DbMeta \<Rightarrow> string list \<Rightarrow> Condition list \<Rightarrow> bool" where
  "plannable db ts conds \<longleftrightarrow> distinct ts \<and> ts \<noteq> [] \<and> [] \<notin> set ts \<and> (\<forall>t\<in>set ts. is_table db t) \<and>
     (\<forall>c\<in>set conds. cond_tabs c \<subseteq> set ts \<and> (tc_tab (lhs_col c) = tc_tab (rhs_col c) \<longrightarrow> cond_tabs c \<subseteq> {hd ts}))"

lemma best_index_spec:
  assumes "best_index t conds ixs n b = (k, names)"
  shows "n \<le> k" "k = n \<and> names = b \<or> (\<exists>ix\<in>set ixs. names = map cm_name (im_cols ix) \<and> k = index_score t conds (im_cols ix))"
    "\<forall>ix\<in>set ixs. index_score t conds (im_cols ix) \<le> k"
  using assms by (induction t conds ixs n b rule: best_index.induct) (force simp: Let_def split: if_splits)+

lemma make_scan_spec:
  assumes "is_table db t"
  obtains x where "make_scan db t conds = Inr (ScanP x)" "sp_tab x = t" "sp_conds x = conds"
proof -
  obtain tab where "map_of (tabs db) t = Some tab" using assms by (auto simp: is_table_def)
  moreover obtain k names where "best_index t conds (tm_indexes tab) 0 [] = (k, names)" by fastforce
  ultimately show thesis using that by (cases "k = 0") (auto simp: make_scan_def get_index_cols_def get_table_def new_ScanPlan_def)
qed

lemma table_scans_spec:
  assumes "distinct ts" "[] \<notin> set ts" "\<forall>t\<in>set ts. is_table db t"
    and "\<forall>c\<in>set conds. tc_tab (lhs_col c) = tc_tab (rhs_col c) \<longrightarrow> ts \<noteq> [] \<and> cond_tabs c \<subseteq> {hd ts}"
  shows "\<exists>plans. table_scans db ts conds = Inr (plans, filter (\<lambda>c. \<forall>t\<in>set ts. \<not> poppable t c) conds) \<and> scans_of ts plans \<and>
    mset (concat (map scan_conds plans)) + mset (filter (\<lambda>c. \<forall>t\<in>set ts. \<not> poppable t c) conds) = mset conds"
  using assms
proof (induction ts arbitrary: conds)
  case (Cons t ts)
  let ?cur = "filter (poppable t) conds" and ?rest = "filter (\<lambda>c. \<not> poppable t c) conds"
  obtain x where x: "make_scan db t ?cur = Inr (ScanP x)" "sp_tab x = t" "sp_conds x = ?cur" 
    by (rule make_scan_spec [of db t ?cur]) (use Cons.prems(3) in auto)
  have "\<forall>c\<in>set ?rest. tc_tab (lhs_col c) = tc_tab (rhs_col c) \<longrightarrow> ts \<noteq> [] \<and> cond_tabs c \<subseteq> {hd ts}" by (auto simp: poppable_def)
  then obtain plans where p: "table_scans db ts ?rest = Inr (plans, filter (\<lambda>c. \<forall>t\<in>set ts. \<not> poppable t c) ?rest)" "scans_of ts plans"
    "mset (concat (map scan_conds plans)) + mset (filter (\<lambda>c. \<forall>t\<in>set ts. \<not> poppable t c) ?rest) = mset ?rest"
    using Cons.IH [of ?rest] Cons.prems by auto
  have f: "filter (\<lambda>c. \<forall>t\<in>set ts. \<not> poppable t c) ?rest = filter (\<lambda>c. \<forall>t\<in>set (t # ts). \<not> poppable t c) conds"
    by (simp add: conj_commute)
  have "placed (ScanP x)" using x Cons.prems(4) by (auto simp: poppable_def cond_tabs_def)
  then have "scans_of (t # ts) (ScanP x # plans)" using p(2) x(2) Cons.prems(1,2) by (simp add: scans_of_def)
  moreover have "mset (concat (map scan_conds (ScanP x # plans))) + mset (filter (\<lambda>c. \<forall>t\<in>set (t # ts). \<not> poppable t c) conds) = mset conds"
  proof -
    have "mset (concat (map scan_conds (ScanP x # plans))) + mset (filter (\<lambda>c. \<forall>t\<in>set (t # ts). \<not> poppable t c) conds) =
      mset ?cur + (mset (concat (map scan_conds plans)) + mset (filter (\<lambda>c. \<forall>t\<in>set ts. \<not> poppable t c) ?rest))"
      unfolding f x(3) [symmetric] by (simp add: x(3))
    also have "\<dots> = mset ?cur + mset ?rest" by (simp only: p(3))
    finally show ?thesis by simp
  qed
  moreover have "table_scans db (t # ts) conds = Inr (ScanP x # plans, filter (\<lambda>c. \<forall>t\<in>set (t # ts). \<not> poppable t c) conds)"
    using x(1) p(1) f by (simp add: pop_conds_def)
  ultimately show ?case by blast
qed (simp add: scans_of_def)

lemma left_conds_between:
  assumes "plannable db ts conds" and "c \<in> set conds" and "\<forall>t\<in>set ts. \<not> poppable t c"
  shows "between c" "tc_tab (lhs_col c) \<in> set ts" "tc_tab (rhs_col c) \<in> set ts"
proof -
  have p: "cond_tabs c \<subseteq> set ts" "ts \<noteq> []" using assms(1,2) by (auto simp: plannable_def)
  then show l: "tc_tab (lhs_col c) \<in> set ts" by (auto simp: cond_tabs_def split: if_splits)
  show b: "between c" using assms(3) l p(2) by (auto simp: between_def poppable_def)
  show "tc_tab (rhs_col c) \<in> set ts" using p(1) b by (auto simp: cond_tabs_def between_def)
qed

lemma table_scans_made:
  assumes "table_scans db ts conds = Inr (plans, left)"
  shows "\<forall>q\<in>set plans. \<exists>t cs. make_scan db t cs = Inr q"
  using assms
  by (induction db ts conds arbitrary: plans left rule: table_scans.induct) (fastforce simp: bind_r_Inr_iff split: prod.splits)+

lemma tree_of_scans:
  assumes p: "table_scans db ts cs = Inr (plans, left)" and names: "map scan_name plans = ts"
    and ms: "mset (concat (map scan_conds plans)) + mset left = mset cs"
    and T: "placed T" "mset (leaves T) = mset plans" "same_conds left (join_conds T)"
  shows "placed T \<and> mset (leaf_names T) = mset ts \<and> same_conds cs (plan_conds T) \<and> (\<forall>q\<in>set (leaves T). \<exists>t cs. make_scan db t cs = Inr q)"
proof -
  have m: "mset (concat (map scan_conds (leaves T))) = mset (concat (map scan_conds plans))"
    using arg_cong [OF T(2), of "\<lambda>M. \<Sum>\<^sub># (image_mset (\<lambda>p. mset (scan_conds p)) M)"] by (simp add: mset_concat comp_def sum_mset_sum_list flip: mset_map)
  have "same_conds (concat (map scan_conds plans) @ left) (plan_conds T)"
    by (rule same_conds_append [OF same_conds_refl [OF m [symmetric]] T(3)]) (simp add: plan_conds_def)
  then have "same_conds cs (plan_conds T)" using same_conds_perm [of cs "concat (map scan_conds plans) @ left"] ms by simp
  moreover have "\<forall>q\<in>set (leaves T). \<exists>t cs. make_scan db t cs = Inr q"
    using table_scans_made [OF p] mset_eq_setD [OF T(2)] by blast
  ultimately show ?thesis using T(1,2) names by (metis mset_map)
qed

lemma make_one_rel_spec:
  assumes "plannable db (q_tables query) (q_conds query)"
  shows "\<exists>p. make_one_rel db query = Inr p \<and> placed p \<and> mset (leaf_names p) = mset (q_tables query) \<and>
    same_conds (q_conds query) (plan_conds p) \<and> (\<forall>q\<in>set (leaves p). \<exists>t cs. make_scan db t cs = Inr q)"
proof -
  let ?ts = "q_tables query" and ?cs = "q_conds query"
  let ?left = "filter (\<lambda>c. \<forall>t\<in>set ?ts. \<not> poppable t c) ?cs"
  note pl = assms [unfolded plannable_def]
  obtain plans where p: "table_scans db ?ts ?cs = Inr (plans, ?left)" and sc: "scans_of ?ts plans"
    and ms: "mset (concat (map scan_conds plans)) + mset ?left = mset ?cs"
    using table_scans_spec [of ?ts db ?cs] pl by blast
  have names: "map scan_name plans = ?ts" using sc by (simp add: scans_of_def)
  have len: "length plans = length ?ts" using arg_cong [OF names, of length] by simp
  have bt: "\<forall>c\<in>set ?left. between c \<and> tc_tab (lhs_col c) \<in> set ?ts \<and> tc_tab (rhs_col c) \<in> set ?ts"
    using left_conds_between [OF assms] by simp
  note goal = tree_of_scans [OF p names ms]
  show ?thesis
  proof (cases "length ?ts = 1")
    case True
    then obtain q where q: "plans = [q]" "?ts = [scan_name q]" using len names by (auto simp: length_Suc_conv)
    have "?left = []" using bt q(2) by (auto simp: between_def filter_empty_conv)
    moreover have "placed q" "leaves q = [q]" "join_conds q = []" using sc q(1) unfolding scans_of_def by simp_all
    ultimately have "placed q \<and> mset (leaf_names q) = mset ?ts \<and> same_conds ?cs (plan_conds q) \<and>
        (\<forall>q\<in>set (leaves q). \<exists>t cs. make_scan db t cs = Inr q)"
      by (intro goal) (simp_all add: q(1) same_conds_refl)
    then show ?thesis using p q(1) True by (simp add: make_one_rel_def Let_def)
  next
    case False
    let ?start = "\<lparr>scantbl = replicate (length ?ts) (- 1), joined_tables = replicate (length ?ts) [], table_join_executors = NullPlan\<rparr>"
    show ?thesis
    proof (cases ?left)
      case Nil
      let ?s = "?start\<lparr>table_join_executors := plans ! 0, scantbl := (scantbl ?start)[0 := 1]\<rparr>"
      have i: "0 < length ?ts" using pl by simp
      note D = scans_ofD [OF sc i]
      have "distinct (map scan_name plans)" unfolding names using pl by (rule conjunct1)
      then have "distinct plans" by (simp only: distinct_map)
      then have tb: "scantbl ?s ! k = - 1 \<longleftrightarrow> plans ! k \<notin> set (leaves (table_join_executors ?s))" if "k < length ?ts" for k
        using that D len i by (auto simp: nth_list_update nth_eq_iff_index_eq)
      note R = join_rest_spec [OF sc _ tb]
      have "make_one_rel db query = Inr (join_rest plans ?s)" using p False Nil pl by (simp add: make_one_rel_def Let_def)
      moreover have "placed (join_rest plans ?s) \<and> mset (leaf_names (join_rest plans ?s)) = mset ?ts \<and> same_conds ?cs (plan_conds (join_rest plans ?s)) \<and>
          (\<forall>q\<in>set (leaves (join_rest plans ?s)). \<exists>t cs. make_scan db t cs = Inr q)"
        using goal [of "join_rest plans ?s"] R D Nil same_conds_refl [of "[]" "[]"] by simp
      ultimately show ?thesis by blast
    next
      case (Cons c cs)
      let ?s = "fold (join_cond plans) cs (first_join plans c ?start)"
      have "joining ?ts plans [c] (first_join plans c ?start)" using bt Cons by (intro first_join_spec [OF sc]) auto
      from join_conds_spec [OF sc this, of cs] have "joining ?ts plans ?left ?s" using bt Cons by simp
      note R = joining_rest [OF sc this]
      have "make_one_rel db query = Inr (join_rest plans ?s)" using p False Cons by (simp add: make_one_rel_def Let_def)
      then show ?thesis using goal [OF R] by blast
    qed
  qed
qed

text \<open>
  C14: the planner neither loses nor misplaces a condition, unless the condition compares two columns of one table that is not the first. For a
  select on different tables of the catalogue, with conditions on these tables of which none is of that kind (\<open>own_columns_misplaced\<close>
  shows that such a one can be misplaced), \<^verbatim>\<open>make_one_rel\<close> returns a tree of
  scans and joins that scans every table exactly once and has every condition of the query exactly once, perhaps with its sides
  exchanged and its operator turned around, and each at a scan of the only table it is about or at a join below which
  both its tables are.
\<close>

theorem planner_places_conditions:
  assumes "plannable db (q_tables query) (q_conds query)"
  shows "\<exists>p. make_one_rel db query = Inr p \<and> placed p \<and> mset (leaf_names p) = mset (q_tables query) \<and>
    same_conds (q_conds query) (plan_conds p)"
  using make_one_rel_spec [OF assms] by blast

text \<open>Two tables and three conditions, one of them between the tables.\<close>

definition sample_db2 :: DbMeta where
  "sample_db2 = \<lparr>db_name = ''db'',
     tabs = [(''t'', sample_tab),
             (''u'', \<lparr>tm_name = ''u'', tm_cols = [sample_col ''u'' ''b'' TYPE_INT 4 0 False, sample_col ''u'' ''c'' TYPE_INT 4 4 False], tm_indexes = []\<rparr>)]\<rparr>"

definition value_cond :: "string \<Rightarrow> string \<Rightarrow> CompOp \<Rightarrow> Value \<Rightarrow> Condition" where
  "value_cond t c op v = \<lparr>lhs_col = mk_tabcol t c, cond_op = op, is_rhs_val = True, rhs_col = mk_tabcol [] [], rhs_val = v\<rparr>"

definition column_cond :: "string \<Rightarrow> string \<Rightarrow> CompOp \<Rightarrow> string \<Rightarrow> string \<Rightarrow> Condition" where
  "column_cond t c op t' c' =
     \<lparr>lhs_col = mk_tabcol t c, cond_op = op, is_rhs_val = False, rhs_col = mk_tabcol t' c', rhs_val = new_Value (IntVal 0)\<rparr>"

definition sample_query :: "Condition list \<Rightarrow> Query" where
  "sample_query conds = (new_Query Help)\<lparr>q_tables := [''t'', ''u''], q_conds := conds\<rparr>"

theorem planner_places_conditions_witness:
  "\<exists>p. make_one_rel sample_db2 (sample_query [column_cond ''u'' ''b'' OP_LT ''t'' ''id'', value_cond ''t'' ''id'' OP_EQ (new_Value (IntVal 3)),
       column_cond ''t'' ''id'' OP_GE ''u'' ''c'']) = Inr p \<and> placed p \<and> length (plan_conds p) = 3"
proof -
  let ?cs = "[column_cond ''u'' ''b'' OP_LT ''t'' ''id'', value_cond ''t'' ''id'' OP_EQ (new_Value (IntVal 3)),
       column_cond ''t'' ''id'' OP_GE ''u'' ''c'']"
  have "plannable sample_db2 (q_tables (sample_query ?cs)) (q_conds (sample_query ?cs))"
    by (simp add: plannable_def sample_query_def sample_db2_def is_table_def column_cond_def value_cond_def cond_tabs_def new_Query_def)
  from planner_places_conditions [OF this] obtain p where p: "make_one_rel sample_db2 (sample_query ?cs) = Inr p" "placed p"
    "same_conds ?cs (plan_conds p)" by (auto simp: sample_query_def)
  obtain es where "mset es = mset (plan_conds p)" "list_all2 same_cond ?cs es" using p(3) by (auto simp: same_conds_def)
  then have "length (plan_conds p) = length es" "length ?cs = length es" by (auto dest: mset_eq_length list_all2_lengthD)
  with p(1,2) show ?thesis by simp
qed

text \<open>
  A comparison of two columns of the second table is put to the scan of the first, which does not have them: \<^verbatim>\<open>pop_conds\<close>
  tests the table only for conditions with a value.
\<close>

lemma own_columns_misplaced:
  "\<exists>l r. make_one_rel sample_db2 (sample_query [column_cond ''u'' ''b'' OP_EQ ''u'' ''c'']) = Inr (JoinP l r []) \<and>
     scan_name r = ''t'' \<and> scan_conds r = [column_cond ''u'' ''b'' OP_EQ ''u'' ''c''] \<and> scan_conds l = []"
proof -
  let ?c = "column_cond ''u'' ''b'' OP_EQ ''u'' ''c''"
  have pop: "pop_conds [?c] ''t'' = ([?c], [])" "pop_conds [] ''u'' = ([], [])" by (simp_all add: pop_conds_def poppable_def column_cond_def)
  have tabs: "is_table sample_db2 ''t''" "is_table sample_db2 ''u''" by (simp_all add: is_table_def sample_db2_def)
  obtain x where x: "make_scan sample_db2 ''t'' [?c] = Inr (ScanP x)" "sp_tab x = ''t''" "sp_conds x = [?c]"
    by (rule make_scan_spec [OF tabs(1), of "[?c]"])
  obtain y where y: "make_scan sample_db2 ''u'' [] = Inr (ScanP y)" "sp_tab y = ''u''" "sp_conds y = []"
    by (rule make_scan_spec [OF tabs(2), of "[]"])
  have "table_scans sample_db2 [''t'', ''u''] [?c] = Inr ([ScanP x, ScanP y], [])" using x(1) y(1) by (simp add: pop)
  then have "make_one_rel sample_db2 (sample_query [?c]) = Inr (JoinP (ScanP y) (ScanP x) [])"
    by (simp add: make_one_rel_def sample_query_def new_Query_def join_rest_def numeral_2_eq_2)
  then show ?thesis using x y by simp
qed

end
