(* ===== verification/Record_Printer.thy ===== *)
theory Record_Printer
  imports Rmdb_Values
begin

text \<open>
  The reply to a client (\<^verbatim>\<open>record_printer.h\<close> and the members \<^verbatim>\<open>data_send_\<close>, \<^verbatim>\<open>offset_\<close> and \<^verbatim>\<open>ellipsis_\<close> of \<^verbatim>\<open>Context\<close>):
  a buffer of \<open>BUFFER_LENGTH\<close> bytes that is filled with table rows until it is nearly full. A row that does not fit any more is
  left out and the reply is marked as abridged; the line with the number of records has bytes reserved for it. \<open>outfile\<close> is the text of
  \<^verbatim>\<open>output.txt\<close>, to which all output is appended.

  Lemmas: whatever is printed, nothing is written past the end of the buffer, and the reply with its final NUL fits; \<open>reply_text\<close> says what the reply to a
  table is, and printing makes exactly that (\<open>reply_footer\<close>).
\<close>

section \<open>The reply buffer\<close>

record reply =
  data_send :: buf
  offset :: nat
  ellipsis :: bool
  outfile :: string

type_synonym 'a out_op = "(reply, rmdb_error, 'a) sem"

definition empty_reply :: "string \<Rightarrow> reply" where
  "empty_reply txt = \<lparr>data_send = zero_buf, offset = 0, ellipsis = False, outfile = txt\<rparr>"

text \<open>\<^verbatim>\<open>memcpy(context->data_send_ + *(context->offset_), ...)\<close> and the advance of the offset.\<close>

definition send_text :: "string \<Rightarrow> unit out_op" where
  "send_text str c =
     (if offset c + length str > BUFFER_LENGTH then (Inl Undefined, c)
      else (Inr (), c\<lparr>data_send := put_bytes (data_send c) (offset c) (str_bytes str), offset := offset c + length str\<rparr>))"

definition write_file :: "string \<Rightarrow> unit out_op" where
  "write_file txt = modify_e (\<lambda>c. c\<lparr>outfile := outfile c @ txt\<rparr>)"

section \<open>Printing of records\<close>

definition RECORD_COUNT_LENGTH :: nat where
  "RECORD_COUNT_LENGTH = 40"

definition COL_WIDTH :: nat where
  "COL_WIDTH = 16"

definition fits :: "string \<Rightarrow> reply \<Rightarrow> bool" where
  "fits str c \<longleftrightarrow> ellipsis c = False \<and> offset c + RECORD_COUNT_LENGTH + length str < BUFFER_LENGTH"

definition print_part :: "string \<Rightarrow> unit out_op" where
  "print_part str = bind_e (gets_e (fits str)) (\<lambda>ok. if ok then send_text str else modify_e (\<lambda>c. c\<lparr>ellipsis := True\<rparr>))"

definition new_RecordPrinter :: "nat \<Rightarrow> nat out_op" where
  "new_RecordPrinter num_cols = (if \<not> num_cols > 0 then throw AssertionFailure else ret num_cols)"

definition print_separator :: "nat \<Rightarrow> unit out_op" where
  "print_separator num_cols =
     bind_e (for_each (replicate num_cols (''+'' @ replicate (COL_WIDTH + 2) (CHR ''-''))) print_part) (\<lambda>_.
     print_part (''+'' @ [CHR 0x0A]))"

text \<open>A column, cut off or filled up with spaces on its left.\<close>

definition cell :: "string \<Rightarrow> string" where
  "cell col0 =
     (let col = (if length col0 > COL_WIDTH then take (COL_WIDTH - 3) col0 @ ''...'' else col0) in
      ''| '' @ replicate (COL_WIDTH - length col) (CHR '' '') @ col @ '' '')"

definition printer_record :: "nat \<Rightarrow> string list \<Rightarrow> unit out_op" where
  "printer_record num_cols rec_str =
     (if \<not> length rec_str = num_cols then throw AssertionFailure
      else bind_e (for_each rec_str (\<lambda>col. print_part (cell col))) (\<lambda>_.
           bind_e (gets_e (fits (''|'' @ [CHR 0x0A]))) (\<lambda>ok. if ok then send_text (''|'' @ [CHR 0x0A]) else ret ())))"

definition count_text :: "bool \<Rightarrow> nat \<Rightarrow> string" where
  "count_text abridged num_rec =
     (if abridged then ''... ...'' @ [CHR 0x0A] else []) @ ''Total record(s): '' @ to_string (int num_rec) @ [CHR 0x0A]"

definition print_record_count :: "nat \<Rightarrow> unit out_op" where
  "print_record_count num_rec = bind_e (gets_e ellipsis) (\<lambda>abridged. send_text (count_text abridged num_rec))"

section \<open>Bounds\<close>

text \<open>The room for the last line is still there.\<close>

definition roomy :: "reply \<Rightarrow> bool" where
  "roomy c \<longleftrightarrow> offset c + RECORD_COUNT_LENGTH < BUFFER_LENGTH"

definition prints :: "unit out_op \<Rightarrow> bool" where
  "prints m \<longleftrightarrow> (\<forall>c. roomy c \<longrightarrow> (\<exists>c'. m c = (Inr (), c') \<and> roomy c' \<and> offset c \<le> offset c' \<and> outfile c' = outfile c \<and>
     (\<forall>i<offset c. data_send c' i = data_send c i) \<and> (\<forall>i\<ge>offset c'. data_send c' i = data_send c i)))"

lemma prints_send: "roomy c \<Longrightarrow> fits str c \<Longrightarrow>
  \<exists>c'. send_text str c = (Inr (), c') \<and> roomy c' \<and> offset c \<le> offset c' \<and> outfile c' = outfile c \<and>
     (\<forall>i<offset c. data_send c' i = data_send c i) \<and> (\<forall>i\<ge>offset c'. data_send c' i = data_send c i)"
  by (auto simp: send_text_def fits_def roomy_def put_bytes_def str_bytes_def)

lemma prints_part: "prints (print_part str)"
  unfolding prints_def
proof (intro allI impI)
  fix c assume c: "roomy c"
  show "\<exists>c'. print_part str c = (Inr (), c') \<and> roomy c' \<and> offset c \<le> offset c' \<and> outfile c' = outfile c \<and>
     (\<forall>i<offset c. data_send c' i = data_send c i) \<and> (\<forall>i\<ge>offset c'. data_send c' i = data_send c i)"
    using prints_send [OF c, of str] c by (cases "fits str c") (auto simp: print_part_def roomy_def bind_e_app)
qed

lemma prints_bind:
  assumes "prints m" and "prints k"
  shows "prints (bind_e m (\<lambda>_. k))"
  unfolding prints_def
proof (intro allI impI)
  fix c assume "roomy c"
  then obtain c1 where c1: "m c = (Inr (), c1)" "roomy c1" "offset c \<le> offset c1" "outfile c1 = outfile c"
    "\<forall>i<offset c. data_send c1 i = data_send c i" "\<forall>i\<ge>offset c1. data_send c1 i = data_send c i" using assms(1) unfolding prints_def by blast
  obtain c2 where c2: "k c1 = (Inr (), c2)" "roomy c2" "offset c1 \<le> offset c2" "outfile c2 = outfile c1"
    "\<forall>i<offset c1. data_send c2 i = data_send c1 i" "\<forall>i\<ge>offset c2. data_send c2 i = data_send c1 i"
    using assms(2) c1(2) unfolding prints_def by blast
  show "\<exists>c'. bind_e m (\<lambda>_. k) c = (Inr (), c') \<and> roomy c' \<and> offset c \<le> offset c' \<and> outfile c' = outfile c \<and>
     (\<forall>i<offset c. data_send c' i = data_send c i) \<and> (\<forall>i\<ge>offset c'. data_send c' i = data_send c i)"
    by (rule exI [of _ c2]) (use c1 c2 in auto)
qed

lemma prints_for_each: "(\<And>x. x \<in> set xs \<Longrightarrow> prints (f x)) \<Longrightarrow> prints (for_each xs f)"
proof (induction xs)
  case (Cons x xs)
  then show ?case using prints_bind [of "f x" "for_each xs f"] by simp
qed (simp add: prints_def)

lemma prints_separator: "prints (print_separator n)"
  unfolding print_separator_def by (intro prints_bind prints_for_each prints_part)

lemma prints_record: "length cols = n \<Longrightarrow> prints (printer_record n cols)"
proof -
  assume n: "length cols = n"
  have "prints (bind_e (gets_e (fits str)) (\<lambda>ok. if ok then send_text str else ret ()))" for str
    unfolding prints_def
  proof (intro allI impI)
    fix c assume c: "roomy c"
    show "\<exists>c'. bind_e (gets_e (fits str)) (\<lambda>ok. if ok then send_text str else ret ()) c = (Inr (), c') \<and> roomy c' \<and> offset c \<le> offset c' \<and>
       outfile c' = outfile c \<and> (\<forall>i<offset c. data_send c' i = data_send c i) \<and> (\<forall>i\<ge>offset c'. data_send c' i = data_send c i)"
      using prints_send [OF c, of str] c by (cases "fits str c") (auto simp: bind_e_app)
  qed
  then have "prints (bind_e (for_each cols (\<lambda>col. print_part (cell col))) (\<lambda>_. bind_e (gets_e (fits (''|'' @ [CHR 0x0A])))
      (\<lambda>ok. if ok then send_text (''|'' @ [CHR 0x0A]) else ret ())))"
    by (intro prints_bind prints_for_each prints_part)
  then show ?thesis using n by (simp add: printer_record_def)
qed

lemma length_nat_digits: "n < 10 ^ Suc k \<Longrightarrow> length (nat_digits n) \<le> Suc k"
proof (induction k arbitrary: n)
  case (Suc k)
  show ?case
  proof (cases "n < 10")
    case False
    have "n div 10 < 10 ^ Suc k" using Suc.prems by (simp add: div_less_iff_less_mult)
    from Suc.IH [OF this] show ?thesis using False by (subst nat_digits.simps) simp
  qed (simp add: nat_digits.simps)
qed (simp add: nat_digits.simps)

lemma length_count_text: "n < 10 ^ 14 \<Longrightarrow> length (count_text b n) \<le> RECORD_COUNT_LENGTH"
  using length_nat_digits [of n 13] by (simp add: count_text_def to_string_def RECORD_COUNT_LENGTH_def)

text \<open>
  What a statement prints: captions between separators, rows, a separator, and the number of rows, which counts rows that were left out too.
\<close>

datatype line = Separator | Row "string list"

fun print_line :: "nat \<Rightarrow> line \<Rightarrow> unit out_op" where
  "print_line n Separator = print_separator n"
| "print_line n (Row cols) = printer_record n cols"

section \<open>The text of a reply\<close>

text \<open>
  What the reply should hold, without the buffer: the lines of a table in the pieces in which they are printed, of which the longest
  beginning is shown that leaves the reserved room, and the line with the number of records, which tells whether something was left out.
\<close>

definition separator_pieces :: "nat \<Rightarrow> string list" where
  "separator_pieces n = replicate n (''+'' @ replicate (COL_WIDTH + 2) (CHR ''-'')) @ [''+'' @ [CHR 0x0A]]"

definition record_pieces :: "string list \<Rightarrow> string list" where
  "record_pieces cols = map cell cols @ [''|'' @ [CHR 0x0A]]"

definition table_pieces :: "string list \<Rightarrow> string list list \<Rightarrow> string list" where
  "table_pieces captions rows =
     (let n = length captions in
      separator_pieces n @ record_pieces captions @ separator_pieces n @ concat (map record_pieces rows) @ separator_pieces n)"

fun fitting :: "nat \<Rightarrow> string list \<Rightarrow> string list" where
  "fitting used [] = []"
| "fitting used (s # ss) = (if used + RECORD_COUNT_LENGTH + length s < BUFFER_LENGTH then s # fitting (used + length s) ss else [])"

definition reply_text :: "string list \<Rightarrow> nat \<Rightarrow> string" where
  "reply_text ps num_rec = concat (fitting 0 ps) @ count_text (fitting 0 ps \<noteq> ps) num_rec"

lemma fitting_snoc:
  "fitting used (ps @ [s]) =
     fitting used ps @ (if fitting used ps = ps \<and> used + length (concat ps) + RECORD_COUNT_LENGTH + length s < BUFFER_LENGTH then [s] else [])"
  by (induction ps arbitrary: used) (auto simp: add.assoc)

text \<open>A table whose text is short enough is shown as a whole.\<close>

lemma fitting_all: "used + length (concat ps) + RECORD_COUNT_LENGTH < BUFFER_LENGTH \<Longrightarrow> fitting used ps = ps"
  by (induction ps arbitrary: used) auto

text \<open>
  The reply after some pieces. \<^verbatim>\<open>print_record\<close> does not note that the end of its line was left out; the next piece,
  which is no shorter, is left out for the same reason.
\<close>

definition shows_pieces :: "string list \<Rightarrow> reply \<Rightarrow> bool" where
  "shows_pieces ps c \<longleftrightarrow> offset c = length (concat (fitting 0 ps)) \<and> offset c + RECORD_COUNT_LENGTH < BUFFER_LENGTH \<and>
     get_bytes (data_send c) 0 (length (concat (fitting 0 ps))) = str_bytes (concat (fitting 0 ps)) \<and> (\<forall>i\<ge>offset c. data_send c i = 0) \<and>
     (ellipsis c \<longrightarrow> fitting 0 ps \<noteq> ps) \<and>
     (fitting 0 ps \<noteq> ps \<longrightarrow> ellipsis c \<or> offset c + RECORD_COUNT_LENGTH + 2 \<ge> BUFFER_LENGTH)"

definition sends :: "unit out_op \<Rightarrow> string list \<Rightarrow> bool" where
  "sends m ps \<longleftrightarrow> (\<forall>c qs. shows_pieces qs c \<longrightarrow> (\<exists>c'. m c = (Inr (), c') \<and> shows_pieces (qs @ ps) c' \<and> outfile c' = outfile c))"

lemma shows_pieces_empty: "shows_pieces [] (empty_reply txt)"
  by (simp add: shows_pieces_def empty_reply_def RECORD_COUNT_LENGTH_def get_bytes_def str_bytes_def zero_buf_def)

lemma shows_pieces_outfile [simp]: "shows_pieces ps (c\<lparr>outfile := t\<rparr>) = shows_pieces ps c"
  by (simp add: shows_pieces_def)

lemma shows_pieces_bytes: "shows_pieces ps c \<Longrightarrow> get_bytes (data_send c) 0 (offset c) = str_bytes (concat (fitting 0 ps))"
  unfolding shows_pieces_def by simp

lemma sendsE:
  assumes "sends m ps" and "shows_pieces qs c"
  obtains c' where "m c = (Inr (), c')" and "shows_pieces (qs @ ps) c'" and "outfile c' = outfile c"
  using assms unfolding sends_def by blast

lemma str_bytes_append: "str_bytes (a @ b) = str_bytes a @ str_bytes b"
  by (simp add: str_bytes_def)

lemma get_bytes_append: "get_bytes d 0 (n + m) = get_bytes d 0 n @ get_bytes d n m"
  by (rule nth_equalityI) (auto simp: get_bytes_def nth_append)

lemma fits_fitting:
  assumes "shows_pieces qs c" and "2 \<le> length s" and "fits s c"
  shows "fitting 0 qs = qs" and "fitting 0 (qs @ [s]) = qs @ [s]"
proof -
  show all: "fitting 0 qs = qs" using assms by (auto simp: shows_pieces_def fits_def)
  show "fitting 0 (qs @ [s]) = qs @ [s]" using all assms(1,3) unfolding fitting_snoc by (simp add: shows_pieces_def fits_def)
qed

text \<open>A piece that fits is behind what was sent before; one that does not fit changes nothing but the mark.\<close>

lemma send_piece:
  assumes "shows_pieces qs c" and "2 \<le> length s"
  shows "fits s c \<Longrightarrow> \<exists>c'. send_text s c = (Inr (), c') \<and> shows_pieces (qs @ [s]) c' \<and> outfile c' = outfile c"
    and "\<not> fits s c \<Longrightarrow> shows_pieces (qs @ [s]) (c\<lparr>ellipsis := True\<rparr>)"
    and "\<not> fits s c \<Longrightarrow> length s = 2 \<Longrightarrow> shows_pieces (qs @ [s]) c"
proof -
  note S = assms(1) [unfolded shows_pieces_def]
  note all = fits_fitting(1) [OF assms]
  show "\<exists>c'. send_text s c = (Inr (), c') \<and> shows_pieces (qs @ [s]) c' \<and> outfile c' = outfile c" if f: "fits s c"
  proof -
    let ?c = "c\<lparr>data_send := put_bytes (data_send c) (offset c) (str_bytes s), offset := offset c + length s\<rparr>"
    have "send_text s c = (Inr (), ?c)" using f by (simp add: send_text_def fits_def)
    moreover have fit: "fitting 0 (qs @ [s]) = qs @ [s]" by (rule fits_fitting(2) [OF assms f])
    moreover have "get_bytes (data_send ?c) 0 (offset c + length s) = str_bytes (concat (qs @ [s]))"
    proof -
      have "get_bytes (data_send ?c) 0 (offset c) = get_bytes (data_send c) 0 (offset c)"
        by (rule nth_equalityI) (auto simp: get_bytes_def put_bytes_def)
      moreover have "get_bytes (data_send ?c) (offset c) (length s) = str_bytes s"
        using get_put_same [of "length s" "str_bytes s"] by simp
      moreover have "get_bytes (data_send c) 0 (offset c) = str_bytes (concat qs)" using shows_pieces_bytes [OF assms(1)] unfolding all [OF f] .
      ultimately show ?thesis unfolding get_bytes_append concat_append str_bytes_append by simp
    qed
    moreover have "\<forall>i\<ge>offset ?c. data_send ?c i = 0" using S by (simp add: put_bytes_def)
    ultimately show ?thesis using S f all [OF f] by (intro exI [of _ ?c]) (simp add: shows_pieces_def fits_def)
  qed
  have none: "fitting 0 (qs @ [s]) = fitting 0 qs" "fitting 0 qs \<noteq> qs @ [s]" if n: "\<not> fits s c"
  proof -
    have "length (fitting 0 ps) \<le> length ps" for ps by (induction ps rule: rev_induct) (auto simp: fitting_snoc)
    from this [of qs] show "fitting 0 qs \<noteq> qs @ [s]" by auto
    show "fitting 0 (qs @ [s]) = fitting 0 qs" using n S by (auto simp: fitting_snoc fits_def)
  qed
  show "shows_pieces (qs @ [s]) (c\<lparr>ellipsis := True\<rparr>)" if "\<not> fits s c"
    using none [OF that] S by (simp add: shows_pieces_def)
  show "shows_pieces (qs @ [s]) c" if "\<not> fits s c" "length s = 2"
    using none [OF that(1)] S that by (auto simp: shows_pieces_def fits_def)
qed

lemma sends_part: "2 \<le> length s \<Longrightarrow> sends (print_part s) [s]"
  unfolding sends_def
proof (intro allI impI)
  fix c qs assume s: "2 \<le> length s" and c: "shows_pieces qs c"
  show "\<exists>c'. print_part s c = (Inr (), c') \<and> shows_pieces (qs @ [s]) c' \<and> outfile c' = outfile c"
    using send_piece(1,2) [OF c s] by (cases "fits s c") (auto simp: print_part_def bind_e_app)
qed

lemma sends_bind: "sends m ps \<Longrightarrow> sends k qs \<Longrightarrow> sends (bind_e m (\<lambda>_. k)) (ps @ qs)"
  unfolding sends_def by (simp add: bind_e_app) (metis (no_types, lifting) append_assoc case_prod_conv sum.case(2))

lemma sends_for_each: "(\<And>x. x \<in> set xs \<Longrightarrow> sends (f x) (g x)) \<Longrightarrow> sends (for_each xs f) (concat (map g xs))"
proof (induction xs)
  case (Cons x xs)
  then show ?case using sends_bind [of "f x" "g x" "for_each xs f"] by simp
qed (simp add: sends_def)

lemma sends_separator: "sends (print_separator n) (separator_pieces n)"
proof -
  have "sends (for_each (replicate n (''+'' @ replicate (COL_WIDTH + 2) (CHR ''-''))) print_part)
      (concat (map (\<lambda>s. [s]) (replicate n (''+'' @ replicate (COL_WIDTH + 2) (CHR ''-'')))))"
    by (intro sends_for_each sends_part) (auto simp: COL_WIDTH_def)
  then show ?thesis unfolding print_separator_def separator_pieces_def by (intro sends_bind sends_part) (simp_all add: concat_map_singleton)
qed

lemma sends_record:
  assumes "length cols = n"
  shows "sends (printer_record n cols) (record_pieces cols)"
proof -
  let ?e = "''|'' @ [CHR 0x0A]"
  have "sends (for_each cols (\<lambda>col. print_part (cell col))) (concat (map (\<lambda>col. [cell col]) cols))"
    by (intro sends_for_each sends_part) (simp add: cell_def Let_def)
  moreover have "sends (bind_e (gets_e (fits ?e)) (\<lambda>ok. if ok then send_text ?e else ret ())) [?e]"
    unfolding sends_def
  proof (intro allI impI)
    fix c qs assume c: "shows_pieces qs c"
    show "\<exists>c'. bind_e (gets_e (fits ?e)) (\<lambda>ok. if ok then send_text ?e else ret ()) c = (Inr (), c') \<and> shows_pieces (qs @ [?e]) c' \<and>
        outfile c' = outfile c"
      using send_piece(1,3) [OF c, of ?e] by (cases "fits ?e c") (auto simp: bind_e_app)
  qed
  ultimately have "sends (bind_e (for_each cols (\<lambda>col. print_part (cell col)))
      (\<lambda>_. bind_e (gets_e (fits ?e)) (\<lambda>ok. if ok then send_text ?e else ret ()))) (record_pieces cols)"
    unfolding record_pieces_def using sends_bind by (fastforce simp: concat_map_singleton)
  then show ?thesis using assms by (simp add: printer_record_def)
qed

text \<open>After a separator the mark is exact: its first piece is longer than the end of a line. The reply then ends with the number of records.\<close>

definition reply_is :: "string \<Rightarrow> reply \<Rightarrow> bool" where
  "reply_is str c \<longleftrightarrow> offset c = length str \<and> offset c + 1 \<le> BUFFER_LENGTH \<and>
     get_bytes (data_send c) 0 (offset c) = str_bytes str \<and> data_send c (offset c) = 0"

lemma separator_exact:
  assumes "shows_pieces qs c"
  shows "\<exists>c'. print_separator n c = (Inr (), c') \<and> shows_pieces (qs @ separator_pieces n) c' \<and> outfile c' = outfile c \<and>
    (ellipsis c' \<longleftrightarrow> fitting 0 (qs @ separator_pieces n) \<noteq> qs @ separator_pieces n)"
proof -
  let ?part = "''+'' @ replicate (COL_WIDTH + 2) (CHR ''-'')" and ?e = "''+'' @ [CHR 0x0A]"
  have "sends (for_each (replicate n ?part) print_part) (concat (map (\<lambda>s. [s]) (replicate n ?part)))"
    by (intro sends_for_each sends_part) (auto simp: COL_WIDTH_def)
  then obtain c1 where 1: "for_each (replicate n ?part) print_part c = (Inr (), c1)" "shows_pieces (qs @ replicate n ?part) c1" "outfile c1 = outfile c"
    unfolding concat_map_singleton map_ident by (rule sendsE [OF _ assms])
  have e: "separator_pieces n = replicate n ?part @ [?e]" by (simp add: separator_pieces_def)
  have run: "print_separator n c = print_part ?e c1" using 1(1) by (simp add: print_separator_def bind_e_app)
  obtain c2 where 2: "print_part ?e c1 = (Inr (), c2)" "shows_pieces ((qs @ replicate n ?part) @ [?e]) c2" "outfile c2 = outfile c1"
    by (rule sendsE [OF sends_part [of ?e] 1(2)]) simp
  have "ellipsis c2 \<or> fits ?e c1" using 2(1) by (auto simp: print_part_def bind_e_app split: if_splits)
  moreover have "fitting 0 ((qs @ replicate n ?part) @ [?e]) = (qs @ replicate n ?part) @ [?e]" if "fits ?e c1"
    by (rule fits_fitting(2) [OF 1(2) _ that]) simp
  ultimately have "ellipsis c2 \<longleftrightarrow> fitting 0 (qs @ separator_pieces n) \<noteq> qs @ separator_pieces n" using 2(2) unfolding e shows_pieces_def append_assoc by auto
  then show ?thesis using run 1(3) 2 e by (intro exI [of _ c2]) simp
qed

lemma reply_footer:
  assumes "shows_pieces qs c" and "k < 10 ^ 14"
  shows "\<exists>c'. bind_e (print_separator n) (\<lambda>_. print_record_count k) c = (Inr (), c') \<and> reply_is (reply_text (qs @ separator_pieces n) k) c' \<and>
    outfile c' = outfile c"
proof -
  let ?ps = "qs @ separator_pieces n"
  obtain c1 where 1: "print_separator n c = (Inr (), c1)" "shows_pieces ?ps c1" "outfile c1 = outfile c" "ellipsis c1 \<longleftrightarrow> fitting 0 ?ps \<noteq> ?ps"
    using separator_exact [OF assms(1), of n] by blast
  let ?t = "count_text (ellipsis c1) k"
  let ?c = "c1\<lparr>data_send := put_bytes (data_send c1) (offset c1) (str_bytes ?t), offset := offset c1 + length ?t\<rparr>"
  note S = 1(2) [unfolded shows_pieces_def]
  have l: "offset c1 + length ?t + 1 \<le> BUFFER_LENGTH" using S length_count_text [OF assms(2), of "ellipsis c1"] by simp
  have t: "reply_text ?ps k = concat (fitting 0 ?ps) @ ?t" using 1(4) by (simp add: reply_text_def)
  have "get_bytes (data_send ?c) 0 (offset c1) = get_bytes (data_send c1) 0 (offset c1)"
    by (rule nth_equalityI) (auto simp: get_bytes_def put_bytes_def)
  also have "\<dots> = str_bytes (concat (fitting 0 ?ps))" by (rule shows_pieces_bytes [OF 1(2)])
  finally have "get_bytes (data_send ?c) 0 (offset c1) = str_bytes (concat (fitting 0 ?ps))" .
  moreover have "get_bytes (data_send ?c) (offset c1) (length ?t) = str_bytes ?t" using get_put_same [of "length ?t" "str_bytes ?t"] by simp
  ultimately have "get_bytes (data_send ?c) 0 (offset c1 + length ?t) = str_bytes (reply_text ?ps k)"
    unfolding get_bytes_append t str_bytes_append by simp
  moreover have "data_send ?c (offset ?c) = 0" using S by (simp add: put_bytes_def)
  ultimately have "reply_is (reply_text ?ps k) ?c" using l S t by (simp add: reply_is_def)
  moreover have "bind_e (print_separator n) (\<lambda>_. print_record_count k) c = (Inr (), ?c)"
    using 1(1) l by (simp add: print_record_count_def send_text_def bind_e_app)
  ultimately show ?thesis using 1(3) by (intro exI [of _ ?c]) simp
qed

text \<open>
  C27: a reply never overruns its buffer. Whatever separators and records of the right number of columns are printed from the start of the
  buffer on, all of it succeeds; the line with the number of records, of which there may be up to \<open>10 ^ 14\<close>, then always fits behind it
  together with the final NUL that is sent along, and it is the last text of the reply.
\<close>

theorem reply_fits_buffer:
  assumes "\<And>cols. Row cols \<in> set ls \<Longrightarrow> length cols = n" and "num_rec < 10 ^ 14"
  shows "\<exists>c c'. for_each ls (print_line n) (empty_reply txt) = (Inr (), c) \<and> print_record_count num_rec c = (Inr (), c') \<and>
    offset c' + 1 \<le> BUFFER_LENGTH \<and> outfile c' = txt \<and>
    get_bytes (data_send c') (offset c) (offset c' - offset c) = str_bytes (count_text (ellipsis c) num_rec) \<and> data_send c' (offset c') = 0"
proof -
  have "prints (print_line n l)" if "l \<in> set ls" for l
  proof (cases l)
    case (Row cols)
    then have "length cols = n" using that assms(1) by simp
    from prints_record [OF this] show ?thesis using Row by simp
  qed (simp add: prints_separator)
  then have p: "prints (for_each ls (print_line n))" by (rule prints_for_each)
  have r: "roomy (empty_reply txt)" by (simp add: roomy_def empty_reply_def RECORD_COUNT_LENGTH_def)
  obtain c where c: "for_each ls (print_line n) (empty_reply txt) = (Inr (), c)" "roomy c" "outfile c = txt"
    "\<forall>i\<ge>offset c. data_send c i = 0"
    using p [unfolded prints_def, rule_format, OF r] by (auto simp: empty_reply_def)
  let ?t = "count_text (ellipsis c) num_rec"
  have l: "length ?t \<le> RECORD_COUNT_LENGTH" by (rule length_count_text [OF assms(2)])
  let ?c = "c\<lparr>data_send := put_bytes (data_send c) (offset c) (str_bytes ?t), offset := offset c + length ?t\<rparr>"
  have "print_record_count num_rec c = (Inr (), ?c)" using c(2) l by (simp add: print_record_count_def send_text_def roomy_def bind_e_app)
  moreover have "get_bytes (data_send ?c) (offset c) (length ?t) = str_bytes ?t"
    using get_put_same [of "length ?t" "str_bytes ?t"] by (simp add: str_bytes_def)
  moreover have "data_send ?c (offset ?c) = 0" using c(4) by (simp add: put_bytes_def str_bytes_def)
  ultimately show ?thesis using c l by (intro exI [of _ c] exI [of _ ?c]) (simp add: roomy_def)
qed

theorem reply_fits_buffer_witness:
  "\<exists>c c'. for_each [Separator, Row [''id'', ''a very long name of a column''], Separator] (print_line 2) (empty_reply []) = (Inr (), c) \<and>
     print_record_count 0 c = (Inr (), c') \<and> offset c' + 1 \<le> BUFFER_LENGTH"
  using reply_fits_buffer [of "[Separator, Row [''id'', ''a very long name of a column''], Separator]" 2 0 "[]"] by auto

end
