(* ===== verification/Aggregates.thy ===== *)
theory Aggregates
  imports Query_Executors
begin

text \<open>
  Aggregates and the text of values (\<^verbatim>\<open>execution/execution_manager.cpp\<close>). Sums of \<^verbatim>\<open>FLOAT\<close> columns are computed in IEEE 754 double
  precision: a finite double is a sign and a multiple of the smallest denormal number, \<open>2 ^ -1074\<close>, and an addition rounds the
  exact sum to the nearest number of 53 significant bits, ties to even. A sum of integers wraps around at 64 bits, as the compiled code
  does; the language leaves an overflow undefined.

  Lemmas: the states computed row by row are the count, the sum, and a largest or smallest field of the rows.
\<close>

section \<open>Double precision\<close>

datatype double = Fin bool nat | Inf bool | NaN bool

definition round_even :: "nat \<Rightarrow> nat \<Rightarrow> nat" where
  "round_even n d = (let q = n div d; r = n mod d in if 2 * r > d \<or> 2 * r = d \<and> odd q then q + 1 else q)"

definition to_double :: "bool \<Rightarrow> nat \<Rightarrow> double" where
  "to_double neg n =
     (let k = ilog2 n - 52; m = (if n < 2 ^ 53 then n else round_even n (2 ^ k) * 2 ^ k) in
      if m \<ge> 2 ^ 2098 then Inf neg else Fin neg m)"

text \<open>The exact value of a single precision number; every one is a double.\<close>

definition of_float :: "float32 \<Rightarrow> double" where
  "of_float w =
     (let neg = (unat w \<ge> 2147483648); e = unat w div 8388608 mod 256; m = unat w mod 8388608 in
      if e = 255 then if m = 0 then Inf neg else NaN neg
      else if e = 0 then Fin neg (m * 2 ^ 925)
      else Fin neg ((8388608 + m) * 2 ^ (e + 924)))"

definition signed_mag :: "bool \<Rightarrow> nat \<Rightarrow> int" where
  "signed_mag neg n = (if neg then - int n else int n)"

text \<open>Addition; an invalid operation gives the default NaN, whose sign bit is set on x86-64.\<close>

fun double_add :: "double \<Rightarrow> double \<Rightarrow> double" where
  "double_add (NaN s) y = NaN s"
| "double_add x (NaN s) = NaN s"
| "double_add (Inf s) (Inf t) = (if s = t then Inf s else NaN True)"
| "double_add (Inf s) y = Inf s"
| "double_add x (Inf t) = Inf t"
| "double_add (Fin s a) (Fin t b) =
     (let v = signed_mag s a + signed_mag t b in
      if v = 0 then Fin (s \<and> t) 0 else to_double (v < 0) (nat \<bar>v\<bar>))"

text \<open>The format \<^verbatim>\<open>%f\<close>, which \<^verbatim>\<open>std::to_string\<close> uses, and \<^verbatim>\<open>std::fixed\<close> with six digits.\<close>

fun format_float_fixed :: "double \<Rightarrow> string" where
  "format_float_fixed (Fin neg n) =
     (let q = round_even (n * 1000000) (2 ^ 1074) in
      (if neg then ''-'' else []) @ nat_digits (q div 1000000) @ ''.'' @ fixed_digits 6 (q mod 1000000))"
| "format_float_fixed (Inf neg) = (if neg then ''-'' else []) @ ''inf''"
| "format_float_fixed (NaN neg) = (if neg then ''-'' else []) @ ''nan''"

section \<open>Text of a field\<close>

definition format_column_value :: "ColMeta \<Rightarrow> byte list \<Rightarrow> string" where
  "format_column_value col rec_buf =
     (case cm_type col of
        TYPE_INT \<Rightarrow> to_string (raw_i32 rec_buf)
      | TYPE_FLOAT \<Rightarrow> format_float_fixed (of_float (raw_float rec_buf))
      | TYPE_BIGINT \<Rightarrow> to_string (raw_i64 rec_buf)
      | TYPE_DATETIME \<Rightarrow> format_datetime_value (raw_i64 rec_buf)
      | TYPE_STRING \<Rightarrow> bytes_str (takeWhile (\<lambda>b. b \<noteq> 0) (take (nat (cm_len col)) rec_buf)))"

section \<open>Aggregates\<close>

record AggregateState =
  as_call :: AggregateCall
  as_col :: ColMeta
  initialized :: bool
  as_count :: int
  int_sum :: int
  float_sum :: double
  best_raw :: "byte list"

text \<open>A state before the first row; for \<^verbatim>\<open>COUNT(*)\<close> the column is not set and never read.\<close>

definition new_AggregateState :: "AggregateCall \<Rightarrow> ColMeta \<Rightarrow> AggregateState" where
  "new_AggregateState agg col =
     \<lparr>as_call = agg, as_col = col, initialized = False, as_count = 0, int_sum = 0, float_sum = Fin False 0, best_raw = []\<rparr>"

definition no_col :: ColMeta where
  "no_col = \<lparr>cm_tab = [], cm_name = [], cm_type = TYPE_INT, cm_len = 0, cm_offset = 0, cm_index = False\<rparr>"

definition agg_state_of :: "executor \<Rightarrow> AggregateCall \<Rightarrow> rmdb_error + AggregateState" where
  "agg_state_of x agg =
     (if \<not> count_star agg then bind_r (get_col_offset x (agg_col agg)) (\<lambda>col. Inr (new_AggregateState agg col))
      else Inr (new_AggregateState agg no_col))"

definition wrap64 :: "int \<Rightarrow> int" where
  "wrap64 v = signed_of 64 (unsigned_of 64 v)"

text \<open>The body of the loop over the states, for one row.\<close>

definition agg_step :: "byte list \<Rightarrow> AggregateState \<Rightarrow> AggregateState" where
  "agg_step tuple s =
     (let rec_buf = drop (nat (cm_offset (as_col s))) tuple; ty = cm_type (as_col s); len = cm_len (as_col s);
          assign = s\<lparr>best_raw := take (nat len) rec_buf, initialized := True\<rparr> in
      case agg_type (as_call s) of
        AGG_COUNT \<Rightarrow> s\<lparr>as_count := wrap64 (as_count s + 1)\<rparr>
      | AGG_SUM \<Rightarrow>
          if ty = TYPE_FLOAT then s\<lparr>float_sum := double_add (float_sum s) (of_float (raw_float rec_buf))\<rparr>
          else if ty = TYPE_BIGINT then s\<lparr>int_sum := wrap64 (int_sum s + raw_i64 rec_buf)\<rparr>
          else s\<lparr>int_sum := wrap64 (int_sum s + raw_i32 rec_buf)\<rparr>
      | AGG_MAX \<Rightarrow>
          if \<not> initialized s then assign
          else if compare_raw_value rec_buf (best_raw s) ty len > 0 then assign else s
      | AGG_MIN \<Rightarrow>
          if \<not> initialized s then assign
          else if compare_raw_value rec_buf (best_raw s) ty len < 0 then assign else s)"

definition final_text :: "AggregateState \<Rightarrow> string" where
  "final_text state =
     (case agg_type (as_call state) of
        AGG_COUNT \<Rightarrow> to_string (as_count state)
      | AGG_SUM \<Rightarrow> if cm_type (as_col state) = TYPE_FLOAT then format_float_fixed (float_sum state) else to_string (int_sum state)
      | _ \<Rightarrow> if \<not> initialized state then []
             else if cm_type (as_col state) = TYPE_FLOAT then format_float_fixed (of_float (raw_float (best_raw state)))
             else format_column_value (as_col state) (best_raw state))"

definition finalize_aggregates :: "AggregateState list \<Rightarrow> string list" where
  "finalize_aggregates states = map final_text states"

section \<open>Meaning\<close>

definition field_at :: "ColMeta \<Rightarrow> byte list \<Rightarrow> byte list" where
  "field_at col rec = drop (nat (cm_offset col)) rec"

definition field_int :: "ColMeta \<Rightarrow> byte list \<Rightarrow> int" where
  "field_int col rec = (if cm_type col = TYPE_BIGINT then raw_i64 (field_at col rec) else raw_i32 (field_at col rec))"

text \<open>The text an aggregate shows for these rows.\<close>

definition agg_shows :: "AggregateCall \<Rightarrow> ColMeta \<Rightarrow> byte list list \<Rightarrow> string \<Rightarrow> bool" where
  "agg_shows agg col rs txt \<longleftrightarrow>
     (case agg_type agg of
        AGG_COUNT \<Rightarrow> txt = to_string (wrap64 (int (length rs)))
      | AGG_SUM \<Rightarrow> if cm_type col = TYPE_FLOAT
          then txt = format_float_fixed (foldl double_add (Fin False 0) (map (\<lambda>r. of_float (raw_float (field_at col r))) rs))
          else txt = to_string (wrap64 (\<Sum>r\<leftarrow>rs. field_int col r))
      | AGG_MAX \<Rightarrow> if rs = [] then txt = []
          else \<exists>r\<in>set rs. txt = format_column_value col (field_at col r) \<and> (\<forall>q\<in>set rs. field_key col q \<le> field_key col r)
      | AGG_MIN \<Rightarrow> if rs = [] then txt = []
          else \<exists>r\<in>set rs. txt = format_column_value col (field_at col r) \<and> (\<forall>q\<in>set rs. field_key col r \<le> field_key col q))"

lemma wrap64_mod: "wrap64 a mod 2 ^ 64 = a mod 2 ^ 64"
proof -
  have "int (unsigned_of 64 a) = a mod 2 ^ 64" by (simp add: unsigned_of_def)
  moreover have "(a mod 2 ^ 64 - 2 ^ 64) mod 2 ^ 64 = a mod (2 ^ 64 :: int)" by (simp add: mod_diff_right_eq)
  ultimately show ?thesis by (simp add: wrap64_def signed_of_def)
qed

lemma wrap64_add: "wrap64 (wrap64 a + b) = wrap64 (a + b)"
proof -
  have "(wrap64 a + b) mod 2 ^ 64 = (a + b) mod 2 ^ 64" using wrap64_mod [of a] by (metis mod_add_left_eq)
  then show ?thesis by (simp add: wrap64_def unsigned_of_def)
qed

lemma wrap64_range: "int64_range v \<Longrightarrow> wrap64 v = v"
  using signed_unsigned [of 64 v] by (simp add: wrap64_def int64_range_def)

text \<open>The kind of aggregate and its column stay.\<close>

lemma agg_step_sel [simp]: "as_call (agg_step r s) = as_call s" "as_col (agg_step r s) = as_col s"
  by (simp_all add: agg_step_def Let_def split: AggType.splits)

lemma agg_fold_sel [simp]: "as_call (fold agg_step rs s) = as_call s" "as_col (fold agg_step rs s) = as_col s"
  by (induction rs arbitrary: s) simp_all

lemma agg_fold_count: "agg_type (as_call s) = AGG_COUNT \<Longrightarrow> as_count s = wrap64 c \<Longrightarrow>
  as_count (fold agg_step rs s) = wrap64 (c + int (length rs))"
proof (induction rs arbitrary: s c)
  case (Cons r rs)
  have "as_count (agg_step r s) = wrap64 (c + 1)" using Cons.prems by (simp add: agg_step_def Let_def wrap64_add)
  from Cons.IH [of "agg_step r s", OF _ this] Cons.prems(1) show ?case by (simp add: algebra_simps)
qed simp

lemma agg_fold_sum: "agg_type (as_call s) = AGG_SUM \<Longrightarrow> cm_type (as_col s) \<noteq> TYPE_FLOAT \<Longrightarrow> int_sum s = wrap64 c \<Longrightarrow>
  int_sum (fold agg_step rs s) = wrap64 (c + (\<Sum>r\<leftarrow>rs. field_int (as_col s) r))"
proof (induction rs arbitrary: s c)
  case (Cons r rs)
  have "int_sum (agg_step r s) = wrap64 (c + field_int (as_col s) r)"
    using Cons.prems by (simp add: agg_step_def Let_def wrap64_add field_int_def field_at_def)
  from Cons.IH [of "agg_step r s", OF _ _ this] Cons.prems(1,2) show ?case by (simp add: algebra_simps)
qed simp

lemma agg_fold_float: "agg_type (as_call s) = AGG_SUM \<Longrightarrow> cm_type (as_col s) = TYPE_FLOAT \<Longrightarrow>
  float_sum (fold agg_step rs s) = foldl double_add (float_sum s) (map (\<lambda>r. of_float (raw_float (field_at (as_col s) r))) rs)"
proof (induction rs arbitrary: s)
  case (Cons r rs)
  have "float_sum (agg_step r s) = double_add (float_sum s) (of_float (raw_float (field_at (as_col s) r)))"
    using Cons.prems by (simp add: agg_step_def Let_def field_at_def)
  with Cons.IH [of "agg_step r s"] Cons.prems show ?case by simp
qed simp

text \<open>The best field so far: that of a row whose key no other beats.\<close>

definition best_of :: "AggregateState \<Rightarrow> byte list list \<Rightarrow> bool" where
  "best_of s rs \<longleftrightarrow> (initialized s \<longleftrightarrow> rs \<noteq> []) \<and> (rs \<noteq> [] \<longrightarrow>
     (\<exists>r\<in>set rs. best_raw s = take (nat (cm_len (as_col s))) (field_at (as_col s) r) \<and>
       (\<forall>q\<in>set rs. if agg_type (as_call s) = AGG_MAX then field_key (as_col s) q \<le> field_key (as_col s) r
                   else field_key (as_col s) r \<le> field_key (as_col s) q)))"

lemma best_of_step:
  assumes b: "best_of s rs" and k: "agg_type (as_call s) \<in> {AGG_MAX, AGG_MIN}"
    and l: "len_ok (cm_type (as_col s)) (cm_len (as_col s))" and f: "\<forall>q\<in>set (rs @ [r]). field_fine (as_col s) q"
  shows "best_of (agg_step r s) (rs @ [r])"
proof (cases "rs = []")
  case True
  then show ?thesis using b k by (auto simp: best_of_def agg_step_def Let_def field_at_def)
next
  case False
  let ?c = "as_col s"
  obtain m where m: "m \<in> set rs" "best_raw s = take (nat (cm_len ?c)) (field_at ?c m)" "initialized s"
    "\<forall>q\<in>set rs. if agg_type (as_call s) = AGG_MAX then field_key ?c q \<le> field_key ?c m else field_key ?c m \<le> field_key ?c q"
    using b False by (auto simp: best_of_def)
  have "raw_ok (cm_type ?c) (field_at ?c r)" "raw_ok (cm_type ?c) (best_raw s)" "raw_key (cm_type ?c) (cm_len ?c) (best_raw s) = field_key ?c m"
    using f m(1,2) raw_ok_take [OF l] raw_key_take [OF l] by (auto simp: field_fine_def field_at_def field_key_def)
  note cmp = compare_raw_value_iff [OF this(1,2), of "cm_len ?c", unfolded this(3)]
  have K: "raw_key (cm_type ?c) (cm_len ?c) (field_at ?c r) = field_key ?c r" by (simp add: field_key_def field_at_def)
  let ?better = "if agg_type (as_call s) = AGG_MAX then field_key ?c r > field_key ?c m else field_key ?c r < field_key ?c m"
  have st: "agg_step r s = (if ?better then s\<lparr>best_raw := take (nat (cm_len ?c)) (field_at ?c r), initialized := True\<rparr> else s)"
    using k m(3) cmp K by (auto simp: agg_step_def Let_def field_at_def)
  show ?thesis
  proof (cases ?better)
    case True
    then have "\<forall>q\<in>set (rs @ [r]). if agg_type (as_call s) = AGG_MAX then field_key ?c q \<le> field_key ?c r else field_key ?c r \<le> field_key ?c q"
      using m(4) by (auto split: if_splits)
    then show ?thesis using True st by (simp add: best_of_def)
  next
    case False
    then have "\<forall>q\<in>set (rs @ [r]). if agg_type (as_call s) = AGG_MAX then field_key ?c q \<le> field_key ?c m else field_key ?c m \<le> field_key ?c q"
      using m(4) by (auto split: if_splits)
    then show ?thesis using False st m(1-3) unfolding best_of_def by (intro conjI impI bexI [of _ m]) simp_all
  qed
qed

lemma agg_fold_best:
  assumes "agg_type agg \<in> {AGG_MAX, AGG_MIN}" and "len_ok (cm_type col) (cm_len col)" and "\<forall>q\<in>set rs. field_fine col q"
  shows "best_of (fold agg_step rs (new_AggregateState agg col)) rs"
  using assms(3)
proof (induction rs rule: rev_induct)
  case Nil
  show ?case by (simp add: best_of_def new_AggregateState_def)
next
  case (snoc r rs)
  then show ?case
    using best_of_step [of "fold agg_step rs (new_AggregateState agg col)" rs r] assms(1,2) by (simp add: new_AggregateState_def)
qed

lemma format_take: "len_ok (cm_type col) (cm_len col) \<Longrightarrow> format_column_value col (take (nat (cm_len col)) bs) = format_column_value col bs"
  by (cases "cm_type col") (simp_all add: format_column_value_def len_ok_def raw_i32_def raw_i64_def raw_float_def)

lemma format_float: "cm_type col = TYPE_FLOAT \<Longrightarrow> format_column_value col bs = format_float_fixed (of_float (raw_float bs))"
  by (simp add: format_column_value_def)

lemma aggregate_text:
  assumes "agg_type agg \<in> {AGG_MAX, AGG_MIN} \<Longrightarrow> len_ok (cm_type col) (cm_len col) \<and> (\<forall>q\<in>set rs. field_fine col q)"
  shows "agg_shows agg col rs (final_text (fold agg_step rs (new_AggregateState agg col)))"
proof -
  let ?init = "new_AggregateState agg col" and ?s = "fold agg_step rs (new_AggregateState agg col)"
  have z: "wrap64 0 = 0" by (rule wrap64_range) (simp add: int64_range_def)
  have s0: "as_call ?init = agg" "as_col ?init = col" "as_count ?init = wrap64 0" "int_sum ?init = wrap64 0" "float_sum ?init = Fin False 0"
    unfolding z by (simp_all add: new_AggregateState_def)
  have fin: "final_text ?s = (if rs = [] then [] else format_column_value col (best_raw ?s))"
    if k: "agg_type agg \<in> {AGG_MAX, AGG_MIN}"
    using k agg_fold_best [OF k, of col rs] assms [OF k] by (auto simp: final_text_def s0(1,2) best_of_def format_float split: AggType.splits)
  show ?thesis
  proof (cases "agg_type agg")
    case AGG_COUNT
    then show ?thesis using agg_fold_count [of ?init 0 rs] s0(1,3) by (simp add: agg_shows_def final_text_def)
  next
    case AGG_SUM
    then show ?thesis using agg_fold_sum [of ?init 0 rs] agg_fold_float [of ?init rs] s0 by (simp add: agg_shows_def final_text_def)
  next
    case AGG_MAX
    then show ?thesis using fin agg_fold_best [of agg col rs] assms
      by (auto simp: agg_shows_def best_of_def s0(1,2) format_take split: if_splits)
  next
    case AGG_MIN
    then show ?thesis using fin agg_fold_best [of agg col rs] assms
      by (auto simp: agg_shows_def best_of_def s0(1,2) format_take split: if_splits)
  qed
qed

end
