(* ===== verification/Ql_Manager.thy ===== *)
theory Ql_Manager
  imports Planner Record_Printer Aggregates Dml_Statements Query_Answers
begin

text \<open>
  The execution of plans (\<^verbatim>\<open>execution/execution_manager.cpp\<close>) and the statements of \<^verbatim>\<open>system/sm_manager.cpp\<close> that print the
  catalogue. The state of a connection is the database, the reply that is being written, the transaction of the \<^verbatim>\<open>Context\<close>, and the
  identifier of the transaction and of the thread of the client.
\<close>

section \<open>State\<close>

record client =
  c_eng :: engine
  c_out :: reply
  c_txn :: "int option"
  c_id :: int
  c_thread :: int

type_synonym 'a client_op = "(client, rmdb_error, 'a) sem"

definition on_eng :: "'a eng_op \<Rightarrow> 'a client_op" where
  "on_eng = zoom c_eng (\<lambda>e c. c\<lparr>c_eng := e\<rparr>)"

definition on_out :: "'a out_op \<Rightarrow> 'a client_op" where
  "on_out = zoom c_out (\<lambda>r c. c\<lparr>c_out := r\<rparr>)"

definition on_db :: "'a sm_op \<Rightarrow> 'a client_op" where
  "on_db m = on_eng (on_sm m)"

text \<open>The \<^verbatim>\<open>Context\<close> an executor sees.\<close>

definition the_context :: "client \<Rightarrow> Context" where
  "the_context c = \<lparr>cx_txn = c_txn c, cx_log = True\<rparr>"

section \<open>Statements on the catalogue\<close>

definition newline :: string where
  "newline = [CHR 0x0A]"

definition show_tables :: "unit client_op" where
  "show_tables =
     bind_e (gets_e (\<lambda>c. map (\<lambda>(t, tab). tm_name tab) (tabs (sm_db (sm (c_eng c)))))) (\<lambda>names.
     on_out (
       bind_e (write_file (''| Tables |'' @ newline)) (\<lambda>_.
       bind_e (new_RecordPrinter 1) (\<lambda>printer.
       bind_e (print_separator printer) (\<lambda>_.
       bind_e (printer_record printer [''Tables'']) (\<lambda>_.
       bind_e (print_separator printer) (\<lambda>_.
       bind_e (for_each names (\<lambda>name.
         bind_e (printer_record printer [name]) (\<lambda>_. write_file (''| '' @ name @ '' |'' @ newline)))) (\<lambda>_.
       print_separator printer))))))))"

definition desc_table :: "string \<Rightarrow> unit client_op" where
  "desc_table t =
     bind_e (gets_e (\<lambda>c. get_table (sm_db (sm (c_eng c))) t)) (\<lambda>r. bind_e (lift_r r) (\<lambda>tab.
     on_out (
       bind_e (new_RecordPrinter 3) (\<lambda>printer.
       bind_e (print_separator printer) (\<lambda>_.
       bind_e (printer_record printer [''Field'', ''Type'', ''Index'']) (\<lambda>_.
       bind_e (print_separator printer) (\<lambda>_.
       bind_e (for_each (tm_cols tab) (\<lambda>col.
         printer_record printer [cm_name col, coltype2str (cm_type col), if cm_index col then ''YES'' else ''NO''])) (\<lambda>_.
       print_separator printer))))))))"

fun join_commas :: "string list \<Rightarrow> string" where
  "join_commas [] = []"
| "join_commas [c] = c"
| "join_commas (c # cs) = c @ '','' @ join_commas cs"

definition index_line :: "string \<Rightarrow> IndexMeta \<Rightarrow> string" where
  "index_line t ix = ''| '' @ t @ '' | unique | ('' @ join_commas (map cm_name (im_cols ix)) @ '') |'' @ newline"

text \<open>The lines go into the reply without a test whether they fit.\<close>

definition show_index :: "string \<Rightarrow> unit client_op" where
  "show_index t =
     bind_e (gets_e (\<lambda>c. is_table (sm_db (sm (c_eng c))) t)) (\<lambda>known.
       if \<not> known then throw (TableNotFoundError t)
       else bind_e (gets_e (\<lambda>c. get_table (sm_db (sm (c_eng c))) t)) (\<lambda>r. bind_e (lift_r r) (\<lambda>tab.
            on_out (for_each (tm_indexes tab) (\<lambda>ix.
              bind_e (write_file (index_line t ix)) (\<lambda>_. send_text (index_line t ix)))))))"

section \<open>Utility commands\<close>

definition help_info :: string where
  "help_info = concat (map (\<lambda>l. l @ newline)
     [''Supported SQL syntax:'',
      ''  command ;'',
      ''command:'',
      ''  CREATE TABLE table_name (column_name type [, column_name type ...])'',
      ''  DROP TABLE table_name'',
      ''  CREATE INDEX table_name (column_name)'',
      ''  DROP INDEX table_name (column_name)'',
      ''  SHOW INDEX FROM table_name'',
      ''  INSERT INTO table_name VALUES (value [, value ...])'',
      ''  DELETE FROM table_name [WHERE where_clause]'',
      ''  UPDATE table_name SET column_name = value [, column_name = value ...] [WHERE where_clause]'',
      ''  SELECT selector FROM table_name [WHERE where_clause]'',
      ''type:'',
      ''  {INT | FLOAT | CHAR(n)}'',
      ''where_clause:'',
      ''  condition [AND condition ...]'',
      ''condition:'',
      ''  column op {column | value}'',
      ''column:'',
      ''  [table_name.]column_name'',
      ''op:'',
      ''  {= | <> | < | > | <= | >=}'',
      ''selector:'',
      ''  {* | column [, column ...] | aggregate(column) AS alias [, ...]}''])"

text \<open>The offset is set, not advanced.\<close>

definition send_help :: "unit out_op" where
  "send_help c =
     (if offset c + length help_info > BUFFER_LENGTH then (Inl Undefined, c)
      else (Inr (), c\<lparr>data_send := put_bytes (data_send c) (offset c) (str_bytes help_info), offset := length help_info\<rparr>))"

definition with_txn :: "(int option \<Rightarrow> bool \<Rightarrow> unit eng_op) \<Rightarrow> unit client_op" where
  "with_txn act =
     bind_e (gets_e c_id) (\<lambda>i. bind_e (gets_e c_thread) (\<lambda>th.
     bind_e (on_eng (get_transaction i th)) (\<lambda>p.
     bind_e (modify_e (\<lambda>c. c\<lparr>c_txn := p\<rparr>)) (\<lambda>_.
     on_eng (act p True)))))"

definition run_cmd_utility :: "plan \<Rightarrow> unit client_op" where
  "run_cmd_utility p =
     (case p of
        OtherP tag t \<Rightarrow>
          (case tag of
             T_Help \<Rightarrow> on_out send_help
           | T_ShowTable \<Rightarrow> show_tables
           | T_ShowIndex \<Rightarrow> show_index t
           | T_DescTable \<Rightarrow> desc_table t
           | T_Transaction_begin \<Rightarrow>
               bind_e (gets_e c_txn) (\<lambda>p. case p of None \<Rightarrow> throw Undefined
                 | Some q \<Rightarrow> on_eng (upd_txn q (\<lambda>tx. tx\<lparr>txn_mode := True\<rparr>)))
           | T_Transaction_commit \<Rightarrow> with_txn txn_commit
           | T_Transaction_rollback \<Rightarrow> with_txn txn_abort
           | T_Transaction_abort \<Rightarrow> with_txn txn_abort
           | _ \<Rightarrow> throw (InternalError ''Unexpected field type''))
      | _ \<Rightarrow> ret ())"

definition run_mutli_query :: "plan \<Rightarrow> unit client_op" where
  "run_mutli_query p =
     (case p of
        DDLP tag t names cols \<Rightarrow>
          (case tag of
             T_CreateTable \<Rightarrow> on_db (create_table t cols)
           | T_DropTable \<Rightarrow> on_db (drop_table t)
           | T_CreateIndex \<Rightarrow> on_db (create_index t names)
           | T_DropIndex \<Rightarrow> on_db (drop_index t names)
           | _ \<Rightarrow> throw (InternalError ''Unexpected field type''))
      | _ \<Rightarrow> ret ())"

section \<open>Select\<close>

text \<open>
  \<^verbatim>\<open>for (x->beginTuple(); !x->is_end(); x->nextTuple())\<close> with a body that works on the row of \<^verbatim>\<open>x->Next()\<close>, on the
  reply and on a variable of type \<open>'a\<close>.
\<close>

fun each_tuple :: "ex_ops \<Rightarrow> nat \<Rightarrow> executor \<Rightarrow> (byte list \<Rightarrow> 'a \<Rightarrow> 'a out_op) \<Rightarrow> 'a \<Rightarrow> 'a client_op" where
  "each_tuple ops 0 x body a = throw StepLimit"
| "each_tuple ops (Suc k) x body a =
     bind_e (gets_e (\<lambda>c. op_is_end ops x (sm (c_eng c)))) (\<lambda>e.
       if e then ret a
       else bind_e (on_db (op_Next ops x)) (\<lambda>(tuple, x1).
            case tuple of None \<Rightarrow> throw Undefined
            | Some rec \<Rightarrow>
                bind_e (on_out (body rec a)) (\<lambda>a'.
                bind_e (on_db (op_next ops x1)) (\<lambda>x2.
                each_tuple ops k x2 body a'))))"

definition for_tuples :: "nat \<Rightarrow> executor \<Rightarrow> (byte list \<Rightarrow> 'a \<Rightarrow> 'a out_op) \<Rightarrow> 'a \<Rightarrow> 'a client_op" where
  "for_tuples fuel x body a =
     (let ops = tree_ops fuel (height x) in
      bind_e (on_db (op_begin ops x)) (\<lambda>x1. each_tuple ops fuel x1 body a))"

text \<open>A line of \<^verbatim>\<open>output.txt\<close>.\<close>

definition file_line :: "string list \<Rightarrow> string" where
  "file_line cols = ''|'' @ concat (map (\<lambda>col. '' '' @ col @ '' |'') cols) @ newline"

definition print_header :: "nat \<Rightarrow> string list \<Rightarrow> unit out_op" where
  "print_header printer captions =
     bind_e (print_separator printer) (\<lambda>_.
     bind_e (printer_record printer captions) (\<lambda>_.
     bind_e (print_separator printer) (\<lambda>_.
     write_file (file_line captions))))"

definition select_aggregates :: "nat \<Rightarrow> executor \<Rightarrow> AggregateCall list \<Rightarrow> unit client_op" where
  "select_aggregates fuel x aggregates =
     bind_e (lift_r (map_r (agg_state_of x) aggregates)) (\<lambda>states.
     let captions = map agg_alias aggregates in
     bind_e (on_out (new_RecordPrinter (length captions))) (\<lambda>printer.
     bind_e (on_out (print_header printer captions)) (\<lambda>_.
     bind_e (for_tuples fuel x (\<lambda>tuple ss. ret (map (agg_step tuple) ss)) states) (\<lambda>states'.
     let row = finalize_aggregates states' in
     on_out (
       bind_e (printer_record printer row) (\<lambda>_.
       bind_e (write_file (file_line row)) (\<lambda>_.
       bind_e (print_separator printer) (\<lambda>_.
       print_record_count 1))))))))"

definition row_text :: "ColMeta list \<Rightarrow> byte list \<Rightarrow> string list" where
  "row_text cols tuple = map (\<lambda>col. format_column_value col (drop (nat (cm_offset col)) tuple)) cols"

definition print_tuple :: "nat \<Rightarrow> ColMeta list \<Rightarrow> byte list \<Rightarrow> nat \<Rightarrow> nat out_op" where
  "print_tuple printer cols tuple num_rec =
     bind_e (printer_record printer (row_text cols tuple)) (\<lambda>_.
     bind_e (write_file (file_line (row_text cols tuple))) (\<lambda>_.
     ret (num_rec + 1)))"

definition select_rows :: "nat \<Rightarrow> executor \<Rightarrow> TabCol list \<Rightarrow> unit client_op" where
  "select_rows fuel x selection =
     (let captions = map tc_col selection in
      bind_e (on_out (new_RecordPrinter (length selection))) (\<lambda>printer.
      bind_e (on_out (print_header printer captions)) (\<lambda>_.
      bind_e (for_tuples fuel x (print_tuple printer (ex_cols x)) 0) (\<lambda>num_rec.
      on_out (bind_e (print_separator printer) (\<lambda>_. print_record_count num_rec))))))"

definition select_from :: "nat \<Rightarrow> executor \<Rightarrow> TabCol list \<Rightarrow> AggregateCall list \<Rightarrow> unit client_op" where
  "select_from fuel x selection aggregates =
     (if aggregates \<noteq> [] then select_aggregates fuel x aggregates else select_rows fuel x selection)"

section \<open>What a select prints\<close>

text \<open>The body of the loop on a list of rows.\<close>

fun each_row :: "(byte list \<Rightarrow> 'a \<Rightarrow> 'a out_op) \<Rightarrow> byte list list \<Rightarrow> 'a \<Rightarrow> 'a out_op" where
  "each_row body [] a = ret a"
| "each_row body (r # rs) a = bind_e (body r a) (each_row body rs)"

lemma on_db_eq: "m (sm (c_eng c)) = (r, st) \<Longrightarrow> on_db m c = (r, c\<lparr>c_eng := (c_eng c)\<lparr>sm := st\<rparr>\<rparr>)"
  by (simp add: on_db_def on_eng_def on_sm_def zoom_def)

lemma on_out_eq: "m (c_out c) = (r, out) \<Longrightarrow> on_out m c = (r, c\<lparr>c_out := out\<rparr>)"
  by (simp add: on_out_def zoom_def)

context iterator
begin

lemma each_tuple_rows:
  assumes "ready v (sm (c_eng c)) x" and "length (rest v x) < k" and "each_row body (rest v x) a (c_out c) = (Inr a', out)"
  shows "\<exists>st. each_tuple ops k x body a c = (Inr a', c\<lparr>c_eng := (c_eng c)\<lparr>sm := st\<rparr>, c_out := out\<rparr>) \<and> calm (sm (c_eng c)) st"
  using assms
proof (induction k arbitrary: x a c)
  case (Suc k)
  let ?st = "sm (c_eng c)"
  have r: "sm_inv ?st" "view ?st = v" "wf fuel v x" "height x \<le> depth" "settled v x" using Suc.prems(1) by (simp_all add: ready_def)
  have e: "op_is_end ops x ?st \<longleftrightarrow> rest v x = []" using is_end_iff [OF r(1)] r by simp
  show ?case
  proof (cases "rest v x")
    case Nil
    then show ?thesis using e Suc.prems(3) calm_refl [OF sm_invD(1) [OF r(1)]] by (intro exI [of _ ?st]) (simp add: bind_e_app)
  next
    case (Cons q rs)
    obtain x1 st1 where n: "op_Next ops x ?st = (Inr (first (rest v x), x1), st1)" "calm ?st st1" "ready v st1 x1" "rest v x1 = rest v x"
      using Next_ready [OF Suc.prems(1)] by blast
    obtain a1 o1 where b: "body q a (c_out c) = (Inr a1, o1)" "each_row body rs a1 o1 = (Inr a', out)"
      using Suc.prems(3) Cons by (auto elim: bind_e_InrE)
    obtain x2 st2 where m: "op_next ops x1 st1 = (Inr x2, st2)" "calm st1 st2" "ready v st2 x2" "rest v x2 = tl (rest v x1)"
      using next_ready [OF n(3)] by blast
    let ?c1 = "c\<lparr>c_eng := (c_eng c)\<lparr>sm := st1\<rparr>\<rparr>" and ?c2 = "c\<lparr>c_eng := (c_eng c)\<lparr>sm := st1\<rparr>, c_out := o1\<rparr>"
    let ?c3 = "c\<lparr>c_eng := (c_eng c)\<lparr>sm := st2\<rparr>, c_out := o1\<rparr>"
    have "on_db (op_Next ops x) c = (Inr (Some q, x1), ?c1)" using on_db_eq [of "op_Next ops x" c] n(1) Cons by simp
    moreover have "on_out (body q a) ?c1 = (Inr a1, ?c2)" using on_out_eq [of "body q a" ?c1] b(1) by simp
    moreover have "on_db (op_next ops x1) ?c2 = (Inr x2, ?c3)" using on_db_eq [of "op_next ops x1" ?c2] m(1) by simp
    ultimately have step: "each_tuple ops (Suc k) x body a c = each_tuple ops k x2 body a1 ?c3" using e Cons by (simp add: bind_e_app)
    have rs: "rest v x2 = rs" using m(4) n(4) Cons by simp
    obtain st where "each_tuple ops k x2 body a1 ?c3 = (Inr a', ?c3\<lparr>c_eng := (c_eng ?c3)\<lparr>sm := st\<rparr>, c_out := out\<rparr>)" "calm st2 st"
      using Suc.IH [of ?c3 x2 a1] m(3) b(2) rs Suc.prems(2) Cons by auto
    then show ?thesis using step calm_trans [OF calm_trans [OF n(2) m(2)]] by (intro exI [of _ st]) simp
  qed
qed simp

end

lemma for_tuples_spec:
  assumes inv: "sm_inv (sm (c_eng c))" and w: "wf fuel (view (sm (c_eng c))) x"
    and b: "each_row body (rows (view (sm (c_eng c))) x) a (c_out c) = (Inr a', out)"
  shows "\<exists>st. for_tuples fuel x body a c = (Inr a', c\<lparr>c_eng := (c_eng c)\<lparr>sm := st\<rparr>, c_out := out\<rparr>) \<and> calm (sm (c_eng c)) st"
proof -
  let ?v = "view (sm (c_eng c))"
  obtain x1 st1 where B: "op_begin (tree_ops fuel (height x)) x (sm (c_eng c)) = (Inr x1, st1)" "calm (sm (c_eng c)) st1"
    "iterator.ready fuel (height x) ?v st1 x1" "rest ?v x1 = rows ?v x"
    using tree.begin_ready [OF inv w order_refl] by blast
  let ?c = "c\<lparr>c_eng := (c_eng c)\<lparr>sm := st1\<rparr>\<rparr>"
  have "length (rest ?v x1) < fuel" using rows_bound [OF w] B(4) by simp
  then obtain st where "each_tuple (tree_ops fuel (height x)) fuel x1 body a ?c =
      (Inr a', ?c\<lparr>c_eng := (c_eng ?c)\<lparr>sm := st\<rparr>, c_out := out\<rparr>)" "calm st1 st"
    using tree.each_tuple_rows [of fuel "height x" ?v ?c x1 fuel body a a' out] B(3,4) b by auto
  moreover have "on_db (op_begin (tree_ops fuel (height x)) x) c = (Inr x1, ?c)" using on_db_eq B(1) by blast
  ultimately show ?thesis using calm_trans [OF B(2)] by (intro exI [of _ st]) (simp add: for_tuples_def Let_def)
qed

lemma each_row_aggregates:
  "each_row (\<lambda>tuple ss. ret (map (agg_step tuple) ss)) rs ss out = (Inr (map (fold agg_step rs) ss), out)"
  by (induction rs arbitrary: ss) (simp_all add: comp_def)

text \<open>Printing adds to the reply and to the file what it should.\<close>

lemma print_header_spec:
  assumes "shows_pieces [] r" and "length captions = n"
  obtains r' where "print_header n captions r = (Inr (), r')" "shows_pieces (separator_pieces n @ record_pieces captions @ separator_pieces n) r'"
    "outfile r' = outfile r @ file_line captions"
proof -
  obtain r1 where 1: "print_separator n r = (Inr (), r1)" "shows_pieces ([] @ separator_pieces n) r1" "outfile r1 = outfile r"
    by (rule sendsE [OF sends_separator assms(1)])
  obtain r2 where 2: "printer_record n captions r1 = (Inr (), r2)" "shows_pieces (([] @ separator_pieces n) @ record_pieces captions) r2"
    "outfile r2 = outfile r1" by (rule sendsE [OF sends_record [OF assms(2)] 1(2)])
  obtain r3 where 3: "print_separator n r2 = (Inr (), r3)" "shows_pieces ((([] @ separator_pieces n) @ record_pieces captions) @ separator_pieces n) r3"
    "outfile r3 = outfile r2" by (rule sendsE [OF sends_separator 2(2)])
  show thesis
    by (rule that [of "r3\<lparr>outfile := outfile r3 @ file_line captions\<rparr>"])
      (use 1 2 3 in \<open>simp_all add: print_header_def write_file_def\<close>)
qed

lemma each_row_print:
  assumes "shows_pieces qs r" and "length cols = n"
  shows "\<exists>r'. each_row (print_tuple n cols) rs k r = (Inr (k + length rs), r') \<and>
    shows_pieces (qs @ concat (map (\<lambda>q. record_pieces (row_text cols q)) rs)) r' \<and>
    outfile r' = outfile r @ concat (map (\<lambda>q. file_line (row_text cols q)) rs)"
  using assms(1)
proof (induction rs arbitrary: k r qs)
  case (Cons q rs)
  have "length (row_text cols q) = n" using assms(2) by (simp add: row_text_def)
  then obtain r1 where 1: "printer_record n (row_text cols q) r = (Inr (), r1)" "shows_pieces (qs @ record_pieces (row_text cols q)) r1"
    "outfile r1 = outfile r" by (rule sendsE [OF sends_record Cons.prems])
  let ?r = "r1\<lparr>outfile := outfile r1 @ file_line (row_text cols q)\<rparr>"
  have "print_tuple n cols q k r = (Inr (k + 1), ?r)" using 1(1) by (simp add: print_tuple_def write_file_def)
  moreover obtain r' where "each_row (print_tuple n cols) rs (k + 1) ?r = (Inr (k + 1 + length rs), r')"
    "shows_pieces ((qs @ record_pieces (row_text cols q)) @ concat (map (\<lambda>q. record_pieces (row_text cols q)) rs)) r'"
    "outfile r' = outfile ?r @ concat (map (\<lambda>q. file_line (row_text cols q)) rs)"
    using Cons.IH [of "qs @ record_pieces (row_text cols q)" ?r "k + 1"] 1(2) by auto
  ultimately show ?case using 1(3) by (intro exI [of _ r']) simp
qed simp

lemma new_printer: "0 < n \<Longrightarrow> on_out (new_RecordPrinter n) c = (Inr n, c)"
  using on_out_eq [of "new_RecordPrinter n" c] by (simp add: new_RecordPrinter_def)

lemma select_rows_spec:
  assumes inv: "sm_inv (sm (c_eng c))" and w: "wf fuel (view (sm (c_eng c))) x" and r: "shows_pieces [] (c_out c)"
    and n: "length (ex_cols x) = length selection" "selection \<noteq> []" and few: "length (rows (view (sm (c_eng c))) x) < 10 ^ 14"
  shows "\<exists>st out. select_rows fuel x selection c = (Inr (), c\<lparr>c_eng := (c_eng c)\<lparr>sm := st\<rparr>, c_out := out\<rparr>) \<and> calm (sm (c_eng c)) st \<and>
    reply_is (reply_text (table_pieces (map tc_col selection) (map (row_text (ex_cols x)) (rows (view (sm (c_eng c))) x)))
      (length (rows (view (sm (c_eng c))) x))) out \<and>
    outfile out = outfile (c_out c) @ file_line (map tc_col selection) @
      concat (map (\<lambda>q. file_line (row_text (ex_cols x) q)) (rows (view (sm (c_eng c))) x))"
proof -
  let ?n = "length selection" and ?rows = "rows (view (sm (c_eng c))) x"
  let ?head = "separator_pieces ?n @ record_pieces (map tc_col selection) @ separator_pieces ?n"
  let ?body = "concat (map (\<lambda>q. record_pieces (row_text (ex_cols x) q)) ?rows)"
  have t: "table_pieces (map tc_col selection) (map (row_text (ex_cols x)) ?rows) = (?head @ ?body) @ separator_pieces ?n"
    by (simp add: table_pieces_def Let_def comp_def)
  obtain r1 where 1: "print_header ?n (map tc_col selection) (c_out c) = (Inr (), r1)" "shows_pieces ?head r1"
    "outfile r1 = outfile (c_out c) @ file_line (map tc_col selection)" by (rule print_header_spec [OF r, of "map tc_col selection" ?n]) simp
  obtain r2 where 2: "each_row (print_tuple ?n (ex_cols x)) ?rows 0 r1 = (Inr (length ?rows), r2)" "shows_pieces (?head @ ?body) r2"
    "outfile r2 = outfile r1 @ concat (map (\<lambda>q. file_line (row_text (ex_cols x) q)) ?rows)"
    using each_row_print [OF 1(2) n(1), of ?rows 0] by auto
  let ?c1 = "c\<lparr>c_out := r1\<rparr>"
  obtain st where st: "for_tuples fuel x (print_tuple ?n (ex_cols x)) 0 ?c1 = (Inr (length ?rows), ?c1\<lparr>c_eng := (c_eng c)\<lparr>sm := st\<rparr>, c_out := r2\<rparr>)"
    "calm (sm (c_eng c)) st"
    using for_tuples_spec [of ?c1 fuel x "print_tuple ?n (ex_cols x)" 0 "length ?rows" r2] inv w 2(1) by auto
  obtain r3 where 3: "bind_e (print_separator ?n) (\<lambda>_. print_record_count (length ?rows)) r2 = (Inr (), r3)"
    "reply_is (reply_text ((?head @ ?body) @ separator_pieces ?n) (length ?rows)) r3" "outfile r3 = outfile r2"
    using reply_footer [OF 2(2) few] by blast
  let ?c2 = "?c1\<lparr>c_eng := (c_eng c)\<lparr>sm := st\<rparr>, c_out := r2\<rparr>"
  have "on_out (bind_e (print_separator ?n) (\<lambda>_. print_record_count (length ?rows))) ?c2 = (Inr (), ?c2\<lparr>c_out := r3\<rparr>)"
    using on_out_eq [of _ ?c2] 3(1) by simp
  moreover have "on_out (print_header ?n (map tc_col selection)) c = (Inr (), ?c1)" using on_out_eq 1(1) by blast
  ultimately have "select_rows fuel x selection c = (Inr (), ?c2\<lparr>c_out := r3\<rparr>)"
    using st(1) new_printer [of ?n c] n(2) by (simp add: select_rows_def Let_def)
  then show ?thesis unfolding t using st(2) 1(3) 2(3) 3(2,3) by (intro exI [of _ st] exI [of _ r3]) simp
qed

lemma agg_states:
  assumes "\<And>agg. agg \<in> set aggs \<Longrightarrow> \<not> count_star agg \<Longrightarrow> \<not> isl (get_col_offset x (agg_col agg))"
  shows "map_r (agg_state_of x) aggs =
    Inr (map (\<lambda>agg. new_AggregateState agg (if count_star agg then no_col else projr (get_col_offset x (agg_col agg)))) aggs)"
  using assms
proof (induction aggs)
  case (Cons agg aggs)
  have "agg_state_of x agg = Inr (new_AggregateState agg (if count_star agg then no_col else projr (get_col_offset x (agg_col agg))))"
    using Cons.prems [of agg] by (cases "get_col_offset x (agg_col agg)") (auto simp: agg_state_of_def)
  then show ?case using Cons by simp
qed simp

lemma select_aggregates_spec:
  assumes inv: "sm_inv (sm (c_eng c))" and w: "wf fuel (view (sm (c_eng c))) x" and r: "shows_pieces [] (c_out c)" and ne: "aggs \<noteq> []"
    and cols: "\<And>agg. agg \<in> set aggs \<Longrightarrow> \<not> count_star agg \<Longrightarrow> \<not> isl (get_col_offset x (agg_col agg))"
  defines "R \<equiv> rows (view (sm (c_eng c))) x"
    and "row \<equiv> map (\<lambda>agg. final_text (fold agg_step (rows (view (sm (c_eng c))) x)
      (new_AggregateState agg (if count_star agg then no_col else projr (get_col_offset x (agg_col agg)))))) aggs"
  shows "\<exists>st out. select_aggregates fuel x aggs c = (Inr (), c\<lparr>c_eng := (c_eng c)\<lparr>sm := st\<rparr>, c_out := out\<rparr>) \<and> calm (sm (c_eng c)) st \<and>
    reply_is (reply_text (table_pieces (map agg_alias aggs) [row]) 1) out \<and>
    outfile out = outfile (c_out c) @ file_line (map agg_alias aggs) @ file_line row"
proof -
  let ?n = "length aggs" and ?ss = "map (\<lambda>agg. new_AggregateState agg (if count_star agg then no_col else projr (get_col_offset x (agg_col agg)))) aggs"
  let ?body = "\<lambda>tuple ss. ret (map (agg_step tuple) ss)"
  have row: "finalize_aggregates (map (fold agg_step R) ?ss) = row" "length row = ?n" by (simp_all add: finalize_aggregates_def row_def R_def comp_def)
  let ?head = "separator_pieces ?n @ record_pieces (map agg_alias aggs) @ separator_pieces ?n"
  have t: "table_pieces (map agg_alias aggs) [row] = (?head @ record_pieces row) @ separator_pieces ?n" by (simp add: table_pieces_def Let_def)
  obtain r1 where 1: "print_header ?n (map agg_alias aggs) (c_out c) = (Inr (), r1)" "shows_pieces ?head r1"
    "outfile r1 = outfile (c_out c) @ file_line (map agg_alias aggs)" by (rule print_header_spec [OF r, of "map agg_alias aggs" ?n]) simp
  let ?c1 = "c\<lparr>c_out := r1\<rparr>"
  obtain st where st: "for_tuples fuel x ?body ?ss ?c1 = (Inr (map (fold agg_step R) ?ss), ?c1\<lparr>c_eng := (c_eng c)\<lparr>sm := st\<rparr>, c_out := r1\<rparr>)"
    "calm (sm (c_eng c)) st"
    using for_tuples_spec [of ?c1 fuel x ?body ?ss "map (fold agg_step R) ?ss" r1] inv w each_row_aggregates [of R ?ss r1] by (auto simp: R_def)
  obtain r2 where 2: "printer_record ?n row r1 = (Inr (), r2)" "shows_pieces (?head @ record_pieces row) r2" "outfile r2 = outfile r1"
    by (rule sendsE [OF sends_record [OF row(2)] 1(2)])
  let ?r = "r2\<lparr>outfile := outfile r2 @ file_line row\<rparr>"
  have "shows_pieces (?head @ record_pieces row) ?r" using 2(2) by simp
  then obtain r3 where 3: "bind_e (print_separator ?n) (\<lambda>_. print_record_count 1) ?r = (Inr (), r3)"
    "reply_is (reply_text ((?head @ record_pieces row) @ separator_pieces ?n) 1) r3" "outfile r3 = outfile ?r"
    using reply_footer [of _ ?r 1 ?n] by fastforce
  let ?c2 = "?c1\<lparr>c_eng := (c_eng c)\<lparr>sm := st\<rparr>, c_out := r1\<rparr>"
  let ?tail = "bind_e (printer_record ?n row) (\<lambda>_. bind_e (write_file (file_line row)) (\<lambda>_. bind_e (print_separator ?n) (\<lambda>_. print_record_count 1)))"
  have "?tail r1 = (Inr (), r3)" using 2(1) 3(1) by (simp add: write_file_def)
  then have "on_out ?tail ?c2 = (Inr (), ?c2\<lparr>c_out := r3\<rparr>)" using on_out_eq [of ?tail ?c2] by simp
  moreover have "on_out (print_header ?n (map agg_alias aggs)) c = (Inr (), ?c1)" using on_out_eq 1(1) by blast
  moreover have "lift_r (map_r (agg_state_of x) aggs) c = (Inr ?ss, c)" using agg_states [of aggs x] cols by (simp add: lift_r_def)
  ultimately have "select_aggregates fuel x aggs c = (Inr (), ?c2\<lparr>c_out := r3\<rparr>)"
    using st(1) new_printer [of ?n c] ne row(1) by (simp add: select_aggregates_def Let_def)
  then show ?thesis unfolding t using st(2) 1(3) 2(3) 3(2,3) by (intro exI [of _ st] exI [of _ r3]) simp
qed

text \<open>A connection to the sample table with one record, and a scan of it.\<close>

definition sample_client :: "sm_state \<Rightarrow> client" where
  "sample_client st = \<lparr>c_eng = sample_engine st [], c_out = empty_reply [], c_txn = Some 1, c_id = 1, c_thread = 0\<rparr>"

lemma sample_client_sel: "sm (c_eng (sample_client st)) = st" "c_out (sample_client st) = empty_reply []"
  by (simp_all add: sample_client_def sample_engine_def)

lemma sample_scan:
  obtains st where "sm_inv st" "query_ok st (SeqScanEx sample_seq)" "\<And>rs. answers (contents st) (SeqScanEx sample_seq) rs \<longleftrightarrow> rs = [replicate 100 7]"
proof -
  let ?rec = "replicate 100 7 :: byte list"
  obtain st where st: "sm_inv st" "contents st = (\<lambda>_. Map.empty)(''t'' := [mk_rid 1 0 \<mapsto> ?rec])" "kept (sample_sm [sample_tix]) st"
    by (rule sample_filled [of ?rec]) simp_all
  have "satisfying (contents st ''t'') sample_cols [] = {#?rec#}" using st(2) by (simp add: satisfying_def)
  then show thesis using that st(1) sample_query_ok(1) [OF st(3)] by (simp add: sample_seq_def)
qed

text \<open>
  C15: a select prints its answer. For an operator tree that is ready to run, with one output column for each selected one, \<^verbatim>\<open>select_from\<close>
  with enough steps ends without an error and leaves the database as it was. For an answer of the tree, it appends to the output file the
  line of the captions and then one line for each row of the answer, in its order, with the text of every field; and the reply that is sent is the
  printed table of the captions and the same rows, as far as it leaves the room reserved in the buffer, followed by the number of all rows, which is
  marked when something of the table was left out.
\<close>

theorem select_prints_answer:
  assumes "sm_inv (sm (c_eng c))" and "query_ok (sm (c_eng c)) x" and "c_out c = empty_reply txt"
    and "length (ex_cols x) = length selection" and "selection \<noteq> []"
    and "\<And>rs. answers (contents (sm (c_eng c))) x rs \<Longrightarrow> length rs < 10 ^ 14"
  shows "\<exists>n. \<forall>fuel\<ge>n. \<exists>rs c'. select_from fuel x selection [] c = (Inr (), c') \<and> answers (contents (sm (c_eng c))) x rs \<and>
    contents (sm (c_eng c')) = contents (sm (c_eng c)) \<and>
    reply_is (reply_text (table_pieces (map tc_col selection) (map (row_text (ex_cols x)) rs)) (length rs)) (c_out c') \<and>
    outfile (c_out c') = txt @ file_line (map tc_col selection) @ concat (map (\<lambda>q. file_line (row_text (ex_cols x) q)) rs)"
proof -
  let ?st = "sm (c_eng c)" and ?rs = "rows (view (sm (c_eng c))) x"
  obtain n where n: "\<forall>fuel\<ge>n. wf fuel (view ?st) x" using query_wf [OF assms(1,2)] by blast
  have a: "answers (contents ?st) x ?rs" by (rule rows_answer [OF assms(1,2)])
  have r: "shows_pieces [] (c_out c)" "outfile (c_out c) = txt" using shows_pieces_empty assms(3) by (simp_all add: empty_reply_def)
  have "\<exists>rs c'. select_from fuel x selection [] c = (Inr (), c') \<and> answers (contents ?st) x rs \<and> contents (sm (c_eng c')) = contents ?st \<and>
      reply_is (reply_text (table_pieces (map tc_col selection) (map (row_text (ex_cols x)) rs)) (length rs)) (c_out c') \<and>
      outfile (c_out c') = txt @ file_line (map tc_col selection) @ concat (map (\<lambda>q. file_line (row_text (ex_cols x) q)) rs)" if "n \<le> fuel" for fuel
  proof -
    obtain st out where s: "select_rows fuel x selection c = (Inr (), c\<lparr>c_eng := (c_eng c)\<lparr>sm := st\<rparr>, c_out := out\<rparr>)" "calm ?st st"
      "reply_is (reply_text (table_pieces (map tc_col selection) (map (row_text (ex_cols x)) ?rs)) (length ?rs)) out"
      "outfile out = outfile (c_out c) @ file_line (map tc_col selection) @
        concat (map (\<lambda>q. file_line (row_text (ex_cols x) q)) ?rs)"
      using select_rows_spec [OF assms(1) _ r(1) assms(4,5) assms(6) [OF a]] n \<open>n \<le> fuel\<close> by blast
    show ?thesis
      by (rule exI [of _ ?rs], rule exI [of _ "c\<lparr>c_eng := (c_eng c)\<lparr>sm := st\<rparr>, c_out := out\<rparr>"])
        (use s a r(2) in \<open>simp add: select_from_def calm_def\<close>)
  qed
  then show ?thesis by blast
qed

theorem select_prints_answer_witness:
  "\<exists>st n. \<forall>fuel\<ge>n. \<exists>c'. select_from fuel (SeqScanEx sample_seq) [mk_tabcol ''t'' ''a'', mk_tabcol ''t'' ''s''] [] (sample_client st) = (Inr (), c') \<and>
     outfile (c_out c') = file_line [''a'', ''s''] @ file_line (row_text sample_cols (replicate 100 7)) \<and>
     reply_is (reply_text (table_pieces [''a'', ''s''] [row_text sample_cols (replicate 100 7)]) 1) (c_out c')"
proof -
  obtain st where st: "sm_inv st" "query_ok st (SeqScanEx sample_seq)" "\<And>rs. answers (contents st) (SeqScanEx sample_seq) rs \<longleftrightarrow> rs = [replicate 100 7]"
    by (rule sample_scan) blast
  have cols: "ex_cols (SeqScanEx sample_seq) = sample_cols" "length sample_cols = 2" by (simp_all add: sample_seq_def sample_cols_def)
  have "\<exists>n. \<forall>fuel\<ge>n. \<exists>rs c'. select_from fuel (SeqScanEx sample_seq) [mk_tabcol ''t'' ''a'', mk_tabcol ''t'' ''s''] [] (sample_client st) = (Inr (), c') \<and>
      answers (contents st) (SeqScanEx sample_seq) rs \<and> contents (sm (c_eng c')) = contents st \<and>
      reply_is (reply_text (table_pieces (map tc_col [mk_tabcol ''t'' ''a'', mk_tabcol ''t'' ''s''])
        (map (row_text (ex_cols (SeqScanEx sample_seq))) rs)) (length rs)) (c_out c') \<and>
      outfile (c_out c') = [] @ file_line (map tc_col [mk_tabcol ''t'' ''a'', mk_tabcol ''t'' ''s'']) @
        concat (map (\<lambda>q. file_line (row_text (ex_cols (SeqScanEx sample_seq)) q)) rs)"
    using select_prints_answer [of "sample_client st" "SeqScanEx sample_seq" "[]" "[mk_tabcol ''t'' ''a'', mk_tabcol ''t'' ''s'']"] st cols
    unfolding sample_client_sel by simp
  then show ?thesis unfolding st(3) cols(1) by fastforce
qed

text \<open>
  C16: aggregates are computed over exactly the rows of the answer. For an operator tree that is ready to run and has the columns of the
  aggregates, \<^verbatim>\<open>select_from\<close> with enough steps appends the captions and a single line to the output file, which has for each aggregate the
  number of rows of an answer, the sum of their fields, or the text of a field that no other field of the answer exceeds or falls below; without
  rows a maximum or minimum is the empty text. The reply is the printed table of the captions and this line, as far as the buffer has room, and the
  number 1 of records.
\<close>

theorem aggregates_over_answer:
  assumes "sm_inv (sm (c_eng c))" and "query_ok (sm (c_eng c)) x" and "c_out c = empty_reply txt" and "aggs \<noteq> []"
    and "\<And>agg. agg \<in> set aggs \<Longrightarrow> \<not> count_star agg \<Longrightarrow> get_col_offset x (agg_col agg) = Inr (col_of agg)"
    and "\<And>agg rs. agg \<in> set aggs \<Longrightarrow> agg_type agg \<in> {AGG_MAX, AGG_MIN} \<Longrightarrow> answers (contents (sm (c_eng c))) x rs \<Longrightarrow>
      \<not> count_star agg \<and> len_ok (cm_type (col_of agg)) (cm_len (col_of agg)) \<and> (\<forall>q\<in>set rs. field_fine (col_of agg) q)"
    and "\<And>agg. agg \<in> set aggs \<Longrightarrow> count_star agg \<Longrightarrow> agg_type agg = AGG_COUNT"
  shows "\<exists>n. \<forall>fuel\<ge>n. \<exists>rs c' row. select_from fuel x selection aggs c = (Inr (), c') \<and> answers (contents (sm (c_eng c))) x rs \<and>
    contents (sm (c_eng c')) = contents (sm (c_eng c)) \<and> reply_is (reply_text (table_pieces (map agg_alias aggs) [row]) 1) (c_out c') \<and>
    outfile (c_out c') = txt @ file_line (map agg_alias aggs) @ file_line row \<and> list_all2 (\<lambda>agg. agg_shows agg (col_of agg) rs) aggs row"
proof -
  let ?st = "sm (c_eng c)" and ?rs = "rows (view (sm (c_eng c))) x"
  let ?col = "\<lambda>agg. if count_star agg then no_col else projr (get_col_offset x (agg_col agg))"
  let ?row = "map (\<lambda>agg. final_text (fold agg_step ?rs (new_AggregateState agg (?col agg)))) aggs"
  obtain n where n: "\<forall>fuel\<ge>n. wf fuel (view ?st) x" using query_wf [OF assms(1,2)] by blast
  have a: "answers (contents ?st) x ?rs" by (rule rows_answer [OF assms(1,2)])
  have r: "shows_pieces [] (c_out c)" "outfile (c_out c) = txt" using shows_pieces_empty assms(3) by (simp_all add: empty_reply_def)
  have cols: "\<not> isl (get_col_offset x (agg_col agg))" if "agg \<in> set aggs" "\<not> count_star agg" for agg using assms(5) that by simp
  have "agg_shows agg (col_of agg) ?rs (final_text (fold agg_step ?rs (new_AggregateState agg (?col agg))))" if g: "agg \<in> set aggs" for agg
  proof (cases "count_star agg")
    case True
    then have k: "agg_type agg = AGG_COUNT" using assms(7) g by blast
    have "agg_shows agg no_col ?rs (final_text (fold agg_step ?rs (new_AggregateState agg no_col)))" by (rule aggregate_text) (simp add: k)
    then show ?thesis using True k by (simp add: agg_shows_def)
  next
    case False
    then have "?col agg = col_of agg" using assms(5) g by simp
    moreover have "agg_shows agg (col_of agg) ?rs (final_text (fold agg_step ?rs (new_AggregateState agg (col_of agg))))"
      by (rule aggregate_text) (use assms(6) [OF g _ a] in blast)
    ultimately show ?thesis by simp
  qed
  then have sh: "list_all2 (\<lambda>agg. agg_shows agg (col_of agg) ?rs) aggs ?row" by (simp add: list_all2_conv_all_nth)
  have "\<exists>rs c' row. select_from fuel x selection aggs c = (Inr (), c') \<and> answers (contents ?st) x rs \<and>
    contents (sm (c_eng c')) = contents ?st \<and> reply_is (reply_text (table_pieces (map agg_alias aggs) [row]) 1) (c_out c') \<and>
    outfile (c_out c') = txt @ file_line (map agg_alias aggs) @ file_line row \<and> list_all2 (\<lambda>agg. agg_shows agg (col_of agg) rs) aggs row"
    if "n \<le> fuel" for fuel
  proof -
    obtain st out where s: "select_aggregates fuel x aggs c = (Inr (), c\<lparr>c_eng := (c_eng c)\<lparr>sm := st\<rparr>, c_out := out\<rparr>)" "calm ?st st"
      "reply_is (reply_text (table_pieces (map agg_alias aggs) [?row]) 1) out" "outfile out = outfile (c_out c) @ file_line (map agg_alias aggs) @ file_line ?row"
      using select_aggregates_spec [OF assms(1) _ r(1) assms(4) cols] n \<open>n \<le> fuel\<close> by blast
    show ?thesis
      by (rule exI [of _ ?rs], rule exI [of _ "c\<lparr>c_eng := (c_eng c)\<lparr>sm := st\<rparr>, c_out := out\<rparr>"], rule exI [of _ ?row])
        (use s a r(2) sh assms(4) in \<open>simp add: select_from_def calm_def\<close>)
  qed
  then show ?thesis by blast
qed

theorem aggregates_over_answer_witness:
  "\<exists>st n. \<forall>fuel\<ge>n. \<exists>c'. select_from fuel (SeqScanEx sample_seq) []
       [\<lparr>agg_type = AGG_COUNT, agg_col = mk_tabcol [] [], agg_alias = ''n'', count_star = True\<rparr>] (sample_client st) = (Inr (), c') \<and>
     outfile (c_out c') = file_line [''n''] @ file_line [''1'']"
proof -
  let ?agg = "\<lparr>agg_type = AGG_COUNT, agg_col = mk_tabcol [] [], agg_alias = ''n'', count_star = True\<rparr>"
  obtain st where st: "sm_inv st" "query_ok st (SeqScanEx sample_seq)" "\<And>rs. answers (contents st) (SeqScanEx sample_seq) rs \<longleftrightarrow> rs = [replicate 100 7]"
    by (rule sample_scan) blast
  have "(of_char (digit_char (Suc 0)) :: nat) = of_char (CHR ''1'')" by simp
  then have d: "digit_char (Suc 0) = CHR ''1''" by (simp only: of_char_eq_iff)
  have "wrap64 1 = 1" by (rule wrap64_range) (simp add: int64_range_def)
  then have one: "to_string (wrap64 (int (length [replicate 100 7 :: byte list]))) = ''1''"
    by (simp add: to_string_def nat_digits.simps d)
  have "\<exists>n. \<forall>fuel\<ge>n. \<exists>rs c' row. select_from fuel (SeqScanEx sample_seq) [] [?agg] (sample_client st) = (Inr (), c') \<and>
      answers (contents st) (SeqScanEx sample_seq) rs \<and> contents (sm (c_eng c')) = contents st \<and>
      reply_is (reply_text (table_pieces (map agg_alias [?agg]) [row]) 1) (c_out c') \<and>
      outfile (c_out c') = [] @ file_line (map agg_alias [?agg]) @ file_line row \<and> list_all2 (\<lambda>agg. agg_shows agg no_col rs) [?agg] row"
    using aggregates_over_answer [of "sample_client st" "SeqScanEx sample_seq" "[]" "[?agg]" "\<lambda>_. no_col" "[]"] st(1,2)
    unfolding sample_client_sel by simp
  then show ?thesis unfolding st(3) agg_shows_def using one by (fastforce simp: list_all2_Cons1)
qed

end
