(* ===== verification/Portal.thy ===== *)
theory Portal
  imports Ql_Manager
begin

text \<open>
  From a plan to its execution (\<^verbatim>\<open>portal.h\<close>): \<open>convert_plan_executor\<close> builds the executors of a plan, \<open>portal_start\<close> the root
  executor of a statement, for which \<^verbatim>\<open>UPDATE\<close> and \<^verbatim>\<open>DELETE\<close> first run their scan to the end, and \<open>portal_run\<close> runs it.
\<close>

datatype portalTag = PORTAL_Invalid_Query | PORTAL_ONE_SELECT | PORTAL_DML_WITHOUT_SELECT | PORTAL_MULTI_QUERY | PORTAL_CMD_UTILITY

text \<open>The executor at the root: a query, or a statement with the table its constructor has looked up, or a null pointer.\<close>

datatype root_executor =
    NoRoot
  | QueryRoot executor
  | InsertRoot string TabMeta "Value list"
  | DeleteRoot string "Rid list"
  | UpdateRoot string TabMeta "SetClause list" "Rid list"

record PortalStmt =
  ps_tag :: portalTag
  ps_cols :: "TabCol list"
  ps_aggregates :: "AggregateCall list"
  ps_root :: root_executor
  ps_plan :: plan

text \<open>Every user of the result dereferences it, so a null pointer is undefined behaviour.\<close>

fun convert_plan_executor :: "Context \<Rightarrow> plan \<Rightarrow> executor eng_op" where
  "convert_plan_executor cx (ProjectionP p cols) =
     bind_e (convert_plan_executor cx p) (\<lambda>x. lift_r (new_Projection x cols))"
| "convert_plan_executor cx (ScanP x) =
     (if sp_tag x = T_SeqScan then new_SeqScan cx (sp_tab x) (sp_conds x)
      else new_IndexScan cx (sp_tab x) (sp_conds x) (sp_index x))"
| "convert_plan_executor cx (JoinP l r conds) =
     bind_e (convert_plan_executor cx l) (\<lambda>left.
     bind_e (convert_plan_executor cx r) (\<lambda>right.
     ret (new_Join left right conds)))"
| "convert_plan_executor cx (SortP p keys lim) =
     bind_e (convert_plan_executor cx p) (\<lambda>x. lift_r (new_Sort x keys lim))"
| "convert_plan_executor cx _ = throw Undefined"

text \<open>\<^verbatim>\<open>for (scan->beginTuple(); !scan->is_end(); scan->nextTuple()) rids.push_back(scan->rid());\<close>\<close>

fun each_rid :: "ex_ops \<Rightarrow> nat \<Rightarrow> executor \<Rightarrow> Rid list \<Rightarrow> Rid list sm_op" where
  "each_rid ops 0 x rids = throw StepLimit"
| "each_rid ops (Suc k) x rids =
     bind_e (gets_e (op_is_end ops x)) (\<lambda>e.
       if e then ret rids
       else case ex_rid x of
           None \<Rightarrow> throw Undefined
         | Some q \<Rightarrow> bind_e (op_next ops x) (\<lambda>x1. each_rid ops k x1 (rids @ [q])))"

definition collect_rids :: "nat \<Rightarrow> executor \<Rightarrow> Rid list sm_op" where
  "collect_rids fuel x =
     (let ops = tree_ops fuel (height x) in bind_e (op_begin ops x) (\<lambda>x1. each_rid ops fuel x1 []))"

definition portal_start :: "nat \<Rightarrow> Context \<Rightarrow> plan \<Rightarrow> PortalStmt eng_op" where
  "portal_start fuel cx p =
     (case p of
        OtherP tag t \<Rightarrow> ret \<lparr>ps_tag = PORTAL_CMD_UTILITY, ps_cols = [], ps_aggregates = [], ps_root = NoRoot, ps_plan = p\<rparr>
      | DDLP tag t names cols \<Rightarrow> ret \<lparr>ps_tag = PORTAL_MULTI_QUERY, ps_cols = [], ps_aggregates = [], ps_root = NoRoot, ps_plan = p\<rparr>
      | DMLP tag sub t vals conds clauses aggs \<Rightarrow>
          (case tag of
             T_select \<Rightarrow>
               (case sub of
                  ProjectionP child cols \<Rightarrow>
                    bind_e (convert_plan_executor cx sub) (\<lambda>root.
                    ret \<lparr>ps_tag = PORTAL_ONE_SELECT, ps_cols = cols, ps_aggregates = aggs, ps_root = QueryRoot root, ps_plan = p\<rparr>)
                | _ \<Rightarrow> throw Undefined)
           | T_Update \<Rightarrow>
               bind_e (convert_plan_executor cx sub) (\<lambda>scan.
               bind_e (on_sm (collect_rids fuel scan)) (\<lambda>rids.
               bind_e (open_table t) (\<lambda>tab.
               ret \<lparr>ps_tag = PORTAL_DML_WITHOUT_SELECT, ps_cols = [], ps_aggregates = [], ps_root = UpdateRoot t tab clauses rids, ps_plan = p\<rparr>)))
           | T_Delete \<Rightarrow>
               bind_e (convert_plan_executor cx sub) (\<lambda>scan.
               bind_e (on_sm (collect_rids fuel scan)) (\<lambda>rids.
               bind_e (open_table t) (\<lambda>_.
               ret \<lparr>ps_tag = PORTAL_DML_WITHOUT_SELECT, ps_cols = [], ps_aggregates = [], ps_root = DeleteRoot t rids, ps_plan = p\<rparr>)))
           | T_Insert \<Rightarrow>
               bind_e (new_InsertExecutor t vals) (\<lambda>tab.
               ret \<lparr>ps_tag = PORTAL_DML_WITHOUT_SELECT, ps_cols = [], ps_aggregates = [], ps_root = InsertRoot t tab vals, ps_plan = p\<rparr>)
           | _ \<Rightarrow> throw (InternalError ''Unexpected field type''))
      | _ \<Rightarrow> throw (InternalError ''Unexpected field type''))"

text \<open>\<^verbatim>\<open>QlManager::run_dml\<close>: \<^verbatim>\<open>Next\<close> of the executor; a new record starts with the unspecified bytes \<open>junk\<close>.\<close>

fun run_dml :: "Context \<Rightarrow> (nat \<Rightarrow> byte) \<Rightarrow> root_executor \<Rightarrow> unit eng_op" where
  "run_dml cx junk (InsertRoot t tab vals) = bind_e (insert_Next cx t tab vals junk) (\<lambda>_. ret ())"
| "run_dml cx junk (DeleteRoot t rids) = delete_Next cx t rids"
| "run_dml cx junk (UpdateRoot t tab clauses rids) = update_Next cx t tab clauses rids"
| "run_dml cx junk _ = throw Undefined"

definition portal_run :: "nat \<Rightarrow> (nat \<Rightarrow> byte) \<Rightarrow> PortalStmt \<Rightarrow> unit client_op" where
  "portal_run fuel junk stmt =
     (case ps_tag stmt of
        PORTAL_ONE_SELECT \<Rightarrow>
          (case ps_root stmt of QueryRoot x \<Rightarrow> select_from fuel x (ps_cols stmt) (ps_aggregates stmt) | _ \<Rightarrow> throw Undefined)
      | PORTAL_DML_WITHOUT_SELECT \<Rightarrow> bind_e (gets_e the_context) (\<lambda>cx. on_eng (run_dml cx junk (ps_root stmt)))
      | PORTAL_MULTI_QUERY \<Rightarrow> run_mutli_query (ps_plan stmt)
      | PORTAL_CMD_UTILITY \<Rightarrow> run_cmd_utility (ps_plan stmt)
      | PORTAL_Invalid_Query \<Rightarrow> throw (InternalError ''Unexpected field type''))"

end
