(* ===== verification/Server.thy ===== *)
theory Server
  imports Portal
begin

text \<open>
  A connection and its requests (\<^verbatim>\<open>client_handler\<close> and \<^verbatim>\<open>SetTransaction\<close> of \<^verbatim>\<open>rmdb.cpp\<close>): the statement of a request is analysed, planned and executed
  in the transaction of the connection or in one of its own, exceptions become the reply and roll the transaction back, and a single
  statement is committed at the end. What the generated parser makes of the text of the request is an argument: \<open>None\<close> when
  \<^verbatim>\<open>yyparse\<close> fails, \<open>Some None\<close> when it leaves no tree. Whether the reply can be sent is an argument too; the result tells whether the
  loop goes on. An exception that no handler takes ends the server.
\<close>

definition SetTransaction :: "unit client_op" where
  "SetTransaction =
     bind_e (gets_e c_id) (\<lambda>i. bind_e (gets_e c_thread) (\<lambda>th.
     bind_e (on_eng (get_transaction i th)) (\<lambda>p.
     bind_e (modify_e (\<lambda>c. c\<lparr>c_txn := p\<rparr>)) (\<lambda>_.
     bind_e (gets_e (\<lambda>c. case p of None \<Rightarrow> True | Some q \<Rightarrow> txn_state (the_txn q (c_eng c)) \<in> {COMMITTED, ABORTED})) (\<lambda>fresh.
       if fresh
       then bind_e (on_eng (txn_begin None True th)) (\<lambda>q.
            bind_e (modify_e (\<lambda>c. c\<lparr>c_txn := Some q, c_id := txn_id (the_txn q (c_eng c))\<rparr>)) (\<lambda>_.
            on_eng (upd_txn q (\<lambda>tx. tx\<lparr>txn_mode := False\<rparr>))))
       else ret ())))))"

definition run_query :: "nat \<Rightarrow> (nat \<Rightarrow> byte) \<Rightarrow> TreeNode \<Rightarrow> unit client_op" where
  "run_query fuel junk tree =
     bind_e (gets_e (\<lambda>c. do_analyze (sm_db (sm (c_eng c))) tree)) (\<lambda>r. bind_e (lift_r r) (\<lambda>query.
     bind_e (gets_e (\<lambda>c. plan_query (sm_db (sm (c_eng c))) query)) (\<lambda>r. bind_e (lift_r r) (\<lambda>p.
     bind_e (gets_e the_context) (\<lambda>cx.
     bind_e (on_eng (portal_start fuel cx p)) (\<lambda>stmt.
     portal_run fuel junk stmt))))))"

text \<open>A message from the start of the reply buffer on, with a NUL behind it.\<close>

definition send_message :: "string \<Rightarrow> unit out_op" where
  "send_message str c =
     (if length str + 1 > BUFFER_LENGTH then (Inl Undefined, c)
      else (Inr (), c\<lparr>data_send := put_bytes (data_send c) 0 (str_bytes str @ [0]), offset := length str\<rparr>))"

definition abort_request :: "unit client_op" where
  "abort_request =
     bind_e (on_out (send_message (''abort'' @ newline))) (\<lambda>_.
     bind_e (gets_e c_txn) (\<lambda>p.
     bind_e (on_eng (txn_abort p True)) (\<lambda>_.
     on_out (write_file (''abort'' @ newline)))))"

definition fail_request :: "rmdb_error \<Rightarrow> unit client_op" where
  "fail_request x =
     bind_e (on_out (send_message (what x @ newline))) (\<lambda>_.
     bind_e (on_out (write_file (''failure'' @ newline))) (\<lambda>_.
     bind_e (gets_e (\<lambda>c. case c_txn c of None \<Rightarrow> False | Some q \<Rightarrow> txn_state (the_txn q (c_eng c)) \<in> {GROWING, SHRINKING})) (\<lambda>busy.
       if busy then bind_e (gets_e c_txn) (\<lambda>p. on_eng (txn_abort p True)) else ret ())))"

text \<open>The \<^verbatim>\<open>try\<close> block with its two handlers.\<close>

definition try_query :: "nat \<Rightarrow> (nat \<Rightarrow> byte) \<Rightarrow> TreeNode \<Rightarrow> unit client_op" where
  "try_query fuel junk tree c =
     (case run_query fuel junk tree c of
        (Inr _, c1) \<Rightarrow> (Inr (), c1)
      | (Inl x, c1) \<Rightarrow>
          (case x of
             TransactionAbortException t why \<Rightarrow> abort_request c1
           | _ \<Rightarrow> if is_RMDBError x then fail_request x c1 else (Inl x, c1)))"

definition handle_request :: "nat \<Rightarrow> (nat \<Rightarrow> byte) \<Rightarrow> TreeNode option option \<Rightarrow> bool \<Rightarrow> bool client_op" where
  "handle_request fuel junk parsed sent =
     bind_e (modify_e (\<lambda>c. c\<lparr>c_out := empty_reply (outfile (c_out c)), c_txn := None\<rparr>)) (\<lambda>_.
     bind_e SetTransaction (\<lambda>_.
     bind_e (case parsed of
         None \<Rightarrow> on_out (bind_e (send_message (''failure'' @ newline)) (\<lambda>_. write_file (''failure'' @ newline)))
       | Some None \<Rightarrow> ret ()
       | Some (Some tree) \<Rightarrow> try_query fuel junk tree) (\<lambda>_.
     if \<not> sent then ret False
     else bind_e (gets_e c_txn) (\<lambda>p. case p of
         None \<Rightarrow> throw Undefined
       | Some q \<Rightarrow>
           bind_e (gets_e (\<lambda>c. the_txn q (c_eng c))) (\<lambda>tx.
           bind_e (if txn_mode tx = False \<and> txn_state tx \<noteq> ABORTED \<and> txn_state tx \<noteq> COMMITTED
                   then on_eng (txn_commit p True) else ret ()) (\<lambda>_.
           ret True))))))"

section \<open>A connection\<close>

text \<open>
  The results of \<^verbatim>\<open>read\<close> on the socket: end of file, an error, or at most \<open>BUFFER_LENGTH\<close> bytes. With them come, for each round of the loop, the
  unspecified memory and whether the reply can be sent. Without an input the connection waits.
\<close>

datatype received = NoBytes | ReadFailed | Bytes "byte list"

datatype handler_end = Waiting | Terminated | ServerExit

text \<open>The receive buffer is cleared and the bytes are put at its start; only a NUL ends the string in it.\<close>

definition data_recv :: "byte list \<Rightarrow> byte list" where
  "data_recv bs = bs @ replicate (BUFFER_LENGTH - length bs) 0"

definition request_text :: "byte list \<Rightarrow> rmdb_error + string" where
  "request_text bs =
     (if length bs \<le> BUFFER_LENGTH \<and> 0 \<in> set (data_recv bs) then Inr (bytes_str (takeWhile (\<lambda>b. b \<noteq> 0) (data_recv bs))) else Inl Undefined)"

fun client_rounds :: "nat \<Rightarrow> (string \<Rightarrow> TreeNode option option) \<Rightarrow> (received \<times> (nat \<Rightarrow> byte) \<times> bool) list \<Rightarrow> handler_end client_op" where
  "client_rounds fuel yyparse [] = ret Waiting"
| "client_rounds fuel yyparse ((r, junk, sent) # inputs) =
     (case r of
        NoBytes \<Rightarrow> ret Terminated
      | ReadFailed \<Rightarrow> ret Terminated
      | Bytes bs \<Rightarrow>
          bind_e (lift_r (request_text bs)) (\<lambda>str.
            if str = ''exit'' then ret Terminated
            else if str = ''crash'' then ret ServerExit
            else bind_e (handle_request fuel junk (yyparse str) sent) (\<lambda>more.
              if more then client_rounds fuel yyparse inputs else ret Terminated)))"

definition client_handler :: "nat \<Rightarrow> (string \<Rightarrow> TreeNode option option) \<Rightarrow> (received \<times> (nat \<Rightarrow> byte) \<times> bool) list \<Rightarrow> handler_end client_op" where
  "client_handler fuel yyparse inputs =
     bind_e (modify_e (\<lambda>c. c\<lparr>c_id := INVALID_TXN_ID\<rparr>)) (\<lambda>_. client_rounds fuel yyparse inputs)"

text \<open>A client that leaves does not end its transaction: the engine is as it was, with all the locks of the transaction.\<close>

lemma exit_keeps_transaction:
  "client_rounds fuel yyparse ((NoBytes, junk, sent) # inputs) c = (Inr Terminated, c)"
  "client_rounds fuel yyparse ((Bytes (str_bytes ''exit''), junk, sent) # inputs) c = (Inr Terminated, c)"
proof -
  have "takeWhile (\<lambda>b. b \<noteq> 0) (data_recv (str_bytes ''exit'')) = str_bytes ''exit''"
    by (simp add: data_recv_def str_bytes_def)
  moreover have "0 \<in> set (data_recv (str_bytes ''exit''))"
    by (simp add: data_recv_def BUFFER_LENGTH_def)
  ultimately have "request_text (str_bytes ''exit'') = Inr ''exit''"
    by (simp add: request_text_def BUFFER_LENGTH_def)
  then show "client_rounds fuel yyparse ((Bytes (str_bytes ''exit''), junk, sent) # inputs) c = (Inr Terminated, c)"
    by (simp add: lift_r_def)
qed simp

text \<open>A request that fills the buffer has no end in it: printing and scanning its text reads past the buffer.\<close>

lemma full_buffer_unterminated:
  assumes "length bs = BUFFER_LENGTH" and "0 \<notin> set bs"
  shows "fst (client_rounds fuel yyparse ((Bytes bs, junk, sent) # inputs) c) = Inl Undefined"
proof -
  have "data_recv bs = bs" using assms(1) by (simp add: data_recv_def)
  then show ?thesis using assms by (simp add: request_text_def lift_r_def)
qed

end
