(* ===== verification/Requests.thy ===== *)
theory Requests
  imports Server
begin

text \<open>
  What a request does as a whole. \<open>request_spec\<close>: on a connection without an open transaction, a statement that runs in its new
  transaction and fails, if at all, with an exception the handlers take, is committed when it succeeds and rolled back completely when
  it fails, and no lock is left behind either way. \<open>insert_request\<close> puts this together with the analysis, the planner, the
  portal and the insert executor.
\<close>

section \<open>Exceptions that fit the reply\<close>

definition short_error :: "rmdb_error \<Rightarrow> bool" where
  "short_error x \<longleftrightarrow> is_RMDBError x \<and> length (error_text x) \<le> 8100"

lemma parse_digits_error: "parse_digits v cs = Inl x \<Longrightarrow> x = InternalError ''Invalid DATETIME value''"
  by (induction v cs rule: parse_digits.induct) (auto split: if_splits)

lemma parse_datetime_error: "parse_datetime_literal s = Inl x \<Longrightarrow> x = InternalError ''Invalid DATETIME value''"
  unfolding parse_datetime_literal_def
  by (auto simp: bind_r_def parse_fixed_int_def split: if_splits sum.splits dest: parse_digits_error)

lemma coltype2str_length: "length (coltype2str ty) \<le> 8"
  by (cases ty) simp_all

lemma incompatible_short: "short_error (IncompatibleTypeError (coltype2str a) (coltype2str b))"
  using coltype2str_length [of a] coltype2str_length [of b] by (simp add: short_error_def)

lemma field_bytes_error:
  assumes l: "len_ok (cm_type col) (cm_len col)" and r: "raw v = None" and e: "field_bytes col v = (Inl x, v')"
  shows "short_error x"
proof (cases "coerce_to (cm_type col) v")
  case (Pair o1 v1)
  consider y where "o1 = Inl y" | "o1 = Inr False" | "o1 = Inr True" by (metis (full_types) sum.exhaust)
  then show ?thesis
  proof cases
    case 1
    then have "x = y" using e Pair by (simp add: field_bytes_def)
    moreover have "y = InternalError ''Invalid DATETIME value''"
      using 1 Pair by (auto simp: coerce_to_def split: if_splits ColType.splits val_data.splits sum.splits dest: parse_datetime_error)
    ultimately show ?thesis by (simp add: short_error_def)
  next
    case 2
    then show ?thesis using e Pair incompatible_short by (auto simp: field_bytes_def)
  next
    case 3
    have "raw v1 = None" using Pair 3 r
      by (auto simp: coerce_to_def set_float_def set_bigint_def set_int_def set_datetime_def
          split: if_splits ColType.splits val_data.splits sum.splits)
    moreover have "vtype v1 = cm_type col" using coerce_type [of "cm_type col" v v1] Pair 3 by simp
    moreover have "init_raw (cm_len col) v1 = (Inl x, v')"
      using e Pair 3 by (auto simp: field_bytes_def bind_e_app split: prod.splits sum.splits)
    ultimately have "x = StringOverflowError" using l
      by (auto simp: init_raw_def vtype_def len_ok_def split: if_splits val_data.splits)
    then show ?thesis by (simp add: short_error_def)
  qed
qed

lemma make_record_error:
  assumes "layout off cols n" and "length vs \<le> length cols" and "\<forall>v\<in>set vs. raw v = None" and "make_record cols vs rec = Inl x"
  shows "short_error x"
  using assms
proof (induction cols vs rec arbitrary: off rule: make_record.induct)
  case (3 col cols v vs rec)
  obtain r v' where f: "field_bytes col v = (r, v')" by fastforce
  show ?case
  proof (cases r)
    case (Inl y)
    then show ?thesis using 3 f field_bytes_error [of col v y v'] by simp
  next
    case (Inr bs)
    then show ?thesis using 3 f by auto
  qed
qed simp_all

lemma convert_sv_value_result:
  "convert_sv_value sv = Inr v \<Longrightarrow> raw v = None" "convert_sv_value sv = Inl x \<Longrightarrow> x = InternalError ''Invalid BIGINT value''"
  by (cases sv; auto simp: new_Value_def parse_int64_literal_def bind_r_def split: option.splits sum.splits if_splits prod.splits)+

lemma map_r_convert:
  "map_r convert_sv_value svs = Inr vs \<Longrightarrow> \<forall>v\<in>set vs. raw v = None"
  "map_r convert_sv_value svs = Inl x \<Longrightarrow> short_error x"
proof (induction svs arbitrary: vs)
  case (Cons sv svs)
  {
    case 1
    with Cons.IH(1) show ?case by (auto simp: bind_r_Inr_iff dest: convert_sv_value_result(1))
  next
    case 2
    with Cons.IH(2) show ?case
      by (auto simp: bind_r_def short_error_def split: sum.splits dest!: convert_sv_value_result(2))
  }
qed simp_all

section \<open>The transaction of a request\<close>

text \<open>A connection whose last transaction is over, and an identifier under which nothing is locked.\<close>

definition idle :: "client \<Rightarrow> bool" where
  "idle c \<longleftrightarrow> c_id c = INVALID_TXN_ID \<or>
     (\<exists>q. txn_map (c_eng c) (c_id c) = Some q \<and> thread_id (the_txn q (c_eng c)) = c_thread c \<and>
        txn_state (the_txn q (c_eng c)) \<in> {COMMITTED, ABORTED})"

definition fresh_id :: "engine \<Rightarrow> bool" where
  "fresh_id e \<longleftrightarrow> int32_range (next_txn_id e) \<and> (\<forall>j. Lock_Manager.holds (locks e) (next_txn_id e) j = None)"

definition open_txn :: "Transaction \<Rightarrow> bool" where
  "open_txn tx \<longleftrightarrow> txn_state tx = GROWING \<and> txn_mode tx = False"

text \<open>While transaction \<open>p\<close> runs it stays open, and the locks of the others are those of \<open>H\<close>.\<close>

definition running :: "(int \<Rightarrow> LockDataId \<Rightarrow> LockMode option) \<Rightarrow> int \<Rightarrow> engine \<Rightarrow> bool" where
  "running H p e \<longleftrightarrow> lm_inv (locks e) \<and> open_txn (the_txn p e) \<and>
     (\<forall>u j. u \<noteq> p \<longrightarrow> Lock_Manager.holds (locks e) u j = H u j)"

lemma on_txn_twice: "on_txn p g (on_txn p f w) = on_txn p (\<lambda>tx. g (f tx)) w"
  by (simp add: on_txn_def)

lemma new_Transaction_id: "txn_id (new_Transaction th p) = p"
  by (simp add: new_Transaction_def)

lemma begin_spec:
  assumes inv: "eng_inv e" and fr: "fresh_id e" and p: "p = next_txn_id e"
  shows "\<exists>e'. txn_begin None True th e = (Inr p, e') \<and> eng_inv e' \<and> contents (sm e') = contents (sm e) \<and> kept (sm e) (sm e') \<and>
    chained (sm e') = chained (sm e) \<and> pages_of (sm e') = pages_of (sm e) \<and>
    write_set (the_txn p e') = [] \<and> txn_state (the_txn p e') = GROWING \<and> txn_id (the_txn p e') = p \<and>
    Lock_Manager.holds (locks e') = Lock_Manager.holds (locks e)"
proof -
  have lm: "lm_inv (locks e)" using inv by (simp add: eng_inv_def eng_base_def)
  have "j \<notin> set (lock_set (txns (locks e) p))" for j using lm_invD(4) [OF lm, of j p] fr p by (simp add: fresh_id_def)
  then have ls: "lock_set (txns (locks e) p) = []" by (cases "lock_set (txns (locks e) p)") auto
  let ?tx = "(new_Transaction th p)\<lparr>start_ts := next_timestamp e, txn_state := GROWING\<rparr>"
  let ?e1 = "e\<lparr>next_txn_id := wrap32 (p + 1), next_timestamp := wrap32 (next_timestamp e + 1), locks := on_txn p (\<lambda>_. ?tx) (locks e),
     txn_map := (txn_map e)(p \<mapsto> p)\<rparr>"
  have l1: "lm_inv (on_txn p (\<lambda>_. ?tx) (locks e))"
    by (rule lm_inv_cong [OF lm]) (use ls lm_invD(2) [OF lm] in \<open>auto simp: new_Transaction_def\<close>)
  then have i1: "eng_inv ?e1"
    using inv by (simp add: eng_inv_def eng_base_def the_txn_def) (simp add: new_Transaction_def int32_range_def INVALID_LSN_def)
  have "int32_range p" using fr p by (simp add: fresh_id_def)
  then obtain e' where L: "log_for p BeginLogRecord ?e1 = (Inr (), e')" "eng_base e'" "logged_only ?e1 e'"
    using log_for_step [OF eng_invD(1) [OF i1] end_records_loggable(3)] by blast
  have "txn_begin None True th e = (Inr p, e')"
    using L(1) by (simp add: txn_begin_def p [symmetric] upd_txn_def the_txn_def on_txn_twice new_Transaction_id)
  moreover have "Lock_Manager.holds (locks e') = Lock_Manager.holds (locks e)"
    using L(3) by (simp add: logged_only_def Lock_Manager.holds_def fun_eq_iff)
  moreover have "write_set (the_txn p e') = []" "txn_state (the_txn p e') = GROWING" "txn_id (the_txn p e') = p"
    using logged_only_txn [OF L(3), of p] by (simp_all add: the_txn_def new_Transaction_def)
  moreover have "contents (sm e') = contents (sm e)" "kept (sm e) (sm e')" "chained (sm e') = chained (sm e)"
      "pages_of (sm e') = pages_of (sm e)"
    using L(3) frame_kept [of "sm e" "sm e'"] by (auto simp: logged_only_def frame_def)
  ultimately show ?thesis using logged_only_inv [OF i1 L(2,3)] by blast
qed

text \<open>The state in which a statement starts.\<close>

definition started :: "engine \<Rightarrow> int \<Rightarrow> engine \<Rightarrow> bool" where
  "started e p e' \<longleftrightarrow> tx_ok (contents (sm e)) p e' \<and> contents (sm e') = contents (sm e) \<and> kept (sm e) (sm e') \<and>
     chained (sm e') = chained (sm e) \<and> pages_of (sm e') = pages_of (sm e) \<and>
     running (Lock_Manager.holds (locks e)) p e'"

lemma SetTransaction_spec:
  assumes inv: "eng_inv (c_eng c)" and id: "idle c" and fr: "fresh_id (c_eng c)" and p: "p = next_txn_id (c_eng c)"
  shows "\<exists>e'. SetTransaction c = (Inr (), c\<lparr>c_txn := Some p, c_id := p, c_eng := e'\<rparr>) \<and> started (c_eng c) p e'"
proof -
  obtain e1 where B: "txn_begin None True (c_thread c) (c_eng c) = (Inr p, e1)" "eng_inv e1" "contents (sm e1) = contents (sm (c_eng c))"
    "kept (sm (c_eng c)) (sm e1)" "chained (sm e1) = chained (sm (c_eng c))"
    "pages_of (sm e1) = pages_of (sm (c_eng c))" "write_set (the_txn p e1) = []" "txn_state (the_txn p e1) = GROWING"
    "txn_id (the_txn p e1) = p" "Lock_Manager.holds (locks e1) = Lock_Manager.holds (locks (c_eng c))"
    using begin_spec [OF inv fr p] by blast
  let ?e = "e1\<lparr>locks := on_txn p (\<lambda>tx. tx\<lparr>txn_mode := False\<rparr>) (locks e1)\<rparr>"
  have ie: "eng_inv ?e" by (rule eng_inv_txn [OF B(2)]) simp
  have "undoes (sm ?e) (contents (sm ?e)) [] (contents (sm ?e))"
    by (rule undoes.Nothing [OF sm_inv_legal [OF eng_invD(2) [OF ie]]])
  then have "started (c_eng c) p ?e"
    using ie B(3-10) fr p by (simp add: started_def tx_ok_def running_def open_txn_def fresh_id_def eng_inv_def eng_base_def)
  moreover have "\<exists>q. on_eng (get_transaction (c_id c) (c_thread c)) c = (Inr q, c) \<and>
      (case q of None \<Rightarrow> True | Some q \<Rightarrow> txn_state (the_txn q (c_eng c)) \<in> {COMMITTED, ABORTED})"
    using id by (auto simp: idle_def get_transaction_def on_eng_def zoom_app bind_e_app split: option.splits)
  then have "SetTransaction c = (Inr (), c\<lparr>c_txn := Some p, c_id := p, c_eng := ?e\<rparr>)"
    using B(1,9) by (auto simp: SetTransaction_def on_eng_def zoom_app upd_txn_def split: option.splits)
  ultimately show ?thesis by blast
qed

section \<open>A statement keeps its transaction running\<close>

lemma running_sel [simp]: "running H p (e\<lparr>sm := s\<rparr>) = running H p e" "running H p (e\<lparr>logm := l\<rparr>) = running H p e"
  by (simp_all add: running_def)

lemma running_on_sm [keeps_intros]: "keeps (running H p) (on_sm m)"
  by (auto simp: keeps_def on_sm_def zoom_app split: prod.splits)

lemma running_on_log [keeps_intros]: "keeps (running H p) (on_log m)"
  by (auto simp: keeps_def on_log_def zoom_app split: prod.splits)

lemma running_lift_r [keeps_intros]: "keeps I (lift_r r)"
  by (simp add: keeps_def lift_r_def)

lemma running_upd_txn [keeps_intros]:
  assumes "\<And>tx. txn_id (f tx) = txn_id tx \<and> lock_set (f tx) = lock_set tx \<and> txn_state (f tx) = txn_state tx \<and> txn_mode (f tx) = txn_mode tx"
  shows "keeps (running H p) (upd_txn q f)"
proof (rule keepsI)
  fix e assume r: "running H p e"
  have "lm_inv (on_txn q f (locks e))" by (rule lm_inv_cong [of "locks e"]) (use r assms in \<open>auto simp: running_def\<close>)
  then show "running H p (snd (upd_txn q f e))" using r assms by (auto simp: upd_txn_def running_def open_txn_def)
qed

lemma running_lock_table [keeps_intros]:
  assumes "cx_txn cx = Some p"
  shows "keeps (running H p) (lock_table_X cx t)"
proof (rule keepsI)
  fix e assume r: "running H p e"
  let ?i = "table_lock_id (fh_fd (the_handle t e))"
  obtain x w where lk: "lock (Some p) ?i EXLUCSIVE (locks e) = (x, w)" by fastforce
  have l: "lm_inv (locks e)" using r by (simp add: running_def)
  have "txn_state (txns w p) = txn_state (txns (locks e) p)" "txn_mode (txns w p) = txn_mode (txns (locks e) p)"
    using lk by (auto simp: lock_outcome [OF l] lock_set_insert_def split: if_splits)
  then have "running H p (e\<lparr>locks := w\<rparr>)"
    using r lm_inv_lock [OF l _ lk] holds_locked [OF l lk] by (simp add: running_def open_txn_def the_txn_def)
  then show "running H p (snd (lock_table_X cx t e))"
    using lk assms by (auto simp: lock_table_X_def on_locks_def zoom_app lock_exclusive_on_table_def bind_e_app split: sum.splits)
qed

lemma running_log_for [keeps_intros]: "keeps (running H p) (log_for q mk)"
  unfolding log_for_def by (intro keeps_intros) simp

lemma running_notes [keeps_intros]: "keeps (running H p) (note_write cx wr)" "keeps (running H p) (note_log cx mk)"
  unfolding note_write_def note_log_def
  by (cases "cx_txn cx"; auto intro!: keeps_intros simp: append_write_record_def)+

lemma running_insert:
  assumes "cx_txn cx = Some p"
  shows "keeps (running H p) (insert_Next cx t tab vals junk)"
  unfolding insert_Next_def using assms by (intro keeps_intros)

section \<open>From a statement to its request\<close>

lemma abort_request_spec:
  assumes ok: "tx_ok c0 p (c_eng c)" and c: "c_txn c = Some p"
  shows "\<exists>c'. abort_request c = (Inr (), c') \<and> c_txn c' = Some p \<and> eng_inv (c_eng c') \<and> contents (sm (c_eng c')) = c0 \<and>
    txn_state (the_txn p (c_eng c')) = ABORTED \<and>
    (\<forall>u j. Lock_Manager.holds (locks (c_eng c')) u j = (if u = p then None else Lock_Manager.holds (locks (c_eng c)) u j))"
proof -
  obtain e' where "txn_abort (Some p) True (c_eng c) = (Inr (), e')" "eng_inv e'" "contents (sm e') = c0"
    "txn_state (the_txn p e') = ABORTED"
    "\<forall>u j. Lock_Manager.holds (locks e') u j = (if u = p then None else Lock_Manager.holds (locks (c_eng c)) u j)"
    using abort_spec [of "c_eng c" p c0] ok by (auto simp: tx_ok_def)
  then show ?thesis using c
    by (simp add: abort_request_def on_out_def on_eng_def zoom_app send_message_def newline_def write_file_def BUFFER_LENGTH_def)
qed

lemma fail_request_spec:
  assumes ok: "tx_ok c0 p (c_eng c)" and c: "c_txn c = Some p" and op: "open_txn (the_txn p (c_eng c))" and x: "short_error x"
  shows "\<exists>c'. fail_request x c = (Inr (), c') \<and> c_txn c' = Some p \<and> eng_inv (c_eng c') \<and> contents (sm (c_eng c')) = c0 \<and>
    txn_state (the_txn p (c_eng c')) = ABORTED \<and>
    (\<forall>u j. Lock_Manager.holds (locks (c_eng c')) u j = (if u = p then None else Lock_Manager.holds (locks (c_eng c)) u j))"
proof -
  obtain e' where "txn_abort (Some p) True (c_eng c) = (Inr (), e')" "eng_inv e'" "contents (sm e') = c0"
    "txn_state (the_txn p e') = ABORTED"
    "\<forall>u j. Lock_Manager.holds (locks e') u j = (if u = p then None else Lock_Manager.holds (locks (c_eng c)) u j)"
    using abort_spec [of "c_eng c" p c0] ok by (auto simp: tx_ok_def)
  moreover have "length (what x @ newline) + 1 \<le> BUFFER_LENGTH"
    using x by (simp add: short_error_def what_def newline_def BUFFER_LENGTH_def)
  ultimately show ?thesis using c op
    by (simp add: fail_request_def on_out_def on_eng_def zoom_app send_message_def write_file_def open_txn_def)
qed

text \<open>The exceptions a statement may end with.\<close>

definition caught :: "rmdb_error \<Rightarrow> bool" where
  "caught x \<longleftrightarrow> short_error x \<or> (\<exists>t why. x = TransactionAbortException t why)"

lemma try_query_failed:
  assumes ok: "tx_ok c0 p (c_eng c2)" and c: "c_txn c2 = Some p" and op: "open_txn (the_txn p (c_eng c2))"
    and r: "run_query fuel junk tree c1 = (Inl x, c2)" and x: "caught x"
  shows "\<exists>c'. try_query fuel junk tree c1 = (Inr (), c') \<and> c_txn c' = Some p \<and> eng_inv (c_eng c') \<and> contents (sm (c_eng c')) = c0 \<and>
    txn_state (the_txn p (c_eng c')) = ABORTED \<and>
    (\<forall>u j. Lock_Manager.holds (locks (c_eng c')) u j = (if u = p then None else Lock_Manager.holds (locks (c_eng c2)) u j))"
proof (cases "\<exists>t why. x = TransactionAbortException t why")
  case True
  then show ?thesis using abort_request_spec [OF ok c] r by (auto simp: try_query_def)
next
  case False
  then have "short_error x" using x by (simp add: caught_def)
  moreover from this have "try_query fuel junk tree c1 = fail_request x c2"
    using r by (cases x) (simp_all add: try_query_def short_error_def)
  ultimately show ?thesis using fail_request_spec [OF ok c op] by simp
qed

lemma started_chained: "started e p e' \<Longrightarrow> all_chained e \<Longrightarrow> all_chained e'"
  using handles_same [of "sm e" "sm e'"] by (auto simp: started_def all_chained_def kept_def)

text \<open>How a request ends, when its statement leaves a connection with \<open>Q\<close> if it succeeds.\<close>

definition ended :: "engine \<Rightarrow> int \<Rightarrow> (client \<Rightarrow> bool) \<Rightarrow> client \<Rightarrow> bool" where
  "ended e p Q c' \<longleftrightarrow> eng_inv (c_eng c') \<and>
     (\<forall>u j. Lock_Manager.holds (locks (c_eng c')) u j = (if u = p then None else Lock_Manager.holds (locks e) u j)) \<and>
     (txn_state (the_txn p (c_eng c')) = COMMITTED \<and>
        (\<exists>c2. Q c2 \<and> contents (sm (c_eng c')) = contents (sm (c_eng c2)) \<and> c_out c' = c_out c2) \<and>
        (\<exists>before r. log_contents (disk (sm_bpm (sm (c_eng c')))) = before @ log_bytes r \<and> log_body r = CommitLog \<and> log_tid r = p) \<or>
      txn_state (the_txn p (c_eng c')) = ABORTED \<and> contents (sm (c_eng c')) = contents (sm e))"

text \<open>What a statement has to do: \<open>G\<close> tells when it cannot fail.\<close>

definition runs :: "engine \<Rightarrow> int \<Rightarrow> (client \<Rightarrow> bool) \<Rightarrow> bool \<Rightarrow> (rmdb_error + unit) \<times> client \<Rightarrow> bool" where
  "runs e p Q G res \<longleftrightarrow>
     (case res of (r, c2) \<Rightarrow> c_txn c2 = Some p \<and> tx_ok (contents (sm e)) p (c_eng c2) \<and>
        running (Lock_Manager.holds (locks e)) p (c_eng c2) \<and>
        (case r of Inl x \<Rightarrow> caught x \<and> \<not> G | Inr _ \<Rightarrow> Q c2))"

lemma request_spec:
  assumes inv: "eng_inv (c_eng c)" and id: "idle c" and fr: "fresh_id (c_eng c)" and p: "p = next_txn_id (c_eng c)"
    and run: "\<And>c1. c_txn c1 = Some p \<Longrightarrow> started (c_eng c) p (c_eng c1) \<Longrightarrow> c_out c1 = empty_reply (outfile (c_out c)) \<Longrightarrow>
      SetTransaction (c\<lparr>c_out := empty_reply (outfile (c_out c)), c_txn := None\<rparr>) = (Inr (), c1) \<Longrightarrow>
      runs (c_eng c) p Q G (run_query fuel junk tree c1)"
  shows "\<exists>c'. handle_request fuel junk (Some (Some tree)) True c = (Inr True, c') \<and> ended (c_eng c) p Q c' \<and>
    (G \<longrightarrow> txn_state (the_txn p (c_eng c')) = COMMITTED)"
proof -
  let ?c0 = "c\<lparr>c_out := empty_reply (outfile (c_out c)), c_txn := None\<rparr>" and ?H = "Lock_Manager.holds (locks (c_eng c))"
  obtain e1 where S: "SetTransaction ?c0 = (Inr (), ?c0\<lparr>c_txn := Some p, c_id := p, c_eng := e1\<rparr>)" "started (c_eng c) p e1"
    using SetTransaction_spec [of ?c0 p] inv id fr p by (auto simp: idle_def)
  let ?c1 = "?c0\<lparr>c_txn := Some p, c_id := p, c_eng := e1\<rparr>"
  obtain r c2 where R: "run_query fuel junk tree ?c1 = (r, c2)" by fastforce
  have R2: "c_txn c2 = Some p" "tx_ok (contents (sm (c_eng c))) p (c_eng c2)" "running ?H p (c_eng c2)"
      "case r of Inl x \<Rightarrow> caught x \<and> \<not> G | Inr _ \<Rightarrow> Q c2"
    using run [OF _ _ _ S(1)] S(2) R by (simp_all add: runs_def)
  have op: "open_txn (the_txn p (c_eng c2))" and oth: "\<And>u j. u \<noteq> p \<Longrightarrow> Lock_Manager.holds (locks (c_eng c2)) u j = ?H u j"
    using R2(3) by (auto simp: running_def)
  have first: "handle_request fuel junk (Some (Some tree)) True c =
      bind_e (try_query fuel junk tree) (\<lambda>_. bind_e (gets_e c_txn) (\<lambda>qo. case qo of None \<Rightarrow> throw Undefined
       | Some q \<Rightarrow> bind_e (gets_e (\<lambda>c. the_txn q (c_eng c))) (\<lambda>tx.
           bind_e (if txn_mode tx = False \<and> txn_state tx \<noteq> ABORTED \<and> txn_state tx \<noteq> COMMITTED
                   then on_eng (txn_commit qo True) else ret ()) (\<lambda>_. ret True)))) ?c1"
    using S(1) by (simp add: handle_request_def)
  show ?thesis
  proof (cases r)
    case (Inl x)
    obtain c3 where T: "try_query fuel junk tree ?c1 = (Inr (), c3)" "c_txn c3 = Some p" "eng_inv (c_eng c3)"
      "contents (sm (c_eng c3)) = contents (sm (c_eng c))" "txn_state (the_txn p (c_eng c3)) = ABORTED"
      "\<forall>u j. Lock_Manager.holds (locks (c_eng c3)) u j = (if u = p then None else Lock_Manager.holds (locks (c_eng c2)) u j)"
      using try_query_failed [OF R2(2,1) op, of fuel junk tree ?c1 x] R R2(4) Inl by auto
    then have "handle_request fuel junk (Some (Some tree)) True c = (Inr True, c3)"
      unfolding first by simp
    then show ?thesis using T oth R2(4) Inl by (auto simp: ended_def)
  next
    case (Inr u)
    have T: "try_query fuel junk tree ?c1 = (Inr (), c2)" using R Inr by (simp add: try_query_def)
    obtain e3 lr where C: "txn_commit (Some p) True (c_eng c2) = (Inr (), e3)" "eng_inv e3" "contents (sm e3) = contents (sm (c_eng c2))"
      "log_contents (disk (sm_bpm (sm e3))) = (log_contents (disk (sm_bpm (sm (c_eng c2)))) @ Log_Manager.pending (logm (c_eng c2))) @ log_bytes lr"
      "log_body lr = CommitLog" "log_tid lr = p" "txn_state (the_txn p e3) = COMMITTED"
      "\<forall>u j. Lock_Manager.holds (locks e3) u j = (if u = p then None else Lock_Manager.holds (locks (c_eng c2)) u j)"
      using commit_spec [of "c_eng c2" p] R2(2) by (auto simp: tx_ok_def)
    have "handle_request fuel junk (Some (Some tree)) True c = (Inr True, c2\<lparr>c_eng := e3\<rparr>)"
      unfolding first using T C(1) op R2(1) by (simp add: open_txn_def on_eng_def zoom_app)
    moreover have "\<exists>before r. log_contents (disk (sm_bpm (sm e3))) = before @ log_bytes r \<and> log_body r = CommitLog \<and> log_tid r = p"
      using C(4-6) by blast
    then have "ended (c_eng c) p Q (c2\<lparr>c_eng := e3\<rparr>)" using C(2,3,7,8) R2(4) Inr oth by (auto simp: ended_def)
    ultimately show ?thesis using C(7) by auto
  qed
qed

section \<open>Inserts\<close>

text \<open>What a successful insert makes of the contents: the record of the converted values at a free place, with no key twice.\<close>

definition insert_effect :: "engine \<Rightarrow> string \<Rightarrow> SvValue list \<Rightarrow> (nat \<Rightarrow> byte) \<Rightarrow> db_contents \<Rightarrow> bool" where
  "insert_effect e t svs junk c \<longleftrightarrow>
     (\<exists>tab vals rec rid. map_of (tabs (sm_db (sm e))) t = Some tab \<and> map_r convert_sv_value svs = Inr vals \<and>
        make_record (tm_cols tab) vals (map junk [0..<nat (record_size (file_hdr (the_handle t e)))]) = Inr rec \<and>
        \<not> clashes tab (contents (sm e) t) rec None \<and> contents (sm e) t rid = None \<and>
        c = (contents (sm e))(t := (contents (sm e) t)(rid \<mapsto> rec)))"

text \<open>The table may be missing; when it exists it is well formed, and no value converts to a float that is not a number.\<close>

definition insertable :: "engine \<Rightarrow> string \<Rightarrow> SvValue list \<Rightarrow> bool" where
  "insertable e t svs \<longleftrightarrow>
     (\<forall>tab. map_of (tabs (sm_db (sm e))) t = Some tab \<longrightarrow> tab_wf (sm e) t tab \<and>
        (\<forall>vals. map_r convert_sv_value svs = Inr vals \<longrightarrow>
           (\<forall>i<min (length vals) (length (tm_cols tab)). no_nan (tm_cols tab ! i) (vals ! i))))"

lemma kept_handle:
  assumes "kept (sm e) (sm e')" and "map_of (fhs (sm e)) t \<noteq> None"
  shows "record_size (file_hdr (the_handle t e')) = record_size (file_hdr (the_handle t e))"
    and "fh_fd (the_handle t e') = fh_fd (the_handle t e)"
proof -
  have "shape (sm e') t = shape (sm e) t" using assms(1) by (simp add: kept_def)
  then show "record_size (file_hdr (the_handle t e')) = record_size (file_hdr (the_handle t e))"
    "fh_fd (the_handle t e') = fh_fd (the_handle t e)"
    using assms(2) by (auto simp: shape_def the_handle_def)
qed

lemma lock_table_free:
  assumes "running H p e" and "cx_txn cx = Some p" and "\<forall>u. u \<noteq> p \<longrightarrow> H u (table_lock_id (fh_fd (the_handle t e))) = None"
  shows "fst (lock_table_X cx t e) = Inr ()"
proof -
  let ?i = "table_lock_id (fh_fd (the_handle t e))"
  have l: "lm_inv (locks e)" and "txn_state (txns (locks e) p) = GROWING" and "others_allow (locks e) p ?i EXLUCSIVE"
    using assms(1,3) by (auto simp: running_def open_txn_def the_txn_def others_allow_def)
  then have "fst (lock (Some p) ?i EXLUCSIVE (locks e)) = Inr True" by (simp add: lock_outcome [OF l])
  then show ?thesis using assms(2)
    by (auto simp: lock_table_X_def on_locks_def zoom_app lock_exclusive_on_table_def bind_e_app split: prod.splits sum.splits)
qed

text \<open>
  When an insert cannot fail: its values suit the columns, no key is taken, and no other transaction than \<open>p\<close> has a lock on the table.
\<close>

definition insert_goes :: "engine \<Rightarrow> int \<Rightarrow> string \<Rightarrow> SvValue list \<Rightarrow> (nat \<Rightarrow> byte) \<Rightarrow> bool" where
  "insert_goes e p t svs junk \<longleftrightarrow>
     (\<exists>tab vals rec. map_of (tabs (sm_db (sm e))) t = Some tab \<and> map_r convert_sv_value svs = Inr vals \<and>
        length vals = length (tm_cols tab) \<and>
        make_record (tm_cols tab) vals (map junk [0..<nat (record_size (file_hdr (the_handle t e)))]) = Inr rec \<and>
        \<not> clashes tab (contents (sm e) t) rec None) \<and>
     (\<forall>u. u \<noteq> p \<longrightarrow> Lock_Manager.holds (locks e) u (table_lock_id (fh_fd (the_handle t e))) = None)"

text \<open>What \<open>request_spec\<close> asks of the statement.\<close>

abbreviation insert_runs :: "engine \<Rightarrow> int \<Rightarrow> string \<Rightarrow> SvValue list \<Rightarrow> (nat \<Rightarrow> byte) \<Rightarrow> (rmdb_error + unit) \<times> client \<Rightarrow> bool" where
  "insert_runs e p t svs junk \<equiv> runs e p (\<lambda>c2. insert_effect e t svs junk (contents (sm (c_eng c2)))) (insert_goes e p t svs junk)"

lemma fails_early:
  assumes "started e p (c_eng c1)" and "c_txn c1 = Some p" and "caught x" and "\<not> G"
  shows "runs e p Q G (Inl x, c1)"
  using assms by (auto simp: runs_def started_def)

lemma insert_executed:
  assumes c: "c_txn c1 = Some p" and st: "started e p (c_eng c1)" and ch: "all_chained e" and pg: "pages_of (sm e) t < 2147483647"
    and t: "length t \<le> 8000" and w: "insertable e t svs" and tab: "map_of (tabs (sm_db (sm e))) t = Some tab"
    and v: "map_r convert_sv_value svs = Inr vals" "length vals = length (tm_cols tab)"
  shows "insert_runs e p t svs junk (on_eng (run_dml (the_context c1) junk (InsertRoot t tab vals)) c1)"
proof -
  let ?e1 = "c_eng c1" and ?cx = "the_context c1"
  note S = st [unfolded started_def]
  have k: "kept (sm e) (sm ?e1)" "contents (sm ?e1) = contents (sm e)" using S by auto
  have inv: "sm_inv (sm ?e1)" using S by (simp add: tx_ok_def eng_inv_def)
  have cx: "cx_txn ?cx = Some p" using c by (simp add: the_context_def)
  have wf: "tab_wf (sm ?e1) t tab" using w tab tab_wf_kept [OF k(1)] by (simp add: insertable_def)
  have nn: "no_nan (tm_cols tab ! i) (vals ! i)" if "i < length vals" for i using w tab v that by (auto simp: insertable_def)
  have tx: "tx_ok (contents (sm e)) p ?e1" "pages_of (sm ?e1) t < 2147483647" "length t \<le> 4000000" using S pg t by auto
  obtain r e2 where I: "insert_Next ?cx t tab vals junk ?e1 = (r, e2)" "tx_ok (contents (sm e)) p e2"
      "insert_post ?cx t tab vals junk ?e1 r e2"
    using insert_Next_spec [OF tx(1) wf started_chained [OF st ch] tx(2) cx tx(3) v(2) nn, of junk] by auto
  have rn: "running (Lock_Manager.holds (locks e)) p e2" using keepsD [OF running_insert [OF cx] _ I(1)] S by blast
  have q: "on_eng (run_dml ?cx junk (InsertRoot t tab vals)) c1 = (case r of Inl x \<Rightarrow> Inl x | Inr _ \<Rightarrow> Inr (), c1\<lparr>c_eng := e2\<rparr>)"
    using I(1) by (cases r) (simp_all add: on_eng_def zoom_app)
  have h: "map_of (fhs (sm e)) t \<noteq> None"
    using sm_invD(4) [OF inv, of t] tab k handles_same [of "sm e" "sm ?e1" t] by (auto simp: kept_def)
  note rs = kept_handle [OF k(1) h]
  have goes: "fst (lock_table_X ?cx t ?e1) = Inr ()" if "insert_goes e p t svs junk"
    using lock_table_free [OF _ cx, of "Lock_Manager.holds (locks e)" ?e1 t] S that rs(2) by (simp add: insert_goes_def)
  obtain off n where ly: "layout off (tm_cols tab) n" using wf by (auto simp: tab_wf_def)
  show ?thesis
  proof (cases r)
    case (Inl x)
    have "caught x"
      using I(3) make_record_error [OF ly _ map_r_convert(1) [OF v(1)]] v(2) unfolding Inl insert_post_def Let_def
      by (auto simp: caught_def short_error_def)
    moreover have "\<not> insert_goes e p t svs junk"
    proof
      assume g: "insert_goes e p t svs junk"
      show False using I(3) goes [OF g] g tab v(1) unfolding Inl insert_post_def Let_def insert_goes_def k(2) rs by auto
    qed
    ultimately show ?thesis using q I(2) rn Inl c by (simp add: runs_def)
  next
    case (Inr rid)
    have "insert_effect e t svs junk (contents (sm e2))"
      using I(3) tab v(1) unfolding Inr insert_post_def Let_def insert_effect_def k(2) rs(1) by auto
    then show ?thesis using q I(2) rn Inr c by (simp add: runs_def)
  qed
qed

lemma insert_query:
  assumes c: "c_txn c1 = Some p" and st: "started e p (c_eng c1)" and ch: "all_chained e" and pg: "pages_of (sm e) t < 2147483647"
    and t: "length t \<le> 8000" and w: "insertable e t svs"
  shows "insert_runs e p t svs junk (run_query fuel junk (AstInsert t svs) c1)"
proof -
  let ?e1 = "c_eng c1" and ?db = "sm_db (sm (c_eng c1))"
  have db: "?db = sm_db (sm e)" and inv: "sm_inv (sm ?e1)" using st by (simp_all add: started_def kept_def tx_ok_def eng_inv_def)
  show ?thesis
  proof (cases "map_of (tabs (sm_db (sm e))) t")
    case None
    then have "run_query fuel junk (AstInsert t svs) c1 = (Inl (TableNotFoundError t), c1)"
      by (simp add: run_query_def db analyze_insert_def is_table_def)
    then show ?thesis using t by (simp add: fails_early [OF st c] caught_def short_error_def insert_goes_def None)
  next
    case (Some tab)
    show ?thesis
    proof (cases "map_r convert_sv_value svs")
      case (Inl x)
      then have "run_query fuel junk (AstInsert t svs) c1 = (Inl x, c1)"
        by (simp add: run_query_def db analyze_insert_def is_table_def Some)
      then show ?thesis using map_r_convert(2) [OF Inl] by (simp add: fails_early [OF st c] caught_def insert_goes_def Inl)
    next
      case (Inr vals)
      let ?q = "(new_Query (AstInsert t svs))\<lparr>q_values := vals\<rparr>" and ?p = "DMLP T_Insert NullPlan t vals [] [] []"
      have "do_analyze ?db (AstInsert t svs) = Inr ?q" "plan_query ?db ?q = Inr ?p"
        using Inr by (simp_all add: db analyze_insert_def is_table_def Some plan_query_def do_planner_def new_Query_def)
      then have run: "run_query fuel junk (AstInsert t svs) c1 =
          bind_e (on_eng (portal_start fuel (the_context c1) ?p)) (portal_run fuel junk) c1"
        by (simp add: run_query_def)
      note N = new_InsertExecutor_outcome [OF inv, of t vals]
      show ?thesis
      proof (cases "length vals = length (tm_cols tab)")
        case False
        then have "run_query fuel junk (AstInsert t svs) c1 = (Inl InvalidValueCountError, c1)"
          using N by (simp add: run on_eng_def zoom_app portal_start_def db Some)
        then show ?thesis by (simp add: fails_early [OF st c] caught_def short_error_def insert_goes_def Some Inr False)
      next
        case True
        then have "run_query fuel junk (AstInsert t svs) c1 = on_eng (run_dml (the_context c1) junk (InsertRoot t tab vals)) c1"
          using N by (simp add: run on_eng_def zoom_app portal_start_def portal_run_def db Some)
        then show ?thesis using insert_executed [OF assms Some Inr True] by simp
      qed
    qed
  qed
qed

text \<open>
  C7: a single \<^verbatim>\<open>INSERT\<close> is atomic and leaves no lock behind. A request with a parsed \<^verbatim>\<open>INSERT\<close> on a connection without an open
  transaction, whose reply can be sent, into a table that is missing or well formed, with intact lists of free pages and no NaN among the values,
  is answered and the connection goes on; the request ran as a transaction of its own, with the next identifier, and either
  that transaction is committed, its commit record is at the end of the log file, and the table has in addition exactly the record
  made of the converted values, at a place that was free and with no key of an index twice, or the transaction is aborted and
  every table is as it was (no such table, a literal out of range, a wrong number of values, a value that does not suit its column, a
  duplicate key, a lock held by another transaction). In both cases the invariants of the engine hold, the transaction holds no
  lock, and the other transactions hold the locks they held before.
\<close>

theorem insert_request:
  assumes "eng_inv (c_eng c)" and "idle c" and "fresh_id (c_eng c)" and "all_chained (c_eng c)"
    and "pages_of (sm (c_eng c)) t < 2147483647" and "length t \<le> 8000" and "insertable (c_eng c) t svs" and "p = next_txn_id (c_eng c)"
  shows "\<exists>c'. handle_request fuel junk (Some (Some (AstInsert t svs))) True c = (Inr True, c') \<and> eng_inv (c_eng c') \<and>
    (\<forall>u j. Lock_Manager.holds (locks (c_eng c')) u j = (if u = p then None else Lock_Manager.holds (locks (c_eng c)) u j)) \<and>
    (txn_state (the_txn p (c_eng c')) = COMMITTED \<and> insert_effect (c_eng c) t svs junk (contents (sm (c_eng c'))) \<and>
       (\<exists>before r. log_contents (disk (sm_bpm (sm (c_eng c')))) = before @ log_bytes r \<and> log_body r = CommitLog \<and> log_tid r = p) \<or>
     txn_state (the_txn p (c_eng c')) = ABORTED \<and> contents (sm (c_eng c')) = contents (sm (c_eng c)))"
proof -
  obtain c' where h: "handle_request fuel junk (Some (Some (AstInsert t svs))) True c = (Inr True, c')"
    and e: "ended (c_eng c) p (\<lambda>c2. insert_effect (c_eng c) t svs junk (contents (sm (c_eng c2)))) c'"
    using request_spec [OF assms(1-3,8) insert_query [OF _ _ assms(4-7)], of fuel junk] by blast
  show ?thesis using h e unfolding ended_def by (intro exI [of _ c']) auto
qed

definition sample_connection :: client where
  "sample_connection = (sample_client (sample_sm [sample_tix]))\<lparr>c_txn := None, c_id := INVALID_TXN_ID\<rparr>"

abbreviation sample_lits :: "SvValue list" where
  "sample_lits \<equiv> [IntLit ''5'', StringLit ''x'']"

lemma sample_lits_convert: "map_r convert_sv_value sample_lits = Inr sample_vals"
  by (simp add: sample_vals_def parse_int64_literal_def rd_int_def rd_nat_def skip_ws_def is_space_def new_Value_def int64_range_def
      is_digit_def digit_val_def)

lemma sample_connection_engine: "c_eng sample_connection = sample_engine (sample_sm [sample_tix]) []"
  by (simp add: sample_connection_def sample_client_def)

lemma sample_connection_ready:
  "eng_inv (c_eng sample_connection)" "idle sample_connection" "fresh_id (c_eng sample_connection)" "all_chained (c_eng sample_connection)"
  "pages_of (sm (c_eng sample_connection)) ''t'' < 2147483647" "insertable (c_eng sample_connection) ''t'' sample_lits"
  "next_txn_id (c_eng sample_connection) = 2"
proof -
  let ?e = "c_eng sample_connection"
  note e = sample_connection_engine and E = sample_engine_inv [OF sample_sm_inv(2) sample_sm_files(4), of "[]"]
  show "eng_inv ?e" using E(1) by (simp add: e)
  show "idle sample_connection" by (simp add: idle_def sample_connection_def)
  show "fresh_id ?e" by (simp add: fresh_id_def e sample_engine_def int32_range_def)
  show "all_chained ?e" using sample_chained by (simp add: e)
  show "pages_of (sm ?e) ''t'' < 2147483647" using sample_pages [of "''t''"] E(3) by (simp add: e)
  show "insertable ?e ''t'' sample_lits"
    using sample_tab_wf sample_tab sample_no_nan E(3) sample_lits_convert by (auto simp: insertable_def e sample_vals_def)
  show "next_txn_id ?e = 2" by (simp add: e sample_engine_def)
qed

theorem insert_request_witness:
  "\<exists>c'. handle_request 0 (\<lambda>_. 0) (Some (Some (AstInsert ''t'' sample_lits))) True sample_connection = (Inr True, c') \<and>
     (\<forall>j. Lock_Manager.holds (locks (c_eng c')) 2 j = None)"
  using insert_request [OF sample_connection_ready(1-5) _ sample_connection_ready(6), of 2 0 "\<lambda>_. 0"] sample_connection_ready(7) by auto

text \<open>
  C8: an \<^verbatim>\<open>INSERT\<close> that can be carried out is carried out. When the connection is idle and its reply can be sent, the list of free pages of the
  table is intact, the values of the statement convert to those of the columns and are as many, no record of the table has the same key in an index, and
  no other transaction has a lock on the table, the request ends with its transaction committed and the new record, which the values
  make, in the table; no request waits for another one.
\<close>

theorem insert_request_commits:
  assumes "eng_inv (c_eng c)" and "idle c" and "fresh_id (c_eng c)" and "all_chained (c_eng c)"
    and "pages_of (sm (c_eng c)) t < 2147483647" and "length t \<le> 8000" and "insertable (c_eng c) t svs" and "p = next_txn_id (c_eng c)"
    and tab: "map_of (tabs (sm_db (sm (c_eng c)))) t = Some tab" and vals: "map_r convert_sv_value svs = Inr vals"
    and len: "length vals = length (tm_cols tab)"
    and made: "make_record (tm_cols tab) vals (map junk [0..<nat (record_size (file_hdr (the_handle t (c_eng c))))]) = Inr rec"
    and nodup: "\<not> clashes tab (contents (sm (c_eng c)) t) rec None"
    and free: "\<forall>u. u \<noteq> p \<longrightarrow> Lock_Manager.holds (locks (c_eng c)) u (table_lock_id (fh_fd (the_handle t (c_eng c)))) = None"
  shows "\<exists>c' rid. handle_request fuel junk (Some (Some (AstInsert t svs))) True c = (Inr True, c') \<and>
    txn_state (the_txn p (c_eng c')) = COMMITTED \<and> contents (sm (c_eng c)) t rid = None \<and>
    contents (sm (c_eng c')) = (contents (sm (c_eng c)))(t := (contents (sm (c_eng c)) t)(rid \<mapsto> rec))"
proof -
  have "insert_goes (c_eng c) p t svs junk" using tab vals len made nodup free by (auto simp: insert_goes_def)
  then obtain c' where "handle_request fuel junk (Some (Some (AstInsert t svs))) True c = (Inr True, c')"
      "txn_state (the_txn p (c_eng c')) = COMMITTED"
      and e: "ended (c_eng c) p (\<lambda>c2. insert_effect (c_eng c) t svs junk (contents (sm (c_eng c2)))) c'"
    using request_spec [OF assms(1-3,8) insert_query [OF _ _ assms(4-7)], of fuel junk] by blast
  moreover from this have "insert_effect (c_eng c) t svs junk (contents (sm (c_eng c')))" unfolding ended_def by auto
  ultimately show ?thesis using tab vals made unfolding insert_effect_def by auto
qed

theorem insert_request_commits_witness:
  "\<exists>c' rid rec. handle_request 0 (\<lambda>_. 0) (Some (Some (AstInsert ''t'' sample_lits))) True sample_connection = (Inr True, c') \<and>
     txn_state (the_txn 2 (c_eng c')) = COMMITTED \<and> contents (sm (c_eng c')) ''t'' rid = Some rec"
proof -
  let ?e = "c_eng sample_connection"
  have e: "sm ?e = sample_sm [sample_tix]" "locks ?e = on_txn 1 (\<lambda>tx. tx\<lparr>write_set := []\<rparr>) sample_locks"
    by (simp_all add: sample_connection_engine sample_engine_def)
  have tab: "map_of (tabs (sm_db (sm ?e))) ''t'' = Some sample_table" using sample_tab e by simp
  have "\<exists>rec. make_record sample_cols sample_vals bs = Inr rec" for bs
    by (simp add: sample_cols_def sample_vals_def field_bytes_def coerce_to_def vtype_def bind_e_app init_raw_def)
  then obtain rec where m: "make_record (tm_cols sample_table) sample_vals
      (map (\<lambda>_. 0) [0..<nat (record_size (file_hdr (the_handle ''t'' ?e)))]) = Inr rec" by auto
  have "\<not> clashes sample_table (contents (sm ?e) ''t'') rec None" by (simp add: clashes_def e sample_sm_files(2))
  moreover have "\<forall>u. u \<noteq> 2 \<longrightarrow> Lock_Manager.holds (locks ?e) u (table_lock_id (fh_fd (the_handle ''t'' ?e))) = None"
    by (simp add: e)
  ultimately show ?thesis
    using insert_request_commits [OF sample_connection_ready(1-5) _ sample_connection_ready(6) _ tab sample_lits_convert _ m, of 2 0]
      sample_connection_ready(7) by (auto simp: sample_vals_def sample_cols_def)
qed

end
