(* ===== verification/Sql_Meaning.thy ===== *)
theory Sql_Meaning
  imports Portal "HOL-Library.FuncSet"
begin

text \<open>
  What a select means, without plans and executors: a row of the result for every choice of one record from each table that
  satisfies all the conditions, in the order of the sort keys and up to the limit (\<open>sql_answer\<close>). The trees of scans and joins that the planner builds have
  exactly these rows, whatever the order of the joins and the choice of indexes.
\<close>

section \<open>The meaning of a select\<close>

text \<open>A choice \<open>f\<close> of a record identifier for each table gives the records.\<close>

definition recs_at :: "db_contents \<Rightarrow> (string \<Rightarrow> Rid) \<Rightarrow> string \<Rightarrow> byte list" where
  "recs_at c f t = the (c t (f t))"

definition chosen_field :: "DbMeta \<Rightarrow> (string \<Rightarrow> byte list) \<Rightarrow> TabCol \<Rightarrow> byte list" where
  "chosen_field db r tc = (case table_col db tc of Inl _ \<Rightarrow> [] | Inr col \<Rightarrow> col_bytes col (r (tc_tab tc)))"

definition cond_true :: "DbMeta \<Rightarrow> (string \<Rightarrow> byte list) \<Rightarrow> Condition \<Rightarrow> bool" where
  "cond_true db r cond \<longleftrightarrow>
     (case table_col db (lhs_col cond) of Inl _ \<Rightarrow> False
      | Inr col \<Rightarrow> eval_compare (compare_raw_value (chosen_field db r (lhs_col cond))
          (if is_rhs_val cond then the (raw (rhs_val cond)) else chosen_field db r (rhs_col cond)) (cm_type col) (cm_len col)) (cond_op cond))"

definition choices :: "DbMeta \<Rightarrow> db_contents \<Rightarrow> string set \<Rightarrow> Condition set \<Rightarrow> (string \<Rightarrow> Rid) set" where
  "choices db c ts conds = {f \<in> PiE ts (\<lambda>t. dom (c t)). \<forall>cond\<in>conds. cond_true db (recs_at c f) cond}"

definition sql_row :: "DbMeta \<Rightarrow> TabCol list \<Rightarrow> (string \<Rightarrow> byte list) \<Rightarrow> byte list" where
  "sql_row db sel r = concat (map (chosen_field db r) sel)"

text \<open>The order of \<^verbatim>\<open>ORDER BY\<close>: by the first key, then by the second, each ascending or descending.\<close>

definition sort_key_at :: "DbMeta \<Rightarrow> (string \<Rightarrow> byte list) \<Rightarrow> TabCol \<Rightarrow> int list" where
  "sort_key_at db r tc = (case table_col db tc of Inl _ \<Rightarrow> [] | Inr col \<Rightarrow> raw_key (cm_type col) (cm_len col) (chosen_field db r tc))"

fun sql_less :: "DbMeta \<Rightarrow> SortKey list \<Rightarrow> (string \<Rightarrow> byte list) \<Rightarrow> (string \<Rightarrow> byte list) \<Rightarrow> bool" where
  "sql_less db [] r r' = False"
| "sql_less db (k # ks) r r' =
     (if sort_key_at db r (sk_col k) = sort_key_at db r' (sk_col k) then sql_less db ks r r'
      else if sk_desc k then sort_key_at db r (sk_col k) > sort_key_at db r' (sk_col k) else sort_key_at db r (sk_col k) < sort_key_at db r' (sk_col k))"

text \<open>The choices that make the rows of the result, in their order: all that satisfy the conditions, sorted, up to the limit.\<close>

definition sql_answer :: "DbMeta \<Rightarrow> db_contents \<Rightarrow> Query \<Rightarrow> (string \<Rightarrow> Rid) list \<Rightarrow> bool" where
  "sql_answer db c q fs \<longleftrightarrow>
     (\<exists>all. distinct all \<and> set all = choices db c (set (q_tables q)) (set (q_conds q)) \<and>
        sorted_wrt (\<lambda>f g. \<not> sql_less db (q_sort_keys q) (recs_at c g) (recs_at c f)) all \<and>
        fs = (if q_limit q \<ge> 0 then take (nat (q_limit q)) all else all))"

text \<open>What a row of the reply shows for a selected column.\<close>

definition field_text :: "DbMeta \<Rightarrow> (string \<Rightarrow> byte list) \<Rightarrow> TabCol \<Rightarrow> string" where
  "field_text db r tc = (case table_col db tc of Inl _ \<Rightarrow> [] | Inr col \<Rightarrow> format_column_value col (chosen_field db r tc))"

text \<open>Conditions as the analysis leaves them, with columns of equal length on both sides of a comparison of columns.\<close>

definition cond_ok :: "DbMeta \<Rightarrow> Condition \<Rightarrow> bool" where
  "cond_ok db cond \<longleftrightarrow>
     (\<exists>l. table_col db (lhs_col cond) = Inr l \<and>
        (if is_rhs_val cond then \<exists>bs. raw (rhs_val cond) = Some bs \<and> nat (cm_len l) \<le> length bs
         else \<exists>r. table_col db (rhs_col cond) = Inr r \<and> cm_type r = cm_type l \<and> cm_len r = cm_len l))"

section \<open>Comparison\<close>

lemma strncmp_take: "strncmp n (take n a) (take n b) = strncmp n a b"
  by (induction n a b rule: strncmp.induct) (auto simp: Let_def take_tl split: list.splits)

lemma strncmp_swap: "strncmp n b a = - strncmp n a b"
  by (induction n a b rule: strncmp.induct) (auto simp: Let_def split: list.splits)

lemma compare_take:
  assumes "len_ok ty len"
  shows "compare_raw_value (take (nat len) a) (take (nat len) b) ty len = compare_raw_value a b ty len"
  using assms by (cases ty) (simp_all add: len_ok_def compare_raw_value_def raw_i32_def raw_i64_def raw_float_def strncmp_take)

lemma compare_swap: "compare_raw_value b a ty len = - compare_raw_value a b ty len"
  using strncmp_swap [of "nat len" b a] by (cases ty) (simp_all add: compare_raw_value_def sign_less_def)

lemma eval_compare_swap: "eval_compare (- x) (swap_op op) = eval_compare x op"
  by (cases op) auto

lemma cond_true_swap:
  assumes "cond_ok db c" and "\<not> is_rhs_val c"
  shows "cond_true db r (swap_sides c) = cond_true db r c" "cond_ok db (swap_sides c)"
proof -
  obtain l k where "table_col db (lhs_col c) = Inr l" "table_col db (rhs_col c) = Inr k" "cm_type k = cm_type l" "cm_len k = cm_len l"
    using assms by (auto simp: cond_ok_def)
  moreover have "eval_compare (compare_raw_value b a ty len) (swap_op op) = eval_compare (compare_raw_value a b ty len) op" for a b ty len op
    unfolding compare_swap [of b a] by (rule eval_compare_swap)
  ultimately show "cond_true db r (swap_sides c) = cond_true db r c" "cond_ok db (swap_sides c)"
    using assms(2) by (simp_all add: cond_true_def swap_sides_def cond_ok_def)
qed

lemma same_cond_true: "same_cond c c' \<Longrightarrow> cond_ok db c \<Longrightarrow> cond_ok db c' \<and> (\<forall>r. cond_true db r c' = cond_true db r c)"
  using cond_true_swap by (auto simp: same_cond_def)

lemma same_conds_true:
  assumes "same_conds cs ds" and "\<forall>c\<in>set cs. cond_ok db c"
  shows "(\<forall>d\<in>set ds. cond_true db r d) \<longleftrightarrow> (\<forall>c\<in>set cs. cond_true db r c)" "\<forall>d\<in>set ds. cond_ok db d"
proof -
  obtain es where es: "mset es = mset ds" "list_all2 same_cond cs es" using assms(1) by (auto simp: same_conds_def)
  have s: "set ds = set es" using es(1) by (metis set_mset_mset)
  show "(\<forall>d\<in>set ds. cond_true db r d) \<longleftrightarrow> (\<forall>c\<in>set cs. cond_true db r c)" "\<forall>d\<in>set ds. cond_ok db d"
    unfolding s using es(2) assms(2) by (induction rule: list_all2_induct) (use same_cond_true in auto)
qed

lemma choices_same: "same_conds cs ds \<Longrightarrow> \<forall>c\<in>set cs. cond_ok db c \<Longrightarrow> choices db c ts (set ds) = choices db c ts (set cs)"
  using same_conds_true(1) by (simp add: choices_def)

lemma cond_true_cong:
  assumes "\<And>t. t \<in> cond_tabs cond \<Longrightarrow> r t = r' t"
  shows "cond_true db r cond = cond_true db r' cond"
  using assms by (auto simp: cond_true_def chosen_field_def cond_tabs_def split: sum.splits)

section \<open>Columns and rows of joined tables\<close>

definition tab_cols :: "DbMeta \<Rightarrow> string \<Rightarrow> ColMeta list" where
  "tab_cols db t = (case map_of (tabs db) t of None \<Rightarrow> [] | Some tab \<Rightarrow> tm_cols tab)"

definition tab_size :: "DbMeta \<Rightarrow> string \<Rightarrow> int" where
  "tab_size db t = cols_end (tab_cols db t)"

abbreviation sizes :: "DbMeta \<Rightarrow> string list \<Rightarrow> int" where
  "sizes db ts \<equiv> sum_list (map (tab_size db) ts)"

definition shift :: "int \<Rightarrow> ColMeta \<Rightarrow> ColMeta" where
  "shift k col = col\<lparr>cm_offset := cm_offset col + k\<rparr>"

text \<open>The columns of the rows that have a record of each table one behind the other.\<close>

fun spread :: "DbMeta \<Rightarrow> int \<Rightarrow> string list \<Rightarrow> ColMeta list" where
  "spread db off [] = []"
| "spread db off (t # ts) = map (shift off) (tab_cols db t) @ spread db (off + tab_size db t) ts"

definition tabs_ok :: "DbMeta \<Rightarrow> db_contents \<Rightarrow> string set \<Rightarrow> bool" where
  "tabs_ok db c ts \<longleftrightarrow> (\<forall>t\<in>ts. map_of (tabs db) t \<noteq> None \<and> 0 \<le> tab_size db t \<and> layout 0 (tab_cols db t) (tab_size db t) \<and>
     (\<forall>q rec. c t q = Some rec \<longrightarrow> length rec = nat (tab_size db t)))"

lemma shift_sel [simp]:
  "cm_tab (shift k col) = cm_tab col" "cm_name (shift k col) = cm_name col" "cm_type (shift k col) = cm_type col"
  "cm_len (shift k col) = cm_len col" "cm_offset (shift k col) = cm_offset col + k" "shift k (shift j col) = shift (j + k) col"
  by (simp_all add: shift_def)

lemma spread_append: "spread db off (ts @ us) = spread db off ts @ spread db (off + sizes db ts) us"
  by (induction ts arbitrary: off) (simp_all add: add.assoc)

lemma shift_spread: "map (shift k) (spread db off ts) = spread db (off + k) ts"
  by (induction ts arbitrary: off) (simp_all add: comp_def algebra_simps)

lemma table_col_find:
  assumes n: "db_named db" and tc: "table_col db tc = Inr col"
  shows "find (\<lambda>c. cm_tab c = tc_tab tc \<and> cm_name c = tc_col tc) (tab_cols db (tc_tab tc)) = Some col"
    "col \<in> set (tab_cols db (tc_tab tc))" "map_of (tabs db) (tc_tab tc) \<noteq> None"
proof -
  obtain tab i where t: "map_of (tabs db) (tc_tab tc) = Some tab" "find_pos (\<lambda>c. cm_name c = tc_col tc) (tm_cols tab) = Some i" "col = tm_cols tab ! i"
    using tc by (auto simp: table_col_def get_table_def get_col_def bind_r_Inr_iff split: option.splits)
  have i: "i < length (tm_cols tab)" "cm_name (tm_cols tab ! i) = tc_col tc" using find_pos_find [OF t(2)] by (auto simp: find_Some_iff)
  show m: "col \<in> set (tab_cols db (tc_tab tc))" "map_of (tabs db) (tc_tab tc) \<noteq> None" using t i by (simp_all add: tab_cols_def)
  have nm: "c = col" if "c \<in> set (tm_cols tab)" "cm_name c = tc_col tc" for c
    using n t(1,3) that i unfolding db_named_def by (metis distinct_map inj_onD nth_mem)
  have ct: "cm_tab col = tc_tab tc" "cm_name col = tc_col tc" using n t(1,3) i by (auto simp: db_named_def)
  obtain c where "find (\<lambda>c. cm_tab c = tc_tab tc \<and> cm_name c = tc_col tc) (tm_cols tab) = Some c"
    using m(1) ct t(1) by (cases "find (\<lambda>c. cm_tab c = tc_tab tc \<and> cm_name c = tc_col tc) (tm_cols tab)")
      (auto simp: find_None_iff tab_cols_def)
  moreover from this have "c = col" using nm by (auto simp: find_Some_iff)
  ultimately show "find (\<lambda>c. cm_tab c = tc_tab tc \<and> cm_name c = tc_col tc) (tab_cols db (tc_tab tc)) = Some col"
    using t(1) by (simp add: tab_cols_def)
qed

lemma find_append: "find P (xs @ ys) = (case find P xs of None \<Rightarrow> find P ys | Some x \<Rightarrow> Some x)"
  by (induction xs) auto

lemma find_map: "find P (map f xs) = map_option f (find (\<lambda>x. P (f x)) xs)"
  by (induction xs) auto

text \<open>Where the record of a table starts in a row.\<close>

abbreviation start_of :: "DbMeta \<Rightarrow> string list \<Rightarrow> string \<Rightarrow> int" where
  "start_of db ts t \<equiv> sizes db (takeWhile (\<lambda>u. u \<noteq> t) ts)"

lemma find_spread:
  assumes n: "db_named db" and tc: "table_col db tc = Inr col" and "tc_tab tc \<in> set ts" and "\<forall>t\<in>set ts. map_of (tabs db) t \<noteq> None"
  shows "find (\<lambda>c. cm_tab c = tc_tab tc \<and> cm_name c = tc_col tc) (spread db off ts) = Some (shift (off + start_of db ts (tc_tab tc)) col)"
  using assms(3,4)
proof (induction ts arbitrary: off)
  case (Cons t ts)
  show ?case
  proof (cases "t = tc_tab tc")
    case True
    then show ?thesis using table_col_find(1) [OF n tc] by (simp add: find_append find_map)
  next
    case False
    obtain tab where tab: "map_of (tabs db) t = Some tab" using Cons.prems by auto
    then have "\<forall>c\<in>set (tab_cols db t). cm_tab c \<noteq> tc_tab tc" using n False by (auto simp: db_named_def tab_cols_def)
    then have "find (\<lambda>c. cm_tab c = tc_tab tc \<and> cm_name c = tc_col tc) (tab_cols db t) = None" by (auto simp: find_None_iff)
    then show ?thesis using Cons False by (simp add: find_append find_map add.assoc)
  qed
qed simp

lemma find_col_meta_spread:
  assumes "db_named db" and "table_col db tc = Inr col" and "tc_tab tc \<in> set ts" and "\<forall>t\<in>set ts. map_of (tabs db) t \<noteq> None"
  shows "find_col_meta (spread db 0 ts) tc = Inr (shift (start_of db ts (tc_tab tc)) col)"
  using find_spread [OF assms, of 0] by (simp add: find_col_meta_def)

lemma sizes_nonneg: "\<forall>t\<in>set ts. 0 \<le> tab_size db t \<Longrightarrow> 0 \<le> sizes db ts"
  by (induction ts) auto

lemma drop_row:
  assumes "t \<in> set ts" and "\<forall>u\<in>set ts. 0 \<le> tab_size db u \<and> length (r u) = nat (tab_size db u)"
  shows "\<exists>rest. drop (nat (start_of db ts t)) (concat (map r ts)) = r t @ rest"
  using assms
proof (induction ts)
  case (Cons u ts)
  show ?case
  proof (cases "u = t")
    case False
    have "0 \<le> start_of db ts t" by (rule sizes_nonneg) (use Cons.prems(2) set_takeWhileD in fastforce)
    then have "drop (nat (start_of db (u # ts) t)) (concat (map r (u # ts))) = drop (nat (start_of db ts t)) (concat (map r ts))"
      using False Cons.prems by (simp add: nat_add_distrib)
    then show ?thesis using Cons False by simp
  qed simp
qed simp

lemma bytes_row:
  assumes n: "db_named db" and tc: "table_col db tc = Inr col" and t: "tc_tab tc \<in> set ts" and ok: "tabs_ok db c (set ts)"
    and r: "\<forall>u\<in>set ts. length (r u) = nat (tab_size db u)"
  shows "take (nat (cm_len col)) (drop (nat (cm_offset (shift (start_of db ts (tc_tab tc)) col))) (concat (map r ts))) = chosen_field db r tc"
    "len_ok (cm_type col) (cm_len col)" "0 \<le> cm_offset col" "cm_offset col + cm_len col \<le> tab_size db (tc_tab tc)"
    "0 \<le> start_of db ts (tc_tab tc)"
proof -
  let ?o = "start_of db ts (tc_tab tc)"
  have z: "\<forall>u\<in>set ts. 0 \<le> tab_size db u \<and> length (r u) = nat (tab_size db u)" using ok r by (simp add: tabs_ok_def)
  show o: "0 \<le> ?o" by (rule sizes_nonneg) (use z set_takeWhileD in fastforce)
  have l: "layout 0 (tab_cols db (tc_tab tc)) (tab_size db (tc_tab tc))" using ok t by (simp add: tabs_ok_def)
  show b: "len_ok (cm_type col) (cm_len col)" "0 \<le> cm_offset col" "cm_offset col + cm_len col \<le> tab_size db (tc_tab tc)"
    using layout_bounds [OF l table_col_find(2) [OF n tc]] by auto
  obtain rest where d: "drop (nat ?o) (concat (map r ts)) = r (tc_tab tc) @ rest" using drop_row [OF t z] by blast
  have "drop (nat (cm_offset col + ?o)) (concat (map r ts)) = drop (nat (cm_offset col)) (r (tc_tab tc) @ rest)"
    unfolding d [symmetric] using b(2) o by (simp add: nat_add_distrib)
  moreover have "nat (cm_offset col) + nat (cm_len col) \<le> length (r (tc_tab tc))" using b z t len_ok_nonneg [OF b(1)] by auto
  ultimately show "take (nat (cm_len col)) (drop (nat (cm_offset (shift ?o col))) (concat (map r ts))) = chosen_field db r tc"
    using tc by (simp add: chosen_field_def col_bytes_def)
qed

lemma eval_row:
  assumes n: "db_named db" and ok: "tabs_ok db c (set ts)" and r: "\<forall>u\<in>set ts. length (r u) = nat (tab_size db u)"
    and cd: "cond_ok db cond" and t: "cond_tabs cond \<subseteq> set ts"
  shows "eval_condition (spread db 0 ts) cond (concat (map r ts)) = Inr (cond_true db r cond)"
proof -
  have m: "\<forall>t\<in>set ts. map_of (tabs db) t \<noteq> None" using ok by (simp add: tabs_ok_def)
  have lt: "tc_tab (lhs_col cond) \<in> set ts" and rt: "\<not> is_rhs_val cond \<Longrightarrow> tc_tab (rhs_col cond) \<in> set ts"
    using t by (auto simp: cond_tabs_def split: if_splits)
  obtain l where l: "table_col db (lhs_col cond) = Inr l" using cd by (auto simp: cond_ok_def)
  note fl = find_col_meta_spread [OF n l lt m] and bl = bytes_row [OF n l lt ok r]
  let ?rec = "concat (map r ts)" and ?a = "drop (nat (cm_offset (shift (start_of db ts (tc_tab (lhs_col cond))) l))) (concat (map r ts))"
  let ?cmp = "\<lambda>a b. compare_raw_value a b (cm_type l) (cm_len l)" and ?take = "take (nat (cm_len l))"
  have cmp: "?cmp ?a b = ?cmp (chosen_field db r (lhs_col cond)) b'" if "?take b = ?take b'" for b b'
    using compare_take [OF bl(2), of ?a b] compare_take [OF bl(2), of "chosen_field db r (lhs_col cond)" b'] that bl(1)
    by (metis take_take min.idem)
  show ?thesis
  proof (cases "is_rhs_val cond")
    case True
    then show ?thesis using cd l fl cmp [OF refl] by (auto simp: cond_ok_def eval_condition_def cond_true_def)
  next
    case False
    then obtain k where k: "table_col db (rhs_col cond) = Inr k" "cm_type k = cm_type l" "cm_len k = cm_len l"
      using cd l by (auto simp: cond_ok_def)
    note fk = find_col_meta_spread [OF n k(1) rt [OF False] m] and bk = bytes_row [OF n k(1) rt [OF False] ok r]
    have "?cmp ?a (drop (nat (cm_offset (shift (start_of db ts (tc_tab (rhs_col cond))) k))) ?rec) =
        ?cmp (chosen_field db r (lhs_col cond)) (chosen_field db r (rhs_col cond))"
      by (rule cmp) (use bk(1) k(3) in \<open>metis take_take min.idem\<close>)
    then show ?thesis using False l fl fk by (simp add: eval_condition_def cond_true_def)
  qed
qed

lemma eval_rows:
  assumes "db_named db" and "tabs_ok db c (set ts)" and "\<forall>u\<in>set ts. length (r u) = nat (tab_size db u)"
    and "\<forall>cond\<in>set conds. cond_ok db cond \<and> cond_tabs cond \<subseteq> set ts"
  shows "eval_conditions (spread db 0 ts) conds (concat (map r ts)) = Inr True \<longleftrightarrow> (\<forall>cond\<in>set conds. cond_true db r cond)"
  using eval_row [OF assms(1-3)] assms(4) by (simp add: eval_conditions_Inr_True)

section \<open>Rows of a tree of scans and joins\<close>

text \<open>The executors that a plan of scans and joins stands for.\<close>

fun built :: "DbMeta \<Rightarrow> plan \<Rightarrow> executor \<Rightarrow> bool" where
  "built db (ScanP s) (SeqScanEx e) \<longleftrightarrow> ss_tab e = sp_tab s \<and> ss_conds e = sp_conds s \<and> ss_cols e = tab_cols db (sp_tab s) \<and>
     ss_len e = tab_size db (sp_tab s)"
| "built db (ScanP s) (IndexScanEx e) \<longleftrightarrow> is_tab e = sp_tab s \<and> is_conds e = sp_conds s \<and> is_cols e = tab_cols db (sp_tab s) \<and>
     is_len e = tab_size db (sp_tab s) \<and> is_names e = sp_index s \<and> sp_tag s \<noteq> T_SeqScan"
| "built db (JoinP l r conds) x \<longleftrightarrow> (\<exists>xl xr. built db l xl \<and> built db r xr \<and> x = new_Join xl xr conds)"
| "built db _ _ \<longleftrightarrow> False"

lemma shift_0 [simp]: "shift 0 = (\<lambda>col. col)"
  by (simp add: shift_def fun_eq_iff)

lemma spread_single [simp]: "spread db 0 [t] = tab_cols db t"
  by simp

lemma built_cols: "built db p x \<Longrightarrow> ex_cols x = spread db 0 (leaf_names p) \<and> tupleLen x = sizes db (leaf_names p)"
proof (induction db p x rule: built.induct)
  case (3 db l r conds x)
  then obtain xl xr where b: "built db l xl" "built db r xr" "x = new_Join xl xr conds" by auto
  have "ex_cols xl = spread db 0 (leaf_names l)" "tupleLen xl = sizes db (leaf_names l)"
    "ex_cols xr = spread db 0 (leaf_names r)" "tupleLen xr = sizes db (leaf_names r)" using 3 b(1,2) by blast+
  then show ?case using b(3) shift_spread [of "sizes db (leaf_names l)" db 0 "leaf_names r"]
    by (simp add: new_Join_def spread_append shift_def [abs_def])
qed auto

definition joined :: "db_contents \<Rightarrow> string list \<Rightarrow> (string \<Rightarrow> Rid) \<Rightarrow> byte list" where
  "joined c ts f = concat (map (recs_at c f) ts)"

lemma choice_lengths:
  assumes "tabs_ok db c (set ts)" and "f \<in> choices db c (set ts) conds"
  shows "\<forall>u\<in>set ts. length (recs_at c f u) = nat (tab_size db u)"
proof
  fix u assume u: "u \<in> set ts"
  then have "f u \<in> dom (c u)" using assms(2) by (auto simp: choices_def PiE_iff)
  then show "length (recs_at c f u) = nat (tab_size db u)" using assms(1) u by (auto simp: tabs_ok_def recs_at_def)
qed

lemma length_joined:
  assumes "tabs_ok db c (set ts)" and "f \<in> choices db c (set ts) conds"
  shows "length (joined c ts f) = nat (sizes db ts)"
proof -
  have "\<forall>u\<in>set us. length (recs_at c f u) = nat (tab_size db u) \<and> 0 \<le> tab_size db u \<Longrightarrow> length (joined c us f) = nat (sizes db us)" for us
    by (induction us) (simp_all add: joined_def nat_add_distrib sizes_nonneg)
  then show ?thesis using choice_lengths [OF assms] assms(1) by (simp add: tabs_ok_def)
qed

subsection \<open>Scans\<close>

lemma scan_choices:
  assumes "tabs_ok db c {t}" and fin: "finite (dom (c t))" and n: "db_named db"
    and cs: "\<forall>cond\<in>set conds. cond_ok db cond \<and> cond_tabs cond \<subseteq> {t}"
  shows "satisfying (c t) (tab_cols db t) conds = image_mset (joined c [t]) (mset_set (choices db c {t} (set conds)))"
proof -
  let ?D = "{q \<in> dom (c t). eval_conditions (tab_cols db t) conds (the (c t q)) = Inr True}" and ?h = "\<lambda>q. restrict (\<lambda>_. q) {t}"
  have ev: "eval_conditions (tab_cols db t) conds (the (c t q)) = Inr True \<longleftrightarrow> (\<forall>cond\<in>set conds. cond_true db (recs_at c (?h q)) cond)"
    if "q \<in> dom (c t)" for q
    using eval_rows [OF n, of c "[t]" "recs_at c (?h q)" conds] assms(1) that cs by (auto simp: recs_at_def tabs_ok_def)
  have "?h ` ?D = choices db c {t} (set conds)"
  proof
    show "?h ` ?D \<subseteq> choices db c {t} (set conds)"
    proof (rule image_subsetI)
      fix q assume q: "q \<in> ?D"
      then have "?h q \<in> PiE {t} (\<lambda>t. dom (c t))" by simp
      then show "?h q \<in> choices db c {t} (set conds)" using q ev [of q] unfolding choices_def by simp
    qed
    show "choices db c {t} (set conds) \<subseteq> ?h ` ?D"
    proof
      fix f assume f: "f \<in> choices db c {t} (set conds)"
      then have "f t \<in> dom (c t)" "f = ?h (f t)" by (auto simp: choices_def PiE_iff extensional_def fun_eq_iff)
      then show "f \<in> ?h ` ?D" using f ev by (intro image_eqI [of _ _ "f t"]) (auto simp: choices_def)
    qed
  qed
  moreover have "inj_on ?h ?D" by (auto simp: inj_on_def fun_eq_iff)
  ultimately have "mset_set (choices db c {t} (set conds)) = image_mset ?h (mset_set ?D)" by (simp add: image_mset_mset_set)
  then show ?thesis by (simp add: satisfying_def joined_def [abs_def] recs_at_def multiset.map_comp comp_def)
qed

subsection \<open>Joins\<close>

lemma mset_product: "mset (List.product xs ys) = (\<Sum>x\<in>#mset xs. image_mset (Pair x) (mset ys))"
  by (induction xs) simp_all

lemma product_map: "List.product (map F as) (map G bs) = map (\<lambda>(a, b). (F a, G b)) (List.product as bs)"
  by (induction as) (simp_all add: comp_def)

lemma mset_product_sets:
  assumes "finite A" and "finite B" and "mset ls = image_mset F (mset_set A)" and "mset rs = image_mset G (mset_set B)"
  shows "mset (List.product ls rs) = image_mset (\<lambda>(a, b). (F a, G b)) (mset_set (A \<times> B))"
proof -
  obtain as bs where as: "set as = A" "distinct as" and bs: "set bs = B" "distinct bs" using assms(1,2) finite_distinct_list by metis
  have "mset (map F as) = mset ls" "mset (map G bs) = mset rs" using assms(3,4) mset_set_set [OF as(2)] mset_set_set [OF bs(2)] as(1) bs(1) by simp_all
  then have "mset (List.product ls rs) = mset (List.product (map F as) (map G bs))" by (simp add: mset_product)
  also have "\<dots> = image_mset (\<lambda>(a, b). (F a, G b)) (mset (List.product as bs))" by (simp add: product_map)
  also have "mset (List.product as bs) = mset_set (A \<times> B)"
    using mset_set_set [OF distinct_product [OF as(2) bs(2)]] as(1) bs(1) by simp
  finally show ?thesis .
qed

definition merge :: "string set \<Rightarrow> (string \<Rightarrow> Rid) \<times> (string \<Rightarrow> Rid) \<Rightarrow> string \<Rightarrow> Rid" where
  "merge L = (\<lambda>(f, g) t. if t \<in> L then f t else g t)"

lemma merge_choices:
  assumes dis: "L \<inter> R = {}" and C: "\<forall>cond\<in>C. cond_tabs cond \<subseteq> L" and D: "\<forall>cond\<in>D. cond_tabs cond \<subseteq> R"
  shows "merge L ` {x \<in> choices db c L C \<times> choices db c R D. \<forall>cond\<in>E. cond_true db (recs_at c (merge L x)) cond} =
      choices db c (L \<union> R) (C \<union> D \<union> E)" (is "merge L ` ?A = ?B")
    and "inj_on (merge L) (choices db c L C \<times> choices db c R D)"
proof -
  have left: "cond_true db (recs_at c (merge L (f, g))) cond = cond_true db (recs_at c f) cond" if "cond \<in> C" for f g cond
    by (rule cond_true_cong) (use C that in \<open>auto simp: merge_def recs_at_def\<close>)
  have right: "cond_true db (recs_at c (merge L (f, g))) cond = cond_true db (recs_at c g) cond" if "cond \<in> D" for f g cond
    by (rule cond_true_cong) (use D that dis in \<open>auto simp: merge_def recs_at_def\<close>)
  have pie: "merge L (f, g) \<in> PiE (L \<union> R) (\<lambda>t. dom (c t))" if "f \<in> PiE L (\<lambda>t. dom (c t))" "g \<in> PiE R (\<lambda>t. dom (c t))" for f g
    using that dis by (auto simp: merge_def PiE_iff extensional_def)
  show "merge L ` ?A = ?B"
  proof
    show "merge L ` ?A \<subseteq> ?B"
    proof (rule image_subsetI)
      fix x assume x: "x \<in> ?A"
      obtain f g where p: "x = (f, g)" by fastforce
      show "merge L x \<in> ?B" using x p left [of _ f g] right [of _ f g] pie [of f g] unfolding choices_def by simp blast
    qed
    show "?B \<subseteq> merge L ` ?A"
    proof
      fix h assume h: "h \<in> ?B"
      let ?f = "restrict h L" and ?g = "restrict h R"
      have e: "h = merge L (?f, ?g)" using h by (auto simp: choices_def PiE_iff extensional_def merge_def fun_eq_iff)
      have "?f \<in> PiE L (\<lambda>t. dom (c t))" "?g \<in> PiE R (\<lambda>t. dom (c t))" using h by (auto simp: choices_def PiE_iff)
      moreover have "\<forall>cond\<in>C. cond_true db (recs_at c ?f) cond" "\<forall>cond\<in>D. cond_true db (recs_at c ?g) cond"
        using left [of _ ?f ?g] right [of _ ?f ?g] h e by (auto simp: choices_def)
      ultimately have "(?f, ?g) \<in> ?A" using h e by (auto simp: choices_def)
      then show "h \<in> merge L ` ?A" using e by blast
    qed
  qed
  show "inj_on (merge L) (choices db c L C \<times> choices db c R D)"
  proof (rule inj_onI)
    fix x y assume x: "x \<in> choices db c L C \<times> choices db c R D" and y: "y \<in> choices db c L C \<times> choices db c R D" and e: "merge L x = merge L y"
    obtain f g f' g' where p: "x = (f, g)" "y = (f', g')" by fastforce
    have m: "(if t \<in> L then f t else g t) = (if t \<in> L then f' t else g' t)" for t
      using fun_cong [OF e, of t] p by (simp add: merge_def)
    have ext: "f \<in> extensional L" "f' \<in> extensional L" "g \<in> extensional R" "g' \<in> extensional R" using x y p by (auto simp: choices_def PiE_def)
    have "f = f'" by (rule extensionalityI [OF ext(1,2)]) (use m in metis)
    moreover have "g = g'" by (rule extensionalityI [OF ext(3,4)]) (use m dis in \<open>metis disjoint_iff\<close>)
    ultimately show "x = y" using p by simp
  qed
qed

lemma finite_choices: "finite ts \<Longrightarrow> \<forall>t. finite (dom (c t)) \<Longrightarrow> finite (choices db c ts conds)"
  unfolding choices_def by (simp add: finite_PiE)

lemma join_choices:
  assumes n: "db_named db" and ok: "tabs_ok db c (set L \<union> set R)" and fin: "\<forall>t. finite (dom (c t))" and dis: "set L \<inter> set R = {}"
    and C: "\<forall>cond\<in>C. cond_tabs cond \<subseteq> set L" and D: "\<forall>cond\<in>D. cond_tabs cond \<subseteq> set R"
    and E: "\<forall>cond\<in>set conds. cond_ok db cond \<and> cond_tabs cond \<subseteq> set L \<union> set R"
    and l: "tupleLen l = sizes db L" "mset ls = image_mset (joined c L) (mset_set (choices db c (set L) C))"
    and r: "tupleLen r = sizes db R" "mset rs = image_mset (joined c R) (mset_set (choices db c (set R) D))"
    and j: "j_cols j = spread db 0 (L @ R)" "j_conds j = conds"
  shows "pairs l r j ls rs = image_mset (joined c (L @ R)) (mset_set (choices db c (set L \<union> set R) (C \<union> D \<union> set conds)))"
proof -
  let ?A = "choices db c (set L) C" and ?B = "choices db c (set R) D"
  let ?h = "\<lambda>(f, g). join_rec l r (joined c L f) (joined c R g)" and ?m = "merge (set L)"
  let ?S = "{x \<in> ?A \<times> ?B. \<forall>cond\<in>set conds. cond_true db (recs_at c (?m x)) cond}"
  have okL: "tabs_ok db c (set L)" and okR: "tabs_ok db c (set R)" using ok by (simp_all add: tabs_ok_def)
  have finAB: "finite ?A" "finite ?B" using finite_choices fin by blast+
  have h: "?h x = joined c (L @ R) (?m x)" and g: "join_good j (?h x) \<longleftrightarrow> (\<forall>cond\<in>set conds. cond_true db (recs_at c (?m x)) cond)"
    if x: "x \<in> ?A \<times> ?B" for x
  proof -
    obtain f g where p: "x = (f, g)" "f \<in> ?A" "g \<in> ?B" using x by auto
    have m: "recs_at c (?m x) u = recs_at c f u" if "u \<in> set L" for u using that p by (simp add: recs_at_def merge_def)
    have m': "recs_at c (?m x) u = recs_at c g u" if "u \<in> set R" for u using that p dis by (auto simp: recs_at_def merge_def)
    have "joined c L (?m x) = joined c L f" "joined c R (?m x) = joined c R g" using m m' by (simp_all add: joined_def cong: map_cong)
    then show h: "?h x = joined c (L @ R) (?m x)"
      using p length_joined [OF okL p(2)] length_joined [OF okR p(3)] l(1) r(1) by (simp add: join_rec_def joined_def)
    have "\<forall>u\<in>set (L @ R). length (recs_at c (?m x) u) = nat (tab_size db u)"
      using choice_lengths [OF okL p(2)] choice_lengths [OF okR p(3)] m m' by auto
    then show "join_good j (?h x) \<longleftrightarrow> (\<forall>cond\<in>set conds. cond_true db (recs_at c (?m x)) cond)"
      unfolding h unfolding joined_def join_good_def j by (intro eval_rows [OF n, of c]) (use ok E in auto)
  qed
  have "pairs l r j ls rs = filter_mset (join_good j) (image_mset ?h (mset_set (?A \<times> ?B)))"
    unfolding pairs_def by (simp add: mset_product_sets [OF finAB l(2) r(2)] multiset.map_comp comp_def case_prod_unfold)
  also have "\<dots> = image_mset ?h (mset_set {x \<in> ?A \<times> ?B. join_good j (?h x)})"
    using finAB by (simp add: filter_mset_image_mset)
  also have "{x \<in> ?A \<times> ?B. join_good j (?h x)} = ?S" using g by blast
  also have "image_mset ?h (mset_set ?S) = image_mset (joined c (L @ R)) (image_mset ?m (mset_set ?S))"
    unfolding multiset.map_comp by (rule image_mset_cong) (use h finAB in auto)
  also have "image_mset ?m (mset_set ?S) = mset_set (choices db c (set L \<union> set R) (C \<union> D \<union> set conds))"
    using image_mset_mset_set [OF inj_on_subset [OF merge_choices(2) [OF dis C D]], of ?S] merge_choices(1) [OF dis C D] by auto
  finally show ?thesis .
qed

lemma built_rows:
  assumes n: "db_named db" and fin: "\<forall>t. finite (dom (c t))"
  shows "built db p x \<Longrightarrow> placed p \<Longrightarrow> distinct (leaf_names p) \<Longrightarrow> tabs_ok db c (set (leaf_names p)) \<Longrightarrow>
    \<forall>cond\<in>set (plan_conds p). cond_ok db cond \<Longrightarrow> answers c x rs \<Longrightarrow>
    mset rs = image_mset (joined c (leaf_names p)) (mset_set (choices db c (set (leaf_names p)) (set (plan_conds p))))"
proof (induction p arbitrary: x rs)
  case (ScanP s)
  have s: "satisfying (c (sp_tab s)) (tab_cols db (sp_tab s)) (sp_conds s) =
      image_mset (joined c [sp_tab s]) (mset_set (choices db c {sp_tab s} (set (sp_conds s))))"
    using scan_choices [of db c "sp_tab s" "sp_conds s"] n fin ScanP.prems by (simp add: plan_conds_def)
  show ?case using ScanP.prems s by (cases x) (simp_all add: plan_conds_def)
next
  case (JoinP l r conds)
  let ?L = "leaf_names l" and ?R = "leaf_names r"
  obtain xl xr where b: "built db l xl" "built db r xr" "x = new_Join xl xr conds" using JoinP.prems(1) by auto
  let ?j = "\<lparr>j_len = tupleLen xl + tupleLen xr, j_cols = ex_cols xl @ map (\<lambda>col. col\<lparr>cm_offset := cm_offset col + tupleLen xl\<rparr>) (ex_cols xr),
      j_conds = conds, j_isend = False, j_block = [], j_right = None, j_current = None, j_cursor = 0\<rparr>"
  obtain ls rs' where a: "answers c xl ls" "answers c xr rs'" "mset rs = pairs xl xr ?j ls rs'"
    using JoinP.prems(6) b(3) by (auto simp: new_Join_def)
  have pc: "set (plan_conds (JoinP l r conds)) = set (plan_conds l) \<union> set (plan_conds r) \<union> set conds" by (auto simp: plan_conds_def)
  have pl: "\<forall>cond\<in>set (plan_conds q). cond_tabs cond \<subseteq> set (leaf_names q)" if "placed q" for q
    using that by (induction q rule: placed.induct) (auto simp: plan_conds_def)
  have d: "distinct ?L" "distinct ?R" "set ?L \<inter> set ?R = {}" "placed l" "placed r" using JoinP.prems(2,3) by auto
  have ok: "tabs_ok db c (set ?L \<union> set ?R)" "tabs_ok db c (set ?L)" "tabs_ok db c (set ?R)" using JoinP.prems(4) by (auto simp: tabs_ok_def)
  have ml: "mset ls = image_mset (joined c ?L) (mset_set (choices db c (set ?L) (set (plan_conds l))))"
    using JoinP.IH(1) [OF b(1) d(4,1) ok(2) _ a(1)] JoinP.prems(5) pc by blast
  have mr: "mset rs' = image_mset (joined c ?R) (mset_set (choices db c (set ?R) (set (plan_conds r))))"
    using JoinP.IH(2) [OF b(2) d(5,2) ok(3) _ a(2)] JoinP.prems(5) pc by blast
  have cols: "ex_cols x = spread db 0 (?L @ ?R)" using built_cols [OF JoinP.prems(1)] by simp
  have "mset rs = image_mset (joined c (?L @ ?R)) (mset_set (choices db c (set ?L \<union> set ?R)
      (set (plan_conds l) \<union> set (plan_conds r) \<union> set conds)))"
    unfolding a(3)
  proof (rule join_choices [OF n ok(1) fin d(3) pl [OF d(4)] pl [OF d(5)] _ _ ml _ mr])
    show "\<forall>cond\<in>set conds. cond_ok db cond \<and> cond_tabs cond \<subseteq> set ?L \<union> set ?R" using JoinP.prems(2,5) pc by auto
  qed (use built_cols [OF b(1)] built_cols [OF b(2)] cols b(3) in \<open>simp_all add: new_Join_def\<close>)
  then show ?case using pc by simp
qed auto

section \<open>Projections\<close>

lemma position_find: "find P xs = Some x \<Longrightarrow> \<exists>i. position P xs = Some i \<and> i < length xs \<and> xs ! i = x"
  by (induction xs) (auto split: if_splits)

lemma start_of_le:
  assumes "t \<in> set ts" and "\<forall>u\<in>set ts. 0 \<le> tab_size db u"
  shows "start_of db ts t + tab_size db t \<le> sizes db ts"
  using assms
proof (induction ts)
  case (Cons u ts)
  then show ?case using sizes_nonneg [of ts db] by (cases "u = t") auto
qed simp

text \<open>What the loop of the constructor of a projection finds for one column.\<close>

definition picks :: "DbMeta \<Rightarrow> string list \<Rightarrow> ColMeta \<Rightarrow> TabCol \<Rightarrow> bool" where
  "picks db ts c tc \<longleftrightarrow> tc_tab tc \<in> set ts \<and> (\<exists>col. table_col db tc = Inr col \<and> c = shift (start_of db ts (tc_tab tc)) col)"

definition column_of :: "DbMeta \<Rightarrow> string list \<Rightarrow> TabCol \<Rightarrow> bool" where
  "column_of db ts tc \<longleftrightarrow> tc_tab tc \<in> set ts \<and> (\<exists>col. table_col db tc = Inr col)"

lemma get_col_spread:
  assumes n: "db_named db" and ok: "tabs_ok db c (set ts)" and tc: "column_of db ts tc"
  obtains i where "ex_get_col (spread db 0 ts) tc = Inr i" "i < length (spread db 0 ts)" "picks db ts (spread db 0 ts ! i) tc"
proof -
  obtain col where t: "tc_tab tc \<in> set ts" "table_col db tc = Inr col" using tc by (auto simp: column_of_def)
  have m: "\<forall>t\<in>set ts. map_of (tabs db) t \<noteq> None" using ok by (simp add: tabs_ok_def)
  from position_find [OF find_spread [OF n t(2,1) m, of 0]] show thesis using that t by (auto simp: ex_get_col_def picks_def)
qed

lemma picks_place:
  assumes n: "db_named db" and ok: "tabs_ok db c (set ts)" and p: "picks db ts col tc"
  shows "0 \<le> cm_offset col" "cm_offset col + cm_len col \<le> sizes db ts" "len_ok (cm_type col) (cm_len col)"
    "\<forall>u\<in>set ts. length (r u) = nat (tab_size db u) \<Longrightarrow> col_bytes col (concat (map r ts)) = chosen_field db r tc"
proof -
  obtain c0 where t: "tc_tab tc \<in> set ts" "table_col db tc = Inr c0" "col = shift (start_of db ts (tc_tab tc)) c0" using p by (auto simp: picks_def)
  let ?r = "\<lambda>u. replicate (nat (tab_size db u)) (0::byte)"
  have r: "\<forall>u\<in>set ts. length (?r u) = nat (tab_size db u)" by simp
  note b = bytes_row [OF n t(2,1) ok r]
  have z: "\<forall>u\<in>set ts. 0 \<le> tab_size db u" using ok by (simp add: tabs_ok_def)
  show "0 \<le> cm_offset col" "cm_offset col + cm_len col \<le> sizes db ts" "len_ok (cm_type col) (cm_len col)"
    using b(2-5) start_of_le [OF t(1) z] t(3) by simp_all
  show "col_bytes col (concat (map r ts)) = chosen_field db r tc" if "\<forall>u\<in>set ts. length (r u) = nat (tab_size db u)"
    using bytes_row(1) [OF n t(2,1) ok that] t(3) by (simp add: col_bytes_def)
qed

lemma select_cols_spread:
  assumes n: "db_named db" and ok: "tabs_ok db c (set ts)" and "\<forall>tc\<in>set sel. column_of db ts tc"
  shows "\<exists>is cols len. select_cols (spread db 0 ts) off sel = Inr (is, cols, len) \<and> contiguous off cols len \<and>
    list_all2 (\<lambda>i dst. i < length (spread db 0 ts) \<and> cm_len dst = cm_len (spread db 0 ts ! i) \<and> 0 \<le> cm_offset (spread db 0 ts ! i) \<and>
      cm_offset (spread db 0 ts ! i) + cm_len (spread db 0 ts ! i) \<le> sizes db ts \<and> cm_type dst = cm_type (spread db 0 ts ! i)) is cols \<and>
    list_all2 (\<lambda>i. picks db ts (spread db 0 ts ! i)) is sel"
  using assms(3)
proof (induction sel arbitrary: off)
  case (Cons tc sel)
  let ?p = "spread db 0 ts"
  have tc: "column_of db ts tc" using Cons.prems by simp
  obtain i where i: "ex_get_col ?p tc = Inr i" "i < length ?p" "picks db ts (?p ! i) tc" using get_col_spread [OF n ok tc] .
  note b = picks_place [OF n ok i(3)]
  let ?off = "off + cm_len (?p ! i)"
  obtain "is" cols len where IH: "select_cols ?p ?off sel = Inr (is, cols, len)" "contiguous ?off cols len"
    "list_all2 (\<lambda>i dst. i < length ?p \<and> cm_len dst = cm_len (?p ! i) \<and> 0 \<le> cm_offset (?p ! i) \<and>
      cm_offset (?p ! i) + cm_len (?p ! i) \<le> sizes db ts \<and> cm_type dst = cm_type (?p ! i)) is cols"
    "list_all2 (\<lambda>i. picks db ts (?p ! i)) is sel"
    using Cons.IH [of ?off] Cons.prems by auto
  have "select_cols ?p off (tc # sel) = Inr (i # is, (?p ! i)\<lparr>cm_offset := off\<rparr> # cols, len)" using i(1) IH(1) by (simp add: Let_def)
  moreover have "contiguous off ((?p ! i)\<lparr>cm_offset := off\<rparr> # cols) len" using IH(2) len_ok_nonneg [OF b(3)] by simp
  ultimately show ?case using IH(3,4) i(2,3) b(1,2)
    by (intro exI [of _ "i # is"] exI [of _ "(?p ! i)\<lparr>cm_offset := off\<rparr> # cols"] exI [of _ len]) simp
qed simp

lemma chosen_row:
  assumes n: "db_named db" and ok: "tabs_ok db c (set ts)" and r: "\<forall>u\<in>set ts. length (r u) = nat (tab_size db u)"
    and "list_all2 (\<lambda>i. picks db ts (spread db 0 ts ! i)) is sel"
  shows "chosen_fields (spread db 0 ts) is (concat (map r ts)) = sql_row db sel r"
  using assms(4)
  by (induction rule: list_all2_induct) (use picks_place(4) [OF n ok _ r] in \<open>simp_all add: chosen_fields_def sql_row_def\<close>)

text \<open>The text of a projected row.\<close>

lemma format_cong:
  assumes "len_ok (cm_type a) (cm_len a)" and "cm_type b = cm_type a" and "cm_len b = cm_len a" and "take (nat (cm_len a)) x = take (nat (cm_len a)) y"
  shows "format_column_value b x = format_column_value a y"
proof -
  have "take 4 x = take 4 y" if "cm_len a = 4" using assms(4) that by simp
  moreover have "take 8 x = take 8 y" if "cm_len a = 8" using assms(4) that by simp
  ultimately show ?thesis using assms
    by (cases "cm_type a") (simp_all add: format_column_value_def len_ok_def raw_i32_def raw_i64_def raw_float_def)
qed

lemma length_field: "picks db ts col tc \<Longrightarrow> db_named db \<Longrightarrow> tabs_ok db c (set ts) \<Longrightarrow> \<forall>u\<in>set ts. length (r u) = nat (tab_size db u) \<Longrightarrow>
  length (chosen_field db r tc) = nat (cm_len col)"
  using bytes_row(2-4) [of db tc _ ts c r] len_ok_nonneg
  by (fastforce simp: picks_def chosen_field_def col_bytes_def)

lemma row_text_projected:
  assumes n: "db_named db" and ok: "tabs_ok db c (set ts)" and r: "\<forall>u\<in>set ts. length (r u) = nat (tab_size db u)"
    and "list_all2 (\<lambda>dst tc. \<exists>col. picks db ts col tc \<and> cm_len dst = cm_len col \<and> cm_type dst = cm_type col) cols sel"
    and "contiguous (int (length pre)) cols len"
  shows "row_text cols (pre @ sql_row db sel r) = map (field_text db r) sel"
  using assms(4,5)
proof (induction cols sel arbitrary: pre rule: list_all2_induct)
  case (Cons dst cols tc sel)
  obtain col where col: "picks db ts col tc" "cm_len dst = cm_len col" "cm_type dst = cm_type col" using Cons.hyps by blast
  obtain c0 where c0: "table_col db tc = Inr c0" "cm_len c0 = cm_len col" "cm_type c0 = cm_type col" using col(1) by (auto simp: picks_def)
  let ?fld = "chosen_field db r tc"
  have l: "length ?fld = nat (cm_len col)" by (rule length_field [OF col(1) n ok r])
  have lo: "len_ok (cm_type col) (cm_len col)" by (rule picks_place(3) [OF n ok col(1)])
  have off: "cm_offset dst = int (length pre)" "contiguous (int (length (pre @ ?fld))) cols len"
    using Cons.prems col(2) l len_ok_nonneg [OF lo] by simp_all
  have "format_column_value dst (drop (nat (cm_offset dst)) (pre @ ?fld @ sql_row db sel r)) = format_column_value c0 ?fld"
    by (rule format_cong) (use c0 col lo l off(1) in simp_all)
  then show ?case using Cons.IH [OF off(2)] c0(1) by (simp add: row_text_def sql_row_def field_text_def)
qed (simp add: row_text_def sql_row_def)

section \<open>Rows in their order\<close>

lemma mset_image_list: "mset xs = image_mset g M \<Longrightarrow> \<exists>fs. mset fs = M \<and> xs = map g fs"
proof (induction xs arbitrary: M)
  case (Cons x xs)
  have "x \<in># image_mset g M" using Cons.prems by (metis list.set_intros(1) set_mset_mset)
  then obtain m where m: "m \<in># M" "x = g m" by auto
  then obtain N where N: "M = add_mset m N" by (metis insert_DiffM)
  then have "mset xs = image_mset g N" using Cons.prems m(2) by simp
  then obtain fs where "mset fs = N" "xs = map g fs" using Cons.IH by blast
  then show ?case using N m(2) by (intro exI [of _ "m # fs"]) simp
qed simp

lemma mset_list_of_set:
  assumes "finite C" and "mset fs = mset_set C"
  shows "distinct fs" "set fs = C"
proof -
  obtain cs where "set cs = C" "distinct cs" using assms(1) finite_distinct_list by blast
  then show "distinct fs" "set fs = C" using assms(2) mset_set_set [of cs] mset_eq_imp_distinct_iff [of fs cs] mset_eq_setD [of fs cs] by auto
qed

lemma built_choices:
  assumes n: "db_named db" and fin: "\<forall>t. finite (dom (c t))" and b: "built db p x" "placed p" "distinct (leaf_names p)"
    and ok: "tabs_ok db c (set (leaf_names p))" and cs: "same_conds conds (plan_conds p)" "\<forall>cond\<in>set conds. cond_ok db cond"
    and a: "answers c x rs"
  shows "\<exists>fs. distinct fs \<and> set fs = choices db c (set (leaf_names p)) (set conds) \<and> rs = map (joined c (leaf_names p)) fs"
proof -
  let ?C = "choices db c (set (leaf_names p)) (set conds)"
  have "mset rs = image_mset (joined c (leaf_names p)) (mset_set ?C)"
    using built_rows [OF n fin b ok same_conds_true(2) [OF cs] a] choices_same [OF cs] by simp
  then obtain fs where "mset fs = mset_set ?C" "rs = map (joined c (leaf_names p)) fs" using mset_image_list by blast
  moreover have "finite ?C" using finite_choices [of "set (leaf_names p)" c] fin by simp
  ultimately show ?thesis using mset_list_of_set by blast
qed

text \<open>The sort.\<close>

lemma sort_columns_spread:
  assumes n: "db_named db" and ok: "tabs_ok db c (set ts)" and x: "ex_cols x = spread db 0 ts" and "\<forall>k\<in>set keys. column_of db ts (sk_col k)"
  shows "\<exists>cols. sort_columns x keys = Inr (cols, map sk_desc keys) \<and> list_all2 (\<lambda>col k. picks db ts col (sk_col k)) cols keys"
  using assms(4)
proof (induction keys)
  case (Cons k keys)
  then obtain cols where IH: "sort_columns x keys = Inr (cols, map sk_desc keys)" "list_all2 (\<lambda>col k. picks db ts col (sk_col k)) cols keys" by auto
  have tc: "column_of db ts (sk_col k)" using Cons.prems by simp
  obtain i where i: "ex_get_col (spread db 0 ts) (sk_col k) = Inr i" "picks db ts (spread db 0 ts ! i) (sk_col k)"
    using get_col_spread [OF n ok tc] .
  then show ?case using IH x by (intro exI [of _ "(spread db 0 ts ! i) # cols"]) (simp add: get_col_offset_def)
qed simp

lemma field_key_picks:
  assumes n: "db_named db" and ok: "tabs_ok db c (set ts)" and p: "picks db ts col tc" and r: "\<forall>u\<in>set ts. length (r u) = nat (tab_size db u)"
  shows "field_key col (concat (map r ts)) = sort_key_at db r tc"
    "field_fine col (concat (map r ts)) \<longleftrightarrow> raw_ok (cm_type col) (chosen_field db r tc)"
proof -
  obtain c0 where c0: "table_col db tc = Inr c0" "cm_len c0 = cm_len col" "cm_type c0 = cm_type col" using p by (auto simp: picks_def)
  note b = picks_place(3,4) [OF n ok p]
  show "field_key col (concat (map r ts)) = sort_key_at db r tc"
    using raw_key_take [OF b(1), of "drop (nat (cm_offset col)) (concat (map r ts))"] b(2) [OF r] c0
    by (simp add: field_key_def sort_key_at_def col_bytes_def)
  show "field_fine col (concat (map r ts)) \<longleftrightarrow> raw_ok (cm_type col) (chosen_field db r tc)"
    using raw_ok_take [OF b(1), of "drop (nat (cm_offset col)) (concat (map r ts))"] b(2) [OF r]
    by (simp add: field_fine_def col_bytes_def)
qed

lemma key_less_picks:
  assumes n: "db_named db" and ok: "tabs_ok db c (set ts)" and r: "\<forall>u\<in>set ts. length (r u) = nat (tab_size db u)"
    "\<forall>u\<in>set ts. length (r' u) = nat (tab_size db u)" and "list_all2 (\<lambda>col k. picks db ts col (sk_col k)) cols keys"
  shows "key_less cols (map sk_desc keys) (concat (map r ts)) (concat (map r' ts)) = sql_less db keys r r'"
  using assms(5)
  by (induction rule: list_all2_induct) (use field_key_picks(1) [OF n ok] r in simp_all)

lemma sorted_choices:
  assumes n: "db_named db" and ok: "tabs_ok db c (set L)" and k: "list_all2 (\<lambda>col k. picks db L col (sk_col k)) cols keys"
    and fs: "distinct fs" "set fs \<subseteq> choices db c (set L) conds" and o: "ordering cols (map sk_desc keys) (map (joined c L) fs) qs"
  shows "\<exists>gs. distinct gs \<and> set gs = set fs \<and> sorted_wrt (\<lambda>f g. \<not> sql_less db keys (recs_at c g) (recs_at c f)) gs \<and> qs = map (joined c L) gs"
proof -
  have m: "mset qs = image_mset (joined c L) (mset fs)" and srt: "sorted_wrt (\<lambda>a b. \<not> key_less cols (map sk_desc keys) b a) qs"
    using o by (simp_all add: ordering_def)
  obtain gs where gs: "mset gs = mset fs" "qs = map (joined c L) gs" using mset_image_list [OF m] by blast
  have g: "distinct gs" "set gs = set fs" using gs(1) fs(1) mset_eq_imp_distinct_iff mset_eq_setD by blast+
  have len: "\<forall>u\<in>set L. length (recs_at c f u) = nat (tab_size db u)" if "f \<in> set gs" for f
    using choice_lengths [OF ok] that g(2) fs(2) by blast
  have "sorted_wrt (\<lambda>f g. \<not> key_less cols (map sk_desc keys) (joined c L g) (joined c L f)) gs" using srt gs(2) by (simp add: sorted_wrt_map)
  then have "sorted_wrt (\<lambda>f g. \<not> sql_less db keys (recs_at c g) (recs_at c f)) gs"
    by (rule sorted_wrt_mono_rel [rotated]) (use key_less_picks [OF n ok len len k] in \<open>simp add: joined_def\<close>)
  then show ?thesis using g gs(2) by blast
qed

text \<open>
  Columns of different lengths: the comparison reads as many bytes of both sides as the left column has, so \<open>''a''\<close> in a \<^verbatim>\<open>CHAR(1)\<close> column is
  equal to \<open>''ab''\<close> in a \<^verbatim>\<open>CHAR(2)\<close> column, and different when the sides are exchanged, which the planner does as it likes.
\<close>

lemma char_comparison_depends_on_sides:
  "\<exists>cols cond rec. eval_condition cols cond rec = Inr True \<and> eval_condition cols (swap_sides cond) rec = Inr False"
proof -
  let ?a = "\<lparr>cm_tab = ''t'', cm_name = ''a'', cm_type = TYPE_STRING, cm_len = 1, cm_offset = 0, cm_index = False\<rparr>"
  let ?b = "\<lparr>cm_tab = ''t'', cm_name = ''b'', cm_type = TYPE_STRING, cm_len = 2, cm_offset = 1, cm_index = False\<rparr>"
  let ?c = "column_cond ''t'' ''a'' OP_EQ ''t'' ''b''"
  have "strncmp 2 xs ys = strncmp (Suc (Suc 0)) xs ys" for xs ys by (simp only: numeral_2_eq_2)
  then have "eval_condition [?a, ?b] ?c [97, 97, 98] = Inr True" "eval_condition [?a, ?b] (swap_sides ?c) [97, 97, 98] = Inr False"
    by (simp_all add: eval_condition_def column_cond_def swap_sides_def find_col_meta_def compare_raw_value_def)
  then show ?thesis by blast
qed

end
