(* ===== verification/Select_Requests.thy ===== *)
theory Select_Requests
  imports Requests Sql_Meaning
begin

text \<open>
  A \<^verbatim>\<open>SELECT\<close> from the syntax tree to the reply: analysis, plan, executors and printing together give the rows of \<open>sql_rows\<close>, whatever joins
  and indexes the planner has chosen.
\<close>

section \<open>Analysed conditions\<close>

text \<open>
  What the analysis does not check: columns that are compared have one length, two columns of one table are compared only for the
  first table, and no literal is a NaN.
\<close>

definition conds_fine :: "DbMeta \<Rightarrow> string list \<Rightarrow> Condition list \<Rightarrow> bool" where
  "conds_fine db ts conds \<longleftrightarrow> (\<forall>c\<in>set conds.
     if is_rhs_val c then raw_ok (vtype (rhs_val c)) (the (raw (rhs_val c)))
     else (tc_tab (lhs_col c) = tc_tab (rhs_col c) \<longrightarrow> tc_tab (lhs_col c) = hd ts) \<and>
       (\<forall>l r. table_col db (lhs_col c) = Inr l \<longrightarrow> table_col db (rhs_col c) = Inr r \<longrightarrow> cm_len l = cm_len r))"

text \<open>The conditions of a query as its plan and its execution need them.\<close>

definition cond_ready :: "DbMeta \<Rightarrow> string list \<Rightarrow> Condition \<Rightarrow> bool" where
  "cond_ready db ts cond \<longleftrightarrow> cond_ok db cond \<and> cond_tabs cond \<subseteq> set ts \<and>
     (tc_tab (lhs_col cond) = tc_tab (rhs_col cond) \<longrightarrow> cond_tabs cond \<subseteq> {hd ts}) \<and>
     (is_rhs_val cond \<longrightarrow> (\<forall>l. table_col db (lhs_col cond) = Inr l \<longrightarrow> raw_ok (cm_type l) (the (raw (rhs_val cond)))))"

lemma typed_ready:
  assumes n: "db_named db" and t: "cond_typed db ts expr cond" and f: "conds_fine db ts conds" "cond \<in> set conds"
  shows "cond_ready db ts cond"
proof -
  obtain l where l: "col_in db ts (lhs_col cond) l" using t by (auto simp: cond_typed_def)
  then have lt: "tc_tab (lhs_col cond) \<in> set ts" "table_col db (lhs_col cond) = Inr l" by (simp_all add: col_in_def)
  have ne: "tc_tab (lhs_col cond) \<noteq> []" using table_col_find(3) [OF n lt(2)] n by (auto simp: db_named_def)
  show ?thesis
  proof (cases "be_rhs expr")
    case (ValueExpr sv)
    then have v: "is_rhs_val cond" "rhs_col cond = mk_tabcol [] []" "vtype (rhs_val cond) = cm_type l"
      "\<exists>bs. raw (rhs_val cond) = Some bs \<and> length bs = nat (cm_len l)"
      using t lt(2) by (auto simp: cond_typed_def col_in_def value_typed_def)
    then show ?thesis using lt ne f by (auto simp: cond_ready_def cond_ok_def cond_tabs_def conds_fine_def)
  next
    case (ColExpr sc)
    then obtain r where r: "\<not> is_rhs_val cond" "col_in db ts (rhs_col cond) r" "cm_type r = cm_type l"
      using t lt(2) by (auto simp: cond_typed_def col_in_def)
    then show ?thesis using lt f by (force simp: cond_ready_def cond_ok_def cond_tabs_def conds_fine_def col_in_def)
  qed
qed

lemma ready_plannable:
  assumes "db_named db" and "distinct ts" and "ts \<noteq> []" and "\<forall>t\<in>set ts. is_table db t" and "\<forall>c\<in>set conds. cond_ready db ts c"
  shows "plannable db ts conds"
  using assms by (fastforce simp: plannable_def cond_ready_def db_named_def is_table_def)

section \<open>Scans of a plan\<close>

lemma make_scan_leaf:
  assumes "make_scan db t cs = Inr q"
  shows "\<exists>s. q = ScanP s \<and> sp_tab s = t \<and> sp_conds s = cs \<and> (sp_tag s = T_SeqScan \<or> sp_tag s = T_IndexScan \<and>
    (\<exists>tab ix. map_of (tabs db) t = Some tab \<and> ix \<in> set (tm_indexes tab) \<and> sp_index s = map cm_name (im_cols ix)))"
proof -
  obtain tab where tab: "map_of (tabs db) t = Some tab"
    using assms by (auto simp: make_scan_def get_index_cols_def get_table_def bind_r_Inr_iff split: option.splits)
  obtain k names where b: "best_index t cs (tm_indexes tab) 0 [] = (k, names)" by fastforce
  show ?thesis
  proof (cases "k = 0")
    case True
    then show ?thesis using assms tab b by (auto simp: make_scan_def get_index_cols_def get_table_def new_ScanPlan_def)
  next
    case False
    then obtain ix where "ix \<in> set (tm_indexes tab)" "names = map cm_name (im_cols ix)" using best_index_spec(2) [OF b] by auto
    then show ?thesis using assms tab b False by (auto simp: make_scan_def get_index_cols_def get_table_def new_ScanPlan_def)
  qed
qed

definition scan_leaf :: "DbMeta \<Rightarrow> plan \<Rightarrow> bool" where
  "scan_leaf db q \<longleftrightarrow> (\<exists>s. q = ScanP s \<and> (sp_tag s = T_SeqScan \<or> sp_tag s = T_IndexScan \<and>
     (\<exists>tab ix. map_of (tabs db) (sp_tab s) = Some tab \<and> ix \<in> set (tm_indexes tab) \<and> sp_index s = map cm_name (im_cols ix))))"

lemma made_leaf: "make_scan db t cs = Inr q \<Longrightarrow> scan_leaf db q"
  using make_scan_leaf [of db t cs q] by (auto simp: scan_leaf_def)

text \<open>The tables of a state that is fit for queries.\<close>

definition tables_wf :: "sm_state \<Rightarrow> string set \<Rightarrow> bool" where
  "tables_wf st ts \<longleftrightarrow> (\<forall>t\<in>ts. \<exists>tab. tab_wf st t tab)"

lemma layout_end: "layout off cols n \<Longrightarrow> cols \<noteq> [] \<Longrightarrow> cols_end cols = n"
  by (induction cols arbitrary: off) (auto simp: cols_end_def)

lemma table_shape:
  assumes inv: "sm_inv st" and w: "tables_wf st ts" and t: "t \<in> ts"
  shows "\<exists>tab fd k. map_of (tabs (sm_db st)) t = Some tab \<and> tab_wf st t tab \<and> shape st t = Some (fd, tab_size (sm_db st) t, k) \<and>
    layout 0 (tab_cols (sm_db st) t) (tab_size (sm_db st) t) \<and> tab_cols (sm_db st) t = tm_cols tab \<and> tm_cols tab \<noteq> [] \<and> 0 \<le> tab_size (sm_db st) t"
proof -
  obtain tab where tab: "tab_wf st t tab" using w t by (auto simp: tables_wf_def)
  then obtain fd n k where s: "map_of (tabs (sm_db st)) t = Some tab" "shape st t = Some (fd, n, k)" "layout 0 (tm_cols tab) n"
    by (auto simp: tab_wf_def)
  obtain h where "map_of (fhs st) t = Some h" "n = record_size (file_hdr h)" using s(2) by (auto simp: shape_def)
  then have "1 \<le> n" using shape_bounds(3) [OF sm_invD(1) [OF inv]] by simp
  then have c: "tm_cols tab \<noteq> []" using s(3) by (cases "tm_cols tab") auto
  then have "tab_size (sm_db st) t = n" using s layout_end by (simp add: tab_size_def tab_cols_def)
  then show ?thesis using s tab c \<open>1 \<le> n\<close> by (simp add: tab_cols_def)
qed

lemma tables_ok:
  assumes "sm_inv st" and "tables_wf st ts"
  shows "tabs_ok (sm_db st) (contents st) ts"
  unfolding tabs_ok_def
proof
  fix t assume t: "t \<in> ts"
  obtain tab fd k where s: "map_of (tabs (sm_db st)) t = Some tab" "shape st t = Some (fd, tab_size (sm_db st) t, k)"
    "layout 0 (tab_cols (sm_db st) t) (tab_size (sm_db st) t)" "0 \<le> tab_size (sm_db st) t"
    using table_shape [OF assms t] by blast
  then show "map_of (tabs (sm_db st)) t \<noteq> None \<and> 0 \<le> tab_size (sm_db st) t \<and> layout 0 (tab_cols (sm_db st) t) (tab_size (sm_db st) t) \<and>
      (\<forall>q rec. contents st t q = Some rec \<longrightarrow> length rec = nat (tab_size (sm_db st) t))"
    using shape_length [OF sm_invD(1) [OF assms(1)] s(2)] by auto
qed

section \<open>Executors of a plan\<close>

lemma conds_known_spread:
  assumes n: "db_named db" and m: "\<forall>t\<in>set ts. map_of (tabs db) t \<noteq> None" and "\<forall>c\<in>set conds. cond_ok db c \<and> cond_tabs c \<subseteq> set ts"
  shows "conds_known (spread db 0 ts) conds"
  unfolding conds_known_def
proof
  fix c assume "c \<in> set conds"
  then have c: "cond_ok db c" "cond_tabs c \<subseteq> set ts" using assms(3) by auto
  have known: "\<not> isl (find_col_meta (spread db 0 ts) tc)" if "table_col db tc = Inr col" "tc_tab tc \<in> set ts" for tc col
    using find_col_meta_spread [OF n that m] by simp
  obtain l where L: "table_col db (lhs_col c) = Inr l" "tc_tab (lhs_col c) \<in> set ts"
    using c by (auto simp: cond_ok_def cond_tabs_def split: if_splits)
  show "\<not> isl (find_col_meta (spread db 0 ts) (lhs_col c)) \<and>
      (if is_rhs_val c then raw (rhs_val c) \<noteq> None else \<not> isl (find_col_meta (spread db 0 ts) (rhs_col c)))"
  proof (cases "is_rhs_val c")
    case True
    then show ?thesis using known [OF L] c(1) by (auto simp: cond_ok_def)
  next
    case False
    then obtain r where r: "table_col db (rhs_col c) = Inr r" "tc_tab (rhs_col c) \<in> set ts" using c by (auto simp: cond_ok_def cond_tabs_def)
    show ?thesis using known [OF L] known [OF r] False by simp
  qed
qed

lemma named_column:
  assumes n: "db_named db" and t: "map_of (tabs db) t = Some tab" and c: "c' \<in> set (tm_cols tab)"
  shows "table_col db (mk_tabcol t (cm_name c')) = Inr c'"
proof -
  obtain i where i: "find_pos (\<lambda>col. cm_name col = cm_name c') (tm_cols tab) = Some i" "i < length (tm_cols tab)"
      "cm_name (tm_cols tab ! i) = cm_name c'"
    using find_pos_hit [OF c, of "\<lambda>col. cm_name col = cm_name c'"] by auto
  have "inj_on cm_name (set (tm_cols tab))" using n t by (simp add: db_named_def distinct_map)
  from inj_onD [OF this i(3)] have "tm_cols tab ! i = c'" using i(2) c by simp
  then show ?thesis using t i by (simp add: table_col_def get_table_def get_col_def)
qed

lemma index_scan_ready:
  assumes inv: "sm_inv st" and db: "db = sm_db st" and n: "db_named db" and w: "tab_wf st t tab" and ix: "ix \<in> set (tm_indexes tab)"
    and e: "is_tab e = t" "is_cols e = tab_cols db t" "is_names e = map cm_name (im_cols ix)"
    and cs: "\<forall>c\<in>set (is_conds e). cond_ok db c \<and> (is_rhs_val c \<longrightarrow> (\<forall>l. table_col db (lhs_col c) = Inr l \<longrightarrow> raw_ok (cm_type l) (the (raw (rhs_val c)))))"
  shows "index_ready st e"
proof -
  have t: "map_of (tabs db) t = Some tab" using w db by (simp add: tab_wf_def)
  have col: "\<exists>c'. table_col db (mk_tabcol t (cm_name c)) = Inr c' \<and> unmarked c' = unmarked c" if c: "c \<in> set (im_cols ix)" for c
  proof -
    obtain c' where c': "c' \<in> set (tm_cols tab)" "unmarked c = unmarked c'" using w ix c unfolding tab_wf_def by blast
    then show ?thesis using named_column [OF n t c'(1)] unmarked_eq [OF c'(2)] by auto
  qed
  have "\<exists>c'. find_col_meta (is_cols e) (mk_tabcol t (cm_name c)) = Inr c' \<and> unmarked c' = unmarked c" if c: "c \<in> set (im_cols ix)" for c
  proof -
    obtain c' where "table_col db (mk_tabcol t (cm_name c)) = Inr c'" "unmarked c' = unmarked c" using col [OF c] by blast
    then show ?thesis using table_col_find(1) [OF n, of "mk_tabcol t (cm_name c)" c'] e(2) by (simp add: find_col_meta_def)
  qed
  moreover have "values_fit ix t (is_conds e)" unfolding values_fit_def
  proof (intro ballI impI)
    fix cond c assume c: "cond \<in> set (is_conds e)" "c \<in> set (im_cols ix)" "cond_on t c cond"
    obtain c' where c': "table_col db (mk_tabcol t (cm_name c)) = Inr c'" "unmarked c' = unmarked c" using col [OF c(2)] by blast
    have l: "lhs_col cond = mk_tabcol t (cm_name c)" "is_rhs_val cond" using c(3) by (simp_all add: cond_on_def)
    then show "\<exists>bs. raw (rhs_val cond) = Some bs \<and> nat (cm_len c) \<le> length bs \<and> raw_ok (cm_type c) bs"
      using cs c(1) c'(1) unmarked_eq [OF c'(2)] by (fastforce simp: cond_ok_def)
  qed
  moreover have "runtime_index_name t (is_names e) = index_name ix"
    using cat_okD(2) [OF sm_invD(2) [OF inv] _ ix] t db e(3) by (simp add: index_name_def)
  ultimately show ?thesis unfolding index_ready_def using t ix db e(1) by blast
qed

text \<open>The conditions at the nodes of a plan.\<close>

definition node_cond :: "DbMeta \<Rightarrow> Condition \<Rightarrow> bool" where
  "node_cond db c \<longleftrightarrow> cond_ok db c \<and> (is_rhs_val c \<longrightarrow> (\<forall>l. table_col db (lhs_col c) = Inr l \<longrightarrow> raw_ok (cm_type l) (the (raw (rhs_val c)))))"

lemma same_node_conds:
  assumes "same_conds cs ds" and "\<forall>c\<in>set cs. node_cond db c"
  shows "\<forall>d\<in>set ds. node_cond db d"
proof -
  obtain es where es: "mset es = mset ds" "list_all2 same_cond cs es" using assms(1) by (auto simp: same_conds_def)
  have "node_cond db d" if "same_cond c d" "node_cond db c" for c d
    using that same_cond_true [of c d db] by (auto simp: node_cond_def same_cond_def swap_sides_def)
  with es(2) assms(2) have "\<forall>d\<in>set es. node_cond db d" by (induction rule: list_all2_induct) auto
  then show ?thesis using mset_eq_setD [OF es(1)] by simp
qed

lemma built_query_ok:
  assumes inv: "sm_inv st" and db: "db = sm_db st" and n: "db_named db"
  shows "built db p x \<Longrightarrow> placed p \<Longrightarrow> tables_wf st (set (leaf_names p)) \<Longrightarrow> \<forall>q\<in>set (leaves p). scan_leaf db q \<Longrightarrow>
    \<forall>c\<in>set (plan_conds p). node_cond db c \<Longrightarrow> query_ok st x"
proof (induction p arbitrary: x)
  case (ScanP s)
  let ?t = "sp_tab s"
  obtain tab fd k where t: "map_of (tabs db) ?t = Some tab" "tab_wf st ?t tab" "shape st ?t = Some (fd, tab_size db ?t, k)"
    using table_shape [OF inv ScanP.prems(3), of ?t] db by auto
  have c: "\<forall>c\<in>set (sp_conds s). node_cond db c \<and> cond_tabs c \<subseteq> {?t}" using ScanP.prems(2,5) by (auto simp: plan_conds_def)
  then have known: "conds_known (tab_cols db ?t) (sp_conds s)"
    using conds_known_spread [OF n, of "[?t]" "sp_conds s"] t(1) by (simp add: node_cond_def)
  show ?case
  proof (cases x)
    case (SeqScanEx e)
    then show ?thesis using ScanP.prems(1) known t(3) by simp
  next
    case (IndexScanEx e)
    then have e: "is_tab e = ?t" "is_conds e = sp_conds s" "is_cols e = tab_cols db ?t" "is_len e = tab_size db ?t" "is_names e = sp_index s"
      "sp_tag s \<noteq> T_SeqScan" using ScanP.prems(1) by simp_all
    obtain ix where ix: "ix \<in> set (tm_indexes tab)" "sp_index s = map cm_name (im_cols ix)"
      using ScanP.prems(4) e(6) t(1) by (auto simp: scan_leaf_def)
    have "index_ready st e" by (rule index_scan_ready [OF inv db n t(2) ix(1) e(1,3)]) (use e ix c in \<open>auto simp: node_cond_def\<close>)
    then show ?thesis using IndexScanEx known t(3) e by simp
  qed (use ScanP.prems(1) in simp_all)
next
  case (JoinP l r conds)
  obtain xl xr where b: "built db l xl" "built db r xr" "x = new_Join xl xr conds" using JoinP.prems(1) by auto
  have "set (plan_conds l) \<subseteq> set (plan_conds (JoinP l r conds))" "set (plan_conds r) \<subseteq> set (plan_conds (JoinP l r conds))"
    "set conds \<subseteq> set (plan_conds (JoinP l r conds))" by (auto simp: plan_conds_def)
  then have nc: "\<forall>c\<in>set (plan_conds l). node_cond db c" "\<forall>c\<in>set (plan_conds r). node_cond db c" "\<forall>c\<in>set conds. node_cond db c"
    using JoinP.prems(5) by blast+
  have w: "tables_wf st (set (leaf_names l))" "tables_wf st (set (leaf_names r))" using JoinP.prems(3) by (auto simp: tables_wf_def)
  have q: "query_ok st xl" "query_ok st xr"
    using JoinP.IH(1) [OF b(1) _ w(1) _ nc(1)] JoinP.IH(2) [OF b(2) _ w(2) _ nc(2)] JoinP.prems(2,4) by auto
  have m: "\<forall>t\<in>set (leaf_names (JoinP l r conds)). map_of (tabs db) t \<noteq> None"
    using table_shape [OF inv JoinP.prems(3)] db by blast
  have "conds_known (ex_cols x) conds"
    using conds_known_spread [OF n m, of conds] built_cols [OF JoinP.prems(1)] JoinP.prems(2) nc(3) by (simp add: node_cond_def)
  then show ?case using q b(3) by (simp add: new_Join_def)
qed auto

text \<open>Another transaction has a lock that stands in the way of reading one of the tables.\<close>

definition blocked :: "(int \<Rightarrow> LockDataId \<Rightarrow> LockMode option) \<Rightarrow> int \<Rightarrow> engine \<Rightarrow> string set \<Rightarrow> bool" where
  "blocked H p e ts \<longleftrightarrow>
     (\<exists>t\<in>ts. \<exists>u m. u \<noteq> p \<and> H u (table_lock_id (fh_fd (the_handle t e))) = Some m \<and> \<not> compatible SHARED m)"

lemma blocked_locks: "blocked H p (e\<lparr>locks := w\<rparr>) ts = blocked H p e ts"
  by (simp add: blocked_def the_handle_def)

text \<open>Building the executors only takes locks, and fails only when it is blocked.\<close>

definition locked :: "db_contents \<Rightarrow> (int \<Rightarrow> LockDataId \<Rightarrow> LockMode option) \<Rightarrow> int \<Rightarrow> engine \<Rightarrow> string set \<Rightarrow> (executor \<Rightarrow> bool) \<Rightarrow>
    (rmdb_error + executor) \<times> engine \<Rightarrow> bool" where
  "locked c0 H p e ts B res \<longleftrightarrow>
     (\<exists>r w. res = (r, e\<lparr>locks := w\<rparr>) \<and> tx_ok c0 p (e\<lparr>locks := w\<rparr>) \<and> running H p (e\<lparr>locks := w\<rparr>) \<and>
        (case r of Inl x \<Rightarrow> (\<exists>why. x = TransactionAbortException p why) \<and> blocked H p e ts | Inr x \<Rightarrow> B x))"

lemma lock_S_step:
  assumes ok: "tx_ok c0 p e" and run: "running H p e" and cx: "cx_txn cx = Some p"
  shows "\<exists>r w. lock_table_S cx t e = (r, e\<lparr>locks := w\<rparr>) \<and> tx_ok c0 p (e\<lparr>locks := w\<rparr>) \<and> running H p (e\<lparr>locks := w\<rparr>) \<and>
    (r = Inr () \<or> (\<exists>why. r = Inl (TransactionAbortException p why)) \<and> blocked H p e {t})"
proof -
  let ?i = "table_lock_id (fh_fd (the_handle t e))"
  have inv: "eng_inv e" using ok by (simp add: tx_ok_def)
  have l: "lm_inv (locks e)" using run by (simp add: running_def)
  obtain r w where lk: "lock (Some p) ?i SHARED (locks e) = (r, w)" by fastforce
  have tx: "prev_lsn (txns w q) = prev_lsn (txns (locks e) q)" "write_set (txns w q) = write_set (txns (locks e) q)"
    "txn_state (txns w q) = txn_state (txns (locks e) q)" "txn_mode (txns w q) = txn_mode (txns (locks e) q)" for q
    using lk by (auto simp: lock_outcome [OF l] lock_set_insert_def split: if_splits)
  have lw: "lm_inv w" by (rule lm_inv_lock [OF l _ lk]) simp
  have "eng_inv (e\<lparr>locks := w\<rparr>)" using inv lw tx by (simp add: eng_inv_def eng_base_def the_txn_def)
  then have "tx_ok c0 p (e\<lparr>locks := w\<rparr>)" using tx_ok_locks [OF ok] tx by (simp add: the_txn_def)
  moreover have "running H p (e\<lparr>locks := w\<rparr>)"
    using run lw tx holds_locked [OF l lk] by (simp add: running_def open_txn_def the_txn_def)
  moreover have "txn_state (txns (locks e) p) = GROWING" "\<And>u. u \<noteq> p \<Longrightarrow> Lock_Manager.holds (locks e) u ?i = H u ?i"
    using run by (simp_all add: running_def open_txn_def the_txn_def)
  then have "r = Inr True \<or> (\<exists>why. r = Inl (TransactionAbortException p why)) \<and> blocked H p e {t}"
    using lk by (auto simp: lock_outcome [OF l] others_allow_def blocked_def split: if_splits)
  moreover have "lock_table_S cx t e = (case r of Inl x \<Rightarrow> Inl x | Inr _ \<Rightarrow> Inr (), e\<lparr>locks := w\<rparr>)"
    using lk cx by (auto simp: lock_table_S_def on_locks_def zoom_app lock_shared_on_table_def bind_e_app split: sum.splits)
  ultimately show ?thesis by (cases r) auto
qed

lemma feed_conds_own: "\<forall>c\<in>set conds. tc_tab (lhs_col c) = t \<Longrightarrow> feed_conds t conds = Inr conds"
  by (induction conds) auto

lemma index_found:
  assumes "cat_ok db" and "map_of (tabs db) t = Some tab" and "ix \<in> set (tm_indexes tab)"
  shows "\<exists>i. get_index_meta tab (map cm_name (im_cols ix)) = Inr i"
proof -
  have "index_on (map cm_name (im_cols ix)) ix" using cat_okD(3) [OF assms] by (simp add: index_on_def ix_wf_def)
  then show ?thesis using find_pos_hit [OF assms(3), of "index_on (map cm_name (im_cols ix))"] by (auto simp: get_index_meta_def)
qed

lemma convert_scan:
  assumes ok: "tx_ok c0 p e" and run: "running H p e" and cx: "cx_txn cx = Some p" and db: "db = sm_db (sm e)"
    and t: "map_of (tabs db) (sp_tab s) = Some tab" and leaf: "scan_leaf db (ScanP s)" and pl: "placed (ScanP s)"
  shows "locked c0 H p e {sp_tab s} (built db (ScanP s)) (convert_plan_executor cx (ScanP s) e)"
proof -
  let ?t = "sp_tab s"
  have inv: "sm_inv (sm e)" using ok by (simp add: tx_ok_def eng_inv_def)
  obtain h where h: "map_of (fhs (sm e)) ?t = Some h" using sm_invD(4) [OF inv, of ?t] t db by auto
  obtain r w where L: "lock_table_S cx ?t e = (r, e\<lparr>locks := w\<rparr>)" "tx_ok c0 p (e\<lparr>locks := w\<rparr>)" "running H p (e\<lparr>locks := w\<rparr>)"
    "r = Inr () \<or> (\<exists>why. r = Inl (TransactionAbortException p why)) \<and> blocked H p e {?t}"
    using lock_S_step [OF ok run cx] by blast
  have cols: "tab_cols db ?t = tm_cols tab" "tab_size db ?t = cols_end (tm_cols tab)" using t by (simp_all add: tab_cols_def tab_size_def)
  have fed: "feed_conds ?t (sp_conds s) = Inr (sp_conds s)"
    by (rule feed_conds_own) (use pl in \<open>auto simp: cond_tabs_def split: if_splits\<close>)
  have seq: ?thesis if "sp_tag s = T_SeqScan"
    using that L t db h cols by (auto simp: locked_def new_SeqScan_def open_table_def get_table_def)
  have idx: ?thesis if tag: "sp_tag s = T_IndexScan" and ix: "ix \<in> set (tm_indexes tab)" "sp_index s = map cm_name (im_cols ix)" for ix
  proof -
    obtain i where "get_index_meta tab (sp_index s) = Inr i" using index_found [of db ?t tab ix] sm_invD(2) [OF inv] db t ix by auto
    then show ?thesis using tag L t db h cols fed by (auto simp: locked_def new_IndexScan_def get_table_def)
  qed
  show ?thesis using leaf seq idx t by (auto simp: scan_leaf_def)
qed

lemma convert_tree:
  "tx_ok c0 p e \<Longrightarrow> running H p e \<Longrightarrow> cx_txn cx = Some p \<Longrightarrow> db = sm_db (sm e) \<Longrightarrow> \<forall>t\<in>set (leaf_names q). map_of (tabs db) t \<noteq> None \<Longrightarrow>
   \<forall>q\<in>set (leaves q). scan_leaf db q \<Longrightarrow> placed q \<Longrightarrow> locked c0 H p e (set (leaf_names q)) (built db q) (convert_plan_executor cx q e)"
proof (induction q arbitrary: e)
  case (ScanP s)
  then show ?case using convert_scan [of c0 p e H cx db s] by auto
next
  case (JoinP l r conds)
  have "locked c0 H p e (set (leaf_names l)) (built db l) (convert_plan_executor cx l e)"
    by (rule JoinP.IH(1) [OF JoinP.prems(1-4)]) (use JoinP.prems in auto)
  then obtain r1 w1 where 1: "convert_plan_executor cx l e = (r1, e\<lparr>locks := w1\<rparr>)" "tx_ok c0 p (e\<lparr>locks := w1\<rparr>)" "running H p (e\<lparr>locks := w1\<rparr>)"
    "case r1 of Inl x \<Rightarrow> (\<exists>why. x = TransactionAbortException p why) \<and> blocked H p e (set (leaf_names l)) | Inr x \<Rightarrow> built db l x"
    unfolding locked_def by blast
  have bl: "blocked H p e (set (leaf_names (JoinP l r conds)))" if "blocked H p e (set (leaf_names l)) \<or> blocked H p e (set (leaf_names r))"
    using that unfolding blocked_def by auto
  show ?case
  proof (cases r1)
    case (Inl x)
    then show ?thesis using 1 bl by (auto simp: locked_def)
  next
    case (Inr xl)
    have "locked c0 H p (e\<lparr>locks := w1\<rparr>) (set (leaf_names r)) (built db r) (convert_plan_executor cx r (e\<lparr>locks := w1\<rparr>))"
      by (rule JoinP.IH(2) [OF 1(2,3) JoinP.prems(3)]) (use JoinP.prems in auto)
    then obtain r2 w2 where 2: "convert_plan_executor cx r (e\<lparr>locks := w1\<rparr>) = (r2, e\<lparr>locks := w2\<rparr>)" "tx_ok c0 p (e\<lparr>locks := w2\<rparr>)"
      "running H p (e\<lparr>locks := w2\<rparr>)"
      "case r2 of Inl x \<Rightarrow> (\<exists>why. x = TransactionAbortException p why) \<and> blocked H p e (set (leaf_names r)) | Inr x \<Rightarrow> built db r x"
      unfolding locked_def blocked_locks by (simp del: set_map) blast
    show ?thesis using 1 2 Inr bl by (cases r2) (auto simp: locked_def)
  qed
qed simp_all

section \<open>The executors of a query\<close>

text \<open>No field to sort by is a NaN.\<close>

definition sort_fine :: "DbMeta \<Rightarrow> db_contents \<Rightarrow> SortKey list \<Rightarrow> bool" where
  "sort_fine db c keys \<longleftrightarrow> (\<forall>k\<in>set keys. \<forall>col q rec. table_col db (sk_col k) = Inr col \<longrightarrow> c (tc_tab (sk_col k)) q = Some rec \<longrightarrow>
     raw_ok (cm_type col) (col_bytes col rec))"

definition query_ready :: "DbMeta \<Rightarrow> db_contents \<Rightarrow> Query \<Rightarrow> bool" where
  "query_ready db c q \<longleftrightarrow> distinct (q_tables q) \<and> q_tables q \<noteq> [] \<and> (\<forall>t\<in>set (q_tables q). is_table db t) \<and>
     (\<forall>cond\<in>set (q_conds q). cond_ready db (q_tables q) cond) \<and> q_cols q \<noteq> [] \<and> (\<forall>tc\<in>set (q_cols q). column_of db (q_tables q) tc) \<and>
     (\<forall>k\<in>set (q_sort_keys q). column_of db (q_tables q) (sk_col k)) \<and> sort_fine db c (q_sort_keys q)"

text \<open>What is known of the tree of scans and joins of a query.\<close>

definition tree_for :: "DbMeta \<Rightarrow> Query \<Rightarrow> plan \<Rightarrow> bool" where
  "tree_for db q p \<longleftrightarrow> placed p \<and> set (leaf_names p) = set (q_tables q) \<and> distinct (leaf_names p) \<and>
     same_conds (q_conds q) (plan_conds p) \<and> (\<forall>l\<in>set (leaves p). scan_leaf db l)"

lemma plan_tree:
  assumes n: "db_named db" and r: "query_ready db c q"
  obtains p where "make_one_rel db q = Inr p" "tree_for db q p"
proof -
  have "plannable db (q_tables q) (q_conds q)" using ready_plannable [OF n] r by (simp add: query_ready_def)
  from make_one_rel_spec [OF this] obtain p where p: "make_one_rel db q = Inr p" "placed p" "mset (leaf_names p) = mset (q_tables q)"
    "same_conds (q_conds q) (plan_conds p)" "\<forall>l\<in>set (leaves p). \<exists>t cs. make_scan db t cs = Inr l" by blast
  have "distinct (leaf_names p)" using mset_eq_imp_distinct_iff [OF p(3)] r by (simp add: query_ready_def)
  then show thesis using that [OF p(1)] p made_leaf mset_eq_setD [OF p(3)] unfolding tree_for_def by blast
qed

definition sorted_ex :: "Query \<Rightarrow> executor \<Rightarrow> rmdb_error + executor" where
  "sorted_ex q x = (if q_sort_keys q = [] \<and> q_limit q < 0 then Inr x else new_Sort x (q_sort_keys q) (q_limit q))"

text \<open>An executor whose rows are records of the tables one behind the other, those of an answer.\<close>

definition delivers :: "sm_state \<Rightarrow> Query \<Rightarrow> string list \<Rightarrow> executor \<Rightarrow> bool" where
  "delivers st q L y \<longleftrightarrow> query_ok st y \<and> ex_cols y = spread (sm_db st) 0 L \<and> tupleLen y = sizes (sm_db st) L \<and>
     (\<forall>rs. answers (contents st) y rs \<longrightarrow> (\<exists>fs. sql_answer (sm_db st) (contents st) q fs \<and> rs = map (joined (contents st) L) fs))"

lemma sql_answer_subset: "sql_answer db c q fs \<Longrightarrow> set fs \<subseteq> choices db c (set (q_tables q)) (set (q_conds q))"
proof -
  assume "sql_answer db c q fs"
  then obtain all where "set all = choices db c (set (q_tables q)) (set (q_conds q))" "fs = (if q_limit q \<ge> 0 then take (nat (q_limit q)) all else all)"
    unfolding sql_answer_def by blast
  then show ?thesis using set_take_subset [of "nat (q_limit q)" all] by simp
qed

lemma sort_stage:
  assumes inv: "sm_inv st" and db: "db = sm_db st" and n: "db_named db" and w: "tables_wf st (set (q_tables q))"
    and r: "query_ready db (contents st) q" and p: "tree_for db q p" and x: "built db p x"
  shows "\<exists>y. sorted_ex q x = Inr y \<and> delivers st q (leaf_names p) y"
proof -
  let ?L = "leaf_names p" and ?c = "contents st" and ?keys = "q_sort_keys q"
  note P = p [unfolded tree_for_def] and R = r [unfolded query_ready_def]
  have nc: "\<forall>c\<in>set (q_conds q). node_cond db c \<and> cond_ok db c" using R by (simp add: cond_ready_def node_cond_def)
  have w': "tables_wf st (set ?L)" using w P by simp
  have ok: "tabs_ok db ?c (set ?L)" using tables_ok [OF inv w'] db by simp
  have qx: "query_ok st x" using built_query_ok [OF inv db n x _ w'] same_node_conds [of "q_conds q" "plan_conds p" db] P nc by blast
  note cols = built_cols [OF x]
  have ch: "\<exists>fs. distinct fs \<and> set fs = choices db ?c (set ?L) (set (q_conds q)) \<and> rs = map (joined ?c ?L) fs" if "answers ?c x rs" for rs
    using built_choices [OF n _ x _ _ ok _ _ that] P nc finite_contents by blast
  show ?thesis
  proof (cases "?keys = [] \<and> q_limit q < 0")
    case True
    have "\<exists>fs. sql_answer db ?c q fs \<and> rs = map (joined ?c ?L) fs" if "answers ?c x rs" for rs
      using ch [OF that] True P by (auto simp: sql_answer_def sorted_wrt_iff_nth_less)
    then show ?thesis using True qx cols db by (simp add: sorted_ex_def delivers_def)
  next
    case False
    have ks: "\<forall>k\<in>set ?keys. column_of db ?L (sk_col k)" using R P by (simp add: column_of_def)
    obtain scols where sc: "sort_columns x ?keys = Inr (scols, map sk_desc ?keys)" "list_all2 (\<lambda>col k. picks db ?L col (sk_col k)) scols ?keys"
      using sort_columns_spread [OF n ok _ ks] cols by blast
    let ?s = "\<lparr>s_cols = scols, s_desc = map sk_desc ?keys, s_tuples = [], s_out = ex_cols x, s_len = tupleLen x, s_cursor = 0, s_limit = q_limit q\<rparr>"
    have y: "sorted_ex q x = Inr (SortEx x ?s)" using False sc(1) by (auto simp: sorted_ex_def new_Sort_def)
    have "field_fine col rec" if rec: "rec \<in> set (rows (view st) x)" and col: "col \<in> set scols" for rec col
    proof -
      obtain i where i: "i < length scols" "scols ! i = col" using col by (auto simp: in_set_conv_nth)
      have "?keys ! i \<in> set ?keys" "picks db ?L col (sk_col (?keys ! i))"
        using list_all2_nthD [OF sc(2) i(1)] i list_all2_lengthD [OF sc(2)] by simp_all
      then obtain k where k: "k \<in> set ?keys" "picks db ?L col (sk_col k)" by blast
      obtain fs where "set fs = choices db ?c (set ?L) (set (q_conds q))" "rows (view st) x = map (joined ?c ?L) fs"
        using ch [OF rows_answer [OF inv qx]] by blast
      then obtain f where f: "f \<in> choices db ?c (set ?L) (set (q_conds q))" "rec = joined ?c ?L f" using rec by auto
      let ?t = "tc_tab (sk_col k)"
      obtain c0 where c0: "?t \<in> set ?L" "table_col db (sk_col k) = Inr c0" "cm_type c0 = cm_type col" using k(2) by (auto simp: picks_def)
      obtain rc where "?c ?t (f ?t) = Some rc" using f(1) c0(1) by (auto simp: choices_def PiE_iff)
      then have "raw_ok (cm_type c0) (chosen_field db (recs_at ?c f) (sk_col k))"
        using R k(1) c0 by (auto simp: sort_fine_def chosen_field_def recs_at_def)
      then show ?thesis using field_key_picks(2) [OF n ok k(2) choice_lengths [OF ok f(1)]] f(2) c0(3) by (simp add: joined_def)
    qed
    then have "query_ok st (SortEx x ?s)" using qx by simp
    moreover have "\<exists>fs. sql_answer db ?c q fs \<and> rs = map (joined ?c ?L) fs" if ans: "answers ?c (SortEx x ?s) rs" for rs
    proof -
      obtain ps qs where a: "answers ?c x ps" "ordering scols (map sk_desc ?keys) ps qs" "rs = (if q_limit q \<ge> 0 then take (nat (q_limit q)) qs else qs)"
        using ans by auto
      obtain fs where fs: "distinct fs" "set fs = choices db ?c (set ?L) (set (q_conds q))" "ps = map (joined ?c ?L) fs" using ch [OF a(1)] by blast
      obtain gs where gs: "distinct gs" "set gs = set fs" "sorted_wrt (\<lambda>f g. \<not> sql_less db ?keys (recs_at ?c g) (recs_at ?c f)) gs" "qs = map (joined ?c ?L) gs"
        using sorted_choices [OF n ok sc(2) fs(1) _ a(2) [unfolded fs(3)]] fs(2) by blast
      let ?fs = "if q_limit q \<ge> 0 then take (nat (q_limit q)) gs else gs"
      have "sql_answer db ?c q ?fs" unfolding sql_answer_def using gs(1-3) fs(2) P by (intro exI [of _ gs]) simp
      moreover have "rs = map (joined ?c ?L) ?fs" using a(3) gs(4) by (simp add: take_map)
      ultimately show ?thesis by blast
    qed
    ultimately show ?thesis using y cols db by (intro exI [of _ "SortEx x ?s"]) (simp add: delivers_def)
  qed
qed

text \<open>The rows of the projection above it, as they are printed.\<close>

lemma projection_stage:
  assumes inv: "sm_inv st" and db: "db = sm_db st" and n: "db_named db" and ok: "tabs_ok db (contents st) (set L)"
    and d: "delivers st q L y" and L: "set L = set (q_tables q)" and sel: "\<forall>tc\<in>set (q_cols q). column_of db L tc"
  shows "\<exists>s. new_Projection y (q_cols q) = Inr (ProjectionEx y s) \<and> query_ok st (ProjectionEx y s) \<and> length (p_cols s) = length (q_cols q) \<and>
    (\<forall>rs. answers (contents st) (ProjectionEx y s) rs \<longrightarrow> (\<exists>fs. sql_answer db (contents st) q fs \<and>
       map (row_text (p_cols s)) rs = map (\<lambda>f. map (field_text db (recs_at (contents st) f)) (q_cols q)) fs))"
proof -
  let ?p = "spread db 0 L" and ?c = "contents st"
  note D = d [unfolded delivers_def]
  obtain "is" cols len where s: "select_cols ?p 0 (q_cols q) = Inr (is, cols, len)" "contiguous 0 cols len"
    "list_all2 (\<lambda>i dst. i < length ?p \<and> cm_len dst = cm_len (?p ! i) \<and> 0 \<le> cm_offset (?p ! i) \<and>
      cm_offset (?p ! i) + cm_len (?p ! i) \<le> sizes db L \<and> cm_type dst = cm_type (?p ! i)) is cols"
    "list_all2 (\<lambda>i. picks db L (?p ! i)) is (q_cols q)"
    using select_cols_spread [OF n ok sel, of 0] by blast
  let ?s = "\<lparr>p_cols = cols, p_len = len, p_idxs = is\<rparr>"
  have new: "new_Projection y (q_cols q) = Inr (ProjectionEx y ?s)" using s(1) D db by (simp add: new_Projection_def)
  have "projection_ok (ex_cols y) (tupleLen y) ?s"
    using s(2) list_all2_mono [OF s(3)] D db by (auto simp: projection_ok_def elim!: list_all2_mono)
  then have qy: "query_ok st (ProjectionEx y ?s)" using D by simp
  have cols: "list_all2 (\<lambda>dst tc. \<exists>col. picks db L col tc \<and> cm_len dst = cm_len col \<and> cm_type dst = cm_type col) cols (q_cols q)"
    using s(3,4) by (auto simp: list_all2_conv_all_nth)
  have row: "row_text cols (chosen_fields ?p is (joined ?c L f)) = map (field_text db (recs_at ?c f)) (q_cols q)"
    if f: "f \<in> choices db ?c (set L) conds" for f conds
  proof -
    note r = choice_lengths [OF ok f]
    have "chosen_fields ?p is (joined ?c L f) = sql_row db (q_cols q) (recs_at ?c f)"
      unfolding joined_def by (rule chosen_row [OF n ok r s(4)])
    then show ?thesis using row_text_projected [OF n ok r cols, of "[]"] s(2) by simp
  qed
  have "\<exists>fs. sql_answer db ?c q fs \<and> map (row_text cols) rs = map (\<lambda>f. map (field_text db (recs_at ?c f)) (q_cols q)) fs"
    if ans: "answers ?c (ProjectionEx y ?s) rs" for rs
  proof -
    obtain ps where ps: "answers ?c y ps" "rs = map (chosen_fields ?p is) ps" using ans D db by auto
    obtain fs where fs: "sql_answer db ?c q fs" "ps = map (joined ?c L) fs" using ps(1) D db by auto
    have "row_text cols (chosen_fields ?p is (joined ?c L f)) = map (field_text db (recs_at ?c f)) (q_cols q)" if "f \<in> set fs" for f
      using row sql_answer_subset [OF fs(1)] that L by auto
    then show ?thesis using fs ps(2) by (intro exI [of _ fs]) simp
  qed
  then show ?thesis using new qy list_all2_lengthD [OF cols] by (intro exI [of _ ?s]) simp
qed

section \<open>From the syntax tree to the executors\<close>

lemma analysed_query:
  assumes "do_analyze db (AstSelect x) = Inr q"
  shows "q_parse q = AstSelect (x\<lparr>sel_tabs := []\<rparr>)"
  using assms by (auto simp: analyze_select_def bind_r_Inr_iff new_Query_def)

lemma resolves_column: "resolves db ts t c tc \<Longrightarrow> column_of db ts tc"
  by (auto simp: resolves_def column_of_def col_in_def)

lemma analysed_ready:
  assumes inv: "sm_inv st" and db: "db = sm_db st" and n: "db_named db" and w: "tables_wf st (set (sel_tabs x))"
    and ts: "distinct (sel_tabs x)" "sel_tabs x \<noteq> []" and agg: "\<not> list_ex sc_is_agg (sel_cols x)"
    and a: "do_analyze db (AstSelect x) = Inr q" and f: "conds_fine db (sel_tabs x) (q_conds q)" "sort_fine db c (q_sort_keys q)"
  shows "query_ready db c q" "q_tables q = sel_tabs x" "q_aggregates q = []"
proof -
  let ?ts = "sel_tabs x"
  have t: "q_tables q = ?ts" "\<forall>t\<in>set ?ts. is_table db t" "list_all2 (cond_typed db ?ts) (sel_conds x) (q_conds q)"
    "targets_typed db ?ts (sel_cols x) (q_cols q) (q_aggregates q)"
    "list_all2 (\<lambda>item key. resolves db ?ts (sc_tab (ob_col item)) (sc_col (ob_col item)) (sk_col key) \<and>
      sk_desc key = (orderby_dir item = OrderBy_DESC)) (case sel_order x of None \<Rightarrow> [] | Some items \<Rightarrow> items) (q_sort_keys q)"
    using analyze_select_typed [OF n a] by simp_all
  show "q_tables q = ?ts" by (rule t(1))
  have conds: "\<forall>c\<in>set (q_conds q). cond_ready db ?ts c"
    using t(3) typed_ready [OF n _ f(1)] by (metis in_set_conv_nth list_all2_conv_all_nth)
  have keys: "\<forall>k\<in>set (q_sort_keys q). column_of db ?ts (sk_col k)"
    using t(5) resolves_column by (metis (no_types, lifting) in_set_conv_nth list_all2_conv_all_nth)
  have tg: "q_aggregates q = []" "if sel_cols x = [] then q_cols q = map (\<lambda>col. mk_tabcol (cm_tab col) (cm_name col)) (all_cols_of db ?ts)
      else list_all2 (\<lambda>c tc. resolves db ?ts (sc_tab c) (sc_col c) tc) (sel_cols x) (q_cols q)"
    using t(4) agg by (simp_all add: targets_typed_def)
  show "q_aggregates q = []" by (rule tg(1))
  have "q_cols q \<noteq> [] \<and> (\<forall>tc\<in>set (q_cols q). column_of db ?ts tc)"
  proof (cases "sel_cols x = []")
    case True
    then have e: "q_cols q = map (\<lambda>col. mk_tabcol (cm_tab col) (cm_name col)) (all_cols_of db ?ts)" using tg(2) by simp
    have h: "hd ?ts \<in> set ?ts" using ts(2) by simp
    obtain tab where tab: "map_of (tabs db) (hd ?ts) = Some tab" "tm_cols tab \<noteq> []" using table_shape [OF inv w h] db by blast
    have "set (tm_cols tab) \<subseteq> set (all_cols_of db ?ts)" using h tab(1) by (force simp: all_cols_of_def)
    then have "all_cols_of db ?ts \<noteq> []" using tab(2) by (cases "all_cols_of db ?ts") auto
    moreover have "column_of db ?ts (mk_tabcol (cm_tab col) (cm_name col))" if "col \<in> set (all_cols_of db ?ts)" for col
      using col_in_all [OF n that, of "mk_tabcol (cm_tab col) (cm_name col)"] by (auto simp: column_of_def col_in_def)
    ultimately show ?thesis using e by auto
  next
    case False
    then have l: "list_all2 (\<lambda>c tc. resolves db ?ts (sc_tab c) (sc_col c) tc) (sel_cols x) (q_cols q)" using tg(2) by simp
    have "q_cols q \<noteq> []" using list_all2_lengthD [OF l] False by auto
    moreover have "\<forall>tc\<in>set (q_cols q). column_of db ?ts tc"
      using l resolves_column by (metis (no_types, lifting) in_set_conv_nth list_all2_conv_all_nth)
    ultimately show ?thesis by blast
  qed
  then show "query_ready db c q" using ts t(1,2) conds keys f(2) by (simp add: query_ready_def)
qed

lemma select_plan:
  assumes "q_parse q = AstSelect x" and "make_one_rel db q = Inr p" and "q_aggregates q = []"
  shows "plan_query db q = Inr (DMLP T_select (ProjectionP (generate_sort_plan q p) (q_cols q)) [] [] [] [] [])"
  using assms by (simp add: plan_query_def do_planner_def generate_select_plan_def physical_optimization_def logical_optimization_def Let_def)

lemma convert_sorted:
  assumes "convert_plan_executor cx p e = (r, e')"
  shows "convert_plan_executor cx (generate_sort_plan q p) e = (case r of Inl x \<Rightarrow> Inl x | Inr x \<Rightarrow> sorted_ex q x, e')"
  using assms by (cases r) (simp_all add: generate_sort_plan_def sorted_ex_def lift_r_def)

text \<open>The statement up to its printing.\<close>

lemma select_started:
  assumes a: "do_analyze (sm_db (sm (c_eng c1))) (AstSelect x) = Inr q" and pl: "make_one_rel (sm_db (sm (c_eng c1))) q = Inr p"
    and g: "q_aggregates q = []" and cv: "convert_plan_executor (the_context c1) p (c_eng c1) = (r, e2)"
  shows "r = Inl err \<Longrightarrow> run_query fuel junk (AstSelect x) c1 = (Inl err, c1\<lparr>c_eng := e2\<rparr>)"
    "r = Inr y \<Longrightarrow> sorted_ex q y = Inr z \<Longrightarrow> new_Projection z (q_cols q) = Inr root \<Longrightarrow>
      run_query fuel junk (AstSelect x) c1 = select_rows fuel root (q_cols q) (c1\<lparr>c_eng := e2\<rparr>)"
proof -
  note P = select_plan [OF analysed_query [OF a] pl g] and C = convert_sorted [OF cv, of q]
  have S: "run_query fuel junk (AstSelect x) c1 =
      bind_e (on_eng (portal_start fuel (the_context c1) (DMLP T_select (ProjectionP (generate_sort_plan q p) (q_cols q)) [] [] [] [] [])))
        (portal_run fuel junk) c1"
    using a P by (simp add: run_query_def del: do_analyze.simps)
  show "run_query fuel junk (AstSelect x) c1 = (Inl err, c1\<lparr>c_eng := e2\<rparr>)" if "r = Inl err"
    unfolding S using C that by (simp add: portal_start_def on_eng_def zoom_app)
  show "run_query fuel junk (AstSelect x) c1 = select_rows fuel root (q_cols q) (c1\<lparr>c_eng := e2\<rparr>)"
    if "r = Inr y" "sorted_ex q y = Inr z" "new_Projection z (q_cols q) = Inr root"
    unfolding S using C that by (simp add: portal_start_def portal_run_def on_eng_def zoom_app select_from_def)
qed

section \<open>A select as a request\<close>

lemma tx_ok_calm:
  assumes ok: "tx_ok c0 p e" and s: "calm (sm e) s"
  shows "tx_ok c0 p (e\<lparr>sm := s\<rparr>)"
proof -
  have inv: "eng_inv e" "sm_inv (sm e)" using ok by (simp_all add: tx_ok_def eng_inv_def)
  have k: "kept (sm e) s" "contents s = contents (sm e)" using s frame_kept by (auto simp: calm_def)
  have "eng_inv (e\<lparr>sm := s\<rparr>)" by (rule eng_inv_sm [OF inv(1) sm_inv_calm [OF inv(2) s] k(1)])
  then show ?thesis using ok k undoes_kept [OF k(1)] by (simp add: tx_ok_def)
qed

text \<open>
  The reply and the output file of a select: the captions, and a line for each choice of an answer. The file has all of them; the reply is the printed
  table as far as it leaves the reserved room in the buffer, and the number of all the lines.
\<close>

definition select_shown :: "DbMeta \<Rightarrow> db_contents \<Rightarrow> Query \<Rightarrow> string \<Rightarrow> reply \<Rightarrow> bool" where
  "select_shown db c q txt out \<longleftrightarrow>
     (\<exists>fs. sql_answer db c q fs \<and>
        reply_is (reply_text (table_pieces (map tc_col (q_cols q)) (map (\<lambda>f. map (field_text db (recs_at c f)) (q_cols q)) fs)) (length fs)) out \<and>
        outfile out = txt @ file_line (map tc_col (q_cols q)) @
          concat (map (\<lambda>f. file_line (map (field_text db (recs_at c f)) (q_cols q))) fs))"

lemma answer_length:
  assumes "sql_answer db c q fs" and "\<forall>t. finite (dom (c t))"
  shows "length fs \<le> card (choices db c (set (q_tables q)) (set (q_conds q)))"
proof -
  obtain all where "distinct all" "set all = choices db c (set (q_tables q)) (set (q_conds q))" "length fs \<le> length all"
    using assms(1) by (auto simp: sql_answer_def)
  then show ?thesis using distinct_card by metis
qed

text \<open>The database of the statement: well-formed tables, and what the analysis leaves unchecked.\<close>

definition selectable :: "sm_state \<Rightarrow> SelectStmt \<Rightarrow> Query \<Rightarrow> bool" where
  "selectable st x q \<longleftrightarrow> db_named (sm_db st) \<and> tables_wf st (set (sel_tabs x)) \<and> distinct (sel_tabs x) \<and> sel_tabs x \<noteq> [] \<and>
     \<not> list_ex sc_is_agg (sel_cols x) \<and> conds_fine (sm_db st) (sel_tabs x) (q_conds q) \<and> sort_fine (sm_db st) (contents st) (q_sort_keys q) \<and>
     card (choices (sm_db st) (contents st) (set (sel_tabs x)) (set (q_conds q))) < 10 ^ 14"

lemma selectable_kept:
  assumes "kept st st'" and "contents st' = contents st"
  shows "selectable st' x q = selectable st x q"
  using assms tab_wf_kept [OF assms(1)] by (simp add: selectable_def tables_wf_def kept_def)

lemma select_prints:
  assumes inv: "sm_inv (sm (c_eng c))" and s: "selectable (sm (c_eng c)) x q" and a: "do_analyze (sm_db (sm (c_eng c))) (AstSelect x) = Inr q"
    and p: "tree_for (sm_db (sm (c_eng c))) q p" and b: "built (sm_db (sm (c_eng c))) p y" and out: "c_out c = empty_reply txt"
  shows "\<exists>z root n. sorted_ex q y = Inr z \<and> new_Projection z (q_cols q) = Inr root \<and>
    (\<forall>fuel\<ge>n. \<exists>st out. select_rows fuel root (q_cols q) c = (Inr (), c\<lparr>c_eng := (c_eng c)\<lparr>sm := st\<rparr>, c_out := out\<rparr>) \<and> calm (sm (c_eng c)) st \<and>
      select_shown (sm_db (sm (c_eng c))) (contents (sm (c_eng c))) q txt out)"
proof -
  let ?st = "sm (c_eng c)" and ?db = "sm_db (sm (c_eng c))" and ?c = "contents (sm (c_eng c))" and ?L = "leaf_names p"
  note S = s [unfolded selectable_def]
  have q: "query_ready ?db ?c q" "q_tables q = sel_tabs x"
    using analysed_ready [OF inv refl _ _ _ _ _ a, of ?c] S by auto
  have w: "tables_wf ?st (set (q_tables q))" using S q(2) by simp
  obtain z where z: "sorted_ex q y = Inr z" "delivers ?st q ?L z" using sort_stage [OF inv refl _ w q(1) p b] S by blast
  have L: "set ?L = set (q_tables q)" using p by (simp add: tree_for_def)
  have ok: "tabs_ok ?db ?c (set ?L)" using tables_ok [OF inv w] L by simp
  have sel: "\<forall>tc\<in>set (q_cols q). column_of ?db ?L tc" "q_cols q \<noteq> []" using q(1) L by (simp_all add: query_ready_def column_of_def)
  obtain pr where r: "new_Projection z (q_cols q) = Inr (ProjectionEx z pr)" "query_ok ?st (ProjectionEx z pr)" "length (p_cols pr) = length (q_cols q)"
    "\<And>rs. answers ?c (ProjectionEx z pr) rs \<Longrightarrow> \<exists>fs. sql_answer ?db ?c q fs \<and>
       map (row_text (p_cols pr)) rs = map (\<lambda>f. map (field_text ?db (recs_at ?c f)) (q_cols q)) fs"
    using projection_stage [OF inv refl _ ok z(2) L sel(1)] S by blast
  let ?root = "ProjectionEx z pr"
  obtain fs where fs: "sql_answer ?db ?c q fs" "map (row_text (p_cols pr)) (rows (view ?st) ?root) = map (\<lambda>f. map (field_text ?db (recs_at ?c f)) (q_cols q)) fs"
    using r(4) [OF rows_answer [OF inv r(2)]] by blast
  have few: "length (rows (view ?st) ?root) < 10 ^ 14"
    using arg_cong [OF fs(2), of length] answer_length [OF fs(1)] finite_contents S q(2) by simp
  obtain n where n: "\<forall>fuel\<ge>n. wf fuel (view ?st) ?root" using query_wf [OF inv r(2)] by blast
  have lines: "concat (map (\<lambda>q. file_line (row_text (p_cols pr) q)) (rows (view ?st) ?root)) =
      concat (map (\<lambda>f. file_line (map (field_text ?db (recs_at ?c f)) (q_cols q))) fs)"
    using arg_cong [OF fs(2), of "\<lambda>xs. concat (map file_line xs)"] by (simp add: comp_def del: rows.simps)
  have "\<exists>st out. select_rows fuel ?root (q_cols q) c = (Inr (), c\<lparr>c_eng := (c_eng c)\<lparr>sm := st\<rparr>, c_out := out\<rparr>) \<and> calm ?st st \<and>
      select_shown ?db ?c q txt out" if "n \<le> fuel" for fuel
  proof -
    have w': "wf fuel (view ?st) ?root" using n that by blast
    have len: "length (ex_cols ?root) = length (q_cols q)" using r(3) by simp
    have ro: "shows_pieces [] (c_out c)" "outfile (c_out c) = txt" using out shows_pieces_empty by (simp_all add: empty_reply_def)
    obtain st out where o: "select_rows fuel ?root (q_cols q) c = (Inr (), c\<lparr>c_eng := (c_eng c)\<lparr>sm := st\<rparr>, c_out := out\<rparr>)" "calm ?st st"
      "reply_is (reply_text (table_pieces (map tc_col (q_cols q)) (map (row_text (p_cols pr)) (rows (view ?st) ?root))) (length (rows (view ?st) ?root))) out"
      "outfile out = txt @ file_line (map tc_col (q_cols q)) @ concat (map (\<lambda>q. file_line (row_text (p_cols pr) q)) (rows (view ?st) ?root))"
      using select_rows_spec [OF inv w' ro(1) len sel(2) few] unfolding ro(2) ex_cols.simps by blast
    have "length (rows (view ?st) ?root) = length fs" using arg_cong [OF fs(2), of length] by simp
    then have "select_shown ?db ?c q txt out" unfolding select_shown_def
      using o(3) [unfolded fs(2)] o(4) [unfolded lines] fs(1) by (intro exI [of _ fs]) simp
    then show ?thesis using o(1,2) by blast
  qed
  then show ?thesis using z(1) r(1) by blast
qed

lemma select_query:
  assumes c: "c_txn c1 = Some p" and st: "started e p (c_eng c1)" and out: "c_out c1 = empty_reply txt"
    and s: "selectable (sm e) x q" and a: "do_analyze (sm_db (sm e)) (AstSelect x) = Inr q"
  shows "\<exists>n. \<forall>fuel\<ge>n. runs e p (\<lambda>c2. contents (sm (c_eng c2)) = contents (sm e) \<and> select_shown (sm_db (sm e)) (contents (sm e)) q txt (c_out c2))
    (\<not> blocked (Lock_Manager.holds (locks e)) p e (set (sel_tabs x))) (run_query fuel junk (AstSelect x) c1)"
proof -
  let ?e1 = "c_eng c1" and ?db = "sm_db (sm e)" and ?c = "contents (sm e)" and ?H = "Lock_Manager.holds (locks e)"
  note T = st [unfolded started_def]
  have inv: "sm_inv (sm ?e1)" using T by (simp add: tx_ok_def eng_inv_def)
  have same: "sm_db (sm ?e1) = ?db" "contents (sm ?e1) = ?c" using T by (simp_all add: kept_def)
  have s1: "selectable (sm ?e1) x q" using selectable_kept [of "sm e" "sm ?e1"] T s by simp
  have q: "query_ready ?db ?c q" "q_aggregates q = []" "q_tables q = sel_tabs x"
    using analysed_ready [OF inv same(1) [symmetric] _ _ _ _ _ a, of ?c] s1 same by (auto simp: selectable_def)
  have n: "db_named ?db" using s by (simp add: selectable_def)
  obtain pl where pl: "make_one_rel ?db q = Inr pl" "tree_for ?db q pl" using plan_tree [OF n q(1)] .
  have tb: "\<forall>t\<in>set (leaf_names pl). map_of (tabs ?db) t \<noteq> None"
    using pl(2) q(1) by (auto simp: tree_for_def query_ready_def is_table_def)
  have "locked ?c ?H p ?e1 (set (leaf_names pl)) (built ?db pl) (convert_plan_executor (the_context c1) pl ?e1)"
    using convert_tree [of ?c p ?e1 ?H "the_context c1" ?db pl] T c same(1) tb pl(2) by (simp add: the_context_def tree_for_def)
  then obtain r w where cv: "convert_plan_executor (the_context c1) pl ?e1 = (r, ?e1\<lparr>locks := w\<rparr>)" "tx_ok ?c p (?e1\<lparr>locks := w\<rparr>)"
    "running ?H p (?e1\<lparr>locks := w\<rparr>)" "case r of Inl x \<Rightarrow> (\<exists>why. x = TransactionAbortException p why) \<and> blocked ?H p ?e1 (set (leaf_names pl)) | Inr x \<Rightarrow> built ?db pl x"
    unfolding locked_def by blast
  have tabs: "set (leaf_names pl) = set (sel_tabs x)" using pl(2) q(3) by (simp add: tree_for_def)
  have "fh_fd (the_handle t ?e1) = fh_fd (the_handle t e)" if t: "t \<in> set (sel_tabs x)" for t
  proof -
    obtain tab where "tab_wf (sm e) t tab" using s t by (auto simp: selectable_def tables_wf_def)
    then have "map_of (fhs (sm e)) t \<noteq> None" by (auto simp: tab_wf_def shape_def)
    then show ?thesis using kept_handle(2) T by blast
  qed
  then have bl: "blocked ?H p e (set (sel_tabs x))" if "blocked ?H p ?e1 (set (leaf_names pl))" using that unfolding blocked_def tabs by fastforce
  note R = select_started [OF _ _ q(2) cv(1), of x, unfolded same(1), OF a pl(1)]
  show ?thesis
  proof (cases r)
    case (Inl err)
    then have "runs e p Q (\<not> blocked ?H p e (set (sel_tabs x))) (run_query fuel junk (AstSelect x) c1)" for Q fuel
      using R(1) [OF Inl] cv c bl by (auto simp: runs_def caught_def)
    then show ?thesis by blast
  next
    case (Inr y)
    let ?c2 = "c1\<lparr>c_eng := ?e1\<lparr>locks := w\<rparr>\<rparr>"
    obtain z root k where k: "sorted_ex q y = Inr z" "new_Projection z (q_cols q) = Inr root"
      "\<forall>fuel\<ge>k. \<exists>st out. select_rows fuel root (q_cols q) ?c2 = (Inr (), ?c2\<lparr>c_eng := (c_eng ?c2)\<lparr>sm := st\<rparr>, c_out := out\<rparr>) \<and>
        calm (sm ?e1) st \<and> select_shown ?db ?c q txt out"
      using select_prints [of ?c2 x q pl y "txt"] inv s1 a pl(2) cv(4) Inr out same by auto
    have "runs e p (\<lambda>c2. contents (sm (c_eng c2)) = ?c \<and> select_shown ?db ?c q txt (c_out c2))
        (\<not> blocked ?H p e (set (sel_tabs x))) (run_query fuel junk (AstSelect x) c1)"
      if "k \<le> fuel" for fuel
    proof -
      obtain st' out' where o: "select_rows fuel root (q_cols q) ?c2 = (Inr (), ?c2\<lparr>c_eng := (c_eng ?c2)\<lparr>sm := st'\<rparr>, c_out := out'\<rparr>)"
        "calm (sm ?e1) st'" "select_shown ?db ?c q txt out'" using k(3) \<open>k \<le> fuel\<close> by blast
      have "tx_ok ?c p (?e1\<lparr>locks := w, sm := st'\<rparr>)" using tx_ok_calm [OF cv(2)] o(2) by simp
      then show ?thesis using R(2) [OF Inr k(1,2), of fuel junk] o cv(3) c same(2) by (simp add: runs_def calm_def)
    qed
    then show ?thesis by blast
  qed
qed

text \<open>
  C2: a \<^verbatim>\<open>SELECT\<close> request answers the query. The statement names different well-formed tables and selects columns, no aggregates, with any
  \<^verbatim>\<open>ORDER BY\<close> and \<^verbatim>\<open>LIMIT\<close> and with conditions that compare columns of equal length only, and two columns of one table only for the
  first table; it passes the analysis, and no NaN is compared with or sorted by. Then, with enough steps, the request is answered, no table
  changes, and no lock of the request is left. Either its transaction is committed; then the output file has the captions and one line for each choice of one
  record of every table that satisfies all the conditions, sorted by the keys and cut off at the limit, with the text of every selected
  field, whatever joins and indexes the planner has chosen, and the reply is the printed table of these captions and lines, as far as it leaves the
  room reserved in the buffer, followed by the number of all the lines. Or the transaction is aborted, which happens only when
  another transaction has a lock against reading one of the tables.
\<close>

theorem select_request:
  assumes "eng_inv (c_eng c)" and "idle c" and "fresh_id (c_eng c)" and "p = next_txn_id (c_eng c)"
    and "do_analyze (sm_db (sm (c_eng c))) (AstSelect x) = Inr q" and "selectable (sm (c_eng c)) x q"
  shows "\<exists>n. \<forall>fuel\<ge>n. \<exists>c'. handle_request fuel junk (Some (Some (AstSelect x))) True c = (Inr True, c') \<and> eng_inv (c_eng c') \<and>
    contents (sm (c_eng c')) = contents (sm (c_eng c)) \<and>
    (\<forall>u j. Lock_Manager.holds (locks (c_eng c')) u j = (if u = p then None else Lock_Manager.holds (locks (c_eng c)) u j)) \<and>
    (txn_state (the_txn p (c_eng c')) = COMMITTED \<and>
       select_shown (sm_db (sm (c_eng c))) (contents (sm (c_eng c))) q (outfile (c_out c)) (c_out c') \<or>
     txn_state (the_txn p (c_eng c')) = ABORTED \<and> blocked (Lock_Manager.holds (locks (c_eng c))) p (c_eng c) (set (sel_tabs x)))"
proof -
  let ?e = "c_eng c" and ?c0 = "c\<lparr>c_out := empty_reply (outfile (c_out c)), c_txn := None\<rparr>"
  let ?B = "blocked (Lock_Manager.holds (locks (c_eng c))) p (c_eng c) (set (sel_tabs x))"
  let ?Q = "\<lambda>c2. contents (sm (c_eng c2)) = contents (sm ?e) \<and> select_shown (sm_db (sm ?e)) (contents (sm ?e)) q (outfile (c_out c)) (c_out c2)"
  obtain e1 where S: "SetTransaction ?c0 = (Inr (), ?c0\<lparr>c_txn := Some p, c_id := p, c_eng := e1\<rparr>)" "started ?e p e1"
    using SetTransaction_spec [of ?c0 p] assms(1-4) by (auto simp: idle_def)
  let ?c1 = "?c0\<lparr>c_txn := Some p, c_id := p, c_eng := e1\<rparr>"
  obtain n where n: "\<forall>fuel\<ge>n. runs ?e p ?Q (\<not> ?B) (run_query fuel junk (AstSelect x) ?c1)"
    using select_query [of ?c1 p ?e "outfile (c_out c)" x q junk] S(2) assms(5,6) by auto
  have over: "eng_inv (c_eng c') \<and> contents (sm (c_eng c')) = contents (sm ?e) \<and>
      (\<forall>u j. Lock_Manager.holds (locks (c_eng c')) u j = (if u = p then None else Lock_Manager.holds (locks ?e) u j)) \<and>
      (txn_state (the_txn p (c_eng c')) = COMMITTED \<and> select_shown (sm_db (sm ?e)) (contents (sm ?e)) q (outfile (c_out c)) (c_out c') \<or>
       txn_state (the_txn p (c_eng c')) = ABORTED \<and> ?B)"
    if "ended ?e p ?Q c'" "\<not> ?B \<longrightarrow> txn_state (the_txn p (c_eng c')) = COMMITTED" for c'
    using that unfolding ended_def by (cases "?B") auto
  have "\<exists>c'. handle_request fuel junk (Some (Some (AstSelect x))) True c = (Inr True, c') \<and> ended ?e p ?Q c' \<and>
      (\<not> ?B \<longrightarrow> txn_state (the_txn p (c_eng c')) = COMMITTED)" if "n \<le> fuel" for fuel
    by (rule request_spec [OF assms(1-4)]) (use S(1) n that in simp)
  then show ?thesis using over by blast
qed

text \<open>All records of the sample table, which has one.\<close>

definition sample_star :: SelectStmt where
  "sample_star = \<lparr>sel_cols = [], sel_tabs = [''t''], sel_conds = [], sel_order = None, sel_limit = - 1\<rparr>"

definition sample_star_query :: Query where
  "sample_star_query = (new_Query (AstSelect (sample_star\<lparr>sel_tabs := []\<rparr>)))\<lparr>q_tables := [''t''], q_cols := [mk_tabcol ''t'' ''a'', mk_tabcol ''t'' ''s''],
     q_aggregates := [], q_conds := [], q_limit := - 1, q_sort_keys := []\<rparr>"

theorem select_request_witness:
  "\<exists>c n. contents (sm (c_eng c)) ''t'' = [mk_rid 1 0 \<mapsto> replicate 100 7] \<and>
     (\<forall>fuel\<ge>n. \<exists>c'. handle_request fuel (\<lambda>_. 0) (Some (Some (AstSelect sample_star))) True c = (Inr True, c') \<and>
        txn_state (the_txn 2 (c_eng c')) = COMMITTED \<and>
        select_shown (sm_db (sm (c_eng c))) (contents (sm (c_eng c))) sample_star_query [] (c_out c'))"
proof -
  obtain st where st: "sm_inv st" "log_apart st" "contents st = (\<lambda>_. Map.empty)(''t'' := [mk_rid 1 0 \<mapsto> replicate 100 7])" "kept (sample_sm [sample_tix]) st"
    by (rule sample_filled [of "replicate 100 7"]) simp
  let ?c = "(sample_client st)\<lparr>c_txn := None, c_id := INVALID_TXN_ID\<rparr>"
  have e: "c_eng ?c = sample_engine st []" "sm (c_eng ?c) = st" "outfile (c_out ?c) = []" by (simp_all add: sample_client_def sample_engine_def empty_reply_def)
  have db: "sm_db st = sm_db (sample_sm [sample_tix])" using st(4) by (simp add: kept_def)
  have T: "map_of (tabs (sm_db st)) ''t'' = Some sample_table" using sample_tab db by simp
  have ready: "eng_inv (c_eng ?c)" "idle ?c" "fresh_id (c_eng ?c)" "2 = next_txn_id (c_eng ?c)"
    using sample_engine_inv(1) [OF st(1,2), of "[]"] unfolding e(1) fresh_id_def
    by (simp_all add: idle_def) (simp_all add: sample_engine_def int32_range_def)
  have a: "do_analyze (sm_db st) (AstSelect sample_star) = Inr sample_star_query"
    using T by (simp add: sample_star_query_def sample_star_def analyze_select_def is_table_def get_all_cols_def get_table_def analyze_targets_def
        get_clause_def check_clause_def sample_cols_def new_Query_def)
  have nm: "db_named (sm_db st)" by (simp add: db db_named_def sample_sm_def sample_cols_def)
  have "choices (sm_db st) (contents st) {''t''} {} \<subseteq> {restrict (\<lambda>_. mk_rid 1 0) {''t''}}"
    by (auto simp: choices_def st(3) PiE_iff extensional_def fun_eq_iff)
  then have "card (choices (sm_db st) (contents st) {''t''} {}) \<le> 1" using card_mono [of "{restrict (\<lambda>_. mk_rid 1 0) {''t''}}"] by fastforce
  moreover have "tab_wf st ''t'' sample_table" using sample_tab_wf tab_wf_kept [OF st(4)] by simp
  ultimately have s: "selectable st sample_star sample_star_query"
    using nm by (auto simp: selectable_def sample_star_def sample_star_query_def new_Query_def tables_wf_def conds_fine_def sort_fine_def)
  have nb: "\<not> blocked (Lock_Manager.holds (locks (c_eng ?c))) 2 (c_eng ?c) (set (sel_tabs sample_star))"
    unfolding blocked_def e by (simp add: sample_engine_def)
  obtain n where "\<forall>fuel\<ge>n. \<exists>c'. handle_request fuel (\<lambda>_. 0) (Some (Some (AstSelect sample_star))) True ?c = (Inr True, c') \<and>
      txn_state (the_txn 2 (c_eng c')) = COMMITTED \<and> select_shown (sm_db st) (contents st) sample_star_query [] (c_out c')"
    using select_request [OF ready, unfolded e(2,3), OF a s, of "\<lambda>_. 0"] nb by blast
  then show ?thesis using st(3) e(2) by (intro exI [of _ ?c] exI [of _ n]) simp
qed

end
