(* ===== verification/Spec2Isabelle.thy ===== *)
theory Spec2Isabelle
  imports Page_Cache Rm_Store Log_Analysis Dml_Statements Query_Answers Recovery Ix_Index Select_Requests
begin

text \<open>
  A verification development for RMDB, a relational database server written in C++ (\<^verbatim>\<open>src/src\<close>; paths below are relative to
  that directory). A client sends the text of one SQL statement, the server parses, analyses, plans and executes it inside a
  transaction, and sends back a table of rows or a message.

  \<^bold>\<open>The program and the theories that model it\<close>, from the bottom up:

  \<^item> \<open>Rmdb_Prelude\<close>: machine types, little-endian loads and stores, and \<open>sem\<close>, the form of every operation that changes state or
    throws: from a state it gives an exception or a value and, in both cases, a new state, since a C++ exception leaves in
    place what was done before it. \<open>Rmdb_Errors\<close> has the exceptions of \<^verbatim>\<open>errors.h\<close> with their texts, \<open>Rmdb_Config\<close> the constants
    of \<^verbatim>\<open>common/config.h\<close> and \<^verbatim>\<open>defs.h\<close>.
  \<^item> \<open>Posix_Files\<close> and \<open>Disk_Manager\<close> (\<^verbatim>\<open>storage/disk_manager\<close>): files by name and descriptor, page reads and writes, the
    allocator of page numbers and the log file, over a model of the POSIX calls in which every call may fail.
  \<^item> \<open>Lru_Replacer\<close> (\<^verbatim>\<open>replacer\<close>), \<open>Buffer_Pool\<close> and \<open>Page_Cache\<close> (\<^verbatim>\<open>storage/buffer_pool_manager\<close>, \<^verbatim>\<open>storage/page.h\<close>): frames, page
    table, free list, pin counts, eviction and write-back.
  \<^item> \<open>Bitmap\<close>, \<open>Rm_Page\<close>, \<open>Rm_File\<close>, \<open>Rm_Scan\<close> and \<open>Rm_Store\<close> (\<^verbatim>\<open>record\<close>): record files, that is slotted pages with a bitmap, the chain
    of pages with free slots, the file header, and scans.
  \<^item> \<open>Ix_Defs\<close> and \<open>Ix_Index\<close> (\<^verbatim>\<open>index\<close>): index files, their header, nodes and leaf list. The searches and the updates of the tree have
    no bodies in the sources, and no other part of the program uses this directory.
  \<^item> \<open>Rmdb_Values\<close> (\<^verbatim>\<open>common/common.h\<close>), \<open>Exec_Defs\<close> (\<^verbatim>\<open>execution/execution_defs.h\<close>), \<open>Sm_Meta\<close> (\<^verbatim>\<open>system/sm_meta.h\<close>): values, datetime
    literals, comparison of fields, conditions, and the catalogue with its text form.
  \<^item> \<open>Runtime_Index\<close>, \<open>Sm_Manager\<close>, \<open>Sm_Tables\<close>, \<open>Sm_Indexes\<close> and \<open>Sm_Catalog\<close> (\<^verbatim>\<open>system/sm_manager\<close>): the indexes in memory, the table files
    over one buffer pool, and the statements that change the catalogue.
  \<^item> \<open>Txn_Defs\<close>, \<open>Lock_Manager\<close>, \<open>Engine\<close> and \<open>Transaction_Manager\<close> (\<^verbatim>\<open>transaction\<close>, \<^verbatim>\<open>common/context.h\<close>): transaction objects, locks under the
    no-wait policy, begin, commit and rollback. \<open>engine\<close> is the state that all statements share.
  \<^item> \<open>Log_Records\<close>, \<open>Log_Manager\<close>, \<open>Log_Analysis\<close> and \<open>Recovery\<close> (\<^verbatim>\<open>recovery\<close>): the byte format of log records, the log buffer, and the three
    phases of recovery.
  \<^item> \<open>Dml_Executors\<close> and \<open>Dml_Statements\<close> (\<^verbatim>\<open>execution/executor_insert.h\<close>, \<^verbatim>\<open>executor_delete.h\<close>, \<^verbatim>\<open>executor_update.h\<close>), \<open>Query_Executors\<close>,
    \<open>Query_Rows\<close>, \<open>Query_Tree\<close> and \<open>Query_Answers\<close> (scans, join, projection and sort of \<^verbatim>\<open>execution\<close>): the operators.
  \<^item> \<open>Sql_Ast\<close> (\<^verbatim>\<open>parser/ast.h\<close>), \<open>Analyze\<close> (\<^verbatim>\<open>analyze\<close>), \<open>Planner\<close> (\<^verbatim>\<open>optimizer\<close>), \<open>Record_Printer\<close> (\<^verbatim>\<open>record_printer.h\<close>), \<open>Aggregates\<close> and
    \<open>Ql_Manager\<close> (\<^verbatim>\<open>execution/execution_manager.cpp\<close>), \<open>Portal\<close> (\<^verbatim>\<open>portal.h\<close>), \<open>Server\<close> (\<^verbatim>\<open>SetTransaction\<close> and
    \<^verbatim>\<open>client_handler\<close> with its loop over the requests of a connection, of \<^verbatim>\<open>rmdb.cpp\<close>): the way of a statement from its syntax tree to the reply.

  \<^bold>\<open>Correspondence.\<close> A class is a record with the fields of the class, a class hierarchy a datatype with one constructor for each
  subclass, a method a function of the same name with the object as its state; where names of several classes coincide the function
  has a prefix (\<open>ix_\<close>, \<open>txn_\<close>, \<open>portal_\<close>). A pointer is the index or the key under which the model keeps the object (a frame, a transaction
  identifier, a table name), a null pointer is \<open>None\<close>. \<^verbatim>\<open>int\<close> is an integer in the range of 32 bits that wraps where the code can
  overflow, bytes are words of 8 bits, a \<^verbatim>\<open>FLOAT\<close> is its IEEE 754 pattern. A failed \<^verbatim>\<open>assert\<close> is an exception. Every method that takes
  a latch holds it to its end, so concurrent calls are sequences of calls; threads interleave between calls (\<open>lm_run\<close> in
  \<open>Lock_Manager\<close>).

  \<^bold>\<open>Interfaces.\<close> The locale \<open>replacer_contract\<close> is what the buffer pool asks of a replacer and is interpreted on the LRU list; \<open>page_cache\<close> is what
  the clients of the pool rely on (a fetch returns the contents last stored, whatever was evicted) and is interpreted on the
  buffer pool manager; \<open>record_store\<close> is the map from record identifiers to records that a record file implements and is interpreted on
  \<^verbatim>\<open>RmFileHandle\<close>; \<open>iterator\<close> is the contract of the virtual methods of an executor, under which join, projection and sort are verified once,
  and is interpreted on trees of executors of any height.

  \<^bold>\<open>What the lemmas show.\<close>
  \<^item> Storage: the tables of the disk manager stay inverse to each other, a failing \<^verbatim>\<open>close\<close> apart; the pool is consistent after every operation,
    exceptions included, as long as \<^verbatim>\<open>new_page\<close> does not meet a resident page, and is a transparent cache; a record file refines a map, a scan meets each record once and ends; the layouts fit their pages.
  \<^item> Catalogue and indexes: \<^verbatim>\<open>db.meta\<close> is read back as it was written; \<open>sm_inv\<close>, that each index holds exactly the records of its table, no key
    twice, is kept; an index scan finds what a sequential scan finds; raw comparison of fields agrees with the order of the values.
  \<^item> Transactions: the granted locks are compatible, record locks are two-phase, a commit makes the log durable, a rollback gives back
    the contents from before the transaction, whatever statements ran and wherever the last one failed.
  \<^item> Recovery: log records survive serialization; the analysis of a log cut off anywhere finds the whole records before the cut; redo and
    undo leave exactly the changes of the committed transactions, unless a record of a transaction that was rolled back is changed again later
    in the log, where a committed change can be lost.
  \<^item> Queries: an analysed query is well typed; the plan has every table and every condition once, where its columns are visible (conditions between
    two columns of a table other than the first apart); the executors deliver an answer of the operator tree (\<open>answers\<close>); the output file
    has its rows or the aggregates over them, and the reply is the printed table of these (\<open>reply_text\<close>), cut off where the buffer ends.
    \<open>Sql_Meaning\<close> says what a select means without plans: a row for every choice of one record from each table that satisfies the conditions;
    every tree the planner can build has these rows.
  \<^item> Requests, from the syntax tree to the commit (\<open>Requests\<close>, \<open>Select_Requests\<close>): an \<^verbatim>\<open>INSERT\<close> is atomic, leaves no lock, and is carried out when
    nothing stands against it; a \<^verbatim>\<open>SELECT\<close> of columns with joins, \<^verbatim>\<open>ORDER BY\<close> and \<^verbatim>\<open>LIMIT\<close> shows the rows of its meaning.

  \<^bold>\<open>Bounds.\<close> Loops that run until an executor has no more rows take a bound on their steps (\<open>fuel\<close>) and end with \<open>StepLimit\<close> when it is used up; the
  theorems about them show that every bound above the number of rows and of entries suffices. \<open>tree_ops\<close> takes the height of the tree of
  executors, which is computed from the tree. \<open>Undefined\<close> marks what the language leaves undefined (a write past a buffer, a null pointer); the
  theorems show that it is not reached. Numbers of pages are below \<open>2 ^ 31 - 1\<close> where a file grows, as the code's counters need it. Pin counts and
  column offsets are unbounded integers; \<open>counts_upto\<close> shows that an operation on a pool keeps the counts in 32 bits while no page has \<open>2 ^ 31 - 1\<close> pins.

  \<^bold>\<open>Not modelled.\<close> The generated scanner and parser (\<^verbatim>\<open>parser/lex.l\<close>, \<^verbatim>\<open>yacc.y\<close> and the files made from them): the syntax tree is an argument of
  \<open>handle_request\<close>, the function from texts to trees one of \<open>client_handler\<close>. The printing of syntax trees and of debugging output; the sockets, whose results are arguments, the threads, signals and the start of the server in
  \<^verbatim>\<open>rmdb.cpp\<close>, and the client program; \<^verbatim>\<open>create_db\<close>, \<^verbatim>\<open>drop_db\<close>, \<^verbatim>\<open>create_dir\<close> and \<^verbatim>\<open>destroy_dir\<close>, which run shell commands, and the change
  of the working directory in \<^verbatim>\<open>open_db\<close> and \<^verbatim>\<open>close_db\<close>; tests and third-party code.
\<close>

end
